(* ===== verification/Prelude.thy ===== *)
theory Prelude
  imports Main "HOL-Library.Word" "HOL-Library.Char_ord" "HOL-Library.List_Lexorder"
    "HOL-Library.Multiset"
begin

text \<open>
  What every component shares: results with an error value, the checked, saturating and
  wrapping arithmetic of Rust's 64-bit unsigned integers, ordered maps
  (\<^verbatim>\<open>BTreeMap\<close>, \<^verbatim>\<open>imbl::OrdMap\<close>; also \<^verbatim>\<open>HashMap\<close>, whose iteration order no theorem
  depends on) held by value as association lists in key order, and little-endian bytes.
  A Rust \<^verbatim>\<open>String\<close> is the list of its UTF-8 bytes, a byte is a \<^typ>\<open>char\<close>, and the
  bytewise lexicographic order of \<^verbatim>\<open>str\<close> is the order of \<^verbatim>\<open>List_Lexorder\<close>. A
  \<^verbatim>\<open>SystemTime\<close> is its signed distance from the epoch in nanoseconds.
\<close>

named_theorems result_simps "unfolding of sequenced results"
named_theorems om_simps "lookup laws of ordered maps"
named_theorems wf_intros "operations keep the well-formedness of the state"

type_synonym byte = char
type_synonym bytes = "char list"
type_synonym systime = int
type_synonym ('k, 'v) omap = "('k \<times> 'v) list"

section \<open>Results\<close>

definition bindE :: "'e + 'a \<Rightarrow> ('a \<Rightarrow> 'e + 'b) \<Rightarrow> 'e + 'b" where
  "bindE m f = (case m of Inl e \<Rightarrow> Inl e | Inr x \<Rightarrow> f x)"

definition guardE :: "bool \<Rightarrow> 'e \<Rightarrow> 'e + unit" where
  "guardE ok e = (if ok then Inr () else Inl e)"

definition ok_or :: "'e \<Rightarrow> 'a option \<Rightarrow> 'e + 'a" where
  "ok_or e x = (case x of None \<Rightarrow> Inl e | Some v \<Rightarrow> Inr v)"

lemma bindE_simps [simp]:
  "bindE (Inl e) f = Inl e"
  "bindE (Inr x) f = f x"
  by (simp_all add: bindE_def)

lemma bindE_eq_Inr [result_simps]:
  "bindE m f = Inr y \<longleftrightarrow> (\<exists>x. m = Inr x \<and> f x = Inr y)"
  by (cases m) simp_all

lemma guardE_simps [simp]:
  "guardE True e = Inr ()"
  "guardE False e = Inl e"
  by (simp_all add: guardE_def)

lemma guardE_eq_Inr [result_simps]: "guardE b e = Inr u \<longleftrightarrow> b"
  by (simp add: guardE_def)

lemma ok_or_simps [simp]:
  "ok_or e None = Inl e"
  "ok_or e (Some v) = Inr v"
  by (simp_all add: ok_or_def)

lemma ok_or_eq_Inr [result_simps]: "ok_or e x = Inr v \<longleftrightarrow> x = Some v"
  by (cases x) simp_all

text \<open>A loop whose body may return early with an error, and one that runs a counted number of times.\<close>

fun foldE :: "('a \<Rightarrow> 's \<Rightarrow> 'e + 's) \<Rightarrow> 'a list \<Rightarrow> 's \<Rightarrow> 'e + 's" where
  "foldE f [] s = Inr s"
| "foldE f (x # xs) s = bindE (f x s) (foldE f xs)"

fun timesE :: "nat \<Rightarrow> ('s \<Rightarrow> 'e + 's) \<Rightarrow> 's \<Rightarrow> 'e + 's" where
  "timesE 0 f s = Inr s"
| "timesE (Suc n) f s = bindE (f s) (timesE n f)"

lemma foldE_append: "foldE f (xs @ ys) s = bindE (foldE f xs s) (foldE f ys)"
  by (induction xs arbitrary: s) (auto simp: bindE_def split: sum.split)

lemma foldE_invariant:
  assumes "foldE f xs s = Inr s'" "I s" "\<And>x s s'. x \<in> set xs \<Longrightarrow> I s \<Longrightarrow> f x s = Inr s' \<Longrightarrow> I s'"
  shows "I s'"
  using assms
proof (induction xs arbitrary: s)
  case (Cons x xs)
  then show ?case
    by (auto simp: bindE_eq_Inr)
qed simp

lemma timesE_invariant:
  assumes "timesE n f s = Inr s'" "I s" "\<And>s s'. I s \<Longrightarrow> f s = Inr s' \<Longrightarrow> I s'"
  shows "I s'"
  using assms
proof (induction n arbitrary: s)
  case (Suc n)
  then show ?case
    by (auto simp: bindE_eq_Inr)
qed simp

section \<open>64-bit unsigned arithmetic\<close>

definition u64_max :: nat where
  "u64_max = 2 ^ 64 - 1"

definition checked_add64 :: "nat \<Rightarrow> nat \<Rightarrow> nat option" where
  "checked_add64 a b = (if a + b \<le> u64_max then Some (a + b) else None)"

definition checked_mul64 :: "nat \<Rightarrow> nat \<Rightarrow> nat option" where
  "checked_mul64 a b = (if a * b \<le> u64_max then Some (a * b) else None)"

definition saturating_add64 :: "nat \<Rightarrow> nat \<Rightarrow> nat" where
  "saturating_add64 a b = min (a + b) u64_max"

definition wrapping_add64 :: "nat \<Rightarrow> nat \<Rightarrow> nat" where
  "wrapping_add64 a b = (a + b) mod 2 ^ 64"

lemma checked_add64_Some [result_simps]:
  "checked_add64 a b = Some c \<longleftrightarrow> c = a + b \<and> a + b \<le> u64_max"
  by (auto simp: checked_add64_def)

lemma checked_add64_None: "checked_add64 a b = None \<longleftrightarrow> u64_max < a + b"
  by (auto simp: checked_add64_def)

lemma checked_mul64_Some [result_simps]:
  "checked_mul64 a b = Some c \<longleftrightarrow> c = a * b \<and> a * b \<le> u64_max"
  by (auto simp: checked_mul64_def)

lemma saturating_add64_exact: "a + b \<le> u64_max \<Longrightarrow> saturating_add64 a b = a + b"
  by (simp add: saturating_add64_def)

lemma saturating_add64_le: "saturating_add64 a b \<le> u64_max"
  by (simp add: saturating_add64_def)

section \<open>Ordered maps\<close>

definition om_ok :: "('k::linorder, 'v) omap \<Rightarrow> bool" where
  "om_ok m = sorted_wrt (<) (map fst m)"

fun om_insert :: "'k::linorder \<Rightarrow> 'v \<Rightarrow> ('k, 'v) omap \<Rightarrow> ('k, 'v) omap" where
  "om_insert k v [] = [(k, v)]"
| "om_insert k v ((k', v') # m) =
     (if k < k' then (k, v) # (k', v') # m
      else if k = k' then (k, v) # m
      else (k', v') # om_insert k v m)"

definition om_remove :: "'k::linorder \<Rightarrow> ('k, 'v) omap \<Rightarrow> ('k, 'v) omap" where
  "om_remove k m = filter (\<lambda>p. fst p \<noteq> k) m"

text \<open>A sorted set of keys (\<^verbatim>\<open>BTreeSet\<close>) is an ordered map to unit.\<close>

definition os_insert :: "'k::linorder \<Rightarrow> 'k list \<Rightarrow> 'k list" where
  "os_insert k s = map fst (om_insert k () (map (\<lambda>x. (x, ())) s))"

lemma om_lookup_insert [simp, om_simps]: "map_of (om_insert k v m) = (map_of m)(k \<mapsto> v)"
  by (induction m) (auto simp: fun_eq_iff)

lemma om_lookup_remove [simp, om_simps]: "map_of (om_remove k m) = (map_of m)(k := None)"
  by (induction m) (auto simp: om_remove_def fun_eq_iff)

lemma om_ok_Nil [simp]: "om_ok []"
  by (simp add: om_ok_def)

lemma om_ok_Cons: "om_ok (p # m) \<longleftrightarrow> (\<forall>q \<in> set m. fst p < fst q) \<and> om_ok m"
  by (auto simp: om_ok_def)

lemma om_keys_insert [simp]: "fst ` set (om_insert k v m) = insert k (fst ` set m)"
  by (simp flip: dom_map_of_conv_image_fst)

lemma om_keys_remove: "fst ` set (om_remove k m) = fst ` set m - {k}"
  by (auto simp: om_remove_def)

lemma om_set_insertD: "q \<in> set (om_insert k v m) \<Longrightarrow> q = (k, v) \<or> q \<in> set m"
  by (induction m) (auto split: if_splits)

lemma om_ok_insert [intro, wf_intros]: "om_ok m \<Longrightarrow> om_ok (om_insert k v m)"
proof (induction m)
  case (Cons p m)
  then show ?case
    by (cases p) (fastforce simp: om_ok_Cons dest: om_set_insertD)
qed (simp add: om_ok_def)

lemma om_ok_remove [intro, wf_intros]: "om_ok m \<Longrightarrow> om_ok (om_remove k m)"
  unfolding om_ok_def om_remove_def
  by (induction m) auto

lemma om_ok_distinct: "om_ok m \<Longrightarrow> distinct (map fst m)"
  by (simp add: om_ok_def strict_sorted_iff)

lemma om_mem_iff: "om_ok m \<Longrightarrow> (k, v) \<in> set m \<longleftrightarrow> map_of m k = Some v"
  using om_ok_distinct by fastforce

lemma om_ext:
  assumes "om_ok m" "om_ok n" "map_of m = map_of n"
  shows "m = n"
  using assms
proof (induction m arbitrary: n)
  case Nil
  then show ?case
    by (cases n) (auto simp: fun_eq_iff split: if_splits)
next
  case (Cons p m)
  then have "set n = set (p # m)"
    using om_mem_iff by (metis (no_types, lifting) subset_antisym subsetI surj_pair)
  then obtain q n' where n: "n = q # n'"
    by (cases n) auto
  have pq: "p = q"
    using Cons.prems(1,2) \<open>set n = set (p # m)\<close> unfolding n om_ok_Cons
    by (metis list.set_intros(1) order_less_asym set_ConsD)
  have notin: "map_of m (fst p) = None" "map_of n' (fst p) = None"
    using Cons.prems(1,2) n pq by (auto simp: om_ok_Cons map_of_eq_None_iff)
  have "map_of m = (map_of (p # m))(fst p := None)" "map_of n' = (map_of n)(fst p := None)"
    using notin n pq by (cases p; auto simp: fun_eq_iff)+
  then have "map_of m = map_of n'"
    using Cons.prems(3) by metis
  then show ?case
    using Cons.IH [of n'] Cons.prems n pq by (simp add: om_ok_Cons)
qed

lemma om_length_insert:
  "om_ok m \<Longrightarrow> length (om_insert k v m) = (case map_of m k of None \<Rightarrow> Suc (length m) | Some _ \<Rightarrow> length m)"
proof (induction m)
  case (Cons p m)
  have "k < fst p \<Longrightarrow> map_of m k = None"
    using Cons.prems by (force simp: om_ok_Cons map_of_eq_None_iff)
  then show ?case
    using Cons by (cases p) (auto simp: om_ok_Cons split: option.splits)
qed simp

lemma om_length_remove: "length (om_remove k m) \<le> length m"
  by (simp add: om_remove_def)

text \<open>Sums of row weights, in any commutative group: the ring of 64-bit words for the
  image tallies and the integers for the statistics.\<close>

definition om_sum :: "('k \<Rightarrow> 'v \<Rightarrow> 'g::ab_group_add) \<Rightarrow> ('k::linorder, 'v) omap \<Rightarrow> 'g" where
  "om_sum f m = sum_list (map (\<lambda>(k, v). f k v) m)"

definition om_weight :: "('k \<Rightarrow> 'v \<Rightarrow> 'g::ab_group_add) \<Rightarrow> 'k \<Rightarrow> 'v option \<Rightarrow> 'g" where
  "om_weight f k x = (case x of None \<Rightarrow> 0 | Some v \<Rightarrow> f k v)"

lemma om_weight_simps [simp]:
  "om_weight f k None = 0"
  "om_weight f k (Some v) = f k v"
  by (simp_all add: om_weight_def)

lemma om_sum_Nil [simp]: "om_sum f [] = 0"
  by (simp add: om_sum_def)

lemma om_sum_Cons [simp]: "om_sum f ((k, v) # m) = f k v + om_sum f m"
  by (simp add: om_sum_def)

lemma om_sum_insert:
  "om_ok m \<Longrightarrow> om_sum f (om_insert k v m) = om_sum f m + f k v - om_weight f k (map_of m k)"
proof (induction m)
  case (Cons p m)
  have "k < fst p \<Longrightarrow> map_of m k = None"
    using Cons.prems by (force simp: om_ok_Cons map_of_eq_None_iff)
  then show ?case
    using Cons by (cases p) (auto simp: om_ok_Cons algebra_simps)
qed simp

lemma om_sum_remove:
  "om_ok m \<Longrightarrow> om_sum f (om_remove k m) = om_sum f m - om_weight f k (map_of m k)"
proof (induction m)
  case (Cons p m)
  have "fst p = k \<Longrightarrow> map_of m k = None"
    using Cons.prems by (force simp: om_ok_Cons map_of_eq_None_iff)
  then show ?case
    using Cons by (cases p) (auto simp: om_ok_Cons om_remove_def algebra_simps)
qed (simp add: om_remove_def)

text \<open>The contract the components rely on, stated once as an interface.\<close>

locale ordered_map =
  fixes lookup :: "'m \<Rightarrow> 'k \<Rightarrow> 'v option"
    and update :: "'k \<Rightarrow> 'v \<Rightarrow> 'm \<Rightarrow> 'm"
    and delete :: "'k \<Rightarrow> 'm \<Rightarrow> 'm"
    and inv :: "'m \<Rightarrow> bool"
  assumes lookup_update: "inv m \<Longrightarrow> lookup (update k v m) = (lookup m)(k \<mapsto> v)"
    and lookup_delete: "inv m \<Longrightarrow> lookup (delete k m) = (lookup m)(k := None)"
    and inv_update: "inv m \<Longrightarrow> inv (update k v m)"
    and inv_delete: "inv m \<Longrightarrow> inv (delete k m)"
    and extensional: "inv m \<Longrightarrow> inv n \<Longrightarrow> lookup m = lookup n \<Longrightarrow> m = n"
begin

lemma update_update_same: "inv m \<Longrightarrow> update k v (update k w m) = update k v m"
  by (rule extensional) (simp_all add: inv_update lookup_update)

lemma update_commute:
  "inv m \<Longrightarrow> k \<noteq> k' \<Longrightarrow> update k v (update k' w m) = update k' w (update k v m)"
  by (rule extensional) (auto simp: inv_update lookup_update fun_upd_twist)

lemma update_delete_commute:
  "inv m \<Longrightarrow> k \<noteq> k' \<Longrightarrow> update k v (delete k' m) = delete k' (update k v m)"
  by (rule extensional) (auto simp: inv_update inv_delete lookup_update lookup_delete fun_upd_twist)

lemma delete_absent: "inv m \<Longrightarrow> lookup m k = None \<Longrightarrow> delete k m = m"
  by (rule extensional) (auto simp: inv_delete lookup_delete)

lemma update_present: "inv m \<Longrightarrow> lookup m k = Some v \<Longrightarrow> update k v m = m"
  by (rule extensional) (auto simp: inv_update lookup_update)

end

interpretation om: ordered_map map_of om_insert om_remove om_ok
proof unfold_locales
  show "om_ok m \<Longrightarrow> om_ok n \<Longrightarrow> map_of m = map_of n \<Longrightarrow> m = n" for m n :: "('a, 'b) omap"
    by (rule om_ext)
qed auto

lemma os_insert_set [simp]: "set (os_insert k s) = insert k (set s)"
proof -
  have "set (os_insert k s) = fst ` set (om_insert k () (map (\<lambda>x. (x, ())) s))"
    by (simp add: os_insert_def)
  also have "\<dots> = insert k (set s)"
    by (simp only: om_keys_insert) (simp add: image_image)
  finally show ?thesis .
qed

lemma os_insert_sorted: "sorted_wrt (<) s \<Longrightarrow> sorted_wrt (<) (os_insert k s)"
  using om_ok_insert [of "map (\<lambda>x. (x, ())) s" k "()"]
  by (simp add: om_ok_def os_insert_def comp_def)

section \<open>Little-endian bytes\<close>

fun le_bytes :: "nat \<Rightarrow> nat \<Rightarrow> bytes" where
  "le_bytes 0 v = []"
| "le_bytes (Suc n) v = char_of (v mod 256) # le_bytes n (v div 256)"

fun le_val :: "bytes \<Rightarrow> nat" where
  "le_val [] = 0"
| "le_val (b # bs) = of_char b + 256 * le_val bs"

lemma length_le_bytes [simp]: "length (le_bytes n v) = n"
  by (induction n arbitrary: v) simp_all

lemma le_val_le_bytes: "le_val (le_bytes n v) = v mod 256 ^ n"
  by (induction n arbitrary: v) (simp_all add: mod_mult2_eq)

lemma le_val_le_bytes_id [simp]: "v < 256 ^ n \<Longrightarrow> le_val (le_bytes n v) = v"
  by (simp add: le_val_le_bytes)

lemma of_char_less_256: "of_char c < (256 :: nat)"
  by (metis of_char_mod_256 mod_less_divisor zero_less_numeral)

lemma le_val_bound: "le_val bs < 256 ^ length bs"
proof (induction bs)
  case (Cons b bs)
  then show ?case
    using of_char_less_256 [of b] unfolding le_val.simps length_Cons power_Suc by linarith
qed simp

lemma le_bytes_le_val [simp]: "length bs = n \<Longrightarrow> le_bytes n (le_val bs) = bs"
proof (induction bs arbitrary: n)
  case (Cons b bs)
  have "of_char b mod 256 = (of_char b :: nat)" "of_char b div 256 = (0 :: nat)"
    using of_char_less_256 [of b] by simp_all
  then show ?case
    using Cons by (auto simp: mod_simps)
qed simp

text \<open>Two's complement of a signed 64-bit integer.\<close>

definition i64_ok :: "int \<Rightarrow> bool" where
  "i64_ok v = (- (2 ^ 63) \<le> v \<and> v < 2 ^ 63)"

definition i64_bytes :: "int \<Rightarrow> bytes" where
  "i64_bytes v = le_bytes 8 (nat (v mod 2 ^ 64))"

definition i64_val :: "bytes \<Rightarrow> int" where
  "i64_val bs = (let u = le_val bs in if u < 2 ^ 63 then int u else int u - 2 ^ 64)"

lemma length_i64_bytes [simp]: "length (i64_bytes v) = 8"
  by (simp add: i64_bytes_def)

lemma i64_val_bytes:
  assumes "i64_ok v"
  shows "i64_val (i64_bytes v) = v"
proof -
  have lt: "nat (v mod 2 ^ 64) < 256 ^ 8"
    by (simp add: nat_less_iff)
  have "v mod 2 ^ 64 = (if 0 \<le> v then v else v + 2 ^ 64)"
    using assms
    by (auto simp: i64_ok_def intro!: mod_pos_pos_trivial intro: trans [OF mod_add_self2 [symmetric]])
  then show ?thesis
    using assms lt by (auto simp: i64_val_def i64_bytes_def i64_ok_def Let_def)
qed

section \<open>Decimal text\<close>

fun decimal :: "nat \<Rightarrow> string" where
  "decimal n = (if n < 10 then [char_of (48 + n)] else decimal (n div 10) @ [char_of (48 + n mod 10)])"

declare decimal.simps [simp del]

fun undecimal :: "string \<Rightarrow> nat" where
  "undecimal s = fold (\<lambda>c n. 10 * n + (of_char c - 48)) s 0"

lemma undecimal_snoc: "undecimal (s @ [c]) = 10 * undecimal s + (of_char c - 48)"
  by simp

lemma undecimal_decimal: "undecimal (decimal n) = n"
proof (induction n rule: decimal.induct)
  case (1 n)
  show ?case
  proof (cases "n < 10")
    case True
    then show ?thesis
      by (simp add: decimal.simps)
  next
    case False
    have "of_char (char_of (48 + n mod 10)) = 48 + n mod 10"
      by simp
    then show ?thesis
      using False 1 by (subst decimal.simps) (simp only: if_False undecimal_snoc, simp)
  qed
qed

end
