(* ===== verification/Entry.thy ===== *)
theory Entry
  imports Prelude
begin

text \<open>
  One indexed key's metadata (\<^verbatim>\<open>src/src/index.rs\<close>): the entity tag, the HEAD-only
  fields, the row entry, what makes it faithful, origin times, and the O(1) statistics
  the index keeps beside its rows. Entity tags and storage classes are \<^verbatim>\<open>s3s\<close> data
  types: a tag is strong or weak around its raw text, a storage class is its text.
\<close>

datatype etag = Strong string | Weak string

type_synonym metadata = "(string, string) omap"

record obj_meta =
  cache_control :: "string option"
  content_disposition :: "string option"
  content_encoding :: "string option"
  content_language :: "string option"
  user_metadata :: "metadata option"

definition obj_meta_default :: obj_meta where
  "obj_meta_default = \<lparr>cache_control = None, content_disposition = None,
     content_encoding = None, content_language = None, user_metadata = None\<rparr>"

record obj_entry =
  e_size :: "int option"
  e_last_modified :: systime
  e_etag :: "etag option"
  e_storage_class :: string
  e_content_type :: "string option"
  e_meta :: "obj_meta option"

definition standard_class :: string where
  "standard_class = ''STANDARD''"

definition is_faithful :: "obj_entry \<Rightarrow> bool" where
  "is_faithful e \<longleftrightarrow> e_size e \<noteq> None \<and> e_etag e \<noteq> None \<and> e_content_type e \<noteq> None \<and> e_meta e \<noteq> None"

definition nanos_per_sec :: int where
  "nanos_per_sec = 1000000000"

text \<open>Origin times enter the index at whole seconds; a time before the epoch is refused.\<close>

definition origin_time :: "int \<Rightarrow> systime option" where
  "origin_time unix_secs = (if 0 \<le> unix_secs then Some (unix_secs * nanos_per_sec) else None)"

text \<open>The distance a \<^verbatim>\<open>SystemTime\<close> may go below the epoch is 2^63 seconds; a subtraction
  past it fails, as one past the top does for additions.\<close>

definition systime_checked_sub :: "systime \<Rightarrow> int \<Rightarrow> systime option" where
  "systime_checked_sub t d = (if - (2 ^ 63) * nanos_per_sec \<le> t - d then Some (t - d) else None)"

definition systime_checked_add :: "systime \<Rightarrow> int \<Rightarrow> systime option" where
  "systime_checked_add t d = (if t + d < 2 ^ 63 * nanos_per_sec then Some (t + d) else None)"

record entry_fill =
  f_size :: "int option"
  f_etag :: "etag option"
  f_content_type :: "string option"
  f_meta :: obj_meta

datatype completion = NotIndexed | AlreadyComplete | Completed | OtherVersion

section \<open>Statistics\<close>

record index_stats =
  objects :: nat
  logical_bytes :: nat

definition index_stats_default :: index_stats where
  "index_stats_default = \<lparr>objects = 0, logical_bytes = 0\<rparr>"

definition stats_for_entry :: "obj_entry \<Rightarrow> index_stats" where
  "stats_for_entry e = \<lparr>objects = 1,
     logical_bytes = (case e_size e of None \<Rightarrow> 0 | Some s \<Rightarrow> if 0 \<le> s then nat s else 0)\<rparr>"

text \<open>Natural subtraction is \<^verbatim>\<open>saturating_sub\<close>.\<close>

definition stats_replace :: "index_stats \<Rightarrow> index_stats \<Rightarrow> index_stats \<Rightarrow> index_stats" where
  "stats_replace st previous current =
     \<lparr>objects = saturating_add64 (objects st - objects previous) (objects current),
      logical_bytes =
        saturating_add64 (logical_bytes st - logical_bytes previous) (logical_bytes current)\<rparr>"

definition entry_stats_opt :: "obj_entry option \<Rightarrow> index_stats" where
  "entry_stats_opt e = (case e of None \<Rightarrow> index_stats_default | Some e \<Rightarrow> stats_for_entry e)"

lemma stats_default_simps [simp]:
  "objects index_stats_default = 0"
  "logical_bytes index_stats_default = 0"
  by (simp_all add: index_stats_default_def)

lemma entry_stats_opt_simps [simp]:
  "entry_stats_opt None = index_stats_default"
  "entry_stats_opt (Some e) = stats_for_entry e"
  by (simp_all add: entry_stats_opt_def)

lemma stats_for_entry_objects [simp]: "objects (stats_for_entry e) = 1"
  by (simp add: stats_for_entry_def)

lemma index_stats_eqI:
  "objects a = objects b \<Longrightarrow> logical_bytes a = logical_bytes b \<Longrightarrow> a = (b :: index_stats)"
  by simp

lemma entry_stats_fill_keep:
  "e_size e = e_size e' \<Longrightarrow> stats_for_entry e = stats_for_entry e'"
  by (simp add: stats_for_entry_def)

end
