(* ===== verification/Image_Codec.thy ===== *)
theory Image_Codec
  imports Entry
begin

text \<open>
  The bounded byte codec of \<^verbatim>\<open>src/src/index/fleet.rs\<close>: the limited writer, the
  offset reader, the fixed-width fields, the text, time, entity-tag and row fields, the
  shared size and charge accounting, and the wrapping image tally. The allocator is
  taken to grant exactly the capacity reserved. \<^verbatim>\<open>std::mem::size_of\<close> of the Rust types
  is the parameter \<open>lay\<close>; the entity-tag parser of \<^verbatim>\<open>s3s\<close> is the parameter \<open>pe\<close>.
\<close>

datatype image_error = Capacity | Incomplete | Corrupt | Schema

type_synonym 'a ires = "image_error + 'a"

record layout =
  sz_string :: nat
  sz_entry_slot :: nat
  sz_gone_slot :: nat
  sz_bucket_slot :: nat
  sz_state :: nat
  sz_etag :: nat
  sz_class :: nat

record image_caps =
  c_bytes :: nat
  c_decoded_bytes :: nat
  c_buckets :: nat
  c_rows :: nat
  c_name_bytes :: nat

definition caps_validate :: "image_caps \<Rightarrow> image_caps ires" where
  "caps_validate c =
     (if c_bytes c = 0 \<or> c_bytes c > 256 * 2 ^ 20
       \<or> c_decoded_bytes c = 0 \<or> c_decoded_bytes c > 2 ^ 30
       \<or> c_buckets c = 0 \<or> c_buckets c > 4096
       \<or> c_rows c = 0 \<or> c_rows c > 2000000
       \<or> c_name_bytes c = 0 \<or> c_name_bytes c > 16384
      then Inl Capacity else Inr c)"

section \<open>Writer and reader\<close>

record writer =
  w_bytes :: bytes
  w_limit :: nat

definition writer_new :: "nat \<Rightarrow> writer ires" where
  "writer_new limit = (if limit = 0 then Inl Capacity else Inr \<lparr>w_bytes = [], w_limit = limit\<rparr>)"

definition w_put :: "writer \<Rightarrow> bytes \<Rightarrow> writer ires" where
  "w_put w v = (case checked_add64 (length (w_bytes w)) (length v) of
       None \<Rightarrow> Inl Capacity
     | Some e \<Rightarrow> if e > w_limit w then Inl Capacity else Inr (w\<lparr>w_bytes := w_bytes w @ v\<rparr>))"

definition w_u8 :: "writer \<Rightarrow> nat \<Rightarrow> writer ires" where
  "w_u8 w v = w_put w [char_of v]"

definition w_u32 :: "writer \<Rightarrow> nat \<Rightarrow> writer ires" where
  "w_u32 w v = (if v < 2 ^ 32 then w_put w (le_bytes 4 v) else Inl Capacity)"

definition w_u64 :: "writer \<Rightarrow> nat \<Rightarrow> writer ires" where
  "w_u64 w v = w_put w (le_bytes 8 v)"

definition w_i64 :: "writer \<Rightarrow> int \<Rightarrow> writer ires" where
  "w_i64 w v = w_put w (i64_bytes v)"

definition w_text :: "writer \<Rightarrow> string \<Rightarrow> nat \<Rightarrow> writer ires" where
  "w_text w v cap =
     (if v = [] \<or> length v > cap then Inl Capacity
      else bindE (w_u32 w (length v)) (\<lambda>w. w_put w v))"

record reader =
  r_bytes :: bytes
  r_offset :: nat

definition r_take :: "reader \<Rightarrow> nat \<Rightarrow> (bytes \<times> reader) ires" where
  "r_take r n = (case checked_add64 (r_offset r) n of
       None \<Rightarrow> Inl Corrupt
     | Some e \<Rightarrow> if e > length (r_bytes r) then Inl Corrupt
         else Inr (take n (drop (r_offset r) (r_bytes r)), r\<lparr>r_offset := e\<rparr>))"

definition r_u8 :: "reader \<Rightarrow> (nat \<times> reader) ires" where
  "r_u8 r = bindE (r_take r 1) (\<lambda>(b, r). Inr (of_char (hd b), r))"

definition r_u32 :: "reader \<Rightarrow> (nat \<times> reader) ires" where
  "r_u32 r = bindE (r_take r 4) (\<lambda>(b, r). Inr (le_val b, r))"

definition r_u64 :: "reader \<Rightarrow> (nat \<times> reader) ires" where
  "r_u64 r = bindE (r_take r 8) (\<lambda>(b, r). Inr (le_val b, r))"

definition r_i64 :: "reader \<Rightarrow> (int \<times> reader) ires" where
  "r_i64 r = bindE (r_take r 8) (\<lambda>(b, r). Inr (i64_val b, r))"

text \<open>The well-formed byte sequences of \<^verbatim>\<open>std::str::from_utf8\<close>.\<close>

definition in_range :: "nat \<Rightarrow> nat \<Rightarrow> char \<Rightarrow> bool" where
  "in_range lo hi c = (lo \<le> of_char c \<and> (of_char c :: nat) \<le> hi)"

definition utf8_cont :: "char \<Rightarrow> bool" where
  "utf8_cont c = in_range 128 191 c"

definition utf8_width :: "bytes \<Rightarrow> nat option" where
  "utf8_width bs = (case bs of
       [] \<Rightarrow> None
     | a # r1 \<Rightarrow>
         if in_range 0 127 a then Some 1
         else (case r1 of [] \<Rightarrow> None | b # r2 \<Rightarrow>
           if in_range 194 223 a \<and> utf8_cont b then Some 2
           else (case r2 of [] \<Rightarrow> None | c # r3 \<Rightarrow>
             if (in_range 224 224 a \<and> in_range 160 191 b
                 \<or> (in_range 225 236 a \<or> in_range 238 239 a) \<and> utf8_cont b
                 \<or> in_range 237 237 a \<and> in_range 128 159 b) \<and> utf8_cont c then Some 3
             else (case r3 of [] \<Rightarrow> None | d # _ \<Rightarrow>
               if (in_range 240 240 a \<and> in_range 144 191 b
                   \<or> in_range 241 243 a \<and> utf8_cont b
                   \<or> in_range 244 244 a \<and> in_range 128 143 b) \<and> utf8_cont c \<and> utf8_cont d
               then Some 4 else None))))"

lemma utf8_width_pos: "utf8_width bs = Some n \<Longrightarrow> 0 < n \<and> bs \<noteq> []"
  by (auto simp: utf8_width_def split: list.splits if_splits)

function utf8_ok :: "bytes \<Rightarrow> bool" where
  "utf8_ok bs = (bs = [] \<or> (case utf8_width bs of None \<Rightarrow> False | Some n \<Rightarrow> utf8_ok (drop n bs)))"
  by pat_completeness auto
termination
  by (relation "measure length") (auto dest: utf8_width_pos)

declare utf8_ok.simps [simp del]

definition r_text :: "reader \<Rightarrow> nat \<Rightarrow> (string \<times> reader) ires" where
  "r_text r cap =
     bindE (r_u32 r) (\<lambda>(n, r).
       if n = 0 \<or> n > cap then Inl Capacity
       else bindE (r_take r n) (\<lambda>(raw, r).
         if utf8_ok raw then Inr (raw, r) else Inl Corrupt))"

section \<open>Sizes and charges\<close>

definition sumE :: "nat list \<Rightarrow> nat ires" where
  "sumE parts = ok_or Capacity
     (fold (\<lambda>part total. Option.bind total (\<lambda>t. checked_add64 t part)) parts (Some 0))"

definition map_entry_charge :: "nat \<Rightarrow> nat \<Rightarrow> nat ires" where
  "map_entry_charge slot n = ok_or Capacity
     (Option.bind (checked_mul64 n 3) (\<lambda>slots.
      Option.bind (checked_mul64 slots slot) (\<lambda>bytes.
      Option.bind (checked_mul64 n 64) (checked_add64 bytes))))"

record image_size =
  encoded_bytes :: nat
  decoded_bytes :: nat
  rows :: nat

definition TIMESTAMP_BYTES :: nat where
  "TIMESTAMP_BYTES = 12"

definition HEADER_BYTES :: nat where
  "HEADER_BYTES = 1 + 4"

definition text_bytes :: "nat \<Rightarrow> nat ires" where
  "text_bytes len = sumE [4, len]"

definition bucket_slots :: "nat \<Rightarrow> nat ires" where
  "bucket_slots n =
     ok_or Capacity (Option.bind (checked_mul64 n 4) (\<lambda>slots. checked_add64 slots 8))"

definition state_charge :: "layout \<Rightarrow> nat \<Rightarrow> nat ires" where
  "state_charge lay buckets =
     bindE (bucket_slots buckets) (\<lambda>slots.
     bindE (ok_or Capacity (checked_mul64 slots (sz_bucket_slot lay + 16))) (\<lambda>table.
       sumE [sz_state lay, table]))"

definition bucket_charge :: "layout \<Rightarrow> nat \<Rightarrow> nat ires" where
  "bucket_charge lay name = sumE [name, sz_string lay]"

definition entry_charge :: "layout \<Rightarrow> nat \<Rightarrow> nat option \<Rightarrow> nat \<Rightarrow> nat ires" where
  "entry_charge lay key etag class =
     bindE (case etag of
         Some len \<Rightarrow> ok_or Capacity
           (Option.bind (checked_mul64 len 2) (\<lambda>bytes. checked_add64 bytes (sz_etag lay)))
       | None \<Rightarrow> Inr 0) (\<lambda>etag.
     bindE (map_entry_charge (sz_entry_slot lay) 1) (\<lambda>slot.
       sumE [key, slot, etag, class, sz_class lay]))"

definition gone_charge :: "layout \<Rightarrow> nat \<Rightarrow> nat ires" where
  "gone_charge lay key = bindE (map_entry_charge (sz_gone_slot lay) 1) (\<lambda>slot. sumE [key, slot])"

fun etag_wire :: "etag \<Rightarrow> string \<times> string" where
  "etag_wire (Strong raw) = ([CHR 0x22], raw)"
| "etag_wire (Weak raw) = (''W/'' @ [CHR 0x22], raw)"

definition etag_text_len :: "etag \<Rightarrow> nat ires" where
  "etag_text_len v = (case etag_wire v of (prefix, raw) \<Rightarrow> sumE [length prefix, length raw, 1])"

definition entry_bytes :: "nat \<Rightarrow> obj_entry \<Rightarrow> nat ires" where
  "entry_bytes key e =
     bindE (case e_etag e of
         Some t \<Rightarrow> bindE (etag_text_len t) (\<lambda>n. bindE (text_bytes n) (\<lambda>m. Inr (1 + m)))
       | None \<Rightarrow> Inr 1) (\<lambda>etag.
     bindE (text_bytes key) (\<lambda>k.
     bindE (text_bytes (length (e_storage_class e))) (\<lambda>c.
       sumE [k, (if e_size e \<noteq> None then 1 + 8 else 1), TIMESTAMP_BYTES, etag, c])))"

definition gone_bytes :: "nat \<Rightarrow> nat ires" where
  "gone_bytes key = bindE (text_bytes key) (\<lambda>k. sumE [k, TIMESTAMP_BYTES])"

definition bucket_bytes :: "nat \<Rightarrow> nat ires" where
  "bucket_bytes name = bindE (text_bytes name) (\<lambda>n. sumE [n, 4, 4])"

section \<open>The image tally\<close>

record image_tally =
  t_encoded :: "64 word"
  t_decoded :: "64 word"

definition image_tally_default :: image_tally where
  "image_tally_default = \<lparr>t_encoded = 0, t_decoded = 0\<rparr>"

definition unwrap_or_max :: "nat ires \<Rightarrow> 64 word" where
  "unwrap_or_max x = (case x of Inl _ \<Rightarrow> of_nat u64_max | Inr n \<Rightarrow> of_nat n)"

definition tally_entry :: "layout \<Rightarrow> nat \<Rightarrow> obj_entry \<Rightarrow> image_tally" where
  "tally_entry lay key e =
     \<lparr>t_encoded = unwrap_or_max (entry_bytes key e),
      t_decoded = unwrap_or_max
        (bindE (case e_etag e of None \<Rightarrow> Inr None
                | Some t \<Rightarrow> bindE (etag_text_len t) (\<lambda>n. Inr (Some n))) (\<lambda>etag.
           entry_charge lay key etag (length (e_storage_class e))))\<rparr>"

definition tally_tombstone :: "layout \<Rightarrow> nat \<Rightarrow> image_tally" where
  "tally_tombstone lay key =
     \<lparr>t_encoded = unwrap_or_max (gone_bytes key), t_decoded = unwrap_or_max (gone_charge lay key)\<rparr>"

definition tally_add :: "image_tally \<Rightarrow> image_tally \<Rightarrow> image_tally" where
  "tally_add t row = \<lparr>t_encoded = t_encoded t + t_encoded row, t_decoded = t_decoded t + t_decoded row\<rparr>"

definition tally_sub :: "image_tally \<Rightarrow> image_tally \<Rightarrow> image_tally" where
  "tally_sub t row = \<lparr>t_encoded = t_encoded t - t_encoded row, t_decoded = t_decoded t - t_decoded row\<rparr>"

section \<open>Decode budget\<close>

record decode_budget =
  b_used :: nat
  b_limit :: nat

definition budget_new :: "nat \<Rightarrow> decode_budget ires" where
  "budget_new limit = (if limit = 0 then Inl Capacity else Inr \<lparr>b_used = 0, b_limit = limit\<rparr>)"

definition budget_take :: "decode_budget \<Rightarrow> nat \<Rightarrow> decode_budget ires" where
  "budget_take b n = (case checked_add64 (b_used b) n of
       None \<Rightarrow> Inl Capacity
     | Some u \<Rightarrow> if u > b_limit b then Inl Capacity else Inr (b\<lparr>b_used := u\<rparr>))"

section \<open>Times, entity tags and rows\<close>

definition timestamp :: "writer \<Rightarrow> systime \<Rightarrow> writer ires" where
  "timestamp w t =
     (if t < 0 then Inl Corrupt
      else bindE (w_u64 w (nat (t div nanos_per_sec))) (\<lambda>w. w_u32 w (nat (t mod nanos_per_sec))))"

definition read_timestamp :: "reader \<Rightarrow> (systime \<times> reader) ires" where
  "read_timestamp r =
     bindE (r_u64 r) (\<lambda>(seconds, r).
     bindE (r_u32 r) (\<lambda>(nanos, r).
       if int nanos \<ge> nanos_per_sec then Inl Corrupt
       else bindE (ok_or Corrupt (systime_checked_add 0 (int seconds * nanos_per_sec + int nanos)))
         (\<lambda>t. Inr (t, r))))"

definition write_etag :: "writer \<Rightarrow> etag \<Rightarrow> nat \<Rightarrow> writer ires" where
  "write_etag w v cap = (case etag_wire v of (prefix, raw) \<Rightarrow>
     bindE (etag_text_len v) (\<lambda>len.
       if len > cap then Inl Capacity
       else bindE (w_u32 w len) (\<lambda>w.
            bindE (w_put w prefix) (\<lambda>w.
            bindE (w_put w raw) (\<lambda>w. w_put w [CHR 0x22])))))"

definition write_entry :: "writer \<Rightarrow> string \<Rightarrow> obj_entry \<Rightarrow> nat \<Rightarrow> writer ires" where
  "write_entry w key e name_bytes =
     bindE (w_text w key name_bytes) (\<lambda>w.
     bindE (case e_size e of
         Some sz \<Rightarrow> if sz \<ge> 0 then bindE (w_u8 w 1) (\<lambda>w. w_i64 w sz) else Inl Corrupt
       | None \<Rightarrow> w_u8 w 0) (\<lambda>w.
     bindE (timestamp w (e_last_modified e)) (\<lambda>w.
     bindE (case e_etag e of
         Some t \<Rightarrow> bindE (w_u8 w 1) (\<lambda>w. write_etag w t name_bytes)
       | None \<Rightarrow> w_u8 w 0) (\<lambda>w.
       w_text w (e_storage_class e) name_bytes))))"

definition read_entry ::
  "layout \<Rightarrow> (string \<Rightarrow> etag option) \<Rightarrow> reader \<Rightarrow> decode_budget \<Rightarrow> nat
   \<Rightarrow> ((string \<times> obj_entry) \<times> reader \<times> decode_budget) ires" where
  "read_entry lay pe r budget name_bytes =
     bindE (r_text r name_bytes) (\<lambda>(key, r).
     bindE (bindE (r_u8 r) (\<lambda>(tag, r).
         if tag = 0 then Inr (None, r)
         else if tag = 1 then bindE (r_i64 r) (\<lambda>(sz, r).
           if sz < 0 then Inl Corrupt else Inr (Some sz, r))
         else Inl Corrupt)) (\<lambda>(sz, r).
     bindE (read_timestamp r) (\<lambda>(last_modified, r).
     bindE (bindE (r_u8 r) (\<lambda>(tag, r).
         if tag = 0 then Inr (None, r)
         else if tag = 1 then bindE (r_text r name_bytes) (\<lambda>(t, r). Inr (Some t, r))
         else Inl Corrupt)) (\<lambda>(etag, r).
     bindE (r_text r name_bytes) (\<lambda>(class, r).
     bindE (entry_charge lay (length key) (map_option length etag) (length class)) (\<lambda>charge.
     bindE (budget_take budget charge) (\<lambda>budget.
     bindE (case etag of None \<Rightarrow> Inr None
            | Some raw \<Rightarrow> bindE (ok_or Corrupt (pe raw)) (\<lambda>t. Inr (Some t))) (\<lambda>etag.
       Inr ((key, \<lparr>e_size = sz, e_last_modified = last_modified, e_etag = etag,
                   e_storage_class = class, e_content_type = None, e_meta = None\<rparr>),
            r, budget)))))))))"

section \<open>The bytes of each field\<close>

text \<open>Pure descriptions of what each writer appends, against which the writers are proved
  sound and the readers inverse.\<close>

definition enc_u8 :: "nat \<Rightarrow> bytes" where
  "enc_u8 v = [char_of v]"

definition enc_text :: "string \<Rightarrow> bytes" where
  "enc_text s = le_bytes 4 (length s) @ s"

definition enc_time :: "systime \<Rightarrow> bytes" where
  "enc_time t = le_bytes 8 (nat (t div nanos_per_sec)) @ le_bytes 4 (nat (t mod nanos_per_sec))"

definition etag_text :: "etag \<Rightarrow> string" where
  "etag_text t = fst (etag_wire t) @ snd (etag_wire t) @ [CHR 0x22]"

definition enc_size :: "int option \<Rightarrow> bytes" where
  "enc_size x = (case x of None \<Rightarrow> enc_u8 0 | Some s \<Rightarrow> enc_u8 1 @ i64_bytes s)"

definition enc_etag :: "etag option \<Rightarrow> bytes" where
  "enc_etag x = (case x of None \<Rightarrow> enc_u8 0 | Some t \<Rightarrow> enc_u8 1 @ enc_text (etag_text t))"

definition enc_entry :: "string \<Rightarrow> obj_entry \<Rightarrow> bytes" where
  "enc_entry key e = enc_text key @ enc_size (e_size e) @ enc_time (e_last_modified e)
     @ enc_etag (e_etag e) @ enc_text (e_storage_class e)"

definition text_ok :: "nat \<Rightarrow> string \<Rightarrow> bool" where
  "text_ok cap s \<longleftrightarrow> s \<noteq> [] \<and> length s \<le> cap \<and> length s < 2 ^ 32 \<and> utf8_ok s"

definition time_ok :: "systime \<Rightarrow> bool" where
  "time_ok t \<longleftrightarrow> 0 \<le> t \<and> t < 2 ^ 63 * nanos_per_sec"

definition size_ok :: "int option \<Rightarrow> bool" where
  "size_ok x \<longleftrightarrow> (case x of None \<Rightarrow> True | Some s \<Rightarrow> 0 \<le> s \<and> s < 2 ^ 63)"

definition etag_ok :: "nat \<Rightarrow> (string \<Rightarrow> etag option) \<Rightarrow> etag option \<Rightarrow> bool" where
  "etag_ok cap pe x \<longleftrightarrow>
     (case x of None \<Rightarrow> True | Some t \<Rightarrow> text_ok cap (etag_text t) \<and> pe (etag_text t) = Some t)"

definition entry_ok :: "nat \<Rightarrow> (string \<Rightarrow> etag option) \<Rightarrow> string \<Rightarrow> obj_entry \<Rightarrow> bool" where
  "entry_ok cap pe key e \<longleftrightarrow> text_ok cap key \<and> size_ok (e_size e) \<and> time_ok (e_last_modified e)
     \<and> etag_ok cap pe (e_etag e) \<and> text_ok cap (e_storage_class e)"

definition skeletal :: "obj_entry \<Rightarrow> obj_entry" where
  "skeletal e = e\<lparr>e_content_type := None, e_meta := None\<rparr>"

definition w_app :: "writer \<Rightarrow> bytes \<Rightarrow> writer" where
  "w_app w v = w\<lparr>w_bytes := w_bytes w @ v\<rparr>"

definition w_fits :: "writer \<Rightarrow> bytes \<Rightarrow> bool" where
  "w_fits w v \<longleftrightarrow> length (w_bytes w) + length v \<le> w_limit w \<and> w_limit w \<le> u64_max"

definition reader_at :: "bytes \<Rightarrow> bytes \<Rightarrow> reader" where
  "reader_at pre rest = \<lparr>r_bytes = pre @ rest, r_offset = length pre\<rparr>"

subsection \<open>Primitive steps\<close>

lemma w_app_simps [simp]:
  "w_bytes (w_app w v) = w_bytes w @ v"
  "w_limit (w_app w v) = w_limit w"
  "w_app (w_app w u) v = w_app w (u @ v)"
  "w_app w [] = w"
  by (simp_all add: w_app_def)

lemma w_fits_app [simp]: "w_fits (w_app w u) v \<longleftrightarrow> w_fits w (u @ v)"
  by (simp add: w_fits_def add.assoc)

lemma w_fits_append1: "w_fits w (u @ v) \<Longrightarrow> w_fits w u"
  by (simp add: w_fits_def)

lemma w_fits_tag: "w_fits w (u @ v @ x) \<Longrightarrow> w_fits w (u @ v)"
  by (simp add: w_fits_def)

lemma w_put_Inr:
  "w_put w v = Inr w' \<longleftrightarrow> length (w_bytes w) + length v \<le> u64_max
     \<and> length (w_bytes w) + length v \<le> w_limit w \<and> w' = w_app w v"
  by (auto simp: w_put_def w_app_def checked_add64_def split: option.splits)

lemma w_put_fits: "w_fits w v \<Longrightarrow> w_put w v = Inr (w_app w v)"
  by (simp add: w_put_Inr w_fits_def)

lemma r_take_at:
  "length pre + n \<le> u64_max \<Longrightarrow> length v = n \<Longrightarrow>
     r_take (reader_at pre (v @ rest)) n = Inr (v, reader_at (pre @ v) rest)"
  by (simp add: r_take_def reader_at_def checked_add64_def)

text \<open>A reader never moves backwards nor past its input, and what it returns is the slice it
  moved over.\<close>

lemma r_take_Inr:
  assumes "r_take r n = Inr (v, r')"
  shows "r_bytes r' = r_bytes r" "r_offset r' = r_offset r + n" "r_offset r' \<le> length (r_bytes r)"
    and "v = take n (drop (r_offset r) (r_bytes r))" "length v = n"
  using assms by (auto simp: r_take_def checked_add64_def split: option.splits if_splits)

section \<open>Fields as an interface\<close>

locale field_codec =
  fixes wr :: "writer \<Rightarrow> 'a \<Rightarrow> writer ires"
    and rd :: "reader \<Rightarrow> ('a \<times> reader) ires"
    and enc :: "'a \<Rightarrow> bytes"
    and ok :: "'a \<Rightarrow> bool"
  assumes wr_sound: "wr w x = Inr w' \<Longrightarrow> w' = w_app w (enc x) \<and> length (w_bytes w') \<le> w_limit w"
    and wr_total: "ok x \<Longrightarrow> w_fits w (enc x) \<Longrightarrow> wr w x = Inr (w_app w (enc x))"
    and rd_enc: "ok x \<Longrightarrow> length pre + length (enc x) \<le> u64_max \<Longrightarrow>
      rd (reader_at pre (enc x @ rest)) = Inr (x, reader_at (pre @ enc x) rest)"
begin

lemma wr_limit: "wr w x = Inr w' \<Longrightarrow> w_limit w' = w_limit w"
  using wr_sound by fastforce

lemma wr_length: "wr w x = Inr w' \<Longrightarrow> length (w_bytes w') = length (w_bytes w) + length (enc x)"
  using wr_sound by fastforce

text \<open>What one writer appends, the reader at that position returns and consumes.\<close>

lemma roundtrip:
  assumes "ok x" "wr w x = Inr w'" "length (w_bytes w') \<le> u64_max"
  shows "rd (reader_at (w_bytes w) (drop (length (w_bytes w)) (w_bytes w') @ rest))
     = Inr (x, reader_at (w_bytes w') rest)"
  using assms wr_sound [OF assms(2)] rd_enc [OF assms(1), of "w_bytes w" rest] by simp

lemma enc_inj:
  assumes "ok x" "ok y" "enc x = enc y" "length (enc x) \<le> u64_max"
  shows "x = y"
  using rd_enc [OF assms(1), of "[]" "[]"] rd_enc [OF assms(2), of "[]" "[]"] assms by simp

end

lemma le_bytes_mod: "le_bytes n (v mod 256 ^ n) = le_bytes n v"
  by (metis le_bytes_le_val le_val_le_bytes length_le_bytes)

interpretation u8: field_codec w_u8 r_u8 enc_u8 "\<lambda>v. v < 256"
proof unfold_locales
  show "v < 256 \<Longrightarrow> length pre + length (enc_u8 v) \<le> u64_max \<Longrightarrow>
      r_u8 (reader_at pre (enc_u8 v @ rest)) = Inr (v, reader_at (pre @ enc_u8 v) rest)"
    for v pre rest
    by (simp add: r_u8_def r_take_at enc_u8_def del: append_Cons append_Nil)
qed (auto simp: w_u8_def enc_u8_def w_put_Inr w_fits_def)

interpretation u32: field_codec w_u32 r_u32 "le_bytes 4" "\<lambda>v. v < 2 ^ 32"
  by unfold_locales
    (auto simp: w_u32_def r_u32_def w_put_Inr w_fits_def r_take_at split: if_splits)

interpretation u64: field_codec w_u64 r_u64 "le_bytes 8" "\<lambda>v. v < 2 ^ 64"
  by unfold_locales (auto simp: w_u64_def r_u64_def w_put_Inr w_fits_def r_take_at)

interpretation i64: field_codec w_i64 r_i64 i64_bytes i64_ok
  by unfold_locales (auto simp: w_i64_def r_i64_def w_put_Inr w_fits_def r_take_at i64_val_bytes)

interpretation textf: field_codec "\<lambda>w s. w_text w s cap" "\<lambda>r. r_text r cap" enc_text "text_ok cap"
  for cap
proof unfold_locales
  fix w w' x
  assume "w_text w x cap = Inr w'"
  then show "w' = w_app w (enc_text x) \<and> length (w_bytes w') \<le> w_limit w"
    by (auto simp: w_text_def enc_text_def result_simps w_put_Inr dest!: u32.wr_sound split: if_splits)
next
  fix x w
  assume "text_ok cap x" "w_fits w (enc_text x)"
  then show "w_text w x cap = Inr (w_app w (enc_text x))"
    by (auto simp: w_text_def enc_text_def text_ok_def u32.wr_total w_put_fits w_fits_append1)
next
  fix x and pre rest :: bytes
  assume *: "text_ok cap x" "length pre + length (enc_text x) \<le> u64_max"
  have "r_u32 (reader_at pre (le_bytes 4 (length x) @ x @ rest))
      = Inr (length x, reader_at (pre @ le_bytes 4 (length x)) (x @ rest))"
    using * u32.rd_enc [of "length x" pre "x @ rest"] by (simp add: text_ok_def enc_text_def)
  then show "r_text (reader_at pre (enc_text x @ rest)) cap = Inr (x, reader_at (pre @ enc_text x) rest)"
    using * r_take_at [of "pre @ le_bytes 4 (length x)" "length x" x rest]
    by (simp add: r_text_def enc_text_def text_ok_def)
qed

lemma nanos_bounds:
  assumes "time_ok t"
  shows "nat (t div nanos_per_sec) < 2 ^ 64" "nat (t mod nanos_per_sec) < 2 ^ 32"
    and "int (nat (t div nanos_per_sec)) * nanos_per_sec + int (nat (t mod nanos_per_sec)) = t"
    and "int (nat (t mod nanos_per_sec)) < nanos_per_sec"
  using assms by (auto simp: time_ok_def nanos_per_sec_def nat_less_iff)

interpretation timef: field_codec timestamp read_timestamp enc_time time_ok
proof unfold_locales
  fix w w' x
  assume "timestamp w x = Inr w'"
  then show "w' = w_app w (enc_time x) \<and> length (w_bytes w') \<le> w_limit w"
    by (auto simp: timestamp_def enc_time_def result_simps dest!: u32.wr_sound u64.wr_sound split: if_splits)
next
  fix x w
  assume *: "time_ok x" "w_fits w (enc_time x)"
  then have "w_fits w (le_bytes 8 (nat (x div nanos_per_sec)))"
    unfolding enc_time_def using w_fits_append1 by blast
  then show "timestamp w x = Inr (w_app w (enc_time x))"
    using * nanos_bounds [OF *(1)]
    by (simp add: timestamp_def enc_time_def time_ok_def u64.wr_total u32.wr_total)
next
  fix x and pre rest :: bytes
  assume *: "time_ok x" "length pre + length (enc_time x) \<le> u64_max"
  have len: "length pre + 8 \<le> u64_max" "length pre + 12 \<le> u64_max"
    using *(2) by (simp_all add: enc_time_def)
  note b = nanos_bounds [OF *(1)]
  have "r_u64 (reader_at pre (enc_time x @ rest))
      = Inr (nat (x div nanos_per_sec),
          reader_at (pre @ le_bytes 8 (nat (x div nanos_per_sec)))
            (le_bytes 4 (nat (x mod nanos_per_sec)) @ rest))"
    using u64.rd_enc [OF b(1), of pre] len by (simp add: enc_time_def)
  moreover have "r_u32 (reader_at (pre @ le_bytes 8 (nat (x div nanos_per_sec)))
            (le_bytes 4 (nat (x mod nanos_per_sec)) @ rest))
      = Inr (nat (x mod nanos_per_sec), reader_at (pre @ enc_time x) rest)"
    using u32.rd_enc [OF b(2), of "pre @ le_bytes 8 (nat (x div nanos_per_sec))" rest] len
    by (simp add: enc_time_def)
  ultimately show "read_timestamp (reader_at pre (enc_time x @ rest)) = Inr (x, reader_at (pre @ enc_time x) rest)"
    using b(3,4) * by (simp add: read_timestamp_def systime_checked_add_def time_ok_def nanos_per_sec_def)
qed

section \<open>Rows\<close>

lemma sumE_Inr: "sumE ns = Inr n \<longleftrightarrow> n = sum_list ns \<and> sum_list ns \<le> u64_max"
proof -
  have "fold (\<lambda>part total. Option.bind total (\<lambda>t. checked_add64 t part)) ns None = None" for ns
    by (induction ns) simp_all
  then have "a \<le> u64_max \<Longrightarrow>
      fold (\<lambda>part total. Option.bind total (\<lambda>t. checked_add64 t part)) ns (Some a)
      = (if a + sum_list ns \<le> u64_max then Some (a + sum_list ns) else None)" for a
    by (induction ns arbitrary: a) (auto simp: checked_add64_def add.assoc)
  then show ?thesis
    by (auto simp: sumE_def result_simps)
qed

lemma etag_text_len_Inr:
  "etag_text_len t = Inr n \<longleftrightarrow> n = length (etag_text t) \<and> n \<le> u64_max"
  by (cases t) (auto simp: etag_text_len_def etag_text_def sumE_Inr)

lemma write_etag_sound:
  "write_etag w t cap = Inr w' \<Longrightarrow> w' = w_app w (enc_text (etag_text t)) \<and> length (w_bytes w') \<le> w_limit w"
  by (cases t) (auto simp: write_etag_def etag_text_len_Inr etag_text_def enc_text_def
      result_simps w_put_Inr dest!: u32.wr_sound split: if_splits)

lemma write_etag_total:
  assumes "text_ok cap (etag_text t)" "w_fits w (enc_text (etag_text t))"
  shows "write_etag w t cap = Inr (w_app w (enc_text (etag_text t)))"
proof -
  let ?n = "length (etag_text t)"
  have "?n \<le> u64_max"
    using assms(1) by (auto simp: text_ok_def u64_max_def)
  then have len: "etag_text_len t = Inr ?n"
    by (simp add: etag_text_len_Inr)
  have fits: "w_fits w (le_bytes 4 ?n)" "w_fits w (le_bytes 4 ?n @ fst (etag_wire t))"
    "w_fits w (le_bytes 4 ?n @ fst (etag_wire t) @ snd (etag_wire t))"
    using assms(2) by (auto simp: w_fits_def enc_text_def etag_text_def)
  have "?n < 2 ^ 32"
    using assms(1) by (simp add: text_ok_def)
  then show ?thesis
    using assms fits
    unfolding write_etag_def case_prod_beta len bindE_simps
    by (simp add: text_ok_def u32.wr_total w_put_fits enc_text_def etag_text_def)
qed

lemma write_size_sound:
  assumes "(case x of
      Some sz \<Rightarrow> if sz \<ge> 0 then bindE (w_u8 w 1) (\<lambda>w. w_i64 w sz) else Inl Corrupt
    | None \<Rightarrow> w_u8 w 0) = Inr w'"
  shows "w' = w_app w (enc_size x) \<and> length (w_bytes w') \<le> w_limit w"
  using assms
  by (cases x) (auto simp: enc_size_def result_simps dest!: u8.wr_sound i64.wr_sound split: if_splits)

lemma write_etag_opt_sound:
  assumes "(case x of
      Some t \<Rightarrow> bindE (w_u8 w 1) (\<lambda>w. write_etag w t cap)
    | None \<Rightarrow> w_u8 w 0) = Inr w'"
  shows "w' = w_app w (enc_etag x) \<and> length (w_bytes w') \<le> w_limit w"
  using assms
  by (cases x) (auto simp: enc_etag_def result_simps dest!: u8.wr_sound write_etag_sound)

lemma write_entry_sound:
  assumes "write_entry w key e cap = Inr w'"
  shows "w' = w_app w (enc_entry key e) \<and> length (w_bytes w') \<le> w_limit w"
proof -
  obtain w1 w2 w3 w4 where w: "w_text w key cap = Inr w1"
    "(case e_size e of
      Some sz \<Rightarrow> if sz \<ge> 0 then bindE (w_u8 w1 1) (\<lambda>w. w_i64 w sz) else Inl Corrupt
    | None \<Rightarrow> w_u8 w1 0) = Inr w2"
    "timestamp w2 (e_last_modified e) = Inr w3"
    "(case e_etag e of
      Some t \<Rightarrow> bindE (w_u8 w3 1) (\<lambda>w. write_etag w t cap)
    | None \<Rightarrow> w_u8 w3 0) = Inr w4"
    "w_text w4 (e_storage_class e) cap = Inr w'"
    using assms unfolding write_entry_def bindE_eq_Inr by blast
  show ?thesis
    using textf.wr_sound [OF w(1)] write_size_sound [OF w(2)] timef.wr_sound [OF w(3)]
      write_etag_opt_sound [OF w(4)] textf.wr_sound [OF w(5)]
    by (auto simp: enc_entry_def)
qed

lemma write_entry_total:
  assumes "entry_ok cap pe key e" "w_fits w (enc_entry key e)"
  shows "write_entry w key e cap = Inr (w_app w (enc_entry key e))"
proof -
  let ?a = "enc_text key"
  let ?b = "?a @ enc_size (e_size e)"
  let ?c = "?b @ enc_time (e_last_modified e)"
  let ?d = "?c @ enc_etag (e_etag e)"
  have fits: "w_fits w ?a" "w_fits w ?b" "w_fits w ?c" "w_fits w ?d"
    using assms(2) by (auto simp: enc_entry_def w_fits_def)
  have a: "w_text w key cap = Inr (w_app w ?a)"
    using assms fits by (simp add: entry_ok_def textf.wr_total)
  have b: "(case e_size e of
         Some sz \<Rightarrow> if sz \<ge> 0 then bindE (w_u8 (w_app w ?a) 1) (\<lambda>w. w_i64 w sz) else Inl Corrupt
       | None \<Rightarrow> w_u8 (w_app w ?a) 0) = Inr (w_app w ?b)"
    using assms(1) fits(2)
    by (auto simp: entry_ok_def size_ok_def enc_size_def u8.wr_total i64.wr_total i64_ok_def
        w_fits_tag split: option.splits)
  have c: "timestamp (w_app w ?b) (e_last_modified e) = Inr (w_app w ?c)"
    using assms fits by (simp add: entry_ok_def timef.wr_total)
  have d: "(case e_etag e of
         Some t \<Rightarrow> bindE (w_u8 (w_app w ?c) 1) (\<lambda>w. write_etag w t cap)
       | None \<Rightarrow> w_u8 (w_app w ?c) 0) = Inr (w_app w ?d)"
  proof (cases "e_etag e")
    case None
    then show ?thesis
      using fits(4) by (simp add: enc_etag_def u8.wr_total)
  next
    case (Some t)
    then have "w_fits w (?c @ enc_u8 1)"
      using fits(4) by (auto simp: enc_etag_def w_fits_def)
    then show ?thesis
      using Some fits(4) assms(1)
      by (simp add: enc_etag_def u8.wr_total write_etag_total entry_ok_def etag_ok_def)
  qed
  have "w_text (w_app w ?d) (e_storage_class e) cap = Inr (w_app w (enc_entry key e))"
    using assms by (simp add: entry_ok_def textf.wr_total enc_entry_def)
  then show ?thesis
    unfolding write_entry_def a bindE_simps b c d .
qed

lemma entry_bytes_length: "entry_bytes (length key) e = Inr n \<Longrightarrow> length (enc_entry key e) = n"
  by (auto simp: entry_bytes_def enc_entry_def enc_size_def enc_etag_def enc_text_def enc_time_def
      enc_u8_def text_bytes_def TIMESTAMP_BYTES_def sumE_Inr etag_text_len_Inr result_simps
      split: option.splits)

lemma entry_bytes_total:
  "length (enc_entry key e) \<le> u64_max \<Longrightarrow> entry_bytes (length key) e = Inr (length (enc_entry key e))"
  by (cases "e_etag e"; cases "e_size e")
    (simp_all add: entry_bytes_def enc_entry_def enc_size_def enc_etag_def enc_text_def enc_time_def
      enc_u8_def text_bytes_def TIMESTAMP_BYTES_def bindE_eq_Inr sumE_Inr etag_text_len_Inr)

lemma gone_bytes_length: "gone_bytes (length key) = Inr n \<Longrightarrow> length (enc_text key @ enc_time t) = n"
  by (auto simp: gone_bytes_def enc_text_def enc_time_def text_bytes_def TIMESTAMP_BYTES_def
      sumE_Inr result_simps)

text \<open>The reader inverts the row writer, keeps only what the wire carries, and takes exactly
  the row's charge from the budget.\<close>

lemma read_entry_enc:
  assumes ok: "entry_ok cap pe key e"
    and len: "length pre + length (enc_entry key e) \<le> u64_max"
    and charge: "entry_charge lay (length key) (map_option (length \<circ> etag_text) (e_etag e))
        (length (e_storage_class e)) = Inr c"
    and budget: "budget_take b c = Inr b'"
  shows "read_entry lay pe (reader_at pre (enc_entry key e @ rest)) b cap
     = Inr ((key, skeletal e), reader_at (pre @ enc_entry key e) rest, b')"
proof -
  let ?A = "enc_text key" and ?B = "enc_size (e_size e)" and ?C = "enc_time (e_last_modified e)"
    and ?D = "enc_etag (e_etag e)" and ?E = "enc_text (e_storage_class e)"
  have lens: "length pre + length ?A \<le> u64_max" "length (pre @ ?A) + length ?B \<le> u64_max"
    "length (pre @ ?A @ ?B) + length ?C \<le> u64_max" "length (pre @ ?A @ ?B @ ?C) + length ?D \<le> u64_max"
    "length (pre @ ?A @ ?B @ ?C @ ?D) + length ?E \<le> u64_max"
    using len by (simp_all add: enc_entry_def)
  have a: "r_text (reader_at pre (enc_entry key e @ rest)) cap
      = Inr (key, reader_at (pre @ ?A) (?B @ ?C @ ?D @ ?E @ rest))"
    using textf.rd_enc [of cap key pre] ok lens(1) by (simp add: enc_entry_def entry_ok_def)
  have b: "bindE (r_u8 (reader_at (pre @ ?A) (?B @ ?C @ ?D @ ?E @ rest))) (\<lambda>(tag, r).
         if tag = 0 then Inr (None, r)
         else if tag = 1 then bindE (r_i64 r) (\<lambda>(sz, r).
           if sz < 0 then Inl Corrupt else Inr (Some sz, r))
         else Inl Corrupt)
      = Inr (e_size e, reader_at (pre @ ?A @ ?B) (?C @ ?D @ ?E @ rest))"
  proof (cases "e_size e")
    case None
    then show ?thesis
      using lens(2) u8.rd_enc [of 0 "pre @ ?A"] by (simp add: enc_size_def)
  next
    case (Some s)
    then have "i64_ok s" "0 \<le> s"
      using ok by (auto simp: entry_ok_def size_ok_def i64_ok_def)
    then show ?thesis
      using Some lens(2) u8.rd_enc [of 1 "pre @ ?A"] i64.rd_enc [of s "pre @ ?A @ enc_u8 1"]
      by (simp add: enc_size_def)
  qed
  have c: "read_timestamp (reader_at (pre @ ?A @ ?B) (?C @ ?D @ ?E @ rest))
      = Inr (e_last_modified e, reader_at (pre @ ?A @ ?B @ ?C) (?D @ ?E @ rest))"
    using timef.rd_enc [of "e_last_modified e" "pre @ ?A @ ?B"] ok lens(3) by (simp add: entry_ok_def)
  have d: "bindE (r_u8 (reader_at (pre @ ?A @ ?B @ ?C) (?D @ ?E @ rest))) (\<lambda>(tag, r).
         if tag = 0 then Inr (None, r)
         else if tag = 1 then bindE (r_text r cap) (\<lambda>(t, r). Inr (Some t, r))
         else Inl Corrupt)
      = Inr (map_option etag_text (e_etag e), reader_at (pre @ ?A @ ?B @ ?C @ ?D) (?E @ rest))"
  proof (cases "e_etag e")
    case None
    then show ?thesis
      using lens(4) u8.rd_enc [of 0 "pre @ ?A @ ?B @ ?C"] by (simp add: enc_etag_def)
  next
    case (Some t)
    then have "text_ok cap (etag_text t)"
      using ok by (simp add: entry_ok_def etag_ok_def)
    then show ?thesis
      using Some lens(4) u8.rd_enc [of 1 "pre @ ?A @ ?B @ ?C"]
        textf.rd_enc [of cap "etag_text t" "pre @ ?A @ ?B @ ?C @ enc_u8 1"]
      by (simp add: enc_etag_def)
  qed
  have e: "r_text (reader_at (pre @ ?A @ ?B @ ?C @ ?D) (?E @ rest)) cap
      = Inr (e_storage_class e, reader_at (pre @ enc_entry key e) rest)"
    using textf.rd_enc [of cap "e_storage_class e" "pre @ ?A @ ?B @ ?C @ ?D"] ok lens(5)
    by (simp add: enc_entry_def entry_ok_def)
  have f: "(case map_option etag_text (e_etag e) of None \<Rightarrow> Inr None
            | Some raw \<Rightarrow> bindE (ok_or Corrupt (pe raw)) (\<lambda>t. Inr (Some t))) = Inr (e_etag e)"
    using ok by (cases "e_etag e") (auto simp: entry_ok_def etag_ok_def)
  show ?thesis
    using charge budget unfolding read_entry_def a bindE_simps prod.case b c d e
    by (simp add: option.map_comp f skeletal_def del: case_map_option)
qed

text \<open>A row's charge and its tally are the same number.\<close>

lemma unwrap_or_max_Inr [simp]: "unwrap_or_max (Inr n) = of_nat n"
  by (simp add: unwrap_or_max_def)

end
