(* ===== verification/Legacy.thy ===== *)
theory Legacy
  imports Image_Codec
begin

text \<open>
  The read-only decoder of the earlier releases' layout (\<^verbatim>\<open>src/src/codec/legacy.rs\<close>):
  fixed-width little-endian integers, 64-bit lengths, one-byte option and bool tags and a
  32-bit variant index. A decoder is a function of the remaining input; a structure decodes
  its fields in order, as \<^verbatim>\<open>serde\<close>'s derived code asks for them.
\<close>

datatype legacy_error = Truncated | Trailing | Invalid string | Custom string

type_synonym 'a legacy = "bytes \<Rightarrow> legacy_error + 'a \<times> bytes"

definition lg_take :: "nat \<Rightarrow> bytes legacy" where
  "lg_take n input = (if n > length input then Inl Truncated else Inr (take n input, drop n input))"

definition lg_bind :: "'a legacy \<Rightarrow> ('a \<Rightarrow> 'b legacy) \<Rightarrow> 'b legacy" where
  "lg_bind p f input = bindE (p input) (\<lambda>(x, rest). f x rest)"

definition lg_return :: "'a \<Rightarrow> 'a legacy" where
  "lg_return x input = Inr (x, input)"

definition lg_fail :: "legacy_error \<Rightarrow> 'a legacy" where
  "lg_fail e input = Inl e"

definition lg_u8 :: "nat legacy" where
  "lg_u8 = lg_bind (lg_take 1) (\<lambda>b. lg_return (le_val b))"

definition lg_u32 :: "nat legacy" where
  "lg_u32 = lg_bind (lg_take 4) (\<lambda>b. lg_return (le_val b))"

text \<open>Fixed-width integers: \<open>n\<close> bytes, unsigned or two's complement.\<close>

definition lg_unsigned :: "nat \<Rightarrow> nat legacy" where
  "lg_unsigned n = lg_bind (lg_take n) (\<lambda>b. lg_return (le_val b))"

definition lg_signed :: "nat \<Rightarrow> int legacy" where
  "lg_signed n = lg_bind (lg_take n) (\<lambda>b. lg_return
     (let u = int (le_val b) in if u < 2 ^ (8 * n - 1) then u else u - 2 ^ (8 * n)))"

text \<open>A length prefix never exceeds the bytes that remain.\<close>

definition lg_len :: "nat legacy" where
  "lg_len = lg_bind (lg_take 8) (\<lambda>b input.
     let n = le_val b in if n \<le> length input then Inr (n, input) else Inl Truncated)"

definition lg_bytes :: "bytes legacy" where
  "lg_bytes = lg_bind lg_len lg_take"

definition lg_str :: "string legacy" where
  "lg_str = lg_bind lg_bytes (\<lambda>b. if utf8_ok b then lg_return b else lg_fail (Invalid ''string is not UTF-8''))"

text \<open>A bare character: its lead byte says how many bytes it takes.\<close>

definition lg_char :: "bytes legacy" where
  "lg_char input = (case input of
       [] \<Rightarrow> Inl Truncated
     | b # _ \<Rightarrow>
         let lead = (of_char b :: nat);
             width = (if lead < 128 then Some 1
                      else if 192 \<le> lead \<and> lead < 224 then Some 2
                      else if 224 \<le> lead \<and> lead < 240 then Some 3
                      else if 240 \<le> lead \<and> lead < 248 then Some 4
                      else None)
         in case width of
              None \<Rightarrow> Inl (Invalid ''char lead byte'')
            | Some w \<Rightarrow> lg_bind (lg_take w) (\<lambda>c. if utf8_ok c then lg_return c
                          else lg_fail (Invalid ''char is not UTF-8'')) input)"

definition lg_tag :: "string \<Rightarrow> bool legacy" where
  "lg_tag what = lg_bind lg_u8 (\<lambda>t. if t = 0 then lg_return False else if t = 1 then lg_return True
     else lg_fail (Invalid what))"

definition lg_bool :: "bool legacy" where
  "lg_bool = lg_tag ''bool''"

definition lg_option :: "'a legacy \<Rightarrow> 'a option legacy" where
  "lg_option p = lg_bind (lg_tag ''option tag'') (\<lambda>some.
     if some then lg_bind p (\<lambda>x. lg_return (Some x)) else lg_return None)"

text \<open>A counted run of elements, or of the entries of a map.\<close>

fun lg_items :: "'a legacy \<Rightarrow> nat \<Rightarrow> 'a list legacy" where
  "lg_items p 0 input = Inr ([], input)"
| "lg_items p (Suc n) input = bindE (p input) (\<lambda>(x, rest).
     bindE (lg_items p n rest) (\<lambda>(xs, rest). Inr (x # xs, rest)))"

definition lg_seq :: "'a legacy \<Rightarrow> 'a list legacy" where
  "lg_seq p = lg_bind lg_len (lg_items p)"

definition lg_pair :: "'a legacy \<Rightarrow> 'b legacy \<Rightarrow> ('a \<times> 'b) legacy" where
  "lg_pair p q = lg_bind p (\<lambda>x. lg_bind q (\<lambda>y. lg_return (x, y)))"

definition lg_map :: "'k legacy \<Rightarrow> 'v legacy \<Rightarrow> ('k \<times> 'v) list legacy" where
  "lg_map k v = lg_bind lg_len (lg_items (lg_pair k v))"

text \<open>An enum is its variant index and then that variant's fields.\<close>

definition lg_enum :: "(nat \<Rightarrow> 'a legacy) \<Rightarrow> 'a legacy" where
  "lg_enum variant = lg_bind lg_u32 variant"

definition legacy_from_slice :: "'a legacy \<Rightarrow> bytes \<Rightarrow> legacy_error + 'a" where
  "legacy_from_slice p bs = bindE (p bs) (\<lambda>(x, rest). if rest = [] then Inr x else Inl Trailing)"

section \<open>Legacy decoders as an interface\<close>

locale legacy_codec =
  fixes dec :: "'a legacy" and enc :: "'a \<Rightarrow> bytes" and ok :: "'a \<Rightarrow> bool"
  assumes dec_enc: "ok x \<Longrightarrow> dec (enc x @ rest) = Inr (x, rest)"
begin

lemma from_slice_enc: "ok x \<Longrightarrow> legacy_from_slice dec (enc x) = Inr x"
  using dec_enc [of x "[]"] by (simp add: legacy_from_slice_def)

text \<open>Bytes after the value are an error, so one input never has two readings.\<close>

lemma from_slice_trailing: "ok x \<Longrightarrow> rest \<noteq> [] \<Longrightarrow> legacy_from_slice dec (enc x @ rest) = Inl Trailing"
  using dec_enc [of x rest] by (simp add: legacy_from_slice_def)

lemma enc_inj: "ok x \<Longrightarrow> ok y \<Longrightarrow> enc x = enc y \<Longrightarrow> x = y"
  by (metis from_slice_enc sum.inject(2))

lemma option_dec_enc:
  "(\<And>y. x = Some y \<Longrightarrow> ok y) \<Longrightarrow>
     lg_option dec ((case x of None \<Rightarrow> [char_of (0 :: nat)] | Some y \<Rightarrow> char_of (1 :: nat) # enc y) @ rest) = Inr (x, rest)"
  using dec_enc
  by (cases x) (auto simp: lg_option_def lg_tag_def lg_u8_def lg_bind_def lg_take_def lg_return_def)

lemma items_dec_enc:
  "(\<And>y. y \<in> set xs \<Longrightarrow> ok y) \<Longrightarrow> lg_items dec (length xs) (concat (map enc xs) @ rest) = Inr (xs, rest)"
  by (induction xs) (simp_all add: dec_enc)

end

definition enc_len :: "nat \<Rightarrow> bytes" where
  "enc_len n = le_bytes 8 n"

definition leg_str :: "string \<Rightarrow> bytes" where
  "leg_str s = enc_len (length s) @ s"

lemma lg_len_enc: "n < 2 ^ 64 \<Longrightarrow> n \<le> length rest \<Longrightarrow> lg_len (enc_len n @ rest) = Inr (n, rest)"
  by (simp add: lg_len_def lg_bind_def lg_take_def enc_len_def)

interpretation lstr: legacy_codec lg_str leg_str "\<lambda>s. utf8_ok s \<and> length s < 2 ^ 64"
  by unfold_locales
    (simp add: lg_str_def lg_bytes_def leg_str_def lg_bind_def lg_len_enc lg_take_def lg_return_def)

interpretation lu32: legacy_codec lg_u32 "le_bytes 4" "\<lambda>n. n < 2 ^ 32"
  by unfold_locales (simp add: lg_u32_def lg_bind_def lg_take_def lg_return_def)

interpretation lunsigned: legacy_codec "lg_unsigned n" "le_bytes n" "\<lambda>v. v < 256 ^ n" for n
  by unfold_locales (simp add: lg_unsigned_def lg_bind_def lg_take_def lg_return_def)

text \<open>Decoding is bounded by the input: every decoder consumes a prefix of what it is given.\<close>

definition consumes :: "'a legacy \<Rightarrow> bool" where
  "consumes p \<longleftrightarrow> (\<forall>input x rest. p input = Inr (x, rest) \<longrightarrow> (\<exists>used. input = used @ rest))"

lemma consumes_bind: "consumes p \<Longrightarrow> (\<And>x. consumes (f x)) \<Longrightarrow> consumes (lg_bind p f)"
  unfolding consumes_def lg_bind_def bindE_eq_Inr by (auto simp: bindE_def split: sum.splits) (metis append_assoc)

lemma consumes_basic [intro]: "consumes (lg_take n)" "consumes (lg_return x)" "consumes (lg_fail e)" "consumes lg_len"
proof -
  show t: "consumes (lg_take n)" for n
    unfolding consumes_def lg_take_def by (auto split: if_splits) (metis append_take_drop_id)
  show "consumes (lg_return x)" "consumes (lg_fail e)"
    by (auto simp: consumes_def lg_return_def lg_fail_def)
  show "consumes lg_len"
    unfolding lg_len_def by (rule consumes_bind [OF t]) (auto simp: consumes_def Let_def)
qed

lemma consumes_items: "consumes p \<Longrightarrow> consumes (lg_items p n)"
proof (induction n)
  case (Suc n)
  have "lg_items p (Suc n) = lg_bind p (\<lambda>x. lg_bind (lg_items p n) (\<lambda>xs. lg_return (x # xs)))"
    by (simp add: lg_bind_def lg_return_def fun_eq_iff)
  then show ?case
    using Suc by (auto intro!: consumes_bind)
qed (simp add: consumes_def)

lemma consumes_str: "consumes lg_str"
  unfolding lg_str_def lg_bytes_def by (auto intro!: consumes_bind)

lemma consumes_seq: "consumes p \<Longrightarrow> consumes (lg_seq p)"
  unfolding lg_seq_def by (intro consumes_bind consumes_basic consumes_items)

end
