(* ===== verification/Control.thy ===== *)
theory Control
  imports Legacy
begin

text \<open>
  The durable control history (\<^verbatim>\<open>src/src/sync/control\<close>): its record types, the framed record
  codec, and the projection of unresolved mutations. The \<^verbatim>\<open>postcard\<close> codec, the content hash and
  the base64 engine are the parameter \<open>env\<close>; \<open>codec_laws\<close> states what the code relies on.
\<close>

section \<open>Types\<close>

record source_id =
  src_name :: string
  src_generation :: nat

record cursor =
  cu_source :: source_id
  cu_bucket :: string
  cu_next_slot :: nat

datatype mutation = MPut | MDelete | MCopy | MMultipartComplete

datatype final_outcome = Committed | RejectedWithoutMutation | AbortedBeforeDispatch

datatype jrecord =
    Intent (op_id: string) (rec_key: string) (rec_mutation: mutation)
  | Outcome (op_id: string) (intent_slot: nat) (rec_key: string) (rec_result: final_outcome)
  | ReaderAdmission (reader_id: string) (incarnation: nat) (max_serve_ms: nat) (config_version: nat)

datatype put_verdict = Created | Occupied | Unknown

datatype journal_error = StoreError string | UnknownWrite nat cursor | UnknownManifest | JCapacity
  | Backpressured | AppendBackpressured cursor | JCorrupt string | ConfigMismatch

record limits =
  max_record_bytes :: nat
  max_slots :: nat
  max_scan_events :: nat
  max_scan_bytes :: nat
  max_append_probes :: nat

definition limits_default :: limits where
  "limits_default = \<lparr>max_record_bytes = 16 * 1024, max_slots = 1000000, max_scan_events = 4096,
     max_scan_bytes = 8 * 1024 * 1024, max_append_probes = 64\<rparr>"

record journal_config =
  jcf_source :: source_id
  admission_version :: nat
  max_admission_ms :: nat
  jcf_limits :: limits

record slot_envelope =
  se_source :: source_id
  se_bucket :: string
  se_slot :: nat
  se_record :: jrecord

section \<open>The record frame\<close>

definition MAGIC :: bytes where
  "MAGIC = ''S3CJ''"

definition RECORD_VERSION :: nat where
  "RECORD_VERSION = 2"

definition LEGACY_VERSION :: nat where
  "LEGACY_VERSION = 1"

definition HEADER :: nat where
  "HEADER = 9"

definition DIGEST :: nat where
  "DIGEST = 32"

text \<open>A value's codec: the current encoder and decoder, and the decoder of the first format.\<close>

record 'v value_codec =
  vc_to_vec :: "'v \<Rightarrow> bytes option"
  vc_from_slice :: "bytes \<Rightarrow> 'v option"
  vc_legacy :: "bytes \<Rightarrow> legacy_error + 'v"

definition frame_encode :: "(bytes \<Rightarrow> bytes) \<Rightarrow> 'v value_codec \<Rightarrow> 'v \<Rightarrow> nat \<Rightarrow> journal_error + bytes" where
  "frame_encode hash vc v max_bytes =
     bindE (ok_or (JCorrupt ''record cannot encode'') (vc_to_vec vc v)) (\<lambda>payload.
     bindE (ok_or JCapacity (Option.bind (checked_add64 HEADER (length payload)) (\<lambda>n. checked_add64 n DIGEST))) (\<lambda>total.
     if total > max_bytes \<or> length payload \<ge> 2 ^ 32 then Inl JCapacity
     else let bs = MAGIC @ [char_of RECORD_VERSION] @ le_bytes 4 (length payload) @ payload
          in Inr (bs @ hash bs)))"

definition is_current :: "bytes \<Rightarrow> bool" where
  "is_current bs \<longleftrightarrow> length bs \<ge> length MAGIC \<and> take (length MAGIC) bs = MAGIC
     \<and> length bs > length MAGIC \<and> bs ! length MAGIC = char_of RECORD_VERSION"

definition frame_decode :: "(bytes \<Rightarrow> bytes) \<Rightarrow> 'v value_codec \<Rightarrow> bytes \<Rightarrow> nat \<Rightarrow> journal_error + 'v" where
  "frame_decode hash vc bs max_bytes =
     (if length bs > max_bytes \<or> length bs < HEADER + DIGEST then Inl (JCorrupt ''record length outside limit'')
      else
        let version = (of_char (bs ! 4) :: nat) in
        if take 4 bs \<noteq> MAGIC \<or> version \<noteq> RECORD_VERSION \<and> version \<noteq> LEGACY_VERSION
        then Inl (JCorrupt ''record format mismatch'')
        else
          let len = le_val (take 4 (drop 5 bs)) in
          if checked_add64 len (HEADER + DIGEST) \<noteq> Some (length bs) then Inl (JCorrupt ''record length mismatch'')
          else
            let contents = take (HEADER + len) bs; checksum = drop (HEADER + len) bs in
            if hash contents \<noteq> checksum then Inl (JCorrupt ''record checksum mismatch'')
            else
              let payload = drop HEADER contents in
              if version = RECORD_VERSION then ok_or (JCorrupt ''record payload invalid'') (vc_from_slice vc payload)
              else (case vc_legacy vc payload of
                  Inl _ \<Rightarrow> Inl (JCorrupt ''record payload invalid'')
                | Inr v \<Rightarrow> Inr v))"

section \<open>Unresolved mutations\<close>

record pending_set =
  ps_scope :: "(source_id \<times> string) option"
  ps_next_slot :: nat
  ps_seen_ops :: "string list"
  ps_by_op :: "(string, string \<times> nat) omap"
  ps_by_key :: "(string, string list) omap"

definition pending_default :: pending_set where
  "pending_default = \<lparr>ps_scope = None, ps_next_slot = 0, ps_seen_ops = [], ps_by_op = [], ps_by_key = []\<rparr>"

definition apply_at :: "pending_set \<Rightarrow> cursor \<Rightarrow> jrecord \<Rightarrow> journal_error + pending_set" where
  "apply_at p cu r =
     (if cu_next_slot cu \<noteq> ps_next_slot p
         \<or> (case ps_scope p of None \<Rightarrow> False | Some (source, bucket) \<Rightarrow> source \<noteq> cu_source cu \<or> bucket \<noteq> cu_bucket cu)
         \<or> ps_scope p = None \<and> ps_next_slot p \<noteq> 0
      then Inl ConfigMismatch
      else
        bindE (ok_or JCapacity (checked_add64 (ps_next_slot p) 1)) (\<lambda>next.
        bindE (case r of
            Intent op key _ \<Rightarrow>
              if op = [] \<or> key = [] then Inl (JCorrupt ''empty operation ID or key'')
              else if op \<in> set (ps_seen_ops p) then Inl (JCorrupt ''reused operation ID'')
              else Inr (p\<lparr>ps_seen_ops := os_insert op (ps_seen_ops p),
                     ps_by_op := om_insert op (key, cu_next_slot cu) (ps_by_op p),
                     ps_by_key := om_insert key
                       (os_insert op (case map_of (ps_by_key p) key of None \<Rightarrow> [] | Some ops \<Rightarrow> ops)) (ps_by_key p)\<rparr>)
          | Outcome op islot key _ \<Rightarrow>
              if map_of (ps_by_op p) op \<noteq> Some (key, islot) then Inl (JCorrupt ''outcome has no matching intent'')
              else (case map_of (ps_by_key p) key of
                  None \<Rightarrow> Inl (JCorrupt ''missing pending key'')
                | Some ops \<Rightarrow>
                    if op \<notin> set ops then Inl (JCorrupt ''missing pending key'')
                    else
                      let ops = filter (\<lambda>x. x \<noteq> op) ops
                      in Inr (p\<lparr>ps_by_op := om_remove op (ps_by_op p),
                           ps_by_key := (if ops = [] then om_remove key (ps_by_key p)
                                         else om_insert key ops (ps_by_key p))\<rparr>))
          | ReaderAdmission _ _ _ _ \<Rightarrow> Inr p) (\<lambda>p.
        Inr (p\<lparr>ps_scope := (case ps_scope p of None \<Rightarrow> Some (cu_source cu, cu_bucket cu) | Some s \<Rightarrow> Some s),
               ps_next_slot := next\<rparr>))))"

definition operations_for :: "pending_set \<Rightarrow> string \<Rightarrow> string list option" where
  "operations_for p key = map_of (ps_by_key p) key"

definition pending_is_empty :: "pending_set \<Rightarrow> bool" where
  "pending_is_empty p \<longleftrightarrow> ps_by_op p = []"

section \<open>The projection is the unresolved history\<close>

text \<open>The intents of a history that no later outcome closes.\<close>

definition unresolved :: "jrecord list \<Rightarrow> (string \<times> string \<times> nat) set" where
  "unresolved rs = {(op, key, s). s < length rs \<and> (\<exists>m. rs ! s = Intent op key m)
     \<and> (\<forall>j. s < j \<and> j < length rs \<longrightarrow> (\<forall>res. rs ! j \<noteq> Outcome op s key res))}"

definition apply_history :: "source_id \<Rightarrow> string \<Rightarrow> jrecord list \<Rightarrow> pending_set \<Rightarrow> journal_error + pending_set" where
  "apply_history src b rs p =
     foldE (\<lambda>r p. apply_at p \<lparr>cu_source = src, cu_bucket = b, cu_next_slot = ps_next_slot p\<rparr> r) rs p"

lemma unresolved_snoc:
  "unresolved (rs @ [r]) = (case r of
       Intent op key _ \<Rightarrow> insert (op, key, length rs) (unresolved rs)
     | Outcome op s key _ \<Rightarrow> (if s < length rs then unresolved rs - {(op, key, s)} else unresolved rs)
     | ReaderAdmission _ _ _ _ \<Rightarrow> unresolved rs)"
proof -
  have "(op, key, s) \<in> unresolved (rs @ [r]) \<longleftrightarrow>
      (s = length rs \<and> (\<exists>m. r = Intent op key m)) \<or> ((op, key, s) \<in> unresolved rs \<and> (\<forall>res. r \<noteq> Outcome op s key res))" for op key s
    unfolding unresolved_def by (auto simp: nth_append less_Suc_eq split: if_splits)
  moreover have "s < length rs" if "(op, key, s) \<in> unresolved rs" for op key s
    using that by (simp add: unresolved_def)
  ultimately show ?thesis
    by (auto split: jrecord.splits)
qed

lemma unresolved_Nil [simp]: "unresolved [] = {}"
  by (simp add: unresolved_def)

definition ops_of :: "pending_set \<Rightarrow> string \<Rightarrow> string set" where
  "ops_of p key = (case map_of (ps_by_key p) key of None \<Rightarrow> {} | Some ops \<Rightarrow> set ops)"

definition pending_wf :: "pending_set \<Rightarrow> bool" where
  "pending_wf p \<longleftrightarrow> om_ok (ps_by_op p) \<and> om_ok (ps_by_key p)
     \<and> (\<forall>key ops. map_of (ps_by_key p) key = Some ops \<longrightarrow> ops \<noteq> [] \<and> sorted_wrt (<) ops)"

definition pending_ok :: "jrecord list \<Rightarrow> pending_set \<Rightarrow> bool" where
  "pending_ok rs p \<longleftrightarrow> pending_wf p \<and> ps_next_slot p = length rs
     \<and> set (ps_seen_ops p) = {op. \<exists>key m. Intent op key m \<in> set rs}
     \<and> (\<forall>op key s. map_of (ps_by_op p) op = Some (key, s) \<longleftrightarrow> (op, key, s) \<in> unresolved rs)
     \<and> (\<forall>key. ops_of p key = {op. \<exists>s. (op, key, s) \<in> unresolved rs})"

lemma pending_frame [simp]:
  "ops_of (p\<lparr>ps_scope := sc\<rparr>) = ops_of p" "ops_of (p\<lparr>ps_next_slot := n\<rparr>) = ops_of p"
  "pending_wf (p\<lparr>ps_scope := sc\<rparr>) = pending_wf p" "pending_wf (p\<lparr>ps_next_slot := n\<rparr>) = pending_wf p"
  by (simp_all add: ops_of_def pending_wf_def fun_eq_iff)

lemma unresolved_seen: "(op, key, s) \<in> unresolved rs \<Longrightarrow> \<exists>m. Intent op key m \<in> set rs"
  by (auto simp: unresolved_def) (metis nth_mem)

lemma apply_at_ok:
  assumes "pending_ok rs p" "apply_at p \<lparr>cu_source = src, cu_bucket = b, cu_next_slot = ps_next_slot p\<rparr> r = Inr p'"
  shows "pending_ok (rs @ [r]) p'"
proof (cases r)
  case (Intent op key m)
  have p': "op \<notin> set (ps_seen_ops p)" "ps_next_slot p' = Suc (length rs)" "ps_seen_ops p' = os_insert op (ps_seen_ops p)"
    "ps_by_op p' = om_insert op (key, length rs) (ps_by_op p)"
    "ps_by_key p' = om_insert key (os_insert op (case map_of (ps_by_key p) key of None \<Rightarrow> [] | Some ops \<Rightarrow> ops)) (ps_by_key p)"
    using assms by (auto simp: apply_at_def Intent pending_ok_def result_simps checked_add64_def split: if_splits option.splits prod.splits)
  have new: "(op, k, s) \<notin> unresolved rs" for k s
    using p'(1) assms(1) unresolved_seen [of op k s rs] by (auto simp: pending_ok_def)
  have "ops_of p' k = (if k = key then insert op (ops_of p k) else ops_of p k)" for k
    by (simp add: ops_of_def p' split: option.split)
  moreover have "pending_wf p'"
    using assms(1) by (auto simp: pending_ok_def pending_wf_def p' om_ok_insert os_insert_sorted split: option.splits if_splits)
      (metis insert_not_empty list.set(1) os_insert_set)+
  ultimately show ?thesis
    using assms(1) new by (auto simp: pending_ok_def Intent unresolved_snoc p')
next
  case (Outcome op s key res)
  obtain ops where p': "map_of (ps_by_op p) op = Some (key, s)" "map_of (ps_by_key p) key = Some ops" "op \<in> set ops"
    "ps_next_slot p' = Suc (length rs)" "ps_seen_ops p' = ps_seen_ops p" "ps_by_op p' = om_remove op (ps_by_op p)"
    "ps_by_key p' = (if filter (\<lambda>x. x \<noteq> op) ops = [] then om_remove key (ps_by_key p) else om_insert key (filter (\<lambda>x. x \<noteq> op) ops) (ps_by_key p))"
    using assms by (auto simp: apply_at_def Outcome pending_ok_def result_simps checked_add64_def Let_def split: if_splits option.splits prod.splits)
  have un: "(op, key, s) \<in> unresolved rs" "s < length rs"
    using p'(1) assms(1) by (auto simp: pending_ok_def unresolved_def)
  have only: "(op, k, s') \<in> unresolved rs \<longleftrightarrow> k = key \<and> s' = s" for k s'
  proof -
    have "(op, k, s') \<in> unresolved rs \<longleftrightarrow> map_of (ps_by_op p) op = Some (k, s')"
      using assms(1) by (simp add: pending_ok_def)
    then show ?thesis
      using p'(1) by auto
  qed
  have sorted: "sorted_wrt (<) ops"
    using assms(1) p'(2) by (auto simp: pending_ok_def pending_wf_def)
  have "ops_of p' k = (if k = key then ops_of p k - {op} else ops_of p k)" for k
    using p'(2) by (auto simp: ops_of_def p'(7) filter_empty_conv split: option.split)
  moreover have "pending_wf p'"
    using assms(1) sorted_wrt_filter [OF sorted, of "\<lambda>x. x \<noteq> op"]
    by (auto simp: pending_ok_def pending_wf_def p' om_ok_insert om_ok_remove split: if_splits)
  moreover have "unresolved (rs @ [r]) = unresolved rs - {(op, key, s)}"
    using un(2) by (simp add: Outcome unresolved_snoc)
  ultimately show ?thesis
    using assms(1) only by (auto simp: pending_ok_def p' Outcome)
next
  case (ReaderAdmission a c d e)
  then show ?thesis
    using assms by (auto simp: apply_at_def pending_ok_def unresolved_snoc result_simps checked_add64_def split: if_splits option.splits prod.splits; blast)
qed

text \<open>C32: The projection fences exactly the unresolved mutations. Applying any history that is accepted, the
  pending operations are exactly the intents that no later outcome closes, with the slot of each; the
  operations reported for a key are exactly those of its unresolved intents; and the projection
  is empty exactly when every intent has a definitive outcome.\<close>

theorem pending_is_unresolved:
  assumes "apply_history src b rs pending_default = Inr p"
  shows "ps_next_slot p = length rs
    \<and> (\<forall>op key s. map_of (ps_by_op p) op = Some (key, s) \<longleftrightarrow> (op, key, s) \<in> unresolved rs)
    \<and> (\<forall>key. case operations_for p key of
         None \<Rightarrow> \<forall>op s. (op, key, s) \<notin> unresolved rs
       | Some ops \<Rightarrow> ops \<noteq> [] \<and> set ops = {op. \<exists>s. (op, key, s) \<in> unresolved rs})
    \<and> (pending_is_empty p \<longleftrightarrow> unresolved rs = {})"
proof -
  have ok: "pending_ok rs p"
    using assms
  proof (induction rs arbitrary: p rule: rev_induct)
    case Nil
    then show ?case
      by (auto simp: apply_history_def pending_ok_def pending_wf_def pending_default_def om_ok_def ops_of_def)
  next
    case (snoc r rs)
    obtain p1 where "apply_history src b rs pending_default = Inr p1"
      "apply_at p1 \<lparr>cu_source = src, cu_bucket = b, cu_next_slot = ps_next_slot p1\<rparr> r = Inr p"
      using snoc.prems by (auto simp: apply_history_def foldE_append bindE_eq_Inr)
    then show ?case
      using snoc.IH apply_at_ok by blast
  qed
  have "ps_by_op p = [] \<longleftrightarrow> (\<forall>op. map_of (ps_by_op p) op = None)"
    by (cases "ps_by_op p") auto
  then have "pending_is_empty p \<longleftrightarrow> unresolved rs = {}"
    using ok by (auto simp: pending_is_empty_def pending_ok_def)
  moreover have "case operations_for p key of
         None \<Rightarrow> \<forall>op s. (op, key, s) \<notin> unresolved rs
       | Some ops \<Rightarrow> ops \<noteq> [] \<and> set ops = {op. \<exists>s. (op, key, s) \<in> unresolved rs}" for key
  proof -
    have "ops_of p key = {op. \<exists>s. (op, key, s) \<in> unresolved rs}"
      using ok by (simp add: pending_ok_def)
    moreover have "pending_wf p"
      using ok by (simp add: pending_ok_def)
    ultimately show ?thesis
      by (cases "map_of (ps_by_key p) key") (auto simp: operations_for_def ops_of_def pending_wf_def)
  qed
  ultimately show ?thesis
    using ok by (auto simp: pending_ok_def)
qed

section \<open>The frame\<close>

definition codec_laws :: "(bytes \<Rightarrow> bytes) \<Rightarrow> 'v value_codec \<Rightarrow> bool" where
  "codec_laws hash vc \<longleftrightarrow> (\<forall>x. length (hash x) = DIGEST)
     \<and> (\<forall>v bs. vc_to_vec vc v = Some bs \<longrightarrow> vc_from_slice vc bs = Some v)"

lemmas frame_defs = MAGIC_def RECORD_VERSION_def LEGACY_VERSION_def HEADER_def DIGEST_def

lemma frame_encode_Inr:
  assumes "frame_encode hash vc v m = Inr bs"
  obtains payload where "vc_to_vec vc v = Some payload" "length payload < 2 ^ 32" "HEADER + length payload + DIGEST \<le> m"
    "bs = (MAGIC @ [char_of RECORD_VERSION] @ le_bytes 4 (length payload) @ payload)
       @ hash (MAGIC @ [char_of RECORD_VERSION] @ le_bytes 4 (length payload) @ payload)"
  using assms by (auto simp: frame_encode_def result_simps bind_eq_Some_conv checked_add64_Some Let_def split: if_splits)

lemma frame_roundtrip_core:
  assumes "codec_laws hash vc" "frame_encode hash vc v m = Inr bs"
  shows "frame_decode hash vc bs m = Inr v \<and> is_current bs \<and> length bs \<le> m"
proof -
  obtain payload where p: "vc_to_vec vc v = Some payload" "length payload < 2 ^ 32" "HEADER + length payload + DIGEST \<le> m"
    "bs = (MAGIC @ [char_of RECORD_VERSION] @ le_bytes 4 (length payload) @ payload)
       @ hash (MAGIC @ [char_of RECORD_VERSION] @ le_bytes 4 (length payload) @ payload)"
    using assms(2) by (rule frame_encode_Inr)
  let ?c = "MAGIC @ [char_of RECORD_VERSION] @ le_bytes 4 (length payload) @ payload"
  have h: "length (hash ?c) = DIGEST" "vc_from_slice vc payload = Some v"
    using assms(1) p(1) by (auto simp: codec_laws_def)
  have len: "length ?c = HEADER + length payload"
    by (simp add: frame_defs)
  have "length bs = length ?c + length (hash ?c)"
    unfolding p(4) by (rule length_append)
  then have size: "length bs = HEADER + length payload + DIGEST"
    by (simp only: h(1) len)
  have parts: "take 4 bs = MAGIC" "bs ! 4 = char_of RECORD_VERSION" "take 4 (drop 5 bs) = le_bytes 4 (length payload)"
    "drop HEADER ?c = payload"
    by (simp_all add: p(4) frame_defs)
  have "?c = take (length ?c) bs \<and> hash ?c = drop (length ?c) bs"
    using p(4) by (simp only: append_eq_conv_conj [symmetric])
  then have split: "take (HEADER + length payload) bs = ?c" "drop (HEADER + length payload) bs = hash ?c"
    unfolding len by (auto intro: sym)
  have add: "checked_add64 (length payload) (HEADER + DIGEST) = Some (length bs)"
    using p(2) by (simp add: size checked_add64_def frame_defs u64_max_def)
  have ver: "of_char (char_of RECORD_VERSION) = RECORD_VERSION" "le_val (le_bytes 4 (length payload)) = length payload"
    using p(2) by (simp_all add: RECORD_VERSION_def)
  have "frame_decode hash vc bs m = Inr v"
    unfolding frame_decode_def Let_def parts ver add split h(2)
    using p(3) size by simp
  moreover have "is_current bs"
    by (simp add: is_current_def p(4) frame_defs)
  ultimately show ?thesis
    using size p(3) by simp
qed

text \<open>A record reads back as it was written: what the frame encoder emits is in the current format, fits the
  size limit and decodes to the same value, given that the payload codec and the digest length behave
  as their crates document.\<close>

theorem frame_roundtrip:
  assumes "codec_laws hash vc" "frame_encode hash vc v m = Inr bs"
  shows "frame_decode hash vc bs m = Inr v \<and> is_current bs \<and> length bs \<le> m"
  by (rule frame_roundtrip_core [OF assms])

text \<open>A damaged record is refused. Whatever bytes are read back, an accepted record is exactly one frame: the
  magic, a known version, the exact payload length and the digest of all of it, within the size limit.
  Accepting different bytes for the same frame contents would need another digest.\<close>

theorem frame_integrity:
  assumes "frame_decode hash vc bs m = Inr v"
  shows "\<exists>ver payload. ver \<in> {RECORD_VERSION, LEGACY_VERSION} \<and> length bs \<le> m
    \<and> (let c = MAGIC @ [char_of ver] @ le_bytes 4 (length payload) @ payload in bs = c @ hash c)
    \<and> (if ver = RECORD_VERSION then vc_from_slice vc payload = Some v else vc_legacy vc payload = Inr v)"
proof -
  define ver where "ver = (of_char (bs ! 4) :: nat)"
  define len where "len = le_val (take 4 (drop 5 bs))"
  define c where "c = take (HEADER + len) bs"
  note a = assms [unfolded frame_decode_def Let_def, folded ver_def len_def, folded c_def]
  have d: "length bs \<le> m" "take 4 bs = MAGIC" "ver \<in> {RECORD_VERSION, LEGACY_VERSION}" "length bs = len + (HEADER + DIGEST)"
    "hash c = drop (HEADER + len) bs"
    "if ver = RECORD_VERSION then vc_from_slice vc (drop HEADER c) = Some v else vc_legacy vc (drop HEADER c) = Inr v"
    using a by (auto simp: result_simps checked_add64_Some not_less split: if_split_asm sum.splits)
  have long: "9 + len \<le> length bs"
    using d(4) by (simp add: frame_defs)
  have "drop 4 bs = bs ! 4 # drop 5 bs"
    using long Cons_nth_drop_Suc [of 4 bs] by simp
  then have "take 9 bs = MAGIC @ [char_of ver] @ take 4 (drop 5 bs)"
    using take_add [of 4 5 bs] d(2) by (simp add: ver_def)
  moreover have "le_bytes 4 len = take 4 (drop 5 bs)"
    using long unfolding len_def by (intro le_bytes_le_val) simp
  ultimately have nine: "take 9 bs = MAGIC @ [char_of ver] @ le_bytes 4 len"
    by simp
  obtain payload where payload: "payload = drop HEADER c"
    by blast
  have "c = take 9 bs @ payload"
    using append_take_drop_id [of 9 c] by (simp add: HEADER_def payload c_def)
  moreover have "length payload = len"
    unfolding payload c_def length_drop length_take HEADER_def using long by linarith
  ultimately have contents: "c = MAGIC @ [char_of ver] @ le_bytes 4 (length payload) @ payload"
    by (simp add: nine)
  have "bs = c @ hash c"
    using d(5) by (simp add: c_def)
  then have bs: "bs = (MAGIC @ [char_of ver] @ le_bytes 4 (length payload) @ payload) @ hash (MAGIC @ [char_of ver] @ le_bytes 4 (length payload) @ payload)"
    unfolding contents .
  show ?thesis
  proof (intro exI conjI)
    show "ver \<in> {RECORD_VERSION, LEGACY_VERSION}" "length bs \<le> m"
      by (rule d(3), rule d(1))
    show "let c = MAGIC @ [char_of ver] @ le_bytes 4 (length payload) @ payload in bs = c @ hash c"
      unfolding Let_def by (rule bs)
    show "if ver = RECORD_VERSION then vc_from_slice vc payload = Some v else vc_legacy vc payload = Inr v"
      using d(6) unfolding payload .
  qed
qed

end
