(* ===== verification/Journal.thy ===== *)
theory Journal
  imports Control
begin

text \<open>
  The slot journal over a conditional object store (\<^verbatim>\<open>src/src/sync/control/journal.rs\<close> and
  \<^verbatim>\<open>s3.rs\<close>). A store is a pair of operations on its state, so that other writers and lost replies are
  part of it; a journal operation threads that state and returns it beside its result.
\<close>

section \<open>Store and environment\<close>

record 's slot_store_ops =
  ss_get :: "string \<Rightarrow> 's \<Rightarrow> (string + bytes option) \<times> 's"
  ss_put_if_absent :: "string \<Rightarrow> bytes \<Rightarrow> 's \<Rightarrow> (string + put_verdict) \<times> 's"

record journal_env =
  je_hash :: "bytes \<Rightarrow> bytes"
  je_b64 :: "string \<Rightarrow> string"
  je_slot_to_vec :: "slot_envelope \<Rightarrow> bytes option"
  je_slot_from_slice :: "bytes \<Rightarrow> slot_envelope option"
  je_config_to_vec :: "journal_config \<Rightarrow> bytes option"
  je_config_from_slice :: "bytes \<Rightarrow> journal_config option"

text \<open>The first format's decoders, field by field in declaration order.\<close>

definition legacy_source :: "source_id legacy" where
  "legacy_source = lg_bind lg_str (\<lambda>name. lg_bind (lg_unsigned 8) (\<lambda>generation.
     lg_return \<lparr>src_name = name, src_generation = generation\<rparr>))"

definition legacy_unit_variant :: "'a list \<Rightarrow> 'a legacy" where
  "legacy_unit_variant xs = lg_enum (\<lambda>i. if i < length xs then lg_return (xs ! i) else lg_fail (Custom ''unknown variant''))"

definition legacy_record :: "jrecord legacy" where
  "legacy_record = lg_enum (\<lambda>i.
     if i = 0 then lg_bind lg_str (\<lambda>op. lg_bind lg_str (\<lambda>key.
       lg_bind (legacy_unit_variant [MPut, MDelete, MCopy, MMultipartComplete]) (\<lambda>m. lg_return (Intent op key m))))
     else if i = 1 then lg_bind lg_str (\<lambda>op. lg_bind (lg_unsigned 8) (\<lambda>s. lg_bind lg_str (\<lambda>key.
       lg_bind (legacy_unit_variant [Committed, RejectedWithoutMutation, AbortedBeforeDispatch]) (\<lambda>r.
       lg_return (Outcome op s key r)))))
     else if i = 2 then lg_bind lg_str (\<lambda>rid. lg_bind (lg_unsigned 8) (\<lambda>inc. lg_bind (lg_unsigned 8) (\<lambda>ms.
       lg_bind lg_u32 (\<lambda>ver. lg_return (ReaderAdmission rid inc ms ver)))))
     else lg_fail (Custom ''unknown variant''))"

definition legacy_envelope :: "slot_envelope legacy" where
  "legacy_envelope = lg_bind legacy_source (\<lambda>source. lg_bind lg_str (\<lambda>bucket. lg_bind (lg_unsigned 8) (\<lambda>slot.
     lg_bind legacy_record (\<lambda>r.
     lg_return \<lparr>se_source = source, se_bucket = bucket, se_slot = slot, se_record = r\<rparr>))))"

definition legacy_limits :: "limits legacy" where
  "legacy_limits = lg_bind (lg_unsigned 8) (\<lambda>a. lg_bind (lg_unsigned 8) (\<lambda>b. lg_bind (lg_unsigned 8) (\<lambda>c.
     lg_bind (lg_unsigned 8) (\<lambda>d. lg_bind (lg_unsigned 8) (\<lambda>e.
     lg_return \<lparr>max_record_bytes = a, max_slots = b, max_scan_events = c, max_scan_bytes = d, max_append_probes = e\<rparr>)))))"

definition legacy_config :: "journal_config legacy" where
  "legacy_config = lg_bind legacy_source (\<lambda>source. lg_bind lg_u32 (\<lambda>ver. lg_bind (lg_unsigned 8) (\<lambda>ms.
     lg_bind legacy_limits (\<lambda>l.
     lg_return \<lparr>jcf_source = source, admission_version = ver, max_admission_ms = ms, jcf_limits = l\<rparr>))))"

definition slot_codec :: "journal_env \<Rightarrow> slot_envelope value_codec" where
  "slot_codec env = \<lparr>vc_to_vec = je_slot_to_vec env, vc_from_slice = je_slot_from_slice env,
     vc_legacy = legacy_from_slice legacy_envelope\<rparr>"

definition config_codec :: "journal_env \<Rightarrow> journal_config value_codec" where
  "config_codec env = \<lparr>vc_to_vec = je_config_to_vec env, vc_from_slice = je_config_from_slice env,
     vc_legacy = legacy_from_slice legacy_config\<rparr>"

type_synonym ('s, 'a) jop = "'s \<Rightarrow> (journal_error + 'a) \<times> 's"

definition j_bind :: "('s, 'a) jop \<Rightarrow> ('a \<Rightarrow> ('s, 'b) jop) \<Rightarrow> ('s, 'b) jop" where
  "j_bind m f s = (case m s of (Inl e, s) \<Rightarrow> (Inl e, s) | (Inr x, s) \<Rightarrow> f x s)"

definition j_lift :: "journal_error + 'a \<Rightarrow> ('s, 'a) jop" where
  "j_lift r s = (r, s)"

definition j_get :: "'s slot_store_ops \<Rightarrow> string \<Rightarrow> ('s, bytes option) jop" where
  "j_get S k s = (case ss_get S k s of (Inl e, s) \<Rightarrow> (Inl (StoreError e), s) | (Inr v, s) \<Rightarrow> (Inr v, s))"

definition j_put :: "'s slot_store_ops \<Rightarrow> string \<Rightarrow> bytes \<Rightarrow> ('s, put_verdict) jop" where
  "j_put S k b s = (case ss_put_if_absent S k b s of (Inl e, s) \<Rightarrow> (Inl (StoreError e), s) | (Inr v, s) \<Rightarrow> (Inr v, s))"

section \<open>Keys\<close>

definition pad20 :: "nat \<Rightarrow> string" where
  "pad20 n = replicate (20 - length (decimal n)) CHR ''0'' @ decimal n"

definition manifest_key :: "journal_env \<Rightarrow> source_id \<Rightarrow> string" where
  "manifest_key env source = ''s3cache-control/v1/'' @ je_b64 env (src_name source) @ ''/manifest''"

definition slot_key :: "journal_env \<Rightarrow> source_id \<Rightarrow> string \<Rightarrow> nat \<Rightarrow> string" where
  "slot_key env source bucket slot =
     ''s3cache-control/v1/'' @ je_b64 env (src_name source) @ ''/'' @ decimal (src_generation source) @ ''/bucket/''
     @ je_b64 env bucket @ ''/slot/'' @ pad20 slot"

section \<open>Validation\<close>

definition validate_config :: "journal_config \<Rightarrow> journal_error + unit" where
  "validate_config cfg = (let l = jcf_limits cfg in
     if src_name (jcf_source cfg) = [] \<or> admission_version cfg = 0 \<or> max_admission_ms cfg = 0
        \<or> max_record_bytes l < 128 \<or> max_slots l = 0 \<or> max_scan_events l = 0 \<or> max_scan_bytes l < max_record_bytes l
        \<or> max_append_probes l = 0 \<or> max_slots l * max_record_bytes l > u64_max
     then Inl ConfigMismatch else Inr ())"

definition validate_record :: "journal_config \<Rightarrow> jrecord \<Rightarrow> journal_error + unit" where
  "validate_record cfg r = (case r of
       Intent op key _ \<Rightarrow> if op = [] \<or> key = [] then Inl (JCorrupt ''empty operation ID or key'') else Inr ()
     | Outcome op _ key _ \<Rightarrow> if op = [] \<or> key = [] then Inl (JCorrupt ''empty operation ID or key'') else Inr ()
     | ReaderAdmission rid inc ms ver \<Rightarrow>
         if rid = [] \<or> inc = 0 \<or> ms = 0 \<or> ms > max_admission_ms cfg \<or> ver \<noteq> admission_version cfg
         then Inl ConfigMismatch else Inr ())"

definition check_cursor :: "journal_config \<Rightarrow> cursor \<Rightarrow> journal_error + unit" where
  "check_cursor cfg cu = (if cu_source cu \<noteq> jcf_source cfg \<or> cu_bucket cu = [] then Inl ConfigMismatch else Inr ())"

definition decode_slot :: "journal_env \<Rightarrow> journal_config \<Rightarrow> bytes \<Rightarrow> cursor \<Rightarrow> nat \<Rightarrow> journal_error + slot_envelope" where
  "decode_slot env cfg bs cu slot =
     bindE (frame_decode (je_hash env) (slot_codec env) bs (max_record_bytes (jcf_limits cfg))) (\<lambda>envelope.
     if se_source envelope \<noteq> cu_source cu \<or> se_bucket envelope \<noteq> cu_bucket cu \<or> se_slot envelope \<noteq> slot
     then Inl (JCorrupt ''slot identity mismatch'')
     else bindE (validate_record cfg (se_record envelope)) (\<lambda>_. Inr envelope))"

definition same_identity :: "jrecord \<Rightarrow> jrecord \<Rightarrow> bool" where
  "same_identity a b = (case (a, b) of
       (Intent x _ _, Intent y _ _) \<Rightarrow> x = y
     | (Outcome x i _ _, Outcome y j _ _) \<Rightarrow> x = y \<and> i = j
     | (ReaderAdmission x i _ _, ReaderAdmission y j _ _) \<Rightarrow> x = y \<and> i = j
     | _ \<Rightarrow> False)"

definition occupied ::
  "journal_env \<Rightarrow> journal_config \<Rightarrow> bytes \<Rightarrow> bytes \<Rightarrow> cursor \<Rightarrow> nat \<Rightarrow> jrecord \<Rightarrow> journal_error + bool" where
  "occupied env cfg actual expected cu slot r =
     bindE (decode_slot env cfg actual cu slot) (\<lambda>envelope.
     let stored = se_record envelope in
     if actual = expected \<or> \<not> is_current actual \<and> stored = r then Inr True
     else if same_identity stored r then Inl (JCorrupt ''logical record identity conflict'')
     else Inr False)"

definition cursor_after :: "cursor \<Rightarrow> nat \<Rightarrow> journal_error + cursor" where
  "cursor_after cu slot = bindE (ok_or JCapacity (checked_add64 slot 1)) (\<lambda>next. Inr (cu\<lparr>cu_next_slot := next\<rparr>))"

definition validate_predecessor :: "'s slot_store_ops \<Rightarrow> journal_env \<Rightarrow> journal_config \<Rightarrow> cursor \<Rightarrow> ('s, unit) jop" where
  "validate_predecessor S env cfg cu =
     (if cu_next_slot cu = 0 then j_lift (Inr ())
      else let prior = cu_next_slot cu - 1 in
        if prior \<ge> max_slots (jcf_limits cfg) then j_lift (Inl JCapacity)
        else j_bind (j_get S (slot_key env (jcf_source cfg) (cu_bucket cu) prior)) (\<lambda>v.
             j_lift (bindE (ok_or (JCorrupt ''cursor predecessor absent'') v) (\<lambda>bs.
               bindE (decode_slot env cfg bs cu prior) (\<lambda>_. Inr ())))))"

definition validate_outcome_binding ::
  "'s slot_store_ops \<Rightarrow> journal_env \<Rightarrow> journal_config \<Rightarrow> cursor \<Rightarrow> nat \<Rightarrow> jrecord \<Rightarrow> ('s, unit) jop" where
  "validate_outcome_binding S env cfg cu slot r = (case r of
       Outcome op islot key _ \<Rightarrow>
         if islot \<ge> slot then j_lift (Inl (JCorrupt ''outcome precedes intent''))
         else j_bind (j_get S (slot_key env (jcf_source cfg) (cu_bucket cu) islot)) (\<lambda>v.
              j_lift (bindE (ok_or (JCorrupt ''outcome intent absent'') v) (\<lambda>bs.
                bindE (decode_slot env cfg bs cu islot) (\<lambda>envelope.
                  case se_record envelope of
                    Intent original original_key _ \<Rightarrow>
                      if original = op \<and> original_key = key then Inr () else Inl (JCorrupt ''outcome intent mismatch'')
                  | _ \<Rightarrow> Inl (JCorrupt ''outcome intent mismatch'')))))
     | _ \<Rightarrow> j_lift (Inr ()))"

section \<open>Operations\<close>

definition journal_open :: "'s slot_store_ops \<Rightarrow> journal_env \<Rightarrow> journal_config \<Rightarrow> ('s, journal_config) jop" where
  "journal_open S env cfg =
     j_bind (j_lift (validate_config cfg)) (\<lambda>_.
     j_bind (j_lift (frame_encode (je_hash env) (config_codec env) cfg (max_record_bytes (jcf_limits cfg)))) (\<lambda>expected.
     let key = manifest_key env (jcf_source cfg) in
     j_bind (j_put S key expected) (\<lambda>verdict.
       case verdict of
         Created \<Rightarrow> j_lift (Inr cfg)
       | _ \<Rightarrow> j_bind (j_get S key) (\<lambda>v.
           j_lift (bindE (ok_or UnknownManifest v) (\<lambda>actual.
             bindE (frame_decode (je_hash env) (config_codec env) actual (max_record_bytes (jcf_limits cfg))) (\<lambda>stored.
             if stored \<noteq> cfg \<or> is_current actual \<and> actual \<noteq> expected then Inl ConfigMismatch else Inr cfg)))))))"

definition journal_start :: "journal_config \<Rightarrow> string \<Rightarrow> cursor" where
  "journal_start cfg bucket = \<lparr>cu_source = jcf_source cfg, cu_bucket = bucket, cu_next_slot = 0\<rparr>"

datatype append_result = AppendCreated cursor | AppendRecovered cursor

definition envelope_of :: "journal_config \<Rightarrow> cursor \<Rightarrow> nat \<Rightarrow> jrecord \<Rightarrow> slot_envelope" where
  "envelope_of cfg from slot r = \<lparr>se_source = jcf_source cfg, se_bucket = cu_bucket from, se_slot = slot, se_record = r\<rparr>"

text \<open>What a probe does with an occupied slot: it is this very record, another record (probe the next slot), or
  an error.\<close>

definition probe_occupied ::
  "journal_env \<Rightarrow> journal_config \<Rightarrow> cursor \<Rightarrow> jrecord \<Rightarrow> nat \<Rightarrow> bytes \<Rightarrow> bytes
   \<Rightarrow> (nat \<Rightarrow> ('s, append_result) jop) \<Rightarrow> ('s, append_result) jop" where
  "probe_occupied env cfg from r slot bs actual continue =
     j_bind (j_lift (occupied env cfg actual bs from slot r)) (\<lambda>mine.
     if mine then j_bind (j_lift (cursor_after from slot)) (\<lambda>cu. j_lift (Inr (AppendRecovered cu)))
     else j_bind (j_lift (ok_or JCapacity (checked_add64 slot 1))) continue)"

text \<open>The probe loop, with the probes that are left.\<close>

fun append_probe ::
  "'s slot_store_ops \<Rightarrow> journal_env \<Rightarrow> journal_config \<Rightarrow> cursor \<Rightarrow> jrecord \<Rightarrow> nat \<Rightarrow> nat \<Rightarrow> ('s, append_result) jop" where
  "append_probe S env cfg from r 0 slot =
     (if slot \<ge> max_slots (jcf_limits cfg) then j_lift (Inl JCapacity)
      else j_lift (Inl (AppendBackpressured (from\<lparr>cu_next_slot := slot\<rparr>))))"
| "append_probe S env cfg from r (Suc n) slot =
     (if slot \<ge> max_slots (jcf_limits cfg) then j_lift (Inl JCapacity)
      else
        let key = slot_key env (jcf_source cfg) (cu_bucket from) slot in
        j_bind (j_lift (frame_encode (je_hash env) (slot_codec env) (envelope_of cfg from slot r)
                          (max_record_bytes (jcf_limits cfg)))) (\<lambda>bs.
        j_bind (j_get S key) (\<lambda>v. case v of
          Some actual \<Rightarrow>
            probe_occupied env cfg from r slot bs actual (append_probe S env cfg from r n)
        | None \<Rightarrow>
            j_bind (validate_outcome_binding S env cfg from slot r) (\<lambda>_.
            j_bind (j_put S key bs) (\<lambda>verdict.
            if verdict = Created then j_bind (j_lift (cursor_after from slot)) (\<lambda>cu. j_lift (Inr (AppendCreated cu)))
            else j_bind (j_get S key) (\<lambda>v. case v of
                Some actual \<Rightarrow>
                  probe_occupied env cfg from r slot bs actual (append_probe S env cfg from r n)
              | None \<Rightarrow> j_lift (Inl (UnknownWrite slot from))))))))"

definition journal_append ::
  "'s slot_store_ops \<Rightarrow> journal_env \<Rightarrow> journal_config \<Rightarrow> cursor \<Rightarrow> jrecord \<Rightarrow> ('s, append_result) jop" where
  "journal_append S env cfg from r =
     j_bind (j_lift (check_cursor cfg from)) (\<lambda>_.
     j_bind (j_lift (validate_record cfg r)) (\<lambda>_.
     j_bind (validate_predecessor S env cfg from) (\<lambda>_.
       append_probe S env cfg from r (max_append_probes (jcf_limits cfg)) (cu_next_slot from))))"

record journal_page =
  sp_records :: "jrecord list"
  sp_cursor :: cursor
  sp_at_first_absent :: bool

fun scan_slots ::
  "'s slot_store_ops \<Rightarrow> journal_env \<Rightarrow> journal_config \<Rightarrow> nat \<Rightarrow> jrecord list \<Rightarrow> cursor \<Rightarrow> nat \<Rightarrow> ('s, journal_page) jop" where
  "scan_slots S env cfg 0 rs cu bytes_read =
     j_lift (Inr \<lparr>sp_records = rs, sp_cursor = cu, sp_at_first_absent = False\<rparr>)"
| "scan_slots S env cfg (Suc n) rs cu bytes_read =
     (if cu_next_slot cu \<ge> max_slots (jcf_limits cfg)
      then j_lift (if rs = [] then Inl JCapacity else Inr \<lparr>sp_records = rs, sp_cursor = cu, sp_at_first_absent = False\<rparr>)
      else j_bind (j_get S (slot_key env (jcf_source cfg) (cu_bucket cu) (cu_next_slot cu))) (\<lambda>v. case v of
          None \<Rightarrow> j_lift (Inr \<lparr>sp_records = rs, sp_cursor = cu, sp_at_first_absent = True\<rparr>)
        | Some bs \<Rightarrow>
            j_bind (j_lift (ok_or Backpressured (checked_add64 bytes_read (length bs)))) (\<lambda>bytes_read.
            if bytes_read > max_scan_bytes (jcf_limits cfg)
            then j_lift (if rs = [] then Inl Backpressured else Inr \<lparr>sp_records = rs, sp_cursor = cu, sp_at_first_absent = False\<rparr>)
            else j_bind (j_lift (decode_slot env cfg bs cu (cu_next_slot cu))) (\<lambda>envelope.
              scan_slots S env cfg n (rs @ [se_record envelope]) (cu\<lparr>cu_next_slot := cu_next_slot cu + 1\<rparr>) bytes_read))))"

definition journal_scan :: "'s slot_store_ops \<Rightarrow> journal_env \<Rightarrow> journal_config \<Rightarrow> cursor \<Rightarrow> ('s, journal_page) jop" where
  "journal_scan S env cfg from =
     j_bind (j_lift (check_cursor cfg from)) (\<lambda>_.
     j_bind (validate_predecessor S env cfg from) (\<lambda>_.
       scan_slots S env cfg (max_scan_events (jcf_limits cfg)) [] from 0))"

section \<open>Slot keys\<close>

lemma undecimal_pad: "undecimal (replicate k CHR ''0'' @ s) = undecimal s"
proof -
  have "fold (\<lambda>c n. 10 * n + (of_char c - 48)) (replicate k CHR ''0'') (0 :: nat) = 0"
    by (induction k) auto
  then show ?thesis
    by simp
qed

lemma pad20_inj: "pad20 m = pad20 n \<Longrightarrow> m = n"
  unfolding pad20_def by (metis undecimal_pad undecimal_decimal)

lemma slot_key_inj: "slot_key env src b m = slot_key env src b n \<longleftrightarrow> m = n"
  by (auto simp: slot_key_def dest: pad20_inj)

lemma j_bind_eq: "j_bind m f s = (r, s') \<longleftrightarrow>
    (\<exists>e. m s = (Inl e, s') \<and> r = Inl e) \<or> (\<exists>x s1. m s = (Inr x, s1) \<and> f x s1 = (r, s'))"
  by (auto simp: j_bind_def split: sum.splits prod.splits)

lemma j_bind_Inr: "j_bind m f s = (Inr y, s') \<longleftrightarrow> (\<exists>x s1. m s = (Inr x, s1) \<and> f x s1 = (Inr y, s'))"
  by (auto simp: j_bind_def split: sum.splits prod.splits)

lemma j_lift_eq [simp]: "j_lift v s = (r, s') \<longleftrightarrow> v = r \<and> s = s'"
  by (auto simp: j_lift_def)

section \<open>What a store promises\<close>

text \<open>Objects are immutable, a read is authoritative, and an acknowledged create stored exactly these bytes.
  A reply may be lost in either direction, and other writers may create objects at any moment.\<close>

definition store_grows :: "('s \<Rightarrow> string \<Rightarrow> bytes option) \<Rightarrow> 's \<Rightarrow> 's \<Rightarrow> bool" where
  "store_grows contents s s' \<longleftrightarrow> (\<forall>l b. contents s l = Some b \<longrightarrow> contents s' l = Some b)"

lemma store_grows_refl [simp]: "store_grows contents s s"
  by (simp add: store_grows_def)

lemma store_grows_trans: "store_grows contents s s' \<Longrightarrow> store_grows contents s' s'' \<Longrightarrow> store_grows contents s s''"
  by (simp add: store_grows_def)

text \<open>A slot of the cursor's chain holds a valid record.\<close>

definition holds_record ::
  "('s \<Rightarrow> string \<Rightarrow> bytes option) \<Rightarrow> journal_env \<Rightarrow> journal_config \<Rightarrow> cursor \<Rightarrow> nat \<Rightarrow> jrecord \<Rightarrow> 's \<Rightarrow> bool" where
  "holds_record contents env cfg cu slot r s \<longleftrightarrow>
     (\<exists>bs e. contents s (slot_key env (jcf_source cfg) (cu_bucket cu) slot) = Some bs
        \<and> decode_slot env cfg bs cu slot = Inr e \<and> se_record e = r)"

text \<open>Where an append ends: at a slot that holds its record, past slots that hold other records.\<close>

definition lands :: "('s \<Rightarrow> string \<Rightarrow> bytes option) \<Rightarrow> journal_env \<Rightarrow> journal_config \<Rightarrow> cursor \<Rightarrow> jrecord \<Rightarrow> nat \<Rightarrow> append_result \<Rightarrow> 's \<Rightarrow> bool" where
  "lands contents env cfg from r slot res s \<longleftrightarrow> (\<exists>j. slot \<le> j \<and> j < max_slots (jcf_limits cfg)
     \<and> res \<in> {AppendCreated (from\<lparr>cu_next_slot := Suc j\<rparr>), AppendRecovered (from\<lparr>cu_next_slot := Suc j\<rparr>)}
     \<and> holds_record contents env cfg from j r s
     \<and> (\<forall>i. slot \<le> i \<and> i < j \<longrightarrow> (\<exists>r'. holds_record contents env cfg from i r' s \<and> \<not> same_identity r' r)))"

locale slot_store =
  fixes S :: "'s slot_store_ops" and contents :: "'s \<Rightarrow> string \<Rightarrow> bytes option"
  assumes get_view: "ss_get S k s = (Inr v, s') \<Longrightarrow> v = contents s' k"
    and get_keeps: "ss_get S k s = (r, s') \<Longrightarrow> contents s l = Some b \<Longrightarrow> contents s' l = Some b"
    and put_keeps: "ss_put_if_absent S k d s = (r', s') \<Longrightarrow> contents s l = Some b \<Longrightarrow> contents s' l = Some b"
    and put_created: "ss_put_if_absent S k d s = (Inr Created, s') \<Longrightarrow> contents s' k = Some d"
begin

lemma j_get_grows: "j_get S k s = (r, s') \<Longrightarrow> store_grows contents s s'"
  using get_keeps by (auto simp: j_get_def store_grows_def split: sum.splits prod.splits)

lemma j_get_view: "j_get S k s = (Inr v, s') \<Longrightarrow> v = contents s' k"
  using get_view by (auto simp: j_get_def split: sum.splits prod.splits)

lemma j_put_grows: "j_put S k b s = (r, s') \<Longrightarrow> store_grows contents s s'"
  using put_keeps by (auto simp: j_put_def store_grows_def split: sum.splits prod.splits)

lemma j_put_created: "j_put S k b s = (Inr Created, s') \<Longrightarrow> contents s' k = Some b"
  using put_created by (auto simp: j_put_def split: sum.splits prod.splits)

lemma store_grows_holds: "store_grows contents s s' \<Longrightarrow> holds_record contents env cfg cu slot r s \<Longrightarrow> holds_record contents env cfg cu slot r s'"
  by (auto simp: holds_record_def store_grows_def)

definition keeps :: "('s, 'a) jop \<Rightarrow> bool" where
  "keeps m \<longleftrightarrow> (\<forall>s x s'. m s = (x, s') \<longrightarrow> store_grows contents s s')"

lemma keeps_lift [intro]: "keeps (j_lift v)"
  by (simp add: keeps_def)

lemma keeps_bind [intro]: "keeps m \<Longrightarrow> (\<And>x. keeps (f x)) \<Longrightarrow> keeps (j_bind m f)"
  unfolding keeps_def by (fastforce simp: j_bind_eq intro: store_grows_trans)

lemma keeps_get [intro]: "keeps (j_get S k)"
  using j_get_grows by (auto simp: keeps_def)

lemma keeps_put [intro]: "keeps (j_put S k b)"
  using j_put_grows by (auto simp: keeps_def)

lemma keeps_option [intro]: "keeps a \<Longrightarrow> (\<And>x. keeps (f x)) \<Longrightarrow> keeps (case v of None \<Rightarrow> a | Some x \<Rightarrow> f x)"
  by (cases v) auto

lemma keeps_if [intro]: "keeps a \<Longrightarrow> keeps b \<Longrightarrow> keeps (if c then a else b)"
  by simp

lemmas keeps_rules = keeps_if keeps_lift keeps_bind keeps_get keeps_put keeps_option

lemma keeps_validate_outcome [intro]: "keeps (validate_outcome_binding S env cfg cu slot r)"
  by (cases r) (simp_all add: validate_outcome_binding_def keeps_rules)

lemma keeps_validate_predecessor [intro]: "keeps (validate_predecessor S env cfg cu)"
  by (simp add: validate_predecessor_def Let_def keeps_rules)

lemma keeps_probe_occupied: "(\<And>x. keeps (f x)) \<Longrightarrow> keeps (probe_occupied env cfg from r slot bs actual f)"
  unfolding probe_occupied_def by (intro keeps_rules)

lemma keeps_append_probe [intro]: "keeps (append_probe S env cfg from r n slot)"
proof (induction n arbitrary: slot)
  case (Suc n)
  show ?case
    unfolding append_probe.simps Let_def by (intro keeps_rules keeps_validate_outcome keeps_probe_occupied Suc.IH)
qed (simp add: keeps_lift)

lemma keeps_append [intro]: "keeps (journal_append S env cfg from r)"
  unfolding journal_append_def by (intro keeps_rules keeps_validate_predecessor keeps_append_probe)

lemma keeps_scan_slots [intro]: "keeps (scan_slots S env cfg n rs cu k)"
proof (induction n arbitrary: rs cu k)
  case (Suc n)
  show ?case
    unfolding scan_slots.simps by (intro keeps_rules Suc.IH)
qed (simp add: keeps_lift)

lemma keeps_scan [intro]: "keeps (journal_scan S env cfg cu)"
  unfolding journal_scan_def by (intro keeps_rules keeps_validate_predecessor keeps_scan_slots)

lemma lands_next:
  assumes "lands contents env cfg from r (Suc slot) res s'" "store_grows contents s s'"
    and "holds_record contents env cfg from slot r' s" "\<not> same_identity r' r"
  shows "lands contents env cfg from r slot res s'"
proof -
  have "holds_record contents env cfg from slot r' s'"
    using assms(2,3) store_grows_holds by blast
  then show ?thesis
    using assms(1,4) unfolding lands_def by (metis Suc_leD Suc_leI le_eq_less_or_eq)
qed

lemma occupied_cases:
  assumes "occupied env cfg actual bs from slot r = Inr mine" "contents s (slot_key env (jcf_source cfg) (cu_bucket from) slot) = Some actual"
    and "codec_laws (je_hash env) (slot_codec env)" "frame_encode (je_hash env) (slot_codec env) (envelope_of cfg from slot r) m = Inr bs"
    and "m = max_record_bytes (jcf_limits cfg)"
  shows "if mine then holds_record contents env cfg from slot r s
    else \<exists>r'. holds_record contents env cfg from slot r' s \<and> \<not> same_identity r' r"
proof -
  obtain e where e: "decode_slot env cfg actual from slot = Inr e"
    using assms(1) by (auto simp: occupied_def bindE_eq_Inr)
  have "se_record e = r" if "actual = bs"
  proof -
    have "frame_decode (je_hash env) (slot_codec env) bs m = Inr (envelope_of cfg from slot r)"
      using frame_roundtrip_core [OF assms(3,4)] by blast
    then show ?thesis
      using e that assms(5) by (auto simp: decode_slot_def bindE_eq_Inr envelope_of_def split: if_splits)
  qed
  then show ?thesis
    using assms(1,2) e by (auto simp: occupied_def holds_record_def Let_def split: if_splits)
qed

end

context slot_store
begin

lemma probe_occupied_lands:
  assumes "probe_occupied env cfg from r slot bs actual f s = (Inr res, s')"
    and "contents s (slot_key env (jcf_source cfg) (cu_bucket from) slot) = Some actual" "slot < max_slots (jcf_limits cfg)"
    and "codec_laws (je_hash env) (slot_codec env)"
    and "frame_encode (je_hash env) (slot_codec env) (envelope_of cfg from slot r) (max_record_bytes (jcf_limits cfg)) = Inr bs"
    and "\<And>x. keeps (f x)" "f (Suc slot) s = (Inr res, s') \<Longrightarrow> lands contents env cfg from r (Suc slot) res s'"
  shows "lands contents env cfg from r slot res s'"
proof -
  obtain mine where m: "occupied env cfg actual bs from slot r = Inr mine"
    using assms(1) by (auto simp: probe_occupied_def j_bind_Inr)
  note o = occupied_cases [OF m assms(2,4,5) refl]
  show ?thesis
  proof (cases mine)
    case True
    then show ?thesis
      using assms(1,3) m o
      by (auto simp: probe_occupied_def j_bind_Inr lands_def cursor_after_def result_simps checked_add64_def split: if_splits)
  next
    case False
    then have f: "f (Suc slot) s = (Inr res, s')"
      using assms(1) m by (auto simp: probe_occupied_def j_bind_Inr result_simps checked_add64_def split: if_splits)
    then have "store_grows contents s s'"
      using assms(6) by (auto simp: keeps_def)
    then show ?thesis
      using lands_next [OF assms(7) [OF f]] o False by auto
  qed
qed

lemma append_probe_lands:
  assumes laws: "codec_laws (je_hash env) (slot_codec env)" and src: "cu_source from = jcf_source cfg" and valid: "validate_record cfg r = Inr ()"
  shows "append_probe S env cfg from r n slot s = (Inr res, s') \<Longrightarrow> lands contents env cfg from r slot res s'"
proof (induction n arbitrary: slot s)
  case 0
  then show ?case
    by (auto split: if_splits)
next
  case (Suc n)
  let ?key = "slot_key env (jcf_source cfg) (cu_bucket from) slot"
  have room: "slot < max_slots (jcf_limits cfg)"
    using Suc.prems by (auto split: if_splits)
  then have room': "\<not> max_slots (jcf_limits cfg) \<le> slot"
    by simp
  obtain bs v s1 where b: "frame_encode (je_hash env) (slot_codec env) (envelope_of cfg from slot r) (max_record_bytes (jcf_limits cfg)) = Inr bs"
    "j_get S ?key s = (Inr v, s1)"
    and c: "(case v of Some actual \<Rightarrow> probe_occupied env cfg from r slot bs actual (append_probe S env cfg from r n)
      | None \<Rightarrow> j_bind (validate_outcome_binding S env cfg from slot r) (\<lambda>_. j_bind (j_put S ?key bs) (\<lambda>verdict.
          if verdict = Created then j_bind (j_lift (cursor_after from slot)) (\<lambda>cu. j_lift (Inr (AppendCreated cu)))
          else j_bind (j_get S ?key) (\<lambda>v. case v of
                Some actual \<Rightarrow> probe_occupied env cfg from r slot bs actual (append_probe S env cfg from r n)
              | None \<Rightarrow> j_lift (Inl (UnknownWrite slot from)))))) s1 = (Inr res, s')"
    using Suc.prems [unfolded append_probe.simps Let_def if_not_P [OF room'] j_bind_Inr j_lift_eq] by blast
  note occ = probe_occupied_lands [OF _ _ room laws b(1), where f = "append_probe S env cfg from r n"]
  show ?case
  proof (cases v)
    case (Some actual)
    then show ?thesis
      using c occ [of actual s1] j_get_view [OF b(2)] Suc.IH by auto
  next
    case None
    obtain s2 verdict s3 where p: "j_put S ?key bs s2 = (Inr verdict, s3)" "if verdict = Created
          then j_bind (j_lift (cursor_after from slot)) (\<lambda>cu. j_lift (Inr (AppendCreated cu))) s3 = (Inr res, s')
          else \<exists>s4 actual. j_get S ?key s3 = (Inr (Some actual), s4)
            \<and> probe_occupied env cfg from r slot bs actual (append_probe S env cfg from r n) s4 = (Inr res, s')"
      using c None by (auto simp: j_bind_Inr split: if_splits option.splits)
    show ?thesis
    proof (cases "verdict = Created")
      case True
      have "frame_decode (je_hash env) (slot_codec env) bs (max_record_bytes (jcf_limits cfg)) = Inr (envelope_of cfg from slot r)"
        using frame_roundtrip_core [OF laws b(1)] by blast
      then have "holds_record contents env cfg from slot r s3"
        using j_put_created [of ?key bs s2 s3] p(1) True src valid
        by (auto simp: holds_record_def decode_slot_def envelope_of_def)
      then show ?thesis
        using p(2) True room by (auto simp: j_bind_Inr lands_def cursor_after_def result_simps checked_add64_def split: if_splits)
    next
      case False
      then show ?thesis
        using p(2) occ j_get_view Suc.IH by fastforce
    qed
  qed
qed

lemma journal_append_lands:
  assumes "codec_laws (je_hash env) (slot_codec env)" "journal_append S env cfg from r s = (Inr res, s')"
  shows "lands contents env cfg from r (cu_next_slot from) res s' \<and> store_grows contents s s'"
proof -
  obtain s1 where s1: "check_cursor cfg from = Inr ()" "validate_record cfg r = Inr ()"
    "append_probe S env cfg from r (max_append_probes (jcf_limits cfg)) (cu_next_slot from) s1 = (Inr res, s')"
    using assms(2) by (auto simp: journal_append_def j_bind_Inr)
  have "cu_source from = jcf_source cfg"
    using s1(1) by (auto simp: check_cursor_def split: if_splits)
  then show ?thesis
    using append_probe_lands [OF assms(1) _ s1(2,3)] keeps_append assms(2) by (auto simp: keeps_def)
qed

end

text \<open>C31: An append that succeeds is durable and leaves no gap. Against any store with immutable objects and
  authoritative reads, with other writers and lost replies at any point: the record lies, valid and unchanged, in
  the slot just before the returned cursor; every slot from the starting cursor up to it holds a valid
  record of a different identity; and nothing that was stored before has changed.\<close>

theorem append_durable:
  assumes "slot_store S contents" "codec_laws (je_hash env) (slot_codec env)"
    and "journal_append S env cfg from r s = (Inr res, s')"
  shows "lands contents env cfg from r (cu_next_slot from) res s' \<and> store_grows contents s s'"
  using slot_store.journal_append_lands [OF assms] .

definition result_cursor :: "append_result \<Rightarrow> cursor" where
  "result_cursor res = (case res of AppendCreated cu \<Rightarrow> cu | AppendRecovered cu \<Rightarrow> cu)"

context slot_store
begin

lemma occupied_own:
  assumes "codec_laws (je_hash env) (slot_codec env)" "cu_source from = jcf_source cfg" "validate_record cfg r = Inr ()"
    and "frame_encode (je_hash env) (slot_codec env) (envelope_of cfg from slot r) (max_record_bytes (jcf_limits cfg)) = Inr bs"
  shows "occupied env cfg bs bs from slot r = Inr True"
  using frame_roundtrip_core [OF assms(1,4)] assms(2,3) by (simp add: occupied_def decode_slot_def envelope_of_def)

text \<open>A repeated probe over a store that only grew.\<close>

lemma append_probe_again:
  assumes laws: "codec_laws (je_hash env) (slot_codec env)" and src: "cu_source from = jcf_source cfg" and valid: "validate_record cfg r = Inr ()"
  shows "append_probe S env cfg from r n slot s = (Inr res, s') \<Longrightarrow> store_grows contents s' t \<Longrightarrow> append_probe S env cfg from r n slot t = (res', t')
    \<Longrightarrow> res' = Inr (AppendRecovered (result_cursor res)) \<or> (\<exists>e. res' = Inl (StoreError e))"
proof (induction n arbitrary: slot s t)
  case 0
  then show ?case
    by (auto split: if_splits)
next
  case (Suc n)
  let ?key = "slot_key env (jcf_source cfg) (cu_bucket from) slot" and ?next = "append_probe S env cfg from r n"
  have room: "\<not> max_slots (jcf_limits cfg) \<le> slot"
    using Suc.prems(1) by (auto split: if_splits)
  obtain bs v s1 where b: "frame_encode (je_hash env) (slot_codec env) (envelope_of cfg from slot r) (max_record_bytes (jcf_limits cfg)) = Inr bs"
    "j_get S ?key s = (Inr v, s1)"
    and c: "(case v of Some actual \<Rightarrow> probe_occupied env cfg from r slot bs actual ?next
      | None \<Rightarrow> j_bind (validate_outcome_binding S env cfg from slot r) (\<lambda>_. j_bind (j_put S ?key bs) (\<lambda>verdict.
          if verdict = Created then j_bind (j_lift (cursor_after from slot)) (\<lambda>cu. j_lift (Inr (AppendCreated cu)))
          else j_bind (j_get S ?key) (\<lambda>v. case v of
                Some actual \<Rightarrow> probe_occupied env cfg from r slot bs actual ?next
              | None \<Rightarrow> j_lift (Inl (UnknownWrite slot from)))))) s1 = (Inr res, s')"
    using Suc.prems(1) [unfolded append_probe.simps Let_def if_not_P [OF room] j_bind_Inr j_lift_eq] by blast
  have found: "\<exists>actual s2. contents s' ?key = Some actual
      \<and> (occupied env cfg actual bs from slot r = Inr True \<and> cursor_after from slot = Inr (result_cursor res)
         \<or> occupied env cfg actual bs from slot r = Inr False \<and> ?next (Suc slot) s2 = (Inr res, s') \<and> checked_add64 slot 1 = Some (Suc slot))"
  proof -
    have occ: ?thesis if p: "probe_occupied env cfg from r slot bs actual ?next s2 = (Inr res, s')" "contents s2 ?key = Some actual" for actual s2
    proof -
      have "store_grows contents s2 s'"
        using p(1) keeps_probe_occupied [of ?next] keeps_append_probe unfolding keeps_def by blast
      then have "contents s' ?key = Some actual"
        using p(2) by (auto simp: store_grows_def)
      then show ?thesis
        using p(1) by (cases "occupied env cfg actual bs from slot r")
          (auto simp: probe_occupied_def j_bind_Inr result_cursor_def result_simps checked_add64_def split: if_splits)
    qed
    show ?thesis
    proof (cases v)
      case (Some actual)
      then show ?thesis
        using c occ j_get_view [OF b(2)] by auto
    next
      case None
      then obtain s2 verdict s3 where p: "j_put S ?key bs s2 = (Inr verdict, s3)" "if verdict = Created
          then j_bind (j_lift (cursor_after from slot)) (\<lambda>cu. j_lift (Inr (AppendCreated cu))) s3 = (Inr res, s')
          else \<exists>s4 actual. j_get S ?key s3 = (Inr (Some actual), s4) \<and> probe_occupied env cfg from r slot bs actual ?next s4 = (Inr res, s')"
        using c by (auto simp: j_bind_Inr split: if_splits option.splits)
      show ?thesis
      proof (cases "verdict = Created")
        case True
        then show ?thesis
          using p j_put_created occupied_own [OF laws src valid b(1)] by (fastforce simp: j_bind_Inr result_cursor_def)
      next
        case False
        then show ?thesis
          using p(2) occ j_get_view by fastforce
      qed
    qed
  qed
  then obtain actual s2 where f: "contents s' ?key = Some actual"
    "occupied env cfg actual bs from slot r = Inr True \<and> cursor_after from slot = Inr (result_cursor res)
     \<or> occupied env cfg actual bs from slot r = Inr False \<and> ?next (Suc slot) s2 = (Inr res, s') \<and> checked_add64 slot 1 = Some (Suc slot)"
    by blast
  obtain w t1 where w: "j_get S ?key t = (w, t1)"
    by force
  have grown: "store_grows contents s' t1"
    by (rule store_grows_trans [OF Suc.prems(2) j_get_grows [OF w]])
  show ?case
  proof (cases w)
    case (Inl e)
    then obtain e' where "e = StoreError e'"
      using w by (auto simp: j_get_def split: sum.splits prod.splits)
    then show ?thesis
      using Suc.prems(3) w Inl b(1) room by (auto simp: Let_def j_bind_def j_lift_def)
  next
    case (Inr v')
    have "contents t1 ?key = Some actual"
      using f(1) grown unfolding store_grows_def by blast
    then have "v' = Some actual"
      using j_get_view [OF w [unfolded Inr]] by (rule trans [rotated])
    then have "probe_occupied env cfg from r slot bs actual ?next t1 = (res', t')"
      using Suc.prems(3) w Inr b(1) room by (simp add: Let_def j_bind_def j_lift_def)
    then show ?thesis
      using f(2) Suc.IH [OF _ grown] by (auto simp: probe_occupied_def j_bind_def j_lift_def split: sum.splits)
  qed
qed

lemma predecessor_again:
  assumes "validate_predecessor S env cfg cu s = (Inr (), s')" "store_grows contents s' t" "validate_predecessor S env cfg cu t = (x, t')"
  shows "store_grows contents t t' \<and> (x = Inr () \<or> (\<exists>e. x = Inl (StoreError e)))"
proof (cases "cu_next_slot cu = 0")
  case True
  then show ?thesis
    using assms(3) by (simp add: validate_predecessor_def)
next
  case False
  let ?key = "slot_key env (jcf_source cfg) (cu_bucket cu) (cu_next_slot cu - 1)"
  obtain bs where bs: "contents s' ?key = Some bs" "bindE (decode_slot env cfg bs cu (cu_next_slot cu - 1)) (\<lambda>_. Inr ()) = Inr ()"
    using assms(1) False j_get_view by (fastforce simp: validate_predecessor_def Let_def j_bind_Inr result_simps split: if_splits)
  have small: "\<not> max_slots (jcf_limits cfg) \<le> cu_next_slot cu - 1"
    using assms(1) False by (auto simp: validate_predecessor_def Let_def)
  obtain w t1 where w: "j_get S ?key t = (w, t1)"
    by force
  have "contents t1 ?key = Some bs"
    using bs(1) store_grows_trans [OF assms(2) j_get_grows [OF w]] unfolding store_grows_def by blast
  then have "w = Inr (Some bs) \<or> (\<exists>e. w = Inl (StoreError e))"
    using w j_get_view by (cases w) (auto simp: j_get_def split: sum.splits prod.splits)
  then have "x = Inr () \<or> (\<exists>e. x = Inl (StoreError e))"
    using assms(3) False small w bs(2) by (auto simp: validate_predecessor_def Let_def j_bind_def j_lift_def)
  then show ?thesis
    using keeps_validate_predecessor assms(3) unfolding keeps_def by blast
qed

lemma journal_append_again:
  assumes "codec_laws (je_hash env) (slot_codec env)" "journal_append S env cfg from r s = (Inr res, s')" "store_grows contents s' t"
    and "journal_append S env cfg from r t = (res', t')"
  shows "res' = Inr (AppendRecovered (result_cursor res)) \<or> (\<exists>e. res' = Inl (StoreError e))"
proof -
  obtain s1 where s1: "check_cursor cfg from = Inr ()" "validate_record cfg r = Inr ()" "validate_predecessor S env cfg from s = (Inr (), s1)"
    "append_probe S env cfg from r (max_append_probes (jcf_limits cfg)) (cu_next_slot from) s1 = (Inr res, s')"
    using assms(2) by (auto simp: journal_append_def j_bind_Inr)
  have src: "cu_source from = jcf_source cfg"
    using s1(1) by (auto simp: check_cursor_def split: if_splits)
  have "store_grows contents s1 s'"
    using s1(4) keeps_append_probe unfolding keeps_def by blast
  then have t: "store_grows contents s1 t"
    using assms(3) by (rule store_grows_trans)
  obtain x t1 where x: "validate_predecessor S env cfg from t = (x, t1)"
    by force
  note p = predecessor_again [OF s1(3) t x]
  show ?thesis
  proof (cases x)
    case (Inl e)
    then show ?thesis
      using p assms(4) s1(1,2) x by (auto simp: journal_append_def j_bind_def j_lift_def)
  next
    case (Inr u)
    then have probe: "append_probe S env cfg from r (max_append_probes (jcf_limits cfg)) (cu_next_slot from) t1 = (res', t')"
      using assms(4) s1(1,2) x by (simp add: journal_append_def j_bind_def j_lift_def)
    have "store_grows contents s' t1"
      using store_grows_trans [OF assms(3)] p by blast
    then show ?thesis
      using append_probe_again [OF assms(1) src s1(2,4) _ probe] by blast
  qed
qed

lemma holds_record_cursor [simp]:
  "holds_record contents env cfg (cu\<lparr>cu_next_slot := n\<rparr>) slot r s = holds_record contents env cfg cu slot r s"
  by (simp add: holds_record_def decode_slot_def)

lemma scan_slots_reads:
  "scan_slots S env cfg n rs cu k s = (Inr page, s') \<Longrightarrow>
   \<exists>more. sp_records page = rs @ more \<and> sp_cursor page = cu\<lparr>cu_next_slot := cu_next_slot cu + length more\<rparr>
    \<and> (\<forall>i < length more. holds_record contents env cfg cu (cu_next_slot cu + i) (more ! i) s')
    \<and> (sp_at_first_absent page \<longrightarrow> contents s' (slot_key env (jcf_source cfg) (cu_bucket cu) (cu_next_slot cu + length more)) = None)"
proof (induction n arbitrary: rs cu k s)
  case 0
  then show ?case
    by (auto intro!: exI [of _ "[]"])
next
  case (Suc n)
  let ?key = "slot_key env (jcf_source cfg) (cu_bucket cu) (cu_next_slot cu)"
  let ?cu = "cu\<lparr>cu_next_slot := Suc (cu_next_slot cu)\<rparr>"
  consider (stop) "sp_records page = rs" "sp_cursor page = cu" "sp_at_first_absent page \<longrightarrow> contents s' ?key = None"
    | (cont) bs s1 e k' where "j_get S ?key s = (Inr (Some bs), s1)" "decode_slot env cfg bs cu (cu_next_slot cu) = Inr e"
        "scan_slots S env cfg n (rs @ [se_record e]) ?cu k' s1 = (Inr page, s')"
  proof (cases "max_slots (jcf_limits cfg) \<le> cu_next_slot cu")
    case True
    then show ?thesis
      using Suc.prems stop by (auto split: if_splits)
  next
    case False
    obtain v s1 where v: "j_get S ?key s = (Inr v, s1)"
      using Suc.prems False by (auto simp: j_bind_Inr)
    show ?thesis
    proof (cases v)
      case None
      then show ?thesis
        using Suc.prems False v stop j_get_view [OF v] by (auto simp: j_bind_def j_lift_def)
    next
      case (Some bs)
      then show ?thesis
        using Suc.prems False v stop cont by (auto simp: j_bind_def j_lift_def split: sum.splits if_splits)
    qed
  qed
  then show ?case
  proof cases
    case stop
    then show ?thesis
      by (auto intro!: exI [of _ "[]"])
  next
    case cont
    obtain more where more: "sp_records page = (rs @ [se_record e]) @ more" "sp_cursor page = ?cu\<lparr>cu_next_slot := cu_next_slot ?cu + length more\<rparr>"
      "\<forall>i < length more. holds_record contents env cfg ?cu (cu_next_slot ?cu + i) (more ! i) s'"
      "sp_at_first_absent page \<longrightarrow> contents s' (slot_key env (jcf_source cfg) (cu_bucket ?cu) (cu_next_slot ?cu + length more)) = None"
      using Suc.IH [OF cont(3)] by blast
    have "store_grows contents s1 s'"
      using cont(3) keeps_scan_slots unfolding keeps_def by blast
    then have "holds_record contents env cfg cu (cu_next_slot cu) (se_record e) s'"
      using j_get_view [OF cont(1), symmetric] cont(2) by (auto simp: holds_record_def store_grows_def)
    then have "\<forall>i < length (se_record e # more). holds_record contents env cfg cu (cu_next_slot cu + i) ((se_record e # more) ! i) s'"
      using more(3) by (auto simp: less_Suc_eq_0_disj)
    then show ?thesis
      using more by (intro exI [of _ "se_record e # more"]) simp
  qed
qed

lemma journal_scan_reads:
  assumes "journal_scan S env cfg from s = (Inr page, s')"
  shows "sp_cursor page = from\<lparr>cu_next_slot := cu_next_slot from + length (sp_records page)\<rparr>
    \<and> (\<forall>i < length (sp_records page). holds_record contents env cfg from (cu_next_slot from + i) (sp_records page ! i) s')
    \<and> (sp_at_first_absent page \<longrightarrow> contents s' (slot_key env (jcf_source cfg) (cu_bucket from) (cu_next_slot (sp_cursor page))) = None)
    \<and> store_grows contents s s'"
proof -
  obtain s1 where "scan_slots S env cfg (max_scan_events (jcf_limits cfg)) [] from 0 s1 = (Inr page, s')"
    using assms by (auto simp: journal_scan_def j_bind_Inr)
  then obtain more where more: "sp_records page = [] @ more" "sp_cursor page = from\<lparr>cu_next_slot := cu_next_slot from + length more\<rparr>"
    "\<forall>i < length more. holds_record contents env cfg from (cu_next_slot from + i) (more ! i) s'"
    "sp_at_first_absent page \<longrightarrow> contents s' (slot_key env (jcf_source cfg) (cu_bucket from) (cu_next_slot from + length more)) = None"
    using scan_slots_reads by blast
  moreover have "store_grows contents s s'"
    using assms keeps_scan unfolding keeps_def by blast
  ultimately show ?thesis
    by simp
qed

end

text \<open>Retrying an append is safe. Once an append has succeeded, repeating it with the same cursor and record, at
  any later time and after any other writes, finds the same slot again and returns the same cursor, or fails
  with a store error; it never writes a second copy.\<close>

theorem append_retry_exact:
  assumes "slot_store S contents" "codec_laws (je_hash env) (slot_codec env)"
    and "journal_append S env cfg from r s = (Inr res, s')" "store_grows contents s' t"
    and "journal_append S env cfg from r t = (res', t')"
  shows "res' = Inr (AppendRecovered (result_cursor res)) \<or> (\<exists>e. res' = Inl (StoreError e))"
  by (rule slot_store.journal_append_again [OF assms])

text \<open>A scan page is the history. The records of a page are, in order, the valid records of consecutive slots from
  the given cursor; the returned cursor is the position right after them; and a page that reports
  the first absent slot ended at a slot that held nothing.\<close>

theorem scan_reads_history:
  assumes "slot_store S contents" "journal_scan S env cfg from s = (Inr page, s')"
  shows "sp_cursor page = from\<lparr>cu_next_slot := cu_next_slot from + length (sp_records page)\<rparr>
    \<and> (\<forall>i < length (sp_records page). holds_record contents env cfg from (cu_next_slot from + i) (sp_records page ! i) s')
    \<and> (sp_at_first_absent page \<longrightarrow> contents s' (slot_key env (jcf_source cfg) (cu_bucket from) (cu_next_slot (sp_cursor page))) = None)
    \<and> store_grows contents s s'"
  by (rule slot_store.journal_scan_reads [OF assms])

section \<open>The S3 store\<close>

text \<open>The SDK client as the code sees it: a conditional put that succeeds or fails with a service code, and a
  get that answers with a declared length and body chunks, or fails with a code.\<close>

datatype put_reply = PutOk | PutFailed "string option"

datatype get_reply = GetOk "int option" "(string + bytes) list" | GetFailed "string option" string

record 's s3_client =
  cl_put_if_none_match :: "string \<Rightarrow> string \<Rightarrow> bytes \<Rightarrow> 's \<Rightarrow> put_reply \<times> 's"
  cl_get :: "string \<Rightarrow> string \<Rightarrow> 's \<Rightarrow> get_reply \<times> 's"

record s3_slot_store =
  s3_bucket :: string
  s3_max_object_bytes :: nat

definition s3_slot_store_new :: "string \<Rightarrow> nat \<Rightarrow> string + s3_slot_store" where
  "s3_slot_store_new control_bucket max_object_bytes =
     (if control_bucket = [] \<or> max_object_bytes = 0 then Inl ''invalid control bucket or object limit''
      else Inr \<lparr>s3_bucket = control_bucket, s3_max_object_bytes = max_object_bytes\<rparr>)"

definition s3_put_if_absent ::
  "'s s3_client \<Rightarrow> s3_slot_store \<Rightarrow> string \<Rightarrow> bytes \<Rightarrow> 's \<Rightarrow> (string + put_verdict) \<times> 's" where
  "s3_put_if_absent client st key bs s =
     (if length bs > s3_max_object_bytes st then (Inl ''control object exceeds configured limit'', s)
      else case cl_put_if_none_match client (s3_bucket st) key bs s of
          (PutOk, s) \<Rightarrow> (Inr Created, s)
        | (PutFailed code, s) \<Rightarrow> (Inr (if code = Some ''PreconditionFailed'' then Occupied else Unknown), s))"

fun read_body :: "nat \<Rightarrow> bytes \<Rightarrow> (string + bytes) list \<Rightarrow> string + bytes" where
  "read_body limit acc [] = Inr acc"
| "read_body limit acc (Inl e # cs) = Inl (''control GET body: '' @ e)"
| "read_body limit acc (Inr c # cs) =
     (if length c > limit - length acc then Inl ''control object exceeds configured limit''
      else read_body limit (acc @ c) cs)"

definition s3_get :: "'s s3_client \<Rightarrow> s3_slot_store \<Rightarrow> string \<Rightarrow> 's \<Rightarrow> (string + bytes option) \<times> 's" where
  "s3_get client st key s = (case cl_get client (s3_bucket st) key s of
       (GetOk content_length chunks, s) \<Rightarrow>
         if (case content_length of None \<Rightarrow> False
             | Some l \<Rightarrow> l < 0 \<or> nat l > s3_max_object_bytes st)
         then (Inl ''control Content-Length outside limit'', s)
         else (map_sum id Some (read_body (s3_max_object_bytes st) [] chunks), s)
     | (GetFailed code msg, s) \<Rightarrow>
         if code = Some ''NoSuchKey'' \<or> code = Some ''NotFound'' then (Inr None, s)
         else (Inl (''control GET failed: '' @ msg), s))"

definition s3_store_ops :: "'s s3_client \<Rightarrow> s3_slot_store \<Rightarrow> 's slot_store_ops" where
  "s3_store_ops client st = \<lparr>ss_get = s3_get client st, ss_put_if_absent = s3_put_if_absent client st\<rparr>"

text \<open>What the service documents of a bucket whose objects are only ever created conditionally.\<close>

locale conditional_client =
  fixes client :: "'s s3_client" and st :: s3_slot_store and objects :: "'s \<Rightarrow> string \<Rightarrow> bytes option"
  assumes put_ok: "cl_put_if_none_match client (s3_bucket st) k b s = (PutOk, s') \<Longrightarrow> objects s' k = Some b"
    and put_immutable: "cl_put_if_none_match client (s3_bucket st) k b s = (r, s') \<Longrightarrow> objects s l = Some d \<Longrightarrow> objects s' l = Some d"
    and get_ok: "cl_get client (s3_bucket st) k s = (GetOk len (map Inr chunks), s') \<Longrightarrow> objects s' k = Some (concat chunks)"
    and get_missing: "cl_get client (s3_bucket st) k s = (GetFailed (Some code) msg, s') \<Longrightarrow> code = ''NoSuchKey'' \<or> code = ''NotFound'' \<Longrightarrow> objects s' k = None"
    and get_immutable: "cl_get client (s3_bucket st) k s = (g, s') \<Longrightarrow> objects s l = Some d \<Longrightarrow> objects s' l = Some d"

lemma read_body_Inr: "read_body limit acc cs = Inr b \<Longrightarrow> \<exists>chunks. cs = map Inr chunks \<and> b = acc @ concat chunks"
proof (induction cs arbitrary: acc)
  case (Cons c cs)
  obtain x where c: "c = Inr x"
    using Cons.prems by (cases c) auto
  then obtain chunks where "cs = map Inr chunks" "b = (acc @ x) @ concat chunks"
    using Cons.IH [of "acc @ x"] Cons.prems c by (auto split: if_splits)
  then show ?case
    using c by (intro exI [of _ "x # chunks"]) simp
qed simp

sublocale conditional_client \<subseteq> slot_store "s3_store_ops client st" objects
proof unfold_locales
  show "v = objects s' k" if "ss_get (s3_store_ops client st) k s = (Inr v, s')" for k s v s'
    using that get_ok get_missing
    by (auto simp: s3_store_ops_def s3_get_def split: prod.splits get_reply.splits if_splits dest!: read_body_Inr)
      (auto simp: map_sum_def split: sum.splits dest!: read_body_Inr)
  show "objects s' l = Some b" if "ss_get (s3_store_ops client st) k s = (r, s')" "objects s l = Some b" for k s r s' l b
    using that get_immutable by (auto simp: s3_store_ops_def s3_get_def split: prod.splits get_reply.splits if_splits)
  show "objects s' l = Some b" if "ss_put_if_absent (s3_store_ops client st) k d s = (r', s')" "objects s l = Some b" for k d s r' s' l b
    using that put_immutable by (auto simp: s3_store_ops_def s3_put_if_absent_def split: prod.splits put_reply.splits if_splits)
  show "objects s' k = Some d" if "ss_put_if_absent (s3_store_ops client st) k d s = (Inr Created, s')" for k d s s'
    using that put_ok by (auto simp: s3_store_ops_def s3_put_if_absent_def split: prod.splits put_reply.splits if_splits)
qed

section \<open>A service that keeps its objects in a map\<close>

type_synonym bucket_map = "(string \<times> bytes) list"

definition map_client :: "bucket_map s3_client" where
  "map_client = \<lparr>
     cl_put_if_none_match = (\<lambda>_ key bs s. case map_of s key of
         None \<Rightarrow> (PutOk, (key, bs) # s)
       | Some _ \<Rightarrow> (PutFailed (Some ''PreconditionFailed''), s)),
     cl_get = (\<lambda>_ key s. case map_of s key of
         None \<Rightarrow> (GetFailed (Some ''NoSuchKey'') ''no such key'', s)
       | Some bs \<Rightarrow> (GetOk (Some (int (length bs))) [Inr bs], s))\<rparr>"

interpretation map_bucket: conditional_client map_client st map_of
  by unfold_locales (auto simp: map_client_def map_eq_Cons_conv split: option.splits if_splits)

text \<open>A concrete journal: one source and bucket, a codec for the two envelopes of a finished mutation.\<close>

definition intent_example :: jrecord where
  "intent_example = Intent ''op'' ''k'' MPut"

definition outcome_example :: jrecord where
  "outcome_example = Outcome ''op'' 0 ''k'' Committed"

definition journal_config_example :: journal_config where
  "journal_config_example = \<lparr>jcf_source = \<lparr>src_name = ''s'', src_generation = 1\<rparr>, admission_version = 1, max_admission_ms = 1000,
     jcf_limits = \<lparr>max_record_bytes = 128, max_slots = 4, max_scan_events = 3, max_scan_bytes = 256, max_append_probes = 2\<rparr>\<rparr>"

definition envelope_example :: "nat \<Rightarrow> jrecord \<Rightarrow> slot_envelope" where
  "envelope_example slot r = \<lparr>se_source = \<lparr>src_name = ''s'', src_generation = 1\<rparr>, se_bucket = ''b'', se_slot = slot, se_record = r\<rparr>"

definition journal_env_example :: journal_env where
  "journal_env_example = \<lparr>je_hash = (\<lambda>_. replicate 32 CHR ''h''), je_b64 = id,
     je_slot_to_vec = (\<lambda>e. if e = envelope_example 0 intent_example then Some ''I''
       else if e = envelope_example 1 outcome_example then Some ''O'' else None),
     je_slot_from_slice = (\<lambda>bs. if bs = ''I'' then Some (envelope_example 0 intent_example)
       else if bs = ''O'' then Some (envelope_example 1 outcome_example) else None),
     je_config_to_vec = (\<lambda>_. Some ''C''), je_config_from_slice = (\<lambda>_. Some journal_config_example)\<rparr>"

definition journal_store_example :: "bucket_map slot_store_ops" where
  "journal_store_example = s3_store_ops map_client \<lparr>s3_bucket = ''control'', s3_max_object_bytes = 4096\<rparr>"

abbreviation "journal_start_example \<equiv> journal_start journal_config_example ''b''"

definition journal_example :: bucket_map where
  "journal_example = snd (journal_append journal_store_example journal_env_example journal_config_example journal_start_example
     intent_example [])"

lemma journal_store_example: "slot_store journal_store_example map_of"
  unfolding journal_store_example_def by (rule map_bucket.slot_store_axioms)

lemma journal_codec_example: "codec_laws (je_hash journal_env_example) (slot_codec journal_env_example)"
  by (auto simp: codec_laws_def journal_env_example_def slot_codec_def DIGEST_def split: if_splits)

lemmas journal_example_defs = journal_env_example_def journal_config_example_def journal_store_example_def envelope_example_def
  intent_example_def outcome_example_def

lemma journal_get_example [simp]:
  "(case map_of s k of None \<Rightarrow> True | Some bs \<Rightarrow> length bs \<le> 4096) \<Longrightarrow> j_get journal_store_example k s = (Inr (map_of s k), s)"
  by (auto simp: j_get_def journal_store_example_def s3_store_ops_def s3_get_def map_client_def split: option.splits)

lemma journal_put_example [simp]:
  "map_of s k = None \<Longrightarrow> length bs \<le> 4096 \<Longrightarrow> j_put journal_store_example k bs s = (Inr Created, (k, bs) # s)"
  by (simp add: j_put_def journal_store_example_def s3_store_ops_def s3_put_if_absent_def map_client_def)

definition frame_example :: bytes where
  "frame_example = MAGIC @ [char_of RECORD_VERSION] @ le_bytes 4 1 @ ''I'' @ replicate 32 CHR ''h''"

lemma envelope_of_example [simp]: "envelope_of journal_config_example journal_start_example 0 intent_example = envelope_example 0 intent_example"
  by (simp add: envelope_of_def journal_example_defs journal_start_def)

lemma frame_encode_example [simp]:
  "frame_encode (je_hash journal_env_example) (slot_codec journal_env_example) (envelope_example 0 intent_example)
     (max_record_bytes (jcf_limits journal_config_example)) = Inr frame_example"
  by (simp add: frame_encode_def journal_env_example_def journal_config_example_def slot_codec_def checked_add64_def u64_max_def frame_example_def
      HEADER_def DIGEST_def)

lemma frame_example_length [simp]: "length frame_example = 42"
  by (simp add: frame_example_def frame_defs)

lemma decode_slot_example [simp]:
  "decode_slot journal_env_example journal_config_example frame_example journal_start_example 0 = Inr (envelope_example 0 intent_example)"
proof -
  have "validate_record journal_config_example intent_example = Inr ()"
    by (simp add: validate_record_def intent_example_def)
  then show ?thesis
    using frame_roundtrip_core [OF journal_codec_example frame_encode_example]
    by (simp add: decode_slot_def) (simp add: envelope_example_def journal_start_def journal_config_example_def)
qed

lemma journal_example_simps [simp]:
  "validate_outcome_binding S env cfg cu slot intent_example = j_lift (Inr ())"
  "max_slots (jcf_limits journal_config_example) = 4" "max_scan_bytes (jcf_limits journal_config_example) = 256"
  "cu_bucket journal_start_example = ''b''" "cu_next_slot journal_start_example = 0"
  "cu_source journal_start_example = jcf_source journal_config_example" "se_record (envelope_example 0 r) = r"
  by (simp_all add: validate_outcome_binding_def intent_example_def journal_config_example_def journal_start_def envelope_example_def)

lemma journal_append_example:
  "journal_append journal_store_example journal_env_example journal_config_example journal_start_example intent_example []
   = (Inr (AppendCreated (journal_start_example\<lparr>cu_next_slot := 1\<rparr>)), journal_example)" (is ?append)
  "journal_example = [(slot_key journal_env_example (jcf_source journal_config_example) ''b'' 0, frame_example)]" (is ?state)
proof -
  have probe: "append_probe journal_store_example journal_env_example journal_config_example journal_start_example intent_example (Suc n) 0 []
    = (Inr (AppendCreated (journal_start_example\<lparr>cu_next_slot := 1\<rparr>)),
       [(slot_key journal_env_example (jcf_source journal_config_example) ''b'' 0, frame_example)])" for n
    by (simp add: j_bind_def j_lift_def Let_def cursor_after_def checked_add64_def u64_max_def)
  have "max_append_probes (jcf_limits journal_config_example) = Suc 1"
    by (simp add: journal_config_example_def)
  then have "journal_append journal_store_example journal_env_example journal_config_example journal_start_example intent_example []
    = (Inr (AppendCreated (journal_start_example\<lparr>cu_next_slot := 1\<rparr>)),
       [(slot_key journal_env_example (jcf_source journal_config_example) ''b'' 0, frame_example)])"
    using probe [of 1] by (simp add: journal_append_def j_bind_def j_lift_def check_cursor_def validate_record_def validate_predecessor_def
        intent_example_def del: append_probe.simps)
  then show ?append ?state
    by (simp_all add: journal_example_def)
qed

lemma journal_scan_example:
  "journal_scan journal_store_example journal_env_example journal_config_example journal_start_example journal_example
   = (Inr \<lparr>sp_records = [intent_example], sp_cursor = journal_start_example\<lparr>cu_next_slot := 1\<rparr>, sp_at_first_absent = True\<rparr>, journal_example)"
proof -
  have "max_scan_events (jcf_limits journal_config_example) = Suc (Suc 1)"
    by (simp add: journal_config_example_def)
  then show ?thesis
    by (simp add: journal_scan_def j_bind_def j_lift_def check_cursor_def validate_predecessor_def journal_append_example(2)
        slot_key_inj checked_add64_def u64_max_def)
qed

lemma append_durable_witness:
  "lands map_of journal_env_example journal_config_example journal_start_example intent_example 0
     (AppendCreated (journal_start_example\<lparr>cu_next_slot := 1\<rparr>)) journal_example \<and> store_grows map_of [] journal_example"
  using append_durable [OF journal_store_example journal_codec_example journal_append_example(1)] by simp

lemma append_retry_exact_witness:
  "fst (journal_append journal_store_example journal_env_example journal_config_example journal_start_example intent_example journal_example)
     = Inr (AppendRecovered (journal_start_example\<lparr>cu_next_slot := 1\<rparr>))
   \<or> (\<exists>e. fst (journal_append journal_store_example journal_env_example journal_config_example journal_start_example intent_example journal_example)
        = Inl (StoreError e))"
  using append_retry_exact [OF journal_store_example journal_codec_example journal_append_example(1) store_grows_refl
      prod.collapse [symmetric]] by (simp add: result_cursor_def)

lemma scan_reads_history_witness:
  "holds_record map_of journal_env_example journal_config_example journal_start_example 0 intent_example journal_example
   \<and> map_of journal_example (slot_key journal_env_example (jcf_source journal_config_example) ''b'' 1) = None"
  using scan_reads_history [OF journal_store_example journal_scan_example] by simp

lemma frame_roundtrip_witness:
  "frame_decode (je_hash journal_env_example) (slot_codec journal_env_example) frame_example 128 = Inr (envelope_example 0 intent_example)
   \<and> is_current frame_example \<and> length frame_example \<le> 128"
  using frame_roundtrip [OF journal_codec_example frame_encode_example] by (simp add: journal_config_example_def)

lemma decode_frame_example:
  "frame_decode (je_hash journal_env_example) (slot_codec journal_env_example) frame_example
     (max_record_bytes (jcf_limits journal_config_example)) = Inr (envelope_example 0 intent_example)"
  using frame_roundtrip_core [OF journal_codec_example frame_encode_example] by (rule conjunct1)

lemma frame_integrity_witness:
  "\<exists>ver payload. ver \<in> {RECORD_VERSION, LEGACY_VERSION} \<and> length frame_example \<le> max_record_bytes (jcf_limits journal_config_example)
    \<and> (let c = MAGIC @ [char_of ver] @ le_bytes 4 (length payload) @ payload in frame_example = c @ je_hash journal_env_example c)
    \<and> (if ver = RECORD_VERSION then vc_from_slice (slot_codec journal_env_example) payload = Some (envelope_example 0 intent_example)
       else vc_legacy (slot_codec journal_env_example) payload = Inr (envelope_example 0 intent_example))"
  by (rule frame_integrity [OF decode_frame_example])

definition history_example :: "jrecord list" where
  "history_example = [intent_example, Intent ''op2'' ''k'' MDelete, outcome_example]"

definition pending_example :: "nat \<Rightarrow> string list \<Rightarrow> (string \<times> string \<times> nat) list \<Rightarrow> pending_set" where
  "pending_example n seen ops = \<lparr>ps_scope = Some (\<lparr>src_name = ''s'', src_generation = 1\<rparr>, ''b''), ps_next_slot = n,
     ps_seen_ops = seen, ps_by_op = ops, ps_by_key = [(''k'', map fst ops)]\<rparr>"

abbreviation "history_cursor_example n \<equiv>
  \<lparr>cu_source = \<lparr>src_name = ''s'', src_generation = 1\<rparr>, cu_bucket = ''b'', cu_next_slot = n\<rparr>"

lemma apply_at_example:
  "apply_at pending_default (history_cursor_example 0) intent_example = Inr (pending_example 1 [''op''] [(''op'', ''k'', 0)])"
  "apply_at (pending_example 1 [''op''] [(''op'', ''k'', 0)]) (history_cursor_example 1) (Intent ''op2'' ''k'' MDelete)
     = Inr (pending_example 2 [''op'', ''op2''] [(''op'', ''k'', 0), (''op2'', ''k'', 1)])"
  "apply_at (pending_example 2 [''op'', ''op2''] [(''op'', ''k'', 0), (''op2'', ''k'', 1)]) (history_cursor_example 2) outcome_example
     = Inr (pending_example 3 [''op'', ''op2''] [(''op2'', ''k'', 1)])"
  by (simp_all add: apply_at_def pending_default_def intent_example_def outcome_example_def pending_example_def checked_add64_def
      u64_max_def Let_def om_remove_def os_insert_def less_char_def)

lemma pending_is_unresolved_witness:
  "\<exists>p. apply_history \<lparr>src_name = ''s'', src_generation = 1\<rparr> ''b'' history_example pending_default = Inr p
     \<and> map_of (ps_by_op p) ''op2'' = Some (''k'', 1) \<and> (''op2'', ''k'', 1) \<in> unresolved history_example
     \<and> operations_for p ''k'' = Some [''op2'']"
proof -
  have p: "apply_history \<lparr>src_name = ''s'', src_generation = 1\<rparr> ''b'' history_example pending_default
    = Inr (pending_example 3 [''op'', ''op2''] [(''op2'', ''k'', 1)])"
    using apply_at_example by (simp add: apply_history_def history_example_def pending_default_def pending_example_def)
  have op: "map_of (ps_by_op (pending_example 3 [''op'', ''op2''] [(''op2'', ''k'', 1)])) ''op2'' = Some (''k'', 1)"
    "operations_for (pending_example 3 [''op'', ''op2''] [(''op2'', ''k'', 1)]) ''k'' = Some [''op2'']"
    by (simp_all add: pending_example_def operations_for_def)
  have "(''op2'', ''k'', 1) \<in> unresolved history_example"
    using pending_is_unresolved [OF p, THEN conjunct2, THEN conjunct1, rule_format, of "''op2''" "''k''" 1] op(1) by (rule iffD1)
  with p op show ?thesis
    by blast
qed

end
