(* ===== verification/Tier.thy ===== *)
theory Tier
  imports Entry
begin

text \<open>
  The object-body cache (\<^verbatim>\<open>src/src/tier.rs\<close>), sequential part: cached bodies and the responses they
  replay, byte ranges, draining a streamed body against a cap, and the warm record format. A body stream is the
  list of its chunks, an error chunk on the left. The \<^verbatim>\<open>postcard\<close> codec, the decoders of the two earlier
  layouts and the key hash are the parameter \<open>env\<close>; \<open>warm_laws\<close> states what the code relies on.
  Response fields the code leaves at their default are not represented.
\<close>

section \<open>Cached objects\<close>

type_synonym cache_key = "string \<times> string"
type_synonym stream = "(string + bytes) list"

record cached_object =
  co_body :: bytes
  co_content_length :: "int option"
  co_content_type :: "string option"
  co_e_tag :: "etag option"
  co_last_modified :: "systime option"
  co_cache_control :: "string option"
  co_content_encoding :: "string option"
  co_content_language :: "string option"
  co_content_disposition :: "string option"
  co_accept_ranges :: "string option"
  co_metadata :: "metadata option"
  co_trusted_gen :: nat

record get_output =
  go_body :: "stream option"
  go_content_length :: "int option"
  go_content_range :: "string option"
  go_content_type :: "string option"
  go_e_tag :: "etag option"
  go_last_modified :: "systime option"
  go_cache_control :: "string option"
  go_content_encoding :: "string option"
  go_content_language :: "string option"
  go_content_disposition :: "string option"
  go_accept_ranges :: "string option"
  go_metadata :: "metadata option"

record head_reply =
  hr_content_length :: "int option"
  hr_content_type :: "string option"
  hr_e_tag :: "etag option"
  hr_last_modified :: "systime option"
  hr_cache_control :: "string option"
  hr_content_encoding :: "string option"
  hr_content_language :: "string option"
  hr_content_disposition :: "string option"
  hr_accept_ranges :: "string option"
  hr_metadata :: "metadata option"

definition from_get :: "get_output \<Rightarrow> bytes \<Rightarrow> cached_object" where
  "from_get out body = \<lparr>co_body = body, co_content_length = go_content_length out, co_content_type = go_content_type out,
     co_e_tag = go_e_tag out, co_last_modified = go_last_modified out, co_cache_control = go_cache_control out,
     co_content_encoding = go_content_encoding out, co_content_language = go_content_language out,
     co_content_disposition = go_content_disposition out, co_accept_ranges = go_accept_ranges out,
     co_metadata = go_metadata out, co_trusted_gen = 0\<rparr>"

definition trusted :: "cached_object \<Rightarrow> nat \<Rightarrow> bool" where
  "trusted obj generation \<longleftrightarrow> co_trusted_gen obj = generation"

definition mark_trusted :: "cached_object \<Rightarrow> nat \<Rightarrow> cached_object" where
  "mark_trusted obj generation = obj\<lparr>co_trusted_gen := generation\<rparr>"

definition blob_of :: "bytes \<Rightarrow> stream" where
  "blob_of bs = [Inr bs]"

definition meta_get :: "cached_object \<Rightarrow> get_output" where
  "meta_get obj = \<lparr>go_body = None, go_content_length = co_content_length obj, go_content_range = None,
     go_content_type = co_content_type obj, go_e_tag = co_e_tag obj, go_last_modified = co_last_modified obj,
     go_cache_control = co_cache_control obj, go_content_encoding = co_content_encoding obj,
     go_content_language = co_content_language obj, go_content_disposition = co_content_disposition obj,
     go_accept_ranges = co_accept_ranges obj, go_metadata = co_metadata obj\<rparr>"

definition to_get :: "cached_object \<Rightarrow> get_output" where
  "to_get obj = (meta_get obj)\<lparr>go_body := Some (blob_of (co_body obj))\<rparr>"

definition i64_of_len :: "nat \<Rightarrow> int" where
  "i64_of_len n = min (int n) (2 ^ 63 - 1)"

text \<open>A slice whose end lies before its start panics.\<close>

datatype rust_panic = Panic

definition to_get_range :: "cached_object \<Rightarrow> nat \<Rightarrow> nat option \<Rightarrow> rust_panic + get_output option" where
  "to_get_range obj first last_byte =
     (let total = length (co_body obj) in
      if first \<ge> total then Inr None
      else let last_incl = (case last_byte of None \<Rightarrow> total - 1 | Some l \<Rightarrow> min l (total - 1)) in
        if last_incl + 1 < first then Inl Panic
        else let slice = take (last_incl + 1 - first) (drop first (co_body obj)) in
          Inr (Some ((meta_get obj)\<lparr>go_body := Some (blob_of slice),
            go_content_length := Some (i64_of_len (length slice)),
            go_content_range := Some (''bytes '' @ decimal first @ ''-'' @ decimal last_incl @ ''/'' @ decimal total)\<rparr>)))"

definition to_get_suffix :: "cached_object \<Rightarrow> nat \<Rightarrow> rust_panic + get_output option" where
  "to_get_suffix obj len =
     (let total = length (co_body obj) in
      if total = 0 \<or> len = 0 then Inr None else to_get_range obj (total - len) None)"

definition to_head :: "cached_object \<Rightarrow> head_reply" where
  "to_head obj = \<lparr>hr_content_length = co_content_length obj, hr_content_type = co_content_type obj, hr_e_tag = co_e_tag obj,
     hr_last_modified = co_last_modified obj, hr_cache_control = co_cache_control obj,
     hr_content_encoding = co_content_encoding obj, hr_content_language = co_content_language obj,
     hr_content_disposition = co_content_disposition obj, hr_accept_ranges = co_accept_ranges obj,
     hr_metadata = co_metadata obj\<rparr>"

section \<open>Draining a body\<close>

datatype buffered_body = Whole bytes | Streamed stream

fun buffer_loop :: "nat \<Rightarrow> bytes \<Rightarrow> stream \<Rightarrow> buffered_body" where
  "buffer_loop cap buf [] = Whole buf"
| "buffer_loop cap buf (Inl e # blob) = Streamed (Inr buf # Inl e # blob)"
| "buffer_loop cap buf (Inr b # blob) =
     (if length buf + length b \<le> cap then buffer_loop cap (buf @ b) blob
      else Streamed (Inr buf # Inr b # blob))"

definition buffer_or_forward :: "stream \<Rightarrow> nat \<Rightarrow> buffered_body" where
  "buffer_or_forward blob cap = buffer_loop cap [] blob"

definition buffer_body :: "stream \<Rightarrow> nat \<Rightarrow> bytes option" where
  "buffer_body blob cap = (case buffer_or_forward blob cap of Whole bs \<Rightarrow> Some bs | Streamed _ \<Rightarrow> None)"

section \<open>Warm records\<close>

record warm_header =
  wh_key :: cache_key
  wh_body_len :: nat
  wh_content_length :: "int option"
  wh_content_type :: "string option"
  wh_e_tag :: "etag option"
  wh_last_modified :: "systime option"
  wh_cache_control :: "string option"
  wh_content_encoding :: "string option"
  wh_content_language :: "string option"
  wh_content_disposition :: "string option"
  wh_accept_ranges :: "string option"
  wh_metadata :: "metadata option"

definition header_capture :: "cache_key \<Rightarrow> cached_object \<Rightarrow> warm_header" where
  "header_capture key obj = \<lparr>wh_key = key, wh_body_len = min (length (co_body obj)) u64_max,
     wh_content_length = co_content_length obj, wh_content_type = co_content_type obj, wh_e_tag = co_e_tag obj,
     wh_last_modified = co_last_modified obj, wh_cache_control = co_cache_control obj,
     wh_content_encoding = co_content_encoding obj, wh_content_language = co_content_language obj,
     wh_content_disposition = co_content_disposition obj, wh_accept_ranges = co_accept_ranges obj,
     wh_metadata = co_metadata obj\<rparr>"

definition header_finish :: "warm_header \<Rightarrow> bytes \<Rightarrow> cache_key \<times> cached_object" where
  "header_finish h body = (wh_key h, \<lparr>co_body = body, co_content_length = wh_content_length h,
     co_content_type = wh_content_type h, co_e_tag = wh_e_tag h, co_last_modified = wh_last_modified h,
     co_cache_control = wh_cache_control h, co_content_encoding = wh_content_encoding h,
     co_content_language = wh_content_language h, co_content_disposition = wh_content_disposition h,
     co_accept_ranges = wh_accept_ranges h, co_metadata = wh_metadata h, co_trusted_gen = 0\<rparr>)"

text \<open>The original layout borrows its body from the record: the address of the body relative to the record
  is part of the decoded value.\<close>

record legacy_warm_object =
  lw_body_at :: int
  lw_body :: bytes
  lw_content_length :: "int option"
  lw_content_type :: "string option"
  lw_e_tag :: "etag option"
  lw_last_modified :: "systime option"
  lw_cache_control :: "string option"
  lw_content_encoding :: "string option"
  lw_content_language :: "string option"
  lw_content_disposition :: "string option"
  lw_accept_ranges :: "string option"
  lw_metadata :: "metadata option"

definition legacy_finish :: "legacy_warm_object \<Rightarrow> cache_key \<Rightarrow> bytes \<Rightarrow> cache_key \<times> cached_object" where
  "legacy_finish l key body = (key, \<lparr>co_body = body, co_content_length = lw_content_length l,
     co_content_type = lw_content_type l, co_e_tag = lw_e_tag l, co_last_modified = lw_last_modified l,
     co_cache_control = lw_cache_control l, co_content_encoding = lw_content_encoding l,
     co_content_language = lw_content_language l, co_content_disposition = lw_content_disposition l,
     co_accept_ranges = lw_accept_ranges l, co_metadata = lw_metadata l, co_trusted_gen = 0\<rparr>)"

datatype warm_error = CodecError | WarmError string

record warm_env =
  we_to_vec :: "warm_header \<Rightarrow> bytes option"
  we_from_slice :: "bytes \<Rightarrow> warm_header option"
  we_legacy_header :: "bytes \<Rightarrow> warm_header option"
  we_legacy_object :: "bytes \<Rightarrow> (cache_key \<times> legacy_warm_object) option"
  we_hash :: "bytes \<Rightarrow> string"

definition warm_key :: "warm_env \<Rightarrow> string \<Rightarrow> string \<Rightarrow> string" where
  "warm_key env bucket key = we_hash env (bucket @ [char_of (0 :: nat)] @ key)"

definition WARM_MAGIC :: bytes where
  "WARM_MAGIC = ''S3CWRM02''"

definition LEGACY_WARM_MAGIC :: bytes where
  "LEGACY_WARM_MAGIC = ''S3CWRM01''"

definition WARM_PREFIX_LEN :: nat where
  "WARM_PREFIX_LEN = 12"

definition encode_warm_record :: "warm_env \<Rightarrow> cache_key \<Rightarrow> cached_object \<Rightarrow> nat \<Rightarrow> warm_error + bytes option" where
  "encode_warm_record env key obj max_bytes =
     bindE (ok_or CodecError (we_to_vec env (header_capture key obj))) (\<lambda>header.
     if length header \<ge> 2 ^ 32 then Inl (WarmError ''warm record header exceeds u32'')
     else bindE (ok_or (WarmError ''warm record length overflow'')
            (Option.bind (checked_add64 WARM_PREFIX_LEN (length header)) (\<lambda>n. checked_add64 n (length (co_body obj))))) (\<lambda>total.
       if total > max_bytes then Inr None
       else Inr (Some (WARM_MAGIC @ le_bytes 4 (length header) @ header @ co_body obj))))"

definition decode_legacy_record :: "warm_env \<Rightarrow> bytes \<Rightarrow> warm_error + cache_key \<times> cached_object" where
  "decode_legacy_record env bs =
     bindE (ok_or CodecError (we_legacy_object env bs)) (\<lambda>(key, l).
     if lw_body l = [] then Inr (legacy_finish l key [])
     else if lw_body_at l < 0 \<or> nat (lw_body_at l) > length bs
     then Inl (WarmError ''legacy warm body is outside its record'')
     else case checked_add64 (nat (lw_body_at l)) (length (lw_body l)) of
         None \<Rightarrow> Inl (WarmError ''legacy warm body is truncated'')
       | Some stop \<Rightarrow>
           if stop > length bs then Inl (WarmError ''legacy warm body is truncated'')
           else Inr (legacy_finish l key (take (stop - nat (lw_body_at l)) (drop (nat (lw_body_at l)) bs))))"

definition decode_warm_record :: "warm_env \<Rightarrow> bytes \<Rightarrow> warm_error + cache_key \<times> cached_object" where
  "decode_warm_record env bs =
     (let magic = (if length bs < 8 then [] else take 8 bs) in
      if magic \<noteq> WARM_MAGIC \<and> magic \<noteq> LEGACY_WARM_MAGIC then decode_legacy_record env bs
      else if length bs < WARM_PREFIX_LEN then Inl (WarmError ''truncated warm record prefix'')
      else
        let header_len = le_val (take 4 (drop 8 bs)) in
        case checked_add64 WARM_PREFIX_LEN header_len of
          None \<Rightarrow> Inl (WarmError ''truncated warm record header'')
        | Some body_start \<Rightarrow>
            if body_start > length bs then Inl (WarmError ''truncated warm record header'')
            else
              let header_bytes = take header_len (drop WARM_PREFIX_LEN bs) in
              bindE (ok_or CodecError (if magic = WARM_MAGIC then we_from_slice env header_bytes
                       else we_legacy_header env header_bytes)) (\<lambda>header.
              let body = drop body_start bs in
              if min (length body) u64_max \<noteq> wh_body_len header then Inl (WarmError ''warm record body length mismatch'')
              else Inr (header_finish header body)))"

section \<open>Bodies\<close>

text \<open>What a reader of a stream sees: the bytes up to the first error, and that error.\<close>

fun stream_view :: "stream \<Rightarrow> bytes \<times> string option" where
  "stream_view [] = ([], None)"
| "stream_view (Inl e # blob) = ([], Some e)"
| "stream_view (Inr b # blob) = (case stream_view blob of (bs, e) \<Rightarrow> (b @ bs, e))"

lemma buffer_loop_view:
  "case buffer_loop cap buf blob of
     Whole bs \<Rightarrow> stream_view (Inr buf # blob) = (bs, None) \<and> (length buf \<le> cap \<longrightarrow> length bs \<le> cap)
   | Streamed rest \<Rightarrow> stream_view rest = stream_view (Inr buf # blob)
       \<and> (snd (stream_view blob) \<noteq> None \<or> length (fst (stream_view (Inr buf # blob))) > cap)"
proof (induction cap buf blob rule: buffer_loop.induct)
  case (3 cap buf b blob)
  show ?case
  proof (cases "length buf + length b \<le> cap")
    case True
    then show ?thesis
      using "3.IH" by (auto split: buffered_body.splits prod.splits)
  qed (auto split: prod.splits)
qed simp_all

text \<open>Draining a body for the cache never costs the forward a byte. A body that fits the cap is returned whole,
  byte for byte; one that does not, or whose stream fails, is handed back as a stream that shows its reader
  exactly what the original would have: the same bytes and then the same error.\<close>

theorem buffering_loses_nothing:
  "case buffer_or_forward blob cap of
     Whole bs \<Rightarrow> stream_view blob = (bs, None) \<and> length bs \<le> cap
   | Streamed rest \<Rightarrow> stream_view rest = stream_view blob
       \<and> (snd (stream_view blob) \<noteq> None \<or> length (fst (stream_view blob)) > cap)"
  using buffer_loop_view [where cap = cap and buf = "[]" and blob = blob]
  by (auto simp: buffer_or_forward_def split: buffered_body.splits prod.splits)

section \<open>Ranges\<close>

text \<open>A range answered from a cached body is exactly the range. For a well-formed request the code never
  panics; it declines exactly a range that starts past the end, and otherwise sends the requested
  bytes clamped at the end, with their length and position in the headers and the cached metadata.\<close>

theorem range_answers_exact:
  assumes "case last_byte of None \<Rightarrow> True | Some l \<Rightarrow> first \<le> l"
  shows "case to_get_range obj first last_byte of
     Inl _ \<Rightarrow> False
   | Inr None \<Rightarrow> length (co_body obj) \<le> first
   | Inr (Some out) \<Rightarrow> first < length (co_body obj)
       \<and> (let stop = (case last_byte of None \<Rightarrow> length (co_body obj) | Some l \<Rightarrow> min (l + 1) (length (co_body obj)));
              slice = take (stop - first) (drop first (co_body obj))
          in stream_view (the (go_body out)) = (slice, None) \<and> length slice = stop - first \<and> slice \<noteq> []
             \<and> (length slice < 2 ^ 63 \<longrightarrow> go_content_length out = Some (int (length slice)))
             \<and> go_content_range out = Some (''bytes '' @ decimal first @ ''-'' @ decimal (stop - 1) @ ''/'' @ decimal (length (co_body obj)))
             \<and> out\<lparr>go_body := None, go_content_length := co_content_length obj, go_content_range := None\<rparr> = meta_get obj)"
proof -
  have stop: "min (Suc l) (length (co_body obj)) = Suc (min l (length (co_body obj) - Suc 0))" if "\<not> length (co_body obj) \<le> first" for l
    using that by linarith
  show ?thesis
    using assms
    by (auto simp: to_get_range_def Let_def i64_of_len_def blob_of_def meta_get_def stop split: option.splits)
qed

text \<open>A suffix is the last bytes of the body, or the whole of a shorter one.\<close>

lemma suffix_answers_exact:
  assumes "0 < n" "co_body obj \<noteq> []"
  shows "\<exists>out. to_get_suffix obj n = Inr (Some out)
    \<and> stream_view (the (go_body out)) = (drop (length (co_body obj) - n) (co_body obj), None)"
proof -
  have "\<not> length (co_body obj) \<le> length (co_body obj) - n"
    using assms by (cases "co_body obj") auto
  then show ?thesis
    using assms by (simp add: to_get_suffix_def to_get_range_def Let_def blob_of_def)
qed

definition cached_example :: cached_object where
  "cached_example = \<lparr>co_body = ''hello'', co_content_length = Some 5, co_content_type = Some ''text/plain'',
     co_e_tag = Some (Strong ''e1''), co_last_modified = Some 0, co_cache_control = None, co_content_encoding = None,
     co_content_language = None, co_content_disposition = None, co_accept_ranges = Some ''bytes'', co_metadata = None,
     co_trusted_gen = 1\<rparr>"

lemma range_answers_exact_witness:
  "case to_get_range cached_example 1 (Some 9) of
     Inr (Some out) \<Rightarrow> stream_view (the (go_body out)) = (''ello'', None) \<and> go_content_length out = Some 4
   | _ \<Rightarrow> False"
proof -
  have "case Some 9 of None \<Rightarrow> True | Some l \<Rightarrow> 1 \<le> (l :: nat)"
    by simp
  then show ?thesis
    using range_answers_exact [where last_byte = "Some 9" and first = 1 and obj = cached_example]
    by (auto simp: cached_example_def Let_def split: sum.splits option.splits)
qed

section \<open>Warm records\<close>

definition warm_laws :: "warm_env \<Rightarrow> bool" where
  "warm_laws env \<longleftrightarrow> (\<forall>h bs. we_to_vec env h = Some bs \<longrightarrow> we_from_slice env bs = Some h)"

lemma header_roundtrip:
  "length (co_body obj) \<le> u64_max \<Longrightarrow> header_finish (header_capture key obj) (co_body obj) = (key, mark_trusted obj 0)"
  by (simp add: header_finish_def header_capture_def mark_trusted_def)

text \<open>C37: The warm tier returns what it was given, minus the trust. A record that was written fits the size cap and
  decodes to the same key, body and metadata; and no copy read from disk, in any of the three layouts,
  carries trust in a live generation, so a restarted node proves it first.\<close>

theorem warm_roundtrip_suspect:
  assumes "warm_laws env"
  shows "(case encode_warm_record env key obj max_bytes of
      Inr (Some bs) \<Rightarrow> decode_warm_record env bs = Inr (key, mark_trusted obj 0) \<and> length bs \<le> max_bytes
    | _ \<Rightarrow> True)
    \<and> (case decode_warm_record env record of Inr (_, copy) \<Rightarrow> \<forall>generation \<ge> 1. \<not> trusted copy generation | Inl _ \<Rightarrow> True)"
proof
  have suspect: "co_trusted_gen copy = 0" if "decode_warm_record env record = Inr (k, copy)" for k copy
    using that by (auto simp: decode_warm_record_def decode_legacy_record_def header_finish_def legacy_finish_def Let_def result_simps
        split: if_splits option.splits prod.splits)
  then show "case decode_warm_record env record of Inr (_, copy) \<Rightarrow> \<forall>generation \<ge> 1. \<not> trusted copy generation | Inl _ \<Rightarrow> True"
    by (auto simp: trusted_def split: sum.splits)
  show "case encode_warm_record env key obj max_bytes of
      Inr (Some bs) \<Rightarrow> decode_warm_record env bs = Inr (key, mark_trusted obj 0) \<and> length bs \<le> max_bytes
    | _ \<Rightarrow> True"
  proof (cases "\<exists>bs. encode_warm_record env key obj max_bytes = Inr (Some bs)")
    case True
    then obtain bs header where h: "encode_warm_record env key obj max_bytes = Inr (Some bs)" "we_to_vec env (header_capture key obj) = Some header"
      "length header < 2 ^ 32" "WARM_PREFIX_LEN + length header + length (co_body obj) \<le> u64_max"
      "WARM_PREFIX_LEN + length header + length (co_body obj) \<le> max_bytes"
      "bs = WARM_MAGIC @ le_bytes 4 (length header) @ header @ co_body obj"
      by (auto simp: encode_warm_record_def result_simps bind_eq_Some_conv split: if_splits)
    have parts: "length bs = WARM_PREFIX_LEN + length header + length (co_body obj)" "take 8 bs = WARM_MAGIC"
      "take 4 (drop 8 bs) = le_bytes 4 (length header)" "take (length header) (drop WARM_PREFIX_LEN bs) = header"
      by (simp_all add: h(6) WARM_MAGIC_def WARM_PREFIX_LEN_def)
    have body: "drop (WARM_PREFIX_LEN + length header) bs = co_body obj"
    proof -
      have "drop WARM_PREFIX_LEN bs = header @ co_body obj"
        by (simp add: h(6) WARM_MAGIC_def WARM_PREFIX_LEN_def)
      then show ?thesis
        by (metis add.commute append_eq_conv_conj drop_drop)
    qed
    have "\<not> length bs < 8" "\<not> length bs < WARM_PREFIX_LEN"
      using parts(1) by (simp_all add: WARM_PREFIX_LEN_def)
    moreover have "le_val (le_bytes 4 (length header)) = length header"
      using h(3) by simp
    moreover have "checked_add64 WARM_PREFIX_LEN (length header) = Some (WARM_PREFIX_LEN + length header)"
      using h(4) by (simp add: checked_add64_def)
    moreover have "we_from_slice env header = Some (header_capture key obj)"
      using assms h(2) by (simp add: warm_laws_def)
    moreover have "length (co_body obj) \<le> u64_max"
      using h(4) by simp
    ultimately have "decode_warm_record env bs = Inr (key, mark_trusted obj 0)"
      by (simp add: decode_warm_record_def Let_def parts body header_roundtrip) (simp add: header_capture_def)
    then show ?thesis
      using h(1,5) parts(1) by simp
  qed (auto split: sum.splits option.splits)
qed

text \<open>Two keys share a warm file only if the hash collides: bucket names contain no zero byte.\<close>

lemma warm_key_injective:
  assumes "inj (we_hash env)" "char_of (0 :: nat) \<notin> set b" "char_of (0 :: nat) \<notin> set b'" "warm_key env b k = warm_key env b' k'"
  shows "b = b' \<and> k = k'"
proof -
  have cut: "takeWhile (\<lambda>c. c \<noteq> z) (xs @ z # ys) = xs" if "z \<notin> set xs" for z :: char and xs ys
    using that by (induction xs) auto
  have eq: "b @ char_of (0 :: nat) # k = b' @ char_of (0 :: nat) # k'"
    using assms(1,4) by (simp add: warm_key_def inj_eq)
  then have "b = b'"
    using cut [OF assms(2), of k] cut [OF assms(3), of k'] by simp
  then show ?thesis
    using eq by simp
qed

definition warm_env_example :: warm_env where
  "warm_env_example = \<lparr>we_to_vec = (\<lambda>h. if h = header_capture (''b'', ''k'') cached_example then Some ''H'' else None),
     we_from_slice = (\<lambda>bs. if bs = ''H'' then Some (header_capture (''b'', ''k'') cached_example) else None),
     we_legacy_header = (\<lambda>_. None), we_legacy_object = (\<lambda>_. None), we_hash = id\<rparr>"

lemma warm_roundtrip_suspect_witness:
  "decode_warm_record warm_env_example (WARM_MAGIC @ le_bytes 4 1 @ ''Hhello'')
     = Inr ((''b'', ''k''), mark_trusted cached_example 0)"
proof -
  have "warm_laws warm_env_example"
    by (auto simp: warm_laws_def warm_env_example_def)
  moreover have "encode_warm_record warm_env_example (''b'', ''k'') cached_example 100
      = Inr (Some (WARM_MAGIC @ le_bytes 4 1 @ ''Hhello''))"
    by (simp add: encode_warm_record_def warm_env_example_def checked_add64_def u64_max_def WARM_PREFIX_LEN_def)
      (simp add: cached_example_def)
  ultimately show ?thesis
    using warm_roundtrip_suspect [where env = warm_env_example and key = "(''b'', ''k'')" and obj = cached_example and max_bytes = 100] by simp
qed

end
