(* ===== verification/Fills.thy ===== *)
theory Fills
  imports Tier
begin

text \<open>
  Fills and observations against mutations (\<^verbatim>\<open>src/src/tier.rs\<close>): the fences of \<^verbatim>\<open>ActiveFill\<close>,
  \<^verbatim>\<open>get_or_fetch_with_commit\<close>, \<^verbatim>\<open>ObservationFence::commit\<close>, \<^verbatim>\<open>Core::fence_key\<close> and
  \<^verbatim>\<open>Core::invalidate\<close>, one step per operation another task can see: a lock, an atomic store, an insert, an
  origin call. A fence is its number (the identity of its \<^verbatim>\<open>Arc\<close>); an object body is the number of the
  origin's version it holds. The tiers are one map, of what a lookup finds, whose operations are atomic; an insert may be
  refused and a delete may fail, which the code only counts. Three fields are not in the code: the versions the origin has
  applied, for each key the newest version whose mutation has returned, and whether a tier failed to delete the key and
  no delete has succeeded since.
\<close>

section \<open>State\<close>

datatype lock_owner = ByFill nat | ByMutation nat

record fill_fence =
  ff_stale :: bool
  ff_commit :: "lock_owner option"

datatype fill_phase = Registered | Fetched nat | Locked nat | Checked nat | Ended

record active_fill =
  af_key :: cache_key
  af_body :: bool
  af_phase :: fill_phase

datatype mutation_phase =
    Fencing
  | Marking "nat list" "nat list"
  | Locking "nat list" "nat list"
  | Guarded "nat list"
  | Cleared "nat list"
  | Returned

record mutation_run =
  mu_key :: cache_key
  mu_version :: nat
  mu_phase :: mutation_phase

record core_state =
  cs_active :: "cache_key \<Rightarrow> nat list option"
  cs_fence :: "nat \<Rightarrow> fill_fence"
  cs_fresh :: nat
  cs_cache :: "cache_key \<Rightarrow> nat option"
  cs_fills :: "nat \<Rightarrow> active_fill option"
  cs_mutations :: "nat \<Rightarrow> mutation_run option"
  cs_origin :: "cache_key \<Rightarrow> nat"
  cs_settled :: "cache_key \<Rightarrow> nat"
  cs_lingers :: "cache_key \<Rightarrow> bool"

definition core_new :: core_state where
  "core_new = \<lparr>cs_active = (\<lambda>_. None), cs_fence = (\<lambda>_. \<lparr>ff_stale = False, ff_commit = None\<rparr>), cs_fresh = 0,
     cs_cache = (\<lambda>_. None), cs_fills = (\<lambda>_. None), cs_mutations = (\<lambda>_. None), cs_origin = (\<lambda>_. 0), cs_settled = (\<lambda>_. 0),
     cs_lingers = (\<lambda>_. False)\<rparr>"

section \<open>Operations\<close>

definition fences_of :: "core_state \<Rightarrow> cache_key \<Rightarrow> nat list" where
  "fences_of s k = (case cs_active s k of None \<Rightarrow> [] | Some fs \<Rightarrow> fs)"

definition register :: "core_state \<Rightarrow> cache_key \<Rightarrow> bool \<Rightarrow> core_state" where
  "register s k body = (let f = cs_fresh s in
     s\<lparr>cs_fresh := Suc f,
       cs_fence := (cs_fence s)(f := \<lparr>ff_stale = False, ff_commit = None\<rparr>),
       cs_active := (cs_active s)(k := Some (fences_of s k @ [f])),
       cs_fills := (cs_fills s)(f := Some \<lparr>af_key = k, af_body = body, af_phase = Registered\<rparr>)\<rparr>)"

definition drop_fill :: "core_state \<Rightarrow> nat \<Rightarrow> active_fill \<Rightarrow> core_state" where
  "drop_fill s f fill = (let k = af_key fill; fences = filter (\<lambda>g. g \<noteq> f) (fences_of s k) in
     s\<lparr>cs_active := (cs_active s)(k := (if fences = [] then None else Some fences)),
       cs_fills := (cs_fills s)(f := None)\<rparr>)"

definition set_phase :: "core_state \<Rightarrow> nat \<Rightarrow> active_fill \<Rightarrow> fill_phase \<Rightarrow> core_state" where
  "set_phase s f fill p = s\<lparr>cs_fills := (cs_fills s)(f := Some (fill\<lparr>af_phase := p\<rparr>))\<rparr>"

definition set_mutation :: "core_state \<Rightarrow> nat \<Rightarrow> mutation_run \<Rightarrow> mutation_phase \<Rightarrow> core_state" where
  "set_mutation s m r p = s\<lparr>cs_mutations := (cs_mutations s)(m := Some (r\<lparr>mu_phase := p\<rparr>))\<rparr>"

definition mark_stale :: "core_state \<Rightarrow> nat \<Rightarrow> core_state" where
  "mark_stale s f = s\<lparr>cs_fence := (cs_fence s)(f := (cs_fence s f)\<lparr>ff_stale := True\<rparr>)\<rparr>"

definition lock_commit :: "core_state \<Rightarrow> nat \<Rightarrow> lock_owner \<Rightarrow> core_state" where
  "lock_commit s f p = s\<lparr>cs_fence := (cs_fence s)(f := (cs_fence s f)\<lparr>ff_commit := Some p\<rparr>)\<rparr>"

definition unlock_commits :: "core_state \<Rightarrow> nat list \<Rightarrow> core_state" where
  "unlock_commits s fs = s\<lparr>cs_fence := (\<lambda>f. if f \<in> set fs then (cs_fence s f)\<lparr>ff_commit := None\<rparr> else cs_fence s f)\<rparr>"

text \<open>A committed fill puts its body into the tiers; an observation only folds into the index.\<close>

definition land :: "core_state \<Rightarrow> active_fill \<Rightarrow> nat \<Rightarrow> core_state" where
  "land s fill v = (if af_body fill then s\<lparr>cs_cache := (cs_cache s)(af_key fill \<mapsto> v)\<rparr> else s)"

section \<open>Steps\<close>

inductive fill_step :: "core_state \<Rightarrow> core_state \<Rightarrow> bool" where
  fetch: "cs_fills s f = Some fill \<Longrightarrow> af_phase fill = Registered
    \<Longrightarrow> fill_step s (set_phase s f fill (Fetched (cs_origin s (af_key fill))))"
| fetch_failed: "cs_fills s f = Some fill \<Longrightarrow> af_phase fill = Registered \<Longrightarrow> fill_step s (set_phase s f fill Ended)"
| lock: "cs_fills s f = Some fill \<Longrightarrow> af_phase fill = Fetched v \<Longrightarrow> ff_commit (cs_fence s f) = None
    \<Longrightarrow> fill_step s (set_phase (lock_commit s f (ByFill f)) f fill (Locked v))"
| check: "cs_fills s f = Some fill \<Longrightarrow> af_phase fill = Locked v \<Longrightarrow> \<not> ff_stale (cs_fence s f)
    \<Longrightarrow> fill_step s (set_phase s f fill (Checked v))"
| skip: "cs_fills s f = Some fill \<Longrightarrow> af_phase fill = Locked v
    \<Longrightarrow> fill_step s (set_phase (unlock_commits s [f]) f fill Ended)"
| commit: "cs_fills s f = Some fill \<Longrightarrow> af_phase fill = Checked v
    \<Longrightarrow> fill_step s (set_phase (unlock_commits (land s fill v) [f]) f fill Ended)"
| commit_failed: "cs_fills s f = Some fill \<Longrightarrow> af_phase fill = Checked v
    \<Longrightarrow> fill_step s (set_phase (unlock_commits s [f]) f fill Ended)"
| drop_active: "cs_fills s f = Some fill \<Longrightarrow> af_phase fill = Ended \<Longrightarrow> fill_step s (drop_fill s f fill)"

inductive mutation_step :: "core_state \<Rightarrow> core_state \<Rightarrow> bool" where
  snapshot: "cs_mutations s m = Some r \<Longrightarrow> mu_phase r = Fencing
    \<Longrightarrow> mutation_step s (set_mutation s m r (Marking (fences_of s (mu_key r)) (fences_of s (mu_key r))))"
| mark: "cs_mutations s m = Some r \<Longrightarrow> mu_phase r = Marking (f # todo) fences
    \<Longrightarrow> mutation_step s (set_mutation (mark_stale s f) m r (Marking todo fences))"
| marked: "cs_mutations s m = Some r \<Longrightarrow> mu_phase r = Marking [] fences
    \<Longrightarrow> mutation_step s (set_mutation s m r (Locking fences []))"
| lock_owned: "cs_mutations s m = Some r \<Longrightarrow> mu_phase r = Locking (f # todo) held \<Longrightarrow> ff_commit (cs_fence s f) = None
    \<Longrightarrow> mutation_step s (set_mutation (lock_commit s f (ByMutation m)) m r (Locking todo (held @ [f])))"
| guarded: "cs_mutations s m = Some r \<Longrightarrow> mu_phase r = Locking [] held
    \<Longrightarrow> mutation_step s (set_mutation s m r (Guarded held))"
| clear: "cs_mutations s m = Some r \<Longrightarrow> mu_phase r = Guarded held
    \<Longrightarrow> mutation_step s (set_mutation
          (s\<lparr>cs_cache := (cs_cache s)(mu_key r := None), cs_lingers := (cs_lingers s)(mu_key r := False)\<rparr>) m r (Cleared held))"
| clear_failed: "cs_mutations s m = Some r \<Longrightarrow> mu_phase r = Guarded held
    \<Longrightarrow> mutation_step s (set_mutation (s\<lparr>cs_lingers := (cs_lingers s)(mu_key r := True)\<rparr>) m r (Cleared held))"
| return_guards: "cs_mutations s m = Some r \<Longrightarrow> mu_phase r = Cleared held
    \<Longrightarrow> mutation_step s (set_mutation (unlock_commits
          (s\<lparr>cs_settled := (cs_settled s)(mu_key r := max (cs_settled s (mu_key r)) (mu_version r))\<rparr>) held) m r Returned)"

text \<open>What the outside may do at any moment: a read misses and registers a fill, a HEAD registers an
  observation, the origin applies a write, a mutation of an applied version starts to invalidate, a tier
  evicts a copy. Where a delete has failed, a lookup may find a copy that another tier still holds.\<close>

inductive outside_step :: "core_state \<Rightarrow> core_state \<Rightarrow> bool" where
  begin_fill: "outside_step s (register s k body)"
| origin_write: "outside_step s (s\<lparr>cs_origin := (cs_origin s)(k := Suc (cs_origin s k))\<rparr>)"
| begin_mutation: "cs_mutations s m = None \<Longrightarrow> n \<le> cs_origin s k
    \<Longrightarrow> outside_step s (s\<lparr>cs_mutations := (cs_mutations s)(m \<mapsto> \<lparr>mu_key = k, mu_version = n, mu_phase = Fencing\<rparr>)\<rparr>)"
| evict: "outside_step s (s\<lparr>cs_cache := (cs_cache s)(k := None)\<rparr>)"
| resurface: "cs_lingers s k \<Longrightarrow> v \<le> cs_origin s k \<Longrightarrow> outside_step s (s\<lparr>cs_cache := (cs_cache s)(k \<mapsto> v)\<rparr>)"

inductive core_reachable :: "core_state \<Rightarrow> bool" where
  core_start: "core_reachable core_new"
| core_fill: "core_reachable s \<Longrightarrow> fill_step s s' \<Longrightarrow> core_reachable s'"
| core_mutation: "core_reachable s \<Longrightarrow> mutation_step s s' \<Longrightarrow> core_reachable s'"
| core_outside: "core_reachable s \<Longrightarrow> outside_step s s' \<Longrightarrow> core_reachable s'"

section \<open>What holds in every state\<close>

fun phase_version :: "fill_phase \<Rightarrow> nat option" where
  "phase_version (Fetched v) = Some v"
| "phase_version (Locked v) = Some v"
| "phase_version (Checked v) = Some v"
| "phase_version _ = None"

fun held_of :: "mutation_phase \<Rightarrow> nat list" where
  "held_of (Locking todo held) = held"
| "held_of (Guarded held) = held"
| "held_of (Cleared held) = held"
| "held_of _ = []"

fun fences_left :: "mutation_phase \<Rightarrow> nat list" where
  "fences_left (Marking todo fences) = fences"
| "fences_left (Locking todo held) = held @ todo"
| "fences_left (Guarded held) = held"
| "fences_left (Cleared held) = held"
| "fences_left _ = []"

definition fill_sat :: "core_state \<Rightarrow> nat \<Rightarrow> (active_fill \<Rightarrow> bool) \<Rightarrow> bool" where
  "fill_sat s f P \<longleftrightarrow> (\<exists>fill. cs_fills s f = Some fill \<and> P fill)"

text \<open>A fill of the key that holds an older version, one inside its commit, one past its staleness check.\<close>

abbreviation behind :: "core_state \<Rightarrow> cache_key \<Rightarrow> nat \<Rightarrow> nat \<Rightarrow> bool" where
  "behind s k n f \<equiv> fill_sat s f (\<lambda>fill. af_key fill = k \<and> (\<exists>v < n. phase_version (af_phase fill) = Some v))"

abbreviation in_commit :: "core_state \<Rightarrow> nat \<Rightarrow> bool" where
  "in_commit s f \<equiv> fill_sat s f (\<lambda>fill. \<exists>v. af_phase fill \<in> {Locked v, Checked v})"

abbreviation past_check :: "core_state \<Rightarrow> nat \<Rightarrow> bool" where
  "past_check s f \<equiv> fill_sat s f (\<lambda>fill. \<exists>v. af_phase fill = Checked v)"

abbreviation is_stale :: "core_state \<Rightarrow> nat \<Rightarrow> bool" where
  "is_stale s f \<equiv> ff_stale (cs_fence s f)"

abbreviation holder :: "core_state \<Rightarrow> nat \<Rightarrow> lock_owner option" where
  "holder s f \<equiv> ff_commit (cs_fence s f)"

definition held :: "core_state \<Rightarrow> nat \<Rightarrow> nat list" where
  "held s m = (case cs_mutations s m of None \<Rightarrow> [] | Some r \<Rightarrow> held_of (mu_phase r))"

definition locks_at :: "core_state \<Rightarrow> nat \<Rightarrow> bool" where
  "locks_at s f \<longleftrightarrow> ((in_commit s f \<longleftrightarrow> holder s f = Some (ByFill f)) \<and> (\<forall>g. holder s f = Some (ByFill g) \<longrightarrow> g = f)
     \<and> (\<forall>m. f \<in> set (held s m) \<longleftrightarrow> holder s f = Some (ByMutation m)))"

definition locks_ok :: "core_state \<Rightarrow> bool" where
  "locks_ok s \<longleftrightarrow> (\<forall>f. locks_at s f)"

definition active_ok :: "core_state \<Rightarrow> bool" where
  "active_ok s \<longleftrightarrow> (\<forall>k. sorted_wrt (<) (fences_of s k) \<and> (\<forall>f \<in> set (fences_of s k). f < cs_fresh s))
     \<and> (\<forall>f fill. cs_fills s f = Some fill \<longrightarrow> f \<in> set (fences_of s (af_key fill)))
     \<and> (\<forall>m r. cs_mutations s m = Some r \<longrightarrow> sorted_wrt (<) (fences_left (mu_phase r)) \<and> (\<forall>f \<in> set (fences_left (mu_phase r)). f < cs_fresh s))"

definition fence_progress :: "core_state \<Rightarrow> mutation_run \<Rightarrow> bool" where
  "fence_progress s r \<longleftrightarrow> mu_version r \<le> cs_origin s (mu_key r) \<and> (\<forall>f. behind s (mu_key r) (mu_version r) f \<longrightarrow> (case mu_phase r of
       Marking todo fences \<Rightarrow> f \<in> set fences \<and> (is_stale s f \<or> f \<in> set todo)
     | Locking todo hs \<Rightarrow> is_stale s f \<and> (f \<in> set todo \<or> f \<in> set hs)
     | Guarded hs \<Rightarrow> is_stale s f \<and> f \<in> set hs
     | Cleared hs \<Rightarrow> is_stale s f \<and> f \<in> set hs
     | _ \<Rightarrow> True))
   \<and> (case mu_phase r of Cleared hs \<Rightarrow>
        (case cs_cache s (mu_key r) of None \<Rightarrow> True | Some v \<Rightarrow> mu_version r \<le> v \<or> cs_lingers s (mu_key r)) | _ \<Rightarrow> True)"

definition settled_ok :: "core_state \<Rightarrow> cache_key \<Rightarrow> bool" where
  "settled_ok s k \<longleftrightarrow> cs_settled s k \<le> cs_origin s k
     \<and> (\<forall>f. behind s k (cs_settled s k) f \<longrightarrow> is_stale s f \<and> \<not> past_check s f)
     \<and> (case cs_cache s k of None \<Rightarrow> True | Some v \<Rightarrow> cs_settled s k \<le> v \<or> cs_lingers s k)"

lemma fill_sat_simps [simp]:
  "fill_sat (set_phase s f fill p) g P = (if g = f then P (fill\<lparr>af_phase := p\<rparr>) else fill_sat s g P)"
  "fill_sat (set_mutation s m r q) g P = fill_sat s g P"
  "fill_sat (mark_stale s h) g P = fill_sat s g P"
  "fill_sat (lock_commit s h w) g P = fill_sat s g P"
  "fill_sat (unlock_commits s hs) g P = fill_sat s g P"
  "fill_sat (land s fill v) g P = fill_sat s g P"
  "fill_sat (s\<lparr>cs_cache := c\<rparr>) g P = fill_sat s g P"
  "fill_sat (s\<lparr>cs_lingers := lg\<rparr>) g P = fill_sat s g P"
  "fill_sat (s\<lparr>cs_settled := st\<rparr>) g P = fill_sat s g P"
  "fill_sat (s\<lparr>cs_origin := og\<rparr>) g P = fill_sat s g P"
  "fill_sat (s\<lparr>cs_mutations := ms\<rparr>) g P = fill_sat s g P"
  "fill_sat (drop_fill s f fill) g P = (g \<noteq> f \<and> fill_sat s g P)"
  "fill_sat (register s k body) g P = (if g = cs_fresh s then P \<lparr>af_key = k, af_body = body, af_phase = Registered\<rparr> else fill_sat s g P)"
  by (simp_all add: fill_sat_def set_phase_def set_mutation_def mark_stale_def lock_commit_def unlock_commits_def land_def drop_fill_def
      register_def Let_def)

lemma core_frame [simp]:
  "cs_fence (set_phase s f fill p) = cs_fence s" "cs_mutations (set_phase s f fill p) = cs_mutations s"
  "cs_origin (set_phase s f fill p) = cs_origin s" "cs_settled (set_phase s f fill p) = cs_settled s"
  "cs_cache (set_phase s f fill p) = cs_cache s" "cs_active (set_phase s f fill p) = cs_active s" "cs_fresh (set_phase s f fill p) = cs_fresh s"
  "cs_fence (set_mutation s m r q) = cs_fence s" "cs_fills (set_mutation s m r q) = cs_fills s"
  "cs_origin (set_mutation s m r q) = cs_origin s" "cs_settled (set_mutation s m r q) = cs_settled s"
  "cs_lingers (set_phase s f fill p) = cs_lingers s" "cs_lingers (set_mutation s m r q) = cs_lingers s"
  "cs_cache (set_mutation s m r q) = cs_cache s" "cs_active (set_mutation s m r q) = cs_active s" "cs_fresh (set_mutation s m r q) = cs_fresh s"
  by (simp_all add: set_phase_def set_mutation_def)

lemma fills_set_phase [simp]: "cs_fills (set_phase s f fill p) g = (if g = f then Some (fill\<lparr>af_phase := p\<rparr>) else cs_fills s g)"
  by (simp add: set_phase_def)

lemma mutations_set [simp]: "cs_mutations (set_mutation s m r q) l = (if l = m then Some (r\<lparr>mu_phase := q\<rparr>) else cs_mutations s l)"
  by (simp add: set_mutation_def)

lemma fence_ops [simp]:
  "is_stale (mark_stale s f) g = (g = f \<or> is_stale s g)" "holder (mark_stale s f) g = holder s g"
  "is_stale (lock_commit s f w) g = is_stale s g" "holder (lock_commit s f w) g = (if g = f then Some w else holder s g)"
  "is_stale (unlock_commits s fs) g = is_stale s g" "holder (unlock_commits s fs) g = (if g \<in> set fs then None else holder s g)"
  "cs_fence (land s fill v) = cs_fence s"
  by (auto simp: mark_stale_def lock_commit_def unlock_commits_def land_def)

lemma fence_ops_frame [simp]:
  "cs_fills (mark_stale s f) = cs_fills s" "cs_mutations (mark_stale s f) = cs_mutations s" "cs_origin (mark_stale s f) = cs_origin s"
  "cs_settled (mark_stale s f) = cs_settled s" "cs_cache (mark_stale s f) = cs_cache s" "cs_active (mark_stale s f) = cs_active s" "cs_fresh (mark_stale s f) = cs_fresh s"
  "cs_fills (lock_commit s f w) = cs_fills s" "cs_mutations (lock_commit s f w) = cs_mutations s" "cs_origin (lock_commit s f w) = cs_origin s"
  "cs_settled (lock_commit s f w) = cs_settled s" "cs_cache (lock_commit s f w) = cs_cache s" "cs_active (lock_commit s f w) = cs_active s" "cs_fresh (lock_commit s f w) = cs_fresh s"
  "cs_fills (unlock_commits s fs) = cs_fills s" "cs_mutations (unlock_commits s fs) = cs_mutations s" "cs_origin (unlock_commits s fs) = cs_origin s"
  "cs_settled (unlock_commits s fs) = cs_settled s" "cs_cache (unlock_commits s fs) = cs_cache s" "cs_active (unlock_commits s fs) = cs_active s" "cs_fresh (unlock_commits s fs) = cs_fresh s"
  "cs_fills (land s fill v) = cs_fills s" "cs_mutations (land s fill v) = cs_mutations s" "cs_origin (land s fill v) = cs_origin s"
  "cs_lingers (mark_stale s f) = cs_lingers s" "cs_lingers (lock_commit s f w) = cs_lingers s"
  "cs_lingers (unlock_commits s fs) = cs_lingers s" "cs_lingers (land s fill v) = cs_lingers s"
  "cs_settled (land s fill v) = cs_settled s" "cs_active (land s fill v) = cs_active s" "cs_fresh (land s fill v) = cs_fresh s"
  by (simp_all add: mark_stale_def lock_commit_def unlock_commits_def land_def)

lemma cache_land [simp]: "cs_cache (land s fill v) k = (if af_body fill \<and> k = af_key fill then Some v else cs_cache s k)"
  by (simp add: land_def)

lemma fences_of_cong: "cs_active s = cs_active s' \<Longrightarrow> fences_of s = fences_of s'"
  by (simp add: fences_of_def fun_eq_iff)

lemma held_cong: "cs_mutations s = cs_mutations s' \<Longrightarrow> held s = held s'"
  by (simp add: held_def fun_eq_iff)

lemma held_set [simp]: "held (set_mutation s m r q) l = (if l = m then held_of q else held s l)"
  by (simp add: held_def)

lemma held_frame [simp]:
  "held (set_phase s f fill p) = held s" "held (mark_stale s f) = held s" "held (lock_commit s f w) = held s" "held (unlock_commits s fs) = held s"
  "held (land s fill v) = held s" "held (s\<lparr>cs_cache := c\<rparr>) = held s" "held (s\<lparr>cs_lingers := lg\<rparr>) = held s"
  "held (s\<lparr>cs_settled := st\<rparr>) = held s"
  by (rule held_cong; simp)+

lemma fill_sat_Some: "cs_fills s f = Some fill \<Longrightarrow> fill_sat s f P = P fill"
  by (simp add: fill_sat_def)

lemma locks_fill: "locks_at s f \<Longrightarrow> cs_fills s f = Some fill \<Longrightarrow> holder s f = Some (ByFill f) \<longleftrightarrow> (\<exists>v. af_phase fill \<in> {Locked v, Checked v})"
  by (simp add: locks_at_def fill_sat_Some)

lemma locks_held: "locks_at s f \<Longrightarrow> cs_mutations s m = Some r \<Longrightarrow> holder s f = Some (ByMutation m) \<longleftrightarrow> f \<in> set (held_of (mu_phase r))"
proof -
  assume "locks_at s f" "cs_mutations s m = Some r"
  then have "f \<in> set (held s m) \<longleftrightarrow> holder s f = Some (ByMutation m)"
    unfolding locks_at_def by blast
  moreover have "held s m = held_of (mu_phase r)"
    using \<open>cs_mutations s m = Some r\<close> by (simp add: held_def)
  ultimately show "holder s f = Some (ByMutation m) \<longleftrightarrow> f \<in> set (held_of (mu_phase r))"
    by simp
qed

lemma drop_fill_frame [simp]:
  "held (drop_fill s f fill) = held s" "cs_fence (drop_fill s f fill) = cs_fence s" "cs_mutations (drop_fill s f fill) = cs_mutations s"
  "cs_origin (drop_fill s f fill) = cs_origin s" "cs_settled (drop_fill s f fill) = cs_settled s" "cs_cache (drop_fill s f fill) = cs_cache s"
  "cs_fresh (drop_fill s f fill) = cs_fresh s" "cs_lingers (drop_fill s f fill) = cs_lingers s"
  by (rule held_cong) (simp_all add: drop_fill_def Let_def)

lemma fill_step_locks:
  assumes "fill_step s s'" "locks_ok s"
  shows "locks_ok s'"
  unfolding locks_ok_def
proof
  fix f
  have "locks_at s f"
    using assms(2) by (simp add: locks_ok_def)
  with assms(1) show "locks_at s' f"
    by (cases rule: fill_step.cases) (auto dest: locks_fill simp: locks_at_def fill_sat_Some)
qed

lemma mutation_step_locks:
  assumes "mutation_step s s'" "locks_ok s"
  shows "locks_ok s'"
  unfolding locks_ok_def
proof
  fix f
  have f: "locks_at s f"
    using assms(2) by (simp add: locks_ok_def)
  show "locks_at s' f"
    using assms(1)
  proof (cases rule: mutation_step.cases)
    case (return_guards m r held)
    then show ?thesis
      using f locks_held [OF f, of m r] by (auto simp: locks_at_def)
  next
    case (lock_owned m r g todo held)
    then show ?thesis
      using f locks_held [OF f, of m r] by (auto simp: locks_at_def)
  qed (use f locks_held [OF f] in \<open>auto simp: locks_at_def\<close>)
qed

lemma fresh_fence:
  assumes "locks_ok s" "active_ok s"
  shows "cs_fills s (cs_fresh s) = None" "holder s (cs_fresh s) = None"
proof -
  show none: "cs_fills s (cs_fresh s) = None"
    using assms(2) unfolding active_ok_def by (metis less_irrefl not_Some_eq)
  have "set (held_of p) \<subseteq> set (fences_left p)" for p
    by (cases p) auto
  then have "cs_fresh s \<notin> set (held s m)" for m
    using assms(2) unfolding active_ok_def held_def
    by (cases "cs_mutations s m") (simp_all, blast)
  moreover have "locks_at s (cs_fresh s)"
    using assms(1) by (simp add: locks_ok_def)
  ultimately show "holder s (cs_fresh s) = None"
    using none by (cases "holder s (cs_fresh s)") (auto simp: locks_at_def fill_sat_def intro: lock_owner.exhaust)
qed

lemma outside_step_locks:
  assumes "outside_step s s'" "locks_ok s" "active_ok s"
  shows "locks_ok s'"
  using assms(1)
proof (cases rule: outside_step.cases)
  case (begin_fill k body)
  note new = fresh_fence [OF assms(2,3)]
  have held: "held (register s k body) = held s"
    by (rule held_cong) (simp add: register_def Let_def)
  have "locks_at s' f" for f
  proof -
    have "locks_at s f"
      using assms(2) by (simp add: locks_ok_def)
    then show ?thesis
      using begin_fill new held by (auto simp: locks_at_def) (auto simp: register_def Let_def)
  qed
  then show ?thesis
    by (simp add: locks_ok_def)
next
  case (begin_mutation m n k)
  then have "held s' = held s"
    by (auto simp: held_def fun_eq_iff)
  then show ?thesis
    using assms(2) begin_mutation by (simp add: locks_ok_def locks_at_def)
qed (use assms(2) in \<open>simp_all add: locks_ok_def locks_at_def held_def\<close>)

text \<open>The registered fences.\<close>

lemma fences_of_simps [simp]:
  "fences_of (register s k body) l = (if l = k then fences_of s k @ [cs_fresh s] else fences_of s l)"
  "fences_of (drop_fill s f fill) l = (if l = af_key fill then filter (\<lambda>g. g \<noteq> f) (fences_of s l) else fences_of s l)"
  by (auto simp: fences_of_def register_def drop_fill_def Let_def)

lemma fences_of_frame [simp]:
  "fences_of (set_phase s f fill p) = fences_of s" "fences_of (set_mutation s m r q) = fences_of s" "fences_of (mark_stale s f) = fences_of s"
  "fences_of (lock_commit s f w) = fences_of s" "fences_of (unlock_commits s fs) = fences_of s" "fences_of (land s fill v) = fences_of s"
  "fences_of (s\<lparr>cs_lingers := lg\<rparr>) = fences_of s" "fences_of (s\<lparr>cs_cache := c\<rparr>) = fences_of s" "fences_of (s\<lparr>cs_settled := st\<rparr>) = fences_of s" "fences_of (s\<lparr>cs_origin := og\<rparr>) = fences_of s"
  "fences_of (s\<lparr>cs_mutations := ms\<rparr>) = fences_of s"
  by (rule fences_of_cong; simp)+

lemma active_waits:
  "active_ok s \<Longrightarrow> cs_mutations s m = Some r \<Longrightarrow>
   sorted_wrt (<) (fences_left (mu_phase r)) \<and> (\<forall>f \<in> set (fences_left (mu_phase r)). f < cs_fresh s)"
  unfolding active_ok_def by blast

lemma registered_fence: "active_ok s \<Longrightarrow> cs_fills s f = Some fill \<Longrightarrow> f \<in> set (fences_of s (af_key fill))"
  unfolding active_ok_def by blast

lemma active_fences: "active_ok s \<Longrightarrow> sorted_wrt (<) (fences_of s k) \<and> (\<forall>f \<in> set (fences_of s k). f < cs_fresh s)"
  unfolding active_ok_def by blast

lemma fills_drop [simp]: "cs_fills (drop_fill s f fill) g = (if g = f then None else cs_fills s g)"
  by (simp add: drop_fill_def Let_def)

lemma fill_step_active:
  assumes "fill_step s s'" "active_ok s"
  shows "active_ok s'"
  using assms
proof (cases rule: fill_step.cases)
  case (drop_active f fill)
  have "sorted_wrt (<) (fences_of s' k) \<and> (\<forall>g \<in> set (fences_of s' k). g < cs_fresh s')" for k
    using active_fences [OF assms(2), of k] drop_active(1) by (auto intro: sorted_wrt_filter)
  moreover have "g \<in> set (fences_of s' (af_key x))" if "cs_fills s' g = Some x" for g x
    using that registered_fence [OF assms(2), of g x] drop_active(1) by (auto split: if_splits)
  ultimately show ?thesis
    using active_waits [OF assms(2)] drop_active(1) unfolding active_ok_def by simp
qed (auto simp: active_ok_def)

lemma mutation_step_active: "mutation_step s s' \<Longrightarrow> active_ok s \<Longrightarrow> active_ok s'"
  by (erule mutation_step.cases; hypsubst; frule (1) active_waits; frule active_fences) (auto simp: active_ok_def simp del: split_paired_All)

lemma outside_step_active:
  assumes "outside_step s s'" "active_ok s"
  shows "active_ok s'"
  using assms
proof (cases rule: outside_step.cases)
  case (begin_fill k body)
  have "cs_fresh s' = Suc (cs_fresh s)" "cs_mutations s' = cs_mutations s"
    "\<And>f. cs_fills s' f = (if f = cs_fresh s then Some \<lparr>af_key = k, af_body = body, af_phase = Registered\<rparr> else cs_fills s f)"
    using begin_fill by (simp_all add: register_def Let_def)
  then show ?thesis
    using assms(2) begin_fill by (auto simp: active_ok_def sorted_wrt_append less_Suc_eq)
qed (auto simp: active_ok_def)

text \<open>A step keeps a mutation's progress when it puts no fill behind it, clears no mark and lands nothing older.\<close>

lemma progress_mono:
  assumes "fence_progress s r" "\<And>f. behind s' (mu_key r) (mu_version r) f \<Longrightarrow> behind s (mu_key r) (mu_version r) f"
    and "\<And>f. behind s' (mu_key r) (mu_version r) f \<Longrightarrow> is_stale s f \<Longrightarrow> is_stale s' f" "cs_origin s (mu_key r) \<le> cs_origin s' (mu_key r)"
    and "\<And>v hs. mu_phase r = Cleared hs \<Longrightarrow> cs_cache s' (mu_key r) = Some v \<Longrightarrow>
      mu_version r \<le> v \<or> cs_lingers s' (mu_key r) \<or> cs_cache s (mu_key r) = Some v \<and> \<not> cs_lingers s (mu_key r)"
  shows "fence_progress s' r"
proof -
  have o: "mu_version r \<le> cs_origin s' (mu_key r)"
    using assms(1,4) by (simp add: fence_progress_def)
  have f: "case mu_phase r of
       Marking todo fences \<Rightarrow> f \<in> set fences \<and> (is_stale s' f \<or> f \<in> set todo)
     | Locking todo hs \<Rightarrow> is_stale s' f \<and> (f \<in> set todo \<or> f \<in> set hs)
     | Guarded hs \<Rightarrow> is_stale s' f \<and> f \<in> set hs
     | Cleared hs \<Rightarrow> is_stale s' f \<and> f \<in> set hs
     | _ \<Rightarrow> True" if "behind s' (mu_key r) (mu_version r) f" for f
    using assms(1) assms(2) [OF that] assms(3) [OF that] unfolding fence_progress_def by (cases "mu_phase r") auto
  have c: "case mu_phase r of Cleared hs \<Rightarrow> (case cs_cache s' (mu_key r) of None \<Rightarrow> True
      | Some v \<Rightarrow> mu_version r \<le> v \<or> cs_lingers s' (mu_key r)) | _ \<Rightarrow> True"
    using assms(1,5) unfolding fence_progress_def by (cases "mu_phase r"; cases "cs_cache s' (mu_key r)") fastforce+
  show ?thesis
    unfolding fence_progress_def using o f c by blast
qed

lemma settled_mono:
  assumes "settled_ok s k" "cs_settled s' k = cs_settled s k" "cs_origin s k \<le> cs_origin s' k"
    and "\<And>f. behind s' k (cs_settled s k) f \<Longrightarrow> behind s k (cs_settled s k) f \<and> (is_stale s f \<longrightarrow> is_stale s' f)"
    and "\<And>f. behind s' k (cs_settled s k) f \<Longrightarrow> past_check s' f \<Longrightarrow> past_check s f \<or> \<not> is_stale s f"
    and "\<And>v. cs_cache s' k = Some v \<Longrightarrow> cs_settled s k \<le> v \<or> cs_lingers s' k \<or> cs_cache s k = Some v \<and> \<not> cs_lingers s k"
  shows "settled_ok s' k"
proof -
  have "is_stale s' f \<and> \<not> past_check s' f" if "behind s' k (cs_settled s k) f" for f
    using assms(1,4,5) that unfolding settled_ok_def by blast
  moreover have "case cs_cache s' k of None \<Rightarrow> True | Some v \<Rightarrow> cs_settled s k \<le> v \<or> cs_lingers s' k"
    using assms(1,6) unfolding settled_ok_def by (cases "cs_cache s' k") fastforce+
  ultimately show ?thesis
    using assms(1,3) unfolding settled_ok_def assms(2) by (blast intro: order_trans)
qed

text \<open>A fill past its check is neither behind a mutation that has cleared the key nor behind a settled one.\<close>

lemma checked_not_behind:
  assumes "locks_ok s" "cs_mutations s m = Some r" "fence_progress s r" "mu_phase r = Cleared hs" "past_check s f"
  shows "\<not> behind s (mu_key r) (mu_version r) f"
proof
  assume "behind s (mu_key r) (mu_version r) f"
  then have "f \<in> set hs"
    using assms(3,4) by (simp add: fence_progress_def)
  moreover have f: "locks_at s f"
    using assms(1) by (simp add: locks_ok_def)
  ultimately have "holder s f = Some (ByMutation m)"
    using locks_held [OF f assms(2)] assms(4) by simp
  moreover have "holder s f = Some (ByFill f)"
    using f assms(5) by (auto simp: locks_at_def fill_sat_def)
  ultimately show False
    by simp
qed

lemma fill_step_progress:
  assumes "fill_step s s'" "locks_ok s" "cs_mutations s m = Some r" "fence_progress s r"
  shows "fence_progress s' r"
  using assms(1)
proof (cases rule: fill_step.cases)
  case (fetch f fill)
  have "mu_version r \<le> cs_origin s (mu_key r)"
    using assms(4) by (simp add: fence_progress_def)
  then show ?thesis
    using fetch by (intro progress_mono [OF assms(4)]) (auto split: if_splits)
next
  case (commit f fill v)
  have "mu_version r \<le> v" if "mu_phase r = Cleared hs" "af_key fill = mu_key r" for hs
  proof -
    have "past_check s f"
      using commit by (simp add: fill_sat_Some)
    then have "\<not> behind s (mu_key r) (mu_version r) f"
      by (rule checked_not_behind [OF assms(2-4) that(1)])
    then show ?thesis
      using commit that(2) by (auto simp: fill_sat_Some)
  qed
  then show ?thesis
    using commit by (intro progress_mono [OF assms(4)]) (auto simp: fill_sat_Some split: if_splits)
qed (intro progress_mono [OF assms(4)]; auto simp: fill_sat_Some split: if_splits)+

lemma fill_step_settled:
  assumes "fill_step s s'" "settled_ok s k"
  shows "settled_ok s' k"
  using assms(1)
proof (cases rule: fill_step.cases)
  case (fetch f fill)
  have "cs_settled s k \<le> cs_origin s k"
    using assms(2) by (simp add: settled_ok_def)
  then show ?thesis
    using fetch by (intro settled_mono [OF assms(2)]) (auto simp: fill_sat_Some split: if_splits)
next
  case (commit f fill v)
  have "cs_settled s k \<le> v" if "af_key fill = k"
  proof (rule ccontr)
    assume "\<not> ?thesis"
    then have "behind s k (cs_settled s k) f" "past_check s f"
      using commit that by (simp_all add: fill_sat_Some)
    then show False
      using assms(2) unfolding settled_ok_def by blast
  qed
  then show ?thesis
    using commit by (intro settled_mono [OF assms(2)]) (auto simp: fill_sat_Some split: if_splits)
qed (intro settled_mono [OF assms(2)]; auto simp: fill_sat_Some split: if_splits)+

definition all_progress :: "core_state \<Rightarrow> bool" where
  "all_progress s \<longleftrightarrow> (\<forall>m r. cs_mutations s m = Some r \<longrightarrow> fence_progress s r)"

lemma progress_step:
  assumes "s' = set_mutation t m r p" "cs_mutations s m = Some r" "all_progress s"
    and "fence_progress s r \<Longrightarrow> fence_progress s' (r\<lparr>mu_phase := p\<rparr>)"
    and "cs_mutations t = cs_mutations s" "\<And>f P. fill_sat t f P = fill_sat s f P" "cs_origin t = cs_origin s"
    and "\<And>f. is_stale s f \<Longrightarrow> is_stale t f"
    and "\<And>k v. cs_cache t k = Some v \<Longrightarrow> cs_cache s k = Some v \<and> (cs_lingers s k \<longrightarrow> cs_lingers t k)"
  shows "all_progress s'"
proof -
  have own: "fence_progress s' (r\<lparr>mu_phase := p\<rparr>)"
    using assms(2-4) unfolding all_progress_def by blast
  have "fence_progress s' q" if "cs_mutations s l = Some q" for l q
  proof (rule progress_mono)
    show "fence_progress s q"
      using assms(3) that unfolding all_progress_def by blast
    show "mu_version q \<le> v \<or> cs_lingers s' (mu_key q) \<or> cs_cache s (mu_key q) = Some v \<and> \<not> cs_lingers s (mu_key q)"
      if "cs_cache s' (mu_key q) = Some v" for v
      using assms(9) [of "mu_key q" v] that assms(1) by auto
  qed (use assms(1,6-8) in auto)
  with own assms(1,5) show ?thesis
    by (auto simp: all_progress_def split: if_splits)
qed

lemma behind_registered: "active_ok s \<Longrightarrow> behind s k n f \<Longrightarrow> f \<in> set (fences_of s k)"
  using registered_fence by (auto simp: fill_sat_def)

lemma mutation_step_progress: "mutation_step s s' \<Longrightarrow> active_ok s \<Longrightarrow> all_progress s \<Longrightarrow> all_progress s'"
  by (erule mutation_step.cases; hypsubst; (rule progress_step [OF refl], assumption, assumption))
    (auto simp: fence_progress_def dest: behind_registered split: if_splits option.split)

lemma mutation_step_settled:
  assumes "mutation_step s s'" "locks_ok s" "all_progress s" "settled_ok s k"
  shows "settled_ok s' k"
  using assms(1)
proof (cases rule: mutation_step.cases)
  case (return_guards m r hs)
  have p: "fence_progress s r"
    using assms(3) return_guards(2) unfolding all_progress_def by blast
  show ?thesis
  proof (cases "k = mu_key r \<and> cs_settled s k < mu_version r")
    case True
    have "is_stale s f \<and> \<not> past_check s f" if "behind s k (mu_version r) f" for f
      using p that True return_guards(3) checked_not_behind [OF assms(2) return_guards(2) p return_guards(3), of f]
      by (auto simp: fence_progress_def)
    moreover have "cs_settled s' k = mu_version r" "cs_origin s' = cs_origin s" "cs_cache s' = cs_cache s" "cs_lingers s' = cs_lingers s"
      "\<And>f P. fill_sat s' f P = fill_sat s f P" "\<And>f. is_stale s' f = is_stale s f"
      using True return_guards(1) by (auto simp: max_def)
    ultimately show ?thesis
      using p True return_guards(3) unfolding settled_ok_def by (auto simp: fence_progress_def split: option.splits)
  next
    case False
    then have "cs_settled s' k = cs_settled s k"
      using return_guards(1) by (auto simp: max_def)
    then show ?thesis
      using return_guards(1) by (intro settled_mono [OF assms(4)]) auto
  qed
qed (intro settled_mono [OF assms(4)]; auto split: if_splits)+

lemma outside_step_progress:
  assumes "outside_step s s'" "active_ok s" "all_progress s"
  shows "all_progress s'"
  using assms(1)
proof (cases rule: outside_step.cases)
  case (begin_fill k body)
  have frame: "cs_mutations s' = cs_mutations s" "cs_origin s' = cs_origin s" "cs_cache s' = cs_cache s" "cs_lingers s' = cs_lingers s"
    "\<And>f. f \<noteq> cs_fresh s \<Longrightarrow> cs_fence s' f = cs_fence s f"
    using begin_fill by (simp_all add: register_def Let_def)
  have "fence_progress s' r" if "cs_mutations s m = Some r" for m r
  proof (rule progress_mono)
    show "fence_progress s r"
      using assms(3) that unfolding all_progress_def by blast
  qed (use frame begin_fill in \<open>auto split: if_splits\<close>)
  then show ?thesis
    using frame(1) by (simp add: all_progress_def)
next
  case (origin_write k)
  have "fence_progress s' r" if "cs_mutations s m = Some r" for m r
  proof (rule progress_mono)
    show "fence_progress s r"
      using assms(3) that unfolding all_progress_def by blast
  qed (use origin_write in auto)
  then show ?thesis
    using origin_write by (simp add: all_progress_def)
next
  case (evict k)
  have "fence_progress s' r" if "cs_mutations s m = Some r" for m r
  proof (rule progress_mono)
    show "fence_progress s r"
      using assms(3) that unfolding all_progress_def by blast
  qed (use evict in \<open>auto split: if_splits\<close>)
  then show ?thesis
    using evict by (simp add: all_progress_def)
next
  case (resurface k v)
  have "fence_progress s' r" if "cs_mutations s m = Some r" for m r
  proof (rule progress_mono)
    show "fence_progress s r"
      using assms(3) that unfolding all_progress_def by blast
  qed (use resurface in \<open>auto split: if_splits\<close>)
  then show ?thesis
    using resurface by (simp add: all_progress_def)
next
  case (begin_mutation m n k)
  have "fence_progress s' r" if "cs_mutations s l = Some r" for l r
  proof (rule progress_mono)
    show "fence_progress s r"
      using assms(3) that unfolding all_progress_def by blast
  qed (use begin_mutation in auto)
  then show ?thesis
    using begin_mutation by (auto simp: all_progress_def fence_progress_def)
qed

lemma outside_step_settled:
  assumes "outside_step s s'" "settled_ok s l"
  shows "settled_ok s' l"
  using assms(1)
proof (cases rule: outside_step.cases)
  case (begin_fill k body)
  have "cs_origin s' = cs_origin s" "cs_cache s' = cs_cache s" "cs_lingers s' = cs_lingers s" "cs_settled s' = cs_settled s" "\<And>f. f \<noteq> cs_fresh s \<Longrightarrow> cs_fence s' f = cs_fence s f"
    using begin_fill by (simp_all add: register_def Let_def)
  then show ?thesis
    using begin_fill by (intro settled_mono [OF assms(2)]) (auto split: if_splits)
next
  case (evict k)
  then show ?thesis
    by (intro settled_mono [OF assms(2)]) (auto split: if_splits)
next
  case (resurface k v)
  then show ?thesis
    by (intro settled_mono [OF assms(2)]) (auto split: if_splits)
qed (intro settled_mono [OF assms(2)]; auto)+

lemma core_invariant: "core_reachable s \<Longrightarrow> locks_ok s \<and> active_ok s \<and> all_progress s \<and> (\<forall>k. settled_ok s k)"
proof (induction rule: core_reachable.induct)
  case core_start
  show ?case
    by (auto simp: locks_ok_def locks_at_def active_ok_def all_progress_def settled_ok_def core_new_def fill_sat_def held_def fences_of_def)
next
  case (core_fill s s')
  have frame: "cs_mutations s' = cs_mutations s"
    using core_fill.hyps(2) by (cases rule: fill_step.cases) auto
  have "all_progress s'"
    using core_fill fill_step_progress [OF core_fill.hyps(2)] unfolding all_progress_def frame by blast
  then show ?case
    using core_fill fill_step_locks fill_step_active fill_step_settled by blast
next
  case (core_mutation s s')
  then show ?case
    using mutation_step_locks mutation_step_active mutation_step_progress mutation_step_settled by blast
next
  case (core_outside s s')
  then show ?case
    using outside_step_locks outside_step_active outside_step_progress outside_step_settled by blast
qed

text \<open>C5: No stale body lands behind a mutation. In every interleaving of fills, observations, origin writes,
  evictions and invalidations: once the invalidation of a key for some origin version has returned, no local copy that was
  fetched holds an older version, unless a tier failed to delete the key and no delete of it has succeeded since; and no fill or
  observation that fetched an older version is past its staleness check, so none can commit one later. The bodies that
  PUTs insert themselves are not fenced and are not among these steps.\<close>

theorem no_stale_fill:
  assumes "core_reachable s"
  shows "(\<forall>k v. cs_cache s k = Some v \<longrightarrow> cs_settled s k \<le> v \<or> cs_lingers s k)
    \<and> (\<forall>f fill v. cs_fills s f = Some fill \<and> af_phase fill = Checked v \<longrightarrow> cs_settled s (af_key fill) \<le> v)"
proof -
  have ok: "settled_ok s k" for k
    using core_invariant [OF assms] by blast
  have "cs_settled s k \<le> v \<or> cs_lingers s k" if "cs_cache s k = Some v" for k v
    using ok [of k] that by (simp add: settled_ok_def)
  moreover have "cs_settled s (af_key fill) \<le> v" if "cs_fills s f = Some fill" "af_phase fill = Checked v" for f fill v
  proof (rule ccontr)
    assume "\<not> ?thesis"
    then have "behind s (af_key fill) (cs_settled s (af_key fill)) f" "past_check s f"
      using that by (simp_all add: fill_sat_Some)
    then show False
      using ok [of "af_key fill"] unfolding settled_ok_def by blast
  qed
  ultimately show ?thesis
    by blast
qed

section \<open>No deadlock, and every task ends\<close>

definition process_step :: "core_state \<Rightarrow> core_state \<Rightarrow> bool" where
  "process_step s s' \<longleftrightarrow> fill_step s s' \<or> mutation_step s s'"

definition quiescent :: "core_state \<Rightarrow> bool" where
  "quiescent s \<longleftrightarrow> (\<forall>f. cs_fills s f = None) \<and> (\<forall>m r. cs_mutations s m = Some r \<longrightarrow> mu_phase r = Returned)"

lemma fill_blocked:
  assumes "cs_fills s f = Some fill" "\<nexists>s'. fill_step s s'"
  shows "\<exists>v. af_phase fill = Fetched v" "holder s f \<noteq> None"
proof -
  show fetched: "\<exists>v. af_phase fill = Fetched v"
    using assms(2) fill_step.fetch_failed [OF assms(1)] fill_step.skip [OF assms(1)] fill_step.commit [OF assms(1)]
      fill_step.drop_active [OF assms(1)] by (cases "af_phase fill") auto
  show "holder s f \<noteq> None"
    using fetched assms(2) fill_step.lock [OF assms(1)] by blast
qed

lemma mutation_blocked:
  assumes "cs_mutations s m = Some r" "mu_phase r \<noteq> Returned" "\<nexists>s'. mutation_step s s'"
  shows "\<exists>f todo hs. mu_phase r = Locking (f # todo) hs \<and> holder s f \<noteq> None"
proof (cases "mu_phase r")
  case Fencing
  then show ?thesis
    using assms(3) mutation_step.snapshot [OF assms(1)] by blast
next
  case (Marking todo fences)
  then show ?thesis
    using assms(3) mutation_step.mark [OF assms(1)] mutation_step.marked [OF assms(1)] by (cases todo) blast+
next
  case (Locking todo hs)
  then show ?thesis
    using assms(3) mutation_step.lock_owned [OF assms(1)] mutation_step.guarded [OF assms(1)] by (cases todo) blast+
next
  case (Guarded hs)
  then show ?thesis
    using assms(3) mutation_step.clear [OF assms(1)] by blast
next
  case (Cleared hs)
  then show ?thesis
    using assms(3) mutation_step.return_guards [OF assms(1)] by blast
qed (use assms(2) in simp)

text \<open>Fences are locked in the order of their registration, so a chain of waiting mutations climbs and ends.\<close>

lemma waits_climb:
  assumes "locks_ok s" "active_ok s" "\<nexists>s'. process_step s s'" "holder s f \<noteq> None" "\<not> in_commit s f"
  shows "\<exists>g > f. g < cs_fresh s \<and> holder s g \<noteq> None \<and> \<not> in_commit s g"
proof -
  have at: "locks_at s g" for g
    using assms(1) by (simp add: locks_ok_def)
  obtain p where p: "holder s f = Some p"
    using assms(4) by blast
  obtain m where m: "holder s f = Some (ByMutation m)"
    using p assms(5) at [of f] by (cases p) (auto simp: locks_at_def)
  obtain r where r: "cs_mutations s m = Some r" "f \<in> set (held_of (mu_phase r))"
  proof -
    have "f \<in> set (held s m)"
      using m at [of f] unfolding locks_at_def by blast
    then show ?thesis
      using that by (cases "cs_mutations s m") (auto simp: held_def)
  qed
  then obtain g todo hs where g: "mu_phase r = Locking (g # todo) hs" "holder s g \<noteq> None"
    using mutation_blocked [OF r(1)] assms(3) by (force simp: process_step_def)
  have "sorted_wrt (<) (hs @ g # todo)" "g < cs_fresh s"
    using active_waits [OF assms(2) r(1)] g(1) by auto
  then have "f < g"
    using r(2) g(1) by (auto simp: sorted_wrt_append)
  moreover have "\<not> in_commit s g"
    using assms(3) fill_blocked by (fastforce simp: fill_sat_def process_step_def)
  ultimately show ?thesis
    using g(2) \<open>g < cs_fresh s\<close> by blast
qed

lemma no_blocked_fence:
  assumes "locks_ok s" "active_ok s" "\<nexists>s'. process_step s s'" "\<not> in_commit s f"
  shows "holder s f = None"
proof (rule ccontr)
  assume "holder s f \<noteq> None"
  with assms(4) show False
  proof (induction "cs_fresh s - f" arbitrary: f rule: less_induct)
    case less
    obtain g where g: "g > f" "g < cs_fresh s" "holder s g \<noteq> None" "\<not> in_commit s g"
      using waits_climb [OF assms(1-3) less.prems(2,1)] by blast
    then have "cs_fresh s - g < cs_fresh s - f"
      by linarith
    then show ?case
      using less.hyps g(3,4) by blast
  qed
qed

lemma stuck_is_quiescent:
  assumes "locks_ok s" "active_ok s" "\<nexists>s'. process_step s s'"
  shows "quiescent s"
proof -
  have fills: "cs_fills s f = None" for f
  proof (rule ccontr)
    assume "cs_fills s f \<noteq> None"
    then obtain fill where fill: "cs_fills s f = Some fill"
      by blast
    then have "\<exists>v. af_phase fill = Fetched v" "holder s f \<noteq> None"
      using fill_blocked [OF fill] assms(3) by (auto simp: process_step_def)
    then show False
      using no_blocked_fence [OF assms, of f] fill by (auto simp: fill_sat_Some)
  qed
  then have "\<not> in_commit s f" for f
    by (simp add: fill_sat_def)
  then have "holder s f = None" for f
    using no_blocked_fence [OF assms] by blast
  then have "mu_phase r = Returned" if "cs_mutations s m = Some r" for m r
    using mutation_blocked [OF that] assms(3) by (auto simp: process_step_def)
  with fills show ?thesis
    by (simp add: quiescent_def)
qed

fun fill_work :: "fill_phase \<Rightarrow> nat" where
  "fill_work Registered = 5"
| "fill_work (Fetched v) = 4"
| "fill_work (Locked v) = 3"
| "fill_work (Checked v) = 2"
| "fill_work Ended = 1"

fun mutation_work :: "nat \<Rightarrow> mutation_phase \<Rightarrow> nat" where
  "mutation_work n Fencing = 2 * n + 5"
| "mutation_work n (Marking todo fences) = length todo + length fences + 4"
| "mutation_work n (Locking todo hs) = length todo + 3"
| "mutation_work n (Guarded hs) = 2"
| "mutation_work n (Cleared hs) = 1"
| "mutation_work n Returned = 0"

definition work :: "core_state \<Rightarrow> nat" where
  "work s = (\<Sum>f < cs_fresh s. case cs_fills s f of None \<Rightarrow> 0 | Some fill \<Rightarrow> fill_work (af_phase fill))
     + (\<Sum>m \<in> dom (cs_mutations s). mutation_work (cs_fresh s) (mu_phase (the (cs_mutations s m))))"

lemma sum_one_less:
  fixes g h :: "'a \<Rightarrow> nat"
  assumes "finite A" "x \<in> A" "h x < g x" "\<And>y. y \<noteq> x \<Longrightarrow> h y = g y"
  shows "sum h A < sum g A"
  using assms by (intro sum_strict_mono_ex1) (auto, metis le_refl less_imp_le_nat)

lemma fill_step_work:
  assumes "fill_step s s'" "active_ok s"
  shows "work s' < work s"
proof -
  obtain f fill where f: "cs_fills s f = Some fill" "cs_mutations s' = cs_mutations s" "cs_fresh s' = cs_fresh s"
    "\<And>g. g \<noteq> f \<Longrightarrow> cs_fills s' g = cs_fills s g"
    "(case cs_fills s' f of None \<Rightarrow> 0 | Some fill \<Rightarrow> fill_work (af_phase fill)) < fill_work (af_phase fill)"
    using assms(1) by (cases rule: fill_step.cases) (force+)
  have "f < cs_fresh s"
    using registered_fence [OF assms(2) f(1)] active_fences [OF assms(2)] by blast
  then have "(\<Sum>f < cs_fresh s. case cs_fills s' f of None \<Rightarrow> 0 | Some fill \<Rightarrow> fill_work (af_phase fill))
    < (\<Sum>f < cs_fresh s. case cs_fills s f of None \<Rightarrow> 0 | Some fill \<Rightarrow> fill_work (af_phase fill))"
    using f by (intro sum_one_less [of _ f]) simp_all
  then show ?thesis
    by (simp add: work_def f(2,3))
qed

lemma fences_bounded: "active_ok s \<Longrightarrow> length (fences_of s k) \<le> cs_fresh s"
proof -
  assume "active_ok s"
  then have s: "sorted_wrt (<) (fences_of s k)" "set (fences_of s k) \<subseteq> {..< cs_fresh s}"
    using active_fences by blast+
  then have "distinct (fences_of s k)"
    using strict_sorted_iff by blast
  then show ?thesis
    using card_mono [OF _ s(2)] by (simp add: distinct_card)
qed

lemma mutation_step_shape:
  "mutation_step s s' \<Longrightarrow> \<exists>t m r p. s' = set_mutation t m r p \<and> cs_mutations s m = Some r \<and> cs_mutations t = cs_mutations s
     \<and> cs_fills t = cs_fills s \<and> cs_fresh t = cs_fresh s
     \<and> (length (fences_of s (mu_key r)) \<le> cs_fresh s \<longrightarrow> mutation_work (cs_fresh s) p < mutation_work (cs_fresh s) (mu_phase r))"
  by (erule mutation_step.cases; hypsubst; (intro exI conjI, rule refl, assumption))
    simp_all

lemma mutation_step_work:
  assumes "mutation_step s s'" "active_ok s" "finite (dom (cs_mutations s))"
  shows "work s' < work s"
proof -
  obtain t m r p where m: "s' = set_mutation t m r p" "cs_mutations s m = Some r" "cs_mutations t = cs_mutations s" "cs_fills t = cs_fills s"
    "cs_fresh t = cs_fresh s" "mutation_work (cs_fresh s) p < mutation_work (cs_fresh s) (mu_phase r)"
    using mutation_step_shape [OF assms(1)] fences_bounded [OF assms(2)] by blast
  have "(\<Sum>l \<in> dom (cs_mutations s). mutation_work (cs_fresh s) (mu_phase (the (cs_mutations s' l))))
    < (\<Sum>l \<in> dom (cs_mutations s). mutation_work (cs_fresh s) (mu_phase (the (cs_mutations s l))))"
    using m assms(3) by (intro sum_one_less [of _ m]) auto
  moreover have "dom (cs_mutations s') = dom (cs_mutations s)"
    using m(1-3) by (auto simp: set_mutation_def)
  ultimately show ?thesis
    using m(1,4,5) by (simp add: work_def)
qed

lemma mutations_finite: "core_reachable s \<Longrightarrow> finite (dom (cs_mutations s))"
proof (induction rule: core_reachable.induct)
  case core_start
  then show ?case
    by (simp add: core_new_def dom_def)
next
  case (core_fill s s')
  then show ?case
    by (auto elim!: fill_step.cases)
next
  case (core_mutation s s')
  then have "dom (cs_mutations s') = dom (cs_mutations s)"
    using mutation_step_shape [OF core_mutation.hyps(2)] by (auto split: if_splits)
  then show ?case
    using core_mutation.IH by simp
next
  case (core_outside s s')
  then show ?case
    by (auto elim!: outside_step.cases simp: register_def Let_def)
qed

lemma process_step_work: "core_reachable s \<Longrightarrow> process_step s s' \<Longrightarrow> core_reachable s' \<and> work s' < work s"
  using core_invariant fill_step_work mutation_step_work mutations_finite core_fill core_mutation
  unfolding process_step_def by metis

text \<open>C36: Fills and invalidations never deadlock, and they all end. From every reachable state, with no further
  requests, every schedule of the running tasks has a bounded number of steps, and where it can no longer go on
  every fill and observation has been dropped and every invalidation has returned.\<close>

theorem tasks_quiesce:
  assumes "core_reachable s" "(process_step ^^ n) s s'"
  shows "n \<le> work s \<and> ((\<exists>s''. process_step s' s'') \<or> quiescent s')"
proof -
  have run: "core_reachable s' \<and> n + work s' \<le> work s"
    using assms
  proof (induction n arbitrary: s')
    case (Suc n)
    obtain t where t: "(process_step ^^ n) s t" "process_step t s'"
      using Suc.prems(2) by auto
    then show ?case
      using Suc.IH [OF Suc.prems(1) t(1)] process_step_work [of t s'] by linarith
  qed simp
  moreover have "quiescent s'" if "\<nexists>s''. process_step s' s''"
    using run core_invariant that by (blast intro: stuck_is_quiescent)
  ultimately show ?thesis
    by auto
qed

section \<open>Examples\<close>

text \<open>An invalidation of a key that nothing is filling.\<close>

definition invalidated :: "core_state \<Rightarrow> nat \<Rightarrow> cache_key \<Rightarrow> nat \<Rightarrow> core_state" where
  "invalidated s m k n = s\<lparr>cs_mutations := (cs_mutations s)(m \<mapsto> \<lparr>mu_key = k, mu_version = n, mu_phase = Returned\<rparr>),
     cs_cache := (cs_cache s)(k := None), cs_lingers := (cs_lingers s)(k := False),
     cs_settled := (cs_settled s)(k := max (cs_settled s k) n)\<rparr>"

lemma invalidate_quiet:
  assumes "core_reachable s" "cs_mutations s m = None" "n \<le> cs_origin s k" "fences_of s k = []"
  shows "core_reachable (invalidated s m k n)"
proof -
  let ?r = "\<lambda>p. \<lparr>mu_key = k, mu_version = n, mu_phase = p\<rparr>"
  let ?at = "\<lambda>p. s\<lparr>cs_mutations := (cs_mutations s)(m \<mapsto> ?r p)\<rparr>"
  have "core_reachable (?at Fencing)"
    using assms(2,3) by (intro core_outside [OF assms(1)] begin_mutation)
  then have "core_reachable (?at (Marking [] []))"
    using core_mutation [OF _ snapshot [of "?at Fencing" m "?r Fencing"]] assms(4) by (simp add: set_mutation_def)
  then have "core_reachable (?at (Locking [] []))"
    using core_mutation [OF _ marked [of "?at (Marking [] [])" m "?r (Marking [] [])" "[]"]] by (simp add: set_mutation_def)
  then have "core_reachable (?at (Guarded []))"
    using core_mutation [OF _ guarded [of "?at (Locking [] [])" m "?r (Locking [] [])" "[]"]] by (simp add: set_mutation_def)
  then have c: "core_reachable (set_mutation ((?at (Guarded []))\<lparr>cs_cache := (cs_cache s)(k := None), cs_lingers := (cs_lingers s)(k := False)\<rparr>) m (?r (Guarded [])) (Cleared []))"
    using core_mutation [OF _ clear [of "?at (Guarded [])" m "?r (Guarded [])" "[]"]] by simp
  have "invalidated s m k n = set_mutation (unlock_commits (c'\<lparr>cs_settled := (cs_settled c')(k := max (cs_settled c' k) n)\<rparr>) []) m (?r (Cleared [])) Returned"
    if "c' = set_mutation ((?at (Guarded []))\<lparr>cs_cache := (cs_cache s)(k := None), cs_lingers := (cs_lingers s)(k := False)\<rparr>) m (?r (Guarded [])) (Cleared [])" for c'
    unfolding that by (intro core_state.equality) (simp_all add: invalidated_def set_mutation_def unlock_commits_def)
  then show ?thesis
    using core_mutation [OF c return_guards [of _ m "?r (Cleared [])" "[]"]] by simp
qed

definition k_example :: cache_key where
  "k_example = (''b'', ''k'')"

definition write_example :: "core_state \<Rightarrow> core_state" where
  "write_example s = s\<lparr>cs_origin := (cs_origin s)(k_example := Suc (cs_origin s k_example))\<rparr>"

definition race_example :: core_state where
  "race_example = invalidated (invalidated (write_example (write_example core_new)) 1 k_example 1) 2 k_example 2"

lemma race_example_reachable: "core_reachable race_example"
proof -
  have "core_reachable (write_example (write_example core_new))"
    unfolding write_example_def by (intro core_outside [OF _ origin_write] core_start)
  then have one: "core_reachable (invalidated (write_example (write_example core_new)) 1 k_example 1)"
    by (rule invalidate_quiet) (simp_all add: write_example_def core_new_def fences_of_def)
  show ?thesis
    unfolding race_example_def
    by (rule invalidate_quiet [OF one]) (simp_all add: invalidated_def write_example_def core_new_def fences_of_def)
qed

text \<open>A read that misses after both writes: it registers, fetches the second version, passes its check, commits it and ends.\<close>

definition miss_fill_example :: "fill_phase \<Rightarrow> active_fill" where
  "miss_fill_example p = \<lparr>af_key = k_example, af_body = True, af_phase = p\<rparr>"

definition miss_example :: "fill_phase \<Rightarrow> core_state" where
  "miss_example p = (let s = register race_example k_example True in
     s\<lparr>cs_fills := (cs_fills s)(0 \<mapsto> miss_fill_example p),
       cs_fence := (cs_fence s)(0 := \<lparr>ff_stale = False, ff_commit = (if p \<in> {Locked 2, Checked 2} then Some (ByFill 0) else None)\<rparr>),
       cs_cache := (if p = Ended then (cs_cache s)(k_example \<mapsto> 2) else cs_cache s)\<rparr>)"

lemma race_example_fields:
  "cs_fresh race_example = 0" "cs_origin race_example k_example = 2" "cs_settled race_example k_example = 2" "\<not> cs_lingers race_example k_example"
  by (simp_all add: race_example_def invalidated_def write_example_def core_new_def)

lemma miss_example_fields:
  "cs_fills (miss_example p) 0 = Some (miss_fill_example p)" "af_phase (miss_fill_example p) = p"
  "cs_origin (miss_example p) (af_key (miss_fill_example p)) = 2" "cs_settled (miss_example p) k_example = 2" "\<not> cs_lingers (miss_example p) k_example"
  "ff_commit (cs_fence (miss_example (Fetched v)) 0) = None" "\<not> ff_stale (cs_fence (miss_example p) 0)"
  by (simp_all add: miss_example_def register_def miss_fill_example_def Let_def race_example_fields)

lemma miss_example_start: "core_reachable (miss_example Registered)"
proof -
  have "miss_example Registered = register race_example k_example True"
    by (intro core_state.equality) (simp_all add: miss_example_def register_def Let_def race_example_fields miss_fill_example_def fun_eq_iff)
  then show ?thesis
    using core_outside [OF race_example_reachable begin_fill] by simp
qed

lemma miss_example_steps:
  "fill_step (miss_example Registered) (miss_example (Fetched 2))" "fill_step (miss_example (Fetched 2)) (miss_example (Locked 2))"
  "fill_step (miss_example (Locked 2)) (miss_example (Checked 2))" "fill_step (miss_example (Checked 2)) (miss_example Ended)"
proof -
  note fields = miss_example_fields
  note unfolds = miss_example_def set_phase_def lock_commit_def unlock_commits_def land_def miss_fill_example_def register_def Let_def fun_eq_iff
  have "set_phase (miss_example Registered) 0 (miss_fill_example Registered) (Fetched 2) = miss_example (Fetched 2)"
    by (intro core_state.equality) (simp_all add: unfolds)
  then show "fill_step (miss_example Registered) (miss_example (Fetched 2))"
    using fill_step.fetch [OF fields(1) fields(2)] by (simp only: fields(3))
  have "set_phase (lock_commit (miss_example (Fetched 2)) 0 (ByFill 0)) 0 (miss_fill_example (Fetched 2)) (Locked 2) = miss_example (Locked 2)"
    by (intro core_state.equality) (simp_all add: unfolds)
  then show "fill_step (miss_example (Fetched 2)) (miss_example (Locked 2))"
    using fill_step.lock [OF fields(1) fields(2) fields(6)] by metis
  have "set_phase (miss_example (Locked 2)) 0 (miss_fill_example (Locked 2)) (Checked 2) = miss_example (Checked 2)"
    by (intro core_state.equality) (simp_all add: unfolds)
  then show "fill_step (miss_example (Locked 2)) (miss_example (Checked 2))"
    using fill_step.check [OF fields(1) fields(2) fields(7)] by metis
  have "set_phase (unlock_commits (land (miss_example (Checked 2)) (miss_fill_example (Checked 2)) 2) [0]) 0 (miss_fill_example (Checked 2)) Ended = miss_example Ended"
    by (intro core_state.equality) (simp_all add: unfolds)
  then show "fill_step (miss_example (Checked 2)) (miss_example Ended)"
    using fill_step.commit [OF fields(1) fields(2)] by metis
qed

lemma no_stale_fill_witness:
  "core_reachable (miss_example (Checked 2)) \<and> cs_settled (miss_example (Checked 2)) k_example \<le> 2
    \<and> core_reachable (miss_example Ended) \<and> cs_cache (miss_example Ended) k_example = Some 2
    \<and> \<not> cs_lingers (miss_example Ended) k_example \<and> cs_settled (miss_example Ended) k_example \<le> 2"
proof -
  have c: "core_reachable (miss_example (Checked 2))"
    by (intro core_fill [OF _ miss_example_steps(3)] core_fill [OF _ miss_example_steps(2)] core_fill [OF _ miss_example_steps(1)]
        miss_example_start)
  then have e: "core_reachable (miss_example Ended)"
    by (rule core_fill [OF _ miss_example_steps(4)])
  have cache: "cs_cache (miss_example Ended) k_example = Some 2"
    by (simp add: miss_example_def Let_def)
  have "cs_settled (miss_example (Checked 2)) (af_key (miss_fill_example (Checked 2))) \<le> 2"
    using conjunct2 [OF no_stale_fill [OF c]] miss_example_fields(1,2) by blast
  moreover have "cs_settled (miss_example Ended) k_example \<le> 2"
    using conjunct1 [OF no_stale_fill [OF e]] cache miss_example_fields(5) by blast
  ultimately show ?thesis
    using c e cache miss_example_fields(5) by (simp add: miss_fill_example_def)
qed

text \<open>The same read, run to its end.\<close>

lemma tasks_quiesce_witness:
  "\<exists>s'. (process_step ^^ 5) (miss_example Registered) s' \<and> 5 \<le> work (miss_example Registered)
     \<and> ((\<exists>s''. process_step s' s'') \<or> quiescent s')"
proof -
  let ?ended = "drop_fill (miss_example Ended) 0 (miss_fill_example Ended)"
  have "fill_step (miss_example Ended) ?ended"
    by (rule fill_step.drop_active [OF miss_example_fields(1) miss_example_fields(2)])
  moreover have five: "(5 :: nat) = Suc (Suc (Suc (Suc (Suc 0))))"
    by simp
  ultimately have run: "(process_step ^^ 5) (miss_example Registered) ?ended"
    using miss_example_steps unfolding five relpowp.simps relcompp_apply process_step_def by blast
  then show ?thesis
    using tasks_quiesce [OF miss_example_start run] by blast
qed

text \<open>The body a PUT keeps: once its second invalidation has returned, the tail inserts what it wrote.\<close>

inductive write_fill :: "core_state \<Rightarrow> core_state \<Rightarrow> bool" where
  "cs_mutations s m = Some r \<Longrightarrow> mu_phase r = Returned
    \<Longrightarrow> write_fill s (s\<lparr>cs_cache := (cs_cache s)(mu_key r \<mapsto> mu_version r)\<rparr>)"

text \<open>C39: Two PUTs of one key through one node can leave the older body cached. Each tail inserts its body after its
  invalidation has returned, under no fence of the other: when the tail of the first write inserts last, every task
  has ended, both writes have been invalidated, and the copy that stays is the first version.\<close>

theorem write_fills_race:
  "\<exists>s s1 s2. core_reachable s \<and> write_fill s s1 \<and> write_fill s1 s2 \<and> quiescent s2
     \<and> cs_origin s2 k_example = 2 \<and> cs_settled s2 k_example = 2 \<and> cs_cache s2 k_example = Some 1"
proof (intro exI conjI)
  let ?s1 = "race_example\<lparr>cs_cache := (cs_cache race_example)(k_example \<mapsto> 2)\<rparr>"
  let ?s2 = "?s1\<lparr>cs_cache := (cs_cache ?s1)(k_example \<mapsto> 1)\<rparr>"
  have m: "cs_mutations race_example 1 = Some \<lparr>mu_key = k_example, mu_version = 1, mu_phase = Returned\<rparr>"
    "cs_mutations race_example 2 = Some \<lparr>mu_key = k_example, mu_version = 2, mu_phase = Returned\<rparr>"
    by (simp_all add: race_example_def invalidated_def)
  show "core_reachable race_example"
    by (rule race_example_reachable)
  show "write_fill race_example ?s1"
    using write_fill.intros [OF m(2)] by simp
  show "write_fill ?s1 ?s2"
    using write_fill.intros [of ?s1 1] m(1) by simp
  show "quiescent ?s2" "cs_origin ?s2 k_example = 2" "cs_settled ?s2 k_example = 2" "cs_cache ?s2 k_example = Some 1"
    by (auto simp: quiescent_def race_example_def invalidated_def write_example_def core_new_def split: if_splits)
qed

end
