(* ===== verification/Rows.thy ===== *)
theory Rows
  imports Image_Codec
begin

text \<open>
  One bucket's rows (\<^verbatim>\<open>src/src/index/rows.rs\<close>): live rows and delete tombstones, each an
  ordered map with the running image tally of its rows, and the incremental expiry sweep
  of the tombstones with its cursor and its two time floors.
\<close>

section \<open>Live rows\<close>

record key_rows =
  kr_map :: "(string, obj_entry) omap"
  kr_image :: image_tally

definition key_rows_default :: key_rows where
  "key_rows_default = \<lparr>kr_map = [], kr_image = image_tally_default\<rparr>"

definition kr_len :: "key_rows \<Rightarrow> nat" where
  "kr_len r = length (kr_map r)"

definition kr_get :: "key_rows \<Rightarrow> string \<Rightarrow> obj_entry option" where
  "kr_get r key = map_of (kr_map r) key"

definition kr_contains_key :: "key_rows \<Rightarrow> string \<Rightarrow> bool" where
  "kr_contains_key r key = (kr_get r key \<noteq> None)"

datatype bound = Excluded string | Included string | Unbounded

fun above :: "bound \<Rightarrow> string \<Rightarrow> bool" where
  "above (Excluded k) key = (k < key)"
| "above (Included k) key = (k \<le> key)"
| "above Unbounded key = True"

definition kr_range_from :: "key_rows \<Rightarrow> bound \<Rightarrow> (string, obj_entry) omap" where
  "kr_range_from r lower = filter (\<lambda>p. above lower (fst p)) (kr_map r)"

definition kr_insert :: "layout \<Rightarrow> key_rows \<Rightarrow> string \<Rightarrow> obj_entry \<Rightarrow> key_rows \<times> obj_entry option" where
  "kr_insert lay r key e =
     (let image = tally_add (kr_image r) (tally_entry lay (length key) e);
          previous = kr_get r key;
          image = (case previous of None \<Rightarrow> image
                   | Some p \<Rightarrow> tally_sub image (tally_entry lay (length key) p))
      in (\<lparr>kr_map = om_insert key e (kr_map r), kr_image = image\<rparr>, previous))"

definition kr_remove :: "layout \<Rightarrow> key_rows \<Rightarrow> string \<Rightarrow> key_rows \<times> obj_entry option" where
  "kr_remove lay r key = (case kr_get r key of
       None \<Rightarrow> (r, None)
     | Some p \<Rightarrow> (\<lparr>kr_map = om_remove key (kr_map r),
                  kr_image = tally_sub (kr_image r) (tally_entry lay (length key) p)\<rparr>, Some p))"

text \<open>\<open>change\<close> returns the changed row together with its result.\<close>

definition kr_update ::
  "layout \<Rightarrow> key_rows \<Rightarrow> string \<Rightarrow> (obj_entry \<Rightarrow> obj_entry \<times> 'r) \<Rightarrow> key_rows \<times> 'r option" where
  "kr_update lay r key change = (case kr_get r key of
       None \<Rightarrow> (r, None)
     | Some e \<Rightarrow> (case change e of (e', result) \<Rightarrow>
         (\<lparr>kr_map = om_insert key e' (kr_map r),
           kr_image = tally_add (tally_sub (kr_image r) (tally_entry lay (length key) e))
             (tally_entry lay (length key) e')\<rparr>, Some result)))"

section \<open>Tombstones\<close>

definition SWEEP_STEP :: nat where
  "SWEEP_STEP = 16"

record gone_rows =
  gr_map :: "(string, systime) omap"
  gr_image :: image_tally
  gr_cursor :: "string option"
  gr_floor :: "systime option"
  gr_lap_floor :: "systime option"

definition gone_rows_default :: gone_rows where
  "gone_rows_default = \<lparr>gr_map = [], gr_image = image_tally_default, gr_cursor = None,
     gr_floor = None, gr_lap_floor = None\<rparr>"

definition gr_len :: "gone_rows \<Rightarrow> nat" where
  "gr_len g = length (gr_map g)"

definition gr_get :: "gone_rows \<Rightarrow> string \<Rightarrow> systime option" where
  "gr_get g key = map_of (gr_map g) key"

definition lower_floor :: "systime option \<Rightarrow> systime \<Rightarrow> systime option" where
  "lower_floor floor at = Some (case floor of None \<Rightarrow> at | Some f \<Rightarrow> min f at)"

definition gr_insert :: "layout \<Rightarrow> gone_rows \<Rightarrow> string \<Rightarrow> systime \<Rightarrow> gone_rows" where
  "gr_insert lay g key at =
     (let behind = (case gr_cursor g of None \<Rightarrow> False | Some cursor \<Rightarrow> key \<le> cursor);
          previous = gr_get g key
      in g\<lparr>gr_map := om_insert key at (gr_map g),
           gr_image := (if previous = None then tally_add (gr_image g) (tally_tombstone lay (length key))
                        else gr_image g),
           gr_floor := lower_floor (gr_floor g) at,
           gr_lap_floor := (if behind then lower_floor (gr_lap_floor g) at else gr_lap_floor g)\<rparr>)"

definition gr_raise :: "layout \<Rightarrow> gone_rows \<Rightarrow> string \<Rightarrow> systime \<Rightarrow> gone_rows" where
  "gr_raise lay g key at =
     (if (case gr_get g key of None \<Rightarrow> True | Some dead \<Rightarrow> dead < at)
      then gr_insert lay g key at else g)"

definition gr_remove :: "layout \<Rightarrow> gone_rows \<Rightarrow> string \<Rightarrow> gone_rows" where
  "gr_remove lay g key = (case gr_get g key of
       None \<Rightarrow> g
     | Some _ \<Rightarrow> g\<lparr>gr_map := om_remove key (gr_map g),
                  gr_image := tally_sub (gr_image g) (tally_tombstone lay (length key))\<rparr>)"

text \<open>The tombstones one sweep step visits: the first \<^const>\<open>SWEEP_STEP\<close> after the cursor.\<close>

definition gr_visited :: "gone_rows \<Rightarrow> (string, systime) omap" where
  "gr_visited g = take SWEEP_STEP (filter (\<lambda>p.
     above (case gr_cursor g of None \<Rightarrow> Unbounded | Some c \<Rightarrow> Excluded c) (fst p)) (gr_map g))"

definition gr_sweep_expired :: "layout \<Rightarrow> gone_rows \<Rightarrow> systime \<Rightarrow> gone_rows \<times> nat" where
  "gr_sweep_expired lay g cutoff =
     (if (case gr_floor g of None \<Rightarrow> True | Some floor \<Rightarrow> floor \<ge> cutoff) then (g, 0)
      else
        let visited = gr_visited g;
            expired = map fst (filter (\<lambda>p. snd p < cutoff) visited);
            lap = fold (\<lambda>p lf. if snd p < cutoff then lf else lower_floor lf (snd p))
                    visited (gr_lap_floor g);
            g' = (if length visited < SWEEP_STEP
                  then g\<lparr>gr_floor := lap, gr_lap_floor := None, gr_cursor := None\<rparr>
                  else g\<lparr>gr_lap_floor := lap, gr_cursor := Some (fst (last visited))\<rparr>)
        in (fold (\<lambda>key g. gr_remove lay g key) expired g', length expired))"

section \<open>Exact tallies\<close>

definition tally_sum :: "('k::linorder \<Rightarrow> 'v \<Rightarrow> image_tally) \<Rightarrow> ('k, 'v) omap \<Rightarrow> image_tally" where
  "tally_sum f m = \<lparr>t_encoded = om_sum (\<lambda>k v. t_encoded (f k v)) m,
                    t_decoded = om_sum (\<lambda>k v. t_decoded (f k v)) m\<rparr>"

definition kr_ok :: "layout \<Rightarrow> key_rows \<Rightarrow> bool" where
  "kr_ok lay r \<longleftrightarrow> om_ok (kr_map r)
     \<and> kr_image r = tally_sum (\<lambda>k e. tally_entry lay (length k) e) (kr_map r)"

definition gr_tally_ok :: "layout \<Rightarrow> gone_rows \<Rightarrow> bool" where
  "gr_tally_ok lay g \<longleftrightarrow> om_ok (gr_map g)
     \<and> gr_image g = tally_sum (\<lambda>k _. tally_tombstone lay (length k)) (gr_map g)"

locale tallied_rows =
  fixes row_map :: "'r \<Rightarrow> ('k::linorder, 'v) omap"
    and image :: "'r \<Rightarrow> image_tally"
    and put :: "'r \<Rightarrow> 'k \<Rightarrow> 'v \<Rightarrow> 'r"
    and del :: "'r \<Rightarrow> 'k \<Rightarrow> 'r"
    and weight :: "'k \<Rightarrow> 'v \<Rightarrow> image_tally"
    and ok :: "'r \<Rightarrow> bool"
  assumes ok_put: "ok r \<Longrightarrow> ok (put r k v)"
    and ok_del: "ok r \<Longrightarrow> ok (del r k)"
    and map_put: "ok r \<Longrightarrow> row_map (put r k v) = om_insert k v (row_map r)"
    and map_del: "ok r \<Longrightarrow> row_map (del r k) = om_remove k (row_map r)"
    and sorted: "ok r \<Longrightarrow> om_ok (row_map r)"
    and exact: "ok r \<Longrightarrow> image r = tally_sum weight (row_map r)"
begin

text \<open>The tally is a function of the rows held, whatever sequence of writes produced them.\<close>

lemma image_determined:
  assumes "ok r" "ok r'" "map_of (row_map r) = map_of (row_map r')"
  shows "image r = image r'"
  using assms exact sorted om_ext by metis

text \<open>A row counted in and later out cancels exactly, even when the sums have wrapped.\<close>

lemma put_del_cancels:
  assumes "ok r" "map_of (row_map r) k = None"
  shows "image (del (put r k v) k) = image r"
proof (rule image_determined)
  show "map_of (row_map (del (put r k v) k)) = map_of (row_map r)"
    using assms by (simp add: map_del map_put ok_put fun_upd_idem)
qed (use assms in \<open>simp_all add: ok_put ok_del\<close>)

lemma put_put_replaces: "ok r \<Longrightarrow> image (put (put r k v) k v') = image (put r k v')"
  by (rule image_determined) (simp_all add: ok_put map_put)

end

lemma tally_sum_insert:
  assumes "om_ok m"
  shows "tally_sum f (om_insert k v m) =
    (case map_of m k of
       None \<Rightarrow> tally_add (tally_sum f m) (f k v)
     | Some v' \<Rightarrow> tally_sub (tally_add (tally_sum f m) (f k v)) (f k v'))"
  using assms by (simp add: tally_sum_def tally_add_def tally_sub_def om_sum_insert split: option.split)

lemma tally_sum_remove:
  assumes "om_ok m"
  shows "tally_sum f (om_remove k m) =
    (case map_of m k of None \<Rightarrow> tally_sum f m | Some v' \<Rightarrow> tally_sub (tally_sum f m) (f k v'))"
  using assms by (simp add: tally_sum_def tally_sub_def om_sum_remove split: option.split)

lemma kr_map_insert [simp]: "kr_map (fst (kr_insert lay r k e)) = om_insert k e (kr_map r)"
  by (simp add: kr_insert_def Let_def)

lemma kr_insert_previous [simp]: "snd (kr_insert lay r k e) = kr_get r k"
  by (simp add: kr_insert_def Let_def)

lemma kr_get_insert [simp]: "kr_get (fst (kr_insert lay r k e)) = (kr_get r)(k \<mapsto> e)"
  by (simp add: kr_get_def fun_eq_iff)

lemma om_remove_absent: "map_of m k = None \<Longrightarrow> om_remove k m = m"
  by (auto simp: om_remove_def map_of_eq_None_iff intro!: filter_True)

lemma kr_map_remove [simp]: "kr_map (fst (kr_remove lay r k)) = om_remove k (kr_map r)"
  by (auto simp: kr_remove_def kr_get_def om_remove_absent split: option.split)

lemma kr_remove_previous [simp]: "snd (kr_remove lay r k) = kr_get r k"
  by (simp add: kr_remove_def split: option.split)

lemma kr_get_remove [simp]: "kr_get (fst (kr_remove lay r k)) = (kr_get r)(k := None)"
  by (simp add: kr_get_def fun_eq_iff)

lemma kr_ok_default [simp, intro]: "kr_ok lay key_rows_default"
  by (simp add: kr_ok_def key_rows_default_def tally_sum_def image_tally_default_def)

lemma kr_ok_insert [intro, wf_intros]: "kr_ok lay r \<Longrightarrow> kr_ok lay (fst (kr_insert lay r k e))"
  by (auto simp: kr_ok_def kr_insert_def kr_get_def Let_def tally_sum_insert split: option.splits)

lemma kr_ok_remove [intro, wf_intros]: "kr_ok lay r \<Longrightarrow> kr_ok lay (fst (kr_remove lay r k))"
  by (auto simp: kr_ok_def kr_remove_def kr_get_def tally_sum_remove split: option.splits)

lemma tally_sub_add_swap: "tally_sub (tally_add t a) b = tally_add (tally_sub t b) a"
  by (simp add: tally_sub_def tally_add_def)

lemma kr_update_map:
  "kr_map (fst (kr_update lay r k f)) =
    (case kr_get r k of None \<Rightarrow> kr_map r | Some e \<Rightarrow> om_insert k (fst (f e)) (kr_map r))"
  by (auto simp: kr_update_def split: option.split prod.split)

lemma kr_get_update:
  "kr_get (fst (kr_update lay r k f)) = (kr_get r)(k := map_option (fst \<circ> f) (kr_get r k))"
  unfolding kr_get_def kr_update_map by (auto simp: kr_get_def fun_eq_iff split: option.split)

lemma kr_update_result: "snd (kr_update lay r k f) = map_option (snd \<circ> f) (kr_get r k)"
  by (auto simp: kr_update_def split: option.split prod.split)

lemma kr_ok_update [intro, wf_intros]: "kr_ok lay r \<Longrightarrow> kr_ok lay (fst (kr_update lay r k f))"
  by (auto simp: kr_ok_def kr_update_def kr_get_def tally_sum_insert tally_sub_add_swap
      split: option.splits prod.splits)

interpretation kr: tallied_rows kr_map kr_image "\<lambda>r k e. fst (kr_insert lay r k e)"
  "\<lambda>r k. fst (kr_remove lay r k)" "\<lambda>k e. tally_entry lay (length k) e" "kr_ok lay" for lay
  by unfold_locales (simp_all add: kr_ok_insert kr_ok_remove, simp_all add: kr_ok_def)

lemma gr_map_insert [simp]: "gr_map (gr_insert lay g k t) = om_insert k t (gr_map g)"
  by (simp add: gr_insert_def Let_def)

lemma gr_map_remove [simp]: "gr_map (gr_remove lay g k) = om_remove k (gr_map g)"
  by (auto simp: gr_remove_def gr_get_def om_remove_absent split: option.split)

lemma gr_get_insert [simp]: "gr_get (gr_insert lay g k t) = (gr_get g)(k \<mapsto> t)"
  by (simp add: gr_get_def fun_eq_iff)

lemma gr_get_remove [simp]: "gr_get (gr_remove lay g k) = (gr_get g)(k := None)"
  by (simp add: gr_get_def fun_eq_iff)

lemma gr_get_raise:
  "gr_get (gr_raise lay g k t) =
     (gr_get g)(k \<mapsto> (case gr_get g k of None \<Rightarrow> t | Some dead \<Rightarrow> max dead t))"
  by (auto simp: gr_raise_def fun_eq_iff split: option.splits)

lemma gr_tally_ok_insert [intro, wf_intros]: "gr_tally_ok lay g \<Longrightarrow> gr_tally_ok lay (gr_insert lay g k t)"
  by (auto simp: gr_tally_ok_def gr_insert_def gr_get_def Let_def tally_sum_insert
      tally_sub_def tally_add_def split: option.splits)

lemma gr_tally_ok_remove [intro, wf_intros]: "gr_tally_ok lay g \<Longrightarrow> gr_tally_ok lay (gr_remove lay g k)"
  by (auto simp: gr_tally_ok_def gr_remove_def gr_get_def tally_sum_remove split: option.splits)

interpretation gr: tallied_rows gr_map gr_image "gr_insert lay" "gr_remove lay"
  "\<lambda>k t. tally_tombstone lay (length k)" "gr_tally_ok lay" for lay
  by unfold_locales (simp_all add: gr_tally_ok_insert gr_tally_ok_remove, simp_all add: gr_tally_ok_def)

section \<open>The sweep\<close>

text \<open>\<open>floor_below f t\<close>: the optional floor is present and not above \<open>t\<close>.\<close>

definition floor_below :: "systime option \<Rightarrow> systime \<Rightarrow> bool" where
  "floor_below floor t \<longleftrightarrow> (case floor of None \<Rightarrow> False | Some f \<Rightarrow> f \<le> t)"

definition behind_cursor :: "gone_rows \<Rightarrow> string \<Rightarrow> bool" where
  "behind_cursor g k \<longleftrightarrow> (case gr_cursor g of None \<Rightarrow> False | Some c \<Rightarrow> k \<le> c)"

text \<open>Well-formed tombstones: the tally is exact, \<open>floor\<close> bounds every deletion time, and
  \<open>lap_floor\<close> bounds those the current lap will not visit any more.\<close>

definition gr_ok :: "layout \<Rightarrow> gone_rows \<Rightarrow> bool" where
  "gr_ok lay g \<longleftrightarrow> gr_tally_ok lay g
     \<and> (\<forall>(k, t) \<in> set (gr_map g). floor_below (gr_floor g) t)
     \<and> (\<forall>(k, t) \<in> set (gr_map g). behind_cursor g k \<longrightarrow> floor_below (gr_lap_floor g) t)"

lemma floor_below_lower [simp]: "floor_below (lower_floor f a) t \<longleftrightarrow> a \<le> t \<or> floor_below f t"
  by (auto simp: floor_below_def lower_floor_def split: option.split)

lemma gr_ok_default [simp, intro]: "gr_ok lay gone_rows_default"
  by (simp add: gr_ok_def gr_tally_ok_def gone_rows_default_def tally_sum_def image_tally_default_def)

lemma gr_ok_insert [intro, wf_intros]:
  assumes "gr_ok lay g"
  shows "gr_ok lay (gr_insert lay g k t)"
proof -
  have "gr_floor (gr_insert lay g k t) = lower_floor (gr_floor g) t"
    "gr_lap_floor (gr_insert lay g k t) =
       (if behind_cursor g k then lower_floor (gr_lap_floor g) t else gr_lap_floor g)"
    "\<And>x. behind_cursor (gr_insert lay g k t) x = behind_cursor g x"
    by (auto simp: gr_insert_def Let_def behind_cursor_def)
  then show ?thesis
    using assms by (fastforce simp: gr_ok_def dest: om_set_insertD)
qed

lemma gr_ok_raise [intro, wf_intros]: "gr_ok lay g \<Longrightarrow> gr_ok lay (gr_raise lay g k t)"
  by (simp add: gr_raise_def gr_ok_insert split: option.split)

lemma gr_remove_same [simp]:
  "gr_cursor (gr_remove lay g k) = gr_cursor g"
  "gr_floor (gr_remove lay g k) = gr_floor g"
  "gr_lap_floor (gr_remove lay g k) = gr_lap_floor g"
  "behind_cursor (gr_remove lay g k) = behind_cursor g"
  by (simp_all add: gr_remove_def behind_cursor_def fun_eq_iff split: option.split)

lemma gr_ok_remove [intro, wf_intros]: "gr_ok lay g \<Longrightarrow> gr_ok lay (gr_remove lay g k)"
  by (auto simp: gr_ok_def om_remove_def)

abbreviation gr_remove_all :: "layout \<Rightarrow> string list \<Rightarrow> gone_rows \<Rightarrow> gone_rows" where
  "gr_remove_all lay \<equiv> fold (\<lambda>key g. gr_remove lay g key)"

lemma gr_remove_all_map:
  "gr_map (gr_remove_all lay ks g) = filter (\<lambda>p. fst p \<notin> set ks) (gr_map g)"
  by (induction ks arbitrary: g) (auto simp: om_remove_def intro: filter_cong)

lemma gr_remove_all_same [simp]:
  "gr_cursor (gr_remove_all lay ks g) = gr_cursor g"
  "gr_floor (gr_remove_all lay ks g) = gr_floor g"
  "gr_lap_floor (gr_remove_all lay ks g) = gr_lap_floor g"
  by (induction ks arbitrary: g) simp_all

lemma gr_remove_all_tally: "gr_tally_ok lay g \<Longrightarrow> gr_tally_ok lay (gr_remove_all lay ks g)"
  by (induction ks arbitrary: g) auto

lemma om_ok_filter: "om_ok m \<Longrightarrow> om_ok (filter P m)"
  unfolding om_ok_def by (induction m) auto

lemma om_lookup_filter: "map_of (filter (\<lambda>p. P (fst p)) m) k = (if P k then map_of m k else None)"
  by (induction m) auto

lemma om_ok_take: "om_ok m \<Longrightarrow> om_ok (take n m)"
  unfolding om_ok_def by (simp add: take_map [symmetric] sorted_wrt_take)

lemma om_last_max: "om_ok m \<Longrightarrow> p \<in> set m \<Longrightarrow> fst p \<le> fst (last m)"
  by (induction m) (auto simp: om_ok_Cons intro: less_imp_le)

lemma om_mem_take:
  assumes "om_ok m" "p \<in> set m" "take n m \<noteq> []" "fst p \<le> fst (last (take n m))"
  shows "p \<in> set (take n m)"
proof (rule ccontr)
  assume "p \<notin> set (take n m)"
  then have "p \<in> set (drop n m)"
    using assms(2) by (metis Un_iff append_take_drop_id set_append)
  moreover have "sorted_wrt (<) (map fst (take n m) @ map fst (drop n m))"
    using assms(1) by (simp add: om_ok_def flip: map_append)
  ultimately have "fst (last (take n m)) < fst p"
    using assms(3) by (fastforce simp: sorted_wrt_append)
  then show False
    using assms(4) by simp
qed

definition unvisited :: "gone_rows \<Rightarrow> (string, systime) omap" where
  "unvisited g = filter (\<lambda>p. \<not> behind_cursor g (fst p)) (gr_map g)"

lemma gr_visited_eq: "gr_visited g = take SWEEP_STEP (unvisited g)"
  by (auto simp: gr_visited_def unvisited_def behind_cursor_def not_le
      intro!: arg_cong [of _ _ "take SWEEP_STEP"] filter_cong split: option.split)

lemma lap_fold:
  "floor_below (fold (\<lambda>p lf. if snd p < cutoff then lf else lower_floor lf (snd p)) ps lf) t
     \<longleftrightarrow> floor_below lf t \<or> (\<exists>p \<in> set ps. cutoff \<le> snd p \<and> snd p \<le> t)"
  by (induction ps arbitrary: lf) auto

text \<open>What a sweep does, in the two ways it can go: it stands still, or it forgets exactly
  the expired ones among the tombstones it visits.\<close>

lemma gr_sweep_idle:
  "\<not> (\<exists>f. gr_floor g = Some f \<and> f < cutoff) \<Longrightarrow> gr_sweep_expired lay g cutoff = (g, 0)"
  by (auto simp: gr_sweep_expired_def split: option.splits)

definition gr_expired :: "gone_rows \<Rightarrow> systime \<Rightarrow> string list" where
  "gr_expired g cutoff = map fst (filter (\<lambda>p. snd p < cutoff) (gr_visited g))"

lemma gr_sweep_active:
  assumes "gr_floor g = Some f" "f < cutoff"
  shows "gr_map (fst (gr_sweep_expired lay g cutoff)) =
           filter (\<lambda>p. fst p \<notin> set (gr_expired g cutoff)) (gr_map g)"
    and "snd (gr_sweep_expired lay g cutoff) = length (gr_expired g cutoff)"
    and "gr_cursor (fst (gr_sweep_expired lay g cutoff)) =
           (if length (gr_visited g) < SWEEP_STEP then None else Some (fst (last (gr_visited g))))"
    and "gr_tally_ok lay g \<Longrightarrow> gr_tally_ok lay (fst (gr_sweep_expired lay g cutoff))"
  using assms
  by (auto simp: gr_sweep_expired_def Let_def gr_remove_all_map gr_expired_def
      intro!: gr_remove_all_tally) (auto simp: gr_tally_ok_def)

lemma gr_sweep_floors:
  assumes "gr_floor g = Some f" "f < cutoff"
  shows "length (gr_visited g) < SWEEP_STEP \<Longrightarrow>
      floor_below (gr_floor (fst (gr_sweep_expired lay g cutoff))) t \<longleftrightarrow>
        floor_below (gr_lap_floor g) t \<or> (\<exists>p \<in> set (gr_visited g). cutoff \<le> snd p \<and> snd p \<le> t)"
    and "\<not> length (gr_visited g) < SWEEP_STEP \<Longrightarrow> gr_floor (fst (gr_sweep_expired lay g cutoff)) = gr_floor g"
    and "\<not> length (gr_visited g) < SWEEP_STEP \<Longrightarrow>
      floor_below (gr_lap_floor (fst (gr_sweep_expired lay g cutoff))) t \<longleftrightarrow>
        floor_below (gr_lap_floor g) t \<or> (\<exists>p \<in> set (gr_visited g). cutoff \<le> snd p \<and> snd p \<le> t)"
  using assms by (simp_all add: gr_sweep_expired_def Let_def lap_fold)

lemma gr_expired_iff:
  assumes "om_ok (gr_map g)" "(k, t) \<in> set (gr_map g)"
  shows "k \<in> set (gr_expired g cutoff) \<longleftrightarrow> (k, t) \<in> set (gr_visited g) \<and> t < cutoff"
proof -
  have "set (gr_visited g) \<subseteq> set (gr_map g)"
    by (auto simp: gr_visited_eq unvisited_def dest: in_set_takeD)
  then have unique: "(k, t') \<in> set (gr_visited g) \<Longrightarrow> t' = t" for t'
    using assms(2) om_mem_iff [OF assms(1), of k] by auto
  have "k \<in> set (gr_expired g cutoff) \<longleftrightarrow> (\<exists>t'. (k, t') \<in> set (gr_visited g) \<and> t' < cutoff)"
    by (force simp: gr_expired_def)
  then show ?thesis
    using unique by blast
qed

text \<open>A sweep only ever forgets expired tombstones, and at most \<^const>\<open>SWEEP_STEP\<close> of them.\<close>

lemma gr_sweep_get:
  assumes "om_ok (gr_map g)"
  shows "gr_get (fst (gr_sweep_expired lay g cutoff)) k = gr_get g k
     \<or> gr_get (fst (gr_sweep_expired lay g cutoff)) k = None \<and> (\<exists>t. gr_get g k = Some t \<and> t < cutoff)"
proof (cases "\<exists>f. gr_floor g = Some f \<and> f < cutoff")
  case True
  then obtain f where f: "gr_floor g = Some f" "f < cutoff"
    by blast
  have expired: "map_of (gr_map g) k = Some t \<Longrightarrow> k \<in> set (gr_expired g cutoff) \<Longrightarrow> t < cutoff" for t
    using assms gr_expired_iff [of g k t cutoff] om_mem_iff [of "gr_map g" k t] by simp
  show ?thesis
    unfolding gr_get_def gr_sweep_active(1) [OF f] om_lookup_filter [of "\<lambda>k. k \<notin> set (gr_expired g cutoff)"]
    using expired by (cases "map_of (gr_map g) k") auto
qed (simp add: gr_sweep_idle)

lemma gr_sweep_bounded: "snd (gr_sweep_expired lay g cutoff) \<le> SWEEP_STEP"
  by (auto simp: gr_sweep_expired_def Let_def gr_visited_eq
      intro: le_trans [OF length_filter_le])

lemma gr_ok_sweep [intro, wf_intros]:
  assumes "gr_ok lay g"
  shows "gr_ok lay (fst (gr_sweep_expired lay g cutoff))"
proof (cases "\<exists>f. gr_floor g = Some f \<and> f < cutoff")
  case True
  then obtain f where f: "gr_floor g = Some f" "f < cutoff"
    by blast
  let ?g = "fst (gr_sweep_expired lay g cutoff)"
  have sorted: "om_ok (gr_map g)"
    using assms by (simp add: gr_ok_def gr_tally_ok_def)
  have old: "(k, t) \<in> set (gr_map g) \<Longrightarrow> floor_below (gr_floor g) t"
    "(k, t) \<in> set (gr_map g) \<Longrightarrow> behind_cursor g k \<Longrightarrow> floor_below (gr_lap_floor g) t" for k t
    using assms by (auto simp: gr_ok_def)
  have kept: "(k, t) \<in> set (gr_map g) \<and> ((k, t) \<in> set (gr_visited g) \<longrightarrow> cutoff \<le> t)"
    if "(k, t) \<in> set (gr_map ?g)" for k t
    using that gr_expired_iff [OF sorted] by (fastforce simp: gr_sweep_active [OF f])
  show ?thesis
  proof (cases "length (gr_visited g) < SWEEP_STEP")
    case wrap: True
    then have "gr_visited g = unvisited g"
      by (simp add: gr_visited_eq)
    then have "floor_below (gr_floor ?g) t" if "(k, t) \<in> set (gr_map ?g)" for k t
      using kept [OF that] old(2) gr_sweep_floors(1) [OF f wrap] by (force simp: unvisited_def)
    then show ?thesis
      using assms gr_sweep_active [OF f, of lay] wrap
      by (auto simp: gr_ok_def behind_cursor_def)
  next
    case step: False
    have cursor: "gr_cursor ?g = Some (fst (last (gr_visited g)))"
      using step gr_sweep_active(3) [OF f] by simp
    have "floor_below (gr_lap_floor ?g) t"
      if "(k, t) \<in> set (gr_map ?g)" "behind_cursor ?g k" for k t
    proof (cases "behind_cursor g k")
      case False
      have "(k, t) \<in> set (gr_visited g)"
        unfolding gr_visited_eq
      proof (rule om_mem_take)
        show "om_ok (unvisited g)"
          using sorted by (simp add: unvisited_def om_ok_filter)
        show "(k, t) \<in> set (unvisited g)"
          using kept [OF that(1)] False by (simp add: unvisited_def)
        show "take SWEEP_STEP (unvisited g) \<noteq> []"
          using step by (auto simp: gr_visited_eq SWEEP_STEP_def)
        show "fst (k, t) \<le> fst (last (take SWEEP_STEP (unvisited g)))"
          using that(2) cursor by (simp add: behind_cursor_def gr_visited_eq)
      qed
      then show ?thesis
        using kept [OF that(1)] gr_sweep_floors(3) [OF f step] by force
    qed (use kept [OF that(1)] old(2) gr_sweep_floors(3) [OF f step] in blast)
    moreover have "floor_below (gr_floor ?g) t" if "(k, t) \<in> set (gr_map ?g)" for k t
      using kept [OF that] old(1) [of k t] gr_sweep_floors(2) [OF f step, of lay] by simp
    ultimately show ?thesis
      using assms gr_sweep_active(4) [OF f] unfolding gr_ok_def by blast
  qed
qed (use assms in \<open>simp add: gr_sweep_idle\<close>)

subsection \<open>Every lap makes progress\<close>

definition none_expired :: "gone_rows \<Rightarrow> systime \<Rightarrow> bool" where
  "none_expired g cutoff \<longleftrightarrow> (\<forall>(k, t) \<in> set (gr_map g). cutoff \<le> t)"

definition clean_behind :: "gone_rows \<Rightarrow> systime \<Rightarrow> bool" where
  "clean_behind g cutoff \<longleftrightarrow> (\<forall>(k, t) \<in> set (gr_map g). behind_cursor g k \<longrightarrow> cutoff \<le> t)"

abbreviation gr_sweep :: "layout \<Rightarrow> systime \<Rightarrow> gone_rows \<Rightarrow> gone_rows" where
  "gr_sweep lay cutoff g \<equiv> fst (gr_sweep_expired lay g cutoff)"

lemma gr_sweep_subset: "set (gr_map (gr_sweep lay cutoff g)) \<subseteq> set (gr_map g)"
  "length (gr_map (gr_sweep lay cutoff g)) \<le> length (gr_map g)"
proof -
  have "\<exists>P. gr_map (gr_sweep lay cutoff g) = filter P (gr_map g)"
  proof (cases "\<exists>f. gr_floor g = Some f \<and> f < cutoff")
    case False
    then have "gr_map (gr_sweep lay cutoff g) = filter (\<lambda>_. True) (gr_map g)"
      by (simp add: gr_sweep_idle)
    then show ?thesis
      by blast
  qed (use gr_sweep_active(1) in blast)
  then show "set (gr_map (gr_sweep lay cutoff g)) \<subseteq> set (gr_map g)"
    "length (gr_map (gr_sweep lay cutoff g)) \<le> length (gr_map g)"
    by (elim exE, simp)+
qed

lemma none_expired_sweep: "none_expired g cutoff \<Longrightarrow> none_expired (gr_sweep lay cutoff g) cutoff"
  using gr_sweep_subset unfolding none_expired_def by blast

lemma none_expired_funpow: "none_expired g cutoff \<Longrightarrow> none_expired ((gr_sweep lay cutoff ^^ n) g) cutoff"
  by (induction n) (simp_all add: none_expired_sweep)

lemma gr_ok_funpow: "gr_ok lay g \<Longrightarrow> gr_ok lay ((gr_sweep lay cutoff ^^ n) g)"
  by (induction n) auto

lemma expired_active:
  "gr_ok lay g \<Longrightarrow> \<not> none_expired g cutoff \<Longrightarrow> \<exists>f. gr_floor g = Some f \<and> f < cutoff"
  by (fastforce simp: gr_ok_def none_expired_def floor_below_def split: option.splits)

lemma sweep_wrap:
  assumes "gr_ok lay g" "gr_floor g = Some f" "f < cutoff" "length (gr_visited g) < SWEEP_STEP"
  shows "gr_cursor (gr_sweep lay cutoff g) = None"
    and "clean_behind g cutoff \<Longrightarrow> none_expired (gr_sweep lay cutoff g) cutoff"
proof -
  show "gr_cursor (gr_sweep lay cutoff g) = None"
    using gr_sweep_active(3) [OF assms(2,3)] assms(4) by simp
  have sorted: "om_ok (gr_map g)"
    using assms(1) by (simp add: gr_ok_def gr_tally_ok_def)
  have "gr_visited g = unvisited g"
    using assms(4) by (simp add: gr_visited_eq)
  then show "none_expired (gr_sweep lay cutoff g) cutoff" if "clean_behind g cutoff"
    using that gr_expired_iff [OF sorted, of _ _ cutoff]
    unfolding none_expired_def gr_sweep_active(1) [OF assms(2,3)]
    by (fastforce simp: clean_behind_def unvisited_def)
qed

lemma sweep_step:
  assumes "gr_ok lay g" "gr_floor g = Some f" "f < cutoff" "\<not> length (gr_visited g) < SWEEP_STEP"
  shows "length (unvisited (gr_sweep lay cutoff g)) + SWEEP_STEP \<le> length (unvisited g)"
    and "clean_behind g cutoff \<Longrightarrow> clean_behind (gr_sweep lay cutoff g) cutoff"
proof -
  let ?g = "gr_sweep lay cutoff g"
  have sorted: "om_ok (gr_map g)"
    using assms(1) by (simp add: gr_ok_def gr_tally_ok_def)
  then have uns: "om_ok (unvisited g)"
    by (simp add: unvisited_def om_ok_filter)
  have nonempty: "take SWEEP_STEP (unvisited g) \<noteq> []"
    using assms(4) by (auto simp: gr_visited_eq SWEEP_STEP_def)
  have cursor: "gr_cursor ?g = Some (fst (last (take SWEEP_STEP (unvisited g))))"
    using gr_sweep_active(3) [OF assms(2,3)] assms(4) by (simp add: gr_visited_eq)
  have lastin: "last (take SWEEP_STEP (unvisited g)) \<in> set (unvisited g)"
    using nonempty by (meson in_set_takeD last_in_set)
  have ahead: "\<not> behind_cursor g k"
    if "(k, t) \<in> set (gr_map g)" "\<not> behind_cursor ?g k" for k t
    using that lastin cursor by (auto simp: behind_cursor_def unvisited_def split: option.splits)
  have sub: "set (unvisited ?g) \<subseteq> set (drop SWEEP_STEP (unvisited g))"
  proof
    fix p
    assume p: "p \<in> set (unvisited ?g)"
    then have "p \<in> set (unvisited g)"
      using gr_sweep_subset(1) ahead [of "fst p" "snd p"] by (auto simp: unvisited_def)
    moreover have "p \<notin> set (take SWEEP_STEP (unvisited g))"
    proof
      assume "p \<in> set (take SWEEP_STEP (unvisited g))"
      then have "fst p \<le> fst (last (take SWEEP_STEP (unvisited g)))"
        using om_ok_take [OF uns] by (rule om_last_max [rotated])
      then show False
        using p cursor by (simp add: unvisited_def behind_cursor_def)
    qed
    ultimately show "p \<in> set (drop SWEEP_STEP (unvisited g))"
      by (metis Un_iff append_take_drop_id set_append)
  qed
  have "distinct (unvisited ?g)"
    using gr_ok_sweep [OF assms(1), of cutoff]
    by (auto simp: gr_ok_def gr_tally_ok_def unvisited_def distinct_map dest!: om_ok_distinct)
  then have "length (unvisited ?g) \<le> length (drop SWEEP_STEP (unvisited g))"
    using card_mono [OF _ sub] card_length le_trans by (fastforce simp: distinct_card)
  then show "length (unvisited ?g) + SWEEP_STEP \<le> length (unvisited g)"
    using assms(4) by (simp add: gr_visited_eq)
  show "clean_behind ?g cutoff" if "clean_behind g cutoff"
    unfolding clean_behind_def
  proof clarify
    fix k t
    assume kt: "(k, t) \<in> set (gr_map ?g)" "behind_cursor ?g k"
    show "cutoff \<le> t"
    proof (cases "behind_cursor g k")
      case False
      then have "(k, t) \<in> set (unvisited g)"
        using kt gr_sweep_subset(1) by (auto simp: unvisited_def)
      then have "(k, t) \<in> set (gr_visited g)"
        unfolding gr_visited_eq using kt(2) cursor
        by (intro om_mem_take uns nonempty) (simp_all add: behind_cursor_def)
      then show ?thesis
        using kt gr_expired_iff [OF sorted, of k t cutoff] gr_sweep_subset(1)
        by (auto simp: gr_sweep_active(1) [OF assms(2,3)])
    qed (use that kt gr_sweep_subset(1) in \<open>unfold clean_behind_def, blast\<close>)
  qed
qed

lemma sweep_clean_lap:
  assumes "gr_ok lay g" "clean_behind g cutoff" "length (unvisited g) < SWEEP_STEP * n"
  shows "none_expired ((gr_sweep lay cutoff ^^ n) g) cutoff"
  using assms
proof (induction n arbitrary: g)
  case (Suc n)
  show ?case
  proof (cases "none_expired g cutoff")
    case False
    then obtain f where f: "gr_floor g = Some f" "f < cutoff"
      using Suc.prems(1) expired_active by blast
    show ?thesis
    proof (cases "length (gr_visited g) < SWEEP_STEP")
      case True
      then have "none_expired (gr_sweep lay cutoff g) cutoff"
        using sweep_wrap(2) [OF Suc.prems(1) f] Suc.prems(2) by blast
      then show ?thesis
        unfolding funpow_Suc_right comp_apply by (rule none_expired_funpow)
    next
      case step: False
      then have "length (unvisited (gr_sweep lay cutoff g)) < SWEEP_STEP * n"
        using sweep_step(1) [OF Suc.prems(1) f] Suc.prems(3) by fastforce
      then show ?thesis
        unfolding funpow_Suc_right comp_apply
        using Suc.IH [of "gr_sweep lay cutoff g"] sweep_step(2) [OF Suc.prems(1) f step] Suc.prems
        by blast
    qed
  qed (rule none_expired_funpow)
qed simp

lemma sweep_reaches_wrap:
  assumes "gr_ok lay g" "length (unvisited g) < SWEEP_STEP * n"
  shows "\<exists>m \<le> n. none_expired ((gr_sweep lay cutoff ^^ m) g) cutoff
     \<or> gr_cursor ((gr_sweep lay cutoff ^^ m) g) = None"
  using assms
proof (induction n arbitrary: g)
  case (Suc n)
  show ?case
  proof (cases "none_expired g cutoff")
    case True
    then show ?thesis
      by (intro exI [of _ 0]) simp
  next
    case False
    then obtain f where f: "gr_floor g = Some f" "f < cutoff"
      using Suc.prems(1) expired_active by blast
    show ?thesis
    proof (cases "length (gr_visited g) < SWEEP_STEP")
      case True
      then show ?thesis
        using sweep_wrap(1) [OF Suc.prems(1) f] by (intro exI [of _ 1]) simp
    next
      case step: False
      then have "length (unvisited (gr_sweep lay cutoff g)) < SWEEP_STEP * n"
        using sweep_step(1) [OF Suc.prems(1) f] Suc.prems(2) by fastforce
      then obtain m where "m \<le> n" "none_expired ((gr_sweep lay cutoff ^^ m) (gr_sweep lay cutoff g)) cutoff
          \<or> gr_cursor ((gr_sweep lay cutoff ^^ m) (gr_sweep lay cutoff g)) = None"
        using Suc.IH Suc.prems(1) by blast
      then show ?thesis
        by (intro exI [of _ "Suc m"]) (simp add: funpow_Suc_right del: funpow.simps)
    qed
  qed
qed simp

lemma gr_map_funpow_length: "length (gr_map ((gr_sweep lay cutoff ^^ n) g)) \<le> length (gr_map g)"
  by (induction n) (simp_all add: order_trans [OF gr_sweep_subset(2)])

text \<open>Two laps' worth of steps with one cutoff forget every tombstone older than it, whatever
  the cursor and the floors were.\<close>

lemma sweep_two_laps:
  assumes ok: "gr_ok lay g"
    and n: "n \<ge> 2 * (gr_len g div SWEEP_STEP + 1)"
  shows "none_expired ((gr_sweep lay cutoff ^^ n) g) cutoff"
proof -
  let ?q = "gr_len g div SWEEP_STEP + 1"
  have big: "l \<le> gr_len g \<Longrightarrow> l < SWEEP_STEP * ?q" for l
    using div_mult_mod_eq [of "gr_len g" SWEEP_STEP] mod_less_divisor [of SWEEP_STEP "gr_len g"]
    by (simp add: SWEEP_STEP_def)
  have "length (unvisited g) < SWEEP_STEP * ?q"
    by (rule big) (simp add: unvisited_def gr_len_def)
  then obtain m where m: "m \<le> ?q" "none_expired ((gr_sweep lay cutoff ^^ m) g) cutoff
      \<or> gr_cursor ((gr_sweep lay cutoff ^^ m) g) = None"
    using sweep_reaches_wrap [OF ok] by blast
  let ?h = "(gr_sweep lay cutoff ^^ m) g"
  have split: "(gr_sweep lay cutoff ^^ n) g = (gr_sweep lay cutoff ^^ (n - m - ?q)) ((gr_sweep lay cutoff ^^ ?q) ?h)"
  proof -
    have "n = (n - m - ?q) + (?q + m)"
      using n m(1) by simp
    then show ?thesis
      by (metis comp_apply funpow_add)
  qed
  have "none_expired ((gr_sweep lay cutoff ^^ ?q) ?h) cutoff"
    using m(2)
  proof
    assume none: "gr_cursor ?h = None"
    then have "clean_behind ?h cutoff"
      by (simp add: clean_behind_def behind_cursor_def)
    moreover have "length (unvisited ?h) < SWEEP_STEP * ?q"
      by (rule big) (use gr_map_funpow_length in \<open>auto simp: unvisited_def gr_len_def
          intro: le_trans [OF length_filter_le]\<close>)
    ultimately show ?thesis
      using sweep_clean_lap gr_ok_funpow [OF ok] by blast
  qed (rule none_expired_funpow)
  then show ?thesis
    unfolding split by (rule none_expired_funpow)
qed

end
