(* ===== verification/Delta.thy ===== *)
theory Delta
  imports Rows
begin

text \<open>
  The donor journal's effects (\<^verbatim>\<open>src/src/index/fleet/delta.rs\<close>) and the capture that
  appends them (\<^verbatim>\<open>IndexCapture\<close> in \<^verbatim>\<open>src/src/index/fleet.rs\<close>). The journal itself is
  \<^verbatim>\<open>groupnet\<close>'s: an ingress is its identity and the sequence of calls the index issued
  to it, each with the time-independent arguments of the call.
\<close>

datatype index_delta =
    DPut string string obj_entry
  | DDelete string string systime
  | DNoop

definition DELTA_VERSION :: nat where
  "DELTA_VERSION = 1"

definition PUT :: nat where
  "PUT = 1"

definition DELETE :: nat where
  "DELETE = 2"

definition NOOP :: nat where
  "NOOP = 3"

lemmas delta_tags = DELTA_VERSION_def PUT_def DELETE_def NOOP_def

definition encode_put :: "string \<Rightarrow> string \<Rightarrow> obj_entry \<Rightarrow> nat \<Rightarrow> nat \<Rightarrow> bytes ires" where
  "encode_put bucket key e max_event_bytes name_bytes =
     bindE (writer_new max_event_bytes) (\<lambda>w.
     bindE (w_u8 w DELTA_VERSION) (\<lambda>w.
     bindE (w_u8 w PUT) (\<lambda>w.
     bindE (w_text w bucket name_bytes) (\<lambda>w.
     bindE (write_entry w key e name_bytes) (\<lambda>w. Inr (w_bytes w))))))"

definition encode_delete :: "string \<Rightarrow> string \<Rightarrow> systime \<Rightarrow> nat \<Rightarrow> nat \<Rightarrow> bytes ires" where
  "encode_delete bucket key deleted_at max_event_bytes name_bytes =
     bindE (writer_new max_event_bytes) (\<lambda>w.
     bindE (w_u8 w DELTA_VERSION) (\<lambda>w.
     bindE (w_u8 w DELETE) (\<lambda>w.
     bindE (w_text w bucket name_bytes) (\<lambda>w.
     bindE (w_text w key name_bytes) (\<lambda>w.
     bindE (timestamp w deleted_at) (\<lambda>w. Inr (w_bytes w)))))))"

definition encode_delta :: "index_delta \<Rightarrow> nat \<Rightarrow> nat \<Rightarrow> bytes ires" where
  "encode_delta delta max_event_bytes name_bytes =
     (if name_bytes = 0 \<or> max_event_bytes = 0 then Inl Capacity
      else (case delta of
          DPut bucket key e \<Rightarrow> encode_put bucket key e max_event_bytes name_bytes
        | DDelete bucket key deleted_at \<Rightarrow> encode_delete bucket key deleted_at max_event_bytes name_bytes
        | DNoop \<Rightarrow> bindE (writer_new max_event_bytes) (\<lambda>w.
            bindE (w_u8 w DELTA_VERSION) (\<lambda>w.
            bindE (w_u8 w NOOP) (\<lambda>w. Inr (w_bytes w))))))"

definition decode_delta ::
  "layout \<Rightarrow> (string \<Rightarrow> etag option) \<Rightarrow> bytes \<Rightarrow> nat \<Rightarrow> nat \<Rightarrow> nat \<Rightarrow> index_delta ires" where
  "decode_delta lay pe bs max_event_bytes name_bytes max_decoded_bytes =
     (if bs = [] \<or> length bs > max_event_bytes \<or> name_bytes = 0 then Inl Capacity
      else bindE (r_u8 \<lparr>r_bytes = bs, r_offset = 0\<rparr>) (\<lambda>(version, r).
        if version \<noteq> DELTA_VERSION then Inl Schema
        else bindE (budget_new max_decoded_bytes) (\<lambda>budget.
          bindE (r_u8 r) (\<lambda>(tag, r).
          bindE
            (if tag = PUT then
               bindE (r_text r name_bytes) (\<lambda>(bucket, r).
               bindE (budget_take budget (length bucket)) (\<lambda>budget.
               bindE (read_entry lay pe r budget name_bytes) (\<lambda>((key, e), r, _).
                 Inr (DPut bucket key e, r))))
             else if tag = DELETE then
               bindE (r_text r name_bytes) (\<lambda>(bucket, r).
               bindE (budget_take budget (length bucket)) (\<lambda>budget.
               bindE (r_text r name_bytes) (\<lambda>(key, r).
               bindE (budget_take budget (length key)) (\<lambda>budget.
               bindE (read_timestamp r) (\<lambda>(deleted_at, r).
                 Inr (DDelete bucket key deleted_at, r))))))
             else if tag = NOOP then Inr (DNoop, r)
             else Inl Schema) (\<lambda>(delta, r).
          if r_offset r \<noteq> length bs then Inl Corrupt else Inr delta)))))"

section \<open>The capture\<close>

datatype invalidation = InvRebuild | InvGap | InvCapacity | InvMembership | InvDonorLost

record native_cut =
  nc_writer :: bytes
  nc_epoch :: nat
  nc_sequence :: nat

datatype delta_identity = Native native_cut | Local bytes

datatype journal_call =
    Invalidate invalidation
  | Append nat delta_identity bytes
  | Renew nat native_cut nat bytes

record ingress =
  ing_id :: nat
  ing_calls :: "journal_call list"

definition same_candidate :: "ingress \<Rightarrow> ingress \<Rightarrow> bool" where
  "same_candidate a b \<longleftrightarrow> ing_id a = ing_id b"

definition journal_issue :: "ingress \<Rightarrow> journal_call \<Rightarrow> ingress" where
  "journal_issue i c = i\<lparr>ing_calls := ing_calls i @ [c]\<rparr>"

record index_capture =
  ic_ingress :: ingress
  ic_generation :: nat
  ic_next_local :: nat
  ic_max_event_bytes :: nat
  ic_max_name_bytes :: nat

definition capture_new :: "ingress \<Rightarrow> nat \<Rightarrow> nat \<Rightarrow> nat \<Rightarrow> index_capture" where
  "capture_new ingress generation max_event_bytes max_name_bytes =
     \<lparr>ic_ingress = ingress, ic_generation = generation, ic_next_local = 0,
      ic_max_event_bytes = max_event_bytes, ic_max_name_bytes = max_name_bytes\<rparr>"

definition same_ingress :: "index_capture \<Rightarrow> ingress \<Rightarrow> bool" where
  "same_ingress c other = same_candidate (ic_ingress c) other"

definition capture_invalidate :: "index_capture \<Rightarrow> invalidation \<Rightarrow> index_capture" where
  "capture_invalidate c reason = c\<lparr>ic_ingress := journal_issue (ic_ingress c) (Invalidate reason)\<rparr>"

definition append_bytes :: "index_capture \<Rightarrow> delta_identity \<Rightarrow> bytes \<Rightarrow> index_capture" where
  "append_bytes c identity effect =
     c\<lparr>ic_ingress := journal_issue (ic_ingress c) (Append (ic_generation c) identity effect)\<rparr>"

definition append_local :: "index_capture \<Rightarrow> bytes \<Rightarrow> index_capture" where
  "append_local c effect = (case checked_add64 (ic_next_local c) 1 of
       None \<Rightarrow> capture_invalidate c InvCapacity
     | Some next \<Rightarrow> append_bytes (c\<lparr>ic_next_local := next\<rparr>) (Local (le_bytes 8 next)) effect)"

definition append_effect :: "index_capture \<Rightarrow> delta_identity option \<Rightarrow> bytes ires \<Rightarrow> index_capture" where
  "append_effect c identity effect = (case effect of
       Inl _ \<Rightarrow> capture_invalidate c InvCapacity
     | Inr effect \<Rightarrow> (case identity of
         Some identity \<Rightarrow> append_bytes c identity effect
       | None \<Rightarrow> append_local c effect))"

definition record_put ::
  "index_capture \<Rightarrow> delta_identity option \<Rightarrow> string \<Rightarrow> string \<Rightarrow> obj_entry \<Rightarrow> index_capture" where
  "record_put c identity bucket key e =
     (if length bucket > ic_max_name_bytes c \<or> length key > ic_max_name_bytes c
      then capture_invalidate c InvCapacity
      else append_effect c identity
        (encode_put bucket key e (ic_max_event_bytes c) (ic_max_name_bytes c)))"

definition record_delete ::
  "index_capture \<Rightarrow> delta_identity option \<Rightarrow> string \<Rightarrow> string \<Rightarrow> systime \<Rightarrow> index_capture" where
  "record_delete c identity bucket key deleted_at =
     (if length bucket > ic_max_name_bytes c \<or> length key > ic_max_name_bytes c
      then capture_invalidate c InvCapacity
      else append_effect c identity
        (encode_delete bucket key deleted_at (ic_max_event_bytes c) (ic_max_name_bytes c)))"

definition record_native_noop :: "index_capture \<Rightarrow> delta_identity \<Rightarrow> index_capture" where
  "record_native_noop c identity =
     append_effect c (Some identity) (encode_delta DNoop (ic_max_event_bytes c) (ic_max_name_bytes c))"

definition record_renewal :: "index_capture \<Rightarrow> native_cut \<Rightarrow> nat \<Rightarrow> index_capture" where
  "record_renewal c sealed epoch =
     (case encode_delta DNoop (ic_max_event_bytes c) (ic_max_name_bytes c) of
        Inl _ \<Rightarrow> capture_invalidate c InvCapacity
      | Inr effect \<Rightarrow>
          c\<lparr>ic_ingress := journal_issue (ic_ingress c) (Renew (ic_generation c) sealed epoch effect)\<rparr>)"

section \<open>The wire form of an effect\<close>

definition enc_delta :: "index_delta \<Rightarrow> bytes" where
  "enc_delta d = (case d of
       DPut bucket key e \<Rightarrow> enc_u8 DELTA_VERSION @ enc_u8 PUT @ enc_text bucket @ enc_entry key e
     | DDelete bucket key t \<Rightarrow> enc_u8 DELTA_VERSION @ enc_u8 DELETE @ enc_text bucket @ enc_text key @ enc_time t
     | DNoop \<Rightarrow> enc_u8 DELTA_VERSION @ enc_u8 NOOP)"

definition delta_ok :: "nat \<Rightarrow> (string \<Rightarrow> etag option) \<Rightarrow> index_delta \<Rightarrow> bool" where
  "delta_ok cap pe d = (case d of
       DPut bucket key e \<Rightarrow> text_ok cap bucket \<and> entry_ok cap pe key e
     | DDelete bucket key t \<Rightarrow> text_ok cap bucket \<and> text_ok cap key \<and> time_ok t
     | DNoop \<Rightarrow> True)"

definition delta_skeletal :: "index_delta \<Rightarrow> index_delta" where
  "delta_skeletal d = (case d of DPut bucket key e \<Rightarrow> DPut bucket key (skeletal e) | _ \<Rightarrow> d)"

definition delta_charge :: "layout \<Rightarrow> index_delta \<Rightarrow> nat ires" where
  "delta_charge lay d = (case d of
       DPut bucket key e \<Rightarrow>
         bindE (entry_charge lay (length key) (map_option (length \<circ> etag_text) (e_etag e))
           (length (e_storage_class e))) (\<lambda>c. Inr (length bucket + c))
     | DDelete bucket key _ \<Rightarrow> Inr (length bucket + length key)
     | DNoop \<Rightarrow> Inr 0)"

lemma writer_new_Inr: "writer_new n = Inr w \<longleftrightarrow> 0 < n \<and> w = \<lparr>w_bytes = [], w_limit = n\<rparr>"
  by (auto simp: writer_new_def)

lemma encode_put_sound:
  assumes "encode_put bucket key e m cap = Inr bs"
  shows "bs = enc_delta (DPut bucket key e) \<and> length bs \<le> m"
proof -
  obtain w1 w2 w3 w4 where w: "0 < m" "w_u8 \<lparr>w_bytes = [], w_limit = m\<rparr> DELTA_VERSION = Inr w1"
    "w_u8 w1 PUT = Inr w2" "w_text w2 bucket cap = Inr w3" "write_entry w3 key e cap = Inr w4"
    "bs = w_bytes w4"
    using assms unfolding encode_put_def bindE_eq_Inr writer_new_Inr by auto
  show ?thesis
    using u8.wr_sound [OF w(2)] u8.wr_sound [OF w(3)] textf.wr_sound [OF w(4)]
      write_entry_sound [OF w(5)] w(6) by (auto simp: enc_delta_def)
qed

lemma encode_delete_sound:
  assumes "encode_delete bucket key t m cap = Inr bs"
  shows "bs = enc_delta (DDelete bucket key t) \<and> length bs \<le> m"
proof -
  obtain w1 w2 w3 w4 w5 where w: "0 < m" "w_u8 \<lparr>w_bytes = [], w_limit = m\<rparr> DELTA_VERSION = Inr w1"
    "w_u8 w1 DELETE = Inr w2" "w_text w2 bucket cap = Inr w3" "w_text w3 key cap = Inr w4"
    "timestamp w4 t = Inr w5" "bs = w_bytes w5"
    using assms unfolding encode_delete_def bindE_eq_Inr writer_new_Inr by auto
  show ?thesis
    using u8.wr_sound [OF w(2)] u8.wr_sound [OF w(3)] textf.wr_sound [OF w(4)]
      textf.wr_sound [OF w(5)] timef.wr_sound [OF w(6)] w(7) by (auto simp: enc_delta_def)
qed

lemma encode_delta_sound:
  assumes "encode_delta d m cap = Inr bs"
  shows "bs = enc_delta d \<and> length bs \<le> m \<and> 0 < cap"
proof (cases d)
  case DNoop
  obtain w1 w2 where w: "0 < m" "0 < cap" "w_u8 \<lparr>w_bytes = [], w_limit = m\<rparr> DELTA_VERSION = Inr w1"
    "w_u8 w1 NOOP = Inr w2" "bs = w_bytes w2"
    using assms DNoop unfolding encode_delta_def by (auto simp: bindE_eq_Inr writer_new_Inr split: if_splits)
  then show ?thesis
    using u8.wr_sound [OF w(3)] u8.wr_sound [OF w(4)] DNoop by (auto simp: enc_delta_def)
qed (use assms encode_put_sound encode_delete_sound in \<open>auto simp: encode_delta_def split: if_splits\<close>)

lemma reader_at_Nil: "\<lparr>r_bytes = bs, r_offset = 0\<rparr> = reader_at [] bs"
  by (simp add: reader_at_def)

lemma r_offset_end [simp]: "r_offset (reader_at pre []) = length pre"
  by (simp add: reader_at_def)

lemma budget_take_seq:
  assumes "a + b \<le> b_limit bud - b_used bud" "b_used bud \<le> b_limit bud" "b_limit bud \<le> u64_max"
  shows "budget_take bud a = Inr (bud\<lparr>b_used := b_used bud + a\<rparr>)"
    and "budget_take (bud\<lparr>b_used := b_used bud + a\<rparr>) b = Inr (bud\<lparr>b_used := b_used bud + a + b\<rparr>)"
  using assms by (auto simp: budget_take_def checked_add64_def split: option.splits)

lemma budget_new_ok: "0 < n \<Longrightarrow> budget_new n = Inr \<lparr>b_used = 0, b_limit = n\<rparr>"
  by (simp add: budget_new_def)

lemma r_u8_tags:
  assumes "length pre + 1 \<le> u64_max" "v < 256"
  shows "r_u8 (reader_at pre (enc_u8 v @ rest)) = Inr (v, reader_at (pre @ enc_u8 v) rest)"
  using u8.rd_enc [of v pre rest] assms by (simp add: enc_u8_def)

lemma delta_header:
  assumes "length bs \<le> m" "bs = enc_u8 DELTA_VERSION @ enc_u8 tag @ body" "0 < cap"
    "m \<le> u64_max" "0 < limit" "tag < 256"
  shows "decode_delta lay pe bs m cap limit =
     (let r = reader_at (enc_u8 DELTA_VERSION @ enc_u8 tag) body; budget = \<lparr>b_used = 0, b_limit = limit\<rparr> in
      bindE
            (if tag = PUT then
               bindE (r_text r cap) (\<lambda>(bucket, r).
               bindE (budget_take budget (length bucket)) (\<lambda>budget.
               bindE (read_entry lay pe r budget cap) (\<lambda>((key, e), r, _).
                 Inr (DPut bucket key e, r))))
             else if tag = DELETE then
               bindE (r_text r cap) (\<lambda>(bucket, r).
               bindE (budget_take budget (length bucket)) (\<lambda>budget.
               bindE (r_text r cap) (\<lambda>(key, r).
               bindE (budget_take budget (length key)) (\<lambda>budget.
               bindE (read_timestamp r) (\<lambda>(deleted_at, r).
                 Inr (DDelete bucket key deleted_at, r))))))
             else if tag = NOOP then Inr (DNoop, r)
             else Inl Schema) (\<lambda>(delta, r).
          if r_offset r \<noteq> length bs then Inl Corrupt else Inr delta))"
proof -
  have "2 \<le> u64_max"
    by (simp add: u64_max_def)
  then have "r_u8 (reader_at [] bs) = Inr (DELTA_VERSION, reader_at (enc_u8 DELTA_VERSION) (enc_u8 tag @ body))"
    "r_u8 (reader_at (enc_u8 DELTA_VERSION) (enc_u8 tag @ body))
      = Inr (tag, reader_at (enc_u8 DELTA_VERSION @ enc_u8 tag) body)"
    using assms(6) r_u8_tags [of "[]" DELTA_VERSION "enc_u8 tag @ body"]
      r_u8_tags [of "enc_u8 DELTA_VERSION" tag body]
    by (simp_all add: assms(2) enc_u8_def delta_tags)
  moreover have "bs \<noteq> []"
    by (simp add: assms(2) enc_u8_def)
  ultimately show ?thesis
    using assms(1,3-5) unfolding decode_delta_def reader_at_Nil Let_def
    by (simp add: budget_new_ok)
qed

lemma decode_put:
  assumes ok: "text_ok cap bucket" "entry_ok cap pe key e"
    and len: "length (enc_delta (DPut bucket key e)) \<le> m" "m \<le> u64_max"
    and charge: "delta_charge lay (DPut bucket key e) = Inr c" "c \<le> limit" "limit \<le> u64_max"
  shows "decode_delta lay pe (enc_delta (DPut bucket key e)) m cap limit = Inr (DPut bucket key (skeletal e))"
proof -
  let ?h = "enc_u8 DELTA_VERSION @ enc_u8 PUT" and ?b = "enc_text bucket"
  obtain c' where c': "entry_charge lay (length key) (map_option (length \<circ> etag_text) (e_etag e))
      (length (e_storage_class e)) = Inr c'" "c = length bucket + c'"
    using charge(1) by (auto simp: delta_charge_def bindE_eq_Inr)
  have lens: "length ?h + length ?b \<le> u64_max" "length (?h @ ?b) + length (enc_entry key e) \<le> u64_max"
    using len by (simp_all add: enc_delta_def)
  have pos: "0 < cap" "0 < length bucket"
    using ok(1) by (cases bucket; auto simp: text_ok_def)+
  note take = budget_take_seq [of "length bucket" c' "\<lparr>b_used = 0, b_limit = limit\<rparr>"]
  have a: "r_text (reader_at ?h (?b @ enc_entry key e)) cap = Inr (bucket, reader_at (?h @ ?b) (enc_entry key e))"
    using textf.rd_enc [OF ok(1), of ?h "enc_entry key e"] lens(1) by simp
  have b: "read_entry lay pe (reader_at (?h @ ?b) (enc_entry key e)) \<lparr>b_used = length bucket, b_limit = limit\<rparr> cap
      = Inr ((key, skeletal e), reader_at ((?h @ ?b) @ enc_entry key e) [], \<lparr>b_used = length bucket + c', b_limit = limit\<rparr>)"
    using read_entry_enc [OF ok(2) lens(2) c'(1), of _ _ "[]"] take(2) c'(2) charge(2,3) by simp
  show ?thesis
    using len(1) delta_header [of "enc_delta (DPut bucket key e)" m PUT "?b @ enc_entry key e" cap limit lay pe]
      a b take(1) c'(2) charge(2,3) pos len(2)
    by (simp add: enc_delta_def PUT_def Let_def)
qed

lemma decode_delete:
  assumes ok: "text_ok cap bucket" "text_ok cap key" "time_ok t"
    and len: "length (enc_delta (DDelete bucket key t)) \<le> m" "m \<le> u64_max"
    and charge: "length bucket + length key \<le> limit" "limit \<le> u64_max"
  shows "decode_delta lay pe (enc_delta (DDelete bucket key t)) m cap limit = Inr (DDelete bucket key t)"
proof -
  let ?h = "enc_u8 DELTA_VERSION @ enc_u8 DELETE" and ?b = "enc_text bucket"
  have lens: "length ?h + length ?b \<le> u64_max" "length (?h @ ?b) + length (enc_text key) \<le> u64_max"
    "length (?h @ ?b @ enc_text key) + length (enc_time t) \<le> u64_max"
    using len by (simp_all add: enc_delta_def)
  have pos: "0 < cap" "0 < length bucket"
    using ok(1) by (cases bucket; auto simp: text_ok_def)+
  note take = budget_take_seq [of "length bucket" "length key" "\<lparr>b_used = 0, b_limit = limit\<rparr>"]
  have a: "r_text (reader_at ?h (?b @ enc_text key @ enc_time t)) cap
      = Inr (bucket, reader_at (?h @ ?b) (enc_text key @ enc_time t))"
    using textf.rd_enc [OF ok(1), of ?h "enc_text key @ enc_time t"] lens(1) by simp
  have b: "r_text (reader_at (?h @ ?b) (enc_text key @ enc_time t)) cap
      = Inr (key, reader_at (?h @ ?b @ enc_text key) (enc_time t))"
    using textf.rd_enc [OF ok(2), of "?h @ ?b" "enc_time t"] lens(2) by simp
  have c: "read_timestamp (reader_at (?h @ ?b @ enc_text key) (enc_time t))
      = Inr (t, reader_at (?h @ ?b @ enc_text key @ enc_time t) [])"
    using timef.rd_enc [OF ok(3), of "?h @ ?b @ enc_text key" "[]"] lens(3) by simp
  show ?thesis
    using len(1) delta_header [of "enc_delta (DDelete bucket key t)" m DELETE "?b @ enc_text key @ enc_time t" cap limit lay pe]
      a b c take charge pos len(2)
    by (simp add: enc_delta_def delta_tags Let_def)
qed

lemma decode_noop:
  assumes "2 \<le> m" "m \<le> u64_max" "0 < cap" "0 < limit"
  shows "decode_delta lay pe (enc_delta DNoop) m cap limit = Inr DNoop"
  using assms delta_header [of "enc_delta DNoop" m NOOP "[]" cap limit lay pe]
  by (simp add: enc_delta_def delta_tags Let_def enc_u8_def)

lemma delta_roundtrip_core:
  assumes "encode_delta d m cap = Inr bs" "delta_ok cap pe d" "m \<le> u64_max"
    and "delta_charge lay d = Inr c" "c \<le> limit" "0 < limit" "limit \<le> u64_max"
  shows "decode_delta lay pe bs m cap limit = Inr (delta_skeletal d)"
proof (cases d)
  case (DPut bucket key e)
  then show ?thesis
    using assms encode_delta_sound [OF assms(1)] decode_put [of cap bucket pe key e m lay c limit]
    by (auto simp: delta_ok_def delta_skeletal_def)
next
  case (DDelete bucket key t)
  then show ?thesis
    using assms encode_delta_sound [OF assms(1)] decode_delete [of cap bucket key t m limit lay pe]
    by (auto simp: delta_ok_def delta_skeletal_def delta_charge_def)
next
  case DNoop
  then show ?thesis
    using assms encode_delta_sound [OF assms(1)] decode_noop [of m cap limit lay pe]
    by (auto simp: delta_skeletal_def enc_delta_def enc_u8_def)
qed

end
