(* ===== verification/Index.thy ===== *)
theory Index
  imports Delta
begin

text \<open>
  The in-memory LIST index (\<^verbatim>\<open>src/src/index.rs\<close>) with the native coverage bookkeeping of
  \<^verbatim>\<open>src/src/index/fleet.rs\<close>. The index lock serialises every operation, so each one is a
  function from the state it locks to the state it leaves and its result. An own write's
  \<open>assign\<close> callback runs under that lock; it is passed as the position and value it returns.
  \<^verbatim>\<open>SystemTime::now()\<close> is an argument. A panic is \<^const>\<open>None\<close>.
\<close>

section \<open>State\<close>

record bucket_state =
  bs_synced :: bool
  bs_keys :: key_rows
  bs_gone :: gone_rows
  bs_sync_generation :: nat
  bs_rebuild_generation :: "nat option"
  bs_rebuild_touched :: "string list"
  bs_uncertainty_epoch :: nat
  bs_uncertain_keys :: "(string, nat) omap"
  bs_stats :: index_stats

definition bucket_default :: bucket_state where
  "bucket_default = \<lparr>bs_synced = False, bs_keys = key_rows_default, bs_gone = gone_rows_default,
     bs_sync_generation = 0, bs_rebuild_generation = None, bs_rebuild_touched = [],
     bs_uncertainty_epoch = 0, bs_uncertain_keys = [], bs_stats = index_stats_default\<rparr>"

record key_index_state =
  ki_buckets :: "(string, bucket_state) omap"
  ki_stats :: index_stats
  ki_capture :: "index_capture option"
  ki_native_cuts :: "(bytes, nat \<times> nat) omap"

definition key_index_default :: key_index_state where
  "key_index_default = \<lparr>ki_buckets = [], ki_stats = index_stats_default, ki_capture = None,
     ki_native_cuts = []\<rparr>"

definition bucket_get :: "key_index_state \<Rightarrow> string \<Rightarrow> bucket_state option" where
  "bucket_get st name = map_of (ki_buckets st) name"

text \<open>\<^verbatim>\<open>buckets.entry(name).or_default()\<close>.\<close>

definition bucket_entry :: "key_index_state \<Rightarrow> string \<Rightarrow> bucket_state" where
  "bucket_entry st name = (case bucket_get st name of None \<Rightarrow> bucket_default | Some b \<Rightarrow> b)"

definition bucket_set :: "key_index_state \<Rightarrow> string \<Rightarrow> bucket_state \<Rightarrow> key_index_state" where
  "bucket_set st name b = st\<lparr>ki_buckets := om_insert name b (ki_buckets st)\<rparr>"

definition journal :: "(index_capture \<Rightarrow> index_capture) \<Rightarrow> key_index_state \<Rightarrow> key_index_state" where
  "journal f st = st\<lparr>ki_capture := map_option f (ki_capture st)\<rparr>"

definition invalidate_capture_for_rebuild :: "key_index_state \<Rightarrow> key_index_state" where
  "invalidate_capture_for_rebuild st = journal (\<lambda>c. capture_invalidate c InvRebuild) st"

definition index_stats_of :: "key_index_state \<Rightarrow> index_stats" where
  "index_stats_of st = ki_stats st"

definition account_replacement ::
  "bucket_state \<Rightarrow> index_stats \<Rightarrow> index_stats \<Rightarrow> index_stats \<Rightarrow> bucket_state \<times> index_stats" where
  "account_replacement b tot previous current =
     (b\<lparr>bs_stats := stats_replace (bs_stats b) previous current\<rparr>, stats_replace tot previous current)"

text \<open>Insert a row, or remove one, with the accounting the code does beside it each time.\<close>

definition index_row ::
  "layout \<Rightarrow> bucket_state \<Rightarrow> index_stats \<Rightarrow> string \<Rightarrow> obj_entry \<Rightarrow> bucket_state \<times> index_stats" where
  "index_row lay b tot key e = (case kr_insert lay (bs_keys b) key e of (keys, previous) \<Rightarrow>
     account_replacement (b\<lparr>bs_keys := keys\<rparr>) tot (entry_stats_opt previous) (stats_for_entry e))"

definition unindex_row ::
  "layout \<Rightarrow> bucket_state \<Rightarrow> index_stats \<Rightarrow> string \<Rightarrow> (bucket_state \<times> index_stats) \<times> bool" where
  "unindex_row lay b tot key = (case kr_remove lay (bs_keys b) key of
       (keys, None) \<Rightarrow> ((b\<lparr>bs_keys := keys\<rparr>, tot), False)
     | (keys, Some previous) \<Rightarrow>
         (account_replacement (b\<lparr>bs_keys := keys\<rparr>) tot (stats_for_entry previous) index_stats_default, True))"

definition remove_bucket :: "key_index_state \<Rightarrow> string \<Rightarrow> key_index_state" where
  "remove_bucket st bucket =
     (let st = (if bucket_get st bucket \<noteq> None then invalidate_capture_for_rebuild st else st)
      in case bucket_get st bucket of
           None \<Rightarrow> st
         | Some previous \<Rightarrow> st\<lparr>ki_buckets := om_remove bucket (ki_buckets st),
             ki_stats := stats_replace (ki_stats st) (bs_stats previous) index_stats_default\<rparr>)"

section \<open>Native cuts\<close>

definition MAX_NATIVE_WRITERS :: nat where
  "MAX_NATIVE_WRITERS = 256"

definition MAX_NATIVE_ID_BYTES :: nat where
  "MAX_NATIVE_ID_BYTES = 256"

abbreviation withdraw :: "invalidation \<Rightarrow> key_index_state \<Rightarrow> key_index_state" where
  "withdraw reason \<equiv> journal (\<lambda>c. capture_invalidate c reason)"

definition note_native_cut :: "key_index_state \<Rightarrow> native_cut \<Rightarrow> key_index_state \<times> bool" where
  "note_native_cut st nc =
     (if nc_writer nc = [] \<or> length (nc_writer nc) > MAX_NATIVE_ID_BYTES
         \<or> nc_epoch nc = 0 \<or> nc_sequence nc = 0
      then (withdraw InvGap st, True)
      else case map_of (ki_native_cuts st) (nc_writer nc) of
          None \<Rightarrow>
            if length (ki_native_cuts st) \<ge> MAX_NATIVE_WRITERS then (withdraw InvCapacity st, True)
            else (withdraw InvMembership
                    (st\<lparr>ki_native_cuts :=
                      om_insert (nc_writer nc) (nc_epoch nc, nc_sequence nc) (ki_native_cuts st)\<rparr>), True)
        | Some (old_epoch, old_sequence) \<Rightarrow>
            if nc_epoch nc = old_epoch \<and> nc_sequence nc \<le> old_sequence then (st, False)
            else
              let st = (if nc_epoch nc \<noteq> old_epoch then withdraw InvMembership st
                        else if nc_sequence nc \<noteq> saturating_add64 old_sequence 1 then withdraw InvGap st
                        else st)
              in (st\<lparr>ki_native_cuts :=
                    om_insert (nc_writer nc) (nc_epoch nc, nc_sequence nc) (ki_native_cuts st)\<rparr>, True))"

definition register_native_writer :: "key_index_state \<Rightarrow> native_cut \<Rightarrow> key_index_state" where
  "register_native_writer st nc =
     (if nc_writer nc = [] \<or> length (nc_writer nc) > MAX_NATIVE_ID_BYTES \<or> nc_epoch nc = 0
         \<or> map_of (ki_native_cuts st) (nc_writer nc) \<noteq> None then st
      else if length (ki_native_cuts st) \<ge> MAX_NATIVE_WRITERS then withdraw InvCapacity st
      else withdraw InvMembership (st\<lparr>ki_native_cuts :=
             om_insert (nc_writer nc) (nc_epoch nc, nc_sequence nc) (ki_native_cuts st)\<rparr>))"

definition renew_native_writer :: "key_index_state \<Rightarrow> native_cut \<Rightarrow> nat \<Rightarrow> key_index_state" where
  "renew_native_writer st sealed epoch =
     (case map_of (ki_native_cuts st) (nc_writer sealed) of
        None \<Rightarrow> st
      | Some nc \<Rightarrow>
          if epoch \<le> fst nc then st
          else
            let renewable = (nc = (nc_epoch sealed, nc_sequence sealed));
                st = st\<lparr>ki_native_cuts := om_insert (nc_writer sealed) (epoch, 0) (ki_native_cuts st)\<rparr>
            in if renewable then journal (\<lambda>c. record_renewal c sealed epoch) st
               else withdraw InvGap st)"

text \<open>The order of \<^verbatim>\<open>(u64, u64)\<close> is lexicographic.\<close>

definition cut_le :: "nat \<times> nat \<Rightarrow> nat \<times> nat \<Rightarrow> bool" where
  "cut_le a b \<longleftrightarrow> fst a < fst b \<or> fst a = fst b \<and> snd a \<le> snd b"

definition skip_native_gap :: "key_index_state \<Rightarrow> native_cut \<Rightarrow> key_index_state" where
  "skip_native_gap st missed_through =
     (case map_of (ki_native_cuts st) (nc_writer missed_through) of
        None \<Rightarrow> st
      | Some nc \<Rightarrow>
          let through = (nc_epoch missed_through, nc_sequence missed_through)
          in if cut_le through nc then st
             else withdraw InvGap
               (st\<lparr>ki_native_cuts := om_insert (nc_writer missed_through) through (ki_native_cuts st)\<rparr>))"

definition note_native_seal :: "key_index_state \<Rightarrow> native_cut \<Rightarrow> key_index_state" where
  "note_native_seal st nc = (case note_native_cut st nc of
       (st, True) \<Rightarrow> journal (\<lambda>c. record_native_noop c (Native nc)) st
     | (st, False) \<Rightarrow> st)"

section \<open>Puts\<close>

datatype put_authority = DefinitiveMutation | Observation

definition note_identity :: "key_index_state \<Rightarrow> delta_identity option \<Rightarrow> key_index_state \<times> bool" where
  "note_identity st identity = (case identity of
       Some (Native nc) \<Rightarrow> note_native_cut st nc
     | _ \<Rightarrow> (st, True))"

definition journal_noop :: "delta_identity option \<Rightarrow> key_index_state \<Rightarrow> key_index_state" where
  "journal_noop identity st = (case identity of
       None \<Rightarrow> st
     | Some i \<Rightarrow> journal (\<lambda>c. record_native_noop c i) st)"

definition open_bucket :: "key_index_state \<Rightarrow> string \<Rightarrow> key_index_state" where
  "open_bucket st bucket =
     (let st = (if bucket_get st bucket = None then invalidate_capture_for_rebuild st else st)
      in bucket_set st bucket (bucket_entry st bucket))"

definition tombstone_at_least :: "bucket_state \<Rightarrow> string \<Rightarrow> systime \<Rightarrow> bool" where
  "tombstone_at_least b key ts = (case gr_get (bs_gone b) key of None \<Rightarrow> False | Some dead \<Rightarrow> dead \<ge> ts)"

definition entry_newer :: "bucket_state \<Rightarrow> string \<Rightarrow> systime \<Rightarrow> bool" where
  "entry_newer b key ts =
     (case kr_get (bs_keys b) key of None \<Rightarrow> False | Some e \<Rightarrow> e_last_modified e > ts)"

definition touch :: "bucket_state \<Rightarrow> string \<Rightarrow> bucket_state" where
  "touch b key = (if bs_rebuild_generation b \<noteq> None
     then b\<lparr>bs_rebuild_touched := os_insert key (bs_rebuild_touched b)\<rparr> else b)"

definition clear_uncertain :: "bucket_state \<Rightarrow> string \<Rightarrow> bucket_state" where
  "clear_uncertain b key = b\<lparr>bs_uncertain_keys := om_remove key (bs_uncertain_keys b)\<rparr>"

definition apply_put_with_authority ::
  "layout \<Rightarrow> key_index_state \<Rightarrow> string \<Rightarrow> string \<Rightarrow> obj_entry \<Rightarrow> put_authority \<Rightarrow> delta_identity option
   \<Rightarrow> key_index_state \<times> bool" where
  "apply_put_with_authority lay st bucket key e authority identity =
     (let ts = e_last_modified e in
      case note_identity st identity of (st, fresh) \<Rightarrow>
      if \<not> fresh then (st, False)
      else
        let st = open_bucket st bucket;
            b = bucket_entry st bucket;
            definitive = (authority = DefinitiveMutation);
            first_rebuild_mutation =
              (definitive \<and> bs_rebuild_generation b \<noteq> None \<and> key \<notin> set (bs_rebuild_touched b))
        in if \<not> first_rebuild_mutation \<and> tombstone_at_least b key ts
           then (journal_noop identity st, False)
           else if \<not> first_rebuild_mutation \<and> entry_newer b key ts
           then (journal_noop identity st, False)
           else if \<not> definitive \<and> key \<in> set (bs_rebuild_touched b)
           then (journal_noop identity st, False)
           else
             let b = (if first_rebuild_mutation then b\<lparr>bs_gone := gr_remove lay (bs_gone b) key\<rparr> else b)
             in case index_row lay b (ki_stats st) key e of (b, tot) \<Rightarrow>
               let b = (if definitive then touch (clear_uncertain b key) key else b);
                   st = bucket_set (st\<lparr>ki_stats := tot\<rparr>) bucket b
               in (journal (\<lambda>c. record_put c identity bucket key e) st, True))"

definition apply_put :: "layout \<Rightarrow> key_index_state \<Rightarrow> string \<Rightarrow> string \<Rightarrow> obj_entry \<Rightarrow> key_index_state \<times> bool" where
  "apply_put lay st bucket key e = apply_put_with_authority lay st bucket key e DefinitiveMutation None"

definition apply_own_put ::
  "layout \<Rightarrow> key_index_state \<Rightarrow> string \<Rightarrow> string \<Rightarrow> obj_entry \<Rightarrow> 'r \<times> native_cut
   \<Rightarrow> key_index_state \<times> bool \<times> 'r" where
  "apply_own_put lay st bucket key e assigned = (case assigned of (v, position) \<Rightarrow>
     case apply_put_with_authority lay st bucket key e DefinitiveMutation (Some (Native position)) of
       (st, changed) \<Rightarrow> (st, changed, v))"

definition apply_put_native ::
  "layout \<Rightarrow> key_index_state \<Rightarrow> string \<Rightarrow> string \<Rightarrow> obj_entry \<Rightarrow> native_cut \<Rightarrow> key_index_state \<times> bool" where
  "apply_put_native lay st bucket key e nc =
     apply_put_with_authority lay st bucket key e DefinitiveMutation (Some (Native nc))"

definition apply_observed_put ::
  "layout \<Rightarrow> key_index_state \<Rightarrow> string \<Rightarrow> string \<Rightarrow> obj_entry \<Rightarrow> key_index_state \<times> bool" where
  "apply_observed_put lay st bucket key e = apply_put_with_authority lay st bucket key e Observation None"

section \<open>Per-key fences\<close>

definition fence_key :: "key_index_state \<Rightarrow> string \<Rightarrow> string \<Rightarrow> (key_index_state \<times> nat) option" where
  "fence_key st bucket key =
     (let st = invalidate_capture_for_rebuild st;
          b = bucket_entry st bucket
      in case checked_add64 (bs_uncertainty_epoch b) 1 of
           None \<Rightarrow> None
         | Some token \<Rightarrow> Some (bucket_set st bucket
             (b\<lparr>bs_uncertainty_epoch := token,
                bs_uncertain_keys := om_insert key token (bs_uncertain_keys b)\<rparr>), token))"

definition fence_uncertain_key ::
  "key_index_state \<Rightarrow> string \<Rightarrow> string \<Rightarrow> (key_index_state \<times> nat) option" where
  "fence_uncertain_key st bucket key = fence_key st bucket key"

definition fence_uncertain_key_native ::
  "key_index_state \<Rightarrow> string \<Rightarrow> string \<Rightarrow> native_cut \<Rightarrow> (key_index_state \<times> nat option) option" where
  "fence_uncertain_key_native st bucket key nc = (case note_native_cut st nc of
       (st, False) \<Rightarrow> Some (st, None)
     | (st, True) \<Rightarrow> map_option (\<lambda>(st, token). (st, Some token)) (fence_key st bucket key))"

definition fence_own_uncertain_key ::
  "key_index_state \<Rightarrow> string \<Rightarrow> string \<Rightarrow> 'r \<times> native_cut \<Rightarrow> (key_index_state \<times> nat \<times> 'r) option" where
  "fence_own_uncertain_key st bucket key assigned = (case assigned of (v, position) \<Rightarrow>
     map_option (\<lambda>(st, token). (st, token, v)) (fence_key (fst (note_native_cut st position)) bucket key))"

definition uncertain_key_is_current :: "key_index_state \<Rightarrow> string \<Rightarrow> string \<Rightarrow> nat \<Rightarrow> bool" where
  "uncertain_key_is_current st bucket key token =
     (case bucket_get st bucket of
        None \<Rightarrow> False
      | Some b \<Rightarrow> map_of (bs_uncertain_keys b) key = Some token)"

datatype authoritative_key_state = Present obj_entry | Absent

definition resolve_uncertain_key ::
  "layout \<Rightarrow> systime \<Rightarrow> key_index_state \<Rightarrow> string \<Rightarrow> string \<Rightarrow> nat \<Rightarrow> authoritative_key_state
   \<Rightarrow> key_index_state \<times> bool" where
  "resolve_uncertain_key lay now st bucket key token authoritative =
     (case bucket_get st bucket of
        None \<Rightarrow> (st, False)
      | Some b \<Rightarrow>
          if map_of (bs_uncertain_keys b) key \<noteq> Some token then (st, False)
          else
            case (case authoritative of
                Present e \<Rightarrow> index_row lay (b\<lparr>bs_gone := gr_remove lay (bs_gone b) key\<rparr>) (ki_stats st) key e
              | Absent \<Rightarrow> fst (unindex_row lay (b\<lparr>bs_gone := gr_raise lay (bs_gone b) key now\<rparr>) (ki_stats st) key))
            of (b, tot) \<Rightarrow>
              (bucket_set (st\<lparr>ki_stats := tot\<rparr>) bucket (touch (clear_uncertain b key) key), True))"

section \<open>Rebuild lifecycle\<close>

text \<open>A reset keeps the fences and their allocation epoch, and nothing else.\<close>

definition bucket_reset :: "bucket_state \<Rightarrow> bool \<Rightarrow> bucket_state" where
  "bucket_reset previous rebuild =
     (let generation = wrapping_add64 (bs_sync_generation previous) 1
      in bucket_default\<lparr>bs_sync_generation := generation,
           bs_rebuild_generation := (if rebuild then Some generation else None),
           bs_uncertainty_epoch := bs_uncertainty_epoch previous,
           bs_uncertain_keys := bs_uncertain_keys previous\<rparr>)"

definition begin_bucket_resync :: "key_index_state \<Rightarrow> string \<Rightarrow> key_index_state \<times> nat" where
  "begin_bucket_resync st bucket =
     (let st = invalidate_capture_for_rebuild st;
          previous = bucket_entry st bucket;
          replacement = bucket_reset previous True
      in (bucket_set (st\<lparr>ki_stats := stats_replace (ki_stats st) (bs_stats previous) index_stats_default\<rparr>)
            bucket replacement,
          bs_sync_generation replacement))"

definition discard_buckets :: "key_index_state \<Rightarrow> key_index_state" where
  "discard_buckets st =
     (let st = invalidate_capture_for_rebuild st
      in st\<lparr>ki_buckets := map (\<lambda>(name, b). (name, bucket_reset b False)) (ki_buckets st),
            ki_stats := fold (\<lambda>(name, b) tot. stats_replace tot (bs_stats b) index_stats_default)
              (ki_buckets st) (ki_stats st)\<rparr>)"

definition discard_for_gap :: "key_index_state \<Rightarrow> native_cut \<Rightarrow> key_index_state" where
  "discard_for_gap st missed_through = discard_buckets (skip_native_gap st missed_through)"

definition owns_rebuild :: "bucket_state \<Rightarrow> nat \<Rightarrow> bool" where
  "owns_rebuild b generation \<longleftrightarrow>
     bs_sync_generation b = generation \<and> bs_rebuild_generation b = Some generation"

definition list_row_admitted :: "bucket_state \<Rightarrow> string \<Rightarrow> systime \<Rightarrow> bool" where
  "list_row_admitted b key ts \<longleftrightarrow>
     key \<notin> set (bs_rebuild_touched b)
     \<and> map_of (bs_uncertain_keys b) key = None
     \<and> (case gr_get (bs_gone b) key of None \<Rightarrow> True | Some dead \<Rightarrow> dead < ts)
     \<and> (case kr_get (bs_keys b) key of None \<Rightarrow> True | Some current \<Rightarrow> e_last_modified current \<le> ts)"

definition fold_list_row ::
  "layout \<Rightarrow> string \<times> obj_entry \<Rightarrow> bucket_state \<times> index_stats \<Rightarrow> bucket_state \<times> index_stats" where
  "fold_list_row lay row acc = (case (row, acc) of ((key, e), (b, tot)) \<Rightarrow>
     if list_row_admitted b key (e_last_modified e) then index_row lay b tot key e else (b, tot))"

definition sync_listing_into_generation ::
  "layout \<Rightarrow> key_index_state \<Rightarrow> string \<Rightarrow> nat \<Rightarrow> (string \<times> obj_entry) list
   \<Rightarrow> key_index_state \<times> nat option" where
  "sync_listing_into_generation lay st bucket generation listed =
     (let st = invalidate_capture_for_rebuild st;
          b = bucket_entry st bucket
      in if \<not> owns_rebuild b generation then (bucket_set st bucket b, None)
         else case fold (fold_list_row lay) listed (b, ki_stats st) of (b, tot) \<Rightarrow>
           (bucket_set (st\<lparr>ki_stats := tot\<rparr>) bucket b, Some (length listed)))"

definition finish_bucket_sync_generation :: "key_index_state \<Rightarrow> string \<Rightarrow> nat \<Rightarrow> key_index_state \<times> bool" where
  "finish_bucket_sync_generation st bucket generation =
     (let b = bucket_entry st bucket
      in if \<not> owns_rebuild b generation then (bucket_set st bucket b, False)
         else (bucket_set st bucket
                 (b\<lparr>bs_synced := True, bs_rebuild_generation := None, bs_rebuild_touched := []\<rparr>), True))"

section \<open>Deletes\<close>

definition TOMBSTONE_TTL :: int where
  "TOMBSTONE_TTL = 3600 * nanos_per_sec"

definition TOMBSTONE_PRUNE_LEN :: nat where
  "TOMBSTONE_PRUNE_LEN = 65536"

datatype tombstone_sweep = Run | Hold

definition sweep_for_delete ::
  "layout \<Rightarrow> tombstone_sweep \<Rightarrow> bool \<Rightarrow> gone_rows \<Rightarrow> systime \<Rightarrow> gone_rows" where
  "sweep_for_delete lay sweep captured gone ts =
     (if sweep = Run \<and> \<not> captured \<and> gr_len gone > TOMBSTONE_PRUNE_LEN
      then (case systime_checked_sub ts TOMBSTONE_TTL of
              None \<Rightarrow> gone
            | Some cutoff \<Rightarrow> fst (gr_sweep_expired lay gone cutoff))
      else gone)"

text \<open>A capture journals the tombstone when the effect changed something, and otherwise only
  a native writer's progress. The tombstone read back is always present.\<close>

definition journal_delete ::
  "bool \<Rightarrow> delta_identity option \<Rightarrow> string \<Rightarrow> string \<Rightarrow> gone_rows \<Rightarrow> key_index_state \<Rightarrow> key_index_state" where
  "journal_delete changed identity bucket key gone st =
     (if changed then journal (\<lambda>c. record_delete c identity bucket key (the (gr_get gone key))) st
      else journal_noop identity st)"

definition apply_del_with_identity ::
  "layout \<Rightarrow> key_index_state \<Rightarrow> string \<Rightarrow> string \<Rightarrow> systime \<Rightarrow> delta_identity option \<Rightarrow> tombstone_sweep
   \<Rightarrow> key_index_state \<times> bool" where
  "apply_del_with_identity lay st bucket key ts identity sweep =
     (case note_identity st identity of (st, fresh) \<Rightarrow>
      if \<not> fresh then (st, False)
      else
        let st = open_bucket st bucket;
            b = bucket_entry st bucket;
            first_rebuild_mutation =
              (bs_rebuild_generation b \<noteq> None \<and> key \<notin> set (bs_rebuild_touched b));
            gone = sweep_for_delete lay sweep (ki_capture st \<noteq> None) (bs_gone b) ts;
            prior_tombstone = gr_get gone key;
            newer_tombstone = (\<not> first_rebuild_mutation \<and>
              (case prior_tombstone of None \<Rightarrow> False | Some dead \<Rightarrow> dead > ts));
            gone' = (if first_rebuild_mutation then gr_insert lay gone key ts else gr_raise lay gone key ts);
            b = b\<lparr>bs_gone := gone'\<rparr>;
            raised = (gr_get gone' key \<noteq> prior_tombstone)
        in if \<not> first_rebuild_mutation \<and> entry_newer b key ts
           then (journal_delete raised identity bucket key gone' (bucket_set st bucket b), False)
           else if newer_tombstone
           then (journal_delete raised identity bucket key gone' (bucket_set st bucket b), False)
           else
             case unindex_row lay (touch (clear_uncertain b key) key) (ki_stats st) key of
               ((b, tot), removed) \<Rightarrow>
                 (journal_delete (removed \<or> raised) identity bucket key gone'
                    (bucket_set (st\<lparr>ki_stats := tot\<rparr>) bucket b), removed))"

definition apply_del :: "layout \<Rightarrow> key_index_state \<Rightarrow> string \<Rightarrow> string \<Rightarrow> systime \<Rightarrow> key_index_state \<times> bool" where
  "apply_del lay st bucket key ts = apply_del_with_identity lay st bucket key ts None Run"

definition apply_replayed_del ::
  "layout \<Rightarrow> key_index_state \<Rightarrow> string \<Rightarrow> string \<Rightarrow> systime \<Rightarrow> key_index_state \<times> bool" where
  "apply_replayed_del lay st bucket key ts = apply_del_with_identity lay st bucket key ts None Hold"

definition apply_own_del ::
  "layout \<Rightarrow> key_index_state \<Rightarrow> string \<Rightarrow> string \<Rightarrow> systime \<Rightarrow> 'r \<times> native_cut
   \<Rightarrow> key_index_state \<times> bool \<times> 'r" where
  "apply_own_del lay st bucket key ts assigned = (case assigned of (v, position) \<Rightarrow>
     case apply_del_with_identity lay st bucket key ts (Some (Native position)) Run of
       (st, removed) \<Rightarrow> (st, removed, v))"

definition apply_del_native ::
  "layout \<Rightarrow> key_index_state \<Rightarrow> string \<Rightarrow> string \<Rightarrow> systime \<Rightarrow> native_cut \<Rightarrow> key_index_state \<times> bool" where
  "apply_del_native lay st bucket key ts nc =
     apply_del_with_identity lay st bucket key ts (Some (Native nc)) Run"

section \<open>Completion\<close>

definition same_version :: "obj_entry \<Rightarrow> entry_fill \<Rightarrow> bool" where
  "same_version e fill \<longleftrightarrow>
     (case (e_etag e, f_etag fill) of
        (Some indexed, Some answered) \<Rightarrow> indexed = answered
      | (Some _, None) \<Rightarrow> False
      | (None, _) \<Rightarrow> True)
     \<and> (e_size e = None \<or> f_size fill = None \<or> e_size e = f_size fill)"

definition fill_entry :: "entry_fill \<Rightarrow> obj_entry \<Rightarrow> obj_entry" where
  "fill_entry fill e =
     e\<lparr>e_size := (if e_size e = None then f_size fill else e_size e),
       e_etag := (if e_etag e = None then f_etag fill else e_etag e),
       e_content_type := (if e_content_type e = None then f_content_type fill else e_content_type e),
       e_meta := (if e_meta e = None then Some (f_meta fill) else e_meta e)\<rparr>"

definition filled :: "entry_fill \<Rightarrow> obj_entry \<Rightarrow> bool" where
  "filled fill e \<longleftrightarrow>
     (e_size e = None \<and> f_size fill \<noteq> None) \<or> (e_etag e = None \<and> f_etag fill \<noteq> None)
     \<or> (e_content_type e = None \<and> f_content_type fill \<noteq> None) \<or> e_meta e = None"

definition complete_row ::
  "entry_fill \<Rightarrow> obj_entry \<Rightarrow> obj_entry \<times> (index_stats \<times> index_stats option) option" where
  "complete_row fill e =
     (if \<not> same_version e fill then (e, None)
      else let e' = fill_entry fill e
           in (e', Some (stats_for_entry e, if filled fill e then Some (stats_for_entry e') else None)))"

definition complete_entry ::
  "layout \<Rightarrow> key_index_state \<Rightarrow> string \<Rightarrow> string \<Rightarrow> entry_fill \<Rightarrow> key_index_state \<times> completion" where
  "complete_entry lay st bucket key fill =
     (case bucket_get st bucket of
        None \<Rightarrow> (st, NotIndexed)
      | Some b \<Rightarrow> (case kr_update lay (bs_keys b) key (complete_row fill) of
            (keys, None) \<Rightarrow> (st, NotIndexed)
          | (keys, Some None) \<Rightarrow> (bucket_set st bucket (b\<lparr>bs_keys := keys\<rparr>), OtherVersion)
          | (keys, Some (Some (previous, None))) \<Rightarrow>
              (bucket_set st bucket (b\<lparr>bs_keys := keys\<rparr>), AlreadyComplete)
          | (keys, Some (Some (previous, Some current))) \<Rightarrow>
              (case account_replacement (b\<lparr>bs_keys := keys\<rparr>) (ki_stats st) previous current of (b, tot) \<Rightarrow>
                 let st = bucket_set (st\<lparr>ki_stats := tot\<rparr>) bucket b
                 in (case kr_get keys key of
                       None \<Rightarrow> st
                     | Some e \<Rightarrow> journal (\<lambda>c. record_put c None bucket key e) st, Completed))))"

section \<open>Replaying one donor effect\<close>

definition apply_delta :: "layout \<Rightarrow> index_delta \<Rightarrow> key_index_state \<Rightarrow> key_index_state \<times> bool \<times> string option" where
  "apply_delta lay delta stage = (case delta of
       DPut bucket key e \<Rightarrow> (case apply_put lay stage bucket key e of (stage, changed) \<Rightarrow> (stage, changed, Some bucket))
     | DDelete bucket key deleted_at \<Rightarrow>
         (case apply_replayed_del lay stage bucket key deleted_at of (stage, changed) \<Rightarrow> (stage, changed, Some bucket))
     | DNoop \<Rightarrow> (stage, False, None))"

end
