(* ===== verification/Index_Inv.thy ===== *)
theory Index_Inv
  imports Index
begin

text \<open>
  The index's invariant and that every operation keeps it. Each operation's effect is first
  reduced to what it does to one bucket and to the totals; the invariant then follows from
  the row lemmas. Every operation is a rule of \<open>index_step\<close>, so facts about all reachable
  states follow by rule induction.
\<close>

section \<open>Frame lemmas\<close>

lemma bucket_get_set [simp]: "bucket_get (bucket_set st n b) = (bucket_get st)(n \<mapsto> b)"
  by (simp add: bucket_get_def bucket_set_def fun_eq_iff)

lemma bucket_set_frame [simp]:
  "ki_stats (bucket_set st n b) = ki_stats st"
  "ki_capture (bucket_set st n b) = ki_capture st"
  "ki_native_cuts (bucket_set st n b) = ki_native_cuts st"
  "ki_buckets (bucket_set st n b) = om_insert n b (ki_buckets st)"
  by (simp_all add: bucket_set_def)

lemma bucket_get_frame [simp]:
  "bucket_get (st\<lparr>ki_stats := s\<rparr>) = bucket_get st"
  "bucket_get (st\<lparr>ki_capture := c\<rparr>) = bucket_get st"
  "bucket_get (st\<lparr>ki_native_cuts := nc\<rparr>) = bucket_get st"
  by (simp_all add: bucket_get_def fun_eq_iff)

lemma journal_frame [simp]:
  "bucket_get (journal f st) = bucket_get st"
  "ki_stats (journal f st) = ki_stats st"
  "ki_buckets (journal f st) = ki_buckets st"
  "ki_native_cuts (journal f st) = ki_native_cuts st"
  "ki_capture (journal f st) = map_option f (ki_capture st)"
  by (simp_all add: journal_def)

lemma bucket_entry_frame [simp]:
  "bucket_entry (journal f st) n = bucket_entry st n"
  "bucket_entry (st\<lparr>ki_stats := s\<rparr>) n = bucket_entry st n"
  "bucket_entry (bucket_set st n b) m = (if m = n then b else bucket_entry st m)"
  by (simp_all add: bucket_entry_def)

lemma invalidate_frame [simp]:
  "bucket_get (invalidate_capture_for_rebuild st) = bucket_get st"
  "ki_stats (invalidate_capture_for_rebuild st) = ki_stats st"
  "ki_buckets (invalidate_capture_for_rebuild st) = ki_buckets st"
  "ki_native_cuts (invalidate_capture_for_rebuild st) = ki_native_cuts st"
  "bucket_entry (invalidate_capture_for_rebuild st) n = bucket_entry st n"
  by (simp_all add: invalidate_capture_for_rebuild_def)

lemma journal_noop_frame [simp]:
  "bucket_get (journal_noop i st) = bucket_get st"
  "ki_stats (journal_noop i st) = ki_stats st"
  "ki_buckets (journal_noop i st) = ki_buckets st"
  "ki_native_cuts (journal_noop i st) = ki_native_cuts st"
  by (simp_all add: journal_noop_def split: option.split)

lemma journal_delete_frame [simp]:
  "bucket_get (journal_delete c i bk k g st) = bucket_get st"
  "ki_stats (journal_delete c i bk k g st) = ki_stats st"
  "ki_buckets (journal_delete c i bk k g st) = ki_buckets st"
  "ki_native_cuts (journal_delete c i bk k g st) = ki_native_cuts st"
  by (simp_all add: journal_delete_def)

lemma note_native_cut_frame [simp]:
  "bucket_get (fst (note_native_cut st nc)) = bucket_get st"
  "ki_stats (fst (note_native_cut st nc)) = ki_stats st"
  "ki_buckets (fst (note_native_cut st nc)) = ki_buckets st"
  by (simp_all add: note_native_cut_def Let_def split: option.split prod.split)

lemma note_identity_frame [simp]:
  "bucket_get (fst (note_identity st i)) = bucket_get st"
  "ki_stats (fst (note_identity st i)) = ki_stats st"
  "ki_buckets (fst (note_identity st i)) = ki_buckets st"
  by (simp_all add: note_identity_def split: option.split delta_identity.split)

lemma bucket_entry_note [simp]:
  "bucket_entry (fst (note_identity st i)) = bucket_entry st"
  "bucket_entry (fst (note_native_cut st nc)) = bucket_entry st"
  by (simp_all add: bucket_entry_def fun_eq_iff)

lemma open_bucket_frame [simp]:
  "bucket_entry (open_bucket st n) m = bucket_entry st m"
  "ki_stats (open_bucket st n) = ki_stats st"
  "ki_native_cuts (open_bucket st n) = ki_native_cuts st"
  "ki_buckets (open_bucket st n) = om_insert n (bucket_entry st n) (ki_buckets st)"
  by (simp_all add: open_bucket_def Let_def)

lemma om_insert_twice: "om_insert k v (om_insert k w m) = om_insert k v m"
  by (induction m) auto

section \<open>Bucket effects\<close>

definition put_bucket ::
  "layout \<Rightarrow> bucket_state \<Rightarrow> index_stats \<Rightarrow> string \<Rightarrow> obj_entry \<Rightarrow> bool \<Rightarrow> (bucket_state \<times> index_stats) \<times> bool" where
  "put_bucket lay b tot key e definitive =
     (let ts = e_last_modified e;
          first = (definitive \<and> bs_rebuild_generation b \<noteq> None \<and> key \<notin> set (bs_rebuild_touched b))
      in if \<not> first \<and> (tombstone_at_least b key ts \<or> entry_newer b key ts)
            \<or> \<not> definitive \<and> key \<in> set (bs_rebuild_touched b)
         then ((b, tot), False)
         else let b = (if first then b\<lparr>bs_gone := gr_remove lay (bs_gone b) key\<rparr> else b);
                  r = index_row lay b tot key e
              in ((if definitive then touch (clear_uncertain (fst r) key) key else fst r, snd r), True))"

lemma put_effect:
  fixes lay st bucket key e auth identity
  defines "r \<equiv> apply_put_with_authority lay st bucket key e auth identity"
    and "p \<equiv> put_bucket lay (bucket_entry st bucket) (ki_stats st) key e (auth = DefinitiveMutation)"
  shows "snd (note_identity st identity) \<Longrightarrow> ki_buckets (fst r) = om_insert bucket (fst (fst p)) (ki_buckets st)"
    and "snd (note_identity st identity) \<Longrightarrow> ki_stats (fst r) = snd (fst p)"
    and "snd (note_identity st identity) \<Longrightarrow> snd r = snd p"
    and "\<not> snd (note_identity st identity) \<Longrightarrow> r = (fst (note_identity st identity), False)"
    and "ki_native_cuts (fst r) = ki_native_cuts (fst (note_identity st identity))"
  unfolding r_def p_def apply_put_with_authority_def put_bucket_def
  by (auto simp: Let_def case_prod_beta om_insert_twice)

definition del_bucket ::
  "layout \<Rightarrow> bucket_state \<Rightarrow> index_stats \<Rightarrow> string \<Rightarrow> systime \<Rightarrow> bool \<Rightarrow> tombstone_sweep
   \<Rightarrow> (bucket_state \<times> index_stats) \<times> bool" where
  "del_bucket lay b tot key ts captured sweep =
     (let first = (bs_rebuild_generation b \<noteq> None \<and> key \<notin> set (bs_rebuild_touched b));
          gone = sweep_for_delete lay sweep captured (bs_gone b) ts;
          newer = (\<not> first \<and> (case gr_get gone key of None \<Rightarrow> False | Some dead \<Rightarrow> dead > ts));
          b = b\<lparr>bs_gone := (if first then gr_insert lay gone key ts else gr_raise lay gone key ts)\<rparr>
      in if \<not> first \<and> entry_newer b key ts \<or> newer then ((b, tot), False)
         else unindex_row lay (touch (clear_uncertain b key) key) tot key)"

lemma del_effect:
  fixes lay st bucket key ts identity sweep
  defines "r \<equiv> apply_del_with_identity lay st bucket key ts identity sweep"
    and "p \<equiv> del_bucket lay (bucket_entry st bucket) (ki_stats st) key ts (ki_capture st \<noteq> None) sweep"
  shows "snd (note_identity st identity) \<Longrightarrow> ki_buckets (fst r) = om_insert bucket (fst (fst p)) (ki_buckets st)"
    and "snd (note_identity st identity) \<Longrightarrow> ki_stats (fst r) = snd (fst p)"
    and "snd (note_identity st identity) \<Longrightarrow> snd r = snd p"
    and "\<not> snd (note_identity st identity) \<Longrightarrow> r = (fst (note_identity st identity), False)"
    and "ki_native_cuts (fst r) = ki_native_cuts (fst (note_identity st identity))"
proof -
  have cap: "(ki_capture (open_bucket (fst (note_identity st identity)) bucket) \<noteq> None) = (ki_capture st \<noteq> None)"
    by (auto simp: open_bucket_def Let_def invalidate_capture_for_rebuild_def note_identity_def
        note_native_cut_def split: option.splits delta_identity.splits prod.splits)
  show "snd (note_identity st identity) \<Longrightarrow> ki_buckets (fst r) = om_insert bucket (fst (fst p)) (ki_buckets st)"
    and "snd (note_identity st identity) \<Longrightarrow> ki_stats (fst r) = snd (fst p)"
    and "snd (note_identity st identity) \<Longrightarrow> snd r = snd p"
    and "\<not> snd (note_identity st identity) \<Longrightarrow> r = (fst (note_identity st identity), False)"
    and "ki_native_cuts (fst r) = ki_native_cuts (fst (note_identity st identity))"
    unfolding r_def p_def apply_del_with_identity_def del_bucket_def cap
    by (simp_all add: Let_def case_prod_beta om_insert_twice cap del: not_None_eq)
qed

section \<open>The invariant\<close>

text \<open>A tombstone beside a live row is strictly older than it.\<close>

definition row_order :: "bucket_state \<Rightarrow> bool" where
  "row_order b \<longleftrightarrow> (\<forall>k e t. kr_get (bs_keys b) k = Some e \<longrightarrow> gr_get (bs_gone b) k = Some t
     \<longrightarrow> t < e_last_modified e)"

definition rows_ok :: "layout \<Rightarrow> bucket_state \<Rightarrow> bool" where
  "rows_ok lay b \<longleftrightarrow> kr_ok lay (bs_keys b) \<and> gr_ok lay (bs_gone b) \<and> row_order b"

text \<open>Every fence holds a distinct token the bucket has allocated.\<close>

definition fences_ok :: "bucket_state \<Rightarrow> bool" where
  "fences_ok b \<longleftrightarrow> om_ok (bs_uncertain_keys b) \<and> bs_uncertainty_epoch b \<le> u64_max
     \<and> (\<forall>k t. map_of (bs_uncertain_keys b) k = Some t \<longrightarrow> 0 < t \<and> t \<le> bs_uncertainty_epoch b)
     \<and> (\<forall>k k' t. map_of (bs_uncertain_keys b) k = Some t \<longrightarrow> map_of (bs_uncertain_keys b) k' = Some t
          \<longrightarrow> k = k')"

text \<open>A rebuild in progress is the bucket's current generation, on a bucket that is not synced;
  touched keys exist only during one.\<close>

definition rebuild_ok :: "bucket_state \<Rightarrow> bool" where
  "rebuild_ok b \<longleftrightarrow> sorted_wrt (<) (bs_rebuild_touched b) \<and> bs_sync_generation b \<le> u64_max
     \<and> (case bs_rebuild_generation b of
          None \<Rightarrow> bs_rebuild_touched b = []
        | Some g \<Rightarrow> g = bs_sync_generation b \<and> \<not> bs_synced b)"

definition bucket_ok :: "layout \<Rightarrow> bucket_state \<Rightarrow> bool" where
  "bucket_ok lay b \<longleftrightarrow> rows_ok lay b \<and> fences_ok b \<and> rebuild_ok b"

definition index_ok :: "layout \<Rightarrow> key_index_state \<Rightarrow> bool" where
  "index_ok lay st \<longleftrightarrow> om_ok (ki_buckets st) \<and> (\<forall>(n, b) \<in> set (ki_buckets st). bucket_ok lay b)
     \<and> om_ok (ki_native_cuts st) \<and> length (ki_native_cuts st) \<le> MAX_NATIVE_WRITERS"

lemma rows_ok_frame [simp]:
  "rows_ok lay (b\<lparr>bs_stats := s\<rparr>) = rows_ok lay b"
  "rows_ok lay (touch b k) = rows_ok lay b"
  "rows_ok lay (clear_uncertain b k) = rows_ok lay b"
  "fences_ok (b\<lparr>bs_stats := s\<rparr>) = fences_ok b"
  "fences_ok (b\<lparr>bs_keys := ks\<rparr>) = fences_ok b"
  "fences_ok (b\<lparr>bs_gone := g\<rparr>) = fences_ok b"
  "fences_ok (touch b k) = fences_ok b"
  "rebuild_ok (b\<lparr>bs_stats := s\<rparr>) = rebuild_ok b"
  "rebuild_ok (b\<lparr>bs_keys := ks\<rparr>) = rebuild_ok b"
  "rebuild_ok (b\<lparr>bs_gone := g\<rparr>) = rebuild_ok b"
  "rebuild_ok (clear_uncertain b k) = rebuild_ok b"
  by (simp_all add: rows_ok_def row_order_def fences_ok_def rebuild_ok_def touch_def clear_uncertain_def
      split: option.split)

lemma touch_clear_frame [simp]:
  "bs_keys (touch b k) = bs_keys b" "bs_gone (touch b k) = bs_gone b" "bs_stats (touch b k) = bs_stats b"
  "bs_uncertain_keys (touch b k) = bs_uncertain_keys b"
  "bs_uncertainty_epoch (touch b k) = bs_uncertainty_epoch b"
  "bs_sync_generation (touch b k) = bs_sync_generation b"
  "bs_rebuild_generation (touch b k) = bs_rebuild_generation b"
  "bs_synced (touch b k) = bs_synced b"
  "bs_keys (clear_uncertain b k) = bs_keys b" "bs_gone (clear_uncertain b k) = bs_gone b"
  "bs_stats (clear_uncertain b k) = bs_stats b"
  "bs_uncertain_keys (clear_uncertain b k) = om_remove k (bs_uncertain_keys b)"
  "bs_uncertainty_epoch (clear_uncertain b k) = bs_uncertainty_epoch b"
  "bs_sync_generation (clear_uncertain b k) = bs_sync_generation b"
  "bs_rebuild_generation (clear_uncertain b k) = bs_rebuild_generation b"
  "bs_rebuild_touched (clear_uncertain b k) = bs_rebuild_touched b"
  "bs_synced (clear_uncertain b k) = bs_synced b"
  by (simp_all add: touch_def clear_uncertain_def)

lemma rebuild_ok_touch [intro]: "rebuild_ok b \<Longrightarrow> rebuild_ok (touch b k)"
  by (auto simp: rebuild_ok_def touch_def os_insert_sorted split: option.splits)

lemma fences_ok_clear [intro]: "fences_ok b \<Longrightarrow> fences_ok (clear_uncertain b k)"
  by (auto simp: fences_ok_def clear_uncertain_def)

lemma index_row_fst:
  "fst (index_row lay b tot k e) =
     b\<lparr>bs_keys := fst (kr_insert lay (bs_keys b) k e),
       bs_stats := stats_replace (bs_stats b) (entry_stats_opt (kr_get (bs_keys b) k)) (stats_for_entry e)\<rparr>"
  by (simp add: index_row_def account_replacement_def case_prod_beta)

lemma index_row_snd:
  "snd (index_row lay b tot k e) =
     stats_replace tot (entry_stats_opt (kr_get (bs_keys b) k)) (stats_for_entry e)"
  by (simp add: index_row_def account_replacement_def case_prod_beta)

lemma unindex_row_eq:
  "unindex_row lay b tot k =
     (case kr_get (bs_keys b) k of
        None \<Rightarrow> ((b, tot), False)
      | Some p \<Rightarrow> ((b\<lparr>bs_keys := fst (kr_remove lay (bs_keys b) k),
            bs_stats := stats_replace (bs_stats b) (stats_for_entry p) index_stats_default\<rparr>,
          stats_replace tot (stats_for_entry p) index_stats_default), True))"
  by (simp add: unindex_row_def account_replacement_def kr_remove_def split: option.split)

lemma index_row_ok:
  assumes "rows_ok lay b" "\<And>t. gr_get (bs_gone b) k = Some t \<Longrightarrow> t < e_last_modified e"
  shows "rows_ok lay (fst (index_row lay b tot k e))"
  using assms by (auto simp: index_row_fst rows_ok_def row_order_def)

lemma unindex_row_ok: "rows_ok lay b \<Longrightarrow> rows_ok lay (fst (fst (unindex_row lay b tot k)))"
  by (auto simp: unindex_row_eq rows_ok_def row_order_def split: option.splits)

lemma unindex_row_ok_other:
  assumes "kr_ok lay (bs_keys b)" "gr_ok lay (bs_gone b)"
    and "\<And>k e t. k \<noteq> key \<Longrightarrow> kr_get (bs_keys b) k = Some e \<Longrightarrow> gr_get (bs_gone b) k = Some t
      \<Longrightarrow> t < e_last_modified e"
  shows "rows_ok lay (fst (fst (unindex_row lay b tot key)))"
proof (cases "kr_get (bs_keys b) key")
  case None
  then have "row_order b"
    using assms(3) unfolding row_order_def by (metis option.distinct(1))
  then show ?thesis
    using assms None by (simp add: unindex_row_eq rows_ok_def)
qed (use assms in \<open>auto simp: unindex_row_eq rows_ok_def row_order_def split: if_splits\<close>)

lemma unindex_row_frame [simp]:
  "fences_ok (fst (fst (unindex_row lay b tot k))) = fences_ok b"
  "rebuild_ok (fst (fst (unindex_row lay b tot k))) = rebuild_ok b"
  by (auto simp: unindex_row_eq split: option.splits)

lemma index_row_frame [simp]:
  "fences_ok (fst (index_row lay b tot k e)) = fences_ok b"
  "rebuild_ok (fst (index_row lay b tot k e)) = rebuild_ok b"
  by (simp_all add: index_row_fst)

lemma rows_ok_gone_remove: "rows_ok lay b \<Longrightarrow> rows_ok lay (b\<lparr>bs_gone := gr_remove lay (bs_gone b) k\<rparr>)"
  by (auto simp: rows_ok_def row_order_def)

lemma bucket_default_ok [simp, intro]: "bucket_ok lay bucket_default"
  by (simp add: bucket_ok_def rows_ok_def row_order_def fences_ok_def rebuild_ok_def bucket_default_def
      kr_get_def key_rows_default_def gr_get_def gone_rows_default_def u64_max_def
      kr_ok_default [unfolded key_rows_default_def] gr_ok_default [unfolded gone_rows_default_def])

lemma bucket_reset_ok [intro]: "bucket_ok lay b \<Longrightarrow> bucket_ok lay (bucket_reset b rebuild)"
  using bucket_default_ok [of lay]
  by (auto simp: bucket_ok_def rows_ok_def row_order_def fences_ok_def rebuild_ok_def bucket_reset_def
      Let_def wrapping_add64_def u64_max_def bucket_default_def)

lemma put_bucket_ok [intro]:
  assumes "bucket_ok lay b"
  shows "bucket_ok lay (fst (fst (put_bucket lay b tot key e definitive)))"
proof -
  let ?first = "definitive \<and> bs_rebuild_generation b \<noteq> None \<and> key \<notin> set (bs_rebuild_touched b)"
  let ?b = "if ?first then b\<lparr>bs_gone := gr_remove lay (bs_gone b) key\<rparr> else b"
  have "rows_ok lay (fst (index_row lay ?b tot key e))"
    if "\<not> (\<not> ?first \<and> tombstone_at_least b key (e_last_modified e))"
    using that assms
    by (intro index_row_ok) (auto simp: bucket_ok_def tombstone_at_least_def rows_ok_gone_remove
        split: if_splits option.splits)
  moreover have "fences_ok ?b" "rebuild_ok ?b"
    using assms by (simp_all add: bucket_ok_def)
  ultimately show ?thesis
    using assms by (auto simp: put_bucket_def Let_def bucket_ok_def)
qed

lemma gr_ok_sweep_for_delete: "gr_ok lay g \<Longrightarrow> gr_ok lay (sweep_for_delete lay sweep captured g ts)"
  by (auto simp: sweep_for_delete_def split: option.split)

lemma sweep_for_delete_get:
  assumes "gr_ok lay g"
  shows "gr_get (sweep_for_delete lay sweep captured g ts) k = gr_get g k
     \<or> gr_get (sweep_for_delete lay sweep captured g ts) k = None
        \<and> (\<exists>t. gr_get g k = Some t \<and> t < ts - TOMBSTONE_TTL)"
proof -
  have "om_ok (gr_map g)"
    using assms by (simp add: gr_ok_def gr_tally_ok_def)
  then show ?thesis
    using gr_sweep_get [of g lay "ts - TOMBSTONE_TTL" k]
    by (auto simp: sweep_for_delete_def systime_checked_sub_def split: option.split)
qed

lemma del_bucket_ok [intro]:
  assumes "bucket_ok lay b"
  shows "bucket_ok lay (fst (fst (del_bucket lay b tot key ts captured sweep)))"
proof -
  let ?first = "bs_rebuild_generation b \<noteq> None \<and> key \<notin> set (bs_rebuild_touched b)"
  let ?g = "sweep_for_delete lay sweep captured (bs_gone b) ts"
  let ?g' = "if ?first then gr_insert lay ?g key ts else gr_raise lay ?g key ts"
  let ?b = "b\<lparr>bs_gone := ?g'\<rparr>"
  have ok: "kr_ok lay (bs_keys b)" "gr_ok lay (bs_gone b)" "row_order b" "fences_ok b" "rebuild_ok b"
    using assms by (simp_all add: bucket_ok_def rows_ok_def)
  have g': "gr_ok lay ?g'"
    using ok(2) by (auto intro: gr_ok_sweep_for_delete)
  have others: "k \<noteq> key \<Longrightarrow> gr_get ?g' k = Some t \<Longrightarrow> gr_get (bs_gone b) k = Some t" for k t
    using sweep_for_delete_get [OF ok(2), of sweep captured ts k] by (auto simp: gr_get_raise split: if_splits)
  have kept: "row_order ?b" if "\<not> ?first \<and> (entry_newer ?b key ts \<or>
      (case gr_get ?g key of None \<Rightarrow> False | Some dead \<Rightarrow> dead > ts))"
    unfolding row_order_def
  proof (intro allI impI)
    fix k e t
    assume kt: "kr_get (bs_keys ?b) k = Some e" "gr_get (bs_gone ?b) k = Some t"
    show "t < e_last_modified e"
    proof (cases "k = key")
      case True
      have "gr_get ?g key = Some d \<Longrightarrow> d < e_last_modified e" for d
        using sweep_for_delete_get [OF ok(2), of sweep captured ts key] ok(3) kt(1) True
        by (auto simp: row_order_def)
      moreover have "ts < e_last_modified e"
        using that calculation kt(1) True by (force simp: entry_newer_def split: option.splits)
      ultimately show ?thesis
        using kt(2) that True by (auto simp: gr_get_raise split: option.splits)
    qed (use kt others ok(3) in \<open>auto simp: row_order_def\<close>)
  qed
  have removed: "rows_ok lay (fst (fst (unindex_row lay (touch (clear_uncertain ?b key) key) tot key)))"
  proof (rule unindex_row_ok_other)
    fix k e t
    assume "k \<noteq> key" "kr_get (bs_keys (touch (clear_uncertain ?b key) key)) k = Some e"
      "gr_get (bs_gone (touch (clear_uncertain ?b key) key)) k = Some t"
    then show "t < e_last_modified e"
      using others [of k t] ok(3) unfolding row_order_def by simp
  qed (use ok g' in simp_all)
  show ?thesis
    using ok g' kept removed
    by (auto simp: del_bucket_def Let_def bucket_ok_def rows_ok_def)
qed

section \<open>Every operation keeps the invariant\<close>

lemma index_ok_entry: "index_ok lay st \<Longrightarrow> bucket_ok lay (bucket_entry st n)"
  by (auto simp: index_ok_def bucket_entry_def bucket_get_def split: option.split dest!: map_of_SomeD)

lemma index_ok_set:
  assumes "index_ok lay st" "bucket_ok lay b" "ki_buckets st' = om_insert n b (ki_buckets st)"
    and "om_ok (ki_native_cuts st')" "length (ki_native_cuts st') \<le> MAX_NATIVE_WRITERS"
  shows "index_ok lay st'"
  using assms by (auto simp: index_ok_def dest!: om_set_insertD)

lemma index_ok_same:
  assumes "index_ok lay st" "ki_buckets st' = ki_buckets st"
    and "om_ok (ki_native_cuts st')" "length (ki_native_cuts st') \<le> MAX_NATIVE_WRITERS"
  shows "index_ok lay st'"
  using assms by (simp add: index_ok_def)

lemma length_om_insert_present:
  "om_ok m \<Longrightarrow> map_of m k \<noteq> None \<Longrightarrow> length (om_insert k v m) = length m"
  by (auto simp: om_length_insert)

lemma length_om_insert_room: "om_ok m \<Longrightarrow> length m < n \<Longrightarrow> length (om_insert k v m) \<le> n"
  by (auto simp: om_length_insert split: option.split)

lemma cuts_ok_note:
  assumes "om_ok (ki_native_cuts st)" "length (ki_native_cuts st) \<le> MAX_NATIVE_WRITERS"
  shows "om_ok (ki_native_cuts (fst (note_native_cut st nc)))"
    and "length (ki_native_cuts (fst (note_native_cut st nc))) \<le> MAX_NATIVE_WRITERS"
  using assms
  by (auto simp: note_native_cut_def Let_def length_om_insert_present length_om_insert_room
      split: option.splits prod.splits)

lemma cuts_ok_identity:
  assumes "om_ok (ki_native_cuts st)" "length (ki_native_cuts st) \<le> MAX_NATIVE_WRITERS"
  shows "om_ok (ki_native_cuts (fst (note_identity st i)))"
    and "length (ki_native_cuts (fst (note_identity st i))) \<le> MAX_NATIVE_WRITERS"
  using assms cuts_ok_note by (auto simp: note_identity_def split: option.split delta_identity.split)

lemma index_ok_cuts:
  assumes "index_ok lay st"
  shows "om_ok (ki_native_cuts st)" "length (ki_native_cuts st) \<le> MAX_NATIVE_WRITERS"
  using assms by (simp_all add: index_ok_def)

lemma index_ok_default [simp, intro]: "index_ok lay key_index_default"
  by (simp add: index_ok_def key_index_default_def MAX_NATIVE_WRITERS_def)

lemma index_ok_note [wf_intros]: "index_ok lay st \<Longrightarrow> index_ok lay (fst (note_native_cut st nc))"
  by (rule index_ok_same) (auto intro: cuts_ok_note index_ok_cuts)

lemma index_ok_note_identity [wf_intros]: "index_ok lay st \<Longrightarrow> index_ok lay (fst (note_identity st i))"
  by (rule index_ok_same) (auto intro: cuts_ok_identity index_ok_cuts)

lemma index_ok_journal [wf_intros]: "index_ok lay st \<Longrightarrow> index_ok lay (journal f st)"
  by (simp add: index_ok_def)

lemma index_ok_put [wf_intros]:
  assumes "index_ok lay st"
  shows "index_ok lay (fst (apply_put_with_authority lay st bucket key e auth i))"
proof (cases "snd (note_identity st i)")
  case True
  show ?thesis
    by (rule index_ok_set [OF assms _ put_effect(1) [OF True]])
      (use assms cuts_ok_identity [OF index_ok_cuts [OF assms]] in
        \<open>simp_all add: put_effect(5) put_bucket_ok index_ok_entry\<close>)
qed (use assms in \<open>simp add: put_effect(4) index_ok_note_identity\<close>)

lemma index_ok_del [wf_intros]:
  assumes "index_ok lay st"
  shows "index_ok lay (fst (apply_del_with_identity lay st bucket key ts i sweep))"
proof (cases "snd (note_identity st i)")
  case True
  show ?thesis
    by (rule index_ok_set [OF assms _ del_effect(1) [OF True]])
      (use assms cuts_ok_identity [OF index_ok_cuts [OF assms]] in
        \<open>simp_all add: del_effect(5) del_bucket_ok index_ok_entry\<close>)
qed (use assms in \<open>simp add: del_effect(4) index_ok_note_identity\<close>)

lemma fence_bucket_ok:
  assumes "bucket_ok lay b" "checked_add64 (bs_uncertainty_epoch b) 1 = Some token"
  shows "bucket_ok lay (b\<lparr>bs_uncertainty_epoch := token,
            bs_uncertain_keys := om_insert key token (bs_uncertain_keys b)\<rparr>)"
proof -
  have token: "token = Suc (bs_uncertainty_epoch b)" "token \<le> u64_max"
    using assms(2) by (auto simp: checked_add64_Some)
  have fences: "fences_ok b"
    using assms(1) by (simp add: bucket_ok_def)
  have fresh: "map_of (bs_uncertain_keys b) k \<noteq> Some token" for k
    using fences token by (force simp: fences_ok_def)
  have "fences_ok (b\<lparr>bs_uncertainty_epoch := token,
            bs_uncertain_keys := om_insert key token (bs_uncertain_keys b)\<rparr>)"
    using fences fresh token unfolding fences_ok_def by (force simp: le_Suc_eq)
  then show ?thesis
    using assms(1) by (simp add: bucket_ok_def rows_ok_def row_order_def rebuild_ok_def split: option.splits)
qed

lemma index_ok_fence [wf_intros]:
  assumes "index_ok lay st" "fence_key st bucket key = Some (st', token)"
  shows "index_ok lay st'"
proof -
  have token: "checked_add64 (bs_uncertainty_epoch (bucket_entry st bucket)) 1 = Some token"
    using assms(2) by (auto simp: fence_key_def Let_def split: option.splits)
  show ?thesis
    by (rule index_ok_set [OF assms(1) fence_bucket_ok [OF index_ok_entry [OF assms(1)] token]])
      (use assms token in \<open>auto simp: fence_key_def Let_def index_ok_def\<close>)
qed

lemma resolve_bucket_ok:
  assumes "bucket_ok lay b"
  shows "bucket_ok lay (fst (index_row lay (b\<lparr>bs_gone := gr_remove lay (bs_gone b) key\<rparr>) tot key e))"
    and "bucket_ok lay (fst (fst (unindex_row lay (b\<lparr>bs_gone := gr_raise lay (bs_gone b) key now\<rparr>) tot key)))"
proof -
  show "bucket_ok lay (fst (index_row lay (b\<lparr>bs_gone := gr_remove lay (bs_gone b) key\<rparr>) tot key e))"
    using assms by (auto simp: bucket_ok_def intro!: index_row_ok rows_ok_gone_remove)
  have "rows_ok lay (fst (fst (unindex_row lay (b\<lparr>bs_gone := gr_raise lay (bs_gone b) key now\<rparr>) tot key)))"
    using assms
    by (intro unindex_row_ok_other) (auto simp: bucket_ok_def rows_ok_def row_order_def gr_get_raise)
  then show "bucket_ok lay (fst (fst (unindex_row lay (b\<lparr>bs_gone := gr_raise lay (bs_gone b) key now\<rparr>) tot key)))"
    using assms by (simp add: bucket_ok_def)
qed

lemma bucket_ok_touch_clear: "bucket_ok lay b \<Longrightarrow> bucket_ok lay (touch (clear_uncertain b key) key)"
  by (auto simp: bucket_ok_def)

lemma index_ok_resolve [wf_intros]:
  assumes "index_ok lay st"
  shows "index_ok lay (fst (resolve_uncertain_key lay now st bucket key token a))"
proof (cases "uncertain_key_is_current st bucket key token")
  case True
  then obtain b where b: "bucket_get st bucket = Some b" "map_of (bs_uncertain_keys b) key = Some token"
    by (auto simp: uncertain_key_is_current_def split: option.splits)
  then have ok: "bucket_ok lay b"
    using index_ok_entry [OF assms, of bucket] by (simp add: bucket_entry_def)
  let ?r = "case a of
      Present e \<Rightarrow> index_row lay (b\<lparr>bs_gone := gr_remove lay (bs_gone b) key\<rparr>) (ki_stats st) key e
    | Absent \<Rightarrow> fst (unindex_row lay (b\<lparr>bs_gone := gr_raise lay (bs_gone b) key now\<rparr>) (ki_stats st) key)"
  have "bucket_ok lay (touch (clear_uncertain (fst ?r) key) key)"
    using resolve_bucket_ok [OF ok] by (intro bucket_ok_touch_clear) (simp split: authoritative_key_state.split)
  then show ?thesis
    by (rule index_ok_set [OF assms])
      (use assms b in \<open>auto simp: resolve_uncertain_key_def case_prod_beta index_ok_def\<close>)
qed (use assms in \<open>auto simp: resolve_uncertain_key_def uncertain_key_is_current_def split: option.splits\<close>)

lemma index_ok_begin [wf_intros]: "index_ok lay st \<Longrightarrow> index_ok lay (fst (begin_bucket_resync st bucket))"
  by (rule index_ok_set [OF _ bucket_reset_ok [OF index_ok_entry]])
    (auto simp: begin_bucket_resync_def Let_def index_ok_def)

lemma map_fst_map_snd: "map (fst \<circ> (\<lambda>(n, b). (n, f b))) m = map fst m"
  by (induction m) auto

lemma index_ok_discard [wf_intros]: "index_ok lay st \<Longrightarrow> index_ok lay (discard_buckets st)"
  by (auto simp: index_ok_def discard_buckets_def Let_def om_ok_def map_fst_map_snd)

lemma cut_moves_ok:
  assumes "index_ok lay st"
  shows "index_ok lay (skip_native_gap st nc)" "index_ok lay (register_native_writer st nc)"
    and "index_ok lay (renew_native_writer st nc epoch)"
  using index_ok_cuts [OF assms] assms
  by (auto simp: skip_native_gap_def register_native_writer_def renew_native_writer_def Let_def
      length_om_insert_present length_om_insert_room index_ok_journal not_le
      intro!: index_ok_same [OF assms] split: option.split)

lemma index_ok_seal [wf_intros]: "index_ok lay st \<Longrightarrow> index_ok lay (note_native_seal st nc)"
  using index_ok_note [of lay st nc]
  by (auto simp: note_native_seal_def index_ok_journal split: prod.splits bool.splits)

lemma fold_list_row_ok:
  assumes "bucket_ok lay (fst acc)"
  shows "bucket_ok lay (fst (fold_list_row lay row acc))"
  using assms
  by (auto simp: fold_list_row_def bucket_ok_def list_row_admitted_def split: prod.splits option.splits
      intro!: index_row_ok)

lemma fold_rows_ok:
  "bucket_ok lay (fst acc) \<Longrightarrow> bucket_ok lay (fst (fold (fold_list_row lay) listed acc))"
  by (induction listed arbitrary: acc) (simp_all add: fold_list_row_ok)

lemma index_ok_listing [wf_intros]:
  assumes "index_ok lay st"
  shows "index_ok lay (fst (sync_listing_into_generation lay st bucket generation listed))"
proof (rule index_ok_set [OF assms])
  let ?b = "bucket_entry st bucket"
  show "bucket_ok lay (if owns_rebuild ?b generation
      then fst (fold (fold_list_row lay) listed (?b, ki_stats st)) else ?b)"
    using index_ok_entry [OF assms] by (simp add: fold_rows_ok)
qed (use assms in \<open>auto simp: sync_listing_into_generation_def Let_def case_prod_beta index_ok_def\<close>)

lemma index_ok_finish [wf_intros]:
  assumes "index_ok lay st"
  shows "index_ok lay (fst (finish_bucket_sync_generation st bucket generation))"
proof (rule index_ok_set [OF assms])
  let ?b = "bucket_entry st bucket"
  show "bucket_ok lay (if owns_rebuild ?b generation
      then ?b\<lparr>bs_synced := True, bs_rebuild_generation := None, bs_rebuild_touched := []\<rparr> else ?b)"
    using index_ok_entry [OF assms, of bucket]
    by (auto simp: bucket_ok_def rows_ok_def row_order_def fences_ok_def rebuild_ok_def)
qed (use assms in \<open>auto simp: finish_bucket_sync_generation_def Let_def index_ok_def\<close>)

lemma complete_row_stamp: "e_last_modified (fst (complete_row fill e)) = e_last_modified e"
  by (simp add: complete_row_def fill_entry_def Let_def)

lemma complete_keys_ok:
  assumes "bucket_ok lay b"
  shows "bucket_ok lay (b\<lparr>bs_keys := fst (kr_update lay (bs_keys b) key (complete_row fill))\<rparr>)"
  using assms
  by (auto simp: bucket_ok_def rows_ok_def row_order_def kr_get_update complete_row_stamp)

lemma complete_effect:
  assumes "bucket_get st bucket = Some b"
  shows "\<exists>s. ki_buckets (fst (complete_entry lay st bucket key fill)) = ki_buckets st
    \<or> ki_buckets (fst (complete_entry lay st bucket key fill)) =
        om_insert bucket (b\<lparr>bs_keys := fst (kr_update lay (bs_keys b) key (complete_row fill)), bs_stats := s\<rparr>)
          (ki_buckets st)"
  using assms
  by (cases b)
    (auto simp: complete_entry_def Let_def account_replacement_def split: prod.splits option.splits)

lemma complete_native: "ki_native_cuts (fst (complete_entry lay st bucket key fill)) = ki_native_cuts st"
  by (auto simp: complete_entry_def Let_def account_replacement_def split: prod.splits option.splits)

lemma index_ok_complete [wf_intros]:
  assumes "index_ok lay st"
  shows "index_ok lay (fst (complete_entry lay st bucket key fill))"
proof (cases "bucket_get st bucket")
  case (Some b)
  then have "bucket_ok lay b"
    using index_ok_entry [OF assms, of bucket] by (simp add: bucket_entry_def)
  then have ok: "bucket_ok lay (b\<lparr>bs_keys := fst (kr_update lay (bs_keys b) key (complete_row fill)), bs_stats := s\<rparr>)" for s
    using complete_keys_ok [of lay b key fill] by (simp add: bucket_ok_def)
  show ?thesis
    using complete_effect [OF Some, of lay key fill] index_ok_cuts [OF assms]
      index_ok_set [OF assms ok] index_ok_same [OF assms] by (metis complete_native)
qed (use assms in \<open>simp add: complete_entry_def\<close>)

lemma om_set_remove: "set (om_remove k m) = {p \<in> set m. fst p \<noteq> k}"
  by (auto simp: om_remove_def)

lemma index_ok_remove [wf_intros]: "index_ok lay st \<Longrightarrow> index_ok lay (remove_bucket st bucket)"
  by (auto simp: index_ok_def remove_bucket_def Let_def om_set_remove split: option.split)

end
