(* ===== verification/Index_Steps.thy ===== *)
theory Index_Steps
  imports Index_Inv
begin

text \<open>
  The index as a state machine: one rule per operation of \<^verbatim>\<open>index.rs\<close> and of the native
  bookkeeping, labelled with the logical sizes of the rows handed to it. The O(1) statistics
  are exact in every state reached while those sizes sum below 2^64.
\<close>

section \<open>The step relation\<close>

definition row_bytes :: "obj_entry \<Rightarrow> nat" where
  "row_bytes e = logical_bytes (stats_for_entry e)"

definition size_bytes :: "int option \<Rightarrow> nat" where
  "size_bytes x = (case x of None \<Rightarrow> 0 | Some s \<Rightarrow> if 0 \<le> s then nat s else 0)"

fun resolved_rows :: "authoritative_key_state \<Rightarrow> nat list" where
  "resolved_rows (Present e) = [row_bytes e]"
| "resolved_rows Absent = []"

inductive index_step :: "layout \<Rightarrow> key_index_state \<Rightarrow> nat list \<Rightarrow> key_index_state \<Rightarrow> bool" for lay where
  Put: "index_step lay st [row_bytes e] (fst (apply_put_with_authority lay st bucket key e auth i))"
| Del: "index_step lay st [] (fst (apply_del_with_identity lay st bucket key ts i sweep))"
| Fence: "fence_key st bucket key = Some (st', token) \<Longrightarrow> index_step lay st [] st'"
| Note_Cut: "index_step lay st [] (fst (note_native_cut st nc))"
| Seal: "index_step lay st [] (note_native_seal st nc)"
| Register: "index_step lay st [] (register_native_writer st nc)"
| Renewal: "index_step lay st [] (renew_native_writer st nc epoch)"
| Resolve: "index_step lay st (resolved_rows a) (fst (resolve_uncertain_key lay now st bucket key token a))"
| Resync: "index_step lay st [] (fst (begin_bucket_resync st bucket))"
| Discard: "index_step lay st [] (discard_for_gap st nc)"
| Listing: "index_step lay st (map (\<lambda>r. row_bytes (snd r)) listed)
    (fst (sync_listing_into_generation lay st bucket generation listed))"
| Finish: "index_step lay st [] (fst (finish_bucket_sync_generation st bucket generation))"
| Complete: "index_step lay st [size_bytes (f_size fill)] (fst (complete_entry lay st bucket key fill))"
| Remove: "index_step lay st [] (remove_bucket st bucket)"
| Capture: "index_step lay st [] (st\<lparr>ki_capture := c\<rparr>)"

inductive index_run :: "layout \<Rightarrow> nat list \<Rightarrow> key_index_state \<Rightarrow> bool" for lay where
  Start: "index_run lay [] key_index_default"
| Step: "index_run lay ls st \<Longrightarrow> index_step lay st l st' \<Longrightarrow> index_run lay (ls @ l) st'"

inductive_cases index_stepE: "index_step lay st l st'"

lemma index_step_ok:
  assumes "index_step lay st l st'" "index_ok lay st"
  shows "index_ok lay st'"
  using assms
  by (cases rule: index_step.cases)
    (auto simp: discard_for_gap_def intro: wf_intros cut_moves_ok, auto simp: index_ok_def)

lemma index_run_ok: "index_run lay ls st \<Longrightarrow> index_ok lay st"
  by (induction rule: index_run.induct) (auto intro: index_step_ok)

section \<open>Exact statistics\<close>

definition exact_objects :: "key_rows \<Rightarrow> int" where
  "exact_objects r = om_sum (\<lambda>_ _. 1) (kr_map r)"

definition exact_bytes :: "key_rows \<Rightarrow> int" where
  "exact_bytes r = om_sum (\<lambda>_ e. int (row_bytes e)) (kr_map r)"

definition stats_exact :: "bucket_state \<Rightarrow> bool" where
  "stats_exact b \<longleftrightarrow> int (objects (bs_stats b)) = exact_objects (bs_keys b)
     \<and> int (logical_bytes (bs_stats b)) = exact_bytes (bs_keys b)"

definition index_exact :: "key_index_state \<Rightarrow> bool" where
  "index_exact st \<longleftrightarrow> (\<forall>(n, b) \<in> set (ki_buckets st). stats_exact b)
     \<and> int (objects (ki_stats st)) = om_sum (\<lambda>_ b. int (objects (bs_stats b))) (ki_buckets st)
     \<and> int (logical_bytes (ki_stats st)) = om_sum (\<lambda>_ b. int (logical_bytes (bs_stats b))) (ki_buckets st)"

text \<open>A bucket change accounted exactly, in the bucket and in the totals.\<close>

definition acct :: "bucket_state \<Rightarrow> index_stats \<Rightarrow> bucket_state \<Rightarrow> index_stats \<Rightarrow> bool" where
  "acct b tot b' tot' \<longleftrightarrow> stats_exact b'
     \<and> int (objects tot') - int (objects tot) = int (objects (bs_stats b')) - int (objects (bs_stats b))
     \<and> int (logical_bytes tot') - int (logical_bytes tot)
         = int (logical_bytes (bs_stats b')) - int (logical_bytes (bs_stats b))"

definition stats_le :: "index_stats \<Rightarrow> index_stats \<Rightarrow> bool" where
  "stats_le a b \<longleftrightarrow> objects a \<le> objects b \<and> logical_bytes a \<le> logical_bytes b"

definition room :: "index_stats \<Rightarrow> nat list \<Rightarrow> bool" where
  "room s ls \<longleftrightarrow> objects s + length ls \<le> u64_max \<and> logical_bytes s + sum_list ls \<le> u64_max"

definition grows :: "index_stats \<Rightarrow> nat list \<Rightarrow> index_stats \<Rightarrow> bool" where
  "grows s ls s' \<longleftrightarrow> objects s' \<le> objects s + length ls \<and> logical_bytes s' \<le> logical_bytes s + sum_list ls"

lemma om_sum_nonneg: "(\<And>k v. 0 \<le> f k v) \<Longrightarrow> (0 :: int) \<le> om_sum f m"
  by (induction m) auto

lemma om_weight_le_sum:
  assumes "\<And>k v. 0 \<le> f k v"
  shows "om_weight f k (map_of m k) \<le> (om_sum f m :: int)"
proof (induction m)
  case (Cons p m)
  then show ?case
    using assms [of "fst p" "snd p"] om_sum_nonneg [of f m, OF assms] by (cases p) auto
qed simp

lemma exact_insert:
  assumes "kr_ok lay r"
  shows "exact_objects (fst (kr_insert lay r k e)) =
      exact_objects r + 1 - int (objects (entry_stats_opt (kr_get r k)))"
    and "exact_bytes (fst (kr_insert lay r k e)) =
      exact_bytes r + int (row_bytes e) - int (logical_bytes (entry_stats_opt (kr_get r k)))"
  using assms
  by (auto simp: exact_objects_def exact_bytes_def kr_ok_def om_sum_insert kr_get_def row_bytes_def
      entry_stats_opt_def split: option.split)

lemma exact_remove:
  assumes "kr_ok lay r"
  shows "exact_objects (fst (kr_remove lay r k)) = exact_objects r - int (objects (entry_stats_opt (kr_get r k)))"
    and "exact_bytes (fst (kr_remove lay r k)) = exact_bytes r - int (logical_bytes (entry_stats_opt (kr_get r k)))"
  using assms
  by (auto simp: exact_objects_def exact_bytes_def kr_ok_def om_sum_remove kr_get_def row_bytes_def
      entry_stats_opt_def split: option.split)

lemma entry_stats_le:
  assumes "stats_exact b" "kr_ok lay (bs_keys b)"
  shows "stats_le (entry_stats_opt (kr_get (bs_keys b) k)) (bs_stats b)"
proof -
  have "om_weight (\<lambda>_ _. 1 :: int) k (map_of (kr_map (bs_keys b)) k) \<le> exact_objects (bs_keys b)"
    "om_weight (\<lambda>_ e. int (row_bytes e)) k (map_of (kr_map (bs_keys b)) k) \<le> exact_bytes (bs_keys b)"
    by (simp_all add: exact_objects_def exact_bytes_def om_weight_le_sum)
  then show ?thesis
    using assms(1)
    by (auto simp: stats_le_def stats_exact_def kr_get_def row_bytes_def entry_stats_opt_def split: option.splits)
qed

lemma stats_replace_exact:
  assumes "stats_le previous s" "objects s + objects current \<le> u64_max"
    and "logical_bytes s + logical_bytes current \<le> u64_max"
  shows "int (objects (stats_replace s previous current)) = int (objects s) - int (objects previous) + int (objects current)"
    and "int (logical_bytes (stats_replace s previous current))
      = int (logical_bytes s) - int (logical_bytes previous) + int (logical_bytes current)"
  using assms by (auto simp: stats_replace_def stats_le_def saturating_add64_def)

lemma stats_le_trans: "stats_le a b \<Longrightarrow> stats_le b c \<Longrightarrow> stats_le a c"
  by (auto simp: stats_le_def)

lemma index_row_acct:
  assumes "stats_exact b" "kr_ok lay (bs_keys b)" "stats_le (bs_stats b) tot" "room tot [row_bytes e]"
  shows "acct b tot (fst (index_row lay b tot k e)) (snd (index_row lay b tot k e))"
    and "grows tot [row_bytes e] (snd (index_row lay b tot k e))"
    and "stats_le (bs_stats (fst (index_row lay b tot k e))) (snd (index_row lay b tot k e))"
proof -
  note le = entry_stats_le [OF assms(1,2), of k]
  have r: "objects tot + 1 \<le> u64_max" "logical_bytes tot + logical_bytes (stats_for_entry e) \<le> u64_max"
    using assms(4) by (simp_all add: room_def row_bytes_def)
  note t = stats_replace_exact [OF stats_le_trans [OF le assms(3)], of "stats_for_entry e"]
  note b = stats_replace_exact [OF le, of "stats_for_entry e"]
  show "acct b tot (fst (index_row lay b tot k e)) (snd (index_row lay b tot k e))"
    using r t b assms(1,3) exact_insert [OF assms(2), of k e]
    by (simp add: acct_def stats_exact_def index_row_fst index_row_snd stats_le_def row_bytes_def)
  show "grows tot [row_bytes e] (snd (index_row lay b tot k e))"
    using r t by (simp add: grows_def index_row_snd row_bytes_def)
  show "stats_le (bs_stats (fst (index_row lay b tot k e))) (snd (index_row lay b tot k e))"
    using r t b assms(3) by (simp add: stats_le_def index_row_fst index_row_snd)
qed

lemma unindex_row_acct:
  assumes "stats_exact b" "kr_ok lay (bs_keys b)" "stats_le (bs_stats b) tot" "room tot []"
  shows "acct b tot (fst (fst (unindex_row lay b tot k))) (snd (fst (unindex_row lay b tot k)))"
    and "grows tot [] (snd (fst (unindex_row lay b tot k)))"
proof -
  note le = entry_stats_le [OF assms(1,2), of k]
  note t = stats_replace_exact [OF stats_le_trans [OF le assms(3)], of index_stats_default]
  note b = stats_replace_exact [OF le, of index_stats_default]
  show "acct b tot (fst (fst (unindex_row lay b tot k))) (snd (fst (unindex_row lay b tot k)))"
    "grows tot [] (snd (fst (unindex_row lay b tot k)))"
    using t b assms exact_remove [OF assms(2), of k]
    by (auto simp: acct_def grows_def stats_exact_def unindex_row_eq stats_le_def room_def split: option.split)
qed

lemma stats_exact_frame [simp]:
  "stats_exact (touch b k) = stats_exact b"
  "stats_exact (clear_uncertain b k) = stats_exact b"
  "stats_exact (b\<lparr>bs_gone := g\<rparr>) = stats_exact b"
  by (simp_all add: stats_exact_def)

lemma acct_frame [simp]:
  "acct b tot (touch b' k) tot' = acct b tot b' tot'"
  "acct b tot (clear_uncertain b' k) tot' = acct b tot b' tot'"
  "acct b tot (b'\<lparr>bs_gone := g\<rparr>) tot' = acct b tot b' tot'"
  "acct (b\<lparr>bs_gone := g\<rparr>) tot b' tot' = acct b tot b' tot'"
  "acct (touch b k) tot b' tot' = acct b tot b' tot'"
  "acct (clear_uncertain b k) tot b' tot' = acct b tot b' tot'"
  by (simp_all add: acct_def)

lemma acct_refl: "stats_exact b \<Longrightarrow> acct b tot b tot"
  by (simp add: acct_def)

lemma grows_refl [simp]: "grows s ls s"
  by (simp add: grows_def)

lemma grows_trans: "grows s ls s' \<Longrightarrow> grows s' ls' s'' \<Longrightarrow> grows s (ls @ ls') s''"
  by (auto simp: grows_def)

lemma room_append: "room s (ls @ ls') \<Longrightarrow> grows s ls s' \<Longrightarrow> room s' ls'"
  by (auto simp: grows_def room_def)

lemma bucket_sum_weight:
  "om_weight (\<lambda>_ b. int (f (bs_stats b))) n (map_of (ki_buckets st) n) = int (f (bs_stats (bucket_entry st n)))
    \<or> bucket_get st n = None"
  by (auto simp: bucket_entry_def bucket_get_def split: option.splits)

lemma index_exact_entry:
  assumes "index_exact st"
  shows "stats_exact (bucket_entry st n)" "stats_le (bs_stats (bucket_entry st n)) (ki_stats st)"
proof -
  have def0: "bs_stats bucket_default = index_stats_default" "stats_exact bucket_default"
    by (simp_all add: bucket_default_def stats_exact_def exact_objects_def exact_bytes_def key_rows_default_def)
  then show "stats_exact (bucket_entry st n)"
    using assms by (auto simp: index_exact_def bucket_entry_def bucket_get_def split: option.split dest!: map_of_SomeD)
  have "om_weight (\<lambda>_ b. int (objects (bs_stats b))) n (map_of (ki_buckets st) n) \<le> int (objects (ki_stats st))"
    "om_weight (\<lambda>_ b. int (logical_bytes (bs_stats b))) n (map_of (ki_buckets st) n) \<le> int (logical_bytes (ki_stats st))"
    using assms unfolding index_exact_def by (simp_all add: om_weight_le_sum)
  then show "stats_le (bs_stats (bucket_entry st n)) (ki_stats st)"
    using def0 by (auto simp: stats_le_def bucket_entry_def bucket_get_def split: option.splits)
qed

lemma index_exact_set:
  assumes "index_exact st" "om_ok (ki_buckets st)"
    and "acct (bucket_entry st n) (ki_stats st) b' (ki_stats st')"
    and "ki_buckets st' = om_insert n b' (ki_buckets st)"
  shows "index_exact st'"
proof -
  have w: "om_weight (\<lambda>_ b. int (objects (bs_stats b))) n (map_of (ki_buckets st) n) = int (objects (bs_stats (bucket_entry st n)))"
    "om_weight (\<lambda>_ b. int (logical_bytes (bs_stats b))) n (map_of (ki_buckets st) n) = int (logical_bytes (bs_stats (bucket_entry st n)))"
    by (simp_all add: bucket_entry_def bucket_get_def bucket_default_def split: option.split)
  have sums: "om_sum (\<lambda>_ b. int (objects (bs_stats b))) (ki_buckets st') =
      om_sum (\<lambda>_ b. int (objects (bs_stats b))) (ki_buckets st) + int (objects (bs_stats b'))
        - int (objects (bs_stats (bucket_entry st n)))"
    "om_sum (\<lambda>_ b. int (logical_bytes (bs_stats b))) (ki_buckets st') =
      om_sum (\<lambda>_ b. int (logical_bytes (bs_stats b))) (ki_buckets st) + int (logical_bytes (bs_stats b'))
        - int (logical_bytes (bs_stats (bucket_entry st n)))"
    unfolding assms(4) om_sum_insert [OF assms(2)] w by simp_all
  have "\<forall>(m, b) \<in> set (ki_buckets st'). stats_exact b"
    using assms(1,3,4) by (auto simp: index_exact_def acct_def dest!: om_set_insertD)
  then show ?thesis
    using assms(1,3) sums by (simp add: index_exact_def acct_def)
qed

lemma index_exact_same:
  "index_exact st \<Longrightarrow> ki_buckets st' = ki_buckets st \<Longrightarrow> ki_stats st' = ki_stats st \<Longrightarrow> index_exact st'"
  by (simp add: index_exact_def)

text \<open>What a step of the state machine does to the accounting.\<close>

definition acct_step :: "nat list \<Rightarrow> key_index_state \<Rightarrow> key_index_state \<Rightarrow> bool" where
  "acct_step ls st st' \<longleftrightarrow> index_exact st' \<and> grows (ki_stats st) ls (ki_stats st')"

lemma acct_step_same:
  "index_exact st \<Longrightarrow> ki_buckets st' = ki_buckets st \<Longrightarrow> ki_stats st' = ki_stats st \<Longrightarrow> acct_step ls st st'"
  by (simp add: acct_step_def index_exact_same)

lemma acct_step_set:
  assumes "index_exact st" "om_ok (ki_buckets st)"
    and "acct (bucket_entry st n) (ki_stats st) b' (ki_stats st')" "grows (ki_stats st) ls (ki_stats st')"
    and "ki_buckets st' = om_insert n b' (ki_buckets st)"
  shows "acct_step ls st st'"
  using index_exact_set [OF assms(1-3,5)] assms(4) by (simp add: acct_step_def)

lemma put_bucket_shape:
  obtains (same) "fst (put_bucket lay b tot key e d) = (b, tot)"
  | (row) g where "fst (put_bucket lay b tot key e d) =
      (if d then touch (clear_uncertain (fst (index_row lay (b\<lparr>bs_gone := g\<rparr>) tot key e)) key) key
       else fst (index_row lay (b\<lparr>bs_gone := g\<rparr>) tot key e),
       snd (index_row lay (b\<lparr>bs_gone := g\<rparr>) tot key e))"
proof -
  let ?first = "d \<and> bs_rebuild_generation b \<noteq> None \<and> key \<notin> set (bs_rebuild_touched b)"
  let ?g = "if ?first then gr_remove lay (bs_gone b) key else bs_gone b"
  have b: "(if ?first then b\<lparr>bs_gone := gr_remove lay (bs_gone b) key\<rparr> else b) = b\<lparr>bs_gone := ?g\<rparr>"
    by (cases ?first) auto
  let ?r = "index_row lay (b\<lparr>bs_gone := ?g\<rparr>) tot key e"
  have "fst (put_bucket lay b tot key e d) = (b, tot) \<or>
      fst (put_bucket lay b tot key e d) =
        (if d then touch (clear_uncertain (fst ?r) key) key else fst ?r, snd ?r)"
    unfolding put_bucket_def Let_def b by (simp only: if_distrib [of fst] fst_conv split: if_split) blast
  then show thesis
    using same row by blast
qed

lemma put_acct:
  assumes "index_exact st" "index_ok lay st" "room (ki_stats st) [row_bytes e]"
  shows "acct_step [row_bytes e] st (fst (apply_put_with_authority lay st bucket key e auth i))"
proof (cases "snd (note_identity st i)")
  case True
  let ?b = "bucket_entry st bucket"
  let ?p = "put_bucket lay ?b (ki_stats st) key e (auth = DefinitiveMutation)"
  have kr: "kr_ok lay (bs_keys ?b)"
    using index_ok_entry [OF assms(2), of bucket] by (simp add: bucket_ok_def rows_ok_def)
  note e = index_exact_entry [OF assms(1), of bucket]
  have "acct ?b (ki_stats st) (fst (fst ?p)) (snd (fst ?p)) \<and> grows (ki_stats st) [row_bytes e] (snd (fst ?p))"
  proof (cases rule: put_bucket_shape [of lay ?b "ki_stats st" key e "auth = DefinitiveMutation"])
    case same
    then show ?thesis
      using acct_refl [OF e(1)] by simp
  next
    case (row g)
    have "acct (?b\<lparr>bs_gone := g\<rparr>) (ki_stats st) (fst (index_row lay (?b\<lparr>bs_gone := g\<rparr>) (ki_stats st) key e))
        (snd (index_row lay (?b\<lparr>bs_gone := g\<rparr>) (ki_stats st) key e))"
      "grows (ki_stats st) [row_bytes e] (snd (index_row lay (?b\<lparr>bs_gone := g\<rparr>) (ki_stats st) key e))"
      by (rule index_row_acct; use e kr assms(3) in simp)+
    then show ?thesis
      unfolding row by simp
  qed
  then show ?thesis
    using put_effect(1,2) [OF True] assms
    by (intro acct_step_set [of _ bucket]) (auto simp: index_ok_def)
qed (use assms in \<open>auto simp: put_effect(4) intro: acct_step_same\<close>)

lemma del_bucket_shape:
  obtains (same) g where "fst (del_bucket lay b tot key ts c sweep) = (b\<lparr>bs_gone := g\<rparr>, tot)"
  | (row) g where "fst (del_bucket lay b tot key ts c sweep) =
      fst (unindex_row lay (touch (clear_uncertain (b\<lparr>bs_gone := g\<rparr>) key) key) tot key)"
proof -
  let ?sw = "sweep_for_delete lay sweep c (bs_gone b) ts"
  let ?g = "if bs_rebuild_generation b \<noteq> None \<and> key \<notin> set (bs_rebuild_touched b)
    then gr_insert lay ?sw key ts else gr_raise lay ?sw key ts"
  have "fst (del_bucket lay b tot key ts c sweep) = (b\<lparr>bs_gone := ?g\<rparr>, tot) \<or>
      fst (del_bucket lay b tot key ts c sweep) =
        fst (unindex_row lay (touch (clear_uncertain (b\<lparr>bs_gone := ?g\<rparr>) key) key) tot key)"
    unfolding del_bucket_def Let_def by (simp only: if_distrib [of fst] fst_conv split: if_split) blast
  then show thesis
    using same row by blast
qed

lemma del_acct:
  assumes "index_exact st" "index_ok lay st" "room (ki_stats st) []"
  shows "acct_step [] st (fst (apply_del_with_identity lay st bucket key ts i sweep))"
proof (cases "snd (note_identity st i)")
  case True
  let ?b = "bucket_entry st bucket"
  let ?p = "del_bucket lay ?b (ki_stats st) key ts (ki_capture st \<noteq> None) sweep"
  have kr: "kr_ok lay (bs_keys ?b)"
    using index_ok_entry [OF assms(2), of bucket] by (simp add: bucket_ok_def rows_ok_def)
  note e = index_exact_entry [OF assms(1), of bucket]
  have "acct ?b (ki_stats st) (fst (fst ?p)) (snd (fst ?p)) \<and> grows (ki_stats st) [] (snd (fst ?p))"
  proof (cases rule: del_bucket_shape [of lay ?b "ki_stats st" key ts "ki_capture st \<noteq> None" sweep])
    case (same g)
    then show ?thesis
      using acct_refl [OF e(1)] by simp
  next
    case (row g)
    let ?b' = "touch (clear_uncertain (?b\<lparr>bs_gone := g\<rparr>) key) key"
    have "acct ?b' (ki_stats st) (fst (fst (unindex_row lay ?b' (ki_stats st) key)))
        (snd (fst (unindex_row lay ?b' (ki_stats st) key)))"
      "grows (ki_stats st) [] (snd (fst (unindex_row lay ?b' (ki_stats st) key)))"
      by (rule unindex_row_acct; use e kr assms(3) in simp)+
    then show ?thesis
      unfolding row by simp
  qed
  then show ?thesis
    using del_effect(1,2) [OF True] assms
    by (intro acct_step_set [of _ bucket]) (auto simp: index_ok_def)
qed (use assms in \<open>auto simp: del_effect(4) intro: acct_step_same\<close>)

lemma resolve_acct:
  assumes "index_exact st" "index_ok lay st" "room (ki_stats st) (resolved_rows a)"
  shows "acct_step (resolved_rows a) st (fst (resolve_uncertain_key lay now st bucket key token a))"
proof (cases "uncertain_key_is_current st bucket key token")
  case True
  let ?b = "bucket_entry st bucket"
  have b: "bucket_get st bucket = Some ?b" "map_of (bs_uncertain_keys ?b) key = Some token"
    using True by (auto simp: uncertain_key_is_current_def bucket_entry_def split: option.splits)
  have kr: "kr_ok lay (bs_keys ?b)"
    using index_ok_entry [OF assms(2), of bucket] by (simp add: bucket_ok_def rows_ok_def)
  note e = index_exact_entry [OF assms(1), of bucket]
  let ?r = "case a of
      Present e \<Rightarrow> index_row lay (?b\<lparr>bs_gone := gr_remove lay (bs_gone ?b) key\<rparr>) (ki_stats st) key e
    | Absent \<Rightarrow> fst (unindex_row lay (?b\<lparr>bs_gone := gr_raise lay (bs_gone ?b) key now\<rparr>) (ki_stats st) key)"
  have "acct ?b (ki_stats st) (fst ?r) (snd ?r) \<and> grows (ki_stats st) (resolved_rows a) (snd ?r)"
  proof (cases a)
    case (Present e')
    let ?b' = "?b\<lparr>bs_gone := gr_remove lay (bs_gone ?b) key\<rparr>"
    have "acct ?b' (ki_stats st) (fst (index_row lay ?b' (ki_stats st) key e')) (snd (index_row lay ?b' (ki_stats st) key e'))"
      "grows (ki_stats st) [row_bytes e'] (snd (index_row lay ?b' (ki_stats st) key e'))"
      by (rule index_row_acct; use e kr assms(3) Present in simp)+
    then show ?thesis
      using Present by simp
  next
    case Absent
    let ?b' = "?b\<lparr>bs_gone := gr_raise lay (bs_gone ?b) key now\<rparr>"
    have "acct ?b' (ki_stats st) (fst (fst (unindex_row lay ?b' (ki_stats st) key)))
        (snd (fst (unindex_row lay ?b' (ki_stats st) key)))"
      "grows (ki_stats st) [] (snd (fst (unindex_row lay ?b' (ki_stats st) key)))"
      by (rule unindex_row_acct; use e kr assms(3) Absent in simp)+
    then show ?thesis
      using Absent by simp
  qed
  then show ?thesis
    using assms b
    by (intro acct_step_set [of st bucket "touch (clear_uncertain (fst ?r) key) key"])
      (auto simp: index_ok_def resolve_uncertain_key_def case_prod_beta)
qed (use assms in \<open>auto simp: resolve_uncertain_key_def uncertain_key_is_current_def acct_step_same split: option.splits\<close>)

lemma bucket_reset_stats [simp]:
  "bs_stats (bucket_reset b r) = index_stats_default"
  "stats_exact (bucket_reset b r)"
  by (simp_all add: bucket_reset_def Let_def bucket_default_def stats_exact_def exact_objects_def
      exact_bytes_def key_rows_default_def)

lemma resync_acct:
  assumes "index_exact st" "index_ok lay st" "room (ki_stats st) []"
  shows "acct_step [] st (fst (begin_bucket_resync st bucket))"
proof (rule acct_step_set [of st bucket])
  note e = index_exact_entry [OF assms(1), of bucket]
  let ?tot = "ki_stats (fst (begin_bucket_resync st bucket))"
  have tot: "?tot = stats_replace (ki_stats st) (bs_stats (bucket_entry st bucket)) index_stats_default"
    by (simp add: begin_bucket_resync_def Let_def)
  show "acct (bucket_entry st bucket) (ki_stats st) (bucket_reset (bucket_entry st bucket) True) ?tot"
    "grows (ki_stats st) [] ?tot"
    using assms(3) e stats_replace_exact [OF e(2), of index_stats_default]
    by (simp_all add: tot acct_def grows_def room_def stats_le_def)
qed (use assms in \<open>auto simp: index_ok_def begin_bucket_resync_def Let_def\<close>)

lemma fold_replace_default:
  assumes "objects s \<le> u64_max" "logical_bytes s \<le> u64_max"
  shows "objects (fold (\<lambda>(n, b) tot. stats_replace tot (bs_stats b) index_stats_default) m s)
      = objects s - sum_list (map (objects \<circ> bs_stats \<circ> snd) m)"
    and "logical_bytes (fold (\<lambda>(n, b) tot. stats_replace tot (bs_stats b) index_stats_default) m s)
      = logical_bytes s - sum_list (map (logical_bytes \<circ> bs_stats \<circ> snd) m)"
  using assms
  by (induction m arbitrary: s) (auto simp: stats_replace_def saturating_add64_def)

lemma om_sum_int: "om_sum (\<lambda>_ b. int (f b)) m = int (sum_list (map (f \<circ> snd) m))"
  by (induction m) auto

lemma discard_acct:
  assumes "index_exact st" "room (ki_stats st) []"
  shows "acct_step [] st (discard_buckets st)"
proof -
  have s: "objects (ki_stats st) = sum_list (map (objects \<circ> bs_stats \<circ> snd) (ki_buckets st))"
    "logical_bytes (ki_stats st) = sum_list (map (logical_bytes \<circ> bs_stats \<circ> snd) (ki_buckets st))"
    using assms(1) by (simp_all add: index_exact_def om_sum_int comp_def)
  have "objects (ki_stats st) \<le> u64_max" "logical_bytes (ki_stats st) \<le> u64_max"
    using assms(2) by (simp_all add: room_def)
  note f = fold_replace_default [OF this, of "ki_buckets st"]
  have sum0: "om_sum (\<lambda>_ b. int (g (bs_stats b))) (map (\<lambda>(name, b). (name, bucket_reset b False)) m) = 0"
    if "g index_stats_default = 0" for g m
    using that by (induction m) auto
  show ?thesis
    using f s sum0 [of objects] sum0 [of logical_bytes]
    by (auto simp: acct_step_def index_exact_def grows_def discard_buckets_def Let_def)
qed

lemma list_rows_acct:
  assumes "bucket_ok lay b" "stats_exact b" "stats_le (bs_stats b) tot" "room tot (map (\<lambda>r. row_bytes (snd r)) listed)"
  shows "acct b tot (fst (fold (fold_list_row lay) listed (b, tot))) (snd (fold (fold_list_row lay) listed (b, tot)))
    \<and> grows tot (map (\<lambda>r. row_bytes (snd r)) listed) (snd (fold (fold_list_row lay) listed (b, tot)))"
  using assms
proof (induction listed arbitrary: b tot)
  case Nil
  then show ?case
    by (simp add: acct_refl)
next
  case (Cons row listed)
  obtain key e where row: "row = (key, e)"
    by force
  let ?r = "fold_list_row lay row (b, tot)"
  have kr: "kr_ok lay (bs_keys b)"
    using Cons.prems(1) by (simp add: bucket_ok_def rows_ok_def)
  have room1: "room tot [row_bytes e]"
    using Cons.prems(4) row by (simp add: room_def)
  note ir = index_row_acct [OF Cons.prems(2) kr Cons.prems(3) room1, of key]
  have step: "acct b tot (fst ?r) (snd ?r)" "grows tot [row_bytes e] (snd ?r)" "stats_le (bs_stats (fst ?r)) (snd ?r)"
    using ir Cons.prems(2,3) by (auto simp: fold_list_row_def row acct_refl)
  have "bucket_ok lay (fst ?r)"
    using fold_list_row_ok [of lay "(b, tot)" row] Cons.prems(1) by simp
  moreover have "stats_exact (fst ?r)"
    using step(1) by (simp add: acct_def)
  moreover have "room (snd ?r) (map (\<lambda>r. row_bytes (snd r)) listed)"
    using room_append [of tot "[row_bytes e]" "map (\<lambda>r. row_bytes (snd r)) listed"] Cons.prems(4) step(2) row
    by (simp add: comp_def)
  ultimately have ih: "acct (fst ?r) (snd ?r) (fst (fold (fold_list_row lay) listed ?r)) (snd (fold (fold_list_row lay) listed ?r))"
    "grows (snd ?r) (map (\<lambda>r. row_bytes (snd r)) listed) (snd (fold (fold_list_row lay) listed ?r))"
    using Cons.IH [of "fst ?r" "snd ?r"] step(3) by simp_all
  have "acct b tot (fst (fold (fold_list_row lay) listed ?r)) (snd (fold (fold_list_row lay) listed ?r))"
    using step(1) ih(1) by (simp add: acct_def)
  then show ?case
    using grows_trans [OF step(2) ih(2)] row by simp
qed

lemma listing_acct:
  assumes "index_exact st" "index_ok lay st" "room (ki_stats st) (map (\<lambda>r. row_bytes (snd r)) listed)"
  shows "acct_step (map (\<lambda>r. row_bytes (snd r)) listed) st
    (fst (sync_listing_into_generation lay st bucket generation listed))"
proof -
  let ?b = "bucket_entry st bucket"
  note e = index_exact_entry [OF assms(1), of bucket]
  show ?thesis
  proof (rule acct_step_set [of st bucket])
    show "acct ?b (ki_stats st) (if owns_rebuild ?b generation
          then fst (fold (fold_list_row lay) listed (?b, ki_stats st)) else ?b)
        (ki_stats (fst (sync_listing_into_generation lay st bucket generation listed)))"
      "grows (ki_stats st) (map (\<lambda>r. row_bytes (snd r)) listed)
        (ki_stats (fst (sync_listing_into_generation lay st bucket generation listed)))"
      using list_rows_acct [OF index_ok_entry [OF assms(2)] e assms(3)] acct_refl [OF e(1)]
      by (auto simp: sync_listing_into_generation_def Let_def case_prod_beta)
  qed (use assms in \<open>auto simp: index_ok_def sync_listing_into_generation_def Let_def case_prod_beta\<close>)
qed

lemma keep_stats_acct:
  assumes "index_exact st" "index_ok lay st" "ki_stats st' = ki_stats st"
    and "ki_buckets st' = om_insert n b (ki_buckets st)"
    and "bs_keys b = bs_keys (bucket_entry st n)" "bs_stats b = bs_stats (bucket_entry st n)"
  shows "acct_step ls st st'"
proof (rule acct_step_set [OF assms(1) _ _ _ assms(4)])
  show "acct (bucket_entry st n) (ki_stats st) b (ki_stats st')"
    using index_exact_entry(1) [OF assms(1), of n] assms(3,5,6) by (simp add: acct_def stats_exact_def)
qed (use assms(2,3) in \<open>simp_all add: index_ok_def\<close>)

lemma remove_acct:
  assumes "index_exact st" "index_ok lay st" "room (ki_stats st) []"
  shows "acct_step [] st (remove_bucket st bucket)"
proof (cases "bucket_get st bucket")
  case (Some b)
  note e = index_exact_entry [OF assms(1), of bucket]
  have b: "bucket_entry st bucket = b" "map_of (ki_buckets st) bucket = Some b" "om_ok (ki_buckets st)"
    using Some assms(2) by (simp_all add: bucket_entry_def bucket_get_def index_ok_def)
  have "stats_le (bs_stats b) (ki_stats st)"
    using e(2) b(1) by simp
  note r = stats_replace_exact [OF this, of index_stats_default]
  have "objects (ki_stats st) \<le> u64_max" "logical_bytes (ki_stats st) \<le> u64_max"
    using assms(3) by (simp_all add: room_def)
  then show ?thesis
    using Some assms(1) r b
    by (auto simp: acct_step_def index_exact_def grows_def remove_bucket_def Let_def om_sum_remove
        om_set_remove)
qed (use assms in \<open>simp add: remove_bucket_def acct_step_same\<close>)

lemma filled_bytes:
  assumes "same_version e fill"
  shows "row_bytes (fill_entry fill e) \<le> row_bytes e + size_bytes (f_size fill)"
    and "row_bytes e \<le> row_bytes (fill_entry fill e)"
    and "\<not> filled fill e \<Longrightarrow> row_bytes (fill_entry fill e) = row_bytes e"
  by (auto simp: row_bytes_def stats_for_entry_def fill_entry_def size_bytes_def filled_def split: option.splits)


lemma update_exact:
  assumes "kr_ok lay r" "kr_get r key = Some e"
  shows "exact_objects (fst (kr_update lay r key f)) = exact_objects r"
    and "exact_bytes (fst (kr_update lay r key f)) = exact_bytes r + int (row_bytes (fst (f e))) - int (row_bytes e)"
proof -
  have "kr_map (fst (kr_update lay r key f)) = kr_map (fst (kr_insert lay r key (fst (f e))))"
    using assms(2) by (simp add: kr_update_map)
  then show "exact_objects (fst (kr_update lay r key f)) = exact_objects r"
    "exact_bytes (fst (kr_update lay r key f)) = exact_bytes r + int (row_bytes (fst (f e))) - int (row_bytes e)"
    using exact_insert [OF assms(1), of key "fst (f e)"] assms(2)
    by (simp_all add: exact_objects_def exact_bytes_def row_bytes_def)
qed

lemma complete_acct:
  assumes "index_exact st" "index_ok lay st" "room (ki_stats st) [size_bytes (f_size fill)]"
  shows "acct_step [size_bytes (f_size fill)] st (fst (complete_entry lay st bucket key fill))"
proof (cases "\<exists>b e. bucket_get st bucket = Some b \<and> kr_get (bs_keys b) key = Some e")
  case True
  let ?b = "bucket_entry st bucket"
  obtain e where b: "bucket_get st bucket = Some ?b" "kr_get (bs_keys ?b) key = Some e"
    using True by (auto simp: bucket_entry_def)
  have kr: "kr_ok lay (bs_keys ?b)"
    using index_ok_entry [OF assms(2), of bucket] by (simp add: bucket_ok_def rows_ok_def)
  note ex = index_exact_entry [OF assms(1), of bucket]
  let ?keys = "fst (kr_update lay (bs_keys ?b) key (complete_row fill))"
  have res: "snd (kr_update lay (bs_keys ?b) key (complete_row fill)) = Some (snd (complete_row fill e))"
    by (simp add: kr_update_result b)
  note upd = update_exact [OF kr b(2), of "complete_row fill"]
  show ?thesis
  proof (cases "same_version e fill \<and> filled fill e")
    case False
    then have "row_bytes (fst (complete_row fill e)) = row_bytes e"
      using filled_bytes(3) by (auto simp: complete_row_def Let_def)
    then have "acct ?b (ki_stats st) (?b\<lparr>bs_keys := ?keys\<rparr>) (ki_stats st)"
      using upd ex(1) by (simp add: acct_def stats_exact_def)
    then show ?thesis
      using False res assms(1,2) b(1)
      by (intro acct_step_set [of st bucket "?b\<lparr>bs_keys := ?keys\<rparr>"])
        (auto simp: complete_entry_def complete_row_def Let_def index_ok_def split: prod.split)
  next
    case filled: True
    let ?e' = "fill_entry fill e"
    have row: "complete_row fill e = (?e', Some (stats_for_entry e, Some (stats_for_entry ?e')))"
      using filled by (simp add: complete_row_def Let_def)
    let ?b' = "?b\<lparr>bs_keys := ?keys, bs_stats := stats_replace (bs_stats ?b) (stats_for_entry e) (stats_for_entry ?e')\<rparr>"
    let ?tot = "stats_replace (ki_stats st) (stats_for_entry e) (stats_for_entry ?e')"
    have le: "stats_le (stats_for_entry e) (bs_stats ?b)"
      using entry_stats_le [OF ex(1) kr, of key] b(2) by simp
    note le' = stats_le_trans [OF le ex(2)]
    have bytes: "row_bytes e \<le> row_bytes ?e'" "row_bytes ?e' \<le> row_bytes e + size_bytes (f_size fill)"
      using filled filled_bytes by blast+
    have tot: "int (objects ?tot) = int (objects (ki_stats st))"
      "int (logical_bytes ?tot) = int (logical_bytes (ki_stats st)) - int (row_bytes e) + int (row_bytes ?e')"
      "int (objects (bs_stats ?b')) = int (objects (bs_stats ?b))"
      "int (logical_bytes (bs_stats ?b')) = int (logical_bytes (bs_stats ?b)) - int (row_bytes e) + int (row_bytes ?e')"
      using le le' ex(2) assms(3) bytes
      by (auto simp: stats_replace_def stats_le_def saturating_add64_def room_def row_bytes_def)
    have "acct ?b (ki_stats st) ?b' ?tot" "grows (ki_stats st) [size_bytes (f_size fill)] ?tot"
      using tot upd ex(1) row bytes by (auto simp: acct_def stats_exact_def grows_def)
    then show ?thesis
      using res row assms(1,2) b(1)
      by (intro acct_step_set [of st bucket ?b'])
        (auto simp: complete_entry_def Let_def index_ok_def account_replacement_def split: prod.split option.split)
  qed
next
  case False
  then have "fst (complete_entry lay st bucket key fill) = st"
    by (auto simp: complete_entry_def kr_update_def split: option.splits)
  then show ?thesis
    using assms(1) by (simp add: acct_step_same)
qed

lemma index_step_acct:
  assumes "index_step lay st l st'" "index_exact st" "index_ok lay st" "room (ki_stats st) l"
  shows "acct_step l st st'"
  using assms
proof (cases rule: index_step.cases)
  case (Fence bucket key token)
  then show ?thesis
    using keep_stats_acct [OF assms(2,3), of st' bucket]
    by (auto simp: fence_key_def Let_def split: option.splits)
next
  case (Discard nc)
  have "index_exact (skip_native_gap st nc)" "ki_stats (skip_native_gap st nc) = ki_stats st"
    using assms(2) by (auto simp: skip_native_gap_def Let_def index_exact_def split: option.split)
  then show ?thesis
    using Discard assms(4) discard_acct [of "skip_native_gap st nc"]
    by (simp add: discard_for_gap_def acct_step_def)
next
  case (Finish bucket generation)
  then show ?thesis
    using assms(2,3)
    by (cases "owns_rebuild (bucket_entry st bucket) generation")
      (auto simp: finish_bucket_sync_generation_def Let_def intro: keep_stats_acct)
next
  case (Seal nc)
  have "ki_buckets (note_native_seal st nc) = ki_buckets st" "ki_stats (note_native_seal st nc) = ki_stats st"
    using note_native_cut_frame [of st nc]
    by (cases "note_native_cut st nc"; auto simp: note_native_seal_def simp del: note_native_cut_frame
        split: bool.split)+
  then show ?thesis
    using Seal assms(2) by (simp add: acct_step_same)
qed (auto intro: put_acct del_acct resolve_acct resync_acct listing_acct complete_acct remove_acct acct_step_same
    simp: register_native_writer_def renew_native_writer_def Let_def
    split: option.splits prod.splits bool.splits)

lemma index_run_exact:
  assumes "index_run lay ls st" "length ls \<le> u64_max" "sum_list ls \<le> u64_max"
  shows "index_exact st \<and> objects (ki_stats st) \<le> length ls \<and> logical_bytes (ki_stats st) \<le> sum_list ls"
  using assms
proof (induction rule: index_run.induct)
  case Start
  then show ?case
    by (simp add: index_exact_def key_index_default_def)
next
  case (Step ls st l st')
  then have "acct_step l st st'"
    by (intro index_step_acct) (auto simp: room_def intro: index_run_ok)
  then show ?case
    using Step by (auto simp: acct_step_def grows_def)
qed

end
