(* ===== verification/Lww.thy ===== *)
theory Lww
  imports Index_Steps
begin

text \<open>
  Per-key last-writer-wins: the specification of what the index holds for a key after any
  sequence of definitive writes, that \<^verbatim>\<open>apply_put\<close> and \<^verbatim>\<open>apply_del\<close> implement it, and that
  replicas which apply the same writes in different orders converge.
\<close>

section \<open>Specification\<close>

datatype index_write = WPut string string obj_entry | WDel string string systime

text \<open>The latest put, the last applied among equal stamps; the latest delete; and the row: the
  latest put unless a delete is at least as late.\<close>

definition pick_put :: "string \<Rightarrow> string \<Rightarrow> index_write \<Rightarrow> obj_entry option \<Rightarrow> obj_entry option" where
  "pick_put bucket key w acc = (case w of
       WPut b k e \<Rightarrow> if b = bucket \<and> k = key
         then (case acc of None \<Rightarrow> Some e
               | Some a \<Rightarrow> if e_last_modified a > e_last_modified e then Some a else Some e)
         else acc
     | WDel _ _ _ \<Rightarrow> acc)"

definition pick_del :: "string \<Rightarrow> string \<Rightarrow> index_write \<Rightarrow> systime option \<Rightarrow> systime option" where
  "pick_del bucket key w acc = (case w of
       WPut _ _ _ \<Rightarrow> acc
     | WDel b k t \<Rightarrow> if b = bucket \<and> k = key
         then Some (case acc of None \<Rightarrow> t | Some a \<Rightarrow> max a t) else acc)"

definition last_put :: "index_write list \<Rightarrow> string \<Rightarrow> string \<Rightarrow> obj_entry option" where
  "last_put ws bucket key = fold (pick_put bucket key) ws None"

definition last_del :: "index_write list \<Rightarrow> string \<Rightarrow> string \<Rightarrow> systime option" where
  "last_del ws bucket key = fold (pick_del bucket key) ws None"

definition deleted_by :: "systime option \<Rightarrow> obj_entry \<Rightarrow> bool" where
  "deleted_by del e \<longleftrightarrow> (case del of None \<Rightarrow> False | Some t \<Rightarrow> t \<ge> e_last_modified e)"

definition lww_row :: "index_write list \<Rightarrow> string \<Rightarrow> string \<Rightarrow> obj_entry option" where
  "lww_row ws bucket key = (case last_put ws bucket key of
       None \<Rightarrow> None
     | Some e \<Rightarrow> if deleted_by (last_del ws bucket key) e then None else Some e)"

section \<open>The index's rows\<close>

definition live :: "key_index_state \<Rightarrow> string \<Rightarrow> string \<Rightarrow> obj_entry option" where
  "live st bucket key = kr_get (bs_keys (bucket_entry st bucket)) key"

definition dead :: "key_index_state \<Rightarrow> string \<Rightarrow> string \<Rightarrow> systime option" where
  "dead st bucket key = gr_get (bs_gone (bucket_entry st bucket)) key"

definition rebuilding :: "key_index_state \<Rightarrow> string \<Rightarrow> bool" where
  "rebuilding st bucket \<longleftrightarrow> bs_rebuild_generation (bucket_entry st bucket) \<noteq> None"

definition apply_write :: "layout \<Rightarrow> index_write \<Rightarrow> key_index_state \<Rightarrow> key_index_state" where
  "apply_write lay w st = (case w of
       WPut bucket key e \<Rightarrow> fst (apply_put lay st bucket key e)
     | WDel bucket key ts \<Rightarrow> fst (apply_del lay st bucket key ts))"

definition apply_writes :: "layout \<Rightarrow> index_write list \<Rightarrow> key_index_state \<Rightarrow> key_index_state" where
  "apply_writes lay ws st = fold (apply_write lay) ws st"

lemma note_identity_None [simp]: "note_identity st None = (st, True)"
  by (simp add: note_identity_def)

lemma bucket_entry_insert:
  "ki_buckets st' = om_insert n b (ki_buckets st) \<Longrightarrow> bucket_entry st' m = (if m = n then b else bucket_entry st m)"
  by (simp add: bucket_entry_def bucket_get_def)

lemma put_entry:
  "bucket_entry (fst (apply_put lay st bucket key e)) m =
     (if m = bucket then fst (fst (put_bucket lay (bucket_entry st bucket) (ki_stats st) key e True))
      else bucket_entry st m)"
  unfolding apply_put_def using put_effect(1) [of st None lay bucket key e DefinitiveMutation]
  by (simp add: bucket_entry_insert)

lemma del_entry:
  "bucket_entry (fst (apply_del_with_identity lay st bucket key ts None sweep)) m =
     (if m = bucket then fst (fst (del_bucket lay (bucket_entry st bucket) (ki_stats st) key ts
        (ki_capture st \<noteq> None) sweep))
      else bucket_entry st m)"
  using del_effect(1) [of st None lay bucket key ts sweep] by (simp add: bucket_entry_insert)

text \<open>What a put does to the rows of a bucket that is not being rebuilt.\<close>

lemma put_view:
  assumes "\<not> rebuilding st bucket" "\<not> rebuilding st bucket \<Longrightarrow> bs_rebuild_touched (bucket_entry st bucket) = []"
  defines "b \<equiv> bucket_entry st bucket"
  shows "live (fst (apply_put lay st bucket key e)) m k =
      (if m = bucket \<and> k = key \<and> \<not> tombstone_at_least b key (e_last_modified e)
          \<and> \<not> entry_newer b key (e_last_modified e) then Some e else live st m k)"
    and "dead (fst (apply_put lay st bucket key e)) m k = dead st m k"
    and "rebuilding (fst (apply_put lay st bucket key e)) m = rebuilding st m"
    and "gr_len (bs_gone (bucket_entry (fst (apply_put lay st bucket key e)) m)) = gr_len (bs_gone (bucket_entry st m))"
  using assms
  by (auto simp: live_def dead_def rebuilding_def put_entry put_bucket_def Let_def index_row_fst)

lemma gr_len_raise: "gr_ok lay g \<Longrightarrow> gr_len (gr_raise lay g k t) \<le> Suc (gr_len g)"
  by (auto simp: gr_raise_def gr_len_def om_length_insert gr_ok_def gr_tally_ok_def split: option.split)

text \<open>What a delete does while no sweep is due.\<close>

lemma del_view:
  fixes key ts
  assumes "\<not> rebuilding st bucket" "index_ok lay st"
    and "sweep = Hold \<or> ki_capture st \<noteq> None \<or> gr_len (bs_gone (bucket_entry st bucket)) \<le> TOMBSTONE_PRUNE_LEN"
  defines "b \<equiv> bucket_entry st bucket"
    and "st' \<equiv> fst (apply_del_with_identity lay st bucket key ts None sweep)"
  shows "live st' m k =
      (if m = bucket \<and> k = key \<and> \<not> entry_newer b key ts then None else live st m k)"
    and "dead st' m k = (if m = bucket \<and> k = key
        then Some (case dead st bucket key of None \<Rightarrow> ts | Some d \<Rightarrow> max d ts) else dead st m k)"
    and "rebuilding st' m = rebuilding st m"
    and "gr_len (bs_gone (bucket_entry st' m)) \<le> Suc (gr_len (bs_gone (bucket_entry st m)))"
proof -
  have sweep: "sweep_for_delete lay sweep (ki_capture st \<noteq> None) (bs_gone b) ts = bs_gone b"
    using assms(3) by (auto simp: sweep_for_delete_def b_def)
  have norebuild: "bs_rebuild_generation b = None"
    using assms(1) by (simp add: rebuilding_def b_def)
  have ok: "bucket_ok lay b"
    using index_ok_entry [OF assms(2)] by (simp add: b_def)
  then have newer: "entry_newer b key ts"
    if "gr_get (bs_gone b) key = Some d" "d > ts" "kr_get (bs_keys b) key = Some e" for d e
    using that by (force simp: bucket_ok_def rows_ok_def row_order_def entry_newer_def)
  note d = del_entry [of lay st bucket key ts sweep, folded b_def st'_def]
  have shape: "fst (fst (del_bucket lay b tot key ts c sweep)) = (let b' = b\<lparr>bs_gone := gr_raise lay (bs_gone b) key ts\<rparr>
      in if entry_newer b key ts \<or> (case gr_get (bs_gone b) key of None \<Rightarrow> False | Some d \<Rightarrow> d > ts) then b'
         else fst (fst (unindex_row lay (touch (clear_uncertain b' key) key) tot key)))"
    if "sweep_for_delete lay sweep c (bs_gone b) ts = bs_gone b" for c tot
    using norebuild that by (simp add: del_bucket_def Let_def entry_newer_def)
  note d' = d [unfolded shape [OF sweep] Let_def]
  have keys: "kr_get (bs_keys (fst (fst (unindex_row lay x tot key)))) = (kr_get (bs_keys x))(key := None)"
    "bs_gone (fst (fst (unindex_row lay x tot key))) = bs_gone x"
    "bs_rebuild_generation (fst (fst (unindex_row lay x tot key))) = bs_rebuild_generation x" for x tot
    by (auto simp: unindex_row_eq split: option.split)
  show "live st' m k = (if m = bucket \<and> k = key \<and> \<not> entry_newer b key ts then None else live st m k)"
    using newer by (auto simp: live_def d' keys b_def [symmetric]
        entry_newer_def split: option.splits)
  show "dead st' m k = (if m = bucket \<and> k = key
        then Some (case dead st bucket key of None \<Rightarrow> ts | Some d \<Rightarrow> max d ts) else dead st m k)"
    by (simp add: dead_def d' keys b_def [symmetric] gr_get_raise)
  show "rebuilding st' m = rebuilding st m"
    by (simp add: rebuilding_def d' keys b_def [symmetric])
  show "gr_len (bs_gone (bucket_entry st' m)) \<le> Suc (gr_len (bs_gone (bucket_entry st m)))"
    using ok gr_len_raise
    by (simp add: d' keys b_def [symmetric] bucket_ok_def rows_ok_def)
qed

section \<open>Refinement\<close>

lemma not_rebuilding_touched:
  "index_ok lay st \<Longrightarrow> \<not> rebuilding st bucket \<Longrightarrow> bs_rebuild_touched (bucket_entry st bucket) = []"
  using index_ok_entry [of lay st bucket]
  by (auto simp: bucket_ok_def rebuild_ok_def rebuilding_def split: option.splits)

lemma last_put_snoc: "last_put (ws @ [w]) b k = pick_put b k w (last_put ws b k)"
  by (simp add: last_put_def)

lemma last_del_snoc: "last_del (ws @ [w]) b k = pick_del b k w (last_del ws b k)"
  by (simp add: last_del_def)

lemma lww_row_put:
  assumes "lww_row ws bucket key = r" "last_del ws bucket key = d"
  shows "lww_row (ws @ [WPut bucket key e]) bucket key =
     (if (case d of None \<Rightarrow> False | Some t \<Rightarrow> t \<ge> e_last_modified e)
         \<or> (case r of None \<Rightarrow> False | Some a \<Rightarrow> e_last_modified a > e_last_modified e)
      then r else Some e)"
  using assms
  by (auto simp: lww_row_def last_put_snoc last_del_snoc pick_put_def pick_del_def deleted_by_def
      split: option.splits if_splits)

lemma lww_row_del:
  assumes "lww_row ws bucket key = r"
  shows "lww_row (ws @ [WDel bucket key t]) bucket key =
     (if (case r of None \<Rightarrow> False | Some a \<Rightarrow> e_last_modified a > t) then r else None)"
proof -
  have p: "last_put (ws @ [WDel bucket key t]) bucket key = last_put ws bucket key"
    "last_del (ws @ [WDel bucket key t]) bucket key =
      Some (case last_del ws bucket key of None \<Rightarrow> t | Some d \<Rightarrow> max d t)"
    by (simp_all add: last_put_snoc last_del_snoc pick_put_def pick_del_def)
  show ?thesis
    unfolding assms [symmetric] lww_row_def p deleted_by_def
    by (cases "last_put ws bucket key"; cases "last_del ws bucket key") auto
qed

lemma lww_row_other:
  assumes "case w of WPut b k e \<Rightarrow> (b, k) \<noteq> (bucket, key) | WDel b k t \<Rightarrow> (b, k) \<noteq> (bucket, key)"
  shows "lww_row (ws @ [w]) bucket key = lww_row ws bucket key" "last_del (ws @ [w]) bucket key = last_del ws bucket key"
proof -
  have "last_put (ws @ [w]) bucket key = last_put ws bucket key"
    using assms by (auto simp: last_put_snoc pick_put_def split: index_write.splits)
  moreover show "last_del (ws @ [w]) bucket key = last_del ws bucket key"
    using assms by (auto simp: last_del_snoc pick_del_def split: index_write.splits)
  ultimately show "lww_row (ws @ [w]) bucket key = lww_row ws bucket key"
    by (simp add: lww_row_def split: option.split)
qed

definition refines :: "layout \<Rightarrow> index_write list \<Rightarrow> key_index_state \<Rightarrow> bool" where
  "refines lay ws st \<longleftrightarrow> index_ok lay st
     \<and> (\<forall>b. \<not> rebuilding st b \<and> gr_len (bs_gone (bucket_entry st b)) \<le> length ws)
     \<and> (\<forall>b k. live st b k = lww_row ws b k \<and> dead st b k = last_del ws b k)"

lemma refines_put:
  assumes "refines lay ws st"
  shows "refines lay (ws @ [WPut bucket key e]) (fst (apply_put lay st bucket key e))"
proof -
  have st: "index_ok lay st" "\<And>b. \<not> rebuilding st b"
    using assms by (simp_all add: refines_def)
  note v = put_view [OF st(2) not_rebuilding_touched [OF st], where bucket = bucket and key = key and e = e and lay = lay]
  have "live (fst (apply_put lay st bucket key e)) b k = lww_row (ws @ [WPut bucket key e]) b k" for b k
    unfolding v(1) using assms lww_row_put [of ws bucket key _ _ e, OF refl refl] lww_row_other(1) [where w = "WPut bucket key e" and bucket = b and key = k and ws = ws]
    by (cases "b = bucket \<and> k = key")
      (auto simp: refines_def tombstone_at_least_def entry_newer_def live_def dead_def)
  moreover have "dead (fst (apply_put lay st bucket key e)) b k = last_del (ws @ [WPut bucket key e]) b k" for b k
    using assms by (simp add: v(2) refines_def last_del_snoc pick_del_def)
  ultimately show ?thesis
    using assms v(3,4) index_ok_put [OF st(1)] by (simp add: refines_def apply_put_def le_SucI)
qed

lemma refines_del:
  assumes "refines lay ws st"
    and "sweep = Hold \<or> ki_capture st \<noteq> None \<or> length ws \<le> TOMBSTONE_PRUNE_LEN"
  shows "refines lay (ws @ [WDel bucket key t]) (fst (apply_del_with_identity lay st bucket key t None sweep))"
proof -
  have st: "index_ok lay st" "\<And>b. \<not> rebuilding st b" "gr_len (bs_gone (bucket_entry st b)) \<le> length ws" for b
    using assms(1) by (simp_all add: refines_def)
  have small: "sweep = Hold \<or> ki_capture st \<noteq> None \<or> gr_len (bs_gone (bucket_entry st bucket)) \<le> TOMBSTONE_PRUNE_LEN"
    using assms(2) st(3) le_trans by blast
  note v = del_view [OF st(2,1) small, of key t]
  let ?st = "fst (apply_del_with_identity lay st bucket key t None sweep)"
  have "live ?st b k = lww_row (ws @ [WDel bucket key t]) b k" for b k
    unfolding v(1) using assms(1) lww_row_del [of ws bucket key _ t, OF refl] lww_row_other(1) [where w = "WDel bucket key t" and bucket = b and key = k and ws = ws]
    by (cases "b = bucket \<and> k = key") (auto simp: refines_def entry_newer_def live_def)
  moreover have "dead ?st b k = last_del (ws @ [WDel bucket key t]) b k" for b k
    using assms(1) by (auto simp: v(2) refines_def last_del_snoc pick_del_def)
  moreover have "gr_len (bs_gone (bucket_entry ?st b)) \<le> Suc (length ws)" for b
    using v(4) [of b] st(3) [of b] by simp
  ultimately show ?thesis
    using st(2) v(3) index_ok_del [OF st(1)] by (simp add: refines_def)
qed

lemma refines_default: "refines lay [] key_index_default"
  by (simp add: refines_def rebuilding_def bucket_entry_def bucket_get_def
      key_index_default_def index_ok_default [unfolded key_index_default_def] bucket_default_def live_def dead_def lww_row_def last_put_def last_del_def kr_get_def gr_get_def
      key_rows_default_def gone_rows_default_def gr_len_def)

lemma apply_writes_refines:
  "length ws \<le> TOMBSTONE_PRUNE_LEN \<Longrightarrow> refines lay ws (apply_writes lay ws key_index_default)"
proof (induction ws rule: rev_induct)
  case (snoc w ws)
  then have "refines lay ws (apply_writes lay ws key_index_default)"
    by simp
  then show ?case
    using snoc.prems refines_put refines_del [of lay ws _ Run]
    by (cases w) (simp_all add: apply_writes_def apply_write_def apply_del_def)
qed (simp add: apply_writes_def refines_default)

text \<open>C1: Starting from an empty index, after any sequence of at most 65,536 definitive puts and deletes
  (TOMBSTONE_PRUNE_LEN; beyond it the index may sweep old tombstones) every key's row is the latest put
  unless a delete is at least as late, and its tombstone is the latest delete: the index implements per-key
  last-writer-wins with deletes winning ties.\<close>

theorem index_refines_lww:
  assumes "length ws \<le> TOMBSTONE_PRUNE_LEN"
  shows "live (apply_writes lay ws key_index_default) bucket key = lww_row ws bucket key
    \<and> dead (apply_writes lay ws key_index_default) bucket key = last_del ws bucket key"
  using apply_writes_refines [OF assms] by (simp add: refines_def)

section \<open>Convergence\<close>

definition stamps_distinct :: "index_write list \<Rightarrow> bool" where
  "stamps_distinct ws \<longleftrightarrow> (\<forall>w \<in> set ws. \<forall>w' \<in> set ws. case (w, w') of
     (WPut b k e, WPut b' k' e') \<Rightarrow>
       b = b' \<and> k = k' \<and> e_last_modified e = e_last_modified e' \<longrightarrow> e = e'
   | _ \<Rightarrow> True)"

lemma last_del_permuted: "mset ws = mset ws' \<Longrightarrow> last_del ws b k = last_del ws' b k"
  unfolding last_del_def
  by (rule fun_cong [of "fold _ ws" "fold _ ws'"], rule fold_multiset_equiv)
    (auto simp: pick_del_def fun_eq_iff split: index_write.split option.split)

lemma last_put_permuted:
  assumes "mset ws = mset ws'" "stamps_distinct ws"
  shows "last_put ws b k = last_put ws' b k"
proof -
  have "pick_put b k x \<circ> pick_put b k y = pick_put b k y \<circ> pick_put b k x"
    if "x \<in> set ws" "y \<in> set ws" for x y
  proof (cases x; cases y)
    fix b1 k1 e1 b2 k2 e2
    assume xy: "x = WPut b1 k1 e1" "y = WPut b2 k2 e2"
    then have "b1 = b2 \<Longrightarrow> k1 = k2 \<Longrightarrow> e_last_modified e1 = e_last_modified e2 \<Longrightarrow> e1 = e2"
      using that assms(2) unfolding stamps_distinct_def by fastforce
    then show ?thesis
      by (auto simp: xy pick_put_def fun_eq_iff split: option.split)
  qed (auto simp: pick_put_def fun_eq_iff)
  then show ?thesis
    unfolding last_put_def using fold_multiset_equiv [of ws "pick_put b k" ws'] assms(1) by simp
qed

lemma lww_row_permuted:
  "mset ws = mset ws' \<Longrightarrow> stamps_distinct ws \<Longrightarrow> lww_row ws b k = lww_row ws' b k"
  using last_put_permuted [of ws ws' b k] last_del_permuted [of ws ws' b k]
  by (simp add: lww_row_def split: option.split)

text \<open>C2: Two replicas that start empty and apply the same at most 65,536 definitive writes, in any two orders,
  hold the same row and the same tombstone for every key, provided no two different puts of one key carry
  the same stamp. (Of two puts with one stamp the later applied wins; beyond the bound the index may sweep old
  tombstones.)\<close>

theorem replicas_converge:
  assumes "mset ws = mset ws'" "stamps_distinct ws" "length ws \<le> TOMBSTONE_PRUNE_LEN"
  shows "live (apply_writes lay ws key_index_default) bucket key
      = live (apply_writes lay ws' key_index_default) bucket key
    \<and> dead (apply_writes lay ws key_index_default) bucket key
      = dead (apply_writes lay ws' key_index_default) bucket key"
proof -
  have "length ws' \<le> TOMBSTONE_PRUNE_LEN"
    using assms(1,3) by (metis size_mset)
  then show ?thesis
    using apply_writes_refines [OF assms(3), of lay] apply_writes_refines [of ws' lay]
      lww_row_permuted [OF assms(1,2)] last_del_permuted [OF assms(1)]
    by (simp add: refines_def)
qed

text \<open>A delete is never undone by an older put: as long as no later put of the key has been
  applied, however many older puts and other deletes arrive, and in whatever order, the key
  stays out of the index.\<close>

theorem no_resurrection:
  assumes "WDel bucket key t \<in> set ws" "length ws \<le> TOMBSTONE_PRUNE_LEN"
    and "\<And>e. WPut bucket key e \<in> set ws \<Longrightarrow> e_last_modified e \<le> t"
  shows "live (apply_writes lay ws key_index_default) bucket key = None"
proof -
  have put: "last_put ws bucket key = Some e \<Longrightarrow> WPut bucket key e \<in> set ws" for e ws
    by (induction ws rule: rev_induct)
      (auto simp: last_put_def pick_put_def split: index_write.splits option.splits if_splits)
  have del: "WDel bucket key t \<in> set ws \<Longrightarrow> \<exists>d. last_del ws bucket key = Some d \<and> t \<le> d" for ws
    by (induction ws rule: rev_induct)
      (auto simp: last_del_def pick_del_def split: index_write.splits option.splits if_splits)
  show ?thesis
    using apply_writes_refines [OF assms(2), of lay] put [of ws] del [OF assms(1)] assms(3)
    by (fastforce simp: refines_def lww_row_def deleted_by_def split: option.splits)
qed

section \<open>Instances\<close>

definition lww_example_entry :: "int \<Rightarrow> obj_entry" where
  "lww_example_entry t = \<lparr>e_size = Some 7, e_last_modified = t, e_etag = Some (Strong ''a''),
     e_storage_class = standard_class, e_content_type = None, e_meta = None\<rparr>"

definition lww_example :: "index_write list" where
  "lww_example = [WPut ''b'' ''k'' (lww_example_entry 5), WDel ''b'' ''k'' 6, WPut ''b'' ''k'' (lww_example_entry 9)]"

lemma lww_example_eval:
  "length lww_example \<le> TOMBSTONE_PRUNE_LEN" "stamps_distinct lww_example"
  "lww_row lww_example ''b'' ''k'' = Some (lww_example_entry 9)" "last_del lww_example ''b'' ''k'' = Some 6"
  by (simp_all add: lww_example_def TOMBSTONE_PRUNE_LEN_def stamps_distinct_def lww_example_entry_def
      lww_row_def last_put_def last_del_def pick_put_def pick_del_def deleted_by_def)

lemma index_refines_lww_witness:
  "length lww_example \<le> TOMBSTONE_PRUNE_LEN
   \<and> (\<forall>lay. live (apply_writes lay lww_example key_index_default) ''b'' ''k'' = Some (lww_example_entry 9)
       \<and> dead (apply_writes lay lww_example key_index_default) ''b'' ''k'' = Some 6)"
  using index_refines_lww [of lww_example _ "''b''" "''k''"] lww_example_eval by simp

lemma replicas_converge_witness:
  "mset lww_example = mset (rev lww_example) \<and> stamps_distinct lww_example
   \<and> length lww_example \<le> TOMBSTONE_PRUNE_LEN
   \<and> (\<forall>lay. live (apply_writes lay lww_example key_index_default) ''b'' ''k''
         = live (apply_writes lay (rev lww_example) key_index_default) ''b'' ''k'')"
  using replicas_converge [of lww_example "rev lww_example" _ "''b''" "''k''"] lww_example_eval by simp

lemma no_resurrection_witness:
  "\<forall>lay. live (apply_writes lay [WDel ''b'' ''k'' 6, WPut ''b'' ''k'' (lww_example_entry 5)] key_index_default)
     ''b'' ''k'' = None"
  using no_resurrection [of "''b''" "''k''" 6 "[WDel ''b'' ''k'' 6, WPut ''b'' ''k'' (lww_example_entry 5)]"]
  by (simp add: TOMBSTONE_PRUNE_LEN_def lww_example_entry_def)

end
