(* ===== verification/Index_Props.thy ===== *)
theory Index_Props
  imports Lww
begin

text \<open>
  What the index promises its callers: well-formed states and exact statistics, fence tokens
  that are exact and never reused, rebuild generations that publish only while they are
  current, writes that survive a rebuild's LIST pages, completion that lends an entry only the
  fields it lacks, and native cuts that suppress exactly the duplicates.
\<close>

section \<open>Reachable states\<close>

text \<open>C6: Every reachable index is well formed: rows sorted with exact image tallies, tombstone
  floors that bound the tombstones they stand for, every tombstone beside a live row strictly
  older than it, distinct allocated fence tokens, a rebuild only on an unsynced bucket and at
  its current generation, and at most 256 native writers.\<close>

theorem reachable_index_ok:
  assumes "index_run lay ls st"
  shows "index_ok lay st"
  using assms by (rule index_run_ok)

lemma sum_exact_objects: "exact_objects r = int (kr_len r)"
proof -
  have "om_sum (\<lambda>_ _. 1) m = int (length m)" for m :: "(string, obj_entry) omap"
    by (induction m) auto
  then show ?thesis
    by (simp add: exact_objects_def kr_len_def)
qed

lemma om_sum_sum_list: "om_sum (\<lambda>_ v. int (f v)) m = int (sum_list (map (\<lambda>(k, v). f v) m))"
  by (induction m) auto

text \<open>The O(1) statistics are exact: while the logical sizes of the rows ever handed to the
  index sum below 2^64, the cached totals are the number of indexed rows over all buckets
  and the sum of their known sizes, whatever operations ran in whatever order.\<close>

theorem statistics_exact:
  assumes "index_run lay ls st" "length ls \<le> u64_max" "sum_list ls \<le> u64_max"
  shows "objects (index_stats_of st) = sum_list (map (\<lambda>(n, b). kr_len (bs_keys b)) (ki_buckets st))
    \<and> logical_bytes (index_stats_of st) =
        sum_list (map (\<lambda>(n, b). sum_list (map (\<lambda>(k, e). row_bytes e) (kr_map (bs_keys b)))) (ki_buckets st))"
proof -
  have ex: "index_exact st"
    using index_run_exact [OF assms] by simp
  have rows: "objects (bs_stats b) = kr_len (bs_keys b)"
    "logical_bytes (bs_stats b) = sum_list (map (\<lambda>(k, e). row_bytes e) (kr_map (bs_keys b)))"
    if "(n, b) \<in> set (ki_buckets st)" for n b
    using that ex by (auto simp: index_exact_def stats_exact_def sum_exact_objects exact_bytes_def om_sum_sum_list)
  have "sum_list (map (\<lambda>(n, b). objects (bs_stats b)) (ki_buckets st))
      = sum_list (map (\<lambda>(n, b). kr_len (bs_keys b)) (ki_buckets st))"
    "sum_list (map (\<lambda>(n, b). logical_bytes (bs_stats b)) (ki_buckets st))
      = sum_list (map (\<lambda>(n, b). sum_list (map (\<lambda>(k, e). row_bytes e) (kr_map (bs_keys b)))) (ki_buckets st))"
    using rows by (auto intro!: arg_cong [of _ _ sum_list] map_cong)
  then show ?thesis
    using ex by (simp add: index_exact_def index_stats_of_def om_sum_sum_list [of "\<lambda>b. objects (bs_stats b)"]
        om_sum_sum_list [of "\<lambda>b. logical_bytes (bs_stats b)"])
qed

section \<open>Fences\<close>

definition fence_of :: "key_index_state \<Rightarrow> string \<Rightarrow> string \<Rightarrow> nat option" where
  "fence_of st bucket key = map_of (bs_uncertain_keys (bucket_entry st bucket)) key"

definition epoch_of :: "key_index_state \<Rightarrow> string \<Rightarrow> nat" where
  "epoch_of st bucket = bs_uncertainty_epoch (bucket_entry st bucket)"

lemma fence_key_Some:
  assumes "fence_key st bucket key = Some (st', token)"
  shows "token = Suc (epoch_of st bucket)" "epoch_of st' bucket = token"
    and "fence_of st' b k = (if b = bucket \<and> k = key then Some token else fence_of st b k)"
    and "live st' = live st" "dead st' = dead st" "ki_stats st' = ki_stats st"
  using assms
  by (auto simp: fence_key_def Let_def epoch_of_def fence_of_def live_def dead_def fun_eq_iff
      checked_add64_Some split: option.splits)

lemma fence_current_iff: "uncertain_key_is_current st bucket key token \<longleftrightarrow> fence_of st bucket key = Some token"
  by (auto simp: uncertain_key_is_current_def fence_of_def bucket_entry_def bucket_default_def split: option.split)

lemma fence_token_bound: "index_ok lay st \<Longrightarrow> fence_of st bucket key = Some t \<Longrightarrow> t \<le> epoch_of st bucket"
  using index_ok_entry [of lay st bucket] by (auto simp: bucket_ok_def fences_ok_def fence_of_def epoch_of_def)

text \<open>The allocation epoch of a bucket that stays never falls.\<close>

lemma put_bucket_epoch: "bs_uncertainty_epoch (fst (fst (put_bucket lay b tot k e d))) = bs_uncertainty_epoch b"
  by (auto simp: put_bucket_def Let_def index_row_fst)

lemma del_bucket_epoch: "bs_uncertainty_epoch (fst (fst (del_bucket lay b tot k ts c sw))) = bs_uncertainty_epoch b"
  by (auto simp: del_bucket_def Let_def unindex_row_eq split: option.split)

lemma fold_rows_epoch: "bs_uncertainty_epoch (fst (fold (fold_list_row lay) listed acc)) = bs_uncertainty_epoch (fst acc)"
proof (induction listed arbitrary: acc)
  case (Cons row listed)
  have "bs_uncertainty_epoch (fst (fold_list_row lay row acc)) = bs_uncertainty_epoch (fst acc)"
    by (auto simp: fold_list_row_def index_row_fst split: prod.split)
  then show ?case
    using Cons by simp
qed simp

lemma epoch_same_buckets: "ki_buckets st' = ki_buckets st \<Longrightarrow> epoch_of st' n = epoch_of st n"
  by (simp add: epoch_of_def bucket_entry_def bucket_get_def)

lemma epoch_le_same: "ki_buckets st' = ki_buckets st \<Longrightarrow> epoch_of st n \<le> epoch_of st' n"
  by (simp add: epoch_of_def bucket_entry_def bucket_get_def)

lemma epoch_set:
  "ki_buckets st' = om_insert m b (ki_buckets st) \<Longrightarrow> bs_uncertainty_epoch b = epoch_of st m \<Longrightarrow> epoch_of st' n = epoch_of st n"
  by (simp add: epoch_of_def bucket_entry_insert)

lemma seal_frame: "ki_buckets (note_native_seal st nc) = ki_buckets st"
  using note_native_cut_frame [of st nc]
  by (cases "note_native_cut st nc"; auto simp: note_native_seal_def simp del: note_native_cut_frame split: bool.split)

lemma writer_frame:
  "ki_buckets (register_native_writer st nc) = ki_buckets st"
  "ki_buckets (renew_native_writer st nc epoch) = ki_buckets st"
  "ki_buckets (skip_native_gap st nc) = ki_buckets st"
  by (auto simp: register_native_writer_def renew_native_writer_def skip_native_gap_def Let_def split: option.split)

lemma map_of_map_reset: "map_of (map (\<lambda>(n, b). (n, f b)) m) k = map_option f (map_of m k)"
  by (induction m) auto

lemma discard_get: "bucket_get (discard_buckets st) n = map_option (\<lambda>b. bucket_reset b False) (bucket_get st n)"
  by (simp add: discard_buckets_def bucket_get_def Let_def map_of_map_reset)

lemma bucket_reset_keeps [simp]:
  "bs_uncertainty_epoch (bucket_reset b r) = bs_uncertainty_epoch b"
  "bs_uncertain_keys (bucket_reset b r) = bs_uncertain_keys b"
  by (simp_all add: bucket_reset_def Let_def)

lemma epoch_discard: "epoch_of (discard_buckets st) n = epoch_of st n"
  by (auto simp: epoch_of_def bucket_entry_def discard_get split: option.split)

lemma resolve_epoch: "epoch_of (fst (resolve_uncertain_key lay now st bucket key token a)) n = epoch_of st n"
proof (cases "uncertain_key_is_current st bucket key token")
  case True
  then show ?thesis
    by (auto simp: resolve_uncertain_key_def uncertain_key_is_current_def epoch_of_def index_row_fst unindex_row_eq
        bucket_entry_def case_prod_beta split: option.splits authoritative_key_state.splits)
qed (auto simp: resolve_uncertain_key_def uncertain_key_is_current_def split: option.splits)

lemma complete_epoch: "epoch_of (fst (complete_entry lay st bucket key fill)) n = epoch_of st n"
proof (cases "bucket_get st bucket")
  case (Some b)
  then obtain s where "ki_buckets (fst (complete_entry lay st bucket key fill)) = ki_buckets st
    \<or> ki_buckets (fst (complete_entry lay st bucket key fill)) =
        om_insert bucket (b\<lparr>bs_keys := fst (kr_update lay (bs_keys b) key (complete_row fill)), bs_stats := s\<rparr>)
          (ki_buckets st)"
    using complete_effect by blast
  moreover have "bs_uncertainty_epoch b = epoch_of st bucket"
    using Some by (simp add: epoch_of_def bucket_entry_def)
  ultimately show ?thesis
    by (elim disjE) (auto intro: epoch_same_buckets epoch_set)
qed (simp add: complete_entry_def)

lemma epoch_monotone:
  assumes "index_step lay st l st'" "bucket_get st' n \<noteq> None"
  shows "epoch_of st n \<le> epoch_of st' n"
  using assms
proof (cases rule: index_step.cases)
  case (Put e bucket key auth i)
  then show ?thesis
    using put_effect(1) [of st i lay bucket key e auth] put_effect(4) [of st i lay bucket key e auth]
    by (cases "snd (note_identity st i)")
      (auto simp: epoch_of_def bucket_entry_insert put_bucket_epoch)
next
  case (Del bucket key ts i sweep)
  then show ?thesis
    using del_effect(1) [of st i lay bucket key ts sweep] del_effect(4) [of st i lay bucket key ts sweep]
    by (cases "snd (note_identity st i)")
      (auto simp: epoch_of_def bucket_entry_insert del_bucket_epoch)
next
  case (Fence bucket key token)
  then show ?thesis
    by (auto simp: fence_key_def Let_def epoch_of_def checked_add64_Some split: option.splits)
next
  case (Remove bucket)
  then show ?thesis
    using assms(2)
    by (cases "n = bucket") (auto simp: remove_bucket_def Let_def epoch_of_def bucket_entry_def bucket_get_def
        split: option.splits)
next
  case (Resync bucket)
  then show ?thesis
    by (auto simp: begin_bucket_resync_def Let_def epoch_of_def)
next
  case (Listing listed bucket generation)
  then show ?thesis
    by (auto simp: sync_listing_into_generation_def Let_def epoch_of_def fold_rows_epoch case_prod_beta)
next
  case (Finish bucket generation)
  then show ?thesis
    by (auto simp: finish_bucket_sync_generation_def Let_def epoch_of_def)
next
  case (Discard nc)
  then show ?thesis
    by (simp add: discard_for_gap_def epoch_discard epoch_same_buckets [OF writer_frame(3)])
qed (simp_all add: epoch_le_same seal_frame writer_frame resolve_epoch complete_epoch)

definition kept_step :: "layout \<Rightarrow> string \<Rightarrow> key_index_state \<Rightarrow> key_index_state \<Rightarrow> bool" where
  "kept_step lay n st st' \<longleftrightarrow> (\<exists>l. index_step lay st l st') \<and> bucket_get st' n \<noteq> None"

lemma epoch_monotone_steps: "(kept_step lay n)\<^sup>*\<^sup>* st st' \<Longrightarrow> epoch_of st n \<le> epoch_of st' n"
  by (induction rule: rtranclp_induct) (auto simp: kept_step_def dest: epoch_monotone)

text \<open>A fence token is never reused: however many index operations run between two fences of
  a bucket that is not removed meanwhile (writes, deletes, resolutions, resyncs, gap discards,
  LIST pages), the later fence's token is strictly larger, so no late HEAD result can own it.\<close>

theorem fence_tokens_never_reused:
  assumes "fence_key st bucket key = Some (st1, token)" "(kept_step lay bucket)\<^sup>*\<^sup>* st1 st2"
    and "fence_key st2 bucket key' = Some (st3, token')"
  shows "token < token'"
  using fence_key_Some [OF assms(1)] fence_key_Some [OF assms(3)] epoch_monotone_steps [OF assms(2)] by simp

text \<open>Fencing a key changes nothing but that key's fence: its token is current and larger than
  every token outstanding in the bucket; every row, tombstone, total and other fence is as before.\<close>

theorem fence_is_exact:
  assumes "index_ok lay st" "fence_key st bucket key = Some (st', token)"
  shows "uncertain_key_is_current st' bucket key token
    \<and> (\<forall>k t. fence_of st bucket k = Some t \<longrightarrow> t < token)
    \<and> (\<forall>b k. (b, k) \<noteq> (bucket, key) \<longrightarrow> fence_of st' b k = fence_of st b k)
    \<and> live st' = live st \<and> dead st' = dead st \<and> ki_stats st' = ki_stats st"
  using fence_key_Some [OF assms(2)] fence_token_bound [OF assms(1), of bucket]
  by (auto simp: fence_current_iff le_imp_less_Suc)

lemma resolve_effect:
  fixes lay now st bucket key token a
  defines "st' \<equiv> fst (resolve_uncertain_key lay now st bucket key token a)"
  assumes "fence_of st bucket key = Some token"
  shows "snd (resolve_uncertain_key lay now st bucket key token a)"
    and "live st' b k = (if b = bucket \<and> k = key then (case a of Present e \<Rightarrow> Some e | Absent \<Rightarrow> None) else live st b k)"
    and "fence_of st' b k = (if b = bucket \<and> k = key then None else fence_of st b k)"
    and "(b, k) \<noteq> (bucket, key) \<Longrightarrow> dead st' b k = dead st b k"
    and "dead st' bucket key = (case a of Present _ \<Rightarrow> None
           | Absent \<Rightarrow> Some (case dead st bucket key of None \<Rightarrow> now | Some d \<Rightarrow> max d now))"
proof -
  let ?b = "bucket_entry st bucket"
  have get: "bucket_get st bucket = Some ?b" "map_of (bs_uncertain_keys ?b) key = Some token"
    using assms(2) by (auto simp: fence_of_def bucket_entry_def bucket_default_def split: option.splits)
  show "snd (resolve_uncertain_key lay now st bucket key token a)"
    using get by (simp add: resolve_uncertain_key_def case_prod_beta)
  have st': "bucket_entry st' m = (if m = bucket then touch (clear_uncertain (fst (case a of
        Present e \<Rightarrow> index_row lay (?b\<lparr>bs_gone := gr_remove lay (bs_gone ?b) key\<rparr>) (ki_stats st) key e
      | Absent \<Rightarrow> fst (unindex_row lay (?b\<lparr>bs_gone := gr_raise lay (bs_gone ?b) key now\<rparr>) (ki_stats st) key)))
      key) key else bucket_entry st m)" for m
    using get by (simp add: st'_def resolve_uncertain_key_def case_prod_beta)
  show "live st' b k = (if b = bucket \<and> k = key then (case a of Present e \<Rightarrow> Some e | Absent \<Rightarrow> None) else live st b k)"
    by (cases a) (auto simp: live_def st' index_row_fst unindex_row_eq split: option.split)
  show "fence_of st' b k = (if b = bucket \<and> k = key then None else fence_of st b k)"
    by (cases a) (auto simp: fence_of_def st' index_row_fst unindex_row_eq split: option.split)
  show "(b, k) \<noteq> (bucket, key) \<Longrightarrow> dead st' b k = dead st b k"
    by (cases a) (auto simp: dead_def st' index_row_fst unindex_row_eq gr_get_raise split: option.split)
  show "dead st' bucket key = (case a of Present _ \<Rightarrow> None
           | Absent \<Rightarrow> Some (case dead st bucket key of None \<Rightarrow> now | Some d \<Rightarrow> max d now))"
    by (cases a) (auto simp: dead_def st' index_row_fst unindex_row_eq gr_get_raise split: option.split)
qed

text \<open>A per-key HEAD result is applied exactly once and exactly to its key: with the current
  token it replaces (or removes and tombstones) that row, clears that fence and leaves every
  other row, tombstone and fence alone; with any other token it changes nothing at all.\<close>

theorem resolve_is_exact:
  "let r = resolve_uncertain_key lay now st bucket key token a in
   if uncertain_key_is_current st bucket key token
    then snd r \<and> live (fst r) bucket key = (case a of Present e \<Rightarrow> Some e | Absent \<Rightarrow> None)
      \<and> fence_of (fst r) bucket key = None
      \<and> (\<forall>b k. (b, k) \<noteq> (bucket, key) \<longrightarrow> live (fst r) b k = live st b k
           \<and> dead (fst r) b k = dead st b k \<and> fence_of (fst r) b k = fence_of st b k)
    else r = (st, False)"
proof (cases "uncertain_key_is_current st bucket key token")
  case True
  then have "fence_of st bucket key = Some token"
    by (simp add: fence_current_iff)
  note e = resolve_effect [OF this, where lay = lay and now = now and a = a]
  show ?thesis
    using True e by (auto simp: Let_def)
next
  case False
  then show ?thesis
    by (auto simp: resolve_uncertain_key_def uncertain_key_is_current_def split: option.splits)
qed

text \<open>C38: Removing a bucket forgets its allocation epoch: a fence of the recreated bucket is
  handed the removed bucket's first token again, and a HEAD result still in flight for that
  earlier fence is accepted as the new fence's resolution. Token uniqueness therefore ends with
  the bucket.\<close>

theorem remove_bucket_reuses_tokens:
  assumes "fence_key key_index_default bucket key = Some (st1, token)"
    and "fence_key (remove_bucket st1 bucket) bucket key = Some (st2, token')"
  shows "token' = token \<and> snd (resolve_uncertain_key lay now st2 bucket key token (Present e))
    \<and> live (fst (resolve_uncertain_key lay now st2 bucket key token (Present e))) bucket key = Some e"
proof -
  have "epoch_of key_index_default bucket = 0"
    by (simp add: epoch_of_def bucket_entry_def bucket_get_def key_index_default_def bucket_default_def)
  moreover have "epoch_of (remove_bucket st1 bucket) bucket = 0"
    by (auto simp: epoch_of_def bucket_entry_def bucket_get_def remove_bucket_def Let_def bucket_default_def
        split: option.split)
  ultimately have "token = 1" "token' = 1"
    using fence_key_Some(1) [OF assms(1)] fence_key_Some(1) [OF assms(2)] by simp_all
  then show ?thesis
    using fence_key_Some(3) [OF assms(2), of bucket key] resolve_effect(1,2) [where st = st2 and bucket = bucket and key = key and token = 1 and lay = lay and now = now and a = "Present e"]
    by simp
qed

section \<open>Rebuild generations\<close>

text \<open>A page or a completion of a rebuild that is no longer the bucket's current generation
  publishes nothing: no bucket's state and no total changes, and the caller is told.\<close>

theorem stale_generation_publishes_nothing:
  assumes "\<not> owns_rebuild (bucket_entry st bucket) generation"
  shows "snd (sync_listing_into_generation lay st bucket generation listed) = None
    \<and> \<not> snd (finish_bucket_sync_generation st bucket generation)
    \<and> (\<forall>b. bucket_entry (fst (sync_listing_into_generation lay st bucket generation listed)) b = bucket_entry st b
         \<and> bucket_entry (fst (finish_bucket_sync_generation st bucket generation)) b = bucket_entry st b)
    \<and> ki_stats (fst (sync_listing_into_generation lay st bucket generation listed)) = ki_stats st
    \<and> ki_stats (fst (finish_bucket_sync_generation st bucket generation)) = ki_stats st"
  using assms
  by (simp add: sync_listing_into_generation_def finish_bucket_sync_generation_def Let_def)

text \<open>Starting a rebuild supersedes the one before it: the earlier generation no longer owns
  the bucket, the new one does, and the bucket is empty and unsynced with its fences kept.\<close>

theorem resync_supersedes:
  assumes "index_ok lay st" "owns_rebuild (bucket_entry st bucket) generation"
  shows "\<not> owns_rebuild (bucket_entry (fst (begin_bucket_resync st bucket)) bucket) generation
    \<and> owns_rebuild (bucket_entry (fst (begin_bucket_resync st bucket)) bucket) (snd (begin_bucket_resync st bucket))
    \<and> \<not> bs_synced (bucket_entry (fst (begin_bucket_resync st bucket)) bucket)
    \<and> (\<forall>k. live (fst (begin_bucket_resync st bucket)) bucket k = None
         \<and> dead (fst (begin_bucket_resync st bucket)) bucket k = None
         \<and> fence_of (fst (begin_bucket_resync st bucket)) bucket k = fence_of st bucket k)"
proof -
  let ?b = "bucket_entry st bucket"
  have gen: "bs_sync_generation ?b = generation" "generation \<le> u64_max"
    using assms(2) index_ok_entry [OF assms(1), of bucket]
    by (auto simp: owns_rebuild_def bucket_ok_def rebuild_ok_def)
  then have "wrapping_add64 generation 1 \<noteq> generation"
    by (cases "generation = u64_max") (simp_all add: wrapping_add64_def u64_max_def)
  then show ?thesis
    using gen
    by (simp add: begin_bucket_resync_def Let_def bucket_reset_def owns_rebuild_def live_def dead_def
        fence_of_def bucket_default_def kr_get_def gr_get_def key_rows_default_def gone_rows_default_def)
qed

definition owned_by_write :: "bucket_state \<Rightarrow> string \<Rightarrow> bool" where
  "owned_by_write b key \<longleftrightarrow> key \<in> set (bs_rebuild_touched b) \<or> map_of (bs_uncertain_keys b) key \<noteq> None"

lemma fold_list_row_frame:
  "bs_rebuild_touched (fst (fold_list_row lay row acc)) = bs_rebuild_touched (fst acc)"
  "bs_uncertain_keys (fst (fold_list_row lay row acc)) = bs_uncertain_keys (fst acc)"
  "bs_gone (fst (fold_list_row lay row acc)) = bs_gone (fst acc)"
  by (auto simp: fold_list_row_def index_row_fst split: prod.split)

lemma fold_rows_frame:
  "bs_rebuild_touched (fst (fold (fold_list_row lay) listed acc)) = bs_rebuild_touched (fst acc)"
  "bs_uncertain_keys (fst (fold (fold_list_row lay) listed acc)) = bs_uncertain_keys (fst acc)"
  "bs_gone (fst (fold (fold_list_row lay) listed acc)) = bs_gone (fst acc)"
  by (induction listed arbitrary: acc) (simp_all add: fold_list_row_frame)

lemma fold_rows_owned:
  "owned_by_write (fst acc) key \<Longrightarrow>
     kr_get (bs_keys (fst (fold (fold_list_row lay) listed acc))) key = kr_get (bs_keys (fst acc)) key"
proof (induction listed arbitrary: acc)
  case (Cons row listed)
  have "kr_get (bs_keys (fst (fold_list_row lay row acc))) key = kr_get (bs_keys (fst acc)) key"
    using Cons.prems
    by (auto simp: fold_list_row_def list_row_admitted_def owned_by_write_def index_row_fst split: prod.split)
  moreover have "owned_by_write (fst (fold_list_row lay row acc)) key"
    using Cons.prems by (simp add: owned_by_write_def fold_list_row_frame)
  ultimately show ?case
    using Cons.IH by simp
qed simp

text \<open>C27: A LIST page of a rebuild cannot overwrite a key that a write, a delete or an exact HEAD
  reconciliation took during that rebuild, nor a key that is fenced, whatever stamps the page's
  rows carry.\<close>

theorem listing_respects_writes:
  assumes "owned_by_write (bucket_entry st bucket) key"
  shows "live (fst (sync_listing_into_generation lay st bucket generation listed)) bucket key = live st bucket key
    \<and> dead (fst (sync_listing_into_generation lay st bucket generation listed)) bucket key = dead st bucket key
    \<and> fence_of (fst (sync_listing_into_generation lay st bucket generation listed)) bucket key = fence_of st bucket key"
  using fold_rows_owned [of "(bucket_entry st bucket, ki_stats st)" key lay listed] assms
  by (simp add: sync_listing_into_generation_def Let_def live_def dead_def fence_of_def case_prod_beta
      fold_rows_frame)

text \<open>During a rebuild the first definitive put of a key is indexed even if its clock lags the
  listed row and even past a tombstone, and it then owns the key: no later page replaces it.\<close>

theorem rebuild_write_wins:
  assumes "rebuilding st bucket" "key \<notin> set (bs_rebuild_touched (bucket_entry st bucket))"
  shows "snd (apply_put lay st bucket key e)
    \<and> live (fst (sync_listing_into_generation lay (fst (apply_put lay st bucket key e)) bucket generation listed))
        bucket key = Some e"
proof -
  let ?st = "fst (apply_put lay st bucket key e)"
  have put: "snd (apply_put lay st bucket key e)" "live ?st bucket key = Some e"
    "owned_by_write (bucket_entry ?st bucket) key"
    using assms(1,2) put_effect(3) [of st None lay bucket key e DefinitiveMutation]
    unfolding apply_put_def [symmetric]
    by (auto simp: live_def put_entry put_bucket_def Let_def index_row_fst rebuilding_def owned_by_write_def
        touch_def clear_uncertain_def)
  then show ?thesis
    using fold_rows_owned [of "(bucket_entry ?st bucket, ki_stats ?st)" key lay listed]
    by (simp add: sync_listing_into_generation_def Let_def live_def case_prod_beta)
qed

section \<open>A clean rebuild\<close>

definition sync_pages ::
  "layout \<Rightarrow> key_index_state \<Rightarrow> string \<Rightarrow> nat \<Rightarrow> (string \<times> obj_entry) list list \<Rightarrow> key_index_state" where
  "sync_pages lay st bucket generation pages =
     fold (\<lambda>page st. fst (sync_listing_into_generation lay st bucket generation page)) pages st"

lemma listing_entry:
  assumes "owns_rebuild (bucket_entry st bucket) generation"
  shows "bucket_entry (fst (sync_listing_into_generation lay st bucket generation page)) bucket
      = fst (fold (fold_list_row lay) page (bucket_entry st bucket, ki_stats st))"
    and "owns_rebuild (bucket_entry (fst (sync_listing_into_generation lay st bucket generation page)) bucket) generation"
proof -
  show e: "bucket_entry (fst (sync_listing_into_generation lay st bucket generation page)) bucket
      = fst (fold (fold_list_row lay) page (bucket_entry st bucket, ki_stats st))"
    using assms by (simp add: sync_listing_into_generation_def Let_def case_prod_beta)
  have "bs_sync_generation (fst (fold (fold_list_row lay) page acc)) = bs_sync_generation (fst acc)"
    "bs_rebuild_generation (fst (fold (fold_list_row lay) page acc)) = bs_rebuild_generation (fst acc)" for acc
    by (induction page arbitrary: acc) (auto simp: fold_list_row_def index_row_fst split: prod.split)
  then show "owns_rebuild (bucket_entry (fst (sync_listing_into_generation lay st bucket generation page)) bucket) generation"
    using assms by (simp add: e owns_rebuild_def)
qed

definition clean_bucket :: "bucket_state \<Rightarrow> bool" where
  "clean_bucket b \<longleftrightarrow> bs_rebuild_touched b = [] \<and> bs_uncertain_keys b = [] \<and> gr_map (bs_gone b) = []"

lemma fold_rows_clean:
  assumes "clean_bucket (fst acc)" "distinct (map fst page)"
    and "\<And>k. k \<in> fst ` set page \<Longrightarrow> kr_get (bs_keys (fst acc)) k = None"
  shows "kr_get (bs_keys (fst (fold (fold_list_row lay) page acc))) k
      = (case map_of page k of None \<Rightarrow> kr_get (bs_keys (fst acc)) k | Some e \<Rightarrow> Some e)"
  using assms
proof (induction page arbitrary: acc)
  case (Cons row page)
  obtain key e b tot where row: "row = (key, e)" "acc = (b, tot)"
    by (cases row; cases acc) auto
  have adm: "list_row_admitted b key (e_last_modified e)"
    using Cons.prems row by (auto simp: list_row_admitted_def clean_bucket_def gr_get_def)
  let ?acc = "fold_list_row lay row acc"
  have get: "kr_get (bs_keys (fst ?acc)) = (kr_get (bs_keys b))(key \<mapsto> e)"
    using adm row by (simp add: fold_list_row_def index_row_fst)
  have "clean_bucket (fst ?acc)"
    using Cons.prems(1) by (simp add: clean_bucket_def fold_list_row_frame)
  then have "kr_get (bs_keys (fst (fold (fold_list_row lay) page ?acc))) k
      = (case map_of page k of None \<Rightarrow> kr_get (bs_keys (fst ?acc)) k | Some e \<Rightarrow> Some e)"
    using Cons.prems get row by (intro Cons.IH) auto
  moreover have "map_of page key = None"
    using Cons.prems(2) row by (simp add: map_of_eq_None_iff)
  ultimately show ?case
    using get row by (cases "k = key"; cases "map_of page k") auto
qed simp

lemma sync_pages_clean:
  assumes "owns_rebuild (bucket_entry st bucket) generation" "clean_bucket (bucket_entry st bucket)"
    and "distinct (map fst (concat pages))"
    and "\<And>k. k \<in> fst ` set (concat pages) \<Longrightarrow> live st bucket k = None"
  shows "owns_rebuild (bucket_entry (sync_pages lay st bucket generation pages) bucket) generation
    \<and> live (sync_pages lay st bucket generation pages) bucket k
        = (case map_of (concat pages) k of None \<Rightarrow> live st bucket k | Some e \<Rightarrow> Some e)"
  using assms
proof (induction pages arbitrary: st)
  case (Cons page pages)
  let ?st = "fst (sync_listing_into_generation lay st bucket generation page)"
  note le = listing_entry [OF Cons.prems(1), of lay page]
  have lk: "live ?st bucket k = (case map_of page k of None \<Rightarrow> live st bucket k | Some e \<Rightarrow> Some e)" for k
    unfolding live_def le(1)
    using fold_rows_clean [of "(bucket_entry st bucket, ki_stats st)" page lay k] Cons.prems
    by (simp add: live_def image_Un split: option.split)
  have clean: "clean_bucket (bucket_entry ?st bucket)"
    using Cons.prems(2) unfolding le(1) by (simp add: clean_bucket_def fold_rows_frame)
  have fresh: "live ?st bucket k = None" if "k \<in> fst ` set (concat pages)" for k
  proof -
    have "map_of page k = None"
      using that Cons.prems(3) by (force simp: map_of_eq_None_iff)
    then show ?thesis
      using lk Cons.prems(4) [of k] that by (simp add: image_Un)
  qed
  have "map_of page k = None" if "map_of (concat pages) k \<noteq> None"
  proof (rule ccontr)
    assume "map_of page k \<noteq> None"
    then have "k \<in> fst ` set page" "k \<in> fst ` set (concat pages)"
      using that unfolding map_of_eq_None_iff by blast+
    then show False
      using Cons.prems(3) by auto
  qed
  then show ?case
    using Cons.IH [OF le(2) clean _ fresh] Cons.prems(3) lk [of k]
    by (cases "map_of (concat pages) k"; cases "map_of page k") (simp_all add: sync_pages_def map_add_def)
qed (simp add: sync_pages_def)

text \<open>A rebuild that is not raced by writes publishes exactly the origin's snapshot: after a
  resync of a bucket with no open fences, its LIST pages (each key once) and its completion, the
  bucket is synced and a key is indexed with an entry exactly when the pages listed it so.\<close>

theorem clean_rebuild_is_snapshot:
  assumes "\<And>k. fence_of st bucket k = None" "distinct (map fst (concat pages))"
  shows "case begin_bucket_resync st bucket of (st1, generation) \<Rightarrow>
     case finish_bucket_sync_generation (sync_pages lay st1 bucket generation pages) bucket generation of
       (st2, published) \<Rightarrow> published \<and> bs_synced (bucket_entry st2 bucket)
         \<and> (\<forall>k. live st2 bucket k = map_of (concat pages) k)"
proof -
  let ?st1 = "fst (begin_bucket_resync st bucket)" and ?g = "snd (begin_bucket_resync st bucket)"
  have b1: "bucket_entry ?st1 bucket = bucket_reset (bucket_entry st bucket) True"
    "?g = bs_sync_generation (bucket_reset (bucket_entry st bucket) True)"
    by (simp_all add: begin_bucket_resync_def Let_def)
  have unc: "bs_uncertain_keys (bucket_entry st bucket) = []"
    using assms(1) [of "fst (hd (bs_uncertain_keys (bucket_entry st bucket)))"]
    by (cases "bs_uncertain_keys (bucket_entry st bucket)") (auto simp: fence_of_def)
  have owns: "owns_rebuild (bucket_entry ?st1 bucket) ?g"
    by (simp add: b1 owns_rebuild_def bucket_reset_def Let_def)
  have clean: "clean_bucket (bucket_entry ?st1 bucket)"
    by (simp add: b1 unc clean_bucket_def bucket_reset_def Let_def bucket_default_def gone_rows_default_def)
  have empty: "live ?st1 bucket k = None" for k
    by (simp add: live_def b1 bucket_reset_def Let_def bucket_default_def kr_get_def key_rows_default_def)
  let ?p = "sync_pages lay ?st1 bucket ?g pages"
  have p: "owns_rebuild (bucket_entry ?p bucket) ?g" "\<And>k. live ?p bucket k = map_of (concat pages) k"
    using sync_pages_clean [OF owns clean assms(2), of lay] empty by (auto split: option.splits)
  have "snd (finish_bucket_sync_generation ?p bucket ?g)"
    "bs_synced (bucket_entry (fst (finish_bucket_sync_generation ?p bucket ?g)) bucket)"
    "\<And>k. live (fst (finish_bucket_sync_generation ?p bucket ?g)) bucket k = live ?p bucket k"
    using p(1) by (simp_all add: finish_bucket_sync_generation_def Let_def live_def)
  then show ?thesis
    using p(2) by (simp add: case_prod_beta)
qed

section \<open>Completion\<close>

lemma complete_entry_live:
  assumes "live st bucket key = Some e"
  shows "live (fst (complete_entry lay st bucket key fill)) b k =
      (if b = bucket \<and> k = key then Some (fst (complete_row fill e)) else live st b k)"
    and "snd (complete_entry lay st bucket key fill) =
      (if \<not> same_version e fill then OtherVersion else if filled fill e then Completed else AlreadyComplete)"
proof -
  let ?b = "bucket_entry st bucket"
  have get: "bucket_get st bucket = Some ?b" "kr_get (bs_keys ?b) key = Some e"
    using assms by (auto simp: live_def bucket_entry_def bucket_default_def kr_get_def key_rows_default_def
        split: option.splits)
  have res: "snd (kr_update lay (bs_keys ?b) key (complete_row fill)) = Some (snd (complete_row fill e))"
    by (simp add: kr_update_result get)
  have keys: "kr_get (fst (kr_update lay (bs_keys ?b) key (complete_row fill))) = (kr_get (bs_keys ?b))(key \<mapsto> fst (complete_row fill e))"
    by (simp add: kr_get_update get)
  show "live (fst (complete_entry lay st bucket key fill)) b k =
      (if b = bucket \<and> k = key then Some (fst (complete_row fill e)) else live st b k)"
    using res keys get
    by (auto simp: complete_entry_def live_def Let_def account_replacement_def split: prod.splits option.splits)
  show "snd (complete_entry lay st bucket key fill) =
      (if \<not> same_version e fill then OtherVersion else if filled fill e then Completed else AlreadyComplete)"
    using res get
    by (auto simp: complete_entry_def complete_row_def Let_def account_replacement_def split: prod.splits option.splits if_splits)
qed

lemma fill_entry_fields [simp]:
  "e_last_modified (fill_entry fill e) = e_last_modified e"
  "e_storage_class (fill_entry fill e) = e_storage_class e"
  "e_size (fill_entry fill e) = (if e_size e = None then f_size fill else e_size e)"
  "e_etag (fill_entry fill e) = (if e_etag e = None then f_etag fill else e_etag e)"
  "e_content_type (fill_entry fill e) = (if e_content_type e = None then f_content_type fill else e_content_type e)"
  "e_meta (fill_entry fill e) = (if e_meta e = None then Some (f_meta fill) else e_meta e)"
  by (simp_all add: fill_entry_def)

text \<open>Completing an indexed entry never changes a field it already had, never its
  last-writer-wins stamp or storage class, and never any other row; a response about another
  version lends it nothing; and a full response about the same version leaves it faithful.\<close>

theorem completion_only_fills:
  assumes "live st bucket key = Some e"
  shows "\<exists>e'. live (fst (complete_entry lay st bucket key fill)) bucket key = Some e'
      \<and> e_last_modified e' = e_last_modified e \<and> e_storage_class e' = e_storage_class e
      \<and> (e_size e \<noteq> None \<longrightarrow> e_size e' = e_size e) \<and> (e_etag e \<noteq> None \<longrightarrow> e_etag e' = e_etag e)
      \<and> (e_content_type e \<noteq> None \<longrightarrow> e_content_type e' = e_content_type e)
      \<and> (e_meta e \<noteq> None \<longrightarrow> e_meta e' = e_meta e)
      \<and> (snd (complete_entry lay st bucket key fill) \<noteq> Completed \<longrightarrow> e' = e)
      \<and> (same_version e fill \<and> f_size fill \<noteq> None \<and> f_etag fill \<noteq> None \<and> f_content_type fill \<noteq> None
           \<longrightarrow> is_faithful e')
      \<and> (\<forall>b k. (b, k) \<noteq> (bucket, key) \<longrightarrow>
           live (fst (complete_entry lay st bucket key fill)) b k = live st b k)"
proof -
  have unfilled: "fill_entry fill e = e" if "\<not> filled fill e"
    using that by (cases e) (auto simp: filled_def fill_entry_def)
  show ?thesis
    using complete_entry_live [OF assms, of lay fill] unfilled
    by (intro exI [of _ "fst (complete_row fill e)"])
      (auto simp: complete_row_def Let_def is_faithful_def)
qed

section \<open>Native cuts\<close>

definition cut_valid :: "native_cut \<Rightarrow> bool" where
  "cut_valid nc \<longleftrightarrow> nc_writer nc \<noteq> [] \<and> length (nc_writer nc) \<le> MAX_NATIVE_ID_BYTES
     \<and> nc_epoch nc \<noteq> 0 \<and> nc_sequence nc \<noteq> 0"

definition cut_tracked :: "key_index_state \<Rightarrow> native_cut \<Rightarrow> bool" where
  "cut_tracked st nc \<longleftrightarrow> map_of (ki_native_cuts st) (nc_writer nc) \<noteq> None
     \<or> length (ki_native_cuts st) < MAX_NATIVE_WRITERS"

lemma note_records:
  assumes "cut_valid nc" "cut_tracked st nc" "snd (note_native_cut st nc)"
  shows "map_of (ki_native_cuts (fst (note_native_cut st nc))) (nc_writer nc) = Some (nc_epoch nc, nc_sequence nc)"
  using assms
  by (auto simp: note_native_cut_def cut_valid_def cut_tracked_def Let_def split: option.splits if_splits)

lemma note_duplicate:
  assumes "cut_valid nc" "map_of (ki_native_cuts st) (nc_writer nc) = Some (nc_epoch nc, s)" "nc_sequence nc \<le> s"
  shows "note_native_cut st nc = (st, False)"
  using assms by (simp add: note_native_cut_def cut_valid_def)

lemma note_rejects_duplicate:
  assumes "\<not> snd (note_native_cut st nc)"
  shows "fst (note_native_cut st nc) = st"
  using assms by (auto simp: note_native_cut_def Let_def split: option.splits if_splits)

text \<open>A native feed event is applied at most once: delivering the same writer position again,
  whatever it carries, changes nothing at all, not even the donor journal.\<close>

theorem native_event_applied_once:
  assumes "cut_valid nc" "cut_tracked st nc"
  shows "apply_put_native lay (fst (apply_put_native lay st bucket key e nc)) bucket' key' e' nc
      = (fst (apply_put_native lay st bucket key e nc), False)
    \<and> apply_del_native lay (fst (apply_put_native lay st bucket key e nc)) bucket' key' ts nc
      = (fst (apply_put_native lay st bucket key e nc), False)"
proof -
  let ?st = "fst (apply_put_native lay st bucket key e nc)"
  have id: "note_identity s (Some (Native nc)) = note_native_cut s nc" for s
    by (simp add: note_identity_def)
  have "\<not> snd (note_native_cut ?st nc)"
  proof (cases "snd (note_native_cut st nc)")
    case True
    then have "map_of (ki_native_cuts ?st) (nc_writer nc) = Some (nc_epoch nc, nc_sequence nc)"
      using note_records [OF assms True] put_effect(5) [of lay st bucket key e DefinitiveMutation "Some (Native nc)"]
      by (simp add: apply_put_native_def id)
    then show ?thesis
      using note_duplicate [OF assms(1)] by simp
  next
    case False
    then have "?st = st"
      using put_effect(4) [of st "Some (Native nc)" lay bucket key e DefinitiveMutation] note_rejects_duplicate
      by (simp add: apply_put_native_def id)
    then show ?thesis
      using False by simp
  qed
  then show ?thesis
    using put_effect(4) [of ?st "Some (Native nc)" lay bucket' key' e' DefinitiveMutation]
      del_effect(4) [of ?st "Some (Native nc)" lay bucket' key' ts Run] note_rejects_duplicate [of ?st nc]
    by (simp add: apply_put_native_def apply_del_native_def id)
qed

text \<open>A feed gap leaves nothing the missed writes could have changed: every bucket is emptied,
  unsynced and moved to a new generation with its fences kept, and a known writer's cut stands at
  or past the position it missed through.\<close>

theorem gap_discards_everything:
  "let st' = discard_for_gap st missed in
   (\<forall>b k. live st' b k = None \<and> dead st' b k = None \<and> fence_of st' b k = fence_of st b k
      \<and> (bucket_get st b \<noteq> None \<longrightarrow> \<not> bs_synced (bucket_entry st' b) \<and> \<not> rebuilding st' b
           \<and> bs_sync_generation (bucket_entry st' b) = wrapping_add64 (bs_sync_generation (bucket_entry st b)) 1))
   \<and> (case map_of (ki_native_cuts st) (nc_writer missed) of
        None \<Rightarrow> map_of (ki_native_cuts st') (nc_writer missed) = None
      | Some _ \<Rightarrow> \<exists>c. map_of (ki_native_cuts st') (nc_writer missed) = Some c
          \<and> cut_le (nc_epoch missed, nc_sequence missed) c)"
proof -
  let ?s = "skip_native_gap st missed"
  have get: "bucket_get (discard_for_gap st missed) b = map_option (\<lambda>b. bucket_reset b False) (bucket_get st b)" for b
    using writer_frame(3) [of st missed] unfolding discard_for_gap_def discard_get by (simp add: bucket_get_def)
  have cuts: "ki_native_cuts (discard_for_gap st missed) = ki_native_cuts ?s"
    by (simp add: discard_for_gap_def discard_buckets_def Let_def)
  have "case map_of (ki_native_cuts st) (nc_writer missed) of
        None \<Rightarrow> map_of (ki_native_cuts ?s) (nc_writer missed) = None
      | Some _ \<Rightarrow> \<exists>c. map_of (ki_native_cuts ?s) (nc_writer missed) = Some c
          \<and> cut_le (nc_epoch missed, nc_sequence missed) c"
    by (auto simp: skip_native_gap_def Let_def cut_le_def split: option.split)
  then show ?thesis
    unfolding Let_def cuts
    by (auto simp: live_def dead_def fence_of_def rebuilding_def bucket_entry_def get bucket_reset_def Let_def
        bucket_default_def kr_get_def gr_get_def key_rows_default_def gone_rows_default_def split: option.splits)
qed

section \<open>Instances\<close>

lemma bucket_entry_empty [simp]: "bucket_entry key_index_default n = bucket_default"
  by (simp add: bucket_entry_def bucket_get_def key_index_default_def)

definition index_example :: "layout \<Rightarrow> key_index_state" where
  "index_example lay = fst (apply_put lay key_index_default ''b'' ''k'' (lww_example_entry 5))"

lemma index_example_run: "index_run lay [7] (index_example lay)"
  using index_run.Step [OF index_run.Start index_step.Put [of lay key_index_default "lww_example_entry 5"
      "''b''" "''k''" DefinitiveMutation None]]
  by (simp add: index_example_def apply_put_def row_bytes_def stats_for_entry_def lww_example_entry_def)

lemma index_example_live: "live (index_example lay) ''b'' ''k'' = Some (lww_example_entry 5)"
  by (simp add: index_example_def live_def put_entry put_bucket_def Let_def index_row_fst
      bucket_default_def tombstone_at_least_def entry_newer_def
      gr_get_def kr_get_def gone_rows_default_def key_rows_default_def kr_insert_def)

lemma fence_example:
  "epoch_of st bucket < u64_max \<Longrightarrow> \<exists>st' token. fence_key st bucket key = Some (st', token)"
  by (auto simp: fence_key_def Let_def epoch_of_def checked_add64_def)

lemma index_example_epoch: "epoch_of (index_example lay) ''b'' = 0"
  by (simp add: index_example_def epoch_of_def put_entry put_bucket_epoch bucket_default_def)

lemma index_example_fences: "fence_of (index_example lay) bucket key = None"
  by (auto simp: index_example_def fence_of_def put_entry put_bucket_def Let_def index_row_fst bucket_default_def)

lemma reachable_index_ok_witness: "\<forall>lay. index_run lay [7] (index_example lay) \<and> index_ok lay (index_example lay)"
  using reachable_index_ok index_example_run by blast

lemma statistics_exact_witness:
  "\<forall>lay. objects (index_stats_of (index_example lay))
     = sum_list (map (\<lambda>(n, b). kr_len (bs_keys b)) (ki_buckets (index_example lay)))"
  using statistics_exact [OF index_example_run] by (simp add: u64_max_def)

lemma fence_tokens_never_reused_witness:
  "\<forall>lay. \<exists>st1 t st2 t'. fence_key (index_example lay) ''b'' ''k'' = Some (st1, t)
     \<and> fence_key st1 ''b'' ''j'' = Some (st2, t') \<and> t < t'"
proof
  fix lay
  obtain st1 t where 1: "fence_key (index_example lay) ''b'' ''k'' = Some (st1, t)"
    using fence_example [of "index_example lay" "''b''"] index_example_epoch by (fastforce simp: u64_max_def)
  then have "epoch_of st1 ''b'' = 1"
    using fence_key_Some(1,2) [OF 1] index_example_epoch by simp
  then obtain st2 t' where 2: "fence_key st1 ''b'' ''j'' = Some (st2, t')"
    using fence_example [of st1 "''b''"] by (fastforce simp: u64_max_def)
  show "\<exists>st1 t st2 t'. fence_key (index_example lay) ''b'' ''k'' = Some (st1, t)
     \<and> fence_key st1 ''b'' ''j'' = Some (st2, t') \<and> t < t'"
    using 1 2 fence_tokens_never_reused [OF 1 rtranclp.rtrancl_refl 2] by blast
qed

lemma fence_is_exact_witness:
  "\<forall>lay. \<exists>st t. fence_key (index_example lay) ''b'' ''k'' = Some (st, t) \<and> uncertain_key_is_current st ''b'' ''k'' t"
proof
  fix lay
  obtain st t where 1: "fence_key (index_example lay) ''b'' ''k'' = Some (st, t)"
    using fence_example [of "index_example lay" "''b''"] index_example_epoch by (fastforce simp: u64_max_def)
  then show "\<exists>st t. fence_key (index_example lay) ''b'' ''k'' = Some (st, t) \<and> uncertain_key_is_current st ''b'' ''k'' t"
    using fence_is_exact [OF index_run_ok [OF index_example_run] 1] by blast
qed

lemma resolve_is_exact_witness:
  "\<forall>lay. \<exists>st t. uncertain_key_is_current st ''b'' ''k'' t
     \<and> live (fst (resolve_uncertain_key lay 0 st ''b'' ''k'' t Absent)) ''b'' ''k'' = None"
proof
  fix lay
  obtain st t where 1: "fence_key (index_example lay) ''b'' ''k'' = Some (st, t)"
    using fence_example [of "index_example lay" "''b''"] index_example_epoch by (fastforce simp: u64_max_def)
  then have "uncertain_key_is_current st ''b'' ''k'' t"
    using fence_key_Some(3) [OF 1] by (simp add: fence_current_iff)
  then show "\<exists>st t. uncertain_key_is_current st ''b'' ''k'' t
     \<and> live (fst (resolve_uncertain_key lay 0 st ''b'' ''k'' t Absent)) ''b'' ''k'' = None"
    using resolve_is_exact [of lay 0 st "''b''" "''k''" t Absent] by (auto simp: Let_def)
qed

lemma stale_generation_publishes_nothing_witness:
  "\<forall>lay. \<not> owns_rebuild (bucket_entry key_index_default ''b'') 3
     \<and> snd (sync_listing_into_generation lay key_index_default ''b'' 3 [(''k'', lww_example_entry 5)]) = None"
  using stale_generation_publishes_nothing [of key_index_default "''b''" 3 _ "[(''k'', lww_example_entry 5)]"]
  by (simp add: owns_rebuild_def bucket_default_def)

definition rebuild_example :: key_index_state where
  "rebuild_example = fst (begin_bucket_resync key_index_default ''b'')"

lemma rebuild_example_bucket: "bucket_entry rebuild_example ''b'' = bucket_reset bucket_default True"
  by (simp add: rebuild_example_def begin_bucket_resync_def Let_def)

lemma rebuild_example_owns: "owns_rebuild (bucket_entry rebuild_example ''b'') 1"
  by (simp add: rebuild_example_bucket owns_rebuild_def bucket_reset_def Let_def bucket_default_def wrapping_add64_def)

lemma resync_supersedes_witness:
  "owns_rebuild (bucket_entry rebuild_example ''b'') 1
   \<and> \<not> owns_rebuild (bucket_entry (fst (begin_bucket_resync rebuild_example ''b'')) ''b'') 1"
  using resync_supersedes [of _ rebuild_example "''b''" 1] rebuild_example_owns
    index_ok_begin [OF index_ok_default, of _ "''b''"] by (simp add: rebuild_example_def)

lemma rebuild_write_wins_witness:
  "\<forall>lay. rebuilding rebuild_example ''b''
     \<and> live (fst (sync_listing_into_generation lay (fst (apply_put lay rebuild_example ''b'' ''k'' (lww_example_entry 5)))
          ''b'' 1 [(''k'', lww_example_entry 9)])) ''b'' ''k'' = Some (lww_example_entry 5)"
  using rebuild_write_wins [of rebuild_example "''b''" "''k''" _ "lww_example_entry 5" 1 "[(''k'', lww_example_entry 9)]"]
  by (simp add: rebuilding_def rebuild_example_bucket bucket_reset_def Let_def bucket_default_def)

lemma listing_respects_writes_witness:
  "\<forall>lay. let st = fst (apply_put lay rebuild_example ''b'' ''k'' (lww_example_entry 5)) in
     owned_by_write (bucket_entry st ''b'') ''k''
     \<and> live (fst (sync_listing_into_generation lay st ''b'' 1 [(''k'', lww_example_entry 9)])) ''b'' ''k'' = live st ''b'' ''k''"
proof
  fix lay
  let ?st = "fst (apply_put lay rebuild_example ''b'' ''k'' (lww_example_entry 5))"
  have "owned_by_write (bucket_entry ?st ''b'') ''k''"
    by (simp add: put_entry put_bucket_def Let_def rebuild_example_bucket bucket_reset_def bucket_default_def
        owned_by_write_def touch_def clear_uncertain_def index_row_fst)
  then show "let st = ?st in owned_by_write (bucket_entry st ''b'') ''k''
     \<and> live (fst (sync_listing_into_generation lay st ''b'' 1 [(''k'', lww_example_entry 9)])) ''b'' ''k'' = live st ''b'' ''k''"
    using listing_respects_writes [of ?st "''b''" "''k''" lay 1 "[(''k'', lww_example_entry 9)]"] by (simp add: Let_def)
qed

lemma clean_rebuild_is_snapshot_witness:
  "\<forall>lay. case begin_bucket_resync (index_example lay) ''b'' of (st1, generation) \<Rightarrow>
     case finish_bucket_sync_generation
       (sync_pages lay st1 ''b'' generation [[(''a'', lww_example_entry 3)], [(''c'', lww_example_entry 4)]])
       ''b'' generation of
       (st2, published) \<Rightarrow> published \<and> live st2 ''b'' ''c'' = Some (lww_example_entry 4) \<and> live st2 ''b'' ''k'' = None"
proof
  fix lay
  show "case begin_bucket_resync (index_example lay) ''b'' of (st1, generation) \<Rightarrow>
     case finish_bucket_sync_generation
       (sync_pages lay st1 ''b'' generation [[(''a'', lww_example_entry 3)], [(''c'', lww_example_entry 4)]])
       ''b'' generation of
       (st2, published) \<Rightarrow> published \<and> live st2 ''b'' ''c'' = Some (lww_example_entry 4) \<and> live st2 ''b'' ''k'' = None"
    using clean_rebuild_is_snapshot [of "index_example lay" "''b''"
        "[[(''a'', lww_example_entry 3)], [(''c'', lww_example_entry 4)]]" lay] index_example_fences
    by (simp add: case_prod_beta)
qed

definition fill_example :: entry_fill where
  "fill_example = \<lparr>f_size = Some 7, f_etag = Some (Strong ''a''), f_content_type = Some ''text/plain'',
     f_meta = obj_meta_default\<rparr>"

lemma completion_only_fills_witness:
  "\<forall>lay. \<exists>e'. live (fst (complete_entry lay (index_example lay) ''b'' ''k'' fill_example)) ''b'' ''k'' = Some e'
     \<and> is_faithful e' \<and> e_last_modified e' = 5"
proof
  fix lay
  have "same_version (lww_example_entry 5) fill_example"
    by (simp add: same_version_def lww_example_entry_def fill_example_def)
  then show "\<exists>e'. live (fst (complete_entry lay (index_example lay) ''b'' ''k'' fill_example)) ''b'' ''k'' = Some e'
     \<and> is_faithful e' \<and> e_last_modified e' = 5"
    using completion_only_fills [OF index_example_live [of lay], of lay fill_example]
    by (auto simp: fill_example_def lww_example_entry_def)
qed

lemma native_event_applied_once_witness:
  "\<forall>lay. let nc = \<lparr>nc_writer = ''w'', nc_epoch = 1, nc_sequence = 1\<rparr>;
             st = fst (apply_put_native lay key_index_default ''b'' ''k'' (lww_example_entry 5) nc) in
     apply_put_native lay st ''b'' ''k'' (lww_example_entry 9) nc = (st, False)"
  using native_event_applied_once [of "\<lparr>nc_writer = ''w'', nc_epoch = 1, nc_sequence = 1\<rparr>" key_index_default]
  by (simp add: Let_def cut_valid_def cut_tracked_def key_index_default_def MAX_NATIVE_ID_BYTES_def MAX_NATIVE_WRITERS_def)

lemma gap_discards_everything_witness:
  "\<forall>lay. let st' = discard_for_gap (index_example lay) \<lparr>nc_writer = ''w'', nc_epoch = 1, nc_sequence = 9\<rparr> in
     live st' ''b'' ''k'' = None \<and> \<not> bs_synced (bucket_entry st' ''b'')"
proof
  fix lay
  have "bucket_get (index_example lay) ''b'' \<noteq> None"
    using index_example_live [of lay]
    by (auto simp: live_def bucket_entry_def bucket_default_def kr_get_def key_rows_default_def split: option.splits)
  then show "let st' = discard_for_gap (index_example lay) \<lparr>nc_writer = ''w'', nc_epoch = 1, nc_sequence = 9\<rparr> in
     live st' ''b'' ''k'' = None \<and> \<not> bs_synced (bucket_entry st' ''b'')"
    using gap_discards_everything [of "index_example lay" "\<lparr>nc_writer = ''w'', nc_epoch = 1, nc_sequence = 9\<rparr>"]
    by (auto simp: Let_def)
qed

lemma remove_bucket_reuses_tokens_witness:
  "\<exists>st1 t st2. fence_key key_index_default ''b'' ''k'' = Some (st1, t)
     \<and> fence_key (remove_bucket st1 ''b'') ''b'' ''k'' = Some (st2, t)"
proof -
  have e: "epoch_of key_index_default ''b'' = 0" "epoch_of (remove_bucket st ''b'') ''b'' = 0" for st
    by (auto simp: epoch_of_def bucket_entry_def bucket_get_def remove_bucket_def Let_def bucket_default_def
        key_index_default_def split: option.split)
  obtain st1 t where 1: "fence_key key_index_default ''b'' ''k'' = Some (st1, t)"
    using fence_example e(1) by (fastforce simp: u64_max_def)
  obtain st2 t' where 2: "fence_key (remove_bucket st1 ''b'') ''b'' ''k'' = Some (st2, t')"
    using fence_example e(2) by (fastforce simp: u64_max_def)
  show ?thesis
    using 1 2 remove_bucket_reuses_tokens [OF 1 2] by blast
qed

end
