(* ===== verification/List_Token.thy ===== *)
theory List_Token
  imports Legacy
begin

text \<open>
  Portable LIST continuation tokens (\<^verbatim>\<open>src/src/list_token.rs\<close>). The hash (\<^verbatim>\<open>blake3\<close>), the
  base64 engine and the \<^verbatim>\<open>postcard\<close> codec are the parameter \<open>env\<close>; what the code relies on
  of them is \<open>token_laws\<close>. Version 1 payloads are read by the legacy decoder.
\<close>

record payload =
  p_bucket :: string
  p_prefix :: "string option"
  p_delimiter :: "string option"
  p_cursor :: string

record list_input =
  li_bucket :: string
  li_prefix :: "string option"
  li_delimiter :: "string option"
  li_max_keys :: "int option"
  li_start_after :: "string option"
  li_continuation_token :: "string option"

record token_env =
  te_hash :: "bytes \<Rightarrow> bytes"
  te_b64 :: "bytes \<Rightarrow> string"
  te_unb64 :: "string \<Rightarrow> bytes option"
  te_ser :: "payload \<Rightarrow> bytes"
  te_de :: "bytes \<Rightarrow> payload option"

definition OWNED_NAMESPACE :: string where
  "OWNED_NAMESPACE = ''s3cache:list-token:''"

definition V1_PREFIX :: string where
  "V1_PREFIX = ''s3cache:list-token:v1:''"

definition V2_PREFIX :: string where
  "V2_PREFIX = ''s3cache:list-token:v2:''"

definition CHECKSUM_BYTES :: nat where
  "CHECKSUM_BYTES = 16"

definition MAX_PAYLOAD_BYTES :: nat where
  "MAX_PAYLOAD_BYTES = 16 * 1024"

datatype continuation = CAbsent | COrigin | CLocal string string

datatype token_error = Malformed | RequestMismatch

definition starts_with :: "string \<Rightarrow> string \<Rightarrow> bool" where
  "starts_with p s \<longleftrightarrow> take (length p) s = p"

definition strip_prefix :: "string \<Rightarrow> string \<Rightarrow> string option" where
  "strip_prefix p s = (if starts_with p s then Some (drop (length p) s) else None)"

text \<open>The fields of the legacy payload, in declaration order.\<close>

definition legacy_payload :: "payload legacy" where
  "legacy_payload =
     lg_bind lg_str (\<lambda>bucket.
     lg_bind (lg_option lg_str) (\<lambda>prefix.
     lg_bind (lg_option lg_str) (\<lambda>delimiter.
     lg_bind lg_str (\<lambda>cursor.
       lg_return \<lparr>p_bucket = bucket, p_prefix = prefix, p_delimiter = delimiter, p_cursor = cursor\<rparr>))))"

definition classify :: "token_env \<Rightarrow> list_input \<Rightarrow> token_error + continuation" where
  "classify env inp = (case li_continuation_token inp of
       None \<Rightarrow> Inr CAbsent
     | Some token \<Rightarrow>
         if \<not> starts_with OWNED_NAMESPACE token then Inr COrigin
         else
           bindE (case strip_prefix V2_PREFIX token of
               Some encoded \<Rightarrow> Inr (encoded, False)
             | None \<Rightarrow> bindE (ok_or Malformed (strip_prefix V1_PREFIX token)) (\<lambda>encoded. Inr (encoded, True)))
             (\<lambda>(encoded, legacy).
           bindE (ok_or Malformed (te_unb64 env encoded)) (\<lambda>framed.
           if length framed \<le> CHECKSUM_BYTES \<or> length framed > MAX_PAYLOAD_BYTES + CHECKSUM_BYTES
           then Inl Malformed
           else
             let payload_len = length framed - CHECKSUM_BYTES;
                 pl = take payload_len framed;
                 checksum = drop payload_len framed
             in if checksum \<noteq> take CHECKSUM_BYTES (te_hash env pl) then Inl Malformed
                else
                  bindE (if legacy
                         then (case legacy_from_slice legacy_payload pl of Inl _ \<Rightarrow> Inl Malformed | Inr p \<Rightarrow> Inr p)
                         else ok_or Malformed (te_de env pl)) (\<lambda>decoded.
                  if p_bucket decoded \<noteq> li_bucket inp \<or> p_prefix decoded \<noteq> li_prefix inp
                     \<or> p_delimiter decoded \<noteq> li_delimiter inp
                  then Inl RequestMismatch
                  else Inr (CLocal token (p_cursor decoded))))))"

definition token_payload :: "list_input \<Rightarrow> string \<Rightarrow> payload" where
  "token_payload inp cursor = \<lparr>p_bucket = li_bucket inp, p_prefix = li_prefix inp,
     p_delimiter = li_delimiter inp, p_cursor = cursor\<rparr>"

definition encode_token :: "token_env \<Rightarrow> list_input \<Rightarrow> string \<Rightarrow> string" where
  "encode_token env inp cursor =
     (let bs = te_ser env (token_payload inp cursor)
      in V2_PREFIX @ te_b64 env (bs @ take CHECKSUM_BYTES (te_hash env bs)))"

record origin_envelope =
  oe_continuation_token :: string
  oe_start_after :: "string option"

definition rewrite_for_origin :: "list_input \<Rightarrow> string \<Rightarrow> string \<Rightarrow> list_input \<times> origin_envelope" where
  "rewrite_for_origin inp token cursor =
     (inp\<lparr>li_start_after := Some cursor, li_continuation_token := None\<rparr>,
      \<lparr>oe_continuation_token = token, oe_start_after = li_start_after inp\<rparr>)"

section \<open>Laws and properties\<close>

definition token_laws :: "token_env \<Rightarrow> bool" where
  "token_laws env \<longleftrightarrow> (\<forall>x. te_unb64 env (te_b64 env x) = Some x) \<and> (\<forall>x. length (te_hash env x) = 32)
     \<and> (\<forall>p. te_de env (te_ser env p) = Some p \<and> te_ser env p \<noteq> [])"

lemma starts_with_append [simp]: "starts_with p (p @ s)"
  by (simp add: starts_with_def)

lemma strip_prefix_append [simp]: "strip_prefix p (p @ s) = Some s"
  by (simp add: strip_prefix_def)

lemma owned_prefixes: "starts_with OWNED_NAMESPACE (V1_PREFIX @ s)" "starts_with OWNED_NAMESPACE (V2_PREFIX @ s)"
  "strip_prefix V2_PREFIX (V1_PREFIX @ s) = None"
  by (simp_all add: starts_with_def strip_prefix_def OWNED_NAMESPACE_def V1_PREFIX_def V2_PREFIX_def)

lemma classify_framed:
  assumes laws: "token_laws env" and token: "li_continuation_token inp = Some (pre @ te_b64 env (bs @ take CHECKSUM_BYTES (te_hash env bs)))"
    and pre: "pre = V2_PREFIX \<or> pre = V1_PREFIX" and size: "bs \<noteq> []" "length bs \<le> MAX_PAYLOAD_BYTES"
  shows "classify env inp =
    bindE (if pre = V1_PREFIX
           then (case legacy_from_slice legacy_payload bs of Inl _ \<Rightarrow> Inl Malformed | Inr p \<Rightarrow> Inr p)
           else ok_or Malformed (te_de env bs)) (\<lambda>decoded.
      if p_bucket decoded \<noteq> li_bucket inp \<or> p_prefix decoded \<noteq> li_prefix inp
         \<or> p_delimiter decoded \<noteq> li_delimiter inp
      then Inl RequestMismatch
      else Inr (CLocal (pre @ te_b64 env (bs @ take CHECKSUM_BYTES (te_hash env bs))) (p_cursor decoded)))"
proof -
  have len: "length (bs @ take CHECKSUM_BYTES (te_hash env bs)) = length bs + CHECKSUM_BYTES"
    using laws by (simp add: token_laws_def CHECKSUM_BYTES_def)
  have ne: "V1_PREFIX \<noteq> V2_PREFIX"
    by (simp add: V1_PREFIX_def V2_PREFIX_def)
  show ?thesis
    using pre
  proof
    assume pre: "pre = V2_PREFIX"
    show ?thesis
      using laws token size len ne unfolding pre CHECKSUM_BYTES_def
      by (simp add: classify_def owned_prefixes token_laws_def Let_def CHECKSUM_BYTES_def MAX_PAYLOAD_BYTES_def)
  next
    assume pre: "pre = V1_PREFIX"
    show ?thesis
      using laws token size len ne unfolding pre CHECKSUM_BYTES_def
      by (simp add: classify_def owned_prefixes token_laws_def Let_def CHECKSUM_BYTES_def MAX_PAYLOAD_BYTES_def)
  qed
qed

lemma classify_minted:
  assumes "token_laws env" "length (te_ser env (token_payload inp cursor)) \<le> MAX_PAYLOAD_BYTES"
    and "li_continuation_token inp' = Some (encode_token env inp cursor)"
  shows "classify env inp' = (if li_bucket inp' = li_bucket inp \<and> li_prefix inp' = li_prefix inp \<and> li_delimiter inp' = li_delimiter inp
    then Inr (CLocal (encode_token env inp cursor) cursor) else Inl RequestMismatch)"
proof -
  have ser: "te_ser env (token_payload inp cursor) \<noteq> []" "te_de env (te_ser env (token_payload inp cursor)) = Some (token_payload inp cursor)"
    using assms(1) by (simp_all add: token_laws_def)
  have ne: "V2_PREFIX \<noteq> V1_PREFIX"
    by (simp add: V1_PREFIX_def V2_PREFIX_def)
  show ?thesis
    using classify_framed [OF assms(1) _ _ ser(1) assms(2), of inp' V2_PREFIX] assms(3) ser(2) ne
    by (auto simp: encode_token_def Let_def token_payload_def)
qed

text \<open>A continuation token minted by any replica resumes at its cursor: classifying it in a
  request of the same bucket, prefix and delimiter yields exactly the cursor it was minted for,
  whatever the other request fields are.\<close>

theorem token_roundtrip:
  assumes "token_laws env" "length (te_ser env (token_payload inp cursor)) \<le> MAX_PAYLOAD_BYTES"
    and "li_bucket inp' = li_bucket inp" "li_prefix inp' = li_prefix inp" "li_delimiter inp' = li_delimiter inp"
    and "li_continuation_token inp' = Some (encode_token env inp cursor)"
  shows "classify env inp' = Inr (CLocal (encode_token env inp cursor) cursor)"
  using assms by (simp add: classify_minted)

text \<open>A token is bound to its request shape: presented with another bucket, prefix or
  delimiter it is refused as a mismatch, never resumed.\<close>

theorem token_bound_to_request:
  assumes "token_laws env" "length (te_ser env (token_payload inp cursor)) \<le> MAX_PAYLOAD_BYTES"
    and "li_bucket inp' \<noteq> li_bucket inp \<or> li_prefix inp' \<noteq> li_prefix inp \<or> li_delimiter inp' \<noteq> li_delimiter inp"
    and "li_continuation_token inp' = Some (encode_token env inp cursor)"
  shows "classify env inp' = Inl RequestMismatch"
  using assms by (auto simp: classify_minted)

definition leg_opt_str :: "string option \<Rightarrow> bytes" where
  "leg_opt_str x = (case x of None \<Rightarrow> [char_of (0 :: nat)] | Some s \<Rightarrow> char_of (1 :: nat) # leg_str s)"

definition leg_payload :: "payload \<Rightarrow> bytes" where
  "leg_payload p = leg_str (p_bucket p) @ leg_opt_str (p_prefix p) @ leg_opt_str (p_delimiter p) @ leg_str (p_cursor p)"

definition payload_ok :: "payload \<Rightarrow> bool" where
  "payload_ok p \<longleftrightarrow> (\<forall>s \<in> {p_bucket p, p_cursor p} \<union> set_option (p_prefix p) \<union> set_option (p_delimiter p).
     utf8_ok s \<and> length s < 2 ^ 64)"

interpretation lpayload: legacy_codec legacy_payload leg_payload payload_ok
proof
  fix x rest
  assume ok: "payload_ok x"
  have o: "lg_option lg_str (leg_opt_str y @ r) = Inr (y, r)" if "set_option y \<subseteq> {s. utf8_ok s \<and> length s < 2 ^ 64}" for y r
    unfolding leg_opt_str_def using that by (intro lstr.option_dec_enc) auto
  have "set_option (p_prefix x) \<subseteq> {s. utf8_ok s \<and> length s < 2 ^ 64}"
    "set_option (p_delimiter x) \<subseteq> {s. utf8_ok s \<and> length s < 2 ^ 64}"
    "utf8_ok (p_bucket x) \<and> length (p_bucket x) < 2 ^ 64" "utf8_ok (p_cursor x) \<and> length (p_cursor x) < 2 ^ 64"
    using ok unfolding payload_ok_def by blast+
  note parts = o [OF this(1)] o [OF this(2)] lstr.dec_enc [OF this(3)] lstr.dec_enc [OF this(4)]
  show "legacy_payload (leg_payload x @ rest) = Inr (x, rest)"
    by (simp add: legacy_payload_def leg_payload_def lg_bind_def lg_return_def parts)
qed

text \<open>During an upgrade, a client paging through a replica that still mints version 1 tokens
  keeps its place: the same payload in the earlier layout resumes at the same cursor.\<close>

theorem legacy_token_accepted:
  assumes "token_laws env" "payload_ok (token_payload inp cursor)"
    and "length (leg_payload (token_payload inp cursor)) \<le> MAX_PAYLOAD_BYTES"
    and "li_continuation_token inp = Some (V1_PREFIX @ te_b64 env (leg_payload (token_payload inp cursor)
           @ take CHECKSUM_BYTES (te_hash env (leg_payload (token_payload inp cursor)))))"
  shows "\<exists>token. classify env inp = Inr (CLocal token cursor)"
proof -
  have "0 < length (leg_payload (token_payload inp cursor))"
    by (simp add: leg_payload_def leg_str_def enc_len_def del: length_greater_0_conv)
  then have "leg_payload (token_payload inp cursor) \<noteq> []"
    by simp
  then show ?thesis
    using classify_framed [OF assms(1,4) _ _ assms(3)] lpayload.from_slice_enc [OF assms(2)]
    by (simp add: token_payload_def)
qed

text \<open>Translating an owned cursor to an origin request hides it exactly: the origin is asked
  for the keys after the cursor, never for the client's token, and restoring the envelope gives
  the client back the token and start-after it sent.\<close>

theorem origin_rewrite_restores:
  "let (inp', envelope) = rewrite_for_origin inp token cursor in
   li_continuation_token inp' = None \<and> li_start_after inp' = Some cursor
   \<and> li_bucket inp' = li_bucket inp \<and> li_prefix inp' = li_prefix inp \<and> li_delimiter inp' = li_delimiter inp
   \<and> li_max_keys inp' = li_max_keys inp
   \<and> oe_continuation_token envelope = token \<and> oe_start_after envelope = li_start_after inp"
  by (simp add: rewrite_for_origin_def)

section \<open>Instances\<close>

text \<open>A concrete environment that satisfies the laws: bytes stand for their own base64, the
  checksum is constant, and a payload is written with every character escaped.\<close>

fun esc :: "string \<Rightarrow> bytes" where
  "esc [] = [CHR 0x00]"
| "esc (c # s) = CHR 0x01 # c # esc s"

fun unesc :: "bytes \<Rightarrow> string \<times> bytes" where
  "unesc (t # c # s) = (if t = CHR 0x01 then (case unesc s of (x, rest) \<Rightarrow> (c # x, rest)) else ([], c # s))"
| "unesc s = ([], tl s)"

definition esc_opt :: "string option \<Rightarrow> bytes" where
  "esc_opt x = (case x of None \<Rightarrow> esc [] | Some s \<Rightarrow> esc (CHR 0x01 # s))"

definition unesc_opt :: "bytes \<Rightarrow> string option \<times> bytes" where
  "unesc_opt bs = (case unesc bs of (x, rest) \<Rightarrow> (if x = [] then None else Some (tl x), rest))"

lemma unesc_esc [simp]: "unesc (esc s @ rest) = (s, rest)"
proof (induction s)
  case Nil
  show ?case
    by (cases rest) simp_all
qed simp

lemma unesc_opt_esc [simp]: "unesc_opt (esc_opt x @ rest) = (x, rest)"
  using unesc_esc [of "case x of None \<Rightarrow> [] | Some s \<Rightarrow> CHR 0x01 # s" rest]
  by (cases x) (simp_all add: unesc_opt_def esc_opt_def del: esc.simps)

definition token_env_example :: token_env where
  "token_env_example = \<lparr>te_hash = (\<lambda>_. replicate 32 CHR 0x00), te_b64 = (\<lambda>x. x), te_unb64 = Some,
     te_ser = (\<lambda>p. esc (p_bucket p) @ esc_opt (p_prefix p) @ esc_opt (p_delimiter p) @ esc (p_cursor p)),
     te_de = (\<lambda>bs. case unesc bs of (b, r) \<Rightarrow> case unesc_opt r of (p, r) \<Rightarrow> case unesc_opt r of (d, r) \<Rightarrow>
       Some \<lparr>p_bucket = b, p_prefix = p, p_delimiter = d, p_cursor = fst (unesc r)\<rparr>)\<rparr>"

lemma token_env_example_laws: "token_laws token_env_example"
proof -
  have "esc s \<noteq> []" for s
    by (cases s) simp_all
  moreover have "unesc (esc s) = (s, [])" for s
    using unesc_esc [of s "[]"] by simp
  ultimately show ?thesis
    by (simp add: token_laws_def token_env_example_def)
qed

definition token_example :: list_input where
  "token_example = \<lparr>li_bucket = ''b'', li_prefix = Some ''p/'', li_delimiter = None, li_max_keys = None,
     li_start_after = None, li_continuation_token = None\<rparr>"

lemma token_example_small: "length (te_ser token_env_example (token_payload token_example ''p/k'')) \<le> MAX_PAYLOAD_BYTES"
  by (simp add: token_env_example_def token_payload_def token_example_def esc_opt_def MAX_PAYLOAD_BYTES_def)

lemma token_roundtrip_witness:
  "classify token_env_example (token_example\<lparr>li_continuation_token := Some (encode_token token_env_example token_example ''p/k'')\<rparr>)
     = Inr (CLocal (encode_token token_env_example token_example ''p/k'') ''p/k'')"
  by (rule token_roundtrip [OF token_env_example_laws token_example_small]) simp_all

lemma token_bound_to_request_witness:
  "classify token_env_example (token_example\<lparr>li_bucket := ''c'',
       li_continuation_token := Some (encode_token token_env_example token_example ''p/k'')\<rparr>)
     = Inl RequestMismatch"
  by (rule token_bound_to_request [OF token_env_example_laws token_example_small])
    (simp_all add: token_example_def)

lemma legacy_token_accepted_witness:
  "\<exists>token token'. classify token_env_example (token_example\<lparr>li_continuation_token := Some token\<rparr>)
     = Inr (CLocal token' ''p/k'')"
proof -
  let ?pl = "leg_payload (token_payload token_example ''p/k'')"
  let ?inp = "token_example\<lparr>li_continuation_token := Some (V1_PREFIX @ te_b64 token_env_example (?pl
           @ take CHECKSUM_BYTES (te_hash token_env_example ?pl)))\<rparr>"
  have pl: "token_payload ?inp ''p/k'' = token_payload token_example ''p/k''"
    by (simp add: token_payload_def)
  have "payload_ok (token_payload token_example ''p/k'')"
    by (simp add: payload_ok_def token_payload_def token_example_def utf8_ok.simps utf8_width_def in_range_def)
  moreover have "length ?pl \<le> MAX_PAYLOAD_BYTES"
    by (simp add: leg_payload_def leg_str_def leg_opt_str_def enc_len_def token_payload_def token_example_def MAX_PAYLOAD_BYTES_def)
  ultimately show ?thesis
    using legacy_token_accepted [OF token_env_example_laws, of ?inp "''p/k''"] unfolding pl by auto
qed

end
