(* ===== verification/Listing.thy ===== *)
theory Listing
  imports Index_Props List_Token
begin

text \<open>
  LIST and HEAD answered from the index (\<^verbatim>\<open>list_objects_v2_from_index\<close> and
  \<^verbatim>\<open>head_object_from_index\<close> in \<^verbatim>\<open>src/src/index.rs\<close>). The loop over the rows is a recursion
  that carries the page it has built; \<^const>\<open>None\<close> is the answer that sends the request to the
  origin. \<open>env\<close> is the token environment of \<^verbatim>\<open>List_Token\<close>.
\<close>

section \<open>LIST\<close>

record list_object =
  lo_key :: string
  lo_size :: int
  lo_last_modified :: systime
  lo_etag :: "etag option"
  lo_storage_class :: string

record list_output =
  out_name :: string
  out_prefix :: string
  out_max_keys :: int
  out_key_count :: int
  out_is_truncated :: bool
  out_continuation_token :: "string option"
  out_next_continuation_token :: "string option"
  out_contents :: "list_object list option"
  out_common_prefixes :: "string list option"
  out_delimiter :: "string option"
  out_start_after :: "string option"

text \<open>\<^verbatim>\<open>str::find\<close>: the first position at which the pattern occurs.\<close>

fun str_find :: "string \<Rightarrow> string \<Rightarrow> nat option" where
  "str_find d [] = (if d = [] then Some 0 else None)"
| "str_find d (c # s) = (if starts_with d (c # s) then Some 0 else map_option Suc (str_find d s))"

definition rolled_up :: "string \<Rightarrow> string option \<Rightarrow> string \<Rightarrow> string option" where
  "rolled_up pre delim key = (case delim of
       None \<Rightarrow> None
     | Some d \<Rightarrow> (let rest = drop (length pre) key in
         case str_find d rest of
           None \<Rightarrow> None
         | Some idx \<Rightarrow> Some (pre @ take (idx + length d) rest)))"

record list_page =
  pg_contents :: "list_object list"
  pg_common :: "string list"
  pg_truncated :: bool
  pg_last :: "string option"

definition list_row :: "string \<Rightarrow> obj_entry \<Rightarrow> int \<Rightarrow> list_object" where
  "list_row key e sz = \<lparr>lo_key = key, lo_size = sz, lo_last_modified = e_last_modified e,
     lo_etag = e_etag e, lo_storage_class = e_storage_class e\<rparr>"

fun list_loop ::
  "string \<Rightarrow> string option \<Rightarrow> nat \<Rightarrow> (string, obj_entry) omap \<Rightarrow> list_page \<Rightarrow> list_page option" where
  "list_loop pre delim mx [] pg = Some pg"
| "list_loop pre delim mx ((key, e) # rest) pg =
     (if \<not> starts_with pre key
      then (if key > pre then Some pg else list_loop pre delim mx rest pg)
      else
        let n = length (pg_contents pg) + length (pg_common pg) in
        case rolled_up pre delim key of
          Some cp \<Rightarrow>
            if cp \<notin> set (pg_common pg) \<and> n \<ge> mx then Some (pg\<lparr>pg_truncated := True\<rparr>)
            else list_loop pre delim mx rest
              (pg\<lparr>pg_common := os_insert cp (pg_common pg), pg_last := Some key\<rparr>)
        | None \<Rightarrow>
            if n \<ge> mx then Some (pg\<lparr>pg_truncated := True\<rparr>)
            else (case e_size e of
                None \<Rightarrow> None
              | Some sz \<Rightarrow> list_loop pre delim mx rest
                  (pg\<lparr>pg_contents := pg_contents pg @ [list_row key e sz], pg_last := Some key\<rparr>)))"

definition empty_page :: list_page where
  "empty_page = \<lparr>pg_contents = [], pg_common = [], pg_truncated = False, pg_last = None\<rparr>"

text \<open>Where the scan starts: after the cursor, else after \<open>start_after\<close>, and never before the
  prefix.\<close>

definition list_lower :: "string \<Rightarrow> string option \<Rightarrow> string option \<Rightarrow> bound" where
  "list_lower pre start_after resume_after =
     (let lower = (case resume_after of
            Some cursor \<Rightarrow> Excluded cursor
          | None \<Rightarrow> (case start_after of Some sa \<Rightarrow> Excluded sa | None \<Rightarrow> Unbounded))
      in case lower of
           Excluded after \<Rightarrow> if after \<ge> pre then Excluded after
             else if pre \<noteq> [] then Included pre else lower
         | _ \<Rightarrow> if pre \<noteq> [] then Included pre else lower)"

definition list_max :: "int option \<Rightarrow> nat" where
  "list_max max_keys = (let m = (case max_keys of None \<Rightarrow> 1000 | Some k \<Rightarrow> k)
     in nat (if m < 0 then 0 else if m > 1000 then 1000 else m))"

definition list_objects_v2_from_index ::
  "token_env \<Rightarrow> key_rows option \<Rightarrow> list_input \<Rightarrow> string option \<Rightarrow> list_output option" where
  "list_objects_v2_from_index env keys inp resume_after =
     (let pre = (case li_prefix inp of None \<Rightarrow> [] | Some p \<Rightarrow> p);
          mx = list_max (li_max_keys inp)
      in case (if keys \<noteq> None \<and> mx > 0
               then list_loop pre (li_delimiter inp) mx
                 (kr_range_from (the keys) (list_lower pre (li_start_after inp) resume_after)) empty_page
               else Some empty_page) of
           None \<Rightarrow> None
         | Some pg \<Rightarrow> Some
             \<lparr>out_name = li_bucket inp, out_prefix = pre, out_max_keys = int mx,
              out_key_count = int (length (pg_contents pg) + length (pg_common pg)),
              out_is_truncated = pg_truncated pg,
              out_continuation_token = li_continuation_token inp,
              out_next_continuation_token = (if pg_truncated pg
                then map_option (encode_token env inp) (pg_last pg) else None),
              out_contents = (if pg_contents pg = [] then None else Some (pg_contents pg)),
              out_common_prefixes = (if pg_common pg = [] then None else Some (pg_common pg)),
              out_delimiter = li_delimiter inp, out_start_after = li_start_after inp\<rparr>)"

definition envelope_restore :: "origin_envelope \<Rightarrow> list_output \<Rightarrow> list_output" where
  "envelope_restore envelope out =
     out\<lparr>out_continuation_token := Some (oe_continuation_token envelope),
         out_start_after := oe_start_after envelope\<rparr>"

section \<open>HEAD\<close>

record head_output =
  ho_content_length :: "int option"
  ho_last_modified :: systime
  ho_etag :: "etag option"
  ho_content_type :: "string option"
  ho_accept_ranges :: string
  ho_meta :: obj_meta

datatype indexed_head = Faithful head_output | IncompleteHead | AbsentHead

definition head_object_from_index :: "key_rows option \<Rightarrow> string \<Rightarrow> indexed_head" where
  "head_object_from_index keys key =
     (case (case keys of None \<Rightarrow> None | Some r \<Rightarrow> kr_get r key) of
        None \<Rightarrow> AbsentHead
      | Some e \<Rightarrow>
          if \<not> is_faithful e then IncompleteHead
          else Faithful \<lparr>ho_content_length = e_size e, ho_last_modified = e_last_modified e,
            ho_etag = e_etag e, ho_content_type = e_content_type e, ho_accept_ranges = ''bytes'',
            ho_meta = (case e_meta e of None \<Rightarrow> obj_meta_default | Some m \<Rightarrow> m)\<rparr>)"

section \<open>Matching keys are one contiguous block\<close>

lemma starts_with_iff: "starts_with p s \<longleftrightarrow> (\<exists>t. s = p @ t)"
  by (metis append_eq_conv_conj append_take_drop_id starts_with_def)

lemma prefix_le_self: "p \<le> p @ (t :: string)"
  by (induction p) simp_all

lemma above_prefix_block:
  fixes p a b :: string
  assumes "\<not> starts_with p a" "p < a" "a < b"
  shows "\<not> starts_with p b"
  using assms
proof (induction p arbitrary: a b)
  case (Cons c p)
  then show ?case
    by (cases a; cases b) (auto simp: starts_with_def)
qed (simp add: starts_with_def)

lemma starts_with_ge: "starts_with p k \<Longrightarrow> p \<le> k"
  by (auto simp: starts_with_iff prefix_le_self)

lemma list_loop_filter:
  assumes "om_ok rs"
  shows "list_loop pre delim mx rs pg = list_loop pre delim mx (filter (\<lambda>r. starts_with pre (fst r)) rs) pg"
  using assms
proof (induction rs arbitrary: pg)
  case (Cons r rs)
  obtain key e where r: "r = (key, e)"
    by force
  show ?case
  proof (cases "starts_with pre key")
    case True
    then show ?thesis
      using Cons r by (simp add: om_ok_Cons Let_def split: option.split)
  next
    case False
    have "filter (\<lambda>r. starts_with pre (fst r)) rs = []" if "pre < key"
      using above_prefix_block [OF False that] Cons.prems r by (auto simp: om_ok_Cons filter_empty_conv)
    then show ?thesis
      using Cons False r by (auto simp: om_ok_Cons)
  qed
qed simp

text \<open>Keys that roll up to one common prefix are exactly those that start with it, so they are
  contiguous too.\<close>

lemma str_find_Some: "str_find d s = Some i \<Longrightarrow> starts_with d (drop i s) \<and> i \<le> length s"
  by (induction d s arbitrary: i rule: str_find.induct) (auto simp: starts_with_def split: if_splits)

lemma str_find_least: "str_find d s = Some i \<Longrightarrow> j < i \<Longrightarrow> \<not> starts_with d (drop j s)"
proof (induction d s arbitrary: i j rule: str_find.induct)
  case (2 d c s)
  then show ?case
    by (cases j) (auto split: if_splits)
qed (simp split: if_splits)

lemma str_find_eqI:
  "starts_with d (drop i s) \<Longrightarrow> i \<le> length s \<Longrightarrow> (\<And>j. j < i \<Longrightarrow> \<not> starts_with d (drop j s)) \<Longrightarrow> str_find d s = Some i"
proof (induction d s arbitrary: i rule: str_find.induct)
  case (1 d)
  then show ?case
    by (auto simp: starts_with_def)
next
  case (2 d c s)
  show ?case
  proof (cases i)
    case 0
    then show ?thesis
      using 2 by simp
  next
    case (Suc k)
    then have head: "\<not> starts_with d (c # s)"
      using "2.prems"(3) [of 0] by simp
    moreover have "\<not> starts_with d (drop j s)" if "j < k" for j
      using "2.prems"(3) [of "Suc j"] Suc that by simp
    then have "str_find d s = Some k"
      using "2.IH" [OF head, of k] "2.prems"(1,2) Suc by simp
    ultimately show ?thesis
      using Suc by simp
  qed
qed

lemma starts_with_window:
  assumes "j + length d \<le> n" "n \<le> length s"
  shows "starts_with d (drop j (take n s @ t)) \<longleftrightarrow> starts_with d (drop j s)"
proof -
  have "take (length d) (drop j (take n s @ t)) = take (length d) (drop j s)"
    using assms by (simp add: take_drop min_def)
  then show ?thesis
    by (simp add: starts_with_def)
qed

lemma rolled_up_block:
  assumes "rolled_up pre delim key = Some cp" "starts_with pre key"
  shows "starts_with cp key" "starts_with pre cp"
    and "starts_with cp key' \<Longrightarrow> rolled_up pre delim key' = Some cp"
proof -
  obtain d rest idx where d: "delim = Some d" "key = pre @ rest" "str_find d rest = Some idx"
    and cp: "cp = pre @ take (idx + length d) rest"
    using assms by (auto simp: rolled_up_def starts_with_iff Let_def split: option.splits)
  have found: "starts_with d (drop idx rest)" "idx \<le> length rest"
    using str_find_Some [OF d(3)] by auto
  obtain t0 where "drop idx rest = d @ t0"
    using found(1) by (auto simp: starts_with_iff)
  then have "length rest - idx = length d + length t0"
    by (metis length_append length_drop)
  then have len: "idx + length d \<le> length rest"
    using found(2) by linarith
  show "starts_with cp key"
    using len by (simp add: cp d(2) starts_with_def min_def)
  show "starts_with pre cp"
    by (simp add: cp)
  assume "starts_with cp key'"
  then obtain t where key': "key' = pre @ take (idx + length d) rest @ t"
    by (auto simp: starts_with_iff cp)
  have "str_find d (take (idx + length d) rest @ t) = Some idx"
  proof (rule str_find_eqI)
    show "starts_with d (drop idx (take (idx + length d) rest @ t))"
      using starts_with_window [of idx d "idx + length d" rest t] len found(1) by simp
    show "\<not> starts_with d (drop j (take (idx + length d) rest @ t))" if "j < idx" for j
      using starts_with_window [of j d "idx + length d" rest t] len that str_find_least [OF d(3) that] by simp
  qed (use len in simp)
  then show "rolled_up pre delim key' = Some cp"
    using len by (simp add: rolled_up_def d(1) key' cp Let_def)
qed

lemma block_between:
  fixes p a b c :: string
  assumes "a < b" "b < c" "starts_with p a" "starts_with p c"
  shows "starts_with p b"
proof (rule ccontr)
  assume no: "\<not> starts_with p b"
  have "p \<le> b"
    using starts_with_ge [OF assms(3)] assms(1) by simp
  then have "p < b"
    using no by (metis append_Nil2 le_neq_trans starts_with_append)
  then show False
    using above_prefix_block [OF no _ assms(2)] assms(4) by blast
qed

section \<open>What a page holds\<close>

text \<open>The reference listing of a run of matching rows: the rows that stand for themselves and the
  common prefixes of the others.\<close>

definition listed_rows :: "string \<Rightarrow> string option \<Rightarrow> (string, obj_entry) omap \<Rightarrow> list_object list" where
  "listed_rows pre delim rs = concat (map (\<lambda>(k, e).
     (case rolled_up pre delim k of Some _ \<Rightarrow> [] | None \<Rightarrow>
       (case e_size e of None \<Rightarrow> [] | Some sz \<Rightarrow> [list_row k e sz]))) rs)"

definition listed_groups :: "string \<Rightarrow> string option \<Rightarrow> (string, obj_entry) omap \<Rightarrow> string set" where
  "listed_groups pre delim rs = {cp. \<exists>r \<in> set rs. rolled_up pre delim (fst r) = Some cp}"

definition sizes_known :: "string \<Rightarrow> string option \<Rightarrow> (string, obj_entry) omap \<Rightarrow> bool" where
  "sizes_known pre delim rs \<longleftrightarrow> (\<forall>(k, e) \<in> set rs. rolled_up pre delim k = None \<longrightarrow> e_size e \<noteq> None)"

lemma listed_simps [simp]:
  "listed_rows pre delim [] = []"
  "listed_rows pre delim (rs @ rs') = listed_rows pre delim rs @ listed_rows pre delim rs'"
  "listed_groups pre delim [] = {}"
  "listed_groups pre delim (rs @ rs') = listed_groups pre delim rs \<union> listed_groups pre delim rs'"
  by (auto simp: listed_rows_def listed_groups_def)

lemma listed_Cons:
  "listed_rows pre delim ((k, e) # rs) =
    (case rolled_up pre delim k of Some _ \<Rightarrow> [] | None \<Rightarrow>
       (case e_size e of None \<Rightarrow> [] | Some sz \<Rightarrow> [list_row k e sz])) @ listed_rows pre delim rs"
  "listed_groups pre delim ((k, e) # rs) = set_option (rolled_up pre delim k) \<union> listed_groups pre delim rs"
  by (auto simp: listed_rows_def listed_groups_def)

definition page_size :: "list_page \<Rightarrow> nat" where
  "page_size pg = length (pg_contents pg) + length (pg_common pg)"

text \<open>The page consumed exactly the first \<open>n\<close> rows.\<close>

definition page_of :: "string \<Rightarrow> string option \<Rightarrow> nat \<Rightarrow> (string, obj_entry) omap \<Rightarrow> list_page \<Rightarrow> nat \<Rightarrow> list_page \<Rightarrow> bool" where
  "page_of pre delim mx rs pg n pg' \<longleftrightarrow> n \<le> length rs
     \<and> pg_contents pg' = pg_contents pg @ listed_rows pre delim (take n rs)
     \<and> set (pg_common pg') = set (pg_common pg) \<union> listed_groups pre delim (take n rs)
     \<and> sorted_wrt (<) (pg_common pg') \<and> page_size pg' \<le> max mx (page_size pg)
     \<and> pg_last pg' = (if n = 0 then pg_last pg else Some (fst (rs ! (n - 1))))
     \<and> (pg_truncated pg' \<longleftrightarrow> n < length rs)
     \<and> (n < length rs \<longrightarrow> page_size pg' \<ge> mx
          \<and> (case rolled_up pre delim (fst (rs ! n)) of None \<Rightarrow> True | Some cp \<Rightarrow> cp \<notin> set (pg_common pg')))"

lemma os_insert_length:
  "sorted_wrt (<) s \<Longrightarrow> length (os_insert k s) = (if k \<in> set s then length s else Suc (length s))"
proof -
  assume s: "sorted_wrt (<) s"
  then have "sorted_wrt (<) (os_insert k s)"
    by (rule os_insert_sorted)
  then have "length (os_insert k s) = card (insert k (set s))" "length s = card (set s)"
    using s by (metis distinct_card os_insert_set strict_sorted_iff)+
  then show ?thesis
    by (simp add: card_insert_if)
qed

lemma os_insert_member: "sorted_wrt (<) s \<Longrightarrow> k \<in> set s \<Longrightarrow> os_insert k s = s"
  by (metis insert_absorb os_insert_set os_insert_sorted strict_sorted_equal)

lemma list_loop_page:
  assumes "\<And>r. r \<in> set rs \<Longrightarrow> starts_with pre (fst r)" "sizes_known pre delim rs"
    and "\<not> pg_truncated pg" "sorted_wrt (<) (pg_common pg)"
  shows "\<exists>n pg'. list_loop pre delim mx rs pg = Some pg' \<and> page_of pre delim mx rs pg n pg'"
  using assms
proof (induction rs arbitrary: pg)
  case Nil
  then show ?case
    by (auto simp: page_of_def)
next
  case (Cons r rs)
  obtain key e where r: "r = (key, e)"
    by force
  have sw: "starts_with pre key"
    using Cons.prems(1) r by force
  let ?n = "page_size pg"
  have stop: "page_of pre delim mx (r # rs) pg 0 (pg\<lparr>pg_truncated := True\<rparr>)"
    if "?n \<ge> mx" "case rolled_up pre delim key of None \<Rightarrow> True | Some cp \<Rightarrow> cp \<notin> set (pg_common pg)"
    using that Cons.prems(4) r by (simp add: page_of_def page_size_def split: option.splits)
  have go: "\<exists>n pg'. list_loop pre delim mx rs pg1 = Some pg' \<and> page_of pre delim mx (r # rs) pg n pg'"
    if pg1: "\<not> pg_truncated pg1" "sorted_wrt (<) (pg_common pg1)" "pg_last pg1 = Some key"
      "pg_contents pg1 = pg_contents pg @ listed_rows pre delim [r]"
      "set (pg_common pg1) = set (pg_common pg) \<union> listed_groups pre delim [r]"
      "page_size pg1 \<le> max mx (page_size pg)" for pg1
  proof -
    have "sizes_known pre delim rs"
      using Cons.prems(2) by (simp add: sizes_known_def)
    then obtain n pg' where pg': "list_loop pre delim mx rs pg1 = Some pg'" "page_of pre delim mx rs pg1 n pg'"
      using Cons.IH [OF _ _ pg1(1,2)] Cons.prems(1) by auto
    have "listed_rows pre delim (take (Suc n) (r # rs)) = listed_rows pre delim [r] @ listed_rows pre delim (take n rs)"
      "listed_groups pre delim (take (Suc n) (r # rs)) = listed_groups pre delim [r] \<union> listed_groups pre delim (take n rs)"
      using r by (simp_all add: listed_Cons)
    then have "page_of pre delim mx (r # rs) pg (Suc n) pg'"
      using pg'(2) pg1 r by (auto simp: page_of_def nth_Cons')
    then show ?thesis
      using pg'(1) by blast
  qed
  show ?case
  proof (cases "rolled_up pre delim key")
    case (Some cp)
    show ?thesis
    proof (cases "cp \<notin> set (pg_common pg) \<and> ?n \<ge> mx")
      case True
      then show ?thesis
        using stop Some r sw by (auto simp: page_size_def)
    next
      case False
      let ?pg = "pg\<lparr>pg_common := os_insert cp (pg_common pg), pg_last := Some key\<rparr>"
      have "page_size ?pg \<le> max mx (page_size pg)"
        using False os_insert_length [OF Cons.prems(4), of cp] by (auto simp: page_size_def)
      then show ?thesis
        using go [of ?pg] False Some r sw Cons.prems(3,4)
        by (auto simp: page_size_def os_insert_sorted listed_Cons Let_def)
    qed
  next
    case None
    then obtain sz where sz: "e_size e = Some sz"
      using Cons.prems(2) r by (auto simp: sizes_known_def)
    show ?thesis
    proof (cases "?n \<ge> mx")
      case True
      then show ?thesis
        using stop None r sw by (auto simp: page_size_def)
    next
      case False
      let ?pg = "pg\<lparr>pg_contents := pg_contents pg @ [list_row key e sz], pg_last := Some key\<rparr>"
      show ?thesis
        using go [of ?pg] False None r sw sz Cons.prems(3,4)
        by (auto simp: page_size_def listed_Cons Let_def)
    qed
  qed
qed

section \<open>Paging\<close>

definition req_prefix :: "list_input \<Rightarrow> string" where
  "req_prefix inp = (case li_prefix inp of None \<Rightarrow> [] | Some p \<Rightarrow> p)"

text \<open>The rows a request (or its continuation after a cursor) is about.\<close>

definition list_scope :: "key_rows \<Rightarrow> list_input \<Rightarrow> string option \<Rightarrow> (string, obj_entry) omap" where
  "list_scope keys inp resume_after = filter (\<lambda>r. starts_with (req_prefix inp) (fst r)
     \<and> above (case resume_after of Some c \<Rightarrow> Excluded c | None \<Rightarrow>
         (case li_start_after inp of Some sa \<Rightarrow> Excluded sa | None \<Rightarrow> Unbounded)) (fst r)) (kr_map keys)"

lemma list_lower_scope:
  "filter (\<lambda>r. starts_with (req_prefix inp) (fst r))
     (kr_range_from keys (list_lower (req_prefix inp) (li_start_after inp) resume_after))
   = list_scope keys inp resume_after"
proof -
  have sw: "starts_with p k \<Longrightarrow> p \<le> k" for p k
    by (rule starts_with_ge)
  have "above (list_lower p sa ra) k = above (case ra of Some c \<Rightarrow> Excluded c | None \<Rightarrow>
         (case sa of Some sa \<Rightarrow> Excluded sa | None \<Rightarrow> Unbounded)) k" if "starts_with p k" for p sa ra k
    using sw [OF that] by (auto simp: list_lower_def Let_def not_le split: option.splits)
  then show ?thesis
    by (auto simp: list_scope_def kr_range_from_def filter_filter intro!: filter_cong)
qed

lemma list_scope_sorted: "kr_ok lay keys \<Longrightarrow> om_ok (list_scope keys inp r)"
  by (simp add: list_scope_def kr_ok_def om_ok_filter)

lemma list_page_result:
  assumes "kr_ok lay keys" "0 < list_max (li_max_keys inp)"
    and "sizes_known (req_prefix inp) (li_delimiter inp) (list_scope keys inp resume)"
  obtains n pg where
    "page_of (req_prefix inp) (li_delimiter inp) (list_max (li_max_keys inp)) (list_scope keys inp resume) empty_page n pg"
    "list_objects_v2_from_index env (Some keys) inp resume = Some
      \<lparr>out_name = li_bucket inp, out_prefix = req_prefix inp, out_max_keys = int (list_max (li_max_keys inp)),
       out_key_count = int (page_size pg), out_is_truncated = pg_truncated pg,
       out_continuation_token = li_continuation_token inp,
       out_next_continuation_token = (if pg_truncated pg then map_option (encode_token env inp) (pg_last pg) else None),
       out_contents = (if pg_contents pg = [] then None else Some (pg_contents pg)),
       out_common_prefixes = (if pg_common pg = [] then None else Some (pg_common pg)),
       out_delimiter = li_delimiter inp, out_start_after = li_start_after inp\<rparr>"
proof -
  let ?rs = "list_scope keys inp resume" and ?mx = "list_max (li_max_keys inp)"
  let ?rng = "kr_range_from keys (list_lower (req_prefix inp) (li_start_after inp) resume)"
  have "om_ok ?rng"
    using assms(1) by (simp add: kr_range_from_def kr_ok_def om_ok_filter)
  then have loop: "list_loop (req_prefix inp) (li_delimiter inp) ?mx ?rng empty_page
      = list_loop (req_prefix inp) (li_delimiter inp) ?mx ?rs empty_page"
    by (simp add: list_loop_filter [of ?rng] list_lower_scope)
  have "\<exists>n pg'. list_loop (req_prefix inp) (li_delimiter inp) ?mx ?rs empty_page = Some pg'
      \<and> page_of (req_prefix inp) (li_delimiter inp) ?mx ?rs empty_page n pg'"
    by (rule list_loop_page) (use assms(3) in \<open>auto simp: list_scope_def empty_page_def\<close>)
  then obtain n pg where pg: "list_loop (req_prefix inp) (li_delimiter inp) ?mx ?rs empty_page = Some pg"
    "page_of (req_prefix inp) (li_delimiter inp) ?mx ?rs empty_page n pg"
    by blast
  show thesis
    by (rule that [OF pg(2)])
      (use assms(2) pg(1) loop in \<open>simp add: list_objects_v2_from_index_def Let_def req_prefix_def page_size_def\<close>)
qed

lemma page_progress:
  assumes "page_of pre delim mx rs empty_page n pg" "pg_truncated pg" "0 < mx"
  shows "0 < n" "n < length rs"
proof -
  have eqs: "pg_contents pg = listed_rows pre delim (take n rs)" "set (pg_common pg) = listed_groups pre delim (take n rs)"
    "page_size pg \<ge> mx" "n < length rs"
    using assms(1,2) by (simp_all add: page_of_def empty_page_def)
  have "page_size pg = 0" if "n = 0"
    using eqs(1,2) that by (simp add: page_size_def)
  then show "0 < n"
    using eqs(3) assms(3) by (cases n) simp_all
  show "n < length rs"
    by (rule eqs(4))
qed

text \<open>The client's loop: follow the returned token until a page is not truncated.\<close>

fun list_chain :: "nat \<Rightarrow> token_env \<Rightarrow> key_rows \<Rightarrow> list_input \<Rightarrow> string option \<Rightarrow> list_output list option" where
  "list_chain 0 env keys inp resume = None"
| "list_chain (Suc fuel) env keys inp resume =
     (case list_objects_v2_from_index env (Some keys) inp resume of
        None \<Rightarrow> None
      | Some out \<Rightarrow>
          if \<not> out_is_truncated out then Some [out]
          else let inp' = inp\<lparr>li_continuation_token := out_next_continuation_token out\<rparr> in
            case classify env inp' of
              Inr (CLocal _ cursor) \<Rightarrow> map_option (\<lambda>outs. out # outs) (list_chain fuel env keys inp' (Some cursor))
            | _ \<Rightarrow> None)"

definition chain_contents :: "list_output list \<Rightarrow> list_object list" where
  "chain_contents outs = concat (map (\<lambda>out. case out_contents out of None \<Rightarrow> [] | Some c \<Rightarrow> c) outs)"

definition chain_prefixes :: "list_output list \<Rightarrow> string list" where
  "chain_prefixes outs = concat (map (\<lambda>out. case out_common_prefixes out of None \<Rightarrow> [] | Some c \<Rightarrow> c) outs)"

lemma scope_narrow:
  assumes "r \<in> set (list_scope keys inp resume)"
  shows "list_scope keys inp (Some (fst r)) = filter (\<lambda>q. fst r < fst q) (list_scope keys inp resume)"
proof -
  define low where "low = (case resume of Some c \<Rightarrow> Excluded c | None \<Rightarrow>
         (case li_start_after inp of Some sa \<Rightarrow> Excluded sa | None \<Rightarrow> Unbounded))"
  have scope: "list_scope keys inp resume = filter (\<lambda>r. starts_with (req_prefix inp) (fst r) \<and> above low (fst r)) (kr_map keys)"
    by (simp add: list_scope_def low_def)
  have "above low (fst r)"
    using assms by (simp add: scope)
  then have "above low k" if "fst r < k" for k
    using that by (cases low) auto
  then show ?thesis
    unfolding scope by (auto simp: list_scope_def intro!: filter_cong)
qed

lemma drop_above:
  assumes "om_ok rs" "0 < n" "n \<le> length rs"
  shows "filter (\<lambda>q. fst (rs ! (n - 1)) < fst q) rs = drop n rs"
proof -
  have sorted: "sorted_wrt (<) (map fst rs)"
    using assms(1) by (simp add: om_ok_def)
  have "\<not> fst (rs ! (n - 1)) < fst (rs ! i)" if "i < n" for i
  proof (cases "i = n - 1")
    case False
    then have "i < n - 1" "n - 1 < length (map fst rs)"
      using that assms(2,3) by simp_all
    then show ?thesis
      using sorted_wrt_nth_less [OF sorted, of i "n - 1"] by simp
  qed simp
  then have "filter (\<lambda>q. fst (rs ! (n - 1)) < fst q) (take n rs) = []"
    unfolding filter_empty_conv using assms(3) by (metis in_set_conv_nth length_take min.absorb2 nth_take)
  moreover have "fst (rs ! (n - 1)) < fst (rs ! (n + i))" if "n + i < length rs" for i
    using sorted_wrt_nth_less [OF sorted, of "n - 1" "n + i"] assms(2) that by simp
  then have "\<forall>q \<in> set (drop n rs). fst (rs ! (n - 1)) < fst q"
    by (metis in_set_conv_nth length_drop less_diff_conv add.commute nth_drop assms(3))
  then have "filter (\<lambda>q. fst (rs ! (n - 1)) < fst q) (drop n rs) = drop n rs"
    by (simp add: filter_id_conv)
  ultimately show ?thesis
    by (metis append_Nil append_take_drop_id filter_append)
qed

lemma scope_after:
  assumes "om_ok (list_scope keys inp resume)" "0 < n" "n \<le> length (list_scope keys inp resume)"
  shows "list_scope keys inp (Some (fst (list_scope keys inp resume ! (n - 1)))) = drop n (list_scope keys inp resume)"
  using scope_narrow [of "list_scope keys inp resume ! (n - 1)" keys inp resume] drop_above [OF assms] assms
  by simp

lemma groups_disjoint:
  assumes "om_ok rs" "\<And>r. r \<in> set rs \<Longrightarrow> starts_with pre (fst r)" "n < length rs"
    and "case rolled_up pre delim (fst (rs ! n)) of None \<Rightarrow> True | Some cp \<Rightarrow> cp \<notin> listed_groups pre delim (take n rs)"
  shows "listed_groups pre delim (take n rs) \<inter> listed_groups pre delim (drop n rs) = {}"
proof (rule ccontr)
  assume "listed_groups pre delim (take n rs) \<inter> listed_groups pre delim (drop n rs) \<noteq> {}"
  then obtain cp a b where cp: "a \<in> set (take n rs)" "rolled_up pre delim (fst a) = Some cp"
    "b \<in> set (drop n rs)" "rolled_up pre delim (fst b) = Some cp"
    by (auto simp: listed_groups_def)
  obtain i where i: "i < n" "a = rs ! i"
    using cp(1) by (auto simp: in_set_conv_nth)
  obtain j where j: "n \<le> j" "j < length rs" "b = rs ! j"
    using cp(3) assms(3) by (metis add.commute in_set_conv_nth length_drop less_diff_conv less_imp_le nth_drop le_add1)
  note ij = i j
  have sorted: "sorted_wrt (<) (map fst rs)"
    using assms(1) by (simp add: om_ok_def)
  have sw: "starts_with cp (fst a)" "starts_with cp (fst b)"
    using rolled_up_block(1) cp assms(2) by (metis in_set_takeD in_set_dropD)+
  have "starts_with cp (fst (rs ! n))"
  proof (cases "j = n")
    case False
    then show ?thesis
      using block_between [of "fst a" "fst (rs ! n)" "fst b" cp] sw ij assms(3)
        sorted_wrt_nth_less [OF sorted, of i n] sorted_wrt_nth_less [OF sorted, of n j] by simp
  qed (use sw ij in simp)
  then have "rolled_up pre delim (fst (rs ! n)) = Some cp"
    using rolled_up_block(3) [OF cp(2)] assms(2) cp(1) by (meson in_set_takeD)
  moreover have "cp \<in> listed_groups pre delim (take n rs)"
    using cp(1,2) by (auto simp: listed_groups_def)
  ultimately show False
    using assms(4) by simp
qed


lemma list_input_resume:
  "list_scope keys (inp\<lparr>li_continuation_token := t\<rparr>) r = list_scope keys inp r"
  "req_prefix (inp\<lparr>li_continuation_token := t\<rparr>) = req_prefix inp"
  "token_payload (inp\<lparr>li_continuation_token := t\<rparr>) = token_payload inp"
  by (auto simp: list_scope_def req_prefix_def token_payload_def split: option.split)

lemma sizes_known_drop: "sizes_known pre delim rs \<Longrightarrow> sizes_known pre delim (drop n rs)"
  by (auto simp: sizes_known_def dest: in_set_dropD)

definition tokens_fit :: "token_env \<Rightarrow> list_input \<Rightarrow> key_rows \<Rightarrow> bool" where
  "tokens_fit env inp keys \<longleftrightarrow> (\<forall>r \<in> set (kr_map keys).
     length (te_ser env (token_payload inp (fst r))) \<le> MAX_PAYLOAD_BYTES)"

lemma list_chain_complete:
  assumes "kr_ok lay keys" "0 < list_max (li_max_keys inp)" "token_laws env" "tokens_fit env inp keys"
    and "sizes_known (req_prefix inp) (li_delimiter inp) (list_scope keys inp resume)"
    and "length (list_scope keys inp resume) < fuel"
  shows "\<exists>outs. list_chain fuel env keys inp resume = Some outs
    \<and> chain_contents outs = listed_rows (req_prefix inp) (li_delimiter inp) (list_scope keys inp resume)
    \<and> distinct (chain_prefixes outs)
    \<and> set (chain_prefixes outs) = listed_groups (req_prefix inp) (li_delimiter inp) (list_scope keys inp resume)"
  using assms
proof (induction fuel arbitrary: inp resume)
  case (Suc fuel)
  let ?pre = "req_prefix inp" and ?d = "li_delimiter inp" and ?rs = "list_scope keys inp resume"
  obtain n pg where pg: "page_of ?pre ?d (list_max (li_max_keys inp)) ?rs empty_page n pg"
    and out: "list_objects_v2_from_index env (Some keys) inp resume = Some
      \<lparr>out_name = li_bucket inp, out_prefix = ?pre, out_max_keys = int (list_max (li_max_keys inp)),
       out_key_count = int (page_size pg), out_is_truncated = pg_truncated pg,
       out_continuation_token = li_continuation_token inp,
       out_next_continuation_token = (if pg_truncated pg then map_option (encode_token env inp) (pg_last pg) else None),
       out_contents = (if pg_contents pg = [] then None else Some (pg_contents pg)),
       out_common_prefixes = (if pg_common pg = [] then None else Some (pg_common pg)),
       out_delimiter = li_delimiter inp, out_start_after = li_start_after inp\<rparr>" (is "_ = Some ?out")
    by (rule list_page_result [OF Suc.prems(1,2,5)])
  have here: "chain_contents (?out # outs) = listed_rows ?pre ?d (take n ?rs) @ chain_contents outs"
    "chain_prefixes (?out # outs) = pg_common pg @ chain_prefixes outs" for outs
    using pg by (simp_all add: chain_contents_def chain_prefixes_def page_of_def empty_page_def)
  have common: "set (pg_common pg) = listed_groups ?pre ?d (take n ?rs)" "distinct (pg_common pg)"
    using pg by (simp_all add: page_of_def empty_page_def strict_sorted_iff)
  show ?case
  proof (cases "pg_truncated pg")
    case False
    then have "take n ?rs = ?rs"
      using pg by (simp add: page_of_def)
    then show ?thesis
      using False out here [of "[]"] common by (auto simp: chain_contents_def chain_prefixes_def)
  next
    case True
    then have n: "n < length ?rs" "0 < n"
      using page_progress [OF pg True Suc.prems(2)] by simp_all
    define cursor where "cursor = fst (?rs ! (n - 1))"
    define inp' where "inp' = inp\<lparr>li_continuation_token := Some (encode_token env inp cursor)\<rparr>"
    have last: "pg_last pg = Some cursor"
      using pg n by (simp add: page_of_def cursor_def)
    have "?rs ! (n - 1) \<in> set ?rs"
      using n by simp
    then have "?rs ! (n - 1) \<in> set (kr_map keys)"
      by (simp add: list_scope_def)
    then have "length (te_ser env (token_payload inp cursor)) \<le> MAX_PAYLOAD_BYTES"
      using Suc.prems(4) by (simp add: tokens_fit_def cursor_def)
    then have cl: "classify env inp' = Inr (CLocal (encode_token env inp cursor) cursor)"
      using Suc.prems(3) by (simp add: classify_minted inp'_def)
    have scope: "list_scope keys inp' (Some cursor) = drop n ?rs"
      using scope_after [OF list_scope_sorted [OF Suc.prems(1)] n(2)] n
      by (simp add: inp'_def cursor_def list_input_resume)
    have eq: "req_prefix inp' = ?pre" "li_delimiter inp' = ?d" "li_max_keys inp' = li_max_keys inp"
      "tokens_fit env inp' keys = tokens_fit env inp keys"
      by (simp_all add: inp'_def list_input_resume tokens_fit_def)
    have fuel: "length ?rs - n < fuel"
      using Suc.prems(6) n by linarith
    obtain outs where outs: "list_chain fuel env keys inp' (Some cursor) = Some outs"
      "chain_contents outs = listed_rows ?pre ?d (drop n ?rs)" "distinct (chain_prefixes outs)"
      "set (chain_prefixes outs) = listed_groups ?pre ?d (drop n ?rs)"
      using Suc.IH [of inp' "Some cursor"] Suc.prems(1-5) fuel sizes_known_drop [of ?pre ?d ?rs n]
      by (auto simp: eq scope)
    have "list_chain (Suc fuel) env keys inp resume = Some (?out # outs)"
      using True outs(1) cl by (simp add: out last flip: inp'_def)
    moreover have "listed_groups ?pre ?d (take n ?rs) \<inter> listed_groups ?pre ?d (drop n ?rs) = {}"
    proof (rule groups_disjoint [OF list_scope_sorted [OF Suc.prems(1)] _ n(1)])
      show "case rolled_up ?pre ?d (fst (?rs ! n)) of None \<Rightarrow> True | Some cp \<Rightarrow> cp \<notin> listed_groups ?pre ?d (take n ?rs)"
        using pg n by (auto simp: page_of_def simp flip: common(1) split: option.split)
    qed (simp add: list_scope_def)
    moreover have "listed_rows ?pre ?d ?rs = listed_rows ?pre ?d (take n ?rs) @ listed_rows ?pre ?d (drop n ?rs)"
      "listed_groups ?pre ?d ?rs = listed_groups ?pre ?d (take n ?rs) \<union> listed_groups ?pre ?d (drop n ?rs)"
      by (metis append_take_drop_id listed_simps(2), metis append_take_drop_id listed_simps(4))
    ultimately show ?thesis
      using here [of outs] outs common by simp
  qed
qed simp


section \<open>Properties\<close>

text \<open>C28: Paging is complete and exact. A client that follows the continuation tokens of a
  LIST over an unchanged synced index, whatever its prefix, delimiter, start_after and positive
  max_keys, gets after finitely many pages every matching key exactly once in key order and every
  common prefix exactly once, and nothing else; provided the size of every row to be listed is known and the
  continuation tokens of the listing fit their bound.\<close>

theorem list_paging_complete:
  assumes "kr_ok lay keys" "0 < list_max (li_max_keys inp)" "token_laws env" "tokens_fit env inp keys"
    and "sizes_known (req_prefix inp) (li_delimiter inp) (list_scope keys inp None)"
  shows "\<exists>outs. list_chain (Suc (length (kr_map keys))) env keys inp None = Some outs
    \<and> chain_contents outs = listed_rows (req_prefix inp) (li_delimiter inp) (list_scope keys inp None)
    \<and> distinct (chain_prefixes outs)
    \<and> set (chain_prefixes outs) = listed_groups (req_prefix inp) (li_delimiter inp) (list_scope keys inp None)"
  by (rule list_chain_complete [OF assms]) (simp add: list_scope_def less_Suc_eq_le)

text \<open>C34: Where the size of every row to be listed is known, one page never exceeds max_keys, its key count is exact, its
  common prefixes are in strict order, it is a prefix of the reference listing, and it is marked truncated exactly when
  some matching row is left and max_keys is not 0; then, and only then, it carries a continuation token. A request for 0 keys gets an
  empty page that is not truncated.\<close>

theorem list_page_bounded:
  assumes "kr_ok lay keys" "sizes_known (req_prefix inp) (li_delimiter inp) (list_scope keys inp resume)"
  shows "\<exists>out n. list_objects_v2_from_index env (Some keys) inp resume = Some out
    \<and> n \<le> length (list_scope keys inp resume)
    \<and> chain_contents [out] = listed_rows (req_prefix inp) (li_delimiter inp) (take n (list_scope keys inp resume))
    \<and> set (chain_prefixes [out]) = listed_groups (req_prefix inp) (li_delimiter inp) (take n (list_scope keys inp resume))
    \<and> sorted_wrt (<) (chain_prefixes [out])
    \<and> out_key_count out = int (length (chain_contents [out]) + length (chain_prefixes [out]))
    \<and> out_key_count out \<le> out_max_keys out \<and> out_max_keys out = (case li_max_keys inp of None \<Rightarrow> 1000 | Some k \<Rightarrow> max 0 (min k 1000))
    \<and> (out_is_truncated out \<longleftrightarrow> n < length (list_scope keys inp resume) \<and> 0 < out_max_keys out)
    \<and> (out_is_truncated out \<longleftrightarrow> out_next_continuation_token out \<noteq> None)"
proof -
  have mx: "int (list_max (li_max_keys inp)) = (case li_max_keys inp of None \<Rightarrow> 1000 | Some k \<Rightarrow> max 0 (min k 1000))"
    by (auto simp: list_max_def Let_def split: option.split)
  show ?thesis
  proof (cases "0 < list_max (li_max_keys inp)")
    case False
    then have "list_objects_v2_from_index env (Some keys) inp resume = Some
        \<lparr>out_name = li_bucket inp, out_prefix = req_prefix inp, out_max_keys = 0, out_key_count = 0, out_is_truncated = False,
         out_continuation_token = li_continuation_token inp, out_next_continuation_token = None, out_contents = None,
         out_common_prefixes = None, out_delimiter = li_delimiter inp, out_start_after = li_start_after inp\<rparr>"
      by (simp add: list_objects_v2_from_index_def req_prefix_def empty_page_def)
    then show ?thesis
      using mx False by (intro exI [of _ 0] exI) (auto simp: chain_contents_def chain_prefixes_def listed_rows_def listed_groups_def)
  next
    case True
    obtain n pg where pg: "page_of (req_prefix inp) (li_delimiter inp) (list_max (li_max_keys inp)) (list_scope keys inp resume) empty_page n pg"
      and out: "list_objects_v2_from_index env (Some keys) inp resume = Some
        \<lparr>out_name = li_bucket inp, out_prefix = req_prefix inp, out_max_keys = int (list_max (li_max_keys inp)),
         out_key_count = int (page_size pg), out_is_truncated = pg_truncated pg,
         out_continuation_token = li_continuation_token inp,
         out_next_continuation_token = (if pg_truncated pg then map_option (encode_token env inp) (pg_last pg) else None),
         out_contents = (if pg_contents pg = [] then None else Some (pg_contents pg)),
         out_common_prefixes = (if pg_common pg = [] then None else Some (pg_common pg)),
         out_delimiter = li_delimiter inp, out_start_after = li_start_after inp\<rparr>" (is "_ = Some ?out")
      by (rule list_page_result [OF assms(1) True assms(2)])
    have here: "chain_contents [?out] = pg_contents pg" "chain_prefixes [?out] = pg_common pg"
      by (simp_all add: chain_contents_def chain_prefixes_def)
    have "0 < n" if "pg_truncated pg"
      using page_progress(1) [OF pg that True] .
    then show ?thesis
      using pg here mx True by (intro exI [of _ ?out] exI [of _ n] conjI)
        (auto simp: out page_of_def empty_page_def page_size_def)
  qed
qed

lemma list_loop_sizes:
  assumes "om_ok rs" "\<And>r. r \<in> set rs \<Longrightarrow> starts_with pre (fst r)" "list_loop pre delim mx rs pg = Some pg'"
  shows "(\<forall>lo \<in> set (pg_contents pg'). lo \<in> set (pg_contents pg)
      \<or> (\<exists>k e sz. (k, e) \<in> set rs \<and> e_size e = Some sz \<and> lo = list_row k e sz))
    \<and> (\<forall>(k, e) \<in> set rs. rolled_up pre delim k = None \<and> e_size e = None \<longrightarrow>
        pg_truncated pg' \<and> (\<forall>lo \<in> set (pg_contents pg'). lo \<in> set (pg_contents pg) \<or> lo_key lo < k))"
  using assms
proof (induction rs arbitrary: pg)
  case (Cons r rs)
  obtain k e where r: "r = (k, e)"
    by force
  have sw: "starts_with pre k" and ok: "om_ok rs" "\<And>r. r \<in> set rs \<Longrightarrow> starts_with pre (fst r)"
    and lt: "\<And>k' e'. (k', e') \<in> set rs \<Longrightarrow> k < k'"
    using Cons.prems(1) Cons.prems(2) [of r] Cons.prems(2) r by (auto simp: om_ok_Cons)
  note ih = Cons.IH [OF ok]
  show ?case
  proof (cases "rolled_up pre delim k")
    case (Some cp)
    then show ?thesis
      using Cons.prems(3) ih [of "pg\<lparr>pg_common := os_insert cp (pg_common pg), pg_last := Some k\<rparr>"] r sw
      by (fastforce simp: Let_def split: if_splits)
  next
    case None
    show ?thesis
    proof (cases "length (pg_contents pg) + length (pg_common pg) \<ge> mx")
      case True
      then show ?thesis
        using Cons.prems(3) None r sw by (auto simp: Let_def)
    next
      case False
      then obtain sz where sz: "e_size e = Some sz"
        and run: "list_loop pre delim mx rs (pg\<lparr>pg_contents := pg_contents pg @ [list_row k e sz], pg_last := Some k\<rparr>) = Some pg'"
        using Cons.prems(3) None r sw by (auto simp: Let_def split: option.splits)
      show ?thesis
        using ih [of "pg\<lparr>pg_contents := pg_contents pg @ [list_row k e sz], pg_last := Some k\<rparr>"] run sz r lt
        by (fastforce simp: list_row_def)
    qed
  qed
qed simp

text \<open>The index never invents a size. Every row of a local LIST answer is a row of the index
  with its recorded size, time and ETag; a row of unknown size that the page would have to emit
  sends the request to the origin, so an answered page stops, truncated, before every such row.\<close>

theorem list_never_invents_size:
  assumes "kr_ok lay keys" "0 < list_max (li_max_keys inp)"
    and "list_objects_v2_from_index env (Some keys) inp resume = Some out"
  shows "(\<forall>lo \<in> set (chain_contents [out]). \<exists>e. kr_get keys (lo_key lo) = Some e \<and> e_size e = Some (lo_size lo)
        \<and> lo_last_modified lo = e_last_modified e \<and> lo_etag lo = e_etag e)
    \<and> (\<forall>(k, e) \<in> set (list_scope keys inp resume). rolled_up (req_prefix inp) (li_delimiter inp) k = None \<and> e_size e = None \<longrightarrow>
        out_is_truncated out \<and> (\<forall>lo \<in> set (chain_contents [out]). lo_key lo < k))"
proof -
  let ?rs = "list_scope keys inp resume" and ?mx = "list_max (li_max_keys inp)"
  let ?rng = "kr_range_from keys (list_lower (req_prefix inp) (li_start_after inp) resume)"
  have "om_ok ?rng"
    using assms(1) by (simp add: kr_range_from_def kr_ok_def om_ok_filter)
  then have loop: "list_loop (req_prefix inp) (li_delimiter inp) ?mx ?rng empty_page
      = list_loop (req_prefix inp) (li_delimiter inp) ?mx ?rs empty_page"
    by (simp add: list_loop_filter [of ?rng] list_lower_scope)
  obtain pg where pg: "list_loop (req_prefix inp) (li_delimiter inp) ?mx ?rs empty_page = Some pg"
    and out: "out_is_truncated out = pg_truncated pg" "chain_contents [out] = pg_contents pg"
    using assms(2,3) loop
    by (auto simp: list_objects_v2_from_index_def Let_def chain_contents_def req_prefix_def split: option.splits)
  have get: "kr_get keys k = Some e" if "(k, e) \<in> set ?rs" for k e
    using that assms(1) by (simp add: list_scope_def kr_get_def kr_ok_def om_ok_def strict_sorted_iff)
  note sizes = list_loop_sizes [OF list_scope_sorted [OF assms(1)] _ pg]
  show ?thesis
    unfolding out using sizes get by (fastforce simp: list_scope_def empty_page_def list_row_def)
qed

text \<open>HEAD from the index is faithful or absent from the answer. A local 404 is given exactly
  when the index holds no row; a local 200 exactly when the row is complete, and then it reports
  that row's size, time, ETag, content type and user metadata; a row known only in part is never
  answered locally.\<close>

theorem head_from_index_exact:
  "(head_object_from_index (Some keys) key = AbsentHead \<longleftrightarrow> kr_get keys key = None)
   \<and> (head_object_from_index (Some keys) key = IncompleteHead \<longleftrightarrow>
        (\<exists>e. kr_get keys key = Some e \<and> \<not> is_faithful e))
   \<and> (head_object_from_index (Some keys) key = Faithful out \<longleftrightarrow>
        (\<exists>e. kr_get keys key = Some e \<and> is_faithful e \<and> ho_content_length out = e_size e
           \<and> ho_last_modified out = e_last_modified e \<and> ho_etag out = e_etag e
           \<and> ho_content_type out = e_content_type e \<and> ho_accept_ranges out = ''bytes''
           \<and> Some (ho_meta out) = e_meta e \<and> ho_content_length out \<noteq> None))"
  by (cases out) (auto simp: head_object_from_index_def is_faithful_def split: option.splits)

section \<open>Instances\<close>

definition list_entry :: "int \<Rightarrow> obj_entry" where
  "list_entry t = \<lparr>e_size = Some 3, e_last_modified = t, e_etag = None, e_storage_class = standard_class,
     e_content_type = None, e_meta = None\<rparr>"

definition list_keys :: "layout \<Rightarrow> key_rows" where
  "list_keys lay = fold (\<lambda>k r. fst (kr_insert lay r k (list_entry 0)))
     [''a'', ''p/x'', ''p/y/1'', ''p/y/2''] key_rows_default"

definition list_example :: list_input where
  "list_example = \<lparr>li_bucket = ''b'', li_prefix = Some ''p/'', li_delimiter = Some ''/'', li_max_keys = Some 1,
     li_start_after = None, li_continuation_token = None\<rparr>"

lemma list_keys_ok: "kr_ok lay (list_keys lay)"
  by (simp add: list_keys_def kr_ok_insert)

lemma list_keys_map: "kr_map (list_keys lay)
   = [(''a'', list_entry 0), (''p/x'', list_entry 0), (''p/y/1'', list_entry 0), (''p/y/2'', list_entry 0)]"
  by (simp add: list_keys_def kr_insert_def key_rows_default_def Let_def)

lemma list_example_scope:
  "req_prefix list_example = ''p/''"
  "list_scope (list_keys lay) list_example None
     = [(''p/x'', list_entry 0), (''p/y/1'', list_entry 0), (''p/y/2'', list_entry 0)]"
  by (simp_all add: list_scope_def list_keys_map list_example_def req_prefix_def starts_with_def)

lemma list_example_rolls:
  "rolled_up ''p/'' (Some ''/'') ''p/x'' = None"
  "rolled_up ''p/'' (Some ''/'') ''p/y/1'' = Some ''p/y/''"
  "rolled_up ''p/'' (Some ''/'') ''p/y/2'' = Some ''p/y/''"
  by (simp_all add: rolled_up_def starts_with_def)

lemma list_example_facts:
  "0 < list_max (li_max_keys list_example)" "tokens_fit token_env_example list_example (list_keys lay)"
  "sizes_known (req_prefix list_example) (li_delimiter list_example) (list_scope (list_keys lay) list_example None)"
  "li_delimiter list_example = Some ''/''"
  by (simp_all add: list_example_scope)
    (simp_all add: list_example_def list_max_def tokens_fit_def list_keys_map token_env_example_def token_payload_def
      esc_opt_def MAX_PAYLOAD_BYTES_def sizes_known_def list_entry_def)

lemma list_paging_complete_witness:
  "\<forall>lay. \<exists>outs. list_chain 5 token_env_example (list_keys lay) list_example None = Some outs
     \<and> map lo_key (chain_contents outs) = [''p/x''] \<and> set (chain_prefixes outs) = {''p/y/''}"
proof
  fix lay
  let ?sc = "[(''p/x'', list_entry 0), (''p/y/1'', list_entry 0), (''p/y/2'', list_entry 0)]"
  have "listed_rows ''p/'' (Some ''/'') ?sc = [list_row ''p/x'' (list_entry 0) 3]"
    "listed_groups ''p/'' (Some ''/'') ?sc = {''p/y/''}"
    by (simp_all add: listed_Cons list_example_rolls list_entry_def)
  moreover have "Suc (length (kr_map (list_keys lay))) = 5"
    by (simp add: list_keys_map)
  ultimately obtain outs where "list_chain 5 token_env_example (list_keys lay) list_example None = Some outs"
    "chain_contents outs = [list_row ''p/x'' (list_entry 0) 3]" "set (chain_prefixes outs) = {''p/y/''}"
    using list_paging_complete [OF list_keys_ok list_example_facts(1) token_env_example_laws list_example_facts(2,3), of lay]
    unfolding list_example_scope list_example_facts(4) by (metis (no_types, lifting))
  moreover have "map lo_key [list_row ''p/x'' (list_entry 0) 3] = [''p/x'']"
    by (simp add: list_row_def)
  ultimately show "\<exists>outs. list_chain 5 token_env_example (list_keys lay) list_example None = Some outs
     \<and> map lo_key (chain_contents outs) = [''p/x''] \<and> set (chain_prefixes outs) = {''p/y/''}"
    by metis
qed

text \<open>The listing of the example, and the same request for no keys.\<close>

lemma list_page_bounded_witness:
  "\<forall>lay. \<exists>out none. list_objects_v2_from_index token_env_example (Some (list_keys lay)) list_example None = Some out
     \<and> out_key_count out \<le> out_max_keys out
     \<and> list_objects_v2_from_index token_env_example (Some (list_keys lay)) (list_example\<lparr>li_max_keys := Some 0\<rparr>) None = Some none
     \<and> out_key_count none \<le> 0 \<and> \<not> out_is_truncated none"
proof
  fix lay
  let ?inp = "list_example\<lparr>li_max_keys := Some 0\<rparr>"
  have "req_prefix ?inp = req_prefix list_example" "li_delimiter ?inp = li_delimiter list_example"
      "list_scope (list_keys lay) ?inp None = list_scope (list_keys lay) list_example None"
    by (simp_all add: req_prefix_def list_scope_def)
  then have known: "sizes_known (req_prefix ?inp) (li_delimiter ?inp) (list_scope (list_keys lay) ?inp None)"
    using list_example_facts(3) by simp
  show "\<exists>out none. list_objects_v2_from_index token_env_example (Some (list_keys lay)) list_example None = Some out
     \<and> out_key_count out \<le> out_max_keys out
     \<and> list_objects_v2_from_index token_env_example (Some (list_keys lay)) (list_example\<lparr>li_max_keys := Some 0\<rparr>) None = Some none
     \<and> out_key_count none \<le> 0 \<and> \<not> out_is_truncated none"
    using list_page_bounded [OF list_keys_ok list_example_facts(3), of token_env_example lay] list_page_bounded [OF list_keys_ok known, of token_env_example]
    by auto
qed

lemma list_never_invents_size_witness:
  "\<forall>lay. \<exists>out. list_objects_v2_from_index token_env_example (Some (list_keys lay)) list_example None = Some out
     \<and> (\<forall>lo \<in> set (chain_contents [out]). \<exists>e. kr_get (list_keys lay) (lo_key lo) = Some e \<and> e_size e = Some (lo_size lo))"
proof
  fix lay
  obtain out where out: "list_objects_v2_from_index token_env_example (Some (list_keys lay)) list_example None = Some out"
    by (rule list_page_result [OF list_keys_ok list_example_facts(1,3)])
  show "\<exists>out. list_objects_v2_from_index token_env_example (Some (list_keys lay)) list_example None = Some out
     \<and> (\<forall>lo \<in> set (chain_contents [out]). \<exists>e. kr_get (list_keys lay) (lo_key lo) = Some e \<and> e_size e = Some (lo_size lo))"
    using list_never_invents_size [OF list_keys_ok list_example_facts(1) out] out by blast
qed

end
