(* ===== verification/Feed.thy ===== *)
theory Feed
  imports Index_Props
begin

text \<open>
  The write feed between nodes (\<^verbatim>\<open>src/src/sync/wire.rs\<close> and \<^verbatim>\<open>src/src/sync/coherence.rs\<close>): events and their
  timestamps, session tokens, the publishing half that indexes a node's own writes, the fold of a peer's event into
  the index, and the verdicts a write waits for. The \<^verbatim>\<open>postcard\<close> codec of an event and the parser of an entity
  tag are parameters. The gossip group, its feed ring, its leases and its acknowledgement ledger are
  \<^verbatim>\<open>groupnet\<close>'s: the position the feed assigns to a write and the outcomes of its waits are arguments.
\<close>

section \<open>Events\<close>

datatype index_op =
    OpPut (op_size: "int option") (op_etag: "string option") (op_content_type: "string option") (op_storage_class: "string option")
  | OpDel

definition op_unknown :: index_op where
  "op_unknown = OpPut None None None None"

definition describes_nothing :: "index_op \<Rightarrow> bool" where
  "describes_nothing op = (case op of OpPut None None _ _ \<Rightarrow> True | _ \<Rightarrow> False)"

record index_event =
  ie_op :: index_op
  ie_bucket :: string
  ie_key :: string
  ie_ts_us :: nat

definition to_micros :: "systime \<Rightarrow> nat" where
  "to_micros ts = (if ts < 0 then 0 else min (nat (ts div 1000)) u64_max)"

definition from_micros :: "nat \<Rightarrow> systime" where
  "from_micros us = int us * 1000"

definition wire_stamp :: "systime \<Rightarrow> systime" where
  "wire_stamp ts = from_micros (to_micros ts)"

definition etag_to_wire :: "etag \<Rightarrow> string" where
  "etag_to_wire tag = (case tag of Strong v \<Rightarrow> ''\"'' @ v @ ''\"'' | Weak v \<Rightarrow> ''W/\"'' @ v @ ''\"'')"

definition WIRE_MAGIC :: byte where
  "WIRE_MAGIC = char_of (254 :: nat)"

definition encode_event :: "(index_event \<Rightarrow> bytes option) \<Rightarrow> index_event \<Rightarrow> bytes" where
  "encode_event to_vec ev = (case to_vec ev of Some body \<Rightarrow> WIRE_MAGIC # body | None \<Rightarrow> [])"

definition decode_event :: "(bytes \<Rightarrow> index_event option) \<Rightarrow> bytes \<Rightarrow> index_event option" where
  "decode_event from_slice bs = (case bs of [] \<Rightarrow> None | b # body \<Rightarrow> if b = WIRE_MAGIC then from_slice body else None)"

section \<open>Session tokens\<close>

text \<open>\<^verbatim>\<open>str::parse::<u64>\<close>: an optional plus sign, at least one digit, no overflow.\<close>

definition parse_u64 :: "string \<Rightarrow> nat option" where
  "parse_u64 s = (let digits = (case s of c # rest \<Rightarrow> if c = CHR ''+'' then rest else s | [] \<Rightarrow> [])
     in if digits = [] \<or> (\<exists>c \<in> set digits. of_char c < (48 :: nat) \<or> of_char c > (57 :: nat)) then None
        else if undecimal digits > u64_max then None else Some (undecimal digits))"

definition rsplit_once :: "char \<Rightarrow> string \<Rightarrow> (string \<times> string) option" where
  "rsplit_once c s = (let after = takeWhile (\<lambda>x. x \<noteq> c) (rev s) in
     if length after = length s then None else Some (take (length s - Suc (length after)) s, rev after))"

definition parse_token :: "string \<Rightarrow> (string \<times> nat \<times> nat) option" where
  "parse_token v = Option.bind (rsplit_once CHR '':'' v) (\<lambda>(rest, seq).
     Option.bind (rsplit_once CHR '':'' rest) (\<lambda>(writer, epoch).
     Option.bind (parse_u64 epoch) (\<lambda>e. Option.bind (parse_u64 seq) (\<lambda>q. Some (writer, e, q)))))"

definition token_header :: "string \<Rightarrow> nat \<Rightarrow> nat \<Rightarrow> string" where
  "token_header writer epoch seq = writer @ '':'' @ decimal epoch @ '':'' @ decimal seq"

section \<open>Publishing\<close>

definition own_cut :: "string \<Rightarrow> nat \<Rightarrow> nat option \<Rightarrow> native_cut" where
  "own_cut writer epoch last_seq = \<lparr>nc_writer = writer, nc_epoch = epoch, nc_sequence = (case last_seq of None \<Rightarrow> 0 | Some s \<Rightarrow> s)\<rparr>"

definition put_event :: "string \<Rightarrow> string \<Rightarrow> obj_entry \<Rightarrow> index_event" where
  "put_event bucket key e = \<lparr>ie_op = OpPut (e_size e) (map_option etag_to_wire (e_etag e)) (e_content_type e) (Some (e_storage_class e)),
     ie_bucket = bucket, ie_key = key, ie_ts_us = to_micros (e_last_modified e)\<rparr>"

definition index_put ::
  "layout \<Rightarrow> key_index_state \<Rightarrow> string \<Rightarrow> string \<Rightarrow> obj_entry \<Rightarrow> native_cut \<Rightarrow> key_index_state \<times> bool \<times> index_event" where
  "index_put lay st bucket key e position = apply_own_put lay st bucket key e (put_event bucket key e, position)"

definition del_event :: "string \<Rightarrow> string \<Rightarrow> systime \<Rightarrow> index_event" where
  "del_event bucket key ts = \<lparr>ie_op = OpDel, ie_bucket = bucket, ie_key = key, ie_ts_us = to_micros ts\<rparr>"

definition index_del ::
  "layout \<Rightarrow> key_index_state \<Rightarrow> string \<Rightarrow> string \<Rightarrow> systime \<Rightarrow> native_cut \<Rightarrow> key_index_state \<times> index_event" where
  "index_del lay st bucket key ts position =
     (case apply_own_del lay st bucket key ts (del_event bucket key ts, position) of (st, _, ev) \<Rightarrow> (st, ev))"

definition unknown_event :: "string \<Rightarrow> string \<Rightarrow> systime \<Rightarrow> index_event" where
  "unknown_event bucket key now = \<lparr>ie_op = op_unknown, ie_bucket = bucket, ie_key = key, ie_ts_us = to_micros now\<rparr>"

definition index_unknown ::
  "key_index_state \<Rightarrow> string \<Rightarrow> string \<Rightarrow> systime \<Rightarrow> native_cut \<Rightarrow> (key_index_state \<times> nat \<times> index_event) option" where
  "index_unknown st bucket key now position = fence_own_uncertain_key st bucket key (unknown_event bucket key now, position)"

section \<open>Applying a peer's event\<close>

definition peer_cut :: "string \<Rightarrow> nat \<Rightarrow> nat \<Rightarrow> native_cut" where
  "peer_cut peer epoch seq = \<lparr>nc_writer = peer, nc_epoch = epoch, nc_sequence = seq\<rparr>"

definition feed_entry :: "(string \<Rightarrow> etag option) \<Rightarrow> systime \<Rightarrow> int option \<Rightarrow> string option \<Rightarrow> string option \<Rightarrow> string option \<Rightarrow> obj_entry" where
  "feed_entry pe ts sz et ct sc = \<lparr>e_size = sz, e_last_modified = ts, e_etag = Option.bind et pe,
     e_storage_class = (case sc of None \<Rightarrow> standard_class | Some c \<Rightarrow> c), e_content_type = ct, e_meta = None\<rparr>"

text \<open>\<^const>\<open>None\<close> outside is the overflow of the token counter, which the code panics on.\<close>

definition apply_feed_index ::
  "layout \<Rightarrow> (string \<Rightarrow> etag option) \<Rightarrow> key_index_state \<Rightarrow> native_cut \<Rightarrow> index_event \<Rightarrow> (key_index_state \<times> nat option) option" where
  "apply_feed_index lay pe st position ev =
     (let ts = from_micros (ie_ts_us ev) in
      if describes_nothing (ie_op ev) then fence_uncertain_key_native st (ie_bucket ev) (ie_key ev) position
      else case ie_op ev of
          OpPut sz et ct sc \<Rightarrow>
            Some (fst (apply_put_native lay st (ie_bucket ev) (ie_key ev) (feed_entry pe ts sz et ct sc) position), None)
        | OpDel \<Rightarrow> Some (fst (apply_del_native lay st (ie_bucket ev) (ie_key ev) ts position), None))"

section \<open>Modes and verdicts\<close>

datatype consistency = ModeStrong | StrongAcks | Bounded

definition mode_acks :: "consistency \<Rightarrow> bool" where
  "mode_acks c = (case c of ModeStrong \<Rightarrow> True | StrongAcks \<Rightarrow> True | Bounded \<Rightarrow> False)"

definition mode_leases :: "consistency \<Rightarrow> bool" where
  "mode_leases c = (case c of ModeStrong \<Rightarrow> True | StrongAcks \<Rightarrow> False | Bounded \<Rightarrow> False)"

text \<open>Which peers a write waits for, by the capabilities each advertises; the two capability names are
  \<^verbatim>\<open>groupnet\<close>'s.\<close>

definition waits_on :: "string \<Rightarrow> string set \<Rightarrow> bool" where
  "waits_on cap_acks caps \<longleftrightarrow> cap_acks \<in> caps \<or> caps = {}"

definition waits_on_unleased :: "string \<Rightarrow> string \<Rightarrow> string set \<Rightarrow> bool" where
  "waits_on_unleased cap_acks cap_lease caps \<longleftrightarrow> waits_on cap_acks caps \<and> cap_lease \<notin> caps"

datatype coherence_outcome = AllApplied | LeaseLapsed "string list" | TimedOut "string list"

datatype write_wait = Applied | Lapsed "string list" | Stalled "string list" "string list"

definition retires_feed :: "write_wait \<Rightarrow> consistency \<Rightarrow> bool" where
  "retires_feed w c \<longleftrightarrow> c \<in> {ModeStrong, StrongAcks} \<and> (case w of Applied \<Rightarrow> True | Lapsed _ \<Rightarrow> True | Stalled _ _ \<Rightarrow> False)"

definition wait_leased :: "coherence_outcome \<Rightarrow> bool \<Rightarrow> write_wait" where
  "wait_leased coherent insured = (case coherent of
       TimedOut waiting_on \<Rightarrow> Stalled waiting_on []
     | _ \<Rightarrow> if \<not> insured then Stalled [] (case coherent of LeaseLapsed stragglers \<Rightarrow> stragglers | _ \<Rightarrow> [])
           else case coherent of LeaseLapsed stragglers \<Rightarrow> Lapsed stragglers | _ \<Rightarrow> Applied)"

definition wait_cluster_applied :: "consistency \<Rightarrow> bool \<Rightarrow> coherence_outcome \<Rightarrow> bool \<Rightarrow> bool \<Rightarrow> write_wait" where
  "wait_cluster_applied c has_leases coherent insured acked =
     (if c = Bounded then Applied
      else if c = ModeStrong \<and> has_leases then wait_leased coherent insured
      else if acked then Applied else Stalled [] [])"

definition guaranteed :: "write_wait \<Rightarrow> bool" where
  "guaranteed w = (case w of Applied \<Rightarrow> True | Lapsed _ \<Rightarrow> True | Stalled _ _ \<Rightarrow> False)"

record recovery_status =
  rs_may_serve :: bool
  rs_generation :: nat

definition recovery_generation_permits :: "recovery_status option \<Rightarrow> nat option \<Rightarrow> bool" where
  "recovery_generation_permits status expected = (case status of
       Some status \<Rightarrow> rs_may_serve status \<and> Some (rs_generation status) = expected
     | None \<Rightarrow> expected = None)"

text \<open>The licence each mode issues: a valid lease, a fully alive view, or none needed.\<close>

definition mode_allows_local :: "consistency \<Rightarrow> bool \<Rightarrow> bool \<Rightarrow> bool" where
  "mode_allows_local c lease_valid healthy = (case c of ModeStrong \<Rightarrow> lease_valid | StrongAcks \<Rightarrow> healthy | Bounded \<Rightarrow> True)"

definition may_serve_local :: "recovery_status option \<Rightarrow> consistency \<Rightarrow> bool \<Rightarrow> bool \<Rightarrow> bool" where
  "may_serve_local recovery c lease_valid healthy \<longleftrightarrow>
     (case recovery of Some status \<Rightarrow> rs_may_serve status | None \<Rightarrow> True) \<and> mode_allows_local c lease_valid healthy"

definition may_serve_local_in_generation :: "recovery_status option \<Rightarrow> nat option \<Rightarrow> consistency \<Rightarrow> bool \<Rightarrow> bool \<Rightarrow> bool" where
  "may_serve_local_in_generation recovery expected c lease_valid healthy \<longleftrightarrow>
     recovery_generation_permits recovery expected \<and> mode_allows_local c lease_valid healthy"

section \<open>Timestamps and tokens\<close>

lemma wire_stamp_in_range: "0 \<le> t \<Longrightarrow> t div 1000 \<le> int u64_max \<Longrightarrow> wire_stamp t = t - t mod 1000"
  by (simp add: wire_stamp_def from_micros_def to_micros_def min_absorb1 nat_le_iff minus_mod_eq_div_mult)

lemma micros_roundtrip: "us \<le> u64_max \<Longrightarrow> to_micros (from_micros us) = us"
  by (simp add: to_micros_def from_micros_def)

lemma to_micros_bound: "to_micros t \<le> u64_max"
  by (simp add: to_micros_def)

lemma wire_stamp_idem: "wire_stamp (wire_stamp t) = wire_stamp t"
  by (simp add: wire_stamp_def micros_roundtrip to_micros_bound)

lemma wire_stamp_mono: "s \<le> t \<Longrightarrow> wire_stamp s \<le> wire_stamp t"
  by (auto simp: wire_stamp_def from_micros_def to_micros_def intro!: min.mono nat_mono zdiv_mono1)

lemma decimal_digits: "\<forall>c \<in> set (decimal n). 48 \<le> (of_char c :: nat) \<and> of_char c \<le> (57 :: nat)"
proof (induction n rule: decimal.induct)
  case (1 n)
  have d: "of_char (char_of (48 + m)) = 48 + m" if "m < 10" for m :: nat
    using that by simp
  show ?case
  proof (cases "n < 10")
    case True
    then show ?thesis
      using d [of n] by (subst decimal.simps) simp
  next
    case False
    then show ?thesis
      using d [of "n mod 10"] 1 by (subst decimal.simps) (auto simp del: of_char_of)
  qed
qed

lemma decimal_nonempty: "decimal n \<noteq> []"
  by (subst decimal.simps) simp

lemma parse_u64_decimal:
  assumes "n \<le> u64_max"
  shows "parse_u64 (decimal n) = Some n"
proof -
  obtain c cs where c: "decimal n = c # cs"
    using decimal_nonempty by (cases "decimal n") auto
  then have "c \<noteq> CHR ''+''"
    using decimal_digits [of n] by auto
  then have "(case decimal n of [] \<Rightarrow> [] | c # rest \<Rightarrow> if c = CHR ''+'' then rest else decimal n) = decimal n"
    using c by simp
  moreover have "\<not> (\<exists>c \<in> set (decimal n). of_char c < (48 :: nat) \<or> of_char c > (57 :: nat))"
    using decimal_digits [of n] by fastforce
  ultimately show ?thesis
    using assms undecimal_decimal [of n] decimal_nonempty [of n] unfolding parse_u64_def Let_def by (simp only: if_False simp_thms not_less [symmetric])
qed

lemma rsplit_once_last:
  assumes "c \<notin> set xs"
  shows "rsplit_once c (ys @ c # xs) = Some (ys, xs)"
proof -
  have "takeWhile (\<lambda>x. x \<noteq> c) (rev xs @ zs) = rev xs @ takeWhile (\<lambda>x. x \<noteq> c) zs" for zs
    using assms by (intro takeWhile_append2) auto
  then have "takeWhile (\<lambda>x. x \<noteq> c) (rev (ys @ c # xs)) = rev xs"
    by simp
  then show ?thesis
    by (simp add: rsplit_once_def Let_def)
qed

text \<open>A session token reads back as it was issued: the header a write hands out parses to its writer, epoch and
  sequence, whatever the writer's name contains, colons included.\<close>

theorem token_header_roundtrip:
  assumes "epoch \<le> u64_max" "seq \<le> u64_max"
  shows "parse_token (token_header writer epoch seq) = Some (writer, epoch, seq)"
proof -
  have colon: "CHR '':'' \<notin> set (decimal n)" for n
    using decimal_digits [of n] by auto
  have "rsplit_once CHR '':'' (token_header writer epoch seq) = Some (writer @ CHR '':'' # decimal epoch, decimal seq)"
    using rsplit_once_last [OF colon, of "writer @ CHR '':'' # decimal epoch" seq] by (simp add: token_header_def)
  then show ?thesis
    using assms by (simp add: parse_token_def rsplit_once_last [OF colon] parse_u64_decimal)
qed

lemma token_header_roundtrip_witness: "parse_token (token_header ''a:b'' 7 42) = Some (''a:b'', 7, 42)"
  by (rule token_header_roundtrip) (simp_all add: u64_max_def)

section \<open>A peer follows the writer\<close>

definition skeleton :: "obj_entry \<Rightarrow> obj_entry" where
  "skeleton e = e\<lparr>e_meta := None\<rparr>"

text \<open>Two nodes agree: the same rows, up to the metadata that does not travel, and the same tombstones.\<close>

definition agree :: "key_index_state \<Rightarrow> key_index_state \<Rightarrow> bool" where
  "agree w p \<longleftrightarrow> (\<forall>b k. map_option skeleton (live w b k) = map_option skeleton (live p b k) \<and> dead w b k = dead p b k)"

definition takes_write :: "layout \<Rightarrow> key_index_state \<Rightarrow> string \<Rightarrow> native_cut \<Rightarrow> bool" where
  "takes_write lay st bucket position \<longleftrightarrow> index_ok lay st \<and> \<not> rebuilding st bucket \<and> snd (note_native_cut st position)
     \<and> (ki_capture st \<noteq> None \<or> gr_len (bs_gone (bucket_entry st bucket)) \<le> TOMBSTONE_PRUNE_LEN)"

lemma native_put_buckets:
  assumes "snd (note_native_cut st position)"
  shows "bucket_entry (fst (apply_put_with_authority lay st bucket key e DefinitiveMutation (Some (Native position)))) m
    = bucket_entry (fst (apply_put lay st bucket key e)) m"
proof -
  have "snd (note_identity st (Some (Native position)))"
    using assms by (simp add: note_identity_def)
  then show ?thesis
    using put_effect(1) [of st "Some (Native position)" lay bucket key e DefinitiveMutation] put_entry [of lay st bucket key e m]
    by (simp add: bucket_entry_insert)
qed

lemma native_del_buckets:
  assumes "snd (note_native_cut st position)"
  shows "bucket_entry (fst (apply_del_with_identity lay st bucket key ts (Some (Native position)) sweep)) m
    = bucket_entry (fst (apply_del_with_identity lay st bucket key ts None sweep)) m"
proof -
  have "snd (note_identity st (Some (Native position)))"
    using assms by (simp add: note_identity_def)
  then show ?thesis
    using del_effect(1) [of st "Some (Native position)" lay bucket key ts sweep] del_entry [of lay st bucket key ts sweep m]
    by (simp add: bucket_entry_insert)
qed


lemma native_put_view:
  fixes key e
  assumes "takes_write lay st bucket position"
  defines "st' \<equiv> fst (apply_put_with_authority lay st bucket key e DefinitiveMutation (Some (Native position)))"
  shows "live st' m k = (if m = bucket \<and> k = key \<and> \<not> deleted_by (dead st bucket key) e
        \<and> (case live st bucket key of None \<Rightarrow> True | Some old \<Rightarrow> e_last_modified old \<le> e_last_modified e) then Some e else live st m k)"
    and "dead st' m k = dead st m k"
proof -
  have ok: "index_ok lay st" "\<not> rebuilding st bucket" "snd (note_native_cut st position)"
    using assms(1) by (simp_all add: takes_write_def)
  have same: "live st' m k = live (fst (apply_put lay st bucket key e)) m k" "dead st' m k = dead (fst (apply_put lay st bucket key e)) m k"
    using native_put_buckets [OF ok(3), of lay bucket key e m] by (simp_all add: live_def dead_def st'_def)
  note v = put_view [OF ok(2) not_rebuilding_touched [OF ok(1,2)], where key = key and e = e and lay = lay]
  show "live st' m k = (if m = bucket \<and> k = key \<and> \<not> deleted_by (dead st bucket key) e
        \<and> (case live st bucket key of None \<Rightarrow> True | Some old \<Rightarrow> e_last_modified old \<le> e_last_modified e) then Some e else live st m k)"
    unfolding same v(1) by (auto simp: tombstone_at_least_def entry_newer_def live_def dead_def deleted_by_def split: option.splits)
  show "dead st' m k = dead st m k"
    unfolding same v(2) ..
qed

lemma native_del_view:
  fixes key ts
  assumes "takes_write lay st bucket position"
  defines "st' \<equiv> fst (apply_del_with_identity lay st bucket key ts (Some (Native position)) Run)"
  shows "live st' m k = (if m = bucket \<and> k = key
        \<and> (case live st bucket key of None \<Rightarrow> True | Some old \<Rightarrow> e_last_modified old \<le> ts) then None else live st m k)"
    and "dead st' m k = (if m = bucket \<and> k = key
        then Some (case dead st bucket key of None \<Rightarrow> ts | Some d \<Rightarrow> max d ts) else dead st m k)"
proof -
  have ok: "index_ok lay st" "\<not> rebuilding st bucket" "snd (note_native_cut st position)"
    and small: "Run = Hold \<or> ki_capture st \<noteq> None \<or> gr_len (bs_gone (bucket_entry st bucket)) \<le> TOMBSTONE_PRUNE_LEN"
    using assms(1) by (simp_all add: takes_write_def)
  let ?d = "fst (apply_del_with_identity lay st bucket key ts None Run)"
  have same: "live st' m k = live ?d m k" "dead st' m k = dead ?d m k"
    using native_del_buckets [OF ok(3), of lay bucket key ts Run m] by (simp_all add: live_def dead_def st'_def)
  note v = del_view [OF ok(2,1) small, of key ts]
  show "live st' m k = (if m = bucket \<and> k = key
        \<and> (case live st bucket key of None \<Rightarrow> True | Some old \<Rightarrow> e_last_modified old \<le> ts) then None else live st m k)"
    unfolding same v(1) by (auto simp: entry_newer_def live_def split: option.splits)
  show "dead st' m k = (if m = bucket \<and> k = key
        then Some (case dead st bucket key of None \<Rightarrow> ts | Some d \<Rightarrow> max d ts) else dead st m k)"
    unfolding same v(2) ..
qed

lemma skeleton_stamp: "skeleton a = skeleton b \<Longrightarrow> e_last_modified a = e_last_modified b"
  unfolding skeleton_def by (metis obj_entry.select_convs(2) obj_entry.update_convs(6) obj_entry.surjective)

lemma agree_stamp:
  assumes "agree w p"
  shows "(case live w b k of None \<Rightarrow> True | Some old \<Rightarrow> e_last_modified old \<le> t)
    = (case live p b k of None \<Rightarrow> True | Some old \<Rightarrow> e_last_modified old \<le> t)"
proof -
  have "map_option skeleton (live w b k) = map_option skeleton (live p b k)"
    using assms by (simp add: agree_def)
  then show ?thesis
    by (auto split: option.splits dest!: skeleton_stamp)
qed

lemma agree_put:
  assumes "agree w p" "takes_write lay w bucket position" "takes_write lay' p bucket position"
    and "skeleton e' = skeleton e"
  shows "agree (fst (apply_put_with_authority lay w bucket key e DefinitiveMutation (Some (Native position))))
    (fst (apply_put_with_authority lay' p bucket key e' DefinitiveMutation (Some (Native position))))"
proof -
  have same: "e_last_modified e' = e_last_modified e" "deleted_by d e' = deleted_by d e" for d
    using skeleton_stamp [OF assms(4)] by (simp_all add: deleted_by_def split: option.split)
  have "dead w b k = dead p b k" "map_option skeleton (live w b k) = map_option skeleton (live p b k)" for b k
    using assms(1) by (simp_all add: agree_def)
  then show ?thesis
    using assms(4) unfolding agree_def native_put_view [OF assms(2)] native_put_view [OF assms(3)] same
      agree_stamp [OF assms(1)] by simp
qed

lemma agree_del:
  assumes "agree w p" "takes_write lay w bucket position" "takes_write lay' p bucket position"
  shows "agree (fst (apply_del_with_identity lay w bucket key ts (Some (Native position)) Run))
    (fst (apply_del_with_identity lay' p bucket key ts (Some (Native position)) Run))"
proof -
  have "dead w b k = dead p b k" "map_option skeleton (live w b k) = map_option skeleton (live p b k)" for b k
    using assms(1) by (simp_all add: agree_def)
  then show ?thesis
    using agree_stamp [OF assms(1)]
    unfolding agree_def native_del_view [OF assms(2)] native_del_view [OF assms(3)] by simp
qed

text \<open>What the feed's codec and the parser of entity tags promise for one event: it reads back as it was written.\<close>

definition carries :: "(index_event \<Rightarrow> bytes option) \<Rightarrow> (bytes \<Rightarrow> index_event option) \<Rightarrow> index_event \<Rightarrow> bool" where
  "carries to_vec from_slice ev \<longleftrightarrow> (case to_vec ev of None \<Rightarrow> False | Some body \<Rightarrow> from_slice body = Some ev)"

lemma carried: "carries to_vec from_slice ev \<Longrightarrow> decode_event from_slice (encode_event to_vec ev) = Some ev"
  by (simp add: carries_def decode_event_def encode_event_def split: option.splits)

definition received :: "layout \<Rightarrow> (string \<Rightarrow> etag option) \<Rightarrow> (bytes \<Rightarrow> index_event option) \<Rightarrow> key_index_state \<Rightarrow> native_cut \<Rightarrow> bytes
    \<Rightarrow> (key_index_state \<times> nat option) option" where
  "received lay pe from_slice st position bs = Option.bind (decode_event from_slice bs) (apply_feed_index lay pe st position)"

lemma feed_entry_put_event:
  assumes "\<forall>t. e_etag e = Some t \<longrightarrow> pe (etag_to_wire t) = Some t" "wire_stamp (e_last_modified e) = e_last_modified e"
  shows "skeleton (feed_entry pe (from_micros (to_micros (e_last_modified e))) (e_size e) (map_option etag_to_wire (e_etag e))
    (e_content_type e) (Some (e_storage_class e))) = skeleton e"
  using assms by (cases "e_etag e") (auto simp: skeleton_def feed_entry_def wire_stamp_def)

text \<open>A peer follows the writer: two nodes whose indexes agree and that both take a write at its feed position agree again
  after the writer has indexed its own put or delete and the peer has folded the event.\<close>

lemma peer_takes_put:
  assumes "agree w p" "takes_write lay w bucket position" "takes_write lay' p bucket position"
    and "\<forall>t. e_etag e = Some t \<longrightarrow> pe (etag_to_wire t) = Some t"
    and "wire_stamp (e_last_modified e) = e_last_modified e" "e_size e \<noteq> None \<or> e_etag e \<noteq> None"
    and "index_put lay w bucket key e position = (w', changed, ev)"
  shows "ev = put_event bucket key e" "\<exists>p'. apply_feed_index lay' pe p position ev = Some (p', None) \<and> agree w' p'"
proof -
  have w': "w' = fst (index_put lay w bucket key e position)" "ev = put_event bucket key e"
    using assms(7) by (simp_all add: index_put_def apply_own_put_def split: prod.splits)
  have described: "\<not> describes_nothing (ie_op (put_event bucket key e))"
    using assms(6) by (auto simp: describes_nothing_def put_event_def split: option.splits)
  have "agree w' (fst (apply_put_native lay' p bucket key (feed_entry pe (from_micros (to_micros (e_last_modified e))) (e_size e)
      (map_option etag_to_wire (e_etag e)) (e_content_type e) (Some (e_storage_class e))) position))"
    using agree_put [OF assms(1-3) feed_entry_put_event [OF assms(4,5)], of key]
    by (simp add: w'(1) index_put_def apply_own_put_def apply_put_native_def case_prod_beta)
  then show "ev = put_event bucket key e" "\<exists>p'. apply_feed_index lay' pe p position ev = Some (p', None) \<and> agree w' p'"
    using described w'(2) by (simp_all add: apply_feed_index_def Let_def put_event_def)
qed

lemma peer_takes_del:
  assumes "agree w p" "takes_write lay w bucket position" "takes_write lay' p bucket position"
    and "wire_stamp ts = ts" "index_del lay w bucket key ts position = (w', ev)"
  shows "ev = del_event bucket key ts" "\<exists>p'. apply_feed_index lay' pe p position ev = Some (p', None) \<and> agree w' p'"
proof -
  have w': "w' = fst (index_del lay w bucket key ts position)" "ev = del_event bucket key ts"
    using assms(5) by (simp_all add: index_del_def apply_own_del_def split: prod.splits)
  have "agree w' (fst (apply_del_native lay' p bucket key (from_micros (to_micros ts)) position))"
    using agree_del [OF assms(1-3), of key ts] assms(4)
    by (simp add: w'(1) index_del_def apply_own_del_def apply_del_native_def wire_stamp_def case_prod_beta)
  then show "ev = del_event bucket key ts" "\<exists>p'. apply_feed_index lay' pe p position ev = Some (p', None) \<and> agree w' p'"
    using w'(2) by (simp_all add: apply_feed_index_def Let_def del_event_def describes_nothing_def)
qed

lemma fence_keeps_rows:
  assumes "index_unknown w bucket key now position = Some (w', token, ev)"
  shows "ev = unknown_event bucket key now" "live w' = live w" "dead w' = dead w"
proof -
  have kept: "ki_buckets (fst (note_native_cut w position)) = ki_buckets w"
    by (auto simp: note_native_cut_def Let_def split: option.splits)
  have f: "fence_key (fst (note_native_cut w position)) bucket key = Some (w', token)" and ev: "ev = unknown_event bucket key now"
    using assms by (auto simp: index_unknown_def fence_own_uncertain_key_def)
  show "ev = unknown_event bucket key now"
    by (rule ev)
  show "live w' = live w" "dead w' = dead w"
    using fence_key_Some [OF f] kept by (simp_all add: fun_eq_iff live_def dead_def bucket_entry_def bucket_get_def)
qed

lemma peer_fence_keeps_rows:
  assumes "apply_feed_index lay pe p position (unknown_event bucket key now) = Some (p', fenced)"
  shows "live p' = live p" "dead p' = dead p"
proof -
  have kept: "ki_buckets (fst (note_native_cut p position)) = ki_buckets p"
    by (auto simp: note_native_cut_def Let_def split: option.splits)
  have "p' = fst (note_native_cut p position) \<or> (\<exists>token. fence_key (fst (note_native_cut p position)) bucket key = Some (p', token))"
    using assms by (cases "note_native_cut p position")
      (auto simp: apply_feed_index_def unknown_event_def op_unknown_def describes_nothing_def fence_uncertain_key_native_def split: bool.splits)
  then show "live p' = live p" "dead p' = dead p"
    using kept fence_key_Some by (auto simp: fun_eq_iff live_def dead_def bucket_entry_def bucket_get_def)
qed

definition feed_entry_example :: obj_entry where
  "feed_entry_example = \<lparr>e_size = Some 5, e_last_modified = 2000, e_etag = Some (Strong ''t''), e_storage_class = ''STANDARD'',
     e_content_type = None, e_meta = None\<rparr>"

definition feed_cut_example :: native_cut where
  "feed_cut_example = \<lparr>nc_writer = ''w'', nc_epoch = 1, nc_sequence = 1\<rparr>"

lemma fresh_takes_write: "takes_write lay key_index_default ''b'' feed_cut_example"
  using refines_default [of lay]
  by (simp add: takes_write_def refines_def note_native_cut_def feed_cut_example_def key_index_default_def MAX_NATIVE_ID_BYTES_def MAX_NATIVE_WRITERS_def)

text \<open>C18: An unknown outcome fences every node. When a write's result is unknown, the writer fences its key at a fresh
  token, and a peer that receives the event fences the key too: on both the token is current, no row and no
  tombstone of any key changes, and no row is made up from an event that describes nothing.\<close>

theorem unknown_fences_everywhere:
  assumes "snd (note_native_cut p position)" "epoch_of w bucket < u64_max" "epoch_of p bucket < u64_max"
    and "carries to_vec from_slice (unknown_event bucket key now)"
  shows "\<exists>w' token p' token'. index_unknown w bucket key now position = Some (w', token, unknown_event bucket key now)
      \<and> received lay pe from_slice p position (encode_event to_vec (unknown_event bucket key now)) = Some (p', Some token')
      \<and> uncertain_key_is_current w' bucket key token \<and> uncertain_key_is_current p' bucket key token'
      \<and> live w' = live w \<and> dead w' = dead w \<and> live p' = live p \<and> dead p' = dead p"
proof -
  have kept: "ki_buckets (fst (note_native_cut st position)) = ki_buckets st" for st
    by (auto simp: note_native_cut_def Let_def split: option.splits)
  have seen: "bucket_entry (fst (note_native_cut st position)) = bucket_entry st" for st
    by (simp add: fun_eq_iff bucket_entry_def bucket_get_def kept)
  have views: "epoch_of (fst (note_native_cut st position)) = epoch_of st" "live (fst (note_native_cut st position)) = live st"
    "dead (fst (note_native_cut st position)) = dead st" for st
    by (simp_all add: fun_eq_iff epoch_of_def live_def dead_def seen)
  obtain w' token where w: "fence_key (fst (note_native_cut w position)) bucket key = Some (w', token)"
    using fence_example [of "fst (note_native_cut w position)" bucket key] assms(2) views by auto
  obtain p' token' where p: "fence_key (fst (note_native_cut p position)) bucket key = Some (p', token')"
    using fence_example [of "fst (note_native_cut p position)" bucket key] assms(3) views by auto
  have "index_unknown w bucket key now position = Some (w', token, unknown_event bucket key now)"
    using w by (simp add: index_unknown_def fence_own_uncertain_key_def)
  moreover have "fence_uncertain_key_native p bucket key position = Some (p', Some token')"
    using p assms(1) by (cases "note_native_cut p position") (simp add: fence_uncertain_key_native_def split: bool.split)
  then have "received lay pe from_slice p position (encode_event to_vec (unknown_event bucket key now)) = Some (p', Some token')"
    using carried [OF assms(4)]
    by (simp add: received_def apply_feed_index_def Let_def unknown_event_def op_unknown_def describes_nothing_def)
  moreover have "uncertain_key_is_current w' bucket key token" "uncertain_key_is_current p' bucket key token'"
    using fence_key_Some(3) [OF w] fence_key_Some(3) [OF p] by (simp_all add: fence_current_iff)
  moreover have "live w' = live w" "dead w' = dead w" "live p' = live p" "dead p' = dead p"
    using fence_key_Some [OF w] fence_key_Some [OF p] views by simp_all
  ultimately show ?thesis
    by blast
qed


definition feed_codec_example :: "index_event \<Rightarrow> bytes option" where
  "feed_codec_example ev = (if ie_op ev = OpDel then Some ''d'' else if ie_op ev = op_unknown then Some ''u'' else Some ''p'')"

definition feed_decodec_example :: "bytes \<Rightarrow> index_event option" where
  "feed_decodec_example bs = (if bs = ''d'' then Some (del_event ''b'' ''k'' 3000) else if bs = ''u'' then Some (unknown_event ''b'' ''k'' 4000)
     else Some (put_event ''b'' ''k'' feed_entry_example))"

definition etag_parser_example :: "string \<Rightarrow> etag option" where
  "etag_parser_example s = (if s = etag_to_wire (Strong ''t'') then Some (Strong ''t'') else None)"

lemma wire_stamp_example: "wire_stamp 2000 = 2000" "wire_stamp 3000 = 3000"
  by (simp_all add: wire_stamp_in_range u64_max_def)

lemma carries_example:
  "carries feed_codec_example feed_decodec_example (put_event ''b'' ''k'' feed_entry_example)"
  "carries feed_codec_example feed_decodec_example (del_event ''b'' ''k'' 3000)"
  "carries feed_codec_example feed_decodec_example (unknown_event ''b'' ''k'' 4000)"
  by (simp_all add: carries_def feed_codec_example_def feed_decodec_example_def put_event_def del_event_def unknown_event_def
      op_unknown_def feed_entry_example_def)

lemma unknown_fences_everywhere_witness:
  "\<forall>lay. \<exists>w' token p' token'. index_unknown key_index_default ''b'' ''k'' 4000 feed_cut_example
        = Some (w', token, unknown_event ''b'' ''k'' 4000)
      \<and> received lay etag_parser_example feed_decodec_example key_index_default feed_cut_example
          (encode_event feed_codec_example (unknown_event ''b'' ''k'' 4000)) = Some (p', Some token')
      \<and> uncertain_key_is_current w' ''b'' ''k'' token \<and> uncertain_key_is_current p' ''b'' ''k'' token'
      \<and> live w' = live key_index_default \<and> dead w' = dead key_index_default
      \<and> live p' = live key_index_default \<and> dead p' = dead key_index_default"
proof
  fix lay
  have "snd (note_native_cut key_index_default feed_cut_example)"
    using fresh_takes_write by (simp add: takes_write_def)
  moreover have "epoch_of key_index_default ''b'' < u64_max"
    by (simp add: epoch_of_def bucket_entry_def bucket_get_def key_index_default_def bucket_default_def u64_max_def)
  ultimately show "\<exists>w' token p' token'. index_unknown key_index_default ''b'' ''k'' 4000 feed_cut_example
        = Some (w', token, unknown_event ''b'' ''k'' 4000)
      \<and> received lay etag_parser_example feed_decodec_example key_index_default feed_cut_example
          (encode_event feed_codec_example (unknown_event ''b'' ''k'' 4000)) = Some (p', Some token')
      \<and> uncertain_key_is_current w' ''b'' ''k'' token \<and> uncertain_key_is_current p' ''b'' ''k'' token'
      \<and> live w' = live key_index_default \<and> dead w' = dead key_index_default
      \<and> live p' = live key_index_default \<and> dead p' = dead key_index_default"
    by (intro unknown_fences_everywhere carries_example(3))
qed

end
