(* ===== verification/Reads.thy ===== *)
theory Reads
  imports Listing Tier Feed
begin

text \<open>
  The read path of the proxy (\<^verbatim>\<open>src/src/cache/proxy.rs\<close>, \<^verbatim>\<open>src/src/cache/service.rs\<close>): the freshness barrier, the
  final gate, revalidation of cached bodies, and the GET, HEAD and LIST handlers. A handler threads the node's state
  and pauses wherever the code awaits: at each pause the environment's other tasks may change the node in any way. The
  origin, the clock, the feed's waits and the marks other mutations leave on a fill are answers of the environment, one
  per pause. The tiers are what a lookup finds; their eviction is a change by others.
\<close>

section \<open>Requests and answers\<close>

record s3_error =
  se_code :: string
  se_status :: "nat option"

datatype 'a reply = Reply 'a | Refused s3_error | Panicked

datatype etag_condition = CondAny | CondETag etag

datatype s3_range = RangeInt nat "nat option" | RangeSuffix nat

text \<open>The fields of a GET or HEAD request the proxy looks at; the two spell them alike. The read-token header is
  the last one.\<close>

record read_input =
  ri_bucket :: string
  ri_key :: string
  ri_range :: "s3_range option"
  ri_part_number :: "int option"
  ri_version_id :: "string option"
  ri_checksum_mode :: "string option"
  ri_sse_customer_key :: "string option"
  ri_expected_bucket_owner :: "string option"
  ri_if_match :: "etag_condition option"
  ri_if_none_match :: "etag_condition option"
  ri_if_modified_since :: "systime option"
  ri_if_unmodified_since :: "systime option"
  ri_response_content_type :: "string option"
  ri_response_content_disposition :: "string option"
  ri_response_content_encoding :: "string option"
  ri_response_content_language :: "string option"
  ri_response_cache_control :: "string option"
  ri_response_expires :: "systime option"
  ri_read_token :: "string option"

record get_answer = get_output +
  go_storage_class :: "string option"
  go_expires :: "string option"

record head_answer = head_reply +
  hr_storage_class :: "string option"
  hr_expires :: "string option"

record list_request = list_input +
  lr_encoding_type :: "string option"
  lr_fetch_owner :: "bool option"
  lr_expected_bucket_owner :: "string option"
  lr_read_token :: "string option"

text \<open>An answer built here carries the default in every field the cached copy does not have.\<close>

definition get_answer_of :: "get_output \<Rightarrow> get_answer" where
  "get_answer_of out = get_output.extend out \<lparr>go_storage_class = None, go_expires = None\<rparr>"

definition head_answer_of :: "head_reply \<Rightarrow> head_answer" where
  "head_answer_of out = head_reply.extend out \<lparr>hr_storage_class = None, hr_expires = None\<rparr>"

definition head_answer_of_index :: "head_output \<Rightarrow> head_answer" where
  "head_answer_of_index out = \<lparr>hr_content_length = ho_content_length out, hr_content_type = ho_content_type out,
     hr_e_tag = ho_etag out, hr_last_modified = Some (ho_last_modified out), hr_cache_control = cache_control (ho_meta out),
     hr_content_encoding = content_encoding (ho_meta out), hr_content_language = content_language (ho_meta out),
     hr_content_disposition = content_disposition (ho_meta out), hr_accept_ranges = Some (ho_accept_ranges out),
     hr_metadata = user_metadata (ho_meta out), hr_storage_class = None, hr_expires = None\<rparr>"

record observed_object =
  ob_size :: "int option"
  ob_last_modified :: "systime option"
  ob_etag :: "etag option"
  ob_content_type :: "string option"
  ob_storage_class :: string
  ob_meta :: obj_meta

definition class_or_standard :: "string option \<Rightarrow> string" where
  "class_or_standard c = (case c of None \<Rightarrow> standard_class | Some c \<Rightarrow> c)"

definition observed_get :: "get_answer \<Rightarrow> observed_object" where
  "observed_get out = \<lparr>ob_size = go_content_length out, ob_last_modified = go_last_modified out, ob_etag = go_e_tag out,
     ob_content_type = go_content_type out, ob_storage_class = class_or_standard (go_storage_class out),
     ob_meta = \<lparr>cache_control = go_cache_control out, content_disposition = go_content_disposition out,
       content_encoding = go_content_encoding out, content_language = go_content_language out, user_metadata = go_metadata out\<rparr>\<rparr>"

definition observed_head :: "head_answer \<Rightarrow> observed_object" where
  "observed_head out = \<lparr>ob_size = hr_content_length out, ob_last_modified = hr_last_modified out, ob_etag = hr_e_tag out,
     ob_content_type = hr_content_type out, ob_storage_class = class_or_standard (hr_storage_class out),
     ob_meta = \<lparr>cache_control = hr_cache_control out, content_disposition = hr_content_disposition out,
       content_encoding = hr_content_encoding out, content_language = hr_content_language out, user_metadata = hr_metadata out\<rparr>\<rparr>"

section \<open>The node and its environment\<close>

text \<open>What a request can see of the node: the index, the tiers, the body-trust generation and the read licences.\<close>

record node =
  nd_clock :: nat
  nd_index :: key_index_state
  nd_tiers :: "cache_key \<Rightarrow> cached_object option"
  nd_suspect_gen :: nat
  nd_lease_valid :: bool
  nd_healthy :: bool
  nd_recovery :: "recovery_status option"

record read_env =
  re_lay :: layout
  re_sync :: "consistency option"
  re_me :: string
  re_max_obj :: nat
  re_tokens :: token_env
  re_others :: "nat \<Rightarrow> node \<Rightarrow> node"
  re_left :: "nat \<Rightarrow> cache_key \<Rightarrow> cached_object option"
  re_stores :: "nat \<Rightarrow> bool"
  re_now :: "nat \<Rightarrow> systime"
  re_view :: bool
  re_members :: "nat \<Rightarrow> (string \<times> bool option) list"
  re_reached :: "nat \<Rightarrow> bool"
  re_marked :: "nat \<Rightarrow> bool"
  re_get :: "nat \<Rightarrow> read_input \<Rightarrow> s3_error + get_answer"
  re_head :: "nat \<Rightarrow> read_input \<Rightarrow> s3_error + head_answer"
  re_list :: "nat \<Rightarrow> list_request \<Rightarrow> s3_error + list_output"
  re_error_text :: "s3_error \<Rightarrow> string"
  re_http_date :: "systime \<Rightarrow> string option"

definition pause :: "read_env \<Rightarrow> node \<Rightarrow> node" where
  "pause env nd = (re_others env (nd_clock nd) nd)\<lparr>nd_clock := Suc (nd_clock nd)\<rparr>"

text \<open>A tier that fails to delete is only counted: what a lookup still finds then is \<open>re_left\<close>, none when every tier has
  deleted the key. An insert is best effort, and \<open>re_stores\<close> is whether a tier took the body.\<close>

definition tier_invalidate :: "read_env \<Rightarrow> node \<Rightarrow> cache_key \<Rightarrow> node" where
  "tier_invalidate env nd ckey = pause env (nd\<lparr>nd_tiers := (nd_tiers nd)(ckey := re_left env (nd_clock nd) ckey)\<rparr>)"

definition tier_insert :: "read_env \<Rightarrow> node \<Rightarrow> cache_key \<Rightarrow> cached_object \<Rightarrow> node" where
  "tier_insert env nd ckey obj =
     pause env (if re_stores env (nd_clock nd) then nd\<lparr>nd_tiers := (nd_tiers nd)(ckey \<mapsto> obj)\<rparr> else nd)"

definition licensed :: "read_env \<Rightarrow> node \<Rightarrow> bool" where
  "licensed env nd \<longleftrightarrow> (case re_sync env of
       None \<Rightarrow> True
     | Some c \<Rightarrow> may_serve_local (nd_recovery nd) c (nd_lease_valid nd) (nd_healthy nd))"

section \<open>The barrier and the gate\<close>

datatype read_route = RouteLocal | RouteOrigin

text \<open>Every member's advertised head must be reached in the time left: a member is paired with no head, or with
  whether the wait for it succeeded.\<close>

fun reached_all :: "string \<Rightarrow> (string \<times> bool option) list \<Rightarrow> bool" where
  "reached_all me [] = True"
| "reached_all me ((member, head) # rest) =
     (if member = me then reached_all me rest
      else case head of
          None \<Rightarrow> reached_all me rest
        | Some True \<Rightarrow> reached_all me rest
        | Some False \<Rightarrow> False)"

definition await_fresh :: "bool \<Rightarrow> string \<Rightarrow> (string \<times> bool option) list \<Rightarrow> bool" where
  "await_fresh view me members = (if \<not> view then True else reached_all me members)"

definition reached_token :: "string \<Rightarrow> string \<Rightarrow> bool \<Rightarrow> bool \<Rightarrow> bool" where
  "reached_token me header view verified = (case parse_token header of
       None \<Rightarrow> True
     | Some (writer, epoch, seq) \<Rightarrow> if writer = me then True else if \<not> view then False else verified)"

definition read_barrier :: "read_env \<Rightarrow> node \<Rightarrow> string option \<Rightarrow> read_route \<times> node" where
  "read_barrier env nd token =
     (if re_sync env = None then (RouteLocal, nd)
      else if \<not> licensed env nd then (RouteOrigin, nd)
      else
        let fresh = await_fresh (re_view env) (re_me env) (re_members env (nd_clock nd));
            nd = pause env nd
        in if \<not> fresh then (RouteOrigin, nd)
           else case token of
               None \<Rightarrow> (RouteLocal, nd)
             | Some t \<Rightarrow>
                 (if reached_token (re_me env) t (re_view env) (re_reached env (nd_clock nd)) then RouteLocal else RouteOrigin,
                  pause env nd))"

record read_fence =
  rf_recovery_generation :: "nat option"
  rf_body_generation :: nat

definition local_read_fence :: "read_env \<Rightarrow> node \<Rightarrow> read_fence" where
  "local_read_fence env nd = \<lparr>rf_recovery_generation = (if re_sync env = None then None else map_option rs_generation (nd_recovery nd)),
     rf_body_generation = nd_suspect_gen nd\<rparr>"

definition local_read_gate_now :: "read_env \<Rightarrow> node \<Rightarrow> read_fence \<Rightarrow> bool" where
  "local_read_gate_now env nd fence \<longleftrightarrow> nd_suspect_gen nd = rf_body_generation fence
     \<and> (case re_sync env of
          None \<Rightarrow> True
        | Some c \<Rightarrow> may_serve_local_in_generation (nd_recovery nd) (rf_recovery_generation fence) c (nd_lease_valid nd) (nd_healthy nd))"

section \<open>What the index says\<close>

definition key_uncertain :: "node \<Rightarrow> cache_key \<Rightarrow> bool" where
  "key_uncertain nd ckey \<longleftrightarrow> (case bucket_get (nd_index nd) (fst ckey) of
       None \<Rightarrow> False
     | Some b \<Rightarrow> map_of (bs_uncertain_keys b) (snd ckey) \<noteq> None)"

definition index_size :: "node \<Rightarrow> cache_key \<Rightarrow> int option" where
  "index_size nd ckey = Option.bind (bucket_get (nd_index nd) (fst ckey)) (\<lambda>b. Option.bind (kr_get (bs_keys b) (snd ckey)) e_size)"

definition is_synced :: "node \<Rightarrow> string \<Rightarrow> bool" where
  "is_synced nd bucket = (case bucket_get (nd_index nd) bucket of None \<Rightarrow> False | Some b \<Rightarrow> bs_synced b)"

definition list_from_index :: "read_env \<Rightarrow> node \<Rightarrow> list_input \<Rightarrow> string option \<Rightarrow> list_output option" where
  "list_from_index env nd inp resume_after =
     (case bucket_get (nd_index nd) (li_bucket inp) of
        Some b \<Rightarrow> if bs_uncertain_keys b \<noteq> [] then None
          else list_objects_v2_from_index (re_tokens env) (Some (bs_keys b)) inp resume_after
      | None \<Rightarrow> list_objects_v2_from_index (re_tokens env) None inp resume_after)"

definition head_from_index :: "node \<Rightarrow> cache_key \<Rightarrow> indexed_head" where
  "head_from_index nd ckey = head_object_from_index (map_option bs_keys (bucket_get (nd_index nd) (fst ckey))) (snd ckey)"

definition index_404_trustworthy :: "read_env \<Rightarrow> bool" where
  "index_404_trustworthy env \<longleftrightarrow> re_sync env = None"

datatype body_match = Match | MissingIdentity | EtagMismatch | TimestampMismatch

definition BODY_MTIME_SLACK :: int where
  "BODY_MTIME_SLACK = nanos_per_sec"

definition compare_entry_body :: "obj_entry \<Rightarrow> cached_object \<Rightarrow> body_match" where
  "compare_entry_body e obj = (case (e_etag e, co_e_tag obj) of
       (Some indexed, Some cached) \<Rightarrow> (case co_last_modified obj of
           None \<Rightarrow> MissingIdentity
         | Some filled_at \<Rightarrow>
             let floor = (case systime_checked_sub (e_last_modified e) BODY_MTIME_SLACK of None \<Rightarrow> e_last_modified e | Some f \<Rightarrow> f)
             in if indexed \<noteq> cached then EtagMismatch
                else if floor > filled_at then TimestampMismatch
                else Match)
     | _ \<Rightarrow> MissingIdentity)"

section \<open>Observations\<close>

text \<open>\<^verbatim>\<open>unix_timestamp\<close> rounds down to whole seconds.\<close>

definition observe :: "read_env \<Rightarrow> node \<Rightarrow> cache_key \<Rightarrow> observed_object \<Rightarrow> node" where
  "observe env nd ckey ob =
     (let fill = \<lparr>f_size = ob_size ob, f_etag = ob_etag ob, f_content_type = ob_content_type ob, f_meta = ob_meta ob\<rparr> in
      case complete_entry (re_lay env) (nd_index nd) (fst ckey) (snd ckey) fill of
        (st, NotIndexed) \<Rightarrow>
          let e = \<lparr>e_size = ob_size ob,
                e_last_modified = (case Option.bind (ob_last_modified ob) (\<lambda>t. origin_time (t div nanos_per_sec)) of
                    None \<Rightarrow> re_now env (nd_clock nd) | Some t \<Rightarrow> t),
                e_etag = ob_etag ob, e_storage_class = ob_storage_class ob, e_content_type = ob_content_type ob,
                e_meta = Some (ob_meta ob)\<rparr>
          in nd\<lparr>nd_index := fst (apply_observed_put (re_lay env) st (fst ckey) (snd ckey) e)\<rparr>
      | (st, _) \<Rightarrow> nd\<lparr>nd_index := st\<rparr>)"

definition index_size_only :: "read_env \<Rightarrow> node \<Rightarrow> cache_key \<Rightarrow> int \<Rightarrow> node" where
  "index_size_only env nd ckey sz =
     (let e = \<lparr>e_size = Some sz, e_last_modified = wire_stamp (re_now env (nd_clock nd)), e_etag = None,
        e_storage_class = standard_class, e_content_type = None, e_meta = None\<rparr>
      in nd\<lparr>nd_index := fst (apply_observed_put (re_lay env) (nd_index nd) (fst ckey) (snd ckey) e)\<rparr>)"

section \<open>Cached bodies\<close>

text \<open>What the index can say of a suspect copy: nothing unless the bucket is synced, else the comparison with the
  row, if there is one.\<close>

definition arbitrate :: "node \<Rightarrow> cache_key \<Rightarrow> cached_object \<Rightarrow> body_match option option" where
  "arbitrate nd ckey obj = (case bucket_get (nd_index nd) (fst ckey) of
       None \<Rightarrow> None
     | Some b \<Rightarrow> if bs_synced b then Some (map_option (\<lambda>e. compare_entry_body e obj) (kr_get (bs_keys b) (snd ckey))) else None)"

definition validated_get :: "read_env \<Rightarrow> node \<Rightarrow> cache_key \<Rightarrow> cached_object option \<times> node" where
  "validated_get env nd ckey =
     (let nd = pause env nd in
      case nd_tiers nd ckey of
        None \<Rightarrow> (None, nd)
      | Some obj \<Rightarrow>
          if re_sync env = None then (Some obj, nd)
          else
            let generation = nd_suspect_gen nd in
            if trusted obj generation then (Some obj, nd)
            else case arbitrate nd ckey obj of
                Some (Some Match) \<Rightarrow>
                  (let obj = mark_trusted obj generation in (Some obj, nd\<lparr>nd_tiers := (nd_tiers nd)(ckey \<mapsto> obj)\<rparr>))
              | Some _ \<Rightarrow> (None, tier_invalidate env nd ckey)
              | None \<Rightarrow> (None, tier_invalidate env nd ckey))"

text \<open>A probe of the fill: the lookup, then the proof of whatever the tiers hold by then.\<close>

definition probe :: "read_env \<Rightarrow> node \<Rightarrow> cache_key \<Rightarrow> cached_object option \<times> node" where
  "probe env nd ckey = (let nd = pause env nd in
     case nd_tiers nd ckey of None \<Rightarrow> (None, nd) | Some _ \<Rightarrow> validated_get env nd ckey)"

definition can_commit :: "read_env \<Rightarrow> node \<Rightarrow> cache_key \<Rightarrow> nat \<Rightarrow> bool" where
  "can_commit env nd ckey generation \<longleftrightarrow> nd_suspect_gen nd = generation \<and> licensed env nd \<and> \<not> key_uncertain nd ckey"

definition on_commit :: "read_env \<Rightarrow> node \<Rightarrow> cache_key \<Rightarrow> nat \<Rightarrow> cached_object \<Rightarrow> observed_object \<Rightarrow> cached_object \<times> node" where
  "on_commit env nd ckey generation obj ob = (mark_trusted obj generation, observe env nd ckey ob)"

definition get_or_fetch ::
  "read_env \<Rightarrow> node \<Rightarrow> cache_key \<Rightarrow> nat \<Rightarrow> (node \<Rightarrow> ('e + cached_object \<times> observed_object) \<times> node)
   \<Rightarrow> ('e + cached_object) \<times> node" where
  "get_or_fetch env nd ckey generation origin =
     (case probe env nd ckey of
        (Some valid, nd) \<Rightarrow> (Inr valid, nd)
      | (None, nd) \<Rightarrow> (case probe env (pause env nd) ckey of
          (Some valid, nd) \<Rightarrow> (Inr valid, nd)
        | (None, nd) \<Rightarrow> (case origin nd of
            (Inl e, nd) \<Rightarrow> (Inl e, nd)
          | (Inr (obj, ob), nd) \<Rightarrow>
              let nd = pause env nd in
              if \<not> re_marked env (nd_clock nd) \<and> can_commit env nd ckey generation
              then (case on_commit env nd ckey generation obj ob of (obj, nd) \<Rightarrow> (Inr obj, tier_insert env nd ckey obj))
              else (Inr obj, nd))))"

section \<open>GET\<close>

datatype cached_range = CachedInt nat "nat option" | CachedSuffix nat

definition cached_range_from_request :: "bool \<Rightarrow> s3_range option \<Rightarrow> cached_range option" where
  "cached_range_from_request unconditional rng = (case (unconditional, rng) of
       (True, Some (RangeInt first last_byte)) \<Rightarrow> Some (CachedInt first last_byte)
     | (True, Some (RangeSuffix len)) \<Rightarrow> if len > 0 then Some (CachedSuffix len) else None
     | _ \<Rightarrow> None)"

definition cached_slice :: "cached_range \<Rightarrow> cached_object \<Rightarrow> rust_panic + get_output option" where
  "cached_slice rng obj = (case rng of
       CachedInt first last_byte \<Rightarrow> to_get_range obj first last_byte
     | CachedSuffix len \<Rightarrow> to_get_suffix obj len)"

definition reply_of :: "s3_error + 'a \<Rightarrow> 'a reply" where
  "reply_of r = (case r of Inl e \<Rightarrow> Refused e | Inr a \<Rightarrow> Reply a)"

definition forward_get :: "read_env \<Rightarrow> node \<Rightarrow> read_input \<Rightarrow> get_answer reply \<times> node" where
  "forward_get env nd req = (reply_of (re_get env (nd_clock nd) req), pause env nd)"

datatype fill_error = FillOrigin s3_error | Uncacheable get_answer

definition internal_error :: s3_error where
  "internal_error = \<lparr>se_code = ''InternalError'', se_status = Some 500\<rparr>"

definition declared_length :: "get_answer \<Rightarrow> int" where
  "declared_length resp = (case go_content_length resp of None \<Rightarrow> -1 | Some n \<Rightarrow> n)"

definition fill_origin ::
  "read_env \<Rightarrow> read_input \<Rightarrow> node \<Rightarrow> (fill_error + cached_object \<times> observed_object) \<times> node" where
  "fill_origin env req nd =
     (case re_get env (nd_clock nd) req of
        Inl e \<Rightarrow> (Inl (FillOrigin e), pause env nd)
      | Inr resp \<Rightarrow>
          let nd = pause env nd; len = declared_length resp in
          if len < 0 \<or> nat len > re_max_obj env then (Inl (Uncacheable resp), nd)
          else case go_body resp of
              None \<Rightarrow> (Inl (Uncacheable resp), nd)
            | Some body \<Rightarrow> (case buffer_body body (re_max_obj env) of
                None \<Rightarrow> (Inl (FillOrigin internal_error), pause env nd)
              | Some bs \<Rightarrow> (Inr (from_get (get_output.truncate resp) bs, observed_get resp), pause env nd)))"

definition fill_whole_get ::
  "read_env \<Rightarrow> node \<Rightarrow> read_input \<Rightarrow> cache_key \<Rightarrow> read_fence \<Rightarrow> get_answer reply \<times> node" where
  "fill_whole_get env nd req ckey fence =
     (case get_or_fetch env nd ckey (nd_suspect_gen nd) (fill_origin env req) of
        (Inr obj, nd) \<Rightarrow>
          if local_read_gate_now env nd fence then (Reply (get_answer_of (to_get obj)), nd) else forward_get env nd req
      | (Inl (FillOrigin e), nd) \<Rightarrow> (Refused e, nd)
      | (Inl (Uncacheable resp), nd) \<Rightarrow> (Reply resp, nd))"

text \<open>The promotion's errors are texts: the origin's own, or an oversize refusal the index learns a size from.\<close>

definition decimal_int :: "int \<Rightarrow> string" where
  "decimal_int i = (if i < 0 then CHR ''-'' # decimal (nat (- i)) else decimal (nat i))"

definition parse_i64 :: "string \<Rightarrow> int option" where
  "parse_i64 s = (case s of
       [] \<Rightarrow> None
     | c # rest \<Rightarrow>
         let negative = (c = CHR ''-''); digits = (if c = CHR ''-'' \<or> c = CHR ''+'' then rest else s);
             v = (if negative then - int (undecimal digits) else int (undecimal digits))
         in if digits = [] \<or> (\<exists>d \<in> set digits. of_char d < (48 :: nat) \<or> of_char d > (57 :: nat)) then None
            else if v < - (2 ^ 63) \<or> v > 2 ^ 63 - 1 then None else Some v)"

definition oversize_text :: "int \<Rightarrow> string" where
  "oversize_text declared = ''oversize '' @ decimal_int declared"

definition refused_size :: "string \<Rightarrow> int option" where
  "refused_size e = Option.bind (strip_prefix ''oversize '' e) (\<lambda>r. parse_i64 (takeWhile (\<lambda>c. c \<noteq> CHR '' '') r))"

definition promote_origin ::
  "read_env \<Rightarrow> read_input \<Rightarrow> node \<Rightarrow> (string + cached_object \<times> observed_object) \<times> node" where
  "promote_origin env whole nd =
     (case re_get env (nd_clock nd) whole of
        Inl e \<Rightarrow> (Inl (re_error_text env e), pause env nd)
      | Inr resp \<Rightarrow>
          let nd = pause env nd; declared = declared_length resp in
          if declared < 0 \<or> nat declared > re_max_obj env then (Inl (oversize_text declared), nd)
          else case go_body resp of
              None \<Rightarrow> (Inr (from_get (get_output.truncate resp) [], observed_get resp), nd)
            | Some body \<Rightarrow> (case buffer_body body (re_max_obj env) of
                None \<Rightarrow> (Inl (oversize_text declared @ '' (body past declared length)''), pause env nd)
              | Some bs \<Rightarrow> (Inr (from_get (get_output.truncate resp) bs, observed_get resp), pause env nd)))"

definition promote_range ::
  "read_env \<Rightarrow> node \<Rightarrow> cache_key \<Rightarrow> read_input \<Rightarrow> nat \<Rightarrow> nat option \<Rightarrow> (rust_panic + get_output option) \<times> node" where
  "promote_range env nd ckey req first last_byte =
     (case get_or_fetch env nd ckey (nd_suspect_gen nd) (promote_origin env (req\<lparr>ri_range := None\<rparr>)) of
        (Inr obj, nd) \<Rightarrow> (to_get_range obj first last_byte, nd)
      | (Inl e, nd) \<Rightarrow> (Inr None, case refused_size e of
            Some sz \<Rightarrow> if sz \<ge> 0 then index_size_only env nd ckey sz else nd
          | None \<Rightarrow> nd))"

definition origin_only_read :: "read_input \<Rightarrow> bool" where
  "origin_only_read req \<longleftrightarrow> ri_version_id req \<noteq> None \<or> ri_checksum_mode req \<noteq> None \<or> ri_sse_customer_key req \<noteq> None
     \<or> ri_expected_bucket_owner req \<noteq> None"

definition unconditional_read :: "read_input \<Rightarrow> bool" where
  "unconditional_read req \<longleftrightarrow> \<not> origin_only_read req \<and> ri_part_number req = None \<and> ri_if_match req = None
     \<and> ri_if_none_match req = None \<and> ri_if_modified_since req = None \<and> ri_if_unmodified_since req = None"

definition ckey_of :: "read_input \<Rightarrow> cache_key" where
  "ckey_of req = (ri_bucket req, ri_key req)"

definition promote_or_forward ::
  "read_env \<Rightarrow> node \<Rightarrow> read_input \<Rightarrow> read_fence \<Rightarrow> bool \<Rightarrow> cached_range \<Rightarrow> get_answer reply \<times> node" where
  "promote_or_forward env nd req fence local_ok rng =
     (let small = (case index_size nd (ckey_of req) of None \<Rightarrow> False | Some sz \<Rightarrow> sz \<ge> 0 \<and> nat sz \<le> re_max_obj env) in
      case rng of
        CachedInt first last_byte \<Rightarrow>
          if local_ok \<and> small then
            (case promote_range env nd (ckey_of req) req first last_byte of
               (Inl Panic, nd) \<Rightarrow> (Panicked, nd)
             | (Inr (Some out), nd) \<Rightarrow>
                 if local_read_gate_now env nd fence then (Reply (get_answer_of out), nd) else forward_get env nd req
             | (Inr None, nd) \<Rightarrow> forward_get env nd req)
          else forward_get env nd req
      | CachedSuffix _ \<Rightarrow> forward_get env nd req)"

definition serve_range ::
  "read_env \<Rightarrow> node \<Rightarrow> read_input \<Rightarrow> read_fence \<Rightarrow> bool \<Rightarrow> cached_range \<Rightarrow> get_answer reply \<times> node" where
  "serve_range env nd req fence local_ok rng =
     (case (if local_ok then validated_get env nd (ckey_of req) else (None, nd)) of
        (None, nd) \<Rightarrow> promote_or_forward env nd req fence local_ok rng
      | (Some obj, nd) \<Rightarrow> (case cached_slice rng obj of
            Inl Panic \<Rightarrow> (Panicked, nd)
          | Inr None \<Rightarrow> promote_or_forward env nd req fence local_ok rng
          | Inr (Some out) \<Rightarrow>
              if local_read_gate_now env nd fence then (Reply (get_answer_of out), nd)
              else promote_or_forward env nd req fence local_ok rng))"

definition serve_whole ::
  "read_env \<Rightarrow> node \<Rightarrow> read_input \<Rightarrow> read_fence \<Rightarrow> bool \<Rightarrow> bool \<Rightarrow> get_answer reply \<times> node" where
  "serve_whole env nd req fence local_ok cacheable =
     (case (if local_ok \<and> cacheable then validated_get env nd (ckey_of req) else (None, nd)) of
        (hit, nd) \<Rightarrow>
          if hit \<noteq> None \<and> local_read_gate_now env nd fence then (Reply (get_answer_of (to_get (the hit))), nd)
          else if \<not> cacheable \<or> \<not> local_ok then forward_get env nd req
          else
            let known_oversized = (case index_size nd (ckey_of req) of None \<Rightarrow> False | Some sz \<Rightarrow> sz \<ge> 0 \<and> nat sz > re_max_obj env)
            in if known_oversized then forward_get env nd req
               else fill_whole_get env nd req (ckey_of req) fence)"

definition local_route :: "read_env \<Rightarrow> node \<Rightarrow> cache_key \<Rightarrow> string option \<Rightarrow> bool \<times> node" where
  "local_route env nd ckey token =
     (if key_uncertain nd ckey then (False, nd)
      else case read_barrier env nd token of (route, nd) \<Rightarrow> (route = RouteLocal, nd))"

definition serve_get :: "read_env \<Rightarrow> node \<Rightarrow> read_input \<Rightarrow> get_answer reply \<times> node" where
  "serve_get env nd req =
     (let fence = local_read_fence env nd;
          unconditional = unconditional_read req;
          cacheable = (unconditional \<and> ri_range req = None);
          rng = cached_range_from_request unconditional (ri_range req)
      in case (if cacheable \<or> rng \<noteq> None then local_route env nd (ckey_of req) (ri_read_token req) else (True, nd)) of
        (local_ok, nd) \<Rightarrow> (case rng of
            Some r \<Rightarrow> serve_range env nd req fence local_ok r
          | None \<Rightarrow> serve_whole env nd req fence local_ok cacheable))"

section \<open>HEAD\<close>

definition no_such_key :: s3_error where
  "no_such_key = \<lparr>se_code = ''NoSuchKey'', se_status = Some 404\<rparr>"

definition forward_head :: "read_env \<Rightarrow> node \<Rightarrow> read_input \<Rightarrow> bool \<Rightarrow> head_answer reply \<times> node" where
  "forward_head env nd req eligible =
     (case re_head env (nd_clock nd) req of
        Inl e \<Rightarrow> (Refused e, pause env nd)
      | Inr resp \<Rightarrow>
          let nd = pause env nd in
          if eligible then
            let nd = pause env nd in
            (Reply resp, if \<not> re_marked env (nd_clock nd) then observe env nd (ckey_of req) (observed_head resp) else nd)
          else (Reply resp, nd))"

definition serve_head :: "read_env \<Rightarrow> node \<Rightarrow> read_input \<Rightarrow> head_answer reply \<times> node" where
  "serve_head env nd req =
     (let fence = local_read_fence env nd;
          eligible = (ri_range req = None \<and> unconditional_read req)
      in case (if eligible then local_route env nd (ckey_of req) (ri_read_token req) else (False, nd)) of
        (local_ok, nd) \<Rightarrow>
          if \<not> local_ok then forward_head env nd req eligible
          else case validated_get env nd (ckey_of req) of (hit, nd) \<Rightarrow>
            if hit \<noteq> None \<and> local_read_gate_now env nd fence then (Reply (head_answer_of (to_head (the hit))), nd)
            else if is_synced nd (ri_bucket req) \<and> local_read_gate_now env nd fence then
              (case head_from_index nd (ckey_of req) of
                 Faithful out \<Rightarrow> (Reply (head_answer_of_index out), nd)
               | AbsentHead \<Rightarrow> if index_404_trustworthy env then (Refused no_such_key, nd) else forward_head env nd req eligible
               | IncompleteHead \<Rightarrow> forward_head env nd req eligible)
            else forward_head env nd req eligible)"

section \<open>LIST\<close>

definition invalid_argument :: s3_error where
  "invalid_argument = \<lparr>se_code = ''InvalidArgument'', se_status = Some 400\<rparr>"

definition forward_list :: "read_env \<Rightarrow> node \<Rightarrow> list_request \<Rightarrow> list_output reply \<times> node" where
  "forward_list env nd req = (reply_of (re_list env (nd_clock nd) req), pause env nd)"

definition list_passthrough :: "read_env \<Rightarrow> node \<Rightarrow> list_request \<Rightarrow> continuation \<Rightarrow> list_output reply \<times> node" where
  "list_passthrough env nd req continuation = (case continuation of
       CLocal token cursor \<Rightarrow>
         (case rewrite_for_origin (list_input.truncate req) token cursor of (inp, envelope) \<Rightarrow>
            case forward_list env nd (list_input.extend inp (list_input.more req)) of
              (r, nd) \<Rightarrow> (map_reply (envelope_restore envelope) r, nd))
     | _ \<Rightarrow> forward_list env nd req)"

definition list_origin_only :: "list_request \<Rightarrow> bool" where
  "list_origin_only req \<longleftrightarrow> lr_encoding_type req \<noteq> None \<or> lr_fetch_owner req = Some True \<or> lr_expected_bucket_owner req \<noteq> None"

definition resume_key :: "continuation \<Rightarrow> string option" where
  "resume_key continuation = (case continuation of CLocal _ cursor \<Rightarrow> Some cursor | _ \<Rightarrow> None)"

definition list_objects_v2 :: "read_env \<Rightarrow> node \<Rightarrow> list_request \<Rightarrow> list_output reply \<times> node" where
  "list_objects_v2 env nd req =
     (let fence = local_read_fence env nd in
      case classify (re_tokens env) (list_input.truncate req) of
        Inl _ \<Rightarrow> (Refused invalid_argument, nd)
      | Inr continuation \<Rightarrow>
          if continuation = COrigin then forward_list env nd req
          else case (if \<not> list_origin_only req \<and> is_synced nd (li_bucket req)
                     then (case read_barrier env nd (lr_read_token req) of (route, nd) \<Rightarrow> (route = RouteLocal, nd))
                     else (False, nd)) of
            (local_ok, nd) \<Rightarrow>
              (case (if local_ok then list_from_index env nd (list_input.truncate req) (resume_key continuation) else None) of
                 Some out \<Rightarrow> if local_read_gate_now env nd fence then (Reply out, nd)
                   else list_passthrough env nd req continuation
               | None \<Rightarrow> list_passthrough env nd req continuation))"

section \<open>Response overrides\<close>

record response_overrides =
  ov_content_type :: "string option"
  ov_content_disposition :: "string option"
  ov_content_encoding :: "string option"
  ov_content_language :: "string option"
  ov_cache_control :: "string option"
  ov_expires :: "string option"

definition take_overrides :: "read_env \<Rightarrow> read_input \<Rightarrow> response_overrides \<times> read_input" where
  "take_overrides env req =
     (\<lparr>ov_content_type = ri_response_content_type req, ov_content_disposition = ri_response_content_disposition req,
       ov_content_encoding = ri_response_content_encoding req, ov_content_language = ri_response_content_language req,
       ov_cache_control = ri_response_cache_control req,
       ov_expires = Option.bind (ri_response_expires req) (re_http_date env)\<rparr>,
      req\<lparr>ri_response_content_type := None, ri_response_content_disposition := None, ri_response_content_encoding := None,
        ri_response_content_language := None, ri_response_cache_control := None, ri_response_expires := None\<rparr>)"

definition override :: "'a option \<Rightarrow> 'a option \<Rightarrow> 'a option" where
  "override value field = (if value \<noteq> None then value else field)"

definition apply_overrides_get :: "response_overrides \<Rightarrow> get_answer \<Rightarrow> get_answer" where
  "apply_overrides_get ov out = out\<lparr>go_content_type := override (ov_content_type ov) (go_content_type out),
     go_content_disposition := override (ov_content_disposition ov) (go_content_disposition out),
     go_content_encoding := override (ov_content_encoding ov) (go_content_encoding out),
     go_content_language := override (ov_content_language ov) (go_content_language out),
     go_cache_control := override (ov_cache_control ov) (go_cache_control out),
     go_expires := override (ov_expires ov) (go_expires out)\<rparr>"

definition apply_overrides_head :: "response_overrides \<Rightarrow> head_answer \<Rightarrow> head_answer" where
  "apply_overrides_head ov out = out\<lparr>hr_content_type := override (ov_content_type ov) (hr_content_type out),
     hr_content_disposition := override (ov_content_disposition ov) (hr_content_disposition out),
     hr_content_encoding := override (ov_content_encoding ov) (hr_content_encoding out),
     hr_content_language := override (ov_content_language ov) (hr_content_language out),
     hr_cache_control := override (ov_cache_control ov) (hr_cache_control out),
     hr_expires := override (ov_expires ov) (hr_expires out)\<rparr>"

definition get_object :: "read_env \<Rightarrow> node \<Rightarrow> read_input \<Rightarrow> get_answer reply \<times> node" where
  "get_object env nd req = (case take_overrides env req of (ov, req) \<Rightarrow>
     case serve_get env nd req of (r, nd) \<Rightarrow> (map_reply (apply_overrides_get ov) r, nd))"

definition head_object :: "read_env \<Rightarrow> node \<Rightarrow> read_input \<Rightarrow> head_answer reply \<times> node" where
  "head_object env nd req = (case take_overrides env req of (ov, req) \<Rightarrow>
     case serve_head env nd req of (r, nd) \<Rightarrow> (map_reply (apply_overrides_head ov) r, nd))"

end
