(* ===== verification/Writes.thy ===== *)
theory Writes
  imports Reads
begin

text \<open>
  The write path of the proxy (\<^verbatim>\<open>src/src/cache/mutation.rs\<close>, \<^verbatim>\<open>src/src/cache/copy.rs\<close>, \<^verbatim>\<open>src/src/cache/stop.rs\<close> and the
  write half of \<^verbatim>\<open>src/src/cache/proxy.rs\<close>): PUT, DELETE, batch delete, multipart completion and copy, what they index,
  publish and cache, and the background reconciliation of a key whose state is unknown. A handler threads the node,
  the events this request has published and the reconciliations it has started; as on the read path, the other tasks
  may change the node at each pause. The origin's answers, the position the feed assigns and the outcome of a cluster
  wait are answers of the environment.
\<close>

section \<open>Requests and answers\<close>

record put_input =
  pi_bucket :: string
  pi_key :: string
  pi_body :: "stream option"
  pi_content_length :: "int option"
  pi_content_type :: "string option"
  pi_cache_control :: "string option"
  pi_content_disposition :: "string option"
  pi_content_encoding :: "string option"
  pi_content_language :: "string option"
  pi_metadata :: "metadata option"
  pi_storage_class :: "string option"
  pi_if_match :: "etag_condition option"
  pi_if_none_match :: "etag_condition option"
  pi_sse_customer_algorithm :: "string option"
  pi_sse_customer_key :: "string option"
  pi_sse_customer_key_md5 :: "string option"
  pi_write_offset_bytes :: "int option"
  pi_object_lock_mode :: "string option"
  pi_object_lock_retain_until_date :: "systime option"
  pi_object_lock_legal_hold_status :: "string option"
  pi_tagging :: "string option"
  pi_website_redirect_location :: "string option"
  pi_expires :: "systime option"

record put_result =
  pr_e_tag :: "etag option"
  pr_write_token :: "string option"

record delete_input =
  di_bucket :: string
  di_key :: string
  di_version_id :: "string option"

record delete_result =
  dr_write_token :: "string option"

record batch_input =
  bi_bucket :: string
  bi_objects :: "(string \<times> string option) list"
  bi_quiet :: "bool option"

record batch_result =
  br_deleted :: "string option list option"
  br_errors :: "string option list option"
  br_write_token :: "string option"

record complete_input =
  ci_bucket :: string
  ci_key :: string

datatype copy_source = SourceBucket string string "string option" | SourceOther

text \<open>\<^verbatim>\<open>pc_if_match\<close> and \<^verbatim>\<open>pc_if_none_match\<close> are the request's own headers, which the destination conditions restore.\<close>

record copy_input =
  pc_bucket :: string
  pc_key :: string
  pc_source :: copy_source
  pc_storage_class :: "string option"
  pc_if_match :: "string option"
  pc_if_none_match :: "string option"

record copy_result =
  cr_e_tag :: "etag option"
  cr_write_token :: "string option"

text \<open>What the SDK's own HEAD reports: a time is whole seconds and nanoseconds, a tag is its raw text.\<close>

record sdk_head =
  sh_content_length :: "int option"
  sh_last_modified :: "(int \<times> nat) option"
  sh_e_tag :: "string option"
  sh_storage_class :: "string option"
  sh_content_type :: "string option"
  sh_meta :: obj_meta

datatype sdk_error = SdkNotFound | SdkOther

section \<open>The environment and the state of a request\<close>

record write_env = read_env +
  we_position :: "nat \<Rightarrow> native_cut"
  we_has_leases :: bool
  we_coherent :: "nat \<Rightarrow> coherence_outcome"
  we_insured :: "nat \<Rightarrow> bool"
  we_acked :: "nat \<Rightarrow> bool"
  we_parse_etag :: "string \<Rightarrow> etag option"
  we_put :: "nat \<Rightarrow> put_input \<Rightarrow> s3_error + put_result"
  we_delete :: "nat \<Rightarrow> delete_input \<Rightarrow> s3_error + delete_result"
  we_batch :: "nat \<Rightarrow> batch_input \<Rightarrow> s3_error + batch_result"
  we_complete :: "nat \<Rightarrow> complete_input \<Rightarrow> s3_error + put_result"
  we_copy :: "nat \<Rightarrow> copy_input \<Rightarrow> s3_error + copy_result"
  we_delete_bucket :: "nat \<Rightarrow> string \<Rightarrow> s3_error + unit"
  we_sdk_head :: "nat \<Rightarrow> cache_key \<Rightarrow> sdk_error + sdk_head"

record write_state =
  ws_node :: node
  ws_feed :: "index_event list"
  ws_reconciling :: "(cache_key \<times> nat) list"

abbreviation renv :: "write_env \<Rightarrow> read_env" where
  "renv env \<equiv> read_env.truncate env"

definition ws_clock :: "write_state \<Rightarrow> nat" where
  "ws_clock s = nd_clock (ws_node s)"

definition ws_pause :: "write_env \<Rightarrow> write_state \<Rightarrow> write_state" where
  "ws_pause env s = s\<lparr>ws_node := pause (renv env) (ws_node s)\<rparr>"

definition ws_invalidate :: "write_env \<Rightarrow> write_state \<Rightarrow> cache_key \<Rightarrow> write_state" where
  "ws_invalidate env s ckey = s\<lparr>ws_node := tier_invalidate (renv env) (ws_node s) ckey\<rparr>"

definition set_index :: "write_state \<Rightarrow> key_index_state \<Rightarrow> write_state" where
  "set_index s st = s\<lparr>ws_node := (ws_node s)\<lparr>nd_index := st\<rparr>\<rparr>"

definition index_of :: "write_state \<Rightarrow> key_index_state" where
  "index_of s = nd_index (ws_node s)"

section \<open>Which failures leave the outcome unknown\<close>

text \<open>The status an error carries, or none when the response was unavailable.\<close>

definition uncertain_mutation_error :: "s3_error \<Rightarrow> bool \<Rightarrow> string option" where
  "uncertain_mutation_error e locally_vouched = (case se_status e of
       Some status \<Rightarrow>
         if status = 412 \<and> locally_vouched then Some ''origin rejected a locally-vouched precondition''
         else if 500 \<le> status \<and> status \<le> 599 \<or> status = 408 then Some ''origin returned an ambiguous server failure''
         else None
     | None \<Rightarrow> Some ''origin response was unavailable'')"

definition uncertain_completion_error :: "s3_error \<Rightarrow> string option" where
  "uncertain_completion_error e = (case uncertain_mutation_error e False of
       Some reason \<Rightarrow> Some reason
     | None \<Rightarrow> if se_code e = ''NoSuchUpload'' then Some ''the upload is gone; an earlier attempt may have completed it'' else None)"

definition copy_conflict_needs_reconcile :: "s3_error \<Rightarrow> bool \<Rightarrow> bool" where
  "copy_conflict_needs_reconcile e create_only \<longleftrightarrow> create_only \<and> se_status e = Some 412"

definition service_unavailable :: s3_error where
  "service_unavailable = \<lparr>se_code = ''ServiceUnavailable'', se_status = Some 503\<rparr>"

section \<open>Waiting for the cluster\<close>

definition ack_write :: "write_env \<Rightarrow> nat \<Rightarrow> consistency \<Rightarrow> bool" where
  "ack_write env t c = guaranteed (wait_cluster_applied c (we_has_leases env) (we_coherent env t) (we_insured env t) (we_acked env t))"

definition receipt_header :: "native_cut \<Rightarrow> string" where
  "receipt_header position = token_header (nc_writer position) (nc_epoch position) (nc_sequence position)"

definition await_cluster :: "write_env \<Rightarrow> write_state \<Rightarrow> native_cut option \<Rightarrow> string option reply \<times> write_state" where
  "await_cluster env s receipt = (case (re_sync env, receipt) of
       (Some c, Some position) \<Rightarrow>
         (if ack_write env (ws_clock s) c then Reply (Some (receipt_header position)) else Refused service_unavailable, ws_pause env s)
     | _ \<Rightarrow> (Reply None, s))"

definition settle_cluster :: "write_env \<Rightarrow> write_state \<Rightarrow> native_cut option \<Rightarrow> write_state" where
  "settle_cluster env s receipt = snd (await_cluster env s receipt)"

text \<open>A token that is not a legal header value is left off: visible ASCII and tabs only.\<close>

definition header_ok :: "string \<Rightarrow> bool" where
  "header_ok v \<longleftrightarrow> (\<forall>c \<in> set v. (32 \<le> (of_char c :: nat) \<and> (of_char c :: nat) < 127) \<or> (of_char c :: nat) = 9)"

definition attached :: "string option \<Rightarrow> string option \<Rightarrow> string option" where
  "attached token old = (case token of Some t \<Rightarrow> if header_ok t then Some t else old | None \<Rightarrow> old)"

section \<open>Recording a write\<close>

definition start_reconcile :: "write_state \<Rightarrow> cache_key \<Rightarrow> nat \<Rightarrow> write_state" where
  "start_reconcile s ckey token = s\<lparr>ws_reconciling := ws_reconciling s @ [(ckey, token)]\<rparr>"

definition publish :: "write_state \<Rightarrow> index_event \<Rightarrow> write_state" where
  "publish s ev = s\<lparr>ws_feed := ws_feed s @ [ev]\<rparr>"

text \<open>\<^const>\<open>None\<close> is the overflow of the fence counter, on which the code panics.\<close>

definition announce_unknown :: "write_env \<Rightarrow> write_state \<Rightarrow> string \<Rightarrow> string \<Rightarrow> (native_cut option \<times> write_state) option" where
  "announce_unknown env s bucket key =
     (if re_sync env = None then
        (case fence_uncertain_key (index_of s) bucket key of
           None \<Rightarrow> None
         | Some (st, token) \<Rightarrow>
             Some (None, ws_invalidate env (start_reconcile (set_index s st) (bucket, key) token) (bucket, key)))
      else
        (case index_unknown (index_of s) bucket key (re_now env (ws_clock s)) (we_position env (ws_clock s)) of
           None \<Rightarrow> None
         | Some (st, token, ev) \<Rightarrow>
             Some (Some (we_position env (ws_clock s)),
               ws_pause env (ws_invalidate env (start_reconcile (publish (set_index s st) ev) (bucket, key) token) (bucket, key)))))"

definition publish_unknown :: "write_env \<Rightarrow> write_state \<Rightarrow> string \<Rightarrow> string \<Rightarrow> write_state option" where
  "publish_unknown env s bucket key =
     map_option (\<lambda>(receipt, s). settle_cluster env s receipt) (announce_unknown env s bucket key)"

definition record_put_write :: "write_env \<Rightarrow> write_state \<Rightarrow> string \<Rightarrow> string \<Rightarrow> obj_entry \<Rightarrow> string option reply \<times> write_state" where
  "record_put_write env s bucket key e =
     (if e_etag e = None \<and> e_size e = None then
        (case announce_unknown env s bucket key of
           None \<Rightarrow> (Panicked, s)
         | Some (receipt, s) \<Rightarrow> await_cluster env s receipt)
      else
        let e = e\<lparr>e_last_modified := wire_stamp (re_now env (ws_clock s))\<rparr> in
        if re_sync env = None then
          (Reply None, set_index s (fst (apply_put (re_lay env) (index_of s) bucket key e)))
        else
          let position = we_position env (ws_clock s) in
          case index_put (re_lay env) (index_of s) bucket key e position of (st, changed, ev) \<Rightarrow>
            await_cluster env (ws_pause env (publish (set_index s st) ev)) (Some position))"

definition record_del :: "write_env \<Rightarrow> write_state \<Rightarrow> string \<Rightarrow> string \<Rightarrow> native_cut option \<times> write_state" where
  "record_del env s bucket key =
     (let ts = wire_stamp (re_now env (ws_clock s)) in
      if re_sync env = None then (None, set_index s (fst (apply_del (re_lay env) (index_of s) bucket key ts)))
      else
        let position = we_position env (ws_clock s) in
        case index_del (re_lay env) (index_of s) bucket key ts position of (st, ev) \<Rightarrow>
          (Some position, ws_pause env (publish (set_index s st) ev)))"

section \<open>Describing what was written\<close>

definition write_storage_class :: "string option \<Rightarrow> string" where
  "write_storage_class requested = (case requested of None \<Rightarrow> standard_class | Some c \<Rightarrow> c)"

definition observed_entry :: "observed_object option \<Rightarrow> obj_entry" where
  "observed_entry ob = (case ob of
       None \<Rightarrow> \<lparr>e_size = None, e_last_modified = 0, e_etag = None, e_storage_class = standard_class, e_content_type = None, e_meta = None\<rparr>
     | Some ob \<Rightarrow> \<lparr>e_size = ob_size ob, e_last_modified = 0, e_etag = ob_etag ob, e_storage_class = ob_storage_class ob,
         e_content_type = ob_content_type ob, e_meta = Some (ob_meta ob)\<rparr>)"

definition authoritative_head_entry :: "write_env \<Rightarrow> nat \<Rightarrow> sdk_head \<Rightarrow> obj_entry" where
  "authoritative_head_entry env t head = \<lparr>e_size = sh_content_length head,
     e_last_modified = (case Option.bind (sh_last_modified head) (\<lambda>(secs, _). origin_time secs) of None \<Rightarrow> re_now env t | Some m \<Rightarrow> m),
     e_etag = Option.bind (sh_e_tag head) (we_parse_etag env), e_storage_class = class_or_standard (sh_storage_class head),
     e_content_type = sh_content_type head, e_meta = Some (sh_meta head)\<rparr>"

definition sdk_observed :: "write_env \<Rightarrow> sdk_head \<Rightarrow> observed_object" where
  "sdk_observed env head = \<lparr>ob_size = sh_content_length head,
     ob_last_modified = Option.bind (sh_last_modified head) (\<lambda>(secs, nanos). if 0 \<le> secs then Some (secs * nanos_per_sec + int nanos) else None),
     ob_etag = Option.bind (sh_e_tag head) (we_parse_etag env), ob_content_type = sh_content_type head,
     ob_storage_class = class_or_standard (sh_storage_class head), ob_meta = sh_meta head\<rparr>"

text \<open>One HEAD, retried once.\<close>

definition upstream_meta :: "write_env \<Rightarrow> write_state \<Rightarrow> cache_key \<Rightarrow> observed_object option \<times> write_state" where
  "upstream_meta env s ckey = (case we_sdk_head env (ws_clock s) ckey of
       Inr head \<Rightarrow> (Some (sdk_observed env head), ws_pause env s)
     | Inl _ \<Rightarrow>
         let s = ws_pause env s in
         case we_sdk_head env (ws_clock s) ckey of
           Inr head \<Rightarrow> (Some (sdk_observed env head), ws_pause env s)
         | Inl _ \<Rightarrow> (None, ws_pause env s))"

definition put_origin_only :: "put_input \<Rightarrow> bool" where
  "put_origin_only inp \<longleftrightarrow> pi_sse_customer_algorithm inp \<noteq> None \<or> pi_sse_customer_key inp \<noteq> None \<or> pi_sse_customer_key_md5 inp \<noteq> None
     \<or> pi_write_offset_bytes inp \<noteq> None \<or> pi_storage_class inp \<noteq> None \<or> pi_object_lock_mode inp \<noteq> None
     \<or> pi_object_lock_retain_until_date inp \<noteq> None \<or> pi_object_lock_legal_hold_status inp \<noteq> None \<or> pi_tagging inp \<noteq> None
     \<or> pi_website_redirect_location inp \<noteq> None \<or> pi_expires inp \<noteq> None"

definition written_object :: "string option \<Rightarrow> etag \<Rightarrow> obj_meta \<Rightarrow> nat \<Rightarrow> systime \<Rightarrow> get_output" where
  "written_object ct e_tag meta len now = \<lparr>go_body = None, go_content_length = Some (i64_of_len len), go_content_range = None,
     go_content_type = ct, go_e_tag = Some e_tag, go_last_modified = Some now, go_cache_control = cache_control meta,
     go_content_encoding = content_encoding meta, go_content_language = content_language meta,
     go_content_disposition = content_disposition meta, go_accept_ranges = Some ''bytes'', go_metadata = user_metadata meta\<rparr>"

text \<open>The body a PUT may keep, and the request to forward: the same bytes either way. Reading the body is a pause.\<close>

definition buffered_put_body :: "write_env \<Rightarrow> put_input \<Rightarrow> bytes option \<times> put_input" where
  "buffered_put_body env inp =
     (if pi_content_type inp = None \<or> put_origin_only inp then (None, inp)
      else if (case pi_content_length inp of None \<Rightarrow> False | Some len \<Rightarrow> len < 0 \<or> nat len > re_max_obj env) then (None, inp)
      else case pi_body inp of
          None \<Rightarrow> (Some [], inp)
        | Some body \<Rightarrow> (case buffer_or_forward body (re_max_obj env) of
            Whole bs \<Rightarrow> (Some bs, inp\<lparr>pi_body := Some (blob_of bs)\<rparr>)
          | Streamed rest \<Rightarrow> (None, inp\<lparr>pi_body := Some rest\<rparr>)))"

definition locally_vouches_for_put :: "read_env \<Rightarrow> node \<Rightarrow> put_input \<Rightarrow> bool" where
  "locally_vouches_for_put env nd inp =
     (if pi_if_match inp = None \<and> pi_if_none_match inp = None then False
      else if \<not> licensed env nd then False
      else case bucket_get (nd_index nd) (pi_bucket inp) of
          None \<Rightarrow> False
        | Some b \<Rightarrow>
            if \<not> bs_synced b then False
            else if map_of (bs_uncertain_keys b) (pi_key inp) \<noteq> None then False
            else
              let entry = kr_get (bs_keys b) (pi_key inp);
                  if_match_holds = (case pi_if_match inp of
                      None \<Rightarrow> True
                    | Some CondAny \<Rightarrow> entry \<noteq> None
                    | Some (CondETag expected) \<Rightarrow> Option.bind entry e_etag = Some expected);
                  if_none_match_holds = (case pi_if_none_match inp of
                      None \<Rightarrow> True
                    | Some CondAny \<Rightarrow> entry = None
                    | Some (CondETag expected) \<Rightarrow> (case entry of
                        None \<Rightarrow> True
                      | Some e \<Rightarrow> (case e_etag e of None \<Rightarrow> False | Some tag \<Rightarrow> tag \<noteq> expected)))
              in if_match_holds \<and> if_none_match_holds)"

definition lower_char :: "char \<Rightarrow> char" where
  "lower_char c = (let n = (of_char c :: nat) in if 65 \<le> n \<and> n \<le> 90 then char_of (n + 32) else c)"

definition lower_metadata :: "metadata \<Rightarrow> metadata" where
  "lower_metadata m = fold (\<lambda>(k, v) acc. om_insert (map lower_char k) v acc) m []"

definition put_meta :: "put_input \<Rightarrow> obj_meta" where
  "put_meta inp = \<lparr>cache_control = pi_cache_control inp, content_disposition = pi_content_disposition inp,
     content_encoding = pi_content_encoding inp, content_language = pi_content_language inp,
     user_metadata = map_option lower_metadata (pi_metadata inp)\<rparr>"

definition put_entry :: "put_input \<Rightarrow> obj_entry" where
  "put_entry inp = \<lparr>e_size = pi_content_length inp, e_last_modified = 0, e_etag = None,
     e_storage_class = write_storage_class (pi_storage_class inp), e_content_type = pi_content_type inp,
     e_meta = (if pi_content_type inp \<noteq> None then Some (put_meta inp) else None)\<rparr>"

section \<open>The mutation's task\<close>

text \<open>A list of announcements, each keeping the newest receipt.\<close>

fun announce_all :: "write_env \<Rightarrow> write_state \<Rightarrow> string \<Rightarrow> string list \<Rightarrow> native_cut option \<Rightarrow> (native_cut option \<times> write_state) option" where
  "announce_all env s bucket [] receipt = Some (receipt, s)"
| "announce_all env s bucket (key # keys) receipt = (case announce_unknown env s bucket key of
       None \<Rightarrow> None
     | Some (r, s) \<Rightarrow> announce_all env s bucket keys (case r of None \<Rightarrow> receipt | Some _ \<Rightarrow> r))"

text \<open>A task is admitted unless the node is stopping. One that dies leaves whatever state it had reached, and every
  key it touched is announced as unknown.\<close>

definition mutation_tail ::
  "write_env \<Rightarrow> bool \<Rightarrow> (write_state \<Rightarrow> write_state) option \<Rightarrow> write_state \<Rightarrow> string \<Rightarrow> string list
   \<Rightarrow> (write_state \<Rightarrow> 'a reply \<times> write_state) \<Rightarrow> 'a reply \<times> write_state" where
  "mutation_tail env stopping dies s bucket keys work =
     (if stopping then (Refused service_unavailable, s)
      else
        let after = (case dies of
            Some partial \<Rightarrow> (Panicked, partial s)
          | None \<Rightarrow> work s)
        in case after of
            (Panicked, s) \<Rightarrow> (case announce_all env s bucket keys None of
                None \<Rightarrow> (Panicked, s)
              | Some (receipt, s) \<Rightarrow> (Refused internal_error, settle_cluster env s receipt))
          | result \<Rightarrow> result)"

section \<open>PUT\<close>

definition fail_put :: "write_env \<Rightarrow> write_state \<Rightarrow> string \<Rightarrow> string \<Rightarrow> s3_error \<Rightarrow> string option \<Rightarrow> 'a reply \<times> write_state" where
  "fail_put env s bucket key e reason = (case reason of
       None \<Rightarrow> (Refused e, s)
     | Some _ \<Rightarrow> (case publish_unknown env s bucket key of None \<Rightarrow> (Panicked, s) | Some s \<Rightarrow> (Refused e, s)))"

definition keep_written :: "write_env \<Rightarrow> write_state \<Rightarrow> cache_key \<Rightarrow> bytes option \<Rightarrow> etag option \<Rightarrow> string option \<Rightarrow> obj_meta \<Rightarrow> nat \<Rightarrow> write_state" where
  "keep_written env s ckey written tag ct meta generation = (case (written, tag) of
       (Some body, Some e_tag) \<Rightarrow>
         let obj = from_get (written_object ct e_tag meta (length body) (re_now env (ws_clock s))) body
         in s\<lparr>ws_node := tier_insert (renv env) (ws_node s) ckey (mark_trusted obj generation)\<rparr>
     | _ \<Rightarrow> s)"

definition put_tail ::
  "write_env \<Rightarrow> put_input \<Rightarrow> put_input \<Rightarrow> nat \<Rightarrow> bytes option \<Rightarrow> bool \<Rightarrow> write_state \<Rightarrow> put_result reply \<times> write_state" where
  "put_tail env orig inp generation written vouched s =
     (let ckey = (pi_bucket inp, pi_key inp) in
      case we_put env (ws_clock s) inp of
        Inl e \<Rightarrow> fail_put env (ws_pause env s) (pi_bucket inp) (pi_key inp) e (uncertain_mutation_error e vouched)
      | Inr resp \<Rightarrow>
          let e = (put_entry orig)\<lparr>e_etag := pr_e_tag resp\<rparr>;
              s = ws_invalidate env (ws_pause env s) ckey;
              s = keep_written env s ckey written (e_etag e) (pi_content_type orig) (put_meta orig) generation
          in case record_put_write env s (pi_bucket inp) (pi_key inp) e of
              (Reply token, s) \<Rightarrow> (Reply (resp\<lparr>pr_write_token := attached token (pr_write_token resp)\<rparr>), s)
            | (Refused err, s) \<Rightarrow> (Refused err, s)
            | (Panicked, s) \<Rightarrow> (Panicked, s))"

definition put_object ::
  "write_env \<Rightarrow> bool \<Rightarrow> (write_state \<Rightarrow> write_state) option \<Rightarrow> write_state \<Rightarrow> put_input \<Rightarrow> put_result reply \<times> write_state" where
  "put_object env stopping dies s orig =
     (let generation = nd_suspect_gen (ws_node s);
          (written, inp) = (if licensed (renv env) (ws_node s) then buffered_put_body env orig else (None, orig));
          s = ws_pause env s;
          vouched = locally_vouches_for_put (renv env) (ws_node s) inp;
          s = ws_invalidate env s (pi_bucket orig, pi_key orig)
      in mutation_tail env stopping dies s (pi_bucket orig) [pi_key orig] (put_tail env orig inp generation written vouched))"

section \<open>DELETE\<close>

definition record_delete_write :: "write_env \<Rightarrow> write_state \<Rightarrow> string \<Rightarrow> string \<Rightarrow> bool \<Rightarrow> (native_cut option \<times> write_state) option" where
  "record_delete_write env s bucket key versioned =
     (if versioned then announce_unknown env s bucket key else Some (record_del env s bucket key))"

definition delete_tail :: "write_env \<Rightarrow> delete_input \<Rightarrow> write_state \<Rightarrow> delete_result reply \<times> write_state" where
  "delete_tail env inp s =
     (let bucket = di_bucket inp; key = di_key inp in
      case we_delete env (ws_clock s) inp of
        Inl e \<Rightarrow> fail_put env (ws_pause env s) bucket key e (uncertain_mutation_error e False)
      | Inr resp \<Rightarrow>
          let s = ws_invalidate env (ws_pause env s) (bucket, key) in
          case record_delete_write env s bucket key (di_version_id inp \<noteq> None) of
            None \<Rightarrow> (Panicked, s)
          | Some (receipt, s) \<Rightarrow> (case await_cluster env s receipt of
              (Reply token, s) \<Rightarrow> (Reply (resp\<lparr>dr_write_token := attached token (dr_write_token resp)\<rparr>), s)
            | (Refused err, s) \<Rightarrow> (Refused err, s)
            | (Panicked, s) \<Rightarrow> (Panicked, s)))"

definition delete_object ::
  "write_env \<Rightarrow> bool \<Rightarrow> (write_state \<Rightarrow> write_state) option \<Rightarrow> write_state \<Rightarrow> delete_input \<Rightarrow> delete_result reply \<times> write_state" where
  "delete_object env stopping dies s inp = mutation_tail env stopping dies s (di_bucket inp) [di_key inp] (delete_tail env inp)"

section \<open>Batch delete\<close>

definition requested :: "batch_input \<Rightarrow> (string \<times> bool) list" where
  "requested inp = map (\<lambda>(key, version). (key, version \<noteq> None)) (bi_objects inp)"

definition named_keys :: "string option list option \<Rightarrow> string set" where
  "named_keys listed = (case listed of None \<Rightarrow> {} | Some ks \<Rightarrow> set (concat (map (\<lambda>k. case k of None \<Rightarrow> [] | Some k \<Rightarrow> [k]) ks)))"

definition batch_applied :: "bool \<Rightarrow> batch_result \<Rightarrow> string \<Rightarrow> bool" where
  "batch_applied quiet resp key \<longleftrightarrow> (if quiet then key \<notin> named_keys (br_errors resp) else key \<in> named_keys (br_deleted resp))"

fun delete_each ::
  "write_env \<Rightarrow> write_state \<Rightarrow> string \<Rightarrow> (string \<Rightarrow> bool) \<Rightarrow> (string \<times> bool) list \<Rightarrow> native_cut option
   \<Rightarrow> (native_cut option \<times> write_state) option" where
  "delete_each env s bucket applied [] receipt = Some (receipt, s)"
| "delete_each env s bucket applied ((key, versioned) # rest) receipt =
     (if \<not> applied key then delete_each env s bucket applied rest receipt
      else case record_delete_write env (ws_invalidate env s (bucket, key)) bucket key versioned of
          None \<Rightarrow> None
        | Some (published, s) \<Rightarrow>
            delete_each env s bucket applied rest (case published of None \<Rightarrow> receipt | Some _ \<Rightarrow> published))"

definition batch_tail :: "write_env \<Rightarrow> batch_input \<Rightarrow> write_state \<Rightarrow> batch_result reply \<times> write_state" where
  "batch_tail env inp s =
     (let bucket = bi_bucket inp; quiet = (bi_quiet inp = Some True) in
      case we_batch env (ws_clock s) inp of
        Inl e \<Rightarrow>
          let s = ws_pause env s in
          (case uncertain_mutation_error e False of
             None \<Rightarrow> (Refused e, s)
           | Some _ \<Rightarrow> (case announce_all env s bucket (map fst (requested inp)) None of
               None \<Rightarrow> (Panicked, s)
             | Some (receipt, s) \<Rightarrow> (Refused e, settle_cluster env s receipt)))
      | Inr resp \<Rightarrow>
          let s = ws_pause env s in
          case delete_each env s bucket (batch_applied quiet resp) (requested inp) None of
            None \<Rightarrow> (Panicked, s)
          | Some (receipt, s) \<Rightarrow> (case await_cluster env s receipt of
              (Reply token, s) \<Rightarrow> (Reply (resp\<lparr>br_write_token := attached token (br_write_token resp)\<rparr>), s)
            | (Refused err, s) \<Rightarrow> (Refused err, s)
            | (Panicked, s) \<Rightarrow> (Panicked, s)))"

definition delete_objects ::
  "write_env \<Rightarrow> bool \<Rightarrow> (write_state \<Rightarrow> write_state) option \<Rightarrow> write_state \<Rightarrow> batch_input \<Rightarrow> batch_result reply \<times> write_state" where
  "delete_objects env stopping dies s inp =
     mutation_tail env stopping dies s (bi_bucket inp) (map fst (requested inp)) (batch_tail env inp)"

section \<open>Multipart completion\<close>

text \<open>A HEAD counts only if it describes this write and not a later one.\<close>

definition describing :: "etag option \<Rightarrow> observed_object option \<Rightarrow> observed_object option" where
  "describing tag ob = (case ob of None \<Rightarrow> None | Some o' \<Rightarrow> if tag = None \<or> ob_etag o' = tag then Some o' else None)"

definition or_else :: "'a option \<Rightarrow> 'a option \<Rightarrow> 'a option" where
  "or_else a b = (case a of None \<Rightarrow> b | Some _ \<Rightarrow> a)"

definition complete_tail :: "write_env \<Rightarrow> complete_input \<Rightarrow> write_state \<Rightarrow> put_result reply \<times> write_state" where
  "complete_tail env inp s =
     (let bucket = ci_bucket inp; key = ci_key inp in
      case we_complete env (ws_clock s) inp of
        Inl e \<Rightarrow> fail_put env (ws_pause env s) bucket key e (uncertain_completion_error e)
      | Inr resp \<Rightarrow>
          let s = ws_invalidate env (ws_pause env s) (bucket, key); completed = pr_e_tag resp in
          case upstream_meta env s (bucket, key) of (ob, s) \<Rightarrow>
            let e = observed_entry (describing completed ob);
                e = e\<lparr>e_etag := or_else completed (e_etag e)\<rparr>
            in case record_put_write env s bucket key e of
                (Reply token, s) \<Rightarrow> (Reply (resp\<lparr>pr_write_token := attached token (pr_write_token resp)\<rparr>), s)
              | (Refused err, s) \<Rightarrow> (Refused err, s)
              | (Panicked, s) \<Rightarrow> (Panicked, s))"

definition complete_multipart_upload ::
  "write_env \<Rightarrow> bool \<Rightarrow> (write_state \<Rightarrow> write_state) option \<Rightarrow> write_state \<Rightarrow> complete_input \<Rightarrow> put_result reply \<times> write_state" where
  "complete_multipart_upload env stopping dies s inp =
     mutation_tail env stopping dies s (ci_bucket inp) [ci_key inp] (complete_tail env inp)"

section \<open>Copy\<close>

definition destination_must_be_absent :: "copy_input \<Rightarrow> bool" where
  "destination_must_be_absent inp \<longleftrightarrow> pc_if_none_match inp = Some ''*''"

definition indexed_source_size :: "node \<Rightarrow> copy_source \<Rightarrow> etag \<Rightarrow> int option" where
  "indexed_source_size nd source copied_etag = (case source of
       SourceBucket bucket key None \<Rightarrow> (case bucket_get (nd_index nd) bucket of
           None \<Rightarrow> None
         | Some b \<Rightarrow>
             if \<not> bs_synced b \<or> map_of (bs_uncertain_keys b) key \<noteq> None then None
             else (case kr_get (bs_keys b) key of
                 None \<Rightarrow> None
               | Some e \<Rightarrow> if e_etag e = Some copied_etag then e_size e else None))
     | _ \<Rightarrow> None)"

definition copy_entry :: "write_env \<Rightarrow> write_state \<Rightarrow> copy_input \<Rightarrow> etag option \<Rightarrow> obj_entry \<times> write_state" where
  "copy_entry env s inp copied = (case Option.bind copied (indexed_source_size (ws_node s) (pc_source inp)) of
       Some sz \<Rightarrow> (\<lparr>e_size = Some sz, e_last_modified = 0, e_etag = copied, e_storage_class = write_storage_class (pc_storage_class inp),
         e_content_type = None, e_meta = None\<rparr>, s)
     | None \<Rightarrow> (case upstream_meta env s (pc_bucket inp, pc_key inp) of (ob, s) \<Rightarrow> (observed_entry (describing copied ob), s)))"

definition copy_conflict :: "write_env \<Rightarrow> write_state \<Rightarrow> copy_input \<Rightarrow> write_state" where
  "copy_conflict env s inp = (case upstream_meta env s (pc_bucket inp, pc_key inp) of
       (None, s) \<Rightarrow> s
     | (Some ob, s) \<Rightarrow>
         let s = ws_pause env s in
         if re_marked env (ws_clock s) then s
         else s\<lparr>ws_node := observe (renv env) (ws_node s) (pc_bucket inp, pc_key inp) ob\<rparr>)"

definition copy_tail :: "write_env \<Rightarrow> copy_input \<Rightarrow> write_state \<Rightarrow> copy_result reply \<times> write_state" where
  "copy_tail env inp s =
     (let bucket = pc_bucket inp; key = pc_key inp in
      case we_copy env (ws_clock s) inp of
        Inl e \<Rightarrow>
          let s = ws_pause env s in
          if copy_conflict_needs_reconcile e (destination_must_be_absent inp) then (Refused e, copy_conflict env s inp)
          else fail_put env s bucket key e (uncertain_mutation_error e False)
      | Inr resp \<Rightarrow>
          let s = ws_invalidate env (ws_pause env s) (bucket, key); copied = cr_e_tag resp in
          case copy_entry env s inp copied of (e, s) \<Rightarrow>
            let e = e\<lparr>e_etag := or_else copied (e_etag e)\<rparr>
            in case record_put_write env s bucket key e of
                (Reply token, s) \<Rightarrow> (Reply (resp\<lparr>cr_write_token := attached token (cr_write_token resp)\<rparr>), s)
              | (Refused err, s) \<Rightarrow> (Refused err, s)
              | (Panicked, s) \<Rightarrow> (Panicked, s))"

definition copy_object ::
  "write_env \<Rightarrow> bool \<Rightarrow> (write_state \<Rightarrow> write_state) option \<Rightarrow> write_state \<Rightarrow> copy_input \<Rightarrow> copy_result reply \<times> write_state" where
  "copy_object env stopping dies s inp =
     mutation_tail env stopping dies (ws_invalidate env s (pc_bucket inp, pc_key inp)) (pc_bucket inp) [pc_key inp] (copy_tail env inp)"

section \<open>Deleting a bucket\<close>

definition delete_bucket :: "write_env \<Rightarrow> write_state \<Rightarrow> string \<Rightarrow> unit reply \<times> write_state" where
  "delete_bucket env s bucket = (case we_delete_bucket env (ws_clock s) bucket of
       Inl e \<Rightarrow> (Refused e, ws_pause env s)
     | Inr resp \<Rightarrow> (let s = ws_pause env s in (Reply resp, set_index s (remove_bucket (index_of s) bucket))))"

section \<open>Reconciling a key\<close>

definition SYNC_RETRY_MIN :: nat where
  "SYNC_RETRY_MIN = 1"

definition SYNC_RETRY_MAX :: nat where
  "SYNC_RETRY_MAX = 60"

definition authoritative :: "write_env \<Rightarrow> nat \<Rightarrow> sdk_error + sdk_head \<Rightarrow> authoritative_key_state option" where
  "authoritative env t answer = (case answer of
       Inr head \<Rightarrow> Some (Present (authoritative_head_entry env t head))
     | Inl SdkNotFound \<Rightarrow> Some Absent
     | Inl SdkOther \<Rightarrow> None)"

text \<open>One round of the background task: stop if the token is no longer current; else ask, and either resolve and stop
  or back off. The result is the node, and the next backoff unless the task has ended. A round may pause twice, for
  the request and for the backoff.\<close>

definition reconcile_round :: "write_env \<Rightarrow> cache_key \<Rightarrow> nat \<Rightarrow> node \<Rightarrow> nat \<Rightarrow> node \<times> nat option" where
  "reconcile_round env ckey token nd backoff =
     (if \<not> uncertain_key_is_current (nd_index nd) (fst ckey) (snd ckey) token then (nd, None)
      else
        let answer = we_sdk_head env (nd_clock nd) ckey; nd = pause (renv env) nd in
        case authoritative env (nd_clock nd) answer of
          Some a \<Rightarrow> (nd\<lparr>nd_index := fst (resolve_uncertain_key (re_lay env) (re_now env (nd_clock nd)) (nd_index nd) (fst ckey) (snd ckey) token a)\<rparr>, None)
        | None \<Rightarrow> (pause (renv env) nd, Some (min (backoff * 2) SYNC_RETRY_MAX)))"

fun reconcile :: "nat \<Rightarrow> write_env \<Rightarrow> cache_key \<Rightarrow> nat \<Rightarrow> node \<Rightarrow> nat \<Rightarrow> node option" where
  "reconcile 0 env ckey token nd backoff = None"
| "reconcile (Suc fuel) env ckey token nd backoff = (case reconcile_round env ckey token nd backoff of
       (nd, None) \<Rightarrow> Some nd
     | (nd, Some backoff) \<Rightarrow> reconcile fuel env ckey token nd backoff)"

definition spawn_key_reconcile :: "nat \<Rightarrow> write_env \<Rightarrow> cache_key \<Rightarrow> nat \<Rightarrow> node \<Rightarrow> node option" where
  "spawn_key_reconcile fuel env ckey token nd = reconcile fuel env ckey token nd SYNC_RETRY_MIN"

end
