(* ===== verification/Read_Props.thy ===== *)
theory Read_Props
  imports Reads
begin

text \<open>
  What the read handlers of \<^verbatim>\<open>Reads\<close> promise, whatever the other tasks of the node do between two steps of a request:
  an answer is the origin's own answer to that very request, or a local one the node is entitled to give.
\<close>

section \<open>Clocks and copies\<close>

lemma clock_pause [simp]: "nd_clock (pause env nd) = Suc (nd_clock nd)"
  by (simp add: pause_def)

lemma clock_tier [simp]:
  "nd_clock (tier_invalidate env nd ckey) = Suc (nd_clock nd)" "nd_clock (tier_insert env nd ckey obj) = Suc (nd_clock nd)"
  by (simp_all add: tier_invalidate_def tier_insert_def)

lemma clock_observe [simp]: "nd_clock (observe env nd ckey ob) = nd_clock nd"
  by (simp add: observe_def Let_def split: prod.splits completion.splits)

lemma clock_index_size_only [simp]: "nd_clock (index_size_only env nd ckey sz) = nd_clock nd"
  by (simp add: index_size_only_def Let_def)

lemma index_size_only_keeps [simp]:
  "nd_tiers (index_size_only env nd ckey sz) = nd_tiers nd" "nd_suspect_gen (index_size_only env nd ckey sz) = nd_suspect_gen nd"
  by (simp_all add: index_size_only_def Let_def)

text \<open>A copy the node holds and may serve: it is in the tiers, and proved in the current generation unless the node is
  the only writer.\<close>

definition held_copy :: "read_env \<Rightarrow> node \<Rightarrow> cache_key \<Rightarrow> cached_object \<Rightarrow> bool" where
  "held_copy env nd ckey obj \<longleftrightarrow> nd_tiers nd ckey = Some obj \<and> (re_sync env = None \<or> trusted obj (nd_suspect_gen nd))"

lemma validated_get_holds:
  assumes "validated_get env nd ckey = (hit, nd')"
  shows "nd_clock nd < nd_clock nd'" and "hit = Some obj \<Longrightarrow> held_copy env nd' ckey obj"
  using assms
  by (auto simp: validated_get_def Let_def held_copy_def trusted_def mark_trusted_def
      split: option.splits if_splits body_match.splits)

lemma probe_holds:
  assumes "probe env nd ckey = (hit, nd')"
  shows "nd_clock nd < nd_clock nd'" and "hit = Some obj \<Longrightarrow> held_copy env nd' ckey obj"
proof -
  show "nd_clock nd < nd_clock nd'"
    using assms validated_get_holds(1) [of env "pause env nd" ckey hit nd']
    by (auto simp: probe_def Let_def split: option.splits)
  show "hit = Some obj \<Longrightarrow> held_copy env nd' ckey obj"
    using assms validated_get_holds(2) [of env "pause env nd" ckey hit nd']
    by (auto simp: probe_def Let_def split: option.splits)
qed

text \<open>What a fill returns: a held copy, or what its own fetch brought, perhaps stamped.\<close>

lemma get_or_fetch_cases:
  assumes "get_or_fetch env nd ckey generation origin = (r, nd')"
    and step: "\<And>n x n'. origin n = (x, n') \<Longrightarrow> nd_clock n < nd_clock n'"
  obtains (Held) obj where "r = Inr obj" "held_copy env nd' ckey obj" "nd_clock nd < nd_clock nd'"
    | (Fetched) n n' obj ob obj' where "r = Inr obj'" "origin n = (Inr (obj, ob), n')" "nd_clock nd \<le> nd_clock n"
        "nd_clock n' \<le> nd_clock nd'" "obj' = obj \<or> obj' = mark_trusted obj generation"
    | (Failed) e n where "r = Inl e" "origin n = (Inl e, nd')" "nd_clock nd \<le> nd_clock n"
proof -
  obtain hit1 n1 where 1: "probe env nd ckey = (hit1, n1)"
    by fastforce
  obtain hit2 n2 where 2: "probe env (pause env n1) ckey = (hit2, n2)"
    by fastforce
  obtain x n3 where 3: "origin n2 = (x, n3)"
    by fastforce
  have less: "nd_clock nd < nd_clock n1" "nd_clock n1 < nd_clock n2" "nd_clock n2 < nd_clock n3"
    using probe_holds(1) [OF 1] probe_holds(1) [OF 2] step [OF 3] by simp_all
  show thesis
  proof (cases hit1)
    case (Some valid)
    then show thesis
      using assms(1) 1 probe_holds(2) [OF 1 Some] less by (intro Held [of valid]) (auto simp: get_or_fetch_def)
  next
    case None
    show thesis
    proof (cases hit2)
      case (Some valid)
      then show thesis
        using assms(1) 1 2 None probe_holds(2) [OF 2 Some] less by (intro Held [of valid]) (auto simp: get_or_fetch_def)
    next
      case none: None
      note run = assms(1) [unfolded get_or_fetch_def 1 2 None none 3 prod.case option.case]
      show thesis
      proof (cases x)
        case (Inl e)
        then show thesis
          using run 3 less by (intro Failed [of e n2]) auto
      next
        case (Inr p)
        then obtain obj ob where p: "x = Inr (obj, ob)"
          by (cases p) auto
        show thesis
          using run 3 less
          by (intro Fetched [of "case r of Inr o' \<Rightarrow> o'" n2 obj ob n3])
            (auto simp: p on_commit_def Let_def split: if_splits)
      qed
    qed
  qed
qed

section \<open>GET\<close>

text \<open>A copy the request fetched itself: the origin's whole answer to it, drained without an error.\<close>

definition fetched_copy :: "read_env \<Rightarrow> read_input \<Rightarrow> nat \<Rightarrow> nat \<Rightarrow> cached_object \<Rightarrow> bool" where
  "fetched_copy env req lo hi obj \<longleftrightarrow> (\<exists>t resp bs. lo \<le> t \<and> t < hi \<and> re_get env t req = Inr resp
     \<and> stream_view (case go_body resp of None \<Rightarrow> [] | Some body \<Rightarrow> body) = (bs, None)
     \<and> obj\<lparr>co_trusted_gen := 0\<rparr> = from_get (get_output.truncate resp) bs)"

definition origin_answered :: "read_env \<Rightarrow> read_input \<Rightarrow> nat \<Rightarrow> nat \<Rightarrow> get_answer reply \<Rightarrow> bool" where
  "origin_answered env req lo hi r \<longleftrightarrow> (\<exists>t. lo \<le> t \<and> t < hi \<and> r = reply_of (re_get env t req))"

definition undrained :: "read_env \<Rightarrow> read_input \<Rightarrow> nat \<Rightarrow> nat \<Rightarrow> bool" where
  "undrained env req lo hi \<longleftrightarrow> (\<exists>t resp body. lo \<le> t \<and> t < hi \<and> re_get env t req = Inr resp \<and> go_body resp = Some body
     \<and> buffer_body body (re_max_obj env) = None)"

lemma buffer_body_view: "buffer_body blob cap = Some bs \<Longrightarrow> stream_view blob = (bs, None)"
  using buffer_loop_view [where cap = cap and buf = "[]" and blob = blob]
  by (auto simp: buffer_body_def buffer_or_forward_def split: buffered_body.splits prod.splits)

lemma from_get_unstamped [simp]: "(from_get out bs)\<lparr>co_trusted_gen := 0\<rparr> = from_get out bs"
  "(mark_trusted (from_get out bs) g)\<lparr>co_trusted_gen := 0\<rparr> = from_get out bs"
  by (simp_all add: from_get_def mark_trusted_def)

lemma fill_origin_step: "fill_origin env req n = (x, n') \<Longrightarrow> nd_clock n < nd_clock n'"
  by (auto simp: fill_origin_def Let_def split: sum.splits option.splits if_splits)

lemma promote_origin_step: "promote_origin env req n = (x, n') \<Longrightarrow> nd_clock n < nd_clock n'"
  by (auto simp: promote_origin_def Let_def split: sum.splits option.splits if_splits)

lemma fill_origin_fetched:
  assumes "fill_origin env req n = (Inr (obj, ob), n')" "obj' = obj \<or> obj' = mark_trusted obj g" "lo \<le> nd_clock n" "nd_clock n' \<le> hi"
  shows "fetched_copy env req lo hi obj'"
proof -
  obtain resp body bs where "re_get env (nd_clock n) req = Inr resp" "go_body resp = Some body"
    "buffer_body body (re_max_obj env) = Some bs" "obj = from_get (get_output.truncate resp) bs"
    using assms(1) by (auto simp: fill_origin_def Let_def split: sum.splits option.splits if_splits)
  moreover have "nd_clock n < hi"
    using fill_origin_step [OF assms(1)] assms(4) by simp
  ultimately show ?thesis
    using assms(2,3) buffer_body_view unfolding fetched_copy_def by (fastforce intro!: exI [of _ "nd_clock n"])
qed

lemma promote_origin_fetched:
  assumes "promote_origin env req n = (Inr (obj, ob), n')" "obj' = obj \<or> obj' = mark_trusted obj g" "lo \<le> nd_clock n" "nd_clock n' \<le> hi"
  shows "fetched_copy env req lo hi obj'"
proof -
  obtain resp bs where "re_get env (nd_clock n) req = Inr resp"
    "stream_view (case go_body resp of None \<Rightarrow> [] | Some body \<Rightarrow> body) = (bs, None)" "obj = from_get (get_output.truncate resp) bs"
    using assms(1) buffer_body_view by (fastforce simp: promote_origin_def Let_def split: sum.splits option.splits if_splits)
  moreover have "nd_clock n < hi"
    using promote_origin_step [OF assms(1)] assms(4) by simp
  ultimately show ?thesis
    using assms(2,3) unfolding fetched_copy_def by (fastforce intro!: exI [of _ "nd_clock n"])
qed

lemma fill_origin_failed:
  assumes "fill_origin env req n = (Inl e, n')" "lo \<le> nd_clock n" "nd_clock n' \<le> hi"
  shows "(\<exists>err. e = FillOrigin err \<and> (origin_answered env req lo hi (Refused err) \<or> err = internal_error \<and> undrained env req lo hi))
    \<or> (\<exists>resp. e = Uncacheable resp \<and> origin_answered env req lo hi (Reply resp))"
proof -
  have t: "lo \<le> nd_clock n" "nd_clock n < hi"
    using assms fill_origin_step [OF assms(1)] by simp_all
  have answered: "origin_answered env req lo hi (reply_of (re_get env (nd_clock n) req))"
    using t by (auto simp: origin_answered_def)
  show ?thesis
  proof (cases "re_get env (nd_clock n) req")
    case (Inl err)
    then show ?thesis
      using assms(1) answered by (auto simp: fill_origin_def reply_of_def)
  next
    case (Inr resp)
    show ?thesis
      using assms(1) answered Inr t unfolding fill_origin_def undrained_def
      by (auto simp: Let_def reply_of_def split: option.splits if_splits)
  qed
qed

lemma forward_get_answered:
  assumes "forward_get env n req = (r, n')" "lo \<le> nd_clock n" "nd_clock n' \<le> hi"
  shows "origin_answered env req lo hi r"
  using assms by (auto simp: forward_get_def origin_answered_def)

text \<open>The answer a copy gives to a request: the whole body, or the slice it asks for.\<close>

definition copy_answer :: "s3_range option \<Rightarrow> cached_object \<Rightarrow> get_answer option" where
  "copy_answer rng obj = (case rng of
       None \<Rightarrow> Some (get_answer_of (to_get obj))
     | Some (RangeInt first last_byte) \<Rightarrow> (case to_get_range obj first last_byte of Inr (Some out) \<Rightarrow> Some (get_answer_of out) | _ \<Rightarrow> None)
     | Some (RangeSuffix len) \<Rightarrow> (case to_get_suffix obj len of Inr (Some out) \<Rightarrow> Some (get_answer_of out) | _ \<Rightarrow> None))"

text \<open>What a local answer rests on: the copy, and a gate that is open at the moment of the answer.\<close>

definition copy_backed :: "read_env \<Rightarrow> nat \<Rightarrow> node \<Rightarrow> read_input \<Rightarrow> read_fence \<Rightarrow> get_answer \<Rightarrow> bool" where
  "copy_backed env lo nd' req fence out \<longleftrightarrow> local_read_gate_now env nd' fence
     \<and> (\<exists>obj. copy_answer (ri_range req) obj = Some out
         \<and> (held_copy env nd' (ckey_of req) obj \<or> fetched_copy env (req\<lparr>ri_range := None\<rparr>) lo (nd_clock nd') obj))"

definition get_outcome :: "read_env \<Rightarrow> nat \<Rightarrow> node \<Rightarrow> read_input \<Rightarrow> read_fence \<Rightarrow> get_answer reply \<Rightarrow> bool" where
  "get_outcome env lo nd' req fence r \<longleftrightarrow> (case r of
       Reply out \<Rightarrow> origin_answered env req lo (nd_clock nd') r \<or> copy_backed env lo nd' req fence out
     | Refused e \<Rightarrow> origin_answered env req lo (nd_clock nd') r \<or> e = internal_error \<and> undrained env req lo (nd_clock nd')
     | Panicked \<Rightarrow> \<exists>first last_byte. ri_range req = Some (RangeInt first (Some last_byte)) \<and> Suc last_byte < first)"

lemma reply_of_not_panicked [simp]: "Panicked \<noteq> reply_of x"
  by (cases x) (simp_all add: reply_of_def)

lemma answered_outcome: "origin_answered env req lo (nd_clock nd') r \<Longrightarrow> get_outcome env lo nd' req fence r"
  by (cases r) (auto simp: get_outcome_def origin_answered_def)

lemma forward_outcome:
  "forward_get env n req = (r, nd') \<Longrightarrow> lo \<le> nd_clock n \<Longrightarrow> get_outcome env lo nd' req fence r"
  by (intro answered_outcome forward_get_answered) auto

lemma fill_outcome:
  assumes "fill_whole_get env nd req (ckey_of req) fence = (r, nd')" "ri_range req = None" "lo \<le> nd_clock nd"
  shows "get_outcome env lo nd' req fence r"
proof -
  obtain x n where x: "get_or_fetch env nd (ckey_of req) (nd_suspect_gen nd) (fill_origin env req) = (x, n)"
    by fastforce
  have same: "req\<lparr>ri_range := None\<rparr> = req"
    using assms(2) by simp
  note run = assms(1) [unfolded fill_whole_get_def x prod.case]
  have served: "get_outcome env lo nd' req fence r"
    if "x = Inr obj" "held_copy env n (ckey_of req) obj \<or> fetched_copy env req lo (nd_clock n) obj" "lo \<le> nd_clock n" for obj
  proof (cases "local_read_gate_now env n fence")
    case True
    then show ?thesis
      using run that assms(2) unfolding get_outcome_def copy_backed_def same by (auto simp: copy_answer_def)
  next
    case False
    then show ?thesis
      using run that by (auto intro: forward_outcome)
  qed
  show ?thesis
  proof (rule get_or_fetch_cases [OF x fill_origin_step], goal_cases)
    case Held: (2 obj)
    then show ?thesis
      using served [OF Held(1)] assms(3) by simp
  next
    case Fetched: (3 n0 n1 obj ob obj')
    note got = fill_origin_fetched [OF Fetched(2,5) le_trans [OF assms(3) Fetched(3)] Fetched(4)]
    have "lo \<le> nd_clock n"
      using Fetched(3,4) fill_origin_step [OF Fetched(2)] assms(3) by simp
    then show ?thesis
      using served [OF Fetched(1)] got by simp
  next
    case Failed: (4 e n0)
    then show ?thesis
      using fill_origin_failed [OF Failed(2) le_trans [OF assms(3) Failed(3)] order_refl] run
      by (auto simp: get_outcome_def)
  qed
qed

lemma range_panic: "to_get_range obj first last_byte = Inl p \<Longrightarrow> \<exists>b. last_byte = Some b \<and> Suc b < first"
  by (auto simp: to_get_range_def Let_def split: if_splits option.splits)

lemma suffix_no_panic: "to_get_suffix obj len \<noteq> Inl p"
  by (auto simp: to_get_suffix_def Let_def dest: range_panic)

definition asks_range :: "read_input \<Rightarrow> cached_range \<Rightarrow> bool" where
  "asks_range req rng \<longleftrightarrow> cached_range_from_request True (ri_range req) = Some rng"

lemma asks_range_int: "asks_range req (CachedInt first last_byte) \<longleftrightarrow> ri_range req = Some (RangeInt first last_byte)"
  by (auto simp: asks_range_def cached_range_from_request_def split: option.splits s3_range.splits if_splits)

lemma slice_answer: "asks_range req rng \<Longrightarrow> cached_slice rng obj = Inr (Some out) \<Longrightarrow> copy_answer (ri_range req) obj = Some (get_answer_of out)"
  by (auto simp: asks_range_def cached_range_from_request_def cached_slice_def copy_answer_def
      split: option.splits s3_range.splits if_splits)

lemma slice_panic:
  "asks_range req rng \<Longrightarrow> cached_slice rng obj = Inl p \<Longrightarrow> \<exists>first b. ri_range req = Some (RangeInt first (Some b)) \<and> Suc b < first"
  by (auto simp: asks_range_def cached_range_from_request_def cached_slice_def suffix_no_panic
      split: option.splits s3_range.splits if_splits dest: range_panic)

text \<open>A promotion that answers: the slice of a held or fetched copy. One that does not leaves the clock later.\<close>

lemma promote_range_result:
  assumes "promote_range env nd ckey req first last_byte = (x, nd')" "lo \<le> nd_clock nd"
  shows "lo \<le> nd_clock nd'"
    and "x \<noteq> Inr None \<Longrightarrow> \<exists>obj. x = to_get_range obj first last_byte
      \<and> (held_copy env nd' ckey obj \<or> fetched_copy env (req\<lparr>ri_range := None\<rparr>) lo (nd_clock nd') obj)"
proof -
  obtain y n where y: "get_or_fetch env nd ckey (nd_suspect_gen nd) (promote_origin env (req\<lparr>ri_range := None\<rparr>)) = (y, n)"
    by fastforce
  note run = assms(1) [unfolded promote_range_def y prod.case]
  have "lo \<le> nd_clock nd' \<and> (x \<noteq> Inr None \<longrightarrow> (\<exists>obj. x = to_get_range obj first last_byte
      \<and> (held_copy env nd' ckey obj \<or> fetched_copy env (req\<lparr>ri_range := None\<rparr>) lo (nd_clock nd') obj)))"
  proof (rule get_or_fetch_cases [OF y promote_origin_step], goal_cases)
    case Held: (2 obj)
    then show ?case
      using run assms(2) by auto
  next
    case Fetched: (3 n0 n1 obj ob obj')
    have "lo \<le> nd_clock n"
      using Fetched(3,4) promote_origin_step [OF Fetched(2)] assms(2) by simp
    then show ?case
      using run Fetched(1) promote_origin_fetched [OF Fetched(2,5) le_trans [OF assms(2) Fetched(3)] Fetched(4)] by auto
  next
    case Failed: (4 e n0)
    have "lo \<le> nd_clock n"
      using Failed(3) promote_origin_step [OF Failed(2)] assms(2) by simp
    then show ?case
      using run Failed(1) by (auto split: option.splits if_splits)
  qed
  then show "lo \<le> nd_clock nd'" "x \<noteq> Inr None \<Longrightarrow> \<exists>obj. x = to_get_range obj first last_byte
      \<and> (held_copy env nd' ckey obj \<or> fetched_copy env (req\<lparr>ri_range := None\<rparr>) lo (nd_clock nd') obj)"
    by auto
qed

lemma if_either: "(if c then a else b) = v \<Longrightarrow> a = v \<or> b = v"
  by (simp split: if_splits)

lemma promote_outcome:
  assumes "promote_or_forward env nd req fence local_ok rng = (r, nd')" "lo \<le> nd_clock nd" "asks_range req rng"
  shows "get_outcome env lo nd' req fence r"
proof (cases rng)
  case (CachedSuffix len)
  then show ?thesis
    using assms(1,2) by (auto simp: promote_or_forward_def Let_def intro: forward_outcome)
next
  case (CachedInt first last_byte)
  obtain x n where x: "promote_range env nd (ckey_of req) req first last_byte = (x, n)"
    by fastforce
  note lo = promote_range_result(1) [OF x assms(2)]
  have asked: "ri_range req = Some (RangeInt first last_byte)"
    using assms(3) by (simp add: CachedInt asks_range_int)
  have "(case x of Inl Panic \<Rightarrow> (Panicked, n)
      | Inr (Some out) \<Rightarrow> if local_read_gate_now env n fence then (Reply (get_answer_of out), n) else forward_get env n req
      | Inr None \<Rightarrow> forward_get env n req) = (r, nd') \<or> forward_get env nd req = (r, nd')"
    using assms(1) unfolding promote_or_forward_def Let_def CachedInt cached_range.case x prod.case by (rule if_either)
  then consider "forward_get env nd req = (r, nd')" | "forward_get env n req = (r, nd')" | "x = Inl Panic" "r = Panicked"
    | out where "x = Inr (Some out)" "r = Reply (get_answer_of out)" "nd' = n" "local_read_gate_now env n fence"
    by (cases x rule: sum.exhaust; cases "local_read_gate_now env n fence") (auto split: rust_panic.split_asm option.split_asm)
  then show ?thesis
  proof cases
    case 1
    then show ?thesis
      using assms(2) by (rule forward_outcome)
  next
    case 2
    then show ?thesis
      using lo by (rule forward_outcome)
  next
    case 3
    then obtain obj where "to_get_range obj first last_byte = Inl Panic"
      using promote_range_result(2) [OF x assms(2)] by auto
    then have "\<exists>b. last_byte = Some b \<and> Suc b < first"
      by (rule range_panic)
    then show ?thesis
      using 3 asked by (auto simp: get_outcome_def)
  next
    case 4
    then obtain obj where "to_get_range obj first last_byte = Inr (Some out)"
      "held_copy env n (ckey_of req) obj \<or> fetched_copy env (req\<lparr>ri_range := None\<rparr>) lo (nd_clock n) obj"
      using promote_range_result(2) [OF x assms(2)] by auto
    then have "copy_backed env lo n req fence (get_answer_of out)"
      using 4(4) asked unfolding copy_backed_def by (intro conjI exI [of _ obj]) (simp_all add: copy_answer_def)
    then show ?thesis
      using 4 by (simp add: get_outcome_def)
  qed
qed

lemma serve_range_outcome:
  assumes "serve_range env nd req fence local_ok rng = (r, nd')" "lo \<le> nd_clock nd" "asks_range req rng"
  shows "get_outcome env lo nd' req fence r"
proof -
  obtain hit n where hit: "(if local_ok then validated_get env nd (ckey_of req) else (None, nd)) = (hit, n)"
    by fastforce
  then have n: "lo \<le> nd_clock n" "\<And>obj. hit = Some obj \<Longrightarrow> held_copy env n (ckey_of req) obj"
    using validated_get_holds [of env nd "ckey_of req" hit n] assms(2) by (auto split: if_splits)
  consider "promote_or_forward env n req fence local_ok rng = (r, nd')"
    | obj p where "hit = Some obj" "cached_slice rng obj = Inl p" "r = Panicked"
    | obj out where "hit = Some obj" "cached_slice rng obj = Inr (Some out)" "r = Reply (get_answer_of out)" "nd' = n"
        "local_read_gate_now env n fence"
    using assms(1) unfolding serve_range_def hit prod.case
    by (auto split: option.splits sum.splits if_splits rust_panic.splits)
  then show ?thesis
  proof cases
    case 1
    then show ?thesis
      using n(1) assms(3) by (rule promote_outcome)
  next
    case 2
    then show ?thesis
      using slice_panic [OF assms(3) 2(2)] by (auto simp: get_outcome_def)
  next
    case 3
    then have "copy_backed env lo n req fence (get_answer_of out)"
      using n(2) slice_answer [OF assms(3)] unfolding copy_backed_def by blast
    then show ?thesis
      using 3 by (simp add: get_outcome_def)
  qed
qed

lemma serve_whole_outcome:
  assumes "serve_whole env nd req fence local_ok cacheable = (r, nd')" "lo \<le> nd_clock nd" "cacheable \<Longrightarrow> ri_range req = None"
  shows "get_outcome env lo nd' req fence r"
proof -
  obtain hit n where hit: "(if local_ok \<and> cacheable then validated_get env nd (ckey_of req) else (None, nd)) = (hit, n)"
    by fastforce
  then have n: "lo \<le> nd_clock n" "\<And>obj. hit = Some obj \<Longrightarrow> held_copy env n (ckey_of req) obj \<and> cacheable"
    using validated_get_holds [of env nd "ckey_of req" hit n] assms(2) by (auto split: if_splits)
  consider "forward_get env n req = (r, nd')" | "cacheable" "fill_whole_get env n req (ckey_of req) fence = (r, nd')"
    | obj where "hit = Some obj" "r = Reply (get_answer_of (to_get obj))" "nd' = n" "local_read_gate_now env n fence"
    using assms(1) unfolding serve_whole_def hit prod.case Let_def
    by (auto split: option.splits if_splits)
  then show ?thesis
  proof cases
    case 1
    then show ?thesis
      using n(1) by (rule forward_outcome)
  next
    case 2
    then show ?thesis
      using fill_outcome [OF 2(2) assms(3) n(1)] by simp
  next
    case 3
    then have "copy_backed env lo n req fence (get_answer_of (to_get obj))"
      using n(2) assms(3) unfolding copy_backed_def by (intro conjI exI [of _ obj]) (simp_all add: copy_answer_def)
    then show ?thesis
      using 3 by (simp add: get_outcome_def)
  qed
qed

text \<open>What entitles a request to local state at all: a plain request for a key that is not fenced, past the barrier.\<close>

definition entitled :: "read_env \<Rightarrow> node \<Rightarrow> read_input \<Rightarrow> bool" where
  "entitled env nd req \<longleftrightarrow> unconditional_read req \<and> \<not> key_uncertain nd (ckey_of req) \<and> licensed env nd
     \<and> fst (read_barrier env nd (ri_read_token req)) = RouteLocal"

lemma read_barrier_clock: "read_barrier env nd token = (route, n) \<Longrightarrow> nd_clock nd \<le> nd_clock n"
  by (auto simp: read_barrier_def Let_def split: if_splits option.splits)

lemma read_barrier_licensed: "read_barrier env nd token = (RouteLocal, n) \<Longrightarrow> licensed env nd"
  by (auto simp: read_barrier_def licensed_def Let_def split: if_splits option.splits)

lemma local_route_result:
  assumes "local_route env nd ckey token = (local_ok, n)"
  shows "nd_clock nd \<le> nd_clock n"
    and "local_ok \<Longrightarrow> \<not> key_uncertain nd ckey \<and> licensed env nd \<and> fst (read_barrier env nd token) = RouteLocal"
  using assms read_barrier_clock read_barrier_licensed
  by (auto simp: local_route_def split: if_splits prod.splits)

lemma unroutable_forwarded:
  "serve_range env nd req fence False rng = forward_get env nd req"
  "serve_whole env nd req fence False cacheable = forward_get env nd req"
  "serve_whole env nd req fence local_ok False = forward_get env nd req"
  by (auto simp: serve_range_def promote_or_forward_def serve_whole_def Let_def split: cached_range.splits)

lemma serve_get_route:
  assumes "serve_get env nd req = (r, nd')"
  shows "(\<exists>n. nd_clock nd \<le> nd_clock n \<and> forward_get env n req = (r, nd'))
    \<or> entitled env nd req \<and> (\<exists>n. nd_clock nd \<le> nd_clock n
        \<and> ((\<exists>rng. asks_range req rng \<and> serve_range env n req (local_read_fence env nd) True rng = (r, nd'))
          \<or> ri_range req = None \<and> serve_whole env n req (local_read_fence env nd) True True = (r, nd')))"
proof -
  let ?u = "unconditional_read req"
  let ?rng = "cached_range_from_request ?u (ri_range req)"
  let ?cacheable = "?u \<and> ri_range req = None"
  obtain local_ok n where route: "(if ?cacheable \<or> ?rng \<noteq> None
      then local_route env nd (ckey_of req) (ri_read_token req) else (True, nd)) = (local_ok, n)"
    by fastforce
  have run: "(case ?rng of Some r \<Rightarrow> serve_range env n req (local_read_fence env nd) local_ok r
      | None \<Rightarrow> serve_whole env n req (local_read_fence env nd) local_ok ?cacheable) = (r, nd')"
    using assms unfolding serve_get_def Let_def route prod.case .
  show ?thesis
  proof (cases "local_ok \<and> (?cacheable \<or> ?rng \<noteq> None)")
    case True
    then have "local_route env nd (ckey_of req) (ri_read_token req) = (True, n)"
      using route by (auto split: if_splits)
    note local = local_route_result [OF this]
    have "?u"
      using True by (auto simp: cached_range_from_request_def split: bool.splits)
    then have "entitled env nd req"
      using local(2) by (simp add: entitled_def)
    moreover have "(\<exists>rng. asks_range req rng \<and> serve_range env n req (local_read_fence env nd) True rng = (r, nd'))
        \<or> ri_range req = None \<and> serve_whole env n req (local_read_fence env nd) True True = (r, nd')"
      using run True \<open>?u\<close> by (cases ?rng) (auto simp: asks_range_def)
    ultimately show ?thesis
      using local(1) by blast
  next
    case False
    then have "forward_get env n req = (r, nd')"
      using run by (cases ?rng; cases local_ok) (auto simp: unroutable_forwarded)
    moreover have "nd_clock nd \<le> nd_clock n"
      using route local_route_result(1) [of env nd "ckey_of req" "ri_read_token req"] by (auto split: if_splits)
    ultimately show ?thesis
      by blast
  qed
qed

text \<open>C3: A GET answers the origin's answer or an entitled local one. Whatever other tasks do between the steps of a
  GET, its reply is the origin's own reply to that request, made during it; or it is the answer of a copy, and then the
  request was plain, its key was not fenced, the node held its read licence and passed the freshness barrier, and at
  the moment of the answer the recovery and body-trust generations are those sampled at the start, the licence still
  holds, and the copy is one of these: held in the tiers and proved in the current generation, or drained whole from
  the origin by this very request. Besides, a body the origin breaks off is an internal error, and only a range that
  ends before it starts can panic.\<close>

theorem get_reply_justified:
  assumes "serve_get env nd req = (r, nd')"
  shows "origin_answered env req (nd_clock nd) (nd_clock nd') r
    \<or> entitled env nd req \<and> get_outcome env (nd_clock nd) nd' req (local_read_fence env nd) r"
  using serve_get_route [OF assms]
proof (elim disjE conjE exE)
  fix n
  assume "nd_clock nd \<le> nd_clock n" "forward_get env n req = (r, nd')"
  then show ?thesis
    using forward_get_answered by auto
next
  fix n rng
  assume "entitled env nd req" "nd_clock nd \<le> nd_clock n" "asks_range req rng"
    "serve_range env n req (local_read_fence env nd) True rng = (r, nd')"
  then show ?thesis
    using serve_range_outcome by blast
next
  fix n
  assume "entitled env nd req" "nd_clock nd \<le> nd_clock n" "ri_range req = None"
    "serve_whole env n req (local_read_fence env nd) True True = (r, nd')"
  then show ?thesis
    using serve_whole_outcome by blast
qed

text \<open>A copy the node refuses is gone before the refusal is returned, unless a tier fails to delete it or another task fills
  the key again.\<close>

lemma refused_copy_is_gone:
  assumes "validated_get env nd ckey = (None, nd')" "\<forall>t. re_left env t ckey = None"
    and "\<forall>t n. nd_tiers n ckey = None \<longrightarrow> nd_tiers (re_others env t n) ckey = None"
  shows "nd_tiers nd' ckey = None"
  using assms
  by (auto simp: validated_get_def Let_def tier_invalidate_def pause_def split: option.splits if_splits body_match.splits)

text \<open>A per-request response override never leaks. Lifting the overrides off a GET leaves the node in the state the
  plain request leaves it in, and the reply is the plain one with the overridden headers replaced.\<close>

theorem overrides_never_leak:
  "snd (get_object env nd req) = snd (serve_get env nd (snd (take_overrides env req)))
   \<and> fst (get_object env nd req) = map_reply (apply_overrides_get (fst (take_overrides env req))) (fst (get_object env nd (snd (take_overrides env req))))"
proof -
  have none: "apply_overrides_get (fst (take_overrides env (snd (take_overrides env req)))) out = out" for out
    by (simp add: take_overrides_def apply_overrides_get_def override_def)
  have "snd (take_overrides env (snd (take_overrides env req))) = snd (take_overrides env req)"
    by (simp add: take_overrides_def)
  then show ?thesis
    by (simp add: get_object_def case_prod_beta reply.map_comp comp_def none)
qed

section \<open>HEAD\<close>

definition head_answered :: "read_env \<Rightarrow> read_input \<Rightarrow> nat \<Rightarrow> nat \<Rightarrow> head_answer reply \<Rightarrow> bool" where
  "head_answered env req lo hi r \<longleftrightarrow> (\<exists>t. lo \<le> t \<and> t < hi \<and> r = reply_of (re_head env t req))"

lemma forward_head_answered:
  assumes "forward_head env n req eligible = (r, nd')" "lo \<le> nd_clock n"
  shows "head_answered env req lo (nd_clock nd') r"
proof -
  have "r = reply_of (re_head env (nd_clock n) req)" "nd_clock n < nd_clock nd'"
    using assms(1) by (auto simp: forward_head_def reply_of_def Let_def split: sum.splits if_splits)
  then show ?thesis
    using assms(2) by (auto simp: head_answered_def)
qed

lemma head_absent_iff: "head_from_index nd ckey = AbsentHead \<longleftrightarrow> live (nd_index nd) (fst ckey) (snd ckey) = None"
  by (auto simp: head_from_index_def head_object_from_index_def live_def bucket_entry_def bucket_default_def kr_get_def key_rows_default_def split: option.splits)

lemma head_faithful:
  "head_from_index nd ckey = Faithful out
   \<Longrightarrow> \<exists>e. live (nd_index nd) (fst ckey) (snd ckey) = Some e \<and> is_faithful e \<and> ho_etag out = e_etag e \<and> ho_content_length out = e_size e"
  by (auto simp: head_from_index_def head_object_from_index_def live_def bucket_entry_def split: option.splits if_splits)

text \<open>What a local HEAD reply rests on: a proved copy; a synced bucket's faithful row; or, on a node that is the only
  writer, the absence of the key from a synced bucket.\<close>

definition head_backed :: "read_env \<Rightarrow> node \<Rightarrow> read_input \<Rightarrow> head_answer reply \<Rightarrow> bool" where
  "head_backed env nd' req r \<longleftrightarrow>
     (\<exists>obj. held_copy env nd' (ckey_of req) obj \<and> r = Reply (head_answer_of (to_head obj)))
   \<or> is_synced nd' (ri_bucket req) \<and> (\<exists>out e. head_from_index nd' (ckey_of req) = Faithful out \<and> r = Reply (head_answer_of_index out)
       \<and> live (nd_index nd') (ri_bucket req) (ri_key req) = Some e \<and> is_faithful e \<and> ho_etag out = e_etag e \<and> ho_content_length out = e_size e)
   \<or> is_synced nd' (ri_bucket req) \<and> re_sync env = None \<and> live (nd_index nd') (ri_bucket req) (ri_key req) = None
       \<and> r = Refused no_such_key"

text \<open>C7: A HEAD answers the origin's answer or an entitled local one: under the same entitlement and the same open
  gate as a GET, a proved copy, the faithful row of a synced bucket, or an absence, which only a node without peers
  reports as a missing key.\<close>

theorem head_reply_justified:
  assumes "serve_head env nd req = (r, nd')"
  shows "head_answered env req (nd_clock nd) (nd_clock nd') r
    \<or> entitled env nd req \<and> ri_range req = None \<and> local_read_gate_now env nd' (local_read_fence env nd) \<and> head_backed env nd' req r"
proof -
  let ?e = "ri_range req = None \<and> unconditional_read req"
  obtain local_ok n where route: "(if ?e then local_route env nd (ckey_of req) (ri_read_token req) else (False, nd)) = (local_ok, n)"
    by fastforce
  obtain hit m where hit: "validated_get env n (ckey_of req) = (hit, m)"
    by fastforce
  note run = assms [unfolded serve_head_def Let_def route prod.case hit]
  have n: "nd_clock nd \<le> nd_clock n" "local_ok \<Longrightarrow> entitled env nd req \<and> ri_range req = None"
    using route local_route_result [of env nd "ckey_of req" "ri_read_token req" local_ok n]
    by (auto simp: entitled_def split: if_splits)
  note m = validated_get_holds [OF hit]
  have origin: ?thesis if "nd_clock nd \<le> nd_clock k" "forward_head env k req ?e = (r, nd')" for k
    using forward_head_answered [OF that(2,1)] ..
  show ?thesis
  proof (cases local_ok)
    case False
    then show ?thesis
      using run by (intro origin [OF n(1)]) simp
  next
    case ok: True
    let ?gate = "local_read_gate_now env m (local_read_fence env nd)"
    have m1: "nd_clock nd \<le> nd_clock m"
      using n(1) m(1) by simp
    show ?thesis
    proof (cases "hit \<noteq> None \<and> ?gate")
      case True
      then show ?thesis
        using run ok n(2) m(2) by (auto simp: head_backed_def)
    next
      case miss: False
      show ?thesis
      proof (cases "is_synced m (ri_bucket req) \<and> ?gate")
        case False
        then have "forward_head env m req ?e = (r, nd')"
          using run ok miss by (simp only: not_True_eq_False if_False)
        then show ?thesis
          by (rule origin [OF m1])
      next
        case True
        note step = run [unfolded eqTrueI [OF ok] not_True_eq_False if_False if_not_P [OF miss] if_P [OF True]]
        show ?thesis
        proof (cases "head_from_index m (ckey_of req)")
          case (Faithful out)
          then show ?thesis
            using step True n(2) [OF ok] head_faithful [OF Faithful] by (auto simp: head_backed_def ckey_of_def)
        next
          case IncompleteHead
          then show ?thesis
            using step by (intro origin [OF m1]) simp
        next
          case AbsentHead
          then show ?thesis
            using step True n(2) [OF ok] origin [OF m1] head_absent_iff [of m "ckey_of req"]
            by (auto simp: head_backed_def ckey_of_def index_404_trustworthy_def split: if_splits)
        qed
      qed
    qed
  qed
qed

text \<open>A HEAD answered from the index drops the storage class. A faithful row of an object stored outside the
  default class is served without a storage class, while the origin's own answer, the one that completed the row,
  reports it.\<close>

theorem index_head_drops_class:
  fixes env nd bucket key
  assumes "ob_storage_class ob = ''STANDARD_IA''" "ob_size ob = Some sz" "ob_etag ob = Some tag" "ob_content_type ob = Some ct"
  defines "nd' \<equiv> observe env (nd\<lparr>nd_index := key_index_default\<rparr>) (bucket, key) ob"
  shows "\<exists>e out. live (nd_index nd') bucket key = Some e \<and> e_storage_class e = ''STANDARD_IA''
     \<and> head_from_index nd' (bucket, key) = Faithful out \<and> hr_storage_class (head_answer_of_index out) = None"
proof -
  define t where "t = (case Option.bind (ob_last_modified ob) (\<lambda>t. origin_time (t div nanos_per_sec)) of
      None \<Rightarrow> re_now env (nd_clock nd) | Some t \<Rightarrow> t)"
  define e where "e = \<lparr>e_size = ob_size ob, e_last_modified = t, e_etag = ob_etag ob, e_storage_class = ob_storage_class ob,
      e_content_type = ob_content_type ob, e_meta = Some (ob_meta ob)\<rparr>"
  have "nd_index nd' = fst (apply_observed_put (re_lay env) key_index_default bucket key e)"
    by (simp add: nd'_def observe_def complete_entry_def Let_def e_def t_def bucket_get_def key_index_default_def split: option.split)
  then have entry: "bucket_entry (nd_index nd') bucket = fst (fst (put_bucket (re_lay env) bucket_default (ki_stats key_index_default) key e False))"
    using put_effect(1) [of key_index_default None "re_lay env" bucket key e Observation]
    by (simp add: apply_observed_put_def bucket_entry_insert)
  then have row: "live (nd_index nd') bucket key = Some e"
  proof -
    have "kr_get key_rows_default key = None" "gr_get gone_rows_default key = None"
      by (simp_all add: kr_get_def key_rows_default_def gr_get_def gone_rows_default_def)
    then have "\<not> tombstone_at_least bucket_default key t" "\<not> entry_newer bucket_default key t" for t
      by (simp_all add: tombstone_at_least_def entry_newer_def bucket_default_def)
    then show ?thesis
      using entry by (simp add: live_def put_bucket_def Let_def index_row_fst) (simp add: bucket_default_def)
  qed
  moreover have "is_faithful e"
    using assms by (simp add: is_faithful_def e_def)
  ultimately have "\<exists>out. head_from_index nd' (bucket, key) = Faithful out"
    using head_absent_iff [of nd' "(bucket, key)"] 
    by (auto simp: head_from_index_def head_object_from_index_def live_def bucket_entry_def bucket_default_def split: option.splits if_splits)
  then show ?thesis
    using row assms(1) by (auto simp: e_def head_answer_of_index_def)
qed

section \<open>LIST\<close>

definition list_answered :: "read_env \<Rightarrow> list_request \<Rightarrow> nat \<Rightarrow> nat \<Rightarrow> list_output reply \<Rightarrow> bool" where
  "list_answered env req lo hi r \<longleftrightarrow> (\<exists>t. lo \<le> t \<and> t < hi \<and> r = reply_of (re_list env t req))"

text \<open>The origin's answer to a page that resumes from a local token: asked by key, and dressed as the client asked it.\<close>

definition list_translated :: "read_env \<Rightarrow> list_request \<Rightarrow> nat \<Rightarrow> nat \<Rightarrow> list_output reply \<Rightarrow> bool" where
  "list_translated env req lo hi r \<longleftrightarrow> (\<exists>token cursor r0. classify (re_tokens env) (list_input.truncate req) = Inr (CLocal token cursor)
     \<and> list_answered env (req\<lparr>li_start_after := Some cursor, li_continuation_token := None\<rparr>) lo hi r0
     \<and> r = map_reply (\<lambda>out. out\<lparr>out_continuation_token := Some token, out_start_after := li_start_after req\<rparr>) r0)"

lemma forward_list_answered:
  "forward_list env n req = (r, nd') \<Longrightarrow> lo \<le> nd_clock n \<Longrightarrow> list_answered env req lo (nd_clock nd') r"
  by (auto simp: forward_list_def list_answered_def)

lemma list_request_rewrite:
  "list_input.extend (fst (rewrite_for_origin (list_input.truncate req) token cursor)) (list_input.more req)
   = req\<lparr>li_start_after := Some cursor, li_continuation_token := None\<rparr>"
  by (cases req) (simp add: rewrite_for_origin_def list_input.defs)

lemma list_passthrough_answered:
  assumes "list_passthrough env n req continuation = (r, nd')" "lo \<le> nd_clock n"
    and "classify (re_tokens env) (list_input.truncate req) = Inr continuation"
  shows "list_answered env req lo (nd_clock nd') r \<or> list_translated env req lo (nd_clock nd') r"
proof (cases continuation)
  case (CLocal token cursor)
  let ?req = "req\<lparr>li_start_after := Some cursor, li_continuation_token := None\<rparr>"
  obtain r0 where r0: "forward_list env n ?req = (r0, nd')"
    and r: "r = map_reply (envelope_restore (snd (rewrite_for_origin (list_input.truncate req) token cursor))) r0"
    using assms(1) by (auto simp: list_passthrough_def CLocal list_request_rewrite case_prod_beta) (metis prod.collapse)
  have "r = map_reply (\<lambda>out. out\<lparr>out_continuation_token := Some token, out_start_after := li_start_after req\<rparr>) r0"
    unfolding r by (cases req, cases r0) (simp_all add: rewrite_for_origin_def envelope_restore_def list_input.defs)
  then show ?thesis
    using forward_list_answered [OF r0 assms(2)] assms(3) unfolding list_translated_def CLocal by blast
qed (use assms in \<open>auto simp: list_passthrough_def intro: forward_list_answered\<close>)

text \<open>C8: A LIST answers the origin's answer or the index of a synced bucket. Its reply is an argument error for a token
  this proxy owns and rejects; the origin's reply to the request, or, resuming from a local token, its reply to the
  same page asked by key with the client's token and start restored; or the page computed from the index, and then
  the request needs nothing only the origin knows, the bucket was synced and the barrier passed, and at that moment
  no key of the bucket is fenced and the gate is open.\<close>

theorem list_reply_justified:
  assumes "list_objects_v2 env nd req = (r, nd')"
  shows "r = Refused invalid_argument \<and> (\<exists>e. classify (re_tokens env) (list_input.truncate req) = Inl e)
    \<or> list_answered env req (nd_clock nd) (nd_clock nd') r \<or> list_translated env req (nd_clock nd) (nd_clock nd') r
    \<or> (\<exists>out resume. r = Reply out \<and> \<not> list_origin_only req \<and> is_synced nd (li_bucket req) \<and> licensed env nd
        \<and> fst (read_barrier env nd (lr_read_token req)) = RouteLocal \<and> local_read_gate_now env nd' (local_read_fence env nd)
        \<and> bs_uncertain_keys (bucket_entry (nd_index nd') (li_bucket req)) = []
        \<and> list_objects_v2_from_index (re_tokens env) (map_option bs_keys (bucket_get (nd_index nd') (li_bucket req)))
            (list_input.truncate req) resume = Some out)"
proof (cases "classify (re_tokens env) (list_input.truncate req)")
  case (Inl e)
  then show ?thesis
    using assms by (simp add: list_objects_v2_def)
next
  case (Inr continuation)
  show ?thesis
  proof (cases "continuation = COrigin")
    case True
    then show ?thesis
      using assms Inr forward_list_answered by (auto simp: list_objects_v2_def)
  next
    case False
    let ?ask = "\<not> list_origin_only req \<and> is_synced nd (li_bucket req)"
    obtain local_ok n where route: "(if ?ask then (case read_barrier env nd (lr_read_token req) of (route, nd) \<Rightarrow> (route = RouteLocal, nd))
        else (False, nd)) = (local_ok, n)"
      by fastforce
    have n: "nd_clock nd \<le> nd_clock n"
      "local_ok \<Longrightarrow> ?ask \<and> licensed env nd \<and> fst (read_barrier env nd (lr_read_token req)) = RouteLocal"
      using route read_barrier_clock read_barrier_licensed by (auto split: if_splits prod.splits)
    note run = assms [unfolded list_objects_v2_def Let_def Inr sum.case if_not_P [OF False] route prod.case]
    show ?thesis
    proof (cases "\<exists>out. local_ok \<and> list_from_index env n (list_input.truncate req) (resume_key continuation) = Some out
        \<and> local_read_gate_now env n (local_read_fence env nd)")
      case True
      then obtain out where out: "local_ok" "list_from_index env n (list_input.truncate req) (resume_key continuation) = Some out"
        "local_read_gate_now env n (local_read_fence env nd)"
        by blast
      then have "r = Reply out" "nd' = n"
        using run by simp_all
      moreover have "li_bucket (list_input.truncate req) = li_bucket req"
        by (cases req) (simp add: list_input.defs)
      ultimately show ?thesis
        using out n(2)
        by (auto simp: list_from_index_def bucket_entry_def bucket_default_def split: option.splits if_splits)
    next
      case forwarded: False
      then have "list_passthrough env n req continuation = (r, nd')"
        using run by (auto split: option.splits if_splits)
      then show ?thesis
        using list_passthrough_answered [OF _ n(1) Inr] by blast
    qed
  qed
qed

section \<open>Instances\<close>

text \<open>A node with a peer it has caught up with, one trusted copy, and an origin that refuses everything.\<close>

definition read_env_example :: read_env where
  "read_env_example = \<lparr>re_lay = \<lparr>sz_string = 24, sz_entry_slot = 136, sz_gone_slot = 40, sz_bucket_slot = 256, sz_state = 128,
       sz_etag = 32, sz_class = 24\<rparr>,
     re_sync = Some ModeStrong, re_me = ''n1'', re_max_obj = 100, re_tokens = token_env_example, re_others = (\<lambda>_ n. n),
     re_left = (\<lambda>_ _. None), re_stores = (\<lambda>_. True),
     re_now = (\<lambda>_. 0), re_view = True, re_members = (\<lambda>_. [(''n2'', Some True)]), re_reached = (\<lambda>_. True),
     re_marked = (\<lambda>_. False), re_get = (\<lambda>_ _. Inl internal_error), re_head = (\<lambda>_ _. Inl internal_error),
     re_list = (\<lambda>_ _. Inl internal_error), re_error_text = se_code, re_http_date = (\<lambda>_. None)\<rparr>"

definition node_example :: node where
  "node_example = \<lparr>nd_clock = 0, nd_index = bucket_set key_index_default ''b'' (bucket_default\<lparr>bs_synced := True\<rparr>),
     nd_tiers = [(''b'', ''k'') \<mapsto> cached_example], nd_suspect_gen = 1, nd_lease_valid = True, nd_healthy = True, nd_recovery = None\<rparr>"

definition read_example :: read_input where
  "read_example = \<lparr>ri_bucket = ''b'', ri_key = ''k'', ri_range = None, ri_part_number = None, ri_version_id = None,
     ri_checksum_mode = None, ri_sse_customer_key = None, ri_expected_bucket_owner = None, ri_if_match = None,
     ri_if_none_match = None, ri_if_modified_since = None, ri_if_unmodified_since = None, ri_response_content_type = None,
     ri_response_content_disposition = None, ri_response_content_encoding = None, ri_response_content_language = None,
     ri_response_cache_control = None, ri_response_expires = None, ri_read_token = Some ''n1:1:1''\<rparr>"

definition list_request_example :: list_request where
  "list_request_example = \<lparr>li_bucket = ''b'', li_prefix = None, li_delimiter = None, li_max_keys = Some 5, li_start_after = None,
     li_continuation_token = None, lr_encoding_type = None, lr_fetch_owner = None, lr_expected_bucket_owner = None, lr_read_token = None\<rparr>"

lemmas read_example_defs = read_env_example_def node_example_def read_example_def list_request_example_def pause_def
  local_read_fence_def local_read_gate_now_def licensed_def may_serve_local_def may_serve_local_in_generation_def
  mode_allows_local_def recovery_generation_permits_def key_uncertain_def is_synced_def
  bucket_get_def bucket_set_def key_index_default_def bucket_default_def await_fresh_def

lemma read_token_example: "parse_token ''n1:1:1'' = Some (''n1'', 1, 1)"
  by (simp add: parse_token_def rsplit_once_def parse_u64_def u64_max_def Let_def)

lemma route_example:
  "local_route read_env_example node_example (''b'', ''k'') (Some ''n1:1:1'') = (True, pause read_env_example (pause read_env_example node_example))"
  by (simp add: local_route_def read_barrier_def Let_def reached_token_def read_token_example) (simp add: read_example_defs)

lemma validated_example:
  "validated_get read_env_example (pause read_env_example (pause read_env_example node_example)) (''b'', ''k'')
   = (Some cached_example, pause read_env_example (pause read_env_example (pause read_env_example node_example)))"
proof -
  let ?n = "pause read_env_example (pause read_env_example (pause read_env_example node_example))"
  have "nd_tiers ?n (''b'', ''k'') = Some cached_example" "trusted cached_example (nd_suspect_gen ?n)"
    by (simp_all add: pause_def node_example_def read_env_example_def trusted_def cached_example_def)
  then show ?thesis
    by (simp add: validated_get_def Let_def)
qed

lemma read_example_plain:
  "unconditional_read read_example" "ri_range read_example = None" "ckey_of read_example = (''b'', ''k'')"
  "ri_bucket read_example = ''b''" "ri_read_token read_example = Some ''n1:1:1''"
  by (simp_all add: read_example_def unconditional_read_def origin_only_read_def ckey_of_def)

lemma gate_example:
  "local_read_gate_now read_env_example (pause read_env_example (pause read_env_example (pause read_env_example node_example)))
     (local_read_fence read_env_example node_example)"
  by (simp add: read_example_defs)

lemma serve_get_example:
  "serve_get read_env_example node_example read_example = (Reply (get_answer_of (to_get cached_example)),
     pause read_env_example (pause read_env_example (pause read_env_example node_example)))"
  by (simp add: serve_get_def Let_def read_example_plain cached_range_from_request_def route_example serve_whole_def
      validated_example gate_example)

lemma serve_head_example:
  "serve_head read_env_example node_example read_example = (Reply (head_answer_of (to_head cached_example)),
     pause read_env_example (pause read_env_example (pause read_env_example node_example)))"
  by (simp add: serve_head_def Let_def read_example_plain route_example validated_example gate_example)

lemma get_reply_justified_witness:
  "origin_answered read_env_example read_example 0 3 (Reply (get_answer_of (to_get cached_example)))
    \<or> entitled read_env_example node_example read_example \<and> get_outcome read_env_example 0
        (pause read_env_example (pause read_env_example (pause read_env_example node_example)))
        read_example (local_read_fence read_env_example node_example) (Reply (get_answer_of (to_get cached_example)))"
proof -
  have "nd_clock node_example = 0"
    by (simp add: node_example_def)
  then show ?thesis
    using get_reply_justified [OF serve_get_example] by (simp add: numeral_3_eq_3)
qed

lemma head_reply_justified_witness:
  "head_answered read_env_example read_example 0 3 (Reply (head_answer_of (to_head cached_example)))
    \<or> entitled read_env_example node_example read_example \<and> ri_range read_example = None
      \<and> local_read_gate_now read_env_example (pause read_env_example (pause read_env_example (pause read_env_example node_example)))
          (local_read_fence read_env_example node_example)
      \<and> head_backed read_env_example (pause read_env_example (pause read_env_example (pause read_env_example node_example)))
          read_example (Reply (head_answer_of (to_head cached_example)))"
proof -
  have "nd_clock node_example = 0"
    by (simp add: node_example_def)
  then show ?thesis
    using head_reply_justified [OF serve_head_example] by (simp add: numeral_3_eq_3)
qed

lemma list_reply_justified_witness:
  "\<exists>r nd'. list_objects_v2 read_env_example node_example list_request_example = (r, nd')
    \<and> (list_answered read_env_example list_request_example 0 (nd_clock nd') r
       \<or> list_translated read_env_example list_request_example 0 (nd_clock nd') r
       \<or> (\<exists>out resume. r = Reply out \<and> list_objects_v2_from_index (re_tokens read_env_example)
            (map_option bs_keys (bucket_get (nd_index nd') ''b'')) (list_input.truncate list_request_example) resume = Some out))"
proof -
  obtain r nd' where run: "list_objects_v2 read_env_example node_example list_request_example = (r, nd')"
    by fastforce
  have "classify (re_tokens read_env_example) (list_input.truncate list_request_example) = Inr CAbsent"
    "nd_clock node_example = 0" "li_bucket list_request_example = ''b''"
    by (simp_all add: classify_def list_request_example_def list_input.defs node_example_def)
  then show ?thesis
    using list_reply_justified [OF run] run by auto
qed

definition observed_example :: observed_object where
  "observed_example = \<lparr>ob_size = Some 5, ob_last_modified = Some 1000000000, ob_etag = Some (Strong ''t''), ob_content_type = Some ''c'',
     ob_storage_class = ''STANDARD_IA'', ob_meta = obj_meta_default\<rparr>"

lemma index_head_drops_class_witness:
  "\<exists>e out. live (nd_index (observe read_env_example (node_example\<lparr>nd_index := key_index_default\<rparr>) (''b'', ''k'') observed_example)) ''b'' ''k'' = Some e
     \<and> e_storage_class e = ''STANDARD_IA''
     \<and> head_from_index (observe read_env_example (node_example\<lparr>nd_index := key_index_default\<rparr>) (''b'', ''k'') observed_example) (''b'', ''k'')
         = Faithful out \<and> hr_storage_class (head_answer_of_index out) = None"
  by (rule index_head_drops_class) (simp_all add: observed_example_def)

end
