(* ===== verification/Write_Props.thy ===== *)
theory Write_Props
  imports Writes Read_Props
begin

text \<open>
  What the write handlers of \<^verbatim>\<open>Writes\<close> promise, whatever the other tasks of the node do meanwhile: what a mutation
  publishes and answers for each answer of the origin, which older bodies outlive it, and that the reconciliation of an
  unknown outcome ends. What an error proves, when a write is guaranteed and what the origin deleted are stated here on their
  own terms, not with the handlers' functions.
\<close>

section \<open>What a request publishes\<close>

lemma ws_log_simps [simp]:
  "ws_feed (ws_pause env s) = ws_feed s" "ws_reconciling (ws_pause env s) = ws_reconciling s"
  "ws_feed (ws_invalidate env s ckey) = ws_feed s" "ws_reconciling (ws_invalidate env s ckey) = ws_reconciling s"
  "ws_feed (set_index s st) = ws_feed s" "ws_reconciling (set_index s st) = ws_reconciling s"
  "ws_feed (publish s ev) = ws_feed s @ [ev]" "ws_reconciling (publish s ev) = ws_reconciling s"
  "ws_feed (start_reconcile s ckey token) = ws_feed s"
  "ws_reconciling (start_reconcile s ckey token) = ws_reconciling s @ [(ckey, token)]"
  "ws_feed (keep_written env s ckey written tag ct meta generation) = ws_feed s"
  "ws_reconciling (keep_written env s ckey written tag ct meta generation) = ws_reconciling s"
  by (simp_all add: ws_pause_def ws_invalidate_def set_index_def publish_def start_reconcile_def keep_written_def Let_def
      split: option.split)

lemma ws_clock_simps [simp]:
  "ws_clock (ws_pause env s) = Suc (ws_clock s)" "ws_clock (set_index s st) = ws_clock s" "ws_clock (publish s ev) = ws_clock s"
  "ws_clock (start_reconcile s ckey token) = ws_clock s" "ws_clock (ws_invalidate env s ckey) = Suc (ws_clock s)"
  by (simp_all add: ws_clock_def ws_pause_def pause_def set_index_def publish_def start_reconcile_def ws_invalidate_def tier_invalidate_def)

lemma await_cluster_log [simp]:
  "ws_feed (snd (await_cluster env s receipt)) = ws_feed s" "ws_reconciling (snd (await_cluster env s receipt)) = ws_reconciling s"
  by (simp_all add: await_cluster_def split: option.split)

lemma settle_cluster_log [simp]:
  "ws_feed (settle_cluster env s receipt) = ws_feed s" "ws_reconciling (settle_cluster env s receipt) = ws_reconciling s"
  by (simp_all add: settle_cluster_def)

lemma upstream_meta_log [simp]:
  "ws_feed (snd (upstream_meta env s ckey)) = ws_feed s" "ws_reconciling (snd (upstream_meta env s ckey)) = ws_reconciling s"
  by (simp_all add: upstream_meta_def Let_def split: sum.split)

lemma copy_entry_log [simp]:
  "ws_feed (snd (copy_entry env s inp copied)) = ws_feed s" "ws_reconciling (snd (copy_entry env s inp copied)) = ws_reconciling s"
  by (simp_all add: copy_entry_def case_prod_beta split: option.split)

lemma await_cluster_not_panicked: "fst (await_cluster env s receipt) \<noteq> Panicked"
  by (simp add: await_cluster_def split: option.split)

text \<open>An answer proves that the origin refused a mutation when it carries a status that is neither a server failure nor a
  timed-out request, and is not a 412 for a precondition the node itself vouched for.\<close>

definition definite_refusal :: "s3_error \<Rightarrow> bool \<Rightarrow> bool" where
  "definite_refusal e vouched \<longleftrightarrow> (\<exists>status. se_status e = Some status \<and> status div 100 \<noteq> 5 \<and> status \<noteq> 408 \<and> \<not> (vouched \<and> status = 412))"

lemma uncertain_iff: "uncertain_mutation_error e vouched = None \<longleftrightarrow> definite_refusal e vouched"
proof (cases "se_status e")
  case (Some status)
  have "status div 100 = 5 \<longleftrightarrow> 500 \<le> status \<and> status \<le> 599"
    using less_eq_div_iff_mult_less_eq [of 100 5 status] div_less_iff_less_mult [of 100 status 6] by linarith
  then show ?thesis
    using Some by (auto simp: uncertain_mutation_error_def definite_refusal_def)
qed (simp add: uncertain_mutation_error_def definite_refusal_def)

lemma uncertain_completion_iff: "uncertain_completion_error e = None \<longleftrightarrow> definite_refusal e False \<and> se_code e \<noteq> ''NoSuchUpload''"
  unfolding uncertain_iff [symmetric] by (simp add: uncertain_completion_error_def split: option.split)

text \<open>What each mode promises of an acknowledged write: nothing; that every peer acknowledged it; or, with leases, that every
  holder applied it or lost its lease, and every peer outside the lease tier acknowledged it.\<close>

definition cluster_guarantee :: "write_env \<Rightarrow> nat \<Rightarrow> consistency \<Rightarrow> bool" where
  "cluster_guarantee env t c \<longleftrightarrow> c = Bounded
     \<or> c = ModeStrong \<and> we_has_leases env \<and> (we_coherent env t = AllApplied \<or> (\<exists>ps. we_coherent env t = LeaseLapsed ps)) \<and> we_insured env t
     \<or> (c = StrongAcks \<or> c = ModeStrong \<and> \<not> we_has_leases env) \<and> we_acked env t"

lemma ack_write_iff: "ack_write env t c \<longleftrightarrow> cluster_guarantee env t c"
  by (cases c; cases "we_coherent env t")
    (auto simp: ack_write_def cluster_guarantee_def guaranteed_def wait_cluster_applied_def wait_leased_def)

lemma truncate_others [simp]:
  "re_others (renv env) = re_others env" "re_sync (renv env) = re_sync env" "re_left (renv env) = re_left env" "re_stores (renv env) = re_stores env"
  by (simp_all add: read_env.defs)

text \<open>The other tasks keep the fence of a key; they only evict it; what the tiers that failed to delete it still hold; and that
  the node holds no other copy than these and the given ones.\<close>

definition keeps_fence :: "write_env \<Rightarrow> cache_key \<Rightarrow> bool" where
  "keeps_fence env ckey \<longleftrightarrow> (\<forall>t n. fence_of (nd_index (re_others env t n)) (fst ckey) (snd ckey) = fence_of (nd_index n) (fst ckey) (snd ckey))"

definition only_evicts :: "write_env \<Rightarrow> cache_key \<Rightarrow> bool" where
  "only_evicts env ckey \<longleftrightarrow> (\<forall>t n. nd_tiers (re_others env t n) ckey = None \<or> nd_tiers (re_others env t n) ckey = nd_tiers n ckey)"

definition left_over :: "write_env \<Rightarrow> cache_key \<Rightarrow> cached_object set" where
  "left_over env ckey = {obj. \<exists>t. re_left env t ckey = Some obj}"

definition at_most :: "write_env \<Rightarrow> cache_key \<Rightarrow> cached_object set \<Rightarrow> write_state \<Rightarrow> bool" where
  "at_most env ckey copies s \<longleftrightarrow> set_option (nd_tiers (ws_node s) ckey) \<subseteq> left_over env ckey \<union> copies"

named_theorems keeps_copy

lemma at_most_simps [keeps_copy]:
  "at_most env ckey copies s \<Longrightarrow> at_most env ckey copies (set_index s st)"
  "at_most env ckey copies s \<Longrightarrow> at_most env ckey copies (publish s ev)"
  "at_most env ckey copies s \<Longrightarrow> at_most env ckey copies (start_reconcile s k token)"
  by (simp_all add: at_most_def set_index_def publish_def start_reconcile_def)

lemma at_most_pause [keeps_copy]:
  assumes "only_evicts env ckey" "at_most env ckey copies s"
  shows "at_most env ckey copies (ws_pause env s)"
proof -
  have "nd_tiers (re_others env (nd_clock (ws_node s)) (ws_node s)) ckey = None
      \<or> nd_tiers (re_others env (nd_clock (ws_node s)) (ws_node s)) ckey = nd_tiers (ws_node s) ckey"
    using assms(1) by (simp add: only_evicts_def)
  then show ?thesis
    using assms(2) by (auto simp: at_most_def ws_pause_def pause_def)
qed

lemma ws_invalidate_pause:
  "ws_invalidate env s k = ws_pause env (s\<lparr>ws_node := (ws_node s)\<lparr>nd_tiers := (nd_tiers (ws_node s))(k := re_left env (ws_clock s) k)\<rparr>\<rparr>)"
  by (simp add: ws_invalidate_def ws_pause_def tier_invalidate_def ws_clock_def)

lemma at_most_invalidate [keeps_copy]:
  "only_evicts env ckey \<Longrightarrow> at_most env ckey copies s \<Longrightarrow> at_most env ckey copies (ws_invalidate env s k)"
  "only_evicts env ckey \<Longrightarrow> at_most env ckey {} (ws_invalidate env s ckey)"
  unfolding ws_invalidate_pause by (rule at_most_pause; auto simp: at_most_def left_over_def)+

lemma at_most_await [keeps_copy]:
  "only_evicts env ckey \<Longrightarrow> at_most env ckey copies s \<Longrightarrow> at_most env ckey copies (snd (await_cluster env s receipt))"
  "only_evicts env ckey \<Longrightarrow> at_most env ckey copies s \<Longrightarrow> at_most env ckey copies (settle_cluster env s receipt)"
  by (auto simp: await_cluster_def settle_cluster_def intro: keeps_copy split: option.split)

lemma key_uncertain_iff: "key_uncertain nd ckey \<longleftrightarrow> fence_of (nd_index nd) (fst ckey) (snd ckey) \<noteq> None"
  by (simp add: key_uncertain_def fence_of_def bucket_entry_def bucket_default_def split: option.split)

lemma fenced_pause: "keeps_fence env ckey \<Longrightarrow> key_uncertain (ws_node s) ckey \<Longrightarrow> key_uncertain (ws_node (ws_pause env s)) ckey"
  by (simp add: key_uncertain_iff keeps_fence_def ws_pause_def pause_def)

lemma fenced_invalidate: "keeps_fence env ckey \<Longrightarrow> key_uncertain (ws_node s) ckey \<Longrightarrow> key_uncertain (ws_node (ws_invalidate env s k)) ckey"
  unfolding ws_invalidate_pause by (rule fenced_pause) (simp_all add: key_uncertain_iff)

text \<open>An announcement publishes one event that describes nothing and starts one reconciliation of its key; the key is fenced,
  as long as the other tasks keep its fence, and no copy of it is left but those a tier failed to delete, as long as they
  only evict it.\<close>

definition announced :: "write_env \<Rightarrow> string \<Rightarrow> string \<Rightarrow> write_state \<Rightarrow> write_state \<Rightarrow> bool" where
  "announced env bucket key s s' \<longleftrightarrow>
     (\<exists>token. ws_reconciling s' = ws_reconciling s @ [((bucket, key), token)])
   \<and> (if re_sync env = None then ws_feed s' = ws_feed s else \<exists>now. ws_feed s' = ws_feed s @ [unknown_event bucket key now])
   \<and> (keeps_fence env (bucket, key) \<longrightarrow> key_uncertain (ws_node s') (bucket, key))
   \<and> (only_evicts env (bucket, key) \<longrightarrow> at_most env (bucket, key) {} s')"

definition silent :: "write_state \<Rightarrow> write_state \<Rightarrow> bool" where
  "silent s s' \<longleftrightarrow> ws_feed s' = ws_feed s \<and> ws_reconciling s' = ws_reconciling s"

lemma index_unknown_event: "index_unknown st bucket key now position = Some (st', token, ev) \<Longrightarrow> ev = unknown_event bucket key now"
  by (auto simp: index_unknown_def fence_own_uncertain_key_def split: prod.splits)

lemma fence_key_uncertain:
  assumes "fence_key st bucket key = Some (st', token)"
  shows "key_uncertain (ws_node (set_index s st')) (bucket, key)"
  using fence_key_Some(3) [OF assms, of bucket key] by (simp add: key_uncertain_iff set_index_def)

lemma announce_unknown_announces:
  assumes "announce_unknown env s bucket key = Some (receipt, s')"
  shows "announced env bucket key s s'"
proof (cases "re_sync env = None")
  case True
  then obtain st token where st: "fence_uncertain_key (index_of s) bucket key = Some (st, token)"
    and s': "s' = ws_invalidate env (start_reconcile (set_index s st) (bucket, key) token) (bucket, key)"
    using assms by (auto simp: announce_unknown_def split: option.splits)
  have "key_uncertain (ws_node (start_reconcile (set_index s st) (bucket, key) token)) (bucket, key)"
    using fence_key_uncertain [OF st [unfolded fence_uncertain_key_def], of s] by (simp add: start_reconcile_def)
  then show ?thesis
    using True fenced_invalidate unfolding s' by (auto simp: announced_def intro: keeps_copy)
next
  case False
  then obtain st token ev where st: "index_unknown (index_of s) bucket key (re_now env (ws_clock s)) (we_position env (ws_clock s)) = Some (st, token, ev)"
    and s': "s' = ws_pause env (ws_invalidate env (start_reconcile (publish (set_index s st) ev) (bucket, key) token) (bucket, key))"
    using assms by (auto simp: announce_unknown_def split: option.splits)
  have "\<exists>st0. fence_key st0 bucket key = Some (st, token)"
    using st by (auto simp: index_unknown_def fence_own_uncertain_key_def)
  then have "key_uncertain (ws_node (start_reconcile (publish (set_index s st) ev) (bucket, key) token)) (bucket, key)"
    using fence_key_uncertain [of _ bucket key st token s] by (auto simp: start_reconcile_def publish_def)
  then show ?thesis
    using False fenced_invalidate fenced_pause index_unknown_event [OF st] unfolding s' by (auto simp: announced_def intro: keeps_copy)
qed

lemma announce_unknown_published:
  assumes "announce_unknown env s bucket key = Some (receipt, s')" "re_sync env \<noteq> None"
  shows "receipt = Some (we_position env (ws_clock s))" "ws_clock s' = ws_clock s + 2"
    and "ws_feed s' = ws_feed s @ [unknown_event bucket key (re_now env (ws_clock s))]"
  using assms by (auto simp: announce_unknown_def dest!: index_unknown_event split: option.splits)

lemma fenced_await: "keeps_fence env ckey \<Longrightarrow> key_uncertain (ws_node s) ckey \<Longrightarrow> key_uncertain (ws_node (snd (await_cluster env s receipt))) ckey"
  by (auto simp: await_cluster_def fenced_pause split: option.split)

lemma announced_await: "announced env bucket key s s1 \<Longrightarrow> announced env bucket key s (snd (await_cluster env s1 receipt))"
  by (auto simp: announced_def fenced_await intro: keeps_copy)

lemma publish_unknown_announces: "publish_unknown env s bucket key = Some s' \<Longrightarrow> announced env bucket key s s'"
  by (auto simp: publish_unknown_def settle_cluster_def dest!: announce_unknown_announces intro: announced_await)

lemma announced_from: "announced env bucket key s0 s' \<Longrightarrow> silent s s0 \<Longrightarrow> announced env bucket key s s'"
  by (auto simp: announced_def silent_def split: if_splits)

lemma fail_put_result:
  assumes "fail_put env s0 bucket key e reason = (r, s')" "r \<noteq> Panicked" "silent s s0"
  shows "r = Refused e \<and> (if reason = None then silent s s' else announced env bucket key s s')"
  using assms by (auto simp: fail_put_def split: option.splits dest!: publish_unknown_announces intro: announced_from)

text \<open>What recording a put does to the log, and what it answers: an acknowledgement only under the guarantee.\<close>

lemma record_put_result:
  assumes "record_put_write env s bucket key e = (r, s')" "r \<noteq> Panicked" "re_sync env = Some c"
  shows "if e_etag e = None \<and> e_size e = None
    then announced env bucket key s s' \<and> ws_feed s' = ws_feed s @ [unknown_event bucket key (re_now env (ws_clock s))]
      \<and> r = (if cluster_guarantee env (ws_clock s + 2) c then Reply (Some (receipt_header (we_position env (ws_clock s))))
             else Refused service_unavailable)
    else ws_reconciling s' = ws_reconciling s
      \<and> ws_feed s' = ws_feed s @ [put_event bucket key (e\<lparr>e_last_modified := wire_stamp (re_now env (ws_clock s))\<rparr>)]
      \<and> r = (if cluster_guarantee env (Suc (ws_clock s)) c then Reply (Some (receipt_header (we_position env (ws_clock s))))
             else Refused service_unavailable)"
proof (cases "e_etag e = None \<and> e_size e = None")
  case True
  then obtain receipt s1 where s1: "announce_unknown env s bucket key = Some (receipt, s1)" "await_cluster env s1 receipt = (r, s')"
    using assms(1,2) by (auto simp: record_put_write_def split: option.splits)
  then have "announced env bucket key s s1"
    using announce_unknown_announces by blast
  then have "announced env bucket key s s'"
    using announced_await [of env bucket key s s1 receipt] s1(2) by simp
  moreover have "re_sync env \<noteq> None"
    using assms(3) by simp
  note published = announce_unknown_published [OF s1(1) this]
  have "ws_feed s' = ws_feed s1"
    using s1(2) await_cluster_log(1) [of env s1 receipt] by simp
  ultimately show ?thesis
    using True s1(2) published assms(3) by (simp add: await_cluster_def ack_write_iff split: if_splits)
next
  case False
  let ?e = "e\<lparr>e_last_modified := wire_stamp (re_now env (ws_clock s))\<rparr>" and ?p = "we_position env (ws_clock s)"
  obtain st changed ev where put: "index_put (re_lay env) (index_of s) bucket key ?e ?p = (st, changed, ev)"
    by (metis prod_cases3)
  then have "ev = put_event bucket key ?e"
    by (auto simp: index_put_def apply_own_put_def split: prod.splits)
  moreover have "await_cluster env (ws_pause env (publish (set_index s st) ev)) (Some ?p) = (r, s')"
    using assms(1,3) False put by (auto simp: record_put_write_def Let_def)
  ultimately show ?thesis
    using False assms(3) by (auto simp: await_cluster_def ack_write_iff)
qed

lemma silent_simps [simp]: "silent s s" "silent s (ws_pause env s)" "silent s (ws_invalidate env (ws_pause env s) ckey)"
  by (simp_all add: silent_def)

lemma finish_reply:
  assumes "(case x of (Reply token, s) \<Rightarrow> (Reply (f token), s) | (Refused err, s) \<Rightarrow> (Refused err, s) | (Panicked, s) \<Rightarrow> (Panicked, s)) = (r, s')"
  shows "snd x = s'" "r = map_reply f (fst x)"
  using assms by (auto split: prod.splits reply.splits)

text \<open>C4: What a PUT publishes and answers. With peers, whatever the other tasks do: a refusal by the origin is passed on. It
  publishes nothing when it proves the write was refused (a status that is neither a 5xx nor a 408, nor a 412 for a
  precondition the node vouched for); else exactly one event that describes nothing is published for the key and
  one reconciliation of it is started. A success publishes exactly one event, which carries the size the request
  declared and the tag the origin answered (or describes nothing, and is reconciled, when neither is known). Either way it
  is acknowledged, with the session token of that event, only under the guarantee of the mode: with leases, that every holder applied it
  or lost its lease and every other peer acknowledged it; without, that every peer acknowledged it; in bounded mode always. Otherwise the answer
  is a 503.\<close>

theorem put_outcome_exact:
  assumes "put_tail env orig inp generation written vouched s = (r, s')" "r \<noteq> Panicked" "re_sync env = Some c"
  shows "case we_put env (ws_clock s) inp of
      Inl e \<Rightarrow> r = Refused e
        \<and> (if definite_refusal e vouched then silent s s' else announced env (pi_bucket inp) (pi_key inp) s s')
    | Inr resp \<Rightarrow> \<exists>t.
        if pr_e_tag resp = None \<and> pi_content_length orig = None
        then announced env (pi_bucket inp) (pi_key inp) s s'
          \<and> ws_feed s' = ws_feed s @ [unknown_event (pi_bucket inp) (pi_key inp) (re_now env t)]
          \<and> r = (if cluster_guarantee env (t + 2) c
               then Reply (resp\<lparr>pr_write_token := attached (Some (receipt_header (we_position env t))) (pr_write_token resp)\<rparr>)
               else Refused service_unavailable)
        else ws_reconciling s' = ws_reconciling s
          \<and> ws_feed s' = ws_feed s @ [put_event (pi_bucket inp) (pi_key inp)
              ((put_entry orig)\<lparr>e_etag := pr_e_tag resp, e_last_modified := wire_stamp (re_now env t)\<rparr>)]
          \<and> r = (if cluster_guarantee env (t + 1) c
               then Reply (resp\<lparr>pr_write_token := attached (Some (receipt_header (we_position env t))) (pr_write_token resp)\<rparr>)
               else Refused service_unavailable)"
proof (cases "we_put env (ws_clock s) inp")
  case (Inl e)
  then have "fail_put env (ws_pause env s) (pi_bucket inp) (pi_key inp) e (uncertain_mutation_error e vouched) = (r, s')"
    using assms(1) by (simp add: put_tail_def)
  from fail_put_result [OF this assms(2) silent_simps(2)] show ?thesis
    using Inl by (simp add: uncertain_iff)
next
  case (Inr resp)
  let ?e = "(put_entry orig)\<lparr>e_etag := pr_e_tag resp\<rparr>" and ?ckey = "(pi_bucket inp, pi_key inp)"
  define s1 where "s1 = keep_written env (ws_invalidate env (ws_pause env s) ?ckey) ?ckey written (e_etag ?e) (pi_content_type orig) (put_meta orig) generation"
  obtain r1 s2 where rec: "record_put_write env s1 (pi_bucket inp) (pi_key inp) ?e = (r1, s2)"
    by fastforce
  have fin: "s2 = s'" "r = map_reply (\<lambda>token. resp\<lparr>pr_write_token := attached token (pr_write_token resp)\<rparr>) r1"
    using finish_reply [where x = "record_put_write env s1 (pi_bucket inp) (pi_key inp) ?e"
        and f = "\<lambda>token. resp\<lparr>pr_write_token := attached token (pr_write_token resp)\<rparr>" and r = r and s' = s'] assms(1) rec
    by (simp_all add: put_tail_def Inr s1_def)
  then have "r1 \<noteq> Panicked"
    using assms(2) by auto
  note result = record_put_result [OF rec this assms(3)]
  have log: "silent s s1"
    by (simp add: s1_def silent_def)
  have size: "e_size ?e = pi_content_length orig" "e_etag ?e = pr_e_tag resp"
    by (simp_all add: put_entry_def)
  show ?thesis
  proof (cases "pr_e_tag resp = None \<and> pi_content_length orig = None")
    case True
    then show ?thesis
      using result size fin announced_from [OF _ log] log Inr by (auto simp: silent_def intro!: exI [of _ "ws_clock s1"])
  next
    case False
    then show ?thesis
      using result size fin log Inr by (auto simp: silent_def intro!: exI [of _ "ws_clock s1"])
  qed
qed

lemma observe_log [simp]: "silent s (copy_conflict env s0 inp) = silent s s0"
proof -
  have "ws_feed (copy_conflict env s0 inp) = ws_feed s0 \<and> ws_reconciling (copy_conflict env s0 inp) = ws_reconciling s0"
    using upstream_meta_log [of env s0 "(pc_bucket inp, pc_key inp)"]
    by (cases "upstream_meta env s0 (pc_bucket inp, pc_key inp)") (simp add: copy_conflict_def Let_def split: option.split)
  then show ?thesis
    by (simp add: silent_def)
qed

lemma copy_failed:
  assumes "copy_tail env inp s = (r, s')" "r \<noteq> Panicked" "we_copy env (ws_clock s) inp = Inl e"
  shows "r = Refused e \<and> (if definite_refusal e False then silent s s' else announced env (pc_bucket inp) (pc_key inp) s s')"
proof (cases "copy_conflict_needs_reconcile e (destination_must_be_absent inp)")
  case True
  then have "definite_refusal e False"
    by (simp add: copy_conflict_needs_reconcile_def definite_refusal_def)
  then show ?thesis
    using True assms(1,3) by (auto simp: copy_tail_def)
next
  case False
  then show ?thesis
    using fail_put_result [OF _ assms(2) silent_simps(2), where e = e and reason = "uncertain_mutation_error e False" and s = s and s' = s'] assms(1,3)
    by (simp add: copy_tail_def uncertain_iff)
qed

text \<open>C10: An ambiguous failure of any single-key mutation is announced, and a definite one is silent. When the origin
  answers a PUT, DELETE, completion or copy with an error that does not prove it refused the write (no status, a 5xx, a 408, for a PUT a 412
  whose precondition the node vouched for, for a completion that the upload is gone), the key is fenced
  and reconciled and one event that describes nothing is published for it before the error is answered; any other
  error, the conflict of a create-only copy included, publishes nothing and starts no reconciliation.\<close>

theorem ambiguous_failure_announced:
  "(\<forall>r s'. put_tail env orig inp generation written vouched s = (r, s') \<and> r \<noteq> Panicked \<and> we_put env (ws_clock s) inp = Inl e
      \<longrightarrow> r = Refused e \<and> (if definite_refusal e vouched then silent s s' else announced env (pi_bucket inp) (pi_key inp) s s'))
   \<and> (\<forall>r s'. delete_tail env din s = (r, s') \<and> r \<noteq> Panicked \<and> we_delete env (ws_clock s) din = Inl e
      \<longrightarrow> r = Refused e \<and> (if definite_refusal e False then silent s s' else announced env (di_bucket din) (di_key din) s s'))
   \<and> (\<forall>r s'. complete_tail env cin s = (r, s') \<and> r \<noteq> Panicked \<and> we_complete env (ws_clock s) cin = Inl e
      \<longrightarrow> r = Refused e \<and> (if definite_refusal e False \<and> se_code e \<noteq> ''NoSuchUpload'' then silent s s'
            else announced env (ci_bucket cin) (ci_key cin) s s'))
   \<and> (\<forall>r s'. copy_tail env pin s = (r, s') \<and> r \<noteq> Panicked \<and> we_copy env (ws_clock s) pin = Inl e
      \<longrightarrow> r = Refused e \<and> (if definite_refusal e False then silent s s' else announced env (pc_bucket pin) (pc_key pin) s s'))"
proof -
  note failed = fail_put_result [OF _ _ silent_simps(2)]
  show ?thesis
    unfolding uncertain_completion_iff [symmetric]
  proof (intro conjI)
    show "\<forall>r s'. put_tail env orig inp generation written vouched s = (r, s') \<and> r \<noteq> Panicked \<and> we_put env (ws_clock s) inp = Inl e
      \<longrightarrow> r = Refused e \<and> (if definite_refusal e vouched then silent s s' else announced env (pi_bucket inp) (pi_key inp) s s')"
      unfolding uncertain_iff [symmetric] by (intro allI impI, elim conjE, rule failed) (simp_all add: put_tail_def)
    show "\<forall>r s'. delete_tail env din s = (r, s') \<and> r \<noteq> Panicked \<and> we_delete env (ws_clock s) din = Inl e
      \<longrightarrow> r = Refused e \<and> (if definite_refusal e False then silent s s' else announced env (di_bucket din) (di_key din) s s')"
      unfolding uncertain_iff [symmetric] by (intro allI impI, elim conjE, rule failed) (simp_all add: delete_tail_def)
    show "\<forall>r s'. complete_tail env cin s = (r, s') \<and> r \<noteq> Panicked \<and> we_complete env (ws_clock s) cin = Inl e
      \<longrightarrow> r = Refused e \<and> (if uncertain_completion_error e = None then silent s s' else announced env (ci_bucket cin) (ci_key cin) s s')"
      by (intro allI impI, elim conjE, rule failed) (simp_all add: complete_tail_def)
    show "\<forall>r s'. copy_tail env pin s = (r, s') \<and> r \<noteq> Panicked \<and> we_copy env (ws_clock s) pin = Inl e
      \<longrightarrow> r = Refused e \<and> (if definite_refusal e False then silent s s' else announced env (pc_bucket pin) (pc_key pin) s s')"
      using copy_failed by blast
  qed
qed

section \<open>Batch delete\<close>

text \<open>What an event is about: the time of a publication is not part of it.\<close>

definition about :: "index_event \<Rightarrow> index_op \<times> string \<times> string" where
  "about ev = (ie_op ev, ie_bucket ev, ie_key ev)"

lemma record_delete_write_log:
  assumes "record_delete_write env s bucket key versioned = Some (receipt, s')" "re_sync env \<noteq> None"
  shows "map about (ws_feed s') = map about (ws_feed s) @ [(if versioned then op_unknown else OpDel, bucket, key)]"
proof (cases versioned)
  case True
  then have "announced env bucket key s s'"
    using assms(1) by (auto simp: record_delete_write_def intro: announce_unknown_announces)
  then show ?thesis
    using True assms(2) by (auto simp: announced_def about_def unknown_event_def)
next
  case False
  then have "s' = snd (record_del env s bucket key)"
    using assms(1) by (auto simp: record_delete_write_def)
  then show ?thesis
    using False assms(2)
    by (auto simp: record_del_def Let_def about_def index_del_def apply_own_del_def del_event_def split: prod.splits)
qed

lemma delete_each_log:
  assumes "delete_each env s bucket applied keys receipt = Some (receipt', s')" "re_sync env \<noteq> None"
  shows "map about (ws_feed s') = map about (ws_feed s)
    @ map (\<lambda>(key, versioned). (if versioned then op_unknown else OpDel, bucket, key)) (filter (\<lambda>(key, _). applied key) keys)"
  using assms
proof (induction env s bucket applied keys receipt rule: delete_each.induct)
  case (2 env s bucket applied key versioned rest receipt)
  show ?case
  proof (cases "applied key")
    case False
    then show ?thesis
      using 2 by simp
  next
    case True
    then obtain published s1 where s1: "record_delete_write env (ws_invalidate env s (bucket, key)) bucket key versioned = Some (published, s1)"
      and rest: "delete_each env s1 bucket applied rest (case published of None \<Rightarrow> receipt | Some _ \<Rightarrow> published) = Some (receipt', s')"
      using 2(3) by (auto split: option.splits)
    note ih = 2(2) [OF _ s1 refl rest 2(4)]
    show ?thesis
      using ih True record_delete_write_log [OF s1 2(4)] by simp
  qed
qed simp

lemma record_delete_write_receipt: "record_delete_write env s bucket key versioned = Some (receipt, s') \<Longrightarrow> re_sync env \<noteq> None \<Longrightarrow> receipt \<noteq> None"
  by (auto simp: record_delete_write_def record_del_def Let_def dest: announce_unknown_published(1) split: if_splits prod.splits)

lemma delete_each_receipt:
  assumes "delete_each env s bucket applied keys receipt = Some (receipt', s')" "re_sync env \<noteq> None"
  shows "receipt' = None \<longleftrightarrow> receipt = None \<and> filter (\<lambda>(key, _). applied key) keys = []"
  using assms
proof (induction env s bucket applied keys receipt rule: delete_each.induct)
  case (2 env s bucket applied key versioned rest receipt)
  show ?case
  proof (cases "applied key")
    case False
    then show ?thesis
      using 2 by simp
  next
    case True
    then obtain published s1 where s1: "record_delete_write env (ws_invalidate env s (bucket, key)) bucket key versioned = Some (published, s1)"
      and rest: "delete_each env s1 bucket applied rest (case published of None \<Rightarrow> receipt | Some _ \<Rightarrow> published) = Some (receipt', s')"
      using 2(3) by (auto split: option.splits)
    obtain p where "published = Some p"
      using record_delete_write_receipt [OF s1 2(4)] by blast
    then show ?thesis
      using 2(2) [OF _ s1 refl rest 2(4)] True by simp
  qed
qed simp

text \<open>What S3 documents of the answer to a batch delete, \<open>gone\<close> being the objects and versions the origin deleted of those
  requested: it names the keys it deleted, and in quiet mode only the keys it refused.\<close>

definition names :: "string option list option \<Rightarrow> string \<Rightarrow> bool" where
  "names listed key \<longleftrightarrow> (\<exists>ks. listed = Some ks \<and> Some key \<in> set ks)"

definition batch_report :: "batch_input \<Rightarrow> batch_result \<Rightarrow> (string \<times> string option) set \<Rightarrow> bool" where
  "batch_report inp resp gone \<longleftrightarrow>
     (if bi_quiet inp = Some True then \<forall>key. names (br_errors resp) key \<longleftrightarrow> (\<exists>version. (key, version) \<in> set (bi_objects inp) - gone)
      else \<forall>key. names (br_deleted resp) key \<longleftrightarrow> (\<exists>version. (key, version) \<in> set (bi_objects inp) \<inter> gone))"

lemma named_iff: "key \<in> named_keys listed \<longleftrightarrow> names listed key"
  by (force simp: named_keys_def names_def split: option.splits)

lemma applied_iff_gone:
  assumes "batch_report inp resp gone" "distinct (map fst (bi_objects inp))" "(key, version) \<in> set (bi_objects inp)"
  shows "batch_applied (bi_quiet inp = Some True) resp key \<longleftrightarrow> (key, version) \<in> gone"
proof -
  have "version' = version" if "(key, version') \<in> set (bi_objects inp)" for version'
    using eq_key_imp_eq_value [OF assms(2) assms(3) that] by simp
  then have one: "(\<exists>version'. (key, version') \<in> set (bi_objects inp) \<and> P (key, version')) \<longleftrightarrow> P (key, version)" for P
    using assms(3) by blast
  show ?thesis
  proof (cases "bi_quiet inp = Some True")
    case True
    then show ?thesis
      using assms(1) one [of "\<lambda>ob. ob \<notin> gone"] by (simp add: batch_report_def batch_applied_def named_iff)
  next
    case False
    then show ?thesis
      using assms(1) one [of "\<lambda>ob. ob \<in> gone"] by (simp add: batch_report_def batch_applied_def named_iff)
  qed
qed

lemma applied_requests:
  assumes "batch_report inp resp gone" "distinct (map fst (bi_objects inp))"
  shows "filter (\<lambda>(key, _). batch_applied (bi_quiet inp = Some True) resp key) (requested inp) =
    map (\<lambda>(key, version). (key, version \<noteq> None)) (filter (\<lambda>ob. ob \<in> gone) (bi_objects inp))"
proof -
  have "filter (\<lambda>(key, _). batch_applied (bi_quiet inp = Some True) resp key) (bi_objects inp) = filter (\<lambda>ob. ob \<in> gone) (bi_objects inp)"
    by (rule filter_cong) (use applied_iff_gone [OF assms] in auto)
  then show ?thesis
    unfolding requested_def filter_map comp_def case_prod_beta by simp
qed

text \<open>C25: A batch delete publishes exactly what the origin deleted. With peers, when the request names each key once and the
  origin's answer reports its deletions as S3 documents it (the deleted keys, or in quiet mode only the refused ones), the requested keys it deleted are published in request
  order, each as a delete, or as an unknown outcome when one version of it was named; a key the origin refused is not
  published. The answer is an acknowledgement, with a session token, only under the cluster's guarantee; where nothing was deleted
  there is nothing to wait for.\<close>

theorem batch_publishes_applied:
  assumes "batch_tail env inp s = (r, s')" "r \<noteq> Panicked" "re_sync env = Some c" "we_batch env (ws_clock s) inp = Inr resp"
    and "batch_report inp resp gone" "distinct (map fst (bi_objects inp))"
  shows "map about (ws_feed s') = map about (ws_feed s)
      @ map (\<lambda>(key, version). (if version = None then OpDel else op_unknown, bi_bucket inp, key)) (filter (\<lambda>ob. ob \<in> gone) (bi_objects inp))
    \<and> (if set (bi_objects inp) \<inter> gone = {} then r = Reply resp
       else \<exists>t position. r = (if cluster_guarantee env t c
         then Reply (resp\<lparr>br_write_token := attached (Some (receipt_header position)) (br_write_token resp)\<rparr>) else Refused service_unavailable))"
proof -
  let ?applied = "batch_applied (bi_quiet inp = Some True) resp"
  have sync: "re_sync env \<noteq> None"
    using assms(3) by simp
  obtain receipt s1 where each: "delete_each env (ws_pause env s) (bi_bucket inp) ?applied (requested inp) None = Some (receipt, s1)"
    using assms(1,2,4) by (auto simp: batch_tail_def Let_def split: option.splits)
  let ?f = "\<lambda>token. resp\<lparr>br_write_token := attached token (br_write_token resp)\<rparr>"
  have fin: "snd (await_cluster env s1 receipt) = s'" "r = map_reply ?f (fst (await_cluster env s1 receipt))"
    using finish_reply [where x = "await_cluster env s1 receipt" and f = ?f and r = r and s' = s'] assms(1,4) each
    by (simp_all add: batch_tail_def Let_def)
  have "ws_feed s' = ws_feed s1"
    using fin(1) await_cluster_log(1) by metis
  then have feed: "map about (ws_feed s') = map about (ws_feed s)
      @ map (\<lambda>(key, version). (if version = None then OpDel else op_unknown, bi_bucket inp, key)) (filter (\<lambda>ob. ob \<in> gone) (bi_objects inp))"
    using delete_each_log [OF each sync] by (simp add: applied_requests [OF assms(5,6)] comp_def case_prod_beta if_distrib)
  have none: "receipt = None \<longleftrightarrow> set (bi_objects inp) \<inter> gone = {}"
    using delete_each_receipt [OF each sync] by (auto simp: applied_requests [OF assms(5,6)] filter_empty_conv)
  show ?thesis
  proof (cases receipt)
    case None
    then show ?thesis
      using feed none fin(2) assms(3) by (simp add: await_cluster_def attached_def)
  next
    case (Some position)
    then have "r = (if cluster_guarantee env (ws_clock s1) c then Reply (?f (Some (receipt_header position))) else Refused service_unavailable)"
      using fin(2) assms(3) by (simp add: await_cluster_def ack_write_iff)
    moreover have "set (bi_objects inp) \<inter> gone \<noteq> {}"
      using none Some by simp
    ultimately show ?thesis
      using feed by (simp only: if_False) blast
  qed
qed

text \<open>C40: A quiet batch delete can hide a deletion. When a quiet request names one key twice, plainly or by versions, and the
  origin deletes one of these and refuses the other, its answer names the key only among the refused. Nothing is then
  published for the key: neither a delete nor an unknown outcome, although the origin deleted it or one of its versions.\<close>

theorem quiet_batch_hides_delete:
  assumes "batch_tail env inp s = (r, s')" "r \<noteq> Panicked" "re_sync env = Some c" "we_batch env (ws_clock s) inp = Inr resp"
    and "batch_report inp resp gone" "bi_quiet inp = Some True"
    and "(key, deleted) \<in> set (bi_objects inp) \<inter> gone" "(key, refused) \<in> set (bi_objects inp) - gone"
  shows "\<exists>evs. map about (ws_feed s') = map about (ws_feed s) @ evs \<and> (\<forall>op. (op, bi_bucket inp, key) \<notin> set evs)"
proof -
  let ?applied = "batch_applied True resp"
  obtain receipt s1 where each: "delete_each env (ws_pause env s) (bi_bucket inp) ?applied (requested inp) None = Some (receipt, s1)"
    using assms(1,2,4,6) by (auto simp: batch_tail_def Let_def split: option.splits)
  have "snd (await_cluster env s1 receipt) = s'"
    using finish_reply(1) [where x = "await_cluster env s1 receipt" and f = "\<lambda>token. resp\<lparr>br_write_token := attached token (br_write_token resp)\<rparr>"
        and r = r and s' = s'] assms(1,4,6) each by (simp add: batch_tail_def Let_def)
  then have "ws_feed s' = ws_feed s1"
    using await_cluster_log(1) by metis
  moreover have "\<not> ?applied key"
    using assms(5,6,8) by (auto simp: batch_report_def batch_applied_def named_iff)
  moreover have "re_sync env \<noteq> None"
    using assms(3) by simp
  ultimately show ?thesis
    using delete_each_log [OF each] by auto
qed

section \<open>Reconciliation ends\<close>

lemma resolve_superseded: "fence_of st bucket key \<noteq> Some token \<Longrightarrow> fst (resolve_uncertain_key lay now st bucket key token a) = st"
  by (auto simp: resolve_uncertain_key_def fence_of_def bucket_entry_def split: option.splits)

lemma reconcile_round_end:
  assumes "reconcile_round env ckey token nd backoff = (nd', None)"
  shows "\<not> uncertain_key_is_current (nd_index nd') (fst ckey) (snd ckey) token"
proof (cases "uncertain_key_is_current (nd_index nd) (fst ckey) (snd ckey) token")
  case False
  then show ?thesis
    using assms by (simp add: reconcile_round_def)
next
  case True
  let ?n = "pause (renv env) nd"
  obtain a where "nd' = ?n\<lparr>nd_index := fst (resolve_uncertain_key (re_lay env) (re_now env (nd_clock ?n)) (nd_index ?n) (fst ckey) (snd ckey) token a)\<rparr>"
    using assms True by (auto simp: reconcile_round_def Let_def split: option.splits)
  then show ?thesis
    using resolve_effect(3) [where st = "nd_index ?n" and bucket = "fst ckey" and key = "snd ckey" and token = token]
      resolve_superseded [where st = "nd_index ?n" and bucket = "fst ckey" and key = "snd ckey" and token = token]
    by (cases "fence_of (nd_index ?n) (fst ckey) (snd ckey) = Some token") (simp_all add: fence_current_iff)
qed

lemma reconcile_round_next:
  assumes "reconcile_round env ckey token nd backoff = (nd', Some backoff')"
  shows "nd_clock nd' = nd_clock nd + 2" "we_sdk_head env (nd_clock nd) ckey = Inl SdkOther"
    and "backoff' = min (backoff * 2) SYNC_RETRY_MAX"
  using assms
  by (auto simp: reconcile_round_def Let_def pause_def authoritative_def split: if_splits option.splits sum.splits sdk_error.splits)

lemma reconcile_ends:
  assumes "we_sdk_head env (nd_clock nd + 2 * i) ckey \<noteq> Inl SdkOther" "i < fuel"
  shows "\<exists>nd'. reconcile fuel env ckey token nd backoff = Some nd' \<and> \<not> uncertain_key_is_current (nd_index nd') (fst ckey) (snd ckey) token"
  using assms
proof (induction i arbitrary: nd backoff fuel)
  case 0
  obtain nd' b where round: "reconcile_round env ckey token nd backoff = (nd', b)"
    by fastforce
  then have "b = None"
    using reconcile_round_next(2) [of env ckey token nd backoff nd'] 0 by (cases b) auto
  then show ?case
    using round 0 reconcile_round_end by (cases fuel) auto
next
  case (Suc i)
  obtain nd' b where round: "reconcile_round env ckey token nd backoff = (nd', b)"
    by fastforce
  obtain fuel' where fuel: "fuel = Suc fuel'"
    using Suc.prems(2) by (cases fuel) auto
  show ?case
  proof (cases b)
    case None
    then show ?thesis
      using round fuel reconcile_round_end by auto
  next
    case (Some b')
    then have "nd_clock nd' + 2 * i = nd_clock nd + 2 * Suc i"
      using reconcile_round_next(1) round by fastforce
    then have "\<exists>nd''. reconcile fuel' env ckey token nd' b' = Some nd'' \<and> \<not> uncertain_key_is_current (nd_index nd'') (fst ckey) (snd ckey) token"
      using Suc fuel by (intro Suc.IH) simp_all
    then show ?thesis
      using round Some fuel by simp
  qed
qed

text \<open>C26: The reconciliation of an unknown outcome ends as soon as the origin answers. Whatever the other tasks do, if
  one of the HEADs the task sends gets an answer, be it an object or its absence, the task ends within that many
  rounds, and the fence it was started for is no longer current: it was resolved from that answer, or a later fence or
  write had taken its place.\<close>

theorem reconciliation_ends:
  assumes "we_sdk_head env (nd_clock nd + 2 * i) ckey \<noteq> Inl SdkOther" "i < fuel"
  shows "\<exists>nd'. spawn_key_reconcile fuel env ckey token nd = Some nd' \<and> \<not> uncertain_key_is_current (nd_index nd') (fst ckey) (snd ckey) token"
  unfolding spawn_key_reconcile_def by (rule reconcile_ends [OF assms])

section \<open>No older body outlives a write\<close>

lemma at_most_mono: "at_most env ckey copies s \<Longrightarrow> copies \<subseteq> copies' \<Longrightarrow> at_most env ckey copies' s"
  by (auto simp: at_most_def)

lemma at_most_announce:
  "only_evicts env ckey \<Longrightarrow> at_most env ckey copies s \<Longrightarrow> announce_unknown env s bucket key = Some (receipt, s') \<Longrightarrow> at_most env ckey copies s'"
  by (auto simp: announce_unknown_def intro!: keeps_copy split: if_splits option.splits)

lemma at_most_announce_all:
  "only_evicts env ckey \<Longrightarrow> at_most env ckey copies s \<Longrightarrow> announce_all env s bucket keys receipt = Some (receipt', s') \<Longrightarrow> at_most env ckey copies s'"
  by (induction env s bucket keys receipt rule: announce_all.induct) (auto split: option.splits dest: at_most_announce)

lemma at_most_fail [keeps_copy]:
  "only_evicts env ckey \<Longrightarrow> at_most env ckey copies s \<Longrightarrow> at_most env ckey copies (snd (fail_put env s bucket key e reason))"
  by (auto simp: fail_put_def publish_unknown_def intro!: keeps_copy split: option.splits dest: at_most_announce)

lemma at_most_record_put [keeps_copy]:
  "only_evicts env ckey \<Longrightarrow> at_most env ckey copies s \<Longrightarrow> at_most env ckey copies (snd (record_put_write env s bucket key e))"
  by (auto simp: record_put_write_def Let_def intro!: keeps_copy split: option.splits prod.splits dest: at_most_announce)

lemma at_most_keep_written:
  assumes "only_evicts env ckey" "at_most env ckey {} s"
  shows "at_most env ckey ((\<lambda>body. mark_trusted (from_get (written_object ct (the tag) meta (length body) (re_now env (ws_clock s))) body) generation)
      ` set_option (if tag = None then None else written)) (keep_written env s ckey written tag ct meta generation)"
proof (cases "written = None \<or> tag = None")
  case True
  then show ?thesis
    using assms(2) by (auto simp: keep_written_def split: option.splits)
next
  case False
  then obtain body t where "written = Some body" "tag = Some t"
    by auto
  let ?obj = "mark_trusted (from_get (written_object ct t meta (length body) (re_now env (ws_clock s))) body) generation"
  let ?stored = "\<lambda>n. if re_stores env (nd_clock n) then n\<lparr>nd_tiers := (nd_tiers n)(ckey \<mapsto> ?obj)\<rparr> else n"
  have "at_most env ckey {?obj} (ws_pause env (s\<lparr>ws_node := ?stored (ws_node s)\<rparr>))"
    by (rule at_most_pause [OF assms(1)]) (use assms(2) in \<open>auto simp: at_most_def\<close>)
  then show ?thesis
    using \<open>written = Some body\<close> \<open>tag = Some t\<close> by (simp add: keep_written_def tier_insert_def ws_pause_def Let_def)
qed

definition body_of :: "put_input \<Rightarrow> stream" where
  "body_of inp = (case pi_body inp of None \<Rightarrow> [] | Some body \<Rightarrow> body)"

lemma buffered_put_forwards:
  assumes "buffered_put_body env inp = (written, inp')"
  shows "stream_view (body_of inp') = stream_view (body_of inp)" "pi_bucket inp' = pi_bucket inp" "pi_key inp' = pi_key inp"
    and "written = Some bs \<Longrightarrow> stream_view (body_of inp) = (bs, None)"
proof -
  have view: "case buffer_or_forward body cap of Whole bs \<Rightarrow> stream_view body = (bs, None) | Streamed rest \<Rightarrow> stream_view rest = stream_view body" for body cap
    using buffer_loop_view [where cap = cap and buf = "[]" and blob = body]
    by (auto simp: buffer_or_forward_def split: buffered_body.splits prod.splits)
  show "stream_view (body_of inp') = stream_view (body_of inp)" "pi_bucket inp' = pi_bucket inp" "pi_key inp' = pi_key inp"
    "written = Some bs \<Longrightarrow> stream_view (body_of inp) = (bs, None)"
    using assms view [of "body_of inp" "re_max_obj env"]
    by (auto simp: buffered_put_body_def body_of_def blob_of_def split: if_splits option.splits buffered_body.splits)
qed

text \<open>The copy a PUT may keep: its own bytes, under the tag the origin answered, stamped with a generation.\<close>

definition written_copy :: "bytes option \<Rightarrow> nat \<Rightarrow> etag option \<Rightarrow> cached_object \<Rightarrow> bool" where
  "written_copy written generation tag obj \<longleftrightarrow> written = Some (co_body obj) \<and> co_trusted_gen obj = generation \<and> co_e_tag obj = tag \<and> tag \<noteq> None"

lemma put_tail_copy:
  assumes "only_evicts env (pi_bucket inp, pi_key inp)" "at_most env (pi_bucket inp, pi_key inp) {} s"
    and "put_tail env orig inp generation written vouched s = (r, s')"
  shows "at_most env (pi_bucket inp, pi_key inp)
    {obj. \<exists>resp. we_put env (ws_clock s) inp = Inr resp \<and> written_copy written generation (pr_e_tag resp) obj} s'"
proof (cases "we_put env (ws_clock s) inp")
  case (Inl e)
  then have "s' = snd (fail_put env (ws_pause env s) (pi_bucket inp) (pi_key inp) e (uncertain_mutation_error e vouched) :: put_result reply \<times> write_state)"
    using assms(3) by (simp add: put_tail_def)
  then show ?thesis
    using at_most_mono [OF at_most_fail [OF assms(1) at_most_pause [OF assms(1,2)]]] by simp
next
  case (Inr resp)
  let ?ckey = "(pi_bucket inp, pi_key inp)" and ?tag = "pr_e_tag resp"
  define s1 where "s1 = ws_invalidate env (ws_pause env s) ?ckey"
  let ?s2 = "keep_written env s1 ?ckey written ?tag (pi_content_type orig) (put_meta orig) generation"
  let ?copies = "(\<lambda>body. mark_trusted (from_get (written_object (pi_content_type orig) (the ?tag) (put_meta orig) (length body)
      (re_now env (ws_clock s1))) body) generation) ` set_option (if ?tag = None then None else written)"
  have "at_most env ?ckey {} s1"
    unfolding s1_def by (rule at_most_invalidate(2) [OF assms(1)])
  then have "at_most env ?ckey ?copies ?s2"
    by (rule at_most_keep_written [OF assms(1)])
  then have recorded: "at_most env ?ckey ?copies (snd (record_put_write env ?s2 (pi_bucket inp) (pi_key inp) ((put_entry orig)\<lparr>e_etag := ?tag\<rparr>)))"
    by (rule at_most_record_put [OF assms(1)])
  have "snd (record_put_write env ?s2 (pi_bucket inp) (pi_key inp) ((put_entry orig)\<lparr>e_etag := ?tag\<rparr>)) = s'"
    using assms(3) Inr
    by (intro finish_reply(1) [where f = "\<lambda>token. resp\<lparr>pr_write_token := attached token (pr_write_token resp)\<rparr>" and r = r])
      (simp add: put_tail_def s1_def Let_def)
  then have "at_most env ?ckey ?copies s'"
    using recorded by simp
  then show ?thesis
    by (rule at_most_mono) (use Inr in \<open>auto simp: written_copy_def mark_trusted_def from_get_def written_object_def split: if_splits\<close>)
qed

text \<open>C9: No older body outlives a PUT except one a tier failed to delete, and the body it keeps is the one it forwarded. As long as the
  other tasks of the node only evict the key, when a PUT has been answered, whatever the answer, a copy of the key that the
  node still holds is what a failed delete left behind, or the bytes of the request, which are those the origin was sent, under the
  entity tag the origin answered, and stamped with the body-trust generation from before the write, so that a
  remediation meanwhile leaves it unproved.\<close>

theorem put_leaves_no_older_copy:
  assumes "only_evicts env (pi_bucket orig, pi_key orig)" "put_object env stopping None s orig = (r, s')"
    and "nd_tiers (ws_node s') (pi_bucket orig, pi_key orig) = Some obj"
  shows "(\<exists>t. re_left env t (pi_bucket orig, pi_key orig) = Some obj)
    \<or> (\<exists>inp t resp. we_put env t inp = Inr resp \<and> stream_view (body_of inp) = stream_view (body_of orig)
        \<and> stream_view (body_of orig) = (co_body obj, None) \<and> co_e_tag obj = pr_e_tag resp \<and> pr_e_tag resp \<noteq> None
        \<and> co_trusted_gen obj = nd_suspect_gen (ws_node s))"
proof -
  let ?ckey = "(pi_bucket orig, pi_key orig)" and ?g = "nd_suspect_gen (ws_node s)"
  obtain written inp where inp: "(if licensed (renv env) (ws_node s) then buffered_put_body env orig else (None, orig)) = (written, inp)"
    by fastforce
  have same: "pi_bucket inp = pi_bucket orig" "pi_key inp = pi_key orig" "stream_view (body_of inp) = stream_view (body_of orig)"
    "\<And>bs. written = Some bs \<Longrightarrow> stream_view (body_of orig) = (bs, None)"
    using inp buffered_put_forwards [of env orig written inp] by (auto split: if_splits)
  define s1 where "s1 = ws_invalidate env (ws_pause env s) ?ckey"
  have s1: "at_most env ?ckey {} s1"
    unfolding s1_def by (rule at_most_invalidate(2) [OF assms(1)])
  let ?v = "locally_vouches_for_put (renv env) (ws_node (ws_pause env s)) inp"
  let ?copies = "{obj. \<exists>resp. we_put env (ws_clock s1) inp = Inr resp \<and> written_copy written ?g (pr_e_tag resp) obj}"
  obtain r1 s2 where tail: "put_tail env orig inp ?g written ?v s1 = (r1, s2)"
    by fastforce
  have copy: "at_most env ?ckey ?copies s2"
    using put_tail_copy [OF _ _ tail] assms(1) s1 same(1,2) by simp
  have run: "mutation_tail env stopping None s1 (pi_bucket orig) [pi_key orig] (put_tail env orig inp ?g written ?v) = (r, s')"
    using assms(2) unfolding put_object_def Let_def inp prod.case s1_def .
  have "s' = s1 \<or> at_most env ?ckey ?copies s'"
    using run copy unfolding mutation_tail_def tail Let_def option.case
    by (cases r1) (auto split: if_splits option.splits intro!: at_most_await(2) [OF assms(1)] dest: at_most_announce [OF assms(1)])
  then have "at_most env ?ckey ?copies s'"
    using at_most_mono [OF s1] by auto
  then have "obj \<in> left_over env ?ckey \<union> ?copies"
    using assms(3) by (simp add: at_most_def)
  then show ?thesis
  proof
    assume "obj \<in> ?copies"
    then obtain resp where "we_put env (ws_clock s1) inp = Inr resp" "written_copy written ?g (pr_e_tag resp) obj"
      by blast
    then show ?thesis
      using same(3,4) unfolding written_copy_def by metis
  qed (simp add: left_over_def)
qed

section \<open>Instances\<close>

definition write_env_example :: write_env where
  "write_env_example = read_env.extend read_env_example \<lparr>we_position = (\<lambda>t. \<lparr>nc_writer = ''n1'', nc_epoch = 1, nc_sequence = Suc t\<rparr>),
     we_has_leases = True, we_coherent = (\<lambda>_. AllApplied), we_insured = (\<lambda>_. True), we_acked = (\<lambda>_. True), we_parse_etag = (\<lambda>_. None),
     we_put = (\<lambda>_ _. Inr \<lparr>pr_e_tag = Some (Strong ''t''), pr_write_token = None\<rparr>), we_delete = (\<lambda>_ _. Inl no_such_key),
     we_batch = (\<lambda>_ _. Inr \<lparr>br_deleted = None, br_errors = Some [Some ''z''], br_write_token = None\<rparr>),
     we_complete = (\<lambda>_ _. Inl no_such_key), we_copy = (\<lambda>_ _. Inl no_such_key), we_delete_bucket = (\<lambda>_ _. Inl no_such_key),
     we_sdk_head = (\<lambda>t _. if t < 4 then Inl SdkOther else Inl SdkNotFound)\<rparr>"

definition write_state_example :: write_state where
  "write_state_example = \<lparr>ws_node = node_example, ws_feed = [], ws_reconciling = []\<rparr>"

definition put_example :: put_input where
  "put_example = \<lparr>pi_bucket = ''b'', pi_key = ''k'', pi_body = Some [Inr ''new''], pi_content_length = Some 3, pi_content_type = Some ''text/plain'',
     pi_cache_control = None, pi_content_disposition = None, pi_content_encoding = None, pi_content_language = None, pi_metadata = None,
     pi_storage_class = None, pi_if_match = None, pi_if_none_match = None, pi_sse_customer_algorithm = None, pi_sse_customer_key = None,
     pi_sse_customer_key_md5 = None, pi_write_offset_bytes = None, pi_object_lock_mode = None, pi_object_lock_retain_until_date = None,
     pi_object_lock_legal_hold_status = None, pi_tagging = None, pi_website_redirect_location = None, pi_expires = None\<rparr>"

definition request_example :: batch_input where
  "request_example = \<lparr>bi_bucket = ''b'', bi_objects = [(''a'', None), (''z'', None)], bi_quiet = Some True\<rparr>"

lemma write_env_example_sync: "re_sync write_env_example = Some ModeStrong" "re_others write_env_example = (\<lambda>_ n. n)"
  by (simp_all add: write_env_example_def read_env_example_def read_env.defs)

lemma await_example: "fst (await_cluster write_env_example s (Some p)) = Reply (Some (receipt_header p))"
  by (simp add: await_cluster_def write_env_example_sync ack_write_def wait_cluster_applied_def wait_leased_def guaranteed_def)
    (simp add: write_env_example_def read_env.defs)

lemma record_put_described: "e_etag e \<noteq> None \<Longrightarrow> fst (record_put_write env s bucket key e) \<noteq> Panicked"
  by (auto simp: record_put_write_def Let_def case_prod_beta await_cluster_not_panicked)

lemma map_reply_panicked [simp]: "map_reply f x = Panicked \<longleftrightarrow> x = Panicked"
  by (cases x) simp_all

lemma put_tail_described:
  assumes "we_put env (ws_clock s) inp = Inr resp" "pr_e_tag resp \<noteq> None"
  shows "fst (put_tail env orig inp generation written vouched s) \<noteq> Panicked"
proof -
  obtain r s' where run: "put_tail env orig inp generation written vouched s = (r, s')"
    by fastforce
  let ?ckey = "(pi_bucket inp, pi_key inp)"
  let ?s = "keep_written env (ws_invalidate env (ws_pause env s) ?ckey) ?ckey written (pr_e_tag resp) (pi_content_type orig) (put_meta orig) generation"
  have "r = map_reply (\<lambda>token. resp\<lparr>pr_write_token := attached token (pr_write_token resp)\<rparr>)
      (fst (record_put_write env ?s (pi_bucket inp) (pi_key inp) ((put_entry orig)\<lparr>e_etag := pr_e_tag resp\<rparr>)))"
    using run assms(1) by (intro finish_reply(2) [where s' = s']) (simp add: put_tail_def Let_def)
  then show ?thesis
    using run assms(2) record_put_described [of "(put_entry orig)\<lparr>e_etag := pr_e_tag resp\<rparr>" env ?s "pi_bucket inp" "pi_key inp"] by simp
qed

lemma put_example_answer: "we_put write_env_example t inp = Inr \<lparr>pr_e_tag = Some (Strong ''t''), pr_write_token = None\<rparr>"
  by (simp add: write_env_example_def read_env.defs)

text \<open>The same origin out of service: it answers every write with a 503.\<close>

definition outage_env_example :: write_env where
  "outage_env_example = write_env_example\<lparr>we_put := (\<lambda>_ _. Inl service_unavailable), we_delete := (\<lambda>_ _. Inl service_unavailable)\<rparr>"

lemma outage_env_fields:
  "re_sync outage_env_example = Some ModeStrong" "re_others outage_env_example = (\<lambda>_ n. n)"
  "we_put outage_env_example t inp = Inl service_unavailable" "we_delete outage_env_example t din = Inl service_unavailable"
  by (simp_all add: outage_env_example_def write_env_example_sync)

lemma outage_not_definite: "\<not> definite_refusal service_unavailable vouched"
  by (simp add: definite_refusal_def service_unavailable_def)

lemma node_example_fence: "fence_key (fst (note_native_cut (nd_index node_example) position)) ''b'' ''k'' \<noteq> None"
  by (simp add: fence_key_def node_example_def note_native_cut_def Let_def checked_add64_def u64_max_def bucket_default_def
      key_index_default_def invalidate_capture_for_rebuild_def bucket_entry_def bucket_get_def bucket_set_def split: option.split)

lemma outage_announces:
  "fail_put outage_env_example (ws_pause outage_env_example write_state_example) ''b'' ''k'' e reason \<noteq> (Panicked, s')"
proof -
  have "index_of (ws_pause outage_env_example write_state_example) = nd_index node_example"
    by (simp add: index_of_def ws_pause_def pause_def outage_env_fields write_state_example_def)
  then have "announce_unknown outage_env_example (ws_pause outage_env_example write_state_example) ''b'' ''k'' \<noteq> None"
    using node_example_fence
    by (simp add: announce_unknown_def outage_env_fields index_unknown_def fence_own_uncertain_key_def split: option.split)
  then show ?thesis
    by (auto simp: fail_put_def publish_unknown_def split: option.split)
qed

text \<open>A PUT that succeeds, acknowledged under the guarantee; and the same PUT during the outage.\<close>

lemma put_outcome_exact_witness:
  "(\<exists>r s' t. put_tail write_env_example put_example put_example 1 None False write_state_example = (r, s')
     \<and> ws_feed s' = [put_event ''b'' ''k'' ((put_entry put_example)\<lparr>e_etag := Some (Strong ''t''), e_last_modified := wire_stamp (re_now write_env_example t)\<rparr>)]
     \<and> cluster_guarantee write_env_example (t + 1) ModeStrong
     \<and> r = Reply \<lparr>pr_e_tag = Some (Strong ''t''), pr_write_token = attached (Some (receipt_header (we_position write_env_example t))) None\<rparr>)
   \<and> (\<exists>s'. put_tail outage_env_example put_example put_example 1 None False write_state_example = (Refused service_unavailable, s')
     \<and> announced outage_env_example ''b'' ''k'' write_state_example s')"
proof
  obtain r s' where run: "put_tail write_env_example put_example put_example 1 None False write_state_example = (r, s')"
    by fastforce
  have "r \<noteq> Panicked"
    using put_tail_described [OF put_example_answer, where orig = put_example and inp = put_example and generation = 1 and written = None
        and vouched = False and s = write_state_example] run by simp
  note out = put_outcome_exact [OF run this write_env_example_sync(1)]
  have g: "cluster_guarantee write_env_example t ModeStrong" for t
    by (simp add: cluster_guarantee_def write_env_example_def read_env.defs)
  show "\<exists>r s' t. put_tail write_env_example put_example put_example 1 None False write_state_example = (r, s')
     \<and> ws_feed s' = [put_event ''b'' ''k'' ((put_entry put_example)\<lparr>e_etag := Some (Strong ''t''), e_last_modified := wire_stamp (re_now write_env_example t)\<rparr>)]
     \<and> cluster_guarantee write_env_example (t + 1) ModeStrong
     \<and> r = Reply \<lparr>pr_e_tag = Some (Strong ''t''), pr_write_token = attached (Some (receipt_header (we_position write_env_example t))) None\<rparr>"
    using out run by (simp add: put_example_answer g) (simp add: put_example_def write_state_example_def)
next
  obtain r s' where run: "put_tail outage_env_example put_example put_example 1 None False write_state_example = (r, s')"
    by fastforce
  have "r \<noteq> Panicked"
    using run outage_announces by (auto simp: put_tail_def outage_env_fields put_example_def)
  from put_outcome_exact [OF run this outage_env_fields(1)]
  show "\<exists>s'. put_tail outage_env_example put_example put_example 1 None False write_state_example = (Refused service_unavailable, s')
     \<and> announced outage_env_example ''b'' ''k'' write_state_example s'"
    using run by (simp add: outage_env_fields outage_not_definite) (simp add: put_example_def)
qed

lemma record_put_tiers:
  assumes "re_others env = (\<lambda>_ n. n)" "e_etag e \<noteq> None"
  shows "nd_tiers (ws_node (snd (record_put_write env s bucket key e))) = nd_tiers (ws_node s)"
  using assms by (auto simp: record_put_write_def Let_def await_cluster_def ws_pause_def pause_def publish_def set_index_def
      split: prod.split option.split)

lemma put_example_keeps:
  assumes "put_object write_env_example False None write_state_example put_example = (r, s')"
  shows "\<exists>obj. nd_tiers (ws_node s') (''b'', ''k'') = Some obj"
proof -
  note env = write_env_example_sync put_example_answer
  have fields: "re_max_obj write_env_example = 100" "re_stores write_env_example = (\<lambda>_. True)" "licensed (renv write_env_example) (ws_node write_state_example)"
    by (simp_all add: write_env_example_def read_env_example_def read_env.defs licensed_def write_state_example_def node_example_def
        may_serve_local_def mode_allows_local_def)
  have body: "buffered_put_body write_env_example put_example = (Some ''new'', put_example\<lparr>pi_body := Some (blob_of ''new'')\<rparr>)"
    by (simp add: buffered_put_body_def put_example_def put_origin_only_def fields buffer_or_forward_def)
  let ?inp = "put_example\<lparr>pi_body := Some (blob_of ''new'')\<rparr>"
  have key: "pi_bucket put_example = ''b''" "pi_key put_example = ''k''"
    by (simp_all add: put_example_def)
  obtain s1 v g where tail: "mutation_tail write_env_example False None s1 ''b'' [''k''] (put_tail write_env_example put_example ?inp g (Some ''new'') v) = (r, s')"
    using assms by (auto simp: put_object_def fields body Let_def key)
  define s2 where "s2 = ws_invalidate write_env_example (ws_pause write_env_example s1) (''b'', ''k'')"
  define s3 where "s3 = keep_written write_env_example s2 (''b'', ''k'') (Some ''new'') (Some (Strong ''t'')) (pi_content_type put_example) (put_meta put_example) g"
  let ?rec = "record_put_write write_env_example s3 ''b'' ''k'' ((put_entry put_example)\<lparr>e_etag := Some (Strong ''t'')\<rparr>)"
  have kept: "\<exists>obj. nd_tiers (ws_node s3) (''b'', ''k'') = Some obj"
    by (simp add: s3_def keep_written_def tier_insert_def pause_def env fields Let_def)
  have "nd_tiers (ws_node (snd ?rec)) = nd_tiers (ws_node s3)"
    by (rule record_put_tiers) (simp_all add: env)
  moreover have "s' = snd ?rec"
    using tail put_tail_described [OF put_example_answer, where orig = put_example and inp = ?inp and generation = g and written = "Some ''new''"
        and vouched = v and s = s1]
    by (auto simp: mutation_tail_def put_tail_def put_example_answer key s2_def [symmetric] s3_def [symmetric] split: prod.splits reply.splits)
  ultimately show ?thesis
    using kept by simp
qed

text \<open>The node held an older copy; the write leaves its own in its place.\<close>

lemma put_leaves_no_older_copy_witness:
  "\<exists>r s' obj. put_object write_env_example False None write_state_example put_example = (r, s')
     \<and> nd_tiers (ws_node write_state_example) (''b'', ''k'') = Some cached_example
     \<and> nd_tiers (ws_node s') (''b'', ''k'') = Some obj \<and> co_body obj = ''new'' \<and> co_e_tag obj = Some (Strong ''t'')"
proof -
  obtain r s' where run: "put_object write_env_example False None write_state_example put_example = (r, s')"
    by fastforce
  have evicts: "only_evicts write_env_example (pi_bucket put_example, pi_key put_example)"
    by (simp add: only_evicts_def write_env_example_sync)
  have none: "re_left write_env_example t k = None" for t k
    by (simp add: write_env_example_def read_env_example_def read_env.defs)
  obtain obj where obj: "nd_tiers (ws_node s') (pi_bucket put_example, pi_key put_example) = Some obj"
    using put_example_keeps [OF run] by (auto simp: put_example_def)
  from put_leaves_no_older_copy [OF evicts run obj] show ?thesis
    using run obj by (auto simp: none put_example_answer) (auto simp: put_example_def body_of_def write_state_example_def node_example_def)
qed

text \<open>A DELETE the origin refuses, and one during the outage.\<close>

lemma ambiguous_failure_announced_witness:
  "(\<exists>s'. delete_tail write_env_example \<lparr>di_bucket = ''b'', di_key = ''k'', di_version_id = None\<rparr> write_state_example = (Refused no_such_key, s')
      \<and> silent write_state_example s')
   \<and> (\<exists>s' now. delete_tail outage_env_example \<lparr>di_bucket = ''b'', di_key = ''k'', di_version_id = None\<rparr> write_state_example
        = (Refused service_unavailable, s') \<and> ws_feed s' = [unknown_event ''b'' ''k'' now])"
proof
  let ?inp = "\<lparr>di_bucket = ''b'', di_key = ''k'', di_version_id = None\<rparr>"
  obtain r s' where run: "delete_tail write_env_example ?inp write_state_example = (r, s')"
    by fastforce
  have answer: "we_delete write_env_example t ?inp = Inl no_such_key" for t
    by (simp add: write_env_example_def read_env.defs)
  have refused: "definite_refusal no_such_key False"
    by (simp add: definite_refusal_def no_such_key_def)
  then have "r \<noteq> Panicked"
    using run by (auto simp: delete_tail_def answer fail_put_def uncertain_iff [symmetric])
  then show "\<exists>s'. delete_tail write_env_example ?inp write_state_example = (Refused no_such_key, s') \<and> silent write_state_example s'"
    using ambiguous_failure_announced [where env = write_env_example and din = ?inp and s = write_state_example and e = no_such_key]
      run answer refused by auto
next
  let ?inp = "\<lparr>di_bucket = ''b'', di_key = ''k'', di_version_id = None\<rparr>"
  obtain r s' where run: "delete_tail outage_env_example ?inp write_state_example = (r, s')"
    by fastforce
  have "r \<noteq> Panicked"
    using run outage_announces by (auto simp: delete_tail_def outage_env_fields)
  then have "r = Refused service_unavailable \<and> announced outage_env_example ''b'' ''k'' write_state_example s'"
    using ambiguous_failure_announced [where env = outage_env_example and din = ?inp and s = write_state_example and e = service_unavailable]
      run outage_env_fields(4) outage_not_definite by simp
  then show "\<exists>s' now. delete_tail outage_env_example ?inp write_state_example = (Refused service_unavailable, s')
      \<and> ws_feed s' = [unknown_event ''b'' ''k'' now]"
    using run by (auto simp: announced_def outage_env_fields write_state_example_def)
qed

text \<open>A quiet batch of two keys, of which the origin names the one it refused.\<close>

lemma batch_publishes_applied_witness:
  "\<exists>r s'. batch_tail write_env_example request_example write_state_example = (r, s') \<and> map about (ws_feed s') = [(OpDel, ''b'', ''a'')]"
proof -
  let ?resp = "\<lparr>br_deleted = None, br_errors = Some [Some ''z''], br_write_token = None\<rparr>"
  obtain r s' where run: "batch_tail write_env_example request_example write_state_example = (r, s')"
    by fastforce
  have answer: "we_batch write_env_example t request_example = Inr ?resp" for t
    by (simp add: write_env_example_def read_env.defs)
  have req: "requested request_example = [(''a'', False), (''z'', False)]" "bi_bucket request_example = ''b''" "bi_quiet request_example = Some True"
    "batch_applied True ?resp ''a''" "\<not> batch_applied True ?resp ''z''"
    by (simp_all add: requested_def request_example_def batch_applied_def named_keys_def)
  obtain receipt s1 where each: "delete_each write_env_example (ws_pause write_env_example write_state_example) ''b'' (batch_applied True ?resp)
      (requested request_example) None = Some (receipt, s1)"
    by (cases "record_del write_env_example (ws_invalidate write_env_example (ws_pause write_env_example write_state_example) (''b'', ''a'')) ''b'' ''a''")
      (auto simp: req record_delete_write_def)
  then have running: "r \<noteq> Panicked"
    using run await_cluster_not_panicked [of write_env_example s1 receipt]
    by (auto simp: batch_tail_def answer req(2,3) Let_def split: prod.splits reply.splits)
  have "batch_report request_example ?resp {(''a'', None)}" "distinct (map fst (bi_objects request_example))"
    by (auto simp: batch_report_def names_def request_example_def)
  from batch_publishes_applied [OF run running write_env_example_sync(1) answer this] show ?thesis
    using run by (simp add: request_example_def write_state_example_def)
qed

text \<open>The origin deletes a key and refuses one of its versions.\<close>

definition versions_example :: batch_input where
  "versions_example = \<lparr>bi_bucket = ''b'', bi_objects = [(''z'', None), (''z'', Some ''v'')], bi_quiet = Some True\<rparr>"

lemma quiet_batch_hides_delete_witness:
  "\<exists>r s'. batch_tail write_env_example versions_example write_state_example = (r, s') \<and> r \<noteq> Panicked
     \<and> batch_report versions_example \<lparr>br_deleted = None, br_errors = Some [Some ''z''], br_write_token = None\<rparr> {(''z'', None)}
     \<and> (OpDel, ''b'', ''z'') \<notin> set (map about (ws_feed s'))"
proof -
  let ?resp = "\<lparr>br_deleted = None, br_errors = Some [Some ''z''], br_write_token = None\<rparr>"
  obtain r s' where run: "batch_tail write_env_example versions_example write_state_example = (r, s')"
    by fastforce
  have answer: "we_batch write_env_example t versions_example = Inr ?resp" for t
    by (simp add: write_env_example_def read_env.defs)
  have req: "requested versions_example = [(''z'', False), (''z'', True)]" "bi_quiet versions_example = Some True" "bi_bucket versions_example = ''b''"
    "\<not> batch_applied True ?resp ''z''"
    by (simp_all add: requested_def versions_example_def batch_applied_def named_keys_def)
  have running: "r \<noteq> Panicked"
    using run await_cluster_not_panicked [of write_env_example "ws_pause write_env_example write_state_example" None]
    by (auto simp: batch_tail_def answer req Let_def split: prod.splits reply.splits)
  have honest: "batch_report versions_example ?resp {(''z'', None)}"
    by (auto simp: batch_report_def names_def versions_example_def)
  have "(''z'', None) \<in> set (bi_objects versions_example) \<inter> {(''z'', None)}" "(''z'', Some ''v'') \<in> set (bi_objects versions_example) - {(''z'', None)}"
    by (simp_all add: versions_example_def)
  from quiet_batch_hides_delete [OF run running write_env_example_sync(1) answer honest req(2) this] show ?thesis
    using run running honest by (auto simp: req(3) write_state_example_def)
qed

lemma reconciliation_ends_witness:
  "\<exists>nd'. spawn_key_reconcile 3 write_env_example (''b'', ''k'') 1 node_example = Some nd'
     \<and> \<not> uncertain_key_is_current (nd_index nd') (fst (''b'', ''k'')) (snd (''b'', ''k'')) 1"
  by (rule reconciliation_ends [where i = 2]) (simp_all add: write_env_example_def read_env.defs node_example_def)

end
