(* ===== verification/Text_Lib.thy ===== *)
theory Text_Lib
  imports Feed List_Token
begin

text \<open>
  What the configuration readers use of Rust's strings and numbers: splitting, trimming, parsing of unsigned integers,
  booleans and socket addresses, and lower case. A string is the list of its UTF-8 bytes, so a white-space character
  is one of a fixed set of byte sequences; no such sequence overlaps another character of a valid string.
\<close>

section \<open>Splitting\<close>

fun split_on :: "char \<Rightarrow> string \<Rightarrow> string list" where
  "split_on c [] = [[]]"
| "split_on c (x # xs) = (if x = c then [] # split_on c xs else (case split_on c xs of p # ps \<Rightarrow> (x # p) # ps | [] \<Rightarrow> [[x]]))"

definition split_once :: "char \<Rightarrow> string \<Rightarrow> (string \<times> string) option" where
  "split_once c s = (let front = takeWhile (\<lambda>x. x \<noteq> c) s in
     if length front = length s then None else Some (front, drop (Suc (length front)) s))"

fun split_once_str :: "string \<Rightarrow> string \<Rightarrow> (string \<times> string) option" where
  "split_once_str pat [] = (if pat = [] then Some ([], []) else None)"
| "split_once_str pat (x # xs) =
     (if take (length pat) (x # xs) = pat then Some ([], drop (length pat) (x # xs))
      else map_option (\<lambda>(front, back). (x # front, back)) (split_once_str pat xs))"

definition join_with :: "char \<Rightarrow> string list \<Rightarrow> string" where
  "join_with c ss = (case ss of [] \<Rightarrow> [] | s # ss \<Rightarrow> s @ concat (map (\<lambda>s. c # s) ss))"

lemma split_on_nonempty [simp]: "split_on c s \<noteq> []"
  by (induction s) (auto split: list.splits)

lemma split_on_clean: "c \<notin> set s \<Longrightarrow> split_on c s = [s]"
  by (induction s) auto

lemma split_on_sep: "c \<notin> set s \<Longrightarrow> split_on c (s @ c # t) = s # split_on c t"
  by (induction s) auto

lemma split_on_join:
  assumes "ss \<noteq> []" "\<forall>s \<in> set ss. c \<notin> set s"
  shows "split_on c (join_with c ss) = ss"
proof -
  have "split_on c (s @ concat (map (\<lambda>s. c # s) ts)) = s # ts" if "c \<notin> set s" "\<forall>s \<in> set ts. c \<notin> set s" for s ts
    using that by (induction ts arbitrary: s) (simp_all add: split_on_clean split_on_sep)
  with assms show ?thesis
    by (cases ss) (simp_all add: join_with_def)
qed

lemma split_once_sep: "c \<notin> set s \<Longrightarrow> split_once c (s @ c # t) = Some (s, t)"
proof -
  assume "c \<notin> set s"
  then have "takeWhile (\<lambda>x. x \<noteq> c) (s @ c # t) = s"
    by (induction s) auto
  then show ?thesis
    by (simp add: split_once_def Let_def)
qed

lemma split_once_Some: "split_once c s = Some (a, b) \<longleftrightarrow> s = a @ c # b \<and> c \<notin> set a"
proof
  assume l: "split_once c s = Some (a, b)"
  then have a: "a = takeWhile (\<lambda>x. x \<noteq> c) s" "length a \<noteq> length s" "b = drop (Suc (length a)) s"
    by (auto simp: split_once_def Let_def split: if_splits)
  have "s = a @ dropWhile (\<lambda>x. x \<noteq> c) s"
    by (simp add: a(1))
  moreover obtain x xs where d: "dropWhile (\<lambda>x. x \<noteq> c) s = x # xs"
    using a(2) calculation by (cases "dropWhile (\<lambda>x. x \<noteq> c) s") auto
  moreover have "x = c"
    using hd_dropWhile [of "\<lambda>x. x \<noteq> c" s] d by simp
  ultimately have s: "s = a @ c # xs"
    by simp
  then have "b = xs"
    using a(3) by (metis append.assoc append_Cons append_Nil append_eq_conv_conj length_append_singleton)
  moreover have "c \<notin> set a"
    by (auto simp: a(1) dest: set_takeWhileD)
  ultimately show "s = a @ c # b \<and> c \<notin> set a"
    using s by simp
qed (auto simp: split_once_sep)

section \<open>White space\<close>

definition whitespace :: "string list" where
  "whitespace = map (\<lambda>n. [char_of (n :: nat)]) [9, 10, 11, 12, 13, 32]
     @ map (map (char_of :: nat \<Rightarrow> char)) ([[194, 133], [194, 160], [225, 154, 128]]
       @ map (\<lambda>n. [226, 128, n]) ([128..<139] @ [168, 169, 175]) @ [[226, 129, 159], [227, 128, 128]])"

definition contains_whitespace :: "string \<Rightarrow> bool" where
  "contains_whitespace s \<longleftrightarrow> (\<exists>i < length s. \<exists>w \<in> set whitespace. take (length w) (drop i s) = w)"

fun strip_any :: "string list \<Rightarrow> nat \<Rightarrow> string \<Rightarrow> string" where
  "strip_any ws 0 s = s"
| "strip_any ws (Suc n) s = (case find (\<lambda>w. take (length w) s = w) ws of
     None \<Rightarrow> s
   | Some w \<Rightarrow> strip_any ws n (drop (length w) s))"

definition trim_start :: "string \<Rightarrow> string" where
  "trim_start s = strip_any whitespace (length s) s"

definition trim_end :: "string \<Rightarrow> string" where
  "trim_end s = rev (strip_any (map rev whitespace) (length s) (rev s))"

definition trim :: "string \<Rightarrow> string" where
  "trim s = trim_end (trim_start s)"

text \<open>The fuel is enough: every sequence is at least one byte long.\<close>

lemma whitespace_nonempty: "w \<in> set whitespace \<Longrightarrow> w \<noteq> []"
  by (auto simp: whitespace_def)

lemma strip_any_stable:
  assumes "\<forall>w \<in> set ws. w \<noteq> []" "length s \<le> n"
  shows "find (\<lambda>w. take (length w) (strip_any ws n s) = w) ws = None"
  using assms
proof (induction ws n s rule: strip_any.induct)
  case (1 ws s)
  then show ?case
    by (auto simp: find_None_iff)
next
  case (2 ws n s)
  show ?case
  proof (cases "find (\<lambda>w. take (length w) s = w) ws")
    case (Some w)
    then have "w \<in> set ws"
      by (auto simp: find_Some_iff)
    then have "0 < length w"
      using 2(2) by simp
    then have "length (drop (length w) s) \<le> n"
      using 2(3) by (cases "length w") simp_all
    then show ?thesis
      using 2(1) [OF Some 2(2)] Some by simp
  qed simp
qed

lemma trim_start_stops: "w \<in> set whitespace \<Longrightarrow> take (length w) (trim_start s) \<noteq> w"
  using strip_any_stable [of whitespace s "length s"] whitespace_nonempty
  by (auto simp: trim_start_def find_None_iff)

lemma strip_any_clean:
  assumes "\<forall>w \<in> set ws. take (length w) s \<noteq> w"
  shows "strip_any ws n s = s"
proof (cases n)
  case (Suc m)
  have "find (\<lambda>w. take (length w) s = w) ws = None"
    using assms by (auto simp: find_None_iff)
  then show ?thesis
    by (simp add: Suc)
qed simp

lemma trim_clean:
  assumes "\<forall>w \<in> set whitespace. take (length w) s \<noteq> w" "\<forall>w \<in> set whitespace. take (length w) (rev s) \<noteq> rev w"
  shows "trim s = s"
  using assms by (simp add: trim_def trim_start_def trim_end_def strip_any_clean)

definition unspaced :: "string \<Rightarrow> bool" where
  "unspaced s \<longleftrightarrow> (\<forall>w \<in> set whitespace. take (length w) s \<noteq> w \<and> take (length w) (rev s) \<noteq> rev w)"

lemma trim_unspaced: "unspaced s \<Longrightarrow> trim s = s"
  by (simp add: unspaced_def trim_clean)

section \<open>Numbers and booleans\<close>

definition parse_unsigned :: "nat \<Rightarrow> string \<Rightarrow> nat option" where
  "parse_unsigned limit s = (let digits = (case s of c # rest \<Rightarrow> if c = CHR ''+'' then rest else s | [] \<Rightarrow> [])
     in if digits = [] \<or> (\<exists>c \<in> set digits. of_char c < (48 :: nat) \<or> of_char c > (57 :: nat)) then None
        else if undecimal digits > limit then None else Some (undecimal digits))"

lemma parse_u64_unsigned: "parse_u64 = parse_unsigned u64_max"
  by (simp add: fun_eq_iff parse_u64_def parse_unsigned_def)

lemma parse_unsigned_le: "parse_unsigned limit s = Some n \<Longrightarrow> n \<le> limit"
  by (auto simp: parse_unsigned_def Let_def split: if_splits)

lemma parse_unsigned_mono: "parse_unsigned limit s = Some n \<Longrightarrow> limit \<le> limit' \<Longrightarrow> parse_unsigned limit' s = Some n"
  by (auto simp: parse_unsigned_def Let_def split: if_splits)

lemma parse_unsigned_iff:
  "limit \<le> limit' \<Longrightarrow> parse_unsigned limit s = Some n \<longleftrightarrow> parse_unsigned limit' s = Some n \<and> n \<le> limit"
  by (auto simp: parse_unsigned_def Let_def)

lemma parse_unsigned_decimal:
  assumes "n \<le> limit" "limit \<le> u64_max"
  shows "parse_unsigned limit (decimal n) = Some n"
  using assms parse_u64_decimal [of n] by (simp add: parse_unsigned_iff [of limit u64_max] parse_u64_unsigned)

definition parse_bool :: "string \<Rightarrow> bool option" where
  "parse_bool s = (if s = ''true'' then Some True else if s = ''false'' then Some False else None)"

definition ascii_lowercase :: "string \<Rightarrow> string" where
  "ascii_lowercase = map (\<lambda>c. let n = of_char c in if 65 \<le> n \<and> n \<le> (90 :: nat) then char_of (n + 32) else c)"

section \<open>Socket addresses\<close>

text \<open>\<^verbatim>\<open>SocketAddr::from_str\<close>. A reader takes a value off the front of the text or fails and leaves the text as it was.\<close>

datatype socket_addr =
    SocketV4 (sa_octets: "nat list") (sa_port: nat)
  | SocketV6 (sa_groups: "nat list") (sa_scope: nat) (sa_port: nat)

definition digit_of :: "nat \<Rightarrow> char \<Rightarrow> nat option" where
  "digit_of radix c = (let n = of_char c :: nat;
       d = (if 48 \<le> n \<and> n \<le> 57 then Some (n - 48)
            else if 97 \<le> n \<and> n \<le> 122 then Some (n - 87)
            else if 65 \<le> n \<and> n \<le> 90 then Some (n - 55) else None)
     in Option.bind d (\<lambda>d. if d < radix then Some d else None))"

definition read_number :: "nat \<Rightarrow> nat option \<Rightarrow> bool \<Rightarrow> nat \<Rightarrow> string \<Rightarrow> (nat \<times> string) option" where
  "read_number radix max_digits zero_prefix limit s =
     (let ds = takeWhile (\<lambda>c. digit_of radix c \<noteq> None) s;
          n = fold (\<lambda>c n. radix * n + the (digit_of radix c)) ds 0
      in if ds = [] \<or> (case max_digits of None \<Rightarrow> False | Some m \<Rightarrow> length ds > m) \<or> (\<not> zero_prefix \<and> hd ds = CHR ''0'' \<and> length ds > 1) \<or> n > limit
         then None else Some (n, drop (length ds) s))"

definition read_char :: "char \<Rightarrow> string \<Rightarrow> string option" where
  "read_char c s = (case s of x # xs \<Rightarrow> if x = c then Some xs else None | [] \<Rightarrow> None)"

definition read_separator :: "char \<Rightarrow> bool \<Rightarrow> (string \<Rightarrow> ('a \<times> string) option) \<Rightarrow> string \<Rightarrow> ('a \<times> string) option" where
  "read_separator c needed inner s = Option.bind (if needed then read_char c s else Some s) inner"

fun read_octets :: "nat \<Rightarrow> nat list \<Rightarrow> string \<Rightarrow> (nat list \<times> string) option" where
  "read_octets 0 acc s = Some (acc, s)"
| "read_octets (Suc n) acc s = Option.bind (read_separator CHR ''.'' (acc \<noteq> []) (read_number 10 (Some 3) False 255) s)
     (\<lambda>(octet, s). read_octets n (acc @ [octet]) s)"

text \<open>The groups read, whether a trailing IPv4 address was among them, and the rest.\<close>

fun read_groups :: "nat \<Rightarrow> nat list \<Rightarrow> string \<Rightarrow> nat list \<times> bool \<times> string" where
  "read_groups 0 acc s = (acc, False, s)"
| "read_groups (Suc n) acc s =
     (case if n > 0 then read_separator CHR '':'' (acc \<noteq> []) (read_octets 4 []) s else None of
        Some (octets, s) \<Rightarrow> (acc @ [octets ! 0 * 256 + octets ! 1, octets ! 2 * 256 + octets ! 3], True, s)
      | None \<Rightarrow> (case read_separator CHR '':'' (acc \<noteq> []) (read_number 16 (Some 4) True 65535) s of
            Some (g, s) \<Rightarrow> read_groups n (acc @ [g]) s
          | None \<Rightarrow> (acc, False, s)))"

definition read_ipv6 :: "string \<Rightarrow> (nat list \<times> string) option" where
  "read_ipv6 s = (case read_groups 8 [] s of (front, v4, s) \<Rightarrow>
     if length front = 8 then Some (front, s)
     else if v4 then None
     else Option.bind (read_char CHR '':'' s) (\<lambda>s. Option.bind (read_char CHR '':'' s) (\<lambda>s.
       case read_groups (8 - (length front + 1)) [] s of (back, _, s) \<Rightarrow>
         Some (front @ replicate (8 - length front - length back) 0 @ back, s))))"

definition read_port :: "string \<Rightarrow> (nat \<times> string) option" where
  "read_port s = Option.bind (read_char CHR '':'' s) (read_number 10 None True 65535)"

definition read_socket_v4 :: "string \<Rightarrow> (socket_addr \<times> string) option" where
  "read_socket_v4 s = Option.bind (read_octets 4 [] s) (\<lambda>(ip, s).
     map_option (\<lambda>(port, s). (SocketV4 ip port, s)) (read_port s))"

definition read_scope_or_zero :: "string \<Rightarrow> nat \<times> string" where
  "read_scope_or_zero s = (case Option.bind (read_char CHR ''%'' s) (read_number 10 None True (2 ^ 32 - 1)) of
       Some (scope, s) \<Rightarrow> (scope, s)
     | None \<Rightarrow> (0, s))"

definition read_socket_v6 :: "string \<Rightarrow> (socket_addr \<times> string) option" where
  "read_socket_v6 s = Option.bind (read_char CHR ''['' s) (\<lambda>s. Option.bind (read_ipv6 s) (\<lambda>(ip, s).
     Option.bind (read_char CHR '']'' (snd (read_scope_or_zero s))) (\<lambda>rest.
       map_option (\<lambda>(port, rest). (SocketV6 ip (fst (read_scope_or_zero s)) port, rest)) (read_port rest))))"

definition parse_socket :: "string \<Rightarrow> socket_addr option" where
  "parse_socket s = (case (case read_socket_v4 s of Some r \<Rightarrow> Some r | None \<Rightarrow> read_socket_v6 s) of
       Some (addr, []) \<Rightarrow> Some addr
     | _ \<Rightarrow> None)"

lemma read_number_le: "read_number radix max_digits zero_prefix limit s = Some (n, r) \<Longrightarrow> n \<le> limit"
  by (auto simp: read_number_def Let_def split: if_splits)

lemma read_port_le: "read_port s = Some (port, r) \<Longrightarrow> port \<le> 65535"
  by (auto simp: read_port_def bind_eq_Some_conv dest: read_number_le)

lemma read_socket_port:
  "read_socket_v4 s = Some (a, r) \<Longrightarrow> sa_port a \<le> 65535"
  "read_socket_v6 s = Some (a, r) \<Longrightarrow> sa_port a \<le> 65535"
  by (auto simp: read_socket_v4_def read_socket_v6_def bind_eq_Some_conv Let_def dest: read_port_le split: prod.splits)

lemma parse_socket_port: "parse_socket s = Some a \<Longrightarrow> sa_port a \<le> 65535"
  by (auto simp: parse_socket_def dest: read_socket_port split: option.splits list.splits)

end
