(* ===== verification/Fleet_Config.thy ===== *)
theory Fleet_Config
  imports Text_Lib
begin

text \<open>
  The peer book of a fleet (\<^verbatim>\<open>src/src/sync/fleet/config.rs\<close>): its validation, the scope that names the index a fleet
  shares, and the fresh identity of a worker (\<^verbatim>\<open>src/src/sync/fleet/boot.rs\<close>). The random bytes of the operating
  system are arguments.
\<close>

section \<open>The book\<close>

definition MAX_PEERS :: nat where
  "MAX_PEERS = 256"

definition MAX_ID_BYTES :: nat where
  "MAX_ID_BYTES = 256"

definition MAX_ADDRESS_BYTES :: nat where
  "MAX_ADDRESS_BYTES = 512"

definition MAX_BUCKETS :: nat where
  "MAX_BUCKETS = 4096"

definition MAX_SCOPE_BYTES :: nat where
  "MAX_SCOPE_BYTES = 8192"

record fleet_config =
  fc_bind :: socket_addr
  fc_origin_id :: string
  fc_origin_endpoint :: string
  fc_origin_region :: string
  fc_buckets :: "string list"
  fc_peers :: "(string \<times> string) list"

datatype fleet_config_error =
  PartialBook | InvalidBind | InvalidAddress | IncompleteBook | BookCapacity | BucketInventory | Entropy

definition valid_address :: "string \<Rightarrow> bool" where
  "valid_address v = (case rsplit_once CHR '':'' v of
       None \<Rightarrow> False
     | Some (host, port) \<Rightarrow> host \<noteq> [] \<and> \<not> contains_whitespace host \<and> length v \<le> MAX_ADDRESS_BYTES
         \<and> (case parse_unsigned 65535 port of None \<Rightarrow> False | Some p \<Rightarrow> p \<noteq> 0))"

definition safe_origin_endpoint :: "string \<Rightarrow> bool" where
  "safe_origin_endpoint v = (case split_once_str ''://'' v of
       None \<Rightarrow> False
     | Some (scheme, address) \<Rightarrow>
         if scheme \<notin> {''http'', ''https''} \<or> CHR ''?'' \<in> set v \<or> CHR ''#'' \<in> set v then False
         else let authority = hd (split_on CHR ''/'' address)
           in authority \<noteq> [] \<and> CHR ''@'' \<notin> set authority \<and> \<not> contains_whitespace authority)"

definition parse_peer :: "string \<Rightarrow> (string \<times> string) list \<Rightarrow> fleet_config_error + (string \<times> string) list" where
  "parse_peer raw parsed =
     (if length parsed \<ge> MAX_PEERS then Inl BookCapacity
      else case split_once CHR ''='' raw of
          None \<Rightarrow> Inl InvalidAddress
        | Some (name, address) \<Rightarrow>
            if name = [] \<or> length name > MAX_ID_BYTES \<or> contains_whitespace name \<or> \<not> valid_address address
               \<or> name \<in> fst ` set parsed
            then Inl InvalidAddress else Inr (parsed @ [(name, address)]))"

definition bad_inventory :: "string list \<Rightarrow> bool" where
  "bad_inventory buckets \<longleftrightarrow> (let unique_buckets = sort (remdups buckets) in
     length unique_buckets \<noteq> length buckets \<or> (\<exists>name \<in> set unique_buckets. name = [] \<or> length name > MAX_ID_BYTES))"

definition parse_book ::
  "string \<Rightarrow> string \<Rightarrow> string \<Rightarrow> string \<Rightarrow> string \<Rightarrow> string \<Rightarrow> string \<Rightarrow> string list \<Rightarrow> fleet_config_error + fleet_config" where
  "parse_book bind_addr advertise peers origin_id origin_endpoint origin_region node_id buckets =
     (if origin_id = [] \<or> length origin_id > MAX_ADDRESS_BYTES \<or> \<not> safe_origin_endpoint origin_endpoint
         \<or> length origin_endpoint > MAX_ADDRESS_BYTES \<or> origin_region = [] \<or> length origin_region > MAX_ID_BYTES
      then Inl InvalidAddress
      else bindE (ok_or InvalidBind (parse_socket bind_addr)) (\<lambda>addr.
        if sa_port addr = 0 \<or> \<not> valid_address advertise then Inl InvalidAddress
        else if buckets = [] \<or> length buckets > MAX_BUCKETS then Inl BucketInventory
        else if bad_inventory buckets then Inl BucketInventory
        else bindE (foldE parse_peer (split_on CHR '','' peers) []) (\<lambda>parsed.
          if parsed = [] \<or> (node_id, advertise) \<notin> set parsed then Inl IncompleteBook
          else Inr \<lparr>fc_bind = addr, fc_origin_id = origin_id, fc_origin_endpoint = origin_endpoint,
                    fc_origin_region = origin_region, fc_buckets = sort (remdups buckets), fc_peers = parsed\<rparr>)))"

definition fleet_parse ::
  "string option \<Rightarrow> string option \<Rightarrow> string option \<Rightarrow> string option \<Rightarrow> string \<Rightarrow> string \<Rightarrow> string \<Rightarrow> string list
   \<Rightarrow> fleet_config_error + fleet_config option" where
  "fleet_parse bind_addr advertise peers origin_id origin_endpoint origin_region node_id buckets =
     (case (bind_addr, advertise, peers, origin_id) of
        (None, None, None, None) \<Rightarrow> Inr None
      | (Some b, Some a, Some p, Some i) \<Rightarrow>
          bindE (parse_book b a p i origin_endpoint origin_region node_id buckets) (\<lambda>c. Inr (Some c))
      | _ \<Rightarrow> Inl PartialBook)"

section \<open>The scope\<close>

definition append_component :: "string \<Rightarrow> string \<Rightarrow> fleet_config_error + string" where
  "append_component v out =
     bindE (ok_or BookCapacity (Option.bind (checked_add64 (length out) (length v)) (\<lambda>n. checked_add64 n 32))) (\<lambda>needed.
       if needed > MAX_SCOPE_BYTES then Inl BookCapacity
       else Inr (out @ decimal (length v) @ ''#'' @ v))"

definition scope :: "fleet_config \<Rightarrow> string list \<Rightarrow> fleet_config_error + string \<times> string" where
  "scope c buckets =
     (let ordered = sort buckets in
      if ordered \<noteq> fc_buckets c \<or> ordered = [] \<or> length ordered > MAX_BUCKETS \<or> \<not> distinct_adj ordered
         \<or> (\<exists>bucket \<in> set ordered. bucket = [] \<or> length bucket > MAX_ID_BYTES)
      then Inl BucketInventory
      else
        bindE (foldE append_component [fc_origin_id c, fc_origin_endpoint c, fc_origin_region c, ''s3cache-index-v1''] []) (\<lambda>origin_part.
        bindE (foldE append_component ordered []) (\<lambda>buckets_part.
          if saturating_add64 (length origin_part) (length buckets_part) > MAX_SCOPE_BYTES then Inl BookCapacity else Inr (origin_part, buckets_part))))"

section \<open>The worker's identity\<close>

definition boot_from_bytes :: "bytes \<Rightarrow> nat option" where
  "boot_from_bytes bs = (let token = le_val bs in if token \<noteq> 0 then Some token else None)"

text \<open>Two draws at most; \<^const>\<open>None\<close> is a draw the operating system refused.\<close>

definition fresh_boot :: "bytes option \<Rightarrow> bytes option \<Rightarrow> fleet_config_error + nat" where
  "fresh_boot draw1 draw2 = (case draw1 of
       None \<Rightarrow> Inl Entropy
     | Some bs \<Rightarrow> (case boot_from_bytes bs of
           Some identity \<Rightarrow> Inr identity
         | None \<Rightarrow> (case draw2 of
               None \<Rightarrow> Inl Entropy
             | Some bs \<Rightarrow> ok_or Entropy (boot_from_bytes bs))))"

lemma fresh_boot_nonzero:
  assumes "fresh_boot draw1 draw2 = Inr n" "\<And>d bs. d \<in> {draw1, draw2} \<Longrightarrow> d = Some bs \<Longrightarrow> length bs = 16"
  shows "n \<noteq> 0 \<and> n < 2 ^ 128"
proof -
  obtain bs where bs: "Some bs \<in> {draw1, draw2}" "boot_from_bytes bs = Some n"
    using assms(1) by (auto simp: fresh_boot_def ok_or_eq_Inr split: option.splits)
  then have "length bs = 16"
    using assms(2) [of "Some bs" bs] by auto
  then have "le_val bs < 256 ^ 16"
    by (metis le_bytes_le_val le_val_le_bytes mod_less_divisor zero_less_numeral zero_less_power)
  then show ?thesis
    using bs(2) by (auto simp: boot_from_bytes_def Let_def split: if_splits)
qed

section \<open>What the reader accepts\<close>

text \<open>An address is a host without white space, a colon and a port other than zero; the port is what follows the last colon.\<close>

definition address_ok :: "string \<Rightarrow> bool" where
  "address_ok v \<longleftrightarrow> (\<exists>host port p. v = host @ '':'' @ port \<and> CHR '':'' \<notin> set port \<and> host \<noteq> [] \<and> \<not> contains_whitespace host
     \<and> parse_unsigned 65535 port = Some p \<and> 0 < p) \<and> length v \<le> 512"

text \<open>An endpoint is an HTTP or HTTPS scheme, an authority without credentials or white space, and optionally a path; it has no
  query and no fragment.\<close>

definition endpoint_ok :: "string \<Rightarrow> bool" where
  "endpoint_ok v \<longleftrightarrow> (\<exists>scheme authority path. (scheme = ''http'' \<or> scheme = ''https'') \<and> v = scheme @ ''://'' @ authority @ path
     \<and> authority \<noteq> [] \<and> CHR ''/'' \<notin> set authority \<and> CHR ''@'' \<notin> set authority \<and> \<not> contains_whitespace authority
     \<and> (path = [] \<or> hd path = CHR ''/'')) \<and> CHR ''?'' \<notin> set v \<and> CHR ''#'' \<notin> set v"

lemma rsplit_once_Some: "rsplit_once c v = Some (host, port) \<longleftrightarrow> v = host @ c # port \<and> c \<notin> set port"
proof (cases "c \<in> set v")
  case True
  then obtain ys zs where v: "v = ys @ c # zs" "c \<notin> set zs"
    using split_list_last by metis
  show ?thesis
  proof
    assume "rsplit_once c v = Some (host, port)"
    then have "host = ys" "port = zs"
      using rsplit_once_last [OF v(2), of ys] by (simp_all add: v(1))
    then show "v = host @ c # port \<and> c \<notin> set port"
      using v by simp
  qed (auto simp: rsplit_once_last)
next
  case False
  then have "takeWhile (\<lambda>x. x \<noteq> c) (rev v) = rev v"
    by (intro takeWhile_eq_all_conv [THEN iffD2]) auto
  then have "rsplit_once c v = None"
    unfolding rsplit_once_def Let_def by (simp only: length_rev refl if_True)
  then show ?thesis
    using False by auto
qed

lemma valid_address_iff: "valid_address v \<longleftrightarrow> address_ok v"
proof (cases "rsplit_once CHR '':'' v")
  case None
  then have "\<not> (\<exists>host port. v = host @ '':'' @ port \<and> CHR '':'' \<notin> set port)"
    using rsplit_once_Some [of "CHR '':''" v] by auto
  then show ?thesis
    using None by (auto simp: valid_address_def address_ok_def)
next
  case (Some x)
  obtain host port where x: "x = (host, port)"
    by force
  have unique: "v = h @ '':'' @ q \<and> CHR '':'' \<notin> set q \<longleftrightarrow> h = host \<and> q = port" for h q
    using rsplit_once_Some [of "CHR '':''" v h q] Some x by auto
  have parts: "(\<exists>h q p. v = h @ '':'' @ q \<and> CHR '':'' \<notin> set q \<and> P h q p) \<longleftrightarrow> (\<exists>p. P host port p)" for P
    unfolding conj_assoc [symmetric] unique by blast
  show ?thesis
    unfolding address_ok_def parts by (simp add: valid_address_def Some x MAX_ADDRESS_BYTES_def split: option.split) blast
qed

lemma split_once_str_Some: "split_once_str pat v = Some (a, b) \<Longrightarrow> v = a @ pat @ b"
proof (induction pat v arbitrary: a b rule: split_once_str.induct)
  case (2 pat x xs)
  then show ?case
    by (auto split: if_splits) (metis append_take_drop_id)
qed (simp split: if_splits)

lemma hd_split_on: "hd (split_on c s) = takeWhile (\<lambda>x. x \<noteq> c) s"
  by (induction s) (auto split: list.split)

lemma scheme_split: "scheme = ''http'' \<or> scheme = ''https'' \<Longrightarrow> split_once_str ''://'' (scheme @ ''://'' @ rest) = Some (scheme, rest)"
  by auto

lemma safe_origin_endpoint_iff: "safe_origin_endpoint v \<longleftrightarrow> endpoint_ok v"
proof
  assume safe: "safe_origin_endpoint v"
  then obtain scheme address where split: "split_once_str ''://'' v = Some (scheme, address)"
    by (auto simp: safe_origin_endpoint_def split: option.splits)
  let ?authority = "takeWhile (\<lambda>x. x \<noteq> CHR ''/'') address" and ?path = "dropWhile (\<lambda>x. x \<noteq> CHR ''/'') address"
  have parts: "scheme = ''http'' \<or> scheme = ''https''" "CHR ''?'' \<notin> set v" "CHR ''#'' \<notin> set v" "?authority \<noteq> []"
      "CHR ''@'' \<notin> set ?authority" "\<not> contains_whitespace ?authority"
    using safe by (auto simp: safe_origin_endpoint_def split Let_def hd_split_on split: if_splits)
  have "v = scheme @ ''://'' @ ?authority @ ?path"
    using split_once_str_Some [OF split] by simp
  moreover have "?path = [] \<or> hd ?path = CHR ''/''"
    using hd_dropWhile [of "\<lambda>x. x \<noteq> CHR ''/''" address] by blast
  moreover have "CHR ''/'' \<notin> set ?authority"
    by (auto dest: set_takeWhileD)
  ultimately show "endpoint_ok v"
    unfolding endpoint_ok_def using parts by blast
next
  assume "endpoint_ok v"
  then obtain scheme authority path where v: "scheme = ''http'' \<or> scheme = ''https''" "v = scheme @ ''://'' @ authority @ path"
      "authority \<noteq> []" "CHR ''/'' \<notin> set authority" "CHR ''@'' \<notin> set authority" "\<not> contains_whitespace authority"
      "path = [] \<or> hd path = CHR ''/''" "CHR ''?'' \<notin> set v" "CHR ''#'' \<notin> set v"
    unfolding endpoint_ok_def by blast
  have "takeWhile (\<lambda>x. x \<noteq> CHR ''/'') (authority @ path) = authority"
    using v(4,7) by (cases path) (auto simp: takeWhile_append)
  then show "safe_origin_endpoint v"
    using scheme_split [OF v(1), of "authority @ path"] v
    by (simp add: safe_origin_endpoint_def v(2) [symmetric] Let_def hd_split_on)
qed

definition book_text :: "(string \<times> string) list \<Rightarrow> string" where
  "book_text ps = join_with CHR '','' (map (\<lambda>(name, address). name @ ''='' @ address) ps)"

definition peer_ok :: "string \<times> string \<Rightarrow> bool" where
  "peer_ok p \<longleftrightarrow> fst p \<noteq> [] \<and> length (fst p) \<le> MAX_ID_BYTES \<and> \<not> contains_whitespace (fst p) \<and> address_ok (snd p)
     \<and> CHR ''='' \<notin> set (fst p) \<and> CHR '','' \<notin> set (fst p) \<and> CHR '','' \<notin> set (snd p)"

definition book_ok :: "(string \<times> string) list \<Rightarrow> bool" where
  "book_ok ps \<longleftrightarrow> ps \<noteq> [] \<and> length ps \<le> MAX_PEERS \<and> distinct (map fst ps) \<and> list_all peer_ok ps"

definition inventory_ok :: "string list \<Rightarrow> bool" where
  "inventory_ok buckets \<longleftrightarrow> buckets \<noteq> [] \<and> length buckets \<le> MAX_BUCKETS \<and> distinct buckets
     \<and> list_all (\<lambda>b. b \<noteq> [] \<and> length b \<le> MAX_ID_BYTES) buckets"

definition identity_ok :: "string \<Rightarrow> string \<Rightarrow> string \<Rightarrow> bool" where
  "identity_ok origin_id endpoint region \<longleftrightarrow> origin_id \<noteq> [] \<and> length origin_id \<le> MAX_ADDRESS_BYTES
     \<and> endpoint_ok endpoint \<and> length endpoint \<le> MAX_ADDRESS_BYTES \<and> region \<noteq> [] \<and> length region \<le> MAX_ID_BYTES"

lemma join_split: "join_with c (split_on c s) = s"
proof (induction s)
  case (Cons x s)
  then show ?case
    by (cases "split_on c s") (auto simp: join_with_def)
qed (simp add: join_with_def)

lemma split_on_avoids: "p \<in> set (split_on c s) \<Longrightarrow> c \<notin> set p"
proof (induction s arbitrary: p)
  case (Cons x s)
  then show ?case
    by (cases "split_on c s") (auto split: if_splits)
qed simp

lemma parse_peer_Inr:
  "parse_peer raw ps = Inr ps' \<longleftrightarrow> length ps < MAX_PEERS
     \<and> (\<exists>name address. raw = name @ ''='' @ address \<and> CHR ''='' \<notin> set name \<and> name \<noteq> [] \<and> length name \<le> MAX_ID_BYTES
         \<and> \<not> contains_whitespace name \<and> address_ok address \<and> name \<notin> fst ` set ps \<and> ps' = ps @ [(name, address)])"
proof (cases "split_once CHR ''='' raw")
  case None
  then have "\<not> (\<exists>name address. raw = name @ ''='' @ address \<and> CHR ''='' \<notin> set name)"
    using split_once_sep by fastforce
  with None show ?thesis
    by (auto simp: parse_peer_def)
next
  case (Some p)
  then obtain name address where p: "p = (name, address)" "raw = name @ CHR ''='' # address" "CHR ''='' \<notin> set name"
    by (cases p) (simp add: split_once_Some)
  have unique: "raw = n @ ''='' @ a \<and> CHR ''='' \<notin> set n \<longleftrightarrow> n = name \<and> a = address" for n a
  proof
    assume "raw = n @ ''='' @ a \<and> CHR ''='' \<notin> set n"
    then have "split_once CHR ''='' raw = Some (n, a)"
      by (simp add: split_once_sep)
    then show "n = name \<and> a = address"
      by (simp add: Some p(1))
  qed (simp add: p(2,3))
  have "parse_peer raw ps = Inr ps' \<longleftrightarrow> length ps < MAX_PEERS \<and> name \<noteq> [] \<and> length name \<le> MAX_ID_BYTES
      \<and> \<not> contains_whitespace name \<and> address_ok address \<and> name \<notin> fst ` set ps \<and> ps' = ps @ [(name, address)]"
    by (auto simp: parse_peer_def Some p(1) valid_address_iff)
  moreover have "(\<exists>n a. raw = n @ ''='' @ a \<and> CHR ''='' \<notin> set n \<and> Q n a) \<longleftrightarrow> Q name address" for Q
    unfolding conj_assoc [symmetric] unique by simp
  ultimately show ?thesis
    by (simp only:)
qed

text \<open>The loop over the peers, from any book read so far.\<close>

lemma parse_peers_Inr:
  assumes "\<forall>raw \<in> set raws. CHR '','' \<notin> set raw" "length ps \<le> MAX_PEERS" "distinct (map fst ps)"
  shows "foldE parse_peer raws ps = Inr ps' \<longleftrightarrow> (\<exists>qs. ps' = ps @ qs \<and> raws = map (\<lambda>(name, address). name @ ''='' @ address) qs
    \<and> length ps' \<le> MAX_PEERS \<and> distinct (map fst ps') \<and> list_all peer_ok qs)"
  using assms
proof (induction raws arbitrary: ps)
  case Nil
  then show ?case
    by auto
next
  case (Cons raw raws)
  show ?case
  proof
    assume "foldE parse_peer (raw # raws) ps = Inr ps'"
    then obtain ps1 where ps1: "parse_peer raw ps = Inr ps1" "foldE parse_peer raws ps1 = Inr ps'"
      by (auto simp: bindE_eq_Inr)
    then obtain name address where p: "raw = name @ ''='' @ address" "peer_ok (name, address)" "ps1 = ps @ [(name, address)]"
        "length ps < MAX_PEERS" "name \<notin> fst ` set ps"
      using Cons.prems(1) by (auto simp: parse_peer_Inr peer_ok_def)
    then obtain qs where "ps' = ps1 @ qs" "raws = map (\<lambda>(name, address). name @ ''='' @ address) qs"
        "length ps' \<le> MAX_PEERS" "distinct (map fst ps')" "list_all peer_ok qs"
      using Cons.IH [of ps1] ps1(2) Cons.prems by auto
    then show "\<exists>qs. ps' = ps @ qs \<and> raw # raws = map (\<lambda>(name, address). name @ ''='' @ address) qs
        \<and> length ps' \<le> MAX_PEERS \<and> distinct (map fst ps') \<and> list_all peer_ok qs"
      using p by (intro exI [of _ "(name, address) # qs"]) auto
  next
    assume "\<exists>qs. ps' = ps @ qs \<and> raw # raws = map (\<lambda>(name, address). name @ ''='' @ address) qs
        \<and> length ps' \<le> MAX_PEERS \<and> distinct (map fst ps') \<and> list_all peer_ok qs"
    then obtain name address qs where q: "ps' = ps @ (name, address) # qs" "raw = name @ ''='' @ address"
        "raws = map (\<lambda>(name, address). name @ ''='' @ address) qs" "length ps' \<le> MAX_PEERS" "distinct (map fst ps')"
        "peer_ok (name, address)" "list_all peer_ok qs"
      by (auto simp: Cons_eq_map_conv)
    then have "parse_peer raw ps = Inr (ps @ [(name, address)])"
      by (auto simp: parse_peer_Inr peer_ok_def image_iff)
    moreover have "foldE parse_peer raws (ps @ [(name, address)]) = Inr ps'"
      using q Cons.prems by (subst Cons.IH) auto
    ultimately show "foldE parse_peer (raw # raws) ps = Inr ps'"
      by simp
  qed
qed

lemma parse_peers_book:
  "foldE parse_peer (split_on CHR '','' peers) [] = Inr ps \<and> ps \<noteq> [] \<longleftrightarrow> peers = book_text ps \<and> book_ok ps"
proof -
  let ?print = "map (\<lambda>(name, address). name @ ''='' @ address)"
  have "foldE parse_peer (split_on CHR '','' peers) [] = Inr ps
      \<longleftrightarrow> split_on CHR '','' peers = ?print ps \<and> length ps \<le> MAX_PEERS \<and> distinct (map fst ps) \<and> list_all peer_ok ps"
    using split_on_avoids by (subst parse_peers_Inr) (auto simp: MAX_PEERS_def)
  moreover have "split_on CHR '','' peers = ?print ps \<longleftrightarrow> peers = book_text ps" if "ps \<noteq> []" "list_all peer_ok ps"
  proof
    assume "split_on CHR '','' peers = ?print ps"
    then show "peers = book_text ps"
      unfolding book_text_def by (metis join_split)
  next
    have "\<forall>s \<in> set (?print ps). CHR '','' \<notin> set s"
      using that(2) by (auto simp: list_all_iff peer_ok_def)
    then show "peers = book_text ps \<Longrightarrow> split_on CHR '','' peers = ?print ps"
      using that(1) by (simp add: book_text_def split_on_join)
  qed
  ultimately show ?thesis
    by (auto simp: book_ok_def)
qed

lemma bad_inventory_iff:
  "\<not> bad_inventory buckets \<longleftrightarrow> distinct buckets \<and> list_all (\<lambda>b. b \<noteq> [] \<and> length b \<le> MAX_ID_BYTES) buckets"
  by (auto simp: bad_inventory_def Let_def list_all_iff not_less distinct_remdups_id length_remdups_eq dest: card_distinct)

text \<open>C23: The reader of the peer book is exact. It accepts a configuration if and only if the bind address parses with a
  usable port, the origin is named by an HTTP endpoint with an authority free of credentials, without query or fragment, and
  bounded nonempty identifiers, the bucket inventory is bounded and free of duplicates and empty names, every address is a host
  and a port that is not zero, and the text of the peers is the printed form of a well-formed book that holds this node under
  its advertised address; and what it returns is that book, with the inventory in order. Nothing is dropped or repaired.\<close>

theorem book_accepted_iff:
  "fleet_parse (Some bind_addr) (Some advertise) (Some peers) (Some origin_id) endpoint region node_id buckets = Inr (Some c)
   \<longleftrightarrow> parse_socket bind_addr = Some (fc_bind c) \<and> sa_port (fc_bind c) \<noteq> 0 \<and> address_ok advertise
     \<and> identity_ok origin_id endpoint region \<and> inventory_ok buckets \<and> peers = book_text (fc_peers c) \<and> book_ok (fc_peers c)
     \<and> (node_id, advertise) \<in> set (fc_peers c) \<and> fc_buckets c = sort buckets
     \<and> fc_origin_id c = origin_id \<and> fc_origin_endpoint c = endpoint \<and> fc_origin_region c = region"
proof -
  have inv: "inventory_ok buckets \<longleftrightarrow> \<not> (buckets = [] \<or> length buckets > MAX_BUCKETS) \<and> \<not> bad_inventory buckets"
    by (auto simp: inventory_ok_def bad_inventory_iff)
  have same: "sort (remdups buckets) = sort buckets" if "inventory_ok buckets"
    using that by (simp add: inventory_ok_def distinct_remdups_id)
  have "fleet_parse (Some bind_addr) (Some advertise) (Some peers) (Some origin_id) endpoint region node_id buckets = Inr (Some c)
      \<longleftrightarrow> identity_ok origin_id endpoint region \<and> (\<exists>addr. parse_socket bind_addr = Some addr \<and> sa_port addr \<noteq> 0
        \<and> address_ok advertise \<and> inventory_ok buckets \<and> (\<exists>ps. (foldE parse_peer (split_on CHR '','' peers) [] = Inr ps \<and> ps \<noteq> [])
          \<and> (node_id, advertise) \<in> set ps
          \<and> c = \<lparr>fc_bind = addr, fc_origin_id = origin_id, fc_origin_endpoint = endpoint, fc_origin_region = region,
                 fc_buckets = sort (remdups buckets), fc_peers = ps\<rparr>))"
    by (auto simp: fleet_parse_def parse_book_def identity_ok_def inv result_simps valid_address_iff safe_origin_endpoint_iff split: if_splits)
  also have "\<dots> \<longleftrightarrow> parse_socket bind_addr = Some (fc_bind c) \<and> sa_port (fc_bind c) \<noteq> 0 \<and> address_ok advertise
     \<and> identity_ok origin_id endpoint region \<and> inventory_ok buckets \<and> peers = book_text (fc_peers c) \<and> book_ok (fc_peers c)
     \<and> (node_id, advertise) \<in> set (fc_peers c) \<and> fc_buckets c = sort buckets
     \<and> fc_origin_id c = origin_id \<and> fc_origin_endpoint c = endpoint \<and> fc_origin_region c = region"
    unfolding parse_peers_book using same by (cases c) auto
  finally show ?thesis .
qed

section \<open>The scope names one index\<close>

definition component :: "string \<Rightarrow> string" where
  "component v = decimal (length v) @ CHR ''#'' # v"

lemma append_component_Inr: "append_component v out = Inr r \<Longrightarrow> r = out @ component v"
  by (auto simp: append_component_def component_def bindE_eq_Inr split: if_splits)

lemma append_components:
  "foldE append_component vs out = Inr r \<Longrightarrow> r = out @ concat (map component vs)"
proof (induction vs arbitrary: out)
  case (Cons v vs)
  then show ?case
    by (fastforce simp: bindE_eq_Inr dest: append_component_Inr)
qed simp

lemma decimal_no_hash: "CHR ''#'' \<notin> set (decimal n)"
  using decimal_digits [of n] by auto

lemma components_inject:
  "concat (map component vs) = concat (map component ws) \<Longrightarrow> vs = ws"
proof (induction vs arbitrary: ws)
  case Nil
  then show ?case
    by (cases ws) (auto simp: component_def)
next
  case (Cons v vs)
  then obtain w ws' where ws: "ws = w # ws'"
    by (cases ws) (auto simp: component_def)
  let ?rest = "v @ concat (map component vs)" and ?rest' = "w @ concat (map component ws')"
  have eq: "decimal (length v) @ CHR ''#'' # ?rest = decimal (length w) @ CHR ''#'' # ?rest'"
    using Cons.prems ws by (simp add: component_def [of v] component_def [of w])
  have "split_once CHR ''#'' (decimal (length v) @ CHR ''#'' # ?rest) = Some (decimal (length w), ?rest')"
    unfolding eq by (rule split_once_sep [OF decimal_no_hash])
  then have "decimal (length v) = decimal (length w)" "?rest = ?rest'"
    using split_once_sep [OF decimal_no_hash, of "length v" ?rest] by simp_all
  then have "length v = length w"
    by (metis undecimal_decimal)
  with \<open>?rest = ?rest'\<close> Cons.IH [of ws'] ws show ?case
    by simp
qed

lemma components_eq: "concat (map component vs) = concat (map component ws) \<longleftrightarrow> vs = ws"
  using components_inject by blast

lemma scope_Inr:
  assumes "scope c buckets = Inr (origin_part, buckets_part)"
  shows "origin_part = concat (map component [fc_origin_id c, fc_origin_endpoint c, fc_origin_region c, ''s3cache-index-v1''])"
    and "buckets_part = concat (map component (sort buckets))"
    and "length origin_part + length buckets_part \<le> MAX_SCOPE_BYTES" "sort buckets = fc_buckets c"
proof -
  obtain dom part where run:
      "foldE append_component [fc_origin_id c, fc_origin_endpoint c, fc_origin_region c, ''s3cache-index-v1''] [] = Inr dom"
      "foldE append_component (sort buckets) [] = Inr part" "(origin_part, buckets_part) = (dom, part)"
      "\<not> saturating_add64 (length dom) (length part) > MAX_SCOPE_BYTES" "sort buckets = fc_buckets c"
    using assms unfolding scope_def Let_def by (auto simp: bindE_eq_Inr simp del: foldE.simps split: if_splits)
  then show "origin_part = concat (map component [fc_origin_id c, fc_origin_endpoint c, fc_origin_region c, ''s3cache-index-v1''])"
    and "buckets_part = concat (map component (sort buckets))"
    and "length origin_part + length buckets_part \<le> MAX_SCOPE_BYTES" "sort buckets = fc_buckets c"
    using append_components [OF run(1)] append_components [OF run(2)]
    by (auto simp: saturating_add64_def MAX_SCOPE_BYTES_def u64_max_def min_def split: if_splits)
qed

text \<open>C22: A scope names exactly one index. Two configurations that both get a scope get the same one if and only if they
  name the same origin, by identifier, endpoint and region, and the same bucket inventory in any order. So nodes that
  meet under one scope hold copies of one index, however the names are chosen; and a scope is at most eight kibibytes.\<close>

theorem scope_unambiguous:
  assumes "scope c buckets = Inr s" "scope c' buckets' = Inr s'"
  shows "(s = s' \<longleftrightarrow> fc_origin_id c = fc_origin_id c' \<and> fc_origin_endpoint c = fc_origin_endpoint c'
      \<and> fc_origin_region c = fc_origin_region c' \<and> mset buckets = mset buckets')
    \<and> length (fst s) + length (snd s) \<le> MAX_SCOPE_BYTES"
proof -
  obtain d p d' p' where s: "s = (d, p)" "s' = (d', p')"
    by (cases s; cases s')
  note one = scope_Inr [OF assms(1) [unfolded s]] and two = scope_Inr [OF assms(2) [unfolded s]]
  have "d = d' \<longleftrightarrow> fc_origin_id c = fc_origin_id c' \<and> fc_origin_endpoint c = fc_origin_endpoint c' \<and> fc_origin_region c = fc_origin_region c'"
    unfolding one(1) two(1) components_eq by simp
  moreover have "p = p' \<longleftrightarrow> sort buckets = sort buckets'"
    unfolding one(2) two(2) components_eq ..
  moreover have "sort buckets = sort buckets' \<longleftrightarrow> mset buckets = mset buckets'"
    by (metis mset_sort properties_for_sort sorted_sort)
  ultimately show ?thesis
    using one(3) s by auto
qed

definition fleet_example :: "string \<Rightarrow> fleet_config" where
  "fleet_example region = \<lparr>fc_bind = SocketV4 [0, 0, 0, 0] 9000, fc_origin_id = ''o'', fc_origin_endpoint = ''http://h'',
     fc_origin_region = region, fc_buckets = [''a'', ''b''], fc_peers = [(''n'', ''n:9000'')]\<rparr>"

lemma scope_unambiguous_witness:
  "\<exists>s s'. scope (fleet_example ''r'') [''b'', ''a''] = Inr s \<and> scope (fleet_example ''q'') [''a'', ''b''] = Inr s' \<and> s \<noteq> s'"
proof -
  have run: "\<exists>s. scope (fleet_example [c]) bs = Inr s" if "bs = [''b'', ''a''] \<or> bs = [''a'', ''b'']" for bs c
  proof -
    have "sort bs = [''a'', ''b'']"
      using that by auto
    then show ?thesis
      by (simp add: scope_def fleet_example_def MAX_BUCKETS_def MAX_ID_BYTES_def append_component_def checked_add64_def u64_max_def
          MAX_SCOPE_BYTES_def saturating_add64_def decimal.simps)
  qed
  obtain s s' where "scope (fleet_example ''r'') [''b'', ''a''] = Inr s" "scope (fleet_example ''q'') [''a'', ''b''] = Inr s'"
    using run [of "[''b'', ''a'']" "CHR ''r''"] run [of "[''a'', ''b'']" "CHR ''q''"] by auto
  then show ?thesis
    using scope_unambiguous [of "fleet_example ''r''" "[''b'', ''a'']" s "fleet_example ''q''" "[''a'', ''b'']" s']
    by (auto simp: fleet_example_def)
qed

end
