(* ===== verification/Scan.thy ===== *)
theory Scan
  imports Listing
begin

text \<open>
  Split LIST scans (\<^verbatim>\<open>src/src/index/scan.rs\<close>). The origin is not part of the
  program: discovery asks it through the parameter \<open>ask\<close> (whose first argument counts the
  requests made so far, so the same request may be answered differently later), and the range scans
  consume a sequence of events, one per response, in the order the responses arrive, each with what the
  other tasks of the node did to the index since the event before. \<open>pe\<close> parses an
  ETag and \<open>permit\<close> is the answer of the publication permit, when there is one.
\<close>

section \<open>Configuration and ranges\<close>

definition MAX_WORKERS :: nat where
  "MAX_WORKERS = 64"

definition MAX_DISCOVERY_REQUESTS :: nat where
  "MAX_DISCOVERY_REQUESTS = 64"

definition MAX_PREFIX_DEPTH :: nat where
  "MAX_PREFIX_DEPTH = 8"

record scan_config =
  workers :: nat
  discovery_budget :: nat

definition scan_bounded :: "scan_config \<Rightarrow> scan_config" where
  "scan_bounded c = \<lparr>workers = max 1 (min MAX_WORKERS (workers c)),
     discovery_budget = min (discovery_budget c) MAX_DISCOVERY_REQUESTS\<rparr>"

record key_range =
  rg_lower :: "string option"
  rg_upper :: "string option"

fun ranges_from :: "string option \<Rightarrow> string list \<Rightarrow> key_range list" where
  "ranges_from lower [] = [\<lparr>rg_lower = lower, rg_upper = None\<rparr>]"
| "ranges_from lower (boundary # bs) =
     \<lparr>rg_lower = lower, rg_upper = Some boundary\<rparr> # ranges_from (Some boundary) bs"

definition ranges :: "string list \<Rightarrow> key_range list" where
  "ranges boundaries = ranges_from None boundaries"

definition choose_boundaries :: "string list \<Rightarrow> nat \<Rightarrow> string list" where
  "choose_boundaries prefixes w =
     (let range_count = min w (length prefixes + 1)
      in map (\<lambda>part. prefixes ! (part * length prefixes div range_count)) [1..<range_count])"

section \<open>Discovery\<close>

record discovery_page =
  dp_prefixes :: "string option list"
  dp_truncated :: "bool option"
  dp_next :: "string option"

type_synonym discovery_ask = "nat \<Rightarrow> string \<Rightarrow> string option \<Rightarrow> discovery_page option"

datatype children_result = DStopped | DIncomplete | DChildren "string list"

function discover_children ::
  "discovery_ask \<Rightarrow> nat \<Rightarrow> string \<Rightarrow> nat \<Rightarrow> string option \<Rightarrow> string list \<Rightarrow> nat \<times> children_result" where
  "discover_children ask budget pre used token children =
     (if used \<ge> budget then (used, DIncomplete)
      else case ask used pre token of
          None \<Rightarrow> (used + 1, DStopped)
        | Some response \<Rightarrow>
            let children = children @ List.map_filter (\<lambda>c. c) (dp_prefixes response) in
            if children = [] then (used + 1, DStopped)
            else if dp_truncated response \<noteq> Some True then (used + 1, DChildren children)
            else case dp_next response of
                None \<Rightarrow> (used + 1, DIncomplete)
              | Some t \<Rightarrow> discover_children ask budget pre (used + 1) (Some t) children)"
  by pat_completeness auto
termination
  by (relation "measure (\<lambda>(ask, budget, pre, used, token, children). budget - used)") auto

declare discover_children.simps [simp del]

lemma discover_children_used:
  "used < budget \<Longrightarrow> used < fst (discover_children ask budget pre used token children)
     \<and> fst (discover_children ask budget pre used token children) \<le> budget"
proof (induction ask budget pre used token children rule: discover_children.induct)
  case (1 ask budget pre used token children)
  show ?case
  proof (cases "used + 1 < budget")
    case True
    have "used < fst (discover_children ask budget pre (used + 1) (Some t) cs)
        \<and> fst (discover_children ask budget pre (used + 1) (Some t) cs) \<le> budget"
      if "ask used pre token = Some r" "cs = children @ List.map_filter (\<lambda>c. c) (dp_prefixes r)"
        "cs \<noteq> []" "\<not> dp_truncated r \<noteq> Some True" "dp_next r = Some t" for r cs t
      using "1.IH" [OF _ that(1,2,3,4,5) True] "1.prems" by simp
    then show ?thesis
      using "1.prems" True
      by (subst (1 2) discover_children.simps) (auto simp: Let_def split: option.split)
  next
    case False
    then have "discover_children ask budget pre (used + 1) t cs = (used + 1, DIncomplete)" for t cs
      by (simp add: discover_children.simps)
    then show ?thesis
      using "1.prems"
      by (subst (1 2) discover_children.simps) (auto simp: Let_def split: option.split)
  qed
qed

lemma discover_step_used:
  "discover_children ask budget pre used token children = (used', r) \<Longrightarrow> used < budget \<Longrightarrow> used < used' \<and> used' \<le> budget"
  using discover_children_used by (metis fst_conv)

definition depth_of :: "string \<Rightarrow> nat" where
  "depth_of pre = length (filter (\<lambda>c. c = CHR ''/'') pre)"

function discover_loop ::
  "discovery_ask \<Rightarrow> scan_config \<Rightarrow> string list \<Rightarrow> string list \<Rightarrow> nat \<Rightarrow> string list \<times> nat" where
  "discover_loop ask config [] best used = (best, used)"
| "discover_loop ask config (pre # queue) best used =
     (if used \<ge> discovery_budget config then (best, used)
      else case discover_children ask (discovery_budget config) pre used None [] of
          (used', DStopped) \<Rightarrow> (best, used')
        | (used', DIncomplete) \<Rightarrow> (best, used')
        | (used', DChildren found) \<Rightarrow>
            let children = remdups_adj (sort found);
                best = (if length children > length best then children else best)
            in if length best \<ge> workers config * 8 then (best, used')
               else discover_loop ask config
                 (if depth_of pre < MAX_PREFIX_DEPTH then queue @ children else queue) best used')"
  by pat_completeness auto
termination
  by (relation "measure (\<lambda>(ask, config, queue, best, used). discovery_budget config - used)")
    (auto simp: not_le dest!: discover_step_used [OF sym] intro: diff_less_mono2)

definition discover_boundaries :: "discovery_ask \<Rightarrow> scan_config \<Rightarrow> string list" where
  "discover_boundaries ask config =
     (if workers config = 1 \<or> discovery_budget config = 0 then []
      else choose_boundaries (fst (discover_loop ask config [[]] [] 0)) (workers config))"

section \<open>Scanning the ranges\<close>

record aws_object =
  ao_key :: "string option"
  ao_size :: "int option"
  ao_last_modified :: "int option"
  ao_e_tag :: "string option"
  ao_storage_class :: "string option"

record list_response =
  rs_contents :: "aws_object list"
  rs_truncated :: "bool option"
  rs_next :: "string option"

datatype scan_error = OriginError | OmittedKey | OutOfOrder | Superseded | EmptyPages | MissingToken | RepeatedToken

record range_state =
  sr_token :: "string option"
  sr_previous :: "string option"
  sr_found :: nat
  sr_empty :: nat

definition range_start :: range_state where
  "range_start = \<lparr>sr_token = None, sr_previous = None, sr_found = 0, sr_empty = 0\<rparr>"

definition listed_entry :: "(string \<Rightarrow> etag option) \<Rightarrow> systime \<Rightarrow> aws_object \<Rightarrow> obj_entry" where
  "listed_entry pe now obj =
     \<lparr>e_size = ao_size obj,
      e_last_modified = (case Option.bind (ao_last_modified obj) origin_time of Some t \<Rightarrow> t | None \<Rightarrow> now),
      e_etag = Option.bind (ao_e_tag obj) pe,
      e_storage_class = (case ao_storage_class obj of None \<Rightarrow> standard_class | Some c \<Rightarrow> c),
      e_content_type = None, e_meta = None\<rparr>"

fun scan_objects ::
  "(string \<Rightarrow> etag option) \<Rightarrow> systime \<Rightarrow> key_range \<Rightarrow> aws_object list \<Rightarrow> string option
   \<Rightarrow> (string \<times> obj_entry) list \<Rightarrow> scan_error + (string \<times> obj_entry) list \<times> string option \<times> bool" where
  "scan_objects pe now rg [] previous rws = Inr (rws, previous, False)"
| "scan_objects pe now rg (obj # objs) previous rws =
     (case ao_key obj of
        None \<Rightarrow> Inl OmittedKey
      | Some key \<Rightarrow>
          if (case previous of None \<Rightarrow> False | Some lst \<Rightarrow> key \<le> lst)
             \<or> (case rg_lower rg of None \<Rightarrow> False | Some lower \<Rightarrow> key \<le> lower)
          then Inl OutOfOrder
          else if (case rg_upper rg of None \<Rightarrow> False | Some upper \<Rightarrow> key > upper)
          then Inr (rws, Some key, True)
          else scan_objects pe now rg objs (Some key) (rws @ [(key, listed_entry pe now obj)]))"

text \<open>One response: the page is folded into the index, and the scan of its range ends (\<^const>\<open>True\<close>) or
  goes on with the next token. A permit that refuses to publish counts as superseded.\<close>

definition scan_page ::
  "layout \<Rightarrow> (string \<Rightarrow> etag option) \<Rightarrow> systime \<Rightarrow> bool option \<Rightarrow> key_index_state \<Rightarrow> string \<Rightarrow> nat
   \<Rightarrow> key_range \<Rightarrow> range_state \<Rightarrow> list_response \<Rightarrow> key_index_state \<times> (scan_error + range_state \<times> bool)" where
  "scan_page lay pe now permit st bucket generation rg rs response =
     (case scan_objects pe now rg (rs_contents response) (sr_previous rs) [] of
        Inl err \<Rightarrow> (st, Inl err)
      | Inr (rws, previous, past_upper) \<Rightarrow>
          (case (if permit = Some False then (st, None)
                 else sync_listing_into_generation lay st bucket generation rws) of
             (st, None) \<Rightarrow> (st, Inl Superseded)
           | (st, Some page_len) \<Rightarrow>
               (let rs = rs\<lparr>sr_previous := previous, sr_found := sr_found rs + page_len\<rparr> in
                if past_upper \<or> rs_truncated response \<noteq> Some True then (st, Inr (rs, True))
                else
                  let empty_pages = (if rs_contents response = [] then sr_empty rs + 1 else 0) in
                  if empty_pages > 8 then (st, Inl EmptyPages)
                  else case rs_next response of
                      None \<Rightarrow> (st, Inl MissingToken)
                    | Some t \<Rightarrow>
                        if sr_token rs = Some t then (st, Inl RepeatedToken)
                        else (st, Inr (rs\<lparr>sr_token := Some t, sr_empty := empty_pages\<rparr>, False)))))"

text \<open>All ranges scan concurrently. An event is the response (or the failure) of the request that the
  scan of range \<open>ev_range\<close> has outstanding; the first error drops every other scan. While the scans wait,
  other tasks may change the index: \<open>ev_others\<close> is what they did since the event before, discovery included.
  An event for a range that does not exist, or that has ended, is only that.\<close>

record scan_event =
  ev_others :: "key_index_state \<Rightarrow> key_index_state"
  ev_range :: nat
  ev_now :: systime
  ev_permit :: "bool option"
  ev_response :: "list_response option"

record sync_run =
  sy_index :: key_index_state
  sy_scans :: "(key_range \<times> range_state \<times> bool) list"
  sy_error :: "scan_error option"

definition sync_start :: "key_index_state \<Rightarrow> string list \<Rightarrow> sync_run" where
  "sync_start st boundaries =
     \<lparr>sy_index = st, sy_scans = map (\<lambda>rg. (rg, range_start, False)) (ranges boundaries), sy_error = None\<rparr>"

definition page_event ::
  "layout \<Rightarrow> (string \<Rightarrow> etag option) \<Rightarrow> string \<Rightarrow> nat \<Rightarrow> scan_event \<Rightarrow> sync_run \<Rightarrow> sync_run" where
  "page_event lay pe bucket generation ev run =
     (if sy_error run \<noteq> None \<or> ev_range ev \<ge> length (sy_scans run) then run
      else case sy_scans run ! ev_range ev of
          (rg, rs, True) \<Rightarrow> run
        | (rg, rs, False) \<Rightarrow>
            (case ev_response ev of
               None \<Rightarrow> run\<lparr>sy_error := Some OriginError\<rparr>
             | Some response \<Rightarrow>
                 (case scan_page lay pe (ev_now ev) (ev_permit ev) (sy_index run) bucket generation rg rs response of
                    (st, Inl err) \<Rightarrow> run\<lparr>sy_index := st, sy_error := Some err\<rparr>
                  | (st, Inr (rs, fin)) \<Rightarrow>
                      run\<lparr>sy_index := st, sy_scans := (sy_scans run)[ev_range ev := (rg, rs, fin)]\<rparr>)))"

definition sync_event ::
  "layout \<Rightarrow> (string \<Rightarrow> etag option) \<Rightarrow> string \<Rightarrow> nat \<Rightarrow> scan_event \<Rightarrow> sync_run \<Rightarrow> sync_run" where
  "sync_event lay pe bucket generation ev run =
     (if sy_error run \<noteq> None then run
      else page_event lay pe bucket generation ev (run\<lparr>sy_index := ev_others ev (sy_index run)\<rparr>))"

text \<open>What interference leaves alone, stated once for all the tasks that may run in between.\<close>

definition others_keep :: "(key_index_state \<Rightarrow> 'a) \<Rightarrow> (key_index_state \<Rightarrow> key_index_state) set \<Rightarrow> bool" where
  "others_keep f others \<longleftrightarrow> (\<forall>act \<in> others. \<forall>st. f (act st) = f st)"

text \<open>The result once every scan has ended or one has failed; \<^const>\<open>None\<close> while scans are running.\<close>

definition sync_result ::
  "string \<Rightarrow> nat \<Rightarrow> bool option \<Rightarrow> sync_run \<Rightarrow> key_index_state \<times> (scan_error + nat) option" where
  "sync_result bucket generation permit run =
     (case sy_error run of
        Some err \<Rightarrow> (sy_index run, Some (Inl err))
      | None \<Rightarrow>
          if \<not> list_all (\<lambda>(rg, rs, fin). fin) (sy_scans run) then (sy_index run, None)
          else (case (if permit = Some False then (sy_index run, False)
                      else finish_bucket_sync_generation (sy_index run) bucket generation) of
                  (st, True) \<Rightarrow> (st, Some (Inr (sum_list (map (\<lambda>(rg, rs, fin). sr_found rs) (sy_scans run)))))
                | (st, False) \<Rightarrow> (st, Some (Inl Superseded))))"

definition sync_bucket_generation ::
  "layout \<Rightarrow> (string \<Rightarrow> etag option) \<Rightarrow> discovery_ask \<Rightarrow> scan_config \<Rightarrow> string \<Rightarrow> nat \<Rightarrow> bool option
   \<Rightarrow> scan_event list \<Rightarrow> key_index_state \<Rightarrow> key_index_state \<times> (scan_error + nat) option" where
  "sync_bucket_generation lay pe ask config bucket generation permit events st =
     (let config = scan_bounded config;
          boundaries = discover_boundaries ask config
      in sync_result bucket generation permit
           (fold (sync_event lay pe bucket generation) events (sync_start st boundaries)))"

definition sync_bucket_into_with_config ::
  "layout \<Rightarrow> (string \<Rightarrow> etag option) \<Rightarrow> discovery_ask \<Rightarrow> scan_config \<Rightarrow> string
   \<Rightarrow> scan_event list \<Rightarrow> key_index_state \<Rightarrow> key_index_state \<times> (scan_error + nat) option" where
  "sync_bucket_into_with_config lay pe ask config bucket events st =
     (case begin_bucket_resync st bucket of (st, generation) \<Rightarrow>
        sync_bucket_generation lay pe ask config bucket generation None events st)"

section \<open>The ranges partition the key space\<close>

definition range_holds :: "key_range \<Rightarrow> string \<Rightarrow> bool" where
  "range_holds rg key \<longleftrightarrow> (case rg_lower rg of None \<Rightarrow> True | Some l \<Rightarrow> l < key)
     \<and> (case rg_upper rg of None \<Rightarrow> True | Some u \<Rightarrow> key \<le> u)"

lemma ranges_from_partition:
  assumes "sorted_wrt (<) bs" "\<And>b. b \<in> set bs \<Longrightarrow> (case lower of None \<Rightarrow> True | Some l \<Rightarrow> l < b)"
    and "case lower of None \<Rightarrow> True | Some l \<Rightarrow> l < key"
  shows "length (filter (\<lambda>rg. range_holds rg key) (ranges_from lower bs)) = 1"
  using assms
proof (induction bs arbitrary: lower)
  case Nil
  then show ?case
    by (simp add: range_holds_def)
next
  case (Cons b bs)
  show ?case
  proof (cases "key \<le> b")
    case True
    have "\<not> range_holds rg key" if "rg \<in> set (ranges_from (Some l) bs)" "sorted_wrt (<) (l # bs)" "b \<le> l" for rg l bs
      using that
    proof (induction bs arbitrary: l)
      case (Cons x xs)
      then show ?case
        using True Cons.IH [of x] by (fastforce simp: range_holds_def)
    qed (use True in \<open>simp add: range_holds_def\<close>)
    then have "filter (\<lambda>rg. range_holds rg key) (ranges_from (Some b) bs) = []"
      using Cons.prems(1) by (simp add: filter_empty_conv)
    then show ?thesis
      using True Cons.prems(3) by (simp add: range_holds_def)
  next
    case False
    then show ?thesis
      using Cons.IH [of "Some b"] Cons.prems by (simp add: range_holds_def)
  qed
qed

lemma boundary_index_less:
  fixes p q rc n :: nat
  assumes "1 \<le> p" "p < q" "q < rc" "rc \<le> n + 1"
  shows "p * n div rc < q * n div rc" "q * n div rc < n"
proof -
  have pos: "0 < rc"
    using assms by simp
  have n: "0 < n"
    using assms by simp
  have "q * n < n * rc"
    using assms n by (simp add: mult.commute)
  then show "q * n div rc < n"
    by (simp add: div_less_iff_less_mult pos)
  show "p * n div rc < q * n div rc"
  proof (cases "rc \<le> n")
    case True
    have "p * n + n \<le> q * n"
      using assms(2) by (metis Suc_leI add.commute mult_Suc mult_le_mono1)
    then have "(p * n + rc) div rc \<le> q * n div rc"
      using True by (intro div_le_mono) simp
    moreover have "(p * n + rc) div rc = p * n div rc + 1"
      using pos by (metis Suc_eq_plus1 add_Suc_right add.right_neutral div_add_self2 less_not_refl)
    ultimately show ?thesis
      by linarith
  next
    case False
    then have rc: "rc = n + 1"
      using assms(4) by simp
    have "k * n div (n + 1) = k - 1" if "1 \<le> k" "k \<le> n" for k
    proof (rule div_nat_eqI)
      show "(n + 1) * (k - 1) \<le> k * n"
        using that by (cases k) simp_all
      show "k * n < (n + 1) * Suc (k - 1)"
        using that by (cases k) simp_all
    qed
    then show ?thesis
      using assms rc by simp
  qed
qed

lemma choose_boundaries_sorted:
  assumes "sorted_wrt (<) prefixes"
  shows "sorted_wrt (<) (choose_boundaries prefixes w)" "length (choose_boundaries prefixes w) < max 1 w"
proof -
  let ?n = "length prefixes" and ?rc = "min w (length prefixes + 1)"
  show "sorted_wrt (<) (choose_boundaries prefixes w)"
    unfolding choose_boundaries_def Let_def sorted_wrt_iff_nth_less
  proof (intro allI impI)
    fix i j
    assume ij: "i < j" "j < length (map (\<lambda>part. prefixes ! (part * ?n div ?rc)) [1..<?rc])"
    have "(1 + i) * ?n div ?rc < (1 + j) * ?n div ?rc" "(1 + j) * ?n div ?rc < ?n"
      using ij by (auto intro!: boundary_index_less simp del: min.bounded_iff mult_Suc)
    moreover have "[1..<?rc] ! i = 1 + i" "[1..<?rc] ! j = 1 + j"
      using ij nth_upt [of 1 i ?rc] nth_upt [of 1 j ?rc] by (simp_all del: min.bounded_iff min_less_iff_conj)
    ultimately show "map (\<lambda>part. prefixes ! (part * ?n div ?rc)) [1..<?rc] ! i
        < map (\<lambda>part. prefixes ! (part * ?n div ?rc)) [1..<?rc] ! j"
      using sorted_wrt_nth_less [OF assms, of "(1 + i) * ?n div ?rc" "(1 + j) * ?n div ?rc"] ij
      by (simp add: nth_map del: mult_Suc upt_Suc One_nat_def)
  qed
  show "length (choose_boundaries prefixes w) < max 1 w"
    by (auto simp: choose_boundaries_def Let_def)
qed

declare discover_loop.simps(2) [simp del]

lemma remdups_adj_strict: "sorted xs \<Longrightarrow> sorted_wrt (<) (remdups_adj (xs :: string list))"
  by (induction xs rule: remdups_adj.induct) (auto simp: order.strict_iff_order)

lemma remdups_adj_sort: "sorted_wrt (<) (remdups_adj (sort (xs :: string list)))"
  by (simp add: remdups_adj_strict)

lemma discover_loop_facts:
  "used \<le> discovery_budget config \<Longrightarrow> sorted_wrt (<) best \<Longrightarrow>
     sorted_wrt (<) (fst (discover_loop ask config queue best used))
     \<and> snd (discover_loop ask config queue best used) \<le> discovery_budget config"
proof (induction ask config queue best used rule: discover_loop.induct)
  case (2 ask config pre queue best used)
  show ?case
  proof (cases "used \<ge> discovery_budget config")
    case False
    obtain used' r where r: "discover_children ask (discovery_budget config) pre used None [] = (used', r)"
      by force
    have used: "used' \<le> discovery_budget config"
      using discover_step_used [OF r] False by simp
    show ?thesis
    proof (cases r)
      case (DChildren found)
      let ?cs = "remdups_adj (sort found)"
      let ?best = "if length ?cs > length best then ?cs else best"
      have "sorted_wrt (<) ?best"
        using "2.prems"(2) remdups_adj_sort by simp
      then show ?thesis
        using "2.IH" [OF False r [symmetric] DChildren refl refl] used False r DChildren
        by (simp add: Let_def discover_loop.simps(2))
    qed (use False r used "2.prems" in \<open>simp_all add: discover_loop.simps(2)\<close>)
  qed (use "2.prems" in \<open>simp add: discover_loop.simps(2)\<close>)
qed simp

lemma planned_ranges:
  shows "length (filter (\<lambda>rg. range_holds rg key) (ranges (discover_boundaries ask (scan_bounded c)))) = 1"
    and "length (ranges (discover_boundaries ask (scan_bounded c))) \<le> max 1 (workers c)"
    and "length (ranges (discover_boundaries ask (scan_bounded c))) \<le> MAX_WORKERS"
    and "snd (discover_loop ask (scan_bounded c) [[]] [] 0) \<le> MAX_DISCOVERY_REQUESTS"
proof -
  let ?c = "scan_bounded c"
  let ?bs = "discover_boundaries ask ?c"
  have loop: "sorted_wrt (<) (fst (discover_loop ask ?c [[]] [] 0))"
    "snd (discover_loop ask ?c [[]] [] 0) \<le> discovery_budget ?c"
    using discover_loop_facts [of 0 ?c "[]" ask "[[]]"] by simp_all
  have sorted: "sorted_wrt (<) ?bs"
    using choose_boundaries_sorted(1) [OF loop(1)] by (simp add: discover_boundaries_def)
  have "length (ranges_from l bs) = Suc (length bs)" for l bs
    by (induction bs arbitrary: l) simp_all
  then have "length (ranges ?bs) = Suc (length ?bs)"
    by (simp add: ranges_def)
  moreover have "max 1 (workers ?c) \<le> max 1 (workers c)" "max 1 (workers ?c) \<le> MAX_WORKERS"
    "discovery_budget ?c \<le> MAX_DISCOVERY_REQUESTS"
    by (auto simp: scan_bounded_def MAX_WORKERS_def)
  moreover have "length ?bs < max 1 (workers ?c)"
    using choose_boundaries_sorted(2) [OF loop(1), of "workers ?c"] by (auto simp: discover_boundaries_def)
  moreover have "length (filter (\<lambda>rg. range_holds rg key) (ranges ?bs)) = 1"
    unfolding ranges_def by (rule ranges_from_partition [OF sorted]) simp_all
  ultimately show "length (filter (\<lambda>rg. range_holds rg key) (ranges ?bs)) = 1" "length (ranges ?bs) \<le> max 1 (workers c)"
    "length (ranges ?bs) \<le> MAX_WORKERS" "snd (discover_loop ask ?c [[]] [] 0) \<le> MAX_DISCOVERY_REQUESTS"
    using loop(2) by linarith+
qed

text \<open>However discovery went (an unreachable origin, an incomplete or nonsensical answer), the
  planned ranges partition the key space: every key lies in exactly one of them, there are at most
  as many as the configured workers and never more than 64, and discovery spends at most its
  budget of LIST requests.\<close>

theorem ranges_partition_keys:
  "let config = scan_bounded c; rs = ranges (discover_boundaries ask config) in
     length (filter (\<lambda>rg. range_holds rg key) rs) = 1 \<and> length rs \<le> max 1 (workers c) \<and> length rs \<le> MAX_WORKERS
     \<and> snd (discover_loop ask config [[]] [] 0) \<le> MAX_DISCOVERY_REQUESTS"
  by (simp only: Let_def planned_ranges simp_thms)

section \<open>Scanning an honest origin\<close>

text \<open>What S3 documents of a LIST: keys in order after the request's cursor, and for a truncated page a
  token that stands for the last key returned. \<open>cursor_of\<close> gives the meaning of the origin's opaque
  tokens.\<close>

definition origin_ok :: "(string, aws_object) omap \<Rightarrow> bool" where
  "origin_ok objs \<longleftrightarrow> om_ok objs
     \<and> (\<forall>(k, ob) \<in> set objs. ao_key ob = Some k \<and> Option.bind (ao_last_modified ob) origin_time \<noteq> None)"

definition past_cursor :: "string option \<Rightarrow> string \<Rightarrow> bool" where
  "past_cursor c k \<longleftrightarrow> (case c of None \<Rightarrow> True | Some c \<Rightarrow> c < k)"

definition objs_after :: "string option \<Rightarrow> (string, aws_object) omap \<Rightarrow> (string, aws_object) omap" where
  "objs_after c objs = filter (\<lambda>r. past_cursor c (fst r)) objs"

definition honest_page :: "(string, aws_object) omap \<Rightarrow> (string \<Rightarrow> string option) \<Rightarrow> string option \<Rightarrow> nat \<Rightarrow> list_response \<Rightarrow> bool" where
  "honest_page objs cursor_of c n response \<longleftrightarrow>
     (let rest = objs_after c objs in
      rs_contents response = map snd (take n rest) \<and> n \<le> length rest
      \<and> (rs_truncated response = Some True \<longleftrightarrow> n < length rest)
      \<and> (n < length rest \<longrightarrow> (\<exists>t. rs_next response = Some t
           \<and> cursor_of t = (if n = 0 then c else Some (fst (rest ! (n - 1)))))))"

definition request_cursor :: "(string \<Rightarrow> string option) \<Rightarrow> key_range \<Rightarrow> range_state \<Rightarrow> string option" where
  "request_cursor cursor_of rg rs = (case sr_token rs of Some t \<Rightarrow> cursor_of t | None \<Rightarrow> rg_lower rg)"

text \<open>A running scan: nothing seen yet and the cursor is the lower bound, or the cursor is the last key seen.\<close>

definition scan_at :: "(string \<Rightarrow> string option) \<Rightarrow> key_range \<Rightarrow> range_state \<Rightarrow> bool" where
  "scan_at cursor_of rg rs \<longleftrightarrow>
     (let c = request_cursor cursor_of rg rs in
      (sr_previous rs = None \<and> c = rg_lower rg) \<or> (\<exists>k. sr_previous rs = Some k \<and> c = Some k \<and> range_holds rg k))"

definition scan_rows :: "(string \<Rightarrow> etag option) \<Rightarrow> key_range \<Rightarrow> (string, aws_object) omap \<Rightarrow> (string \<times> obj_entry) list" where
  "scan_rows pe rg seg = map (\<lambda>(k, ob). (k, listed_entry pe 0 ob)) (filter (\<lambda>r. range_holds rg (fst r)) seg)"

lemma listed_entry_now: "Option.bind (ao_last_modified ob) origin_time \<noteq> None \<Longrightarrow> listed_entry pe now ob = listed_entry pe 0 ob"
  by (auto simp: listed_entry_def)

lemma scan_objects_honest:
  assumes "origin_ok seg" "\<And>k. k \<in> fst ` set seg \<Longrightarrow> past_cursor prev k \<and> past_cursor (rg_lower rg) k"
  shows "scan_objects pe now rg (map snd seg) prev acc = Inr
    (acc @ scan_rows pe rg seg,
     (case filter (\<lambda>r. \<not> range_holds rg (fst r)) seg of [] \<Rightarrow> (if seg = [] then prev else Some (fst (List.last seg))) | r # _ \<Rightarrow> Some (fst r)),
     filter (\<lambda>r. \<not> range_holds rg (fst r)) seg \<noteq> [])"
  using assms
proof (induction seg arbitrary: prev acc)
  case Nil
  then show ?case
    by (simp add: scan_rows_def)
next
  case (Cons r seg)
  obtain k ob where r: "r = (k, ob)"
    by force
  have ob: "ao_key ob = Some k" "listed_entry pe now ob = listed_entry pe 0 ob"
    using Cons.prems(1) r listed_entry_now [of ob pe now] by (auto simp: origin_ok_def)
  have ok: "origin_ok seg" and gt: "\<And>k'. k' \<in> fst ` set seg \<Longrightarrow> k < k'"
    using Cons.prems(1) r by (auto simp: origin_ok_def om_ok_Cons)
  have lo: "past_cursor prev k" "past_cursor (rg_lower rg) k"
    using Cons.prems(2) r by auto
  then have pass: "\<not> (case prev of None \<Rightarrow> False | Some l \<Rightarrow> k \<le> l)" "\<not> (case rg_lower rg of None \<Rightarrow> False | Some l \<Rightarrow> k \<le> l)"
    by (auto simp: past_cursor_def split: option.splits)
  have inr: "range_holds rg k \<longleftrightarrow> \<not> (case rg_upper rg of None \<Rightarrow> False | Some u \<Rightarrow> u < k)"
    using lo(2) by (auto simp: range_holds_def past_cursor_def split: option.splits)
  show ?case
  proof (cases "range_holds rg k")
    case True
    have "scan_objects pe now rg (map snd (r # seg)) prev acc
        = scan_objects pe now rg (map snd seg) (Some k) (acc @ [(k, listed_entry pe 0 ob)])"
      using pass inr True r ob by simp
    also have "\<dots> = Inr ((acc @ [(k, listed_entry pe 0 ob)]) @ scan_rows pe rg seg,
        (case filter (\<lambda>r. \<not> range_holds rg (fst r)) seg of [] \<Rightarrow> (if seg = [] then Some k else Some (fst (List.last seg))) | r # _ \<Rightarrow> Some (fst r)),
        filter (\<lambda>r. \<not> range_holds rg (fst r)) seg \<noteq> [])"
      using Cons.prems(2) r gt by (intro Cons.IH [OF ok]) (auto simp: past_cursor_def)
    finally show ?thesis
      using True r by (auto simp: scan_rows_def split: list.split)
  next
    case False
    have "\<not> range_holds rg k'" if "k' \<in> fst ` set seg" for k'
      using False lo(2) gt [OF that] by (auto simp: range_holds_def past_cursor_def split: option.splits)
    then have "filter (\<lambda>r. range_holds rg (fst r)) seg = []"
      by (auto simp: filter_empty_conv)
    then show ?thesis
      using pass inr False r ob by (simp add: scan_rows_def)
  qed
qed

lemma origin_ok_after: "origin_ok objs \<Longrightarrow> origin_ok (objs_after c objs)"
  by (auto simp: origin_ok_def objs_after_def om_ok_filter)

lemma origin_ok_take: "origin_ok objs \<Longrightarrow> origin_ok (take n objs)"
  by (auto simp: origin_ok_def om_ok_take dest: in_set_takeD)

lemma take_upto:
  assumes "om_ok m" "0 < n" "n \<le> length m" "r \<in> set m"
  shows "r \<in> set (take n m) \<longleftrightarrow> fst r \<le> fst (m ! (n - 1))"
proof -
  have sorted: "sorted_wrt (<) (map fst m)"
    using assms(1) by (simp add: om_ok_def)
  obtain i where i: "i < length m" "r = m ! i"
    using assms(4) by (auto simp: in_set_conv_nth)
  have "i < n \<longleftrightarrow> fst (m ! i) \<le> fst (m ! (n - 1))"
  proof (cases i "n - 1" rule: linorder_cases)
    case less
    then show ?thesis
      using sorted_wrt_nth_less [OF sorted, of i "n - 1"] assms(2,3) by (cases n) (simp_all add: less_imp_le)
  next
    case greater
    then show ?thesis
      using sorted_wrt_nth_less [OF sorted, of "n - 1" i] assms(2,3) i by (auto simp: not_le)
  qed (use assms(2) in simp)
  moreover have "r \<in> set (take n m) \<longleftrightarrow> i < n"
  proof
    assume "r \<in> set (take n m)"
    then obtain j where j: "j < n" "j < length m" "r = m ! j"
      by (auto simp: in_set_conv_nth)
    then show "i < n"
      using i om_ok_distinct [OF assms(1)] by (metis distinct_map nth_eq_iff_index_eq)
  qed (use i in \<open>auto simp: in_set_conv_nth\<close>)
  ultimately show ?thesis
    using i by simp
qed

definition covered :: "string option \<Rightarrow> bool \<Rightarrow> key_range \<Rightarrow> string \<Rightarrow> bool" where
  "covered c fin rg k \<longleftrightarrow> range_holds rg k \<and> (fin \<or> \<not> past_cursor c k)"

lemma scan_page_reads:
  assumes "origin_ok objs" "scan_at cursor_of rg rs"
    and "honest_page objs cursor_of (request_cursor cursor_of rg rs) n response"
  defines "seg \<equiv> take n (objs_after (request_cursor cursor_of rg rs) objs)"
  shows "scan_objects pe now rg (rs_contents response) (sr_previous rs) [] = Inr
    (scan_rows pe rg seg,
     (case filter (\<lambda>r. \<not> range_holds rg (fst r)) seg of [] \<Rightarrow> (if seg = [] then sr_previous rs else Some (fst (List.last seg))) | r # _ \<Rightarrow> Some (fst r)),
     filter (\<lambda>r. \<not> range_holds rg (fst r)) seg \<noteq> [])"
proof -
  have "past_cursor (sr_previous rs) k \<and> past_cursor (rg_lower rg) k" if "k \<in> fst ` set seg" for k
  proof -
    have "past_cursor (request_cursor cursor_of rg rs) k"
      using that by (auto simp: seg_def objs_after_def dest: in_set_takeD)
    then show ?thesis
      using assms(2) by (auto simp: scan_at_def Let_def past_cursor_def range_holds_def split: option.splits)
  qed
  then show ?thesis
    using scan_objects_honest [of seg "sr_previous rs" rg pe now "[]"] assms(1,3)
    by (simp add: seg_def origin_ok_take origin_ok_after honest_page_def Let_def)
qed

lemma covered_page:
  assumes "origin_ok objs" "scan_at cursor_of rg rs" "c = request_cursor cursor_of rg rs"
    and "honest_page objs cursor_of c n response" "(k, ob) \<in> set objs"
  defines "seg \<equiv> take n (objs_after c objs)"
  shows "filter (\<lambda>r. \<not> range_holds rg (fst r)) seg \<noteq> [] \<or> n = length (objs_after c objs) \<Longrightarrow>
      covered c' True rg k \<longleftrightarrow> covered c False rg k \<or> (range_holds rg k \<and> (k, ob) \<in> set seg)"
    and "0 < n \<Longrightarrow> covered (Some (fst (objs_after c objs ! (n - 1)))) False rg k \<longleftrightarrow>
      covered c False rg k \<or> (range_holds rg k \<and> (k, ob) \<in> set seg)"
proof -
  let ?rest = "objs_after c objs"
  have rest: "om_ok ?rest" "n \<le> length ?rest" "(k, ob) \<in> set ?rest \<longleftrightarrow> past_cursor c k"
    using assms(1,4,5) by (auto simp: origin_ok_def objs_after_def om_ok_filter honest_page_def Let_def)
  show "covered c' True rg k \<longleftrightarrow> covered c False rg k \<or> (range_holds rg k \<and> (k, ob) \<in> set seg)"
    if end_of: "filter (\<lambda>r. \<not> range_holds rg (fst r)) seg \<noteq> [] \<or> n = length ?rest"
  proof -
    have "(k, ob) \<in> set seg" if k: "range_holds rg k" "past_cursor c k"
    proof (cases "n = length ?rest")
      case False
      then obtain r where r: "r \<in> set seg" "\<not> range_holds rg (fst r)"
        using end_of by (auto simp: filter_empty_conv)
      then have n: "0 < n"
        by (cases n) (auto simp: seg_def)
      have "r \<in> set ?rest"
        using r by (auto simp: seg_def dest: in_set_takeD)
      then have "past_cursor c (fst r)"
        by (simp add: objs_after_def)
      then have "past_cursor (rg_lower rg) (fst r)"
        using assms(2,3) by (auto simp: scan_at_def Let_def past_cursor_def range_holds_def split: option.splits)
      then have "k < fst r"
        using r(2) k(1) by (auto simp: range_holds_def past_cursor_def split: option.splits)
      then show ?thesis
        using take_upto [OF rest(1) n rest(2), of "(k, ob)"] take_upto [OF rest(1) n rest(2), of r] r(1)
          \<open>r \<in> set ?rest\<close> k(2) rest(3) unfolding seg_def by simp
    qed (use k rest(3) in \<open>simp add: seg_def\<close>)
    moreover have "past_cursor c k" if "(k, ob) \<in> set seg"
      using that rest(3) by (auto simp: seg_def dest: in_set_takeD)
    ultimately show ?thesis
      by (auto simp: covered_def)
  qed
  show "covered (Some (fst (?rest ! (n - 1)))) False rg k \<longleftrightarrow>
      covered c False rg k \<or> (range_holds rg k \<and> (k, ob) \<in> set seg)" if n: "0 < n"
  proof -
    have "?rest ! (n - 1) \<in> set ?rest"
      using n rest(2) by simp
    then have last: "past_cursor c (fst (?rest ! (n - 1)))"
      by (simp add: objs_after_def)
    have "(k, ob) \<in> set seg \<longleftrightarrow> past_cursor c k \<and> k \<le> fst (?rest ! (n - 1))"
      using take_upto [OF rest(1) n rest(2), of "(k, ob)"] rest(3) by (auto simp: seg_def dest: in_set_takeD)
    then show ?thesis
      using last by (auto simp: covered_def past_cursor_def split: option.splits)
  qed
qed


definition scan_covers :: "(string \<Rightarrow> string option) \<Rightarrow> key_range \<times> range_state \<times> bool \<Rightarrow> string \<Rightarrow> bool" where
  "scan_covers cursor_of s k = (case s of (rg, rs, fin) \<Rightarrow> covered (request_cursor cursor_of rg rs) fin rg k)"

definition snapshot :: "(string \<Rightarrow> etag option) \<Rightarrow> (string, aws_object) omap \<Rightarrow> string \<Rightarrow> obj_entry option" where
  "snapshot pe objs k = map_option (listed_entry pe 0) (map_of objs k)"

lemma scan_rows_of:
  assumes "origin_ok objs"
  shows "distinct (map fst (scan_rows pe rg (take n (objs_after c objs))))"
    and "map_of (scan_rows pe rg (take n (objs_after c objs))) k =
      (if range_holds rg k \<and> k \<in> fst ` set (take n (objs_after c objs)) then snapshot pe objs k else None)"
proof -
  let ?seg = "take n (objs_after c objs)"
  have seg: "om_ok ?seg" "set ?seg \<subseteq> set objs"
    using assms by (auto simp: origin_ok_def objs_after_def om_ok_take om_ok_filter dest: in_set_takeD)
  have rw: "scan_rows pe rg ?seg = map (\<lambda>(k, v). (k, listed_entry pe 0 v)) (filter (\<lambda>r. range_holds rg (fst r)) ?seg)"
    by (simp add: scan_rows_def)
  have fst_rows: "map fst (scan_rows pe rg ?seg) = map fst (filter (\<lambda>r. range_holds rg (fst r)) ?seg)"
    by (simp add: rw comp_def case_prod_beta)
  show "distinct (map fst (scan_rows pe rg ?seg))"
    unfolding fst_rows using om_ok_distinct [OF om_ok_filter [OF seg(1)]] by blast
  have "map_of ?seg k = map_of objs k" if k: "k \<in> fst ` set ?seg"
  proof -
    obtain ob where "(k, ob) \<in> set ?seg"
      using k by auto
    then show ?thesis
      using seg assms om_ok_distinct [OF seg(1)] om_ok_distinct [of objs]
      by (metis map_of_eq_Some_iff origin_ok_def subsetD)
  qed
  moreover have "map_of ?seg k = None" if "k \<notin> fst ` set ?seg"
    using that by (simp add: map_of_eq_None_iff)
  ultimately show "map_of (scan_rows pe rg ?seg) k =
      (if range_holds rg k \<and> k \<in> fst ` set ?seg then snapshot pe objs k else None)"
    unfolding rw map_of_map om_lookup_filter by (auto simp: snapshot_def)
qed

text \<open>One honest page of one running scan.\<close>

lemma scan_page_honest:
  assumes "origin_ok objs" "scan_at cursor_of rg rs" "c = request_cursor cursor_of rg rs"
    and "honest_page objs cursor_of c n response"
    and "owns_rebuild (bucket_entry st bucket) generation" "clean_bucket (bucket_entry st bucket)"
    and "\<forall>k. range_holds rg k \<and> past_cursor c k \<longrightarrow> live st bucket k = None"
    and "scan_page lay pe now permit st bucket generation rg rs response = (st', Inr (rs', fin))"
  shows "owns_rebuild (bucket_entry st' bucket) generation" "clean_bucket (bucket_entry st' bucket)"
    and "\<not> fin \<Longrightarrow> scan_at cursor_of rg rs'"
    and "k \<in> fst ` set objs \<Longrightarrow> scan_covers cursor_of (rg, rs', fin) k \<longleftrightarrow> scan_covers cursor_of (rg, rs, False) k
           \<or> range_holds rg k \<and> k \<in> fst ` set (take n (objs_after c objs))"
    and "live st' bucket k = (if range_holds rg k \<and> k \<in> fst ` set (take n (objs_after c objs))
           then snapshot pe objs k else live st bucket k)"
proof -
  let ?rest = "objs_after c objs"
  let ?seg = "take n ?rest"
  let ?rows = "scan_rows pe rg ?seg"
  let ?past = "filter (\<lambda>r. \<not> range_holds rg (fst r)) ?seg \<noteq> []"
  obtain prev where reads: "scan_objects pe now rg (rs_contents response) (sr_previous rs) [] = Inr (?rows, prev, ?past)"
    and prev: "\<not> ?past \<Longrightarrow> prev = (if ?seg = [] then sr_previous rs else Some (fst (List.last ?seg)))"
    using scan_page_reads [OF assms(1,2) assms(4) [unfolded assms(3)], of pe now] by (force simp: assms(3))
  have rest: "n \<le> length ?rest" "rs_contents response = map snd ?seg" "rs_truncated response = Some True \<longleftrightarrow> n < length ?rest"
    "n < length ?rest \<Longrightarrow> \<exists>t. rs_next response = Some t \<and> cursor_of t = (if n = 0 then c else Some (fst (?rest ! (n - 1))))"
    using assms(4) by (auto simp: honest_page_def Let_def)
  have pub: "permit \<noteq> Some False" and st': "st' = fst (sync_listing_into_generation lay st bucket generation ?rows)"
    using assms(5,8) by (auto simp: scan_page_def reads Let_def sync_listing_into_generation_def
        split: if_splits option.splits prod.splits)
  have pages: "st' = sync_pages lay st bucket generation [?rows]"
    by (simp add: st' sync_pages_def)
  note le = listing_entry [OF assms(5), of lay ?rows]
  show "owns_rebuild (bucket_entry st' bucket) generation"
    using le(2) by (simp add: st')
  show "clean_bucket (bucket_entry st' bucket)"
    using assms(6) unfolding st' le(1) by (simp add: clean_bucket_def fold_rows_frame)
  have fresh: "live st bucket k = None" if "k \<in> fst ` set (concat [?rows])" for k
  proof -
    have "range_holds rg k" "k \<in> fst ` set ?rest"
      using that by (force simp: scan_rows_def dest: in_set_takeD)+
    then show ?thesis
      using assms(7) by (auto simp: objs_after_def)
  qed
  show "live st' bucket k = (if range_holds rg k \<and> k \<in> fst ` set ?seg then snapshot pe objs k else live st bucket k)"
  proof -
    have "live st' bucket k = (case map_of (concat [?rows]) k of None \<Rightarrow> live st bucket k | Some e \<Rightarrow> Some e)"
      unfolding pages using sync_pages_clean [OF assms(5,6), of "[?rows]" lay k] fresh scan_rows_of(1) [OF assms(1), of pe rg n c]
      by simp
    moreover have "snapshot pe objs k \<noteq> None" if "k \<in> fst ` set ?seg"
    proof -
      have "k \<in> fst ` set objs"
        using that by (auto simp: objs_after_def dest!: in_set_takeD)
      then show ?thesis
        by (simp add: snapshot_def map_of_eq_None_iff)
    qed
    moreover have "map_of (concat [?rows]) k = (if range_holds rg k \<and> k \<in> fst ` set ?seg then snapshot pe objs k else None)"
      using scan_rows_of(2) [OF assms(1), of pe rg n c k] by simp
    ultimately show ?thesis
      by (metis (no_types, lifting) option.case_eq_if option.collapse option.simps(4))
  qed
  have cont: "\<exists>t. \<not> ?past \<and> n < length ?rest \<and> rs_next response = Some t \<and> sr_token rs' = Some t \<and> sr_previous rs' = prev"
    if "\<not> fin"
    using that assms(8) pub st' rest(3)
    by (auto simp: scan_page_def reads Let_def split: if_splits option.splits prod.splits)
  have ended: "?past \<or> n = length ?rest" if "fin"
  proof (rule ccontr)
    assume "\<not> (?past \<or> n = length ?rest)"
    then have more: "?past = False" "rs_truncated response = Some True"
      using rest(1,3) by auto
    show False
      using that assms(8) by (simp add: scan_page_def reads more Let_def split: if_splits option.splits prod.splits)
  qed
  have next_cursor: "request_cursor cursor_of rg rs' = (if n = 0 then c else Some (fst (?rest ! (n - 1))))" if "\<not> fin"
    using cont [OF that] rest(4) by (auto simp: request_cursor_def)
  show "scan_at cursor_of rg rs'" if nf: "\<not> fin"
  proof (cases "n = 0")
    case True
    then show ?thesis
      using cont [OF nf] next_cursor [OF nf] assms(2,3) prev by (auto simp: scan_at_def Let_def)
  next
    case False
    have ne: "?seg \<noteq> []"
      using False rest(1) by auto
    then have last: "List.last ?seg = ?rest ! (n - 1)" "?seg \<noteq> []"
      using False rest(1) by (auto simp: last_conv_nth min_def)
    have "List.last ?seg \<in> set ?seg"
      using last(2) by simp
    then have "range_holds rg (fst (List.last ?seg))"
      using cont [OF nf] by (auto simp: filter_empty_conv)
    then show ?thesis
      using cont [OF nf] next_cursor [OF nf] prev last False by (auto simp: scan_at_def Let_def)
  qed
  show "scan_covers cursor_of (rg, rs', fin) k \<longleftrightarrow> scan_covers cursor_of (rg, rs, False) k
           \<or> range_holds rg k \<and> k \<in> fst ` set ?seg" if k: "k \<in> fst ` set objs"
  proof -
    obtain ob where ob: "(k, ob) \<in> set objs"
      using k by auto
    have seg: "k \<in> fst ` set ?seg \<longleftrightarrow> (k, ob) \<in> set ?seg"
    proof
      assume "k \<in> fst ` set ?seg"
      then obtain ob' where ob': "(k, ob') \<in> set ?seg"
        by auto
      then have "(k, ob') \<in> set objs"
        by (auto simp: objs_after_def dest!: in_set_takeD)
      then show "(k, ob) \<in> set ?seg"
        using ob ob' assms(1) om_ok_distinct by (metis map_of_eq_Some_iff option.inject origin_ok_def)
    qed force
    note cp = covered_page [OF assms(1,2,3,4) ob]
    show ?thesis
    proof (cases fin)
      case True
      then show ?thesis
        using cp(1) [OF ended] seg assms(3) by (simp add: scan_covers_def)
    next
      case False
      show ?thesis
      proof (cases "n = 0")
        case True
        then show ?thesis
          using next_cursor [OF False] False assms(3) by (simp add: scan_covers_def)
      next
        case nz: False
        then show ?thesis
          using cp(2) next_cursor [OF False] False seg assms(3) by (simp add: scan_covers_def)
      qed
    qed
  qed
qed


text \<open>Every event is the honest answer to the request its scan has outstanding, or a failure.\<close>

fun honest_events ::
  "layout \<Rightarrow> (string \<Rightarrow> etag option) \<Rightarrow> string \<Rightarrow> nat \<Rightarrow> (string, aws_object) omap \<Rightarrow> (string \<Rightarrow> string option)
   \<Rightarrow> scan_event list \<Rightarrow> sync_run \<Rightarrow> bool" where
  "honest_events lay pe bucket generation objs cursor_of [] run = True"
| "honest_events lay pe bucket generation objs cursor_of (ev # evs) run =
     ((\<forall>rg rs response. ev_range ev < length (sy_scans run) \<longrightarrow> sy_scans run ! ev_range ev = (rg, rs, False) \<longrightarrow>
         ev_response ev = Some response \<longrightarrow>
         (\<exists>n. honest_page objs cursor_of (request_cursor cursor_of rg rs) n response))
      \<and> honest_events lay pe bucket generation objs cursor_of evs (sync_event lay pe bucket generation ev run))"

definition sync_inv ::
  "(string \<Rightarrow> etag option) \<Rightarrow> string \<Rightarrow> nat \<Rightarrow> (string, aws_object) omap \<Rightarrow> (string \<Rightarrow> string option) \<Rightarrow> sync_run \<Rightarrow> bool" where
  "sync_inv pe bucket generation objs cursor_of run \<longleftrightarrow>
     (\<forall>k. length (filter (\<lambda>rg. range_holds rg k) (map fst (sy_scans run))) = 1)
     \<and> (sy_error run = None \<longrightarrow>
          owns_rebuild (bucket_entry (sy_index run) bucket) generation
          \<and> clean_bucket (bucket_entry (sy_index run) bucket)
          \<and> (\<forall>(rg, rs, fin) \<in> set (sy_scans run). \<not> fin \<longrightarrow> scan_at cursor_of rg rs)
          \<and> (\<forall>k. live (sy_index run) bucket k =
               (if \<exists>s \<in> set (sy_scans run). scan_covers cursor_of s k then snapshot pe objs k else None)))"

lemma unique_holder:
  assumes "length (filter P xs) = 1" "i < length xs" "j < length xs" "P (xs ! i)" "P (xs ! j)"
  shows "i = j"
proof -
  have "card {i. i < length xs \<and> P (xs ! i)} = 1"
    using assms(1) by (simp add: length_filter_conv_card)
  then obtain x where "{i. i < length xs \<and> P (xs ! i)} = {x}"
    by (rule card_1_singletonE)
  moreover have "i \<in> {i. i < length xs \<and> P (xs ! i)}" "j \<in> {i. i < length xs \<and> P (xs ! i)}"
    using assms(2-5) by simp_all
  ultimately show ?thesis
    by simp
qed

lemma ex_list_update:
  "i < length xs \<Longrightarrow> (\<exists>s \<in> set (xs[i := y]). P s) \<longleftrightarrow> P y \<or> (\<exists>j < length xs. j \<noteq> i \<and> P (xs ! j))"
proof -
  assume i: "i < length xs"
  have "(\<exists>s \<in> set (xs[i := y]). P s) \<longleftrightarrow> (\<exists>j < length xs. P (xs[i := y] ! j))"
    by (metis in_set_conv_nth length_list_update)
  also have "\<dots> \<longleftrightarrow> P y \<or> (\<exists>j < length xs. j \<noteq> i \<and> P (xs ! j))"
    using i by (metis nth_list_update_eq nth_list_update_neq)
  finally show ?thesis .
qed

lemma page_event_inv:
  assumes inv: "sync_inv pe bucket generation objs cursor_of run" and ok: "origin_ok objs"
    and honest: "honest_events lay pe bucket generation objs cursor_of [ev] run"
  shows "sync_inv pe bucket generation objs cursor_of (page_event lay pe bucket generation ev run)"
proof (cases "sy_error run \<noteq> None \<or> ev_range ev \<ge> length (sy_scans run)")
  case True
  then show ?thesis
    using inv by (simp add: page_event_def)
next
  case False
  let ?i = "ev_range ev"
  have i: "?i < length (sy_scans run)" and run: "sy_error run = None"
    using False by simp_all
  obtain rg rs fin where s: "sy_scans run ! ?i = (rg, rs, fin)"
    by (cases "sy_scans run ! ?i") auto
  show ?thesis
  proof (cases "fin \<or> ev_response ev = None")
    case True
    then show ?thesis
      using inv False s by (cases fin) (auto simp: page_event_def sync_inv_def)
  next
    case go: False
    then obtain response where response: "ev_response ev = Some response" and nf: "\<not> fin"
      by auto
    obtain st' r where page: "scan_page lay pe (ev_now ev) (ev_permit ev) (sy_index run) bucket generation rg rs response = (st', r)"
      by force
    show ?thesis
    proof (cases r)
      case (Inl err)
      then show ?thesis
        using inv False s nf response page by (simp add: page_event_def sync_inv_def)
    next
      case (Inr p)
      obtain rs' fin' where p: "p = (rs', fin')"
        by force
      let ?run = "run\<lparr>sy_index := st', sy_scans := (sy_scans run)[?i := (rg, rs', fin')]\<rparr>"
      have ev: "page_event lay pe bucket generation ev run = ?run"
        using False s nf response page Inr p by (simp add: page_event_def)
      let ?c = "request_cursor cursor_of rg rs"
      obtain n where n: "honest_page objs cursor_of ?c n response"
        using honest i s nf response by auto
      have part: "length (filter (\<lambda>rg. range_holds rg k) (map fst (sy_scans run))) = 1" for k
        using inv by (simp add: sync_inv_def)
      have only: "j = ?i" if "j < length (sy_scans run)" "scan_covers cursor_of (sy_scans run ! j) k" "range_holds rg k" for j k
        using unique_holder [OF part [of k], of j ?i] that i s
        by (auto simp: scan_covers_def covered_def split: prod.splits)
      have old: "owns_rebuild (bucket_entry (sy_index run) bucket) generation" "clean_bucket (bucket_entry (sy_index run) bucket)"
        "scan_at cursor_of rg rs"
        "\<And>k. live (sy_index run) bucket k = (if \<exists>s \<in> set (sy_scans run). scan_covers cursor_of s k then snapshot pe objs k else None)"
        using inv run nth_mem [OF i] s nf by (auto simp: sync_inv_def)
      have fresh: "\<forall>k. range_holds rg k \<and> past_cursor ?c k \<longrightarrow> live (sy_index run) bucket k = None"
      proof (intro allI impI, elim conjE)
        fix k
        assume that: "range_holds rg k" "past_cursor ?c k"
        have "\<not> scan_covers cursor_of (sy_scans run ! ?i) k"
          using that s nf by (simp add: scan_covers_def covered_def)
        then have "\<not> (\<exists>s \<in> set (sy_scans run). scan_covers cursor_of s k)"
          using only [OF _ _ that(1)] by (metis in_set_conv_nth)
        then show "live (sy_index run) bucket k = None"
          by (simp add: old(4))
      qed
      note step = scan_page_honest [OF ok old(3) refl n old(1,2) fresh page [unfolded Inr p]]
      have cover: "(\<exists>s \<in> set (sy_scans ?run). scan_covers cursor_of s k) \<longleftrightarrow>
          (\<exists>s \<in> set (sy_scans run). scan_covers cursor_of s k) \<or> range_holds rg k \<and> k \<in> fst ` set (take n (objs_after ?c objs))"
        if "k \<in> fst ` set objs" for k
      proof -
        have "(\<exists>s \<in> set (sy_scans ?run). scan_covers cursor_of s k) \<longleftrightarrow> scan_covers cursor_of (rg, rs', fin') k
            \<or> (\<exists>j < length (sy_scans run). j \<noteq> ?i \<and> scan_covers cursor_of (sy_scans run ! j) k)"
          using ex_list_update [OF i, of "(rg, rs', fin')" "\<lambda>s. scan_covers cursor_of s k"] by simp
        moreover have "(\<exists>s \<in> set (sy_scans run). scan_covers cursor_of s k) \<longleftrightarrow> scan_covers cursor_of (rg, rs, False) k
            \<or> (\<exists>j < length (sy_scans run). j \<noteq> ?i \<and> scan_covers cursor_of (sy_scans run ! j) k)"
          using ex_list_update [OF i, of "sy_scans run ! ?i" "\<lambda>s. scan_covers cursor_of s k"] s nf
          unfolding list_update_id by simp
        ultimately show ?thesis
          using step(4) [OF that] by argo
      qed
      have "live st' bucket k = (if \<exists>s \<in> set (sy_scans ?run). scan_covers cursor_of s k then snapshot pe objs k else None)" for k
      proof (cases "k \<in> fst ` set objs")
        case True
        then show ?thesis
          using cover [OF True] step(5) [of k] old(4) [of k] by auto
      next
        case False
        then have "snapshot pe objs k = None"
          by (simp add: snapshot_def map_of_eq_None_iff)
        then show ?thesis
          using step(5) [of k] old(4) [of k] by simp
      qed
      moreover have "\<forall>(rg, rs, fin) \<in> set (sy_scans ?run). \<not> fin \<longrightarrow> scan_at cursor_of rg rs"
        using inv run step(3) set_update_subset_insert [of "sy_scans run" ?i "(rg, rs', fin')"]
        by (auto simp: sync_inv_def)
      moreover have "map fst (sy_scans ?run) = map fst (sy_scans run)"
        using i s by (simp add: map_update list_update_same_conv)
      ultimately show ?thesis
        using step(1,2) part run unfolding ev sync_inv_def by simp
    qed
  qed
qed

lemma sync_inv_index:
  "bucket_entry st bucket = bucket_entry (sy_index run) bucket \<Longrightarrow>
     sync_inv pe bucket generation objs cursor_of (run\<lparr>sy_index := st\<rparr>) = sync_inv pe bucket generation objs cursor_of run"
  by (simp add: sync_inv_def live_def)

lemma sync_event_inv:
  assumes "sync_inv pe bucket generation objs cursor_of run" "origin_ok objs"
    and "honest_events lay pe bucket generation objs cursor_of [ev] run"
    and "others_keep (\<lambda>st. bucket_entry st bucket) {ev_others ev}"
  shows "sync_inv pe bucket generation objs cursor_of (sync_event lay pe bucket generation ev run)"
proof -
  let ?run = "run\<lparr>sy_index := ev_others ev (sy_index run)\<rparr>"
  have "sync_inv pe bucket generation objs cursor_of ?run"
    using sync_inv_index [of "ev_others ev (sy_index run)" bucket run] assms(1,4) by (simp add: others_keep_def)
  then have "sync_inv pe bucket generation objs cursor_of (page_event lay pe bucket generation ev ?run)"
    by (rule page_event_inv [OF _ assms(2)]) (use assms(3) in auto)
  then show ?thesis
    using assms(1) by (simp add: sync_event_def)
qed

lemma sync_events_inv:
  assumes "sync_inv pe bucket generation objs cursor_of run" "origin_ok objs"
    and "honest_events lay pe bucket generation objs cursor_of evs run"
    and "others_keep (\<lambda>st. bucket_entry st bucket) (ev_others ` set evs)"
  shows "sync_inv pe bucket generation objs cursor_of (fold (sync_event lay pe bucket generation) evs run)"
  using assms
proof (induction evs arbitrary: run)
  case (Cons ev evs)
  then show ?case
    using sync_event_inv [OF Cons.prems(1,2), of lay ev] by (simp add: others_keep_def)
qed simp

text \<open>One rebuild generation, from a reset bucket: what a scan that succeeds leaves, with or without a permit.\<close>

lemma sync_generation_rebuilds:
  assumes "owns_rebuild (bucket_entry st0 bucket) generation" "clean_bucket (bucket_entry st0 bucket)"
    and "\<And>k. live st0 bucket k = None" "origin_ok objs"
    and "honest_events lay pe bucket generation objs cursor_of events
           (sync_start st0 (discover_boundaries ask (scan_bounded config)))"
    and "others_keep (\<lambda>st. bucket_entry st bucket) (ev_others ` set events)"
    and "sync_bucket_generation lay pe ask config bucket generation permit events st0 = (st', Some (Inr found))"
  shows "bs_synced (bucket_entry st' bucket) \<and> (\<forall>k. live st' bucket k = snapshot pe objs k)"
proof -
  let ?start = "sync_start st0 (discover_boundaries ask (scan_bounded config))"
  let ?run = "fold (sync_event lay pe bucket generation) events ?start"
  have part: "length (filter (\<lambda>rg. range_holds rg k) (map fst (sy_scans ?start))) = 1" for k
    using planned_ranges(1) [of k ask config] by (simp add: sync_start_def comp_def)
  have start: "sync_inv pe bucket generation objs cursor_of ?start"
    using assms(1-3) part by (auto simp: sync_inv_def sync_start_def scan_at_def range_start_def request_cursor_def
        scan_covers_def covered_def range_holds_def past_cursor_def split: option.splits)
  have inv: "sync_inv pe bucket generation objs cursor_of ?run"
    by (rule sync_events_inv [OF start assms(4,5,6)])
  have res: "sync_result bucket generation permit ?run = (st', Some (Inr found))"
    using assms(7) by (simp add: sync_bucket_generation_def Let_def)
  then have none: "sy_error ?run = None" and fin: "list_all (\<lambda>(rg, rs, fin). fin) (sy_scans ?run)"
    by (auto simp: sync_result_def split: option.splits if_splits prod.splits)
  have owns: "owns_rebuild (bucket_entry (sy_index ?run) bucket) generation"
    and live_run: "\<And>k. live (sy_index ?run) bucket k = (if \<exists>s \<in> set (sy_scans ?run). scan_covers cursor_of s k then snapshot pe objs k else None)"
    using inv none by (auto simp: sync_inv_def)
  have "\<exists>s \<in> set (sy_scans ?run). scan_covers cursor_of s k" for k
  proof -
    have "length (filter (\<lambda>rg. range_holds rg k) (map fst (sy_scans ?run))) = 1"
      using inv by (simp add: sync_inv_def)
    then have "filter (\<lambda>rg. range_holds rg k) (map fst (sy_scans ?run)) \<noteq> []"
      by (metis list.size(3) zero_neq_one)
    then obtain s where "s \<in> set (sy_scans ?run)" "range_holds (fst s) k"
      by (auto simp: filter_empty_conv)
    then show ?thesis
      using fin by (fastforce simp: list_all_iff scan_covers_def covered_def)
  qed
  then have "live (sy_index ?run) bucket k = snapshot pe objs k" for k
    by (simp add: live_run)
  moreover have "st' = fst (finish_bucket_sync_generation (sy_index ?run) bucket generation)"
    using res none fin by (auto simp: sync_result_def split: prod.splits bool.splits if_splits)
  ultimately show ?thesis
    using owns by (simp add: finish_bucket_sync_generation_def Let_def live_def)
qed

lemma reset_bucket_fresh:
  assumes "\<And>k. fence_of st bucket k = None" "begin_bucket_resync st bucket = (st0, generation)"
  shows "owns_rebuild (bucket_entry st0 bucket) generation" "clean_bucket (bucket_entry st0 bucket)" "live st0 bucket k = None"
proof -
  have b0: "bucket_entry st0 bucket = bucket_reset (bucket_entry st bucket) True"
    "generation = bs_sync_generation (bucket_reset (bucket_entry st bucket) True)"
    using assms(2) by (auto simp: begin_bucket_resync_def Let_def)
  have unc: "bs_uncertain_keys (bucket_entry st bucket) = []"
    using assms(1) [of "fst (hd (bs_uncertain_keys (bucket_entry st bucket)))"]
    by (cases "bs_uncertain_keys (bucket_entry st bucket)") (auto simp: fence_of_def)
  show "owns_rebuild (bucket_entry st0 bucket) generation" "clean_bucket (bucket_entry st0 bucket)" "live st0 bucket k = None"
    by (simp_all add: b0 unc owns_rebuild_def clean_bucket_def live_def bucket_reset_def Let_def bucket_default_def
        gone_rows_default_def kr_get_def key_rows_default_def)
qed

text \<open>The split scan rebuilds exactly the bucket, in whatever order the ranges' pages arrive.
  If the origin's answers are honest pages of one snapshot of the bucket, nothing else writes the
  bucket meanwhile and the rebuild reports success, then the bucket is published as synced and a
  key is indexed exactly when the snapshot has it, with the listed size, time, ETag and storage
  class. Discovery may answer anything.\<close>

theorem split_scan_rebuilds_snapshot:
  assumes "\<And>k. fence_of st bucket k = None" "origin_ok objs"
    and "begin_bucket_resync st bucket = (st0, generation)"
    and "honest_events lay pe bucket generation objs cursor_of events
           (sync_start st0 (discover_boundaries ask (scan_bounded config)))"
    and "others_keep (\<lambda>st. bucket_entry st bucket) (ev_others ` set events)"
    and "sync_bucket_into_with_config lay pe ask config bucket events st = (st', Some (Inr found))"
  shows "bs_synced (bucket_entry st' bucket) \<and> (\<forall>k. live st' bucket k = snapshot pe objs k)"
proof (rule sync_generation_rebuilds [OF _ _ _ assms(2,4,5)])
  show "sync_bucket_generation lay pe ask config bucket generation None events st0 = (st', Some (Inr found))"
    using assms(3,6) by (simp add: sync_bucket_into_with_config_def)
qed (use reset_bucket_fresh [OF assms(1,3)] in simp_all)

section \<open>One range, serially\<close>

text \<open>The loop of \<^verbatim>\<open>scan_range\<close> against an origin given as a function of the request (token,
  start-after); \<^const>\<open>None\<close> when the fuel runs out.\<close>

fun scan_range ::
  "nat \<Rightarrow> layout \<Rightarrow> (string \<Rightarrow> etag option) \<Rightarrow> systime \<Rightarrow> (string option \<Rightarrow> string option \<Rightarrow> list_response option)
   \<Rightarrow> string \<Rightarrow> nat \<Rightarrow> key_range \<Rightarrow> range_state \<Rightarrow> key_index_state \<Rightarrow> (key_index_state \<times> (scan_error + nat)) option" where
  "scan_range 0 lay pe now origin bucket generation rg rs st = None"
| "scan_range (Suc fuel) lay pe now origin bucket generation rg rs st =
     (case origin (sr_token rs) (if sr_token rs = None then rg_lower rg else None) of
        None \<Rightarrow> Some (st, Inl OriginError)
      | Some response \<Rightarrow>
          (case scan_page lay pe now None st bucket generation rg rs response of
             (st, Inl err) \<Rightarrow> Some (st, Inl err)
           | (st, Inr (rs, True)) \<Rightarrow> Some (st, Inr (sr_found rs))
           | (st, Inr (rs, False)) \<Rightarrow> scan_range fuel lay pe now origin bucket generation rg rs st))"

definition honest_origin :: "(string, aws_object) omap \<Rightarrow> (string \<Rightarrow> string option) \<Rightarrow> (string option \<Rightarrow> string option \<Rightarrow> list_response option) \<Rightarrow> bool" where
  "honest_origin objs cursor_of origin \<longleftrightarrow> (\<forall>token after. \<exists>response n.
     let c = (case token of Some t \<Rightarrow> cursor_of t | None \<Rightarrow> after) in
     origin token after = Some response \<and> honest_page objs cursor_of c n response
     \<and> (n < length (objs_after c objs) \<longrightarrow> 0 < n))"

lemma scan_page_progress:
  assumes "origin_ok objs" "scan_at cursor_of rg rs" "c = request_cursor cursor_of rg rs"
    and "honest_page objs cursor_of c n response" "n < length (objs_after c objs) \<Longrightarrow> 0 < n"
    and "owns_rebuild (bucket_entry st bucket) generation"
  obtains st' rs' fin where "scan_page lay pe now None st bucket generation rg rs response = (st', Inr (rs', fin))"
    "owns_rebuild (bucket_entry st' bucket) generation"
    "\<not> fin \<Longrightarrow> scan_at cursor_of rg rs' \<and> length (objs_after (request_cursor cursor_of rg rs') objs) < length (objs_after c objs)"
proof -
  let ?rest = "objs_after c objs"
  let ?seg = "take n ?rest"
  let ?rows = "scan_rows pe rg ?seg"
  let ?past = "filter (\<lambda>r. \<not> range_holds rg (fst r)) ?seg \<noteq> []"
  obtain prev where reads: "scan_objects pe now rg (rs_contents response) (sr_previous rs) [] = Inr (?rows, prev, ?past)"
    and prev: "\<not> ?past \<Longrightarrow> prev = (if ?seg = [] then sr_previous rs else Some (fst (List.last ?seg)))"
    using scan_page_reads [OF assms(1,2) assms(4) [unfolded assms(3)], of pe now] by (force simp: assms(3))
  have rest: "n \<le> length ?rest" "rs_contents response = map snd ?seg" "rs_truncated response = Some True \<longleftrightarrow> n < length ?rest"
    "n < length ?rest \<Longrightarrow> \<exists>t. rs_next response = Some t \<and> cursor_of t = (if n = 0 then c else Some (fst (?rest ! (n - 1))))"
    using assms(4) by (auto simp: honest_page_def Let_def)
  obtain st1 where sync: "sync_listing_into_generation lay st bucket generation ?rows = (st1, Some (length ?rows))"
    using assms(6) by (simp add: sync_listing_into_generation_def Let_def case_prod_beta)
  then have owns: "owns_rebuild (bucket_entry st1 bucket) generation"
    using listing_entry(2) [OF assms(6), of lay ?rows] by simp
  let ?rs = "rs\<lparr>sr_previous := prev, sr_found := sr_found rs + length ?rows\<rparr>"
  show thesis
  proof (cases "?past \<or> rs_truncated response \<noteq> Some True")
    case True
    then have "scan_page lay pe now None st bucket generation rg rs response = (st1, Inr (?rs, True))"
      by (simp add: scan_page_def reads sync Let_def)
    then show thesis
      using that owns by blast
  next
    case False
    then have n: "n < length ?rest" "0 < n" "\<not> ?past"
      using rest(3) assms(5) by auto
    obtain t where t: "rs_next response = Some t" "cursor_of t = Some (fst (?rest ! (n - 1)))"
      using rest(4) [OF n(1)] n(2) by auto
    have ne: "?seg \<noteq> []"
      using n by auto
    have last: "List.last ?seg = ?rest ! (n - 1)"
      using n ne by (auto simp: last_conv_nth min_def)
    have lm: "?rest ! (n - 1) \<in> set ?rest"
      using n by simp
    then have pc: "past_cursor c (fst (?rest ! (n - 1)))"
      by (simp add: objs_after_def)
    then have "c \<noteq> Some (fst (?rest ! (n - 1)))"
      by (cases c) (auto simp: past_cursor_def)
    then have "c \<noteq> cursor_of t"
      using t(2) by simp
    then have tok: "sr_token rs \<noteq> Some t"
      using assms(3) by (auto simp: request_cursor_def)
    let ?rs' = "?rs\<lparr>sr_token := Some t, sr_empty := 0\<rparr>"
    have page: "scan_page lay pe now None st bucket generation rg rs response = (st1, Inr (?rs', False))"
    proof -
      have "rs_contents response \<noteq> []"
        using ne rest(2) by simp
      then show ?thesis
        using False t(1) tok by (simp add: scan_page_def reads sync Let_def)
    qed
    have cur: "request_cursor cursor_of rg ?rs' = Some (fst (?rest ! (n - 1)))"
      by (simp add: request_cursor_def t(2))
    have "List.last ?seg \<in> set ?seg"
      using ne by simp
    then have "range_holds rg (fst (?rest ! (n - 1)))"
      using n(3) last by (simp add: filter_empty_conv)
    then have at: "scan_at cursor_of rg ?rs'"
      using prev [OF n(3)] ne last cur by (simp add: scan_at_def)
    have "objs_after (Some (fst (?rest ! (n - 1)))) objs = filter (\<lambda>r. past_cursor (Some (fst (?rest ! (n - 1)))) (fst r)) ?rest"
      using pc by (auto simp: objs_after_def past_cursor_def intro!: filter_cong split: option.splits)
    moreover have "length (filter (\<lambda>r. past_cursor (Some (fst (?rest ! (n - 1)))) (fst r)) ?rest) < length ?rest"
      by (rule length_filter_less [OF lm]) (simp add: past_cursor_def)
    ultimately show thesis
      using that [OF page owns] at cur by simp
  qed
qed

text \<open>C33: A range scan against an honest origin ends and succeeds: one LIST request per remaining
  object and one more are always enough, whatever the page sizes, and no request is rejected as
  empty, repeated or out of order, as long as the rebuild generation is not superseded.\<close>

theorem scan_range_completes:
  assumes "origin_ok objs" "honest_origin objs cursor_of origin"
    and "owns_rebuild (bucket_entry st bucket) generation" "length objs < fuel"
  shows "\<exists>st' found. scan_range fuel lay pe now origin bucket generation rg range_start st = Some (st', Inr found)
    \<and> owns_rebuild (bucket_entry st' bucket) generation"
proof -
  have "\<exists>st' found. scan_range fuel lay pe now origin bucket generation rg rs st = Some (st', Inr found)
    \<and> owns_rebuild (bucket_entry st' bucket) generation"
    if "scan_at cursor_of rg rs" "owns_rebuild (bucket_entry st bucket) generation"
      "length (objs_after (request_cursor cursor_of rg rs) objs) < fuel" for rs st
    using that
  proof (induction fuel arbitrary: rs st)
    case (Suc fuel)
    let ?c = "request_cursor cursor_of rg rs"
    let ?after = "if sr_token rs = None then rg_lower rg else None"
    have c: "(case sr_token rs of Some t \<Rightarrow> cursor_of t | None \<Rightarrow> ?after) = ?c"
      by (simp add: request_cursor_def split: option.split)
    obtain response n where r: "origin (sr_token rs) ?after = Some response" "honest_page objs cursor_of ?c n response"
      "n < length (objs_after ?c objs) \<longrightarrow> 0 < n"
      using assms(2) unfolding honest_origin_def Let_def c [symmetric] by blast
    obtain st' rs' fin where p: "scan_page lay pe now None st bucket generation rg rs response = (st', Inr (rs', fin))"
      "owns_rebuild (bucket_entry st' bucket) generation"
      "\<not> fin \<Longrightarrow> scan_at cursor_of rg rs' \<and> length (objs_after (request_cursor cursor_of rg rs') objs) < length (objs_after ?c objs)"
      by (rule scan_page_progress [OF assms(1) Suc.prems(1) refl r(2) _ Suc.prems(2)]) (use r(3) in auto)
    show ?case
    proof (cases fin)
      case True
      then show ?thesis
        using p r(1) by simp
    next
      case False
      then show ?thesis
        using Suc.IH [of rs' st'] p r(1) Suc.prems(3) by simp
    qed
  qed simp
  moreover have "scan_at cursor_of rg range_start"
    by (simp add: scan_at_def range_start_def request_cursor_def)
  moreover have "length (objs_after c objs) < fuel" for c
    unfolding objs_after_def using length_filter_le assms(4) by (rule le_less_trans)
  ultimately show ?thesis
    using assms(3) by blast
qed

section \<open>Publication\<close>

lemma listing_keeps_synced:
  "bs_synced (bucket_entry (fst (sync_listing_into_generation lay st bucket generation page)) bucket)
     = bs_synced (bucket_entry st bucket)"
proof -
  have "bs_synced (fst (fold (fold_list_row lay) page acc)) = bs_synced (fst acc)" for acc
    by (induction page arbitrary: acc) (auto simp: fold_list_row_def index_row_fst split: prod.split)
  then show ?thesis
    by (simp add: sync_listing_into_generation_def Let_def case_prod_beta)
qed

text \<open>Whatever the folding of a page keeps, the whole scan keeps up to its final flag.\<close>

lemma scan_page_keeps:
  assumes "\<And>st rws. f (fst (sync_listing_into_generation lay st bucket generation rws)) = f st"
  shows "f (fst (scan_page lay pe now permit st bucket generation rg rs response)) = f st"
proof -
  have "f (fst (if permit = Some False then (st, None)
      else sync_listing_into_generation lay st bucket generation rws)) = f st" for rws
    by (simp add: assms)
  then show ?thesis
    unfolding scan_page_def Let_def
    by (auto split: sum.split prod.split option.split) (metis fst_conv)+
qed

lemma sync_event_keeps:
  assumes "\<And>st rws. f (fst (sync_listing_into_generation lay st bucket generation rws)) = f st"
    and "others_keep f {ev_others ev}"
  shows "f (sy_index (sync_event lay pe bucket generation ev run)) = f (sy_index run)"
proof -
  have page: "f st' = f st"
    if "scan_page lay pe (ev_now ev) (ev_permit ev) st bucket generation rg rs response = (st', r)" for st st' r rg rs response
    using scan_page_keeps [of f lay bucket generation pe "ev_now ev" "ev_permit ev" st rg rs response, OF assms(1)] that by simp
  have "f (sy_index (page_event lay pe bucket generation ev run)) = f (sy_index run)" for run
    by (auto simp: page_event_def split: prod.split option.split bool.split sum.split dest: page)
  then show ?thesis
    using assms(2) by (simp add: sync_event_def others_keep_def)
qed

lemma sync_events_keep:
  assumes "\<And>st rws. f (fst (sync_listing_into_generation lay st bucket generation rws)) = f st"
    and "others_keep f (ev_others ` set evs)"
  shows "f (sy_index (fold (sync_event lay pe bucket generation) evs run)) = f (sy_index run)"
  using assms(2)
proof (induction evs arbitrary: run)
  case (Cons ev evs)
  then show ?case
    using sync_event_keeps [of f lay bucket generation ev, OF assms(1)] by (simp add: others_keep_def)
qed simp

text \<open>The bucket answers locally after one generation's scan if it did before or the scan succeeded.\<close>

lemma generation_published:
  assumes "\<not> bs_synced (bucket_entry st bucket)"
    and "others_keep (\<lambda>st. bs_synced (bucket_entry st bucket)) (ev_others ` set events)"
    and "sync_bucket_generation lay pe ask config bucket generation permit events st = (st', result)"
  shows "bs_synced (bucket_entry st' bucket) \<longleftrightarrow> (\<exists>found. result = Some (Inr found))"
proof -
  let ?run = "fold (sync_event lay pe bucket generation) events (sync_start st (discover_boundaries ask (scan_bounded config)))"
  have run: "\<not> bs_synced (bucket_entry (sy_index ?run) bucket)"
    using assms(1) sync_events_keep [of "\<lambda>st. bs_synced (bucket_entry st bucket)", OF listing_keeps_synced assms(2)]
    by (simp add: sync_start_def)
  let ?fin = "finish_bucket_sync_generation (sy_index ?run) bucket generation"
  have "bs_synced (bucket_entry (fst ?fin) bucket) = snd ?fin"
    using run by (simp add: finish_bucket_sync_generation_def Let_def)
  then show ?thesis
    using run assms(3) by (auto simp: sync_bucket_generation_def sync_result_def Let_def
        split: option.splits prod.splits bool.splits if_splits)
qed

text \<open>A rebuild publishes only on full success: after sync_bucket_into_with_config the bucket answers
  locally exactly when the call reported success, as long as no other task publishes or resets the bucket
  meanwhile. Any failed page of any range, any malformed or
  out-of-order answer, and any superseding rebuild leaves the bucket served by the origin.\<close>

theorem published_iff_success:
  assumes "others_keep (\<lambda>st. bs_synced (bucket_entry st bucket)) (ev_others ` set events)"
  shows "let (st', result) = sync_bucket_into_with_config lay pe ask config bucket events st in
     bs_synced (bucket_entry st' bucket) \<longleftrightarrow> (\<exists>found. result = Some (Inr found))"
proof -
  obtain st0 generation where begin_: "begin_bucket_resync st bucket = (st0, generation)"
    by force
  then have "\<not> bs_synced (bucket_entry st0 bucket)"
    by (auto simp: begin_bucket_resync_def Let_def bucket_reset_def bucket_default_def)
  then show ?thesis
    using generation_published [OF _ assms] by (auto simp: sync_bucket_into_with_config_def begin_)
qed

section \<open>Instances\<close>

definition scan_object :: "string \<Rightarrow> aws_object" where
  "scan_object k = \<lparr>ao_key = Some k, ao_size = Some 3, ao_last_modified = Some 7, ao_e_tag = None, ao_storage_class = None\<rparr>"

definition scan_objs :: "(string, aws_object) omap" where
  "scan_objs = [(''a'', scan_object ''a''), (''b'', scan_object ''b'')]"

definition scan_reply :: list_response where
  "scan_reply = \<lparr>rs_contents = map snd scan_objs, rs_truncated = Some False, rs_next = None\<rparr>"

definition scan_events :: "scan_event list" where
  "scan_events = [\<lparr>ev_others = (\<lambda>st. st), ev_range = 0, ev_now = 0, ev_permit = None, ev_response = Some scan_reply\<rparr>]"

definition scan_serial :: scan_config where
  "scan_serial = \<lparr>workers = 1, discovery_budget = 0\<rparr>"

lemma scan_objs_ok: "origin_ok scan_objs"
  by (simp add: origin_ok_def scan_objs_def scan_object_def om_ok_def origin_time_def systime_checked_add_def)

lemma scan_plan: "discover_boundaries ask (scan_bounded scan_serial) = []"
  by (simp add: discover_boundaries_def scan_bounded_def scan_serial_def MAX_WORKERS_def)

lemma scan_reply_honest: "honest_page scan_objs (\<lambda>_. None) None 2 scan_reply"
  by (simp add: honest_page_def scan_reply_def objs_after_def past_cursor_def scan_objs_def)

lemma begin_owns:
  "begin_bucket_resync st bucket = (st0, generation) \<Longrightarrow> owns_rebuild (bucket_entry st0 bucket) generation"
  by (auto simp: begin_bucket_resync_def Let_def owns_rebuild_def bucket_reset_def bucket_default_def)

lemma scan_example_page:
  assumes "owns_rebuild (bucket_entry st bucket) generation"
  shows "\<exists>st' rs'. scan_page lay pe 0 None st bucket generation \<lparr>rg_lower = None, rg_upper = None\<rparr> range_start scan_reply
    = (st', Inr (rs', True)) \<and> owns_rebuild (bucket_entry st' bucket) generation"
proof -
  let ?rows = "[(''a'', listed_entry pe 0 (scan_object ''a'')), (''b'', listed_entry pe 0 (scan_object ''b''))]"
  obtain st1 where sync: "sync_listing_into_generation lay st bucket generation ?rows = (st1, Some 2)"
    using assms by (simp add: sync_listing_into_generation_def Let_def case_prod_beta)
  have "scan_objects pe 0 \<lparr>rg_lower = None, rg_upper = None\<rparr> (rs_contents scan_reply) None [] = Inr (?rows, Some ''b'', False)"
    by (simp add: scan_reply_def scan_objs_def scan_object_def)
  then show ?thesis
    using sync listing_entry(2) [OF assms, of lay ?rows]
    by (simp add: scan_page_def range_start_def Let_def) (simp add: scan_reply_def)
qed

lemma scan_example_run:
  assumes "begin_bucket_resync st bucket = (st0, generation)"
  shows "honest_events lay pe bucket generation scan_objs (\<lambda>_. None) scan_events
      (sync_start st0 (discover_boundaries ask (scan_bounded scan_serial)))"
    and "\<exists>st' found. sync_bucket_into_with_config lay pe ask scan_serial bucket scan_events st = (st', Some (Inr found))"
proof -
  show "honest_events lay pe bucket generation scan_objs (\<lambda>_. None) scan_events
      (sync_start st0 (discover_boundaries ask (scan_bounded scan_serial)))"
    using scan_reply_honest
    by (auto simp: scan_plan scan_events_def sync_start_def ranges_def request_cursor_def range_start_def)
  obtain st1 rs1 where "scan_page lay pe 0 None st0 bucket generation \<lparr>rg_lower = None, rg_upper = None\<rparr> range_start scan_reply
      = (st1, Inr (rs1, True))" "owns_rebuild (bucket_entry st1 bucket) generation"
    using scan_example_page [OF begin_owns [OF assms]] by blast
  then show "\<exists>st' found. sync_bucket_into_with_config lay pe ask scan_serial bucket scan_events st = (st', Some (Inr found))"
    by (simp add: sync_bucket_into_with_config_def assms sync_bucket_generation_def Let_def scan_plan scan_events_def
        sync_start_def ranges_def sync_event_def page_event_def sync_result_def finish_bucket_sync_generation_def)
qed

lemma split_scan_rebuilds_snapshot_witness:
  "\<forall>lay pe ask. \<exists>st'. bs_synced (bucket_entry st' ''b'') \<and> live st' ''b'' ''a'' = snapshot pe scan_objs ''a''
     \<and> snapshot pe scan_objs ''a'' \<noteq> None"
proof (intro allI)
  fix lay pe ask
  obtain st0 generation where b: "begin_bucket_resync key_index_default ''b'' = (st0, generation)"
    by force
  obtain st' found where run: "sync_bucket_into_with_config lay pe ask scan_serial ''b'' scan_events key_index_default
      = (st', Some (Inr found))"
    using scan_example_run(2) [OF b] by blast
  have "fence_of key_index_default ''b'' k = None" for k
    by (simp add: fence_of_def key_index_default_def bucket_entry_def bucket_get_def bucket_default_def)
  then have "bs_synced (bucket_entry st' ''b'') \<and> (\<forall>k. live st' ''b'' k = snapshot pe scan_objs k)"
    by (rule split_scan_rebuilds_snapshot [OF _ scan_objs_ok b scan_example_run(1) [OF b] _ run]) (simp add: others_keep_def scan_events_def)
  then show "\<exists>st'. bs_synced (bucket_entry st' ''b'') \<and> live st' ''b'' ''a'' = snapshot pe scan_objs ''a''
     \<and> snapshot pe scan_objs ''a'' \<noteq> None"
    by (auto simp: snapshot_def scan_objs_def)
qed

definition scan_server :: "string option \<Rightarrow> string option \<Rightarrow> list_response option" where
  "scan_server token after = Some \<lparr>rs_contents = map snd (objs_after (if token = None then after else None) scan_objs),
     rs_truncated = None, rs_next = None\<rparr>"

lemma scan_server_honest: "honest_origin scan_objs (\<lambda>_. None) scan_server"
  unfolding honest_origin_def
proof (intro allI)
  fix token after :: "string option"
  let ?c = "case token of Some t \<Rightarrow> None | None \<Rightarrow> after"
  have "?c = (if token = None then after else None)"
    by (cases token) simp_all
  then show "\<exists>response n. let c = ?c in scan_server token after = Some response
      \<and> honest_page scan_objs (\<lambda>_. None) c n response \<and> (n < length (objs_after c scan_objs) \<longrightarrow> 0 < n)"
    by (intro exI [of _ "the (scan_server token after)"] exI [of _ "length (objs_after ?c scan_objs)"])
      (simp add: scan_server_def honest_page_def)
qed

lemma scan_range_completes_witness:
  "\<forall>lay pe. \<exists>st0 generation st' found. owns_rebuild (bucket_entry st0 ''b'') generation
     \<and> scan_range 3 lay pe 0 scan_server ''b'' generation \<lparr>rg_lower = Some ''a'', rg_upper = None\<rparr> range_start st0
         = Some (st', Inr found)"
proof (intro allI)
  fix lay pe
  obtain st0 generation where b: "begin_bucket_resync key_index_default ''b'' = (st0, generation)"
    by force
  have fuel: "length scan_objs < 3"
    by (simp add: scan_objs_def)
  show "\<exists>st0 generation st' found. owns_rebuild (bucket_entry st0 ''b'') generation
     \<and> scan_range 3 lay pe 0 scan_server ''b'' generation \<lparr>rg_lower = Some ''a'', rg_upper = None\<rparr> range_start st0
         = Some (st', Inr found)"
    using scan_range_completes [OF scan_objs_ok scan_server_honest begin_owns [OF b] fuel]
      begin_owns [OF b] by blast
qed

end
