(* ===== verification/Settings.thy ===== *)
theory Settings
  imports Fleet_Config Scan
begin

text \<open>
  The environment a node starts from (\<^verbatim>\<open>src/src/config.rs\<close>, the readers of \<^verbatim>\<open>src/src/sync/config.rs\<close>,
  \<^verbatim>\<open>Consistency::parse\<close>, and the choice of \<^verbatim>\<open>start_coherence\<close> in \<^verbatim>\<open>src/src/main.rs\<close>). An environment is a function of
  the variable's name. How many processors the machine has is an argument.
\<close>

type_synonym environment = "string \<Rightarrow> string option"

section \<open>Readers\<close>

definition var :: "environment \<Rightarrow> string \<Rightarrow> string option" where
  "var env key = (case env key of None \<Rightarrow> None | Some v \<Rightarrow> if v \<noteq> [] then Some v else None)"

definition env_or :: "string option \<Rightarrow> string \<Rightarrow> string" where
  "env_or raw dflt = (case raw of None \<Rightarrow> dflt | Some v \<Rightarrow> v)"

definition parse_or :: "(string \<Rightarrow> 'a option) \<Rightarrow> string option \<Rightarrow> 'a \<Rightarrow> 'a" where
  "parse_or parse raw dflt = (case Option.bind raw parse of None \<Rightarrow> dflt | Some v \<Rightarrow> v)"

definition parse_list :: "string \<Rightarrow> string list" where
  "parse_list raw = filter (\<lambda>item. item \<noteq> []) (map trim (split_on CHR '','' raw))"

definition parse_seeds :: "string \<Rightarrow> (string \<times> string) list" where
  "parse_seeds raw = List.map_filter (split_once CHR ''='') (filter (\<lambda>seed. seed \<noteq> []) (map trim (split_on CHR '','' raw)))"

definition DEFAULT_LEASE_MS :: nat where
  "DEFAULT_LEASE_MS = 2000"

definition DEAD_TIMEOUT_FLOOR_MS :: nat where
  "DEAD_TIMEOUT_FLOOR_MS = 2000"

definition parse_lease_ms :: "string option \<Rightarrow> nat" where
  "parse_lease_ms raw = (case raw of
       None \<Rightarrow> DEFAULT_LEASE_MS
     | Some raw \<Rightarrow> (case parse_unsigned u64_max (trim raw) of
           Some ms \<Rightarrow> if ms > 0 then ms else DEFAULT_LEASE_MS
         | None \<Rightarrow> DEFAULT_LEASE_MS))"

definition parse_consistency :: "string \<Rightarrow> consistency" where
  "parse_consistency raw = (let v = ascii_lowercase (trim raw) in
     if v = [] \<or> v = ''strong'' then ModeStrong
     else if v = ''strong-acks'' then StrongAcks
     else if v = ''bounded'' then Bounded
     else ModeStrong)"

definition mode_label :: "consistency \<Rightarrow> string" where
  "mode_label c = (case c of ModeStrong \<Rightarrow> ''strong'' | StrongAcks \<Rightarrow> ''strong-acks'' | Bounded \<Rightarrow> ''bounded'')"

section \<open>The proxy's settings\<close>

definition DEFAULT_LISTEN :: string where
  "DEFAULT_LISTEN = ''0.0.0.0:8014''"

definition DEFAULT_CACHE_BYTES :: nat where
  "DEFAULT_CACHE_BYTES = 268435456"

definition DEFAULT_MAX_OBJECT_BYTES :: nat where
  "DEFAULT_MAX_OBJECT_BYTES = 8388608"

definition DEFAULT_DISK_CACHE_BYTES :: nat where
  "DEFAULT_DISK_CACHE_BYTES = 10737418240"

definition DEFAULT_STATS_SECS :: nat where
  "DEFAULT_STATS_SECS = 60"

definition DEFAULT_NODE_NAME :: string where
  "DEFAULT_NODE_NAME = ''s3cache''"

definition scan_default :: "nat option \<Rightarrow> scan_config" where
  "scan_default parallelism = \<lparr>workers = (case parallelism of None \<Rightarrow> 1 | Some n \<Rightarrow> n), discovery_budget = 16\<rparr>"

record config =
  cf_listen :: string
  cf_endpoint :: string
  cf_buckets :: "string list"
  cf_index_scan :: scan_config
  cf_recovery_rearm :: bool
  cf_cache_bytes :: nat
  cf_max_obj_bytes :: nat
  cf_disk_path :: "string option"
  cf_disk_bytes :: nat
  cf_node_name :: string
  cf_stats_secs :: nat
  cf_metrics_listen :: "string option"

text \<open>\<^const>\<open>None\<close> is the panic without an endpoint.\<close>

definition config_from_env :: "environment \<Rightarrow> nat option \<Rightarrow> config option" where
  "config_from_env env parallelism = (case env ''S3CACHE_UPSTREAM_ENDPOINT'' of
       None \<Rightarrow> None
     | Some endpoint \<Rightarrow> Some
         \<lparr>cf_listen = env_or (var env ''S3CACHE_LISTEN'') DEFAULT_LISTEN,
          cf_endpoint = endpoint,
          cf_buckets = parse_list (env_or (var env ''S3CACHE_BUCKETS'') []),
          cf_index_scan =
            \<lparr>workers = parse_or (parse_unsigned u64_max) (var env ''S3CACHE_INDEX_SCAN_CONCURRENCY'') (workers (scan_default parallelism)),
             discovery_budget = parse_or (parse_unsigned u64_max) (var env ''S3CACHE_INDEX_SCAN_DISCOVERY_REQUESTS'')
               (discovery_budget (scan_default parallelism))\<rparr>,
          cf_recovery_rearm = parse_or parse_bool (var env ''S3CACHE_RECOVERY_REARM'') False,
          cf_cache_bytes = parse_or (parse_unsigned u64_max) (var env ''S3CACHE_CACHE_BYTES'') DEFAULT_CACHE_BYTES,
          cf_max_obj_bytes = parse_or (parse_unsigned u64_max) (var env ''S3CACHE_MAX_OBJECT_BYTES'') DEFAULT_MAX_OBJECT_BYTES,
          cf_disk_path = var env ''S3CACHE_DISK_CACHE'',
          cf_disk_bytes = parse_or (parse_unsigned u64_max) (var env ''S3CACHE_DISK_CACHE_BYTES'') DEFAULT_DISK_CACHE_BYTES,
          cf_node_name = env_or (var env ''HOSTNAME'') DEFAULT_NODE_NAME,
          cf_stats_secs = parse_or (parse_unsigned u64_max) (var env ''S3CACHE_STATS_SECS'') DEFAULT_STATS_SECS,
          cf_metrics_listen = var env ''S3CACHE_METRICS_LISTEN''\<rparr>)"

section \<open>The gossip settings\<close>

record sync_config =
  sc_bind :: string
  sc_advertise :: "string option"
  sc_seeds :: "(string \<times> string) list"
  sc_node_id :: string
  sc_consistency :: consistency
  sc_lease_ms :: nat

definition sync_from_env :: "environment \<Rightarrow> string \<Rightarrow> sync_config option" where
  "sync_from_env env node_name = map_option (\<lambda>bind_addr.
     \<lparr>sc_bind = bind_addr, sc_advertise = var env ''S3CACHE_GOSSIP_ADVERTISE'',
      sc_seeds = parse_seeds (env_or (var env ''S3CACHE_GOSSIP_SEEDS'') []), sc_node_id = node_name,
      sc_consistency = parse_consistency (env_or (var env ''S3CACHE_CONSISTENCY'') []),
      sc_lease_ms = parse_lease_ms (var env ''S3CACHE_LEASE_MS'')\<rparr>) (var env ''S3CACHE_GOSSIP_BIND'')"

text \<open>What \<^verbatim>\<open>bind\<close> hands to the group: the seeds readiness waits for, the address advertised, and the one tuned timeout.
  \<open>bound\<close> is the address the transport bound.\<close>

definition expected_seeds :: "sync_config \<Rightarrow> string list" where
  "expected_seeds cfg = map fst (filter (\<lambda>(i, _). i \<noteq> sc_node_id cfg) (sc_seeds cfg))"

definition advertised :: "sync_config \<Rightarrow> string option \<Rightarrow> string option" where
  "advertised cfg bound = (case sc_advertise cfg of Some a \<Rightarrow> Some a | None \<Rightarrow> bound)"

definition gossip_dead_timeout_ms :: "nat \<Rightarrow> nat" where
  "gossip_dead_timeout_ms lease_ms = max lease_ms DEAD_TIMEOUT_FLOOR_MS"

section \<open>How coherence starts\<close>

datatype coherence_start = FleetCoherence fleet_config | OriginCoherence

definition start_coherence :: "environment \<Rightarrow> config \<Rightarrow> string \<Rightarrow> coherence_start" where
  "start_coherence env cfg region =
     (case fleet_parse (env ''S3CACHE_FLEET_BIND'') (env ''S3CACHE_FLEET_ADVERTISE'') (env ''S3CACHE_FLEET_PEERS'')
        (env ''S3CACHE_FLEET_ORIGIN_ID'') (cf_endpoint cfg) region (cf_node_name cfg) (cf_buckets cfg) of
        Inr (Some fleet) \<Rightarrow> FleetCoherence fleet
      | Inr None \<Rightarrow> OriginCoherence
      | Inl _ \<Rightarrow> OriginCoherence)"

section \<open>Reading back what was written\<close>

definition listable :: "string \<Rightarrow> bool" where
  "listable s \<longleftrightarrow> s \<noteq> [] \<and> unspaced s \<and> CHR '','' \<notin> set s"

lemma split_trim_join:
  assumes "\<forall>s \<in> set ss. listable s"
  shows "filter (\<lambda>item. item \<noteq> []) (map trim (split_on CHR '','' (join_with CHR '','' ss))) = ss"
proof (cases "ss = []")
  case False
  have "map trim ss = ss"
    using assms by (simp add: listable_def trim_unspaced map_idI)
  then show ?thesis
    using assms False by (simp add: split_on_join listable_def filter_id_conv)
qed (simp add: join_with_def trim_def trim_start_def trim_end_def)

lemma parse_list_join: "\<forall>s \<in> set ss. listable s \<Longrightarrow> parse_list (join_with CHR '','' ss) = ss"
  by (simp add: parse_list_def split_trim_join)

definition seed_text :: "string \<times> string \<Rightarrow> string" where
  "seed_text p = fst p @ CHR ''='' # snd p"

lemma parse_seeds_join:
  assumes "\<forall>p \<in> set ps. listable (seed_text p) \<and> CHR ''='' \<notin> set (fst p)"
  shows "parse_seeds (join_with CHR '','' (map seed_text ps)) = ps"
proof -
  have "List.map_filter (split_once CHR ''='') (map seed_text ps) = ps"
    using assms by (induction ps) (simp_all add: map_filter_simps seed_text_def split_once_sep)
  then show ?thesis
    using assms by (simp add: parse_seeds_def split_trim_join)
qed

text \<open>Text that starts and ends with printable ASCII has nothing to trim.\<close>

definition graphic :: "char \<Rightarrow> bool" where
  "graphic c \<longleftrightarrow> 33 \<le> (of_char c :: nat) \<and> (of_char c :: nat) \<le> 126"

lemma whitespace_edges: "\<forall>w \<in> set whitespace. w \<noteq> [] \<and> \<not> graphic (hd w) \<and> \<not> graphic (last w)"
  by (simp add: whitespace_def graphic_def upt_rec)

lemma graphic_unspaced:
  assumes "s \<noteq> []" "graphic (hd s)" "graphic (last s)"
  shows "unspaced s"
proof -
  have "take (length w) s \<noteq> w \<and> take (length w) (rev s) \<noteq> rev w" if "w \<in> set whitespace" for w
  proof -
    have w: "w \<noteq> []" "\<not> graphic (hd w)" "\<not> graphic (last w)"
      using whitespace_edges that by auto
    then have "hd (take (length w) s) = hd s" "hd (take (length w) (rev s)) = last s"
      using assms(1) by (simp_all add: hd_take hd_rev)
    then show ?thesis
      using w assms by (metis hd_rev)
  qed
  then show ?thesis
    by (simp add: unspaced_def)
qed

lemma decimal_graphic: "c \<in> set (decimal n) \<Longrightarrow> graphic c"
  using decimal_digits [of n] by (auto simp: graphic_def)

lemma trim_decimal: "trim (decimal n) = decimal n"
  by (rule trim_unspaced [OF graphic_unspaced [OF decimal_nonempty]]) (simp_all add: decimal_graphic [of _ n] decimal_nonempty)

lemma parse_consistency_label: "parse_consistency (mode_label c) = c"
proof -
  have "trim (mode_label c) = mode_label c"
    by (cases c) (simp_all add: mode_label_def trim_unspaced graphic_unspaced graphic_def)
  then show ?thesis
    by (cases c) (simp_all add: parse_consistency_def mode_label_def ascii_lowercase_def)
qed

lemma parse_lease_ms_decimal: "0 < ms \<Longrightarrow> ms \<le> u64_max \<Longrightarrow> parse_lease_ms (Some (decimal ms)) = ms"
  by (simp add: parse_lease_ms_def trim_decimal parse_unsigned_decimal)

text \<open>The lease is never zero, which the lease engine reads as one that never expires; and no peer is declared dead before
  its lease could have run out.\<close>

lemma lease_usable: "0 < parse_lease_ms raw" "parse_lease_ms raw \<le> u64_max"
    "parse_lease_ms raw \<le> gossip_dead_timeout_ms (parse_lease_ms raw)"
  by (auto simp: parse_lease_ms_def DEFAULT_LEASE_MS_def u64_max_def gossip_dead_timeout_ms_def parse_unsigned_le [unfolded u64_max_def, simplified]
      split: option.splits)

definition config_ok :: "config \<Rightarrow> bool" where
  "config_ok c \<longleftrightarrow> cf_listen c \<noteq> [] \<and> (\<forall>b \<in> set (cf_buckets c). listable b) \<and> workers (cf_index_scan c) \<le> u64_max
     \<and> discovery_budget (cf_index_scan c) \<le> u64_max \<and> cf_cache_bytes c \<le> u64_max \<and> cf_max_obj_bytes c \<le> u64_max
     \<and> cf_disk_path c \<noteq> Some [] \<and> cf_disk_bytes c \<le> u64_max \<and> cf_node_name c \<noteq> [] \<and> cf_stats_secs c \<le> u64_max
     \<and> cf_metrics_listen c \<noteq> Some []"

definition sync_config_ok :: "sync_config \<Rightarrow> bool" where
  "sync_config_ok g \<longleftrightarrow> sc_bind g \<noteq> [] \<and> sc_advertise g \<noteq> Some []
     \<and> (\<forall>p \<in> set (sc_seeds g). listable (seed_text p) \<and> CHR ''='' \<notin> set (fst p)) \<and> 0 < sc_lease_ms g \<and> sc_lease_ms g \<le> u64_max"

text \<open>The environment that spells out a configuration.\<close>

definition spelled :: "config \<Rightarrow> sync_config \<Rightarrow> environment" where
  "spelled c g = map_of
     [(''S3CACHE_UPSTREAM_ENDPOINT'', cf_endpoint c), (''S3CACHE_LISTEN'', cf_listen c),
      (''S3CACHE_BUCKETS'', join_with CHR '','' (cf_buckets c)),
      (''S3CACHE_INDEX_SCAN_CONCURRENCY'', decimal (workers (cf_index_scan c))),
      (''S3CACHE_INDEX_SCAN_DISCOVERY_REQUESTS'', decimal (discovery_budget (cf_index_scan c))),
      (''S3CACHE_RECOVERY_REARM'', if cf_recovery_rearm c then ''true'' else ''false''),
      (''S3CACHE_CACHE_BYTES'', decimal (cf_cache_bytes c)), (''S3CACHE_MAX_OBJECT_BYTES'', decimal (cf_max_obj_bytes c)),
      (''S3CACHE_DISK_CACHE'', env_or (cf_disk_path c) []), (''S3CACHE_DISK_CACHE_BYTES'', decimal (cf_disk_bytes c)),
      (''HOSTNAME'', cf_node_name c), (''S3CACHE_STATS_SECS'', decimal (cf_stats_secs c)),
      (''S3CACHE_METRICS_LISTEN'', env_or (cf_metrics_listen c) []),
      (''S3CACHE_GOSSIP_BIND'', sc_bind g), (''S3CACHE_GOSSIP_ADVERTISE'', env_or (sc_advertise g) []),
      (''S3CACHE_GOSSIP_SEEDS'', join_with CHR '','' (map seed_text (sc_seeds g))),
      (''S3CACHE_CONSISTENCY'', mode_label (sc_consistency g)), (''S3CACHE_LEASE_MS'', decimal (sc_lease_ms g))]"

lemma env_or_back:
  "v \<noteq> Some [] \<Longrightarrow> (if env_or v [] \<noteq> [] then Some (env_or v []) else None) = v"
  by (cases v) (auto simp: env_or_def)

lemma env_or_list: "env_or (if s \<noteq> [] then Some s else None) [] = s"
  by (simp add: env_or_def)

text \<open>Settings are read as they are written. For every configuration of the proxy and of its gossip layer with usable
  values, the environment that spells it out reads back as exactly that configuration: lists, seeds, numbers, switches and
  modes. An optional setting left blank reads as absent, and nothing falls back to a default.\<close>

theorem settings_read_back:
  assumes "config_ok c" "sync_config_ok g" "sc_node_id g = cf_node_name c"
  shows "config_from_env (spelled c g) parallelism = Some c \<and> sync_from_env (spelled c g) (cf_node_name c) = Some g"
proof -
  have c: "config_from_env (spelled c g) parallelism = Some c"
    using assms(1) unfolding config_from_env_def spelled_def
    by (simp add: config_ok_def var_def env_or_back env_or_list parse_list_join parse_or_def parse_unsigned_decimal decimal_nonempty
        parse_bool_def) (simp add: env_or_def)
  have "sync_from_env (spelled c g) (cf_node_name c) = Some g"
    using assms(2,3) unfolding sync_from_env_def spelled_def
    by (simp add: sync_config_ok_def var_def env_or_back env_or_list parse_seeds_join decimal_nonempty parse_lease_ms_decimal
        parse_consistency_label)
  with c show ?thesis ..
qed

definition config_example :: config where
  "config_example = \<lparr>cf_listen = ''l:1'', cf_endpoint = ''http://h'', cf_buckets = [''a'', ''b''],
     cf_index_scan = \<lparr>workers = 4, discovery_budget = 16\<rparr>, cf_recovery_rearm = True, cf_cache_bytes = 1024, cf_max_obj_bytes = 64,
     cf_disk_path = None, cf_disk_bytes = 4096, cf_node_name = ''n'', cf_stats_secs = 60, cf_metrics_listen = None\<rparr>"

definition sync_config_example :: sync_config where
  "sync_config_example = \<lparr>sc_bind = ''l:2'', sc_advertise = None, sc_seeds = [(''m'', ''m:2'')], sc_node_id = ''n'',
     sc_consistency = Bounded, sc_lease_ms = 2000\<rparr>"

lemma settings_read_back_witness:
  "config_from_env (spelled config_example sync_config_example) None = Some config_example
   \<and> sync_from_env (spelled config_example sync_config_example) ''n'' = Some sync_config_example"
proof -
  have "config_ok config_example"
    by (simp add: config_ok_def config_example_def listable_def graphic_unspaced graphic_def u64_max_def)
  moreover have "sync_config_ok sync_config_example"
    by (simp add: sync_config_ok_def sync_config_example_def listable_def seed_text_def graphic_unspaced graphic_def u64_max_def)
  ultimately show ?thesis
    using settings_read_back [of config_example sync_config_example None]
    by (simp add: config_example_def sync_config_example_def)
qed

end
