(* ===== verification/Stop.thy ===== *)
theory Stop
  imports Feed
begin

text \<open>
  The planned stop (\<^verbatim>\<open>src/src/cache/stop.rs\<close>, \<^verbatim>\<open>WriteSync::seal\<close> in \<^verbatim>\<open>src/src/sync/stop.rs\<close>): the count of mutation
  tails, the guards that hold it, closing admission, and sealing the feed. The guards of one mutation are taken and
  dropped by the handler and by the task it spawns, so the count is a state machine whose steps interleave. Deadlines
  are answers: a wait ends with what it saw.
\<close>

section \<open>The count\<close>

record tail_count =
  tc_running :: nat
  tc_closed :: bool

definition tail_count_default :: tail_count where
  "tail_count_default = \<lparr>tc_running = 0, tc_closed = False\<rparr>"

text \<open>Every change runs under the lock of the channel that holds the count.\<close>

definition track :: "tail_count \<Rightarrow> tail_count \<times> bool" where
  "track c = (let admitted = \<not> tc_closed c
     in (if admitted then c\<lparr>tc_running := tc_running c + 1\<rparr> else c, admitted))"

definition share :: "tail_count \<Rightarrow> tail_count" where
  "share c = c\<lparr>tc_running := tc_running c + 1\<rparr>"

definition drop_guard :: "tail_count \<Rightarrow> tail_count" where
  "drop_guard c = c\<lparr>tc_running := tc_running c - 1\<rparr>"

definition close :: "tail_count \<Rightarrow> tail_count" where
  "close c = c\<lparr>tc_closed := True\<rparr>"

definition drained_now :: "tail_count \<Rightarrow> bool" where
  "drained_now c \<longleftrightarrow> tc_running c = 0"

section \<open>Sealing\<close>

datatype seal_outcome = Observed | Unconfirmed

definition seal :: "consistency \<Rightarrow> bool \<Rightarrow> seal_outcome" where
  "seal c applied = (if mode_acks c \<and> applied then Observed else Unconfirmed)"

record stopped =
  sp_drained :: bool
  sp_sealed :: "seal_outcome option"

text \<open>\<open>sync\<close> is the mode of the attached feed, \<open>drained\<close> whether every tail finished before the deadline and
  \<open>applied\<close> whether the peers acknowledged the seal in the time left.\<close>

definition seal_writes :: "consistency option \<Rightarrow> bool \<Rightarrow> bool \<Rightarrow> seal_outcome option" where
  "seal_writes sync drained applied = (case sync of
       None \<Rightarrow> None
     | Some c \<Rightarrow> if \<not> drained then None else Some (seal c applied))"

definition stop :: "consistency option \<Rightarrow> bool \<Rightarrow> bool \<Rightarrow> bool \<Rightarrow> tail_count \<Rightarrow> tail_count \<times> stopped" where
  "stop sync requests_drained tails_drained applied c =
     (close c, \<lparr>sp_drained = requests_drained, sp_sealed = seal_writes sync tails_drained applied\<rparr>)"

section \<open>Mutations and the stop, interleaved\<close>

text \<open>One mutation: the guard \<^verbatim>\<open>track\<close> gave it, which the handler moves into the task; the handler's shared hold; whether
  the task has been spawned, and whether it died.\<close>

record tail_mutation =
  mu_guard :: bool
  mu_hold :: bool
  mu_spawned :: bool
  mu_died :: bool

record stop_state =
  sm_count :: tail_count
  sm_mutations :: "tail_mutation list"
  sm_feed :: "index_event list"
  sm_observed :: bool
  sm_sealed :: "nat option"
  sm_panicked :: bool

definition stop_init :: stop_state where
  "stop_init = \<lparr>sm_count = tail_count_default, sm_mutations = [], sm_feed = [], sm_observed = False, sm_sealed = None,
     sm_panicked = False\<rparr>"

text \<open>The feed refuses a write after its seal by panicking.\<close>

definition feed_publish :: "stop_state \<Rightarrow> index_event \<Rightarrow> stop_state" where
  "feed_publish s ev = (if sm_sealed s \<noteq> None then s\<lparr>sm_panicked := True\<rparr> else s\<lparr>sm_feed := sm_feed s @ [ev]\<rparr>)"

inductive stop_step :: "stop_state \<Rightarrow> stop_state \<Rightarrow> bool" where
  Admit: "track (sm_count s) = (c, True)
    \<Longrightarrow> stop_step s (s\<lparr>sm_count := c,
          sm_mutations := sm_mutations s @ [\<lparr>mu_guard = True, mu_hold = False, mu_spawned = False, mu_died = False\<rparr>]\<rparr>)"
| Reject: "track (sm_count s) = (c, False) \<Longrightarrow> stop_step s (s\<lparr>sm_count := c\<rparr>)"
| Share: "sm_mutations s = ms @ m # ns \<Longrightarrow> mu_guard m \<Longrightarrow> \<not> mu_hold m \<Longrightarrow> \<not> mu_spawned m
    \<Longrightarrow> stop_step s (s\<lparr>sm_count := share (sm_count s), sm_mutations := ms @ m\<lparr>mu_hold := True\<rparr> # ns\<rparr>)"
| Spawn: "sm_mutations s = ms @ m # ns \<Longrightarrow> mu_hold m \<Longrightarrow> \<not> mu_spawned m
    \<Longrightarrow> stop_step s (s\<lparr>sm_mutations := ms @ m\<lparr>mu_spawned := True\<rparr> # ns\<rparr>)"
| TaskPublishes: "sm_mutations s = ms @ m # ns \<Longrightarrow> mu_spawned m \<Longrightarrow> mu_guard m \<Longrightarrow> stop_step s (feed_publish s ev)"
| TaskEnds: "sm_mutations s = ms @ m # ns \<Longrightarrow> mu_spawned m \<Longrightarrow> mu_guard m
    \<Longrightarrow> stop_step s (s\<lparr>sm_count := drop_guard (sm_count s), sm_mutations := ms @ m\<lparr>mu_guard := False, mu_died := dies\<rparr> # ns\<rparr>)"
| Announces: "sm_mutations s = ms @ m # ns \<Longrightarrow> mu_hold m \<Longrightarrow> \<not> mu_guard m \<Longrightarrow> mu_died m \<Longrightarrow> stop_step s (feed_publish s ev)"
| HandlerLeaves: "sm_mutations s = ms @ m # ns \<Longrightarrow> mu_hold m \<Longrightarrow> mu_spawned m
    \<Longrightarrow> stop_step s (s\<lparr>sm_count := drop_guard (sm_count s), sm_mutations := ms @ m\<lparr>mu_hold := False\<rparr> # ns\<rparr>)"
| Closes: "stop_step s (s\<lparr>sm_count := close (sm_count s)\<rparr>)"
| SeesDrained: "tc_closed (sm_count s) \<Longrightarrow> drained_now (sm_count s) \<Longrightarrow> stop_step s (s\<lparr>sm_observed := True\<rparr>)"
| Seals: "sm_observed s \<Longrightarrow> sm_sealed s = None \<Longrightarrow> stop_step s (s\<lparr>sm_sealed := Some (length (sm_feed s))\<rparr>)"

inductive stop_run :: "stop_state \<Rightarrow> bool" where
  Start: "stop_run stop_init"
| Step: "stop_run s \<Longrightarrow> stop_step s s' \<Longrightarrow> stop_run s'"

definition mu_holds :: "tail_mutation \<Rightarrow> nat" where
  "mu_holds m = (if mu_guard m then 1 else 0) + (if mu_hold m then 1 else 0)"

definition stop_ok :: "stop_state \<Rightarrow> bool" where
  "stop_ok s \<longleftrightarrow> tc_running (sm_count s) = sum_list (map mu_holds (sm_mutations s))
     \<and> (sm_observed s \<longrightarrow> tc_closed (sm_count s) \<and> tc_running (sm_count s) = 0)
     \<and> (\<forall>n. sm_sealed s = Some n \<longrightarrow> sm_observed s \<and> n = length (sm_feed s)) \<and> \<not> sm_panicked s"

lemma mu_holds_simps [simp]:
  "mu_holds m = 0 \<longleftrightarrow> \<not> mu_guard m \<and> \<not> mu_hold m" "mu_holds (m\<lparr>mu_spawned := x\<rparr>) = mu_holds m"
  by (simp_all add: mu_holds_def)

lemma publisher_unsealed:
  assumes "stop_ok s" "sm_mutations s = ms @ m # ns" "mu_guard m \<or> mu_hold m"
  shows "sm_sealed s = None" "\<not> sm_observed s"
  using assms by (auto simp: stop_ok_def mu_holds_def split: if_splits)

lemma feed_publish_ok: "stop_ok s \<Longrightarrow> sm_sealed s = None \<Longrightarrow> stop_ok (feed_publish s ev)"
  by (auto simp: stop_ok_def feed_publish_def)

lemma stop_step_ok: "stop_step s s' \<Longrightarrow> stop_ok s \<Longrightarrow> stop_ok s'"
proof (induction rule: stop_step.induct)
  case (Admit s c)
  then show ?case
    by (auto simp: stop_ok_def track_def mu_holds_def Let_def split: if_splits)
next
  case (Reject s c)
  then show ?case
    by (auto simp: stop_ok_def track_def Let_def)
next
  case (Share s ms m ns)
  note u = publisher_unsealed [OF Share.prems Share.hyps(1)]
  show ?case
    using u Share by (auto simp: stop_ok_def share_def mu_holds_def)
next
  case (TaskPublishes s ms m ns ev)
  then show ?case
    using publisher_unsealed(1) [of s ms m ns] feed_publish_ok by blast
next
  case (TaskEnds s ms m ns dies)
  note u = publisher_unsealed [OF TaskEnds.prems TaskEnds.hyps(1)]
  show ?case
    using u TaskEnds by (auto simp: stop_ok_def drop_guard_def mu_holds_def)
next
  case (Announces s ms m ns ev)
  then show ?case
    using publisher_unsealed(1) [of s ms m ns] feed_publish_ok by blast
next
  case (HandlerLeaves s ms m ns)
  note u = publisher_unsealed [OF HandlerLeaves.prems HandlerLeaves.hyps(1)]
  show ?case
    using u HandlerLeaves by (auto simp: stop_ok_def drop_guard_def mu_holds_def)
qed (auto simp: stop_ok_def close_def drained_now_def)

lemma stop_run_ok: "stop_run s \<Longrightarrow> stop_ok s"
proof (induction rule: stop_run.induct)
  case Start
  then show ?case
    by (simp add: stop_ok_def stop_init_def tail_count_default_def)
qed (rule stop_step_ok)

text \<open>C17: A seal is final. However mutations, dying tasks, hang-ups and the stop interleave, nothing is published after
  the feed is sealed: the seal's position is the last event's in every later state, no mutation holds the count any
  more, none can be admitted, and the feed never panics.\<close>

theorem seal_is_final:
  assumes "stop_run s"
  shows "\<not> sm_panicked s \<and> (\<forall>n. sm_sealed s = Some n \<longrightarrow> n = length (sm_feed s) \<and> tc_closed (sm_count s)
    \<and> (\<forall>m \<in> set (sm_mutations s). \<not> mu_guard m \<and> \<not> mu_hold m)
    \<and> (\<forall>s'. stop_step s s' \<longrightarrow> sm_feed s' = sm_feed s \<and> length (sm_mutations s') = length (sm_mutations s)))"
proof -
  note ok = stop_run_ok [OF assms]
  have quiet: "\<forall>m \<in> set (sm_mutations s). \<not> mu_guard m \<and> \<not> mu_hold m" "tc_closed (sm_count s)" "n = length (sm_feed s)"
    if "sm_sealed s = Some n" for n
    using ok that by (auto simp: stop_ok_def mu_holds_def split: if_splits)
  have "sm_feed s' = sm_feed s \<and> length (sm_mutations s') = length (sm_mutations s)" if "sm_sealed s = Some n" "stop_step s s'" for n s'
    using that(2) quiet [OF that(1)] that(1)
    by (cases rule: stop_step.cases) (auto simp: track_def Let_def feed_publish_def split: if_splits)
  then show ?thesis
    using ok quiet by (auto simp: stop_ok_def)
qed

text \<open>The comment on closing admission says that after it the count can only fall. It can rise: a mutation that
  was admitted just before shares its guard afterwards.\<close>

theorem count_rises_after_close:
  "\<exists>s s'. stop_run s \<and> tc_closed (sm_count s) \<and> stop_step s s' \<and> tc_running (sm_count s) < tc_running (sm_count s')"
proof -
  let ?m = "\<lparr>mu_guard = True, mu_hold = False, mu_spawned = False, mu_died = False\<rparr>"
  let ?s1 = "stop_init\<lparr>sm_count := fst (track tail_count_default), sm_mutations := [?m]\<rparr>"
  let ?s2 = "?s1\<lparr>sm_count := close (sm_count ?s1)\<rparr>"
  let ?s3 = "?s2\<lparr>sm_count := share (sm_count ?s2), sm_mutations := [?m\<lparr>mu_hold := True\<rparr>]\<rparr>"
  have "stop_step stop_init ?s1"
    using stop_step.Admit [of stop_init "fst (track tail_count_default)"]
    by (simp add: track_def stop_init_def tail_count_default_def)
  then have "stop_run ?s2"
    by (blast intro: stop_run.intros stop_step.Closes)
  moreover have "stop_step ?s2 ?s3"
    using stop_step.Share [of ?s2 "[]" ?m "[]"] by simp
  moreover have "tc_closed (sm_count ?s2)" "tc_running (sm_count ?s2) < tc_running (sm_count ?s3)"
    by (simp_all add: close_def share_def)
  ultimately show ?thesis
    by blast
qed

text \<open>One PUT runs to its end, then the node stops.\<close>

definition sealed_example :: stop_state where
  "sealed_example = \<lparr>sm_count = \<lparr>tc_running = 0, tc_closed = True\<rparr>,
     sm_mutations = [\<lparr>mu_guard = False, mu_hold = False, mu_spawned = True, mu_died = False\<rparr>],
     sm_feed = [unknown_event ''b'' ''k'' 5], sm_observed = True, sm_sealed = Some 1, sm_panicked = False\<rparr>"

lemma sealed_example_run: "stop_run sealed_example"
proof -
  let ?ev = "unknown_event ''b'' ''k'' 5"
  let ?m = "\<lparr>mu_guard = True, mu_hold = False, mu_spawned = False, mu_died = False\<rparr>"
  define st where "st n closed m = stop_init\<lparr>sm_count := \<lparr>tc_running = n, tc_closed = closed\<rparr>, sm_mutations := [m]\<rparr>" for n closed m
  let ?p = "\<lambda>s. s\<lparr>sm_feed := [?ev]\<rparr>"
  have "stop_step stop_init (st 1 False ?m)"
    using stop_step.Admit [of stop_init "\<lparr>tc_running = 1, tc_closed = False\<rparr>"]
    by (simp add: st_def stop_init_def track_def tail_count_default_def)
  moreover have "stop_step (st 1 False ?m) (st 2 False (?m\<lparr>mu_hold := True\<rparr>))"
    using stop_step.Share [of "st 1 False ?m" "[]" ?m "[]"] by (simp add: st_def share_def numeral_2_eq_2)
  moreover have "stop_step (st 2 False (?m\<lparr>mu_hold := True\<rparr>)) (st 2 False (?m\<lparr>mu_hold := True, mu_spawned := True\<rparr>))"
    using stop_step.Spawn [of "st 2 False (?m\<lparr>mu_hold := True\<rparr>)" "[]" "?m\<lparr>mu_hold := True\<rparr>" "[]"] by (simp add: st_def stop_init_def)
  moreover have "stop_step (st 2 False (?m\<lparr>mu_hold := True, mu_spawned := True\<rparr>)) (?p (st 2 False (?m\<lparr>mu_hold := True, mu_spawned := True\<rparr>)))"
    using stop_step.TaskPublishes [of "st 2 False (?m\<lparr>mu_hold := True, mu_spawned := True\<rparr>)" "[]" "?m\<lparr>mu_hold := True, mu_spawned := True\<rparr>" "[]" ?ev]
    by (simp add: st_def feed_publish_def stop_init_def)
  moreover have "stop_step (?p (st 2 False (?m\<lparr>mu_hold := True, mu_spawned := True\<rparr>)))
      (?p (st 1 False (?m\<lparr>mu_guard := False, mu_hold := True, mu_spawned := True\<rparr>)))"
    using stop_step.TaskEnds [of "?p (st 2 False (?m\<lparr>mu_hold := True, mu_spawned := True\<rparr>))" "[]" "?m\<lparr>mu_hold := True, mu_spawned := True\<rparr>" "[]" False]
    by (simp add: st_def stop_init_def drop_guard_def)
  moreover have "stop_step (?p (st 1 False (?m\<lparr>mu_guard := False, mu_hold := True, mu_spawned := True\<rparr>)))
      (?p (st 0 False (?m\<lparr>mu_guard := False, mu_spawned := True\<rparr>)))"
    using stop_step.HandlerLeaves [of "?p (st 1 False (?m\<lparr>mu_guard := False, mu_hold := True, mu_spawned := True\<rparr>))" "[]"
        "?m\<lparr>mu_guard := False, mu_hold := True, mu_spawned := True\<rparr>" "[]"] by (simp add: st_def stop_init_def drop_guard_def)
  moreover have "stop_step (?p (st 0 False (?m\<lparr>mu_guard := False, mu_spawned := True\<rparr>))) (?p (st 0 True (?m\<lparr>mu_guard := False, mu_spawned := True\<rparr>)))"
    using stop_step.Closes [of "?p (st 0 False (?m\<lparr>mu_guard := False, mu_spawned := True\<rparr>))"] by (simp add: st_def stop_init_def close_def)
  moreover have "stop_step (?p (st 0 True (?m\<lparr>mu_guard := False, mu_spawned := True\<rparr>)))
      ((?p (st 0 True (?m\<lparr>mu_guard := False, mu_spawned := True\<rparr>)))\<lparr>sm_observed := True\<rparr>)"
    by (rule stop_step.SeesDrained) (simp_all add: st_def stop_init_def drained_now_def)
  moreover have "stop_step ((?p (st 0 True (?m\<lparr>mu_guard := False, mu_spawned := True\<rparr>)))\<lparr>sm_observed := True\<rparr>) sealed_example"
    using stop_step.Seals [of "(?p (st 0 True (?m\<lparr>mu_guard := False, mu_spawned := True\<rparr>)))\<lparr>sm_observed := True\<rparr>"]
    by (simp add: st_def sealed_example_def stop_init_def)
  ultimately show ?thesis
    by (metis stop_run.intros)
qed

lemma seal_is_final_witness:
  "stop_run sealed_example \<and> sm_sealed sealed_example = Some 1 \<and> length (sm_feed sealed_example) = 1 \<and> \<not> sm_panicked sealed_example"
  using seal_is_final [OF sealed_example_run] sealed_example_run by (simp add: sealed_example_def)

end
