(* ===== verification/Image.thy ===== *)
theory Image
  imports Scan
begin

text \<open>
  The fleet image: a donor's index sized from its tallies, snapshotted, measured row by row,
  encoded, and decoded by a follower (\<^verbatim>\<open>encode\<close> and \<^verbatim>\<open>decode\<close> of
  \<^verbatim>\<open>src/src/index/fleet.rs\<close>, all of \<^verbatim>\<open>src/src/index/fleet/snapshot.rs\<close>). The
  universe is the list of bucket names; \<open>caps\<close> are the ceilings.
\<close>

definition IMAGE_VERSION :: nat where
  "IMAGE_VERSION = 1"

section \<open>Sizing at C\<close>

definition name_after :: "string option \<Rightarrow> string \<Rightarrow> bool" where
  "name_after previous name = (case previous of None \<Rightarrow> True | Some lst \<Rightarrow> lst < name)"

definition image_bucket :: "key_index_state \<Rightarrow> string \<Rightarrow> string option \<Rightarrow> image_caps \<Rightarrow> bucket_state ires" where
  "image_bucket idx name previous caps =
     (if name = [] \<or> length name > c_name_bytes caps \<or> \<not> name_after previous name then Inl Corrupt
      else bindE (ok_or Incomplete (bucket_get idx name)) (\<lambda>b.
        if \<not> bs_synced b \<or> bs_uncertain_keys b \<noteq> [] \<or> bs_rebuild_generation b \<noteq> None
        then Inl Incomplete else Inr b))"

definition add_rows :: "nat \<Rightarrow> bucket_state \<Rightarrow> image_caps \<Rightarrow> nat ires" where
  "add_rows n b caps =
     bindE (ok_or Capacity (Option.bind (checked_add64 n (kr_len (bs_keys b)))
              (\<lambda>c. checked_add64 c (gr_len (bs_gone b))))) (\<lambda>n.
       if n > c_rows caps then Inl Capacity else Inr n)"

definition tallied_bucket ::
  "layout \<Rightarrow> key_index_state \<Rightarrow> image_caps \<Rightarrow> string \<Rightarrow> string option \<times> decode_budget \<times> nat \<times> nat
   \<Rightarrow> (string option \<times> decode_budget \<times> nat \<times> nat) ires" where
  "tallied_bucket lay idx caps name = (\<lambda>(previous, budget, encoded, n).
     bindE (image_bucket idx name previous caps) (\<lambda>b.
     bindE (add_rows n b caps) (\<lambda>n.
     let keys = kr_image (bs_keys b); gone = gr_image (bs_gone b) in
     bindE (bucket_charge lay (length name)) (\<lambda>charge.
     bindE (budget_take budget charge) (\<lambda>budget.
     bindE (budget_take budget (unat (t_decoded keys))) (\<lambda>budget.
     bindE (budget_take budget (unat (t_decoded gone))) (\<lambda>budget.
     bindE (bucket_bytes (length name)) (\<lambda>header.
     bindE (sumE [encoded, header, unat (t_encoded keys), unat (t_encoded gone)]) (\<lambda>encoded.
       Inr (Some name, budget, encoded, n))))))))))"

definition image_loop ::
  "layout \<Rightarrow> (string \<Rightarrow> string option \<times> decode_budget \<times> nat \<times> nat \<Rightarrow> (string option \<times> decode_budget \<times> nat \<times> nat) ires)
   \<Rightarrow> key_index_state \<Rightarrow> string list \<Rightarrow> image_caps \<Rightarrow> image_size ires" where
  "image_loop lay body idx universe caps =
     bindE (caps_validate caps) (\<lambda>caps.
     if length universe > c_buckets caps \<or> length (ki_buckets idx) \<noteq> length universe then Inl Incomplete
     else
       bindE (budget_new (c_decoded_bytes caps)) (\<lambda>budget.
       bindE (state_charge lay (length universe)) (\<lambda>charge.
       bindE (budget_take budget charge) (\<lambda>budget.
       bindE (foldE body universe (None, budget, HEADER_BYTES, 0)) (\<lambda>(_, budget, encoded, n).
         if encoded > c_bytes caps then Inl Capacity
         else Inr \<lparr>encoded_bytes = encoded, decoded_bytes = b_used budget, rows = n\<rparr>)))))"

definition tallied_size :: "layout \<Rightarrow> key_index_state \<Rightarrow> string list \<Rightarrow> image_caps \<Rightarrow> image_size ires" where
  "tallied_size lay idx universe caps = image_loop lay (tallied_bucket lay idx caps) idx universe caps"

section \<open>Measuring\<close>

definition measure_row ::
  "layout \<Rightarrow> image_caps \<Rightarrow> string \<times> obj_entry \<Rightarrow> decode_budget \<times> nat \<Rightarrow> (decode_budget \<times> nat) ires" where
  "measure_row lay caps row = (\<lambda>(budget, encoded). case row of (key, e) \<Rightarrow>
     if key = [] \<or> length key > c_name_bytes caps then Inl Capacity
     else if e_storage_class e = [] \<or> length (e_storage_class e) > c_name_bytes caps then Inl Capacity
     else
       bindE (case e_etag e of None \<Rightarrow> Inr None
              | Some t \<Rightarrow> bindE (etag_text_len t) (\<lambda>n. Inr (Some n))) (\<lambda>etag.
       if (case etag of None \<Rightarrow> False | Some len \<Rightarrow> len > c_name_bytes caps) then Inl Capacity
       else if (case e_size e of None \<Rightarrow> False | Some sz \<Rightarrow> sz < 0) then Inl Corrupt
       else
         bindE (entry_charge lay (length key) etag (length (e_storage_class e))) (\<lambda>charge.
         bindE (budget_take budget charge) (\<lambda>budget.
         bindE (entry_bytes (length key) e) (\<lambda>n.
         bindE (sumE [encoded, n]) (\<lambda>encoded. Inr (budget, encoded)))))))"

definition measure_gone ::
  "layout \<Rightarrow> image_caps \<Rightarrow> key_rows \<Rightarrow> string \<times> systime \<Rightarrow> decode_budget \<times> nat \<Rightarrow> (decode_budget \<times> nat) ires" where
  "measure_gone lay caps keys row = (\<lambda>(budget, encoded). case row of (key, deleted_at) \<Rightarrow>
     if key = [] \<or> length key > c_name_bytes caps then Inl Capacity
     else if (case kr_get keys key of None \<Rightarrow> False | Some e \<Rightarrow> deleted_at \<ge> e_last_modified e) then Inl Corrupt
     else
       bindE (gone_charge lay (length key)) (\<lambda>charge.
       bindE (budget_take budget charge) (\<lambda>budget.
       bindE (gone_bytes (length key)) (\<lambda>n.
       bindE (sumE [encoded, n]) (\<lambda>encoded. Inr (budget, encoded))))))"

definition measure_bucket ::
  "layout \<Rightarrow> key_index_state \<Rightarrow> image_caps \<Rightarrow> string \<Rightarrow> string option \<times> decode_budget \<times> nat \<times> nat
   \<Rightarrow> (string option \<times> decode_budget \<times> nat \<times> nat) ires" where
  "measure_bucket lay idx caps name = (\<lambda>(previous, budget, encoded, n).
     bindE (image_bucket idx name previous caps) (\<lambda>b.
     bindE (bucket_charge lay (length name)) (\<lambda>charge.
     bindE (budget_take budget charge) (\<lambda>budget.
     bindE (bucket_bytes (length name)) (\<lambda>header.
     bindE (sumE [encoded, header]) (\<lambda>encoded.
     bindE (add_rows n b caps) (\<lambda>n.
     bindE (foldE (measure_row lay caps) (kr_map (bs_keys b)) (budget, encoded)) (\<lambda>acc.
     bindE (foldE (measure_gone lay caps (bs_keys b)) (gr_map (bs_gone b)) acc) (\<lambda>(budget, encoded).
       Inr (Some name, budget, encoded, n))))))))))"

definition measure_image :: "layout \<Rightarrow> key_index_state \<Rightarrow> string list \<Rightarrow> image_caps \<Rightarrow> image_size ires" where
  "measure_image lay idx universe caps = image_loop lay (measure_bucket lay idx caps) idx universe caps"

section \<open>The snapshot\<close>

definition snapshot_bucket :: "bucket_state \<Rightarrow> bucket_state" where
  "snapshot_bucket b = bucket_default\<lparr>bs_synced := True, bs_keys := bs_keys b, bs_gone := bs_gone b, bs_stats := bs_stats b\<rparr>"

definition snapshot_state :: "key_index_state \<Rightarrow> string list \<Rightarrow> key_index_state ires" where
  "snapshot_state idx universe =
     bindE (bucket_slots (length universe)) (\<lambda>_.
       foldE (\<lambda>name st. bindE (ok_or Incomplete (bucket_get idx name)) (\<lambda>b.
           Inr ((bucket_set st name (snapshot_bucket b))
             \<lparr>ki_stats := stats_replace (ki_stats st) index_stats_default (bs_stats b)\<rparr>)))
         universe key_index_default)"

section \<open>Encoding\<close>

definition encode_gone ::
  "image_caps \<Rightarrow> key_rows \<Rightarrow> string \<times> systime \<Rightarrow> writer \<Rightarrow> writer ires" where
  "encode_gone caps keys row w = (case row of (key, deleted_at) \<Rightarrow>
     if (case kr_get keys key of None \<Rightarrow> False | Some e \<Rightarrow> deleted_at \<ge> e_last_modified e) then Inl Corrupt
     else bindE (w_text w key (c_name_bytes caps)) (\<lambda>w. timestamp w deleted_at))"

definition encode_bucket ::
  "key_index_state \<Rightarrow> image_caps \<Rightarrow> string \<Rightarrow> string option \<times> writer \<times> nat \<Rightarrow> (string option \<times> writer \<times> nat) ires" where
  "encode_bucket idx caps name = (\<lambda>(previous, w, n).
     if \<not> name_after previous name then Inl Corrupt
     else
       bindE (ok_or Incomplete (bucket_get idx name)) (\<lambda>b.
       if \<not> bs_synced b \<or> bs_uncertain_keys b \<noteq> [] \<or> bs_rebuild_generation b \<noteq> None then Inl Incomplete
       else
         bindE (w_text w name (c_name_bytes caps)) (\<lambda>w.
         bindE (add_rows n b caps) (\<lambda>n.
         bindE (w_u32 w (kr_len (bs_keys b))) (\<lambda>w.
         bindE (foldE (\<lambda>(key, e) w. write_entry w key e (c_name_bytes caps)) (kr_map (bs_keys b)) w) (\<lambda>w.
         bindE (w_u32 w (gr_len (bs_gone b))) (\<lambda>w.
         bindE (foldE (encode_gone caps (bs_keys b)) (gr_map (bs_gone b)) w) (\<lambda>w.
           Inr (Some name, w, n)))))))))"

definition encode_image :: "key_index_state \<Rightarrow> string list \<Rightarrow> image_caps \<Rightarrow> image_size \<Rightarrow> bytes ires" where
  "encode_image idx universe caps sz =
     bindE (caps_validate caps) (\<lambda>caps.
     if length universe > c_buckets caps \<or> length (ki_buckets idx) \<noteq> length universe then Inl Incomplete
     else if encoded_bytes sz > c_bytes caps then Inl Capacity
     else
       bindE (writer_new (encoded_bytes sz)) (\<lambda>w.
       bindE (w_u8 w IMAGE_VERSION) (\<lambda>w.
       bindE (w_u32 w (length universe)) (\<lambda>w.
       bindE (foldE (encode_bucket idx caps) universe (None, w, 0)) (\<lambda>(_, w, _).
         if length (w_bytes w) \<noteq> encoded_bytes sz then Inl Corrupt else Inr (w_bytes w))))))"

section \<open>Decoding\<close>

record row_reader =
  rr_reader :: reader
  rr_budget :: decode_budget
  rr_previous :: "string option"

definition decode_key ::
  "layout \<Rightarrow> (string \<Rightarrow> etag option) \<Rightarrow> image_caps \<Rightarrow> row_reader \<times> key_rows \<times> index_stats
   \<Rightarrow> (row_reader \<times> key_rows \<times> index_stats) ires" where
  "decode_key lay pe caps = (\<lambda>(s, keys, stats).
     bindE (read_entry lay pe (rr_reader s) (rr_budget s) (c_name_bytes caps)) (\<lambda>((key, e), r, budget).
     if \<not> name_after (rr_previous s) key then Inl Corrupt
     else Inr (\<lparr>rr_reader = r, rr_budget = budget, rr_previous = Some key\<rparr>,
            fst (kr_insert lay keys key e),
            stats_replace stats index_stats_default (stats_for_entry e))))"

definition decode_gone ::
  "layout \<Rightarrow> image_caps \<Rightarrow> key_rows \<Rightarrow> row_reader \<times> gone_rows \<Rightarrow> (row_reader \<times> gone_rows) ires" where
  "decode_gone lay caps keys = (\<lambda>(s, gone).
     bindE (r_text (rr_reader s) (c_name_bytes caps)) (\<lambda>(key, r).
     if \<not> name_after (rr_previous s) key then Inl Corrupt
     else
       bindE (gone_charge lay (length key)) (\<lambda>charge.
       bindE (budget_take (rr_budget s) charge) (\<lambda>budget.
       bindE (read_timestamp r) (\<lambda>(deleted_at, r).
       if (case kr_get keys key of None \<Rightarrow> False | Some e \<Rightarrow> deleted_at \<ge> e_last_modified e) then Inl Corrupt
       else Inr (\<lparr>rr_reader = r, rr_budget = budget, rr_previous = Some key\<rparr>,
              gr_insert lay gone key deleted_at))))))"

record image_reader =
  ir_rows :: row_reader
  ir_count :: nat
  ir_state :: key_index_state

definition count_rows :: "nat \<Rightarrow> nat \<Rightarrow> image_caps \<Rightarrow> nat ires" where
  "count_rows n m caps = bindE (ok_or Capacity (checked_add64 n m)) (\<lambda>n.
     if n > c_rows caps then Inl Capacity else Inr n)"

definition decode_bucket ::
  "layout \<Rightarrow> (string \<Rightarrow> etag option) \<Rightarrow> image_caps \<Rightarrow> image_reader \<Rightarrow> image_reader ires" where
  "decode_bucket lay pe caps = (\<lambda>s.
     bindE (r_text (rr_reader (ir_rows s)) (c_name_bytes caps)) (\<lambda>(name, r).
     if \<not> name_after (rr_previous (ir_rows s)) name then Inl Corrupt
     else
       bindE (bucket_charge lay (length name)) (\<lambda>charge.
       bindE (budget_take (rr_budget (ir_rows s)) charge) (\<lambda>budget.
       bindE (r_u32 r) (\<lambda>(key_count, r).
       bindE (count_rows (ir_count s) key_count caps) (\<lambda>n.
       bindE (timesE key_count (decode_key lay pe caps)
           (\<lparr>rr_reader = r, rr_budget = budget, rr_previous = None\<rparr>, key_rows_default, index_stats_default))
         (\<lambda>(rr, keys, stats).
       bindE (r_u32 (rr_reader rr)) (\<lambda>(gone_count, r).
       bindE (count_rows n gone_count caps) (\<lambda>n.
       bindE (timesE gone_count (decode_gone lay caps keys)
           (\<lparr>rr_reader = r, rr_budget = rr_budget rr, rr_previous = None\<rparr>, gone_rows_default))
         (\<lambda>(rr, gone).
         let b = bucket_default\<lparr>bs_synced := True, bs_keys := keys, bs_gone := gone, bs_stats := stats\<rparr>;
             st = ir_state s
         in Inr \<lparr>ir_rows = \<lparr>rr_reader = rr_reader rr, rr_budget = rr_budget rr, rr_previous = Some name\<rparr>,
                 ir_count = n,
                 ir_state = (bucket_set st name b)
                   \<lparr>ki_stats := stats_replace (ki_stats st) index_stats_default stats\<rparr>\<rparr>))))))))))"

definition decode_image ::
  "layout \<Rightarrow> (string \<Rightarrow> etag option) \<Rightarrow> bytes \<Rightarrow> image_caps \<Rightarrow> key_index_state ires" where
  "decode_image lay pe bs caps =
     bindE (caps_validate caps) (\<lambda>caps.
     if bs = [] \<or> length bs > c_bytes caps then Inl Capacity
     else
       bindE (r_u8 \<lparr>r_bytes = bs, r_offset = 0\<rparr>) (\<lambda>(version, r).
       if version \<noteq> IMAGE_VERSION then Inl Schema
       else
         bindE (r_u32 r) (\<lambda>(buckets, r).
         if buckets > c_buckets caps then Inl Capacity
         else
           bindE (budget_new (c_decoded_bytes caps)) (\<lambda>budget.
           bindE (state_charge lay buckets) (\<lambda>charge.
           bindE (budget_take budget charge) (\<lambda>budget.
           bindE (timesE buckets (decode_bucket lay pe caps)
               \<lparr>ir_rows = \<lparr>rr_reader = r, rr_budget = budget, rr_previous = None\<rparr>,
                ir_count = 0, ir_state = key_index_default\<rparr>) (\<lambda>s.
             if r_offset (rr_reader (ir_rows s)) \<noteq> length bs then Inl Corrupt
             else Inr (ir_state s))))))))"

section \<open>What a measurement establishes\<close>

definition row_charge :: "layout \<Rightarrow> string \<times> obj_entry \<Rightarrow> nat" where
  "row_charge lay r = (case r of (k, e) \<Rightarrow> case entry_charge lay (length k)
     (map_option (length \<circ> etag_text) (e_etag e)) (length (e_storage_class e)) of Inr c \<Rightarrow> c | Inl _ \<Rightarrow> 0)"

definition tomb_charge :: "layout \<Rightarrow> string \<Rightarrow> nat" where
  "tomb_charge lay k = (case gone_charge lay (length k) of Inr c \<Rightarrow> c | Inl _ \<Rightarrow> 0)"

definition row_image :: "string \<times> obj_entry \<Rightarrow> bytes" where
  "row_image r = enc_entry (fst r) (snd r)"

definition tomb_image :: "string \<times> systime \<Rightarrow> bytes" where
  "tomb_image r = enc_text (fst r) @ enc_time (snd r)"

definition row_measured :: "layout \<Rightarrow> nat \<Rightarrow> string \<times> obj_entry \<Rightarrow> bool" where
  "row_measured lay cap r \<longleftrightarrow> (case r of (k, e) \<Rightarrow>
     k \<noteq> [] \<and> length k \<le> cap \<and> e_storage_class e \<noteq> [] \<and> length (e_storage_class e) \<le> cap
     \<and> (\<forall>t. e_etag e = Some t \<longrightarrow> length (etag_text t) \<le> cap) \<and> (\<forall>s. e_size e = Some s \<longrightarrow> 0 \<le> s)
     \<and> entry_charge lay (length k) (map_option (length \<circ> etag_text) (e_etag e)) (length (e_storage_class e))
         = Inr (row_charge lay r)
     \<and> tally_entry lay (length k) e = \<lparr>t_encoded = of_nat (length (row_image r)), t_decoded = of_nat (row_charge lay r)\<rparr>)"

definition tomb_measured :: "layout \<Rightarrow> nat \<Rightarrow> key_rows \<Rightarrow> string \<times> systime \<Rightarrow> bool" where
  "tomb_measured lay cap keys r \<longleftrightarrow> (case r of (k, t) \<Rightarrow>
     k \<noteq> [] \<and> length k \<le> cap \<and> (\<forall>e. kr_get keys k = Some e \<longrightarrow> t < e_last_modified e)
     \<and> gone_charge lay (length k) = Inr (tomb_charge lay k)
     \<and> tally_tombstone lay (length k) = \<lparr>t_encoded = of_nat (length (tomb_image r)), t_decoded = of_nat (tomb_charge lay k)\<rparr>)"

text \<open>One measuring step adds a charge to the budget and a length to the image.\<close>

definition advances :: "nat \<Rightarrow> nat \<Rightarrow> decode_budget \<times> nat \<Rightarrow> decode_budget \<times> nat \<Rightarrow> bool" where
  "advances c n s s' \<longleftrightarrow> (case (s, s') of ((b, enc), (b', enc')) \<Rightarrow>
     b' = b\<lparr>b_used := b_used b + c\<rparr> \<and> b_used b + c \<le> b_limit b \<and> b_used b + c \<le> u64_max
     \<and> enc' = enc + n \<and> enc + n \<le> u64_max)"

lemma budget_take_Inr:
  "budget_take b n = Inr b' \<longleftrightarrow> b_used b + n \<le> u64_max \<and> b_used b + n \<le> b_limit b \<and> b' = b\<lparr>b_used := b_used b + n\<rparr>"
  by (auto simp: budget_take_def checked_add64_def split: option.splits)

lemma etag_lens:
  "(case x of None \<Rightarrow> Inr None | Some t \<Rightarrow> bindE (etag_text_len t) (\<lambda>n. Inr (Some n))) = Inr y \<longleftrightarrow>
     y = map_option (length \<circ> etag_text) x \<and> (\<forall>t. x = Some t \<longrightarrow> length (etag_text t) \<le> u64_max)"
  by (cases x) (auto simp: result_simps etag_text_len_Inr)

lemma measure_row_Inr:
  assumes "measure_row lay caps r s = Inr s'"
  shows "row_measured lay (c_name_bytes caps) r \<and> advances (row_charge lay r) (length (row_image r)) s s'"
proof -
  obtain k e b enc b' enc' where s: "r = (k, e)" "s = (b, enc)" "s' = (b', enc')"
    by (metis surj_pair)
  obtain c n where c: "k \<noteq> []" "length k \<le> c_name_bytes caps" "e_storage_class e \<noteq> []"
    "length (e_storage_class e) \<le> c_name_bytes caps"
    "\<forall>t. e_etag e = Some t \<longrightarrow> length (etag_text t) \<le> u64_max \<and> length (etag_text t) \<le> c_name_bytes caps"
    "\<forall>sz. e_size e = Some sz \<longrightarrow> 0 \<le> sz"
    "entry_charge lay (length k) (map_option (length \<circ> etag_text) (e_etag e)) (length (e_storage_class e)) = Inr c"
    "budget_take b c = Inr b'" "entry_bytes (length k) e = Inr n" "sumE [enc, n] = Inr enc'"
    using assms unfolding s measure_row_def prod.case bindE_eq_Inr
    by (auto simp: result_simps etag_lens not_less not_le split: if_splits option.splits)
  have rc: "row_charge lay r = c"
    by (simp add: row_charge_def s c)
  have n: "n = length (row_image r)"
    using entry_bytes_length [OF c(9)] by (simp add: row_image_def s)
  have et: "(case e_etag e of None \<Rightarrow> Inr None | Some t \<Rightarrow> bindE (etag_text_len t) (\<lambda>n. Inr (Some n)))
      = Inr (map_option (length \<circ> etag_text) (e_etag e))"
    using c(5) by (simp add: etag_lens)
  have "tally_entry lay (length k) e = \<lparr>t_encoded = of_nat n, t_decoded = of_nat c\<rparr>"
    unfolding tally_entry_def et bindE_simps c(7,9) by simp
  then show ?thesis
    using c rc n by (simp add: s row_measured_def advances_def budget_take_Inr sumE_Inr)
qed

lemma measure_gone_Inr:
  assumes "measure_gone lay caps keys r s = Inr s'"
  shows "tomb_measured lay (c_name_bytes caps) keys r \<and> advances (tomb_charge lay (fst r)) (length (tomb_image r)) s s'"
proof -
  obtain k t b enc b' enc' where s: "r = (k, t)" "s = (b, enc)" "s' = (b', enc')"
    by (metis surj_pair)
  obtain c n where c: "k \<noteq> []" "length k \<le> c_name_bytes caps" "\<forall>e. kr_get keys k = Some e \<longrightarrow> t < e_last_modified e"
    "gone_charge lay (length k) = Inr c" "budget_take b c = Inr b'" "gone_bytes (length k) = Inr n" "sumE [enc, n] = Inr enc'"
    using assms unfolding s measure_gone_def prod.case
    by (auto simp: result_simps not_less not_le split: if_splits option.splits)
  have n: "n = length (tomb_image r)"
    using gone_bytes_length [OF c(6), of t] by (simp add: tomb_image_def s)
  have "tally_tombstone lay (length k) = \<lparr>t_encoded = of_nat n, t_decoded = of_nat c\<rparr>"
    using c by (simp add: tally_tombstone_def)
  then show ?thesis
    using c n by (simp add: s tomb_measured_def tomb_charge_def advances_def budget_take_Inr sumE_Inr)
qed

lemma advances_trans: "advances c n s s1 \<Longrightarrow> advances c' n' s1 s2 \<Longrightarrow> advances (c + c') (n + n') s s2"
  by (cases s; cases s1; cases s2) (auto simp: advances_def add.assoc)

lemma advances_refl: "b_used (fst s) \<le> b_limit (fst s) \<Longrightarrow> b_used (fst s) \<le> u64_max \<Longrightarrow> snd s \<le> u64_max \<Longrightarrow> advances 0 0 s s"
  by (cases s) (simp add: advances_def)

lemma advances_bounds:
  "advances c n s s' \<Longrightarrow> b_used (fst s') \<le> b_limit (fst s') \<and> b_used (fst s') \<le> u64_max \<and> snd s' \<le> u64_max"
  by (cases s; cases s') (auto simp: advances_def)

lemma measure_fold:
  assumes "\<And>r s s'. r \<in> set rs \<Longrightarrow> f r s = Inr s' \<Longrightarrow> P r \<and> advances (c r) (n r) s s'"
    and "foldE f rs s = Inr s'" "advances c0 n0 s0 s"
  shows "(\<forall>r \<in> set rs. P r) \<and> advances (sum_list (map c rs)) (sum_list (map n rs)) s s'"
  using assms
proof (induction rs arbitrary: s c0 n0 s0)
  case Nil
  then show ?case
    using advances_refl advances_bounds by (metis empty_iff foldE.simps(1) list.set(1) list.simps(8) sum.inject(2) sum_list.Nil)
next
  case (Cons r rs)
  obtain s1 where s1: "f r s = Inr s1" "foldE f rs s1 = Inr s'"
    using Cons.prems(2) by (auto simp: bindE_eq_Inr)
  have r: "P r" "advances (c r) (n r) s s1"
    using Cons.prems(1) [of r s s1] s1(1) by auto
  have "(\<forall>r \<in> set rs. P r) \<and> advances (sum_list (map c rs)) (sum_list (map n rs)) s1 s'"
    using Cons.IH [OF _ s1(2) r(2)] Cons.prems(1) by auto
  then show ?case
    using r advances_trans by fastforce
qed

definition complete_bucket :: "bucket_state \<Rightarrow> bool" where
  "complete_bucket b \<longleftrightarrow> bs_synced b \<and> bs_uncertain_keys b = [] \<and> bs_rebuild_generation b = None"

definition name_charge :: "layout \<Rightarrow> string \<Rightarrow> nat" where
  "name_charge lay name = length name + sz_string lay"

definition bucket_rows_charge :: "layout \<Rightarrow> bucket_state \<Rightarrow> nat" where
  "bucket_rows_charge lay b = sum_list (map (row_charge lay) (kr_map (bs_keys b)))
     + sum_list (map (\<lambda>r. tomb_charge lay (fst r)) (gr_map (bs_gone b)))"

definition bucket_enc :: "string \<Rightarrow> bucket_state \<Rightarrow> bytes" where
  "bucket_enc name b = enc_text name
     @ le_bytes 4 (length (kr_map (bs_keys b))) @ concat (map row_image (kr_map (bs_keys b)))
     @ le_bytes 4 (length (gr_map (bs_gone b))) @ concat (map tomb_image (gr_map (bs_gone b)))"

definition bucket_measured :: "layout \<Rightarrow> image_caps \<Rightarrow> string \<Rightarrow> bucket_state \<Rightarrow> bool" where
  "bucket_measured lay caps name b \<longleftrightarrow> name \<noteq> [] \<and> length name \<le> c_name_bytes caps \<and> complete_bucket b
     \<and> bucket_charge lay (length name) = Inr (name_charge lay name)
     \<and> (\<forall>r \<in> set (kr_map (bs_keys b)). row_measured lay (c_name_bytes caps) r)
     \<and> (\<forall>r \<in> set (gr_map (bs_gone b)). tomb_measured lay (c_name_bytes caps) (bs_keys b) r)"

definition bucket_len :: "bucket_state \<Rightarrow> nat" where
  "bucket_len b = length (kr_map (bs_keys b)) + length (gr_map (bs_gone b))"

lemma add_rows_Inr:
  "add_rows n b caps = Inr n' \<longleftrightarrow> n' = n + bucket_len b \<and> n' \<le> c_rows caps \<and> n' \<le> u64_max"
  by (auto simp: add_rows_def result_simps bind_eq_Some_conv kr_len_def gr_len_def bucket_len_def not_less split: if_splits)

lemma image_bucket_Inr:
  "image_bucket idx name prev caps = Inr b \<longleftrightarrow> name \<noteq> [] \<and> length name \<le> c_name_bytes caps \<and> name_after prev name
     \<and> bucket_get idx name = Some b \<and> complete_bucket b"
  by (auto simp: image_bucket_def complete_bucket_def result_simps not_less split: if_splits)

lemma bucket_charge_Inr: "bucket_charge lay (length name) = Inr c \<longleftrightarrow> c = name_charge lay name \<and> c \<le> u64_max"
  by (auto simp: bucket_charge_def name_charge_def sumE_Inr)

lemma bucket_bytes_Inr: "bucket_bytes (length name) = Inr n \<longleftrightarrow> n = length (enc_text name) + 8 \<and> n \<le> u64_max"
  by (auto simp: bucket_bytes_def text_bytes_def enc_text_def sumE_Inr result_simps)

lemma bucket_enc_length:
  "length (bucket_enc name b) = length (enc_text name) + 8 + sum_list (map (length \<circ> row_image) (kr_map (bs_keys b)))
     + sum_list (map (length \<circ> tomb_image) (gr_map (bs_gone b)))"
  by (simp add: bucket_enc_def length_concat)

lemma measure_bucket_Inr:
  assumes "measure_bucket lay idx caps name (prev, bud, enc, n) = Inr (prev', bud', enc', n')"
  shows "\<exists>b. bucket_get idx name = Some b \<and> bucket_measured lay caps name b \<and> name_after prev name \<and> prev' = Some name
    \<and> n' = n + bucket_len b \<and> n' \<le> c_rows caps \<and> n' \<le> u64_max
    \<and> advances (name_charge lay name + bucket_rows_charge lay b) (length (bucket_enc name b)) (bud, enc) (bud', enc')"
proof -
  obtain b bud1 header enc1 acc where m: "image_bucket idx name prev caps = Inr b"
    "bucket_charge lay (length name) = Inr (name_charge lay name)" "budget_take bud (name_charge lay name) = Inr bud1"
    "bucket_bytes (length name) = Inr header" "sumE [enc, header] = Inr enc1" "add_rows n b caps = Inr n'"
    "foldE (measure_row lay caps) (kr_map (bs_keys b)) (bud1, enc1) = Inr acc"
    "foldE (measure_gone lay caps (bs_keys b)) (gr_map (bs_gone b)) acc = Inr (bud', enc')" "prev' = Some name"
    using assms unfolding measure_bucket_def prod.case
    by (auto simp: result_simps bucket_charge_Inr split: prod.splits)
  have a0: "advances (name_charge lay name) (length (enc_text name) + 8) (bud, enc) (bud1, enc1)"
    using m(3,4,5) by (auto simp: advances_def budget_take_Inr bucket_bytes_Inr sumE_Inr)
  have a1: "(\<forall>r \<in> set (kr_map (bs_keys b)). row_measured lay (c_name_bytes caps) r)
      \<and> advances (sum_list (map (row_charge lay) (kr_map (bs_keys b)))) (sum_list (map (length \<circ> row_image) (kr_map (bs_keys b)))) (bud1, enc1) acc"
    by (rule measure_fold [OF _ m(7) a0]) (use measure_row_Inr in auto)
  then have a1': "advances (sum_list (map (row_charge lay) (kr_map (bs_keys b)))) (sum_list (map (length \<circ> row_image) (kr_map (bs_keys b)))) (bud1, enc1) acc"
    by blast
  have a2: "(\<forall>r \<in> set (gr_map (bs_gone b)). tomb_measured lay (c_name_bytes caps) (bs_keys b) r)
      \<and> advances (sum_list (map (\<lambda>r. tomb_charge lay (fst r)) (gr_map (bs_gone b)))) (sum_list (map (length \<circ> tomb_image) (gr_map (bs_gone b)))) acc (bud', enc')"
    by (rule measure_fold [OF _ m(8) a1']) (use measure_gone_Inr in auto)
  have "advances (name_charge lay name + bucket_rows_charge lay b) (length (bucket_enc name b)) (bud, enc) (bud', enc')"
    using advances_trans [OF a0 advances_trans [OF a1' conjunct2 [OF a2]]]
    by (simp add: bucket_rows_charge_def bucket_enc_length add.assoc)
  then show ?thesis
    using m(1,2,6,9) a1 a2 by (auto simp: image_bucket_Inr add_rows_Inr bucket_measured_def)
qed

section \<open>The tallies agree with the measurement\<close>

lemma om_sum_of_nat:
  "om_sum (\<lambda>k v. of_nat (f (k, v))) m = (of_nat (sum_list (map f m)) :: 64 word)"
  by (induction m) (auto simp: om_sum_def)

lemma tally_sum_of_nat:
  assumes "\<And>k v. (k, v) \<in> set m \<Longrightarrow> g k v = \<lparr>t_encoded = of_nat (f (k, v)), t_decoded = of_nat (h (k, v))\<rparr>"
  shows "tally_sum g m = \<lparr>t_encoded = of_nat (sum_list (map f m)), t_decoded = of_nat (sum_list (map h m))\<rparr>"
proof -
  have "om_sum (\<lambda>k v. t_encoded (g k v)) m = om_sum (\<lambda>k v. of_nat (f (k, v))) m"
    "om_sum (\<lambda>k v. t_decoded (g k v)) m = om_sum (\<lambda>k v. of_nat (h (k, v))) m"
    using assms by (auto simp: om_sum_def intro!: arg_cong [where f = sum_list] map_cong)
  then show ?thesis
    by (simp add: tally_sum_def om_sum_of_nat)
qed

lemma unat_small: "n \<le> u64_max \<Longrightarrow> unat (of_nat n :: 64 word) = n"
  by (simp add: unat_of_nat u64_max_def take_bit_nat_eq_self_iff unsigned_of_nat)

lemma tallied_follows_measure:
  assumes "measure_bucket lay idx caps name s = Inr s'"
    and "\<And>b. bucket_get idx name = Some b \<Longrightarrow> kr_ok lay (bs_keys b) \<and> gr_tally_ok lay (bs_gone b)"
  shows "tallied_bucket lay idx caps name s = Inr s'"
proof -
  obtain prev bud enc n prev' bud' enc' n' where s: "s = (prev, bud, enc, n)" "s' = (prev', bud', enc', n')"
    by (metis surj_pair)
  obtain b where b: "bucket_get idx name = Some b" "bucket_measured lay caps name b" "name_after prev name" "prev' = Some name"
    "n' = n + bucket_len b" "n' \<le> c_rows caps" "n' \<le> u64_max"
    "advances (name_charge lay name + bucket_rows_charge lay b) (length (bucket_enc name b)) (bud, enc) (bud', enc')"
    using measure_bucket_Inr [OF assms(1) [unfolded s]] by blast
  let ?kc = "sum_list (map (row_charge lay) (kr_map (bs_keys b)))"
    and ?gc = "sum_list (map (\<lambda>r. tomb_charge lay (fst r)) (gr_map (bs_gone b)))"
    and ?kn = "sum_list (map (length \<circ> row_image) (kr_map (bs_keys b)))"
    and ?gn = "sum_list (map (length \<circ> tomb_image) (gr_map (bs_gone b)))"
  have bnd: "b_used bud + (name_charge lay name + (?kc + ?gc)) \<le> u64_max"
    "b_used bud + (name_charge lay name + (?kc + ?gc)) \<le> b_limit bud"
    "bud' = bud\<lparr>b_used := b_used bud + (name_charge lay name + (?kc + ?gc))\<rparr>"
    "enc' = enc + (length (enc_text name) + 8 + ?kn + ?gn)" "enc + (length (enc_text name) + 8 + ?kn + ?gn) \<le> u64_max"
    using b(8) by (simp_all add: advances_def bucket_rows_charge_def bucket_enc_length)
  have keys: "kr_image (bs_keys b) = \<lparr>t_encoded = of_nat ?kn, t_decoded = of_nat ?kc\<rparr>"
    using assms(2) [OF b(1)] b(2)
    by (auto simp: kr_ok_def bucket_measured_def row_measured_def intro!: tally_sum_of_nat)
  have gone: "gr_image (bs_gone b) = \<lparr>t_encoded = of_nat ?gn, t_decoded = of_nat ?gc\<rparr>"
    using assms(2) [OF b(1)] b(2)
    by (auto simp: gr_tally_ok_def bucket_measured_def tomb_measured_def intro!: tally_sum_of_nat)
  have small: "?kc \<le> u64_max" "?gc \<le> u64_max" "?kn \<le> u64_max" "?gn \<le> u64_max" "length (enc_text name) + 8 \<le> u64_max"
    using bnd(1,5) by linarith+
  have img: "image_bucket idx name prev caps = Inr b"
    using b(1,2,3) by (simp add: image_bucket_Inr bucket_measured_def)
  have rws: "add_rows n b caps = Inr n'"
    using b(5,6,7) by (simp add: add_rows_Inr)
  have bc: "bucket_charge lay (length name) = Inr (name_charge lay name)"
    using b(2) by (simp add: bucket_measured_def)
  have bb: "bucket_bytes (length name) = Inr (length (enc_text name) + 8)"
    using small(5) by (simp add: bucket_bytes_Inr)
  have sm: "sumE [enc, length (enc_text name) + 8, ?kn, ?gn] = Inr enc'"
    using bnd(4,5) by (simp add: sumE_Inr)
  have t1: "budget_take bud (name_charge lay name) = Inr (bud\<lparr>b_used := b_used bud + name_charge lay name\<rparr>)"
    using bnd(1,2) by (simp add: budget_take_Inr)
  have t2: "budget_take (bud\<lparr>b_used := b_used bud + name_charge lay name\<rparr>) ?kc
      = Inr (bud\<lparr>b_used := b_used bud + name_charge lay name + ?kc\<rparr>)"
    using bnd(1,2) by (simp add: budget_take_Inr)
  have t3: "budget_take (bud\<lparr>b_used := b_used bud + name_charge lay name + ?kc\<rparr>) ?gc = Inr bud'"
    using bnd(1,2,3) by (simp add: budget_take_Inr add.assoc)
  show ?thesis
    unfolding s tallied_bucket_def prod.case img bindE_simps rws Let_def bc t1 keys gone image_tally.simps
      unat_small [OF small(1)] unat_small [OF small(2)] unat_small [OF small(3)] unat_small [OF small(4)] t2 t3 bb sm
    by (simp add: b(4))
qed

lemma foldE_cong_Inr:
  assumes "foldE f xs s = Inr s'" "\<And>x s s'. x \<in> set xs \<Longrightarrow> f x s = Inr s' \<Longrightarrow> g x s = Inr s'"
  shows "foldE g xs s = Inr s'"
  using assms by (induction xs arbitrary: s) (auto simp: bindE_eq_Inr)

lemma caps_validate_Inr: "caps_validate caps = Inr c \<longleftrightarrow> c = caps \<and> caps_validate caps = Inr caps"
  by (auto simp: caps_validate_def)

lemma image_loop_Inr:
  "image_loop lay body idx universe caps = Inr sz \<longleftrightarrow>
     caps_validate caps = Inr caps \<and> length universe \<le> c_buckets caps \<and> length (ki_buckets idx) = length universe
     \<and> (\<exists>charge p bud enc n. state_charge lay (length universe) = Inr charge
         \<and> charge \<le> u64_max \<and> charge \<le> c_decoded_bytes caps
         \<and> foldE body universe (None, \<lparr>b_used = charge, b_limit = c_decoded_bytes caps\<rparr>, HEADER_BYTES, 0) = Inr (p, bud, enc, n)
         \<and> enc \<le> c_bytes caps \<and> sz = \<lparr>encoded_bytes = enc, decoded_bytes = b_used bud, rows = n\<rparr>)"
  (is "?l \<longleftrightarrow> ?r")
proof (cases "caps_validate caps = Inr caps")
  case True
  then have "c_decoded_bytes caps \<noteq> 0"
    by (auto simp: caps_validate_def split: if_splits)
  then have new: "budget_new (c_decoded_bytes caps) = Inr \<lparr>b_used = 0, b_limit = c_decoded_bytes caps\<rparr>"
    by (simp add: budget_new_def)
  have take: "budget_take \<lparr>b_used = 0, b_limit = c_decoded_bytes caps\<rparr> charge = Inr x \<longleftrightarrow>
      charge \<le> u64_max \<and> charge \<le> c_decoded_bytes caps \<and> x = \<lparr>b_used = charge, b_limit = c_decoded_bytes caps\<rparr>" for charge x
    by (auto simp: budget_take_Inr)
  show ?thesis
    unfolding image_loop_def True bindE_simps new
    by (auto simp: bindE_eq_Inr take not_less split: if_splits prod.splits) (metis le_refl)+
next
  case False
  then have "\<exists>e. caps_validate caps = Inl e"
    by (auto simp: caps_validate_def split: if_splits)
  then show ?thesis
    using False by (auto simp: image_loop_def)
qed

lemma tallied_size_core:
  assumes "index_ok lay st" "measure_image lay st universe caps = Inr sz"
  shows "tallied_size lay st universe caps = Inr sz"
proof -
  have ok: "kr_ok lay (bs_keys b) \<and> gr_tally_ok lay (bs_gone b)" if "bucket_get st name = Some b" for name b
    using assms(1) that map_of_SomeD [of "ki_buckets st" name b]
    by (auto simp: index_ok_def bucket_ok_def rows_ok_def gr_ok_def bucket_get_def)
  have "foldE (tallied_bucket lay st caps) universe s = Inr s'" if "foldE (measure_bucket lay st caps) universe s = Inr s'" for s s'
    using foldE_cong_Inr [OF that] tallied_follows_measure ok by blast
  then show ?thesis
    using assms(2) unfolding measure_image_def tallied_size_def image_loop_Inr by blast
qed

text \<open>The size a donor takes at C in time proportional to its buckets is exact. Whenever the
  row-by-row measurement of a well-formed index succeeds, the size read off the wrapping 64-bit
  tallies succeeds too and equals it in bytes, in decode charge and in rows; so a capture is never
  refused, nor an image mis-sized, because the two disagree.\<close>

theorem tallied_size_exact:
  assumes "index_ok lay st" "measure_image lay st universe caps = Inr sz"
  shows "tallied_size lay st universe caps = Inr sz"
  by (rule tallied_size_core [OF assms])

section \<open>Encoding succeeds\<close>

text \<open>What the types guarantee of the rows held in memory: strings are UTF-8, sizes are \<^verbatim>\<open>i64\<close>, times
  lie between the epoch and the end of \<^verbatim>\<open>SystemTime\<close>, and an entity tag prints to a text that parses
  back to it.\<close>

definition row_typed :: "(string \<Rightarrow> etag option) \<Rightarrow> string \<times> obj_entry \<Rightarrow> bool" where
  "row_typed pe r \<longleftrightarrow> (case r of (k, e) \<Rightarrow> utf8_ok k \<and> utf8_ok (e_storage_class e)
     \<and> (\<forall>s. e_size e = Some s \<longrightarrow> s < 2 ^ 63) \<and> time_ok (e_last_modified e)
     \<and> (\<forall>t. e_etag e = Some t \<longrightarrow> utf8_ok (etag_text t) \<and> pe (etag_text t) = Some t))"

definition bucket_typed :: "(string \<Rightarrow> etag option) \<Rightarrow> bucket_state \<Rightarrow> bool" where
  "bucket_typed pe b \<longleftrightarrow> om_ok (kr_map (bs_keys b)) \<and> om_ok (gr_map (bs_gone b))
     \<and> (\<forall>r \<in> set (kr_map (bs_keys b)). row_typed pe r)
     \<and> (\<forall>(k, t) \<in> set (gr_map (bs_gone b)). utf8_ok k \<and> time_ok t)"

definition index_typed :: "(string \<Rightarrow> etag option) \<Rightarrow> key_index_state \<Rightarrow> bool" where
  "index_typed pe st \<longleftrightarrow> (\<forall>name b. bucket_get st name = Some b \<longrightarrow> utf8_ok name \<and> bucket_typed pe b)"

lemma row_entry_ok:
  assumes "row_measured lay cap r" "row_typed pe r" "cap < 2 ^ 32"
  shows "entry_ok cap pe (fst r) (snd r)"
  using assms by (cases r) (auto simp: row_measured_def row_typed_def entry_ok_def text_ok_def size_ok_def etag_ok_def
      etag_text_def split: option.splits)

lemma foldE_writer:
  assumes "\<And>x w. x \<in> set xs \<Longrightarrow> w_fits w (e x) \<Longrightarrow> f x w = Inr (w_app w (e x))"
    and "w_fits w (concat (map e xs))"
  shows "foldE f xs w = Inr (w_app w (concat (map e xs)))"
  using assms
proof (induction xs arbitrary: w)
  case (Cons x xs)
  have "w_fits w (e x)"
    using Cons.prems(2) w_fits_append1 by force
  then have "f x w = Inr (w_app w (e x))"
    using Cons.prems(1) by simp
  moreover have "foldE f xs (w_app w (e x)) = Inr (w_app (w_app w (e x)) (concat (map e xs)))"
    using Cons.prems by (intro Cons.IH) simp_all
  ultimately show ?case
    by simp
qed simp

lemma encode_gone_total:
  assumes "tomb_measured lay (c_name_bytes caps) keys r" "utf8_ok (fst r)" "time_ok (snd r)" "c_name_bytes caps < 2 ^ 32"
    and "w_fits w (tomb_image r)"
  shows "encode_gone caps keys r w = Inr (w_app w (tomb_image r))"
proof -
  obtain k t where r: "r = (k, t)"
    by force
  have "w_fits w (enc_text k)"
    using assms(5) w_fits_append1 by (force simp: tomb_image_def r)
  then have "w_text w k (c_name_bytes caps) = Inr (w_app w (enc_text k))"
    using assms by (intro textf.wr_total) (auto simp: r tomb_measured_def text_ok_def)
  moreover have "\<not> (case kr_get keys k of None \<Rightarrow> False | Some e \<Rightarrow> t \<ge> e_last_modified e)"
    using assms(1) by (auto simp: r tomb_measured_def split: option.splits)
  ultimately show ?thesis
    using assms(3,5) by (simp add: encode_gone_def r timef.wr_total tomb_image_def)
qed

lemma encode_bucket_total:
  assumes "bucket_get idx name = Some b" "bucket_measured lay caps name b" "name_after prev name"
    and "utf8_ok name" "bucket_typed pe b" "n + bucket_len b \<le> c_rows caps" "n + bucket_len b \<le> u64_max"
    and "c_name_bytes caps < 2 ^ 32" "c_rows caps < 2 ^ 32" "w_fits w (bucket_enc name b)"
  shows "encode_bucket idx caps name (prev, w, n) = Inr (Some name, w_app w (bucket_enc name b), n + bucket_len b)"
proof -
  let ?K = "kr_map (bs_keys b)" and ?G = "gr_map (bs_gone b)"
  let ?a = "enc_text name"
  let ?b = "?a @ le_bytes 4 (length ?K)"
  let ?c = "?b @ concat (map row_image ?K)"
  let ?d = "?c @ le_bytes 4 (length ?G)"
  have fits: "w_fits w ?a" "w_fits w ?b" "w_fits w ?c" "w_fits w ?d"
    using assms(10) by (auto simp: bucket_enc_def w_fits_def)
  have lens: "length ?K < 2 ^ 32" "length ?G < 2 ^ 32"
    using assms(6,9) by (simp_all add: bucket_len_def)
  have m: "name \<noteq> []" "length name \<le> c_name_bytes caps" "complete_bucket b"
    using assms(2) by (auto simp: bucket_measured_def)
  have s1: "w_text w name (c_name_bytes caps) = Inr (w_app w ?a)"
    using m assms(4,8) fits(1) by (intro textf.wr_total) (auto simp: text_ok_def)
  have s2: "add_rows n b caps = Inr (n + bucket_len b)"
    using assms(6,7) by (simp add: add_rows_Inr)
  have s3: "w_u32 (w_app w ?a) (kr_len (bs_keys b)) = Inr (w_app w ?b)"
    using lens fits(2) by (simp add: kr_len_def u32.wr_total)
  have s4: "foldE (\<lambda>(key, e) w. write_entry w key e (c_name_bytes caps)) ?K (w_app w ?b) = Inr (w_app (w_app w ?b) (concat (map row_image ?K)))"
  proof (rule foldE_writer)
    fix r w'
    assume r: "r \<in> set ?K" "w_fits w' (row_image r)"
    then have "entry_ok (c_name_bytes caps) pe (fst r) (snd r)"
      using assms(2,5,8) by (intro row_entry_ok) (auto simp: bucket_measured_def bucket_typed_def)
    then show "(case r of (key, e) \<Rightarrow> \<lambda>w. write_entry w key e (c_name_bytes caps)) w' = Inr (w_app w' (row_image r))"
      using r(2) by (simp add: case_prod_beta row_image_def write_entry_total)
  qed (use fits(3) in simp)
  have s5: "w_u32 (w_app w ?c) (gr_len (bs_gone b)) = Inr (w_app w ?d)"
    using lens fits(4) by (simp add: gr_len_def u32.wr_total)
  have s6: "foldE (encode_gone caps (bs_keys b)) ?G (w_app w ?d) = Inr (w_app (w_app w ?d) (concat (map tomb_image ?G)))"
  proof (rule foldE_writer)
    fix r w'
    assume "r \<in> set ?G" "w_fits w' (tomb_image r)"
    then show "encode_gone caps (bs_keys b) r w' = Inr (w_app w' (tomb_image r))"
      using assms(2,5,8) by (intro encode_gone_total) (auto simp: bucket_measured_def bucket_typed_def)
  qed (use assms(10) in \<open>simp add: bucket_enc_def\<close>)
  show ?thesis
    using assms(1,3) m(3) s1 s2 s3 s4 s5 s6
    by (simp add: encode_bucket_def complete_bucket_def bucket_enc_def)
qed

definition universe_enc :: "key_index_state \<Rightarrow> string list \<Rightarrow> bytes" where
  "universe_enc idx names = concat (map (\<lambda>name. bucket_enc name (bucket_entry idx name)) names)"

definition universe_charge :: "layout \<Rightarrow> key_index_state \<Rightarrow> string list \<Rightarrow> nat" where
  "universe_charge lay idx names = sum_list (map (\<lambda>name. name_charge lay name + bucket_rows_charge lay (bucket_entry idx name)) names)"

lemma measure_universe:
  assumes "foldE (measure_bucket lay idx caps) names (prev, bud, enc, n) = Inr (prev', bud', enc', n')" "advances c0 n0 s0 (bud, enc)"
  shows "advances (universe_charge lay idx names) (length (universe_enc idx names)) (bud, enc) (bud', enc')"
  using assms
proof (induction names arbitrary: prev bud enc n c0 n0 s0)
  case Nil
  then show ?case
    using advances_refl [of "(bud, enc)"] advances_bounds [OF Nil.prems(2)] by (simp add: universe_charge_def universe_enc_def)
next
  case (Cons name names)
  obtain p1 b1 e1 n1 where s: "measure_bucket lay idx caps name (prev, bud, enc, n) = Inr (p1, b1, e1, n1)"
    "foldE (measure_bucket lay idx caps) names (p1, b1, e1, n1) = Inr (prev', bud', enc', n')"
    using Cons.prems(1) by (auto simp: bindE_eq_Inr)
  obtain b where b: "bucket_get idx name = Some b"
    "advances (name_charge lay name + bucket_rows_charge lay b) (length (bucket_enc name b)) (bud, enc) (b1, e1)"
    using measure_bucket_Inr [OF s(1)] by blast
  have "bucket_entry idx name = b"
    using b(1) by (simp add: bucket_entry_def)
  then show ?case
    using advances_trans [OF b(2) Cons.IH [OF s(2) b(2)]] by (simp add: universe_charge_def universe_enc_def)
qed

lemma encode_universe:
  assumes "foldE (measure_bucket lay idx caps) names (prev, bud, enc, n) = Inr (prev', bud', enc', n')"
    and "index_typed pe idx" "c_name_bytes caps < 2 ^ 32" "c_rows caps < 2 ^ 32" "w_fits w (universe_enc idx names)"
  shows "foldE (encode_bucket idx caps) names (prev, w, n) = Inr (prev', w_app w (universe_enc idx names), n')"
  using assms
proof (induction names arbitrary: prev bud enc n w)
  case Nil
  then show ?case
    by (simp add: universe_enc_def)
next
  case (Cons name names)
  obtain p1 b1 e1 n1 where s: "measure_bucket lay idx caps name (prev, bud, enc, n) = Inr (p1, b1, e1, n1)"
    "foldE (measure_bucket lay idx caps) names (p1, b1, e1, n1) = Inr (prev', bud', enc', n')"
    using Cons.prems(1) by (auto simp: bindE_eq_Inr)
  obtain b where b: "bucket_get idx name = Some b" "bucket_measured lay caps name b" "name_after prev name" "p1 = Some name"
    "n1 = n + bucket_len b" "n1 \<le> c_rows caps" "n1 \<le> u64_max"
    using measure_bucket_Inr [OF s(1)] by blast
  have e: "bucket_entry idx name = b"
    using b(1) by (simp add: bucket_entry_def)
  have split: "universe_enc idx (name # names) = bucket_enc name b @ universe_enc idx names"
    by (simp add: universe_enc_def e)
  have fit: "w_fits w (bucket_enc name b)" "w_fits (w_app w (bucket_enc name b)) (universe_enc idx names)"
    using Cons.prems(5) w_fits_append1 by (auto simp: split)
  have "utf8_ok name" "bucket_typed pe b"
    using Cons.prems(2) b(1) by (auto simp: index_typed_def)
  then have "encode_bucket idx caps name (prev, w, n) = Inr (Some name, w_app w (bucket_enc name b), n1)"
    using encode_bucket_total [OF b(1,2,3)] b(5-7) Cons.prems(3,4) fit(1) by simp
  moreover have "foldE (encode_bucket idx caps) names (Some name, w_app w (bucket_enc name b), n1)
      = Inr (prev', w_app (w_app w (bucket_enc name b)) (universe_enc idx names), n')"
    using Cons.IH [OF s(2) Cons.prems(2-4) fit(2)] b(4) by simp
  ultimately show ?case
    by (simp add: split)
qed

definition image_bytes :: "key_index_state \<Rightarrow> string list \<Rightarrow> bytes" where
  "image_bytes idx universe = enc_u8 IMAGE_VERSION @ le_bytes 4 (length universe) @ universe_enc idx universe"

lemma encode_image_total:
  assumes "measure_image lay idx universe caps = Inr sz" "index_typed pe idx"
  shows "encode_image idx universe caps sz = Inr (image_bytes idx universe)" "length (image_bytes idx universe) = encoded_bytes sz"
proof -
  obtain charge p bud enc n where m: "caps_validate caps = Inr caps" "length universe \<le> c_buckets caps"
    "length (ki_buckets idx) = length universe" "charge \<le> u64_max" "charge \<le> c_decoded_bytes caps"
    "foldE (measure_bucket lay idx caps) universe (None, \<lparr>b_used = charge, b_limit = c_decoded_bytes caps\<rparr>, HEADER_BYTES, 0) = Inr (p, bud, enc, n)"
    "enc \<le> c_bytes caps" "sz = \<lparr>encoded_bytes = enc, decoded_bytes = b_used bud, rows = n\<rparr>"
    using assms(1) unfolding measure_image_def image_loop_Inr by blast
  have caps: "c_bytes caps \<le> 256 * 2 ^ 20" "c_buckets caps \<le> 4096" "c_rows caps \<le> 2000000" "c_name_bytes caps \<le> 16384"
    using m(1) by (auto simp: caps_validate_def split: if_splits)
  have "advances 0 0 (\<lparr>b_used = charge, b_limit = c_decoded_bytes caps\<rparr>, HEADER_BYTES) (\<lparr>b_used = charge, b_limit = c_decoded_bytes caps\<rparr>, HEADER_BYTES)"
    using m(4,5) by (simp add: advances_def HEADER_BYTES_def u64_max_def)
  then have "advances (universe_charge lay idx universe) (length (universe_enc idx universe))
      (\<lparr>b_used = charge, b_limit = c_decoded_bytes caps\<rparr>, HEADER_BYTES) (bud, enc)"
    using measure_universe [OF m(6)] by blast
  then have enc: "enc = 5 + length (universe_enc idx universe)"
    by (simp add: advances_def HEADER_BYTES_def)
  then show len: "length (image_bytes idx universe) = encoded_bytes sz"
    by (simp add: image_bytes_def m(8) enc_u8_def)
  let ?w = "\<lparr>w_bytes = [], w_limit = enc\<rparr>"
  have max: "enc \<le> u64_max"
    using m(7) caps(1) by (simp add: u64_max_def)
  have fits: "w_fits ?w (enc_u8 IMAGE_VERSION)" "w_fits ?w (enc_u8 IMAGE_VERSION @ le_bytes 4 (length universe))"
    "w_fits ?w (enc_u8 IMAGE_VERSION @ le_bytes 4 (length universe) @ universe_enc idx universe)"
    using max by (simp_all add: w_fits_def enc enc_u8_def)
  have a: "w_u8 ?w IMAGE_VERSION = Inr (w_app ?w (enc_u8 IMAGE_VERSION))"
    using fits(1) by (simp add: u8.wr_total IMAGE_VERSION_def)
  have b: "w_u32 (w_app ?w (enc_u8 IMAGE_VERSION)) (length universe) = Inr (w_app ?w (enc_u8 IMAGE_VERSION @ le_bytes 4 (length universe)))"
    using fits(2) m(2) caps(2) by (simp add: u32.wr_total)
  have c: "foldE (encode_bucket idx caps) universe (None, w_app ?w (enc_u8 IMAGE_VERSION @ le_bytes 4 (length universe)), 0)
      = Inr (p, w_app ?w (image_bytes idx universe), n)"
    using encode_universe [OF m(6) assms(2), of "w_app ?w (enc_u8 IMAGE_VERSION @ le_bytes 4 (length universe))"] fits(3) caps
    by (simp add: image_bytes_def)
  show "encode_image idx universe caps sz = Inr (image_bytes idx universe)"
    using m a b c len enc by (simp add: encode_image_def writer_new_def)
qed

section \<open>Decoding inverts encoding\<close>

lemma om_insert_last:
  assumes "\<And>q. q \<in> set m \<Longrightarrow> fst q < k"
  shows "om_insert k v m = m @ [(k, v)]"
  using assms
proof (induction m)
  case (Cons q m)
  have "fst q < k"
    using Cons.prems by simp
  then show ?case
    using Cons by (cases q) auto
qed simp

definition skel_rows :: "(string, obj_entry) omap \<Rightarrow> (string, obj_entry) omap" where
  "skel_rows rs = map (\<lambda>(k, e). (k, skeletal e)) rs"

lemma kr_insert_map: "kr_map (fst (kr_insert lay keys k e)) = om_insert k e (kr_map keys)"
  by (simp add: kr_insert_def Let_def)

lemma gr_insert_map: "gr_map (gr_insert lay g k t) = om_insert k t (gr_map g)"
  by (simp add: gr_insert_def Let_def)

lemma name_after_trans: "name_after prev k \<Longrightarrow> k < k' \<Longrightarrow> name_after prev k'"
  by (auto simp: name_after_def split: option.splits)

lemma decode_key_row:
  assumes "row_measured lay (c_name_bytes caps) r" "row_typed pe r" "c_name_bytes caps < 2 ^ 32"
    and "length pre + length (row_image r) \<le> u64_max" "name_after prev (fst r)"
    and "b_used bud + row_charge lay r \<le> b_limit bud" "b_used bud + row_charge lay r \<le> u64_max"
  shows "decode_key lay pe caps (\<lparr>rr_reader = reader_at pre (row_image r @ rest), rr_budget = bud, rr_previous = prev\<rparr>, keys, stats)
    = Inr (\<lparr>rr_reader = reader_at (pre @ row_image r) rest, rr_budget = bud\<lparr>b_used := b_used bud + row_charge lay r\<rparr>, rr_previous = Some (fst r)\<rparr>,
       fst (kr_insert lay keys (fst r) (skeletal (snd r))), stats_replace stats index_stats_default (stats_for_entry (skeletal (snd r))))"
proof -
  obtain k e where r: "r = (k, e)"
    by force
  have "entry_ok (c_name_bytes caps) pe k e"
    using row_entry_ok [OF assms(1,2,3)] by (simp add: r)
  moreover have "entry_charge lay (length k) (map_option (length \<circ> etag_text) (e_etag e)) (length (e_storage_class e)) = Inr (row_charge lay r)"
    using assms(1) by (simp add: row_measured_def r)
  moreover have "budget_take bud (row_charge lay r) = Inr (bud\<lparr>b_used := b_used bud + row_charge lay r\<rparr>)"
    using assms(6,7) by (simp add: budget_take_Inr)
  ultimately have "read_entry lay pe (reader_at pre (row_image r @ rest)) bud (c_name_bytes caps)
      = Inr ((k, skeletal e), reader_at (pre @ row_image r) rest, bud\<lparr>b_used := b_used bud + row_charge lay r\<rparr>)"
    using read_entry_enc [of "c_name_bytes caps" pe k e pre lay _ bud] assms(4) by (simp add: row_image_def r)
  then show ?thesis
    using assms(5) by (simp add: decode_key_def r)
qed

lemma decode_keys:
  assumes "om_ok rs" "\<And>r. r \<in> set rs \<Longrightarrow> row_measured lay (c_name_bytes caps) r \<and> row_typed pe r" "c_name_bytes caps < 2 ^ 32"
    and "length pre + length (concat (map row_image rs)) \<le> u64_max" "\<And>r. r \<in> set rs \<Longrightarrow> name_after prev (fst r)"
    and "b_used bud + sum_list (map (row_charge lay) rs) \<le> b_limit bud" "b_used bud + sum_list (map (row_charge lay) rs) \<le> u64_max"
    and "\<And>q r. q \<in> set (kr_map keys) \<Longrightarrow> r \<in> set rs \<Longrightarrow> fst q < fst r"
  shows "\<exists>p keys' stats'. timesE (length rs) (decode_key lay pe caps)
      (\<lparr>rr_reader = reader_at pre (concat (map row_image rs) @ rest), rr_budget = bud, rr_previous = prev\<rparr>, keys, stats)
    = Inr (\<lparr>rr_reader = reader_at (pre @ concat (map row_image rs)) rest,
            rr_budget = bud\<lparr>b_used := b_used bud + sum_list (map (row_charge lay) rs)\<rparr>, rr_previous = p\<rparr>, keys', stats')
    \<and> kr_map keys' = kr_map keys @ skel_rows rs"
  using assms
proof (induction rs arbitrary: pre prev bud keys stats)
  case Nil
  then show ?case
    by (simp add: skel_rows_def)
next
  case (Cons r rs)
  let ?bud = "bud\<lparr>b_used := b_used bud + row_charge lay r\<rparr>"
  let ?keys = "fst (kr_insert lay keys (fst r) (skeletal (snd r)))"
  let ?stats = "stats_replace stats index_stats_default (stats_for_entry (skeletal (snd r)))"
  have step: "decode_key lay pe caps (\<lparr>rr_reader = reader_at pre (row_image r @ concat (map row_image rs) @ rest), rr_budget = bud, rr_previous = prev\<rparr>, keys, stats)
    = Inr (\<lparr>rr_reader = reader_at (pre @ row_image r) (concat (map row_image rs) @ rest), rr_budget = ?bud, rr_previous = Some (fst r)\<rparr>, ?keys, ?stats)"
    using Cons.prems(2) [of r] Cons.prems(3-7) by (intro decode_key_row) auto
  have gt: "fst r < fst q" if "q \<in> set rs" for q
    using Cons.prems(1) that by (cases r) (auto simp: om_ok_Cons)
  have map: "kr_map ?keys = kr_map keys @ [(fst r, skeletal (snd r))]"
    using Cons.prems(8) by (simp add: kr_insert_map om_insert_last)
  have "\<exists>p keys' stats'. timesE (length rs) (decode_key lay pe caps)
      (\<lparr>rr_reader = reader_at (pre @ row_image r) (concat (map row_image rs) @ rest), rr_budget = ?bud, rr_previous = Some (fst r)\<rparr>, ?keys, ?stats)
    = Inr (\<lparr>rr_reader = reader_at ((pre @ row_image r) @ concat (map row_image rs)) rest,
            rr_budget = ?bud\<lparr>b_used := b_used ?bud + sum_list (map (row_charge lay) rs)\<rparr>, rr_previous = p\<rparr>, keys', stats')
    \<and> kr_map keys' = kr_map ?keys @ skel_rows rs"
  proof (rule Cons.IH)
    show "om_ok rs"
      using Cons.prems(1) by (cases r) (simp add: om_ok_Cons)
    show "fst q < fst q'" if "q \<in> set (kr_map ?keys)" "q' \<in> set rs" for q q'
      using that(2) gt [OF that(2)] Cons.prems(8) [of q q'] that(1) [unfolded map] by auto
  qed (use Cons.prems gt in \<open>auto simp: name_after_def add.assoc\<close>)
  then show ?case
    unfolding map using step by (auto simp: skel_rows_def add.assoc case_prod_beta)
qed

lemma decode_gone_row:
  assumes "tomb_measured lay (c_name_bytes caps) keys r" "utf8_ok (fst r)" "time_ok (snd r)" "c_name_bytes caps < 2 ^ 32"
    and "length pre + length (tomb_image r) \<le> u64_max" "name_after prev (fst r)"
    and "b_used bud + tomb_charge lay (fst r) \<le> b_limit bud" "b_used bud + tomb_charge lay (fst r) \<le> u64_max"
    and "\<And>k. map_option e_last_modified (kr_get keys' k) = map_option e_last_modified (kr_get keys k)"
  shows "decode_gone lay caps keys' (\<lparr>rr_reader = reader_at pre (tomb_image r @ rest), rr_budget = bud, rr_previous = prev\<rparr>, gone)
    = Inr (\<lparr>rr_reader = reader_at (pre @ tomb_image r) rest, rr_budget = bud\<lparr>b_used := b_used bud + tomb_charge lay (fst r)\<rparr>, rr_previous = Some (fst r)\<rparr>,
       gr_insert lay gone (fst r) (snd r))"
proof -
  obtain k t where r: "r = (k, t)"
    by force
  have t1: "r_text (reader_at pre (tomb_image r @ rest)) (c_name_bytes caps) = Inr (k, reader_at (pre @ enc_text k) (enc_time t @ rest))"
    using textf.rd_enc [of "c_name_bytes caps" k pre "enc_time t @ rest"] assms(1,2,4,5)
    by (auto simp: r tomb_image_def text_ok_def tomb_measured_def)
  have t2: "read_timestamp (reader_at (pre @ enc_text k) (enc_time t @ rest)) = Inr (t, reader_at (pre @ tomb_image r) rest)"
    using timef.rd_enc [of t "pre @ enc_text k" rest] assms(3,5) by (simp add: r tomb_image_def)
  have order: "\<not> (case kr_get keys' k of None \<Rightarrow> False | Some e \<Rightarrow> t \<ge> e_last_modified e)"
    using assms(1) assms(9) [of k] by (cases "kr_get keys k") (auto simp: r tomb_measured_def split: option.splits)
  have "gone_charge lay (length k) = Inr (tomb_charge lay k)"
    using assms(1) by (simp add: r tomb_measured_def)
  then show ?thesis
    using t1 t2 order assms(6-8) by (simp add: decode_gone_def r budget_take_def checked_add64_def)
qed

lemma decode_gones:
  assumes "om_ok rs" "\<And>r. r \<in> set rs \<Longrightarrow> tomb_measured lay (c_name_bytes caps) keys r \<and> utf8_ok (fst r) \<and> time_ok (snd r)" "c_name_bytes caps < 2 ^ 32"
    and "length pre + length (concat (map tomb_image rs)) \<le> u64_max" "\<And>r. r \<in> set rs \<Longrightarrow> name_after prev (fst r)"
    and "b_used bud + sum_list (map (\<lambda>r. tomb_charge lay (fst r)) rs) \<le> b_limit bud" "b_used bud + sum_list (map (\<lambda>r. tomb_charge lay (fst r)) rs) \<le> u64_max"
    and "\<And>q r. q \<in> set (gr_map gone) \<Longrightarrow> r \<in> set rs \<Longrightarrow> fst q < fst r"
    and "\<And>k. map_option e_last_modified (kr_get keys' k) = map_option e_last_modified (kr_get keys k)"
  shows "\<exists>p gone'. timesE (length rs) (decode_gone lay caps keys')
      (\<lparr>rr_reader = reader_at pre (concat (map tomb_image rs) @ rest), rr_budget = bud, rr_previous = prev\<rparr>, gone)
    = Inr (\<lparr>rr_reader = reader_at (pre @ concat (map tomb_image rs)) rest,
            rr_budget = bud\<lparr>b_used := b_used bud + sum_list (map (\<lambda>r. tomb_charge lay (fst r)) rs)\<rparr>, rr_previous = p\<rparr>, gone')
    \<and> gr_map gone' = gr_map gone @ rs"
  using assms(1-8)
proof (induction rs arbitrary: pre prev bud gone)
  case (Cons r rs)
  let ?bud = "bud\<lparr>b_used := b_used bud + tomb_charge lay (fst r)\<rparr>"
  let ?gone = "gr_insert lay gone (fst r) (snd r)"
  have step: "decode_gone lay caps keys' (\<lparr>rr_reader = reader_at pre (tomb_image r @ concat (map tomb_image rs) @ rest), rr_budget = bud, rr_previous = prev\<rparr>, gone)
    = Inr (\<lparr>rr_reader = reader_at (pre @ tomb_image r) (concat (map tomb_image rs) @ rest), rr_budget = ?bud, rr_previous = Some (fst r)\<rparr>, ?gone)"
    using Cons.prems(2) [of r] Cons.prems(3-7) assms(9) by (intro decode_gone_row) auto
  have gt: "fst r < fst q" if "q \<in> set rs" for q
    using Cons.prems(1) that by (cases r) (auto simp: om_ok_Cons)
  have map: "gr_map ?gone = gr_map gone @ [r]"
    using Cons.prems(8) by (simp add: gr_insert_map om_insert_last)
  have "\<exists>p gone'. timesE (length rs) (decode_gone lay caps keys')
      (\<lparr>rr_reader = reader_at (pre @ tomb_image r) (concat (map tomb_image rs) @ rest), rr_budget = ?bud, rr_previous = Some (fst r)\<rparr>, ?gone)
    = Inr (\<lparr>rr_reader = reader_at ((pre @ tomb_image r) @ concat (map tomb_image rs)) rest,
            rr_budget = ?bud\<lparr>b_used := b_used ?bud + sum_list (map (\<lambda>r. tomb_charge lay (fst r)) rs)\<rparr>, rr_previous = p\<rparr>, gone')
    \<and> gr_map gone' = gr_map ?gone @ rs"
  proof (rule Cons.IH)
    show "om_ok rs"
      using Cons.prems(1) by (cases r) (simp add: om_ok_Cons)
    show "fst q < fst q'" if "q \<in> set (gr_map ?gone)" "q' \<in> set rs" for q q'
      using that(2) gt [OF that(2)] Cons.prems(8) [of q q'] that(1) [unfolded map] by auto
  qed (use Cons.prems gt in \<open>auto simp: name_after_def add.assoc\<close>)
  then show ?case
    unfolding map using step by (auto simp: add.assoc)
qed simp

definition decoded_as :: "bucket_state \<Rightarrow> bucket_state \<Rightarrow> bool" where
  "decoded_as b b' \<longleftrightarrow> complete_bucket b' \<and> kr_map (bs_keys b') = skel_rows (kr_map (bs_keys b))
     \<and> gr_map (bs_gone b') = gr_map (bs_gone b)"

lemma count_rows_Inr: "count_rows n m caps = Inr k \<longleftrightarrow> k = n + m \<and> k \<le> c_rows caps \<and> k \<le> u64_max"
  by (auto simp: count_rows_def result_simps not_less split: if_splits)

lemma skel_rows_get: "map_option e_last_modified (map_of (skel_rows rs) k) = map_option e_last_modified (map_of rs k)"
  by (induction rs) (auto simp: skel_rows_def skeletal_def)

lemma decode_bucket_enc:
  assumes "bucket_measured lay caps name b" "bucket_typed pe b" "utf8_ok name" "name_after prev name"
    and "c_name_bytes caps < 2 ^ 32" "n + bucket_len b \<le> c_rows caps" "n + bucket_len b \<le> u64_max" "c_rows caps < 2 ^ 32"
    and "length pre + length (bucket_enc name b) \<le> u64_max"
    and "b_used bud + (name_charge lay name + bucket_rows_charge lay b) \<le> b_limit bud"
    and "b_used bud + (name_charge lay name + bucket_rows_charge lay b) \<le> u64_max"
  shows "\<exists>b' tot. decode_bucket lay pe caps
      \<lparr>ir_rows = \<lparr>rr_reader = reader_at pre (bucket_enc name b @ rest), rr_budget = bud, rr_previous = prev\<rparr>, ir_count = n, ir_state = st\<rparr>
    = Inr \<lparr>ir_rows = \<lparr>rr_reader = reader_at (pre @ bucket_enc name b) rest,
             rr_budget = bud\<lparr>b_used := b_used bud + (name_charge lay name + bucket_rows_charge lay b)\<rparr>, rr_previous = Some name\<rparr>,
           ir_count = n + bucket_len b, ir_state = (bucket_set st name b')\<lparr>ki_stats := tot\<rparr>\<rparr>
    \<and> decoded_as b b'"
proof -
  let ?K = "kr_map (bs_keys b)" and ?G = "gr_map (bs_gone b)"
  let ?kb = "concat (map row_image ?K)" and ?gb = "concat (map tomb_image ?G)"
  let ?kl = "le_bytes 4 (length ?K)" and ?gl = "le_bytes 4 (length ?G)"
  let ?kc = "sum_list (map (row_charge lay) ?K)" and ?gc = "sum_list (map (\<lambda>r. tomb_charge lay (fst r)) ?G)"
  have m: "name \<noteq> []" "length name \<le> c_name_bytes caps" "bucket_charge lay (length name) = Inr (name_charge lay name)"
    "\<And>r. r \<in> set ?K \<Longrightarrow> row_measured lay (c_name_bytes caps) r"
    "\<And>r. r \<in> set ?G \<Longrightarrow> tomb_measured lay (c_name_bytes caps) (bs_keys b) r"
    using assms(1) by (auto simp: bucket_measured_def)
  have t: "om_ok ?K" "om_ok ?G" "\<And>r. r \<in> set ?K \<Longrightarrow> row_typed pe r" "\<And>r. r \<in> set ?G \<Longrightarrow> utf8_ok (fst r) \<and> time_ok (snd r)"
    using assms(2) by (auto simp: bucket_typed_def)
  have len: "length pre + (4 + length name) + 4 + length ?kb + 4 + length ?gb \<le> u64_max"
    using assms(9) by (simp add: bucket_enc_def enc_text_def)
  have lens: "length ?K < 2 ^ 32" "length ?G < 2 ^ 32"
    using assms(6,8) by (simp_all add: bucket_len_def)
  let ?b1 = "bud\<lparr>b_used := b_used bud + name_charge lay name\<rparr>"
  let ?b2 = "?b1\<lparr>b_used := b_used ?b1 + ?kc\<rparr>"
  have total: "b_used bud + name_charge lay name + ?kc + ?gc \<le> b_limit bud" "b_used bud + name_charge lay name + ?kc + ?gc \<le> u64_max"
    using assms(10,11) by (simp_all add: bucket_rows_charge_def add.assoc)
  have r1: "r_text (reader_at pre (bucket_enc name b @ rest)) (c_name_bytes caps)
      = Inr (name, reader_at (pre @ enc_text name) (?kl @ ?kb @ ?gl @ ?gb @ rest))"
    using textf.rd_enc [of "c_name_bytes caps" name pre "?kl @ ?kb @ ?gl @ ?gb @ rest"] m(1,2) assms(3,5) len
    by (simp add: bucket_enc_def text_ok_def enc_text_def)
  have r2: "r_u32 (reader_at (pre @ enc_text name) (?kl @ ?kb @ ?gl @ ?gb @ rest))
      = Inr (length ?K, reader_at (pre @ enc_text name @ ?kl) (?kb @ ?gl @ ?gb @ rest))"
    using u32.rd_enc [OF lens(1), of "pre @ enc_text name" "?kb @ ?gl @ ?gb @ rest"] len by (simp add: enc_text_def)
  obtain p keys' stats' where d1: "timesE (length ?K) (decode_key lay pe caps)
      (\<lparr>rr_reader = reader_at (pre @ enc_text name @ ?kl) (?kb @ ?gl @ ?gb @ rest), rr_budget = ?b1, rr_previous = None\<rparr>, key_rows_default, index_stats_default)
    = Inr (\<lparr>rr_reader = reader_at (pre @ enc_text name @ ?kl @ ?kb) (?gl @ ?gb @ rest), rr_budget = ?b2, rr_previous = p\<rparr>, keys', stats')"
    and keys': "kr_map keys' = skel_rows ?K"
    using decode_keys [of ?K lay caps pe "pre @ enc_text name @ ?kl" None ?b1 key_rows_default "?gl @ ?gb @ rest" index_stats_default]
      t m len total assms(5)
    by (auto simp: name_after_def key_rows_default_def enc_text_def)
  have r3: "r_u32 (reader_at (pre @ enc_text name @ ?kl @ ?kb) (?gl @ ?gb @ rest))
      = Inr (length ?G, reader_at (pre @ enc_text name @ ?kl @ ?kb @ ?gl) (?gb @ rest))"
    using u32.rd_enc [OF lens(2), of "pre @ enc_text name @ ?kl @ ?kb" "?gb @ rest"] len by (simp add: enc_text_def)
  have lm: "map_option e_last_modified (kr_get keys' k) = map_option e_last_modified (kr_get (bs_keys b) k)" for k
    by (simp add: kr_get_def keys' skel_rows_get)
  obtain p' gone' where d2: "timesE (length ?G) (decode_gone lay caps keys')
      (\<lparr>rr_reader = reader_at (pre @ enc_text name @ ?kl @ ?kb @ ?gl) (?gb @ rest), rr_budget = ?b2, rr_previous = None\<rparr>, gone_rows_default)
    = Inr (\<lparr>rr_reader = reader_at (pre @ bucket_enc name b) rest, rr_budget = ?b2\<lparr>b_used := b_used ?b2 + ?gc\<rparr>, rr_previous = p'\<rparr>, gone')"
    and gone': "gr_map gone' = ?G"
    using decode_gones [of ?G lay caps "bs_keys b" "pre @ enc_text name @ ?kl @ ?kb @ ?gl" None ?b2 gone_rows_default keys' rest]
      t m len total assms(5) lm
    by (auto simp: name_after_def gone_rows_default_def enc_text_def bucket_enc_def)
  let ?b' = "bucket_default\<lparr>bs_synced := True, bs_keys := keys', bs_gone := gone', bs_stats := stats'\<rparr>"
  have c: "count_rows n (length ?K) caps = Inr (n + length ?K)" "count_rows (n + length ?K) (length ?G) caps = Inr (n + bucket_len b)"
    "budget_take bud (name_charge lay name) = Inr ?b1"
    using assms(6,7) total by (simp_all add: count_rows_Inr bucket_len_def budget_take_Inr)
  have "decode_bucket lay pe caps
      \<lparr>ir_rows = \<lparr>rr_reader = reader_at pre (bucket_enc name b @ rest), rr_budget = bud, rr_previous = prev\<rparr>, ir_count = n, ir_state = st\<rparr>
    = Inr \<lparr>ir_rows = \<lparr>rr_reader = reader_at (pre @ bucket_enc name b) rest,
             rr_budget = ?b2\<lparr>b_used := b_used ?b2 + ?gc\<rparr>, rr_previous = Some name\<rparr>,
           ir_count = n + bucket_len b, ir_state = (bucket_set st name ?b')\<lparr>ki_stats := stats_replace (ki_stats st) index_stats_default stats'\<rparr>\<rparr>"
    unfolding decode_bucket_def image_reader.simps row_reader.simps r1 bindE_simps prod.case m(3) c(3) r2 c(1) d1 r3 c(2) d2 Let_def
    using assms(4) by simp
  moreover have "?b2\<lparr>b_used := b_used ?b2 + ?gc\<rparr> = bud\<lparr>b_used := b_used bud + (name_charge lay name + bucket_rows_charge lay b)\<rparr>"
    by (simp add: bucket_rows_charge_def add.assoc)
  moreover have "decoded_as b ?b'"
    by (simp add: decoded_as_def complete_bucket_def bucket_default_def keys' gone')
  ultimately show ?thesis
    by (intro exI conjI) simp_all
qed

lemma decode_universe:
  assumes "foldE (measure_bucket lay idx caps) names (prev, budm, enc, n) = Inr (prev', budm', enc', n')"
    and "index_typed pe idx" "c_name_bytes caps < 2 ^ 32" "c_rows caps < 2 ^ 32"
    and "c_name_bytes dcaps = c_name_bytes caps" "c_rows dcaps = c_rows caps"
    and "length pre + length (universe_enc idx names) \<le> u64_max"
    and "b_used bud + universe_charge lay idx names \<le> b_limit bud" "b_used bud + universe_charge lay idx names \<le> u64_max"
  shows "\<exists>st'. timesE (length names) (decode_bucket lay pe dcaps)
      \<lparr>ir_rows = \<lparr>rr_reader = reader_at pre (universe_enc idx names @ rest), rr_budget = bud, rr_previous = prev\<rparr>, ir_count = n, ir_state = st\<rparr>
    = Inr \<lparr>ir_rows = \<lparr>rr_reader = reader_at (pre @ universe_enc idx names) rest,
             rr_budget = bud\<lparr>b_used := b_used bud + universe_charge lay idx names\<rparr>, rr_previous = prev'\<rparr>, ir_count = n', ir_state = st'\<rparr>
    \<and> (\<forall>name. if name \<in> set names then \<exists>b'. bucket_get st' name = Some b' \<and> decoded_as (bucket_entry idx name) b'
         else bucket_get st' name = bucket_get st name)
    \<and> ki_capture st' = ki_capture st \<and> ki_native_cuts st' = ki_native_cuts st"
  using assms
proof (induction names arbitrary: prev budm enc n pre bud st)
  case Nil
  then show ?case
    by (simp add: universe_enc_def universe_charge_def)
next
  case (Cons name names)
  obtain p1 b1 e1 n1 where s: "measure_bucket lay idx caps name (prev, budm, enc, n) = Inr (p1, b1, e1, n1)"
    "foldE (measure_bucket lay idx caps) names (p1, b1, e1, n1) = Inr (prev', budm', enc', n')"
    using Cons.prems(1) by (auto simp: bindE_eq_Inr)
  obtain b where b: "bucket_get idx name = Some b" "bucket_measured lay caps name b" "name_after prev name" "p1 = Some name"
    "n1 = n + bucket_len b" "n1 \<le> c_rows caps" "n1 \<le> u64_max"
    using measure_bucket_Inr [OF s(1)] by blast
  have e: "bucket_entry idx name = b"
    using b(1) by (simp add: bucket_entry_def)
  have typed: "utf8_ok name" "bucket_typed pe b"
    using Cons.prems(2) b(1) by (auto simp: index_typed_def)
  have dm: "bucket_measured lay dcaps name b"
    using b(2) Cons.prems(5) by (simp add: bucket_measured_def)
  have split: "universe_enc idx (name # names) = bucket_enc name b @ universe_enc idx names"
    "universe_charge lay idx (name # names) = name_charge lay name + bucket_rows_charge lay b + universe_charge lay idx names"
    by (simp_all add: universe_enc_def universe_charge_def e)
  let ?bud = "bud\<lparr>b_used := b_used bud + (name_charge lay name + bucket_rows_charge lay b)\<rparr>"
  obtain b' tot where step: "decode_bucket lay pe dcaps
      \<lparr>ir_rows = \<lparr>rr_reader = reader_at pre (bucket_enc name b @ universe_enc idx names @ rest), rr_budget = bud, rr_previous = prev\<rparr>, ir_count = n, ir_state = st\<rparr>
    = Inr \<lparr>ir_rows = \<lparr>rr_reader = reader_at (pre @ bucket_enc name b) (universe_enc idx names @ rest), rr_budget = ?bud, rr_previous = Some name\<rparr>,
           ir_count = n1, ir_state = (bucket_set st name b')\<lparr>ki_stats := tot\<rparr>\<rparr>" and dec: "decoded_as b b'"
    using decode_bucket_enc [OF dm typed(2,1) b(3), of n pre bud "universe_enc idx names @ rest" st] Cons.prems(3-9) b(5-7)
    by (auto simp: split)
  let ?st = "(bucket_set st name b')\<lparr>ki_stats := tot\<rparr>"
  obtain st' where st': "timesE (length names) (decode_bucket lay pe dcaps)
      \<lparr>ir_rows = \<lparr>rr_reader = reader_at (pre @ bucket_enc name b) (universe_enc idx names @ rest), rr_budget = ?bud, rr_previous = Some name\<rparr>, ir_count = n1, ir_state = ?st\<rparr>
    = Inr \<lparr>ir_rows = \<lparr>rr_reader = reader_at ((pre @ bucket_enc name b) @ universe_enc idx names) rest,
             rr_budget = ?bud\<lparr>b_used := b_used ?bud + universe_charge lay idx names\<rparr>, rr_previous = prev'\<rparr>, ir_count = n', ir_state = st'\<rparr>"
    "\<forall>nm. if nm \<in> set names then \<exists>b'. bucket_get st' nm = Some b' \<and> decoded_as (bucket_entry idx nm) b'
         else bucket_get st' nm = bucket_get ?st nm"
    "ki_capture st' = ki_capture ?st" "ki_native_cuts st' = ki_native_cuts ?st"
    using Cons.IH [OF s(2) [unfolded b(4)] Cons.prems(2-6), of "pre @ bucket_enc name b" ?bud ?st] Cons.prems(7-9)
    by (auto simp: split)
  have get: "bucket_get ?st nm = (if nm = name then Some b' else bucket_get st nm)" for nm
    by (simp add: bucket_get_def bucket_set_def)
  have "if nm \<in> set (name # names) then \<exists>b'. bucket_get st' nm = Some b' \<and> decoded_as (bucket_entry idx nm) b'
         else bucket_get st' nm = bucket_get st nm" for nm
    using spec [OF st'(2), of nm] get [of nm] dec e by (auto split: if_splits)
  moreover have "timesE (length (name # names)) (decode_bucket lay pe dcaps)
      \<lparr>ir_rows = \<lparr>rr_reader = reader_at pre (universe_enc idx (name # names) @ rest), rr_budget = bud, rr_previous = prev\<rparr>, ir_count = n, ir_state = st\<rparr>
    = Inr \<lparr>ir_rows = \<lparr>rr_reader = reader_at (pre @ universe_enc idx (name # names)) rest,
             rr_budget = bud\<lparr>b_used := b_used bud + universe_charge lay idx (name # names)\<rparr>, rr_previous = prev'\<rparr>, ir_count = n', ir_state = st'\<rparr>"
    using step st'(1) by (simp add: split add.assoc)
  ultimately show ?case
    using st'(3,4) by (intro exI [of _ st'] conjI) (simp_all add: bucket_set_def)
qed

text \<open>The caps a follower decodes under: the offered reservation, exactly the image's two sizes.\<close>

definition reserved_caps :: "image_caps \<Rightarrow> nat \<Rightarrow> nat \<Rightarrow> image_caps" where
  "reserved_caps caps enc dec = caps\<lparr>c_bytes := enc, c_decoded_bytes := dec\<rparr>"

lemma image_roundtrip_core:
  assumes "measure_image lay idx universe caps = Inr sz" "index_typed pe idx"
  shows "\<exists>bs st'. encode_image idx universe caps sz = Inr bs \<and> length bs = encoded_bytes sz
    \<and> decode_image lay pe bs (reserved_caps caps (encoded_bytes sz) (decoded_bytes sz)) = Inr st'
    \<and> (\<forall>name. if name \<in> set universe then \<exists>b'. bucket_get st' name = Some b' \<and> decoded_as (bucket_entry idx name) b'
         else bucket_get st' name = None)"
proof -
  obtain charge p bud enc n where m: "caps_validate caps = Inr caps" "length universe \<le> c_buckets caps"
    "state_charge lay (length universe) = Inr charge" "charge \<le> u64_max" "charge \<le> c_decoded_bytes caps"
    "foldE (measure_bucket lay idx caps) universe (None, \<lparr>b_used = charge, b_limit = c_decoded_bytes caps\<rparr>, HEADER_BYTES, 0) = Inr (p, bud, enc, n)"
    "enc \<le> c_bytes caps" "sz = \<lparr>encoded_bytes = enc, decoded_bytes = b_used bud, rows = n\<rparr>"
    using assms(1) unfolding measure_image_def image_loop_Inr by blast
  have caps: "c_bytes caps \<le> 256 * 2 ^ 20" "c_decoded_bytes caps \<le> 2 ^ 30" "c_buckets caps \<le> 4096" "c_rows caps \<le> 2000000" "c_name_bytes caps \<le> 16384"
    using m(1) by (auto simp: caps_validate_def split: if_splits)
  have "advances 0 0 (\<lparr>b_used = charge, b_limit = c_decoded_bytes caps\<rparr>, HEADER_BYTES) (\<lparr>b_used = charge, b_limit = c_decoded_bytes caps\<rparr>, HEADER_BYTES)"
    using m(4,5) by (simp add: advances_def HEADER_BYTES_def u64_max_def)
  then have adv: "advances (universe_charge lay idx universe) (length (universe_enc idx universe))
      (\<lparr>b_used = charge, b_limit = c_decoded_bytes caps\<rparr>, HEADER_BYTES) (bud, enc)"
    using measure_universe [OF m(6)] by blast
  then have used: "b_used bud = charge + universe_charge lay idx universe" "b_used bud \<le> c_decoded_bytes caps" "enc = 5 + length (universe_enc idx universe)"
    by (simp_all add: advances_def HEADER_BYTES_def)
  note en = encode_image_total [OF assms]
  let ?bs = "image_bytes idx universe" and ?dc = "reserved_caps caps enc (b_used bud)"
  let ?u = "universe_enc idx universe" and ?h = "enc_u8 IMAGE_VERSION @ le_bytes 4 (length universe)"
  have len: "length ?bs = enc"
    using en(2) m(8) by simp
  have max: "enc \<le> u64_max"
    using m(7) caps(1) by (simp add: u64_max_def)
  have pos: "0 < b_used bud"
  proof -
    have "0 < charge"
      using m(3) by (auto simp: state_charge_def bucket_slots_def result_simps bind_eq_Some_conv sumE_Inr)
    then show ?thesis
      using used(1) by simp
  qed
  have val: "caps_validate ?dc = Inr ?dc"
    using m(1) used(2,3) m(7) pos by (auto simp: caps_validate_def reserved_caps_def split: if_splits)
  have start: "\<lparr>r_bytes = ?bs, r_offset = 0\<rparr> = reader_at [] (enc_u8 IMAGE_VERSION @ le_bytes 4 (length universe) @ ?u @ [])"
    by (simp add: reader_at_def image_bytes_def)
  have r1: "r_u8 \<lparr>r_bytes = ?bs, r_offset = 0\<rparr> = Inr (IMAGE_VERSION, reader_at (enc_u8 IMAGE_VERSION) (le_bytes 4 (length universe) @ ?u @ []))"
    unfolding start using u8.rd_enc [of IMAGE_VERSION "[]" "le_bytes 4 (length universe) @ ?u @ []"] max used(3)
    by (simp add: IMAGE_VERSION_def enc_u8_def u64_max_def)
  have r2: "r_u32 (reader_at (enc_u8 IMAGE_VERSION) (le_bytes 4 (length universe) @ ?u @ [])) = Inr (length universe, reader_at ?h (?u @ []))"
    using u32.rd_enc [of "length universe" "enc_u8 IMAGE_VERSION" "?u @ []"] m(2) caps(3) max used(3) by (simp add: enc_u8_def u64_max_def)
  obtain st' where st': "timesE (length universe) (decode_bucket lay pe ?dc)
      \<lparr>ir_rows = \<lparr>rr_reader = reader_at ?h (?u @ []), rr_budget = \<lparr>b_used = charge, b_limit = b_used bud\<rparr>, rr_previous = None\<rparr>, ir_count = 0, ir_state = key_index_default\<rparr>
    = Inr \<lparr>ir_rows = \<lparr>rr_reader = reader_at (?h @ ?u) [], rr_budget = \<lparr>b_used = b_used bud, b_limit = b_used bud\<rparr>, rr_previous = p\<rparr>, ir_count = n, ir_state = st'\<rparr>"
    "\<forall>name. if name \<in> set universe then \<exists>b'. bucket_get st' name = Some b' \<and> decoded_as (bucket_entry idx name) b'
         else bucket_get st' name = bucket_get key_index_default name"
    using decode_universe [OF m(6) assms(2), of ?dc ?h "\<lparr>b_used = charge, b_limit = b_used bud\<rparr>" "[]" key_index_default]
      caps used max m(5) by (auto simp: reserved_caps_def enc_u8_def u64_max_def)
  have "decode_image lay pe ?bs ?dc = Inr st'"
  proof -
    have "budget_new (c_decoded_bytes ?dc) = Inr \<lparr>b_used = 0, b_limit = b_used bud\<rparr>"
      using pos by (simp add: budget_new_def reserved_caps_def)
    moreover have "budget_take \<lparr>b_used = 0, b_limit = b_used bud\<rparr> charge = Inr \<lparr>b_used = charge, b_limit = b_used bud\<rparr>"
      using used(1) m(4) by (simp add: budget_take_Inr)
    moreover have "?bs \<noteq> []" "length ?bs \<le> c_bytes ?dc" "\<not> length universe > c_buckets ?dc"
      using len used(3) m(2) by (auto simp: reserved_caps_def)
    moreover have "r_offset (reader_at (?h @ ?u) []) = length ?bs"
      by (simp add: reader_at_def image_bytes_def)
    ultimately show ?thesis
      unfolding decode_image_def val bindE_simps r1 prod.case r2 m(3) using st'(1) by simp
  qed
  moreover have "bucket_get key_index_default name = None" for name
    by (simp add: bucket_get_def key_index_default_def)
  ultimately show ?thesis
    using en st'(2) m(8) by auto
qed

text \<open>C35: An image survives the transfer. If a donor's index measures to a size, then encoding it
  succeeds with exactly that many bytes, and a follower that decodes those bytes under a
  reservation of exactly the measured sizes succeeds and holds, for exactly the universe's buckets,
  the same tombstones and the same live rows with size, time, ETag and storage class (content type
  and user metadata are not transferred).\<close>

theorem image_roundtrip:
  assumes "measure_image lay idx universe caps = Inr sz" "index_typed pe idx"
  shows "\<exists>bs st'. encode_image idx universe caps sz = Inr bs \<and> length bs = encoded_bytes sz
    \<and> decode_image lay pe bs (reserved_caps caps (encoded_bytes sz) (decoded_bytes sz)) = Inr st'
    \<and> (\<forall>name. if name \<in> set universe then \<exists>b'. bucket_get st' name = Some b' \<and> decoded_as (bucket_entry idx name) b'
         else bucket_get st' name = None)"
  using image_roundtrip_core [OF assms] .

section \<open>Decoding arbitrary bytes\<close>

lemma timesE_counted:
  assumes "timesE n f s = Inr s'" "I 0 s" "\<And>i s s'. I i s \<Longrightarrow> f s = Inr s' \<Longrightarrow> I (Suc i) s'"
  shows "I n s'"
proof -
  have "I (i + n) s'" if "timesE n f s = Inr s'" "I i s" for i s
    using that assms(3) by (induction n arbitrary: i s) (fastforce simp: bindE_eq_Inr)+
  from this [of s 0] show ?thesis
    using assms(1,2) by simp
qed

lemma decode_key_ok:
  assumes "timesE n (decode_key lay pe caps) (s, key_rows_default, stats0) = Inr (s', keys, stats)"
  shows "kr_ok lay keys \<and> length (kr_map keys) \<le> n"
proof -
  have "case (s', keys, stats) of (s', keys, stats) \<Rightarrow> kr_ok lay keys \<and> length (kr_map keys) \<le> n"
  proof (rule timesE_counted [OF assms])
    show "case (s, key_rows_default, stats0) of (s', keys, stats) \<Rightarrow> kr_ok lay keys \<and> length (kr_map keys) \<le> 0"
      by (simp add: kr_ok_default) (simp add: key_rows_default_def)
  next
    fix i and x y :: "row_reader \<times> key_rows \<times> index_stats"
    assume x: "case x of (s', keys, stats) \<Rightarrow> kr_ok lay keys \<and> length (kr_map keys) \<le> i" and step: "decode_key lay pe caps x = Inr y"
    obtain k e where y: "fst (snd y) = fst (kr_insert lay (fst (snd x)) k e)"
      using step by (auto simp: decode_key_def result_simps split: if_splits prod.splits)
    have "kr_ok lay (fst (snd x))" "length (kr_map (fst (snd x))) \<le> i" "om_ok (kr_map (fst (snd x)))"
      using x by (auto simp: case_prod_beta kr_ok_def)
    then have "kr_ok lay (fst (snd y))" "length (kr_map (fst (snd y))) \<le> Suc i"
      unfolding y kr_insert_map by (auto simp: om_length_insert split: option.splits)
    then show "case y of (s', keys, stats) \<Rightarrow> kr_ok lay keys \<and> length (kr_map keys) \<le> Suc i"
      by (simp add: case_prod_beta)
  qed
  then show ?thesis
    by simp
qed

lemma decode_gone_ok:
  assumes "timesE n (decode_gone lay caps keys) (s, gone_rows_default) = Inr (s', gone)"
  shows "gr_ok lay gone \<and> length (gr_map gone) \<le> n
    \<and> (\<forall>k e t. kr_get keys k = Some e \<longrightarrow> gr_get gone k = Some t \<longrightarrow> t < e_last_modified e)"
  (is "?P n gone")
proof -
  have "case (s', gone) of (s', gone) \<Rightarrow> ?P n gone"
  proof (rule timesE_counted [OF assms])
    show "case (s, gone_rows_default) of (s', gone) \<Rightarrow> ?P 0 gone"
      by (simp add: gr_ok_default) (simp add: gone_rows_default_def gr_get_def)
  next
    fix i and x y :: "row_reader \<times> gone_rows"
    assume x: "case x of (s', gone) \<Rightarrow> ?P i gone" and step: "decode_gone lay caps keys x = Inr y"
    obtain k t where y: "snd y = gr_insert lay (snd x) k t" "\<not> (case kr_get keys k of None \<Rightarrow> False | Some e \<Rightarrow> t \<ge> e_last_modified e)"
      using step by (auto simp: decode_gone_def result_simps split: if_splits prod.splits)
    have "?P i (snd x)"
      using x by (simp add: case_prod_beta)
    moreover from this have "om_ok (gr_map (snd x))"
      by (simp add: gr_ok_def gr_tally_ok_def)
    ultimately have "?P (Suc i) (snd y)"
      using y by (auto simp: gr_ok_insert gr_insert_map om_length_insert split: option.splits if_splits)
    then show "case y of (s', gone) \<Rightarrow> ?P (Suc i) gone"
      by (simp add: case_prod_beta)
  qed
  then show ?thesis
    by simp
qed

lemma sum_om_insert: "sum_list (map (f \<circ> snd) (om_insert k v m)) \<le> sum_list (map (f \<circ> snd) m) + (f v :: nat)"
  by (induction m) auto

definition image_ok :: "layout \<Rightarrow> image_reader \<Rightarrow> bool" where
  "image_ok lay s \<longleftrightarrow> om_ok (ki_buckets (ir_state s)) \<and> ki_native_cuts (ir_state s) = [] \<and> ki_capture (ir_state s) = None
     \<and> (\<forall>(n, b) \<in> set (ki_buckets (ir_state s)). bucket_ok lay b \<and> complete_bucket b)
     \<and> sum_list (map (bucket_len \<circ> snd) (ki_buckets (ir_state s))) \<le> ir_count s"

lemma decode_bucket_ok:
  assumes "image_ok lay s \<and> ir_count s \<le> c_rows caps" "decode_bucket lay pe caps s = Inr s'"
  shows "image_ok lay s' \<and> ir_count s' \<le> c_rows caps"
proof -
  obtain name rr key_count gone_count rr1 rr2 rr3 rr4 keys stats gone n1 n2 where d:
    "count_rows (ir_count s) key_count caps = Inr n1"
    "timesE key_count (decode_key lay pe caps) (rr1, key_rows_default, index_stats_default) = Inr (rr2, keys, stats)"
    "count_rows n1 gone_count caps = Inr n2"
    "timesE gone_count (decode_gone lay caps keys) (rr3, gone_rows_default) = Inr (rr4, gone)"
    and s': "s' = \<lparr>ir_rows = rr, ir_count = n2, ir_state =
        (bucket_set (ir_state s) name (bucket_default\<lparr>bs_synced := True, bs_keys := keys, bs_gone := gone, bs_stats := stats\<rparr>))
          \<lparr>ki_stats := stats_replace (ki_stats (ir_state s)) index_stats_default stats\<rparr>\<rparr>"
    using assms(2) unfolding decode_bucket_def Let_def
    by (auto simp: result_simps split: if_splits prod.splits)
  let ?b = "bucket_default\<lparr>bs_synced := True, bs_keys := keys, bs_gone := gone, bs_stats := stats\<rparr>"
  note k = decode_key_ok [OF d(2)] and g = decode_gone_ok [OF d(4)]
  have b: "bucket_ok lay ?b" "complete_bucket ?b"
    using k g by (auto simp: bucket_ok_def rows_ok_def row_order_def fences_ok_def rebuild_ok_def complete_bucket_def
        bucket_default_def u64_max_def)
  have n: "n2 = ir_count s + key_count + gone_count" "n2 \<le> c_rows caps"
    using d(1,3) by (auto simp: count_rows_Inr)
  have "bucket_len ?b \<le> key_count + gone_count"
    using k g by (simp add: bucket_len_def)
  then have "sum_list (map (bucket_len \<circ> snd) (om_insert name ?b (ki_buckets (ir_state s)))) \<le> n2"
    using sum_om_insert [of bucket_len name ?b "ki_buckets (ir_state s)"] assms(1) n by (simp add: image_ok_def)
  moreover have "bucket_ok lay b' \<and> complete_bucket b'" if "(nm, b') \<in> set (om_insert name ?b (ki_buckets (ir_state s)))" for nm b'
    using om_set_insertD [OF that] b assms(1) by (auto simp: image_ok_def)
  ultimately show ?thesis
    using assms(1) n by (auto simp: s' image_ok_def bucket_set_def)
qed

lemma decode_wellformed_core:
  assumes "decode_image lay pe bs caps = Inr st"
  shows "index_ok lay st \<and> (\<forall>(n, b) \<in> set (ki_buckets st). complete_bucket b)
    \<and> sum_list (map (bucket_len \<circ> snd) (ki_buckets st)) \<le> c_rows caps \<and> ki_native_cuts st = [] \<and> ki_capture st = None"
proof -
  obtain s0 s buckets where d: "timesE buckets (decode_bucket lay pe caps) s0 = Inr s" "st = ir_state s"
    "ir_count s0 = 0" "ir_state s0 = key_index_default"
  proof -
    have "caps_validate caps = Inr c \<Longrightarrow> c = caps" for c
      using caps_validate_Inr by blast
    then show thesis
      using assms that unfolding decode_image_def
      by (fastforce simp: result_simps split: if_splits prod.splits)
  qed
  have "image_ok lay s0 \<and> ir_count s0 \<le> c_rows caps"
    using d by (simp add: image_ok_def key_index_default_def)
  then have "image_ok lay s \<and> ir_count s \<le> c_rows caps"
    by (rule timesE_invariant [OF d(1)]) (rule decode_bucket_ok)
  then show ?thesis
    by (auto simp: d(2) image_ok_def index_ok_def)
qed

text \<open>Whatever bytes a peer sends, decoding is safe: if it succeeds, the result is a well-formed
  index (sorted rows, exact tallies, every tombstone older than its live row), each of its buckets
  is complete with no fence and no rebuild, it holds at most as many rows as the ceiling, and it
  claims no native position and no capture of its own.\<close>

theorem decode_yields_wellformed:
  assumes "decode_image lay pe bs caps = Inr st"
  shows "index_ok lay st \<and> (\<forall>(n, b) \<in> set (ki_buckets st). complete_bucket b)
    \<and> sum_list (map (bucket_len \<circ> snd) (ki_buckets st)) \<le> c_rows caps \<and> ki_native_cuts st = [] \<and> ki_capture st = None"
  by (rule decode_wellformed_core [OF assms])

section \<open>Instances\<close>

definition layout_example :: layout where
  "layout_example = \<lparr>sz_string = 24, sz_entry_slot = 136, sz_gone_slot = 40, sz_bucket_slot = 256, sz_state = 128,
     sz_etag = 32, sz_class = 24\<rparr>"

definition image_caps_example :: image_caps where
  "image_caps_example = \<lparr>c_bytes = 1000, c_decoded_bytes = 100000, c_buckets = 10, c_rows = 100, c_name_bytes = 1024\<rparr>"

definition image_entry_example :: obj_entry where
  "image_entry_example = \<lparr>e_size = Some 3, e_last_modified = 7, e_etag = Some (Strong ''x''), e_storage_class = standard_class,
     e_content_type = Some ''t'', e_meta = None\<rparr>"

definition image_bucket_example :: bucket_state where
  "image_bucket_example = bucket_default\<lparr>bs_synced := True,
     bs_keys := fst (kr_insert layout_example key_rows_default ''k'' image_entry_example),
     bs_gone := gr_insert layout_example gone_rows_default ''k'' 5\<rparr>"

definition image_example :: key_index_state where
  "image_example = bucket_set key_index_default ''b'' image_bucket_example"

definition parse_example :: "string \<Rightarrow> etag option" where
  "parse_example s = (if s = [CHR 0x22, CHR ''x'', CHR 0x22] then Some (Strong ''x'') else None)"

lemma image_example_get: "bucket_get image_example name = (if name = ''b'' then Some image_bucket_example else None)"
  by (simp add: image_example_def bucket_get_def bucket_set_def key_index_default_def)

lemma image_example_maps:
  "kr_map (bs_keys image_bucket_example) = [(''k'', image_entry_example)]"
  "gr_map (bs_gone image_bucket_example) = [(''k'', 5)]"
  by (simp_all add: image_bucket_example_def kr_insert_map gr_insert_map key_rows_default_def gone_rows_default_def)

lemma measure_example:
  "\<exists>sz. measure_image layout_example image_example [''b''] image_caps_example = Inr sz"
proof -
  have b: "image_bucket image_example ''b'' None image_caps_example = Inr image_bucket_example"
    by (simp add: image_bucket_Inr image_caps_example_def name_after_def image_example_get complete_bucket_def)
      (simp add: image_bucket_example_def bucket_default_def)
  have caps: "c_bytes image_caps_example = 1000" "c_decoded_bytes image_caps_example = 100000" "c_buckets image_caps_example = 10"
    "c_rows image_caps_example = 100" "c_name_bytes image_caps_example = 1024"
    by (simp_all add: image_caps_example_def)
  have len: "length (ki_buckets image_example) = 1"
    by (simp add: image_example_def bucket_set_def key_index_default_def)
  show ?thesis
    by (simp add: caps len measure_image_def image_loop_def measure_bucket_def b image_example_maps measure_row_def measure_gone_def
        caps_validate_def layout_example_def budget_new_def budget_take_def state_charge_def
        bucket_slots_def bucket_charge_def entry_charge_def gone_charge_def map_entry_charge_def sumE_def checked_add64_def
        checked_mul64_def u64_max_def bucket_bytes_def text_bytes_def add_rows_def kr_len_def gr_len_def entry_bytes_def
        gone_bytes_def TIMESTAMP_BYTES_def HEADER_BYTES_def etag_text_len_def image_entry_example_def standard_class_def
        kr_get_def)
qed

lemma image_example_strings: "utf8_ok ''b''" "utf8_ok ''k''" "utf8_ok standard_class" "utf8_ok [CHR 0x22, CHR ''x'', CHR 0x22]"
  by code_simp+

lemma image_example_typed: "index_typed parse_example image_example"
  using image_example_strings
  by (auto simp: index_typed_def image_example_get bucket_typed_def image_example_maps om_ok_def row_typed_def
      image_entry_example_def etag_text_def parse_example_def time_ok_def nanos_per_sec_def split: if_splits)

lemma image_example_ok: "index_ok layout_example image_example"
proof -
  have "kr_get (bs_keys image_bucket_example) k = (if k = ''k'' then Some image_entry_example else None)"
    "gr_get (bs_gone image_bucket_example) k = (if k = ''k'' then Some 5 else None)" for k
    by (simp_all add: kr_get_def gr_get_def image_example_maps)
  then have "row_order image_bucket_example"
    by (simp add: row_order_def image_entry_example_def)
  moreover have "kr_ok layout_example (bs_keys image_bucket_example)" "gr_ok layout_example (bs_gone image_bucket_example)"
    by (simp_all add: image_bucket_example_def kr_ok_insert gr_ok_insert)
  moreover have "fences_ok image_bucket_example" "rebuild_ok image_bucket_example"
    by (simp_all add: image_bucket_example_def fences_ok_def rebuild_ok_def bucket_default_def u64_max_def)
  ultimately have "bucket_ok layout_example image_bucket_example"
    by (simp add: bucket_ok_def rows_ok_def)
  then show ?thesis
    by (simp add: index_ok_def image_example_def bucket_set_def key_index_default_def om_ok_def)
qed

lemma tallied_size_exact_witness:
  "\<exists>sz. measure_image layout_example image_example [''b''] image_caps_example = Inr sz
     \<and> tallied_size layout_example image_example [''b''] image_caps_example = Inr sz"
proof -
  obtain sz where "measure_image layout_example image_example [''b''] image_caps_example = Inr sz"
    using measure_example by blast
  then show ?thesis
    using tallied_size_exact [OF image_example_ok] by blast
qed

lemma image_roundtrip_witness:
  "\<exists>sz bs st'. encode_image image_example [''b''] image_caps_example sz = Inr bs
     \<and> decode_image layout_example parse_example bs (reserved_caps image_caps_example (encoded_bytes sz) (decoded_bytes sz)) = Inr st'
     \<and> live st' ''b'' ''k'' = Some (skeletal image_entry_example)"
proof -
  obtain sz where "measure_image layout_example image_example [''b''] image_caps_example = Inr sz"
    using measure_example by blast
  then obtain bs st' where r: "encode_image image_example [''b''] image_caps_example sz = Inr bs"
    "decode_image layout_example parse_example bs (reserved_caps image_caps_example (encoded_bytes sz) (decoded_bytes sz)) = Inr st'"
    "\<exists>b'. bucket_get st' ''b'' = Some b' \<and> decoded_as (bucket_entry image_example ''b'') b'"
    using image_roundtrip [OF _ image_example_typed] by (metis list.set_intros(1))
  then have "live st' ''b'' ''k'' = Some (skeletal image_entry_example)"
    by (auto simp: live_def bucket_entry_def image_example_get decoded_as_def kr_get_def image_example_maps skel_rows_def)
  then show ?thesis
    using r by blast
qed

lemma decode_yields_wellformed_witness:
  "\<exists>bs caps st. decode_image layout_example parse_example bs caps = Inr st \<and> index_ok layout_example st
     \<and> bucket_get st ''b'' \<noteq> None"
proof -
  obtain sz where "measure_image layout_example image_example [''b''] image_caps_example = Inr sz"
    using measure_example by blast
  then obtain bs caps st where "decode_image layout_example parse_example bs caps = Inr st" "\<exists>b'. bucket_get st ''b'' = Some b'"
    using image_roundtrip_core [OF _ image_example_typed] by (metis list.set_intros(1))
  then show ?thesis
    using decode_yields_wellformed by blast
qed

end
