(* ===== verification/Install.thy ===== *)
theory Install
  imports Image
begin

text \<open>
  The follower's guarded swap of a verified private stage into the live index
  (\<^verbatim>\<open>src/src/index/fleet/install.rs\<close>). \<open>align\<close> is the cut comparison of the transport library: it
  takes the live positions and the barrier's and gives a verdict with the writer that decided it.
  The live buckets are visited in name order; the code visits a hash map, so only which of several
  refusals is reported first, and the order of independent carried effects, depend on that choice.
\<close>

section \<open>Refusals\<close>

datatype row_field = FETag | FSize | FStorageClass | FLastModified

datatype clause = UniverseMismatch | LiveRebuilding | CutConflict | CandidateUnsynced | RowLimit
  | RowMismatch row_field | TombstoneMismatch | Unavailable

record cut_pair =
  cp_writer :: bytes
  cp_live :: "(nat \<times> nat) option"
  cp_barrier :: "(nat \<times> nat) option"

record incompatibility =
  in_clause :: clause
  in_bucket :: "string option"
  in_key :: "string option"
  in_cut :: "cut_pair option"

datatype install_refusal = PendingCuts "cut_pair option" | Incompatible incompatibility

definition refuse_at :: "clause \<Rightarrow> string \<Rightarrow> string \<Rightarrow> install_refusal" where
  "refuse_at cl bucket key = Incompatible \<lparr>in_clause = cl, in_bucket = Some bucket, in_key = Some key, in_cut = None\<rparr>"

definition refuse_in_bucket :: "clause \<Rightarrow> string \<Rightarrow> install_refusal" where
  "refuse_in_bucket cl bucket = Incompatible \<lparr>in_clause = cl, in_bucket = Some bucket, in_key = None, in_cut = None\<rparr>"

definition refuse_whole :: "clause \<Rightarrow> install_refusal" where
  "refuse_whole cl = Incompatible \<lparr>in_clause = cl, in_bucket = None, in_key = None, in_cut = None\<rparr>"

definition refuse_at_writer :: "clause \<Rightarrow> cut_pair option \<Rightarrow> install_refusal" where
  "refuse_at_writer cl c = Incompatible \<lparr>in_clause = cl, in_bucket = None, in_key = None, in_cut = c\<rparr>"

datatype cut_alignment = ExactCuts | PendingAlignment | ConflictingCuts

type_synonym cut_aligner =
  "(bytes, nat \<times> nat) omap \<Rightarrow> native_cut list \<Rightarrow> cut_alignment \<times> cut_pair option"

section \<open>Ordering versions\<close>

definition whole_seconds :: "systime \<Rightarrow> int" where
  "whole_seconds t = (if t < 0 then 0 else t div nanos_per_sec)"

definition version_difference :: "obj_entry \<Rightarrow> obj_entry \<Rightarrow> row_field option" where
  "version_difference lv peer =
     (if e_etag peer \<noteq> e_etag lv then Some FETag
      else if e_size peer \<noteq> e_size lv then Some FSize
      else if e_storage_class peer \<noteq> e_storage_class lv then Some FStorageClass
      else if e_etag lv = None \<and> e_last_modified peer \<noteq> e_last_modified lv then Some FLastModified
      else None)"

definition row_carried :: "obj_entry \<Rightarrow> obj_entry option \<Rightarrow> systime option \<Rightarrow> clause + bool" where
  "row_carried row peer peer_deleted =
     (case map_option (version_difference row) peer of
        Some None \<Rightarrow> Inr False
      | differs \<Rightarrow>
          let second = whole_seconds (e_last_modified row) in
          if (case peer_deleted of None \<Rightarrow> False | Some at \<Rightarrow> whole_seconds at > second)
             \<or> (case peer of None \<Rightarrow> False | Some p \<Rightarrow> whole_seconds (e_last_modified p) > second)
          then Inr False
          else if (case peer_deleted of None \<Rightarrow> False | Some at \<Rightarrow> e_last_modified row \<le> at)
          then Inl TombstoneMismatch
          else case (peer, differs) of
              (Some p, Some (Some field)) \<Rightarrow>
                if whole_seconds (e_last_modified p) = second then Inl (RowMismatch field) else Inr True
            | _ \<Rightarrow> Inr True)"

definition tombstone_carried :: "systime \<Rightarrow> obj_entry option \<Rightarrow> systime option \<Rightarrow> clause + bool" where
  "tombstone_carried deleted_at peer peer_deleted =
     (if (case peer_deleted of None \<Rightarrow> False | Some at \<Rightarrow> at \<ge> deleted_at) then Inr False
      else case peer of
          None \<Rightarrow> Inr True
        | Some p \<Rightarrow>
            if e_last_modified p > deleted_at then Inr False
            else if whole_seconds (e_last_modified p) = whole_seconds deleted_at then Inl TombstoneMismatch
            else Inr True)"

section \<open>Coverage\<close>

datatype carried = CRow obj_entry | CDelete systime

type_synonym carry = "(string \<times> string \<times> carried) list"

definition carry_row :: "string \<Rightarrow> bucket_state \<Rightarrow> string \<times> obj_entry \<Rightarrow> carry \<Rightarrow> install_refusal + carry" where
  "carry_row name incoming row c = (case row of (key, e) \<Rightarrow>
     case row_carried e (kr_get (bs_keys incoming) key) (gr_get (bs_gone incoming) key) of
       Inl cl \<Rightarrow> Inl (refuse_at cl name key)
     | Inr carry_it \<Rightarrow> Inr (if carry_it then c @ [(name, key, CRow e)] else c))"

definition carry_tombstone :: "string \<Rightarrow> bucket_state \<Rightarrow> string \<times> systime \<Rightarrow> carry \<Rightarrow> install_refusal + carry" where
  "carry_tombstone name incoming row c = (case row of (key, deleted_at) \<Rightarrow>
     case tombstone_carried deleted_at (kr_get (bs_keys incoming) key) (gr_get (bs_gone incoming) key) of
       Inl cl \<Rightarrow> Inl (refuse_at cl name key)
     | Inr carry_it \<Rightarrow> Inr (if carry_it then c @ [(name, key, CDelete deleted_at)] else c))"

definition carry_bucket ::
  "key_index_state \<Rightarrow> nat \<Rightarrow> string \<times> bucket_state \<Rightarrow> nat \<times> carry \<Rightarrow> install_refusal + nat \<times> carry" where
  "carry_bucket candidate max_rows nb acc = (case (nb, acc) of ((name, b), (n, c)) \<Rightarrow>
     bindE (ok_or (refuse_in_bucket UniverseMismatch name) (bucket_get candidate name)) (\<lambda>incoming.
     bindE (ok_or (refuse_in_bucket RowLimit name)
         (Option.bind (Option.bind (checked_add64 n (kr_len (bs_keys b))) (\<lambda>m. checked_add64 m (gr_len (bs_gone b))))
            (\<lambda>m. if m \<le> max_rows then Some m else None))) (\<lambda>n.
     bindE (foldE (carry_row name incoming) (kr_map (bs_keys b)) c) (\<lambda>c.
     bindE (foldE (carry_tombstone name incoming) (gr_map (bs_gone b)) c) (\<lambda>c. Inr (n, c))))))"

definition check_candidate ::
  "cut_aligner \<Rightarrow> key_index_state \<Rightarrow> key_index_state \<Rightarrow> native_cut list \<Rightarrow> string list \<Rightarrow> nat
   \<Rightarrow> install_refusal + carry" where
  "check_candidate align lv candidate cuts universe max_rows =
     (if universe = [] \<or> \<not> sorted_wrt (<) universe \<or> length (ki_buckets candidate) \<noteq> length universe
      then Inl (refuse_whole UniverseMismatch)
      else
        bindE (foldE (\<lambda>(name, b) (_ :: unit).
            if name \<notin> set universe then Inl (refuse_in_bucket UniverseMismatch name)
            else if bs_rebuild_generation b \<noteq> None then Inl (refuse_in_bucket LiveRebuilding name)
            else Inr ()) (ki_buckets lv) ()) (\<lambda>_.
        bindE (case align (ki_native_cuts lv) cuts of
            (ExactCuts, _) \<Rightarrow> Inr ()
          | (PendingAlignment, deciding) \<Rightarrow> Inl (PendingCuts deciding)
          | (ConflictingCuts, deciding) \<Rightarrow> Inl (refuse_at_writer CutConflict deciding)) (\<lambda>_.
        bindE (foldE (\<lambda>name (_ :: unit).
            bindE (ok_or (refuse_in_bucket UniverseMismatch name) (bucket_get candidate name)) (\<lambda>b.
            if \<not> bs_synced b \<or> bs_uncertain_keys b \<noteq> [] then Inl (refuse_in_bucket CandidateUnsynced name)
            else Inr ())) universe ()) (\<lambda>_.
        bindE (foldE (carry_bucket candidate max_rows) (ki_buckets lv) (0, [])) (\<lambda>(_, c). Inr c)))))"

section \<open>The swap\<close>

definition apply_carried ::
  "layout \<Rightarrow> string \<times> string \<times> carried \<Rightarrow> key_index_state \<Rightarrow> install_refusal + key_index_state" where
  "apply_carried lay effect st = (case effect of (name, key, c) \<Rightarrow>
     bindE (ok_or (refuse_in_bucket UniverseMismatch name) (bucket_get st name)) (\<lambda>b.
       case (case c of
           CDelete deleted_at \<Rightarrow>
             fst (unindex_row lay (b\<lparr>bs_gone := gr_raise lay (bs_gone b) key deleted_at\<rparr>) (ki_stats st) key)
         | CRow e \<Rightarrow> index_row lay b (ki_stats st) key e) of
         (b, tot) \<Rightarrow> Inr (bucket_set (st\<lparr>ki_stats := tot\<rparr>) name b)))"

definition is_delete :: "string \<times> string \<times> carried \<Rightarrow> bool" where
  "is_delete effect = (case effect of (_, _, CDelete _) \<Rightarrow> True | _ \<Rightarrow> False)"

definition apply_carry :: "layout \<Rightarrow> key_index_state \<Rightarrow> carry \<Rightarrow> install_refusal + key_index_state" where
  "apply_carry lay candidate c =
     foldE (apply_carried lay) (filter is_delete c @ filter (\<lambda>x. \<not> is_delete x) c) candidate"

definition adopt_bucket :: "key_index_state \<Rightarrow> string \<Rightarrow> key_index_state \<Rightarrow> install_refusal + key_index_state" where
  "adopt_bucket lv name candidate =
     bindE (ok_or (refuse_in_bucket UniverseMismatch name) (bucket_get candidate name)) (\<lambda>b.
     bindE (ok_or (refuse_whole Unavailable)
         (checked_add64 (case bucket_get lv name of None \<Rightarrow> 0 | Some prior \<Rightarrow> bs_sync_generation prior) 1)) (\<lambda>generation.
       let b = b\<lparr>bs_sync_generation := generation\<rparr>;
           b = (case bucket_get lv name of
                  None \<Rightarrow> b
                | Some prior \<Rightarrow> b\<lparr>bs_uncertainty_epoch := bs_uncertainty_epoch prior,
                                 bs_uncertain_keys := bs_uncertain_keys prior\<rparr>)
       in Inr (bucket_set candidate name b)))"

definition fleet_install_check ::
  "cut_aligner \<Rightarrow> key_index_state \<Rightarrow> key_index_state \<Rightarrow> native_cut list \<Rightarrow> string list \<Rightarrow> nat \<Rightarrow> install_refusal + unit" where
  "fleet_install_check align lv candidate cuts universe max_rows =
     bindE (check_candidate align lv candidate cuts universe max_rows) (\<lambda>_. Inr ())"

text \<open>The installed live index (the withdrawn donor capture of the replaced one is returned beside it),
  what is left of the stage, and the result.\<close>

definition install_fleet_candidate ::
  "layout \<Rightarrow> cut_aligner \<Rightarrow> key_index_state \<Rightarrow> key_index_state option \<Rightarrow> native_cut list \<Rightarrow> string list \<Rightarrow> nat
   \<Rightarrow> key_index_state \<times> key_index_state option \<times> index_capture option \<times> (install_refusal + unit)" where
  "install_fleet_candidate lay align lv stage cuts universe max_rows =
     (case stage of
        None \<Rightarrow> (lv, None, None, Inl (refuse_whole Unavailable))
      | Some candidate \<Rightarrow>
          (case check_candidate align lv candidate cuts universe max_rows of
             Inl r \<Rightarrow> (lv, stage, None, Inl r)
           | Inr c \<Rightarrow>
               (case bindE (foldE (adopt_bucket lv) universe candidate) (\<lambda>candidate. apply_carry lay candidate c) of
                  Inl r \<Rightarrow> (lv, None, None, Inl r)
                | Inr candidate \<Rightarrow>
                    (candidate\<lparr>ki_native_cuts := ki_native_cuts lv\<rparr>, None,
                     map_option (\<lambda>cp. capture_invalidate cp InvRebuild) (ki_capture lv), Inr ()))))"

section \<open>What the coverage walk collects\<close>

definition row_effect :: "string \<Rightarrow> bucket_state \<Rightarrow> string \<times> obj_entry \<Rightarrow> carry" where
  "row_effect name incoming r = (if row_carried (snd r) (kr_get (bs_keys incoming) (fst r)) (gr_get (bs_gone incoming) (fst r)) = Inr True
     then [(name, fst r, CRow (snd r))] else [])"

definition tomb_effect :: "string \<Rightarrow> bucket_state \<Rightarrow> string \<times> systime \<Rightarrow> carry" where
  "tomb_effect name incoming r = (if tombstone_carried (snd r) (kr_get (bs_keys incoming) (fst r)) (gr_get (bs_gone incoming) (fst r)) = Inr True
     then [(name, fst r, CDelete (snd r))] else [])"

definition bucket_effects :: "key_index_state \<Rightarrow> string \<times> bucket_state \<Rightarrow> carry" where
  "bucket_effects candidate nb = (case nb of (name, b) \<Rightarrow>
     concat (map (row_effect name (bucket_entry candidate name)) (kr_map (bs_keys b)))
     @ concat (map (tomb_effect name (bucket_entry candidate name)) (gr_map (bs_gone b))))"

definition orderable :: "key_index_state \<Rightarrow> string \<times> bucket_state \<Rightarrow> bool" where
  "orderable candidate nb \<longleftrightarrow> (case nb of (name, b) \<Rightarrow> let incoming = bucket_entry candidate name in
     (\<forall>(k, e) \<in> set (kr_map (bs_keys b)). \<exists>c. row_carried e (kr_get (bs_keys incoming) k) (gr_get (bs_gone incoming) k) = Inr c)
     \<and> (\<forall>(k, t) \<in> set (gr_map (bs_gone b)). \<exists>c. tombstone_carried t (kr_get (bs_keys incoming) k) (gr_get (bs_gone incoming) k) = Inr c))"

lemma carry_rows:
  "foldE (carry_row name incoming) rs c = Inr c' \<Longrightarrow>
     c' = c @ concat (map (row_effect name incoming) rs)
     \<and> (\<forall>(k, e) \<in> set rs. \<exists>x. row_carried e (kr_get (bs_keys incoming) k) (gr_get (bs_gone incoming) k) = Inr x)"
proof (induction rs arbitrary: c)
  case (Cons r rs)
  obtain c1 where c1: "carry_row name incoming r c = Inr c1" "foldE (carry_row name incoming) rs c1 = Inr c'"
    using Cons.prems by (auto simp: bindE_eq_Inr)
  have "c1 = c @ row_effect name incoming r"
    "\<exists>x. row_carried (snd r) (kr_get (bs_keys incoming) (fst r)) (gr_get (bs_gone incoming) (fst r)) = Inr x"
    using c1(1) by (auto simp: carry_row_def row_effect_def case_prod_beta split: sum.splits if_splits)
  then show ?case
    using Cons.IH [OF c1(2)] by (auto simp: case_prod_beta)
qed simp

lemma carry_tombstones:
  "foldE (carry_tombstone name incoming) rs c = Inr c' \<Longrightarrow>
     c' = c @ concat (map (tomb_effect name incoming) rs)
     \<and> (\<forall>(k, t) \<in> set rs. \<exists>x. tombstone_carried t (kr_get (bs_keys incoming) k) (gr_get (bs_gone incoming) k) = Inr x)"
proof (induction rs arbitrary: c)
  case (Cons r rs)
  obtain c1 where c1: "carry_tombstone name incoming r c = Inr c1" "foldE (carry_tombstone name incoming) rs c1 = Inr c'"
    using Cons.prems by (auto simp: bindE_eq_Inr)
  have "c1 = c @ tomb_effect name incoming r"
    "\<exists>x. tombstone_carried (snd r) (kr_get (bs_keys incoming) (fst r)) (gr_get (bs_gone incoming) (fst r)) = Inr x"
    using c1(1) by (auto simp: carry_tombstone_def tomb_effect_def case_prod_beta split: sum.splits if_splits)
  then show ?case
    using Cons.IH [OF c1(2)] by (auto simp: case_prod_beta)
qed simp

lemma carry_bucket_Inr:
  assumes "carry_bucket candidate mx nb (n, c) = Inr (n', c')"
  shows "bucket_get candidate (fst nb) \<noteq> None \<and> c' = c @ bucket_effects candidate nb \<and> orderable candidate nb"
proof -
  obtain name b where nb: "nb = (name, b)"
    by force
  obtain incoming c1 where i: "bucket_get candidate name = Some incoming"
    "foldE (carry_row name incoming) (kr_map (bs_keys b)) c = Inr c1"
    "foldE (carry_tombstone name incoming) (gr_map (bs_gone b)) c1 = Inr c'"
    using assms by (auto simp: nb carry_bucket_def result_simps)
  have "bucket_entry candidate name = incoming"
    using i(1) by (simp add: bucket_entry_def)
  then show ?thesis
    using i carry_rows [OF i(2)] carry_tombstones [OF i(3)]
    by (auto simp: nb bucket_effects_def orderable_def Let_def)
qed

lemma carry_buckets:
  "foldE (carry_bucket candidate mx) nbs (n, c) = Inr (n', c') \<Longrightarrow>
     c' = c @ concat (map (bucket_effects candidate) nbs)
     \<and> (\<forall>nb \<in> set nbs. bucket_get candidate (fst nb) \<noteq> None \<and> orderable candidate nb)"
proof (induction nbs arbitrary: n c)
  case (Cons nb nbs)
  obtain n1 c1 where s: "carry_bucket candidate mx nb (n, c) = Inr (n1, c1)" "foldE (carry_bucket candidate mx) nbs (n1, c1) = Inr (n', c')"
    using Cons.prems by (auto simp: bindE_eq_Inr)
  show ?case
    using carry_bucket_Inr [OF s(1)] Cons.IH [OF s(2)] by auto
qed simp

lemma foldE_unit: "foldE f xs () = Inr () \<longleftrightarrow> (\<forall>x \<in> set xs. f x () = Inr ())"
  by (induction xs) (auto simp: bindE_eq_Inr)

lemma check_candidate_Inr:
  assumes "check_candidate align lv candidate cuts universe mx = Inr c"
  shows "sorted_wrt (<) universe" "fst (align (ki_native_cuts lv) cuts) = ExactCuts"
    and "\<And>name b. (name, b) \<in> set (ki_buckets lv) \<Longrightarrow> name \<in> set universe \<and> bs_rebuild_generation b = None \<and> orderable candidate (name, b)"
    and "\<And>name. name \<in> set universe \<Longrightarrow> \<exists>b. bucket_get candidate name = Some b \<and> bs_synced b \<and> bs_uncertain_keys b = []"
    and "c = concat (map (bucket_effects candidate) (ki_buckets lv))"
proof -
  have s: "sorted_wrt (<) universe"
    and b: "foldE (\<lambda>(name, b) (_ :: unit).
            if name \<notin> set universe then Inl (refuse_in_bucket UniverseMismatch name)
            else if bs_rebuild_generation b \<noteq> None then Inl (refuse_in_bucket LiveRebuilding name)
            else Inr ()) (ki_buckets lv) () = Inr ()"
    and a: "(case align (ki_native_cuts lv) cuts of
            (ExactCuts, _) \<Rightarrow> Inr ()
          | (PendingAlignment, deciding) \<Rightarrow> Inl (PendingCuts deciding)
          | (ConflictingCuts, deciding) \<Rightarrow> Inl (refuse_at_writer CutConflict deciding)) = Inr ()"
    and u: "foldE (\<lambda>name (_ :: unit).
            bindE (ok_or (refuse_in_bucket UniverseMismatch name) (bucket_get candidate name)) (\<lambda>b.
            if \<not> bs_synced b \<or> bs_uncertain_keys b \<noteq> [] then Inl (refuse_in_bucket CandidateUnsynced name)
            else Inr ())) universe () = Inr ()"
    and f: "\<exists>n. foldE (carry_bucket candidate mx) (ki_buckets lv) (0, []) = Inr (n, c)"
    using assms unfolding check_candidate_def
    by (auto simp: bindE_eq_Inr split: if_splits)
  show "sorted_wrt (<) universe"
    by (rule s)
  show "fst (align (ki_native_cuts lv) cuts) = ExactCuts"
    using a by (auto split: prod.splits cut_alignment.splits)
  show "name \<in> set universe \<and> bs_rebuild_generation b = None \<and> orderable candidate (name, b)" if "(name, b) \<in> set (ki_buckets lv)" for name b
    using that b f carry_buckets unfolding foldE_unit by (fastforce split: if_splits)
  show "\<exists>b. bucket_get candidate name = Some b \<and> bs_synced b \<and> bs_uncertain_keys b = []" if "name \<in> set universe" for name
    using that u unfolding foldE_unit by (fastforce simp: bindE_eq_Inr ok_or_eq_Inr split: if_splits)
  show "c = concat (map (bucket_effects candidate) (ki_buckets lv))"
    using f carry_buckets by fastforce
qed

section \<open>What the carried effects do\<close>

text \<open>One effect per key and kind.\<close>

definition one_per_key :: "carry \<Rightarrow> bool" where
  "one_per_key c \<longleftrightarrow> (\<forall>n k t t'. (n, k, CDelete t) \<in> set c \<longrightarrow> t' \<noteq> t \<longrightarrow> (n, k, CDelete t') \<notin> set c)
     \<and> (\<forall>n k e e'. (n, k, CRow e) \<in> set c \<longrightarrow> e' \<noteq> e \<longrightarrow> (n, k, CRow e') \<notin> set c)"

definition carried_rows :: "layout \<Rightarrow> key_index_state \<Rightarrow> string \<Rightarrow> string \<Rightarrow> carried \<Rightarrow> bucket_state \<times> index_stats" where
  "carried_rows lay st name key c = (case c of
       CDelete t \<Rightarrow> fst (unindex_row lay ((bucket_entry st name)\<lparr>bs_gone := gr_raise lay (bs_gone (bucket_entry st name)) key t\<rparr>) (ki_stats st) key)
     | CRow e \<Rightarrow> index_row lay (bucket_entry st name) (ki_stats st) key e)"

lemma apply_carried_eq:
  "apply_carried lay (name, key, c) st = (if bucket_get st name = None then Inl (refuse_in_bucket UniverseMismatch name)
     else Inr (bucket_set (st\<lparr>ki_stats := snd (carried_rows lay st name key c)\<rparr>) name (fst (carried_rows lay st name key c))))"
  by (auto simp: apply_carried_def carried_rows_def bindE_def ok_or_def bucket_entry_def case_prod_beta split: carried.split)

lemma unindex_row_view [simp]:
  "kr_get (bs_keys (fst (fst (unindex_row lay b tot key)))) = (kr_get (bs_keys b))(key := None)"
  "bs_gone (fst (fst (unindex_row lay b tot key))) = bs_gone b"
  by (auto simp: unindex_row_eq split: option.split)

text \<open>The part of a bucket no carried effect reaches.\<close>

definition bucket_frame :: "bucket_state \<Rightarrow> bool \<times> nat \<times> (string, nat) omap \<times> nat \<times> nat option \<times> string list" where
  "bucket_frame b = (bs_synced b, bs_uncertainty_epoch b, bs_uncertain_keys b, bs_sync_generation b,
     bs_rebuild_generation b, bs_rebuild_touched b)"

lemma bucket_frame_rows [simp]:
  "bucket_frame (fst (fst (unindex_row lay b tot key))) = bucket_frame b"
  "bucket_frame (fst (index_row lay b tot key e)) = bucket_frame b"
  "bucket_frame (b\<lparr>bs_gone := g\<rparr>) = bucket_frame b"
  "bucket_frame (b\<lparr>bs_keys := ks\<rparr>) = bucket_frame b"
  "bucket_frame (b\<lparr>bs_stats := s\<rparr>) = bucket_frame b"
  by (auto simp: bucket_frame_def unindex_row_eq index_row_fst split: option.split)

lemma apply_carried_view:
  assumes "apply_carried lay (name, key, c) st = Inr st'"
  shows "live st' n k = (if n = name \<and> k = key then (case c of CDelete _ \<Rightarrow> None | CRow e \<Rightarrow> Some e) else live st n k)"
    and "dead st' n k = (if n = name \<and> k = key then (case c of
         CDelete t \<Rightarrow> Some (case dead st n k of None \<Rightarrow> t | Some d \<Rightarrow> max d t) | CRow _ \<Rightarrow> dead st n k) else dead st n k)"
    and "bucket_frame (bucket_entry st' n) = bucket_frame (bucket_entry st n)"
    and "ki_native_cuts st' = ki_native_cuts st" "ki_capture st' = ki_capture st"
    and "bucket_get st' n = None \<longleftrightarrow> bucket_get st n = None"
proof -
  have a: "bucket_get st name \<noteq> None"
    "st' = bucket_set (st\<lparr>ki_stats := snd (carried_rows lay st name key c)\<rparr>) name (fst (carried_rows lay st name key c))"
    using assms by (auto simp: apply_carried_eq split: if_splits)
  show "live st' n k = (if n = name \<and> k = key then (case c of CDelete _ \<Rightarrow> None | CRow e \<Rightarrow> Some e) else live st n k)"
    "dead st' n k = (if n = name \<and> k = key then (case c of
         CDelete t \<Rightarrow> Some (case dead st n k of None \<Rightarrow> t | Some d \<Rightarrow> max d t) | CRow _ \<Rightarrow> dead st n k) else dead st n k)"
    "bucket_frame (bucket_entry st' n) = bucket_frame (bucket_entry st n)"
    "ki_native_cuts st' = ki_native_cuts st" "ki_capture st' = ki_capture st"
    "bucket_get st' n = None \<longleftrightarrow> bucket_get st n = None"
    using a(1) by (simp_all add: a(2) live_def dead_def carried_rows_def gr_get_raise index_row_fst split: carried.splits)
qed

lemma apply_carried_frame:
  "foldE (apply_carried lay) cs st = Inr st' \<Longrightarrow>
     bucket_frame (bucket_entry st' n) = bucket_frame (bucket_entry st n) \<and> ki_native_cuts st' = ki_native_cuts st
     \<and> ki_capture st' = ki_capture st \<and> (bucket_get st' n = None \<longleftrightarrow> bucket_get st n = None)"
proof (induction cs arbitrary: st)
  case (Cons x cs)
  obtain st1 where "apply_carried lay (fst x, fst (snd x), snd (snd x)) st = Inr st1" "foldE (apply_carried lay) cs st1 = Inr st'"
    using Cons.prems by (auto simp: bindE_eq_Inr)
  then show ?case
    using apply_carried_view(3-6) Cons.IH by metis
qed simp

lemma apply_deletes_view:
  assumes "foldE (apply_carried lay) ds st = Inr st'" "\<forall>x \<in> set ds. is_delete x"
  shows "live st' n k = (if \<exists>t. (n, k, CDelete t) \<in> set ds then None else live st n k)
    \<and> ((\<forall>t'. t' \<noteq> t \<longrightarrow> (n, k, CDelete t') \<notin> set ds) \<longrightarrow> dead st' n k = (if (n, k, CDelete t) \<in> set ds
         then Some (case dead st n k of None \<Rightarrow> t | Some d \<Rightarrow> max d t) else dead st n k))"
  using assms
proof (induction ds arbitrary: st)
  case (Cons x ds)
  obtain n1 k1 t1 where x: "x = (n1, k1, CDelete t1)"
    using Cons.prems by (auto simp: is_delete_def split: carried.splits prod.splits)
  obtain st1 where s: "apply_carried lay (n1, k1, CDelete t1) st = Inr st1" "foldE (apply_carried lay) ds st1 = Inr st'"
    using Cons.prems by (auto simp: bindE_eq_Inr x)
  show ?case
    using Cons.IH [of st1] Cons.prems(2) s(2) apply_carried_view(1,2) [OF s(1), of n k]
    by (cases "n = n1 \<and> k = k1"; cases "t = t1") (auto simp: x split: option.splits)
qed simp

lemma apply_rows_view:
  assumes "foldE (apply_carried lay) rs st = Inr st'" "\<forall>x \<in> set rs. \<not> is_delete x"
  shows "((\<forall>e'. e' \<noteq> e \<longrightarrow> (n, k, CRow e') \<notin> set rs) \<longrightarrow> live st' n k = (if (n, k, CRow e) \<in> set rs then Some e else live st n k))
    \<and> dead st' n k = dead st n k"
  using assms
proof (induction rs arbitrary: st)
  case (Cons x rs)
  obtain n1 k1 e1 where x: "x = (n1, k1, CRow e1)"
    using Cons.prems by (auto simp: is_delete_def split: carried.splits prod.splits)
  obtain st1 where s: "apply_carried lay (n1, k1, CRow e1) st = Inr st1" "foldE (apply_carried lay) rs st1 = Inr st'"
    using Cons.prems by (auto simp: bindE_eq_Inr x)
  show ?case
    using Cons.IH [of st1] Cons.prems(2) s(2) apply_carried_view(1,2) [OF s(1), of n k] by (auto simp: x)
qed simp

text \<open>The carried effects together, whatever their order in the list.\<close>

lemma foldE_append_Inr: "foldE f (xs @ ys) s = Inr s' \<longleftrightarrow> (\<exists>m. foldE f xs s = Inr m \<and> foldE f ys m = Inr s')"
  by (simp add: foldE_append bindE_eq_Inr)

lemma apply_carry_view:
  assumes "apply_carry lay st c = Inr st'" "one_per_key c"
  shows "(n, k, CRow e) \<in> set c \<Longrightarrow> live st' n k = Some e"
    and "(\<And>e. (n, k, CRow e) \<notin> set c) \<Longrightarrow> live st' n k = (if \<exists>t. (n, k, CDelete t) \<in> set c then None else live st n k)"
    and "(n, k, CDelete t) \<in> set c \<Longrightarrow> dead st' n k = Some (case dead st n k of None \<Rightarrow> t | Some d \<Rightarrow> max d t)"
    and "(\<And>t. (n, k, CDelete t) \<notin> set c) \<Longrightarrow> dead st' n k = dead st n k"
    and "bucket_frame (bucket_entry st' n) = bucket_frame (bucket_entry st n)" "ki_native_cuts st' = ki_native_cuts st"
    and "bucket_get st' n = None \<longleftrightarrow> bucket_get st n = None"
proof -
  let ?ds = "filter is_delete c" and ?rs = "filter (\<lambda>x. \<not> is_delete x) c"
  obtain m where m: "foldE (apply_carried lay) ?ds st = Inr m" "foldE (apply_carried lay) ?rs m = Inr st'"
    using assms(1) by (auto simp: apply_carry_def foldE_append_Inr)
  have del: "live m n k = (if \<exists>t. (n, k, CDelete t) \<in> set c then None else live st n k)"
    "(\<forall>t'. t' \<noteq> t \<longrightarrow> (n, k, CDelete t') \<notin> set c) \<longrightarrow> dead m n k = (if (n, k, CDelete t) \<in> set c
         then Some (case dead st n k of None \<Rightarrow> t | Some d \<Rightarrow> max d t) else dead st n k)" for t
    using apply_deletes_view [OF m(1), of n k] by (auto simp: is_delete_def)
  have row: "(\<forall>e'. e' \<noteq> e \<longrightarrow> (n, k, CRow e') \<notin> set c) \<longrightarrow> live st' n k = (if (n, k, CRow e) \<in> set c then Some e else live m n k)"
    "dead st' n k = dead m n k" for e
    using apply_rows_view [OF m(2), where n = n and k = k] by (auto simp: is_delete_def)
  show "live st' n k = Some e" if "(n, k, CRow e) \<in> set c"
    using that row(1) [of e] assms(2) by (auto simp: one_per_key_def)
  show "live st' n k = (if \<exists>t. (n, k, CDelete t) \<in> set c then None else live st n k)" if "\<And>e. (n, k, CRow e) \<notin> set c"
    using that row(1) del(1) by auto
  show "dead st' n k = Some (case dead st n k of None \<Rightarrow> t | Some d \<Rightarrow> max d t)" if "(n, k, CDelete t) \<in> set c"
    using that row(2) del(2) [of t] assms(2) by (auto simp: one_per_key_def)
  show "dead st' n k = dead st n k" if "\<And>t. (n, k, CDelete t) \<notin> set c"
    using that row(2) del(2) by auto
  show "bucket_frame (bucket_entry st' n) = bucket_frame (bucket_entry st n)" "ki_native_cuts st' = ki_native_cuts st"
    "bucket_get st' n = None \<longleftrightarrow> bucket_get st n = None"
    using apply_carried_frame [OF m(1)] apply_carried_frame [OF m(2)] by auto
qed

section \<open>The swap as a whole\<close>

lemma live_iff_row:
  assumes "index_ok lay st"
  shows "live st n k = Some e \<longleftrightarrow> (\<exists>b. (n, b) \<in> set (ki_buckets st) \<and> (k, e) \<in> set (kr_map (bs_keys b)))"
    and "dead st n k = Some t \<longleftrightarrow> (\<exists>b. (n, b) \<in> set (ki_buckets st) \<and> (k, t) \<in> set (gr_map (bs_gone b)))"
proof -
  have b: "(n, b) \<in> set (ki_buckets st) \<longleftrightarrow> bucket_get st n = Some b" for b
    using assms by (simp add: index_ok_def om_ok_distinct map_of_eq_Some_iff bucket_get_def)
  have "rows_ok lay (bucket_entry st n)"
    using index_ok_entry [OF assms] by (simp add: bucket_ok_def)
  then have "om_ok (kr_map (bs_keys (bucket_entry st n)))" "om_ok (gr_map (bs_gone (bucket_entry st n)))"
    by (simp_all add: rows_ok_def kr_ok_def gr_ok_def gr_tally_ok_def)
  then show "live st n k = Some e \<longleftrightarrow> (\<exists>b. (n, b) \<in> set (ki_buckets st) \<and> (k, e) \<in> set (kr_map (bs_keys b)))"
    "dead st n k = Some t \<longleftrightarrow> (\<exists>b. (n, b) \<in> set (ki_buckets st) \<and> (k, t) \<in> set (gr_map (bs_gone b)))"
    by (auto simp: b live_def dead_def bucket_entry_def kr_get_def gr_get_def om_ok_distinct
        bucket_default_def key_rows_default_def gone_rows_default_def split: option.splits)
qed

lemma row_effect_mem:
  "(n, k, c) \<in> set (row_effect m b r) \<longleftrightarrow> n = m \<and> k = fst r \<and> c = CRow (snd r)
     \<and> row_carried (snd r) (kr_get (bs_keys b) k) (gr_get (bs_gone b) k) = Inr True"
  "(n, k, c) \<in> set (tomb_effect m b r') \<longleftrightarrow> n = m \<and> k = fst r' \<and> c = CDelete (snd r')
     \<and> tombstone_carried (snd r') (kr_get (bs_keys b) k) (gr_get (bs_gone b) k) = Inr True"
  by (auto simp: row_effect_def tomb_effect_def)

lemma bucket_effects_mem:
  "(n, k, CRow e) \<in> set (bucket_effects candidate (m, b)) \<longleftrightarrow> n = m \<and> (k, e) \<in> set (kr_map (bs_keys b))
     \<and> row_carried e (live candidate n k) (dead candidate n k) = Inr True"
  "(n, k, CDelete t) \<in> set (bucket_effects candidate (m, b)) \<longleftrightarrow> n = m \<and> (k, t) \<in> set (gr_map (bs_gone b))
     \<and> tombstone_carried t (live candidate n k) (dead candidate n k) = Inr True"
  by (auto simp: bucket_effects_def row_effect_mem live_def dead_def Bex_def)

lemma carry_mem:
  fixes candidate lv
  assumes "index_ok lay lv"
  defines "c \<equiv> concat (map (bucket_effects candidate) (ki_buckets lv))"
  shows "(n, k, CRow e) \<in> set c \<longleftrightarrow> live lv n k = Some e \<and> row_carried e (live candidate n k) (dead candidate n k) = Inr True"
    and "(n, k, CDelete t) \<in> set c \<longleftrightarrow> dead lv n k = Some t \<and> tombstone_carried t (live candidate n k) (dead candidate n k) = Inr True"
    and "one_per_key c"
proof -
  show row: "(n, k, CRow e) \<in> set c \<longleftrightarrow> live lv n k = Some e \<and> row_carried e (live candidate n k) (dead candidate n k) = Inr True" for n k e
    unfolding c_def live_iff_row(1) [OF assms(1)]
    by (auto simp: bucket_effects_mem Bex_def)
  show tomb: "(n, k, CDelete t) \<in> set c \<longleftrightarrow> dead lv n k = Some t \<and> tombstone_carried t (live candidate n k) (dead candidate n k) = Inr True" for n k t
    unfolding c_def live_iff_row(2) [OF assms(1)]
    by (auto simp: bucket_effects_mem Bex_def)
  show "one_per_key c"
    unfolding one_per_key_def row tomb by auto
qed

text \<open>What adopting a bucket makes of it.\<close>

definition adopted :: "key_index_state \<Rightarrow> string \<Rightarrow> bucket_state \<Rightarrow> bucket_state" where
  "adopted lv name b = (let b = b\<lparr>bs_sync_generation := Suc (bs_sync_generation (bucket_entry lv name))\<rparr>
     in case bucket_get lv name of None \<Rightarrow> b
        | Some prior \<Rightarrow> b\<lparr>bs_uncertainty_epoch := bs_uncertainty_epoch prior, bs_uncertain_keys := bs_uncertain_keys prior\<rparr>)"

lemma adopted_twice [simp]: "adopted lv n (adopted lv n b) = adopted lv n b"
  by (simp add: adopted_def Let_def split: option.split)

lemma adopted_rows [simp]:
  "bs_keys (adopted lv n b) = bs_keys b" "bs_gone (adopted lv n b) = bs_gone b" "bs_synced (adopted lv n b) = bs_synced b"
  "bs_rebuild_generation (adopted lv n b) = bs_rebuild_generation b" "bs_rebuild_touched (adopted lv n b) = bs_rebuild_touched b"
  by (simp_all add: adopted_def Let_def split: option.split)

lemma adopt_bucket_eq:
  "adopt_bucket lv name st = (if bucket_get st name = None then Inl (refuse_in_bucket UniverseMismatch name)
     else if bs_sync_generation (bucket_entry lv name) + 1 > u64_max then Inl (refuse_whole Unavailable)
     else Inr (bucket_set st name (adopted lv name (bucket_entry st name))))"
proof -
  have "(case bucket_get lv name of None \<Rightarrow> 0 | Some prior \<Rightarrow> bs_sync_generation prior) = bs_sync_generation (bucket_entry lv name)"
    by (simp add: bucket_entry_def bucket_default_def split: option.split)
  then show ?thesis
    by (auto simp: adopt_bucket_def adopted_def bindE_def ok_or_def bucket_entry_def checked_add64_def Let_def split: option.split)
qed

lemma adopt_step:
  "foldE (adopt_bucket lv) (u # us) st = (if bucket_get st u = None then Inl (refuse_in_bucket UniverseMismatch u)
     else if u64_max \<le> bs_sync_generation (bucket_entry lv u) then Inl (refuse_whole Unavailable)
     else foldE (adopt_bucket lv) us (bucket_set st u (adopted lv u (bucket_entry st u))))"
  using adopt_bucket_eq [of lv u st] by simp

lemma adopt_all_eq:
  "foldE (adopt_bucket lv) us st = Inr st' \<Longrightarrow>
     (\<forall>n. bucket_entry st' n = (if n \<in> set us then adopted lv n (bucket_entry st n) else bucket_entry st n))
     \<and> (\<forall>n \<in> set us. bs_sync_generation (bucket_entry lv n) < u64_max)
     \<and> ki_native_cuts st' = ki_native_cuts st \<and> (\<forall>n. bucket_get st' n = None \<longleftrightarrow> bucket_get st n = None)"
proof (induction us arbitrary: st)
  case (Cons u us)
  have one: "bucket_get st u \<noteq> None" "bs_sync_generation (bucket_entry lv u) < u64_max"
    "foldE (adopt_bucket lv) us (bucket_set st u (adopted lv u (bucket_entry st u))) = Inr st'"
    using Cons.prems by (auto simp: adopt_step simp del: foldE.simps(2) split: if_splits)
  show ?case
    using Cons.IH [OF one(3)] one(1,2) by auto
qed simp

lemma adopt_all_total:
  assumes "\<forall>n \<in> set us. bucket_get st n \<noteq> None \<and> bs_sync_generation (bucket_entry lv n) < u64_max"
  shows "\<exists>st'. foldE (adopt_bucket lv) us st = Inr st'"
  using assms by (induction us arbitrary: st) (auto simp: adopt_step simp del: foldE.simps(2))

lemma adopt_all_error:
  "\<forall>n \<in> set us. bucket_get st n \<noteq> None \<Longrightarrow> foldE (adopt_bucket lv) us st = Inl r
   \<Longrightarrow> r = refuse_whole Unavailable \<and> (\<exists>n \<in> set us. u64_max \<le> bs_sync_generation (bucket_entry lv n))"
proof (induction us arbitrary: st)
  case (Cons u us)
  show ?case
    using Cons.prems Cons.IH [of "bucket_set st u (adopted lv u (bucket_entry st u))"]
    by (auto simp: adopt_step simp del: foldE.simps(2) split: if_splits)
qed simp

lemma apply_carried_total:
  "\<forall>(n, _, _) \<in> set cs. bucket_get st n \<noteq> None \<Longrightarrow> \<exists>st'. foldE (apply_carried lay) cs st = Inr st'"
proof (induction cs arbitrary: st)
  case (Cons x cs)
  obtain n k c where x: "x = (n, k, c)"
    by (cases x)
  show ?case
    using Cons.prems
    by (auto simp: x apply_carried_eq intro!: Cons.IH)
qed simp

lemma adopt_all_ok:
  "foldE (adopt_bucket lv) us st = Inr st' \<Longrightarrow> index_ok lay lv \<Longrightarrow> index_ok lay st
   \<Longrightarrow> \<forall>n \<in> set us. bs_synced (bucket_entry st n) \<Longrightarrow> index_ok lay st'"
proof (induction us arbitrary: st)
  case (Cons u us)
  let ?st1 = "bucket_set st u (adopted lv u (bucket_entry st u))"
  have one: "bs_sync_generation (bucket_entry lv u) < u64_max" "foldE (adopt_bucket lv) us ?st1 = Inr st'"
    using Cons.prems by (auto simp: adopt_step simp del: foldE.simps(2) split: if_splits)
  have b: "bucket_ok lay (bucket_entry st u)" "bucket_ok lay (bucket_entry lv u)"
    using Cons.prems index_ok_entry by auto
  have "bs_rebuild_generation (bucket_entry st u) = None"
    using b(1) Cons.prems(4) by (auto simp: bucket_ok_def rebuild_ok_def split: option.splits)
  then have "bucket_ok lay (adopted lv u (bucket_entry st u))"
    using b one(1)
    by (auto simp: bucket_ok_def rows_ok_def row_order_def rebuild_ok_def fences_ok_def adopted_def bucket_entry_def Let_def
        split: option.splits)
  then have "index_ok lay ?st1"
    using index_ok_set [OF Cons.prems(3), of "adopted lv u (bucket_entry st u)" ?st1 u] Cons.prems(3) by (auto simp: index_ok_def)
  then show ?case
    using Cons.IH [OF one(2)] Cons.prems by auto
qed simp

lemma apply_carried_ok:
  assumes "apply_carried lay (n, k, c) st = Inr st'" "index_ok lay st" "bucket_ok lay (fst (carried_rows lay st n k c))"
  shows "index_ok lay st'"
proof (rule index_ok_set [OF assms(2,3), of st' n])
  show "ki_buckets st' = om_insert n (fst (carried_rows lay st n k c)) (ki_buckets st)"
    using assms(1) by (auto simp: apply_carried_eq split: if_splits)
  show "om_ok (ki_native_cuts st')" "length (ki_native_cuts st') \<le> MAX_NATIVE_WRITERS"
    using assms(2) apply_carried_view(4) [OF assms(1)] by (auto simp: index_ok_def)
qed

lemma apply_deletes_ok:
  "foldE (apply_carried lay) ds st = Inr st' \<Longrightarrow> \<forall>x \<in> set ds. is_delete x \<Longrightarrow> index_ok lay st \<Longrightarrow> index_ok lay st'"
proof (induction ds arbitrary: st)
  case (Cons x ds)
  obtain n k t where x: "x = (n, k, CDelete t)"
    using Cons.prems by (auto simp: is_delete_def split: carried.splits prod.splits)
  obtain st1 where s: "apply_carried lay (n, k, CDelete t) st = Inr st1" "foldE (apply_carried lay) ds st1 = Inr st'"
    using Cons.prems by (auto simp: bindE_eq_Inr x)
  let ?b = "bucket_entry st n"
  let ?b' = "?b\<lparr>bs_gone := gr_raise lay (bs_gone ?b) k t\<rparr>"
  have ok: "bucket_ok lay ?b"
    using index_ok_entry [OF Cons.prems(3)] .
  have "rows_ok lay (fst (fst (unindex_row lay ?b' (ki_stats st) k)))"
    using ok by (intro unindex_row_ok_other)
      (auto simp: bucket_ok_def rows_ok_def row_order_def gr_get_raise split: if_splits)
  then have "bucket_ok lay (fst (carried_rows lay st n k (CDelete t)))"
    using ok by (simp add: bucket_ok_def carried_rows_def)
  then have "index_ok lay st1"
    using apply_carried_ok [OF s(1) Cons.prems(3)] by simp
  then show ?case
    using Cons.IH [OF s(2)] Cons.prems(2) by auto
qed simp

lemma apply_rows_ok:
  "foldE (apply_carried lay) rs st = Inr st' \<Longrightarrow> \<forall>x \<in> set rs. \<not> is_delete x \<Longrightarrow> index_ok lay st
   \<Longrightarrow> \<forall>n k e t. (n, k, CRow e) \<in> set rs \<longrightarrow> dead st n k = Some t \<longrightarrow> t < e_last_modified e \<Longrightarrow> index_ok lay st'"
proof (induction rs arbitrary: st)
  case (Cons x rs)
  obtain n k e where x: "x = (n, k, CRow e)"
    using Cons.prems by (auto simp: is_delete_def split: carried.splits prod.splits)
  obtain st1 where s: "apply_carried lay (n, k, CRow e) st = Inr st1" "foldE (apply_carried lay) rs st1 = Inr st'"
    using Cons.prems by (auto simp: bindE_eq_Inr x)
  have ok: "bucket_ok lay (bucket_entry st n)"
    using index_ok_entry [OF Cons.prems(3)] .
  have "rows_ok lay (fst (index_row lay (bucket_entry st n) (ki_stats st) k e))"
    using ok Cons.prems(4) by (intro index_row_ok) (auto simp: bucket_ok_def x dead_def)
  then have "bucket_ok lay (fst (carried_rows lay st n k (CRow e)))"
    using ok by (simp add: bucket_ok_def carried_rows_def)
  then have "index_ok lay st1"
    using apply_carried_ok [OF s(1) Cons.prems(3)] by simp
  moreover have "dead st1 m l = dead st m l" for m l
    using apply_carried_view(2) [OF s(1), of m l] by simp
  ultimately show ?case
    using Cons.IH [OF s(2)] Cons.prems(2,4) by auto
qed simp

lemma apply_carry_ok:
  assumes "apply_carry lay st c = Inr st'" "index_ok lay st" "one_per_key c"
    and "\<And>n k e t. (n, k, CRow e) \<in> set c \<Longrightarrow> dead st n k = Some t \<Longrightarrow> t < e_last_modified e"
    and "\<And>n k e t. (n, k, CRow e) \<in> set c \<Longrightarrow> (n, k, CDelete t) \<in> set c \<Longrightarrow> t < e_last_modified e"
  shows "index_ok lay st'"
proof -
  let ?ds = "filter is_delete c" and ?rs = "filter (\<lambda>x. \<not> is_delete x) c"
  obtain m where m: "foldE (apply_carried lay) ?ds st = Inr m" "foldE (apply_carried lay) ?rs m = Inr st'"
    using assms(1) by (auto simp: apply_carry_def foldE_append_Inr)
  have "t < e_last_modified e" if "(n, k, CRow e) \<in> set c" "dead m n k = Some t" for n k e t
  proof (cases "\<exists>t'. (n, k, CDelete t') \<in> set c")
    case True
    then obtain t' where t': "(n, k, CDelete t') \<in> set c"
      by blast
    then have "dead m n k = Some (case dead st n k of None \<Rightarrow> t' | Some d \<Rightarrow> max d t')"
      using apply_deletes_view [OF m(1), of n k t'] assms(3) by (auto simp: is_delete_def one_per_key_def)
    then show ?thesis
      using that assms(4,5) t' by (auto split: option.splits)
  next
    case False
    then have "dead m n k = dead st n k"
      using apply_deletes_view [OF m(1), of n k] by auto
    then show ?thesis
      using that assms(4) by auto
  qed
  moreover have "index_ok lay m"
    using apply_deletes_ok [OF m(1)] assms(2) by simp
  ultimately show ?thesis
    by (intro apply_rows_ok [OF m(2)]) auto
qed

lemma row_carried_True:
  assumes "row_carried e peer del = Inr True"
  shows "\<And>t. del = Some t \<Longrightarrow> t < e_last_modified e"
    and "\<And>p. peer = Some p \<Longrightarrow> version_difference e p \<noteq> None \<and> whole_seconds (e_last_modified p) < whole_seconds (e_last_modified e)"
  using assms by (auto simp: row_carried_def Let_def split: option.splits if_splits)

lemma row_carried_False:
  assumes "row_carried e peer del = Inr False"
  shows "(\<exists>p. peer = Some p \<and> version_difference e p = None)
    \<or> (\<exists>t. del = Some t \<and> whole_seconds t > whole_seconds (e_last_modified e))
    \<or> (\<exists>p. peer = Some p \<and> whole_seconds (e_last_modified p) > whole_seconds (e_last_modified e))"
  using assms by (auto simp: row_carried_def Let_def split: option.splits if_splits)

lemma whole_seconds_mono: "a \<le> b \<Longrightarrow> whole_seconds a \<le> whole_seconds b"
  by (auto simp: whole_seconds_def nanos_per_sec_def zdiv_mono1 div_int_pos_iff)

section \<open>What an install keeps\<close>

text \<open>A successful install, seen through the rows: the effects it carried and the two indexes it joined.\<close>

lemma install_view:
  assumes "index_ok lay lv" "index_ok lay cand"
    and "install_fleet_candidate lay align lv (Some cand) cuts universe mx = (lv', left, cap, Inr ())"
  defines "row \<equiv> \<lambda>n k e. live lv n k = Some e \<and> row_carried e (live cand n k) (dead cand n k) = Inr True"
    and "del \<equiv> \<lambda>n k t. dead lv n k = Some t \<and> tombstone_carried t (live cand n k) (dead cand n k) = Inr True"
  shows "row n k e \<Longrightarrow> live lv' n k = Some e"
    and "\<nexists>e. row n k e \<Longrightarrow> live lv' n k = (if \<exists>t. del n k t then None else live cand n k)"
    and "del n k t \<Longrightarrow> dead lv' n k = Some (case dead cand n k of None \<Rightarrow> t | Some d \<Rightarrow> max d t)"
    and "\<nexists>t. del n k t \<Longrightarrow> dead lv' n k = dead cand n k"
    and "index_ok lay lv'"
    and "live lv n k = Some e \<Longrightarrow> \<exists>x. row_carried e (live cand n k) (dead cand n k) = Inr x"
    and "dead lv n k = Some t \<Longrightarrow> \<exists>x. tombstone_carried t (live cand n k) (dead cand n k) = Inr x"
    and "bucket_get lv n \<noteq> None \<Longrightarrow> bs_uncertain_keys (bucket_entry lv' n) = bs_uncertain_keys (bucket_entry lv n)
       \<and> bs_uncertainty_epoch (bucket_entry lv' n) = bs_uncertainty_epoch (bucket_entry lv n)
       \<and> bs_sync_generation (bucket_entry lv' n) = Suc (bs_sync_generation (bucket_entry lv n))
       \<and> bs_synced (bucket_entry lv' n)"
    and "ki_native_cuts lv' = ki_native_cuts lv"
proof -
  obtain c cand1 cand2 where c: "check_candidate align lv cand cuts universe mx = Inr c"
    "foldE (adopt_bucket lv) universe cand = Inr cand1" "apply_carry lay cand1 c = Inr cand2"
    "lv' = cand2\<lparr>ki_native_cuts := ki_native_cuts lv\<rparr>"
    using assms(3) by (auto simp: install_fleet_candidate_def bindE_eq_Inr split: sum.splits)
  note chk = check_candidate_Inr [OF c(1)]
  have mem: "(n, k, CRow e) \<in> set c \<longleftrightarrow> row n k e" "(n, k, CDelete t) \<in> set c \<longleftrightarrow> del n k t" for n k e t
    using carry_mem(1,2) [OF assms(1), where candidate = cand] chk(5) by (auto simp: row_def del_def)
  have one: "one_per_key c"
    using carry_mem(3) [OF assms(1)] chk(5) by simp
  have rows: "live cand1 n k = live cand n k" "dead cand1 n k = dead cand n k" for n k
    using adopt_all_eq [OF c(2)] by (simp_all add: live_def dead_def)
  have view: "live lv' = live cand2" "dead lv' = dead cand2" "bucket_entry lv' = bucket_entry cand2"
    by (simp_all add: c(4) live_def dead_def fun_eq_iff bucket_entry_def)
  show "row n k e \<Longrightarrow> live lv' n k = Some e"
    using apply_carry_view(1) [OF c(3) one] by (simp add: view mem)
  show "\<nexists>e. row n k e \<Longrightarrow> live lv' n k = (if \<exists>t. del n k t then None else live cand n k)"
    using apply_carry_view(2) [OF c(3) one] by (simp add: view mem rows)
  show "del n k t \<Longrightarrow> dead lv' n k = Some (case dead cand n k of None \<Rightarrow> t | Some d \<Rightarrow> max d t)"
    using apply_carry_view(3) [OF c(3) one] by (simp add: view mem rows)
  show "\<nexists>t. del n k t \<Longrightarrow> dead lv' n k = dead cand n k"
    using apply_carry_view(4) [OF c(3) one] by (simp add: view mem rows)
  have "index_ok lay cand1"
    using adopt_all_ok [OF c(2) assms(1,2)] chk(4) by (force simp: bucket_entry_def)
  then have "index_ok lay cand2"
  proof (rule apply_carry_ok [OF c(3) _ one])
    show "t < e_last_modified e" if "(n, k, CRow e) \<in> set c" "dead cand1 n k = Some t" for n k e t
      using that row_carried_True(1) by (auto simp: mem rows row_def)
    show "t < e_last_modified e" if "(n, k, CRow e) \<in> set c" "(n, k, CDelete t) \<in> set c" for n k e t
      using that index_ok_entry [OF assms(1), of n]
      by (auto simp: mem row_def del_def live_def dead_def bucket_ok_def rows_ok_def row_order_def)
  qed
  then show "index_ok lay lv'"
    using assms(1) by (simp add: c(4) index_ok_def)
  show "live lv n k = Some e \<Longrightarrow> \<exists>x. row_carried e (live cand n k) (dead cand n k) = Inr x"
    using chk(3) live_iff_row(1) [OF assms(1)] by (fastforce simp: orderable_def live_def dead_def Let_def)
  show "dead lv n k = Some t \<Longrightarrow> \<exists>x. tombstone_carried t (live cand n k) (dead cand n k) = Inr x"
    using chk(3) live_iff_row(2) [OF assms(1)] by (fastforce simp: orderable_def live_def dead_def Let_def)
  show "bs_uncertain_keys (bucket_entry lv' n) = bs_uncertain_keys (bucket_entry lv n)
       \<and> bs_uncertainty_epoch (bucket_entry lv' n) = bs_uncertainty_epoch (bucket_entry lv n)
       \<and> bs_sync_generation (bucket_entry lv' n) = Suc (bs_sync_generation (bucket_entry lv n))
       \<and> bs_synced (bucket_entry lv' n)" if got: "bucket_get lv n \<noteq> None"
  proof -
    obtain b where b: "bucket_get lv n = Some b"
      using got by auto
    then have "(n, b) \<in> set (ki_buckets lv)"
      by (auto simp: bucket_get_def dest: map_of_SomeD)
    then have u: "n \<in> set universe"
      using chk(3) by blast
    then have "bs_synced (bucket_entry cand n)"
      using chk(4) by (fastforce simp: bucket_entry_def)
    moreover have "bucket_frame (bucket_entry lv' n) = bucket_frame (adopted lv n (bucket_entry cand n))"
      using apply_carry_view(5) [OF c(3) one, of n] adopt_all_eq [OF c(2)] u by (simp add: view)
    ultimately show ?thesis
      using b by (simp add: bucket_frame_def adopted_def bucket_entry_def Let_def)
  qed
  show "ki_native_cuts lv' = ki_native_cuts lv"
    by (simp add: c(4))
qed

text \<open>C30: Installing a staged image loses no local row. After a successful install every row the live
  index held is still there, or is answered by a row of the same version (entity tag, size and storage
  class), by a row from a later second, or by a delete from a later second. The hypothesis leaves out one
  case, a key deleted and then written again with the same version while the image holds the version from
  before the delete, in which the code drops the row.\<close>

theorem install_keeps_rows:
  assumes "index_ok lay lv" "index_ok lay cand" "live lv n k = Some e"
    and "install_fleet_candidate lay align lv (Some cand) cuts universe mx = (lv', left, cap, Inr ())"
    and "\<And>p t. live cand n k = Some p \<Longrightarrow> dead lv n k = Some t \<Longrightarrow> e_last_modified p \<le> t \<Longrightarrow> version_difference e p \<noteq> None"
  shows "live lv' n k = Some e
    \<or> (\<exists>p. live lv' n k = Some p \<and> (version_difference e p = None \<or> whole_seconds (e_last_modified p) > whole_seconds (e_last_modified e)))
    \<or> (\<exists>t. dead lv' n k = Some t \<and> whole_seconds t > whole_seconds (e_last_modified e))"
proof -
  note view = install_view [OF assms(1,2,4)]
  obtain x where x: "row_carried e (live cand n k) (dead cand n k) = Inr x"
    using view(6) assms(3) by blast
  show ?thesis
  proof (cases x)
    case True
    then show ?thesis
      using view(1) x assms(3) by simp
  next
    case False
    then have xf: "row_carried e (live cand n k) (dead cand n k) = Inr False"
      using x by simp
    have live': "live lv' n k = (if \<exists>t. dead lv n k = Some t \<and> tombstone_carried t (live cand n k) (dead cand n k) = Inr True
        then None else live cand n k)"
      using view(2) [of n k] assms(3) x False by auto
    have kept: "live lv' n k = Some p" if p: "live cand n k = Some p"
      and newer: "\<And>t. dead lv n k = Some t \<Longrightarrow> e_last_modified p > t" for p
      using live' p newer by (auto simp: tombstone_carried_def split: if_splits option.splits)
    have old: "t < e_last_modified e" if "dead lv n k = Some t" for t
      using that assms(3) index_ok_entry [OF assms(1), of n]
      by (auto simp: live_def dead_def bucket_ok_def rows_ok_def row_order_def)
    have delete: "\<exists>d. dead lv' n k = Some d \<and> whole_seconds t \<le> whole_seconds d" if t: "dead cand n k = Some t" for t
    proof (cases "\<exists>d. dead lv n k = Some d \<and> tombstone_carried d (live cand n k) (dead cand n k) = Inr True")
      case True
      then obtain d where "dead lv' n k = Some (max t d)"
        using view(3) [of n k] t by auto
      then show ?thesis
        using whole_seconds_mono [of t "max t d"] by auto
    qed (use view(4) [of n k] t in auto)
    consider p where "live cand n k = Some p" "version_difference e p = None"
      | p where "live cand n k = Some p" "whole_seconds (e_last_modified p) > whole_seconds (e_last_modified e)"
      | t where "dead cand n k = Some t" "whole_seconds t > whole_seconds (e_last_modified e)"
      using row_carried_False [of e "live cand n k" "dead cand n k"] xf by blast
    then show ?thesis
    proof cases
      case 1
      then have "live lv' n k = Some p"
        using kept assms(5) by (meson not_le)
      then show ?thesis
        using 1 by blast
    next
      case 2
      then have "live lv' n k = Some p"
        using kept old whole_seconds_mono by (meson leD less_le_trans not_le order_less_imp_le)
      then show ?thesis
        using 2 by blast
    next
      case 3
      then show ?thesis
        using delete by (meson less_le_trans)
    qed
  qed
qed

text \<open>C29: Installing a staged image resurrects nothing. After a successful install of a well-formed
  image into a well-formed index the result is well formed, and every delete the live index had recorded
  still stands: a row of that key is strictly newer than the delete, and without such a row the installed
  index records a delete at least as late.\<close>

theorem install_resurrects_nothing:
  assumes "index_ok lay lv" "index_ok lay cand"
    and "install_fleet_candidate lay align lv (Some cand) cuts universe mx = (lv', left, cap, Inr ())"
    and "dead lv n k = Some t"
  shows "index_ok lay lv'
    \<and> (case live lv' n k of Some p \<Rightarrow> e_last_modified p > t | None \<Rightarrow> \<exists>d \<ge> t. dead lv' n k = Some d)"
proof -
  note view = install_view [OF assms(1-3)]
  have order: "d < e_last_modified p" if "live st n k = Some p" "dead st n k = Some d" "index_ok lay st" for st p d
    using that index_ok_entry [of lay st n] by (auto simp: live_def dead_def bucket_ok_def rows_ok_def row_order_def)
  obtain x where x: "tombstone_carried t (live cand n k) (dead cand n k) = Inr x"
    using view(7) assms(4) by blast
  consider d where "dead lv' n k = Some d" "d \<ge> t" | p where "x = False" "live cand n k = Some p" "e_last_modified p > t"
  proof (cases x)
    case True
    then have "dead lv' n k = Some (case dead cand n k of None \<Rightarrow> t | Some d \<Rightarrow> max d t)"
      using view(3) [of n k t] x assms(4) by simp
    then show ?thesis
      using that(1) by (force split: option.splits)
  next
    case False
    then have "dead lv' n k = dead cand n k"
      using view(4) [of n k] x assms(4) by simp
    then show ?thesis
      using x False that by (auto simp: tombstone_carried_def split: option.splits if_splits)
  qed
  then have "case live lv' n k of Some p \<Rightarrow> e_last_modified p > t | None \<Rightarrow> \<exists>d \<ge> t. dead lv' n k = Some d"
  proof cases
    case 1
    then show ?thesis
      using order [OF _ _ view(5)] by (force split: option.split)
  next
    case 2
    show ?thesis
    proof (cases "\<exists>e. live lv n k = Some e \<and> row_carried e (live cand n k) (dead cand n k) = Inr True")
      case True
      then show ?thesis
        using view(1) [of n k] order [OF _ assms(4,1)] by (fastforce split: option.split)
    next
      case False
      then have "live lv' n k = Some p"
        using view(2) [of n k] 2 x assms(4) by auto
      then show ?thesis
        using 2 by simp
    qed
  qed
  then show ?thesis
    using view(5) by simp
qed

lemma foldE_carry_bucket_one:
  "foldE (carry_bucket cand mx) [nb] acc = carry_bucket cand mx nb acc"
  by (cases "carry_bucket cand mx nb acc") simp_all

lemma install_succeeds:
  assumes "check_candidate align lv cand cuts universe mx = Inr c"
    and "\<forall>n \<in> set universe. bs_sync_generation (bucket_entry lv n) < u64_max"
  shows "\<exists>lv' cap. install_fleet_candidate lay align lv (Some cand) cuts universe mx = (lv', None, cap, Inr ())"
proof -
  note chk = check_candidate_Inr [OF assms(1)]
  have u: "\<forall>n \<in> set universe. bucket_get cand n \<noteq> None"
    using chk(4) by blast
  obtain cand1 where cand1: "foldE (adopt_bucket lv) universe cand = Inr cand1"
    using adopt_all_total [of universe cand lv] u assms(2) by blast
  have named: "\<forall>(n, k, x) \<in> set c. n \<in> set universe"
  proof clarify
    fix n k x
    assume "(n, k, x) \<in> set c"
    then obtain m b where mb: "(m, b) \<in> set (ki_buckets lv)" "(n, k, x) \<in> set (bucket_effects cand (m, b))"
      unfolding chk(5) by auto
    then have "n = m"
      by (auto simp: bucket_effects_def row_effect_mem)
    then show "n \<in> set universe"
      using chk(3) mb(1) by blast
  qed
  then have "\<forall>(n, _, _) \<in> set (filter is_delete c @ filter (\<lambda>x. \<not> is_delete x) c). bucket_get cand1 n \<noteq> None"
    using u adopt_all_eq [OF cand1] by (auto simp: case_prod_beta)
  then obtain cand2 where "apply_carry lay cand1 c = Inr cand2"
    using apply_carried_total unfolding apply_carry_def by blast
  then show ?thesis
    by (simp add: install_fleet_candidate_def assms(1) cand1)
qed

text \<open>A refused install changes nothing that is served. The live index is returned as it was, no
  donor capture is withdrawn, and the stage is left untouched for a later barrier, with one exception: a
  bucket whose generation counter is exhausted consumes the stage.\<close>

theorem install_refusal_is_clean:
  assumes "install_fleet_candidate lay align lv stage cuts universe mx = (lv', left, cap, Inl r)"
  shows "lv' = lv \<and> cap = None
    \<and> (left = stage \<or> left = None \<and> r = refuse_whole Unavailable \<and> (\<exists>n \<in> set universe. u64_max \<le> bs_sync_generation (bucket_entry lv n)))"
proof (cases stage)
  case None
  then show ?thesis
    using assms by (auto simp: install_fleet_candidate_def)
next
  case (Some cand)
  show ?thesis
  proof (cases "check_candidate align lv cand cuts universe mx")
    case (Inl r')
    then show ?thesis
      using assms by (auto simp: install_fleet_candidate_def Some)
  next
    case (Inr c)
    have u: "\<forall>n \<in> set universe. bucket_get cand n \<noteq> None"
      using check_candidate_Inr(4) [OF Inr] by blast
    obtain n where n: "n \<in> set universe" "u64_max \<le> bs_sync_generation (bucket_entry lv n)"
      using install_succeeds [OF Inr, of lay] assms Some by (metis Inl_Inr_False Pair_inject not_le)
    moreover have "\<exists>r'. foldE (adopt_bucket lv) universe cand = Inl r'"
      using adopt_all_eq [of lv universe cand] n by (metis not_le obj_sumE)
    ultimately show ?thesis
      using assms adopt_all_error [OF u] by (auto simp: install_fleet_candidate_def Some Inr)
  qed
qed

text \<open>An install continues the live index's bookkeeping. Every open reconciliation keeps its token and
  the buckets keep drawing tokens from the same epoch, the native positions are kept, every bucket answers
  locally, and its generation advances, so a rebuild page of the replaced index is refused afterwards.\<close>

theorem install_keeps_reconciliations:
  assumes "index_ok lay lv" "index_ok lay cand"
    and "install_fleet_candidate lay align lv (Some cand) cuts universe mx = (lv', left, cap, Inr ())"
    and "bucket_get lv n \<noteq> None"
  shows "bs_uncertain_keys (bucket_entry lv' n) = bs_uncertain_keys (bucket_entry lv n)
    \<and> bs_uncertainty_epoch (bucket_entry lv' n) = bs_uncertainty_epoch (bucket_entry lv n)
    \<and> bs_sync_generation (bucket_entry lv' n) = Suc (bs_sync_generation (bucket_entry lv n))
    \<and> bs_synced (bucket_entry lv' n) \<and> ki_native_cuts lv' = ki_native_cuts lv"
  using install_view(8,9) [OF assms(1-3)] assms(4) by blast

section \<open>Concrete installs\<close>

text \<open>A synced bucket with at most one row and one tombstone, for the same key.\<close>

definition install_bucket_example :: "obj_entry option \<Rightarrow> systime option \<Rightarrow> bucket_state" where
  "install_bucket_example e t = bucket_default\<lparr>bs_synced := True,
     bs_keys := (case e of None \<Rightarrow> key_rows_default | Some e \<Rightarrow> fst (kr_insert layout_example key_rows_default ''k'' e)),
     bs_gone := (case t of None \<Rightarrow> gone_rows_default | Some t \<Rightarrow> gr_insert layout_example gone_rows_default ''k'' t)\<rparr>"

definition install_example :: "obj_entry option \<Rightarrow> systime option \<Rightarrow> key_index_state" where
  "install_example e t = bucket_set key_index_default ''b'' (install_bucket_example e t)"

definition align_example :: cut_aligner where
  "align_example lv cuts = (if map (\<lambda>(w, e, s). (w, e, s)) lv = map (\<lambda>c. (nc_writer c, nc_epoch c, nc_sequence c)) cuts
     then (ExactCuts, None) else (PendingAlignment, None))"

definition install_row_example :: "int \<Rightarrow> obj_entry" where
  "install_row_example secs = image_entry_example\<lparr>e_last_modified := secs * nanos_per_sec\<rparr>"

lemma install_example_get:
  "bucket_get (install_example e t) n = (if n = ''b'' then Some (install_bucket_example e t) else None)"
  "ki_buckets (install_example e t) = [(''b'', install_bucket_example e t)]" "ki_native_cuts (install_example e t) = []"
  by (simp_all add: install_example_def bucket_get_def bucket_set_def key_index_default_def)

lemma install_example_maps:
  "kr_map (bs_keys (install_bucket_example e t)) = (case e of None \<Rightarrow> [] | Some e \<Rightarrow> [(''k'', e)])"
  "gr_map (bs_gone (install_bucket_example e t)) = (case t of None \<Rightarrow> [] | Some t \<Rightarrow> [(''k'', t)])"
  by (simp_all add: install_bucket_example_def kr_insert_map gr_insert_map key_rows_default_def gone_rows_default_def split: option.split)

lemma install_example_view:
  "live (install_example e t) n k = (if n = ''b'' \<and> k = ''k'' then e else None)"
  "dead (install_example e t) n k = (if n = ''b'' \<and> k = ''k'' then t else None)"
  by (simp_all add: live_def dead_def bucket_entry_def install_example_get kr_get_def gr_get_def install_example_maps
      bucket_default_def key_rows_default_def gone_rows_default_def split: option.split)

lemma install_example_ok:
  assumes "\<And>e' t'. e = Some e' \<Longrightarrow> t = Some t' \<Longrightarrow> t' < e_last_modified e'"
  shows "index_ok layout_example (install_example e t)"
proof -
  have "rows_ok layout_example (install_bucket_example e t)"
    using assms
    by (auto simp: rows_ok_def row_order_def kr_get_def gr_get_def install_example_maps split: option.splits)
      (auto simp: install_bucket_example_def split: option.split)
  moreover have "fences_ok (install_bucket_example e t)" "rebuild_ok (install_bucket_example e t)"
    using bucket_default_ok [of layout_example] by (simp_all add: bucket_ok_def install_bucket_example_def rebuild_ok_def fences_ok_def bucket_default_def)
  ultimately show ?thesis
    by (simp add: index_ok_def bucket_ok_def install_example_get om_ok_def)
qed

lemma install_example_succeeds:
  assumes "\<And>e'. e = Some e' \<Longrightarrow> \<exists>c. row_carried e' p d = Inr c" "\<And>t'. t = Some t' \<Longrightarrow> \<exists>c. tombstone_carried t' p d = Inr c"
  shows "\<exists>lv' cap. install_fleet_candidate layout_example align_example (install_example e t) (Some (install_example p d)) [] [''b''] 100
     = (lv', None, cap, Inr ())"
proof -
  have sync: "bs_synced (install_bucket_example e t)" "bs_rebuild_generation (install_bucket_example e t) = None"
    "bs_uncertain_keys (install_bucket_example e t) = []" "bs_sync_generation (install_bucket_example e t) = 0" for e t
    by (simp_all add: install_bucket_example_def bucket_default_def)
  have rows: "kr_get (bs_keys (install_bucket_example p d)) ''k'' = p" "gr_get (bs_gone (install_bucket_example p d)) ''k'' = d"
    by (simp_all add: kr_get_def gr_get_def install_example_maps split: option.split)
  have "\<exists>m c. carry_bucket (install_example p d) 100 (''b'', install_bucket_example e t) (0, []) = Inr (m, c)"
    using assms
    by (auto simp: carry_bucket_def install_example_get install_example_maps kr_len_def gr_len_def checked_add64_def u64_max_def
        carry_row_def carry_tombstone_def rows split: option.splits)
  then have "\<exists>c. check_candidate align_example (install_example e t) (install_example p d) [] [''b''] 100 = Inr c"
    unfolding check_candidate_def install_example_get(2) foldE_carry_bucket_one
    by (auto simp: install_example_get sync align_example_def)
  then show ?thesis
    using install_succeeds by (auto simp: bucket_entry_def install_example_get sync u64_max_def)
qed

lemma install_row_example_seconds [simp]:
  "e_last_modified (install_row_example s) = s * nanos_per_sec"
  "0 \<le> s \<Longrightarrow> whole_seconds (s * nanos_per_sec) = s"
  by (simp_all add: install_row_example_def whole_seconds_def nanos_per_sec_def)

lemma install_row_example_version [simp]: "version_difference (install_row_example s) (install_row_example s') = None"
  by (simp add: version_difference_def install_row_example_def image_entry_example_def)

text \<open>The exception of the coverage check. A key deleted at 20 s and written again with identical content
  at 30 s, installed over an image that still holds the version of 10 s, ends with no row at all: the row counts
  as covered by the image's row of the same version, the delete is carried and removes that row, and
  the live row is not carried. A present object is then answered as absent.\<close>

theorem install_drops_recreated_row:
  "\<exists>lv' cap. install_fleet_candidate layout_example align_example
       (install_example (Some (install_row_example 30)) (Some (20 * nanos_per_sec)))
       (Some (install_example (Some (install_row_example 10)) None)) [] [''b''] 100 = (lv', None, cap, Inr ())
     \<and> live lv' ''b'' ''k'' = None \<and> dead lv' ''b'' ''k'' = Some (20 * nanos_per_sec)"
proof -
  let ?lv = "install_example (Some (install_row_example 30)) (Some (20 * nanos_per_sec))"
  let ?cand = "install_example (Some (install_row_example 10)) None"
  have n: "nanos_per_sec = 1000000000"
    by (simp add: nanos_per_sec_def)
  have row: "row_carried (install_row_example 30) (Some (install_row_example 10)) None = Inr False"
    by (simp add: row_carried_def)
  have del: "tombstone_carried (20 * nanos_per_sec) (Some (install_row_example 10)) None = Inr True"
    by (simp add: tombstone_carried_def) (simp add: n)
  obtain lv' cap where i: "install_fleet_candidate layout_example align_example ?lv (Some ?cand) [] [''b''] 100 = (lv', None, cap, Inr ())"
    using install_example_succeeds [of "Some (install_row_example 30)" "Some (install_row_example 10)" None "Some (20 * nanos_per_sec)"] row del
    by auto
  have ok: "index_ok layout_example ?lv" "index_ok layout_example ?cand"
    by (auto intro!: install_example_ok simp: n)
  have "live lv' ''b'' ''k'' = None"
    using install_view(2) [OF ok i, of "''b''" "''k''"] row del by (auto simp: install_example_view)
  moreover have "dead lv' ''b'' ''k'' = Some (20 * nanos_per_sec)"
    using install_view(3) [OF ok i, of "''b''" "''k''"] del by (auto simp: install_example_view)
  ultimately show ?thesis
    using i by blast
qed

lemma install_keeps_rows_witness:
  "\<exists>lv' cap. install_fleet_candidate layout_example align_example (install_example (Some (install_row_example 30)) None)
       (Some (install_example None (Some (20 * nanos_per_sec)))) [] [''b''] 100 = (lv', None, cap, Inr ())
     \<and> (\<exists>p. live lv' ''b'' ''k'' = Some p \<or> (\<exists>t. dead lv' ''b'' ''k'' = Some t \<and> whole_seconds t > 30))"
proof -
  have "row_carried (install_row_example 30) None (Some (20 * nanos_per_sec)) = Inr True"
    by (simp add: row_carried_def) (simp add: nanos_per_sec_def)
  then obtain lv' cap where i: "install_fleet_candidate layout_example align_example (install_example (Some (install_row_example 30)) None)
       (Some (install_example None (Some (20 * nanos_per_sec)))) [] [''b''] 100 = (lv', None, cap, Inr ())"
    using install_example_succeeds [of "Some (install_row_example 30)" None "Some (20 * nanos_per_sec)" None] by auto
  have "index_ok layout_example (install_example (Some (install_row_example 30)) None)"
    "index_ok layout_example (install_example None (Some (20 * nanos_per_sec)))"
    by (auto intro!: install_example_ok)
  from install_keeps_rows [OF this _ i, of "''b''" "''k''" "install_row_example 30"] show ?thesis
    using i by (auto simp: install_example_view)
qed

lemma install_resurrects_nothing_witness:
  "\<exists>lv' cap. install_fleet_candidate layout_example align_example (install_example None (Some (20 * nanos_per_sec)))
       (Some (install_example (Some (install_row_example 10)) None)) [] [''b''] 100 = (lv', None, cap, Inr ())
     \<and> (case live lv' ''b'' ''k'' of Some p \<Rightarrow> e_last_modified p > 20 * nanos_per_sec
        | None \<Rightarrow> \<exists>d \<ge> 20 * nanos_per_sec. dead lv' ''b'' ''k'' = Some d)"
proof -
  have "tombstone_carried (20 * nanos_per_sec) (Some (install_row_example 10)) None = Inr True"
    by (simp add: tombstone_carried_def) (simp add: nanos_per_sec_def)
  then obtain lv' cap where i: "install_fleet_candidate layout_example align_example (install_example None (Some (20 * nanos_per_sec)))
       (Some (install_example (Some (install_row_example 10)) None)) [] [''b''] 100 = (lv', None, cap, Inr ())"
    using install_example_succeeds [of None "Some (install_row_example 10)" None "Some (20 * nanos_per_sec)"] by auto
  have "index_ok layout_example (install_example None (Some (20 * nanos_per_sec)))"
    "index_ok layout_example (install_example (Some (install_row_example 10)) None)"
    by (auto intro!: install_example_ok)
  from install_resurrects_nothing [OF this i, of "''b''" "''k''"] show ?thesis
    using i by (auto simp: install_example_view)
qed

lemma install_keeps_reconciliations_witness:
  "\<exists>lv' cap. install_fleet_candidate layout_example align_example (install_example None None)
       (Some (install_example (Some (install_row_example 10)) None)) [] [''b''] 100 = (lv', None, cap, Inr ())
     \<and> bs_sync_generation (bucket_entry lv' ''b'') = Suc (bs_sync_generation (bucket_entry (install_example None None) ''b''))"
proof -
  obtain lv' cap where i: "install_fleet_candidate layout_example align_example (install_example None None)
       (Some (install_example (Some (install_row_example 10)) None)) [] [''b''] 100 = (lv', None, cap, Inr ())"
    using install_example_succeeds [of None "Some (install_row_example 10)" None None] by auto
  have "index_ok layout_example (install_example None None)" "index_ok layout_example (install_example (Some (install_row_example 10)) None)"
    by (auto intro!: install_example_ok)
  from install_keeps_reconciliations [OF this i, of "''b''"] show ?thesis
    using i by (auto simp: install_example_get)
qed

lemma install_refusal_is_clean_witness:
  "fst (install_fleet_candidate layout_example align_example (install_example None None) (Some (install_example None None)) [] [] 100)
     = install_example None None"
proof -
  have "install_fleet_candidate layout_example align_example (install_example None None) (Some (install_example None None)) [] [] 100
     = (install_example None None, Some (install_example None None), None, Inl (refuse_whole UniverseMismatch))"
    by (simp add: install_fleet_candidate_def check_candidate_def)
  from install_refusal_is_clean [OF this] this show ?thesis
    by simp
qed

end
