(* ===== verification/Stage.thy ===== *)
theory Stage
  imports Install
begin

text \<open>
  The follower's private stage (\<^verbatim>\<open>src/src/index/fleet/stage.rs\<close>): it collects the chunks of an image,
  verifies and decodes it, and replays the donor's journal onto it before the guarded swap. The content
  hash is a parameter, as are the entity-tag parser and the cut comparison. Batches and cursors are those of the
  transport library, reduced to the fields the stage reads. A failed batch leaves the private state as
  far as it came, so every operation returns the stage beside its result. The time since reservation is
  only reported and is left out.

  The second half shows what the stage is for: replaying a donor's journal onto the decoded image gives
  the donor's rows.
\<close>

section \<open>Operations\<close>

record journal_cursor =
  jc_capture :: nat
  jc_position :: nat

record journal_delta =
  jd_position :: nat
  jd_effect :: bytes

record journal_batch =
  jb_from :: journal_cursor
  jb_through :: journal_cursor
  jb_deltas :: "journal_delta list"

record fleet_stage =
  fs_encoded :: bytes
  fs_expected_bytes :: nat
  fs_decoded_bytes :: nat
  fs_expected_chunks :: nat
  fs_next_chunk :: nat
  fs_caps :: image_caps
  fs_index :: "key_index_state option"
  fs_rows :: nat
  fs_through :: journal_cursor
  fs_max_event_bytes :: nat

definition stage_new :: "nat \<Rightarrow> nat \<Rightarrow> journal_cursor \<Rightarrow> nat \<Rightarrow> image_caps \<Rightarrow> nat \<Rightarrow> fleet_stage ires" where
  "stage_new expected_bytes expected_chunks at decoded caps max_event_bytes =
     (if expected_bytes = 0 \<or> expected_bytes > c_bytes caps \<or> decoded = 0 \<or> decoded > c_decoded_bytes caps
         \<or> expected_chunks = 0 \<or> max_event_bytes = 0
      then Inl Capacity
      else Inr \<lparr>fs_encoded = [], fs_expected_bytes = expected_bytes, fs_decoded_bytes = decoded,
             fs_expected_chunks = expected_chunks, fs_next_chunk = 0, fs_caps = caps, fs_index = None, fs_rows = 0,
             fs_through = at, fs_max_event_bytes = max_event_bytes\<rparr>)"

definition store_chunk :: "fleet_stage \<Rightarrow> nat \<Rightarrow> bytes \<Rightarrow> fleet_stage \<times> unit ires" where
  "store_chunk s sequence chunk =
     (if sequence \<noteq> fs_next_chunk s \<or> chunk = [] \<or> sequence \<ge> fs_expected_chunks s then (s, Inl Corrupt)
      else case checked_add64 (length (fs_encoded s)) (length chunk) of
          None \<Rightarrow> (s, Inl Capacity)
        | Some end \<Rightarrow>
            if end > fs_expected_bytes s then (s, Inl Capacity)
            else (s\<lparr>fs_encoded := fs_encoded s @ chunk, fs_next_chunk := fs_next_chunk s + 1\<rparr>, Inr ()))"

definition stage_verify ::
  "layout \<Rightarrow> (string \<Rightarrow> etag option) \<Rightarrow> (bytes \<Rightarrow> bytes) \<Rightarrow> fleet_stage \<Rightarrow> bytes \<Rightarrow> fleet_stage \<times> unit ires" where
  "stage_verify lay pe hash s commitment =
     (if fs_index s \<noteq> None \<or> fs_next_chunk s \<noteq> fs_expected_chunks s \<or> length (fs_encoded s) \<noteq> fs_expected_bytes s
      then (s, Inl Incomplete)
      else if hash (fs_encoded s) \<noteq> commitment then (s, Inl Corrupt)
      else case decode_image lay pe (fs_encoded s)
             ((fs_caps s)\<lparr>c_bytes := fs_expected_bytes s, c_decoded_bytes := fs_decoded_bytes s\<rparr>) of
          Inl e \<Rightarrow> (s, Inl e)
        | Inr st \<Rightarrow> (s\<lparr>fs_rows := sum_list (map (\<lambda>(_, b). kr_len (bs_keys b) + gr_len (bs_gone b)) (ki_buckets st)),
                       fs_index := Some st\<rparr>, Inr ()))"

definition growth :: "key_index_state \<Rightarrow> index_delta \<Rightarrow> (nat \<times> bool) ires" where
  "growth st effect = (case effect of
       DPut bucket key _ \<Rightarrow> bindE (ok_or Incomplete (bucket_get st bucket)) (\<lambda>b.
         Inr (kr_len (bs_keys b) + gr_len (bs_gone b), kr_get (bs_keys b) key = None))
     | DDelete bucket _ _ \<Rightarrow> bindE (ok_or Incomplete (bucket_get st bucket)) (\<lambda>b.
         Inr (kr_len (bs_keys b) + gr_len (bs_gone b), True))
     | DNoop \<Rightarrow> Inr (0, False))"

text \<open>The count after an effect: what the bucket held before is taken out and what it holds now is added.\<close>

definition recount :: "fleet_stage \<Rightarrow> key_index_state \<Rightarrow> nat \<Rightarrow> string option \<Rightarrow> fleet_stage \<times> unit ires" where
  "recount s st before name = (case name of
       None \<Rightarrow> (s, Inr ())
     | Some bucket \<Rightarrow> (case bucket_get st bucket of
           None \<Rightarrow> (s, Inl Incomplete)
         | Some b \<Rightarrow> (case (if before \<le> fs_rows s then checked_add64 (fs_rows s - before) (kr_len (bs_keys b) + gr_len (bs_gone b)) else None) of
               None \<Rightarrow> (s, Inl Capacity)
             | Some n \<Rightarrow> (s\<lparr>fs_rows := n\<rparr>, if n > c_rows (fs_caps s) then Inl Capacity else Inr ()))))"

definition stage_delta ::
  "layout \<Rightarrow> (string \<Rightarrow> etag option) \<Rightarrow> fleet_stage \<Rightarrow> key_index_state \<Rightarrow> bytes \<Rightarrow> fleet_stage \<times> unit ires" where
  "stage_delta lay pe s st effect =
     (case decode_delta lay pe effect (fs_max_event_bytes s) (c_name_bytes (fs_caps s)) (c_decoded_bytes (fs_caps s)) of
        Inl e \<Rightarrow> (s, Inl e)
      | Inr d \<Rightarrow> (case growth st d of
            Inl e \<Rightarrow> (s, Inl e)
          | Inr (before, may_grow) \<Rightarrow>
              if may_grow \<and> fs_rows s \<ge> c_rows (fs_caps s) then (s, Inl Capacity)
              else (case apply_delta lay d st of (st, _, name) \<Rightarrow> recount (s\<lparr>fs_index := Some st\<rparr>) st before name)))"

fun stage_deltas ::
  "layout \<Rightarrow> (string \<Rightarrow> etag option) \<Rightarrow> nat \<Rightarrow> journal_delta list \<Rightarrow> fleet_stage \<Rightarrow> fleet_stage \<times> nat ires" where
  "stage_deltas lay pe expected [] s = (s, Inr expected)"
| "stage_deltas lay pe expected (d # ds) s =
     (case checked_add64 expected 1 of
        None \<Rightarrow> (s, Inl Capacity)
      | Some expected \<Rightarrow>
          if jd_position d \<noteq> expected then (s, Inl Corrupt)
          else (case fs_index s of
              None \<Rightarrow> (s, Inl Incomplete)
            | Some st \<Rightarrow> (case stage_delta lay pe s st (jd_effect d) of
                  (s, Inl e) \<Rightarrow> (s, Inl e)
                | (s, Inr _) \<Rightarrow> stage_deltas lay pe expected ds s)))"

definition stage_batch ::
  "layout \<Rightarrow> (string \<Rightarrow> etag option) \<Rightarrow> fleet_stage \<Rightarrow> journal_batch \<Rightarrow> fleet_stage \<times> unit ires" where
  "stage_batch lay pe s batch =
     (if fs_index s = None then (s, Inl Incomplete)
      else if jb_from batch \<noteq> fs_through s \<or> jc_capture (jb_through batch) \<noteq> jc_capture (fs_through s) \<or> jb_deltas batch = []
      then (s, Inl Corrupt)
      else case stage_deltas lay pe (jc_position (fs_through s)) (jb_deltas batch) s of
          (s, Inl e) \<Rightarrow> (s, Inl e)
        | (s, Inr expected) \<Rightarrow>
            if expected \<noteq> jc_position (jb_through batch) then (s, Inl Corrupt)
            else (s\<lparr>fs_through := jb_through batch\<rparr>, Inr ()))"

definition stage_image :: "fleet_stage \<Rightarrow> nat \<times> nat" where
  "stage_image s = (fs_rows s, fs_expected_bytes s)"

definition check_coverage ::
  "cut_aligner \<Rightarrow> fleet_stage \<Rightarrow> key_index_state \<Rightarrow> native_cut list \<Rightarrow> string list \<Rightarrow> install_refusal + unit" where
  "check_coverage align s lv cuts universe = (case fs_index s of
       None \<Rightarrow> Inl (refuse_whole Unavailable)
     | Some candidate \<Rightarrow> fleet_install_check align lv candidate cuts universe (c_rows (fs_caps s)))"

definition install_into ::
  "layout \<Rightarrow> cut_aligner \<Rightarrow> fleet_stage \<Rightarrow> key_index_state \<Rightarrow> native_cut list \<Rightarrow> string list
   \<Rightarrow> fleet_stage \<times> key_index_state \<times> index_capture option \<times> (install_refusal + unit)" where
  "install_into lay align s lv cuts universe =
     (case install_fleet_candidate lay align lv (fs_index s) cuts universe (c_rows (fs_caps s)) of
        (lv, left, withdrawn, r) \<Rightarrow> (s\<lparr>fs_index := left\<rparr>, lv, withdrawn, r))"

section \<open>What the donor journals\<close>

definition call_effects :: "journal_call list \<Rightarrow> bytes list" where
  "call_effects cs = concat (map (\<lambda>c. case c of Invalidate _ \<Rightarrow> [] | Append _ _ b \<Rightarrow> [b] | Renew _ _ _ b \<Rightarrow> [b]) cs)"

definition valid_calls :: "journal_call list \<Rightarrow> bool" where
  "valid_calls cs \<longleftrightarrow> (\<forall>c \<in> set cs. case c of Invalidate _ \<Rightarrow> False | _ \<Rightarrow> True)"

text \<open>The capture issued further calls; unless one of them withdrew it, they carry exactly these effects.\<close>

definition journals :: "index_capture \<Rightarrow> index_capture \<Rightarrow> index_delta list \<Rightarrow> bool" where
  "journals c c' ds \<longleftrightarrow> (\<exists>new. ing_calls (ic_ingress c') = ing_calls (ic_ingress c) @ new
     \<and> (valid_calls new \<longrightarrow> call_effects new = map enc_delta ds))"

lemma journals_refl [intro]: "journals c c []"
  by (auto simp: journals_def call_effects_def)

lemma journals_trans:
  assumes "journals c c' ds" "journals c' c'' ds'"
  shows "journals c c'' (ds @ ds')"
proof -
  obtain new new' where "ing_calls (ic_ingress c') = ing_calls (ic_ingress c) @ new" "valid_calls new \<longrightarrow> call_effects new = map enc_delta ds"
    "ing_calls (ic_ingress c'') = ing_calls (ic_ingress c') @ new'" "valid_calls new' \<longrightarrow> call_effects new' = map enc_delta ds'"
    using assms by (auto simp: journals_def)
  then show ?thesis
    unfolding journals_def by (intro exI [of _ "new @ new'"]) (auto simp: valid_calls_def call_effects_def)
qed

lemma journals_invalidate [intro]: "journals c (capture_invalidate c r) ds"
  by (auto simp: journals_def capture_invalidate_def journal_issue_def valid_calls_def)

lemma journals_append_bytes: "journals c (append_bytes c i (enc_delta d)) [d]"
  by (auto simp: journals_def append_bytes_def journal_issue_def call_effects_def)

lemma journals_append_local: "journals c (append_local c (enc_delta d)) [d]"
  by (auto simp: append_local_def journals_def capture_invalidate_def append_bytes_def journal_issue_def valid_calls_def
      call_effects_def split: option.split)

lemma journals_append_effect:
  assumes "\<And>b. effect = Inr b \<Longrightarrow> b = enc_delta d"
  shows "journals c (append_effect c i effect) [d]"
  using assms journals_append_bytes journals_append_local
  by (auto simp: append_effect_def split: sum.split option.split)

lemma journals_put: "journals c (record_put c i bucket key e) [DPut bucket key e]"
  using encode_put_sound by (auto simp: record_put_def intro!: journals_append_effect)

lemma journals_delete: "journals c (record_delete c i bucket key t) [DDelete bucket key t]"
  using encode_delete_sound by (auto simp: record_delete_def intro!: journals_append_effect)

lemma journals_noop: "journals c (record_native_noop c i) [DNoop]"
  using encode_delta_sound by (auto simp: record_native_noop_def intro!: journals_append_effect)

lemma journals_renewal: "journals c (record_renewal c sealed epoch) [DNoop]"
  using encode_delta_sound [of DNoop]
  by (auto simp: record_renewal_def journals_def journal_issue_def call_effects_def capture_invalidate_def valid_calls_def
      split: sum.split)

lemmas journals_intros = journals_put journals_delete journals_noop journals_renewal

text \<open>The same on an index that holds a capture.\<close>

definition index_journals :: "key_index_state \<Rightarrow> key_index_state \<Rightarrow> index_delta list \<Rightarrow> bool" where
  "index_journals st st' ds \<longleftrightarrow> (\<exists>c c'. ki_capture st = Some c \<and> ki_capture st' = Some c' \<and> journals c c' ds)"

lemma index_journals_same:
  "ki_capture st \<noteq> None \<Longrightarrow> ki_capture st' = ki_capture st \<Longrightarrow> index_journals st st' []"
  by (auto simp: index_journals_def)

lemma index_journals_trans:
  "index_journals st st' ds \<Longrightarrow> index_journals st' st'' ds' \<Longrightarrow> index_journals st st'' (ds @ ds')"
  by (auto simp: index_journals_def intro: journals_trans)

lemma index_journals_frame [simp]:
  "index_journals st (bucket_set st' n b) ds = index_journals st st' ds"
  "index_journals st (st'\<lparr>ki_stats := s\<rparr>) ds = index_journals st st' ds"
  "index_journals st (st'\<lparr>ki_native_cuts := nc\<rparr>) ds = index_journals st st' ds"
  "index_journals (bucket_set st n b) st' ds = index_journals st st' ds"
  by (simp_all add: index_journals_def)

lemma index_journals_step:
  assumes "index_journals st st' []" "\<And>c. journals c (f c) ds"
  shows "index_journals st (journal f st') ds"
  using assms journals_trans [of _ _ "[]"] by (fastforce simp: index_journals_def journal_def)

lemma index_journals_withdraw:
  assumes "index_journals st st' ds"
  shows "index_journals st (withdraw r st') ds"
  using assms journals_trans [OF _ journals_invalidate [where ds = "[]"]] by (fastforce simp: index_journals_def journal_def)

lemma index_journals_note:
  assumes "ki_capture st \<noteq> None"
  shows "index_journals st (fst (note_identity st i)) []"
proof -
  have same: "index_journals st st []"
    using assms by (simp add: index_journals_same)
  then show ?thesis
    using index_journals_withdraw [OF same] index_journals_withdraw
    by (auto simp: note_identity_def note_native_cut_def Let_def split: option.split delta_identity.split prod.split)
qed

lemma index_journals_open: "index_journals st st' [] \<Longrightarrow> index_journals st (open_bucket st' n) []"
  using index_journals_withdraw by (auto simp: open_bucket_def invalidate_capture_for_rebuild_def Let_def)

section \<open>Effects on the rows\<close>

type_synonym rows_view = "(string \<Rightarrow> string \<Rightarrow> obj_entry option) \<times> (string \<Rightarrow> string \<Rightarrow> systime option)"

definition index_view :: "key_index_state \<Rightarrow> rows_view" where
  "index_view st = (live st, dead st)"

definition set2 :: "string \<Rightarrow> string \<Rightarrow> 'a \<Rightarrow> (string \<Rightarrow> string \<Rightarrow> 'a) \<Rightarrow> string \<Rightarrow> string \<Rightarrow> 'a" where
  "set2 n k v f = f(n := (f n)(k := v))"

lemma set2_apply [simp]: "set2 n k v f m l = (if m = n \<and> l = k then v else f m l)"
  by (simp add: set2_def)

lemma set2_same: "set2 n k (f n k) f = f"
  by (simp add: set2_def)

fun delta_view :: "index_delta \<Rightarrow> rows_view \<Rightarrow> rows_view" where
  "delta_view (DPut n k e) (lv, dd) =
     (if deleted_by (dd n k) e \<or> (case lv n k of None \<Rightarrow> False | Some p \<Rightarrow> e_last_modified p > e_last_modified e)
      then (lv, dd) else (set2 n k (Some e) lv, dd))"
| "delta_view (DDelete n k t) (lv, dd) =
     ((case lv n k of Some p \<Rightarrow> if e_last_modified p > t then lv else set2 n k None lv | None \<Rightarrow> lv),
      set2 n k (Some (case dd n k of None \<Rightarrow> t | Some d \<Rightarrow> max d t)) dd)"
| "delta_view DNoop v = v"

lemma view_eqI:
  assumes "\<And>m l. live st m l = fst v m l" "\<And>m l. dead st m l = snd v m l"
  shows "index_view st = v"
  using assms by (cases v) (auto simp: index_view_def fun_eq_iff)

text \<open>Replaying an effect onto a stage.\<close>

lemma apply_delta_view:
  fixes d st
  assumes "index_ok lay st" "\<And>n. \<not> rebuilding st n"
  defines "st' \<equiv> fst (apply_delta lay d st)"
  shows "index_view st' = delta_view d (index_view st)" "index_ok lay st'" "\<And>n. \<not> rebuilding st' n"
proof -
  have touched: "bs_rebuild_touched (bucket_entry st n) = []" for n
    using index_ok_entry [OF assms(1), of n] assms(2) [of n] by (simp add: bucket_ok_def rebuild_ok_def rebuilding_def)
  have all: "index_view st' = delta_view d (index_view st) \<and> index_ok lay st' \<and> (\<forall>n. \<not> rebuilding st' n)"
  proof (cases d)
    case (DPut n k e)
    note put = put_view [OF assms(2) touched, where bucket = n and lay = lay and key = k and e = e]
    have "index_ok lay st'"
      using assms(1) by (simp add: st'_def apply_delta_def DPut apply_put_def case_prod_beta index_ok_put)
    moreover have "index_view st' = delta_view d (index_view st)"
      by (rule view_eqI) (simp_all add: st'_def apply_delta_def DPut case_prod_beta put index_view_def deleted_by_def
          tombstone_at_least_def entry_newer_def live_def [symmetric] dead_def [symmetric])
    ultimately show ?thesis
      using put(3) assms(2) by (simp add: st'_def apply_delta_def DPut case_prod_beta)
  next
    case (DDelete n k t)
    note del = del_view [OF assms(2) assms(1), where sweep = Hold and bucket = n and key = k and ts = t, simplified]
    have "index_ok lay st'"
      using assms(1) by (simp add: st'_def apply_delta_def DDelete apply_replayed_del_def case_prod_beta index_ok_del)
    moreover have "index_view st' = delta_view d (index_view st)"
      by (rule view_eqI) (auto simp: st'_def apply_delta_def DDelete case_prod_beta apply_replayed_del_def del index_view_def
          entry_newer_def live_def [symmetric] split: option.splits)
    ultimately show ?thesis
      using del(3) assms(2) by (simp add: st'_def apply_delta_def DDelete apply_replayed_del_def case_prod_beta)
  next
    case DNoop
    then show ?thesis
      using assms(1,2) by (simp add: st'_def apply_delta_def)
  qed
  then show "index_view st' = delta_view d (index_view st)" "index_ok lay st'" "\<And>n. \<not> rebuilding st' n"
    by blast+
qed

text \<open>The wire form drops what the image drops, and the effects do not depend on it.\<close>

definition skel_view :: "rows_view \<Rightarrow> rows_view" where
  "skel_view v = (\<lambda>n k. map_option skeletal (fst v n k), snd v)"

lemma skeletal_stamp [simp]: "e_last_modified (skeletal e) = e_last_modified e"
  by (simp add: skeletal_def)

lemma delta_view_skeletal: "skel_view (delta_view d v) = delta_view (delta_skeletal d) (skel_view v)"
  by (cases d; cases v)
    (auto simp: skel_view_def delta_skeletal_def deleted_by_def fun_eq_iff split: option.splits)

lemma delta_views_skeletal: "skel_view (fold delta_view ds v) = fold delta_view (map delta_skeletal ds) (skel_view v)"
  by (induction ds arbitrary: v) (simp_all add: delta_view_skeletal)

section \<open>The donor's writes\<close>

text \<open>A donor's index holds a capture and rebuilds nothing. Each operation then journals effects that
  describe exactly what it did to the rows.\<close>

definition donating :: "layout \<Rightarrow> key_index_state \<Rightarrow> bool" where
  "donating lay st \<longleftrightarrow> index_ok lay st \<and> ki_capture st \<noteq> None \<and> (\<forall>n. \<not> rebuilding st n)"

definition faithful_step :: "layout \<Rightarrow> key_index_state \<Rightarrow> index_delta list \<Rightarrow> key_index_state \<Rightarrow> bool" where
  "faithful_step lay st ds st' \<longleftrightarrow> donating lay st' \<and> index_journals st st' ds \<and> index_view st' = fold delta_view ds (index_view st)"

text \<open>The effects each operation stands for.\<close>

definition noop_log :: "delta_identity option \<Rightarrow> index_delta list" where
  "noop_log i = (if i = None then [] else [DNoop])"

definition put_log ::
  "layout \<Rightarrow> key_index_state \<Rightarrow> string \<Rightarrow> string \<Rightarrow> obj_entry \<Rightarrow> put_authority \<Rightarrow> delta_identity option \<Rightarrow> index_delta list" where
  "put_log lay st bucket key e auth i =
     (if \<not> snd (note_identity st i) then []
      else if snd (apply_put_with_authority lay st bucket key e auth i) then [DPut bucket key e] else noop_log i)"

definition del_stamp :: "key_index_state \<Rightarrow> string \<Rightarrow> string \<Rightarrow> systime \<Rightarrow> systime" where
  "del_stamp st bucket key ts = (case dead st bucket key of None \<Rightarrow> ts | Some d \<Rightarrow> max d ts)"

definition del_log ::
  "layout \<Rightarrow> key_index_state \<Rightarrow> string \<Rightarrow> string \<Rightarrow> systime \<Rightarrow> delta_identity option \<Rightarrow> tombstone_sweep \<Rightarrow> index_delta list" where
  "del_log lay st bucket key ts i sweep =
     (if \<not> snd (note_identity st i) then []
      else if snd (apply_del_with_identity lay st bucket key ts i sweep) \<or> dead st bucket key \<noteq> Some (del_stamp st bucket key ts)
      then [DDelete bucket key (del_stamp st bucket key ts)] else noop_log i)"

definition complete_log :: "layout \<Rightarrow> key_index_state \<Rightarrow> string \<Rightarrow> string \<Rightarrow> entry_fill \<Rightarrow> index_delta list" where
  "complete_log lay st bucket key fill = (case live (fst (complete_entry lay st bucket key fill)) bucket key of
       Some e \<Rightarrow> if snd (complete_entry lay st bucket key fill) = Completed then [DPut bucket key e] else []
     | None \<Rightarrow> [])"

definition renew_log :: "key_index_state \<Rightarrow> native_cut \<Rightarrow> nat \<Rightarrow> index_delta list" where
  "renew_log st sealed epoch = (if map_of (ki_native_cuts st) (nc_writer sealed) = Some (nc_epoch sealed, nc_sequence sealed)
     \<and> nc_epoch sealed < epoch then [DNoop] else [])"

lemma donating_touched: "donating lay st \<Longrightarrow> bs_rebuild_touched (bucket_entry st n) = [] \<and> bs_rebuild_generation (bucket_entry st n) = None"
  using index_ok_entry [of lay st n] by (auto simp: donating_def bucket_ok_def rebuild_ok_def rebuilding_def)

lemma index_journals_capture: "index_journals st st' ds \<Longrightarrow> ki_capture st' \<noteq> None"
  by (auto simp: index_journals_def)

lemma view_same: "bucket_entry st' = bucket_entry st \<Longrightarrow> index_view st' = index_view st"
  by (simp add: index_view_def live_def dead_def fun_eq_iff)

lemma noops_view: "set ds \<subseteq> {DNoop} \<Longrightarrow> fold delta_view ds v = v"
  by (induction ds arbitrary: v) auto

lemma index_journals_noop:
  assumes "index_journals st st' []"
  shows "index_journals st (journal_noop i st') (noop_log i)"
proof (cases i)
  case (Some x)
  have "index_journals st (journal (\<lambda>c. record_native_noop c x) st') [DNoop]"
    by (rule index_journals_step [OF assms journals_noop])
  then show ?thesis
    using Some by (simp add: journal_noop_def noop_log_def)
qed (use assms in \<open>simp add: journal_noop_def noop_log_def\<close>)

lemma noop_log_view: "set (noop_log i) \<subseteq> {DNoop}"
  by (simp add: noop_log_def)

lemma faithful_unchanged:
  assumes "donating lay st" "index_journals st st' ds" "set ds \<subseteq> {DNoop}" "bucket_entry st' = bucket_entry st" "index_ok lay st'"
  shows "faithful_step lay st ds st'"
  using assms index_journals_capture [OF assms(2)] view_same [OF assms(4)] noops_view [OF assms(3)]
  by (simp add: faithful_step_def donating_def rebuilding_def)

lemma put_journals:
  assumes "ki_capture st \<noteq> None"
  shows "index_journals st (fst (apply_put_with_authority lay st bucket key e auth i)) (put_log lay st bucket key e auth i)"
proof -
  let ?st = "open_bucket (fst (note_identity st i)) bucket"
  have noted: "index_journals st (fst (note_identity st i)) []"
    using index_journals_note [OF assms(1)] .
  note opened = index_journals_open [OF noted, of bucket]
  have put: "index_journals st (journal (\<lambda>c. record_put c i bucket key e) (bucket_set (?st\<lparr>ki_stats := tot\<rparr>) bucket b)) [DPut bucket key e]" for tot b
    by (rule index_journals_step [OF _ journals_put]) (simp add: opened)
  show ?thesis
    using noted index_journals_noop [OF opened] put unfolding put_log_def apply_put_with_authority_def
    by (auto simp: Let_def case_prod_beta)
qed

lemma put_faithful:
  assumes "donating lay st"
  shows "faithful_step lay st (put_log lay st bucket key e auth i) (fst (apply_put_with_authority lay st bucket key e auth i))"
proof -
  let ?r = "apply_put_with_authority lay st bucket key e auth i"
  let ?p = "put_bucket lay (bucket_entry st bucket) (ki_stats st) key e (auth = DefinitiveMutation)"
  have ds: "index_journals st (fst ?r) (put_log lay st bucket key e auth i)"
    using put_journals assms by (auto simp: donating_def)
  have ok: "index_ok lay (fst ?r)"
    using assms by (simp add: donating_def index_ok_put)
  have entry: "bucket_entry (fst ?r) m = (if m = bucket then fst (fst ?p) else bucket_entry st m)"
    if "snd (note_identity st i)" for m
    using put_effect(1) [OF that] by (simp add: bucket_entry_insert)
  note t = donating_touched [OF assms, of bucket]
  show ?thesis
  proof (cases "snd ?r")
    case False
    then have "bucket_entry (fst ?r) = bucket_entry st"
    proof (cases "snd (note_identity st i)")
      case fresh: True
      then show ?thesis
        using False put_effect(3) [OF fresh, of lay bucket key e auth] t
        by (auto simp: entry [OF fresh] fun_eq_iff put_bucket_def Let_def split: if_splits)
    qed (simp add: put_effect(4))
    then show ?thesis
      using faithful_unchanged [OF assms ds _ _ ok] False noop_log_view by (simp add: put_log_def)
  next
    case True
    then have fresh: "snd (note_identity st i)"
      using put_effect(4) [of st i lay bucket key e auth] by fastforce
    have chg: "\<not> tombstone_at_least (bucket_entry st bucket) key (e_last_modified e)" "\<not> entry_newer (bucket_entry st bucket) key (e_last_modified e)"
      using True put_effect(3) [OF fresh, of lay bucket key e auth] t by (auto simp: put_bucket_def Let_def split: if_splits)
    have b: "kr_get (bs_keys (fst (fst ?p))) = (kr_get (bs_keys (bucket_entry st bucket)))(key \<mapsto> e)"
      "bs_gone (fst (fst ?p)) = bs_gone (bucket_entry st bucket)" "bs_rebuild_generation (fst (fst ?p)) = None"
      using chg t by (auto simp: put_bucket_def Let_def index_row_fst)
    have "index_view (fst ?r) = delta_view (DPut bucket key e) (index_view st)"
      using chg by (intro view_eqI)
        (auto simp: index_view_def deleted_by_def live_def dead_def entry [OF fresh] b tombstone_at_least_def entry_newer_def split: option.splits)
    moreover have "\<not> rebuilding (fst ?r) n" for n
      using assms by (simp add: rebuilding_def entry [OF fresh] b donating_def)
    ultimately show ?thesis
      using ds True fresh ok index_journals_capture [OF ds] by (simp add: faithful_step_def donating_def put_log_def)
  qed
qed

lemma del_journals:
  fixes lay st bucket key ts i sweep
  assumes "donating lay st" "snd (note_identity st i)"
  defines "r \<equiv> apply_del_with_identity lay st bucket key ts i sweep"
    and "b \<equiv> bucket_entry st bucket"
    and "d \<equiv> del_stamp st bucket key ts"
  shows "index_journals st (fst r) (if snd r \<or> gr_get (bs_gone b) key \<noteq> Some d then [DDelete bucket key d] else noop_log i)"
proof -
  let ?st = "open_bucket (fst (note_identity st i)) bucket"
  have cap: "ki_capture st \<noteq> None"
    using assms(1) by (simp add: donating_def)
  note opened = index_journals_open [OF index_journals_note [OF cap, of i], of bucket]
  have d: "d = (case gr_get (bs_gone b) key of None \<Rightarrow> ts | Some d \<Rightarrow> max d ts)"
    by (simp add: d_def del_stamp_def dead_def b_def)
  have del: "index_journals st (journal_delete chg i bucket key (gr_raise lay (bs_gone b) key ts) st1)
      (if chg then [DDelete bucket key d] else noop_log i)" if st1: "index_journals st st1 []" for chg st1
  proof (cases chg)
    case True
    have "the (gr_get (gr_raise lay (bs_gone b) key ts) key) = d"
      by (simp add: gr_get_raise d)
    moreover have "index_journals st (journal (\<lambda>c. record_delete c i bucket key d) st1) [DDelete bucket key d]"
      by (rule index_journals_step [OF st1 journals_delete])
    ultimately show ?thesis
      using True by (simp add: journal_delete_def)
  next
    case False
    then show ?thesis
      using index_journals_noop [OF st1] by (simp add: journal_delete_def)
  qed
  have raised: "(gr_get (gr_raise lay (bs_gone b) key ts) key \<noteq> gr_get (bs_gone b) key) = (gr_get (bs_gone b) key \<noteq> Some d)"
    by (auto simp: gr_get_raise d)
  have norebuild: "bs_rebuild_generation b = None"
    using donating_touched [OF assms(1)] by (simp add: b_def)
  let ?b' = "b\<lparr>bs_gone := gr_raise lay (bs_gone b) key ts\<rparr>"
  let ?u = "unindex_row lay (touch (clear_uncertain ?b' key) key) (ki_stats ?st) key"
  obtain c where c: "ki_capture ?st = Some c"
    using index_journals_capture [OF opened] by auto
  have held: "sweep_for_delete lay sweep True (bs_gone b) ts = bs_gone b"
    by (simp add: sweep_for_delete_def)
  define older where "older = (\<not> entry_newer ?b' key ts \<and> \<not> (case gr_get (bs_gone b) key of None \<Rightarrow> False | Some x \<Rightarrow> x > ts))"
  define st1 where "st1 = (if older then bucket_set (?st\<lparr>ki_stats := snd (fst ?u)\<rparr>) bucket (fst (fst ?u)) else bucket_set ?st bucket ?b')"
  have r: "fst r = journal_delete (snd r \<or> gr_get (bs_gone b) key \<noteq> Some d) i bucket key (gr_raise lay (bs_gone b) key ts) st1"
    using assms(2) norebuild
    by (simp add: st1_def r_def apply_del_with_identity_def case_prod_beta Let_def b_def [symmetric] c held raised [simplified] older_def)
  have "index_journals st st1 []"
    by (simp add: st1_def opened)
  then show ?thesis
    unfolding r by (rule del)
qed

lemma del_faithful:
  assumes "donating lay st"
  shows "faithful_step lay st (del_log lay st bucket key ts i sweep) (fst (apply_del_with_identity lay st bucket key ts i sweep))"
proof -
  let ?r = "apply_del_with_identity lay st bucket key ts i sweep" and ?b = "bucket_entry st bucket"
  let ?d = "del_stamp st bucket key ts"
  let ?p = "del_bucket lay ?b (ki_stats st) key ts (ki_capture st \<noteq> None) sweep"
  have ok: "index_ok lay (fst ?r)"
    using assms by (simp add: donating_def index_ok_del)
  show ?thesis
  proof (cases "snd (note_identity st i)")
    case False
    then show ?thesis
      using index_journals_note [of st i] assms ok
      by (intro faithful_unchanged [OF assms]) (simp_all add: del_effect(4) donating_def del_log_def)
  next
    case fresh: True
    have ds: "index_journals st (fst ?r) (if snd ?r \<or> gr_get (bs_gone ?b) key \<noteq> Some ?d then [DDelete bucket key ?d] else noop_log i)"
      using del_journals [OF assms fresh] by simp
    have d: "?d = (case gr_get (bs_gone ?b) key of None \<Rightarrow> ts | Some d \<Rightarrow> max d ts)"
      by (simp add: del_stamp_def dead_def)
    obtain b' where b': "fst (fst ?p) = b'"
      by blast
    have entry: "bucket_entry (fst ?r) m = (if m = bucket then b' else bucket_entry st m)" for m
      using del_effect(1) [OF fresh] b' by (simp add: bucket_entry_insert)
    obtain c where c: "ki_capture st = Some c"
      using assms by (auto simp: donating_def)
    have held: "sweep_for_delete lay sweep True (bs_gone ?b) ts = bs_gone ?b"
      by (simp add: sweep_for_delete_def)
    have norebuild: "bs_rebuild_generation ?b = None"
      using donating_touched [OF assms] by simp
    have order: "t < e_last_modified e" if "kr_get (bs_keys ?b) key = Some e" "gr_get (bs_gone ?b) key = Some t" for e t
      using that index_ok_entry [of lay st bucket] assms by (auto simp: donating_def bucket_ok_def rows_ok_def row_order_def)
    have keys: "kr_get (bs_keys b') = (if entry_newer ?b key ts then kr_get (bs_keys ?b) else (kr_get (bs_keys ?b))(key := None))"
      unfolding b' [symmetric]
      by (auto simp: del_bucket_def Let_def norebuild held c entry_newer_def split: option.splits dest: order)
    have gone: "gr_get (bs_gone b') = (gr_get (bs_gone ?b))(key \<mapsto> ?d)" "bs_rebuild_generation b' = None"
      unfolding b' [symmetric] d by (auto simp: del_bucket_def Let_def norebuild held c gr_get_raise unindex_row_eq split: option.splits)
    have view: "index_view (fst ?r) = delta_view (DDelete bucket key ?d) (index_view st)"
      using order by (intro view_eqI)
        (auto simp: index_view_def live_def dead_def entry keys gone [unfolded d] d entry_newer_def split: option.splits)
    have "index_view (fst ?r) = index_view st" if "\<not> snd ?r" "gr_get (bs_gone ?b) key = Some ?d"
    proof -
      have "kr_get (bs_keys b') key = kr_get (bs_keys ?b) key"
        unfolding b' [symmetric] using that del_effect(3) [OF fresh, of lay bucket key ts sweep]
        by (auto simp: del_bucket_def Let_def norebuild held c unindex_row_eq split: option.splits if_splits)
      then show ?thesis
        using that gone by (intro view_eqI) (auto simp: index_view_def live_def dead_def entry keys split: if_splits)
    qed
    moreover have "\<not> rebuilding (fst ?r) n" for n
      using assms by (simp add: rebuilding_def entry gone donating_def)
    ultimately show ?thesis
      using ds view ok fresh index_journals_capture [OF ds] noops_view [OF noop_log_view [of i]]
      by (cases "snd ?r \<or> gr_get (bs_gone ?b) key \<noteq> Some ?d")
        (simp_all add: faithful_step_def donating_def del_log_def dead_def [symmetric])
  qed
qed

lemma seal_faithful:
  assumes "donating lay st"
  shows "faithful_step lay st (if snd (note_native_cut st nc) then [DNoop] else []) (note_native_seal st nc)"
proof (rule faithful_unchanged [OF assms])
  have noted: "index_journals st (fst (note_native_cut st nc)) []"
    using index_journals_note [of st "Some (Native nc)"] assms by (simp add: note_identity_def donating_def)
  have "index_journals st (journal (\<lambda>c. record_native_noop c (Native nc)) (fst (note_native_cut st nc))) [DNoop]"
    by (rule index_journals_step [OF noted journals_noop])
  then show "index_journals st (note_native_seal st nc) (if snd (note_native_cut st nc) then [DNoop] else [])"
    using noted by (simp add: note_native_seal_def case_prod_beta split: bool.split)
  show "bucket_entry (note_native_seal st nc) = bucket_entry st"
    by (auto simp: note_native_seal_def fun_eq_iff case_prod_beta split: bool.split)
  show "index_ok lay (note_native_seal st nc)"
    using assms by (auto simp: donating_def intro: wf_intros)
qed auto

lemma renewal_faithful:
  assumes "donating lay st"
  shows "faithful_step lay st (renew_log st sealed epoch) (renew_native_writer st sealed epoch)"
proof (rule faithful_unchanged [OF assms])
  have same: "index_journals st st []"
    using assms by (auto simp: donating_def intro: index_journals_same)
  have "index_journals st (journal (\<lambda>c. record_renewal c sealed epoch) (st\<lparr>ki_native_cuts := nc\<rparr>)) [DNoop]" for nc
    by (rule index_journals_step [OF _ journals_renewal]) (simp add: same)
  moreover have "index_journals st (withdraw InvGap (st\<lparr>ki_native_cuts := nc\<rparr>)) []" for nc
    by (rule index_journals_withdraw) (simp add: same)
  ultimately show "index_journals st (renew_native_writer st sealed epoch) (renew_log st sealed epoch)"
    using same by (auto simp: renew_native_writer_def renew_log_def Let_def split: option.split)
  show "bucket_entry (renew_native_writer st sealed epoch) = bucket_entry st"
    by (auto simp: renew_native_writer_def fun_eq_iff Let_def bucket_entry_def split: option.split)
  show "index_ok lay (renew_native_writer st sealed epoch)"
    using assms cut_moves_ok(3) by (auto simp: donating_def)
qed (auto simp: renew_log_def)

lemma fill_entry_noop: "\<not> filled fill e \<Longrightarrow> fill_entry fill e = e"
  by (cases e) (auto simp: filled_def fill_entry_def)

lemma complete_faithful:
  assumes "donating lay st"
  shows "faithful_step lay st (complete_log lay st bucket key fill) (fst (complete_entry lay st bucket key fill))"
proof -
  let ?r = "complete_entry lay st bucket key fill"
  have same: "index_journals st st []"
    using assms by (auto simp: donating_def intro: index_journals_same)
  show ?thesis
  proof (cases "live st bucket key")
    case None
    then have "fst ?r = st"
      using kr_update_result [of lay "bs_keys (bucket_entry st bucket)" key "complete_row fill"]
      by (auto simp: complete_entry_def live_def bucket_entry_def split: option.splits prod.splits)
    then show ?thesis
      using assms same None by (simp add: faithful_step_def complete_log_def)
  next
    case (Some e)
    let ?b = "bucket_entry st bucket" and ?e = "fst (complete_row fill e)"
    have get: "bucket_get st bucket = Some ?b" "kr_get (bs_keys ?b) key = Some e"
      using Some by (auto simp: live_def bucket_entry_def bucket_default_def key_rows_default_def kr_get_def split: option.splits)
    have upd: "kr_update lay (bs_keys ?b) key (complete_row fill) = (fst (kr_update lay (bs_keys ?b) key (complete_row fill)), Some (snd (complete_row fill e)))"
      using kr_update_result [of lay "bs_keys ?b" key "complete_row fill"] get(2) by (metis comp_apply option.simps(9) prod.collapse)
    obtain keys where keys: "kr_update lay (bs_keys ?b) key (complete_row fill) = (keys, Some (snd (complete_row fill e)))"
      using upd by blast
    have kget: "kr_get keys = (kr_get (bs_keys ?b))(key \<mapsto> ?e)"
      using kr_get_update [of lay "bs_keys ?b" key "complete_row fill"] keys get(2) by simp
    have put: "index_journals st (journal (\<lambda>c. record_put c None bucket key ?e) (bucket_set (st\<lparr>ki_stats := tot\<rparr>) bucket b)) [DPut bucket key ?e]" for tot b
      by (rule index_journals_step [OF _ journals_put]) (simp add: same)
    have stamp: "e_last_modified ?e = e_last_modified e"
      by (rule complete_row_stamp)
    have live': "live (fst ?r) n k = set2 bucket key (Some ?e) (live st) n k" for n k
      using complete_entry_live(1) [OF Some] by simp
    have "\<exists>s. ki_buckets (fst ?r) = ki_buckets st \<or> ki_buckets (fst ?r) = om_insert bucket (?b\<lparr>bs_keys := keys, bs_stats := s\<rparr>) (ki_buckets st)"
      using complete_effect [OF get(1), of lay key fill] keys by simp
    then have frame: "bs_gone (bucket_entry (fst ?r) n) = bs_gone (bucket_entry st n)"
      "bs_rebuild_generation (bucket_entry (fst ?r) n) = bs_rebuild_generation (bucket_entry st n)" for n
      by (auto simp: bucket_entry_insert) (simp_all add: bucket_entry_def bucket_get_def)
    have rest: "dead (fst ?r) n k = dead st n k" "rebuilding (fst ?r) n = rebuilding st n" for n k
      by (simp_all add: dead_def rebuilding_def frame)
    have noop: "index_view (fst ?r) = index_view st" if "?e = e"
      using that Some by (intro view_eqI) (auto simp: index_view_def live' rest)
    have order: "t < e_last_modified e" if "dead st bucket key = Some t" for t
      using that get(2) index_ok_entry [of lay st bucket] assms
      by (auto simp: dead_def donating_def bucket_ok_def rows_ok_def row_order_def)
    have view: "index_view (fst ?r) = delta_view (DPut bucket key ?e) (index_view st)"
      using Some by (intro view_eqI) (auto simp: index_view_def live' rest deleted_by_def stamp dest: order split: option.split)
    have log: "complete_log lay st bucket key fill = (if same_version e fill \<and> filled fill e then [DPut bucket key ?e] else [])"
      by (simp add: complete_log_def live' complete_entry_live(2) [OF Some])
    have j: "index_journals st (fst ?r) (complete_log lay st bucket key fill)"
      unfolding log using get same put kget
      by (cases "same_version e fill"; cases "filled fill e")
        (auto simp: complete_entry_def keys complete_row_def Let_def account_replacement_def)
    have "?e = e" if "\<not> (same_version e fill \<and> filled fill e)"
      using that fill_entry_noop by (auto simp: complete_row_def Let_def)
    then have "index_view (fst ?r) = fold delta_view (complete_log lay st bucket key fill) (index_view st)"
      using view noop by (simp add: log)
    moreover have "index_ok lay (fst ?r)"
      using assms by (auto simp: donating_def intro: wf_intros)
    ultimately show ?thesis
      using j rest(2) assms index_journals_capture [OF j] by (simp add: faithful_step_def donating_def)
  qed
qed

section \<open>Replication\<close>

inductive donor_run :: "layout \<Rightarrow> key_index_state \<Rightarrow> index_delta list \<Rightarrow> key_index_state \<Rightarrow> bool" for lay where
  Start: "donor_run lay st [] st"
| DonorPut: "donor_run lay st ds st' \<Longrightarrow> donor_run lay st (ds @ put_log lay st' bucket key e auth i)
     (fst (apply_put_with_authority lay st' bucket key e auth i))"
| DonorDelete: "donor_run lay st ds st' \<Longrightarrow> donor_run lay st (ds @ del_log lay st' bucket key ts i sweep)
     (fst (apply_del_with_identity lay st' bucket key ts i sweep))"
| DonorComplete: "donor_run lay st ds st' \<Longrightarrow> donor_run lay st (ds @ complete_log lay st' bucket key fill)
     (fst (complete_entry lay st' bucket key fill))"
| DonorSeal: "donor_run lay st ds st' \<Longrightarrow> donor_run lay st (ds @ (if snd (note_native_cut st' nc) then [DNoop] else []))
     (note_native_seal st' nc)"
| DonorRenewal: "donor_run lay st ds st' \<Longrightarrow> donor_run lay st (ds @ renew_log st' sealed epoch)
     (renew_native_writer st' sealed epoch)"

lemma faithful_trans:
  assumes "faithful_step lay st ds st'" "donating lay st' \<Longrightarrow> faithful_step lay st' ds' st''"
  shows "faithful_step lay st (ds @ ds') st''"
  using assms index_journals_trans by (auto simp: faithful_step_def)

lemma donor_run_faithful: "donor_run lay st ds st' \<Longrightarrow> donating lay st \<Longrightarrow> faithful_step lay st ds st'"
proof (induction rule: donor_run.induct)
  case (Start st)
  then show ?case
    by (auto simp: faithful_step_def donating_def intro: index_journals_same)
qed (blast intro: faithful_trans put_faithful del_faithful complete_faithful seal_faithful renewal_faithful)+

text \<open>One replayed effect.\<close>

definition staged :: "layout \<Rightarrow> fleet_stage \<Rightarrow> rows_view \<Rightarrow> bool" where
  "staged lay s v \<longleftrightarrow> (\<exists>st. fs_index s = Some st \<and> index_ok lay st \<and> (\<forall>n. \<not> rebuilding st n) \<and> index_view st = v)"

definition decodable :: "layout \<Rightarrow> (string \<Rightarrow> etag option) \<Rightarrow> fleet_stage \<Rightarrow> index_delta \<Rightarrow> bool" where
  "decodable lay pe s d \<longleftrightarrow> delta_ok (c_name_bytes (fs_caps s)) pe d
     \<and> length (enc_delta d) \<le> fs_max_event_bytes s \<and> 0 < c_name_bytes (fs_caps s)
     \<and> (\<exists>c. delta_charge lay d = Inr c \<and> c \<le> c_decoded_bytes (fs_caps s))"

definition stage_limits :: "fleet_stage \<Rightarrow> bool" where
  "stage_limits s \<longleftrightarrow> fs_max_event_bytes s \<le> u64_max \<and> 0 < c_decoded_bytes (fs_caps s) \<and> c_decoded_bytes (fs_caps s) \<le> u64_max"

lemma decodable_decodes:
  assumes "decodable lay pe s d" "stage_limits s"
  shows "decode_delta lay pe (enc_delta d) (fs_max_event_bytes s) (c_name_bytes (fs_caps s)) (c_decoded_bytes (fs_caps s)) = Inr (delta_skeletal d)"
proof (cases d)
  case (DPut bucket key e)
  then show ?thesis
    using assms decode_put [of "c_name_bytes (fs_caps s)" bucket pe key e "fs_max_event_bytes s" lay]
    by (auto simp: decodable_def stage_limits_def delta_ok_def delta_skeletal_def)
next
  case (DDelete bucket key t)
  then show ?thesis
    using assms decode_delete [of "c_name_bytes (fs_caps s)" bucket key t "fs_max_event_bytes s" "c_decoded_bytes (fs_caps s)" lay pe]
    by (auto simp: decodable_def stage_limits_def delta_ok_def delta_skeletal_def delta_charge_def)
next
  case DNoop
  then show ?thesis
    using assms decode_noop [of "fs_max_event_bytes s" "c_name_bytes (fs_caps s)" "c_decoded_bytes (fs_caps s)" lay pe]
    by (auto simp: decodable_def stage_limits_def delta_skeletal_def enc_delta_def enc_u8_def)
qed

definition stage_frame :: "fleet_stage \<Rightarrow> fleet_stage \<Rightarrow> bool" where
  "stage_frame s s' \<longleftrightarrow> fs_caps s' = fs_caps s \<and> fs_max_event_bytes s' = fs_max_event_bytes s \<and> fs_through s' = fs_through s"

lemma decodable_frame: "stage_frame s s' \<Longrightarrow> decodable lay pe s' d = decodable lay pe s d"
  "stage_frame s s' \<Longrightarrow> stage_limits s' = stage_limits s"
  by (simp_all add: stage_frame_def decodable_def stage_limits_def)

lemma recount_frame:
  "recount s st before name = (s', r) \<Longrightarrow> fs_index s' = fs_index s \<and> stage_frame s s'"
  by (auto simp: recount_def stage_frame_def split: option.splits if_splits)

lemma stage_delta_view:
  assumes "stage_delta lay pe s st (enc_delta d) = (s', Inr ())" "fs_index s = Some st"
    and "staged lay s v" "decodable lay pe s d" "stage_limits s"
  shows "staged lay s' (delta_view (delta_skeletal d) v) \<and> stage_frame s s'"
proof -
  note dec = decodable_decodes [OF assms(4,5)]
  have st: "index_ok lay st" "\<And>n. \<not> rebuilding st n" "index_view st = v"
    using assms(2,3) by (auto simp: staged_def)
  obtain st' x before name where e: "apply_delta lay (delta_skeletal d) st = (st', x, name)"
    "recount (s\<lparr>fs_index := Some st'\<rparr>) st' before name = (s', Inr ())"
    using assms(1) dec by (auto simp: stage_delta_def split: sum.splits prod.splits if_splits)
  have "fs_index s' = Some st'" "stage_frame s s'"
    using recount_frame [OF e(2)] by (auto simp: stage_frame_def)
  then show ?thesis
    using apply_delta_view [OF st(1,2), of "delta_skeletal d"] st(3) e(1) by (auto simp: staged_def)
qed

lemma stage_deltas_view:
  "stage_deltas lay pe p ds s = (s', Inr q) \<Longrightarrow> staged lay s v \<Longrightarrow> stage_limits s
   \<Longrightarrow> map jd_effect ds = map enc_delta es \<Longrightarrow> \<forall>d \<in> set es. decodable lay pe s d
   \<Longrightarrow> staged lay s' (fold delta_view (map delta_skeletal es) v) \<and> stage_frame s s'"
proof (induction ds arbitrary: p s v es)
  case (Cons d ds)
  obtain e es' where es: "es = e # es'" "jd_effect d = enc_delta e" "map jd_effect ds = map enc_delta es'"
    using Cons.prems(4) by (cases es) auto
  obtain st p' s1 where s1: "fs_index s = Some st" "stage_delta lay pe s st (enc_delta e) = (s1, Inr ())"
    "stage_deltas lay pe p' ds s1 = (s', Inr q)"
    using Cons.prems(1) es(2) by (auto split: option.splits if_splits sum.splits prod.splits)
  have one: "staged lay s1 (delta_view (delta_skeletal e) v)" "stage_frame s s1"
    using stage_delta_view [OF s1(2,1) Cons.prems(2)] Cons.prems(3,5) es(1) by auto
  have "staged lay s' (fold delta_view (map delta_skeletal es') (delta_view (delta_skeletal e) v)) \<and> stage_frame s1 s'"
    using Cons.IH [OF s1(3) one(1) _ es(3)] Cons.prems(3,5) es(1) decodable_frame [OF one(2)] by simp
  then show ?case
    using one(2) by (simp add: es(1) stage_frame_def)
qed (auto simp: stage_frame_def)

lemma stage_follows_core:
  assumes "donating lay dn" "donor_run lay dn ds dn'" "ki_capture dn = Some c" "ki_capture dn' = Some c'"
    and "ing_calls (ic_ingress c') = ing_calls (ic_ingress c) @ new" "valid_calls new"
    and "staged lay s (skel_view (index_view dn))" "stage_limits s" "\<forall>d \<in> set ds. decodable lay pe s d"
    and "map jd_effect (jb_deltas batch) = call_effects new" "stage_batch lay pe s batch = (s', Inr ())"
  shows "staged lay s' (skel_view (index_view dn')) \<and> fs_through s' = jb_through batch"
proof -
  have run: "faithful_step lay dn ds dn'"
    using donor_run_faithful assms(1,2) by blast
  then have "journals c c' ds"
    using assms(3,4) by (auto simp: faithful_step_def index_journals_def)
  then have effects: "map jd_effect (jb_deltas batch) = map enc_delta ds"
    using assms(5,6,10) by (auto simp: journals_def)
  obtain s1 q where s1: "stage_deltas lay pe (jc_position (fs_through s)) (jb_deltas batch) s = (s1, Inr q)"
    "s' = s1\<lparr>fs_through := jb_through batch\<rparr>"
    using assms(11) by (auto simp: stage_batch_def split: if_splits sum.splits prod.splits)
  have "staged lay s1 (fold delta_view (map delta_skeletal ds) (skel_view (index_view dn)))"
    using stage_deltas_view [OF s1(1) assms(7,8) effects assms(9)] by blast
  then have "staged lay s1 (skel_view (index_view dn'))"
    using run by (simp add: faithful_step_def delta_views_skeletal)
  then show ?thesis
    by (simp add: s1(2) staged_def)
qed

text \<open>The stage ends with the donor's rows. A stage that holds the donor's rows at the capture, less the
  fields the image leaves out, and accepts the batch of effects the donor journaled since, holds the
  donor's current rows and tombstones, whatever sequence of puts, deletes, completions, seals and renewals the donor
  performed, own or replicated, won or lost. The hypotheses: the capture was not withdrawn, and the
  journaled effects are well typed and fit the stage's limits.\<close>

theorem stage_follows_donor:
  assumes "donating lay dn" "donor_run lay dn ds dn'" "ki_capture dn = Some c" "ki_capture dn' = Some c'"
    and "ing_calls (ic_ingress c') = ing_calls (ic_ingress c) @ new" "valid_calls new"
    and "staged lay s (skel_view (index_view dn))" "stage_limits s" "\<forall>d \<in> set ds. decodable lay pe s d"
    and "map jd_effect (jb_deltas batch) = call_effects new" "stage_batch lay pe s batch = (s', Inr ())"
  shows "staged lay s' (skel_view (index_view dn')) \<and> fs_through s' = jb_through batch"
  by (rule stage_follows_core [OF assms])

section \<open>Row count\<close>

definition index_rows :: "key_index_state \<Rightarrow> nat" where
  "index_rows st = sum_list (map (\<lambda>(_, b). kr_len (bs_keys b) + gr_len (bs_gone b)) (ki_buckets st))"

lemma sum_rows_insert:
  "om_ok m \<Longrightarrow> map_of m n = Some b \<Longrightarrow>
     sum_list (map (\<lambda>(_, x). f x) (om_insert n b' m)) + f b = sum_list (map (\<lambda>(_, x). f x) m) + (f b' :: nat)"
proof (induction m)
  case (Cons p m)
  have "fst p < n" if "n \<noteq> fst p"
    using that Cons.prems map_of_SomeD by (fastforce simp: om_ok_Cons split: if_splits)
  then show ?case
    using Cons by (cases p) (auto simp: om_ok_Cons)
qed simp

definition stage_counted :: "layout \<Rightarrow> fleet_stage \<Rightarrow> bool" where
  "stage_counted lay s \<longleftrightarrow> (\<forall>st. fs_index s = Some st \<longrightarrow> index_ok lay st \<and> (\<forall>n. \<not> rebuilding st n)
     \<and> fs_rows s = index_rows st \<and> fs_rows s \<le> c_rows (fs_caps s))"

lemma index_rows_insert:
  assumes "index_ok lay st" "bucket_get st n = Some b" "ki_buckets st' = om_insert n b' (ki_buckets st)"
  shows "index_rows st' + (kr_len (bs_keys b) + gr_len (bs_gone b)) = index_rows st + (kr_len (bs_keys b') + gr_len (bs_gone b'))"
  using sum_rows_insert [of "ki_buckets st" n b "\<lambda>b. kr_len (bs_keys b) + gr_len (bs_gone b)" b'] assms
  by (auto simp: index_rows_def index_ok_def bucket_get_def)

lemma rows_ok_maps: "bucket_ok lay b \<Longrightarrow> om_ok (kr_map (bs_keys b)) \<and> om_ok (gr_map (bs_gone b))"
  by (simp add: bucket_ok_def rows_ok_def kr_ok_def gr_ok_def gr_tally_ok_def)

lemma bucket_len_index_row:
  assumes "bucket_ok lay b"
  shows "kr_len (bs_keys (fst (index_row lay b tot key e))) = kr_len (bs_keys b) + (if kr_get (bs_keys b) key = None then 1 else 0)"
  using rows_ok_maps [OF assms]
  by (auto simp: index_row_fst kr_len_def kr_insert_map om_length_insert kr_get_def split: option.split)

lemma bucket_len_unindex:
  "kr_len (bs_keys (fst (fst (unindex_row lay b tot key)))) \<le> kr_len (bs_keys b)"
  by (auto simp: unindex_row_eq kr_len_def kr_remove_def Let_def om_length_remove split: option.split prod.split)

text \<open>How an effect changes the bucket it names, and that growth is foreseen.\<close>

lemma apply_delta_bucket:
  assumes "index_ok lay st" "\<And>n. \<not> rebuilding st n" "growth st d = Inr (before, grow)" "apply_delta lay d st = (st', x, name)"
  obtains (noop) "st' = st" "name = None" | (bucket) n b b' where "name = Some n" "bucket_get st n = Some b"
    "before = kr_len (bs_keys b) + gr_len (bs_gone b)" "ki_buckets st' = om_insert n b' (ki_buckets st)"
    "kr_len (bs_keys b') + gr_len (bs_gone b') \<le> before + (if grow then 1 else 0)"
proof (cases d)
  case (DPut n k e)
  obtain b where b: "bucket_get st n = Some b" "before = kr_len (bs_keys b) + gr_len (bs_gone b)" "grow = (kr_get (bs_keys b) k = None)"
    using assms(3) by (auto simp: DPut growth_def result_simps)
  have entry: "bucket_entry st n = b"
    using b(1) by (simp add: bucket_entry_def)
  have ok: "bucket_ok lay b"
    using index_ok_entry [OF assms(1), of n] entry by simp
  have "bs_rebuild_generation b = None"
    using assms(2) [of n] entry by (simp add: rebuilding_def)
  then have "kr_len (bs_keys (fst (fst (put_bucket lay b tot k e True)))) + gr_len (bs_gone (fst (fst (put_bucket lay b tot k e True)))) \<le> before + (if grow then 1 else 0)" for tot
    using bucket_len_index_row [OF ok, of tot k e] b by (auto simp: put_bucket_def Let_def index_row_fst)
  moreover have "ki_buckets st' = om_insert n (fst (fst (put_bucket lay b (ki_stats st) k e True))) (ki_buckets st)" "name = Some n"
    using assms(4) put_effect(1) [of st None lay n k e DefinitiveMutation] entry
    by (auto simp: DPut apply_delta_def apply_put_def split: prod.splits)
  ultimately show thesis
    using bucket b(1,2) by blast
next
  case (DDelete n k t)
  obtain b where b: "bucket_get st n = Some b" "before = kr_len (bs_keys b) + gr_len (bs_gone b)" "grow"
    using assms(3) by (auto simp: DDelete growth_def result_simps)
  have entry: "bucket_entry st n = b"
    using b(1) by (simp add: bucket_entry_def)
  have ok: "bucket_ok lay b"
    using index_ok_entry [OF assms(1), of n] entry by simp
  then have raise: "gr_len (gr_raise lay (bs_gone b) k t) \<le> Suc (gr_len (bs_gone b))"
    using gr_len_raise by (simp add: bucket_ok_def rows_ok_def)
  have no: "bs_rebuild_generation b = None"
    using assms(2) [of n] entry by (simp add: rebuilding_def)
  obtain b' where b': "fst (fst (del_bucket lay b (ki_stats st) k t (ki_capture st \<noteq> None) Hold)) = b'"
    by blast
  have "kr_len (bs_keys b') \<le> kr_len (bs_keys b)" "gr_len (bs_gone b') = gr_len (gr_raise lay (bs_gone b) k t)"
    unfolding b' [symmetric] using bucket_len_unindex [of lay "clear_uncertain (b\<lparr>bs_gone := gr_raise lay (bs_gone b) k t\<rparr>) k"] no
    by (auto simp: del_bucket_def Let_def sweep_for_delete_def touch_def clear_uncertain_def)
  moreover have "ki_buckets st' = om_insert n b' (ki_buckets st)" "name = Some n"
    using assms(4) del_effect(1) [of st None lay n k t Hold] entry b'
    by (auto simp: DDelete apply_delta_def apply_replayed_del_def split: prod.splits)
  ultimately show thesis
    using bucket [of n b b'] b raise by simp
next
  case DNoop
  then show thesis
    using noop assms(4) by (simp add: apply_delta_def)
qed

lemma stage_delta_counted:
  assumes "stage_counted lay s" "fs_index s = Some st" "c_rows (fs_caps s) \<le> u64_max" "stage_delta lay pe s st effect = (s', r)"
  shows "stage_counted lay s' \<and> fs_caps s' = fs_caps s"
proof -
  have s: "index_ok lay st" "\<And>n. \<not> rebuilding st n" "fs_rows s = index_rows st" "index_rows st \<le> c_rows (fs_caps s)"
    using assms(1,2) by (auto simp: stage_counted_def)
  consider "s' = s" | d before grow st' x name where "growth st d = Inr (before, grow)"
      "\<not> (grow \<and> fs_rows s \<ge> c_rows (fs_caps s))" "apply_delta lay d st = (st', x, name)"
      "recount (s\<lparr>fs_index := Some st'\<rparr>) st' before name = (s', r)"
    using assms(4) by (auto simp: stage_delta_def split: sum.splits prod.splits if_splits)
  then show ?thesis
  proof cases
    case 2
    note after = apply_delta_view(2,3) [OF s(1,2), of d]
    from s(1,2) 2(1,3) show ?thesis
    proof (cases rule: apply_delta_bucket)
      case noop
      then show ?thesis
        using 2(4) assms(1,2) by (auto simp: recount_def stage_counted_def)
    next
      case (bucket n b b')
      have sum: "index_rows st' + before = index_rows st + (kr_len (bs_keys b') + gr_len (bs_gone b'))"
        using index_rows_insert [OF s(1) bucket(2,4)] bucket(3) by simp
      have get: "bucket_get st' n = Some b'"
        by (simp add: bucket_get_def bucket(4))
      have le: "before \<le> index_rows st"
        unfolding index_rows_def bucket(3)
        using bucket(2) member_le_sum_list [of "kr_len (bs_keys b) + gr_len (bs_gone b)" "map (\<lambda>(_, b). kr_len (bs_keys b) + gr_len (bs_gone b)) (ki_buckets st)"]
        by (force simp: bucket_get_def dest: map_of_SomeD)
      have bound: "index_rows st' \<le> c_rows (fs_caps s)"
        using sum bucket(5) 2(2) s(3,4) by (auto split: if_splits)
      have "s' = s\<lparr>fs_index := Some st', fs_rows := index_rows st'\<rparr>"
        using 2(4) sum le bound assms(3) s(3) by (auto simp: recount_def bucket(1) get checked_add64_def split: if_splits)
      then show ?thesis
        using bound after 2(3) by (auto simp: stage_counted_def)
    qed
  qed (use assms(1) in simp)
qed

lemma stage_deltas_counted:
  "stage_counted lay s \<Longrightarrow> c_rows (fs_caps s) \<le> u64_max \<Longrightarrow> stage_deltas lay pe p ds s = (s', r)
   \<Longrightarrow> stage_counted lay s' \<and> fs_caps s' = fs_caps s"
proof (induction ds arbitrary: p s)
  case (Cons d ds)
  consider "s' = s" | st p' s1 x where "fs_index s = Some st" "stage_delta lay pe s st (jd_effect d) = (s1, x)"
      "s' = s1 \<or> stage_deltas lay pe p' ds s1 = (s', r)"
    using Cons.prems(3) by (auto split: option.splits if_splits sum.splits prod.splits)
  then show ?case
  proof cases
    case 2
    note one = stage_delta_counted [OF Cons.prems(1) 2(1) Cons.prems(2) 2(2)]
    then show ?thesis
      using 2(3) Cons.IH [of s1 p'] Cons.prems(2) by auto
  qed (use Cons.prems in simp)
qed simp

text \<open>The operations of a stage, whatever they answer.\<close>

inductive stage_run ::
  "layout \<Rightarrow> (string \<Rightarrow> etag option) \<Rightarrow> (bytes \<Rightarrow> bytes) \<Rightarrow> fleet_stage \<Rightarrow> fleet_stage \<Rightarrow> bool" for lay pe hash where
  Reserved: "stage_run lay pe hash s s"
| Chunk: "stage_run lay pe hash s s' \<Longrightarrow> stage_run lay pe hash s (fst (store_chunk s' sequence chunk))"
| Verify: "stage_run lay pe hash s s' \<Longrightarrow> stage_run lay pe hash s (fst (stage_verify lay pe hash s' commitment))"
| Batch: "stage_run lay pe hash s s' \<Longrightarrow> stage_run lay pe hash s (fst (stage_batch lay pe s' batch))"

lemma stage_batch_counted:
  assumes "stage_counted lay s" "c_rows (fs_caps s) \<le> u64_max"
  shows "stage_counted lay (fst (stage_batch lay pe s batch)) \<and> fs_caps (fst (stage_batch lay pe s batch)) = fs_caps s"
proof -
  obtain s1 r where s1: "stage_deltas lay pe (jc_position (fs_through s)) (jb_deltas batch) s = (s1, r)"
    by force
  then have "stage_counted lay s1 \<and> fs_caps s1 = fs_caps s"
    using stage_deltas_counted [OF assms] by blast
  then show ?thesis
    using assms(1) by (auto simp: stage_batch_def s1 stage_counted_def split: sum.split)
qed

lemma stage_verify_counted:
  assumes "stage_counted lay s"
  shows "stage_counted lay (fst (stage_verify lay pe hash s commitment)) \<and> fs_caps (fst (stage_verify lay pe hash s commitment)) = fs_caps s"
proof -
  have "index_ok lay st \<and> (\<forall>n. \<not> rebuilding st n) \<and> index_rows st \<le> c_rows (fs_caps s)"
    if "decode_image lay pe (fs_encoded s) ((fs_caps s)\<lparr>c_bytes := fs_expected_bytes s, c_decoded_bytes := fs_decoded_bytes s\<rparr>) = Inr st" for st
  proof -
    note d = decode_wellformed_core [OF that]
    have "sum_list (map (bucket_len \<circ> snd) (ki_buckets st)) = index_rows st"
      unfolding index_rows_def
      by (intro arg_cong [of _ _ sum_list] map_cong) (auto simp: bucket_len_def kr_len_def gr_len_def)
    moreover have "\<not> rebuilding st n" for n
      using d by (auto simp: rebuilding_def bucket_entry_def bucket_get_def bucket_default_def complete_bucket_def split: option.split dest!: map_of_SomeD)
    ultimately show ?thesis
      using d by simp
  qed
  then show ?thesis
    using assms by (auto simp: stage_verify_def stage_counted_def index_rows_def split: sum.splits)
qed

text \<open>A stage never outgrows its reservation. Through any sequence of chunks, verifications and batches,
  accepted or refused half way, the private index is well formed, rebuilds nothing, and the stage's counter is
  exactly the number of rows and tombstones it holds, which never exceeds the row ceiling.\<close>

theorem stage_rows_bounded:
  assumes "stage_new expected chunks at decoded caps max_event = Inr s0" "c_rows caps \<le> u64_max"
    and "stage_run lay pe hash s0 s" "fs_index s = Some st"
  shows "index_ok lay st \<and> fs_rows s = index_rows st \<and> index_rows st \<le> c_rows caps"
proof -
  have "stage_counted lay s \<and> fs_caps s = caps"
    using assms(3,1,2)
  proof (induction rule: stage_run.induct)
    case (Reserved s)
    then show ?case
      by (auto simp: stage_new_def stage_counted_def split: if_splits)
  next
    case (Chunk s s' sequence chunk)
    then show ?case
      by (auto simp: store_chunk_def stage_counted_def split: option.split)
  next
    case (Verify s s' commitment)
    then show ?case
      using stage_verify_counted by metis
  next
    case (Batch s s' batch)
    then show ?case
      using stage_batch_counted by metis
  qed
  then show ?thesis
    using assms(4) by (auto simp: stage_counted_def)
qed

section \<open>Receiving an image\<close>

fun store_chunks :: "fleet_stage \<Rightarrow> nat \<Rightarrow> bytes list \<Rightarrow> fleet_stage ires" where
  "store_chunks s sequence [] = Inr s"
| "store_chunks s sequence (c # cs) = (case store_chunk s sequence c of
       (s, Inl e) \<Rightarrow> Inl e
     | (s, Inr _) \<Rightarrow> store_chunks s (sequence + 1) cs)"

lemma store_chunks_ok:
  assumes "\<forall>c \<in> set cs. c \<noteq> []" "fs_next_chunk s + length cs \<le> fs_expected_chunks s"
    and "length (fs_encoded s) + length (concat cs) \<le> fs_expected_bytes s" "fs_expected_bytes s \<le> u64_max"
  shows "store_chunks s (fs_next_chunk s) cs = Inr (s\<lparr>fs_encoded := fs_encoded s @ concat cs, fs_next_chunk := fs_next_chunk s + length cs\<rparr>)"
  using assms
proof (induction cs arbitrary: s)
  case (Cons c cs)
  let ?s = "s\<lparr>fs_encoded := fs_encoded s @ c, fs_next_chunk := Suc (fs_next_chunk s)\<rparr>"
  have "store_chunk s (fs_next_chunk s) c = (?s, Inr ())"
    using Cons.prems by (simp add: store_chunk_def checked_add64_def)
  moreover have "store_chunks ?s (fs_next_chunk ?s) cs = Inr (?s\<lparr>fs_encoded := fs_encoded ?s @ concat cs, fs_next_chunk := fs_next_chunk ?s + length cs\<rparr>)"
    by (rule Cons.IH) (use Cons.prems in simp_all)
  ultimately show ?case
    by simp
qed simp

lemma measured_universe:
  "foldE (measure_bucket lay idx caps) us (prev, bud, enc, n) = Inr r \<Longrightarrow>
     sorted_wrt (<) us \<and> (\<forall>u \<in> set us. name_after prev u \<and> bucket_get idx u \<noteq> None)"
proof (induction us arbitrary: prev bud enc n)
  case (Cons u us)
  obtain prev' bud' enc' n' where one: "measure_bucket lay idx caps u (prev, bud, enc, n) = Inr (prev', bud', enc', n')"
    "foldE (measure_bucket lay idx caps) us (prev', bud', enc', n') = Inr r"
    using Cons.prems by (auto simp: bindE_eq_Inr)
  show ?case
    using measure_bucket_Inr [OF one(1)] Cons.IH [OF one(2)] by (auto simp: name_after_def split: option.splits)
qed simp

text \<open>A measured image names every bucket of the index.\<close>

lemma measured_names:
  assumes "measure_image lay idx universe caps = Inr sz" "om_ok (ki_buckets idx)" "bucket_get idx n \<noteq> None"
  shows "n \<in> set universe"
proof -
  obtain bud r where r: "foldE (measure_bucket lay idx caps) universe (None, bud, HEADER_BYTES, 0) = Inr r" "length (ki_buckets idx) = length universe"
    using assms(1) unfolding measure_image_def image_loop_Inr by blast
  have u: "sorted_wrt (<) universe" "set universe \<subseteq> fst ` set (ki_buckets idx)"
    using measured_universe [OF r(1)] by (auto simp: bucket_get_def map_of_eq_None_iff)
  have "set universe = fst ` set (ki_buckets idx)"
  proof (rule card_subset_eq [OF _ u(2)])
    show "card (set universe) = card (fst ` set (ki_buckets idx))"
      using strict_sorted_iff [of universe] u(1) om_ok_distinct [OF assms(2)] r(2)
      by (simp add: distinct_card strict_sorted_iff flip: set_map)
  qed simp
  then show ?thesis
    using assms(3) by (auto simp: bucket_get_def map_of_eq_None_iff)
qed

lemma skel_rows_map: "map_of (skel_rows rs) k = map_option skeletal (map_of rs k)"
  by (induction rs) (auto simp: skel_rows_def)

lemma decoded_view:
  assumes "\<And>name. if name \<in> set universe then \<exists>b'. bucket_get st name = Some b' \<and> decoded_as (bucket_entry idx name) b'
         else bucket_get st name = None \<and> bucket_get idx name = None"
  shows "index_view st = skel_view (index_view idx)" "\<And>n. \<not> rebuilding st n"
proof -
  have "live st n k = map_option skeletal (live idx n k) \<and> dead st n k = dead idx n k \<and> \<not> rebuilding st n" for n k
    using assms [of n]
    by (auto simp: live_def dead_def rebuilding_def bucket_entry_def decoded_as_def complete_bucket_def kr_get_def gr_get_def skel_rows_map
        bucket_default_def key_rows_default_def gone_rows_default_def split: if_splits)
  then show "index_view st = skel_view (index_view idx)" "\<And>n. \<not> rebuilding st n"
    by (auto simp: index_view_def skel_view_def fun_eq_iff)
qed

lemma stage_receives_core:
  assumes "measure_image lay idx universe caps = Inr sz" "index_typed pe idx" "index_ok lay idx"
    and "encode_image idx universe caps sz = Inr bs" "concat cs = bs" "\<forall>c \<in> set cs. c \<noteq> []"
    and "stage_new (length bs) (length cs) at (decoded_bytes sz) caps max_event = Inr s0"
  shows "\<exists>s1 s2. store_chunks s0 0 cs = Inr s1 \<and> stage_verify lay pe hash s1 (hash bs) = (s2, Inr ())
    \<and> staged lay s2 (skel_view (index_view idx))
    \<and> (\<forall>w. w \<noteq> hash bs \<longrightarrow> stage_verify lay pe hash s1 w = (s1, Inl Corrupt))"
proof -
  obtain st where st: "length bs = encoded_bytes sz"
    "decode_image lay pe bs (reserved_caps caps (encoded_bytes sz) (decoded_bytes sz)) = Inr st"
    "\<And>name. if name \<in> set universe then \<exists>b'. bucket_get st name = Some b' \<and> decoded_as (bucket_entry idx name) b'
         else bucket_get st name = None"
    using image_roundtrip_core [OF assms(1,2)] assms(4) by auto
  have s0: "s0 = \<lparr>fs_encoded = [], fs_expected_bytes = length bs, fs_decoded_bytes = decoded_bytes sz, fs_expected_chunks = length cs,
      fs_next_chunk = 0, fs_caps = caps, fs_index = None, fs_rows = 0, fs_through = at, fs_max_event_bytes = max_event\<rparr>"
    and fits: "length bs \<le> c_bytes caps"
    using assms(7) by (auto simp: stage_new_def split: if_splits)
  have "caps_validate caps = Inr caps"
    using assms(1) unfolding measure_image_def image_loop_Inr by blast
  then have "length bs \<le> u64_max"
    using fits by (auto simp: caps_validate_def u64_max_def split: if_splits)
  then have s1: "store_chunks s0 0 cs = Inr (s0\<lparr>fs_encoded := bs, fs_next_chunk := length cs\<rparr>)"
    using store_chunks_ok [of cs s0] assms(5,6) by (simp add: s0)
  have cover: "if name \<in> set universe then \<exists>b'. bucket_get st name = Some b' \<and> decoded_as (bucket_entry idx name) b'
         else bucket_get st name = None \<and> bucket_get idx name = None" for name
    using st(3) [of name] measured_names [OF assms(1), of name] assms(3) by (cases "bucket_get idx name") (auto simp: index_ok_def)
  have "index_view st = skel_view (index_view idx)" "\<And>n. \<not> rebuilding st n"
    using decoded_view [OF cover] by simp_all
  then show ?thesis
    using s1 st(1,2) decode_wellformed_core [OF st(2)]
    by (auto simp: s0 stage_verify_def staged_def reserved_caps_def)
qed

text \<open>A transferred image arrives intact. The chunks of a measured image, stored in order whatever their
  sizes, verify against the image's content hash and only against it, and the verified stage then holds
  exactly the donor's rows and tombstones (less content types and metadata), within the reservation the donor
  measured.\<close>

theorem stage_receives_image:
  assumes "measure_image lay idx universe caps = Inr sz" "index_typed pe idx" "index_ok lay idx"
    and "encode_image idx universe caps sz = Inr bs" "concat cs = bs" "\<forall>c \<in> set cs. c \<noteq> []"
    and "stage_new (length bs) (length cs) at (decoded_bytes sz) caps max_event = Inr s0"
  shows "\<exists>s1 s2. store_chunks s0 0 cs = Inr s1 \<and> stage_verify lay pe hash s1 (hash bs) = (s2, Inr ())
    \<and> staged lay s2 (skel_view (index_view idx))
    \<and> (\<forall>w. w \<noteq> hash bs \<longrightarrow> stage_verify lay pe hash s1 w = (s1, Inl Corrupt))"
  by (rule stage_receives_core [OF assms])

section \<open>Instances\<close>

lemma stage_example:
  obtains sz bs s0 where "measure_image layout_example image_example [''b''] image_caps_example = Inr sz"
    "encode_image image_example [''b''] image_caps_example sz = Inr bs" "bs \<noteq> []"
    "stage_new (length bs) (length [bs]) \<lparr>jc_capture = 1, jc_position = 0\<rparr> (decoded_bytes sz) image_caps_example 100 = Inr s0"
proof -
  obtain sz where sz: "measure_image layout_example image_example [''b''] image_caps_example = Inr sz"
    using measure_example by blast
  obtain bs where bs: "encode_image image_example [''b''] image_caps_example sz = Inr bs" "length bs = encoded_bytes sz"
    using image_roundtrip_core [OF sz image_example_typed] by blast
  obtain charge p bud enc n where m: "foldE (measure_bucket layout_example image_example image_caps_example) [''b'']
      (None, \<lparr>b_used = charge, b_limit = c_decoded_bytes image_caps_example\<rparr>, HEADER_BYTES, 0) = Inr (p, bud, enc, n)"
    "enc \<le> c_bytes image_caps_example" "sz = \<lparr>encoded_bytes = enc, decoded_bytes = b_used bud, rows = n\<rparr>"
    "charge \<le> c_decoded_bytes image_caps_example"
    using sz unfolding measure_image_def image_loop_Inr by blast
  have "advances (name_charge layout_example ''b'' + bucket_rows_charge layout_example image_bucket_example) (length (bucket_enc ''b'' image_bucket_example))
      (\<lparr>b_used = charge, b_limit = c_decoded_bytes image_caps_example\<rparr>, HEADER_BYTES) (bud, enc)"
    using m(1) measure_bucket_Inr [of layout_example image_example image_caps_example "''b''"] by (auto simp: image_example_get bindE_eq_Inr)
  then have pos: "0 < enc" "0 < b_used bud" "b_used bud \<le> c_decoded_bytes image_caps_example"
    by (auto simp: advances_def HEADER_BYTES_def name_charge_def layout_example_def)
  moreover have "bs \<noteq> []"
    using bs(2) m(3) pos(1) by auto
  ultimately show thesis
    using m(2,3) bs sz that by (auto simp: stage_new_def)
qed

lemma stage_receives_image_witness:
  "\<exists>bs s1 s2. stage_verify layout_example parse_example id s1 bs = (s2, Inr ()) \<and> bs \<noteq> []
     \<and> staged layout_example s2 (skel_view (index_view image_example))"
proof (rule stage_example)
  fix sz bs s0
  assume a: "measure_image layout_example image_example [''b''] image_caps_example = Inr sz"
    "encode_image image_example [''b''] image_caps_example sz = Inr bs" "bs \<noteq> []"
    "stage_new (length bs) (length [bs]) \<lparr>jc_capture = 1, jc_position = 0\<rparr> (decoded_bytes sz) image_caps_example 100 = Inr s0"
  show ?thesis
    using stage_receives_image [OF a(1) image_example_typed image_example_ok a(2) _ _ a(4), of id] a(3) by auto
qed

lemma stage_rows_bounded_witness:
  "\<exists>s0 s st. stage_run layout_example parse_example id s0 s \<and> fs_index s = Some st \<and> fs_rows s = index_rows st \<and> index_rows st \<le> 100"
proof (rule stage_example)
  fix sz bs s0
  assume a: "measure_image layout_example image_example [''b''] image_caps_example = Inr sz"
    "encode_image image_example [''b''] image_caps_example sz = Inr bs" "bs \<noteq> []"
    "stage_new (length bs) (length [bs]) \<lparr>jc_capture = 1, jc_position = 0\<rparr> (decoded_bytes sz) image_caps_example 100 = Inr s0"
  obtain s1 s2 where s: "store_chunks s0 0 [bs] = Inr s1" "stage_verify layout_example parse_example id s1 bs = (s2, Inr ())"
    "staged layout_example s2 (skel_view (index_view image_example))"
    using stage_receives_core [OF a(1) image_example_typed image_example_ok a(2) _ _ a(4), of id] a(3) by auto
  have "s1 = fst (store_chunk s0 0 bs)" "s2 = fst (stage_verify layout_example parse_example id s1 bs)"
    using s(1,2) by (auto split: prod.splits sum.splits)
  then have "stage_run layout_example parse_example id s0 s2"
    by (metis stage_run.intros)
  moreover obtain st where "fs_index s2 = Some st"
    using s(3) by (auto simp: staged_def)
  ultimately show ?thesis
    using stage_rows_bounded [OF a(4)] by (fastforce simp: image_caps_example_def u64_max_def)
qed

text \<open>A donor with an empty synced bucket that deletes a key.\<close>

definition donor_capture_example :: index_capture where
  "donor_capture_example = capture_new \<lparr>ing_id = 1, ing_calls = []\<rparr> 1 100 1024"

definition donor_example :: key_index_state where
  "donor_example = (install_example None None)\<lparr>ki_capture := Some donor_capture_example\<rparr>"

definition stage_following_example :: fleet_stage where
  "stage_following_example = \<lparr>fs_encoded = [], fs_expected_bytes = 1, fs_decoded_bytes = 1, fs_expected_chunks = 1, fs_next_chunk = 1,
     fs_caps = image_caps_example, fs_index = Some (install_example None None), fs_rows = 0,
     fs_through = \<lparr>jc_capture = 1, jc_position = 0\<rparr>, fs_max_event_bytes = 100\<rparr>"

definition batch_example :: journal_batch where
  "batch_example = \<lparr>jb_from = \<lparr>jc_capture = 1, jc_position = 0\<rparr>, jb_through = \<lparr>jc_capture = 1, jc_position = 1\<rparr>,
     jb_deltas = [\<lparr>jd_position = 1, jd_effect = enc_delta (DDelete ''b'' ''k'' 5)\<rparr>]\<rparr>"

lemma donor_example_donates: "donating layout_example donor_example"
proof -
  have "bucket_entry donor_example n = bucket_entry (install_example None None) n" for n
    by (simp add: donor_example_def bucket_entry_def)
  moreover have "index_ok layout_example (install_example None None)"
    by (rule install_example_ok) simp
  ultimately show ?thesis
    by (auto simp: donating_def donor_example_def index_ok_def rebuilding_def bucket_entry_def install_example_get
        install_bucket_example_def bucket_default_def)
qed

lemma donor_example_get:
  "bucket_get donor_example n = (if n = ''b'' then Some (install_bucket_example None None) else None)"
  "ki_capture donor_example = Some donor_capture_example"
  by (simp_all add: donor_example_def install_example_get)

lemma empty_bucket_example:
  "kr_get (bs_keys (install_bucket_example None None)) k = None" "gr_get (bs_gone (install_bucket_example None None)) k = None"
  "bs_rebuild_generation (install_bucket_example None None) = None" "bs_rebuild_touched (install_bucket_example None None) = []"
  by (simp_all add: install_bucket_example_def bucket_default_def kr_get_def gr_get_def key_rows_default_def gone_rows_default_def)

definition donor_example' :: key_index_state where
  "donor_example' = fst (apply_del_with_identity layout_example donor_example ''b'' ''k'' 5 None Run)"

lemma encode_delete_example: "encode_delete ''b'' ''k'' 5 100 1024 = Inr (enc_delta (DDelete ''b'' ''k'' 5))"
proof -
  have "\<exists>bs. encode_delete ''b'' ''k'' 5 100 1024 = Inr bs"
    by (simp add: encode_delete_def writer_new_def w_u8_def w_text_def timestamp_def w_put_def w_u32_def w_u64_def checked_add64_def
        u64_max_def nanos_per_sec_def)
  then show ?thesis
    using encode_delete_sound by blast
qed

lemma donor_example_del:
  "ki_capture donor_example' = Some (record_delete donor_capture_example None ''b'' ''k'' 5)"
  by (simp add: donor_example'_def apply_del_with_identity_def note_identity_def open_bucket_def bucket_entry_def donor_example_get
      empty_bucket_example sweep_for_delete_def entry_newer_def Let_def case_prod_beta journal_delete_def journal_def gr_get_raise)

lemma donor_example_calls:
  "ing_calls (ic_ingress (record_delete donor_capture_example None ''b'' ''k'' 5)) =
     [Append 1 (Local (le_bytes 8 1)) (enc_delta (DDelete ''b'' ''k'' 5))]"
  by (simp add: donor_capture_example_def capture_new_def record_delete_def append_effect_def append_local_def append_bytes_def
      journal_issue_def encode_delete_example checked_add64_def u64_max_def)

lemma donor_example_run: "donor_run layout_example donor_example [DDelete ''b'' ''k'' 5] donor_example'"
proof -
  have "dead donor_example ''b'' ''k'' = None"
    by (simp add: dead_def bucket_entry_def donor_example_get empty_bucket_example)
  then have "del_log layout_example donor_example ''b'' ''k'' 5 None Run = [DDelete ''b'' ''k'' 5]"
    by (simp add: del_log_def del_stamp_def)
  then show ?thesis
    using donor_run.DonorDelete [OF donor_run.Start, of layout_example donor_example "''b''" "''k''" 5 None Run]
    by (simp add: donor_example'_def)
qed

lemma stage_example_decodable: "decodable layout_example parse_example stage_following_example (DDelete ''b'' ''k'' 5)"
  "stage_limits stage_following_example"
  by (auto simp: decodable_def stage_limits_def stage_following_example_def image_caps_example_def delta_ok_def text_ok_def time_ok_def
      nanos_per_sec_def image_example_strings enc_delta_def enc_u8_def enc_text_def enc_time_def delta_charge_def u64_max_def
      sumE_def checked_add64_def)

lemma stage_batch_example: "\<exists>s'. stage_batch layout_example parse_example stage_following_example batch_example = (s', Inr ())"
proof -
  let ?d = "DDelete ''b'' ''k'' 5" and ?s = stage_following_example and ?st = "install_example None None"
  have dec: "decode_delta layout_example parse_example (enc_delta ?d) (fs_max_event_bytes ?s) (c_name_bytes (fs_caps ?s)) (c_decoded_bytes (fs_caps ?s)) = Inr ?d"
    using decodable_decodes [OF stage_example_decodable] by (simp add: delta_skeletal_def)
  have grow: "growth ?st ?d = Inr (0, True)"
    by (simp add: growth_def install_example_get kr_len_def gr_len_def install_example_maps)
  obtain st' x name where a: "apply_delta layout_example ?d ?st = (st', x, name)"
    by (metis surj_pair)
  have ok: "index_ok layout_example ?st" "\<And>n. \<not> rebuilding ?st n"
    by (auto intro!: install_example_ok simp: rebuilding_def bucket_entry_def install_example_get empty_bucket_example bucket_default_def)
  have "\<exists>s'. recount (?s\<lparr>fs_index := Some st'\<rparr>) st' 0 name = (s', Inr ())"
    using ok grow a
  proof (cases rule: apply_delta_bucket)
    case noop
    then show ?thesis
      by (simp add: recount_def)
  next
    case (bucket n b b')
    then have "bucket_get st' n = Some b'" "kr_len (bs_keys b') + gr_len (bs_gone b') \<le> 1"
      by (simp_all add: bucket_get_def)
    then show ?thesis
      by (auto simp: recount_def bucket(1) stage_following_example_def image_caps_example_def checked_add64_def u64_max_def)
  qed
  then obtain s' where "recount (?s\<lparr>fs_index := Some st'\<rparr>) st' 0 name = (s', Inr ())"
    by blast
  then have "stage_delta layout_example parse_example ?s ?st (enc_delta ?d) = (s', Inr ())"
    using a by (simp add: stage_delta_def dec grow) (simp add: stage_following_example_def image_caps_example_def)
  moreover have "fs_index ?s = Some ?st" "fs_through ?s = \<lparr>jc_capture = 1, jc_position = 0\<rparr>"
    by (simp_all add: stage_following_example_def)
  ultimately show ?thesis
    by (simp add: stage_batch_def batch_example_def checked_add64_def u64_max_def)
qed

lemma stage_follows_donor_witness:
  "\<exists>s'. stage_batch layout_example parse_example stage_following_example batch_example = (s', Inr ())
     \<and> staged layout_example s' (skel_view (index_view donor_example'))"
proof -
  obtain s' where s': "stage_batch layout_example parse_example stage_following_example batch_example = (s', Inr ())"
    using stage_batch_example by blast
  have calls: "ing_calls (ic_ingress (record_delete donor_capture_example None ''b'' ''k'' 5)) = ing_calls (ic_ingress donor_capture_example)
      @ [Append 1 (Local (le_bytes 8 1)) (enc_delta (DDelete ''b'' ''k'' 5))]"
    unfolding donor_example_calls by (simp add: donor_capture_example_def capture_new_def)
  have "index_view (install_example None None) = skel_view (index_view donor_example)"
    by (rule view_eqI; simp add: skel_view_def index_view_def install_example_view)
      (simp_all add: live_def dead_def bucket_entry_def donor_example_get empty_bucket_example bucket_default_def kr_get_def gr_get_def
        key_rows_default_def gone_rows_default_def install_example_maps)
  then have "staged layout_example stage_following_example (skel_view (index_view donor_example))"
    by (auto simp: staged_def stage_following_example_def rebuilding_def bucket_entry_def install_example_get empty_bucket_example bucket_default_def
        intro!: install_example_ok)
  from stage_follows_donor [OF donor_example_donates donor_example_run donor_example_get(2) donor_example_del calls _ this
      stage_example_decodable(2) _ _ s'] show ?thesis
    using s' stage_example_decodable(1) by (auto simp: valid_calls_def call_effects_def batch_example_def)
qed

end
