(* ===== verification/Apply.thy ===== *)
theory Apply
  imports Stop Stage
begin

text \<open>
  The apply loop of the write feed (\<^verbatim>\<open>WriteSync::start_apply\<close> in \<^verbatim>\<open>src/src/sync/coherence.rs\<close>) and what it keeps of its peers'
  planned stops (\<^verbatim>\<open>src/src/sync/stop.rs\<close>). The feed delivers one peer event after another; a handler moves the index,
  evicts the hot body, and only then advances the frontier and acknowledges. What the handler does outside the index is
  the sequence of its calls, in order: \<^verbatim>\<open>groupnet\<close>'s frontier and ledger, the reconciliation of a fenced key, the recovery
  driver, and the cache.
\<close>

section \<open>State\<close>

type_synonym mark = "nat \<times> nat"

record crossing =
  cr_renewal :: "(mark \<times> nat) option"
  cr_sealed :: "mark option"

definition crossing_default :: crossing where
  "crossing_default = \<lparr>cr_renewal = None, cr_sealed = None\<rparr>"

datatype peer_write =
    Sealed string mark
  | Renewed string mark nat
  | Wrote string mark index_event
  | Gap string mark

datatype apply_action =
    FenceFills "string \<times> string"
  | Reconcile string string nat
  | EvictHot "string \<times> string"
  | FeedGap nat
  | Advance string mark
  | Record string mark
  | RetireWarm "string \<times> string"

record apply_state =
  ap_index :: key_index_state
  ap_hot :: "(string \<times> string) set"
  ap_crossings :: "(string, crossing) omap"
  ap_log :: "apply_action list"

record apply_env =
  ae_layout :: layout
  ae_parse :: "string \<Rightarrow> etag option"
  ae_mode :: consistency
  ae_recovery :: bool
  ae_lapses :: nat

definition mark_cut :: "string \<Rightarrow> mark \<Rightarrow> native_cut" where
  "mark_cut peer tok = peer_cut peer (fst tok) (snd tok)"

definition log_action :: "apply_state \<Rightarrow> apply_action \<Rightarrow> apply_state" where
  "log_action s a = s\<lparr>ap_log := ap_log s @ [a]\<rparr>"

section \<open>Crossings\<close>

definition crossing_of :: "apply_state \<Rightarrow> string \<Rightarrow> crossing" where
  "crossing_of s peer = (case map_of (ap_crossings s) peer of None \<Rightarrow> crossing_default | Some c \<Rightarrow> c)"

definition observe_seal :: "apply_state \<Rightarrow> string \<Rightarrow> mark \<Rightarrow> apply_state" where
  "observe_seal s peer sealed =
     s\<lparr>ap_crossings := om_insert peer ((crossing_of s peer)\<lparr>cr_sealed := Some sealed\<rparr>) (ap_crossings s)\<rparr>"

definition observe_renewal :: "apply_state \<Rightarrow> string \<Rightarrow> mark \<Rightarrow> nat \<Rightarrow> apply_state \<times> mark" where
  "observe_renewal s peer sealed epoch =
     (s\<lparr>ap_index := renew_native_writer (ap_index s) (mark_cut peer sealed) epoch,
        ap_crossings := om_insert peer \<lparr>cr_renewal = Some (sealed, epoch), cr_sealed = None\<rparr> (ap_crossings s)\<rparr>, (epoch, 0))"

definition forget_crossing :: "apply_state \<Rightarrow> string \<Rightarrow> apply_state" where
  "forget_crossing s peer = s\<lparr>ap_crossings := om_remove peer (ap_crossings s)\<rparr>"

section \<open>The loop\<close>

definition acknowledge :: "apply_env \<Rightarrow> apply_state \<Rightarrow> string \<Rightarrow> mark \<Rightarrow> apply_state" where
  "acknowledge env s peer tok =
     (let s = log_action s (Advance peer tok)
      in if mode_acks (ae_mode env) then log_action s (Record peer tok) else s)"

definition apply_sealed :: "apply_env \<Rightarrow> apply_state \<Rightarrow> string \<Rightarrow> mark \<Rightarrow> apply_state" where
  "apply_sealed env s peer tok =
     acknowledge env (observe_seal (s\<lparr>ap_index := note_native_seal (ap_index s) (mark_cut peer tok)\<rparr>) peer tok) peer tok"

definition apply_renewed :: "apply_env \<Rightarrow> apply_state \<Rightarrow> string \<Rightarrow> mark \<Rightarrow> nat \<Rightarrow> apply_state" where
  "apply_renewed env s peer sealed epoch =
     (case observe_renewal s peer sealed epoch of (s, start) \<Rightarrow> acknowledge env s peer start)"

text \<open>\<^const>\<open>None\<close> is the panic of an exhausted fence token.\<close>

definition apply_wrote :: "apply_env \<Rightarrow> apply_state \<Rightarrow> string \<Rightarrow> mark \<Rightarrow> index_event \<Rightarrow> apply_state option" where
  "apply_wrote env s peer tok ev =
     (let ckey = (ie_bucket ev, ie_key ev); s = log_action s (FenceFills ckey)
      in case apply_feed_index (ae_layout env) (ae_parse env) (ap_index s) (mark_cut peer tok) ev of
          None \<Rightarrow> None
        | Some (st, fenced) \<Rightarrow>
            let s = s\<lparr>ap_index := st\<rparr>;
                s = (case fenced of None \<Rightarrow> s | Some fence \<Rightarrow> log_action s (Reconcile (ie_bucket ev) (ie_key ev) fence));
                s = log_action (s\<lparr>ap_hot := ap_hot s - {ckey}\<rparr>) (EvictHot ckey);
                s = acknowledge env s peer tok
            in Some (log_action s (RetireWarm ckey)))"

definition apply_gap :: "apply_env \<Rightarrow> apply_state \<Rightarrow> string \<Rightarrow> mark \<Rightarrow> apply_state" where
  "apply_gap env s peer missed =
     (let s = forget_crossing s peer;
          s = s\<lparr>ap_index := discard_for_gap (ap_index s) (mark_cut peer missed)\<rparr>;
          s = (if ae_recovery env then log_action s (FeedGap (ae_lapses env)) else s)
      in acknowledge env s peer missed)"

definition apply_peer_write :: "apply_env \<Rightarrow> apply_state \<Rightarrow> peer_write \<Rightarrow> apply_state option" where
  "apply_peer_write env s event = (case event of
       Sealed peer tok \<Rightarrow> Some (apply_sealed env s peer tok)
     | Renewed peer sealed epoch \<Rightarrow> Some (apply_renewed env s peer sealed epoch)
     | Wrote peer tok ev \<Rightarrow> apply_wrote env s peer tok ev
     | Gap peer missed \<Rightarrow> Some (apply_gap env s peer missed))"

definition start_apply :: "apply_state \<Rightarrow> native_cut \<Rightarrow> apply_state" where
  "start_apply s own_position = s\<lparr>ap_index := register_native_writer (ap_index s) own_position\<rparr>"

fun apply_loop :: "apply_env \<Rightarrow> apply_state \<Rightarrow> peer_write list \<Rightarrow> apply_state option" where
  "apply_loop env s [] = Some s"
| "apply_loop env s (event # events) = (case apply_peer_write env s event of
     None \<Rightarrow> None
   | Some s \<Rightarrow> apply_loop env s events)"

section \<open>Frames\<close>

lemma acknowledge_frame [simp]:
  "ap_index (acknowledge env s peer tok) = ap_index s" "ap_hot (acknowledge env s peer tok) = ap_hot s"
  "ap_crossings (acknowledge env s peer tok) = ap_crossings s"
  "ap_log (acknowledge env s peer tok) = ap_log s @ Advance peer tok # (if mode_acks (ae_mode env) then [Record peer tok] else [])"
  by (simp_all add: acknowledge_def log_action_def Let_def)

lemma log_action_frame [simp]:
  "ap_index (log_action s a) = ap_index s" "ap_hot (log_action s a) = ap_hot s" "ap_crossings (log_action s a) = ap_crossings s"
  "ap_log (log_action s a) = ap_log s @ [a]"
  by (simp_all add: log_action_def)

lemma apply_wrote_effect:
  assumes "apply_wrote env s peer tok ev = Some s'"
  obtains fenced where
    "apply_feed_index (ae_layout env) (ae_parse env) (ap_index s) (mark_cut peer tok) ev = Some (ap_index s', fenced)"
    "ap_hot s' = ap_hot s - {(ie_bucket ev, ie_key ev)}" "ap_crossings s' = ap_crossings s"
    "ap_log s' = ap_log s @ FenceFills (ie_bucket ev, ie_key ev)
       # (case fenced of None \<Rightarrow> [] | Some fence \<Rightarrow> [Reconcile (ie_bucket ev) (ie_key ev) fence])
       @ EvictHot (ie_bucket ev, ie_key ev) # Advance peer tok # (if mode_acks (ae_mode env) then [Record peer tok] else [])
       @ [RetireWarm (ie_bucket ev, ie_key ev)]"
  using assms by (auto simp: apply_wrote_def Let_def split: option.splits)

lemma seal_keeps_buckets: "ki_buckets (note_native_seal st nc) = ki_buckets st"
proof -
  have "ki_buckets (fst (note_native_cut st nc)) = ki_buckets st"
    by (auto simp: note_native_cut_def Let_def split: option.splits)
  then show ?thesis
    by (cases "note_native_cut st nc") (auto simp: note_native_seal_def split: bool.splits)
qed

lemma renewal_keeps_buckets: "ki_buckets (renew_native_writer st nc epoch) = ki_buckets st"
  by (auto simp: renew_native_writer_def Let_def split: option.splits)

lemma buckets_view:
  assumes "ki_buckets st' = ki_buckets st"
  shows "live st' = live st" "dead st' = dead st"
  using assms by (simp_all add: fun_eq_iff live_def dead_def bucket_entry_def bucket_get_def)

section \<open>A node that follows a writer\<close>

text \<open>The positions a log acknowledges to a peer, in order.\<close>

definition acked :: "string \<Rightarrow> apply_action list \<Rightarrow> mark list" where
  "acked peer as = concat (map (\<lambda>a. case a of Record p tok \<Rightarrow> (if p = peer then [tok] else []) | _ \<Rightarrow> []) as)"

lemma acked_simps [simp]:
  "acked peer [] = []" "acked peer (as @ bs) = acked peer as @ acked peer bs"
  "acked peer (Record p tok # as) = (if p = peer then tok # acked peer as else acked peer as)"
  "acked peer (Advance p tok # as) = acked peer as" "acked peer (FenceFills k # as) = acked peer as"
  "acked peer (Reconcile b k' n # as) = acked peer as" "acked peer (EvictHot k # as) = acked peer as"
  "acked peer (FeedGap n # as) = acked peer as" "acked peer (RetireWarm k # as) = acked peer as"
  by (simp_all add: acked_def)

text \<open>An entry whose event says all a peer keeps of it.\<close>

definition travels :: "(string \<Rightarrow> etag option) \<Rightarrow> obj_entry \<Rightarrow> bool" where
  "travels pe e \<longleftrightarrow> (\<forall>t. e_etag e = Some t \<longrightarrow> pe (etag_to_wire t) = Some t) \<and> wire_stamp (e_last_modified e) = e_last_modified e
     \<and> (e_size e \<noteq> None \<or> e_etag e \<noteq> None)"

text \<open>A writer \<open>me\<close> and a peer that applies its feed: the writer indexes and publishes, the feed carries the event, the
  peer's loop applies it. The last argument lists the positions delivered. In between, other tasks of the peer may cache
  any bodies.\<close>

inductive fed ::
  "layout \<Rightarrow> (index_event \<Rightarrow> bytes option) \<Rightarrow> (bytes \<Rightarrow> index_event option) \<Rightarrow> apply_env \<Rightarrow> string
   \<Rightarrow> key_index_state \<Rightarrow> apply_state \<Rightarrow> mark list \<Rightarrow> bool"
  for lay to_vec from_slice env me where
  Start: "agree w (ap_index p) \<Longrightarrow> ap_log p = [] \<Longrightarrow> fed lay to_vec from_slice env me w p []"
| Put: "fed lay to_vec from_slice env me w p ps \<Longrightarrow> takes_write lay w bucket (mark_cut me tok)
    \<Longrightarrow> takes_write (ae_layout env) (ap_index p) bucket (mark_cut me tok) \<Longrightarrow> travels (ae_parse env) e
    \<Longrightarrow> index_put lay w bucket key e (mark_cut me tok) = (w', changed, ev) \<Longrightarrow> carries to_vec from_slice ev
    \<Longrightarrow> decode_event from_slice (encode_event to_vec ev) = Some ev' \<Longrightarrow> apply_peer_write env p (Wrote me tok ev') = Some p'
    \<Longrightarrow> fed lay to_vec from_slice env me w' p' (ps @ [tok])"
| Delete: "fed lay to_vec from_slice env me w p ps \<Longrightarrow> takes_write lay w bucket (mark_cut me tok)
    \<Longrightarrow> takes_write (ae_layout env) (ap_index p) bucket (mark_cut me tok) \<Longrightarrow> wire_stamp ts = ts
    \<Longrightarrow> index_del lay w bucket key ts (mark_cut me tok) = (w', ev) \<Longrightarrow> carries to_vec from_slice ev
    \<Longrightarrow> decode_event from_slice (encode_event to_vec ev) = Some ev' \<Longrightarrow> apply_peer_write env p (Wrote me tok ev') = Some p'
    \<Longrightarrow> fed lay to_vec from_slice env me w' p' (ps @ [tok])"
| Unknown: "fed lay to_vec from_slice env me w p ps \<Longrightarrow> index_unknown w bucket key now (mark_cut me tok) = Some (w', fence, ev)
    \<Longrightarrow> carries to_vec from_slice ev \<Longrightarrow> decode_event from_slice (encode_event to_vec ev) = Some ev'
    \<Longrightarrow> apply_peer_write env p (Wrote me tok ev') = Some p' \<Longrightarrow> fed lay to_vec from_slice env me w' p' (ps @ [tok])"
| Seal: "fed lay to_vec from_slice env me w p ps \<Longrightarrow> apply_peer_write env p (Sealed me tok) = Some p'
    \<Longrightarrow> fed lay to_vec from_slice env me w p' (ps @ [tok])"
| Renew: "fed lay to_vec from_slice env me w p ps \<Longrightarrow> apply_peer_write env p (Renewed me sealed epoch) = Some p'
    \<Longrightarrow> fed lay to_vec from_slice env me w p' (ps @ [(epoch, 0)])"
| Cache: "fed lay to_vec from_slice env me w p ps \<Longrightarrow> fed lay to_vec from_slice env me w (p\<lparr>ap_hot := hot\<rparr>) ps"

definition follows :: "apply_env \<Rightarrow> string \<Rightarrow> key_index_state \<Rightarrow> apply_state \<Rightarrow> mark list \<Rightarrow> bool" where
  "follows env me w p ps \<longleftrightarrow> agree w (ap_index p) \<and> acked me (ap_log p) = (if mode_acks (ae_mode env) then ps else [])"

lemma wrote_acks:
  assumes "apply_peer_write env p (Wrote me tok ev) = Some p'"
  obtains fenced where "apply_feed_index (ae_layout env) (ae_parse env) (ap_index p) (mark_cut me tok) ev = Some (ap_index p', fenced)"
    "acked me (ap_log p') = acked me (ap_log p) @ (if mode_acks (ae_mode env) then [tok] else [])"
    "(ie_bucket ev, ie_key ev) \<notin> ap_hot p'"
proof -
  have "apply_wrote env p me tok ev = Some p'"
    using assms by (simp add: apply_peer_write_def)
  then show thesis
    by (rule apply_wrote_effect) (rule that, auto split: option.splits)
qed

lemma follows_wrote:
  assumes "follows env me w p ps" "apply_peer_write env p (Wrote me tok ev) = Some p'"
    and "\<And>fenced. apply_feed_index (ae_layout env) (ae_parse env) (ap_index p) (mark_cut me tok) ev = Some (ap_index p', fenced)
      \<Longrightarrow> agree w' (ap_index p')"
  shows "follows env me w' p' (ps @ [tok])"
proof (rule wrote_acks [OF assms(2)], goal_cases)
  case (1 fenced)
  then show ?case
    using assms(1) assms(3) [OF 1(1)] by (simp add: follows_def)
qed

lemma fed_follows: "fed lay to_vec from_slice env me w p ps \<Longrightarrow> follows env me w p ps"
proof (induction rule: fed.induct)
  case (Start w p)
  then show ?case
    by (simp add: follows_def)
next
  case (Put w p ps bucket tok e key w' changed ev ev' p')
  have e: "\<forall>t. e_etag e = Some t \<longrightarrow> ae_parse env (etag_to_wire t) = Some t"
    "wire_stamp (e_last_modified e) = e_last_modified e" "e_size e \<noteq> None \<or> e_etag e \<noteq> None"
    using Put.hyps(4) by (simp_all add: travels_def)
  have "agree w (ap_index p)"
    using Put.IH by (simp add: follows_def)
  note t = peer_takes_put [OF this Put.hyps(2,3) e Put.hyps(5)]
  have "ev' = ev"
    using Put.hyps(7) carried [OF Put.hyps(6)] by simp
  then show ?case
    by (intro follows_wrote [OF Put.IH Put.hyps(8)]) (use t(2) in auto)
next
  case (Delete w p ps bucket tok ts key w' ev ev' p')
  have "agree w (ap_index p)"
    using Delete.IH by (simp add: follows_def)
  note t = peer_takes_del [OF this Delete.hyps(2-5)]
  have "ev' = ev"
    using Delete.hyps(7) carried [OF Delete.hyps(6)] by simp
  then show ?case
    by (intro follows_wrote [OF Delete.IH Delete.hyps(8)]) (use t(2) [of "ae_parse env"] in auto)
next
  case (Unknown w p ps bucket key now tok w' fence ev ev' p')
  note w = fence_keeps_rows [OF Unknown.hyps(2)]
  have ev: "ev' = unknown_event bucket key now"
    using Unknown.hyps(4) carried [OF Unknown.hyps(3)] w(1) by simp
  show ?case
  proof (rule follows_wrote [OF Unknown.IH Unknown.hyps(5)])
    fix fenced
    assume "apply_feed_index (ae_layout env) (ae_parse env) (ap_index p) (mark_cut me tok) ev' = Some (ap_index p', fenced)"
    note v = peer_fence_keeps_rows [OF this [unfolded ev]]
    show "agree w' (ap_index p')"
      using Unknown.IH unfolding follows_def agree_def w(2,3) v by simp
  qed
next
  case (Seal w p ps tok p')
  have p': "p' = apply_sealed env p me tok"
    using Seal.hyps(2) by (simp add: apply_peer_write_def)
  have v: "live (ap_index p') = live (ap_index p)" "dead (ap_index p') = dead (ap_index p)"
    unfolding p' by (simp_all add: apply_sealed_def observe_seal_def buckets_view [OF seal_keeps_buckets])
  show ?case
    using Seal.IH unfolding follows_def agree_def v by (auto simp: p' apply_sealed_def observe_seal_def)
next
  case (Renew w p ps sealed epoch p')
  have p': "p' = apply_renewed env p me sealed epoch"
    using Renew.hyps(2) by (simp add: apply_peer_write_def)
  have v: "live (ap_index p') = live (ap_index p)" "dead (ap_index p') = dead (ap_index p)"
    unfolding p' by (simp_all add: apply_renewed_def observe_renewal_def buckets_view [OF renewal_keeps_buckets])
  show ?case
    using Renew.IH unfolding follows_def agree_def v by (auto simp: p' apply_renewed_def observe_renewal_def)
next
  case (Cache w p ps hot)
  then show ?case
    by (simp add: follows_def)
qed

text \<open>C11: A peer follows a writer's feed. Take a writer and one peer whose indexes agree at the start, and any sequence of
  puts, deletes, unknown outcomes, seals and renewals that the writer publishes, each delivered to the peer's apply
  loop before the next, while nothing else writes to or observes into either index. The indexes agree after each event, on rows (up
  to the user metadata that does not travel) and on tombstones; in a mode that acknowledges, the peer has then recorded exactly
  the positions delivered, in order, and in any other mode none. The hypotheses of a put or delete: neither node is rebuilding the
  bucket, has consumed the position or sweeps tombstones, and its stamp and tag survive the wire.\<close>

theorem feed_keeps_agreement:
  assumes "fed lay to_vec from_slice env me w p ps"
  shows "agree w (ap_index p) \<and> acked me (ap_log p) = (if mode_acks (ae_mode env) then ps else [])"
  using fed_follows [OF assms] by (simp add: follows_def)

section \<open>Restarts\<close>

text \<open>C20: A sealed restart costs nothing. If this node holds a writer's position just before its seal, then delivering the
  seal and the renewal into the writer's next life keeps every bucket of the index as it was, with its rows, tombstones
  and sync state; a donor capture goes on, the crossing journalled and not withdrawn; the new life's start is the writer's
  cut, and the renewal is kept as recovery evidence. A gap instead leaves no crossing.\<close>

theorem sealed_restart_keeps_index:
  assumes "map_of (ki_native_cuts (ap_index s)) peer = Some (epoch, seq)" "0 < epoch" "peer \<noteq> []" "length peer \<le> MAX_NATIVE_ID_BYTES"
    and "seq < u64_max" "epoch < epoch'"
    and "ki_capture (ap_index s) = Some c" "2 \<le> ic_max_event_bytes c" "0 < ic_max_name_bytes c"
  shows "\<exists>s' c' new. apply_loop env s [Sealed peer (epoch, seq + 1), Renewed peer (epoch, seq + 1) epoch'] = Some s'
      \<and> ki_buckets (ap_index s') = ki_buckets (ap_index s) \<and> ap_hot s' = ap_hot s
      \<and> ki_capture (ap_index s') = Some c' \<and> ing_calls (ic_ingress c') = ing_calls (ic_ingress c) @ new \<and> valid_calls new
      \<and> map_of (ki_native_cuts (ap_index s')) peer = Some (epoch', 0)
      \<and> crossing_of s' peer = \<lparr>cr_renewal = Some ((epoch, seq + 1), epoch'), cr_sealed = None\<rparr>
      \<and> crossing_of (apply_gap env s peer missed) peer = crossing_default"
proof -
  let ?nc = "\<lparr>nc_writer = peer, nc_epoch = epoch, nc_sequence = Suc seq\<rparr>"
  let ?st = "(ap_index s)\<lparr>ki_native_cuts := om_insert peer (epoch, Suc seq) (ki_native_cuts (ap_index s))\<rparr>"
  have sat: "saturating_add64 seq 1 = Suc seq"
    using assms(5) by (simp add: saturating_add64_def)
  have seal: "note_native_seal (ap_index s) ?nc = journal (\<lambda>c. record_native_noop c (Native ?nc)) ?st"
    using assms(1-5) sat by (simp add: note_native_seal_def note_native_cut_def Let_def)
  obtain noop where noop: "encode_delta DNoop (ic_max_event_bytes c) (ic_max_name_bytes c) = Inr noop"
    using assms(8,9) by (auto simp: encode_delta_def writer_new_def w_u8_def w_put_def checked_add64_def u64_max_def)
  let ?c1 = "record_native_noop c (Native ?nc)" and ?c2 = "record_renewal (record_native_noop c (Native ?nc)) ?nc epoch'"
  have c1: "?c1 = c\<lparr>ic_ingress := journal_issue (ic_ingress c) (Append (ic_generation c) (Native ?nc) noop)\<rparr>"
    by (simp add: record_native_noop_def append_effect_def append_bytes_def noop)
  have c2: "ing_calls (ic_ingress ?c2) = ing_calls (ic_ingress c) @ [Append (ic_generation c) (Native ?nc) noop, Renew (ic_generation c) ?nc epoch' noop]"
    unfolding c1 by (simp add: record_renewal_def noop journal_issue_def)
  define s1 where "s1 = apply_sealed env s peer (epoch, Suc seq)"
  define s2 where "s2 = apply_renewed env s1 peer (epoch, Suc seq) epoch'"
  have i1: "ap_index s1 = journal (\<lambda>c. record_native_noop c (Native ?nc)) ?st" "ap_hot s1 = ap_hot s"
    by (simp_all add: s1_def apply_sealed_def observe_seal_def mark_cut_def peer_cut_def seal)
  have i2: "ap_index s2 = journal (\<lambda>c. record_renewal c ?nc epoch')
      (journal (\<lambda>c. record_native_noop c (Native ?nc)) ?st\<lparr>ki_native_cuts := om_insert peer (epoch', 0) (om_insert peer (epoch, Suc seq) (ki_native_cuts (ap_index s)))\<rparr>)"
    using assms(6) by (simp add: s2_def apply_renewed_def observe_renewal_def mark_cut_def peer_cut_def i1 renew_native_writer_def journal_def Let_def)
  have "apply_loop env s [Sealed peer (epoch, seq + 1), Renewed peer (epoch, seq + 1) epoch'] = Some s2"
    by (simp add: apply_peer_write_def s1_def s2_def)
  moreover have "ki_buckets (ap_index s2) = ki_buckets (ap_index s)" "ap_hot s2 = ap_hot s"
    "ki_capture (ap_index s2) = Some ?c2" "map_of (ki_native_cuts (ap_index s2)) peer = Some (epoch', 0)"
    using assms(7) i1(2) by (simp_all add: i2 journal_def) (simp_all add: s2_def apply_renewed_def observe_renewal_def)
  moreover have "crossing_of s2 peer = \<lparr>cr_renewal = Some ((epoch, seq + 1), epoch'), cr_sealed = None\<rparr>"
    by (simp add: s2_def apply_renewed_def observe_renewal_def crossing_of_def)
  moreover have "crossing_of (apply_gap env s peer missed) peer = crossing_default"
    by (simp add: apply_gap_def forget_crossing_def Let_def crossing_of_def)
  moreover have "valid_calls [Append (ic_generation c) (Native ?nc) noop, Renew (ic_generation c) ?nc epoch' noop]"
    by (simp add: valid_calls_def)
  ultimately show ?thesis
    using c2 by blast
qed

text \<open>A gap closes the node before it is acknowledged. When writes of a peer were missed, the handler empties every
  bucket of the index and leaves none synced, forgets what it knew of the peer's stops, and signals the recovery driver;
  only then does it advance the frontier and acknowledge, so that no reader that waits for that position can be answered
  from the rows of before. Fences stay in place.\<close>

theorem gap_closes_before_ack:
  "\<exists>s'. apply_peer_write env s (Gap peer missed) = Some s'
    \<and> ap_log s' = ap_log s @ (if ae_recovery env then [FeedGap (ae_lapses env)] else []) @ Advance peer missed
         # (if mode_acks (ae_mode env) then [Record peer missed] else [])
    \<and> (\<forall>b k. live (ap_index s') b k = None \<and> dead (ap_index s') b k = None
         \<and> fence_of (ap_index s') b k = fence_of (ap_index s) b k \<and> \<not> bs_synced (bucket_entry (ap_index s') b))
    \<and> crossing_of s' peer = crossing_default"
proof -
  let ?st = "discard_for_gap (ap_index s) (mark_cut peer missed)"
  have d: "live ?st b k = None" "dead ?st b k = None" "fence_of ?st b k = fence_of (ap_index s) b k" for b k
    using gap_discards_everything [of "ap_index s" "mark_cut peer missed"] by (auto simp: Let_def)
  have "\<not> bs_synced (bucket_entry ?st b)" for b
  proof (cases "bucket_get (ap_index s) b")
    case None
    then have "bucket_get ?st b = None"
      using writer_frame(3) [of "ap_index s" "mark_cut peer missed"] unfolding discard_for_gap_def discard_get by (simp add: bucket_get_def)
    then show ?thesis
      by (simp add: bucket_entry_def bucket_default_def)
  qed (use gap_discards_everything [of "ap_index s" "mark_cut peer missed"] in \<open>auto simp: Let_def\<close>)
  then show ?thesis
    using d by (simp add: apply_peer_write_def apply_gap_def Let_def forget_crossing_def crossing_of_def)
qed

section \<open>Instances\<close>

definition apply_env_example :: apply_env where
  "apply_env_example = \<lparr>ae_layout = layout_example, ae_parse = etag_parser_example, ae_mode = ModeStrong, ae_recovery = True, ae_lapses = 0\<rparr>"

definition apply_state_example :: "key_index_state \<Rightarrow> apply_state" where
  "apply_state_example st = \<lparr>ap_index = st, ap_hot = {(''b'', ''k'')}, ap_crossings = [], ap_log = []\<rparr>"

lemma feed_keeps_agreement_witness:
  "\<exists>w p. fed layout_example feed_codec_example feed_decodec_example apply_env_example ''w'' w p [(1, 1)] \<and> agree w (ap_index p)
     \<and> acked ''w'' (ap_log p) = [(1, 1)] \<and> (''b'', ''k'') \<notin> ap_hot p"
proof -
  let ?s = "apply_state_example key_index_default" and ?ev = "put_event ''b'' ''k'' feed_entry_example"
  have cut: "mark_cut ''w'' (1, 1) = feed_cut_example"
    by (simp add: mark_cut_def peer_cut_def feed_cut_example_def)
  have a: "agree key_index_default (ap_index ?s)"
    by (simp add: agree_def apply_state_example_def)
  have t: "travels (ae_parse apply_env_example) feed_entry_example"
    by (simp add: travels_def apply_env_example_def feed_entry_example_def etag_parser_example_def wire_stamp_example)
  then have e: "\<forall>t. e_etag feed_entry_example = Some t \<longrightarrow> ae_parse apply_env_example (etag_to_wire t) = Some t"
    "wire_stamp (e_last_modified feed_entry_example) = e_last_modified feed_entry_example"
    "e_size feed_entry_example \<noteq> None \<or> e_etag feed_entry_example \<noteq> None"
    by (simp_all add: travels_def)
  obtain w' changed ev where put: "index_put layout_example key_index_default ''b'' ''k'' feed_entry_example (mark_cut ''w'' (1, 1)) = (w', changed, ev)"
    by (metis prod_cases3)
  have takes: "takes_write layout_example key_index_default ''b'' (mark_cut ''w'' (1, 1))"
    "takes_write (ae_layout apply_env_example) (ap_index ?s) ''b'' (mark_cut ''w'' (1, 1))"
    using fresh_takes_write cut by (simp_all add: apply_env_example_def apply_state_example_def)
  note d = peer_takes_put [OF a takes e put]
  obtain p' where p': "apply_feed_index layout_example etag_parser_example key_index_default (mark_cut ''w'' (1, 1)) ?ev = Some (p', None)"
    using d by (auto simp: apply_env_example_def apply_state_example_def)
  have "\<exists>s'. apply_peer_write apply_env_example ?s (Wrote ''w'' (1, 1) ?ev) = Some s'"
    using p' by (simp add: apply_peer_write_def apply_wrote_def Let_def apply_env_example_def apply_state_example_def)
  then obtain s' where s': "apply_peer_write apply_env_example ?s (Wrote ''w'' (1, 1) ?ev) = Some s'" ..
  have "ap_log ?s = []"
    by (simp add: apply_state_example_def)
  then have f: "fed layout_example feed_codec_example feed_decodec_example apply_env_example ''w'' w' s' [(1, 1)]"
    using fed.Put [OF fed.Start [OF a] takes t put] carries_example(1) carried [OF carries_example(1)] d(1) s' by simp
  have "(''b'', ''k'') \<notin> ap_hot s'"
    using wrote_acks [OF s'] by (metis index_event.select_convs(2,3) put_event_def)
  then show ?thesis
    using feed_keeps_agreement [OF f] f by (auto simp: apply_env_example_def mode_acks_def)
qed

lemma sealed_restart_keeps_index_witness:
  "\<exists>s s' c'. apply_loop apply_env_example s [Sealed ''w'' (1, 5), Renewed ''w'' (1, 5) 2] = Some s'
     \<and> ki_buckets (ap_index s') = ki_buckets image_example \<and> ki_capture (ap_index s') = Some c' \<and> valid_calls (ing_calls (ic_ingress c'))
     \<and> map_of (ki_native_cuts (ap_index s')) ''w'' = Some (2, 0)"
proof -
  let ?s = "apply_state_example (image_example\<lparr>ki_native_cuts := [(''w'', (1, 4))], ki_capture := Some donor_capture_example\<rparr>)"
  have "\<exists>s' c' new. apply_loop apply_env_example ?s [Sealed ''w'' (1, 4 + 1), Renewed ''w'' (1, 4 + 1) 2] = Some s'
      \<and> ki_buckets (ap_index s') = ki_buckets (ap_index ?s) \<and> ap_hot s' = ap_hot ?s
      \<and> ki_capture (ap_index s') = Some c' \<and> ing_calls (ic_ingress c') = ing_calls (ic_ingress donor_capture_example) @ new \<and> valid_calls new
      \<and> map_of (ki_native_cuts (ap_index s')) ''w'' = Some (2, 0)
      \<and> crossing_of s' ''w'' = \<lparr>cr_renewal = Some ((1, 4 + 1), 2), cr_sealed = None\<rparr>
      \<and> crossing_of (apply_gap apply_env_example ?s ''w'' (1, 9)) ''w'' = crossing_default"
    by (rule sealed_restart_keeps_index)
      (simp_all add: apply_state_example_def MAX_NATIVE_ID_BYTES_def u64_max_def donor_capture_example_def capture_new_def)
  then show ?thesis
    by (auto simp: apply_state_example_def donor_capture_example_def capture_new_def)
qed

end
