(* ===== verification/Readiness.thy ===== *)
theory Readiness
  imports Feed
begin

text \<open>
  The pod's readiness (\<^verbatim>\<open>src/src/cache/readiness.rs\<close>, \<^verbatim>\<open>src/src/sync/readiness.rs\<close>) and the capability declaration it reads of its
  peers (\<^verbatim>\<open>src/src/sync/advertise.rs\<close>). The roster, the declarations that have arrived and whether the group accepts an
  offer are \<^verbatim>\<open>groupnet\<close>'s and are arguments; the tasks that watch and retry are sequences of events.
\<close>

section \<open>Declarations\<close>

definition CAP_INDEXED :: string where
  "CAP_INDEXED = ''s3cache:indexed''"

definition CAP_BOUNDED :: string where
  "CAP_BOUNDED = ''s3cache:bounded''"

text \<open>\<open>cap_acks\<close> and \<open>cap_lease\<close> are the capability names of \<^verbatim>\<open>groupnet\<close>.\<close>

definition capabilities :: "string \<Rightarrow> string \<Rightarrow> consistency \<Rightarrow> string list" where
  "capabilities cap_acks cap_lease c = (case c of
       ModeStrong \<Rightarrow> [cap_acks, cap_lease]
     | StrongAcks \<Rightarrow> [cap_acks]
     | Bounded \<Rightarrow> [CAP_BOUNDED])"

text \<open>The lock holds the flag and orders the offers: the declarations enqueued, oldest first.\<close>

record advertisement =
  ad_caps :: "string list"
  ad_indexed :: bool
  ad_inbox :: "string list list"

definition declared_caps :: "advertisement \<Rightarrow> string list" where
  "declared_caps a = ad_caps a @ (if ad_indexed a then [CAP_INDEXED] else [])"

definition offer :: "advertisement \<Rightarrow> bool \<Rightarrow> advertisement \<times> bool" where
  "offer a accepted = (if accepted then (a\<lparr>ad_inbox := ad_inbox a @ [declared_caps a]\<rparr>, True) else (a, False))"

definition ADVERTISE_RETRIES :: nat where
  "ADVERTISE_RETRIES = 30"

text \<open>Declaring and marking the index both publish afterwards: an offer, and retries until one is accepted. Another
  publication may run between two of them, so an offer is an event of its own.\<close>

datatype advertise_event = Offered bool | MarkIndexed

definition advertise_step :: "advertisement \<Rightarrow> advertise_event \<Rightarrow> advertisement" where
  "advertise_step a ev = (case ev of
       Offered accepted \<Rightarrow> fst (offer a accepted)
     | MarkIndexed \<Rightarrow> a\<lparr>ad_indexed := True\<rparr>)"

definition declare_caps :: "string list \<Rightarrow> advertisement" where
  "declare_caps caps = \<lparr>ad_caps = caps, ad_indexed = False, ad_inbox = []\<rparr>"

fun publish_caps :: "advertisement \<Rightarrow> nat \<Rightarrow> bool list \<Rightarrow> advertisement \<times> bool" where
  "publish_caps a retries [] = (a, False)"
| "publish_caps a retries (accepted # answers) =
     (if accepted then offer a True else case retries of 0 \<Rightarrow> (a, False) | Suc n \<Rightarrow> publish_caps a n answers)"

section \<open>Seeds not met yet\<close>

datatype status = Alive | Suspect | Dead

type_synonym roster = "(string \<times> status) list"

definition give_up :: "string list \<Rightarrow> string \<Rightarrow> string list" where
  "give_up unmet seed = filter (\<lambda>u. u \<noteq> seed) unmet"

definition settle :: "string list \<Rightarrow> roster \<Rightarrow> string list \<times> bool" where
  "settle unmet members = (let left = filter (\<lambda>seed. map_of members seed = None) unmet in (left, left \<noteq> []))"

definition expect_seeds :: "string list \<Rightarrow> string list \<Rightarrow> string list" where
  "expect_seeds unmet seeds = unmet @ seeds"

datatype seed_event = Expect "string list" | GiveUp string | Settle roster

definition seed_step :: "seed_event \<Rightarrow> string list \<Rightarrow> string list" where
  "seed_step ev unmet = (case ev of
       Expect seeds \<Rightarrow> expect_seeds unmet seeds
     | GiveUp seed \<Rightarrow> give_up unmet seed
     | Settle members \<Rightarrow> fst (settle unmet members))"

section \<open>The probe\<close>

definition peer_may_hold_index :: "string \<Rightarrow> string list \<Rightarrow> roster \<Rightarrow> (string \<Rightarrow> string list) \<Rightarrow> bool" where
  "peer_may_hold_index me unmet members caps \<longleftrightarrow> unmet \<noteq> []
     \<or> (\<exists>(peer, status) \<in> set members. peer \<noteq> me \<and> status \<noteq> Dead \<and> (caps peer = [] \<or> (\<exists>cap \<in> set (caps peer). cap = CAP_INDEXED)))"

record probe_state =
  pb_me :: string
  pb_unmet :: "string list"
  pb_members :: roster
  pb_caps :: "string \<Rightarrow> string list"

text \<open>No probe state is a proxy without gossip.\<close>

definition probe_ready :: "bool \<Rightarrow> probe_state option \<Rightarrow> bool" where
  "probe_ready index_ready sync \<longleftrightarrow> index_ready \<or> (case sync of
       None \<Rightarrow> True
     | Some p \<Rightarrow> \<not> peer_may_hold_index (pb_me p) (pb_unmet p) (pb_members p) (pb_caps p))"

definition initially_ready :: "key_index_state \<Rightarrow> bool option \<Rightarrow> string list \<Rightarrow> bool" where
  "initially_ready st serves buckets \<longleftrightarrow>
     (\<forall>bucket \<in> set buckets. case bucket_get st bucket of None \<Rightarrow> False | Some b \<Rightarrow> bs_synced b)
     \<and> (case serves of None \<Rightarrow> True | Some may_serve \<Rightarrow> may_serve)"

text \<open>One poll per observation of the node, until the first that is ready: the latch, and the observations left.\<close>

fun watch_index_ready :: "string list \<Rightarrow> (key_index_state \<times> bool option) list \<Rightarrow> bool \<times> (key_index_state \<times> bool option) list" where
  "watch_index_ready buckets [] = (False, [])"
| "watch_index_ready buckets ((st, serves) # polls) =
     (if initially_ready st serves buckets then (True, (st, serves) # polls) else watch_index_ready buckets polls)"

section \<open>What readiness promises\<close>

text \<open>A seed is accounted for by the events after it was last expected: given up, or seen in the roster.\<close>

definition settles :: "string \<Rightarrow> seed_event \<Rightarrow> bool" where
  "settles seed ev = (case ev of Expect _ \<Rightarrow> False | GiveUp s \<Rightarrow> s = seed | Settle members \<Rightarrow> map_of members seed \<noteq> None)"

lemma unmet_exactly:
  "seed \<in> set (fold seed_step evs []) \<longleftrightarrow> (\<exists>xs seeds ys. evs = xs @ Expect seeds # ys \<and> seed \<in> set seeds \<and> (\<forall>ev \<in> set ys. \<not> settles seed ev))"
proof (induction evs rule: rev_induct)
  case (snoc ev evs)
  have step: "seed \<in> set (seed_step ev unmet) \<longleftrightarrow> (seed \<in> set unmet \<and> \<not> settles seed ev) \<or> (\<exists>seeds. ev = Expect seeds \<and> seed \<in> set seeds)" for unmet
    by (auto simp: seed_step_def expect_seeds_def give_up_def settle_def Let_def settles_def split: seed_event.splits)
  have split: "(\<exists>xs seeds ys. evs @ [ev] = xs @ Expect seeds # ys \<and> seed \<in> set seeds \<and> (\<forall>e \<in> set ys. \<not> settles seed e))
    \<longleftrightarrow> ((\<exists>xs seeds ys. evs = xs @ Expect seeds # ys \<and> seed \<in> set seeds \<and> (\<forall>e \<in> set ys. \<not> settles seed e)) \<and> \<not> settles seed ev)
      \<or> (\<exists>seeds. ev = Expect seeds \<and> seed \<in> set seeds)" (is "?l \<longleftrightarrow> ?r")
  proof
    assume ?l
    then obtain xs seeds ys where l: "evs @ [ev] = xs @ Expect seeds # ys" "seed \<in> set seeds" "\<forall>e \<in> set ys. \<not> settles seed e"
      by blast
    then show ?r
      by (cases ys rule: rev_cases) auto
  next
    assume ?r
    then show ?l
    proof
      assume "(\<exists>xs seeds ys. evs = xs @ Expect seeds # ys \<and> seed \<in> set seeds \<and> (\<forall>e \<in> set ys. \<not> settles seed e)) \<and> \<not> settles seed ev"
      then obtain xs seeds ys where "evs = xs @ Expect seeds # ys" "seed \<in> set seeds" "\<forall>e \<in> set (ys @ [ev]). \<not> settles seed e"
        by auto
      then show ?l
        by (intro exI [of _ xs] exI [of _ seeds] exI [of _ "ys @ [ev]"]) simp
    qed (rule exI [of _ evs], force)
  qed
  show ?case
    by (simp add: step snoc split)
qed simp

text \<open>Readiness hides no index holder. If a cold node answers ready while it gossips, then every peer in its roster is
  itself, known dead, or has declared itself without an index; and every seed it was told to expect has since appeared in
  a roster it read or been given up. A suspected peer, a silent one and a seed not met keep it unready.\<close>

theorem ready_hides_no_holder:
  assumes "probe_ready False (Some p)" "pb_unmet p = fold seed_step evs []"
  shows "(\<forall>peer status. (peer, status) \<in> set (pb_members p) \<longrightarrow>
        peer = pb_me p \<or> status = Dead \<or> (pb_caps p peer \<noteq> [] \<and> CAP_INDEXED \<notin> set (pb_caps p peer)))
    \<and> (\<forall>xs seeds ys seed. evs = xs @ Expect seeds # ys \<longrightarrow> seed \<in> set seeds \<longrightarrow> (\<exists>ev \<in> set ys. settles seed ev))"
proof -
  have quiet: "\<not> peer_may_hold_index (pb_me p) (pb_unmet p) (pb_members p) (pb_caps p)"
    using assms(1) by (simp add: probe_ready_def)
  then have "pb_unmet p = []"
    by (simp add: peer_may_hold_index_def)
  then have "seed \<notin> set (fold seed_step evs [])" for seed
    using assms(2) by simp
  then show ?thesis
    using quiet unfolding unmet_exactly peer_may_hold_index_def by fastforce
qed

definition declared_order :: "advertisement \<Rightarrow> bool" where
  "declared_order a \<longleftrightarrow> (\<exists>n m. ad_inbox a = replicate n (ad_caps a) @ replicate m (ad_caps a @ [CAP_INDEXED])
     \<and> (\<not> ad_indexed a \<longrightarrow> m = 0))"

lemma advertise_step_order:
  assumes "declared_order a"
  shows "declared_order (advertise_step a ev)" "ad_caps (advertise_step a ev) = ad_caps a"
proof -
  obtain n m where nm: "ad_inbox a = replicate n (ad_caps a) @ replicate m (ad_caps a @ [CAP_INDEXED])" "\<not> ad_indexed a \<longrightarrow> m = 0"
    using assms by (auto simp: declared_order_def)
  show "ad_caps (advertise_step a ev) = ad_caps a"
    by (simp add: advertise_step_def offer_def split: advertise_event.split)
  show "declared_order (advertise_step a ev)"
  proof (cases "ev = Offered True")
    case True
    then have "ad_inbox (advertise_step a ev) = (if ad_indexed a
        then replicate n (ad_caps a) @ replicate (Suc m) (ad_caps a @ [CAP_INDEXED])
        else replicate (Suc n) (ad_caps a) @ replicate 0 (ad_caps a @ [CAP_INDEXED]))"
      using nm by (simp add: advertise_step_def offer_def declared_caps_def replicate_append_same)
    moreover have "ad_indexed (advertise_step a ev) = ad_indexed a" "ad_caps (advertise_step a ev) = ad_caps a"
      using True by (simp_all add: advertise_step_def offer_def)
    ultimately show ?thesis
      unfolding declared_order_def by (cases "ad_indexed a") (metis (full_types))+
  next
    case False
    then have "ad_inbox (advertise_step a ev) = ad_inbox a \<and> ad_caps (advertise_step a ev) = ad_caps a
        \<and> (ad_indexed a \<longrightarrow> ad_indexed (advertise_step a ev))"
      by (auto simp: advertise_step_def offer_def split: advertise_event.split)
    then show ?thesis
      using nm by (auto simp: declared_order_def)
  qed
qed

lemma replicates_order:
  "replicate n a @ replicate m b = xs @ c # ys \<Longrightarrow> P c \<Longrightarrow> P a \<longrightarrow> P b \<Longrightarrow> P b \<Longrightarrow> later \<in> set ys \<Longrightarrow> P later"
proof (induction n arbitrary: xs)
  case 0
  then have "set ys \<subseteq> {b}"
    by (metis append_Nil in_set_replicate list.set_intros(2) replicate_0 singletonI subsetI set_append Un_iff)
  then show ?case
    using 0 by auto
next
  case (Suc n)
  show ?case
  proof (cases xs)
    case Nil
    then have "c = a" "ys = replicate n a @ replicate m b"
      using Suc.prems(1) by auto
    then show ?thesis
      using Suc.prems by auto
  next
    case (Cons x xs')
    then have "replicate n a @ replicate m b = xs' @ c # ys"
      using Suc.prems(1) by auto
    then show ?thesis
      using Suc.IH Suc.prems(2-5) by blast
  qed
qed

text \<open>A declaration never goes back. However rejected offers are retried and interleaved, every declaration that reaches
  the group says something, and none without the index follows one with it; so a peer's last word is never older than
  the node's state.\<close>

theorem declaration_never_goes_back:
  "let a = fold (\<lambda>ev a. advertise_step a ev) evs (declare_caps (capabilities cap_acks cap_lease mode)) in
    (\<forall>caps \<in> set (ad_inbox a). caps \<noteq> [])
    \<and> (\<forall>xs caps ys. ad_inbox a = xs @ caps # ys \<longrightarrow> CAP_INDEXED \<in> set caps \<longrightarrow> (\<forall>later \<in> set ys. CAP_INDEXED \<in> set later))"
proof -
  let ?caps = "capabilities cap_acks cap_lease mode"
  define a where "a = fold (\<lambda>ev a. advertise_step a ev) evs (declare_caps ?caps)"
  have "declared_order a \<and> ad_caps a = ?caps"
    unfolding a_def
  proof (induction evs rule: rev_induct)
    case (snoc ev evs)
    then show ?case
      using advertise_step_order by simp
  qed (simp add: declared_order_def declare_caps_def)
  then obtain n m where nm: "ad_inbox a = replicate n ?caps @ replicate m (?caps @ [CAP_INDEXED])"
    unfolding declared_order_def by metis
  have "?caps \<noteq> []"
    by (simp add: capabilities_def split: consistency.split)
  then have "\<forall>caps \<in> set (ad_inbox a). caps \<noteq> []"
    using nm by auto
  moreover have "CAP_INDEXED \<in> set later"
    if "ad_inbox a = xs @ caps # ys" "CAP_INDEXED \<in> set caps" "later \<in> set ys" for xs caps ys later
    by (rule replicates_order [where P = "\<lambda>c. CAP_INDEXED \<in> set c", OF _ that(2) _ _ that(3)]) (use that(1) nm in auto)
  ultimately show ?thesis
    unfolding Let_def a_def [symmetric] by blast
qed

lemma ready_hides_no_holder_witness:
  "\<exists>p. probe_ready False (Some p) \<and> pb_members p = [(''a'', Alive), (''b'', Alive), (''c'', Dead)] \<and> CAP_INDEXED \<notin> set (pb_caps p ''b'')
     \<and> fold seed_step [Expect [''b'', ''d''], Settle [(''b'', Alive)], GiveUp ''d''] [] = []"
proof -
  let ?evs = "[Expect [''b'', ''d''], Settle [(''b'', Alive)], GiveUp ''d'']"
  let ?p = "\<lparr>pb_me = ''a'', pb_unmet = [], pb_members = [(''a'', Alive), (''b'', Alive), (''c'', Dead)], pb_caps = (\<lambda>_. [CAP_BOUNDED])\<rparr>"
  have r: "probe_ready False (Some ?p)"
    by (simp add: probe_ready_def peer_may_hold_index_def CAP_BOUNDED_def CAP_INDEXED_def)
  have e: "fold seed_step ?evs [] = []"
    by (simp add: seed_step_def expect_seeds_def settle_def give_up_def)
  have "CAP_INDEXED \<notin> set (pb_caps ?p ''b'')"
    using ready_hides_no_holder [OF r, of ?evs] e by simp
  then show ?thesis
    using r e by (intro exI [of _ ?p]) simp
qed

end
