(* ===== verification/Capture.thy ===== *)
theory Capture
  imports Stage
begin

text \<open>
  The donor's capture (\<^verbatim>\<open>src/src/index/fleet/capture.rs\<close>): taking the cut C of the live index under its lock,
  encoding the snapshot away from it, handing the image over, and retiring it. The donor journal and the byte
  admission are \<^verbatim>\<open>groupnet\<close>'s: whether they accept a call is an answer of \<open>env\<close>. A reservation is released when
  its owner is dropped, so the permits in use are a multiset that each operation returns beside its result. An ingress
  is shared by the index and its owners; its calls are kept in the index. How long the lock was held is only reported
  and is left out.
\<close>

section \<open>Owners\<close>

datatype admission_class = ClassEncoded | ClassDecoded | ClassSuffix | ClassInflight

record reservation =
  rv_class :: admission_class
  rv_bytes :: nat

type_synonym permits = "reservation multiset"

text \<open>The limits of the journal that the index reads.\<close>

record capture_journal_config =
  jcfg_max_cuts :: nat
  jcfg_max_cut_bytes :: nat
  jcfg_max_event_bytes :: nat

text \<open>A journal is the identity its ingress will have, its recovery generation and its limits.\<close>

record donor_journal =
  dj_id :: nat
  dj_generation :: nat
  dj_config :: capture_journal_config

record 'm capture_env =
  ce_grants :: "permits \<Rightarrow> admission_class \<Rightarrow> nat \<Rightarrow> bool"
  ce_begin :: "donor_journal \<Rightarrow> nat \<Rightarrow> nat \<Rightarrow> 'm list \<Rightarrow> native_cut list \<Rightarrow> bool"
  ce_ingress :: "donor_journal \<Rightarrow> reservation \<Rightarrow> bool"
  ce_finish :: "journal_call list \<Rightarrow> nat \<Rightarrow> nat \<Rightarrow> bool"
  ce_donor :: "bytes \<Rightarrow> reservation \<Rightarrow> reservation \<Rightarrow> bool"
  ce_hash :: "bytes \<Rightarrow> bytes"

record pending_capture =
  pc_index :: bool
  pc_ingress :: ingress
  pc_snapshot :: "key_index_state option"
  pc_size :: image_size
  pc_encoded_image :: "bytes option"
  pc_commitment :: "bytes option"
  pc_encoded :: "reservation option"
  pc_decoded :: "reservation option"

record donor_image =
  di_bytes :: bytes
  di_commitment :: bytes
  di_ingress :: ingress

record donor_capture =
  do_image :: donor_image
  do_encoded :: reservation
  do_decoded :: reservation

section \<open>Taking the cut\<close>

definition reserve :: "'m capture_env \<Rightarrow> permits \<Rightarrow> admission_class \<Rightarrow> nat \<Rightarrow> (reservation \<times> permits) ires" where
  "reserve env used cls n =
     (if ce_grants env used cls n
      then let r = \<lparr>rv_class = cls, rv_bytes = n\<rparr> in Inr (r, add_mset r used)
      else Inl Capacity)"

definition copy_cut :: "capture_journal_config \<Rightarrow> bytes \<times> nat \<times> nat \<Rightarrow> native_cut list \<times> nat \<Rightarrow> (native_cut list \<times> nat) ires" where
  "copy_cut config c = (\<lambda>(cuts, cut_bytes). case c of (writer, epoch, sequence) \<Rightarrow>
     bindE (ok_or Capacity (checked_add64 cut_bytes (length writer))) (\<lambda>cut_bytes.
       if writer = [] \<or> cut_bytes > jcfg_max_cut_bytes config then Inl Capacity
       else if length writer > jcfg_max_cut_bytes config then Inl Capacity
       else Inr (cuts @ [\<lparr>nc_writer = writer, nc_epoch = epoch, nc_sequence = sequence\<rparr>], cut_bytes)))"

definition copy_cuts :: "capture_journal_config \<Rightarrow> (bytes, nat \<times> nat) omap \<Rightarrow> native_cut list ires" where
  "copy_cuts config native_cuts =
     (if length native_cuts > jcfg_max_cuts config then Inl Capacity
      else if length native_cuts > max (min (jcfg_max_cuts config * 2) u64_max) 4 then Inl Capacity
      else bindE (foldE (copy_cut config) native_cuts ([], 0)) (\<lambda>(cuts, _). Inr cuts))"

definition open_ingress ::
  "'m capture_env \<Rightarrow> donor_journal \<Rightarrow> reservation \<Rightarrow> image_size \<Rightarrow> 'm list \<Rightarrow> native_cut list \<Rightarrow> ingress ires" where
  "open_ingress env j suffix sz members cuts =
     (if \<not> ce_begin env j (encoded_bytes sz) (decoded_bytes sz) members cuts then Inl Incomplete
      else if \<not> ce_ingress env j suffix then Inl Capacity
      else Inr \<lparr>ing_id = dj_id j, ing_calls = []\<rparr>)"

text \<open>What the code does under the lock before it attaches anything, with the permits it has reserved by then.\<close>

definition prepare_capture ::
  "'m capture_env \<Rightarrow> layout \<Rightarrow> key_index_state \<Rightarrow> permits \<Rightarrow> donor_journal \<Rightarrow> reservation \<Rightarrow> 'm list \<Rightarrow> string list
   \<Rightarrow> image_caps \<Rightarrow> (pending_capture \<times> permits) ires" where
  "prepare_capture env lay st used j suffix members universe caps =
     bindE (tallied_size lay st universe caps) (\<lambda>sz.
     bindE (reserve env used ClassEncoded (encoded_bytes sz)) (\<lambda>(encoded, used).
     bindE (reserve env used ClassDecoded (decoded_bytes sz)) (\<lambda>(decoded, used).
     bindE (snapshot_state st universe) (\<lambda>snap.
     bindE (copy_cuts (dj_config j) (ki_native_cuts st)) (\<lambda>cuts.
     bindE (open_ingress env j suffix sz members cuts) (\<lambda>ing.
       Inr (\<lparr>pc_index = True, pc_ingress = ing, pc_snapshot = Some snap, pc_size = sz, pc_encoded_image = None,
              pc_commitment = None, pc_encoded = Some encoded, pc_decoded = Some decoded\<rparr>, used)))))))"

text \<open>An early return drops the permits reserved so far, so the caller keeps those it had. The third component is
  the capture this one replaces, with its last call.\<close>

definition begin_fleet_capture ::
  "'m capture_env \<Rightarrow> layout \<Rightarrow> key_index_state \<Rightarrow> permits \<Rightarrow> donor_journal \<Rightarrow> reservation \<Rightarrow> 'm list \<Rightarrow> string list
   \<Rightarrow> image_caps \<Rightarrow> key_index_state \<times> permits \<times> index_capture option \<times> pending_capture ires" where
  "begin_fleet_capture env lay st used j suffix members universe caps =
     (if rv_class suffix \<noteq> ClassSuffix then (st, used, None, Inl Capacity)
      else case prepare_capture env lay st used j suffix members universe caps of
          Inl e \<Rightarrow> (st, used, None, Inl e)
        | Inr (pending, used) \<Rightarrow>
            (st\<lparr>ki_capture := Some (capture_new (pc_ingress pending) (dj_generation j)
                 (jcfg_max_event_bytes (dj_config j)) (c_name_bytes caps))\<rparr>,
             used, map_option (\<lambda>c. capture_invalidate c InvDonorLost) (ki_capture st), Inr pending))"

section \<open>Retiring\<close>

definition retire_fleet_capture :: "key_index_state \<Rightarrow> ingress \<Rightarrow> key_index_state \<times> index_capture option" where
  "retire_fleet_capture st ing = (case ki_capture st of
       None \<Rightarrow> (st, None)
     | Some c \<Rightarrow> if same_ingress c ing then (st\<lparr>ki_capture := None\<rparr>, Some (capture_invalidate c InvDonorLost)) else (st, None))"

definition retire_fleet_service :: "key_index_state \<Rightarrow> key_index_state \<times> index_capture option" where
  "retire_fleet_service st = (st\<lparr>ki_capture := None\<rparr>, map_option (\<lambda>c. capture_invalidate c InvDonorLost) (ki_capture st))"

definition has_fleet_capture :: "key_index_state \<Rightarrow> ingress \<Rightarrow> bool" where
  "has_fleet_capture st ing = (case ki_capture st of None \<Rightarrow> False | Some c \<Rightarrow> same_ingress c ing)"

definition permits_of :: "reservation option \<Rightarrow> permits" where
  "permits_of r = (case r of None \<Rightarrow> {#} | Some r \<Rightarrow> {#r#})"

definition drop_pending :: "key_index_state \<Rightarrow> permits \<Rightarrow> pending_capture \<Rightarrow> key_index_state \<times> permits" where
  "drop_pending st used p =
     (if pc_index p then fst (retire_fleet_capture st (pc_ingress p)) else st,
      used - permits_of (pc_encoded p) - permits_of (pc_decoded p))"

definition drop_donor :: "key_index_state \<Rightarrow> permits \<Rightarrow> donor_capture \<Rightarrow> key_index_state \<times> permits" where
  "drop_donor st used d =
     (fst (retire_fleet_capture st (di_ingress (do_image d))), used - {#do_encoded d#} - {#do_decoded d#})"

section \<open>Encoding and handing over\<close>

definition encode_pending ::
  "'m capture_env \<Rightarrow> layout \<Rightarrow> pending_capture \<Rightarrow> string list \<Rightarrow> image_caps \<Rightarrow> pending_capture \<times> unit ires" where
  "encode_pending env lay p universe caps = (case pc_snapshot p of
       None \<Rightarrow> (p, Inl Corrupt)
     | Some snap \<Rightarrow>
         (let p = p\<lparr>pc_snapshot := None\<rparr>
          in case measure_image lay snap universe caps of
              Inl e \<Rightarrow> (p, Inl e)
            | Inr measured \<Rightarrow>
                if measured \<noteq> pc_size p then (p, Inl Corrupt)
                else (case encode_image snap universe caps (pc_size p) of
                    Inl e \<Rightarrow> (p, Inl e)
                  | Inr bs \<Rightarrow> (p\<lparr>pc_commitment := Some (ce_hash env bs), pc_encoded_image := Some bs\<rparr>, Inr ()))))"

definition private_size :: "pending_capture \<Rightarrow> nat" where
  "private_size p = (case pc_decoded p of None \<Rightarrow> 0 | Some r \<Rightarrow> rv_bytes r)"

definition finish_pending :: "'m capture_env \<Rightarrow> key_index_state \<Rightarrow> pending_capture \<Rightarrow> donor_capture ires" where
  "finish_pending env st p =
     bindE (ok_or Incomplete (pc_encoded_image p)) (\<lambda>bs.
     if \<not> pc_index p then Inl Corrupt
     else if \<not> has_fleet_capture st (pc_ingress p) then Inl Incomplete
     else if \<not> ce_finish env (ing_calls (ic_ingress (the (ki_capture st)))) (length bs) (private_size p) then Inl Incomplete
     else
       bindE (ok_or Corrupt (pc_encoded p)) (\<lambda>encoded.
       bindE (ok_or Corrupt (pc_decoded p)) (\<lambda>decoded.
       bindE (ok_or Corrupt (pc_commitment p)) (\<lambda>commitment.
       if \<not> ce_donor env bs encoded decoded then Inl Incomplete
       else Inr \<lparr>do_image = \<lparr>di_bytes = bs, di_commitment = commitment, di_ingress = pc_ingress p\<rparr>,
                 do_encoded = encoded, do_decoded = decoded\<rparr>))))"

text \<open>A finish that fails drops the pending capture it consumed.\<close>

definition finish ::
  "'m capture_env \<Rightarrow> key_index_state \<Rightarrow> permits \<Rightarrow> pending_capture \<Rightarrow> key_index_state \<times> permits \<times> donor_capture ires" where
  "finish env st used p = (case finish_pending env st p of
       Inl e \<Rightarrow> (case drop_pending st used p of (st, used) \<Rightarrow> (st, used, Inl e))
     | Inr d \<Rightarrow> (st, used, Inr d))"

section \<open>The snapshot at C\<close>

lemma tallied_universe:
  "foldE (tallied_bucket lay idx caps) us (prev, bud, enc, n) = Inr r \<Longrightarrow>
     sorted_wrt (<) us \<and> (\<forall>u \<in> set us. name_after prev u \<and> (\<exists>b. bucket_get idx u = Some b \<and> complete_bucket b))"
proof (induction us arbitrary: prev bud enc n)
  case (Cons u us)
  obtain s where s: "tallied_bucket lay idx caps u (prev, bud, enc, n) = Inr s" "foldE (tallied_bucket lay idx caps) us s = Inr r"
    using Cons.prems by (auto simp: bindE_eq_Inr)
  obtain bud' enc' n' b where one: "image_bucket idx u prev caps = Inr b" "s = (Some u, bud', enc', n')"
    using s(1) by (auto simp: bindE_eq_Inr tallied_bucket_def Let_def)
  then show ?case
    using Cons.IH [OF s(2) [unfolded one(2)]] by (auto simp: image_bucket_Inr name_after_def split: option.splits)
qed simp

lemma tallied_universe_ok:
  assumes "tallied_size lay st universe caps = Inr sz"
  shows "sorted_wrt (<) universe" "length (ki_buckets st) = length universe"
    "\<And>u. u \<in> set universe \<Longrightarrow> \<exists>b. bucket_get st u = Some b \<and> complete_bucket b"
  using assms tallied_universe unfolding tallied_size_def image_loop_Inr by blast+

lemma snapshot_fold:
  assumes "foldE (\<lambda>name st. bindE (ok_or Incomplete (bucket_get idx name)) (\<lambda>b.
           Inr ((bucket_set st name (snapshot_bucket b))
             \<lparr>ki_stats := stats_replace (ki_stats st) index_stats_default (bs_stats b)\<rparr>))) us st = Inr st'"
    and "om_ok (ki_buckets st)" "distinct us" "\<forall>u \<in> set us. bucket_get st u = None"
  shows "length (ki_buckets st') = length (ki_buckets st) + length us" "om_ok (ki_buckets st')" "ki_native_cuts st' = ki_native_cuts st"
    and "bucket_get st' n = (if n \<in> set us then map_option snapshot_bucket (bucket_get idx n) else bucket_get st n)"
proof -
  have "length (ki_buckets st') = length (ki_buckets st) + length us \<and> om_ok (ki_buckets st') \<and> ki_native_cuts st' = ki_native_cuts st
      \<and> (\<forall>n. bucket_get st' n = (if n \<in> set us then map_option snapshot_bucket (bucket_get idx n) else bucket_get st n))"
    using assms
  proof (induction us arbitrary: st)
    case (Cons u us)
    obtain b where b: "bucket_get idx u = Some b"
      using Cons.prems(1) by (auto simp: bindE_eq_Inr ok_or_def split: option.splits)
    let ?s = "(bucket_set st u (snapshot_bucket b))\<lparr>ki_stats := stats_replace (ki_stats st) index_stats_default (bs_stats b)\<rparr>"
    have get: "bucket_get ?s = (bucket_get st)(u \<mapsto> snapshot_bucket b)"
      by (simp add: bucket_get_def bucket_set_def fun_eq_iff)
    have s: "length (ki_buckets ?s) = Suc (length (ki_buckets st))" "om_ok (ki_buckets ?s)" "ki_native_cuts ?s = ki_native_cuts st"
      using Cons.prems(2,4) by (auto simp: bucket_set_def om_length_insert bucket_get_def)
    have none: "\<forall>x \<in> set us. bucket_get ?s x = None" "distinct us"
      using Cons.prems(3,4) unfolding get by auto
    have "foldE (\<lambda>name st. bindE (ok_or Incomplete (bucket_get idx name)) (\<lambda>b.
           Inr ((bucket_set st name (snapshot_bucket b))
             \<lparr>ki_stats := stats_replace (ki_stats st) index_stats_default (bs_stats b)\<rparr>))) us ?s = Inr st'"
      using Cons.prems(1) b by (simp add: ok_or_def)
    from Cons.IH [OF this s(2) none(2,1)] show ?case
      using b Cons.prems(3) unfolding get s(1,3) by auto
  qed simp
  then show "length (ki_buckets st') = length (ki_buckets st) + length us" "om_ok (ki_buckets st')" "ki_native_cuts st' = ki_native_cuts st"
    "bucket_get st' n = (if n \<in> set us then map_option snapshot_bucket (bucket_get idx n) else bucket_get st n)"
    by blast+
qed

lemma universe_is_index:
  assumes "tallied_size lay st universe caps = Inr sz" "om_ok (ki_buckets st)"
  shows "n \<in> set universe \<longleftrightarrow> bucket_get st n \<noteq> None"
proof -
  have sub: "set universe \<subseteq> fst ` set (ki_buckets st)"
    using tallied_universe_ok(3) [OF assms(1)] by (force simp: bucket_get_def dest: map_of_SomeD)
  have "set universe = fst ` set (ki_buckets st)"
  proof (rule card_subset_eq [OF _ sub])
    show "card (set universe) = card (fst ` set (ki_buckets st))"
      using tallied_universe_ok(1,2) [OF assms(1)] om_ok_distinct [OF assms(2)]
      by (simp add: distinct_card strict_sorted_iff flip: set_map)
  qed simp
  then show ?thesis
    by (auto simp: bucket_get_def map_of_eq_None_iff)
qed

lemma snapshot_is_index:
  assumes "tallied_size lay st universe caps = Inr sz" "snapshot_state st universe = Inr snap" "om_ok (ki_buckets st)"
  shows "bucket_get snap n = map_option snapshot_bucket (bucket_get st n)" "length (ki_buckets snap) = length universe"
    "om_ok (ki_buckets snap)" "ki_native_cuts snap = []"
proof -
  have f: "foldE (\<lambda>name st'. bindE (ok_or Incomplete (bucket_get st name)) (\<lambda>b.
           Inr ((bucket_set st' name (snapshot_bucket b))
             \<lparr>ki_stats := stats_replace (ki_stats st') index_stats_default (bs_stats b)\<rparr>))) universe key_index_default = Inr snap"
    using assms(2) by (auto simp: snapshot_state_def bindE_eq_Inr)
  have d: "om_ok (ki_buckets key_index_default)" "distinct universe" "\<forall>u \<in> set universe. bucket_get key_index_default u = None"
    using tallied_universe_ok(1) [OF assms(1)] by (auto simp: key_index_default_def bucket_get_def strict_sorted_iff)
  show "bucket_get snap n = map_option snapshot_bucket (bucket_get st n)" "length (ki_buckets snap) = length universe"
    "om_ok (ki_buckets snap)" "ki_native_cuts snap = []"
    using snapshot_fold [OF f d] universe_is_index [OF assms(1,3), of n] by (auto simp: key_index_default_def bucket_get_def)
qed

lemma snapshot_fields [simp]:
  "bs_keys (snapshot_bucket b) = bs_keys b" "bs_gone (snapshot_bucket b) = bs_gone b" "complete_bucket (snapshot_bucket b)"
  by (simp_all add: snapshot_bucket_def complete_bucket_def bucket_default_def)

lemma measure_bucket_snapshot:
  assumes "bucket_get snap u = Some (snapshot_bucket b)" "bucket_get st u = Some b" "complete_bucket b"
  shows "measure_bucket lay snap caps u = measure_bucket lay st caps u"
proof -
  have i: "image_bucket snap u prev caps = (case image_bucket st u prev caps of Inl e \<Rightarrow> Inl e | Inr b \<Rightarrow> Inr (snapshot_bucket b))" for prev
    using assms by (auto simp: image_bucket_def complete_bucket_def snapshot_bucket_def bucket_default_def ok_or_def bindE_def)
  have "measure_bucket lay snap caps u (prev, bud, enc, n) = measure_bucket lay st caps u (prev, bud, enc, n)" for prev bud enc n
    unfolding measure_bucket_def prod.case i by (cases "image_bucket st u prev caps") (simp_all add: add_rows_def)
  then show ?thesis
    by (auto simp: fun_eq_iff)
qed

lemma measure_snapshot:
  assumes "tallied_size lay st universe caps = Inr sz" "snapshot_state st universe = Inr snap" "om_ok (ki_buckets st)"
  shows "measure_image lay snap universe caps = measure_image lay st universe caps"
proof -
  note s = snapshot_is_index [OF assms]
  have "foldE (measure_bucket lay snap caps) us acc = foldE (measure_bucket lay st caps) us acc" if "set us \<subseteq> set universe" for us acc
    using that
  proof (induction us arbitrary: acc)
    case (Cons u us)
    then obtain b where "bucket_get st u = Some b" "complete_bucket b"
      using tallied_universe_ok(3) [OF assms(1), of u] by auto
    then have "measure_bucket lay snap caps u = measure_bucket lay st caps u"
      using measure_bucket_snapshot s(1) [of u] by simp
    moreover have "foldE (measure_bucket lay snap caps) us = foldE (measure_bucket lay st caps) us"
      using Cons by (simp add: fun_eq_iff)
    ultimately show ?case
      by simp
  qed simp
  then have f: "foldE (measure_bucket lay snap caps) universe = foldE (measure_bucket lay st caps) universe"
    by (simp add: fun_eq_iff)
  show ?thesis
    unfolding measure_image_def image_loop_def f s(2) tallied_universe_ok(2) [OF assms(1)] ..
qed

lemma snapshot_view:
  assumes "\<And>n. bucket_get snap n = map_option snapshot_bucket (bucket_get st n)"
  shows "index_view snap = index_view st"
  using assms by (auto simp: index_view_def live_def dead_def bucket_entry_def fun_eq_iff split: option.split)

lemma snapshot_typed:
  assumes "\<And>n. bucket_get snap n = map_option snapshot_bucket (bucket_get st n)" "index_typed pe st"
  shows "index_typed pe snap"
  using assms by (fastforce simp: index_typed_def bucket_typed_def)

lemma snapshot_index_ok:
  assumes "tallied_size lay st universe caps = Inr sz" "snapshot_state st universe = Inr snap" "index_ok lay st"
  shows "index_ok lay snap"
proof -
  have om: "om_ok (ki_buckets st)"
    using assms(3) by (simp add: index_ok_def)
  note s = snapshot_is_index [OF assms(1,2) om]
  have "bucket_ok lay (snapshot_bucket b)" if "bucket_get st n = Some b" for n b
    using that assms(3) map_of_SomeD [of "ki_buckets st" n b]
    by (auto simp: index_ok_def bucket_ok_def rows_ok_def row_order_def fences_ok_def rebuild_ok_def bucket_get_def snapshot_bucket_def bucket_default_def u64_max_def)
  then have "bucket_ok lay b" if "(n, b) \<in> set (ki_buckets snap)" for n b
    using s(1) [of n] that om_ok_distinct [OF s(3)] by (cases "bucket_get st n") (auto simp: bucket_get_def)
  then show ?thesis
    using s(3,4) by (auto simp: index_ok_def om_ok_def)
qed

section \<open>What a capture promises\<close>

lemma begin_captured:
  assumes "begin_fleet_capture env lay st used j suffix members universe caps = (st', used', old, Inr p)"
  obtains snap cuts where "tallied_size lay st universe caps = Inr (pc_size p)" "snapshot_state st universe = Inr snap"
    "copy_cuts (dj_config j) (ki_native_cuts st) = Inr cuts"
    "pc_snapshot p = Some snap" "pc_index p" "pc_encoded_image p = None" "pc_ingress p = \<lparr>ing_id = dj_id j, ing_calls = []\<rparr>"
    "pc_encoded p = Some \<lparr>rv_class = ClassEncoded, rv_bytes = encoded_bytes (pc_size p)\<rparr>"
    "pc_decoded p = Some \<lparr>rv_class = ClassDecoded, rv_bytes = decoded_bytes (pc_size p)\<rparr>"
    "used' = used + permits_of (pc_encoded p) + permits_of (pc_decoded p)"
    "st' = st\<lparr>ki_capture := Some (capture_new (pc_ingress p) (dj_generation j) (jcfg_max_event_bytes (dj_config j)) (c_name_bytes caps))\<rparr>"
  using assms
  by (auto simp: begin_fleet_capture_def prepare_capture_def bindE_eq_Inr reserve_def open_ingress_def Let_def permits_of_def
      split: if_splits sum.splits)

lemma begin_refused:
  assumes "begin_fleet_capture env lay st used j suffix members universe caps = (st', used', old, Inl e)"
  shows "st' = st \<and> used' = used \<and> old = None"
  using assms by (auto simp: begin_fleet_capture_def split: if_splits sum.splits)

text \<open>Encoding a captured snapshot, whatever has happened to the live index since.\<close>

lemma encode_captured:
  assumes "begin_fleet_capture env lay st used j suffix members universe caps = (st', used', old, Inr p)"
    and "index_ok lay st" "index_typed pe st"
  obtains (refused) e where "measure_image lay st universe caps = Inl e"
      "encode_pending env lay p universe caps = (p\<lparr>pc_snapshot := None\<rparr>, Inl e)"
    | (encoded) snap bs where "measure_image lay st universe caps = Inr (pc_size p)" "measure_image lay snap universe caps = Inr (pc_size p)"
      "encode_pending env lay p universe caps
        = (p\<lparr>pc_snapshot := None, pc_commitment := Some (ce_hash env bs), pc_encoded_image := Some bs\<rparr>, Inr ())"
      "encode_image snap universe caps (pc_size p) = Inr bs" "length bs = encoded_bytes (pc_size p)"
      "index_typed pe snap" "\<And>n. bucket_get snap n = map_option snapshot_bucket (bucket_get st n)" "index_ok lay snap"
proof -
  obtain snap where b: "tallied_size lay st universe caps = Inr (pc_size p)" "snapshot_state st universe = Inr snap" "pc_snapshot p = Some snap"
    using begin_captured [OF assms(1)] by metis
  have om: "om_ok (ki_buckets st)"
    using assms(2) by (simp add: index_ok_def)
  note m = measure_snapshot [OF b(1,2) om] and g = snapshot_is_index(1) [OF b(1,2) om]
  note typed = snapshot_typed [OF g assms(3)]
  show thesis
  proof (cases "measure_image lay st universe caps")
    case (Inl e)
    then show ?thesis
      using refused m b(3) by (simp add: encode_pending_def Let_def)
  next
    case (Inr sz)
    then have sz: "sz = pc_size p"
      using tallied_size_core [OF assms(2)] b(1) by fastforce
    note en = encode_image_total [OF m [unfolded Inr sz] typed]
    show ?thesis
      by (rule encoded [OF _ _ _ en typed g snapshot_index_ok [OF b(1,2) assms(2)]]) (use Inr m sz b(3) en(1) in \<open>simp_all add: encode_pending_def Let_def\<close>)
  qed
qed

lemma captured_donating:
  assumes "begin_fleet_capture env lay st used j suffix members universe caps = (dn, used', old, Inr p)" "index_ok lay st"
  shows "donating lay dn \<and> index_view dn = index_view st"
proof (rule begin_captured [OF assms(1)], goal_cases)
  case (1 snap cuts)
  have "\<not> rebuilding st n" for n
  proof (cases "bucket_get st n")
    case (Some b)
    then have "complete_bucket b"
      using tallied_universe_ok(3) [OF 1(1), of n] universe_is_index [OF 1(1), of n] assms(2) by (auto simp: index_ok_def)
    then show ?thesis
      using Some by (simp add: rebuilding_def bucket_entry_def complete_bucket_def)
  qed (simp add: rebuilding_def bucket_entry_def bucket_default_def)
  then have "donating lay dn"
    using 1(11) assms(2) by (auto simp: donating_def index_ok_def rebuilding_def bucket_entry_def)
  moreover have "index_view dn = index_view st"
    using 1(11) by (simp add: index_view_def live_def dead_def bucket_entry_def fun_eq_iff)
  ultimately show ?case ..
qed

lemma store_chunks_frame: "store_chunks s n cs = Inr s' \<Longrightarrow> fs_caps s' = fs_caps s \<and> fs_max_event_bytes s' = fs_max_event_bytes s"
  by (induction cs arbitrary: s n) (fastforce simp: store_chunk_def split: prod.splits sum.splits if_splits option.splits)+

lemma stage_verify_frame: "stage_verify lay pe hash s h = (s', r) \<Longrightarrow> fs_caps s' = fs_caps s \<and> fs_max_event_bytes s' = fs_max_event_bytes s"
  by (auto simp: stage_verify_def split: if_splits sum.splits)

text \<open>An image is exactly the index at C. Encoding runs after the lock is released, on the snapshot; it fails only
  if the codec refuses one of the rows the index held at C, never because the size read off the tallies was wrong.
  Otherwise it yields as many bytes as were reserved at C, whose decoding within the reserved charge gives the rows
  and tombstones of C, whatever writes the live index has taken since.\<close>

theorem captured_image_exact:
  assumes "begin_fleet_capture env lay st used j suffix members universe caps = (dn, used', old, Inr p)"
    and "index_ok lay st" "index_typed pe st" "encode_pending env lay p universe caps = (p', r)"
  shows "case r of
      Inl e \<Rightarrow> measure_image lay st universe caps = Inl e \<and> pc_encoded_image p' = None
    | Inr _ \<Rightarrow> (\<exists>bs st'. pc_encoded_image p' = Some bs \<and> pc_commitment p' = Some (ce_hash env bs)
        \<and> pc_encoded p' = Some \<lparr>rv_class = ClassEncoded, rv_bytes = length bs\<rparr>
        \<and> pc_decoded p' = Some \<lparr>rv_class = ClassDecoded, rv_bytes = decoded_bytes (pc_size p)\<rparr>
        \<and> decode_image lay pe bs (reserved_caps caps (length bs) (decoded_bytes (pc_size p))) = Inr st'
        \<and> index_view st' = skel_view (index_view st))"
proof (rule begin_captured [OF assms(1)], goal_cases)
  case (1 snp cuts)
  show ?case
  proof (rule encode_captured [OF assms(1-3)], goal_cases)
    case refused: (1 e)
    then show ?thesis
      using assms(4) 1(6) by auto
  next
    case encoded: (2 snap bs)
    have r: "r = Inr ()" "p' = p\<lparr>pc_snapshot := None, pc_commitment := Some (ce_hash env bs), pc_encoded_image := Some bs\<rparr>"
      using encoded(3) assms(4) by auto
    obtain st' where st': "decode_image lay pe bs (reserved_caps caps (length bs) (decoded_bytes (pc_size p))) = Inr st'"
      "\<And>name. if name \<in> set universe then \<exists>b'. bucket_get st' name = Some b' \<and> decoded_as (bucket_entry snap name) b'
         else bucket_get st' name = None"
      using image_roundtrip_core [OF encoded(2,6)] encoded(4,5) by auto
    have "om_ok (ki_buckets st)"
      using assms(2) by (simp add: index_ok_def)
    then have "bucket_get snap name = None" if "name \<notin> set universe" for name
      using universe_is_index [OF 1(1), of name] encoded(7) [of name] that by simp
    then have "index_view st' = skel_view (index_view snap)"
      using decoded_view(1) [of universe st' snap] st'(2) by metis
    then show ?thesis
      using r st'(1) 1(8,9) encoded(5) snapshot_view [OF encoded(7)] by auto
  qed
qed

text \<open>C12: A bootstrap ends with the donor's rows. A follower is sent the image of a capture in any chunks, while the
  donor goes on applying writes, own and replicated. The chunks verify against the commitment the donor computed, and
  once the follower has accepted the effects the donor journalled since C, its private index holds the rows and
  tombstones of the donor's current index, less content types and metadata. The hypotheses: the capture was not
  withdrawn, and the journalled effects fit the stage's limits.\<close>

theorem bootstrap_reaches_donor:
  assumes "begin_fleet_capture env lay st used j suffix members universe caps = (dn, used', old, Inr p)"
    and "index_ok lay st" "index_typed pe st"
    and "encode_pending env lay p universe caps = (p', Inr ())" "pc_encoded_image p' = Some bs" "pc_commitment p' = Some h"
    and "donor_run lay dn ds dn'" "ki_capture dn' = Some c'" "valid_calls (ing_calls (ic_ingress c'))"
    and "concat cs = bs" "\<forall>c \<in> set cs. c \<noteq> []" "max_event \<le> u64_max"
    and "stage_new (length bs) (length cs) at (decoded_bytes (pc_size p)) caps max_event = Inr s0"
    and "\<forall>d \<in> set ds. decodable lay pe s0 d" "map jd_effect (jb_deltas batch) = call_effects (ing_calls (ic_ingress c'))"
  shows "\<exists>s1 s2. store_chunks s0 0 cs = Inr s1 \<and> stage_verify lay pe (ce_hash env) s1 h = (s2, Inr ())
    \<and> staged lay s2 (skel_view (index_view st))
    \<and> (\<forall>s3. stage_batch lay pe s2 batch = (s3, Inr ()) \<longrightarrow> staged lay s3 (skel_view (index_view dn')))"
proof -
  have don: "donating lay dn" "index_view dn = index_view st"
    using captured_donating [OF assms(1,2)] by simp_all
  have cap: "\<exists>c. ki_capture dn = Some c \<and> ing_calls (ic_ingress c) = []"
    using begin_captured [OF assms(1)] by (fastforce simp: capture_new_def)
  show ?thesis
  proof (rule encode_captured [OF assms(1-3)], goal_cases)
    case encoded: (2 snap bs')
    have bs: "bs' = bs" "h = ce_hash env bs"
      using encoded(3) assms(4-6) by auto
    obtain s1 s2 where s: "store_chunks s0 0 cs = Inr s1" "stage_verify lay pe (ce_hash env) s1 h = (s2, Inr ())"
      "staged lay s2 (skel_view (index_view dn))"
      using stage_receives_core [OF encoded(2,6,8,4) _ assms(11), of "at" max_event s0 "ce_hash env"] assms(10,13) bs
        snapshot_view [OF encoded(7)] don(2) by auto
    have frame: "fs_caps s2 = fs_caps s0" "fs_max_event_bytes s2 = fs_max_event_bytes s0"
      using store_chunks_frame [OF s(1)] stage_verify_frame [OF s(2)] by simp_all
    have caps: "caps_validate caps = Inr caps"
      using encoded(2) unfolding measure_image_def image_loop_Inr by blast
    have "stage_limits s0"
      using assms(12,13) caps by (auto simp: stage_new_def stage_limits_def caps_validate_def u64_max_def split: if_splits)
    then have lim: "stage_limits s2" "\<forall>d \<in> set ds. decodable lay pe s2 d"
      using frame assms(14) by (auto simp: stage_limits_def decodable_def)
    obtain c where c: "ki_capture dn = Some c" "ing_calls (ic_ingress c') = ing_calls (ic_ingress c) @ ing_calls (ic_ingress c')"
      using cap by auto
    have "staged lay s3 (skel_view (index_view dn'))" if "stage_batch lay pe s2 batch = (s3, Inr ())" for s3
      using stage_follows_core [OF don(1) assms(7) c(1) assms(8) c(2) assms(9) s(3) lim assms(15) that] by simp
    then show ?thesis
      using s don(2) by metis
  qed (use assms(4) in auto)
qed

section \<open>Instances\<close>

definition capture_env_example :: "unit capture_env" where
  "capture_env_example = \<lparr>ce_grants = (\<lambda>_ _ _. True), ce_begin = (\<lambda>_ _ _ _ _. True), ce_ingress = (\<lambda>_ _. True),
     ce_finish = (\<lambda>_ _ _. True), ce_donor = (\<lambda>_ _ _. True), ce_hash = id\<rparr>"

definition donor_journal_example :: donor_journal where
  "donor_journal_example = \<lparr>dj_id = 1, dj_generation = 1,
     dj_config = \<lparr>jcfg_max_cuts = 4, jcfg_max_cut_bytes = 64, jcfg_max_event_bytes = 100\<rparr>\<rparr>"

definition suffix_example :: reservation where
  "suffix_example = \<lparr>rv_class = ClassSuffix, rv_bytes = 64\<rparr>"

definition captured_example :: key_index_state where
  "captured_example = image_example\<lparr>ki_capture := Some donor_capture_example\<rparr>"

definition captured_example' :: key_index_state where
  "captured_example' = fst (apply_del_with_identity layout_example captured_example ''b'' ''n'' 5 None Run)"

lemma begin_example:
  obtains used p where "begin_fleet_capture capture_env_example layout_example image_example {#} donor_journal_example suffix_example [()]
      [''b''] image_caps_example = (captured_example, used, None, Inr p)"
    "measure_image layout_example image_example [''b''] image_caps_example = Inr (pc_size p)"
proof -
  obtain sz where m: "measure_image layout_example image_example [''b''] image_caps_example = Inr sz"
    using measure_example by blast
  have t: "tallied_size layout_example image_example [''b''] image_caps_example = Inr sz"
    by (rule tallied_size_core [OF image_example_ok m])
  have "\<exists>snap. snapshot_state image_example [''b''] = Inr snap"
    by (simp add: snapshot_state_def bucket_slots_def checked_mul64_def checked_add64_def u64_max_def image_example_get)
  then obtain snap where "snapshot_state image_example [''b''] = Inr snap" ..
  moreover have "ki_native_cuts image_example = []" "ki_capture image_example = None"
    by (simp_all add: image_example_def bucket_set_def key_index_default_def)
  ultimately have "\<exists>used p. begin_fleet_capture capture_env_example layout_example image_example {#} donor_journal_example suffix_example [()]
      [''b''] image_caps_example = (captured_example, used, None, Inr p) \<and> pc_size p = sz"
    using t by (auto simp: begin_fleet_capture_def prepare_capture_def reserve_def open_ingress_def copy_cuts_def capture_env_example_def
        donor_journal_example_def suffix_example_def captured_example_def donor_capture_example_def image_caps_example_def Let_def)
  then show thesis
    using that m by blast
qed

lemma captured_example_get:
  "bucket_get captured_example n = (if n = ''b'' then Some image_bucket_example else None)"
  "ki_capture captured_example = Some donor_capture_example"
  by (simp_all add: captured_example_def image_example_get)

lemma captured_example_rows:
  "kr_get (bs_keys image_bucket_example) ''n'' = None" "gr_get (bs_gone image_bucket_example) ''n'' = None"
  "bs_rebuild_generation image_bucket_example = None" "bs_rebuild_touched image_bucket_example = []"
  by (simp_all add: kr_get_def gr_get_def image_example_maps) (simp_all add: image_bucket_example_def bucket_default_def)

lemma encode_delete_captured: "encode_delete ''b'' ''n'' 5 100 1024 = Inr (enc_delta (DDelete ''b'' ''n'' 5))"
proof -
  have "\<exists>bs. encode_delete ''b'' ''n'' 5 100 1024 = Inr bs"
    by (simp add: encode_delete_def writer_new_def w_u8_def w_text_def timestamp_def w_put_def w_u32_def w_u64_def checked_add64_def
        u64_max_def nanos_per_sec_def)
  then show ?thesis
    using encode_delete_sound by blast
qed

lemma captured_example_del:
  "ki_capture captured_example' = Some (record_delete donor_capture_example None ''b'' ''n'' 5)"
  by (simp add: captured_example'_def apply_del_with_identity_def note_identity_def open_bucket_def bucket_entry_def captured_example_get
      captured_example_rows sweep_for_delete_def entry_newer_def Let_def case_prod_beta journal_delete_def journal_def gr_get_raise)

lemma captured_example_calls:
  "ing_calls (ic_ingress (record_delete donor_capture_example None ''b'' ''n'' 5)) =
     [Append 1 (Local (le_bytes 8 1)) (enc_delta (DDelete ''b'' ''n'' 5))]"
  by (simp add: donor_capture_example_def capture_new_def record_delete_def append_effect_def append_local_def append_bytes_def
      journal_issue_def encode_delete_captured checked_add64_def u64_max_def)

lemma captured_example_run: "donor_run layout_example captured_example [DDelete ''b'' ''n'' 5] captured_example'"
proof -
  have "dead captured_example ''b'' ''n'' = None" "live captured_example ''b'' ''n'' = None"
    by (simp_all add: dead_def live_def bucket_entry_def captured_example_get captured_example_rows)
  then have "del_log layout_example captured_example ''b'' ''n'' 5 None Run = [DDelete ''b'' ''n'' 5]"
    by (simp add: del_log_def del_stamp_def)
  then show ?thesis
    using donor_run.DonorDelete [OF donor_run.Start, of layout_example captured_example "''b''" "''n''" 5 None Run]
    by (simp add: captured_example'_def)
qed

lemma captured_image_exact_witness:
  "\<exists>(p' :: pending_capture) bs st'. pc_encoded_image p' = Some bs \<and> decode_image layout_example parse_example bs (reserved_caps image_caps_example (length bs)
      (decoded_bytes (pc_size p'))) = Inr st' \<and> index_view st' = skel_view (index_view image_example)"
proof (rule begin_example)
  fix used p
  assume b: "begin_fleet_capture capture_env_example layout_example image_example {#} donor_journal_example suffix_example [()]
      [''b''] image_caps_example = (captured_example, used, None, Inr p)"
    and m: "measure_image layout_example image_example [''b''] image_caps_example = Inr (pc_size p)"
  obtain p' r where e: "encode_pending capture_env_example layout_example p [''b''] image_caps_example = (p', r)"
    by fastforce
  have sz: "pc_size p = pc_size p'"
    using e by (auto simp: encode_pending_def Let_def split: option.splits sum.splits if_splits)
  note exact = captured_image_exact [OF b image_example_ok image_example_typed e]
  show ?thesis
  proof (cases r)
    case (Inl _)
    then show ?thesis
      using exact m by simp
  next
    case (Inr _)
    then show ?thesis
      using exact [unfolded Inr sum.case sz] by blast
  qed
qed

lemma utf8_n: "utf8_ok ''n''"
  by code_simp

lemma bootstrap_reaches_donor_witness:
  "\<exists>s0 s1 s2 bs. store_chunks s0 0 [bs] = Inr s1 \<and> stage_verify layout_example parse_example id s1 bs = (s2, Inr ())
     \<and> staged layout_example s2 (skel_view (index_view image_example))
     \<and> call_effects (ing_calls (ic_ingress (the (ki_capture captured_example')))) = [enc_delta (DDelete ''b'' ''n'' 5)]"
proof (rule begin_example)
  fix used p
  assume b: "begin_fleet_capture capture_env_example layout_example image_example {#} donor_journal_example suffix_example [()]
      [''b''] image_caps_example = (captured_example, used, None, Inr p)"
    and m: "measure_image layout_example image_example [''b''] image_caps_example = Inr (pc_size p)"
  have hash: "ce_hash capture_env_example = id"
    by (simp add: capture_env_example_def)
  show ?thesis
  proof (rule encode_captured [OF b image_example_ok image_example_typed], goal_cases)
    case e: (2 snap bs)
    obtain sz bs0 s0 where x: "measure_image layout_example image_example [''b''] image_caps_example = Inr sz"
      "encode_image image_example [''b''] image_caps_example sz = Inr bs0" "bs0 \<noteq> []"
      "stage_new (length bs0) (length [bs0]) \<lparr>jc_capture = 1, jc_position = 0\<rparr> (decoded_bytes sz) image_caps_example 100 = Inr s0"
      by (rule stage_example)
    have "length bs0 = length bs"
      using encode_image_total [OF x(1) image_example_typed] x(1,2) m e(5) by simp
    then have s0: "bs \<noteq> []"
      "stage_new (length bs) (length [bs]) \<lparr>jc_capture = 1, jc_position = 0\<rparr> (decoded_bytes (pc_size p)) image_caps_example 100 = Inr s0"
      using x m by auto
    have dec: "decodable layout_example parse_example s0 (DDelete ''b'' ''n'' 5)"
      using s0(2) by (auto simp: stage_new_def decodable_def image_caps_example_def delta_ok_def text_ok_def time_ok_def
          nanos_per_sec_def image_example_strings utf8_n enc_delta_def enc_u8_def enc_text_def enc_time_def delta_charge_def u64_max_def
          sumE_def checked_add64_def split: if_splits)
    have calls: "valid_calls (ing_calls (ic_ingress (record_delete donor_capture_example None ''b'' ''n'' 5)))"
      "call_effects (ing_calls (ic_ingress (record_delete donor_capture_example None ''b'' ''n'' 5))) = [enc_delta (DDelete ''b'' ''n'' 5)]"
      by (simp_all add: captured_example_calls valid_calls_def call_effects_def)
    show ?thesis
      using bootstrap_reaches_donor [OF b image_example_ok image_example_typed e(3) _ _ captured_example_run captured_example_del calls(1) _ _ _ s0(2),
          where batch = "batch_example\<lparr>jb_deltas := [\<lparr>jd_position = 1, jd_effect = enc_delta (DDelete ''b'' ''n'' 5)\<rparr>]\<rparr>"] s0(1) dec calls(2)
      by (auto simp: hash u64_max_def captured_example_del)
  qed (use m in simp)
qed

section \<open>Ownership\<close>

text \<open>A node's captures over time: the index, the permits in use, and the owners alive. Other operations of the index may
  append to the attached capture or take it away.\<close>

record capture_world =
  cw_index :: key_index_state
  cw_used :: permits
  cw_pending :: "pending_capture list"
  cw_donors :: "donor_capture list"

definition capture_id :: "key_index_state \<Rightarrow> nat option" where
  "capture_id st = map_option (\<lambda>c. ing_id (ic_ingress c)) (ki_capture st)"

definition owner_ids :: "capture_world \<Rightarrow> nat list" where
  "owner_ids w = map (\<lambda>p. ing_id (pc_ingress p)) (cw_pending w) @ map (\<lambda>d. ing_id (di_ingress (do_image d))) (cw_donors w)"

definition pending_permits :: "pending_capture \<Rightarrow> permits" where
  "pending_permits p = permits_of (pc_encoded p) + permits_of (pc_decoded p)"

definition donor_permits :: "donor_capture \<Rightarrow> permits" where
  "donor_permits d = {#do_encoded d#} + {#do_decoded d#}"

definition owned_permits :: "capture_world \<Rightarrow> permits" where
  "owned_permits w = sum_list (map pending_permits (cw_pending w)) + sum_list (map donor_permits (cw_donors w))"

inductive capture_step :: "'m capture_env \<Rightarrow> layout \<Rightarrow> capture_world \<Rightarrow> capture_world \<Rightarrow> bool" for env lay where
  Begin: "begin_fleet_capture env lay (cw_index w) (cw_used w) j suffix members universe caps = (st, used, old, Inr p)
    \<Longrightarrow> dj_id j \<notin> set (owner_ids w) \<Longrightarrow> capture_step env lay w (w\<lparr>cw_index := st, cw_used := used, cw_pending := p # cw_pending w\<rparr>)"
| Refuse: "begin_fleet_capture env lay (cw_index w) (cw_used w) j suffix members universe caps = (st, used, old, Inl e)
    \<Longrightarrow> capture_step env lay w (w\<lparr>cw_index := st, cw_used := used\<rparr>)"
| Encode: "cw_pending w = ps @ p # qs \<Longrightarrow> encode_pending env lay p universe caps = (p', r)
    \<Longrightarrow> capture_step env lay w (w\<lparr>cw_pending := ps @ p' # qs\<rparr>)"
| Finish: "cw_pending w = ps @ p # qs \<Longrightarrow> finish env (cw_index w) (cw_used w) p = (st, used, Inr d)
    \<Longrightarrow> capture_step env lay w (w\<lparr>cw_index := st, cw_used := used, cw_pending := ps @ qs, cw_donors := d # cw_donors w\<rparr>)"
| FinishFails: "cw_pending w = ps @ p # qs \<Longrightarrow> finish env (cw_index w) (cw_used w) p = (st, used, Inl e)
    \<Longrightarrow> capture_step env lay w (w\<lparr>cw_index := st, cw_used := used, cw_pending := ps @ qs\<rparr>)"
| DropPending: "cw_pending w = ps @ p # qs \<Longrightarrow> drop_pending (cw_index w) (cw_used w) p = (st, used)
    \<Longrightarrow> capture_step env lay w (w\<lparr>cw_index := st, cw_used := used, cw_pending := ps @ qs\<rparr>)"
| DropDonor: "cw_donors w = ds @ d # es \<Longrightarrow> drop_donor (cw_index w) (cw_used w) d = (st, used)
    \<Longrightarrow> capture_step env lay w (w\<lparr>cw_index := st, cw_used := used, cw_donors := ds @ es\<rparr>)"
| RetireService: "capture_step env lay w (w\<lparr>cw_index := fst (retire_fleet_service (cw_index w))\<rparr>)"
| IndexOp: "capture_id st \<in> {None, capture_id (cw_index w)} \<Longrightarrow> capture_step env lay w (w\<lparr>cw_index := st\<rparr>)"

inductive capture_run :: "'m capture_env \<Rightarrow> layout \<Rightarrow> capture_world \<Rightarrow> bool" for env lay where
  Start: "ki_capture st = None \<Longrightarrow> capture_run env lay \<lparr>cw_index = st, cw_used = {#}, cw_pending = [], cw_donors = []\<rparr>"
| Step: "capture_run env lay w \<Longrightarrow> capture_step env lay w w' \<Longrightarrow> capture_run env lay w'"

definition captures_ok :: "capture_world \<Rightarrow> bool" where
  "captures_ok w \<longleftrightarrow> cw_used w = owned_permits w \<and> distinct (owner_ids w) \<and> set_option (capture_id (cw_index w)) \<subseteq> set (owner_ids w)
     \<and> (\<forall>p \<in> set (cw_pending w). pc_index p)"

lemma capture_id_set [simp]: "capture_id (st\<lparr>ki_capture := c\<rparr>) = map_option (\<lambda>c. ing_id (ic_ingress c)) c"
  by (simp add: capture_id_def)

lemma retire_id:
  "capture_id (fst (retire_fleet_capture st ing)) = (if capture_id st = Some (ing_id ing) then None else capture_id st)"
  by (auto simp: retire_fleet_capture_def capture_id_def same_ingress_def same_candidate_def split: option.splits)

lemma drop_pending_effect:
  assumes "drop_pending st used p = (st', used')" "pc_index p"
  shows "capture_id st' = (if capture_id st = Some (ing_id (pc_ingress p)) then None else capture_id st)"
    "used' = used - pending_permits p"
  using assms by (auto simp: drop_pending_def retire_id pending_permits_def)

lemma drop_donor_effect:
  assumes "drop_donor st used d = (st', used')"
  shows "capture_id st' = (if capture_id st = Some (ing_id (di_ingress (do_image d))) then None else capture_id st)"
    "used' = used - donor_permits d"
  using assms by (auto simp: drop_donor_def retire_id donor_permits_def)

lemma finish_donor:
  assumes "finish env st used p = (st', used', Inr d)"
  shows "st' = st" "used' = used" "di_ingress (do_image d) = pc_ingress p" "donor_permits d = pending_permits p"
  using assms
  by (auto simp: finish_def finish_pending_def bindE_eq_Inr ok_or_def donor_permits_def pending_permits_def permits_of_def
      split: sum.splits prod.splits if_splits option.splits)

lemma finish_drops: "finish env st used p = (st', used', Inl e) \<Longrightarrow> drop_pending st used p = (st', used')"
  by (auto simp: finish_def split: sum.splits prod.splits)

lemma encode_frame:
  assumes "encode_pending env lay p universe caps = (p', r)"
  shows "pc_ingress p' = pc_ingress p" "pc_index p' = pc_index p" "pending_permits p' = pending_permits p"
  using assms by (auto simp: encode_pending_def Let_def pending_permits_def split: option.splits sum.splits if_splits)

lemma drop_pending_ok:
  assumes "captures_ok w" "cw_pending w = ps @ p # qs" "drop_pending (cw_index w) (cw_used w) p = (st, used)"
  shows "captures_ok (w\<lparr>cw_index := st, cw_used := used, cw_pending := ps @ qs\<rparr>)"
proof -
  have "pc_index p"
    using assms(1,2) by (simp add: captures_ok_def)
  note e = drop_pending_effect [OF assms(3) this]
  have "used = owned_permits (w\<lparr>cw_index := st, cw_used := used, cw_pending := ps @ qs\<rparr>)"
    using assms(1,2) by (simp add: captures_ok_def e(2) owned_permits_def)
  then show ?thesis
    using assms(1,2) by (auto simp: captures_ok_def owner_ids_def e(1))
qed

lemma drop_donor_ok:
  assumes "captures_ok w" "cw_donors w = ds @ d # es" "drop_donor (cw_index w) (cw_used w) d = (st, used)"
  shows "captures_ok (w\<lparr>cw_index := st, cw_used := used, cw_donors := ds @ es\<rparr>)"
proof -
  note e = drop_donor_effect [OF assms(3)]
  have "used = owned_permits (w\<lparr>cw_index := st, cw_used := used, cw_donors := ds @ es\<rparr>)"
    using assms(1,2) by (simp add: captures_ok_def e(2) owned_permits_def)
  then show ?thesis
    using assms(1,2) by (auto simp: captures_ok_def owner_ids_def e(1))
qed

lemma begin_ok:
  assumes "captures_ok w" "dj_id j \<notin> set (owner_ids w)"
    and "begin_fleet_capture env lay (cw_index w) (cw_used w) j suffix members universe caps = (st, used, old, Inr p)"
  shows "captures_ok (w\<lparr>cw_index := st, cw_used := used, cw_pending := p # cw_pending w\<rparr>)"
proof (rule begin_captured [OF assms(3)], goal_cases)
  case (1 snap cuts)
  have "used = owned_permits (w\<lparr>cw_index := st, cw_used := used, cw_pending := p # cw_pending w\<rparr>)"
    using assms(1) 1(10) by (simp add: captures_ok_def owned_permits_def pending_permits_def ac_simps)
  then show ?case
    using assms(1,2) 1(5,7,11) by (auto simp: captures_ok_def owner_ids_def capture_new_def)
qed

lemma capture_step_ok: "capture_step env lay w w' \<Longrightarrow> captures_ok w \<Longrightarrow> captures_ok w'"
proof (induction rule: capture_step.induct)
  case (Begin w j suffix members universe caps st used old p)
  then show ?case
    using begin_ok by blast
next
  case (Refuse w j suffix members universe caps st used old e)
  then show ?case
    using begin_refused [OF Refuse.hyps] by simp
next
  case (Encode w ps p qs universe caps p' r)
  then show ?case
    using encode_frame [OF Encode.hyps(2)] by (auto simp: captures_ok_def owner_ids_def owned_permits_def)
next
  case (Finish w ps p qs st used d)
  then show ?case
    using finish_donor [OF Finish.hyps(2)] by (auto simp: captures_ok_def owner_ids_def owned_permits_def ac_simps)
next
  case (FinishFails w ps p qs st used e)
  then show ?case
    using finish_drops drop_pending_ok by blast
next
  case (DropPending w ps p qs st used)
  then show ?case
    using drop_pending_ok by blast
next
  case (DropDonor w ds d es st used)
  then show ?case
    using drop_donor_ok by blast
qed (auto simp: captures_ok_def owner_ids_def owned_permits_def retire_fleet_service_def)

lemma capture_run_ok: "capture_run env lay w \<Longrightarrow> captures_ok w"
proof (induction rule: capture_run.induct)
  case (Start st)
  then show ?case
    by (simp add: captures_ok_def owned_permits_def owner_ids_def capture_id_def)
qed (rule capture_step_ok)

text \<open>C19: No capture leaks. In every state a node reaches by beginning, encoding, finishing and dropping captures in any
  order, among other index operations, the permits in use are exactly those of the pending captures and donor images
  alive, and the index journals only into an ingress that exactly one of them owns. So once every owner is gone no permit
  is held and no journal is fed; and dropping an owner detaches the index from its own ingress only, never from the
  capture that replaced it.\<close>

theorem captures_never_leak:
  assumes "capture_run env lay w"
  shows "cw_used w = owned_permits w \<and> distinct (owner_ids w) \<and> set_option (capture_id (cw_index w)) \<subseteq> set (owner_ids w)
    \<and> (cw_pending w = [] \<and> cw_donors w = [] \<longrightarrow> cw_used w = {#} \<and> ki_capture (cw_index w) = None)
    \<and> (\<forall>p \<in> set (cw_pending w). \<forall>c. ki_capture (cw_index w) = Some c \<longrightarrow>
         ki_capture (fst (drop_pending (cw_index w) (cw_used w) p))
           = (if ing_id (ic_ingress c) = ing_id (pc_ingress p) then None else Some c))"
proof -
  note ok = capture_run_ok [OF assms]
  have "cw_used w = {#} \<and> ki_capture (cw_index w) = None" if "cw_pending w = []" "cw_donors w = []"
    using ok that by (simp add: captures_ok_def owned_permits_def owner_ids_def capture_id_def)
  moreover have "ki_capture (fst (drop_pending (cw_index w) (cw_used w) p)) = (if ing_id (ic_ingress c) = ing_id (pc_ingress p) then None else Some c)"
    if "p \<in> set (cw_pending w)" "ki_capture (cw_index w) = Some c" for p c
    using ok that by (simp add: captures_ok_def drop_pending_def retire_fleet_capture_def same_ingress_def same_candidate_def)
  ultimately show ?thesis
    using ok by (auto simp: captures_ok_def)
qed

lemma recorded_id [simp]:
  "ing_id (ic_ingress (capture_invalidate c r)) = ing_id (ic_ingress c)"
  "ing_id (ic_ingress (append_bytes c i b)) = ing_id (ic_ingress c)"
  "ing_id (ic_ingress (append_local c b)) = ing_id (ic_ingress c)"
  "ing_id (ic_ingress (append_effect c i' x)) = ing_id (ic_ingress c)"
  "ing_id (ic_ingress (record_put c i' bucket key e)) = ing_id (ic_ingress c)"
  "ing_id (ic_ingress (record_delete c i' bucket key t)) = ing_id (ic_ingress c)"
  "ing_id (ic_ingress (record_native_noop c i)) = ing_id (ic_ingress c)"
  "ing_id (ic_ingress (record_renewal c nc epoch)) = ing_id (ic_ingress c)"
proof -
  show "ing_id (ic_ingress (capture_invalidate c r)) = ing_id (ic_ingress c)" for c r
    by (simp add: capture_invalidate_def journal_issue_def)
  moreover show "ing_id (ic_ingress (append_bytes c i b)) = ing_id (ic_ingress c)" for c i b
    by (simp add: append_bytes_def journal_issue_def)
  ultimately show "ing_id (ic_ingress (append_local c b)) = ing_id (ic_ingress c)" for c b
    by (simp add: append_local_def split: option.split)
  then show "ing_id (ic_ingress (append_effect c i' x)) = ing_id (ic_ingress c)" for c i' x
    by (simp add: append_effect_def capture_invalidate_def append_bytes_def journal_issue_def split: option.split sum.split)
  then show "ing_id (ic_ingress (record_put c i' bucket key e)) = ing_id (ic_ingress c)"
    "ing_id (ic_ingress (record_delete c i' bucket key t)) = ing_id (ic_ingress c)"
    "ing_id (ic_ingress (record_native_noop c i)) = ing_id (ic_ingress c)"
    by (simp_all add: record_put_def record_delete_def record_native_noop_def capture_invalidate_def journal_issue_def)
  show "ing_id (ic_ingress (record_renewal c nc epoch)) = ing_id (ic_ingress c)"
    by (simp add: record_renewal_def capture_invalidate_def journal_issue_def split: sum.split)
qed

lemma capture_id_journal:
  "(\<And>c. ing_id (ic_ingress (f c)) = ing_id (ic_ingress c)) \<Longrightarrow> capture_id (journal f st) = capture_id st"
  by (cases "ki_capture st") (simp_all add: capture_id_def journal_def)

lemma capture_id_frame [simp]:
  "capture_id (bucket_set st n b) = capture_id st" "capture_id (st\<lparr>ki_native_cuts := x\<rparr>) = capture_id st"
  "capture_id (st\<lparr>ki_buckets := y\<rparr>) = capture_id st" "capture_id (st\<lparr>ki_stats := z\<rparr>) = capture_id st"
  "capture_id (invalidate_capture_for_rebuild st) = capture_id st"
  by (simp_all add: invalidate_capture_for_rebuild_def capture_id_journal) (simp_all add: capture_id_def bucket_set_def)

lemma capture_id_parts [simp]:
  "capture_id (open_bucket st n) = capture_id st" "capture_id (journal_noop i st) = capture_id st"
  "capture_id (journal_delete changed i n key gone st) = capture_id st"
  by (simp_all add: open_bucket_def Let_def journal_noop_def journal_delete_def capture_id_journal split: option.split)

lemma cuts_keep_id [simp]:
  "capture_id (fst (note_native_cut st nc)) = capture_id st" "capture_id (note_native_seal st nc) = capture_id st"
  "capture_id (register_native_writer st nc) = capture_id st" "capture_id (renew_native_writer st nc epoch) = capture_id st"
  "capture_id (skip_native_gap st nc) = capture_id st" "capture_id (fst (note_identity st i)) = capture_id st"
proof -
  show n: "capture_id (fst (note_native_cut st nc)) = capture_id st" for nc
    by (auto simp: note_native_cut_def Let_def capture_id_journal split: option.splits)
  show "capture_id (note_native_seal st nc) = capture_id st"
    using n [of nc] by (auto simp: note_native_seal_def capture_id_journal split: prod.splits bool.splits)
  show "capture_id (fst (note_identity st i)) = capture_id st"
    using n by (auto simp: note_identity_def split: option.splits delta_identity.splits)
qed (auto simp: register_native_writer_def renew_native_writer_def skip_native_gap_def Let_def capture_id_journal split: option.splits)

text \<open>Every operation of the index leaves its capture attached.\<close>

lemma index_ops_keep_id:
  "capture_id (fst (apply_put_with_authority lay st bucket key e auth i)) = capture_id st"
  "capture_id (fst (apply_del_with_identity lay st bucket key ts i sweep)) = capture_id st"
  "fence_key st bucket key = Some (st', token) \<Longrightarrow> capture_id st' = capture_id st"
  "capture_id (fst (resolve_uncertain_key lay now st bucket key tok a)) = capture_id st"
  "capture_id (fst (begin_bucket_resync st bucket)) = capture_id st"
  "capture_id (discard_for_gap st nc) = capture_id st"
  "capture_id (fst (sync_listing_into_generation lay st bucket generation listed)) = capture_id st"
  "capture_id (fst (finish_bucket_sync_generation st bucket generation)) = capture_id st"
  "capture_id (fst (complete_entry lay st bucket key fill)) = capture_id st"
  "capture_id (remove_bucket st bucket) = capture_id st"
proof -
  have n: "capture_id (fst (note_identity st i)) = capture_id st"
    by simp
  then show "capture_id (fst (apply_put_with_authority lay st bucket key e auth i)) = capture_id st"
    by (cases "note_identity st i") (simp add: apply_put_with_authority_def Let_def capture_id_journal split: prod.split)
  show "capture_id (fst (apply_del_with_identity lay st bucket key ts i sweep)) = capture_id st"
    using n by (cases "note_identity st i") (simp add: apply_del_with_identity_def Let_def split: prod.split)
qed (auto simp: fence_key_def resolve_uncertain_key_def begin_bucket_resync_def discard_for_gap_def discard_buckets_def
    sync_listing_into_generation_def finish_bucket_sync_generation_def complete_entry_def remove_bucket_def Let_def capture_id_journal
    split: option.splits prod.splits authoritative_key_state.splits)

lemma captures_never_leak_witness:
  "\<exists>w. capture_run capture_env_example layout_example w \<and> capture_id (cw_index w) = Some 1 \<and> owner_ids w = [1]
     \<and> size (cw_used w) = 2 \<and> cw_used w = owned_permits w"
proof (rule begin_example)
  fix used p
  assume b: "begin_fleet_capture capture_env_example layout_example image_example {#} donor_journal_example suffix_example [()]
      [''b''] image_caps_example = (captured_example, used, None, Inr p)"
  let ?w = "\<lparr>cw_index = image_example, cw_used = {#}, cw_pending = [], cw_donors = []\<rparr>"
  let ?w' = "?w\<lparr>cw_index := captured_example, cw_used := used, cw_pending := [p]\<rparr>"
  have "capture_run capture_env_example layout_example ?w"
    by (rule capture_run.Start) (simp add: image_example_def bucket_set_def key_index_default_def)
  moreover have "capture_step capture_env_example layout_example ?w ?w'"
    using capture_step.Begin [of capture_env_example layout_example ?w] b by (simp add: owner_ids_def)
  ultimately have run: "capture_run capture_env_example layout_example ?w'"
    by (rule capture_run.Step)
  have p: "ing_id (pc_ingress p) = 1" "size used = 2"
    using begin_captured [OF b] by (force simp: donor_journal_example_def permits_of_def)+
  show ?thesis
    by (rule exI [of _ ?w'])
      (use captures_never_leak [OF run] run p in \<open>simp add: capture_id_def captured_example_get donor_capture_example_def capture_new_def owner_ids_def\<close>)
qed

end
