(* ===== verification/Bootstrap.thy ===== *)
theory Bootstrap
  imports Capture Feed
begin

text \<open>
  The two ends of a peer bootstrap (\<^verbatim>\<open>src/src/sync/volatile/fleet.rs\<close> and \<^verbatim>\<open>capture.rs\<close>, \<^verbatim>\<open>donor.rs\<close>, \<^verbatim>\<open>follower.rs\<close> beside it): the
  donor's guarded recapture, its offer and its chunks, and the effects a follower executes. The worker that sequences the
  effects, its guards, its journal and its observations of the roster are \<^verbatim>\<open>groupnet\<close>'s: a guard is whether it lets the
  callback run, an observation is what it returned. Between the cut C and the finish other tasks may change the index.
\<close>

section \<open>The roster\<close>

record 'm participation =
  pn_elapsed :: "nat option"
  pn_roster :: "'m list"
  pn_participants :: "('m \<times> nat) list"

text \<open>\<open>same\<close> is \<^verbatim>\<open>same_membership\<close>, \<open>present\<close> whether a member carries a presence. The age is rounded up to the next
  millisecond and one more.\<close>

definition snapshot_age :: "'m participation \<Rightarrow> nat option" where
  "snapshot_age s = Option.bind (pn_elapsed s) (\<lambda>nanos.
     if nanos + 999999 \<ge> 2 ^ 128 then None
     else let millis = (nanos + 999999) div 1000000 in
       if millis > u64_max then None else checked_add64 millis 1)"

definition fresh_roster :: "('m list \<Rightarrow> 'm list \<Rightarrow> bool) \<Rightarrow> ('m \<Rightarrow> bool) \<Rightarrow> 'm participation \<Rightarrow> 'm list \<Rightarrow> bool" where
  "fresh_roster same present s expected = (case snapshot_age s of
       None \<Rightarrow> False
     | Some age \<Rightarrow> same (pn_roster s) expected
         \<and> (\<forall>p \<in> set (pn_participants s). snd p > age)
         \<and> (\<forall>m \<in> set (filter present (pn_roster s)). \<exists>p \<in> set (pn_participants s). fst p = m))"

definition port_universe :: "image_caps \<Rightarrow> string list \<Rightarrow> bool" where
  "port_universe caps universe \<longleftrightarrow> universe \<noteq> [] \<and> length universe \<le> c_buckets caps
     \<and> (\<forall>i. Suc i < length universe \<longrightarrow> universe ! i < universe ! Suc i)"

definition source_matches ::
  "('m list \<Rightarrow> 'm list \<Rightarrow> bool) \<Rightarrow> ('m \<Rightarrow> bool) \<Rightarrow> 'm participation option \<Rightarrow> 'm list \<Rightarrow> bool" where
  "source_matches same present observed expected = (case observed of
       None \<Rightarrow> False
     | Some s \<Rightarrow> fresh_roster same present s expected)"

section \<open>Constants\<close>

definition IMAGE_CAPS :: image_caps where
  "IMAGE_CAPS = \<lparr>c_bytes = 256 * 2 ^ 20, c_decoded_bytes = 2 ^ 30, c_buckets = 256, c_rows = 2000000, c_name_bytes = 1024\<rparr>"

definition JOURNAL_CONFIG :: capture_journal_config where
  "JOURNAL_CONFIG = \<lparr>jcfg_max_cuts = 64, jcfg_max_cut_bytes = 4096, jcfg_max_event_bytes = 4096\<rparr>"

definition CHUNK_BYTES :: nat where
  "CHUNK_BYTES = 64 * 1024"

section \<open>The donor\<close>

text \<open>The serial handed out, and the counter after.\<close>

definition next_id :: "nat \<Rightarrow> nat \<Rightarrow> (nat \<times> nat) option" where
  "next_id counter generation = (case checked_add64 counter 1 of
       None \<Rightarrow> None
     | Some bumped \<Rightarrow> if counter = 0 \<or> generation = 0 then None else Some (counter, bumped))"

record 'm ready_env =
  rx_capture :: "'m capture_env"
  rx_layout :: layout
  rx_same :: "'m list \<Rightarrow> 'm list \<Rightarrow> bool"
  rx_present :: "'m \<Rightarrow> bool"
  rx_before :: "'m participation option"
  rx_after :: "'m participation option"
  rx_listener :: "nat \<Rightarrow> bool"
  rx_guard :: "nat \<Rightarrow> nat option"
  rx_mode_allows :: "nat \<Rightarrow> bool"
  rx_suffix_bytes :: nat
  rx_journal :: bool
  rx_sync :: bool
  rx_meanwhile :: "key_index_state \<Rightarrow> key_index_state"

record 'm ready_request =
  rq_members :: "'m list"
  rq_generation :: nat

definition guard_open :: "'m ready_env \<Rightarrow> nat \<Rightarrow> nat \<Rightarrow> bool" where
  "guard_open env i generation \<longleftrightarrow> rx_guard env i = Some generation \<and> rx_mode_allows env i \<and> rx_listener env i"

definition prepare :: "'m ready_env \<Rightarrow> permits \<Rightarrow> nat \<Rightarrow> nat \<Rightarrow> (donor_journal \<times> reservation) option" where
  "prepare env used serial generation =
     (if ce_grants (rx_capture env) used ClassSuffix (rx_suffix_bytes env) \<and> rx_journal env
      then Some (\<lparr>dj_id = serial, dj_generation = generation, dj_config = JOURNAL_CONFIG\<rparr>,
             \<lparr>rv_class = ClassSuffix, rv_bytes = rx_suffix_bytes env\<rparr>)
      else None)"

text \<open>\<^const>\<open>None\<close> is the adapter's error. A capture that fails after C is dropped, which unlinks it.\<close>

definition ready_capture ::
  "'m ready_env \<Rightarrow> key_index_state \<Rightarrow> permits \<Rightarrow> nat \<Rightarrow> 'm ready_request \<Rightarrow> string list
   \<Rightarrow> (key_index_state \<times> permits \<times> nat) \<times> donor_capture option" where
  "ready_capture env st used counter req universe =
     (let gen = rq_generation req; ce = rx_capture env; lay = rx_layout env in
      if \<not> rx_sync env \<or> \<not> rx_listener env 0 \<or> \<not> source_matches (rx_same env) (rx_present env) (rx_before env) (rq_members req)
      then ((st, used, counter), None)
      else case next_id counter gen of
          None \<Rightarrow> ((st, used, counter), None)
        | Some (serial, counter) \<Rightarrow> (case prepare env used serial gen of
            None \<Rightarrow> ((st, used, counter), None)
          | Some (j, suffix) \<Rightarrow>
              if \<not> guard_open env 1 gen then ((st, used, counter), None)
              else (case begin_fleet_capture ce lay st used j suffix (rq_members req) universe IMAGE_CAPS of
                  (st, used, _, Inl _) \<Rightarrow> ((st, used, counter), None)
                | (st, used, _, Inr pending) \<Rightarrow>
                    let st = rx_meanwhile env st in
                    (case encode_pending ce lay pending universe IMAGE_CAPS of
                       (pending, Inl _) \<Rightarrow> (case drop_pending st used pending of (st, used) \<Rightarrow> ((st, used, counter), None))
                     | (pending, Inr _) \<Rightarrow>
                         if \<not> (case rx_after env of None \<Rightarrow> False
                              | Some s \<Rightarrow> rx_listener env 2 \<and> fresh_roster (rx_same env) (rx_present env) s (pn_roster s)
                                  \<and> rx_same env (rq_members req) (pn_roster s))
                            \<or> \<not> guard_open env 3 gen
                         then (case drop_pending st used pending of (st, used) \<Rightarrow> ((st, used, counter), None))
                         else (case finish ce st used pending of
                             (st, used, Inl _) \<Rightarrow> ((st, used, counter), None)
                           | (st, used, Inr d) \<Rightarrow> ((st, used, counter), Some d))))))"

record transfer_offer =
  to_encoded_bytes :: nat
  to_decoded_bytes :: nat
  to_chunks :: nat
  to_commitment :: bytes

definition donor_active :: "key_index_state \<Rightarrow> bool \<Rightarrow> donor_capture \<Rightarrow> bool" where
  "donor_active st active d \<longleftrightarrow> active \<and> has_fleet_capture st (di_ingress (do_image d))"

text \<open>The metadata of the offer (identity, members, cuts) is the journal's; \<open>metadata\<close> is its variable size and
  \<open>headers\<close> the fixed size of the copies. The capture is asked twice whether it is active.\<close>

definition image_offer ::
  "'m capture_env \<Rightarrow> key_index_state \<Rightarrow> permits \<Rightarrow> bool \<Rightarrow> bool \<Rightarrow> donor_capture \<Rightarrow> nat \<Rightarrow> nat \<Rightarrow> nat
   \<Rightarrow> (reservation \<times> transfer_offer) option" where
  "image_offer env st used active still d max_metadata headers metadata =
     (if \<not> donor_active st active d then None
      else let bytes = length (di_bytes (do_image d)) in
        if bytes = 0 \<or> bytes > c_bytes IMAGE_CAPS \<or> max_metadata = 0 then None
        else case Option.bind (checked_mul64 max_metadata 4) (\<lambda>n. checked_add64 n headers) of
            None \<Rightarrow> None
          | Some charge \<Rightarrow> (case reserve env used ClassInflight charge of
              Inl _ \<Rightarrow> None
            | Inr (permit, _) \<Rightarrow>
                if metadata > max_metadata \<or> \<not> still then None
                else Some (permit, \<lparr>to_encoded_bytes = bytes, to_decoded_bytes = rv_bytes (do_decoded d),
                       to_chunks = (bytes + CHUNK_BYTES - 1) div CHUNK_BYTES, to_commitment = di_commitment (do_image d)\<rparr>)))"

definition image_chunk ::
  "'m capture_env \<Rightarrow> key_index_state \<Rightarrow> permits \<Rightarrow> bool \<Rightarrow> donor_capture \<Rightarrow> nat \<Rightarrow> nat \<Rightarrow> (reservation \<times> bytes) option" where
  "image_chunk env st used active d sequence max_bytes =
     (if \<not> donor_active st active d \<or> max_bytes = 0 \<or> max_bytes > CHUNK_BYTES then None
      else Option.bind (checked_mul64 sequence CHUNK_BYTES) (\<lambda>start.
        Option.bind (checked_add64 start CHUNK_BYTES) (\<lambda>stop.
          let stop = min stop (length (di_bytes (do_image d))) in
          if start > stop then None
          else let slice = take (stop - start) (drop start (di_bytes (do_image d))) in
            if slice = [] \<or> length slice > max_bytes then None
            else case reserve env used ClassEncoded max_bytes of Inl _ \<Rightarrow> None | Inr (permit, _) \<Rightarrow> Some (permit, slice))))"

section \<open>The follower\<close>

record attach_reservation =
  ar_follower :: string
  ar_serial :: nat

record attach_token =
  at_reservation :: attach_reservation
  at_operation :: nat

record barrier_receipt =
  br_cursor :: journal_cursor
  br_reservation :: attach_reservation
  br_attach_operation :: nat
  br_covered_cuts :: "native_cut list"
  br_members :: "string list"

record coverage_receipt =
  cv_parent :: nat
  cv_staged_through :: journal_cursor
  cv_proven_cuts :: "native_cut list"
  cv_members :: "string list"
  cv_buffered_bytes :: nat
  cv_barrier :: barrier_receipt

record handoff_receipt =
  ho_install :: nat
  ho_coverage :: coverage_receipt
  ho_attachment :: attach_token
  ho_applier_generation :: nat
  ho_continued_cuts :: "native_cut list"

datatype transfer_effect =
    ReserveStage nat journal_cursor nat nat nat
  | VerifyImage nat bytes
  | CheckNativeCoverage nat barrier_receipt
  | InstallCandidate nat coverage_receipt
  | DiscardStage
  | OtherEffect

datatype transfer_event =
    StageReserved nat
  | ImageVerified nat bytes
  | NativePending nat
  | NativeCovered nat coverage_receipt
  | Installed nat handoff_receipt

record follower_env =
  fe_layout :: layout
  fe_parse :: "string \<Rightarrow> etag option"
  fe_hash :: "bytes \<Rightarrow> bytes"
  fe_align :: cut_aligner
  fe_universe :: "string list"
  fe_follower :: string
  fe_parent :: nat
  fe_grants :: "permits \<Rightarrow> admission_class \<Rightarrow> nat \<Rightarrow> bool"
  fe_event_size :: nat

text \<open>What the effect meets: whether its deadline has passed, whether the roster observed matches, the publication
  permit if it was handed one, whether that permit still publishes, and whether \<^verbatim>\<open>groupnet\<close> takes the stage.\<close>

record effect_answers =
  ea_late :: bool
  ea_source :: "string list \<Rightarrow> bool"
  ea_permit :: "bool option"
  ea_takes :: bool

record stage_resources =
  sr_stage :: fleet_stage
  sr_encoded :: reservation
  sr_decoded :: reservation

record follower_state =
  fo_live :: key_index_state
  fo_stage :: "stage_resources option"
  fo_attachment :: "attach_token option"
  fo_overlap :: bool
  fo_used :: permits
  fo_applier :: nat

definition fo_reserve :: "follower_env \<Rightarrow> permits \<Rightarrow> admission_class \<Rightarrow> nat \<Rightarrow> (reservation \<times> permits) option" where
  "fo_reserve env used cls n =
     (if fe_grants env used cls n then let r = \<lparr>rv_class = cls, rv_bytes = n\<rparr> in Some (r, add_mset r used) else None)"

definition event_charge :: "follower_env \<Rightarrow> permits \<Rightarrow> bool \<Rightarrow> (reservation \<times> permits) option" where
  "event_charge env used metadata =
     Option.bind (if metadata then Option.bind (checked_mul64 (64 * 1024) 4) (\<lambda>n. checked_add64 n (fe_event_size env))
                  else Some (max (fe_event_size env) 1))
       (fo_reserve env used ClassInflight)"

text \<open>An event is handed on with the permit that pays for it, which stays in use.\<close>

definition emit :: "follower_env \<Rightarrow> follower_state \<Rightarrow> bool \<Rightarrow> transfer_event \<Rightarrow> follower_state \<times> transfer_event option option" where
  "emit env s metadata ev = (case event_charge env (fo_used s) metadata of
       None \<Rightarrow> (s, None)
     | Some (_, used) \<Rightarrow> (s\<lparr>fo_used := used\<rparr>, Some (Some ev)))"

definition release_stage :: "follower_state \<Rightarrow> follower_state" where
  "release_stage s = (case fo_stage s of
       None \<Rightarrow> s
     | Some r \<Rightarrow> s\<lparr>fo_stage := None, fo_used := fo_used s - {#sr_encoded r#} - {#sr_decoded r#}\<rparr>)"

definition reserve_stage ::
  "follower_env \<Rightarrow> effect_answers \<Rightarrow> follower_state \<Rightarrow> nat \<Rightarrow> journal_cursor \<Rightarrow> nat \<Rightarrow> nat \<Rightarrow> nat
   \<Rightarrow> follower_state \<times> transfer_event option option" where
  "reserve_stage env ans s op image_cut chunks enc dec =
     (if fo_stage s \<noteq> None \<or> enc > c_bytes IMAGE_CAPS \<or> dec > c_decoded_bytes IMAGE_CAPS then (s, None)
      else case Option.bind (fo_reserve env (fo_used s) ClassEncoded enc) (\<lambda>(encoded, used).
             map_option (\<lambda>(decoded, used). (encoded, decoded, used)) (fo_reserve env used ClassDecoded dec)) of
          None \<Rightarrow> (s, None)
        | Some (encoded, decoded, used) \<Rightarrow>
            (case stage_new enc chunks image_cut dec IMAGE_CAPS (jcfg_max_event_bytes JOURNAL_CONFIG) of
               Inl _ \<Rightarrow> (s, None)
             | Inr stage \<Rightarrow>
                 if \<not> ea_takes ans then (s, None)
                 else emit env (s\<lparr>fo_stage := Some \<lparr>sr_stage = stage, sr_encoded = encoded, sr_decoded = decoded\<rparr>, fo_used := used\<rparr>)
                   False (StageReserved op)))"

definition verify_image ::
  "follower_env \<Rightarrow> follower_state \<Rightarrow> nat \<Rightarrow> bytes \<Rightarrow> follower_state \<times> transfer_event option option" where
  "verify_image env s op commitment = (case fo_stage s of
       None \<Rightarrow> (s, None)
     | Some r \<Rightarrow> (case stage_verify (fe_layout env) (fe_parse env) (fe_hash env) (sr_stage r) commitment of
           (_, Inl _) \<Rightarrow> (release_stage s, None)
         | (stage, Inr _) \<Rightarrow> emit env (s\<lparr>fo_stage := Some (r\<lparr>sr_stage := stage\<rparr>)\<rparr>) False (ImageVerified op commitment)))"

definition check_native_coverage ::
  "follower_env \<Rightarrow> effect_answers \<Rightarrow> follower_state \<Rightarrow> nat \<Rightarrow> barrier_receipt \<Rightarrow> follower_state \<times> transfer_event option option" where
  "check_native_coverage env ans s op receipt =
     (if \<not> (case fo_stage s of None \<Rightarrow> False | Some r \<Rightarrow> fs_through (sr_stage r) = br_cursor receipt)
         \<or> ar_follower (br_reservation receipt) \<noteq> fe_follower env \<or> \<not> ea_source ans (br_members receipt)
      then (s, None)
      else case fo_stage s of
          None \<Rightarrow> (s, None)
        | Some r \<Rightarrow>
            (case check_coverage (fe_align env) (sr_stage r) (fo_live s) (br_covered_cuts receipt) (fe_universe env) of
               Inr _ \<Rightarrow> emit env s True (NativeCovered op
                 \<lparr>cv_parent = fe_parent env, cv_staged_through = br_cursor receipt, cv_proven_cuts = br_covered_cuts receipt,
                  cv_members = br_members receipt, cv_buffered_bytes = 0, cv_barrier = receipt\<rparr>)
             | Inl (PendingCuts _) \<Rightarrow> emit env s False (NativePending op)
             | Inl (Incompatible _) \<Rightarrow> (s, None)))"

definition install_guarded ::
  "follower_env \<Rightarrow> effect_answers \<Rightarrow> follower_state \<Rightarrow> coverage_receipt \<Rightarrow> attach_token option" where
  "install_guarded env ans s cov =
     (if ea_permit ans = None then None
      else Option.bind (fo_attachment s) (\<lambda>att.
        if cv_parent cov \<noteq> fe_parent env \<or> br_reservation (cv_barrier cov) \<noteq> at_reservation att
           \<or> br_attach_operation (cv_barrier cov) \<noteq> at_operation att \<or> cv_staged_through cov \<noteq> br_cursor (cv_barrier cov)
           \<or> cv_buffered_bytes cov \<noteq> 0 \<or> \<not> ea_source ans (cv_members cov)
        then None else Some att))"

definition install_candidate ::
  "follower_env \<Rightarrow> effect_answers \<Rightarrow> follower_state \<Rightarrow> nat \<Rightarrow> coverage_receipt \<Rightarrow> follower_state \<times> transfer_event option option" where
  "install_candidate env ans s op cov = (case install_guarded env ans s cov of
       None \<Rightarrow> (s, None)
     | Some att \<Rightarrow> (case event_charge env (fo_used s) True of
           None \<Rightarrow> (s, None)
         | Some (charge, used) \<Rightarrow> (case checked_add64 (fo_applier s) 1 of
               None \<Rightarrow> (s, None)
             | Some bumped \<Rightarrow>
                 let generation = fo_applier s; s = s\<lparr>fo_applier := bumped\<rparr> in
                 if generation = 0 then (s, None)
                 else (case fo_stage s of
                     None \<Rightarrow> (s, None)
                   | Some r \<Rightarrow>
                       if ea_permit ans \<noteq> Some True then (s, None)
                       else (case install_into (fe_layout env) (fe_align env) (sr_stage r) (fo_live s) (cv_proven_cuts cov) (fe_universe env) of
                           (stage, lv, _, res) \<Rightarrow>
                             let s = s\<lparr>fo_stage := Some (r\<lparr>sr_stage := stage\<rparr>), fo_live := lv\<rparr> in
                             (case res of
                                Inr _ \<Rightarrow> (release_stage (s\<lparr>fo_used := used\<rparr>), Some (Some (Installed op
                                   \<lparr>ho_install = op, ho_coverage = cov, ho_attachment = att, ho_applier_generation = generation,
                                    ho_continued_cuts = cv_proven_cuts cov\<rparr>)))
                              | Inl (PendingCuts _) \<Rightarrow> (case event_charge env used False of
                                    None \<Rightarrow> (s, None)
                                  | Some (second, used) \<Rightarrow> (s\<lparr>fo_used := used - {#charge#}\<rparr>, Some (Some (NativePending op))))
                              | Inl (Incompatible _) \<Rightarrow> (s, None)))))))"

text \<open>\<^const>\<open>None\<close> is the adapter's error, \<open>Some None\<close> an effect without an event.\<close>

definition execute_follower ::
  "follower_env \<Rightarrow> effect_answers \<Rightarrow> follower_state \<Rightarrow> transfer_effect \<Rightarrow> follower_state \<times> transfer_event option option" where
  "execute_follower env ans s effect =
     (if ea_late ans then (s, None)
      else case effect of
          ReserveStage op image_cut chunks enc dec \<Rightarrow> reserve_stage env ans s op image_cut chunks enc dec
        | VerifyImage op commitment \<Rightarrow> verify_image env s op commitment
        | CheckNativeCoverage op receipt \<Rightarrow> check_native_coverage env ans s op receipt
        | InstallCandidate op cov \<Rightarrow> install_candidate env ans s op cov
        | DiscardStage \<Rightarrow> ((release_stage s)\<lparr>fo_overlap := False\<rparr>, Some None)
        | OtherEffect \<Rightarrow> (s, None))"

definition store_chunk_effect :: "follower_state \<Rightarrow> nat \<Rightarrow> bytes \<Rightarrow> follower_state \<times> nat option" where
  "store_chunk_effect s sequence chunk = (case fo_stage s of
       None \<Rightarrow> (s, None)
     | Some r \<Rightarrow> (case store_chunk (sr_stage r) sequence chunk of
           (stage, Inl _) \<Rightarrow> (s\<lparr>fo_stage := Some (r\<lparr>sr_stage := stage\<rparr>)\<rparr>, None)
         | (stage, Inr _) \<Rightarrow> (s\<lparr>fo_stage := Some (r\<lparr>sr_stage := stage\<rparr>)\<rparr>, Some (rv_bytes (sr_decoded r)))))"

definition stage_batch_effect :: "follower_env \<Rightarrow> follower_state \<Rightarrow> journal_batch \<Rightarrow> follower_state \<times> unit option" where
  "stage_batch_effect env s batch = (case fo_stage s of
       None \<Rightarrow> (s, None)
     | Some r \<Rightarrow> (case stage_batch (fe_layout env) (fe_parse env) (sr_stage r) batch of
           (stage, Inl _) \<Rightarrow> (s\<lparr>fo_stage := Some (r\<lparr>sr_stage := stage\<rparr>)\<rparr>, None)
         | (stage, Inr _) \<Rightarrow> (s\<lparr>fo_stage := Some (r\<lparr>sr_stage := stage\<rparr>)\<rparr>, Some ())))"

definition detach :: "follower_state \<Rightarrow> attach_token \<Rightarrow> follower_state \<times> unit option" where
  "detach s token = (if fo_attachment s \<noteq> Some token then (s, None) else (s\<lparr>fo_attachment := None\<rparr>, Some ()))"

section \<open>Chunks\<close>

definition chunks_of :: "nat \<Rightarrow> 'a list \<Rightarrow> 'a list list" where
  "chunks_of n xs = map (\<lambda>i. take n (drop (i * n) xs)) [0..<(length xs + n - 1) div n]"

lemma concat_chunks_upto: "0 < n \<Longrightarrow> concat (map (\<lambda>i. take n (drop (i * n) xs)) [0..<m]) = take (m * n) xs"
  by (induction m) (simp_all add: take_add [symmetric] add.commute)

lemma chunk_index:
  assumes "0 < n"
  shows "i < (m + n - 1) div n \<longleftrightarrow> i * n < (m :: nat)"
proof -
  have "i < (m + n - 1) div n \<longleftrightarrow> Suc i * n \<le> m + n - 1"
    using assms by (simp add: less_eq_div_iff_mult_less_eq Suc_le_eq [symmetric] del: mult_Suc)
  then show ?thesis
    using assms by (simp add: Suc_le_eq [symmetric]) linarith
qed

lemma chunks_of_props:
  assumes "0 < n"
  shows "concat (chunks_of n xs) = xs" "c \<in> set (chunks_of n xs) \<Longrightarrow> c \<noteq> [] \<and> length c \<le> n"
    "length (chunks_of n xs) = (length xs + n - 1) div n"
proof -
  have "length xs \<le> (length xs + n - 1) div n * n"
    using chunk_index [OF assms, of "(length xs + n - 1) div n" "length xs"] by simp
  then show "concat (chunks_of n xs) = xs"
    using assms by (simp add: chunks_of_def concat_chunks_upto)
  show "c \<noteq> [] \<and> length c \<le> n" if c: "c \<in> set (chunks_of n xs)"
  proof -
    obtain i where i: "i < (length xs + n - 1) div n" "c = take n (drop (i * n) xs)"
      using c by (auto simp: chunks_of_def)
    have "i * n < length xs"
      using i(1) chunk_index [OF assms] by blast
    then show ?thesis
      using i(2) assms by simp
  qed
  show "length (chunks_of n xs) = (length xs + n - 1) div n"
    by (simp add: chunks_of_def)
qed

lemma image_chunk_at:
  assumes "donor_active st active d" "length (di_bytes (do_image d)) \<le> c_bytes IMAGE_CAPS" "ce_grants env used ClassEncoded CHUNK_BYTES"
    and "i * CHUNK_BYTES < length (di_bytes (do_image d))"
  shows "image_chunk env st used active d i CHUNK_BYTES
    = Some (\<lparr>rv_class = ClassEncoded, rv_bytes = CHUNK_BYTES\<rparr>, take CHUNK_BYTES (drop (i * CHUNK_BYTES) (di_bytes (do_image d))))"
proof -
  let ?b = "di_bytes (do_image d)" and ?s = "i * CHUNK_BYTES"
  have small: "?s + CHUNK_BYTES \<le> u64_max"
    using assms(2,4) by (simp add: IMAGE_CAPS_def CHUNK_BYTES_def u64_max_def)
  have "take (min (?s + CHUNK_BYTES) (length ?b) - ?s) (drop ?s ?b) = take CHUNK_BYTES (drop ?s ?b)"
    using assms(4) by (cases "?s + CHUNK_BYTES \<le> length ?b") auto
  moreover have "take CHUNK_BYTES (drop ?s ?b) \<noteq> []" "0 < CHUNK_BYTES"
    using assms(4) by (simp_all add: CHUNK_BYTES_def)
  ultimately show ?thesis
    using assms small unfolding image_chunk_def
    by (simp add: checked_mul64_def checked_add64_def reserve_def Let_def)
qed

lemma image_chunk_past:
  assumes "length (di_bytes (do_image d)) \<le> i * CHUNK_BYTES"
  shows "image_chunk env st used active d i n = None"
  using assms by (auto simp: image_chunk_def checked_mul64_def checked_add64_def Let_def bind_eq_None_conv split: option.splits)

text \<open>The chunks are the image. While a donor's capture is active and its admission grants a chunk, asking for the
  chunks of an offer one after another yields exactly as many as the offer says, none empty or over the chunk size,
  which concatenate to the image; every later one is refused.\<close>

theorem chunks_cover_image:
  assumes "image_offer env st used active still d max_metadata headers metadata = Some (permit, off)" "ce_grants env used ClassEncoded CHUNK_BYTES"
  shows "let cs = chunks_of CHUNK_BYTES (di_bytes (do_image d)) in
    length cs = to_chunks off \<and> concat cs = di_bytes (do_image d) \<and> length (concat cs) = to_encoded_bytes off
    \<and> (\<forall>i. map_option snd (image_chunk env st used active d i CHUNK_BYTES) = (if i < length cs then Some (cs ! i) else None))
    \<and> (\<forall>c \<in> set cs. c \<noteq> [] \<and> length c \<le> CHUNK_BYTES)"
proof -
  let ?b = "di_bytes (do_image d)"
  have pos: "0 < CHUNK_BYTES"
    by (simp add: CHUNK_BYTES_def)
  have o: "donor_active st active d" "length ?b \<le> c_bytes IMAGE_CAPS"
    "to_chunks off = (length ?b + CHUNK_BYTES - 1) div CHUNK_BYTES" "to_encoded_bytes off = length ?b"
    using assms(1) by (auto simp: image_offer_def Let_def split: if_splits option.splits sum.splits)
  note c = chunks_of_props(2) [OF pos, of _ ?b] chunks_of_props(1,3) [OF pos, of ?b]
  have "map_option snd (image_chunk env st used active d i CHUNK_BYTES)
      = (if i < length (chunks_of CHUNK_BYTES ?b) then Some (chunks_of CHUNK_BYTES ?b ! i) else None)" for i
  proof (cases "i * CHUNK_BYTES < length ?b")
    case True
    then have "i < length (chunks_of CHUNK_BYTES ?b)"
      using chunk_index [OF pos] by (simp add: chunks_of_def)
    then show ?thesis
      using image_chunk_at [OF o(1,2) assms(2) True] by (simp add: chunks_of_def)
  next
    case False
    then have "\<not> i < length (chunks_of CHUNK_BYTES ?b)"
      using chunk_index [OF pos] by (simp add: chunks_of_def)
    then show ?thesis
      using image_chunk_past [of d i] False by simp
  qed
  then show ?thesis
    using c o(3,4) unfolding Let_def by auto
qed

section \<open>The follower\<close>

fun store_chunk_effects :: "follower_state \<Rightarrow> nat \<Rightarrow> bytes list \<Rightarrow> follower_state \<times> bool" where
  "store_chunk_effects s sequence [] = (s, True)"
| "store_chunk_effects s sequence (c # cs) = (case store_chunk_effect s sequence c of
     (s, None) \<Rightarrow> (s, False)
   | (s, Some _) \<Rightarrow> store_chunk_effects s (sequence + 1) cs)"

lemma store_chunk_effects_stage:
  "fo_stage s = Some r \<Longrightarrow> store_chunks (sr_stage r) i cs = Inr stg
   \<Longrightarrow> store_chunk_effects s i cs = (s\<lparr>fo_stage := Some (r\<lparr>sr_stage := stg\<rparr>)\<rparr>, True)"
proof (induction cs arbitrary: s r i)
  case (Cons c cs)
  obtain stg1 where one: "store_chunk (sr_stage r) i c = (stg1, Inr ())" "store_chunks stg1 (i + 1) cs = Inr stg"
    using Cons.prems(2) by (auto split: prod.splits sum.splits)
  show ?case
    using Cons.IH [of "s\<lparr>fo_stage := Some (r\<lparr>sr_stage := stg1\<rparr>)\<rparr>" "r\<lparr>sr_stage := stg1\<rparr>" "i + 1"] Cons.prems(1) one
    by (simp add: store_chunk_effect_def)
qed simp

lemma finish_image:
  assumes "finish env st used p = (st', used', Inr d)"
  shows "pc_encoded_image p = Some (di_bytes (do_image d))" "pc_commitment p = Some (di_commitment (do_image d))"
    "pc_decoded p = Some (do_decoded d)"
  using assms by (auto simp: finish_def finish_pending_def bindE_eq_Inr ok_or_def split: sum.splits prod.splits if_splits option.splits)

lemma emit_frame:
  assumes "emit env s metadata ev = (s', r)"
  shows "fo_live s' = fo_live s" "fo_stage s' = fo_stage s"
  using assms by (auto simp: emit_def split: option.splits)

lemma reserve_stage_reserved:
  assumes "reserve_stage env ans s op at chunks enc dec = (s', Some ev)"
  shows "\<exists>r. fo_stage s' = Some r \<and> fo_live s' = fo_live s
    \<and> stage_new enc chunks at dec IMAGE_CAPS (jcfg_max_event_bytes JOURNAL_CONFIG) = Inr (sr_stage r)"
  using assms by (auto simp: reserve_stage_def emit_def split: if_splits option.splits sum.splits)

text \<open>A follower receives the donor's rows in private. Take the image of a finished capture, the donor's offer and
  the chunks it serves, whatever its index has become since C. A follower that reserves a stage for the offer can store
  every chunk, and verifying the offered commitment then leaves it a stage with exactly the rows and tombstones of C, less
  content types and metadata; its live index is untouched.\<close>

theorem transfer_delivers_donor:
  assumes "begin_fleet_capture ce lay st used j suffix members universe IMAGE_CAPS = (dn, used', old, Inr p)"
    and "index_ok lay st" "index_typed pe st" "encode_pending ce lay p universe IMAGE_CAPS = (p', Inr ())"
    and "finish ce lv used1 p' = (lv', used2, Inr d)"
    and "image_offer ce lv2 used3 active still d max_metadata headers metadata = Some (permit, off)"
    and "fe_layout env = lay" "fe_parse env = pe" "fe_hash env = ce_hash ce"
    and "execute_follower env ans s (ReserveStage op at (to_chunks off) (to_encoded_bytes off) (to_decoded_bytes off)) = (s1, Some ev)"
    and "\<not> ea_late ans'"
  shows "\<exists>s2 r. store_chunk_effects s1 0 (chunks_of CHUNK_BYTES (di_bytes (do_image d))) = (s2, True)
    \<and> fo_stage (fst (execute_follower env ans' s2 (VerifyImage op' (to_commitment off)))) = Some r
    \<and> staged lay (sr_stage r) (skel_view (index_view st))
    \<and> fo_live (fst (execute_follower env ans' s2 (VerifyImage op' (to_commitment off)))) = fo_live s"
proof (rule encode_captured [OF assms(1-3)], goal_cases)
  case (1 e)
  then show ?case
    using assms(4) by simp
next
  case e: (2 snap bs)
  have "pc_encoded_image p' = Some bs" "pc_commitment p' = Some (ce_hash ce bs)" "pc_decoded p' = pc_decoded p"
    using e(3) assms(4) by auto
  moreover have "pc_decoded p = Some \<lparr>rv_class = ClassDecoded, rv_bytes = decoded_bytes (pc_size p)\<rparr>"
    by (rule begin_captured [OF assms(1)])
  ultimately have d: "di_bytes (do_image d) = bs" "di_commitment (do_image d) = ce_hash ce bs" "rv_bytes (do_decoded d) = decoded_bytes (pc_size p)"
    using finish_image [OF assms(5)] by auto
  have off: "to_chunks off = (length bs + CHUNK_BYTES - 1) div CHUNK_BYTES" "to_encoded_bytes off = length bs"
    "to_decoded_bytes off = decoded_bytes (pc_size p)" "to_commitment off = ce_hash ce bs"
    using assms(6) d by (auto simp: image_offer_def Let_def split: if_splits option.splits sum.splits)
  have pos: "0 < CHUNK_BYTES"
    by (simp add: CHUNK_BYTES_def)
  let ?cs = "chunks_of CHUNK_BYTES bs"
  have "reserve_stage env ans s op at (to_chunks off) (to_encoded_bytes off) (to_decoded_bytes off) = (s1, Some ev)"
    using assms(10) by (simp add: execute_follower_def split: if_splits)
  then obtain r where r: "fo_stage s1 = Some r" "fo_live s1 = fo_live s"
    "stage_new (length bs) (length ?cs) at (decoded_bytes (pc_size p)) IMAGE_CAPS (jcfg_max_event_bytes JOURNAL_CONFIG) = Inr (sr_stage r)"
    using reserve_stage_reserved off chunks_of_props(3) [OF pos, of bs] by metis
  obtain g1 g2 where g: "store_chunks (sr_stage r) 0 ?cs = Inr g1" "stage_verify lay pe (ce_hash ce) g1 (ce_hash ce bs) = (g2, Inr ())"
    "staged lay g2 (skel_view (index_view snap))"
    using stage_receives_core [OF e(2,6,8,4) chunks_of_props(1) [OF pos] _ r(3), of "ce_hash ce"] chunks_of_props(2) [OF pos] by blast
  let ?s2 = "s1\<lparr>fo_stage := Some (r\<lparr>sr_stage := g1\<rparr>)\<rparr>"
  have "execute_follower env ans' ?s2 (VerifyImage op' (to_commitment off))
      = emit env (?s2\<lparr>fo_stage := Some (r\<lparr>sr_stage := g2\<rparr>)\<rparr>) False (ImageVerified op' (ce_hash ce bs))"
    using assms(7-9,11) g(2) off(4) by (simp add: execute_follower_def verify_image_def)
  moreover obtain s3 q where "emit env (?s2\<lparr>fo_stage := Some (r\<lparr>sr_stage := g2\<rparr>)\<rparr>) False (ImageVerified op' (ce_hash ce bs)) = (s3, q)"
    by fastforce
  ultimately have "fo_stage (fst (execute_follower env ans' ?s2 (VerifyImage op' (to_commitment off)))) = Some (r\<lparr>sr_stage := g2\<rparr>)"
    "fo_live (fst (execute_follower env ans' ?s2 (VerifyImage op' (to_commitment off)))) = fo_live s"
    using emit_frame r(2) by fastforce+
  then show ?case
    using store_chunk_effects_stage [OF r(1) g(1)] g(3) snapshot_view [OF e(7)] d(1)
    by (intro exI [of _ ?s2] exI [of _ "r\<lparr>sr_stage := g2\<rparr>"]) simp
qed

lemma release_stage_live [simp]: "fo_live (release_stage s) = fo_live s"
  by (simp add: release_stage_def split: option.split)

lemma private_effects:
  "reserve_stage env ans s op at chunks enc dec = (s', r) \<Longrightarrow> fo_live s' = fo_live s"
  "verify_image env s op commitment = (s', r) \<Longrightarrow> fo_live s' = fo_live s"
  "check_native_coverage env ans s op receipt = (s', r) \<Longrightarrow> fo_live s' = fo_live s"
  by (auto simp: reserve_stage_def verify_image_def check_native_coverage_def emit_def
      split: if_splits option.splits sum.splits prod.splits install_refusal.splits)

lemma install_guarded_Some:
  assumes "install_guarded env ans s cov = Some att"
  shows "ea_permit ans \<noteq> None" "fo_attachment s = Some att" "cv_parent cov = fe_parent env"
    "br_reservation (cv_barrier cov) = at_reservation att" "br_attach_operation (cv_barrier cov) = at_operation att"
    "cv_staged_through cov = br_cursor (cv_barrier cov)" "cv_buffered_bytes cov = 0" "ea_source ans (cv_members cov)"
  using assms by (auto simp: install_guarded_def bind_eq_Some_conv split: if_splits)

lemma install_candidate_cases:
  assumes "install_candidate env ans s op cov = (s', r)"
  obtains (kept) "fo_live s' = fo_live s" "\<And>op' h. r \<noteq> Some (Some (Installed op' h))"
  | (installed) att res cp generation where "install_guarded env ans s cov = Some att" "ea_permit ans = Some True" "fo_stage s = Some res"
      "install_fleet_candidate (fe_layout env) (fe_align env) (fo_live s) (fs_index (sr_stage res)) (cv_proven_cuts cov) (fe_universe env)
         (c_rows (fs_caps (sr_stage res))) = (fo_live s', None, cp, Inr ())"
      "r = Some (Some (Installed op \<lparr>ho_install = op, ho_coverage = cov, ho_attachment = att, ho_applier_generation = generation,
         ho_continued_cuts = cv_proven_cuts cov\<rparr>))" "fo_stage s' = None"
proof (cases "(\<exists>att. install_guarded env ans s cov = Some att) \<and> event_charge env (fo_used s) True \<noteq> None
    \<and> checked_add64 (fo_applier s) 1 \<noteq> None \<and> fo_applier s \<noteq> 0 \<and> fo_stage s \<noteq> None \<and> ea_permit ans = Some True")
  case False
  then have "fo_live s' = fo_live s \<and> r = None"
    using assms by (auto simp: install_candidate_def Let_def split: option.splits if_splits prod.splits)
  then show thesis
    using kept by simp
next
  case True
  then obtain att charge used bumped res where t: "install_guarded env ans s cov = Some att" "event_charge env (fo_used s) True = Some (charge, used)"
    "checked_add64 (fo_applier s) 1 = Some bumped" "fo_applier s \<noteq> 0" "fo_stage s = Some res" "ea_permit ans = Some True"
    by auto
  obtain lv left cp q where i: "install_fleet_candidate (fe_layout env) (fe_align env) (fo_live s) (fs_index (sr_stage res))
      (cv_proven_cuts cov) (fe_universe env) (c_rows (fs_caps (sr_stage res))) = (lv, left, cp, q)"
    by (metis prod_cases4)
  show thesis
  proof (cases q)
    case (Inl e)
    then have "lv = fo_live s"
      using install_refusal_is_clean [OF i [unfolded Inl]] by simp
    then have "fo_live s' = fo_live s" "\<And>op' h. r \<noteq> Some (Some (Installed op' h))"
      using assms t i Inl by (auto simp: install_candidate_def Let_def install_into_def split: install_refusal.splits option.splits)
    then show ?thesis
      by (rule kept)
  next
    case (Inr u)
    have "left = None"
      using i Inr by (auto simp: install_fleet_candidate_def split: option.splits sum.splits)
    moreover have "fo_live s' = lv" "fo_stage s' = None"
      "r = Some (Some (Installed op \<lparr>ho_install = op, ho_coverage = cov, ho_attachment = att, ho_applier_generation = fo_applier s,
         ho_continued_cuts = cv_proven_cuts cov\<rparr>))"
      using assms t i Inr by (auto simp: install_candidate_def Let_def install_into_def release_stage_def)
    ultimately show ?thesis
      using installed [OF t(1,6,5)] i Inr by simp
  qed
qed

text \<open>C16: The live index changes only by a covered install. Whatever effect a follower executes, its live index is as it
  was unless the effect installs a candidate under a permit that still publishes, with a coverage receipt of this
  recovery and this attachment, staged exactly through the barrier with nothing buffered, under a roster that still
  matches; then it is the guarded swap of the staged candidate, and the follower reports the install. A refused or
  pending install changes nothing.\<close>

theorem live_changes_only_by_install:
  assumes "execute_follower env ans s effect = (s', r)"
  shows "fo_live s' = fo_live s
    \<or> (\<exists>op cov att res cp h. effect = InstallCandidate op cov \<and> \<not> ea_late ans \<and> ea_permit ans = Some True
        \<and> fo_attachment s = Some att \<and> cv_parent cov = fe_parent env \<and> br_reservation (cv_barrier cov) = at_reservation att
        \<and> br_attach_operation (cv_barrier cov) = at_operation att \<and> cv_staged_through cov = br_cursor (cv_barrier cov)
        \<and> cv_buffered_bytes cov = 0 \<and> ea_source ans (cv_members cov) \<and> fo_stage s = Some res
        \<and> install_fleet_candidate (fe_layout env) (fe_align env) (fo_live s) (fs_index (sr_stage res)) (cv_proven_cuts cov)
            (fe_universe env) (c_rows (fs_caps (sr_stage res))) = (fo_live s', None, cp, Inr ())
        \<and> r = Some (Some (Installed op h)) \<and> ho_coverage h = cov \<and> ho_continued_cuts h = cv_proven_cuts cov \<and> fo_stage s' = None)"
proof (cases "ea_late ans")
  case True
  then show ?thesis
    using assms by (simp add: execute_follower_def)
next
  case False
  show ?thesis
  proof (cases effect)
    case (InstallCandidate op cov)
    then have i: "install_candidate env ans s op cov = (s', r)"
      using assms False by (simp add: execute_follower_def)
    show ?thesis
    proof (rule install_candidate_cases [OF i], goal_cases)
      case (2 att res cp generation)
      then show ?case
        using install_guarded_Some [OF 2(1)] False InstallCandidate by auto
    qed simp
  qed (use assms False private_effects in \<open>auto simp: execute_follower_def\<close>)
qed

section \<open>Instances\<close>

lemma measure_at_caps:
  "measure_image layout_example image_example [''b''] IMAGE_CAPS = Inr \<lparr>encoded_bytes = 81, decoded_bytes = 4145, rows = 2\<rparr>"
proof -
  have b: "image_bucket image_example ''b'' None IMAGE_CAPS = Inr image_bucket_example"
    by (simp add: image_bucket_Inr IMAGE_CAPS_def name_after_def image_example_get complete_bucket_def)
      (simp add: image_bucket_example_def bucket_default_def)
  have caps: "c_bytes IMAGE_CAPS = 256 * 2 ^ 20" "c_decoded_bytes IMAGE_CAPS = 2 ^ 30" "c_buckets IMAGE_CAPS = 256"
    "c_rows IMAGE_CAPS = 2000000" "c_name_bytes IMAGE_CAPS = 1024"
    by (simp_all add: IMAGE_CAPS_def)
  have len: "length (ki_buckets image_example) = 1"
    by (simp add: image_example_def bucket_set_def key_index_default_def)
  show ?thesis
    by (simp add: caps len measure_image_def image_loop_def measure_bucket_def b image_example_maps measure_row_def measure_gone_def
        caps_validate_def layout_example_def budget_new_def budget_take_def state_charge_def
        bucket_slots_def bucket_charge_def entry_charge_def gone_charge_def map_entry_charge_def sumE_def checked_add64_def
        checked_mul64_def u64_max_def bucket_bytes_def text_bytes_def add_rows_def kr_len_def gr_len_def entry_bytes_def
        gone_bytes_def TIMESTAMP_BYTES_def HEADER_BYTES_def etag_text_len_def image_entry_example_def standard_class_def
        kr_get_def)
qed

lemma donor_example_at_caps:
  obtains used p bs p' d where
    "begin_fleet_capture capture_env_example layout_example image_example {#} donor_journal_example suffix_example [()]
      [''b''] IMAGE_CAPS = (captured_example, used, None, Inr p)"
    "encode_pending capture_env_example layout_example p [''b''] IMAGE_CAPS = (p', Inr ())"
    "finish capture_env_example captured_example used p' = (captured_example, used, Inr d)"
    "di_bytes (do_image d) = bs" "length bs = 81" "rv_bytes (do_decoded d) = 4145" "di_commitment (do_image d) = bs"
    "has_fleet_capture captured_example (di_ingress (do_image d))"
proof -
  note m = measure_at_caps
  have t: "tallied_size layout_example image_example [''b''] IMAGE_CAPS = Inr \<lparr>encoded_bytes = 81, decoded_bytes = 4145, rows = 2\<rparr>"
    by (rule tallied_size_core [OF image_example_ok m])
  have "\<exists>snap. snapshot_state image_example [''b''] = Inr snap"
    by (simp add: snapshot_state_def bucket_slots_def checked_mul64_def checked_add64_def u64_max_def image_example_get)
  then obtain snap where "snapshot_state image_example [''b''] = Inr snap" ..
  moreover have "ki_native_cuts image_example = []" "ki_capture image_example = None"
    by (simp_all add: image_example_def bucket_set_def key_index_default_def)
  ultimately have "\<exists>used p. begin_fleet_capture capture_env_example layout_example image_example {#} donor_journal_example suffix_example [()]
      [''b''] IMAGE_CAPS = (captured_example, used, None, Inr p)"
    using t by (auto simp: begin_fleet_capture_def prepare_capture_def reserve_def open_ingress_def copy_cuts_def capture_env_example_def
        donor_journal_example_def suffix_example_def captured_example_def donor_capture_example_def IMAGE_CAPS_def Let_def)
  then obtain used p where b: "begin_fleet_capture capture_env_example layout_example image_example {#} donor_journal_example suffix_example [()]
      [''b''] IMAGE_CAPS = (captured_example, used, None, Inr p)"
    by blast
  show thesis
  proof (rule encode_captured [OF b image_example_ok image_example_typed], goal_cases)
    case e: (2 snap bs)
    have sz: "encoded_bytes (pc_size p) = 81" "decoded_bytes (pc_size p) = 4145"
      using m e(1) by auto
    let ?p' = "p\<lparr>pc_snapshot := None, pc_commitment := Some bs, pc_encoded_image := Some bs\<rparr>"
    have enc: "encode_pending capture_env_example layout_example p [''b''] IMAGE_CAPS = (?p', Inr ())"
      using e(3) by (simp add: capture_env_example_def)
    have p: "pc_index p" "pc_ingress p = \<lparr>ing_id = 1, ing_calls = []\<rparr>"
      "pc_encoded p = Some \<lparr>rv_class = ClassEncoded, rv_bytes = 81\<rparr>" "pc_decoded p = Some \<lparr>rv_class = ClassDecoded, rv_bytes = 4145\<rparr>"
      using sz by (auto intro: begin_captured [OF b] simp: donor_journal_example_def)
    have has: "has_fleet_capture captured_example (pc_ingress p)"
      by (simp add: has_fleet_capture_def captured_example_get donor_capture_example_def capture_new_def same_ingress_def same_candidate_def p(2))
    have "\<exists>d. finish capture_env_example captured_example used ?p' = (captured_example, used, Inr d)
        \<and> di_bytes (do_image d) = bs \<and> rv_bytes (do_decoded d) = 4145 \<and> di_commitment (do_image d) = bs \<and> di_ingress (do_image d) = pc_ingress p"
      using p has by (simp add: finish_def finish_pending_def ok_or_def) (simp add: capture_env_example_def)
    then show ?thesis
      using that b enc e(5) sz(1) has by metis
  qed (use m in simp)
qed

lemma offer_example:
  assumes "has_fleet_capture captured_example (di_ingress (do_image d))" "length (di_bytes (do_image d)) = 81" "rv_bytes (do_decoded d) = 4145"
  shows "image_offer capture_env_example captured_example {#} True True d 1 1 1
    = Some (\<lparr>rv_class = ClassInflight, rv_bytes = 5\<rparr>,
        \<lparr>to_encoded_bytes = 81, to_decoded_bytes = 4145, to_chunks = 1, to_commitment = di_commitment (do_image d)\<rparr>)"
  using assms by (simp add: image_offer_def donor_active_def IMAGE_CAPS_def checked_mul64_def checked_add64_def u64_max_def reserve_def
      capture_env_example_def CHUNK_BYTES_def Let_def)

lemma chunks_cover_image_witness:
  "\<exists>d off. image_offer capture_env_example captured_example {#} True True d 1 1 1 = Some off \<and> to_chunks (snd off) = 1
     \<and> concat (chunks_of CHUNK_BYTES (di_bytes (do_image d))) = di_bytes (do_image d) \<and> di_bytes (do_image d) \<noteq> []"
proof (rule donor_example_at_caps)
  fix used p bs p' and d :: donor_capture
  assume d: "di_bytes (do_image d) = bs" "length bs = 81" "rv_bytes (do_decoded d) = 4145"
    "has_fleet_capture captured_example (di_ingress (do_image d))"
  note off = offer_example [OF d(4), unfolded d(1), OF d(2,3)]
  have "ce_grants capture_env_example {#} ClassEncoded CHUNK_BYTES"
    by (simp add: capture_env_example_def)
  from chunks_cover_image [OF off this] show ?thesis
    using off d(1,2) by (intro exI [of _ d]) (auto simp: Let_def)
qed

definition follower_env_example :: follower_env where
  "follower_env_example = \<lparr>fe_layout = layout_example, fe_parse = parse_example, fe_hash = id, fe_align = align_example,
     fe_universe = [''b''], fe_follower = ''f'', fe_parent = 7, fe_grants = (\<lambda>_ _ _. True), fe_event_size = 64\<rparr>"

definition answers_example :: effect_answers where
  "answers_example = \<lparr>ea_late = False, ea_source = (\<lambda>_. True), ea_permit = Some True, ea_takes = True\<rparr>"

definition attach_example :: attach_token where
  "attach_example = \<lparr>at_reservation = \<lparr>ar_follower = ''f'', ar_serial = 1\<rparr>, at_operation = 3\<rparr>"

definition follower_example :: follower_state where
  "follower_example = \<lparr>fo_live = install_example None None, fo_stage = None, fo_attachment = Some attach_example, fo_overlap = False,
     fo_used = {#}, fo_applier = 1\<rparr>"

lemma transfer_delivers_donor_witness:
  "\<exists>s2 r h. fo_stage (fst (execute_follower follower_env_example answers_example s2 (VerifyImage 2 h))) = Some r
     \<and> staged layout_example (sr_stage r) (skel_view (index_view image_example))"
proof (rule donor_example_at_caps)
  fix used p bs p' and d :: donor_capture
  assume d: "begin_fleet_capture capture_env_example layout_example image_example {#} donor_journal_example suffix_example [()]
      [''b''] IMAGE_CAPS = (captured_example, used, None, Inr p)"
    "encode_pending capture_env_example layout_example p [''b''] IMAGE_CAPS = (p', Inr ())"
    "finish capture_env_example captured_example used p' = (captured_example, used, Inr d)"
    "di_bytes (do_image d) = bs" "length bs = 81" "rv_bytes (do_decoded d) = 4145"
    "has_fleet_capture captured_example (di_ingress (do_image d))"
  note off = offer_example [OF d(7), unfolded d(4), OF d(5,6)]
  have env: "fe_layout follower_env_example = layout_example" "fe_parse follower_env_example = parse_example"
    "fe_hash follower_env_example = ce_hash capture_env_example" "\<not> ea_late answers_example"
    by (simp_all add: follower_env_example_def capture_env_example_def answers_example_def)
  have "\<exists>s1. execute_follower follower_env_example answers_example follower_example (ReserveStage 1 \<lparr>jc_capture = 1, jc_position = 0\<rparr> 1 81 4145)
      = (s1, Some (Some (StageReserved 1)))"
    by (simp add: execute_follower_def answers_example_def reserve_stage_def follower_example_def IMAGE_CAPS_def fo_reserve_def
        follower_env_example_def stage_new_def JOURNAL_CONFIG_def emit_def event_charge_def Let_def)
  then obtain s1 where s1: "execute_follower follower_env_example answers_example follower_example
      (ReserveStage 1 \<lparr>jc_capture = 1, jc_position = 0\<rparr> 1 81 4145) = (s1, Some (Some (StageReserved 1)))" ..
  show ?thesis
    using transfer_delivers_donor [OF d(1) image_example_ok image_example_typed d(2,3) off env(1-3), of answers_example follower_example 1
        "\<lparr>jc_capture = 1, jc_position = 0\<rparr>" s1 "Some (StageReserved 1)" answers_example 2] s1 env(4) by auto
qed

text \<open>A follower whose stage holds one row installs it over an empty index.\<close>

definition coverage_example :: coverage_receipt where
  "coverage_example = \<lparr>cv_parent = 7, cv_staged_through = \<lparr>jc_capture = 1, jc_position = 0\<rparr>, cv_proven_cuts = [], cv_members = [],
     cv_buffered_bytes = 0, cv_barrier = \<lparr>br_cursor = \<lparr>jc_capture = 1, jc_position = 0\<rparr>,
       br_reservation = \<lparr>ar_follower = ''f'', ar_serial = 1\<rparr>, br_attach_operation = 3, br_covered_cuts = [], br_members = []\<rparr>\<rparr>"

lemma live_changes_only_by_install_witness:
  "\<exists>s s' h cp. execute_follower follower_env_example answers_example s (InstallCandidate 5 coverage_example) = (s', Some (Some (Installed 5 h)))
     \<and> install_fleet_candidate layout_example align_example (fo_live s) (Some (install_example (Some (install_row_example 10)) None)) []
         [''b''] 100 = (fo_live s', None, cp, Inr ()) \<and> fo_live s' \<noteq> fo_live s"
proof -
  define stage where "stage = stage_following_example\<lparr>fs_index := Some (install_example (Some (install_row_example 10)) None)\<rparr>"
  let ?r = "\<lparr>sr_stage = stage, sr_encoded = \<lparr>rv_class = ClassEncoded, rv_bytes = 1\<rparr>, sr_decoded = \<lparr>rv_class = ClassDecoded, rv_bytes = 1\<rparr>\<rparr>"
  let ?s = "follower_example\<lparr>fo_stage := Some ?r\<rparr>"
  obtain lv' cp where i: "install_fleet_candidate layout_example align_example (install_example None None)
       (Some (install_example (Some (install_row_example 10)) None)) [] [''b''] 100 = (lv', None, cp, Inr ())"
    using install_example_succeeds [of None "Some (install_row_example 10)" None None] by auto
  have rows: "c_rows (fs_caps stage) = 100" "fs_index stage = Some (install_example (Some (install_row_example 10)) None)"
    by (simp_all add: stage_def stage_following_example_def image_caps_example_def)
  have into: "install_into layout_example align_example stage (install_example None None) [] [''b''] = (stage\<lparr>fs_index := None\<rparr>, lv', cp, Inr ())"
    by (simp add: install_into_def rows i)
  have "\<exists>s' h. execute_follower follower_env_example answers_example ?s (InstallCandidate 5 coverage_example) = (s', Some (Some (Installed 5 h)))
      \<and> fo_live s' = lv'"
    by (simp add: execute_follower_def answers_example_def install_candidate_def install_guarded_def follower_example_def coverage_example_def
        attach_example_def follower_env_example_def event_charge_def checked_mul64_def checked_add64_def u64_max_def fo_reserve_def Let_def
        into release_stage_def)
  then obtain s' h where s': "execute_follower follower_env_example answers_example ?s (InstallCandidate 5 coverage_example) = (s', Some (Some (Installed 5 h)))"
    "fo_live s' = lv'"
    by blast
  have "index_ok layout_example (install_example None None)" "index_ok layout_example (install_example (Some (install_row_example 10)) None)"
    by (auto intro!: install_example_ok)
  then have "live lv' ''b'' ''k'' \<noteq> live (install_example None None) ''b'' ''k''"
    using install_view(2) [OF _ _ i, of "''b''" "''k''"] by (auto simp: install_example_view)
  then have "fo_live s' \<noteq> fo_live ?s"
    using s'(2) by (auto simp: follower_example_def)
  then obtain op cov res cp' where x: "InstallCandidate 5 coverage_example = InstallCandidate op cov" "fo_stage ?s = Some res"
    "install_fleet_candidate (fe_layout follower_env_example) (fe_align follower_env_example) (fo_live ?s) (fs_index (sr_stage res))
      (cv_proven_cuts cov) (fe_universe follower_env_example) (c_rows (fs_caps (sr_stage res))) = (fo_live s', None, cp', Inr ())"
    using live_changes_only_by_install [OF s'(1)] by blast
  moreover have "res = ?r" "cov = coverage_example"
    using x(1,2) by simp_all
  ultimately have "install_fleet_candidate layout_example align_example (fo_live ?s) (Some (install_example (Some (install_row_example 10)) None)) []
      [''b''] 100 = (fo_live s', None, cp', Inr ())"
    using rows by (simp add: follower_env_example_def coverage_example_def)
  then show ?thesis
    using s'(1) \<open>fo_live s' \<noteq> fo_live ?s\<close> by blast
qed

end
