(* ===== verification/Recovery.thy ===== *)
theory Recovery
  imports Settings Apply Readiness Bootstrap
begin

text \<open>
  The adapter to \<^verbatim>\<open>groupnet\<close>'s volatile recovery (\<^verbatim>\<open>src/src/sync/volatile.rs\<close>): the facts it reports of the group, the
  configuration it starts with, and the origin rebuild it runs under a publication permit; with the limits of the peer
  bootstrap beside it (\<^verbatim>\<open>src/src/sync/volatile/fleet/runtime.rs\<close>) and the readings of membership and lease in
  \<^verbatim>\<open>src/src/sync/coherence.rs\<close>. The recovery state machine that calls the adapter is \<^verbatim>\<open>groupnet\<close>'s. What the group
  and the lease answer are arguments, and so is every answer of the permit. Durations are in nanoseconds where
  the code divides them and in milliseconds where it reads them so.
\<close>

section \<open>What the group shows\<close>

text \<open>\<open>gv_held\<close> is the bounded roster, refused when it does not fit; \<open>gv_head\<close> is a node's advertised head, \<^const>\<open>None\<close>
  when the entry is there and malformed and \<open>Some None\<close> when there is none.\<close>

record group_view =
  gv_held :: "nat \<Rightarrow> nat \<Rightarrow> (string \<times> status \<times> nat) list option"
  gv_statuses :: roster
  gv_head :: "string \<Rightarrow> mark option option"
  gv_caps :: "string \<Rightarrow> string set"
  gv_grants :: "(string \<Rightarrow> mark option) option"
  gv_confirmed :: "mark option"
  gv_granters :: "string list"
  gv_anti_entropy_ms :: nat

record peer_fact =
  pf_node :: string
  pf_alive :: bool
  pf_grants_lease :: bool
  pf_old_nonlive :: bool
  pf_renewal :: "(mark \<times> nat) option"
  pf_sealed :: "mark option"
  pf_grant :: "mark option"
  pf_head :: "mark option"

definition lease_granted_by :: "group_view \<Rightarrow> string \<Rightarrow> mark option" where
  "lease_granted_by g granter = Option.bind (gv_grants g) (\<lambda>granted. granted granter)"

definition lease_confirmed :: "group_view \<Rightarrow> mark option" where
  "lease_confirmed g = (case gv_grants g of None \<Rightarrow> None | Some _ \<Rightarrow> gv_confirmed g)"

definition observe_peer :: "group_view \<Rightarrow> apply_state \<Rightarrow> string \<Rightarrow> nat \<Rightarrow> string \<times> status \<times> nat \<Rightarrow> peer_fact option" where
  "observe_peer g s cap_lease lease x = (case x of (node, status, held_for) \<Rightarrow>
     Option.bind (gv_head g node) (\<lambda>hd_mark.
       let grant = lease_granted_by g node; c = crossing_of s node in Some
         \<lparr>pf_node = node, pf_alive = (status = Alive), pf_grants_lease = (cap_lease \<in> gv_caps g node \<or> grant \<noteq> None),
          pf_old_nonlive = (status \<noteq> Alive \<and> held_for \<ge> max (lease div 4) 25000000),
          pf_renewal = cr_renewal c, pf_sealed = cr_sealed c, pf_grant = grant, pf_head = hd_mark\<rparr>))"

definition observe_group ::
  "group_view \<Rightarrow> apply_state \<Rightarrow> string \<Rightarrow> string \<Rightarrow> nat \<Rightarrow> nat \<Rightarrow> nat \<Rightarrow> (peer_fact list \<times> mark option) option" where
  "observe_group g s cap_lease me lease max_members max_member_bytes =
     Option.bind (checked_add64 max_members 1) (\<lambda>bound.
     Option.bind (gv_held g bound max_member_bytes) (\<lambda>members.
     Option.bind (those (map (observe_peer g s cap_lease lease) (filter (\<lambda>(node, _). node \<noteq> me) members))) (\<lambda>peers.
       Some (peers, lease_confirmed g))))"

definition cluster_healthy :: "consistency \<Rightarrow> group_view \<Rightarrow> bool" where
  "cluster_healthy c g \<longleftrightarrow> (if c = Bounded then True else list_all (\<lambda>(_, status). status = Alive) (gv_statuses g))"

definition absent_granters :: "group_view \<Rightarrow> string list" where
  "absent_granters g = (if gv_grants g = None then []
     else sort (filter (\<lambda>granter. \<not> list_ex (\<lambda>(i, status). i = granter \<and> status = Alive) (gv_statuses g)) (gv_granters g)))"

text \<open>Waiting for the heads: each is asked in turn, and the first that is not reached fails the wait. \<open>frontier\<close> is
  \<^const>\<open>None\<close> before the apply loop has started.\<close>

fun wait_frontiers :: "(string \<Rightarrow> mark \<Rightarrow> bool) option \<Rightarrow> (string \<times> mark) list \<Rightarrow> bool" where
  "wait_frontiers None heads = False"
| "wait_frontiers (Some reached) [] = True"
| "wait_frontiers (Some reached) ((node, hd_mark) # heads) = (if \<not> reached node hd_mark then False else wait_frontiers (Some reached) heads)"

section \<open>Configuration\<close>

record recovery_config =
  rc_max_members :: nat
  rc_max_member_bytes :: nat
  rc_max_barrier_rounds :: nat
  rc_total_ms :: nat
  rc_attempt_ms :: nat
  rc_settle_ms :: nat
  rc_poll_ms :: nat

datatype recovery_mode = Leased | Unleased

definition MAX_RECOVERY_BUCKETS :: nat where
  "MAX_RECOVERY_BUCKETS = 4096"

definition saturating_mul64 :: "nat \<Rightarrow> nat \<Rightarrow> nat" where
  "saturating_mul64 a b = min (a * b) u64_max"

definition recovery_settle_floor_ms :: "group_view \<Rightarrow> nat" where
  "recovery_settle_floor_ms g = saturating_mul64 (gv_anti_entropy_ms g) 2"

text \<open>\<open>lease_ms\<close> is the duration of the lease set, if there is one. \<^const>\<open>None\<close> is the failed assertion on the inventory.\<close>

definition prepare_recovery ::
  "consistency \<Rightarrow> nat option \<Rightarrow> group_view \<Rightarrow> recovery_config option \<Rightarrow> string list \<Rightarrow> (recovery_config \<times> recovery_mode) option" where
  "prepare_recovery c lease_ms g config buckets =
     (if length buckets > MAX_RECOVERY_BUCKETS then None
      else let lease = (case lease_ms of None \<Rightarrow> DEFAULT_LEASE_MS | Some d \<Rightarrow> d);
               mode = (if c = ModeStrong then Leased else Unleased);
               settle_ms = max (if lease \<le> u64_max then lease else 2000) (recovery_settle_floor_ms g);
               dflt = \<lparr>rc_max_members = 256, rc_max_member_bytes = 256, rc_max_barrier_rounds = 4,
                  rc_total_ms = max 600000 (saturating_mul64 settle_ms 2), rc_attempt_ms = 60000, rc_settle_ms = settle_ms, rc_poll_ms = 100\<rparr>
           in Some (case config of None \<Rightarrow> dflt | Some given \<Rightarrow> given, mode))"

record claim_config =
  cl_max_members :: nat
  cl_max_member_bytes :: nat
  cl_max_scope_bytes :: nat
  cl_settle_ms :: nat
  cl_renew_ms :: nat
  cl_claim_ttl_ms :: nat
  cl_observe_ms :: nat
  cl_donor_wait_ms :: nat
  cl_total_ms :: nat

definition claim_policy :: "recovery_config \<Rightarrow> claim_config option" where
  "claim_policy rc = (let total_ms = min (rc_total_ms rc) 60000 in
     if total_ms \<ge> 5000 then Some
       \<lparr>cl_max_members = 64, cl_max_member_bytes = 256, cl_max_scope_bytes = 8192,
        cl_settle_ms = min (max (rc_settle_ms rc) 3000) (total_ms div 2), cl_renew_ms = 500, cl_claim_ttl_ms = 3000,
        cl_observe_ms = 1000, cl_donor_wait_ms = total_ms div 2, cl_total_ms = total_ms\<rparr>
     else None)"

record transfer_limits =
  tr_expected_schema :: nat
  tr_max_metadata_bytes :: nat
  tr_max_encoded_bytes :: nat
  tr_max_decoded_bytes :: nat
  tr_max_chunk_bytes :: nat
  tr_max_chunks :: nat
  tr_max_batch_bytes :: nat
  tr_max_batch_events :: nat
  tr_max_replay_events :: nat
  tr_max_native_buffer_bytes :: nat
  tr_max_members :: nat
  tr_max_cuts :: nat
  tr_coverage_poll_ms :: nat

definition transfer_policy :: transfer_limits where
  "transfer_policy = \<lparr>tr_expected_schema = 1, tr_max_metadata_bytes = 64 * 1024, tr_max_encoded_bytes = c_bytes IMAGE_CAPS,
     tr_max_decoded_bytes = c_decoded_bytes IMAGE_CAPS, tr_max_chunk_bytes = 64 * 1024,
     tr_max_chunks = c_bytes IMAGE_CAPS div (64 * 1024), tr_max_batch_bytes = 128 * 1024, tr_max_batch_events = 32,
     tr_max_replay_events = 1024, tr_max_native_buffer_bytes = 1024 * 1024, tr_max_members = 64,
     tr_max_cuts = jcfg_max_cuts JOURNAL_CONFIG, tr_coverage_poll_ms = 100\<rparr>"

record admission_limits =
  al_max_total_bytes :: nat
  al_max_encoded_bytes :: nat
  al_max_decoded_bytes :: nat
  al_max_suffix_bytes :: nat
  al_max_native_overlap_bytes :: nat
  al_max_inflight_bytes :: nat
  al_max_reservations :: nat

definition admission_policy :: admission_limits where
  "admission_policy = \<lparr>al_max_total_bytes = 256 * 2 ^ 20 + 2 ^ 30 + 80 * 2 ^ 20, al_max_encoded_bytes = c_bytes IMAGE_CAPS,
     al_max_decoded_bytes = c_decoded_bytes IMAGE_CAPS, al_max_suffix_bytes = 32 * 2 ^ 20,
     al_max_native_overlap_bytes = 16 * 2 ^ 20, al_max_inflight_bytes = 32 * 2 ^ 20, al_max_reservations = 512\<rparr>"

section \<open>The origin rebuild\<close>

text \<open>What the rebuild meets: what the other tasks of the node did to the index before each reset, the permit's answer to
  it, the pages of each bucket's scan with what other tasks did before each and the permit's answer, and its answer to the final
  flag. A page event that carries no answer was let through.\<close>

record rebuild_env =
  rb_layout :: layout
  rb_parse :: "string \<Rightarrow> etag option"
  rb_ask :: "string \<Rightarrow> discovery_ask"
  rb_scan :: scan_config
  rb_others :: "string \<Rightarrow> key_index_state \<Rightarrow> key_index_state"
  rb_reset_ok :: "string \<Rightarrow> bool"
  rb_events :: "string \<Rightarrow> scan_event list"
  rb_finish_ok :: "string \<Rightarrow> bool"

datatype rebuild_result = Rebuilt | RebuildFailed | RebuildRunning

definition rebuild_universe :: "key_index_state \<Rightarrow> string list \<Rightarrow> string list option" where
  "rebuild_universe st configured =
     (if length (ki_buckets st) > MAX_RECOVERY_BUCKETS
         \<or> saturating_add64 (length (ki_buckets st)) (length configured) > MAX_RECOVERY_BUCKETS then None
      else Some (sort (remdups (configured @ map fst (ki_buckets st)))))"

fun begin_buckets :: "rebuild_env \<Rightarrow> string list \<Rightarrow> key_index_state \<Rightarrow> key_index_state \<times> (string \<times> nat) list option" where
  "begin_buckets env [] st = (st, Some [])"
| "begin_buckets env (bucket # buckets) st =
     (let st = rb_others env bucket st in
      if \<not> rb_reset_ok env bucket then (st, None)
      else case begin_bucket_resync st bucket of (st, generation) \<Rightarrow>
        (case begin_buckets env buckets st of (st, gens) \<Rightarrow> (st, map_option (\<lambda>gens. (bucket, generation) # gens) gens)))"

definition guard_event :: "scan_event \<Rightarrow> scan_event" where
  "guard_event ev = ev\<lparr>ev_permit := Some (ev_permit ev \<noteq> Some False)\<rparr>"

definition sync_bucket_generation_guarded ::
  "rebuild_env \<Rightarrow> string \<Rightarrow> nat \<Rightarrow> key_index_state \<Rightarrow> key_index_state \<times> (scan_error + nat) option" where
  "sync_bucket_generation_guarded env bucket generation st =
     sync_bucket_generation (rb_layout env) (rb_parse env) (rb_ask env bucket) (rb_scan env) bucket generation
       (Some (rb_finish_ok env bucket)) (map guard_event (rb_events env bucket)) st"

fun scan_buckets :: "rebuild_env \<Rightarrow> (string \<times> nat) list \<Rightarrow> key_index_state \<Rightarrow> key_index_state \<times> rebuild_result" where
  "scan_buckets env [] st = (st, Rebuilt)"
| "scan_buckets env ((bucket, generation) # gens) st =
     (case sync_bucket_generation_guarded env bucket generation st of
        (st, Some (Inr _)) \<Rightarrow> scan_buckets env gens st
      | (st, Some (Inl _)) \<Rightarrow> (st, RebuildFailed)
      | (st, None) \<Rightarrow> (st, RebuildRunning))"

definition rebuild_origin :: "rebuild_env \<Rightarrow> string list \<Rightarrow> key_index_state \<Rightarrow> key_index_state \<times> rebuild_result" where
  "rebuild_origin env configured st = (case rebuild_universe st configured of
       None \<Rightarrow> (st, RebuildFailed)
     | Some buckets \<Rightarrow> (case begin_buckets env buckets st of
           (st, None) \<Rightarrow> (st, RebuildFailed)
         | (st, Some gens) \<Rightarrow> scan_buckets env gens st))"

text \<open>Distrusting the cached bodies under the permit: the generation a copy must carry moves on.\<close>

definition recovery_invalidate :: "bool \<Rightarrow> bool \<Rightarrow> nat \<Rightarrow> nat \<times> bool" where
  "recovery_invalidate distrust_bodies permit suspect_gen =
     (if \<not> permit then (suspect_gen, False)
      else (if distrust_bodies then wrapping_add64 suspect_gen 1 else suspect_gen, True))"

section \<open>A rebuild touches its bucket only\<close>

text \<open>All that other tasks do to the index while the scans, or the whole rebuild, run.\<close>

definition scan_others :: "rebuild_env \<Rightarrow> string set \<Rightarrow> (key_index_state \<Rightarrow> key_index_state) set" where
  "scan_others env buckets = (\<Union>b \<in> buckets. ev_others ` set (rb_events env b))"

definition rebuild_others :: "rebuild_env \<Rightarrow> string set \<Rightarrow> (key_index_state \<Rightarrow> key_index_state) set" where
  "rebuild_others env buckets = rb_others env ` buckets \<union> scan_others env buckets"

lemma others_keep_Un [simp]: "others_keep f (A \<union> B) \<longleftrightarrow> others_keep f A \<and> others_keep f B"
  by (auto simp: others_keep_def)

lemma others_keep_insert [simp]: "others_keep f (insert act A) \<longleftrightarrow> (\<forall>st. f (act st) = f st) \<and> others_keep f A"
  by (simp add: others_keep_def)

lemma others_keep_empty [simp]: "others_keep f {}"
  by (simp add: others_keep_def)

lemma scan_others_insert [simp]: "scan_others env (insert b B) = ev_others ` set (rb_events env b) \<union> scan_others env B"
  by (simp add: scan_others_def)

lemma guard_others [simp]: "ev_others (guard_event ev) = ev_others ev"
  by (simp add: guard_event_def)

lemma guard_events_others [simp]: "ev_others ` guard_event ` E = ev_others ` E"
  by (simp add: image_image)

lemma others_keep_entry: "others_keep (\<lambda>st. bucket_entry st n) A \<Longrightarrow> others_keep (\<lambda>st. h (bucket_entry st n)) A"
  by (simp add: others_keep_def)

lemma listing_other:
  "n \<noteq> bucket \<Longrightarrow> bucket_entry (fst (sync_listing_into_generation lay st bucket generation listed)) n = bucket_entry st n"
  by (auto simp: sync_listing_into_generation_def Let_def case_prod_beta)

text \<open>What other tasks keep of another bucket, a bucket's scan keeps.\<close>

lemma guarded_other:
  assumes "n \<noteq> bucket" "others_keep (\<lambda>st. h (bucket_entry st n)) (ev_others ` set (rb_events env bucket))"
    and "sync_bucket_generation_guarded env bucket generation st = (st', r)"
  shows "h (bucket_entry st' n) = h (bucket_entry st n)"
proof -
  have fin: "h (bucket_entry (fst (sync_result bucket generation permit run)) n) = h (bucket_entry (sy_index run) n)" for permit run
    using assms(1) by (auto simp: sync_result_def finish_bucket_sync_generation_def Let_def split: option.split)
  have "h (bucket_entry (sy_index (fold (sync_event lay pe bucket generation) (map guard_event (rb_events env bucket)) run)) n)
      = h (bucket_entry (sy_index run) n)" for lay pe run
    by (rule sync_events_keep [of "\<lambda>st. h (bucket_entry st n)"]) (use assms(2) in \<open>simp_all add: listing_other [OF assms(1)]\<close>)
  then show ?thesis
    using arg_cong [OF assms(3), of fst] unfolding sync_bucket_generation_guarded_def sync_bucket_generation_def Let_def
    by (metis fin fst_conv sync_run.select_convs(1) sync_start_def)
qed

lemma begin_other: "n \<noteq> bucket \<Longrightarrow> begin_bucket_resync st bucket = (st', generation) \<Longrightarrow> bucket_entry st' n = bucket_entry st n"
  by (auto simp: begin_bucket_resync_def Let_def)

lemma begin_buckets_other:
  assumes "begin_buckets env buckets st = (st', r)" "n \<notin> set buckets" "others_keep (\<lambda>st. h (bucket_entry st n)) (rb_others env ` set buckets)"
  shows "h (bucket_entry st' n) = h (bucket_entry st n)"
  using assms
proof (induction buckets arbitrary: st r)
  case (Cons bucket buckets)
  obtain st1 g1 where one: "begin_bucket_resync (rb_others env bucket st) bucket = (st1, g1)"
    by force
  have "h (bucket_entry st1 n) = h (bucket_entry st n)" "h (bucket_entry (rb_others env bucket st) n) = h (bucket_entry st n)"
    using begin_other [OF _ one, of n] Cons.prems(2,3) by auto
  then show ?case
    using Cons.IH [of st1] Cons.prems one by (auto simp: Let_def split: if_splits prod.splits)
qed simp

lemma begin_buckets_names: "begin_buckets env buckets st = (st', Some gens) \<Longrightarrow> map fst gens = buckets"
proof (induction buckets arbitrary: st gens)
  case (Cons bucket buckets)
  then show ?case
    by (auto simp: Let_def split: if_splits prod.splits)
qed simp

text \<open>The resets of a run that other tasks do not disturb leave every bucket as its own reset left it.\<close>

lemma begin_buckets_entries:
  assumes "begin_buckets env buckets st = (st', Some gens)" "distinct buckets"
    and "\<And>b. b \<in> set buckets \<Longrightarrow> others_keep (\<lambda>st. bucket_entry st b) (rb_others env ` set buckets)"
  shows "\<forall>(b, g) \<in> set gens. bucket_entry st' b = bucket_reset (bucket_entry st b) True
        \<and> g = bs_sync_generation (bucket_reset (bucket_entry st b) True)"
  using assms
proof (induction buckets arbitrary: st gens)
  case (Cons bucket buckets)
  obtain st1 g1 where one: "begin_bucket_resync (rb_others env bucket st) bucket = (st1, g1)"
    by force
  obtain gens1 where rest: "begin_buckets env buckets st1 = (st', Some gens1)" "gens = (bucket, g1) # gens1"
    using Cons.prems(1) one by (auto simp: Let_def split: if_splits prod.splits)
  have same: "bucket_entry (rb_others env bucket st) b = bucket_entry st b" if "b \<in> set (bucket # buckets)" for b
    using Cons.prems(3) [OF that] by simp
  have e1: "bucket_entry st1 bucket = bucket_reset (bucket_entry st bucket) True"
      "g1 = bs_sync_generation (bucket_reset (bucket_entry st bucket) True)"
    using one same [of bucket] by (auto simp: begin_bucket_resync_def Let_def)
  have other: "bucket_entry st1 b = bucket_entry st b" if "b \<in> set buckets" for b
    using begin_other [OF _ one, of b] same [of b] that Cons.prems(2) by auto
  have "bucket_entry st' bucket = bucket_entry st1 bucket"
    using begin_buckets_other [OF rest(1), of bucket "\<lambda>x. x"] Cons.prems(2,3) by simp
  moreover have "\<forall>(b, g) \<in> set gens1. bucket_entry st' b = bucket_reset (bucket_entry st1 b) True
      \<and> g = bs_sync_generation (bucket_reset (bucket_entry st1 b) True)"
    using Cons.IH [OF rest(1)] Cons.prems(2,3) by simp
  moreover have "b \<in> set buckets" if "(b, g) \<in> set gens1" for b g
    using that begin_buckets_names [OF rest(1)] by force
  ultimately show ?case
    using e1 other by (auto simp: rest(2))
qed simp

section \<open>Publication\<close>

lemma reset_unsynced: "\<not> bs_synced (bucket_reset b r)"
  by (simp add: bucket_reset_def Let_def bucket_default_def)

lemma begin_unsynced: "begin_bucket_resync st bucket = (st', generation) \<Longrightarrow> \<not> bs_synced (bucket_entry st' bucket)"
  by (auto simp: begin_bucket_resync_def Let_def reset_unsynced)

lemma begin_buckets_unsynced:
  assumes "begin_buckets env buckets st = (st', Some gens)" "distinct buckets" "b \<in> set buckets"
    and "others_keep (\<lambda>st. bs_synced (bucket_entry st b)) (rb_others env ` set buckets)"
  shows "\<not> bs_synced (bucket_entry st' b)"
  using assms
proof (induction buckets arbitrary: st gens)
  case (Cons bucket buckets)
  obtain st1 g1 where one: "begin_bucket_resync (rb_others env bucket st) bucket = (st1, g1)"
    by force
  obtain gens1 where rest: "begin_buckets env buckets st1 = (st', Some gens1)"
    using Cons.prems(1) one by (auto simp: Let_def split: if_splits prod.splits)
  show ?case
  proof (cases "b = bucket")
    case True
    then show ?thesis
      using begin_buckets_other [OF rest, of b bs_synced] begin_unsynced [OF one] Cons.prems(2,4) by simp
  next
    case False
    then show ?thesis
      using Cons.IH [OF rest] Cons.prems(2-4) by simp
  qed
qed simp

lemma scan_buckets_other:
  assumes "scan_buckets env gens st = (st', r)" "n \<notin> fst ` set gens"
    and "others_keep (\<lambda>st. h (bucket_entry st n)) (scan_others env (fst ` set gens))"
  shows "h (bucket_entry st' n) = h (bucket_entry st n)"
  using assms
proof (induction env gens st rule: scan_buckets.induct)
  case (2 env bucket generation gens st)
  obtain st1 r1 where one: "sync_bucket_generation_guarded env bucket generation st = (st1, r1)"
    by force
  have "h (bucket_entry st1 n) = h (bucket_entry st n)"
    using guarded_other [OF _ _ one, of n h] "2.prems"(2,3) by auto
  then show ?case
    using "2.IH" [OF one [symmetric]] "2.prems" by (auto simp: one split: option.splits sum.splits)
qed simp

lemma scan_buckets_published:
  assumes "scan_buckets env gens st = (st', r)" "distinct (map fst gens)" "\<forall>b \<in> fst ` set gens. \<not> bs_synced (bucket_entry st b)"
    and "\<forall>b \<in> fst ` set gens. others_keep (\<lambda>st. bs_synced (bucket_entry st b)) (scan_others env (fst ` set gens))"
  shows "r = Rebuilt \<longleftrightarrow> (\<forall>b \<in> fst ` set gens. bs_synced (bucket_entry st' b))"
  using assms
proof (induction env gens st rule: scan_buckets.induct)
  case (2 env bucket generation gens st)
  obtain st1 r1 where one: "sync_bucket_generation_guarded env bucket generation st = (st1, r1)"
    by force
  have pub: "bs_synced (bucket_entry st1 bucket) \<longleftrightarrow> (\<exists>found. r1 = Some (Inr found))"
    using one "2.prems"(3,4) by (intro generation_published) (simp_all add: sync_bucket_generation_guarded_def)
  show ?case
  proof (cases "\<exists>found. r1 = Some (Inr found)")
    case True
    then have rest: "scan_buckets env gens st1 = (st', r)"
      using "2.prems"(1) one by auto
    have "\<forall>b \<in> fst ` set gens. \<not> bs_synced (bucket_entry st1 b)"
    proof
      fix b assume b: "b \<in> fst ` set gens"
      then have "b \<noteq> bucket"
        using "2.prems"(2) by auto
      then show "\<not> bs_synced (bucket_entry st1 b)"
        using guarded_other [OF _ _ one, of b bs_synced] "2.prems"(3,4) b by auto
    qed
    then have "r = Rebuilt \<longleftrightarrow> (\<forall>b \<in> fst ` set gens. bs_synced (bucket_entry st' b))"
      using "2.IH" [OF one [symmetric]] True rest "2.prems"(2,4) by auto
    moreover have "bs_synced (bucket_entry st' bucket)"
      using scan_buckets_other [OF rest, of bucket bs_synced] "2.prems"(2,4) pub True by simp
    ultimately show ?thesis
      by simp
  next
    case False
    then have "st' = st1" "r \<noteq> Rebuilt"
      using "2.prems"(1) one by (auto split: option.splits sum.splits)
    then show ?thesis
      using pub False by simp
  qed
qed simp

lemma begin_buckets_granted:
  "(\<exists>gens. snd (begin_buckets env buckets st) = Some gens) \<longleftrightarrow> (\<forall>b \<in> set buckets. rb_reset_ok env b)"
proof (induction buckets arbitrary: st)
  case (Cons bucket buckets)
  obtain st1 g1 where "begin_bucket_resync (rb_others env bucket st) bucket = (st1, g1)"
    by force
  then show ?case
    using Cons.IH [of st1] by (auto simp: Let_def split: prod.split)
qed simp

lemma universe_distinct: "rebuild_universe st configured = Some buckets \<Longrightarrow> distinct buckets"
  by (auto simp: rebuild_universe_def split: if_splits)

lemma universe_set: "rebuild_universe st configured = Some buckets \<Longrightarrow> set buckets = set configured \<union> fst ` set (ki_buckets st)"
  by (simp add: rebuild_universe_def split: if_splits) (metis list.set_map set_append set_remdups set_sort)

lemma rebuild_published:
  assumes "begin_buckets env buckets st = (st0, Some gens)" "scan_buckets env gens st0 = (st', r)" "distinct buckets"
    and "\<And>b. b \<in> set buckets \<Longrightarrow> others_keep (\<lambda>st. bs_synced (bucket_entry st b)) (rebuild_others env (set buckets))"
  shows "r = Rebuilt \<longleftrightarrow> (\<forall>b \<in> set buckets. bs_synced (bucket_entry st' b))"
proof -
  have names: "map fst gens = buckets"
    by (rule begin_buckets_names [OF assms(1)])
  then have "fst ` set gens = set buckets"
    by (metis list.set_map)
  then show ?thesis
    using scan_buckets_published [OF assms(2)] begin_buckets_unsynced [OF assms(1,3)] names assms(3,4)
    by (simp add: rebuild_others_def)
qed

text \<open>C14: A recovery publishes all or falls back to the origin. Whatever the origin answers and whenever the permit is
  withdrawn, the rebuild reports success exactly when the permit allowed every reset and every bucket of the run, configured or
  indexed before, answers locally afterwards: a bucket whose scan failed, was superseded or is still running is served by the
  origin. Other tasks may change the index before every reset and every page, as long as none of them publishes or resets a bucket of
  the run meanwhile. Buckets outside the run that no other task changes are untouched, and a run over the bound changes nothing.\<close>

theorem recovery_all_or_origin:
  assumes "rebuild_universe st configured = Some buckets" "rebuild_origin env configured st = (st', r)"
    and "\<And>b. b \<in> set buckets \<Longrightarrow> others_keep (\<lambda>st. bs_synced (bucket_entry st b)) (rebuild_others env (set buckets))"
  shows "(r = Rebuilt \<longleftrightarrow> (\<forall>b \<in> set buckets. rb_reset_ok env b) \<and> (\<forall>b \<in> set buckets. bs_synced (bucket_entry st' b)))
    \<and> (\<forall>n. n \<notin> set configured \<union> fst ` set (ki_buckets st) \<longrightarrow>
         others_keep (\<lambda>st. bucket_entry st n) (rebuild_others env (set buckets)) \<longrightarrow> bucket_entry st' n = bucket_entry st n)
    \<and> (length (ki_buckets st2) + length configured2 > MAX_RECOVERY_BUCKETS \<longrightarrow> rebuild_origin env configured2 st2 = (st2, RebuildFailed))"
proof -
  obtain st0 gs where reset: "begin_buckets env buckets st = (st0, gs)"
    by force
  note distinct = universe_distinct [OF assms(1)]
  have granted: "(\<exists>gens. gs = Some gens) \<longleftrightarrow> (\<forall>b \<in> set buckets. rb_reset_ok env b)"
    using begin_buckets_granted [of env buckets st] by (simp add: reset)
  have "(r = Rebuilt \<longleftrightarrow> (\<forall>b \<in> set buckets. rb_reset_ok env b) \<and> (\<forall>b \<in> set buckets. bs_synced (bucket_entry st' b)))
      \<and> (\<forall>n. n \<notin> set buckets \<longrightarrow> others_keep (\<lambda>st. bucket_entry st n) (rebuild_others env (set buckets)) \<longrightarrow> bucket_entry st' n = bucket_entry st n)"
  proof (cases gs)
    case None
    then have "st' = st0" "r = RebuildFailed"
      using assms(1,2) reset by (auto simp: rebuild_origin_def)
    then show ?thesis
      using granted None begin_buckets_other [OF reset, of _ "\<lambda>x. x"] by (auto simp: rebuild_others_def)
  next
    case (Some gens)
    have scan: "scan_buckets env gens st0 = (st', r)"
      using assms(1,2) reset Some by (simp add: rebuild_origin_def)
    have "fst ` set gens = set buckets"
      using begin_buckets_names [OF reset [unfolded Some]] by (metis list.set_map)
    then have "bucket_entry st' n = bucket_entry st n"
      if "n \<notin> set buckets" "others_keep (\<lambda>st. bucket_entry st n) (rebuild_others env (set buckets))" for n
      using scan_buckets_other [OF scan, of n "\<lambda>x. x"] begin_buckets_other [OF reset, of n "\<lambda>x. x"] that
      by (simp add: rebuild_others_def)
    then show ?thesis
      using rebuild_published [OF reset [unfolded Some] scan distinct assms(3)] granted Some by blast
  qed
  moreover have "rebuild_origin env configured2 st2 = (st2, RebuildFailed)"
    if "length (ki_buckets st2) + length configured2 > MAX_RECOVERY_BUCKETS"
    using that by (simp add: rebuild_origin_def rebuild_universe_def saturating_add64_def MAX_RECOVERY_BUCKETS_def u64_max_def)
  ultimately show ?thesis
    using universe_set [OF assms(1)] by blast
qed

section \<open>What an honest origin gives\<close>

fun honest_scans ::
  "rebuild_env \<Rightarrow> (string \<Rightarrow> (string, aws_object) omap) \<Rightarrow> (string \<Rightarrow> string \<Rightarrow> string option) \<Rightarrow> (string \<times> nat) list
   \<Rightarrow> key_index_state \<Rightarrow> bool" where
  "honest_scans env objs cursor_of [] st = True"
| "honest_scans env objs cursor_of ((bucket, generation) # gens) st =
     (honest_events (rb_layout env) (rb_parse env) bucket generation (objs bucket) (cursor_of bucket)
        (map guard_event (rb_events env bucket))
        (sync_start st (discover_boundaries (rb_ask env bucket) (scan_bounded (rb_scan env))))
      \<and> honest_scans env objs cursor_of gens (fst (sync_bucket_generation_guarded env bucket generation st)))"

definition honest_rebuild ::
  "rebuild_env \<Rightarrow> (string \<Rightarrow> (string, aws_object) omap) \<Rightarrow> (string \<Rightarrow> string \<Rightarrow> string option) \<Rightarrow> string list
   \<Rightarrow> key_index_state \<Rightarrow> bool" where
  "honest_rebuild env objs cursor_of configured st = (case rebuild_universe st configured of
       None \<Rightarrow> True
     | Some buckets \<Rightarrow> (case begin_buckets env buckets st of
           (_, None) \<Rightarrow> True
         | (st, Some gens) \<Rightarrow> honest_scans env objs cursor_of gens st))"

definition scannable :: "key_index_state \<Rightarrow> string \<times> nat \<Rightarrow> bool" where
  "scannable st x \<longleftrightarrow> owns_rebuild (bucket_entry st (fst x)) (snd x) \<and> clean_bucket (bucket_entry st (fst x))
     \<and> (\<forall>k. live st (fst x) k = None)"

lemma scannable_same: "bucket_entry st' (fst x) = bucket_entry st (fst x) \<Longrightarrow> scannable st' x = scannable st x"
  by (simp add: scannable_def live_def)

lemma scan_buckets_snapshot:
  assumes "scan_buckets env gens st = (st', Rebuilt)" "distinct (map fst gens)" "\<forall>x \<in> set gens. scannable st x"
    and "\<And>b. origin_ok (objs b)" "honest_scans env objs cursor_of gens st"
    and "\<forall>b \<in> fst ` set gens. others_keep (\<lambda>st. bucket_entry st b) (scan_others env (fst ` set gens))"
  shows "\<forall>b \<in> fst ` set gens. bs_synced (bucket_entry st' b) \<and> (\<forall>k. live st' b k = snapshot (rb_parse env) (objs b) k)"
  using assms(1-3,5,6)
proof (induction env gens st rule: scan_buckets.induct)
  case (2 env bucket generation gens st)
  obtain st1 found where one: "sync_bucket_generation_guarded env bucket generation st = (st1, Some (Inr found))"
    and rest: "scan_buckets env gens st1 = (st', Rebuilt)"
    using "2.prems"(1) by (auto split: prod.splits option.splits sum.splits)
  have first: "bs_synced (bucket_entry st1 bucket) \<and> (\<forall>k. live st1 bucket k = snapshot (rb_parse env) (objs bucket) k)"
    using "2.prems"(3,4,5) one
    by (intro sync_generation_rebuilds [OF _ _ _ assms(4)]) (auto simp: scannable_def sync_bucket_generation_guarded_def)
  have "scannable st1 x" if x: "x \<in> set gens" for x
  proof -
    have "fst x \<noteq> bucket"
      using x "2.prems"(2) by auto
    then have "bucket_entry st1 (fst x) = bucket_entry st (fst x)"
      using guarded_other [OF _ _ one, of "fst x" "\<lambda>b. b"] "2.prems"(5) x by auto
    then show ?thesis
      using "2.prems"(3) x scannable_same [of st1 x st] by simp
  qed
  then have "\<forall>b \<in> fst ` set gens. bs_synced (bucket_entry st' b) \<and> (\<forall>k. live st' b k = snapshot (rb_parse env) (objs b) k)"
    using "2.IH" [OF one [symmetric] refl refl] rest "2.prems"(2,4,5) one by simp
  moreover have "bucket_entry st' bucket = bucket_entry st1 bucket"
    using scan_buckets_other [OF rest, of bucket "\<lambda>b. b"] "2.prems"(2,5) by simp
  ultimately show ?case
    using first by (simp add: live_def)
qed simp

text \<open>C13: A recovery rebuilds the origin's buckets. Suppose the origin answers every LIST honestly from one snapshot of each
  bucket, no key is fenced when the rebuild starts, and the tasks that run between its resets and pages leave the buckets of the
  run alone (they may change others). Then a rebuild that reports success leaves every configured bucket, and every
  bucket indexed before, synced, with a row for exactly the keys of its snapshot, as the LIST described them.\<close>

theorem recovery_rebuilds_snapshot:
  assumes "rebuild_origin env configured st = (st', Rebuilt)" "\<And>b k. fence_of st b k = None"
    and "\<And>b. origin_ok (objs b)" "honest_rebuild env objs cursor_of configured st"
    and "\<And>b. b \<in> set configured \<union> fst ` set (ki_buckets st) \<Longrightarrow>
           others_keep (\<lambda>st. bucket_entry st b) (rebuild_others env (set configured \<union> fst ` set (ki_buckets st)))"
    and "bucket \<in> set configured \<union> fst ` set (ki_buckets st)"
  shows "bs_synced (bucket_entry st' bucket) \<and> (\<forall>k. live st' bucket k = snapshot (rb_parse env) (objs bucket) k)"
proof -
  obtain buckets st0 gens where run: "rebuild_universe st configured = Some buckets"
      "begin_buckets env buckets st = (st0, Some gens)" "scan_buckets env gens st0 = (st', Rebuilt)"
    using assms(1) by (auto simp: rebuild_origin_def split: option.splits prod.splits)
  note distinct = universe_distinct [OF run(1)] and universe = universe_set [OF run(1)] and names = begin_buckets_names [OF run(2)]
  have set_gens: "fst ` set gens = set buckets"
    using names by (metis list.set_map)
  have others: "others_keep (\<lambda>st. bucket_entry st b) (rb_others env ` set buckets)"
      "others_keep (\<lambda>st. bucket_entry st b) (scan_others env (set buckets))" if "b \<in> set buckets" for b
    using assms(5) [of b] that by (simp_all only: universe [symmetric] rebuild_others_def others_keep_Un)
  note entries = begin_buckets_entries [OF run(2) distinct others(1)]
  have unc: "bs_uncertain_keys (bucket_entry st b) = []" for b
    using assms(2) [of b "fst (hd (bs_uncertain_keys (bucket_entry st b)))"]
    by (cases "bs_uncertain_keys (bucket_entry st b)") (auto simp: fence_of_def)
  have "scannable st0 x" if "x \<in> set gens" for x
  proof -
    have "bucket_entry st0 (fst x) = bucket_reset (bucket_entry st (fst x)) True"
        "snd x = bs_sync_generation (bucket_reset (bucket_entry st (fst x)) True)"
      using entries that by auto
    then show ?thesis
      by (simp add: scannable_def unc owns_rebuild_def clean_bucket_def live_def bucket_reset_def Let_def bucket_default_def
          gone_rows_default_def kr_get_def key_rows_default_def)
  qed
  moreover have "honest_scans env objs cursor_of gens st0"
    using assms(4) run(1,2) by (simp add: honest_rebuild_def)
  ultimately have "\<forall>b \<in> set buckets. bs_synced (bucket_entry st' b) \<and> (\<forall>k. live st' b k = snapshot (rb_parse env) (objs b) k)"
    using scan_buckets_snapshot [OF run(3) _ _ assms(3), where cursor_of = cursor_of] distinct others(2) by (simp add: names set_gens)
  then show ?thesis
    using assms(6) universe by blast
qed

text \<open>One configured bucket over an empty index, read from an origin with two objects in one page, while another task
  starts to rebuild a bucket of its own.\<close>

definition recovery_neighbour :: "key_index_state \<Rightarrow> key_index_state" where
  "recovery_neighbour st = fst (begin_bucket_resync st ''z'')"

definition recovery_example :: "layout \<Rightarrow> (string \<Rightarrow> etag option) \<Rightarrow> discovery_ask \<Rightarrow> rebuild_env" where
  "recovery_example lay pe ask = \<lparr>rb_layout = lay, rb_parse = pe, rb_ask = (\<lambda>_. ask), rb_scan = scan_serial,
     rb_others = (\<lambda>_. recovery_neighbour), rb_reset_ok = (\<lambda>_. True), rb_events = (\<lambda>_. scan_events), rb_finish_ok = (\<lambda>_. True)\<rparr>"

lemma recovery_example_universe: "rebuild_universe key_index_default [''b''] = Some [''b'']"
  by (simp add: rebuild_universe_def key_index_default_def MAX_RECOVERY_BUCKETS_def saturating_add64_def u64_max_def)

lemma scan_page_granted: "scan_page lay pe now (Some True) = scan_page lay pe now None"
  by (simp add: fun_eq_iff scan_page_def split: sum.split)

lemma neighbour_keeps: "n \<noteq> ''z'' \<Longrightarrow> bucket_entry (recovery_neighbour st) n = bucket_entry st n"
  using begin_other [of n "''z''" st] by (cases "begin_bucket_resync st ''z''") (simp add: recovery_neighbour_def)

lemma recovery_example_others:
  "n \<noteq> ''z'' \<Longrightarrow> others_keep (\<lambda>st. bucket_entry st n) (rebuild_others (recovery_example lay pe ask) B)"
  by (auto simp: others_keep_def rebuild_others_def scan_others_def recovery_example_def scan_events_def neighbour_keeps)

lemma recovery_example_run:
  "\<exists>st'. rebuild_origin (recovery_example lay pe ask) [''b''] key_index_default = (st', Rebuilt)"
proof -
  obtain st0 g where b: "begin_bucket_resync (recovery_neighbour key_index_default) ''b'' = (st0, g)"
    by force
  obtain st1 rs1 where "scan_page lay pe 0 None st0 ''b'' g \<lparr>rg_lower = None, rg_upper = None\<rparr> range_start scan_reply
      = (st1, Inr (rs1, True))" "owns_rebuild (bucket_entry st1 ''b'') g"
    using scan_example_page [OF begin_owns [OF b]] by blast
  then show ?thesis
    by (simp add: rebuild_origin_def recovery_example_universe recovery_example_def b)
      (simp add: sync_bucket_generation_guarded_def sync_bucket_generation_def Let_def scan_plan scan_events_def
        guard_event_def sync_start_def ranges_def sync_event_def page_event_def scan_page_granted sync_result_def finish_bucket_sync_generation_def)
qed

lemma recovery_example_honest:
  "honest_rebuild (recovery_example lay pe ask) (\<lambda>_. scan_objs) (\<lambda>_ _. None) [''b''] key_index_default"
proof -
  obtain st0 g where b: "begin_bucket_resync (recovery_neighbour key_index_default) ''b'' = (st0, g)"
    by force
  show ?thesis
    using scan_reply_honest
    by (simp add: honest_rebuild_def recovery_example_universe recovery_example_def b)
      (auto simp: scan_plan scan_events_def guard_event_def sync_start_def ranges_def request_cursor_def range_start_def)
qed

lemma recovery_rebuilds_snapshot_witness:
  "\<forall>lay pe ask. \<exists>st'. rebuild_origin (recovery_example lay pe ask) [''b''] key_index_default = (st', Rebuilt)
     \<and> bs_synced (bucket_entry st' ''b'') \<and> live st' ''b'' ''a'' = snapshot pe scan_objs ''a'' \<and> snapshot pe scan_objs ''a'' \<noteq> None"
proof (intro allI)
  fix lay pe ask
  obtain st' where run: "rebuild_origin (recovery_example lay pe ask) [''b''] key_index_default = (st', Rebuilt)"
    using recovery_example_run by blast
  have "fence_of key_index_default b k = None" for b k
    by (simp add: fence_of_def key_index_default_def bucket_entry_def bucket_get_def bucket_default_def)
  then have "bs_synced (bucket_entry st' ''b'') \<and> (\<forall>k. live st' ''b'' k = snapshot (rb_parse (recovery_example lay pe ask)) scan_objs k)"
    by (rule recovery_rebuilds_snapshot [OF run _ scan_objs_ok recovery_example_honest recovery_example_others])
      (simp_all add: key_index_default_def)
  then show "\<exists>st'. rebuild_origin (recovery_example lay pe ask) [''b''] key_index_default = (st', Rebuilt)
     \<and> bs_synced (bucket_entry st' ''b'') \<and> live st' ''b'' ''a'' = snapshot pe scan_objs ''a'' \<and> snapshot pe scan_objs ''a'' \<noteq> None"
    using run by (auto simp: recovery_example_def snapshot_def scan_objs_def)
qed

lemma recovery_all_or_origin_witness:
  "\<forall>lay pe ask. \<exists>st'. rebuild_origin (recovery_example lay pe ask) [''b''] key_index_default = (st', Rebuilt)
     \<and> bs_synced (bucket_entry st' ''b'') \<and> bucket_entry st' ''c'' = bucket_entry key_index_default ''c''"
proof (intro allI)
  fix lay pe ask
  obtain st' where run: "rebuild_origin (recovery_example lay pe ask) [''b''] key_index_default = (st', Rebuilt)"
    using recovery_example_run by blast
  have synced: "others_keep (\<lambda>st. bs_synced (bucket_entry st b)) (rebuild_others (recovery_example lay pe ask) (set [''b'']))"
    if "b \<in> set [''b'']" for b
    by (rule others_keep_entry, rule recovery_example_others) (use that in simp)
  show "\<exists>st'. rebuild_origin (recovery_example lay pe ask) [''b''] key_index_default = (st', Rebuilt)
     \<and> bs_synced (bucket_entry st' ''b'') \<and> bucket_entry st' ''c'' = bucket_entry key_index_default ''c''"
    using run recovery_all_or_origin [OF recovery_example_universe run synced] recovery_example_others [of "''c''"]
    by (simp add: key_index_default_def)
qed

section \<open>What the recovery is told of its peers\<close>

lemma those_None: "those xs = None \<longleftrightarrow> None \<in> set xs"
  by (induction xs) (auto split: option.splits)

lemma those_Some: "those xs = Some ys \<longleftrightarrow> xs = map Some ys"
proof (induction xs arbitrary: ys)
  case (Cons x xs)
  then show ?case
    by (cases ys) (auto split: option.splits)
qed auto

lemma observe_peer_None: "observe_peer g s cap_lease lease x = None \<longleftrightarrow> gv_head g (fst x) = None"
  by (cases x) (simp add: observe_peer_def Let_def split: bind_split)

lemma those_observed_None:
  "those (map (observe_peer g s cap_lease lease) xs) = None \<longleftrightarrow> (\<exists>x \<in> set xs. gv_head g (fst x) = None)"
  by (simp add: those_None image_iff eq_commute [of None] observe_peer_None)

lemma observe_peer_Some:
  "observe_peer g s cap_lease lease x = Some p \<Longrightarrow> pf_node p = fst x \<and> gv_head g (fst x) = Some (pf_head p)
     \<and> (pf_alive p \<longleftrightarrow> fst (snd x) = Alive) \<and> (pf_old_nonlive p \<longrightarrow> \<not> pf_alive p \<and> 25000000 \<le> snd (snd x) \<and> lease div 4 \<le> snd (snd x))
     \<and> (pf_grant p \<noteq> None \<longrightarrow> pf_grants_lease p)
     \<and> pf_sealed p = cr_sealed (crossing_of s (fst x)) \<and> pf_renewal p = cr_renewal (crossing_of s (fst x))"
  by (cases x) (auto simp: observe_peer_def Let_def bind_eq_Some_conv)

text \<open>C21: The recovery is told nothing rather than a guess. The observation fails exactly when the roster does not fit
  the bound or some other member's advertised head is present and malformed; otherwise it reports every other member
  once, in the order of the roster, with its head as advertised. A member is reported as gone for long only when it is
  not alive and has been so for a quarter of the lease and at least 25 ms.\<close>

theorem observe_fails_closed:
  "(observe_group g s cap_lease me lease max_members max_member_bytes = None \<longleftrightarrow>
      u64_max < max_members + 1 \<or> gv_held g (max_members + 1) max_member_bytes = None
      \<or> (\<exists>members x. gv_held g (max_members + 1) max_member_bytes = Some members \<and> x \<in> set members \<and> fst x \<noteq> me \<and> gv_head g (fst x) = None))
   \<and> (\<forall>peers confirmed. observe_group g s cap_lease me lease max_members max_member_bytes = Some (peers, confirmed) \<longrightarrow>
        (\<exists>members. gv_held g (max_members + 1) max_member_bytes = Some members
          \<and> list_all2 (\<lambda>x p. pf_node p = fst x \<and> gv_head g (fst x) = Some (pf_head p) \<and> (pf_alive p \<longleftrightarrow> fst (snd x) = Alive)
              \<and> (pf_old_nonlive p \<longrightarrow> \<not> pf_alive p \<and> 25000000 \<le> snd (snd x) \<and> lease div 4 \<le> snd (snd x)))
            (filter (\<lambda>x. fst x \<noteq> me) members) peers))"
proof -
  have names: "(\<lambda>(node, _). node \<noteq> me) = (\<lambda>x :: string \<times> status \<times> nat. fst x \<noteq> me)"
    by (simp add: fun_eq_iff)
  have "observe_group g s cap_lease me lease max_members max_member_bytes = None \<longleftrightarrow>
      u64_max < max_members + 1 \<or> gv_held g (max_members + 1) max_member_bytes = None
      \<or> (\<exists>members x. gv_held g (max_members + 1) max_member_bytes = Some members \<and> x \<in> set members \<and> fst x \<noteq> me \<and> gv_head g (fst x) = None)"
  proof (cases "gv_held g (max_members + 1) max_member_bytes")
    case (Some members)
    then show ?thesis
      unfolding observe_group_def names by (auto simp: checked_add64_def bind_eq_None_conv those_observed_None)
  qed (auto simp: observe_group_def checked_add64_def bind_eq_None_conv)
  moreover have "list_all2 (\<lambda>x p. pf_node p = fst x \<and> gv_head g (fst x) = Some (pf_head p) \<and> (pf_alive p \<longleftrightarrow> fst (snd x) = Alive)
        \<and> (pf_old_nonlive p \<longrightarrow> \<not> pf_alive p \<and> 25000000 \<le> snd (snd x) \<and> lease div 4 \<le> snd (snd x))) xs ps"
    if "map (observe_peer g s cap_lease lease) xs = map Some ps" for xs ps
    using that
  proof (induction xs arbitrary: ps)
    case (Cons x xs)
    then obtain p ps' where "ps = p # ps'" "observe_peer g s cap_lease lease x = Some p"
        "map (observe_peer g s cap_lease lease) xs = map Some ps'"
      by (cases ps) auto
    then show ?case
      using Cons.IH observe_peer_Some by fastforce
  qed simp
  moreover have "\<exists>members. gv_held g (max_members + 1) max_member_bytes = Some members
      \<and> map (observe_peer g s cap_lease lease) (filter (\<lambda>x. fst x \<noteq> me) members) = map Some peers"
    if "observe_group g s cap_lease me lease max_members max_member_bytes = Some (peers, confirmed)" for peers confirmed
    using that unfolding observe_group_def names checked_add64_def those_Some [symmetric]
    by (simp only: bind_eq_Some_conv) (auto split: if_splits)
  ultimately show ?thesis
    by meson
qed

text \<open>A roster of two: the node itself, and a peer that has been gone for a second.\<close>

definition group_example :: group_view where
  "group_example = \<lparr>gv_held = (\<lambda>_ _. Some [(''a'', Alive, 0), (''c'', Dead, 1000000000)]), gv_statuses = [], gv_head = (\<lambda>_. Some None),
     gv_caps = (\<lambda>_. {}), gv_grants = None, gv_confirmed = None, gv_granters = [], gv_anti_entropy_ms = 0\<rparr>"

definition apply_empty :: apply_state where
  "apply_empty = \<lparr>ap_index = key_index_default, ap_hot = {}, ap_crossings = [], ap_log = []\<rparr>"

lemma observe_fails_closed_witness:
  "\<exists>p. observe_group group_example apply_empty ''lease'' ''a'' 1000 256 256 = Some ([p], None) \<and> pf_node p = ''c'' \<and> \<not> pf_alive p"
proof -
  obtain peers confirmed where o: "observe_group group_example apply_empty ''lease'' ''a'' 1000 256 256 = Some (peers, confirmed)"
    using observe_fails_closed [of group_example apply_empty "''lease''" "''a''" 1000 256 256]
    by (cases "observe_group group_example apply_empty ''lease'' ''a'' 1000 256 256") (auto simp: group_example_def u64_max_def)
  then have "confirmed = None"
    by (auto simp: observe_group_def bind_eq_Some_conv lease_confirmed_def group_example_def)
  moreover have "list_all2 (\<lambda>x p. pf_node p = fst x \<and> pf_alive p = (fst (snd x) = Alive)) [(''c'', Dead, 1000000000 :: nat)] peers"
    using observe_fails_closed [of group_example apply_empty "''lease''" "''a''" 1000 256 256, THEN conjunct2] o
    by (auto simp: group_example_def elim!: list_all2_mono)
  ultimately show ?thesis
    using o by (auto simp: list_all2_Cons1)
qed

section \<open>Limits that fit each other\<close>

text \<open>A bootstrap stays inside its recovery: settling and waiting for a donor share the total, which neither the recovery's
  budget nor a minute exceeds.\<close>

lemma claim_policy_fits:
  assumes "claim_policy rc = Some c"
  shows "cl_settle_ms c + cl_donor_wait_ms c \<le> cl_total_ms c" "cl_total_ms c \<le> rc_total_ms rc" "cl_total_ms c \<le> 60000" "5000 \<le> cl_total_ms c"
  using assms by (auto simp: claim_policy_def Let_def split: if_splits)

lemma recovery_default_settles:
  assumes "prepare_recovery c lease_ms g None buckets = Some (rc, mode)"
  shows "rc_total_ms rc = max 600000 (min (2 * rc_settle_ms rc) u64_max)" "claim_policy rc \<noteq> None"
  using assms by (auto simp: prepare_recovery_def Let_def saturating_mul64_def claim_policy_def mult.commute split: if_splits)

text \<open>Every class of memory can be at its ceiling at once without the total refusing it.\<close>

lemma admission_policy_total:
  "al_max_encoded_bytes admission_policy + al_max_decoded_bytes admission_policy + al_max_suffix_bytes admission_policy
     + al_max_native_overlap_bytes admission_policy + al_max_inflight_bytes admission_policy = al_max_total_bytes admission_policy"
  by (simp add: admission_policy_def IMAGE_CAPS_def)

text \<open>Every image a donor offers fits the transfer: its size, its chunks and the memory that admits them.\<close>

lemma offer_fits_transfer:
  assumes "image_offer env st used active still d max_metadata headers metadata = Some (permit, off)"
  shows "to_encoded_bytes off \<le> tr_max_encoded_bytes transfer_policy" "to_chunks off \<le> tr_max_chunks transfer_policy"
    "to_encoded_bytes off \<le> al_max_encoded_bytes admission_policy"
proof -
  have "to_encoded_bytes off \<le> c_bytes IMAGE_CAPS" "to_chunks off = (to_encoded_bytes off + CHUNK_BYTES - 1) div CHUNK_BYTES"
    using assms by (auto simp: image_offer_def Let_def split: if_splits option.splits sum.splits prod.splits)
  moreover from this have "to_chunks off \<le> (c_bytes IMAGE_CAPS + CHUNK_BYTES - 1) div CHUNK_BYTES"
    by (simp add: div_le_mono)
  ultimately show "to_encoded_bytes off \<le> tr_max_encoded_bytes transfer_policy" "to_chunks off \<le> tr_max_chunks transfer_policy"
      "to_encoded_bytes off \<le> al_max_encoded_bytes admission_policy"
    by (simp_all add: transfer_policy_def admission_policy_def IMAGE_CAPS_def CHUNK_BYTES_def)
qed

end
