(* ===== verification/Start.thy ===== *)
theory Start
  imports Recovery Writes
begin

text \<open>
  The start of a node: the settings of the proxy, the opening of its recovery with or without the peer bootstrap
  (\<^verbatim>\<open>src/src/sync/volatile.rs\<close>, \<^verbatim>\<open>src/src/sync/volatile/fleet/runtime.rs\<close>), the start of coherence and the warm-up of a
  node without peers (\<^verbatim>\<open>src/src/cache/proxy.rs\<close>). Whether \<^verbatim>\<open>groupnet\<close> accepts a configuration, binds a socket or builds a
  worker is an answer of the environment.
\<close>

section \<open>Settings of the proxy\<close>

datatype recovery_error = InvalidConfig | NotStarted | OtherRecoveryError string

record rearm_policy =
  ra_initial_ms :: nat
  ra_max_ms :: nat

text \<open>\<open>px_sync\<close> is what the node sees of its group, if it has one.\<close>

record proxy_settings =
  px_sync :: "group_view option"
  px_index_scan :: scan_config
  px_recovery_config :: "recovery_config option"
  px_recovery_rearm :: "rearm_policy option"
  px_fleet :: "fleet_config option"

definition proxy_new :: "group_view option \<Rightarrow> nat option \<Rightarrow> proxy_settings" where
  "proxy_new sync parallelism = \<lparr>px_sync = sync, px_index_scan = scan_default parallelism, px_recovery_config = None,
     px_recovery_rearm = None, px_fleet = None\<rparr>"

definition with_index_scan :: "scan_config \<Rightarrow> proxy_settings \<Rightarrow> proxy_settings" where
  "with_index_scan config px = px\<lparr>px_index_scan := config\<rparr>"

definition with_recovery_config ::
  "(recovery_config \<Rightarrow> recovery_error option) \<Rightarrow> recovery_config \<Rightarrow> proxy_settings \<Rightarrow> recovery_error + proxy_settings" where
  "with_recovery_config validate config px = (case validate config of
       Some e \<Rightarrow> Inl e
     | None \<Rightarrow>
         if (case px_sync px of None \<Rightarrow> False | Some g \<Rightarrow> rc_settle_ms config < recovery_settle_floor_ms g) then Inl InvalidConfig
         else Inr (px\<lparr>px_recovery_config := Some config\<rparr>))"

definition with_recovery_rearm ::
  "(rearm_policy \<Rightarrow> recovery_error option) \<Rightarrow> rearm_policy \<Rightarrow> proxy_settings \<Rightarrow> recovery_error + proxy_settings" where
  "with_recovery_rearm validate policy px = (case validate policy of
       Some e \<Rightarrow> Inl e
     | None \<Rightarrow> Inr (px\<lparr>px_recovery_rearm := Some policy\<rparr>))"

definition with_fleet_config :: "fleet_config \<Rightarrow> proxy_settings \<Rightarrow> proxy_settings" where
  "with_fleet_config config px = px\<lparr>px_fleet := Some config\<rparr>"

definition RECOVERY_REARM_INITIAL_MS :: nat where
  "RECOVERY_REARM_INITIAL_MS = 5000"

definition RECOVERY_REARM_MAX_MS :: nat where
  "RECOVERY_REARM_MAX_MS = 60000"

text \<open>\<^const>\<open>None\<close> is the failed expectation that the fixed policy is valid.\<close>

definition configure_recovery_rearm ::
  "(rearm_policy \<Rightarrow> recovery_error option) \<Rightarrow> bool \<Rightarrow> proxy_settings \<Rightarrow> proxy_settings option" where
  "configure_recovery_rearm validate enabled px = (if \<not> enabled then Some px
     else case with_recovery_rearm validate \<lparr>ra_initial_ms = RECOVERY_REARM_INITIAL_MS, ra_max_ms = RECOVERY_REARM_MAX_MS\<rparr> px of
       Inl _ \<Rightarrow> None | Inr px \<Rightarrow> Some px)"

section \<open>Preparing a recovery\<close>

record recovery_inputs =
  ri_buckets :: "string list"
  ri_scan :: scan_config
  ri_config :: "recovery_config option"
  ri_rearm :: "rearm_policy option"
  ri_fleet :: "fleet_config option"

definition proxy_recovery_inputs :: "proxy_settings \<Rightarrow> string list \<Rightarrow> recovery_inputs" where
  "proxy_recovery_inputs px buckets = \<lparr>ri_buckets = buckets, ri_scan = px_index_scan px, ri_config = px_recovery_config px,
     ri_rearm = px_recovery_rearm px, ri_fleet = px_fleet px\<rparr>"

record prepared_recovery =
  pr_config :: recovery_config
  pr_mode :: recovery_mode
  pr_session :: nat
  pr_rearm :: "rearm_policy option"
  pr_fleet :: "fleet_config option"
  pr_buckets :: "string list"
  pr_scan :: scan_config

text \<open>The session is taken from the process's counter, which moves on.\<close>

definition prepared ::
  "consistency \<Rightarrow> nat option \<Rightarrow> group_view \<Rightarrow> recovery_inputs \<Rightarrow> nat \<Rightarrow> (prepared_recovery \<times> nat) option" where
  "prepared c lease_ms g ri next_session =
     Option.bind (prepare_recovery c lease_ms g (ri_config ri) (ri_buckets ri)) (\<lambda>(config, mode).
       Some (\<lparr>pr_config = config, pr_mode = mode, pr_session = next_session, pr_rearm = ri_rearm ri, pr_fleet = ri_fleet ri,
              pr_buckets = ri_buckets ri, pr_scan = ri_scan ri\<rparr>, wrapping_add64 next_session 1))"

section \<open>Opening the peer bootstrap\<close>

record bulk_limits =
  bl_max_frame_bytes :: nat
  bl_max_scope_bytes :: nat
  bl_max_node_bytes :: nat
  bl_max_payload_bytes :: nat
  bl_max_body_bytes :: nat
  bl_max_writer_bytes :: nat
  bl_max_cuts :: nat
  bl_max_members :: nat
  bl_max_events :: nat
  bl_max_identity_bytes :: nat
  bl_max_effect_bytes :: nat
  bl_server_request_ms :: nat

definition bulk_policy :: bulk_limits where
  "bulk_policy = \<lparr>bl_max_frame_bytes = 256 * 1024, bl_max_scope_bytes = 8192, bl_max_node_bytes = 256, bl_max_payload_bytes = 192 * 1024,
     bl_max_body_bytes = 128 * 1024, bl_max_writer_bytes = jcfg_max_cut_bytes JOURNAL_CONFIG, bl_max_cuts = jcfg_max_cuts JOURNAL_CONFIG,
     bl_max_members = 64, bl_max_events = 32, bl_max_identity_bytes = 256, bl_max_effect_bytes = jcfg_max_event_bytes JOURNAL_CONFIG,
     bl_server_request_ms = 3000\<rparr>"

record fleet_env =
  fe_me :: string
  fe_claim_valid :: "claim_config \<Rightarrow> bool"
  fe_transfer_valid :: "transfer_limits \<Rightarrow> bool"
  fe_bulk_valid :: "bulk_limits \<Rightarrow> bool"
  fe_admission_valid :: "admission_limits \<Rightarrow> bool"
  fe_storage_bound :: "nat option"
  fe_random :: "bytes option \<times> bytes option"
  fe_bind :: "socket_addr \<Rightarrow> bool"
  fe_register :: "string \<Rightarrow> string \<Rightarrow> bool"
  fe_claim_source :: "string \<times> string \<Rightarrow> claim_config \<Rightarrow> bool"
  fe_donor_port :: bool
  fe_worker :: "string \<times> string \<Rightarrow> nat \<Rightarrow> nat \<Rightarrow> bool"
  fe_listener :: bool
  fe_handle :: "recovery_config \<Rightarrow> rearm_policy option \<Rightarrow> bool"

datatype start_refusal = NoFleet | StageScope | StageClaimConfig | StageClaimPolicy | StageTransfer | StageBulk | StageAdmission
  | StageStorage | StageSuffix | StageBoot | StageBind | StagePeer | StageSource | StagePort | StageDonor | StageWorker
  | StageListener | StageHandle

record fleet_session =
  fs_scope :: "string \<times> string"
  fs_claim :: claim_config
  fs_boot :: nat
  fs_registered :: "(string \<times> string) list"
  fs_universe :: "string list"

definition required :: "start_refusal \<Rightarrow> bool \<Rightarrow> start_refusal + unit" where
  "required stage ok = (if ok then Inr () else Inl stage)"

definition register_peer :: "fleet_env \<Rightarrow> string \<times> string \<Rightarrow> (string \<times> string) list \<Rightarrow> start_refusal + (string \<times> string) list" where
  "register_peer env peer registered =
     (if fst peer \<noteq> fe_me env
      then bindE (required StagePeer (fe_register env (fst peer) (snd peer))) (\<lambda>_. Inr (registered @ [peer]))
      else Inr registered)"

definition fleet_open :: "fleet_env \<Rightarrow> prepared_recovery \<Rightarrow> start_refusal + fleet_session" where
  "fleet_open env p =
     bindE (ok_or NoFleet (pr_fleet p)) (\<lambda>fleet.
     bindE (case scope fleet (pr_buckets p) of Inl _ \<Rightarrow> Inl StageScope | Inr sc \<Rightarrow> Inr sc) (\<lambda>sc.
     bindE (ok_or StageClaimConfig (claim_policy (pr_config p))) (\<lambda>claim.
     bindE (required StageClaimPolicy (fe_claim_valid env claim)) (\<lambda>_.
     bindE (required StageTransfer (fe_transfer_valid env transfer_policy)) (\<lambda>_.
     bindE (required StageBulk (fe_bulk_valid env bulk_policy)) (\<lambda>_.
     bindE (required StageAdmission (fe_admission_valid env admission_policy)) (\<lambda>_.
     bindE (ok_or StageStorage (fe_storage_bound env)) (\<lambda>suffix_bytes.
     bindE (required StageSuffix (suffix_bytes \<le> 32 * 2 ^ 20)) (\<lambda>_.
     bindE (case fresh_boot (fst (fe_random env)) (snd (fe_random env)) of Inl _ \<Rightarrow> Inl StageBoot | Inr boot \<Rightarrow> Inr boot) (\<lambda>boot.
     bindE (required StageBind (fe_bind env (fc_bind fleet))) (\<lambda>_.
     bindE (foldE (register_peer env) (fc_peers fleet) []) (\<lambda>registered.
     bindE (required StageSource (fe_claim_source env sc claim)) (\<lambda>_.
     bindE (required StagePort (port_universe IMAGE_CAPS (fc_buckets fleet))) (\<lambda>_.
     bindE (required StageDonor (fe_donor_port env)) (\<lambda>_.
     bindE (required StageWorker (fe_worker env sc boot (pr_session p))) (\<lambda>_.
     bindE (required StageListener (fe_listener env)) (\<lambda>_.
     bindE (required StageHandle (fe_handle env (pr_config p) (pr_rearm p))) (\<lambda>_.
       Inr \<lparr>fs_scope = sc, fs_claim = claim, fs_boot = boot, fs_registered = registered, fs_universe = fc_buckets fleet\<rparr>))))))))))))))))))"

section \<open>Starting coherence\<close>

datatype recovery_handle =
    OriginRecovery recovery_config recovery_mode nat "rearm_policy option"
  | PeerRecovery recovery_config recovery_mode nat "rearm_policy option" fleet_session

datatype start_step = AnnounceSpawned | Announced | RecoveryInstalled recovery_handle | ListenerKept | ApplyStarted | IndexWatched

text \<open>The cells of the feed that are set once, and the order of what the start did. \<open>opens\<close> is whether \<^verbatim>\<open>groupnet\<close> opens an
  origin recovery with a configuration; \<^const>\<open>None\<close> is a panic.\<close>

record start_state =
  sx_recovery :: "recovery_handle option"
  sx_listener :: bool
  sx_next_session :: nat
  sx_steps :: "start_step list"

definition did :: "start_step \<Rightarrow> start_state \<Rightarrow> start_state" where
  "did step s = s\<lparr>sx_steps := sx_steps s @ [step]\<rparr>"

definition install_recovery :: "recovery_handle \<Rightarrow> start_state \<Rightarrow> start_state option" where
  "install_recovery h s = (if sx_recovery s \<noteq> None then None else Some (did (RecoveryInstalled h) (s\<lparr>sx_recovery := Some h\<rparr>)))"

definition open_origin :: "(recovery_config \<Rightarrow> rearm_policy option \<Rightarrow> bool) \<Rightarrow> prepared_recovery \<Rightarrow> recovery_handle option" where
  "open_origin opens p = (if opens (pr_config p) (pr_rearm p)
     then Some (OriginRecovery (pr_config p) (pr_mode p) (pr_session p) (pr_rearm p)) else None)"

definition open_recovery ::
  "(recovery_config \<Rightarrow> rearm_policy option \<Rightarrow> bool) \<Rightarrow> consistency \<Rightarrow> nat option \<Rightarrow> group_view \<Rightarrow> recovery_inputs
   \<Rightarrow> start_state \<Rightarrow> start_state option" where
  "open_recovery opens c lease_ms g ri s =
     Option.bind (prepared c lease_ms g ri (sx_next_session s)) (\<lambda>(p, session).
     Option.bind (open_origin opens p) (\<lambda>h. install_recovery h (s\<lparr>sx_next_session := session\<rparr>)))"

definition open_fleet_recovery ::
  "fleet_env \<Rightarrow> (recovery_config \<Rightarrow> rearm_policy option \<Rightarrow> bool) \<Rightarrow> consistency \<Rightarrow> nat option \<Rightarrow> group_view \<Rightarrow> recovery_inputs
   \<Rightarrow> start_state \<Rightarrow> start_state option" where
  "open_fleet_recovery env opens c lease_ms g ri s =
     Option.bind (prepared c lease_ms g ri (sx_next_session s)) (\<lambda>(p, session).
       let s = s\<lparr>sx_next_session := session\<rparr> in
       case fleet_open env p of
         Inr f \<Rightarrow> Option.bind (install_recovery (PeerRecovery (pr_config p) (pr_mode p) (pr_session p) (pr_rearm p) f) s) (\<lambda>s.
           if sx_listener s then None else Some (did ListenerKept (s\<lparr>sx_listener := True\<rparr>)))
       | Inl _ \<Rightarrow> Option.bind (open_origin opens p) (\<lambda>h. install_recovery h s))"

text \<open>Starting to apply the feed and watching the index follow in both.\<close>

definition proxy_start_coherence ::
  "(recovery_config \<Rightarrow> rearm_policy option \<Rightarrow> bool) \<Rightarrow> consistency \<Rightarrow> nat option \<Rightarrow> proxy_settings \<Rightarrow> string list
   \<Rightarrow> start_state \<Rightarrow> start_state option" where
  "proxy_start_coherence opens c lease_ms px buckets s = (case px_sync px of
       None \<Rightarrow> Some s
     | Some g \<Rightarrow> Option.bind (open_recovery opens c lease_ms g (proxy_recovery_inputs px buckets) (did AnnounceSpawned s)) (\<lambda>s.
         Some (did IndexWatched (did ApplyStarted s))))"

definition start_fleet_coherence ::
  "fleet_env \<Rightarrow> (recovery_config \<Rightarrow> rearm_policy option \<Rightarrow> bool) \<Rightarrow> consistency \<Rightarrow> nat option \<Rightarrow> proxy_settings \<Rightarrow> string list
   \<Rightarrow> start_state \<Rightarrow> start_state option" where
  "start_fleet_coherence env opens c lease_ms px buckets s = (case px_sync px of
       None \<Rightarrow> Some s
     | Some g \<Rightarrow> Option.bind (open_fleet_recovery env opens c lease_ms g (proxy_recovery_inputs px buckets) (did Announced s)) (\<lambda>s.
         Some (did IndexWatched (did ApplyStarted s))))"

text \<open>What the process does with its settings (\<^verbatim>\<open>main.rs\<close>): the choice of \<^const>\<open>start_coherence\<close>, carried out.\<close>

definition main_start_coherence ::
  "fleet_env \<Rightarrow> (recovery_config \<Rightarrow> rearm_policy option \<Rightarrow> bool) \<Rightarrow> consistency \<Rightarrow> nat option \<Rightarrow> environment \<Rightarrow> config \<Rightarrow> string
   \<Rightarrow> proxy_settings \<Rightarrow> start_state \<Rightarrow> start_state option" where
  "main_start_coherence env opens c lease_ms vars cfg region px s = (case start_coherence vars cfg region of
       FleetCoherence fleet \<Rightarrow> start_fleet_coherence env opens c lease_ms (with_fleet_config fleet px) (cf_buckets cfg) s
     | OriginCoherence \<Rightarrow> proxy_start_coherence opens c lease_ms px (cf_buckets cfg) s)"

section \<open>The warm-up of a node without peers\<close>

text \<open>The owner is a counter; a run holds the value it claimed and retries only while the counter still has it.\<close>

definition claim_full_sync :: "nat \<Rightarrow> nat \<times> nat" where
  "claim_full_sync owner = (let generation = wrapping_add64 owner 1 in (generation, generation))"

definition ticket_is_current :: "nat \<Rightarrow> nat \<Rightarrow> bool" where
  "ticket_is_current owner generation \<longleftrightarrow> owner = generation"

text \<open>One attempt at a bucket: the owner's counter when it starts and when its scan has failed, what the other tasks of the node
  did to the index before it, and the pages of its scan.\<close>

record warm_attempt =
  wa_owner :: nat
  wa_others :: "key_index_state \<Rightarrow> key_index_state"
  wa_ask :: discovery_ask
  wa_events :: "scan_event list"
  wa_owner_failed :: nat

datatype warm_result = Warmed nat | WarmSuperseded | WarmScanning | WarmRetrying

fun warm_bucket ::
  "layout \<Rightarrow> (string \<Rightarrow> etag option) \<Rightarrow> scan_config \<Rightarrow> string \<Rightarrow> nat \<Rightarrow> nat \<Rightarrow> warm_attempt list \<Rightarrow> key_index_state
   \<Rightarrow> key_index_state \<times> warm_result \<times> nat list" where
  "warm_bucket lay pe config bucket ticket backoff [] st = (st, WarmRetrying, [])"
| "warm_bucket lay pe config bucket ticket backoff (a # attempts) st =
     (let st = wa_others a st in
      if \<not> ticket_is_current (wa_owner a) ticket then (st, WarmSuperseded, [])
      else case sync_bucket_into_with_config lay pe (wa_ask a) config bucket (wa_events a) st of
        (st, Some (Inr n)) \<Rightarrow> (st, Warmed n, [])
      | (st, None) \<Rightarrow> (st, WarmScanning, [])
      | (st, Some (Inl _)) \<Rightarrow>
          if \<not> ticket_is_current (wa_owner_failed a) ticket then (st, WarmSuperseded, [])
          else case warm_bucket lay pe config bucket ticket (min (backoff * 2) SYNC_RETRY_MAX) attempts st of
            (st, r, sleeps) \<Rightarrow> (st, r, backoff # sleeps))"

text \<open>\<open>has_recovery\<close> is whether a node with peers opened its recovery; it then warms up through that. The result is the ticket
  of the run and the buckets it warms, each by a loop of its own.\<close>

definition spawn_background_sync :: "bool option \<Rightarrow> nat \<Rightarrow> string list \<Rightarrow> nat \<times> (nat \<times> string list) option" where
  "spawn_background_sync has_recovery owner buckets = (case has_recovery of
       Some _ \<Rightarrow> (owner, None)
     | None \<Rightarrow> (case claim_full_sync owner of (owner, ticket) \<Rightarrow> (owner, Some (ticket, buckets))))"

section \<open>What the peer bootstrap needs\<close>

lemma register_peers:
  "foldE (register_peer env) ps registered = Inr r \<longleftrightarrow>
     (\<forall>p \<in> set ps. fst p \<noteq> fe_me env \<longrightarrow> fe_register env (fst p) (snd p)) \<and> r = registered @ filter (\<lambda>p. fst p \<noteq> fe_me env) ps"
  by (induction ps arbitrary: registered) (auto simp: register_peer_def required_def bindE_def)

lemma sorted_distinct_step: "sorted xs \<Longrightarrow> distinct xs \<Longrightarrow> Suc i < length xs \<Longrightarrow> xs ! i < xs ! Suc i"
  by (metis le_less lessI nth_eq_iff_index_eq order_less_imp_not_eq2 Suc_lessD sorted_nth_mono)

lemma sort_nonempty: "xs \<noteq> [] \<Longrightarrow> sort xs \<noteq> []"
  by (metis length_0_conv length_sort)

text \<open>The book's own reader leaves only the number of buckets to check.\<close>

lemma parsed_universe:
  assumes "fleet_parse bind_addr advertise peers origin_id endpoint region node_id buckets = Inr (Some c)"
  shows "fc_buckets c = sort buckets" "buckets \<noteq> []" "distinct buckets"
    and "port_universe caps (fc_buckets c) \<longleftrightarrow> length buckets \<le> c_buckets caps"
proof -
  show b: "fc_buckets c = sort buckets" "buckets \<noteq> []" "distinct buckets"
    using assms by (auto simp: fleet_parse_def parse_book_def bad_inventory_iff distinct_remdups_id result_simps
        split: option.splits if_splits)
  show "port_universe caps (fc_buckets c) \<longleftrightarrow> length buckets \<le> c_buckets caps"
    using b sort_nonempty by (auto simp: port_universe_def sorted_distinct_step)
qed

definition fleet_answers :: "fleet_env \<Rightarrow> prepared_recovery \<Rightarrow> fleet_config \<Rightarrow> fleet_session \<Rightarrow> bool" where
  "fleet_answers env p c f \<longleftrightarrow>
     fe_claim_valid env (fs_claim f) \<and> fe_transfer_valid env transfer_policy \<and> fe_bulk_valid env bulk_policy
     \<and> fe_admission_valid env admission_policy \<and> (case fe_storage_bound env of None \<Rightarrow> False | Some n \<Rightarrow> n \<le> 32 * 2 ^ 20)
     \<and> fresh_boot (fst (fe_random env)) (snd (fe_random env)) = Inr (fs_boot f) \<and> fe_bind env (fc_bind c)
     \<and> (\<forall>p \<in> set (fc_peers c). fst p \<noteq> fe_me env \<longrightarrow> fe_register env (fst p) (snd p))
     \<and> fe_claim_source env (fs_scope f) (fs_claim f) \<and> fe_donor_port env \<and> fe_worker env (fs_scope f) (fs_boot f) (pr_session p)
     \<and> fe_listener env \<and> fe_handle env (pr_config p) (pr_rearm p)"

text \<open>The peer bootstrap opens exactly when the environment grants each of its parts, the inventory fits an image and the
  scope its bound; it then runs under the scope of the configured inventory, with every other node of the book registered.\<close>

theorem fleet_open_iff:
  assumes "fleet_parse bind_addr advertise peers origin_id endpoint region node_id buckets = Inr (Some c)"
    and "pr_fleet p = Some c" "pr_buckets p = buckets"
  shows "fleet_open env p = Inr f \<longleftrightarrow> fleet_answers env p c f \<and> length buckets \<le> c_buckets IMAGE_CAPS
    \<and> scope c buckets = Inr (fs_scope f) \<and> claim_policy (pr_config p) = Some (fs_claim f)
    \<and> fs_registered f = filter (\<lambda>x. fst x \<noteq> fe_me env) (fc_peers c) \<and> fs_universe f = sort buckets"
proof -
  have boot: "(case b of Inl _ \<Rightarrow> Inl StageBoot | Inr boot \<Rightarrow> Inr boot) = Inr n \<longleftrightarrow> b = Inr n" for b :: "fleet_config_error + nat" and n
    by (cases b) auto
  have sc: "(case b of Inl _ \<Rightarrow> Inl StageScope | Inr boot \<Rightarrow> Inr boot) = Inr n \<longleftrightarrow> b = Inr n" for b :: "fleet_config_error + string \<times> string" and n
    by (cases b) auto
  note universe = parsed_universe(1) [OF assms(1)] parsed_universe(4) [OF assms(1), of IMAGE_CAPS, unfolded parsed_universe(1) [OF assms(1)]]
  have req: "required stage ok = Inr u \<longleftrightarrow> ok" for stage ok u
    by (simp add: required_def)
  have or: "ok_or e v = Inr x \<longleftrightarrow> v = Some x" for e :: start_refusal and v :: "'z option" and x
    by (cases v) (simp_all add: ok_or_def)
  show ?thesis
    unfolding fleet_open_def assms(2,3)
    by (simp add: bindE_eq_Inr boot sc req or register_peers universe, cases f) (auto simp: fleet_answers_def split: option.splits)
qed

section \<open>A start opens one recovery\<close>

definition handle_settings :: "recovery_handle \<Rightarrow> recovery_config \<times> recovery_mode \<times> nat \<times> rearm_policy option" where
  "handle_settings h = (case h of OriginRecovery cfg mode session rearm \<Rightarrow> (cfg, mode, session, rearm)
     | PeerRecovery cfg mode session rearm _ \<Rightarrow> (cfg, mode, session, rearm))"

definition peer_assisted :: "recovery_handle \<Rightarrow> bool" where
  "peer_assisted h \<longleftrightarrow> (case h of OriginRecovery _ _ _ _ \<Rightarrow> False | PeerRecovery _ _ _ _ _ \<Rightarrow> True)"

lemma prepared_ok:
  assumes "length (ri_buckets ri) \<le> MAX_RECOVERY_BUCKETS"
  shows "\<exists>p. prepared c lease_ms g ri session = Some (p, wrapping_add64 session 1) \<and> pr_session p = session \<and> pr_rearm p = ri_rearm ri
    \<and> pr_fleet p = ri_fleet ri \<and> pr_buckets p = ri_buckets ri
    \<and> prepare_recovery c lease_ms g (ri_config ri) (ri_buckets ri) = Some (pr_config p, pr_mode p)"
  using assms by (simp add: prepared_def prepare_recovery_def Let_def)

text \<open>A start of a node with peers, on a feed that was not started before, opens exactly one recovery, before the feed is
  applied and before the index is watched. It is the one assisted by peers exactly when the peer book was accepted and
  every part of the bootstrap opened, and only then is a listener kept; a bootstrap that does not open leaves the guarded origin
  recovery with the same limits, mode and session.\<close>

theorem start_opens_one_recovery:
  assumes "sx_recovery s = None" "\<not> sx_listener s" "px_sync px = Some g" "px_fleet px = None"
    and "length (cf_buckets cfg) \<le> MAX_RECOVERY_BUCKETS" "\<And>config rearm. opens config rearm"
  shows "\<exists>s' h. main_start_coherence env opens c lease_ms vars cfg region px s = Some s' \<and> sx_recovery s' = Some h
    \<and> sx_next_session s' = wrapping_add64 (sx_next_session s) 1
    \<and> (sx_listener s' \<longleftrightarrow> peer_assisted h) \<and> (peer_assisted h \<longrightarrow> (\<exists>fleet. start_coherence vars cfg region = FleetCoherence fleet))
    \<and> (\<exists>config mode. prepare_recovery c lease_ms g (px_recovery_config px) (cf_buckets cfg) = Some (config, mode)
        \<and> handle_settings h = (config, mode, sx_next_session s, px_recovery_rearm px))
    \<and> (\<exists>announce. announce \<in> {Announced, AnnounceSpawned} \<and> sx_steps s' = sx_steps s @ [announce, RecoveryInstalled h]
          @ (if peer_assisted h then [ListenerKept] else []) @ [ApplyStarted, IndexWatched])"
proof (cases "start_coherence vars cfg region")
  case (FleetCoherence fleet)
  define ri where "ri = proxy_recovery_inputs (with_fleet_config fleet px) (cf_buckets cfg)"
  obtain p where p: "prepared c lease_ms g ri (sx_next_session s) = Some (p, wrapping_add64 (sx_next_session s) 1)"
      "pr_session p = sx_next_session s" "pr_rearm p = px_recovery_rearm px"
      "prepare_recovery c lease_ms g (px_recovery_config px) (cf_buckets cfg) = Some (pr_config p, pr_mode p)"
    using prepared_ok [of ri c lease_ms g "sx_next_session s"] assms(5) by (auto simp: ri_def proxy_recovery_inputs_def with_fleet_config_def)
  show ?thesis
    by (cases "fleet_open env p")
      (simp_all add: main_start_coherence_def FleetCoherence start_fleet_coherence_def with_fleet_config_def assms p
        open_fleet_recovery_def ri_def [symmetric, unfolded with_fleet_config_def] did_def install_recovery_def open_origin_def
        peer_assisted_def handle_settings_def)
next
  case OriginCoherence
  define ri where "ri = proxy_recovery_inputs px (cf_buckets cfg)"
  obtain p where p: "prepared c lease_ms g ri (sx_next_session s) = Some (p, wrapping_add64 (sx_next_session s) 1)"
      "pr_session p = sx_next_session s" "pr_rearm p = px_recovery_rearm px"
      "prepare_recovery c lease_ms g (px_recovery_config px) (cf_buckets cfg) = Some (pr_config p, pr_mode p)"
    using prepared_ok [of ri c lease_ms g "sx_next_session s"] assms(5) by (auto simp: ri_def proxy_recovery_inputs_def)
  show ?thesis
    by (simp add: main_start_coherence_def OriginCoherence proxy_start_coherence_def assms p open_recovery_def ri_def [symmetric]
        did_def install_recovery_def open_origin_def peer_assisted_def handle_settings_def)
qed

section \<open>The warm-up ends\<close>

lemma doubled_cap: "min (min (b * 2) m * 2 ^ j) m = min (b * 2 ^ Suc j) (m :: nat)"
proof (cases "b * 2 \<le> m")
  case False
  have "m * 1 \<le> m * 2 ^ j" "m * 1 \<le> b * 2 * 2 ^ j"
    using False by (intro mult_le_mono; simp)+
  then show ?thesis
    using False by (simp add: min_absorb2 mult.assoc)
qed (simp add: mult.assoc)

lemma wrapping_moves: "wrapping_add64 n 1 \<noteq> n"
proof
  assume eq: "wrapping_add64 n 1 = n"
  then have "n < 2 ^ 64"
    unfolding wrapping_add64_def by (metis mod_less_divisor zero_less_power zero_less_numeral)
  then show False
    using eq by (cases "n + 1 = 2 ^ 64") (simp_all add: wrapping_add64_def)
qed

text \<open>A run of attempts that all fail while the ticket is current: each scans the index that the one before, and the other tasks
  of the node, left. Nothing is said here of how the warm-up reacts.\<close>

inductive attempts_fail ::
  "layout \<Rightarrow> (string \<Rightarrow> etag option) \<Rightarrow> scan_config \<Rightarrow> string \<Rightarrow> nat \<Rightarrow> warm_attempt list \<Rightarrow> key_index_state \<Rightarrow> key_index_state \<Rightarrow> bool"
  for lay pe config bucket ticket where
  no_attempt: "attempts_fail lay pe config bucket ticket [] st st"
| attempt_fails: "wa_owner a = ticket \<Longrightarrow> wa_owner_failed a = ticket \<Longrightarrow>
    sync_bucket_into_with_config lay pe (wa_ask a) config bucket (wa_events a) (wa_others a st) = (st1, Some (Inl e)) \<Longrightarrow>
    attempts_fail lay pe config bucket ticket attempts st1 st' \<Longrightarrow> attempts_fail lay pe config bucket ticket (a # attempts) st st'"

text \<open>The documented waits: doubling from the first, up to the cap.\<close>

definition capped_waits :: "nat \<Rightarrow> nat \<Rightarrow> nat list" where
  "capped_waits backoff n = map (\<lambda>i. min (backoff * 2 ^ i) SYNC_RETRY_MAX) [0..<n]"

lemma capped_waits_Suc:
  assumes "backoff \<le> SYNC_RETRY_MAX"
  shows "capped_waits backoff (Suc n) = backoff # capped_waits (min (backoff * 2) SYNC_RETRY_MAX) n"
proof -
  have "[0..<Suc n] = 0 # map Suc [0..<n]"
    by (metis map_Suc_upt upt_conv_Cons zero_less_Suc)
  then show ?thesis
    using assms unfolding capped_waits_def by (simp add: doubled_cap del: upt_Suc)
qed

lemma warm_retries:
  assumes "attempts_fail lay pe config bucket ticket failed st st1" "backoff \<le> SYNC_RETRY_MAX"
  shows "\<exists>wait \<le> SYNC_RETRY_MAX. \<forall>rest. warm_bucket lay pe config bucket ticket backoff (failed @ rest) st =
    (case warm_bucket lay pe config bucket ticket wait rest st1 of (st2, r, waits) \<Rightarrow> (st2, r, capped_waits backoff (length failed) @ waits))"
  using assms
proof (induction arbitrary: backoff)
  case no_attempt
  then show ?case
    by (intro exI [of _ backoff]) (simp add: capped_waits_def)
next
  case (attempt_fails a st st1 e attempts st')
  obtain wait where "wait \<le> SYNC_RETRY_MAX" "\<And>rest. warm_bucket lay pe config bucket ticket (min (backoff * 2) SYNC_RETRY_MAX) (attempts @ rest) st1 =
      (case warm_bucket lay pe config bucket ticket wait rest st' of (st2, r, waits) \<Rightarrow>
         (st2, r, capped_waits (min (backoff * 2) SYNC_RETRY_MAX) (length attempts) @ waits))"
    using attempt_fails.IH [of "min (backoff * 2) SYNC_RETRY_MAX"] by auto
  then show ?case
    using attempt_fails.hyps attempt_fails.prems
    by (intro exI [of _ wait]) (simp add: ticket_is_current_def capped_waits_Suc split: prod.split)
qed

text \<open>C15: The warm-up of a node without peers ends with the origin's bucket. However many scans fail while its ticket is current,
  the run retries after each, waiting one second, then twice as long each time up to a minute; the first scan that succeeds ends
  it. If that scan was answered honestly from one snapshot, no key of the bucket was fenced when it started and no other
  task changed the bucket while it ran, the bucket then answers locally with exactly the rows of the snapshot, whatever the failed scans and
  the other tasks left in the index before. A second run takes the ticket from the first.\<close>

theorem warm_up_completes:
  assumes "attempts_fail lay pe config bucket ticket failed st st1"
    and "wa_owner a = ticket" "\<And>k. fence_of (wa_others a st1) bucket k = None" "origin_ok objs"
    and "begin_bucket_resync (wa_others a st1) bucket = (st0, generation)"
    and "honest_events lay pe bucket generation objs cursor_of (wa_events a)
           (sync_start st0 (discover_boundaries (wa_ask a) (scan_bounded config)))"
    and "others_keep (\<lambda>st. bucket_entry st bucket) (ev_others ` set (wa_events a))"
    and "sync_bucket_into_with_config lay pe (wa_ask a) config bucket (wa_events a) (wa_others a st1) = (st', Some (Inr n))"
  shows "warm_bucket lay pe config bucket ticket SYNC_RETRY_MIN (failed @ a # later) st =
      (st', Warmed n, map (\<lambda>i. min (2 ^ i) 60) [0..<length failed])
    \<and> bs_synced (bucket_entry st' bucket) \<and> (\<forall>k. live st' bucket k = snapshot pe objs k)
    \<and> (\<forall>owner2 ticket2. claim_full_sync ticket = (owner2, ticket2) \<longrightarrow> ticket_is_current owner2 ticket2 \<and> \<not> ticket_is_current owner2 ticket)"
proof -
  obtain wait where "warm_bucket lay pe config bucket ticket SYNC_RETRY_MIN (failed @ a # later) st =
      (case warm_bucket lay pe config bucket ticket wait (a # later) st1 of
         (st2, r, waits) \<Rightarrow> (st2, r, capped_waits SYNC_RETRY_MIN (length failed) @ waits))"
    using warm_retries [OF assms(1), of SYNC_RETRY_MIN] by (auto simp: SYNC_RETRY_MIN_def SYNC_RETRY_MAX_def)
  then have "warm_bucket lay pe config bucket ticket SYNC_RETRY_MIN (failed @ a # later) st =
      (st', Warmed n, map (\<lambda>i. min (2 ^ i) 60) [0..<length failed])"
    using assms(2,8) by (simp add: ticket_is_current_def capped_waits_def SYNC_RETRY_MIN_def SYNC_RETRY_MAX_def)
  moreover have "bs_synced (bucket_entry st' bucket) \<and> (\<forall>k. live st' bucket k = snapshot pe objs k)"
  proof (rule sync_generation_rebuilds [OF _ _ _ assms(4,6,7)])
    show "sync_bucket_generation lay pe (wa_ask a) config bucket generation None (wa_events a) st0 = (st', Some (Inr n))"
      using assms(5,8) by (simp add: sync_bucket_into_with_config_def)
  qed (use reset_bucket_fresh [OF assms(3,5)] in simp_all)
  moreover have "ticket_is_current owner2 ticket2 \<and> \<not> ticket_is_current owner2 ticket"
    if "claim_full_sync ticket = (owner2, ticket2)" for owner2 ticket2
    using that wrapping_moves [of ticket] by (auto simp: claim_full_sync_def ticket_is_current_def Let_def)
  ultimately show ?thesis
    by blast
qed

definition warm_example :: "discovery_ask \<Rightarrow> scan_event list \<Rightarrow> warm_attempt" where
  "warm_example ask evs = \<lparr>wa_owner = 1, wa_others = (\<lambda>st. st), wa_ask = ask, wa_events = evs, wa_owner_failed = 1\<rparr>"

definition scan_outage :: "scan_event list" where
  "scan_outage = [\<lparr>ev_others = (\<lambda>st. st), ev_range = 0, ev_now = 0, ev_permit = None, ev_response = None\<rparr>]"

lemma outage_fails:
  assumes "begin_bucket_resync st bucket = (st0, generation)"
  shows "\<exists>e. sync_bucket_into_with_config lay pe ask scan_serial bucket scan_outage st = (st0, Some (Inl e))"
  by (simp add: sync_bucket_into_with_config_def assms sync_bucket_generation_def Let_def scan_plan scan_outage_def
      sync_start_def ranges_def sync_event_def page_event_def sync_result_def)

lemma begin_fences: "begin_bucket_resync st bucket = (st0, generation) \<Longrightarrow> fence_of st0 bucket k = fence_of st bucket k"
  by (auto simp: begin_bucket_resync_def Let_def fence_of_def bucket_reset_def bucket_default_def)

lemma outages_fail:
  "\<exists>st1. attempts_fail lay pe scan_serial bucket 1 (replicate n (warm_example ask scan_outage)) st st1
     \<and> (\<forall>k. fence_of st1 bucket k = fence_of st bucket k)"
proof (induction n arbitrary: st)
  case 0
  show ?case
    by (auto intro: attempts_fail.no_attempt)
next
  case (Suc n)
  obtain st0 generation where b: "begin_bucket_resync st bucket = (st0, generation)"
    by force
  obtain e where e: "sync_bucket_into_with_config lay pe ask scan_serial bucket scan_outage st = (st0, Some (Inl e))"
    using outage_fails [OF b] by blast
  obtain st1 where st1: "attempts_fail lay pe scan_serial bucket 1 (replicate n (warm_example ask scan_outage)) st0 st1"
      "\<forall>k. fence_of st1 bucket k = fence_of st0 bucket k"
    using Suc.IH by blast
  have "attempts_fail lay pe scan_serial bucket 1 (replicate (Suc n) (warm_example ask scan_outage)) st st1"
    unfolding replicate_Suc by (rule attempts_fail.attempt_fails [OF _ _ _ st1(1)]) (simp_all add: warm_example_def e)
  then show ?case
    using st1(2) begin_fences [OF b] by auto
qed

text \<open>Eight outages, the waits reaching their cap, and then an honest origin.\<close>

lemma warm_up_completes_witness:
  "\<forall>lay pe ask. \<exists>st' n. warm_bucket lay pe scan_serial ''b'' 1 SYNC_RETRY_MIN
       (replicate 8 (warm_example ask scan_outage) @ [warm_example ask scan_events]) key_index_default
       = (st', Warmed n, [1, 2, 4, 8, 16, 32, 60, 60])
     \<and> bs_synced (bucket_entry st' ''b'') \<and> live st' ''b'' ''a'' = snapshot pe scan_objs ''a'' \<and> snapshot pe scan_objs ''a'' \<noteq> None"
proof (intro allI)
  fix lay pe ask
  obtain st1 where st1: "attempts_fail lay pe scan_serial ''b'' 1 (replicate 8 (warm_example ask scan_outage)) key_index_default st1"
      "\<And>k. fence_of st1 ''b'' k = fence_of key_index_default ''b'' k"
    using outages_fail [of lay pe "''b''" 8 ask key_index_default] by blast
  obtain st0 g0 where b0: "begin_bucket_resync st1 ''b'' = (st0, g0)"
    by force
  obtain st' n where run: "sync_bucket_into_with_config lay pe ask scan_serial ''b'' scan_events st1 = (st', Some (Inr n))"
    using scan_example_run(2) [OF b0] by blast
  have "fence_of key_index_default ''b'' k = None" for k
    by (simp add: fence_of_def key_index_default_def bucket_entry_def bucket_get_def bucket_default_def)
  then have fences: "fence_of (wa_others (warm_example ask scan_events) st1) ''b'' k = None" for k
    by (simp add: warm_example_def st1(2))
  have "warm_bucket lay pe scan_serial ''b'' 1 SYNC_RETRY_MIN
       (replicate 8 (warm_example ask scan_outage) @ warm_example ask scan_events # []) key_index_default
       = (st', Warmed n, map (\<lambda>i. min (2 ^ i) 60) [0..<length (replicate 8 (warm_example ask scan_outage))])
     \<and> bs_synced (bucket_entry st' ''b'') \<and> (\<forall>k. live st' ''b'' k = snapshot pe scan_objs k)"
    using warm_up_completes [OF st1(1) _ fences scan_objs_ok, of st0 g0 "\<lambda>_. None" st' n "[]"]
      b0 run scan_example_run(1) [OF b0, of lay pe ask] by (simp add: warm_example_def others_keep_def scan_events_def)
  moreover have "map (\<lambda>i. min (2 ^ i) 60) [0..<length (replicate 8 (warm_example ask scan_outage))] = [1, 2, 4, 8, 16, 32, 60, 60 :: nat]"
    by (simp add: upt_rec)
  ultimately show "\<exists>st' n. warm_bucket lay pe scan_serial ''b'' 1 SYNC_RETRY_MIN
       (replicate 8 (warm_example ask scan_outage) @ [warm_example ask scan_events]) key_index_default
       = (st', Warmed n, [1, 2, 4, 8, 16, 32, 60, 60])
     \<and> bs_synced (bucket_entry st' ''b'') \<and> live st' ''b'' ''a'' = snapshot pe scan_objs ''a'' \<and> snapshot pe scan_objs ''a'' \<noteq> None"
    by (intro exI [of _ st'] exI [of _ n]) (simp add: snapshot_def scan_objs_def)
qed

end
