(* ===== verification/Copy_Conditions.thy ===== *)
theory Copy_Conditions
  imports Writes
begin

text \<open>
  The destination conditions of a copy (\<^verbatim>\<open>src/src/cache/copy.rs\<close>). The adapter that forwards a copy drops them; they are kept in a
  task-local cell around the call and put back by an interceptor, under the standard names and the names R2 uses, before the
  request is signed. A header map is an association list; what the adapter serialises is an argument.
\<close>

section \<open>Headers\<close>

type_synonym header_map = "(string \<times> string) list"

definition header_get :: "header_map \<Rightarrow> string \<Rightarrow> string option" where
  "header_get h name = map_of h name"

definition header_insert :: "string \<Rightarrow> string \<Rightarrow> header_map \<Rightarrow> header_map" where
  "header_insert name v h = filter (\<lambda>x. fst x \<noteq> name) h @ [(name, v)]"

lemma header_get_insert: "header_get (header_insert name v h) n = (if n = name then Some v else header_get h n)"
proof -
  have "map_of (filter (\<lambda>x. fst x \<noteq> name) h) n = (if n = name then None else map_of h n)"
    by (induction h) auto
  then show ?thesis
    by (auto simp: header_get_def header_insert_def map_add_def split: option.split)
qed

section \<open>Conditions\<close>

definition IF_MATCH :: string where
  "IF_MATCH = ''if-match''"

definition IF_NONE_MATCH :: string where
  "IF_NONE_MATCH = ''if-none-match''"

definition R2_IF_MATCH :: string where
  "R2_IF_MATCH = ''cf-copy-destination-if-match''"

definition R2_IF_NONE_MATCH :: string where
  "R2_IF_NONE_MATCH = ''cf-copy-destination-if-none-match''"

record destination_conditions =
  dc_if_match :: "string option"
  dc_if_none_match :: "string option"

definition conditions_from_request :: "header_map \<Rightarrow> destination_conditions option" where
  "conditions_from_request h =
     (let conditions = \<lparr>dc_if_match = header_get h IF_MATCH, dc_if_none_match = header_get h IF_NONE_MATCH\<rparr> in
      if dc_if_match conditions \<noteq> None \<or> dc_if_none_match conditions \<noteq> None then Some conditions else None)"

definition modify_before_signing :: "destination_conditions option \<Rightarrow> header_map \<Rightarrow> header_map" where
  "modify_before_signing scoped h = (case scoped of
       None \<Rightarrow> h
     | Some conditions \<Rightarrow>
         let h = (case dc_if_match conditions of None \<Rightarrow> h | Some v \<Rightarrow> header_insert R2_IF_MATCH v (header_insert IF_MATCH v h)) in
         (case dc_if_none_match conditions of None \<Rightarrow> h | Some v \<Rightarrow> header_insert R2_IF_NONE_MATCH v (header_insert IF_NONE_MATCH v h)))"

text \<open>The headers that reach the origin, for the request's own headers and what the adapter serialised of it.\<close>

definition copy_forward :: "header_map \<Rightarrow> header_map \<Rightarrow> header_map" where
  "copy_forward req serialised = modify_before_signing (conditions_from_request req) serialised"

section \<open>No condition is lost\<close>

lemmas header_names = IF_MATCH_def IF_NONE_MATCH_def R2_IF_MATCH_def R2_IF_NONE_MATCH_def

text \<open>A copy reaches the origin under exactly the conditions its client gave: each is there under both names, an absent one adds
  nothing, every other header is as the adapter wrote it, and a copy without conditions is not touched.\<close>

theorem copy_keeps_conditions:
  "header_get (copy_forward req serialised) n =
     (if n \<in> {IF_MATCH, R2_IF_MATCH} \<and> header_get req IF_MATCH \<noteq> None then header_get req IF_MATCH
      else if n \<in> {IF_NONE_MATCH, R2_IF_NONE_MATCH} \<and> header_get req IF_NONE_MATCH \<noteq> None then header_get req IF_NONE_MATCH
      else header_get serialised n)"
  by (cases "header_get req IF_MATCH"; cases "header_get req IF_NONE_MATCH")
    (simp_all add: copy_forward_def conditions_from_request_def modify_before_signing_def Let_def header_get_insert,
      auto simp: header_names)

theorem unconditioned_copy_untouched:
  "header_get req IF_MATCH = None \<Longrightarrow> header_get req IF_NONE_MATCH = None \<Longrightarrow> copy_forward req serialised = serialised"
  by (simp add: copy_forward_def conditions_from_request_def modify_before_signing_def)

end
