(* ===== verification/Accounting.thy ===== *)
theory Accounting
  imports Text_Lib
begin

text \<open>
  The counters of a node (\<^verbatim>\<open>src/src/metrics.rs\<close>) and the accounting of origin requests (\<^verbatim>\<open>src/src/cache/origin.rs\<close>). A
  counter is a 64-bit atomic that wraps; the macro that declares the counters is a list of their names in declaration
  order. The gauges of the warm tier are what the disk store reported last.
\<close>

section \<open>Counters\<close>

definition COUNTERS :: "string list" where
  "COUNTERS =
    [''list_from_index'', ''list_passthrough'', ''writes_indexed_put'', ''writes_indexed_copy'', ''copy_head_avoided'',
     ''copy_head_fallbacks'', ''copy_conflict_reconciled'', ''copy_conflict_reconcile_misses'',
     ''writes_indexed_multipart'', ''writes_indexed_observed'', ''write_fill'', ''get_hit'', ''get_miss'', ''get_bypass'',
     ''head_hit'', ''head_index'', ''head_404'', ''head_miss'', ''origin_class_a_requests'', ''origin_class_b_requests'',
     ''origin_free_requests'', ''origin_get_not_found'', ''origin_head_not_found'', ''origin_write_precondition_failed'',
     ''origin_write_refused'', ''range_hit'', ''range_promote'', ''range_promote_reject'', ''warm_hit'', ''warm_miss'',
     ''warm_error'', ''warm_rejects'', ''body_revalidations'', ''body_revalidation_evictions'',
     ''body_revalidation_index_absent'', ''body_revalidation_missing_identity'', ''body_revalidation_etag_mismatch'',
     ''body_revalidation_timestamp_mismatch'', ''feed_published'', ''feed_applied'', ''feed_gaps'', ''feed_renewals'',
     ''ack_timeouts'', ''write_lease_lapses'', ''recovery_origin_scans'', ''recovery_fallbacks'',
     ''recovery_ready_recaptures'', ''unhealthy_bypasses'', ''read_licence_bypasses'', ''read_absent_granter_bypasses'',
     ''read_freshness_bypasses'', ''index_backfills'']"

record metrics =
  mt_counters :: "string \<Rightarrow> 64 word"
  mt_warm_entries :: "64 word"
  mt_warm_mapped_entries :: "64 word"
  mt_warm_disk_bytes :: "64 word"
  mt_warm_disk_budget_bytes :: "64 word"
  mt_warm_evictions :: "64 word"
  mt_warm_evicted_bytes :: "64 word"
  mt_index :: "key_index_state option"

definition metrics_default :: metrics where
  "metrics_default = \<lparr>mt_counters = (\<lambda>_. 0), mt_warm_entries = 0, mt_warm_mapped_entries = 0, mt_warm_disk_bytes = 0,
     mt_warm_disk_budget_bytes = 0, mt_warm_evictions = 0, mt_warm_evicted_bytes = 0, mt_index = None\<rparr>"

definition bump :: "string \<Rightarrow> metrics \<Rightarrow> metrics" where
  "bump name m = m\<lparr>mt_counters := (mt_counters m)(name := mt_counters m name + 1)\<rparr>"

record disk_stats =
  ds_entries :: nat
  ds_mapped_entries :: nat
  ds_disk_bytes :: "64 word"
  ds_budget_bytes :: "64 word option"
  ds_evictions :: "64 word"
  ds_evicted_bytes :: "64 word"

definition observe_warm :: "disk_stats \<Rightarrow> metrics \<Rightarrow> metrics" where
  "observe_warm s m = m\<lparr>mt_warm_entries := of_nat (min (ds_entries s) u64_max),
     mt_warm_mapped_entries := of_nat (min (ds_mapped_entries s) u64_max), mt_warm_disk_bytes := ds_disk_bytes s,
     mt_warm_disk_budget_bytes := (case ds_budget_bytes s of None \<Rightarrow> 0 | Some n \<Rightarrow> n),
     mt_warm_evictions := ds_evictions s, mt_warm_evicted_bytes := ds_evicted_bytes s\<rparr>"

definition register_index :: "key_index_state \<Rightarrow> metrics \<Rightarrow> metrics" where
  "register_index st m = m\<lparr>mt_index := Some st\<rparr>"

definition current_index_stats :: "metrics \<Rightarrow> index_stats" where
  "current_index_stats m = (case mt_index m of None \<Rightarrow> index_stats_default | Some st \<Rightarrow> ki_stats st)"

section \<open>Exposition\<close>

text \<open>Name, kind and value of every sample, in the order both formats print them.\<close>

definition exported :: "metrics \<Rightarrow> (string \<times> string \<times> nat) list" where
  "exported m = map (\<lambda>name. (name, ''counter'', unat (mt_counters m name))) COUNTERS
     @ [(''index_objects'', ''gauge'', objects (current_index_stats m)),
        (''index_logical_bytes'', ''gauge'', logical_bytes (current_index_stats m)),
        (''warm_entries'', ''gauge'', unat (mt_warm_entries m)),
        (''warm_mapped_entries'', ''gauge'', unat (mt_warm_mapped_entries m)),
        (''warm_disk_bytes'', ''gauge'', unat (mt_warm_disk_bytes m)),
        (''warm_disk_budget_bytes'', ''gauge'', unat (mt_warm_disk_budget_bytes m)),
        (''warm_evictions'', ''counter'', unat (mt_warm_evictions m)),
        (''warm_evicted_bytes'', ''counter'', unat (mt_warm_evicted_bytes m))]"

definition newline :: char where
  "newline = char_of (10 :: nat)"

definition stats_line :: "metrics \<Rightarrow> string" where
  "stats_line m = concat (map (\<lambda>(name, _, v). '' '' @ name @ ''='' @ decimal v) (exported m))"

definition sample_lines :: "string \<times> string \<times> nat \<Rightarrow> string list" where
  "sample_lines x = (case x of (name, kind, v) \<Rightarrow>
     [''# TYPE s3cache_'' @ name @ '' '' @ kind, ''s3cache_'' @ name @ '' '' @ decimal v])"

definition prometheus_text :: "metrics \<Rightarrow> string" where
  "prometheus_text m = concat (map (\<lambda>line. line @ [newline]) (concat (map sample_lines (exported m))))"

record http_response =
  rp_status :: nat
  rp_content_type :: "string option"
  rp_body :: string

definition scrape :: "metrics \<Rightarrow> bool \<Rightarrow> bool \<Rightarrow> string \<Rightarrow> string \<Rightarrow> http_response" where
  "scrape m probe_is_ready index_is_ready req_method path =
     (if req_method = ''GET'' \<and> path = ''/metrics''
      then \<lparr>rp_status = 200, rp_content_type = Some ''text/plain; version=0.0.4'', rp_body = prometheus_text m\<rparr>
      else if req_method = ''GET'' \<and> path \<in> {''/ready'', ''/index-ready''}
      then \<lparr>rp_status = (if (if path = ''/ready'' then probe_is_ready else index_is_ready) then 200 else 503),
            rp_content_type = None, rp_body = []\<rparr>
      else \<lparr>rp_status = 404, rp_content_type = None, rp_body = []\<rparr>)"

section \<open>Origin requests\<close>

datatype origin_class = ClassA | ClassB | ClassFree

definition origin_class_of :: "string \<Rightarrow> origin_class" where
  "origin_class_of operation =
     (if starts_with ''Get'' operation \<or> starts_with ''Head'' operation then ClassB
      else if starts_with ''Delete'' operation \<or> operation = ''AbortMultipartUpload'' then ClassFree
      else ClassA)"

definition is_object_write :: "string \<Rightarrow> bool" where
  "is_object_write operation \<longleftrightarrow>
     operation \<in> {''PutObject'', ''CopyObject'', ''CompleteMultipartUpload'', ''UploadPart'', ''UploadPartCopy''}"

definition record_origin :: "string \<Rightarrow> nat \<Rightarrow> metrics \<Rightarrow> metrics" where
  "record_origin operation status m =
     (let m = (case origin_class_of operation of
                 ClassA \<Rightarrow> bump ''origin_class_a_requests'' m
               | ClassB \<Rightarrow> bump ''origin_class_b_requests'' m
               | ClassFree \<Rightarrow> bump ''origin_free_requests'' m)
      in if status < 400 then m
         else if operation = ''GetObject'' \<and> status = 404 then bump ''origin_get_not_found'' m
         else if operation = ''HeadObject'' \<and> status = 404 then bump ''origin_head_not_found'' m
         else if is_object_write operation then
           if status = 412 then bump ''origin_write_precondition_failed'' m else bump ''origin_write_refused'' m
         else m)"

text \<open>No response is an attempt that is not counted; no metadata counts as an operation without a name.\<close>

definition read_after_attempt :: "string option \<Rightarrow> nat option \<Rightarrow> metrics \<Rightarrow> metrics" where
  "read_after_attempt operation response m = (case response of
       None \<Rightarrow> m
     | Some status \<Rightarrow> record_origin (case operation of None \<Rightarrow> [] | Some op \<Rightarrow> op) status m)"

section \<open>What a scrape tells\<close>

text \<open>The reader of the exposition format: the samples are the lines that are no comments.\<close>

definition read_sample :: "string \<Rightarrow> (string \<times> nat) option" where
  "read_sample line = (if starts_with ''#'' line then None
     else map_option (\<lambda>(name, v). (name, undecimal v)) (split_once CHR '' '' line))"

definition read_samples :: "string \<Rightarrow> (string \<times> nat) list" where
  "read_samples txt = List.map_filter read_sample (split_on newline txt)"

definition plain_name :: "string \<Rightarrow> bool" where
  "plain_name s \<longleftrightarrow> CHR '' '' \<notin> set s \<and> newline \<notin> set s"

lemma counters_plain: "list_all plain_name COUNTERS"
  by (simp add: COUNTERS_def plain_name_def newline_def char_of_def)

lemma counters_distinct: "distinct COUNTERS"
  by (simp add: COUNTERS_def)

lemma exported_plain: "(name, kind, v) \<in> set (exported m) \<Longrightarrow> plain_name name \<and> kind \<in> {''counter'', ''gauge''}"
  using counters_plain by (auto simp: exported_def list_all_iff plain_name_def newline_def char_of_def)

lemma exported_distinct: "distinct (map fst (exported m))"
proof -
  have "map fst (exported m) = COUNTERS @ [''index_objects'', ''index_logical_bytes'', ''warm_entries'', ''warm_mapped_entries'',
      ''warm_disk_bytes'', ''warm_disk_budget_bytes'', ''warm_evictions'', ''warm_evicted_bytes'']"
    by (simp add: exported_def comp_def)
  then show ?thesis
    using counters_distinct by (simp add: COUNTERS_def)
qed

lemma decimal_avoids: "newline \<notin> set (decimal n)" "CHR '' '' \<notin> set (decimal n)"
  using decimal_digits [of n] by (auto simp: newline_def)

lemma read_lines:
  assumes "\<forall>l \<in> set ls. newline \<notin> set l"
  shows "read_samples (concat (map (\<lambda>line. line @ [newline]) ls)) = List.map_filter read_sample ls"
proof -
  have "split_on newline (concat (map (\<lambda>line. line @ [newline]) ls)) = ls @ [[]]"
    using assms by (induction ls) (simp_all add: split_on_sep)
  then show ?thesis
    by (simp add: read_samples_def map_filter_def read_sample_def starts_with_def split_once_def)
qed

lemma sample_line_read:
  assumes "plain_name name" "kind \<in> {''counter'', ''gauge''}"
  shows "List.map_filter read_sample (sample_lines (name, kind, v)) = [(''s3cache_'' @ name, v)]"
    and "\<forall>l \<in> set (sample_lines (name, kind, v)). newline \<notin> set l"
proof -
  have "CHR '' '' \<notin> set (''s3cache_'' @ name)"
    using assms(1) by (simp add: plain_name_def)
  then have "split_once CHR '' '' ((''s3cache_'' @ name) @ CHR '' '' # decimal v) = Some (''s3cache_'' @ name, decimal v)"
    by (rule split_once_sep)
  then have "read_sample (''s3cache_'' @ name @ '' '' @ decimal v) = Some (''s3cache_'' @ name, v)"
    by (simp add: read_sample_def starts_with_def undecimal_decimal del: undecimal.simps)
  moreover have "read_sample (''# TYPE s3cache_'' @ rest) = None" for rest
    by (simp add: read_sample_def starts_with_def)
  ultimately show "List.map_filter read_sample (sample_lines (name, kind, v)) = [(''s3cache_'' @ name, v)]"
    by (simp add: sample_lines_def map_filter_simps)
  show "\<forall>l \<in> set (sample_lines (name, kind, v)). newline \<notin> set l"
    using assms decimal_avoids [of v] by (auto simp: sample_lines_def plain_name_def newline_def char_of_def)
qed

lemma samples_read:
  assumes "\<forall>x \<in> set xs. plain_name (fst x) \<and> fst (snd x) \<in> {''counter'', ''gauge''}"
  shows "List.map_filter read_sample (concat (map sample_lines xs)) = map (\<lambda>(name, kind, v). (''s3cache_'' @ name, v)) xs"
  using assms
proof (induction xs)
  case (Cons x xs)
  obtain name kind v where x: "x = (name, kind, v)"
    by (cases x)
  have "List.map_filter read_sample (sample_lines x @ concat (map sample_lines xs))
      = List.map_filter read_sample (sample_lines x) @ List.map_filter read_sample (concat (map sample_lines xs))"
    by (simp add: map_filter_def)
  then show ?case
    using Cons sample_line_read(1) [of name kind v] by (simp add: x)
qed (simp add: map_filter_simps)

text \<open>A scrape tells every counter. The body of \<^verbatim>\<open>GET /metrics\<close> reads back, line by line, as one sample for each
  counter in declaration order with its current value, followed by the size of the index and the six readings of the disk
  tier; no name is repeated. The two probes answer 200 exactly when they hold, 503 otherwise, and every other request gets 404.\<close>

theorem scrape_tells_counters:
  "read_samples (rp_body (scrape m ready index_ready ''GET'' ''/metrics''))
     = map (\<lambda>name. (''s3cache_'' @ name, unat (mt_counters m name))) COUNTERS
       @ [(''s3cache_index_objects'', objects (current_index_stats m)), (''s3cache_index_logical_bytes'', logical_bytes (current_index_stats m)),
          (''s3cache_warm_entries'', unat (mt_warm_entries m)), (''s3cache_warm_mapped_entries'', unat (mt_warm_mapped_entries m)),
          (''s3cache_warm_disk_bytes'', unat (mt_warm_disk_bytes m)), (''s3cache_warm_disk_budget_bytes'', unat (mt_warm_disk_budget_bytes m)),
          (''s3cache_warm_evictions'', unat (mt_warm_evictions m)), (''s3cache_warm_evicted_bytes'', unat (mt_warm_evicted_bytes m))]
   \<and> distinct (map fst (read_samples (rp_body (scrape m ready index_ready ''GET'' ''/metrics''))))
   \<and> (rp_status (scrape m ready index_ready req_method path) = 404
       \<longleftrightarrow> req_method \<noteq> ''GET'' \<or> path \<notin> {''/metrics'', ''/ready'', ''/index-ready''})
   \<and> (rp_status (scrape m ready index_ready ''GET'' ''/ready'') = 200 \<longleftrightarrow> ready)
   \<and> (rp_status (scrape m ready index_ready ''GET'' ''/index-ready'') = 200 \<longleftrightarrow> index_ready)"
proof -
  have plain: "\<forall>x \<in> set (exported m). plain_name (fst x) \<and> fst (snd x) \<in> {''counter'', ''gauge''}"
    using exported_plain by (metis prod.collapse)
  then have "\<forall>l \<in> set (concat (map sample_lines (exported m))). newline \<notin> set l"
    using sample_line_read(2) by fastforce
  then have read: "read_samples (rp_body (scrape m ready index_ready ''GET'' ''/metrics''))
      = map (\<lambda>(name, kind, v). (''s3cache_'' @ name, v)) (exported m)"
    by (simp add: scrape_def prometheus_text_def read_lines samples_read [OF plain])
  moreover have "distinct (map (\<lambda>x. ''s3cache_'' @ fst x) (exported m))"
    using exported_distinct [of m] by (simp add: distinct_map inj_on_def)
  ultimately have names: "distinct (map fst (read_samples (rp_body (scrape m ready index_ready ''GET'' ''/metrics''))))"
    by (simp add: comp_def case_prod_beta)
  have codes: "(rp_status (scrape m ready index_ready req_method path) = 404
        \<longleftrightarrow> req_method \<noteq> ''GET'' \<or> path \<notin> {''/metrics'', ''/ready'', ''/index-ready''})"
      "rp_status (scrape m ready index_ready ''GET'' ''/ready'') = 200 \<longleftrightarrow> ready"
      "rp_status (scrape m ready index_ready ''GET'' ''/index-ready'') = 200 \<longleftrightarrow> index_ready"
    by (simp_all add: scrape_def)
  have shown: "map (\<lambda>(name, kind, v). (''s3cache_'' @ name, v)) (exported m)
     = map (\<lambda>name. (''s3cache_'' @ name, unat (mt_counters m name))) COUNTERS
       @ [(''s3cache_index_objects'', objects (current_index_stats m)), (''s3cache_index_logical_bytes'', logical_bytes (current_index_stats m)),
          (''s3cache_warm_entries'', unat (mt_warm_entries m)), (''s3cache_warm_mapped_entries'', unat (mt_warm_mapped_entries m)),
          (''s3cache_warm_disk_bytes'', unat (mt_warm_disk_bytes m)), (''s3cache_warm_disk_budget_bytes'', unat (mt_warm_disk_budget_bytes m)),
          (''s3cache_warm_evictions'', unat (mt_warm_evictions m)), (''s3cache_warm_evicted_bytes'', unat (mt_warm_evicted_bytes m))]"
    by (simp add: exported_def comp_def)
  show ?thesis
    by (intro conjI names codes trans [OF read shown])
qed

section \<open>Every attempt is billed once\<close>

definition attempts_of :: "(string \<times> nat \<Rightarrow> bool) \<Rightarrow> (string \<times> nat) list \<Rightarrow> nat" where
  "attempts_of P atts = length (filter P atts)"

definition record_attempts :: "(string \<times> nat) list \<Rightarrow> metrics \<Rightarrow> metrics" where
  "record_attempts atts m = fold (\<lambda>(operation, status). record_origin operation status) atts m"

text \<open>What a counter counts, as the comments on the counters say: reads are every operation whose name starts with
  \<^verbatim>\<open>Get\<close> or \<^verbatim>\<open>Head\<close>, unbilled are those that start with \<^verbatim>\<open>Delete\<close> and the abort of an upload, and everything else
  is of class A; the object writes are five operations.\<close>

definition read_operation :: "string \<Rightarrow> bool" where
  "read_operation operation \<longleftrightarrow> (\<exists>what. operation = ''Get'' @ what \<or> operation = ''Head'' @ what)"

definition unbilled_operation :: "string \<Rightarrow> bool" where
  "unbilled_operation operation \<longleftrightarrow> (\<exists>what. operation = ''Delete'' @ what) \<or> operation = ''AbortMultipartUpload''"

definition write_operations :: "string list" where
  "write_operations = [''PutObject'', ''CopyObject'', ''UploadPart'', ''UploadPartCopy'', ''CompleteMultipartUpload'']"

definition counts :: "string \<Rightarrow> string \<times> nat \<Rightarrow> bool" where
  "counts name = (\<lambda>(operation, status).
     if name = ''origin_class_a_requests'' then \<not> read_operation operation \<and> \<not> unbilled_operation operation
     else if name = ''origin_class_b_requests'' then read_operation operation
     else if name = ''origin_free_requests'' then unbilled_operation operation
     else if name = ''origin_get_not_found'' then operation = ''GetObject'' \<and> status = 404
     else if name = ''origin_head_not_found'' then operation = ''HeadObject'' \<and> status = 404
     else if name = ''origin_write_precondition_failed'' then operation \<in> set write_operations \<and> status = 412
     else if name = ''origin_write_refused'' then operation \<in> set write_operations \<and> status \<ge> 400 \<and> status \<noteq> 412
     else False)"

lemma starts_with_append_iff: "starts_with pre s \<longleftrightarrow> (\<exists>what. s = pre @ what)"
  unfolding starts_with_def by (metis append_eq_conv_conj)

lemma class_B_iff: "origin_class_of operation = ClassB \<longleftrightarrow> read_operation operation"
  by (auto simp: origin_class_of_def read_operation_def starts_with_append_iff)

lemma class_Free_iff: "origin_class_of operation = ClassFree \<longleftrightarrow> unbilled_operation operation"
  by (auto simp: origin_class_of_def unbilled_operation_def starts_with_append_iff)

lemma class_A_iff: "origin_class_of operation = ClassA \<longleftrightarrow> \<not> read_operation operation \<and> \<not> unbilled_operation operation"
  unfolding class_B_iff [symmetric] class_Free_iff [symmetric] by (cases "origin_class_of operation") simp_all

lemma object_write_iff: "operation \<in> set write_operations \<longleftrightarrow> is_object_write operation"
  unfolding is_object_write_def write_operations_def by (simp only: list.set insert_iff empty_iff) argo

lemmas counts_code = counts_def [folded class_A_iff class_B_iff class_Free_iff, unfolded object_write_iff]

lemma bump_counter: "mt_counters (bump name m) c = mt_counters m c + (if c = name then 1 else 0)"
  by (simp add: bump_def)

lemma object_write_class: "is_object_write operation \<Longrightarrow> origin_class_of operation = ClassA"
  by (auto simp: is_object_write_def origin_class_of_def starts_with_def)

lemma read_class: "origin_class_of ''GetObject'' = ClassB" "origin_class_of ''HeadObject'' = ClassB"
  by (simp_all add: origin_class_of_def starts_with_def)

lemma not_object_write: "\<not> is_object_write ''GetObject''" "\<not> is_object_write ''HeadObject''"
  by (simp_all add: is_object_write_def)

lemma record_origin_counter:
  "mt_counters (record_origin operation status m) c = mt_counters m c + (if counts c (operation, status) then 1 else 0)"
proof -
  consider "status < 400" | "400 \<le> status" "operation = ''GetObject''" "status = 404" | "400 \<le> status" "operation = ''HeadObject''" "status = 404"
    | "is_object_write operation" "status = 412" | "is_object_write operation" "400 \<le> status" "status \<noteq> 412"
    | "400 \<le> status" "\<not> is_object_write operation" "\<not> (operation = ''GetObject'' \<and> status = 404)" "\<not> (operation = ''HeadObject'' \<and> status = 404)"
    by linarith
  then show ?thesis
  proof cases
    case 1
    then show ?thesis
      by (cases "origin_class_of operation") (simp_all add: record_origin_def Let_def bump_counter counts_code)
  next
    case 2
    then show ?thesis
      by (simp add: record_origin_def read_class bump_counter counts_code not_object_write)
  next
    case 3
    then show ?thesis
      by (simp add: record_origin_def read_class bump_counter counts_code not_object_write)
  next
    case 4
    then have "operation \<noteq> ''GetObject''" "operation \<noteq> ''HeadObject''"
      using not_object_write by auto
    then show ?thesis
      using 4 by (simp add: record_origin_def object_write_class bump_counter counts_code)
  next
    case 5
    then have "operation \<noteq> ''GetObject''" "operation \<noteq> ''HeadObject''"
      using not_object_write by auto
    then show ?thesis
      using 5 by (simp add: record_origin_def object_write_class bump_counter counts_code)
  next
    case 6
    then have none: "record_origin operation status m = (case origin_class_of operation of
        ClassA \<Rightarrow> bump ''origin_class_a_requests'' m | ClassB \<Rightarrow> bump ''origin_class_b_requests'' m
      | ClassFree \<Rightarrow> bump ''origin_free_requests'' m)"
      unfolding record_origin_def Let_def by (simp only: if_False not_less [symmetric] simp_thms)
    show ?thesis
      unfolding none using 6(2-4) by (cases "origin_class_of operation") (simp_all add: bump_counter counts_code)
  qed
qed

lemma record_attempts_counter:
  "mt_counters (record_attempts atts m) c = mt_counters m c + of_nat (attempts_of (counts c) atts)"
  unfolding record_attempts_def attempts_of_def
proof (induction atts arbitrary: m)
  case (Cons a atts)
  obtain operation status where "a = (operation, status)"
    by (cases a)
  then show ?case
    using Cons [of "record_origin operation status m"] by (simp add: record_origin_counter)
qed simp

lemma attempts_disjoint_le:
  assumes "\<And>a. P a \<Longrightarrow> R a" "\<And>a. Q a \<Longrightarrow> R a" "\<And>a. P a \<Longrightarrow> \<not> Q a"
  shows "attempts_of P atts + attempts_of Q atts \<le> attempts_of R atts"
  using assms by (induction atts) (auto simp: attempts_of_def)

text \<open>C24: Every answered attempt is billed once, and its cost is explained. Recording any sequence of attempts adds to each
  counter, modulo its width, the number of attempts it is documented to count, and to no other counter; the three classes
  together count every attempt; every list, put and create, and every object write, is of Class A; the refused writes are among
  the Class A requests and the missing reads among the Class B requests.\<close>

theorem attempts_accounted:
  "mt_counters (record_attempts atts m) c = mt_counters m c + of_nat (attempts_of (counts c) atts)
   \<and> attempts_of (counts ''origin_class_a_requests'') atts + attempts_of (counts ''origin_class_b_requests'') atts
       + attempts_of (counts ''origin_free_requests'') atts = length atts
   \<and> counts ''origin_class_a_requests'' (''List'' @ what, status) \<and> counts ''origin_class_a_requests'' (''Put'' @ what, status)
   \<and> counts ''origin_class_a_requests'' (''Create'' @ what, status)
   \<and> list_all (\<lambda>operation. counts ''origin_class_a_requests'' (operation, status)) write_operations
   \<and> attempts_of (counts ''origin_write_precondition_failed'') atts + attempts_of (counts ''origin_write_refused'') atts
       \<le> attempts_of (counts ''origin_class_a_requests'') atts
   \<and> attempts_of (counts ''origin_get_not_found'') atts + attempts_of (counts ''origin_head_not_found'') atts
       \<le> attempts_of (counts ''origin_class_b_requests'') atts"
proof (intro conjI record_attempts_counter)
  show "attempts_of (counts ''origin_class_a_requests'') atts + attempts_of (counts ''origin_class_b_requests'') atts
      + attempts_of (counts ''origin_free_requests'') atts = length atts"
  proof (induction atts)
    case (Cons a atts)
    then show ?case
      by (cases a; cases "origin_class_of (fst a)") (simp_all add: attempts_of_def counts_code)
  qed (simp add: attempts_of_def)
  show "counts ''origin_class_a_requests'' (''List'' @ what, status)" "counts ''origin_class_a_requests'' (''Put'' @ what, status)"
      "counts ''origin_class_a_requests'' (''Create'' @ what, status)"
    by (simp_all add: counts_def read_operation_def unbilled_operation_def)
  show "list_all (\<lambda>operation. counts ''origin_class_a_requests'' (operation, status)) write_operations"
    by (simp add: counts_code list_all_iff object_write_iff object_write_class)
  show "attempts_of (counts ''origin_write_precondition_failed'') atts + attempts_of (counts ''origin_write_refused'') atts
      \<le> attempts_of (counts ''origin_class_a_requests'') atts"
    by (rule attempts_disjoint_le) (auto simp: counts_code object_write_class)
  show "attempts_of (counts ''origin_get_not_found'') atts + attempts_of (counts ''origin_head_not_found'') atts
      \<le> attempts_of (counts ''origin_class_b_requests'') atts"
    by (rule attempts_disjoint_le) (auto simp: counts_code read_class)
qed

end
