(* ===== verification/Warm_Store.thy ===== *)
theory Warm_Store
  imports Accounting Tier
begin

text \<open>
  The calls of the object-body cache into its tier store, with what they count (\<^verbatim>\<open>Core\<close> and \<^verbatim>\<open>open_warm\<close> in
  \<^verbatim>\<open>src/src/tier.rs\<close>). The tier store is \<^verbatim>\<open>tierstore\<close>'s: its report of a lookup, whether it took, dropped or cleared, and the
  statistics of the disk are answers.
\<close>

section \<open>Calls\<close>

record 'v lookup_report =
  lr_failures :: nat
  lr_hit :: "(nat \<times> 'v) option"

text \<open>\<open>disk\<close> is the disk store's statistics at the call, if there is a warm tier.\<close>

definition core_observe_warm :: "disk_stats option \<Rightarrow> metrics \<Rightarrow> metrics" where
  "core_observe_warm disk m = (case disk of None \<Rightarrow> m | Some s \<Rightarrow> observe_warm s m)"

definition core_lookup :: "disk_stats option \<Rightarrow> 'v lookup_report option \<Rightarrow> metrics \<Rightarrow> 'v option \<times> metrics" where
  "core_lookup disk report m = (case report of
       None \<Rightarrow> (None, m)
     | Some r \<Rightarrow>
         let m = (if lr_failures r > 0 then bump ''warm_error'' m else m) in
         (case lr_hit r of
            Some (tier, v) \<Rightarrow> (Some v, if tier > 0 then core_observe_warm disk (bump ''warm_hit'' m) else m)
          | None \<Rightarrow> (None, if disk \<noteq> None then core_observe_warm disk (bump ''warm_miss'' m) else m)))"

definition core_insert :: "disk_stats option \<Rightarrow> bool \<Rightarrow> metrics \<Rightarrow> metrics" where
  "core_insert disk taken m = core_observe_warm disk (if taken then m else bump ''warm_error'' m)"

definition core_invalidate :: "disk_stats option \<Rightarrow> bool \<Rightarrow> metrics \<Rightarrow> metrics" where
  "core_invalidate disk dropped m = core_observe_warm disk (if dropped then m else bump ''warm_error'' m)"

definition core_flush :: "disk_stats option \<Rightarrow> bool \<Rightarrow> metrics \<Rightarrow> metrics" where
  "core_flush disk cleared m = (if disk = None then m else core_observe_warm disk (if cleared then m else bump ''warm_error'' m))"

definition WARM_TOO_LARGE :: string where
  "WARM_TOO_LARGE = ''encoded object exceeds S3CACHE_MAX_OBJECT_BYTES''"

text \<open>The codec of the warm tier, and the budget its store is opened with.\<close>

definition warm_codec :: "warm_env \<Rightarrow> nat \<Rightarrow> cache_key \<Rightarrow> cached_object \<Rightarrow> metrics \<Rightarrow> (warm_error + bytes) \<times> metrics" where
  "warm_codec env max_obj_bytes key obj m = (case encode_warm_record env key obj max_obj_bytes of
       Inl e \<Rightarrow> (Inl e, m)
     | Inr (Some bs) \<Rightarrow> (Inr bs, m)
     | Inr None \<Rightarrow> (Inl (WarmError WARM_TOO_LARGE), bump ''warm_rejects'' m))"

definition open_warm_budget :: "nat \<Rightarrow> nat" where
  "open_warm_budget disk_bytes = max disk_bytes 1"

definition hot_weight :: "cached_object \<Rightarrow> nat" where
  "hot_weight obj = (if length (co_body obj) < 2 ^ 32 then length (co_body obj) else 2 ^ 32 - 1)"

section \<open>What the warm counters tell\<close>

lemma observe_warm_counters [simp]: "mt_counters (core_observe_warm disk m) = mt_counters m"
  by (simp add: core_observe_warm_def observe_warm_def split: option.split)

definition lookups :: "disk_stats option \<Rightarrow> 'v lookup_report option list \<Rightarrow> metrics \<Rightarrow> metrics" where
  "lookups disk reports m = fold (\<lambda>r m. snd (core_lookup disk r m)) reports m"

definition below_hot :: "'v lookup_report option \<Rightarrow> bool" where
  "below_hot r = (case r of None \<Rightarrow> False | Some r \<Rightarrow> (case lr_hit r of None \<Rightarrow> True | Some (tier, _) \<Rightarrow> tier > 0))"

text \<open>On a node with a warm tier the warm hits and misses together count exactly the lookups that went below the hot tier, and
  the errors are not mixed with the records the size cap turned away.\<close>

theorem warm_lookups_counted:
  "mt_counters (lookups (Some d) reports m) ''warm_hit'' + mt_counters (lookups (Some d) reports m) ''warm_miss''
     = mt_counters m ''warm_hit'' + mt_counters m ''warm_miss'' + of_nat (length (filter below_hot reports))
   \<and> mt_counters (lookups (Some d) reports m) ''warm_rejects'' = mt_counters m ''warm_rejects''"
proof (induction reports arbitrary: m)
  case (Cons r reports)
  have one: "mt_counters (snd (core_lookup (Some d) r m)) ''warm_hit'' + mt_counters (snd (core_lookup (Some d) r m)) ''warm_miss''
      = mt_counters m ''warm_hit'' + mt_counters m ''warm_miss'' + (if below_hot r then 1 else 0)"
    and rej: "mt_counters (snd (core_lookup (Some d) r m)) ''warm_rejects'' = mt_counters m ''warm_rejects''"
    by (auto simp: core_lookup_def below_hot_def bump_counter Let_def split: option.split)
  have step: "lookups (Some d) (r # reports) m = lookups (Some d) reports (snd (core_lookup (Some d) r m))"
    by (simp add: lookups_def)
  show ?case
    unfolding step using Cons [of "snd (core_lookup (Some d) r m)"] one rej by (simp add: algebra_simps)
qed (simp add: lookups_def)

text \<open>A record over the cap is an error to the store, counted once as rejected; a record that fits leaves the counters alone.\<close>

theorem warm_codec_rejects_once:
  "(\<exists>bs. fst (warm_codec env cap key obj m) = Inr bs) \<longleftrightarrow> (\<exists>bs. encode_warm_record env key obj cap = Inr (Some bs))"
  "mt_counters (snd (warm_codec env cap key obj m)) c
     = mt_counters m c + (if c = ''warm_rejects'' \<and> encode_warm_record env key obj cap = Inr None then 1 else 0)"
  by (auto simp: warm_codec_def bump_counter split: sum.split option.split)

end
