(* ===== verification/Spec2Isabelle.thy ===== *)
theory Spec2Isabelle
  imports Journal Fills Write_Props Start Copy_Conditions Warm_Store
begin

text \<open>
  \<^bold>\<open>A verification library for s3cache\<close>, a caching proxy in front of an S3-compatible origin. A node keeps
  three things in memory: an index of the keys of each bucket, from which it answers LIST and some HEAD requests; a
  tiered cache of object bodies, from which it answers GET and HEAD; and its positions in the write feeds of its peers.
  Every mutation goes to the origin first, is then applied to the index, drops the cached body and is published on the
  node's feed, which the peers fold into their own indexes. A node whose index is cold scans the origin, or installs the
  image of a peer's index and replays that peer's journal on top of it.

  \<^bold>\<open>How the code is represented.\<close> A Rust structure is a record, an enum a datatype, a fallible function returns a
  sum (the error on the left) or an option. 64-bit unsigned integers are naturals with the checked, saturating or
  wrapping operation of the source written out (\<^verbatim>\<open>Prelude\<close>); strings are the lists of their UTF-8 bytes. An
  operation that takes a lock is one function of the state it locks. Where the code awaits, other tasks of the node
  may run: the object-body cache is an interleaving step relation (\<^verbatim>\<open>Fills\<close>), and the request handlers
  (\<^verbatim>\<open>Reads\<close>, \<^verbatim>\<open>Writes\<close>) hand the node to the environment at each pause, which may change it in any
  way. A scan hands the index to the other tasks before each page (\<^verbatim>\<open>ev_others\<close>), a recovery rebuild also before each
  reset (\<^verbatim>\<open>rb_others\<close>), a warm-up also before each attempt (\<^verbatim>\<open>wa_others\<close>); a theorem that needs the buckets of the
  scan left alone says so with \<^verbatim>\<open>others_keep\<close>. Third-party code is a parameter: the origin, the S3 client, \<^verbatim>\<open>groupnet\<close> (feed positions, waits, leases, cut
  comparison), \<^verbatim>\<open>postcard\<close>, base64, \<^verbatim>\<open>blake3\<close>, the entity-tag parser of \<^verbatim>\<open>s3s\<close>, \<^verbatim>\<open>size_of\<close> of the
  Rust types. What the program relies on of such a parameter is a named predicate (\<^verbatim>\<open>token_laws\<close>,
  \<^verbatim>\<open>codec_laws\<close>, \<^verbatim>\<open>warm_laws\<close>) or a locale, each shown to be satisfiable by a concrete instance.

  \<^bold>\<open>The index\<close> (\<^verbatim>\<open>src/src/index.rs\<close>, \<^verbatim>\<open>src/src/index/rows.rs\<close>).
  \<^item> \<^verbatim>\<open>Entry\<close>: the entry of a key, its statistics and the origin's times.
  \<^item> \<^verbatim>\<open>Rows\<close>: live rows and tombstones with their running size tallies, and the incremental sweep of old
    tombstones. The locale \<^verbatim>\<open>tallied_rows\<close> states that a tally equals the sum over the rows; it is interpreted on
    both kinds of rows.
  \<^item> \<^verbatim>\<open>Index\<close>: the state of the index and every operation that changes it. \<^verbatim>\<open>Index_Inv\<close> has the invariant and
    that each operation keeps it, \<^verbatim>\<open>Index_Steps\<close> the step relation with one rule per operation.
  \<^item> \<^verbatim>\<open>Lww\<close>: the abstract specification, last writer wins per key, with its refinement and the convergence of
    replicas. \<^verbatim>\<open>Index_Props\<close>: fences and their tokens, rebuild generations, LIST pages against writes, duplicate
    suppression of native positions.
  \<^item> \<^verbatim>\<open>List_Token\<close>, \<^verbatim>\<open>Listing\<close>: continuation tokens (\<^verbatim>\<open>src/src/list_token.rs\<close>) and the LIST page loop and HEAD
    answers of \<^verbatim>\<open>index.rs\<close>, against a reference listing defined without pages.
  \<^item> \<^verbatim>\<open>Scan\<close>: the split LIST scan of \<^verbatim>\<open>src/src/index/scan.rs\<close> that rebuilds a bucket from the origin.

  \<^bold>\<open>Fleet images\<close> (\<^verbatim>\<open>src/src/index/fleet.rs\<close> and \<^verbatim>\<open>src/src/index/fleet/\<close>).
  \<^item> \<^verbatim>\<open>Image_Codec\<close>: the bounded writer and reader; the locale \<^verbatim>\<open>field_codec\<close>, interpreted on the integer, text and
    time fields, gives the round trip of a sequence of fields. \<^verbatim>\<open>Legacy\<close> does the same for the read-only decoder of
    \<^verbatim>\<open>src/src/codec/legacy.rs\<close> with the locale \<^verbatim>\<open>legacy_codec\<close>.
  \<^item> \<^verbatim>\<open>Delta\<close>: the journalled effects and the capture that appends them (\<^verbatim>\<open>delta.rs\<close>, \<^verbatim>\<open>IndexCapture\<close>).
    \<^verbatim>\<open>Image\<close>: sizing, snapshot, measuring, encoding and decoding (\<^verbatim>\<open>fleet.rs\<close>, \<^verbatim>\<open>snapshot.rs\<close>).
  \<^item> \<^verbatim>\<open>Install\<close>: the guarded swap of a follower (\<^verbatim>\<open>install.rs\<close>). \<^verbatim>\<open>Stage\<close>: chunks, verification and replay
    (\<^verbatim>\<open>stage.rs\<close>), and that a stage which follows a donor's journal ends with the donor's rows.
  \<^item> \<^verbatim>\<open>Capture\<close>: the donor's capture (\<^verbatim>\<open>capture.rs\<close>): the cut taken under the lock, encoding, handing over and
    retiring; a step relation over any number of owners shows that no permit and no ingress leaks. \<^verbatim>\<open>Bootstrap\<close>: both
    ends of a transfer (\<^verbatim>\<open>src/src/sync/volatile/fleet.rs\<close> and \<^verbatim>\<open>src/src/sync/volatile/fleet/\<close>): the guarded recapture, the
    offer and its chunks, and the effects of a follower up to the guarded install.

  \<^bold>\<open>The durable control history\<close> (\<^verbatim>\<open>src/src/sync/control/\<close>).
  \<^item> \<^verbatim>\<open>Control\<close>: record types, framed codec, and the projection of unresolved mutations. \<^verbatim>\<open>Journal\<close>: open, append
    and scan over a conditional store. The locale \<^verbatim>\<open>slot_store\<close> is what the journal needs of a store, and
    \<^verbatim>\<open>conditional_client\<close> what the S3 store needs of a client; a sublocale proves the first from the second.

  \<^bold>\<open>The object-body cache\<close> (\<^verbatim>\<open>src/src/tier.rs\<close>).
  \<^item> \<^verbatim>\<open>Tier\<close>: cached bodies, byte ranges, buffering against a cap, and the warm record format.
    \<^verbatim>\<open>Fills\<close>: fills, observations and invalidations as interleaved steps, with safety and progress. A tier may fail to
    delete and its copy then lingers (\<^verbatim>\<open>cs_lingers\<close> here, the answer \<^verbatim>\<open>re_left\<close> in \<^verbatim>\<open>Reads\<close>), and an insert may be refused;
    the safety theorems name such a copy as the exception it is.
    \<^verbatim>\<open>Warm_Store\<close>: the calls into the tier store and what they count.

  \<^bold>\<open>Feed and request paths\<close> (\<^verbatim>\<open>src/src/sync/wire.rs\<close>, \<^verbatim>\<open>src/src/sync/coherence.rs\<close>, \<^verbatim>\<open>src/src/cache/\<close>).
  \<^item> \<^verbatim>\<open>Feed\<close>: events, session tokens, own writes, and the fold of a peer's event into the index. \<^verbatim>\<open>Apply\<close>: the
    apply loop over a peer's events, with its evictions and acknowledgements, and what it keeps of the peers' planned stops
    (\<^verbatim>\<open>src/src/sync/stop.rs\<close>).
  \<^item> \<^verbatim>\<open>Stop\<close>: the planned stop (\<^verbatim>\<open>src/src/cache/stop.rs\<close>): mutation tails, closing, draining and sealing as interleaved
    steps. \<^verbatim>\<open>Readiness\<close>: the readiness probes and the capability declaration (\<^verbatim>\<open>src/src/cache/readiness.rs\<close>,
    \<^verbatim>\<open>src/src/sync/readiness.rs\<close>, \<^verbatim>\<open>src/src/sync/advertise.rs\<close>).
  \<^item> \<^verbatim>\<open>Reads\<close>, \<^verbatim>\<open>Read_Props\<close>: the freshness barrier, the final gate, revalidation, GET, HEAD and LIST; every answer
    is the origin's own or a local one under an explicit entitlement.
  \<^item> \<^verbatim>\<open>Writes\<close>, \<^verbatim>\<open>Write_Props\<close>: PUT, DELETE, batch delete, multipart completion, copy, bucket deletion and the
    reconciliation of unknown outcomes; what each publishes, caches and answers for each answer of the origin. The promises
    are stated without the code's own classification: \<^verbatim>\<open>definite_refusal\<close> (the statuses that prove a refusal),
    \<^verbatim>\<open>cluster_guarantee\<close> (what an acknowledgement means in each mode) and \<^verbatim>\<open>batch_report\<close> (what the answer to a batch
    delete says of the keys deleted). \<^verbatim>\<open>quiet_batch_hides_delete\<close> is where that report does not suffice.
    \<^verbatim>\<open>Copy_Conditions\<close>: the conditions of a copy's destination (\<^verbatim>\<open>src/src/cache/copy.rs\<close>).

  \<^bold>\<open>Recovery, settings and accounting\<close> (\<^verbatim>\<open>src/src/sync/volatile.rs\<close>, \<^verbatim>\<open>src/src/config.rs\<close>,
  \<^verbatim>\<open>src/src/sync/config.rs\<close>, \<^verbatim>\<open>src/src/sync/fleet/\<close>, \<^verbatim>\<open>src/src/metrics.rs\<close>).
  \<^item> \<^verbatim>\<open>Text_Lib\<close>: the string and number parsing of the standard library the readers use, with round trips.
    \<^verbatim>\<open>Fleet_Config\<close>: the peer book, against the grammars \<^verbatim>\<open>address_ok\<close> and \<^verbatim>\<open>endpoint_ok\<close> that name no parser, the scope
    of an index and boot identities. \<^verbatim>\<open>Settings\<close>: the environment, read
    back as it is written, and the start of coherence.
  \<^item> \<^verbatim>\<open>Recovery\<close>: the adapter to \<^verbatim>\<open>groupnet\<close>'s recovery: what it reports of the peers, the limits it sets, and the
    origin rebuild of every bucket under a publication permit, which publishes all or leaves the rest to the origin. \<^verbatim>\<open>Start\<close>: the
    settings of the proxy, the opening of a recovery with or without the peer bootstrap, the order of a start, and the warm-up of
    a node without peers.
  \<^item> \<^verbatim>\<open>Accounting\<close>: the counters, their two printed forms and the scrape, and the billing class of each origin attempt
    (\<^verbatim>\<open>src/src/cache/origin.rs\<close>), against the classes as documented (\<^verbatim>\<open>read_operation\<close>, \<^verbatim>\<open>unbilled_operation\<close>,
    \<^verbatim>\<open>write_operations\<close>).

  \<^bold>\<open>Loops, bounds and fuel.\<close> Every loop of the code that is not over a finite collection carries fuel or a step bound,
  and the bound is shown to be enough: following continuation tokens needs one page per row and one more
  (\<^verbatim>\<open>list_paging_complete\<close>); a range scan one request per object and one more (\<^verbatim>\<open>scan_range_completes\<close>); the
  interleaved tasks of the cache end within a measure of their state under every schedule (\<^verbatim>\<open>tasks_quiesce\<close>); the
  reconciliation of a key ends within the number of HEAD requests the origin takes to answer one
  (\<^verbatim>\<open>reconciliation_ends\<close>); a warm-up retries through any number of failed scans, with waits of at most a minute
  (\<^verbatim>\<open>warm_up_completes\<close>). The size tallies wrap as the code's do; they are exact because the measured size is bounded.

  \<^bold>\<open>Not modelled.\<close> The wiring of the process (\<^verbatim>\<open>main.rs\<close>: sockets, client construction, spawned tasks, signals), the
  loops of the HTTP listeners, logging, the operations that forward a request unchanged, the cache store behind the tiers
  and its eviction (an eviction is a change by another task), the scan probe, and \<^verbatim>\<open>groupnet\<close>'s
  recovery and bootstrap state machines, which are in that library.
  Allocation failure is left out: the allocator grants what is asked. Poisoned locks are left out.
\<close>

end
